(* ===== verification/Ilsim_Prelude.thy ===== *)
theory Ilsim_Prelude
  imports Main "HOL-Library.Word"
begin

text \<open>
  Shared vocabulary of the development: fixed-width integer types, the model of
  \<open>std::map\<close> as an association list in key order, saturating 64-bit addition,
  calls that may throw as values of a sum type, and the interfaces (locales) that several components instantiate:
  \<^item> \<open>machine\<close>: an invariant kept by every step, lifted to runs;
  \<^item> \<open>refining_machine\<close>: a machine whose steps simulate an abstract one.
\<close>

unbundle bit_operations_syntax

section \<open>Machine integers\<close>

type_synonym u8 = "8 word"
type_synonym u16 = "16 word"
type_synonym u32 = "32 word"
type_synonym u64 = "64 word"

lemma unat_u32: "unat (x :: u32) < 2 ^ 32"
  using unsigned_less [of x, where ?'a = nat] by simp

text \<open>\<open>std::numeric_limits<std::uint64_t>::max()\<close> and its 32-bit counterpart, for the
  components whose counters are kept as naturals with the bound written out.\<close>

definition u64_max :: nat where
  "u64_max = 2 ^ 64 - 1"

definition u32_max :: nat where
  "u32_max = 2 ^ 32 - 1"

lemma u64_max_eq: "u64_max = 18446744073709551615"
  by (simp add: u64_max_def)

lemma u32_max_eq: "u32_max = 4294967295"
  by (simp add: u32_max_def)

named_theorems omap_simps \<open>lookup laws of the ordered map operations\<close>

lemma option_eqI: "(\<And>p. x = Some p \<longleftrightarrow> y = Some p) \<Longrightarrow> x = y"
  by (cases x; cases y) auto

lemma find_append: "find P (xs @ ys) = (case find P xs of None \<Rightarrow> find P ys | Some x \<Rightarrow> Some x)"
  by (induction xs) auto

lemma case_filter_find:
  "(case filter P xs of [] \<Rightarrow> None | e # _ \<Rightarrow> Some (f e)) = map_option f (find P xs)"
  by (induction xs) auto

section \<open>Ordered maps\<close>

text \<open>
  \<open>std::map\<close> iterates in key order. It is modelled by the list of its entries; the
  well-formedness predicate says that the keys increase strictly. Lookup is \<open>map_of\<close>.
\<close>

type_synonym ('k, 'v) omap = "('k \<times> 'v) list"

definition om_wf :: "('k::linorder, 'v) omap \<Rightarrow> bool" where
  "om_wf m \<longleftrightarrow> sorted_wrt (\<lambda>a b. fst a < fst b) m"

text \<open>\<open>m[k] = v\<close> / \<open>insert_or_assign\<close>.\<close>

fun om_put :: "'k::linorder \<Rightarrow> 'v \<Rightarrow> ('k, 'v) omap \<Rightarrow> ('k, 'v) omap" where
  "om_put k v [] = [(k, v)]"
| "om_put k v ((k', v') # m) =
     (if k < k' then (k, v) # (k', v') # m
      else if k = k' then (k, v) # m
      else (k', v') # om_put k v m)"

text \<open>\<open>emplace\<close> keeps the entry that is there already.\<close>

definition om_emplace :: "'k::linorder \<Rightarrow> 'v \<Rightarrow> ('k, 'v) omap \<Rightarrow> ('k, 'v) omap" where
  "om_emplace k v m = (if map_of m k = None then om_put k v m else m)"

definition om_erase :: "'k \<Rightarrow> ('k, 'v) omap \<Rightarrow> ('k, 'v) omap" where
  "om_erase k m = filter (\<lambda>e. fst e \<noteq> k) m"

text \<open>The entries from \<open>lower_bound(k)\<close> (\<open>upper_bound(k)\<close>) to \<open>end()\<close>, and those before.\<close>

definition om_lower :: "'k::linorder \<Rightarrow> ('k, 'v) omap \<Rightarrow> ('k, 'v) omap" where
  "om_lower k m = dropWhile (\<lambda>e. fst e < k) m"

definition om_before_lower :: "'k::linorder \<Rightarrow> ('k, 'v) omap \<Rightarrow> ('k, 'v) omap" where
  "om_before_lower k m = takeWhile (\<lambda>e. fst e < k) m"

definition om_upper :: "'k::linorder \<Rightarrow> ('k, 'v) omap \<Rightarrow> ('k, 'v) omap" where
  "om_upper k m = dropWhile (\<lambda>e. fst e \<le> k) m"

definition om_before_upper :: "'k::linorder \<Rightarrow> ('k, 'v) omap \<Rightarrow> ('k, 'v) omap" where
  "om_before_upper k m = takeWhile (\<lambda>e. fst e \<le> k) m"

lemma om_wf_Nil [simp]: "om_wf []"
  by (simp add: om_wf_def)

lemma om_wf_Cons: "om_wf (e # m) \<longleftrightarrow> (\<forall>e'\<in>set m. fst e < fst e') \<and> om_wf m"
  by (auto simp: om_wf_def)

lemma om_wf_distinct: "om_wf m \<Longrightarrow> distinct (map fst m)"
  by (induction m) (auto simp: om_wf_Cons)

lemma om_put_lookup [simp, omap_simps]: "map_of (om_put k v m) = (map_of m)(k \<mapsto> v)"
  by (induction k v m rule: om_put.induct) (auto simp: fun_eq_iff)

lemma om_erase_lookup [simp, omap_simps]: "map_of (om_erase k m) = (map_of m)(k := None)"
  by (induction m) (auto simp: om_erase_def fun_eq_iff)

lemma om_emplace_lookup [simp, omap_simps]:
  "map_of (om_emplace k v m) = (if map_of m k = None then (map_of m)(k \<mapsto> v) else map_of m)"
  by (simp add: om_emplace_def)

lemma om_put_keys [simp]: "fst ` set (om_put k v m) = insert k (fst ` set m)"
  by (induction k v m rule: om_put.induct) auto

lemma om_put_fst: "e \<in> set (om_put k v m) \<Longrightarrow> fst e = k \<or> fst e \<in> fst ` set m"
  by (metis imageI insertE om_put_keys)

lemma om_put_wf [simp]: "om_wf m \<Longrightarrow> om_wf (om_put k v m)"
proof (induction k v m rule: om_put.induct)
  case (2 k v k' v' m)
  then show ?case by (force simp: om_wf_Cons dest: om_put_fst)
qed (simp add: om_wf_Cons)

lemma om_emplace_wf [simp]: "om_wf m \<Longrightarrow> om_wf (om_emplace k v m)"
  by (simp add: om_emplace_def)

lemma om_erase_wf [simp]: "om_wf m \<Longrightarrow> om_wf (om_erase k m)"
  by (simp add: om_erase_def om_wf_def sorted_wrt_filter)

lemma om_erase_keys [simp]: "fst ` set (om_erase k m) = fst ` set m - {k}"
  by (auto simp: om_erase_def)

lemma om_lookup_mem: "om_wf m \<Longrightarrow> (k, v) \<in> set m \<longleftrightarrow> map_of m k = Some v"
  by (metis map_of_eq_Some_iff om_wf_distinct)

lemma om_put_set:
  "om_wf m \<Longrightarrow> set (om_put k v m) = insert (k, v) {e \<in> set m. fst e \<noteq> k}"
proof -
  assume wf: "om_wf m"
  have "(a, b) \<in> set (om_put k v m) \<longleftrightarrow> (a, b) \<in> insert (k, v) {e \<in> set m. fst e \<noteq> k}" for a b
    using wf by (auto simp: om_lookup_mem)
  then show ?thesis by auto
qed

lemma om_split_lower: "om_before_lower k m @ om_lower k m = m"
  by (simp add: om_before_lower_def om_lower_def)

lemma om_split_upper: "om_before_upper k m @ om_upper k m = m"
  by (simp add: om_before_upper_def om_upper_def)

lemma om_lower_wf: "om_wf m \<Longrightarrow> set (om_lower k m) = {e \<in> set m. k \<le> fst e}"
proof (induction m)
  case (Cons e m)
  show ?case
  proof (cases "fst e < k")
    case True
    with Cons show ?thesis by (auto simp: om_lower_def om_wf_Cons)
  next
    case False
    with Cons.prems have "\<forall>e'\<in>set (e # m). k \<le> fst e'"
      by (auto simp: om_wf_Cons intro: less_imp_le order_trans)
    with False show ?thesis by (auto simp: om_lower_def)
  qed
qed (simp add: om_lower_def)

lemma om_upper_wf: "om_wf m \<Longrightarrow> set (om_upper k m) = {e \<in> set m. k < fst e}"
proof (induction m)
  case (Cons e m)
  show ?case
  proof (cases "fst e \<le> k")
    case True
    with Cons show ?thesis by (auto simp: om_upper_def om_wf_Cons)
  next
    case False
    with Cons.prems have "\<forall>e'\<in>set (e # m). k < fst e'"
      by (auto simp: om_wf_Cons not_le intro: order_less_trans)
    with False show ?thesis by (auto simp: om_upper_def)
  qed
qed (simp add: om_upper_def)

text \<open>Two well-formed ordered maps with the same lookups are the same list.\<close>

lemma om_wf_ext: "om_wf m \<Longrightarrow> om_wf m' \<Longrightarrow> map_of m = map_of m' \<Longrightarrow> m = m'"
proof -
  assume wf: "om_wf m" "om_wf m'" and eq: "map_of m = map_of m'"
  have "set m = set m'"
    using wf eq by (metis om_lookup_mem subrelI subset_antisym)
  moreover have "sorted_wrt (\<lambda>a b. fst a < fst b) m" "sorted_wrt (\<lambda>a b. fst a < fst b) m'"
    using wf by (simp_all add: om_wf_def)
  moreover have "sorted_wrt (\<lambda>a b. fst a < fst b) xs \<Longrightarrow> sorted_wrt (\<lambda>a b. fst a < fst b) ys \<Longrightarrow>
      set xs = set ys \<Longrightarrow> xs = ys" for xs ys :: "('a \<times> 'b) list"
  proof (induction xs arbitrary: ys)
    case (Cons x xs)
    then obtain y ys' where ys: "ys = y # ys'" by (cases ys) auto
    have "x = y"
      using Cons.prems ys by (metis list.set_intros(1) order_less_asym set_ConsD sorted_wrt.simps(2))
    moreover from this have "set xs = set ys'"
      using Cons.prems ys by (auto dest: set_eq_iff[THEN iffD1])
    ultimately show ?case using Cons ys by simp
  qed simp
  ultimately show ?thesis by blast
qed

section \<open>Saturating arithmetic\<close>

text \<open>\<open>saturating_add\<close> of \<open>src/mach/xnu_scheduler.cpp\<close> on 64-bit values.\<close>

definition saturating_add :: "nat \<Rightarrow> nat \<Rightarrow> nat" where
  "saturating_add left right = (if right > u64_max - left then u64_max else left + right)"

lemma saturating_add_bound: "left \<le> u64_max \<Longrightarrow> saturating_add left right \<le> u64_max"
  by (simp add: saturating_add_def not_less le_diff_conv2 add.commute)

lemma saturating_add_min:
  "left \<le> u64_max \<Longrightarrow> saturating_add left right = min u64_max (left + right)"
  by (auto simp: saturating_add_def)

lemma saturating_add_ge: "left \<le> u64_max \<Longrightarrow> left \<le> saturating_add left right"
  by (simp add: saturating_add_def)

section \<open>Operations that may throw\<close>

text \<open>
  A call that may throw returns \<open>Inl error\<close> or \<open>Inr result\<close>; \<open>and_then\<close> sequences two calls
  and \<open>each\<close> is a range-based \<open>for\<close> over one. \<open>returns m P\<close> says that the call \<open>m\<close> does return,
  with a result that satisfies \<open>P\<close>; its rules compose like those of a program logic.
\<close>

definition and_then :: "'e + 'a \<Rightarrow> ('a \<Rightarrow> 'e + 'b) \<Rightarrow> 'e + 'b" where
  "and_then m f = (case m of Inl e \<Rightarrow> Inl e | Inr x \<Rightarrow> f x)"

lemma and_then_simps [simp]:
  "and_then (Inl e) f = Inl e"
  "and_then (Inr x) f = f x"
  by (simp_all add: and_then_def)

lemma and_then_cong [fundef_cong]:
  "m = m' \<Longrightarrow> (\<And>x. m' = Inr x \<Longrightarrow> f x = g x) \<Longrightarrow> and_then m f = and_then m' g"
  by (cases m') auto

lemma and_then_Inr: "and_then m f = Inr y \<longleftrightarrow> (\<exists>x. m = Inr x \<and> f x = Inr y)"
  by (cases m) auto

fun each :: "('a \<Rightarrow> 's \<Rightarrow> 'e + 's) \<Rightarrow> 'a list \<Rightarrow> 's \<Rightarrow> 'e + 's" where
  "each f [] s = Inr s"
| "each f (x # xs) s = and_then (f x s) (each f xs)"

definition returns :: "'e + 'a \<Rightarrow> ('a \<Rightarrow> bool) \<Rightarrow> bool" where
  "returns m P \<longleftrightarrow> (\<exists>x. m = Inr x \<and> P x)"

lemma returns_Inr [simp]: "returns (Inr x) P \<longleftrightarrow> P x"
  by (simp add: returns_def)

lemma returns_Inl [simp]: "\<not> returns (Inl e) P"
  by (simp add: returns_def)

lemma returnsI: "m = Inr x \<Longrightarrow> P x \<Longrightarrow> returns m P"
  by (simp add: returns_def)

lemma returnsE: "returns m P \<Longrightarrow> (\<And>x. m = Inr x \<Longrightarrow> P x \<Longrightarrow> thesis) \<Longrightarrow> thesis"
  by (auto simp: returns_def)

lemma returns_mono: "returns m P \<Longrightarrow> (\<And>x. P x \<Longrightarrow> Q x) \<Longrightarrow> returns m Q"
  by (auto simp: returns_def)

lemma returns_and_then:
  "returns m P \<Longrightarrow> (\<And>x. P x \<Longrightarrow> returns (f x) Q) \<Longrightarrow> returns (and_then m f) Q"
  by (auto simp: returns_def and_then_def)

lemma returns_each:
  "P s \<Longrightarrow> (\<And>x s. x \<in> set xs \<Longrightarrow> P s \<Longrightarrow> returns (f x s) P) \<Longrightarrow> returns (each f xs s) P"
proof (induction xs arbitrary: s)
  case (Cons x xs)
  have "returns (f x s) P" using Cons.prems by simp
  then show ?case
    unfolding each.simps by (rule returns_and_then) (rule Cons.IH, auto intro: Cons.prems)
qed simp

section \<open>State machines and their refinement\<close>

text \<open>
  A component with state is a step function over its operations. The interface promises an
  initial state inside the invariant and steps that keep it; every run then keeps it.
\<close>

locale machine =
  fixes init :: "'s"
    and step :: "'s \<Rightarrow> 'e \<Rightarrow> 's"
    and inv :: "'s \<Rightarrow> bool"
  assumes init_inv: "inv init"
    and step_inv: "inv s \<Longrightarrow> inv (step s e)"
begin

lemma run_inv_from: "inv s \<Longrightarrow> inv (foldl step s es)"
  by (induction es arbitrary: s) (auto simp: step_inv)

lemma run_inv: "inv (foldl step init es)"
  by (rule run_inv_from [OF init_inv])

end

locale refining_machine = machine +
  fixes astep :: "'a \<Rightarrow> 'e \<Rightarrow> 'a"
    and abs :: "'s \<Rightarrow> 'a"
  assumes step_abs: "inv s \<Longrightarrow> abs (step s e) = astep (abs s) e"
begin

lemma run_abs_from: "inv s \<Longrightarrow> abs (foldl step s es) = foldl astep (abs s) es"
  by (induction es arbitrary: s) (auto simp: step_inv step_abs)

lemma run_abs: "abs (foldl step init es) = foldl astep (abs init) es"
  by (rule run_abs_from [OF init_inv])

end

end
