(* ===== verification/Vm_Map.thy ===== *)
theory Vm_Map
  imports Ilsim_Prelude
begin

text \<open>
  The guest's memory map: \<open>MemoryPermission\<close> (\<open>include/ilemu/memory_permission.hpp\<close>) and
  \<open>VmMap\<close> (\<open>include/ilemu/vm_map.hpp\<close>, \<open>src/foundation/memory/vm_map.cpp\<close>). A map is the
  ordered list of its regions. Region starts are 32-bit and ends 64-bit in the code; the guards
  keep both at most \<open>2 ^ 32\<close>, so addresses are naturals and every cast of the code is the
  identity under its guard. The abstraction \<open>perm_at\<close> reads the permissions of one address.
\<close>

section \<open>Permissions\<close>

type_synonym perm = u8

definition perm_none :: perm where "perm_none = 0"
definition perm_read :: perm where "perm_read = 1"
definition perm_write :: perm where "perm_write = 2"
definition perm_execute :: perm where "perm_execute = 4"

definition perm_or :: "perm \<Rightarrow> perm \<Rightarrow> perm" where
  "perm_or lhs rhs = lhs OR rhs"

definition has_permission :: "perm \<Rightarrow> perm \<Rightarrow> bool" where
  "has_permission value required \<longleftrightarrow> value AND required = required"

lemma has_permission_none [simp]: "has_permission p perm_none"
  by (simp add: has_permission_def perm_none_def)

lemma has_permission_or [simp]: "has_permission (perm_or p q) q" "has_permission (perm_or q p) q"
  by (simp_all add: has_permission_def perm_or_def bit_eq_iff bit_simps)

lemma has_permission_refl [simp]: "has_permission p p"
  by (simp add: has_permission_def)

section \<open>The interval map\<close>

record region =
  r_end :: nat
  r_perm :: perm

type_synonym vm_map = "(nat, region) omap"

definition address_space_end :: nat where
  "address_space_end = 2 ^ 32"

definition valid_range :: "nat \<Rightarrow> nat \<Rightarrow> bool" where
  "valid_range start fin \<longleftrightarrow> fin > start \<and> fin \<le> address_space_end"

definition split_at :: "nat \<Rightarrow> vm_map \<Rightarrow> vm_map" where
  "split_at point m =
     (if point = 0 \<or> point \<ge> address_space_end \<or> m = [] then m
      else case rev (om_before_upper point m) of
        [] \<Rightarrow> m
      | (start, r) # _ \<Rightarrow>
          if point \<le> start \<or> point \<ge> r_end r then m
          else om_emplace point \<lparr>r_end = r_end r, r_perm = r_perm r\<rparr>
                 (om_put start (r\<lparr>r_end := point\<rparr>) m))"

fun coalesce :: "vm_map \<Rightarrow> vm_map" where
  "coalesce [] = []"
| "coalesce [e] = [e]"
| "coalesce ((s1, r1) # (s2, r2) # m) =
     (if r_end r1 = s2 \<and> r_perm r1 = r_perm r2
      then coalesce ((s1, r1\<lparr>r_end := r_end r2\<rparr>) # m)
      else (s1, r1) # coalesce ((s2, r2) # m))"

text \<open>The loop of \<open>map_or\<close>; \<open>None\<close> would be a loop that never ends.\<close>

partial_function (option) map_or_loop :: "nat \<Rightarrow> nat \<Rightarrow> perm \<Rightarrow> vm_map \<Rightarrow> vm_map option" where
  "map_or_loop cursor fin p m =
     (if cursor < fin then
        (case om_lower cursor m of
           [] \<Rightarrow> map_or_loop fin fin p
                  (om_emplace cursor \<lparr>r_end = fin, r_perm = p\<rparr> m)
         | (start, r) # _ \<Rightarrow>
             if start > cursor
             then map_or_loop (min fin start) fin p
                    (om_emplace cursor \<lparr>r_end = min fin start, r_perm = p\<rparr> m)
             else map_or_loop (r_end r) fin p
                    (om_put start (r\<lparr>r_perm := perm_or (r_perm r) p\<rparr>) m))
      else Some m)"

definition map_or :: "nat \<Rightarrow> nat \<Rightarrow> perm \<Rightarrow> vm_map \<Rightarrow> vm_map option" where
  "map_or start fin p m =
     (if \<not> valid_range start fin then Some m
      else map_option coalesce
             (map_or_loop start fin p (split_at fin (split_at start m))))"

text \<open>The erasing loop of \<open>unmap\<close> drops the run of regions that start before the end.\<close>

definition unmap :: "nat \<Rightarrow> nat \<Rightarrow> vm_map \<Rightarrow> vm_map" where
  "unmap start fin m =
     (if \<not> valid_range start fin then m
      else let m' = split_at fin (split_at start m)
           in coalesce (om_before_lower start m' @
                dropWhile (\<lambda>e. fst e < fin) (om_lower start m')))"

fun accessible_loop :: "nat \<Rightarrow> nat \<Rightarrow> perm \<Rightarrow> vm_map \<Rightarrow> bool" where
  "accessible_loop cursor fin access [] \<longleftrightarrow> \<not> cursor < fin"
| "accessible_loop cursor fin access ((start, r) # m) \<longleftrightarrow>
     (if cursor < fin then
        if start > cursor \<or> r_end r \<le> cursor \<or> \<not> has_permission (r_perm r) access then False
        else if r_end r \<ge> fin then True
        else accessible_loop (r_end r) fin access m
      else True)"

definition accessible :: "nat \<Rightarrow> nat \<Rightarrow> perm \<Rightarrow> vm_map \<Rightarrow> bool" where
  "accessible start fin access m \<longleftrightarrow>
     (if \<not> valid_range start fin then False
      else case rev (om_before_upper start m) of
        [] \<Rightarrow> False
      | containing # _ \<Rightarrow> accessible_loop start fin access (containing # om_upper start m))"

fun protect_loop :: "nat \<Rightarrow> perm \<Rightarrow> vm_map \<Rightarrow> vm_map" where
  "protect_loop fin p [] = []"
| "protect_loop fin p ((start, r) # m) =
     (if start < fin then (start, r\<lparr>r_perm := p\<rparr>) # protect_loop fin p m
      else (start, r) # m)"

definition protect :: "nat \<Rightarrow> nat \<Rightarrow> perm \<Rightarrow> vm_map \<Rightarrow> bool \<times> vm_map" where
  "protect start fin p m =
     (if \<not> accessible start fin perm_none m then (False, m)
      else let m' = split_at fin (split_at start m)
           in (True, coalesce (om_before_lower start m' @
                       protect_loop fin p (om_lower start m'))))"

definition overlaps :: "nat \<Rightarrow> nat \<Rightarrow> vm_map \<Rightarrow> bool" where
  "overlaps start fin m \<longleftrightarrow>
     (if \<not> valid_range start fin then False
      else if (case om_lower start m of [] \<Rightarrow> False | (s, _) # _ \<Rightarrow> s < fin) then True
      else case rev (om_before_lower start m) of
        [] \<Rightarrow> False
      | (_, r) # _ \<Rightarrow> r_end r > start)"

record mapping_region =
  mr_address :: nat
  mr_end :: nat
  mr_perm :: perm

definition to_mapping :: "nat \<times> region \<Rightarrow> mapping_region" where
  "to_mapping e = \<lparr>mr_address = fst e, mr_end = r_end (snd e), mr_perm = r_perm (snd e)\<rparr>"

definition region_at_or_after :: "nat \<Rightarrow> vm_map \<Rightarrow> mapping_region option" where
  "region_at_or_after address m =
     (let following = (case om_lower address m of [] \<Rightarrow> None | e # _ \<Rightarrow> Some (to_mapping e))
      in case rev (om_before_upper address m) of
           [] \<Rightarrow> following
         | containing # _ \<Rightarrow>
             if r_end (snd containing) > address then Some (to_mapping containing)
             else following)"

text \<open>Division by a zero page size is undefined in the code: \<open>None\<close>.\<close>

definition page_count :: "nat \<Rightarrow> vm_map \<Rightarrow> nat option" where
  "page_count page_size m =
     (if page_size = 0 \<and> m \<noteq> [] then None
      else Some (sum_list (map (\<lambda>(start, r). (r_end r - start) div page_size) m)))"

section \<open>Invariant and abstraction\<close>

text \<open>Regions are non-empty, in order, disjoint and inside the 32-bit address space.\<close>

fun chain :: "nat \<Rightarrow> vm_map \<Rightarrow> bool" where
  "chain lo [] \<longleftrightarrow> True"
| "chain lo ((start, r) # m) \<longleftrightarrow>
     lo \<le> start \<and> start < r_end r \<and> r_end r \<le> address_space_end \<and> chain (r_end r) m"

text \<open>No two touching regions have the same permissions.\<close>

fun coalesced :: "vm_map \<Rightarrow> bool" where
  "coalesced ((s1, r1) # (s2, r2) # m) \<longleftrightarrow>
     \<not> (r_end r1 = s2 \<and> r_perm r1 = r_perm r2) \<and> coalesced ((s2, r2) # m)"
| "coalesced _ \<longleftrightarrow> True"

definition vm_inv :: "vm_map \<Rightarrow> bool" where
  "vm_inv m \<longleftrightarrow> chain 0 m \<and> coalesced m"

fun perm_at :: "vm_map \<Rightarrow> nat \<Rightarrow> perm option" where
  "perm_at [] a = None"
| "perm_at ((start, r) # m) a =
     (if start \<le> a \<and> a < r_end r then Some (r_perm r) else perm_at m a)"

text \<open>No region straddles the point.\<close>

definition boundary :: "nat \<Rightarrow> vm_map \<Rightarrow> bool" where
  "boundary p m \<longleftrightarrow> (\<forall>(s, r)\<in>set m. \<not> (s < p \<and> p < r_end r))"

section \<open>Regions of a chain\<close>

lemma chain_mono: "chain lo m \<Longrightarrow> lo' \<le> lo \<Longrightarrow> chain lo' m"
  by (cases m) auto

lemma chain_mem:
  "chain lo m \<Longrightarrow> (s, r) \<in> set m \<Longrightarrow> lo \<le> s \<and> s < r_end r \<and> r_end r \<le> address_space_end"
  by (induction lo m rule: chain.induct) force+

lemma perm_at_below: "chain lo m \<Longrightarrow> a < lo \<Longrightarrow> perm_at m a = None"
  by (induction lo m rule: chain.induct) auto

lemma chain_wf: "chain lo m \<Longrightarrow> om_wf m"
proof (induction lo m rule: chain.induct)
  case (2 lo s r m)
  have "s < k" if "(k, x) \<in> set m" for k x
    using 2(2) chain_mem [of "r_end r" m k x] that by auto
  with 2 show ?case by (auto simp: om_wf_Cons)
qed simp

lemma perm_at_mem:
  "chain lo m \<Longrightarrow> (s, r) \<in> set m \<Longrightarrow> s \<le> a \<Longrightarrow> a < r_end r \<Longrightarrow> perm_at m a = Some (r_perm r)"
proof (induction lo m rule: chain.induct)
  case (2 lo s1 r1 m)
  show ?case
  proof (cases "(s, r) = (s1, r1)")
    case False
    with "2.prems" have mem: "(s, r) \<in> set m" by auto
    with "2.prems"(1) chain_mem [of "r_end r1" m s r] have "r_end r1 \<le> s" by auto
    with 2 mem show ?thesis by auto
  qed (use 2 in auto)
qed simp

lemma perm_at_Some: "perm_at m a = Some p \<Longrightarrow> \<exists>s r. (s, r) \<in> set m \<and> s \<le> a \<and> a < r_end r \<and> r_perm r = p"
  by (induction m a rule: perm_at.induct) (auto split: if_splits)

lemma perm_at_iff:
  "chain lo m \<Longrightarrow> perm_at m a = Some p \<longleftrightarrow> (\<exists>s r. (s, r) \<in> set m \<and> s \<le> a \<and> a < r_end r \<and> r_perm r = p)"
  by (meson perm_at_Some perm_at_mem)

lemma perm_at_None:
  "chain lo m \<Longrightarrow> perm_at m a = None \<longleftrightarrow> (\<forall>(s, r)\<in>set m. \<not> (s \<le> a \<and> a < r_end r))"
  using perm_at_iff [of lo m a] by (cases "perm_at m a") force+

text \<open>Two regions of a chain are disjoint.\<close>

lemma chain_disjoint:
  "chain lo m \<Longrightarrow> (s, r) \<in> set m \<Longrightarrow> (s', r') \<in> set m \<Longrightarrow> s < s' \<Longrightarrow> r_end r \<le> s'"
proof (induction lo m rule: chain.induct)
  case (2 lo s1 r1 m)
  then show ?case
    using chain_mem [of "r_end r1" m] by (auto; fastforce)
qed simp

section \<open>Point updates of a chain\<close>

lemma chain_put_fresh:
  "chain lo m \<Longrightarrow> lo \<le> c \<Longrightarrow> c < r_end n \<Longrightarrow> r_end n \<le> address_space_end \<Longrightarrow>
    \<forall>(s, r)\<in>set m. r_end r \<le> c \<or> r_end n \<le> s \<Longrightarrow> chain lo (om_put c n m)"
proof (induction lo m rule: chain.induct)
  case (2 lo s r m)
  then show ?case by (auto dest: chain_mono)
qed simp

lemma perm_at_put_fresh:
  assumes ch: "chain lo m" and c: "lo \<le> c" "c < r_end n" "r_end n \<le> address_space_end"
    and gap: "\<forall>(s, r)\<in>set m. r_end r \<le> c \<or> r_end n \<le> s"
  shows "perm_at (om_put c n m) a =
    (if c \<le> a \<and> a < r_end n then Some (r_perm n) else perm_at m a)"
proof -
  have ch': "chain lo (om_put c n m)" using assms by (rule chain_put_fresh)
  have set': "set (om_put c n m) = insert (c, n) (set m)"
    using ch chain_wf [OF ch] gap c chain_mem [OF ch] by (fastforce simp: om_put_set)
  have "perm_at (om_put c n m) a = Some p \<longleftrightarrow>
      (if c \<le> a \<and> a < r_end n then Some (r_perm n) else perm_at m a) = Some p" for p
    using gap by (auto simp: perm_at_iff [OF ch'] perm_at_iff [OF ch] set')
  then show ?thesis by (rule option_eqI)
qed

lemma chain_put_shrink:
  "chain lo m \<Longrightarrow> (s, r) \<in> set m \<Longrightarrow> s < r_end n \<Longrightarrow> r_end n \<le> r_end r \<Longrightarrow> chain lo (om_put s n m)"
proof (induction lo m rule: chain.induct)
  case (2 lo s1 r1 m)
  show ?case
  proof (cases "(s, r) = (s1, r1)")
    case True
    with "2.prems" show ?thesis by (auto dest: chain_mono)
  next
    case False
    with "2.prems" have mem: "(s, r) \<in> set m" by auto
    with "2.prems"(1) chain_mem [of "r_end r1" m s r] have "s1 < s" by auto
    with 2 mem show ?thesis by auto
  qed
qed simp

lemma perm_at_put_shrink:
  assumes ch: "chain lo m" and mem: "(s, r) \<in> set m" and n: "s < r_end n" "r_end n \<le> r_end r"
  shows "perm_at (om_put s n m) a =
    (if s \<le> a \<and> a < r_end n then Some (r_perm n)
     else if s \<le> a \<and> a < r_end r then None else perm_at m a)"
proof -
  have ch': "chain lo (om_put s n m)" using assms by (rule chain_put_shrink)
  have set': "set (om_put s n m) = insert (s, n) {e \<in> set m. fst e \<noteq> s}"
    using chain_wf [OF ch] by (rule om_put_set)
  have other: "s' \<noteq> s \<Longrightarrow> (s', r') \<in> set m \<Longrightarrow> r_end r' \<le> s \<or> r_end r \<le> s'" for s' r'
    using chain_disjoint [OF ch mem, of s' r'] chain_disjoint [OF ch _ mem, of s' r']
    by (meson linorder_neqE_nat)
  have same: "(s, r') \<in> set m \<Longrightarrow> r' = r" for r'
    using mem chain_wf [OF ch] by (metis om_lookup_mem option.inject)
  show ?thesis
  proof (cases "s \<le> a \<and> a < r_end r")
    case True
    show ?thesis
    proof (cases "a < r_end n")
      case True
      with \<open>s \<le> a \<and> a < r_end r\<close> perm_at_mem [OF ch', of s n a] show ?thesis by (simp add: set')
    next
      case False
      with True other have "perm_at (om_put s n m) a = None"
        by (fastforce simp: perm_at_None [OF ch'] set')
      with True False show ?thesis by simp
    qed
  next
    case False
    have "perm_at (om_put s n m) a = Some p \<longleftrightarrow> perm_at m a = Some p" for p
    proof
      assume "perm_at (om_put s n m) a = Some p"
      then obtain s' r' where A: "(s', r') \<in> insert (s, n) {e \<in> set m. fst e \<noteq> s}"
          "s' \<le> a" "a < r_end r'" "r_perm r' = p"
        unfolding perm_at_iff [OF ch'] set' by blast
      with False n have "(s', r') \<in> set m" by auto
      with A show "perm_at m a = Some p" unfolding perm_at_iff [OF ch] by blast
    next
      assume "perm_at m a = Some p"
      then obtain s' r' where A: "(s', r') \<in> set m" "s' \<le> a" "a < r_end r'" "r_perm r' = p"
        unfolding perm_at_iff [OF ch] by blast
      with False same [of r'] have "s' \<noteq> s" by auto
      with A show "perm_at (om_put s n m) a = Some p"
        unfolding perm_at_iff [OF ch'] set' by (intro exI [of _ s'] exI [of _ r']) simp
    qed
    then have "perm_at (om_put s n m) a = perm_at m a" by (rule option_eqI)
    moreover have "\<not> (s \<le> a \<and> a < r_end n)" using False n by auto
    ultimately show ?thesis using False by auto
  qed
qed

section \<open>Splitting and coalescing\<close>

lemma before_upper_last:
  assumes "om_wf m" and "rev (om_before_upper p m) = (s, r) # xs"
  shows "(s, r) \<in> set m \<and> s \<le> p \<and> (\<forall>(s', r')\<in>set m. s' \<le> p \<longrightarrow> s' \<le> s)"
proof -
  have bu: "om_before_upper p m = rev xs @ [(s, r)]"
    using assms(2) by (metis rev.simps(2) rev_rev_ident)
  then have in_bu: "(s, r) \<in> set (om_before_upper p m)" by simp
  then have mem: "(s, r) \<in> set m" "s \<le> p"
    by (auto simp: om_before_upper_def dest: set_takeWhileD)
  have m: "m = rev xs @ (s, r) # om_upper p m"
    using om_split_upper [of p m] bu by simp
  have "s' \<le> s" if "(s', r') \<in> set m" "s' \<le> p" for s' r'
  proof -
    have "(s', r') \<notin> set (om_upper p m)"
      using that om_upper_wf [OF assms(1), of p] by auto
    with that m have "(s', r') \<in> set (rev xs) \<or> (s', r') = (s, r)"
      by (metis UnE set_ConsD set_append)
    moreover have "sorted_wrt (\<lambda>a b. fst a < fst b) (rev xs @ (s, r) # om_upper p m)"
      using assms(1) m by (metis om_wf_def)
    ultimately show ?thesis by (auto simp: sorted_wrt_append dest: less_imp_le)
  qed
  with mem show ?thesis by auto
qed

lemma before_upper_Nil:
  "om_wf m \<Longrightarrow> rev (om_before_upper p m) = [] \<Longrightarrow> \<forall>(s, r)\<in>set m. p < s"
proof -
  assume "om_wf m" and "rev (om_before_upper p m) = []"
  then have "set m = {e \<in> set m. p < fst e}"
    using om_split_upper [of p m] om_upper_wf [of m p] by simp
  then show ?thesis by (metis (mono_tags, lifting) case_prodI2 fst_conv mem_Collect_eq)
qed

lemma split_at_cases:
  fixes m :: vm_map
  assumes ch: "chain lo m"
  shows "split_at p m = m \<and> boundary p m \<or>
    (\<exists>s r. (s, r) \<in> set m \<and> s < p \<and> p < r_end r \<and>
       split_at p m = om_put p \<lparr>r_end = r_end r, r_perm = r_perm r\<rparr> (om_put s (r\<lparr>r_end := p\<rparr>) m))"
proof -
  note wf = chain_wf [OF ch]
  consider (out) "p = 0 \<or> p \<ge> address_space_end \<or> m = []"
    | (none) "p \<noteq> 0" "p < address_space_end" "m \<noteq> []" "rev (om_before_upper p m) = []"
    | (some) s r xs where "p \<noteq> 0" "p < address_space_end" "m \<noteq> []"
        "rev (om_before_upper p m) = (s, r) # xs"
    by (metis list.exhaust not_le prod.exhaust)
  then show ?thesis
  proof cases
    case out
    then have "boundary p m" using chain_mem [OF ch] by (fastforce simp: boundary_def)
    with out show ?thesis by (auto simp: split_at_def)
  next
    case none
    then have "boundary p m" using before_upper_Nil [OF wf] by (fastforce simp: boundary_def)
    with none show ?thesis by (auto simp: split_at_def)
  next
    case some
    note last = before_upper_last [OF wf some(4)]
    have ends: "r_end r' \<le> s" if "(s', r') \<in> set m" "s' < s" for s' r'
      using chain_disjoint [OF ch that(1)] last that(2) by blast
    have same: "r' = r" if "(s, r') \<in> set m" for r'
      using that last wf by (metis om_lookup_mem option.inject)
    show ?thesis
    proof (cases "p \<le> s \<or> p \<ge> r_end r")
      case True
      have "boundary p m"
        unfolding boundary_def
      proof (clarify)
        fix s' r' assume A: "(s', r') \<in> set m" "s' < p" "p < r_end r'"
        with last have "s' \<le> s" by auto
        with A ends [of s' r'] same [of r'] last True show False by (cases "s' = s") auto
      qed
      with True some show ?thesis by (simp add: split_at_def)
    next
      case False
      have "(p, r') \<notin> set m" for r'
        using last False by force
      then have "map_of m p = None" by (metis map_of_SomeD not_None_eq)
      then have "map_of (om_put s (r\<lparr>r_end := p\<rparr>) m) p = None" using False by simp
      with False some last show ?thesis
        by (intro disjI2 exI [of _ s] exI [of _ r]) (auto simp: split_at_def om_emplace_def)
    qed
  qed
qed

lemma split_at_spec:
  fixes m :: vm_map
  assumes ch: "chain lo m"
  shows "chain lo (split_at p m) \<and> perm_at (split_at p m) = perm_at m \<and> boundary p (split_at p m) \<and>
    (boundary q m \<longrightarrow> boundary q (split_at p m))"
  using split_at_cases [OF ch, of p]
proof (elim disjE exE conjE)
  fix s and r :: region
  let ?a = "r\<lparr>r_end := p\<rparr>" and ?b = "\<lparr>r_end = r_end r, r_perm = r_perm r\<rparr>"
  let ?m = "om_put s ?a m"
  assume mem: "(s, r) \<in> set m" and p: "s < p" "p < r_end r" and eq: "split_at p m = om_put p ?b ?m"
  note wf = chain_wf [OF ch]
  have lo: "lo \<le> p" using chain_mem [OF ch mem] p by simp
  have ch1: "chain lo ?m" using ch mem p by (intro chain_put_shrink) auto
  have set1: "set ?m = insert (s, ?a) {e \<in> set m. fst e \<noteq> s}" using wf by (rule om_put_set)
  have gap: "\<forall>(s', r')\<in>set ?m. r_end r' \<le> p \<or> r_end ?b \<le> s'"
  proof (clarify)
    fix s' r' assume A: "(s', r') \<in> set ?m" "\<not> r_end ?b \<le> s'"
    show "r_end r' \<le> p"
      using A p chain_disjoint [OF ch _ mem, of s' r'] chain_disjoint [OF ch mem, of s' r']
      by (auto simp: set1) (meson le_less_trans less_imp_le linorder_neqE_nat)
  qed
  have b: "lo \<le> p" "p < r_end ?b" "r_end ?b \<le> address_space_end"
    using lo p chain_mem [OF ch mem] by auto
  have ch2: "chain lo (om_put p ?b ?m)" using ch1 b gap by (rule chain_put_fresh)
  have "perm_at (om_put p ?b ?m) a = perm_at m a" for a
    using perm_at_put_fresh [OF ch1 b gap, of a] perm_at_put_shrink [OF ch mem, of ?a a] p
      perm_at_mem [OF ch mem, of a] by auto
  moreover have set2: "set (om_put p ?b ?m) = insert (p, ?b) {e \<in> set ?m. fst e \<noteq> p}"
    using chain_wf [OF ch1] by (rule om_put_set)
  have "boundary p (om_put p ?b ?m)"
    unfolding boundary_def set2
  proof (clarify)
    fix s' r' assume A: "(s', r') \<in> insert (p, ?b) {e \<in> set ?m. fst e \<noteq> p}" "s' < p" "p < r_end r'"
    then have "(s', r') \<in> set ?m" by auto
    with gap have "r_end r' \<le> p \<or> r_end ?b \<le> s'" by blast
    with A p show False by auto
  qed
  moreover have "boundary q m \<longrightarrow> boundary q (om_put p ?b ?m)"
    using mem p by (fastforce simp: boundary_def set2 set1)
  ultimately show ?thesis using eq ch2 by auto
qed (use ch in simp)

lemma coalesce_Cons: "\<exists>r' m'. coalesce ((s, r) # m) = (s, r') # m' \<and> r_perm r' = r_perm r"
proof (induction m arbitrary: r)
  case (Cons e m)
  obtain s2 r2 where e: "e = (s2, r2)" by (cases e)
  show ?case
  proof (cases "r_end r = s2 \<and> r_perm r = r_perm r2")
    case True
    with Cons.IH [of "r\<lparr>r_end := r_end r2\<rparr>"] e show ?thesis by auto
  qed (use e in auto)
qed simp

lemma coalesce_chain: "chain lo m \<Longrightarrow> chain lo (coalesce m)"
proof (induction m arbitrary: lo rule: coalesce.induct)
  case (3 s1 r1 s2 r2 m)
  show ?case
  proof (cases "r_end r1 = s2 \<and> r_perm r1 = r_perm r2")
    case True
    then show ?thesis using 3 by auto
  next
    case False
    then show ?thesis using "3.prems" "3.IH"(2) [OF False, of "r_end r1"] by (simp add: False)
  qed
qed auto

lemma coalesce_perm_at: "chain lo m \<Longrightarrow> perm_at (coalesce m) = perm_at m"
proof (induction m arbitrary: lo rule: coalesce.induct)
  case (3 s1 r1 s2 r2 m)
  show ?case
  proof (cases "r_end r1 = s2 \<and> r_perm r1 = r_perm r2")
    case True
    then show ?thesis using 3 by (auto simp: fun_eq_iff)
  next
    case False
    then show ?thesis using "3.prems" "3.IH"(2) [OF False, of "r_end r1"]
      by (simp add: False fun_eq_iff)
  qed
qed auto

lemma coalesce_coalesced: "coalesced (coalesce m)"
proof (induction m rule: coalesce.induct)
  case (3 s1 r1 s2 r2 m)
  obtain r' m' where "coalesce ((s2, r2) # m) = (s2, r') # m'" "r_perm r' = r_perm r2"
    using coalesce_Cons by blast
  with 3 show ?case by auto
qed auto

lemma coalesce_spec: "chain 0 m \<Longrightarrow> vm_inv (coalesce m) \<and> perm_at (coalesce m) = perm_at m"
  by (simp add: vm_inv_def coalesce_chain coalesce_coalesced coalesce_perm_at)

section \<open>The loops\<close>

lemma chain_suffix: "chain lo (xs @ ys) \<Longrightarrow> \<exists>lo'\<ge>lo. chain lo' ys"
proof (induction xs arbitrary: lo)
  case (Cons e xs)
  then obtain s r where e: "e = (s, r)" "lo \<le> s" "s < r_end r" "chain (r_end r) (xs @ ys)"
    by (cases e) auto
  from Cons.IH [OF e(4)] e(2,3) show ?case by (meson le_less_trans less_imp_le order_trans)
qed auto

lemma perm_at_append:
  "perm_at (xs @ ys) a = (case perm_at xs a of None \<Rightarrow> perm_at ys a | Some p \<Rightarrow> Some p)"
  by (induction xs a rule: perm_at.induct) auto

lemma perm_at_skip:
  "\<forall>(s, r)\<in>set xs. r_end r \<le> a \<Longrightarrow> perm_at (xs @ ys) a = perm_at ys a"
  by (induction xs a rule: perm_at.induct) auto

lemma lower_head:
  assumes "om_wf m" and "om_lower c m = (s, r) # xs"
  shows "(s, r) \<in> set m \<and> c \<le> s \<and> (\<forall>(s', r')\<in>set m. s' < c \<or> s \<le> s')"
proof -
  have m: "m = om_before_lower c m @ (s, r) # xs"
    using om_split_lower [of c m] assms(2) by simp
  then have "om_wf ((s, r) # xs)"
    using assms(1) by (metis om_wf_def sorted_wrt_append)
  then have "\<forall>e\<in>set (om_lower c m). s \<le> fst e"
    using assms(2) by (auto simp: om_wf_Cons dest: less_imp_le)
  then show ?thesis
    using om_lower_wf [OF assms(1), of c] assms(2) by (fastforce simp: not_less)
qed

lemma lower_Nil: "om_wf m \<Longrightarrow> om_lower c m = [] \<Longrightarrow> \<forall>(s, r)\<in>set m. s < c"
  using om_lower_wf [of m c] by (auto simp: not_le)

lemma before_lower_set: "om_wf m \<Longrightarrow> set (om_before_lower c m) = {e \<in> set m. fst e < c}"
proof -
  assume wf: "om_wf m"
  have "set m = set (om_before_lower c m) \<union> set (om_lower c m)"
    by (metis om_split_lower set_append)
  moreover have "\<forall>e\<in>set (om_before_lower c m). fst e < c"
    by (auto simp: om_before_lower_def dest: set_takeWhileD)
  ultimately show ?thesis using om_lower_wf [OF wf, of c] by auto
qed

definition or_perm :: "perm \<Rightarrow> perm option \<Rightarrow> perm" where
  "or_perm p q = (case q of None \<Rightarrow> p | Some q \<Rightarrow> perm_or q p)"

lemma map_or_loop_spec:
  "\<lbrakk>chain 0 m; boundary c m; boundary e m; c \<le> e; e \<le> address_space_end\<rbrakk> \<Longrightarrow>
    \<exists>m'. map_or_loop c e p m = Some m' \<and> chain 0 m' \<and>
      (\<forall>a. perm_at m' a = (if c \<le> a \<and> a < e then Some (or_perm p (perm_at m a)) else perm_at m a))"
proof (induction "e - c" arbitrary: c m rule: less_induct)
  case less
  note ch = less.prems(1) and bc = less.prems(2) and be = less.prems(3)
  note wf = chain_wf [OF ch]
  show ?case
  proof (cases "c < e")
    case False
    then show ?thesis using ch by (subst map_or_loop.simps) auto
  next
    case lt: True
    \<comment> \<open>A fresh region \<open>[c, g)\<close> is added and the loop goes on from \<open>g\<close>.\<close>
    have fill: ?thesis
      if g: "c < g" "g \<le> e" and gap: "\<forall>(s, r)\<in>set m. r_end r \<le> c \<or> g \<le> s"
        and step: "map_or_loop c e p m = map_or_loop g e p (om_emplace c \<lparr>r_end = g, r_perm = p\<rparr> m)"
      for g
    proof -
      let ?n = "\<lparr>r_end = g, r_perm = p\<rparr>" and ?m = "om_put c \<lparr>r_end = g, r_perm = p\<rparr> m"
      have n: "0 \<le> c" "c < r_end ?n" "r_end ?n \<le> address_space_end" using g less.prems by auto
      have gap': "\<forall>(s, r)\<in>set m. r_end r \<le> c \<or> r_end ?n \<le> s" using gap by simp
      have fresh: "(c, r) \<notin> set m" for r using gap g chain_mem [OF ch] by fastforce
      then have "om_emplace c ?n m = ?m"
        by (metis map_of_SomeD not_None_eq om_emplace_def)
      with step have step': "map_or_loop c e p m = map_or_loop g e p ?m" by simp
      have set1: "set ?m = insert (c, ?n) {e \<in> set m. fst e \<noteq> c}" using wf by (rule om_put_set)
      have ch1: "chain 0 ?m" using ch n gap' by (rule chain_put_fresh)
      have "boundary g ?m" using gap g by (fastforce simp: boundary_def set1)
      moreover have "boundary e ?m" using be g by (auto simp: boundary_def set1)
      ultimately obtain m' where m': "map_or_loop g e p ?m = Some m'" "chain 0 m'"
          "\<forall>a. perm_at m' a = (if g \<le> a \<and> a < e then Some (or_perm p (perm_at ?m a)) else perm_at ?m a)"
        using less.hyps [OF diff_less_mono2 [OF g(1) lt] ch1 _ _ g(2) less.prems(5)] by blast
      have none: "c \<le> a \<Longrightarrow> a < g \<Longrightarrow> perm_at m a = None" for a
        using gap by (fastforce simp: perm_at_None [OF ch])
      have "perm_at m' a = (if c \<le> a \<and> a < e then Some (or_perm p (perm_at m a)) else perm_at m a)" for a
        using m'(3) perm_at_put_fresh [OF ch n gap', of a] none [of a] g by (auto simp: or_perm_def)
      with step' m' show ?thesis by auto
    qed
    show ?thesis
    proof (cases "om_lower c m")
      case Nil
      have "r_end r \<le> c \<or> e \<le> s" if "(s, r) \<in> set m" for s r
        using lower_Nil [OF wf Nil] bc that by (fastforce simp: boundary_def)
      then show ?thesis using lt Nil by (intro fill [of e]) (auto simp: map_or_loop.simps [of c])
    next
      case (Cons x xs)
      then obtain s r where low: "om_lower c m = (s, r) # xs" by (cases x) auto
      note head = lower_head [OF wf low]
      show ?thesis
      proof (cases "s > c")
        case True
        have "r_end r' \<le> c \<or> min e s \<le> s'" if "(s', r') \<in> set m" for s' r'
          using head bc that by (fastforce simp: boundary_def)
        then show ?thesis
          using lt low True by (intro fill [of "min e s"]) (auto simp: map_or_loop.simps [of c])
      next
        case False
        with head have s: "s = c" and mem: "(s, r) \<in> set m" by auto
        let ?n = "r\<lparr>r_perm := perm_or (r_perm r) p\<rparr>" and ?m = "om_put s (r\<lparr>r_perm := perm_or (r_perm r) p\<rparr>) m"
        have step: "map_or_loop c e p m = map_or_loop (r_end r) e p ?m"
          using lt low False by (auto simp: map_or_loop.simps [of c])
        have n: "s < r_end ?n" "r_end ?n \<le> r_end r" using chain_mem [OF ch mem] by auto
        have re: "r_end r \<le> e" using be mem s lt by (fastforce simp: boundary_def)
        have set1: "set ?m = insert (s, ?n) {e \<in> set m. fst e \<noteq> s}" using wf by (rule om_put_set)
        have ch1: "chain 0 ?m" using ch mem n by (rule chain_put_shrink)
        have "boundary (r_end r) ?m"
          unfolding boundary_def
        proof (clarify)
          fix s' r' assume A: "(s', r') \<in> set ?m" "s' < r_end r" "r_end r < r_end r'"
          then have "(s', r') \<in> set m \<and> s' \<noteq> s" by (auto simp: set1)
          with A chain_disjoint [OF ch mem, of s' r'] chain_disjoint [OF ch _ mem, of s' r'] n
          show False by (auto dest!: linorder_neq_iff [THEN iffD1])
        qed
        moreover have "boundary e ?m" using be mem by (fastforce simp: boundary_def set1)
        ultimately obtain m' where m': "map_or_loop (r_end r) e p ?m = Some m'" "chain 0 m'"
            "\<forall>a. perm_at m' a = (if r_end r \<le> a \<and> a < e then Some (or_perm p (perm_at ?m a)) else perm_at ?m a)"
          using less.hyps [OF diff_less_mono2 [OF _ lt] ch1 _ _ re less.prems(5)] n(1) s by auto
        have "perm_at m' a = (if c \<le> a \<and> a < e then Some (or_perm p (perm_at m a)) else perm_at m a)" for a
          using m'(3) perm_at_put_shrink [OF ch mem n, of a] perm_at_mem [OF ch mem, of a] s re n
          by (auto simp: or_perm_def)
        with step m' show ?thesis by auto
      qed
    qed
  qed
qed

lemma accessible_loop_spec:
  "\<lbrakk>chain lo m; \<forall>(s, r)\<in>set (tl m). c < s\<rbrakk> \<Longrightarrow>
    accessible_loop c e acc m \<longleftrightarrow>
      (\<forall>a. c \<le> a \<and> a < e \<longrightarrow> (\<exists>q. perm_at m a = Some q \<and> has_permission q acc))"
proof (induction m arbitrary: lo c)
  case Nil
  show ?case by (auto intro: exI [of _ c])
next
  case (Cons x m)
  let ?R = "\<forall>a. c \<le> a \<and> a < e \<longrightarrow> (\<exists>q. perm_at (x # m) a = Some q \<and> has_permission q acc)"
  obtain s r where x: "x = (s, r)" by (cases x)
  note ch = Cons.prems(1) [unfolded x] and rest = Cons.prems(2) [unfolded x list.sel]
  have sr: "s < r_end r" "chain (r_end r) m" using ch by auto
  have none: "perm_at m a = None" if "a < r_end r" for a using perm_at_below sr(2) that .
  have neg: "\<not> ?R"
    if "c < e" "\<And>q. perm_at (x # m) c = Some q \<Longrightarrow> \<not> has_permission q acc"
    using that by blast
  consider "\<not> c < e" | "c < e" "s > c" | "c < e" "s \<le> c" "r_end r \<le> c"
    | "c < e" "s \<le> c" "c < r_end r" "\<not> has_permission (r_perm r) acc"
    | "c < e" "s \<le> c" "c < r_end r" "has_permission (r_perm r) acc" "e \<le> r_end r"
    | "c < e" "s \<le> c" "c < r_end r" "has_permission (r_perm r) acc" "r_end r < e"
    by linarith
  then show ?case
  proof cases
    case 2
    then have "perm_at (x # m) c = None" using none [of c] sr x by auto
    with neg 2(1) have "\<not> ?R" by simp
    with 2 x show ?thesis by simp
  next
    case 3
    have "perm_at m c = None"
      using rest by (fastforce simp: perm_at_None [OF sr(2)])
    with 3 x have "perm_at (x # m) c = None" by simp
    with neg 3(1) have "\<not> ?R" by simp
    with 3 x show ?thesis by simp
  next
    case 4
    then have "perm_at (x # m) c = Some (r_perm r)" using x by simp
    with neg 4(1,4) have "\<not> ?R" by simp
    with 4 x show ?thesis by simp
  next
    case 6
    have tl: "\<forall>(s', r')\<in>set (tl m). r_end r < s'"
    proof (cases m)
      case (Cons y ys)
      then obtain s2 r2 where y: "m = (s2, r2) # ys" by (cases y) auto
      with sr(2) have "r_end r < r_end r2" "chain (r_end r2) ys" by auto
      with y show ?thesis using chain_mem [of "r_end r2" ys] by force
    qed simp
    have "accessible_loop c e acc (x # m) = accessible_loop (r_end r) e acc m"
      using 6 x by auto
    also have "\<dots> \<longleftrightarrow> (\<forall>a. r_end r \<le> a \<and> a < e \<longrightarrow> (\<exists>q. perm_at m a = Some q \<and> has_permission q acc))"
      using sr(2) tl by (rule Cons.IH)
    also have "\<dots> \<longleftrightarrow> (\<forall>a. c \<le> a \<and> a < e \<longrightarrow> (\<exists>q. perm_at (x # m) a = Some q \<and> has_permission q acc))"
      using 6 x by (auto simp: not_less)
    finally show ?thesis .
  qed (use x in auto)
qed

section \<open>The operations against the abstraction\<close>

lemma accessible_spec:
  assumes ch: "chain 0 m"
  shows "accessible start fin acc m \<longleftrightarrow> valid_range start fin \<and>
    (\<forall>a. start \<le> a \<and> a < fin \<longrightarrow> (\<exists>q. perm_at m a = Some q \<and> has_permission q acc))"
proof (cases "valid_range start fin")
  case valid: True
  note wf = chain_wf [OF ch]
  show ?thesis
  proof (cases "rev (om_before_upper start m)")
    case Nil
    then have "perm_at m start = None"
      using before_upper_Nil [OF wf Nil] by (fastforce simp: perm_at_None [OF ch])
    with Nil valid show ?thesis
      by (auto simp: accessible_def valid_range_def intro: exI [of _ start])
  next
    case (Cons x xs)
    then obtain s r where bu: "rev (om_before_upper start m) = (s, r) # xs" by (cases x) auto
    note last = before_upper_last [OF wf bu]
    have m: "m = rev xs @ (s, r) # om_upper start m"
      using om_split_upper [of start m] bu by (metis append.assoc append_Cons append_Nil rev.simps(2) rev_swap)
    then obtain lo where suf: "chain lo ((s, r) # om_upper start m)"
      using chain_suffix ch by metis
    have skip: "\<forall>(s', r')\<in>set (rev xs). r_end r' \<le> s"
    proof (clarify)
      fix s' r' assume A: "(s', r') \<in> set (rev xs)"
      with m have "(s', r') \<in> set m" by (metis UnCI set_append)
      moreover have "s' < s"
        using A wf m by (metis fst_conv list.set_intros(1) om_wf_def sorted_wrt_append)
      ultimately show "r_end r' \<le> s" using chain_disjoint [OF ch] last by blast
    qed
    have eq: "perm_at m a = perm_at ((s, r) # om_upper start m) a" if "start \<le> a" for a
    proof -
      have "\<forall>(s', r')\<in>set (rev xs). r_end r' \<le> a" using skip last that by fastforce
      then show ?thesis using perm_at_skip m by metis
    qed
    have "\<forall>(s', r')\<in>set (tl ((s, r) # om_upper start m)). start < s'"
      using om_upper_wf [OF wf, of start] by auto
    from accessible_loop_spec [OF suf this, of fin acc] show ?thesis
      using valid bu eq by (simp add: accessible_def)
  qed
qed (simp add: accessible_def)

lemma split2_spec:
  assumes "chain 0 m"
  shows "chain 0 (split_at fin (split_at start m)) \<and> perm_at (split_at fin (split_at start m)) = perm_at m \<and>
    boundary start (split_at fin (split_at start m)) \<and> boundary fin (split_at fin (split_at start m))"
  using split_at_spec [OF assms, of start start] split_at_spec [of 0 "split_at start m" fin start] by simp

lemma map_or_spec:
  assumes "vm_inv m"
  shows "\<exists>m'. map_or start fin p m = Some m' \<and> vm_inv m' \<and>
    (\<forall>a. perm_at m' a = (if valid_range start fin \<and> start \<le> a \<and> a < fin
       then Some (or_perm p (perm_at m a)) else perm_at m a))"
proof (cases "valid_range start fin")
  case True
  let ?m = "split_at fin (split_at start m)"
  have ch: "chain 0 m" using assms by (simp add: vm_inv_def)
  from split2_spec [OF ch] True obtain m' where
    "map_or_loop start fin p ?m = Some m'" "chain 0 m'"
    "\<forall>a. perm_at m' a = (if start \<le> a \<and> a < fin then Some (or_perm p (perm_at m a)) else perm_at m a)"
    using map_or_loop_spec [of ?m start fin p] by (auto simp: valid_range_def)
  with True show ?thesis by (simp add: map_or_def coalesce_spec)
qed (simp add: map_or_def assms)

lemma chain_append_drop: "chain lo (A @ B) \<Longrightarrow> chain lo (A @ dropWhile P B)"
proof (induction A arbitrary: lo)
  case Nil
  have "chain lo (takeWhile P B @ dropWhile P B)" using Nil by simp
  then obtain lo' where "lo' \<ge> lo" "chain lo' (dropWhile P B)" using chain_suffix by blast
  then show ?case by (simp add: chain_mono)
qed auto

lemma unmap_spec:
  assumes "vm_inv m"
  shows "vm_inv (unmap start fin m) \<and>
    (\<forall>a. perm_at (unmap start fin m) a =
      (if valid_range start fin \<and> start \<le> a \<and> a < fin then None else perm_at m a))"
proof (cases "valid_range start fin")
  case True
  let ?m = "split_at fin (split_at start m)"
  let ?r = "om_before_lower start ?m @ dropWhile (\<lambda>e. fst e < fin) (om_lower start ?m)"
  have ch0: "chain 0 m" using assms by (simp add: vm_inv_def)
  note sp = split2_spec [OF ch0, of fin start]
  then have ch: "chain 0 ?m" by simp
  note wf = chain_wf [OF ch]
  have ch': "chain 0 ?r"
    using chain_append_drop [of 0 "om_before_lower start ?m"] ch by (simp add: om_split_lower)
  have wfl: "om_wf (om_lower start ?m)"
    using wf by (metis om_split_lower om_wf_def sorted_wrt_append)
  have "set (dropWhile (\<lambda>e. fst e < fin) (om_lower start ?m)) = {e \<in> set (om_lower start ?m). fin \<le> fst e}"
    unfolding om_lower_def [of fin, symmetric] by (rule om_lower_wf [OF wfl])
  then have "set ?r = {e \<in> set ?m. fst e < start} \<union> {e \<in> {e \<in> set ?m. start \<le> fst e}. fin \<le> fst e}"
    by (simp add: before_lower_set [OF wf] om_lower_wf [OF wf])
  moreover have "{e \<in> M. fst e < start} \<union> {e \<in> {e \<in> M. start \<le> fst e}. fin \<le> fst e} =
      {e \<in> M. fst e < start \<or> fin \<le> fst e}" for M :: "(nat \<times> region) set"
    using True by (auto simp: valid_range_def)
  ultimately have set': "set ?r = {e \<in> set ?m. fst e < start \<or> fin \<le> fst e}"
    by (rule trans)
  have in_iff: "s < start \<or> fin \<le> s \<longleftrightarrow> \<not> (start \<le> a \<and> a < fin)"
    if "(s, r) \<in> set ?m" "s \<le> a" "a < r_end r" for s r a
  proof -
    have "boundary start ?m" "boundary fin ?m" using sp by auto
    then have "\<not> (s < start \<and> start < r_end r)" "\<not> (s < fin \<and> fin < r_end r)"
      using that(1) unfolding boundary_def by blast+
    with that(2,3) show ?thesis by linarith
  qed
  have "perm_at ?r a = (if start \<le> a \<and> a < fin then None else perm_at ?m a)" for a
  proof (rule option_eqI)
    fix q
    have "perm_at ?r a = Some q \<longleftrightarrow> perm_at ?m a = Some q \<and> \<not> (start \<le> a \<and> a < fin)"
      unfolding perm_at_iff [OF ch'] perm_at_iff [OF ch] set' using in_iff by force
    then show "perm_at ?r a = Some q \<longleftrightarrow>
        (if start \<le> a \<and> a < fin then None else perm_at ?m a) = Some q" by simp
  qed
  with True sp coalesce_spec [OF ch'] show ?thesis by (simp add: unmap_def Let_def)
qed (simp add: unmap_def assms)

lemma protect_loop_chain: "chain lo (A @ B) \<Longrightarrow> chain lo (A @ protect_loop fin p B)"
proof (induction A arbitrary: lo)
  case Nil
  then show ?case by (simp, induction fin p B arbitrary: lo rule: protect_loop.induct) auto
qed auto

lemma protect_loop_perm_at:
  "chain lo B \<Longrightarrow> boundary fin B \<Longrightarrow>
    perm_at (protect_loop fin p B) a = map_option (\<lambda>q. if a < fin then p else q) (perm_at B a)"
proof (induction fin p B arbitrary: lo rule: protect_loop.induct)
  case (2 fin p s r m)
  show ?case
  proof (cases "s < fin")
    case True
    with 2 show ?thesis by (auto simp: boundary_def)
  next
    case False
    with 2(2) perm_at_below [of "r_end r" m a] show ?thesis by (cases "perm_at m a") auto
  qed
qed simp

lemma protect_spec:
  assumes "vm_inv m"
  shows "vm_inv (snd (protect start fin p m)) \<and>
    fst (protect start fin p m) = (valid_range start fin \<and> (\<forall>a. start \<le> a \<and> a < fin \<longrightarrow> perm_at m a \<noteq> None)) \<and>
    (\<forall>a. perm_at (snd (protect start fin p m)) a =
      (if fst (protect start fin p m) \<and> start \<le> a \<and> a < fin then Some p else perm_at m a))"
proof -
  have ch0: "chain 0 m" using assms by (simp add: vm_inv_def)
  have acc: "accessible start fin perm_none m \<longleftrightarrow>
      valid_range start fin \<and> (\<forall>a. start \<le> a \<and> a < fin \<longrightarrow> perm_at m a \<noteq> None)"
    by (simp add: accessible_spec [OF ch0])
  show ?thesis
  proof (cases "accessible start fin perm_none m")
    case True
    let ?m = "split_at fin (split_at start m)"
    let ?A = "om_before_lower start ?m" and ?B = "om_lower start ?m"
    note sp = split2_spec [OF ch0, of fin start]
    then have ch: "chain 0 ?m" by simp
    note wf = chain_wf [OF ch]
    obtain lo where chB: "chain lo ?B" using chain_suffix [of 0 ?A ?B] ch by (auto simp: om_split_lower)
    have chA: "chain 0 (?A @ protect_loop fin p ?B)"
      using protect_loop_chain [of 0 ?A ?B] ch by (simp add: om_split_lower)
    have bB: "boundary fin ?B" using sp by (auto simp: boundary_def om_lower_wf [OF wf])
    have A: "perm_at ?A a = None" if "start \<le> a" for a
      using that sp by (force simp: boundary_def before_lower_set [OF wf] dest: perm_at_Some
          intro: ccontr [of "perm_at ?A a = None"])
    have B: "perm_at ?B a = None" if "a < start" for a
      using that by (fastforce simp: perm_at_None [OF chB] om_lower_wf [OF wf])
    have m: "perm_at m a = (case perm_at ?A a of None \<Rightarrow> perm_at ?B a | Some q \<Rightarrow> Some q)" for a
      using sp by (metis om_split_lower perm_at_append)
    have "perm_at (?A @ protect_loop fin p ?B) a =
        (if start \<le> a \<and> a < fin then Some p else perm_at m a)" for a
    proof (cases "start \<le> a")
      case True
      have "a < fin \<Longrightarrow> perm_at m a \<noteq> None"
        using acc \<open>accessible start fin perm_none m\<close> True by blast
      with True A [of a] m [of a] show ?thesis
        by (auto simp: perm_at_append protect_loop_perm_at [OF chB bB] option.map_ident)
    next
      case False
      with B [of a] m [of a] show ?thesis
        by (simp add: perm_at_append protect_loop_perm_at [OF chB bB] split: option.splits)
    qed
    with True acc coalesce_spec [OF chA] show ?thesis by (simp add: protect_def Let_def)
  next
    case False
    with acc assms show ?thesis by (auto simp: protect_def)
  qed
qed

lemma before_lower_upper: "c \<noteq> 0 \<Longrightarrow> om_before_lower c m = om_before_upper (c - 1) (m :: vm_map)"
  unfolding om_before_lower_def om_before_upper_def by (rule arg_cong [where f = "\<lambda>P. takeWhile P m"]) auto

lemma before_lower_0: "om_before_lower 0 (m :: vm_map) = []"
  by (cases m) (auto simp: om_before_lower_def)

lemma overlaps_spec:
  assumes ch: "chain 0 m"
  shows "overlaps start fin m \<longleftrightarrow> valid_range start fin \<and>
    (\<exists>a. start \<le> a \<and> a < fin \<and> perm_at m a \<noteq> None)"
proof (cases "valid_range start fin")
  case valid: True
  then have lt: "start < fin" by (simp add: valid_range_def)
  note wf = chain_wf [OF ch]
  let ?low = "case om_lower start m of [] \<Rightarrow> False | (s, _) # _ \<Rightarrow> s < fin"
  let ?bef = "case rev (om_before_lower start m) of [] \<Rightarrow> False | (_, r) # _ \<Rightarrow> r_end r > start"
  have low: "?low \<longleftrightarrow> (\<exists>s r. (s, r) \<in> set m \<and> start \<le> s \<and> s < fin)"
    using lower_head [OF wf, of start] lower_Nil [OF wf, of start]
    by (fastforce split: list.splits)
  have bef: "?bef \<longleftrightarrow> (\<exists>s r. (s, r) \<in> set m \<and> s < start \<and> start < r_end r)"
  proof (cases "rev (om_before_lower start m)")
    case Nil
    then have "\<forall>e\<in>set m. start \<le> fst e"
      using before_lower_set [OF wf, of start] by (auto simp: not_less)
    with Nil show ?thesis by fastforce
  next
    case (Cons x xs)
    then obtain s r where bl: "rev (om_before_lower start m) = (s, r) # xs" by (cases x) auto
    then have pos: "start \<noteq> 0" using before_lower_0 [of m] by (intro notI) simp
    with bl have "rev (om_before_upper (start - 1) m) = (s, r) # xs" by (simp add: before_lower_upper)
    from before_upper_last [OF wf this] pos
    have last: "(s, r) \<in> set m" "s < start" "\<And>s' r'. (s', r') \<in> set m \<Longrightarrow> s' < start \<Longrightarrow> s' \<le> s"
      by (auto simp: le_diff_iff')
    have "start < r_end r" if "(s', r') \<in> set m" "s' < start" "start < r_end r'" for s' r'
    proof (cases "s' = s")
      case True
      with that last(1) wf show ?thesis by (metis om_lookup_mem option.inject)
    next
      case False
      with last(3) [OF that(1,2)] chain_disjoint [OF ch that(1) last(1)] that(3) last(2) show ?thesis
        by simp
    qed
    with bl last show ?thesis by auto
  qed
  have mapped: "perm_at m a \<noteq> None \<longleftrightarrow> (\<exists>s r. (s, r) \<in> set m \<and> s \<le> a \<and> a < r_end r)" for a
    using perm_at_None [OF ch, of a] by auto
  have "(?low \<or> ?bef) \<longleftrightarrow> (\<exists>a. start \<le> a \<and> a < fin \<and> perm_at m a \<noteq> None)"
    unfolding low bef mapped
  proof
    assume "(\<exists>s r. (s, r) \<in> set m \<and> start \<le> s \<and> s < fin) \<or>
      (\<exists>s r. (s, r) \<in> set m \<and> s < start \<and> start < r_end r)"
    then show "\<exists>a. start \<le> a \<and> a < fin \<and> (\<exists>s r. (s, r) \<in> set m \<and> s \<le> a \<and> a < r_end r)"
      using lt chain_mem [OF ch] by (metis less_imp_le order_refl)
  next
    assume "\<exists>a. start \<le> a \<and> a < fin \<and> (\<exists>s r. (s, r) \<in> set m \<and> s \<le> a \<and> a < r_end r)"
    then obtain a s r where A: "start \<le> a" "a < fin" "(s, r) \<in> set m" "s \<le> a" "a < r_end r" by blast
    show "(\<exists>s r. (s, r) \<in> set m \<and> start \<le> s \<and> s < fin) \<or>
      (\<exists>s r. (s, r) \<in> set m \<and> s < start \<and> start < r_end r)"
    proof (cases "start \<le> s")
      case True
      with A show ?thesis by (meson le_less_trans)
    next
      case False
      with A show ?thesis by (meson le_less_trans not_le)
    qed
  qed
  moreover have "overlaps start fin m \<longleftrightarrow> ?low \<or> ?bef"
    by (cases ?low) (simp_all add: overlaps_def valid)
  ultimately show ?thesis using valid by blast
qed (simp add: overlaps_def)

lemma region_at_or_after_find:
  assumes ch: "chain 0 m"
  shows "region_at_or_after a m = map_option to_mapping (find (\<lambda>e. a < r_end (snd e)) m)"
proof -
  note wf = chain_wf [OF ch]
  let ?P = "\<lambda>e :: nat \<times> region. a < r_end (snd e)"
  have up_find: "find ?P (om_upper a m) = (case om_upper a m of [] \<Rightarrow> None | e # _ \<Rightarrow> Some e)"
  proof (cases "om_upper a m")
    case (Cons e es)
    then have "e \<in> set m" "a < fst e" using om_upper_wf [OF wf, of a] by auto
    then have "?P e" using chain_mem [OF ch, of "fst e" "snd e"] by simp
    with Cons show ?thesis by simp
  qed simp
  have low_up: "om_lower a m = om_upper a m" if "\<And>r. (a, r) \<notin> set m"
    unfolding om_lower_def om_upper_def
    by (rule dropWhile_cong) (use that in \<open>auto simp: order_le_less\<close>)
  show ?thesis
  proof (cases "rev (om_before_upper a m)")
    case Nil
    then have "om_upper a m = m" using om_split_upper [of a m] by simp
    moreover have "\<And>r. (a, r) \<notin> set m" using before_upper_Nil [OF wf Nil] by fastforce
    ultimately show ?thesis
      using Nil up_find low_up by (simp add: region_at_or_after_def split: list.splits)
  next
    case (Cons x xs)
    then obtain s r where bu: "rev (om_before_upper a m) = (s, r) # xs" by (cases x) auto
    note last = before_upper_last [OF wf bu]
    have m: "m = rev xs @ (s, r) # om_upper a m"
      using om_split_upper [of a m] bu by (metis append.assoc append_Cons append_Nil rev.simps(2) rev_swap)
    have "\<not> ?P e" if "e \<in> set (rev xs)" for e
    proof -
      have "e \<in> set m" "fst e < s"
        using that wf m by (metis UnCI set_append, metis fst_conv list.set_intros(1) om_wf_def sorted_wrt_append)
      then have "r_end (snd e) \<le> s"
        using chain_disjoint [OF ch, of "fst e" "snd e" s r] last by simp
      with last show ?thesis by auto
    qed
    then have "find ?P (rev xs) = None" unfolding find_None_iff by blast
    moreover have "find ?P m = find ?P (rev xs @ (s, r) # om_upper a m)"
      by (rule arg_cong [OF m])
    ultimately have find: "find ?P m = (if a < r_end r then Some (s, r) else find ?P (om_upper a m))"
      by (simp add: find_append)
    have absent: "(a, r') \<notin> set m" if "\<not> a < r_end r" for r'
    proof
      assume A: "(a, r') \<in> set m"
      with last have "s = a" by fastforce
      with last chain_mem [OF ch, of s r] that show False by simp
    qed
    show ?thesis
    proof (cases "a < r_end r")
      case True
      with bu find show ?thesis by (simp add: region_at_or_after_def)
    next
      case False
      with bu find up_find low_up [OF absent] show ?thesis
        by (simp add: region_at_or_after_def split: list.splits)
    qed
  qed
qed

text \<open>The coalesced representation is canonical: equal views mean equal region lists.\<close>

lemma perm_at_next:
  assumes "chain lo ((s, r) # m)" and "coalesced ((s, r) # m)"
  shows "perm_at ((s, r) # m) (r_end r) \<noteq> Some (r_perm r)"
proof (cases m)
  case (Cons x m')
  obtain s2 r2 where "x = (s2, r2)" by (cases x)
  with Cons assms perm_at_below [of "r_end r2" m' "r_end r"] show ?thesis by (auto split: if_splits)
qed simp

lemma canonical_aux:
  "\<lbrakk>chain lo m; chain lo m'; coalesced m; coalesced m'; perm_at m = perm_at m'\<rbrakk> \<Longrightarrow> m = m'"
proof (induction m arbitrary: lo m')
  case Nil
  show ?case
  proof (cases m')
    case (Cons x n)
    with Nil show ?thesis by (cases x) (auto simp: fun_eq_iff split: if_splits dest: spec [of _ "fst x"])
  qed simp
next
  case (Cons x m)
  obtain s r where x: "x = (s, r)" by (cases x)
  note ch = Cons.prems(1) [unfolded x] and ch' = Cons.prems(2)
  from ch have at_s: "perm_at (x # m) s = Some (r_perm r)" by (simp add: x)
  with Cons.prems(5) have "m' \<noteq> []" by auto
  then obtain s' r' n where m': "m' = (s', r') # n" by (metis list.exhaust prod.exhaust)
  have at_s': "perm_at m' s' = Some (r_perm r')" using ch' by (simp add: m')
  have s: "s = s'"
  proof (rule ccontr)
    assume "s \<noteq> s'"
    then consider "s < s'" | "s' < s" by linarith
    then show False
    proof cases
      case 1
      then have "perm_at m' s = None" using ch' m' perm_at_below [of s' m' s] by simp
      with at_s Cons.prems(5) show False by simp
    next
      case 2
      then have "perm_at (x # m) s' = None" using ch x perm_at_below [of s "x # m" s'] by simp
      with at_s' Cons.prems(5) show False by simp
    qed
  qed
  with at_s at_s' Cons.prems(5) have p: "r_perm r = r_perm r'" by simp
  have e: "r_end r = r_end r'"
  proof (rule ccontr)
    assume "r_end r \<noteq> r_end r'"
    then consider "r_end r < r_end r'" | "r_end r' < r_end r" by linarith
    then show False
    proof cases
      case 1
      then have "perm_at m' (r_end r) = Some (r_perm r)" using ch m' s p by simp
      with perm_at_next [OF ch] Cons.prems(3) show False
        unfolding Cons.prems(5) [symmetric] x by simp
    next
      case 2
      then have "perm_at (x # m) (r_end r') = Some (r_perm r')" using ch' m' s p x by simp
      with perm_at_next [OF ch' [unfolded m']] Cons.prems(4) show False
        unfolding Cons.prems(5) m' by simp
    qed
  qed
  have chm: "chain (r_end r) m" "chain (r_end r) n" using ch ch' m' e by auto
  have "perm_at m a = perm_at n a" for a
  proof (cases "a < r_end r")
    case True
    then show ?thesis using perm_at_below chm by metis
  next
    case False
    then show ?thesis using fun_cong [OF Cons.prems(5), of a] x m' e by simp
  qed
  moreover have "coalesced m" "coalesced n"
    using Cons.prems(3,4) x m' by (cases m; auto; fail) (cases n; use Cons.prems(4) m' in auto)
  ultimately have "m = n" using Cons.IH [OF chm] by (simp add: fun_eq_iff)
  with s p e show ?case by (simp add: x m')
qed

section \<open>The interface the address space relies on\<close>

text \<open>
  What \<open>AddressSpace\<close> needs of its map: the three updates as functions of the view, and
  the access check as a statement about every address of the range.
\<close>

locale permission_store =
  fixes pmap :: "nat \<Rightarrow> nat \<Rightarrow> perm \<Rightarrow> 'm \<Rightarrow> 'm option"
    and punmap :: "nat \<Rightarrow> nat \<Rightarrow> 'm \<Rightarrow> 'm"
    and pprotect :: "nat \<Rightarrow> nat \<Rightarrow> perm \<Rightarrow> 'm \<Rightarrow> bool \<times> 'm"
    and paccessible :: "nat \<Rightarrow> nat \<Rightarrow> perm \<Rightarrow> 'm \<Rightarrow> bool"
    and view :: "'m \<Rightarrow> nat \<Rightarrow> perm option"
    and pinv :: "'m \<Rightarrow> bool"
  assumes pmap_law: "pinv m \<Longrightarrow> \<exists>m'. pmap s e p m = Some m' \<and> pinv m' \<and>
      (\<forall>a. view m' a = (if valid_range s e \<and> s \<le> a \<and> a < e then Some (or_perm p (view m a)) else view m a))"
    and punmap_law: "pinv m \<Longrightarrow> pinv (punmap s e m) \<and>
      (\<forall>a. view (punmap s e m) a = (if valid_range s e \<and> s \<le> a \<and> a < e then None else view m a))"
    and pprotect_law: "pinv m \<Longrightarrow> pinv (snd (pprotect s e p m)) \<and>
      fst (pprotect s e p m) = (valid_range s e \<and> (\<forall>a. s \<le> a \<and> a < e \<longrightarrow> view m a \<noteq> None)) \<and>
      (\<forall>a. view (snd (pprotect s e p m)) a =
        (if fst (pprotect s e p m) \<and> s \<le> a \<and> a < e then Some p else view m a))"
    and paccessible_law: "pinv m \<Longrightarrow> paccessible s e acc m \<longleftrightarrow> valid_range s e \<and>
      (\<forall>a. s \<le> a \<and> a < e \<longrightarrow> (\<exists>q. view m a = Some q \<and> has_permission q acc))"
begin

lemma pmap_accessible:
  assumes "pinv m" "valid_range s e" "pmap s e p m = Some m'"
  shows "paccessible s e p m'"
proof -
  from pmap_law [OF assms(1), of s e p] assms(2,3) have inv': "pinv m'"
    and v: "\<forall>a. s \<le> a \<and> a < e \<longrightarrow> view m' a = Some (or_perm p (view m a))" by auto
  have "has_permission (or_perm p q) p" for q
    by (cases q) (simp_all add: or_perm_def)
  with v assms(2) show ?thesis by (simp add: paccessible_law [OF inv'])
qed

lemma punmap_inaccessible:
  assumes "pinv m" "valid_range s e" "valid_range s' e'" "s' < e" "s < e'"
  shows "\<not> paccessible s' e' acc (punmap s e m)"
proof -
  have "view (punmap s e m) (max s s') = None"
    using punmap_law [OF assms(1), of s e] assms by (simp add: valid_range_def max_def)
  moreover have "s' \<le> max s s'" "max s s' < e'" using assms by (auto simp: valid_range_def)
  moreover have "pinv (punmap s e m)" using punmap_law [OF assms(1)] by blast
  ultimately show ?thesis by (metis option.discI paccessible_law)
qed

lemma pprotect_exact:
  assumes "pinv m" "fst (pprotect s e p m)"
  shows "paccessible s e acc (snd (pprotect s e p m)) \<longleftrightarrow> has_permission p acc"
proof -
  have inv': "pinv (snd (pprotect s e p m))" using pprotect_law [OF assms(1)] by blast
  have "valid_range s e" using pprotect_law [OF assms(1), of s e p] assms(2) by blast
  with pprotect_law [OF assms(1), of s e p] assms(2) show ?thesis
    by (auto simp: paccessible_law [OF inv'] valid_range_def)
qed

end

interpretation vm: permission_store map_or unmap protect accessible perm_at vm_inv
proof unfold_locales
  fix m s e p acc
  assume inv: "vm_inv m"
  show "\<exists>m'. map_or s e p m = Some m' \<and> vm_inv m' \<and> (\<forall>a. perm_at m' a =
      (if valid_range s e \<and> s \<le> a \<and> a < e then Some (or_perm p (perm_at m a)) else perm_at m a))"
    using inv by (rule map_or_spec)
  show "vm_inv (unmap s e m) \<and> (\<forall>a. perm_at (unmap s e m) a =
      (if valid_range s e \<and> s \<le> a \<and> a < e then None else perm_at m a))"
    using inv by (rule unmap_spec)
  show "vm_inv (snd (protect s e p m)) \<and>
      fst (protect s e p m) = (valid_range s e \<and> (\<forall>a. s \<le> a \<and> a < e \<longrightarrow> perm_at m a \<noteq> None)) \<and>
      (\<forall>a. perm_at (snd (protect s e p m)) a =
        (if fst (protect s e p m) \<and> s \<le> a \<and> a < e then Some p else perm_at m a))"
    using inv by (rule protect_spec)
  show "accessible s e acc m \<longleftrightarrow> valid_range s e \<and>
      (\<forall>a. s \<le> a \<and> a < e \<longrightarrow> (\<exists>q. perm_at m a = Some q \<and> has_permission q acc))"
    using inv by (simp add: vm_inv_def accessible_spec)
qed

section \<open>Histories of a map\<close>

datatype vm_op = MapOr nat nat perm | Unmap nat nat | Protect nat nat perm | ClearMap

fun vm_step :: "vm_map option \<Rightarrow> vm_op \<Rightarrow> vm_map option" where
  "vm_step None _ = None"
| "vm_step (Some m) (MapOr s e p) = map_or s e p m"
| "vm_step (Some m) (Unmap s e) = Some (unmap s e m)"
| "vm_step (Some m) (Protect s e p) = Some (snd (protect s e p m))"
| "vm_step (Some m) ClearMap = Some []"

definition vm_run :: "vm_op list \<Rightarrow> vm_map option" where
  "vm_run ops = foldl vm_step (Some []) ops"

text \<open>The abstract machine: the permissions of every address, updated pointwise.\<close>

fun view_step :: "(nat \<Rightarrow> perm option) \<Rightarrow> vm_op \<Rightarrow> (nat \<Rightarrow> perm option)" where
  "view_step v (MapOr s e p) =
     (\<lambda>a. if valid_range s e \<and> s \<le> a \<and> a < e then Some (or_perm p (v a)) else v a)"
| "view_step v (Unmap s e) = (\<lambda>a. if valid_range s e \<and> s \<le> a \<and> a < e then None else v a)"
| "view_step v (Protect s e p) =
     (if valid_range s e \<and> (\<forall>a. s \<le> a \<and> a < e \<longrightarrow> v a \<noteq> None)
      then (\<lambda>a. if s \<le> a \<and> a < e then Some p else v a) else v)"
| "view_step v ClearMap = (\<lambda>_. None)"

definition vm_running :: "vm_map option \<Rightarrow> bool" where
  "vm_running s \<longleftrightarrow> (\<exists>m. s = Some m \<and> vm_inv m)"

definition vm_view :: "vm_map option \<Rightarrow> nat \<Rightarrow> perm option" where
  "vm_view s = (case s of None \<Rightarrow> (\<lambda>_. None) | Some m \<Rightarrow> perm_at m)"

lemma vm_step_sim:
  assumes "vm_inv m"
  shows "\<exists>m'. vm_step (Some m) e = Some m' \<and> vm_inv m' \<and> perm_at m' = view_step (perm_at m) e"
proof (cases e)
  case (MapOr s f p)
  then show ?thesis using map_or_spec [OF assms, of s f p] by (auto simp: fun_eq_iff)
next
  case (Unmap s f)
  then show ?thesis using unmap_spec [OF assms, of s f] by (auto simp: fun_eq_iff)
next
  case (Protect s f p)
  then show ?thesis using protect_spec [OF assms, of s f p] by (auto simp: fun_eq_iff)
qed (simp add: vm_inv_def fun_eq_iff)

interpretation vm_machine: refining_machine "Some []" vm_step vm_running view_step vm_view
proof unfold_locales
  fix s e
  assume "vm_running s"
  then obtain m where m: "s = Some m" "vm_inv m" by (auto simp: vm_running_def)
  with vm_step_sim [OF m(2), of e] show "vm_running (vm_step s e)" "vm_view (vm_step s e) = view_step (vm_view s) e"
    by (auto simp: vm_running_def vm_view_def)
qed (simp add: vm_running_def vm_inv_def)

lemma perm_at_empty: "perm_at [] = (\<lambda>_. None)"
  by (simp add: fun_eq_iff)

lemma vm_run_spec:
  "\<exists>m. vm_run ops = Some m \<and> vm_inv m \<and> perm_at m = foldl view_step (\<lambda>_. None) ops"
  using vm_machine.run_inv [of ops] vm_machine.run_abs [of ops]
  by (auto simp: vm_run_def vm_running_def vm_view_def perm_at_empty)

section \<open>Properties\<close>

text \<open>
  C1: every history of \<open>map_or\<close>, \<open>unmap\<close>, \<open>protect\<close> and \<open>clear\<close> calls, with any arguments
  (invalid ranges included), returns, leaves an ordered, disjoint, coalesced map, and that map
  gives each address exactly the permissions of the pointwise abstract machine.
\<close>

theorem vm_history_refines:
  "\<exists>m. vm_run ops = Some m \<and> vm_inv m \<and> perm_at m = foldl view_step (\<lambda>_. None) ops"
  by (rule vm_run_spec)

text \<open>
  C2: the region list is canonical: two histories that leave the same permissions at every
  address leave the same list of regions, however the ranges were split on the way.
\<close>

theorem vm_history_canonical:
  assumes "foldl view_step (\<lambda>_. None) ops = foldl view_step (\<lambda>_. None) ops'"
  shows "vm_run ops = vm_run ops'"
proof -
  obtain m m' where "vm_run ops = Some m" "vm_run ops' = Some m'" "vm_inv m" "vm_inv m'" "perm_at m = perm_at m'"
    using vm_run_spec [of ops] vm_run_spec [of ops'] assms by auto
  then show ?thesis using canonical_aux [of 0 m m'] by (simp add: vm_inv_def)
qed

theorem vm_history_canonical_witness:
  "vm_run [MapOr 0 8 1, MapOr 8 16 1] = vm_run [MapOr 0 16 1]"
  by (rule vm_history_canonical)
    (auto simp: fun_eq_iff valid_range_def address_space_end_def or_perm_def)

text \<open>
  an access check on a map built by any history succeeds exactly when the range is valid
  and every address of it is mapped with the permissions asked for, although the code walks
  regions and looks at each only once.
\<close>

theorem vm_accessible_pointwise:
  assumes "vm_run ops = Some m"
  shows "accessible start fin acc m \<longleftrightarrow> valid_range start fin \<and>
    (\<forall>a. start \<le> a \<and> a < fin \<longrightarrow> (\<exists>q. perm_at m a = Some q \<and> has_permission q acc))"
proof -
  have "vm_inv m" using vm_machine.run_inv [of ops] assms by (auto simp: vm_run_def vm_running_def)
  then show ?thesis by (rule vm.paccessible_law)
qed

theorem vm_accessible_pointwise_witness:
  "accessible 3 5 1 [] \<longleftrightarrow> valid_range 3 5 \<and>
    (\<forall>a. 3 \<le> a \<and> a < 5 \<longrightarrow> (\<exists>q. perm_at [] a = Some q \<and> has_permission q 1))"
  by (rule vm_accessible_pointwise [of "[Unmap 0 8]"])
    (simp add: vm_run_def unmap_def valid_range_def address_space_end_def split_at_def
      om_before_lower_def om_lower_def)

text \<open>
  changing protections: after a successful \<open>protect\<close> the range grants exactly the new
  permissions, and a \<open>protect\<close> over a range with a hole (or an invalid one) reports failure
  and leaves the map as it was.
\<close>

theorem vm_protect_all_or_nothing:
  assumes "vm_inv m"
  shows "if fst (protect start fin p m)
    then (\<forall>acc. accessible start fin acc (snd (protect start fin p m)) \<longleftrightarrow> has_permission p acc)
    else snd (protect start fin p m) = m \<and>
      (\<not> valid_range start fin \<or> (\<exists>a. start \<le> a \<and> a < fin \<and> perm_at m a = None))"
proof (cases "fst (protect start fin p m)")
  case True
  with vm.pprotect_exact [OF assms] show ?thesis by simp
next
  case False
  then have "snd (protect start fin p m) = m" by (simp add: protect_def Let_def split: if_splits)
  with False vm.pprotect_law [OF assms, of start fin p] show ?thesis by auto
qed

theorem vm_protect_all_or_nothing_witness:
  "snd (protect 4 12 2 [(0, \<lparr>r_end = 8, r_perm = 1\<rparr>)]) = [(0, \<lparr>r_end = 8, r_perm = 1\<rparr>)]"
proof -
  have "vm_inv [(0, \<lparr>r_end = 8, r_perm = 1\<rparr>)]" by (simp add: vm_inv_def address_space_end_def)
  from vm_protect_all_or_nothing [OF this, of 4 12 2] show ?thesis
    by (auto simp: protect_def accessible_def valid_range_def address_space_end_def om_before_upper_def
        om_upper_def split: if_splits)
qed

text \<open>
  the region query that combines \<open>upper_bound\<close>, its predecessor and \<open>lower_bound\<close>
  finds the first region that ends after the address, as a linear search over the regions does.
\<close>

theorem vm_region_query_first:
  assumes "vm_inv m"
  shows "region_at_or_after a m = map_option to_mapping (find (\<lambda>e. a < r_end (snd e)) m)"
  using assms by (simp add: vm_inv_def region_at_or_after_find)

theorem vm_region_query_first_witness:
  "region_at_or_after 9 [(0, \<lparr>r_end = 8, r_perm = 1\<rparr>), (16, \<lparr>r_end = 24, r_perm = 2\<rparr>)] =
    Some \<lparr>mr_address = 16, mr_end = 24, mr_perm = 2\<rparr>"
proof -
  have "vm_inv [(0, \<lparr>r_end = 8, r_perm = 1\<rparr>), (16, \<lparr>r_end = 24, r_perm = 2\<rparr>)]"
    by (simp add: vm_inv_def address_space_end_def)
  from vm_region_query_first [OF this, of 9] show ?thesis by (simp add: to_mapping_def)
qed

text \<open>
  the overlap test used before placing a new mapping is exact: it says yes precisely when
  some address of a valid range is mapped.
\<close>

theorem vm_overlap_exact:
  assumes "vm_inv m"
  shows "overlaps start fin m \<longleftrightarrow> valid_range start fin \<and>
    (\<exists>a. start \<le> a \<and> a < fin \<and> perm_at m a \<noteq> None)"
  using assms by (simp add: vm_inv_def overlaps_spec)

theorem vm_overlap_exact_witness:
  "overlaps 6 20 [(0, \<lparr>r_end = 8, r_perm = 1\<rparr>)]"
proof -
  have "vm_inv [(0, \<lparr>r_end = 8, r_perm = 1\<rparr>)]" by (simp add: vm_inv_def address_space_end_def)
  moreover have "\<exists>a. 6 \<le> a \<and> a < 20 \<and> perm_at [(0, \<lparr>r_end = 8, r_perm = 1\<rparr>)] a \<noteq> None"
    by (rule exI [of _ 6]) simp
  moreover have "valid_range 6 20" by (simp add: valid_range_def address_space_end_def)
  ultimately show ?thesis using vm_overlap_exact [of _ 6 20] by blast
qed

end
