(* ===== verification/Deadline_Queue.thy ===== *)
theory Deadline_Queue
  imports Ilsim_Prelude
begin

text \<open>
  \<open>DeadlineQueue\<close> (\<open>include/ilemu/deadline_queue.hpp\<close>): the indexed deadline storage of the
  run loop, with the deadline of each key and, per deadline, the set of keys that wait for it.
  Keys and deadlines are any linearly ordered types, as in the template.
\<close>

section \<open>The two indexes\<close>

record ('k, 'd) deadline_queue =
  dq_deadlines :: "('k, 'd) omap"
  dq_order :: "('d, 'k set) omap"

definition dq_empty :: "('k, 'd) deadline_queue" where
  "dq_empty = \<lparr>dq_deadlines = [], dq_order = []\<rparr>"

definition erase_from_order :: "'k \<Rightarrow> 'd::linorder \<Rightarrow> ('d, 'k set) omap \<Rightarrow> ('d, 'k set) omap" where
  "erase_from_order key deadline ord =
     (case map_of ord deadline of
        None \<Rightarrow> ord
      | Some keys \<Rightarrow>
          if keys - {key} = {} then om_erase deadline ord
          else om_put deadline (keys - {key}) ord)"

text \<open>\<open>order_[deadline].insert(key)\<close>: \<open>operator[]\<close> makes an empty set first.\<close>

definition insert_in_order :: "'k \<Rightarrow> 'd::linorder \<Rightarrow> ('d, 'k set) omap \<Rightarrow> ('d, 'k set) omap" where
  "insert_in_order key deadline ord =
     om_put deadline (insert key (case map_of ord deadline of None \<Rightarrow> {} | Some keys \<Rightarrow> keys)) ord"

definition dq_upsert ::
    "'k::linorder \<Rightarrow> 'd::linorder \<Rightarrow> ('k, 'd) deadline_queue \<Rightarrow> ('k, 'd) deadline_queue" where
  "dq_upsert key deadline q =
     (case map_of (dq_deadlines q) key of
        Some existing \<Rightarrow>
          if existing = deadline then q
          else \<lparr>dq_deadlines = om_put key deadline (dq_deadlines q),
                dq_order = insert_in_order key deadline
                  (erase_from_order key existing (dq_order q))\<rparr>
      | None \<Rightarrow>
          \<lparr>dq_deadlines = om_emplace key deadline (dq_deadlines q),
           dq_order = insert_in_order key deadline (dq_order q)\<rparr>)"

definition dq_erase ::
    "'k::linorder \<Rightarrow> ('k, 'd::linorder) deadline_queue \<Rightarrow> bool \<times> ('k, 'd) deadline_queue" where
  "dq_erase key q =
     (case map_of (dq_deadlines q) key of
        None \<Rightarrow> (False, q)
      | Some existing \<Rightarrow>
          (True, \<lparr>dq_deadlines = om_erase key (dq_deadlines q),
                  dq_order = erase_from_order key existing (dq_order q)\<rparr>))"

definition dq_contains :: "'k \<Rightarrow> ('k, 'd) deadline_queue \<Rightarrow> bool" where
  "dq_contains key q \<longleftrightarrow> map_of (dq_deadlines q) key \<noteq> None"

definition dq_next_deadline :: "('k, 'd) deadline_queue \<Rightarrow> 'd option" where
  "dq_next_deadline q = (case dq_order q of [] \<Rightarrow> None | (deadline, _) # _ \<Rightarrow> Some deadline)"

definition dq_size :: "('k, 'd) deadline_queue \<Rightarrow> nat" where
  "dq_size q = length (dq_deadlines q)"

section \<open>Invariant: the two indexes describe one finite map\<close>

definition order_agrees :: "('k \<rightharpoonup> 'd) \<Rightarrow> ('d \<rightharpoonup> 'k set) \<Rightarrow> bool" where
  "order_agrees dl ord \<longleftrightarrow> (\<forall>d. ord d = (if {k. dl k = Some d} = {} then None else Some {k. dl k = Some d}))"

definition dq_inv :: "('k::linorder, 'd::linorder) deadline_queue \<Rightarrow> bool" where
  "dq_inv q \<longleftrightarrow> om_wf (dq_deadlines q) \<and> om_wf (dq_order q) \<and>
     order_agrees (map_of (dq_deadlines q)) (map_of (dq_order q))"

definition dq_view :: "('k, 'd) deadline_queue \<Rightarrow> 'k \<rightharpoonup> 'd" where
  "dq_view q = map_of (dq_deadlines q)"

lemma erase_from_order_wf [simp]: "om_wf ord \<Longrightarrow> om_wf (erase_from_order k d ord)"
  by (simp add: erase_from_order_def split: option.split)

lemma insert_in_order_wf [simp]: "om_wf ord \<Longrightarrow> om_wf (insert_in_order k d ord)"
  by (simp add: insert_in_order_def)

lemma erase_from_order_agrees:
  assumes "order_agrees dl (map_of ord)" and "dl k = Some d"
  shows "order_agrees (dl(k := None)) (map_of (erase_from_order k d ord))"
proof -
  have here: "map_of ord d = Some {x. dl x = Some d}"
    using assms by (auto simp: order_agrees_def)
  have at_d: "{x. (dl(k := None)) x = Some d} = {x. dl x = Some d} - {k}" by auto
  have other: "{x. (dl(k := None)) x = Some e} = {x. dl x = Some e}" if "e \<noteq> d" for e
    using assms(2) that by auto
  show ?thesis
    unfolding order_agrees_def
  proof
    fix e
    show "map_of (erase_from_order k d ord) e =
      (if {x. (dl(k := None)) x = Some e} = {} then None else Some {x. (dl(k := None)) x = Some e})"
    proof (cases "e = d")
      case True
      then show ?thesis unfolding True at_d by (simp add: erase_from_order_def here)
    next
      case False
      then show ?thesis
        unfolding other [OF False] using assms(1) by (simp add: erase_from_order_def here order_agrees_def)
    qed
  qed
qed

lemma insert_in_order_agrees:
  assumes "order_agrees dl (map_of ord)" and "dl k = None"
  shows "order_agrees (dl(k \<mapsto> d)) (map_of (insert_in_order k d ord))"
proof -
  have at_d: "{x. (dl(k \<mapsto> d)) x = Some d} = insert k {x. dl x = Some d}" by auto
  have other: "{x. (dl(k \<mapsto> d)) x = Some e} = {x. dl x = Some e}" if "e \<noteq> d" for e
    using assms(2) that by auto
  show ?thesis
    unfolding order_agrees_def
  proof
    fix e
    show "map_of (insert_in_order k d ord) e =
      (if {x. (dl(k \<mapsto> d)) x = Some e} = {} then None else Some {x. (dl(k \<mapsto> d)) x = Some e})"
    proof (cases "e = d")
      case True
      then show ?thesis
        unfolding True at_d using assms(1) by (auto simp: order_agrees_def insert_in_order_def)
    next
      case False
      then show ?thesis
        unfolding other [OF False] using assms(1) by (simp add: order_agrees_def insert_in_order_def)
    qed
  qed
qed

lemma dq_upsert_spec:
  assumes "dq_inv q"
  shows "dq_inv (dq_upsert k d q) \<and> dq_view (dq_upsert k d q) = (dq_view q)(k \<mapsto> d)"
proof (cases "map_of (dq_deadlines q) k")
  case None
  with assms show ?thesis
    by (simp add: dq_upsert_def dq_inv_def dq_view_def insert_in_order_agrees)
next
  case (Some e)
  have "order_agrees ((map_of (dq_deadlines q))(k := None)) (map_of (erase_from_order k e (dq_order q)))"
    using assms Some by (simp add: dq_inv_def erase_from_order_agrees)
  from insert_in_order_agrees [OF this, of k d] assms Some show ?thesis
    by (auto simp: dq_upsert_def dq_inv_def dq_view_def)
qed

lemma dq_erase_spec:
  assumes "dq_inv q"
  shows "dq_inv (snd (dq_erase k q)) \<and> dq_view (snd (dq_erase k q)) = (dq_view q)(k := None) \<and>
    fst (dq_erase k q) = (dq_view q k \<noteq> None)"
  using assms by (cases "map_of (dq_deadlines q) k")
    (auto simp: dq_erase_def dq_inv_def dq_view_def erase_from_order_agrees fun_eq_iff)

lemma dq_next_spec:
  assumes "dq_inv q"
  shows "dq_next_deadline q = (if ran (dq_view q) = {} then None else Some (Min (ran (dq_view q))))"
proof -
  have agrees: "order_agrees (dq_view q) (map_of (dq_order q))" and wf: "om_wf (dq_order q)"
    using assms by (auto simp: dq_inv_def dq_view_def)
  have "e \<in> ran (dq_view q) \<longleftrightarrow> map_of (dq_order q) e \<noteq> None" for e
    using agrees by (auto simp: order_agrees_def ran_def)
  then have ran: "ran (dq_view q) = fst ` set (dq_order q)"
    by (auto simp: map_of_eq_None_iff)
  show ?thesis
  proof (cases "dq_order q")
    case Nil
    with ran show ?thesis by (simp add: dq_next_deadline_def)
  next
    case (Cons e m)
    have "Min (fst ` set (dq_order q)) = fst e"
    proof (rule Min_eqI)
      fix y assume "y \<in> fst ` set (dq_order q)"
      with wf Cons show "fst e \<le> y" by (auto simp: om_wf_Cons dest: less_imp_le)
    qed (use Cons in auto)
    with Cons ran show ?thesis by (auto simp: dq_next_deadline_def split: prod.split)
  qed
qed

lemma dq_size_spec: "dq_inv q \<Longrightarrow> dq_size q = card (dom (dq_view q))"
  using distinct_card [OF om_wf_distinct, of "dq_deadlines q"]
  by (simp add: dq_size_def dq_view_def dq_inv_def dom_map_of_conv_image_fst)

section \<open>The interface of the run loop\<close>

text \<open>
  The run loop keeps one deadline per source and sleeps until the earliest. The laws say how
  the two updates change the view and that the next deadline is the least one in it.
\<close>

locale deadline_store =
  fixes empty :: "'q"
    and upsert :: "'k \<Rightarrow> 'd::linorder \<Rightarrow> 'q \<Rightarrow> 'q"
    and erase :: "'k \<Rightarrow> 'q \<Rightarrow> bool \<times> 'q"
    and next_due :: "'q \<Rightarrow> 'd option"
    and view :: "'q \<Rightarrow> 'k \<rightharpoonup> 'd"
    and qinv :: "'q \<Rightarrow> bool"
  assumes empty_law: "qinv empty \<and> view empty = (\<lambda>_. None)"
    and upsert_law: "qinv q \<Longrightarrow> qinv (upsert k d q) \<and> view (upsert k d q) = (view q)(k \<mapsto> d)"
    and erase_law: "qinv q \<Longrightarrow> qinv (snd (erase k q)) \<and> view (snd (erase k q)) = (view q)(k := None)"
    and next_law: "qinv q \<Longrightarrow> finite (dom (view q)) \<and>
      next_due q = (if ran (view q) = {} then None else Some (Min (ran (view q))))"
begin

lemma next_le:
  assumes "qinv q" "view q k = Some d"
  shows "\<exists>e. next_due q = Some e \<and> e \<le> d"
proof -
  have "finite (ran (view q))" using next_law [OF assms(1)] by (simp add: finite_ran)
  moreover have "d \<in> ran (view q)" using assms(2) by (auto simp: ran_def)
  ultimately show ?thesis using next_law [OF assms(1)] by (auto intro: Min_le)
qed

lemma next_attained:
  assumes "qinv q" "next_due q = Some d"
  shows "\<exists>k. view q k = Some d"
proof -
  have fin: "finite (ran (view q))" using next_law [OF assms(1)] by (simp add: finite_ran)
  have "ran (view q) \<noteq> {}" "d = Min (ran (view q))"
    using next_law [OF assms(1)] assms(2) by (auto split: if_splits)
  with fin have "d \<in> ran (view q)" by (metis Min_in)
  then show ?thesis by (auto simp: ran_def)
qed

text \<open>Re-arming a source forgets its old deadline: only the new one can be reported for it.\<close>

lemma next_upsert:
  assumes "qinv q" "next_due (upsert k d q) = Some e"
  shows "e = d \<or> (\<exists>k'. k' \<noteq> k \<and> view q k' = Some e)"
  using next_attained [OF _ assms(2)] upsert_law [OF assms(1)] by (auto split: if_splits)

end

interpretation dq: deadline_store dq_empty dq_upsert dq_erase dq_next_deadline dq_view dq_inv
proof unfold_locales
  show "dq_inv dq_empty \<and> dq_view dq_empty = (\<lambda>_. None)"
    by (auto simp: dq_inv_def dq_empty_def dq_view_def order_agrees_def)
next
  fix q :: "('a, 'b) deadline_queue" assume inv: "dq_inv q"
  show "finite (dom (dq_view q)) \<and>
      dq_next_deadline q = (if ran (dq_view q) = {} then None else Some (Min (ran (dq_view q))))"
    using dq_next_spec [OF inv] by (simp add: dq_view_def finite_dom_map_of)
qed (simp_all add: dq_upsert_spec dq_erase_spec)

section \<open>Properties\<close>

datatype ('k, 'd) dq_op = Upsert 'k 'd | Erase 'k | ClearQueue

fun dq_step :: "('k::linorder, 'd::linorder) deadline_queue \<Rightarrow> ('k, 'd) dq_op \<Rightarrow> ('k, 'd) deadline_queue" where
  "dq_step q (Upsert k d) = dq_upsert k d q"
| "dq_step q (Erase k) = snd (dq_erase k q)"
| "dq_step q ClearQueue = dq_empty"

fun deadline_map_step :: "('k \<rightharpoonup> 'd) \<Rightarrow> ('k, 'd) dq_op \<Rightarrow> ('k \<rightharpoonup> 'd)" where
  "deadline_map_step m (Upsert k d) = m(k \<mapsto> d)"
| "deadline_map_step m (Erase k) = m(k := None)"
| "deadline_map_step m ClearQueue = (\<lambda>_. None)"

interpretation dq_machine: refining_machine dq_empty dq_step dq_inv deadline_map_step dq_view
proof unfold_locales
  fix s :: "('a, 'b) deadline_queue" and e
  assume inv: "dq_inv s"
  show "dq_inv (dq_step s e)"
    using inv by (cases e) (simp_all add: dq_upsert_spec dq_erase_spec dq.empty_law)
  show "dq_view (dq_step s e) = deadline_map_step (dq_view s) e"
    using inv by (cases e) (simp_all add: dq_upsert_spec dq_erase_spec dq.empty_law)
qed (simp add: dq.empty_law)

text \<open>
  C3: after any history of updates the queue reports as its next deadline the least deadline of
  the plain key-to-deadline map that the history denotes, and nothing when that map is empty;
  its size is the number of keys.
\<close>

theorem deadline_queue_next_is_minimum:
  "let m = foldl deadline_map_step (\<lambda>_. None) ops; q = foldl dq_step dq_empty ops in
    dq_view q = m \<and>
    dq_next_deadline q = (if ran m = {} then None else Some (Min (ran m))) \<and>
    dq_size q = card (dom m)"
  using dq_machine.run_inv [of ops] dq_machine.run_abs [of ops]
  by (simp add: Let_def dq_next_spec dq_size_spec dq.empty_law)

text \<open>
  re-arming a key never leaves its previous deadline behind: what the queue reports next is
  the new deadline or one that another key asked for.
\<close>

theorem deadline_queue_rearm:
  assumes "dq_inv q" and "dq_next_deadline (dq_upsert k d q) = Some e"
  shows "e = d \<or> (\<exists>k'. k' \<noteq> k \<and> dq_view q k' = Some e)"
  using assms by (rule dq.next_upsert)

theorem deadline_queue_rearm_witness:
  "(9::nat) = 9 \<or> (\<exists>k'. k' \<noteq> (1::nat) \<and> dq_view (dq_upsert 1 (4::nat) dq_empty) k' = Some 9)"
proof -
  have "dq_inv (dq_upsert (1::nat) (4::nat) dq_empty)"
    using dq.empty_law dq.upsert_law by blast
  moreover have "dq_next_deadline (dq_upsert 1 9 (dq_upsert (1::nat) (4::nat) dq_empty)) = Some 9"
    by (simp add: dq_upsert_def dq_empty_def dq_next_deadline_def insert_in_order_def
        erase_from_order_def om_emplace_def om_erase_def)
  ultimately show ?thesis by (rule deadline_queue_rearm)
qed

end
