(* ===== verification/Virtual_Clock.thy ===== *)
theory Virtual_Clock
  imports Ilsim_Prelude
begin

text \<open>
  \<open>VirtualClock\<close> (\<open>include/ilemu/virtual_clock.hpp\<close>, \<open>src/foundation/virtual_clock.cpp\<close>): the
  monotonic counter and the calendar kept as a signed offset from it. The counter is a 64-bit
  word (\<open>fetch_add\<close> wraps); the offset is the value of an \<open>int64_t\<close> as an integer in range.
  Each operation is one atomic step; two threads interleave whole operations.
\<close>

record virtual_clock =
  vc_now :: u64
  vc_wall_time_offset :: int

definition maximum_positive_offset :: u64 where
  "maximum_positive_offset = 0x7FFFFFFFFFFFFFFF"

definition u64_numeric_max :: u64 where
  "u64_numeric_max = 0xFFFFFFFFFFFFFFFF"

definition int64_min :: int where
  "int64_min = - (2 ^ 63)"

definition default_initial_time :: u64 where
  "default_initial_time = 1000000"

definition default_wall_time_epoch_seconds :: u64 where
  "default_wall_time_epoch_seconds = 1180000000"

definition nanoseconds_per_second :: u64 where
  "nanoseconds_per_second = 1000000000"

definition calendar_offset :: "u64 \<Rightarrow> u64 \<Rightarrow> int" where
  "calendar_offset calendar_time monotonic_time =
     (if calendar_time \<ge> monotonic_time
      then uint (min (calendar_time - monotonic_time) maximum_positive_offset)
      else let magnitude = monotonic_time - calendar_time
           in if magnitude > maximum_positive_offset then int64_min else - uint magnitude)"

definition clock_init :: "u64 \<Rightarrow> virtual_clock" where
  "clock_init initial_time =
     \<lparr>vc_now = initial_time,
      vc_wall_time_offset =
        calendar_offset (default_wall_time_epoch_seconds * nanoseconds_per_second) initial_time\<rparr>"

definition wall_time :: "virtual_clock \<Rightarrow> u64" where
  "wall_time c =
     (let monotonic_time = vc_now c; offset = vc_wall_time_offset c
      in if offset < 0 then
           let magnitude = (if offset = int64_min then maximum_positive_offset + 1
                            else word_of_int (- offset))
           in if monotonic_time > magnitude then monotonic_time - magnitude else 0
         else let positive_offset = word_of_int offset
           in if monotonic_time > u64_numeric_max - positive_offset then u64_numeric_max
              else positive_offset + monotonic_time)"

definition set_wall_time :: "u64 \<Rightarrow> virtual_clock \<Rightarrow> virtual_clock" where
  "set_wall_time unix_time c =
     c\<lparr>vc_wall_time_offset := calendar_offset unix_time (vc_now c)\<rparr>"

definition synchronize_wall_time :: "u64 \<Rightarrow> virtual_clock \<Rightarrow> virtual_clock" where
  "synchronize_wall_time unix_time c = set_wall_time unix_time c"

definition tick :: "u64 \<Rightarrow> virtual_clock \<Rightarrow> u64 \<times> virtual_clock" where
  "tick increment c = (vc_now c + increment, c\<lparr>vc_now := vc_now c + increment\<rparr>)"

definition advance_to :: "u64 \<Rightarrow> virtual_clock \<Rightarrow> virtual_clock" where
  "advance_to deadline c = (if vc_now c < deadline then c\<lparr>vc_now := deadline\<rparr> else c)"

section \<open>Lemmas\<close>

definition offset_inv :: "virtual_clock \<Rightarrow> bool" where
  "offset_inv c \<longleftrightarrow> int64_min \<le> vc_wall_time_offset c \<and> vc_wall_time_offset c < 2 ^ 63"

lemma uint_u64: "0 \<le> uint (x :: u64)" "uint (x :: u64) < 2 ^ 64"
  using uint_bounded [of x] by simp_all

lemma uint_max_pos: "uint maximum_positive_offset = 2 ^ 63 - 1"
  by (simp add: maximum_positive_offset_def)

lemma uint_sub_u64: "(b :: u64) \<le> a \<Longrightarrow> uint (a - b) = uint a - uint b"
  by (simp add: uint_minus_simple_alt)

lemma calendar_offset_eq:
  "calendar_offset cal mt =
    (let d = uint cal - uint mt in
     if d > 2 ^ 63 - 1 then 2 ^ 63 - 1 else if d < - (2 ^ 63 - 1) then int64_min else d)"
proof (cases "mt \<le> cal")
  case True
  then have "uint mt \<le> uint cal" by (simp add: word_le_def)
  with True show ?thesis
    by (auto simp: calendar_offset_def Let_def min_def word_le_def uint_sub_u64 uint_max_pos
        maximum_positive_offset_def int64_min_def)
next
  case False
  then have lt: "uint cal < uint mt" by (simp add: word_le_def)
  have sub: "uint (mt - cal) = uint mt - uint cal"
    using lt by (intro uint_sub_u64) (simp add: word_le_def)
  have "maximum_positive_offset < mt - cal \<longleftrightarrow> 2 ^ 63 - 1 < uint mt - uint cal"
    by (simp add: word_less_def sub uint_max_pos)
  with False lt show ?thesis
    by (auto simp: calendar_offset_def Let_def sub int64_min_def)
qed

lemma calendar_offset_range: "int64_min \<le> calendar_offset cal mt \<and> calendar_offset cal mt < 2 ^ 63"
  by (simp add: calendar_offset_eq Let_def int64_min_def)

text \<open>The wall time is the clamped sum of the counter and the offset.\<close>

lemma wall_time_eq:
  assumes "offset_inv c"
  shows "uint (wall_time c) = max 0 (min (2 ^ 64 - 1) (uint (vc_now c) + vc_wall_time_offset c))"
proof (cases "vc_wall_time_offset c < 0")
  case True
  let ?o = "vc_wall_time_offset c"
  let ?m = "if ?o = int64_min then maximum_positive_offset + 1 else word_of_int (- ?o) :: u64"
  have "uint (word_of_int (- ?o) :: u64) = (- ?o) mod 2 ^ 64"
    by (simp only: uint_word_of_int) simp
  also have "\<dots> = - ?o"
    using True assms by (intro mod_pos_pos_trivial) (auto simp: offset_inv_def int64_min_def)
  finally have m: "uint ?m = - ?o"
    by (auto simp: int64_min_def maximum_positive_offset_def)
  show ?thesis
  proof (cases "vc_now c > ?m")
    case gt: True
    then have "uint (vc_now c - ?m) = uint (vc_now c) + ?o"
      using m by (subst uint_sub_u64) (auto simp: less_imp_le)
    moreover have "- ?o < uint (vc_now c)" using gt m by (simp add: word_less_def)
    ultimately show ?thesis
      using True gt uint_u64(2) [of "vc_now c"] by (simp add: wall_time_def Let_def)
  next
    case False
    then have "uint (vc_now c) \<le> - ?o" using m by (simp add: word_less_def)
    with True False show ?thesis by (simp add: wall_time_def Let_def)
  qed
next
  case False
  let ?o = "vc_wall_time_offset c"
  have p: "uint (word_of_int ?o :: u64) = ?o"
    using False assms by (simp add: offset_inv_def uint_word_of_int take_bit_int_eq_self)
  have mx: "uint u64_numeric_max = 2 ^ 64 - 1" by (simp add: u64_numeric_max_def)
  have sub: "uint (u64_numeric_max - word_of_int ?o) = 2 ^ 64 - 1 - ?o"
    using p mx assms by (subst uint_sub_u64) (auto simp: word_le_def offset_inv_def)
  show ?thesis
  proof (cases "vc_now c > u64_numeric_max - word_of_int ?o")
    case True
    then have "uint (vc_now c) + ?o > 2 ^ 64 - 1"
      unfolding word_less_def sub by linarith
    with True False mx show ?thesis by (simp add: wall_time_def Let_def)
  next
    case le: False
    then have "uint (vc_now c) + ?o \<le> 2 ^ 64 - 1"
      unfolding word_less_def sub by linarith
    moreover from this have "uint (word_of_int ?o + vc_now c) = uint (vc_now c) + ?o"
      using p False by (subst uint_plus_simple_iff [THEN iffD1]) (auto simp: no_olen_add word_le_def uint_word_ariths)
    ultimately show ?thesis
      using False le uint_u64(1) [of "vc_now c"] by (simp add: wall_time_def Let_def)
  qed
qed

lemma set_wall_time_inv: "offset_inv (set_wall_time t c)"
  using calendar_offset_range by (simp add: offset_inv_def set_wall_time_def)

section \<open>Operations in sequence\<close>

datatype clock_op = SetWallTime u64 | Tick u64 | AdvanceTo u64

fun clock_step :: "virtual_clock \<Rightarrow> clock_op \<Rightarrow> virtual_clock" where
  "clock_step c (SetWallTime t) = set_wall_time t c"
| "clock_step c (Tick n) = snd (tick n c)"
| "clock_step c (AdvanceTo d) = advance_to d c"

interpretation clock_machine: machine "clock_init t" clock_step offset_inv for t
proof unfold_locales
  show "offset_inv (clock_init t)"
    using calendar_offset_range by (simp add: offset_inv_def clock_init_def)
next
  fix c e
  assume "offset_inv c"
  then show "offset_inv (clock_step c e)"
    using set_wall_time_inv by (cases e) (simp_all add: offset_inv_def tick_def advance_to_def)
qed

section \<open>Properties\<close>

text \<open>
  the calendar reads back what was set: after \<open>set_wall_time t\<close> the wall time is \<open>t\<close>
  exactly when the distance between \<open>t\<close> and the counter fits in the signed offset, and it is
  the nearest representable time otherwise; setting the calendar never moves the counter.
\<close>

theorem wall_time_set_get:
  "vc_now (set_wall_time t c) = vc_now c \<and>
   uint (wall_time (set_wall_time t c)) =
     (if uint t - uint (vc_now c) > 2 ^ 63 - 1 then uint (vc_now c) + (2 ^ 63 - 1)
      else if uint t - uint (vc_now c) < - (2 ^ 63 - 1) then uint (vc_now c) - 2 ^ 63
      else uint t)"
proof -
  have "uint (wall_time (set_wall_time t c)) =
      max 0 (min (2 ^ 64 - 1) (uint (vc_now c) + calendar_offset t (vc_now c)))"
    using wall_time_eq [OF set_wall_time_inv, of t c] by (simp add: set_wall_time_def)
  then show ?thesis
    using uint_u64 [of t] uint_u64 [of "vc_now c"]
    by (simp add: set_wall_time_def calendar_offset_eq Let_def int64_min_def)
qed

text \<open>
  whatever operations ran, the wall time equals the counter plus the calendar offset,
  clamped to the 64-bit range; the saturating code never wraps.
\<close>

theorem wall_time_tracks_counter:
  "let c = foldl clock_step (clock_init t) ops in
    uint (wall_time c) = max 0 (min (2 ^ 64 - 1) (uint (vc_now c) + vc_wall_time_offset c))"
  using clock_machine.run_inv [of t ops] by (simp add: Let_def wall_time_eq)

text \<open>
  the counter never runs backwards as long as no tick overflows it: \<open>advance_to\<close> makes
  it the later of the two times, and a tick that does not overflow adds its increment.
\<close>

theorem clock_monotone:
  assumes "case e of Tick n \<Rightarrow> uint (vc_now c) + uint n < 2 ^ 64 | _ \<Rightarrow> True"
  shows "uint (vc_now (clock_step c e)) =
    (case e of SetWallTime _ \<Rightarrow> uint (vc_now c)
      | Tick n \<Rightarrow> uint (vc_now c) + uint n
      | AdvanceTo d \<Rightarrow> max (uint (vc_now c)) (uint d))"
proof (cases e)
  case (Tick n)
  with assms show ?thesis
    by (simp add: tick_def uint_word_ariths)
next
  case (AdvanceTo d)
  then show ?thesis by (auto simp: advance_to_def word_less_def max_def)
qed (simp add: set_wall_time_def)

theorem clock_monotone_witness:
  "uint (vc_now (clock_step (clock_init 5) (Tick 7))) = 12"
proof -
  have "case Tick 7 of Tick n \<Rightarrow> uint (vc_now (clock_init 5)) + uint n < 2 ^ 64 | _ \<Rightarrow> True"
    by (simp add: clock_init_def)
  from clock_monotone [OF this] show ?thesis by (simp add: clock_init_def)
qed

end
