(* ===== verification/Mach_Namespace.thy ===== *)
theory Mach_Namespace
  imports Ilsim_Prelude
begin

text \<open>
  \<open>MachNamespaceTable\<close> (\<open>include/ilemu/mach_namespace.hpp\<close>,
  \<open>src/mach/mach_namespace.cpp\<close>): the task-local names of Mach port rights. A task's space maps
  names to entries and keeps, per port object, the sorted vector of the names that denote it.
  Names, objects, type masks and reference counts are 32-bit words. \<open>std::map::at\<close> throws on a
  missing key: operations that use it return a sum, \<open>Inl\<close> for the exception.
\<close>

section \<open>Rights, entries and spaces\<close>

type_synonym task_id = u32
type_synonym mach_name = u32
type_synonym mach_object = u32
type_synonym type_mask32 = u32

definition null_name :: mach_name where "null_name = 0"
definition dead_name :: mach_name where "dead_name = 0xFFFFFFFF"
definition first_dynamic_name :: mach_name where "first_dynamic_name = 0x10000"
definition name_index_stride :: mach_name where "name_index_stride = 0x100"
definition maximum_user_references :: u32 where "maximum_user_references = 0xFFFF"
definition maximum_send_user_references :: u32 where
  "maximum_send_user_references = maximum_user_references - 1"
definition u32_numeric_max :: u32 where "u32_numeric_max = 0xFFFFFFFF"

datatype right = Send | Receive | SendOnce | PortSet | DeadName

primrec right_index :: "right \<Rightarrow> nat" where
  "right_index Send = 0"
| "right_index Receive = 1"
| "right_index SendOnce = 2"
| "right_index PortSet = 3"
| "right_index DeadName = 4"

definition type_mask :: "right \<Rightarrow> type_mask32" where
  "type_mask right = push_bit (right_index right + 16) 1"

record name_entry =
  ne_object :: mach_object
  ne_type :: type_mask32
  ne_refs :: "right \<Rightarrow> u32"

record named_entry =
  nm_task :: task_id
  nm_name :: mach_name
  nm_entry :: name_entry

record space =
  sp_next_name :: mach_name
  sp_entries :: "(mach_name, name_entry) omap"
  sp_names :: "mach_object \<rightharpoonup> mach_name list"

type_synonym namespace_table = "(task_id, space) omap"

datatype ns_error = OutOfRange

definition empty_space :: space where
  "empty_space = \<lparr>sp_next_name = first_dynamic_name, sp_entries = [], sp_names = (\<lambda>_. None)\<rparr>"

definition reference_counted_types :: type_mask32 where
  "reference_counted_types = type_mask Send OR type_mask DeadName"

definition valid_name :: "mach_name \<Rightarrow> bool" where
  "valid_name name \<longleftrightarrow> name \<noteq> null_name \<and> name \<noteq> dead_name"

definition make_entry :: "mach_object \<Rightarrow> type_mask32 \<Rightarrow> u32 \<Rightarrow> name_entry" where
  "make_entry object type references =
     \<lparr>ne_object = object, ne_type = type,
      ne_refs = (\<lambda>right. if type AND type_mask right \<noteq> 0 then max 1 references else 0)\<rparr>"

text \<open>Each iteration of the loop of \<open>add_types\<close> touches the counter of one right only.\<close>

definition add_types :: "name_entry \<Rightarrow> type_mask32 \<Rightarrow> u32 \<Rightarrow> bool \<Rightarrow> name_entry" where
  "add_types entry type references copyout =
     entry\<lparr>ne_refs := (\<lambda>right.
        let msk = type_mask right; old = ne_refs entry right in
        if type AND msk = 0 then old
        else if ne_type entry AND msk = 0 then max 1 references
        else if msk AND reference_counted_types \<noteq> 0 \<and> copyout \<and> old < u32_numeric_max
          then old + 1
        else max old references),
      ne_type := ne_type entry OR type\<rparr>"

definition find_space :: "task_id \<Rightarrow> namespace_table \<Rightarrow> space option" where
  "find_space task t = map_of t task"

text \<open>\<open>spaces_[task]\<close> inserts an empty space when the task has none.\<close>

definition space_of :: "task_id \<Rightarrow> namespace_table \<Rightarrow> space" where
  "space_of task t = (case map_of t task of None \<Rightarrow> empty_space | Some sp \<Rightarrow> sp)"

definition create_task :: "task_id \<Rightarrow> namespace_table \<Rightarrow> namespace_table" where
  "create_task task t = om_emplace task empty_space t"

definition destroy_task :: "task_id \<Rightarrow> namespace_table \<Rightarrow> namespace_table" where
  "destroy_task task t = om_erase task t"

section \<open>The per-object name index\<close>

definition insert_sorted :: "mach_name \<Rightarrow> mach_name list \<Rightarrow> mach_name list" where
  "insert_sorted name names =
     (let before = takeWhile (\<lambda>n. n < name) names; position = dropWhile (\<lambda>n. n < name) names
      in if position = [] \<or> hd position \<noteq> name then before @ name # position else names)"

definition erase_sorted :: "mach_name \<Rightarrow> mach_name list \<Rightarrow> mach_name list" where
  "erase_sorted name names =
     (let before = takeWhile (\<lambda>n. n < name) names; position = dropWhile (\<lambda>n. n < name) names
      in if position \<noteq> [] \<and> hd position = name then before @ tl position else names)"

definition index_name :: "space \<Rightarrow> mach_object \<Rightarrow> mach_name \<Rightarrow> space" where
  "index_name sp object name =
     sp\<lparr>sp_names := (sp_names sp)(object \<mapsto>
        insert_sorted name (case sp_names sp object of None \<Rightarrow> [] | Some ns \<Rightarrow> ns))\<rparr>"

definition unindex_name :: "space \<Rightarrow> mach_object \<Rightarrow> mach_name \<Rightarrow> space" where
  "unindex_name sp object name =
     (case sp_names sp object of
        None \<Rightarrow> sp
      | Some ns \<Rightarrow>
          (let ns' = erase_sorted name ns
           in sp\<lparr>sp_names := (if ns' = [] then (sp_names sp)(object := None)
                              else (sp_names sp)(object \<mapsto> ns'))\<rparr>))"

definition indexed_names :: "space \<Rightarrow> mach_object \<Rightarrow> mach_name list option" where
  "indexed_names sp object = sp_names sp object"

section \<open>Operations\<close>

definition set_entry :: "mach_name \<Rightarrow> name_entry \<Rightarrow> space \<Rightarrow> space" where
  "set_entry name entry sp = sp\<lparr>sp_entries := om_put name entry (sp_entries sp)\<rparr>"

definition erase_entry :: "mach_name \<Rightarrow> space \<Rightarrow> space" where
  "erase_entry name sp = sp\<lparr>sp_entries := om_erase name (sp_entries sp)\<rparr>"

definition install ::
    "task_id \<Rightarrow> mach_name \<Rightarrow> mach_object \<Rightarrow> type_mask32 \<Rightarrow> u32 \<Rightarrow> namespace_table \<Rightarrow> bool \<times> namespace_table" where
  "install task name object type user_references t =
     (if \<not> valid_name name \<or> object = null_name \<or> type = 0 then (False, t)
      else let sp = space_of task t in
        case map_of (sp_entries sp) name of
          Some existing \<Rightarrow>
            if ne_object existing \<noteq> object then (False, om_put task sp t)
            else (True, om_put task (set_entry name (add_types existing type user_references True) sp) t)
        | None \<Rightarrow>
            (True, om_put task
               (index_name (set_entry name (make_entry object type user_references) sp) object name) t))"

function free_candidate :: "(mach_name, name_entry) omap \<Rightarrow> mach_name \<Rightarrow> mach_name option" where
  "free_candidate entries candidate =
     (if \<not> valid_name candidate \<or> map_of entries candidate \<noteq> None then
        (if candidate > u32_numeric_max - name_index_stride then None
         else free_candidate entries (candidate + name_index_stride))
      else Some candidate)"
  by pat_completeness auto
termination
proof (relation "measure (\<lambda>(entries, candidate). 2 ^ 32 - unat candidate)", simp)
  fix entries :: "(mach_name, name_entry) omap" and candidate :: mach_name
  assume "\<not> candidate > u32_numeric_max - name_index_stride"
  then have "unat candidate \<le> 2 ^ 32 - 1 - 256"
    by (simp add: word_less_nat_alt u32_numeric_max_def name_index_stride_def not_less)
  moreover from this have "unat (candidate + name_index_stride) = unat candidate + 256"
    by (simp add: name_index_stride_def unat_word_ariths)
  ultimately show "((entries, candidate + name_index_stride), (entries, candidate))
      \<in> measure (\<lambda>(entries, candidate). 2 ^ 32 - unat candidate)"
    by simp
qed

declare free_candidate.simps [simp del]

definition allocate ::
    "task_id \<Rightarrow> mach_object \<Rightarrow> type_mask32 \<Rightarrow> namespace_table \<Rightarrow> mach_name option \<times> namespace_table" where
  "allocate task object type t =
     (if object = null_name \<or> type = 0 then (None, t)
      else let sp = space_of task t in
        case free_candidate (sp_entries sp) (sp_next_name sp) of
          None \<Rightarrow> (None, om_put task sp t)
        | Some candidate \<Rightarrow>
            let sp' = index_name (set_entry candidate (make_entry object type 1) sp) object candidate
            in (Some candidate,
                om_put task
                  (if candidate \<le> u32_numeric_max - name_index_stride
                   then sp'\<lparr>sp_next_name := candidate + name_index_stride\<rparr> else sp') t))"

text \<open>The coalescing path: the lowest name of the object gains the right.\<close>

definition coalesce_right ::
    "task_id \<Rightarrow> mach_name \<Rightarrow> type_mask32 \<Rightarrow> space \<Rightarrow> namespace_table \<Rightarrow>
     ns_error + mach_name option \<times> namespace_table" where
  "coalesce_right task name type sp t =
     (case map_of (sp_entries sp) name of
        None \<Rightarrow> Inl OutOfRange
      | Some entry \<Rightarrow> Inr (Some name, om_put task (set_entry name (add_types entry type 1 True) sp) t))"

definition copyout ::
    "task_id \<Rightarrow> mach_object \<Rightarrow> type_mask32 \<Rightarrow> namespace_table \<Rightarrow>
     ns_error + mach_name option \<times> namespace_table" where
  "copyout task object type t =
     (let sp = space_of task t; t' = om_put task sp t in
      if type AND type_mask SendOnce \<noteq> 0 then Inr (allocate task object type t')
      else case indexed_names sp object of
        Some (name # _) \<Rightarrow> coalesce_right task name type sp t'
      | _ \<Rightarrow> Inr (allocate task object type t'))"

definition copyout_at_name ::
    "task_id \<Rightarrow> mach_object \<Rightarrow> type_mask32 \<Rightarrow> mach_name \<Rightarrow> namespace_table \<Rightarrow>
     ns_error + mach_name option \<times> namespace_table" where
  "copyout_at_name task object type preferred_name t =
     (let sp = space_of task t; t' = om_put task sp t;
          free = map_of (sp_entries sp) preferred_name = None;
          placed = (Some preferred_name, om_put task
            (index_name (set_entry preferred_name (make_entry object type 1) sp) object preferred_name) t')
      in
      if type AND type_mask SendOnce \<noteq> 0 then
        (if object \<noteq> null_name \<and> type \<noteq> 0 \<and> valid_name preferred_name \<and> free
         then Inr placed else Inr (allocate task object type t'))
      else case indexed_names sp object of
        Some (name # _) \<Rightarrow> coalesce_right task name type sp t'
      | _ \<Rightarrow>
          if object = null_name \<or> type = 0 \<or> \<not> valid_name preferred_name \<or> \<not> free
          then Inr (allocate task object type t') else Inr placed)"

definition lookup :: "task_id \<Rightarrow> mach_name \<Rightarrow> namespace_table \<Rightarrow> name_entry option" where
  "lookup task name t =
     (case map_of t task of None \<Rightarrow> None | Some sp \<Rightarrow> map_of (sp_entries sp) name)"

definition resolve :: "task_id \<Rightarrow> mach_name \<Rightarrow> namespace_table \<Rightarrow> mach_object option" where
  "resolve task name t = map_option ne_object (lookup task name t)"

definition name_for :: "task_id \<Rightarrow> mach_object \<Rightarrow> namespace_table \<Rightarrow> mach_name option" where
  "name_for task object t =
     (case map_of t task of
        None \<Rightarrow> None
      | Some sp \<Rightarrow> (case indexed_names sp object of Some (name # _) \<Rightarrow> Some name | _ \<Rightarrow> None))"

definition name_type :: "task_id \<Rightarrow> mach_name \<Rightarrow> namespace_table \<Rightarrow> type_mask32 option" where
  "name_type task name t =
     (if name = dead_name then Some (type_mask DeadName)
      else map_option ne_type (lookup task name t))"

definition entries_of :: "task_id \<Rightarrow> namespace_table \<Rightarrow> named_entry list" where
  "entries_of task t =
     (case map_of t task of
        None \<Rightarrow> []
      | Some sp \<Rightarrow> map (\<lambda>(name, entry). \<lparr>nm_task = task, nm_name = name, nm_entry = entry\<rparr>) (sp_entries sp))"

definition contains_task :: "task_id \<Rightarrow> namespace_table \<Rightarrow> bool" where
  "contains_task task t \<longleftrightarrow> map_of t task \<noteq> None"

definition contains_name :: "task_id \<Rightarrow> mach_name \<Rightarrow> namespace_table \<Rightarrow> bool" where
  "contains_name task name t \<longleftrightarrow> lookup task name t \<noteq> None"

text \<open>\<open>std::size_t\<close> sums wrap at 64 bits.\<close>

fun count_names :: "type_mask32 \<Rightarrow> right \<Rightarrow> mach_name list \<Rightarrow> (mach_name, name_entry) omap \<Rightarrow> ns_error + nat" where
  "count_names msk right [] entries = Inr 0"
| "count_names msk right (name # names) entries =
     (case map_of entries name of
        None \<Rightarrow> Inl OutOfRange
      | Some entry \<Rightarrow>
          (case count_names msk right names entries of
             Inl e \<Rightarrow> Inl e
           | Inr n \<Rightarrow> Inr (if ne_type entry AND msk \<noteq> 0 then unat (ne_refs entry right) + n else n)))"

fun count_spaces :: "mach_object \<Rightarrow> right \<Rightarrow> namespace_table \<Rightarrow> ns_error + nat" where
  "count_spaces object right [] = Inr 0"
| "count_spaces object right ((task, sp) # t) =
     (case (case indexed_names sp object of
              None \<Rightarrow> Inr 0
            | Some names \<Rightarrow> count_names (type_mask right) right names (sp_entries sp)) of
        Inl e \<Rightarrow> Inl e
      | Inr n \<Rightarrow> (case count_spaces object right t of Inl e \<Rightarrow> Inl e | Inr m \<Rightarrow> Inr (n + m)))"

definition right_reference_count :: "mach_object \<Rightarrow> right \<Rightarrow> namespace_table \<Rightarrow> ns_error + nat" where
  "right_reference_count object right t = map_sum id (\<lambda>n. n mod 2 ^ 64) (count_spaces object right t)"

definition user_references :: "task_id \<Rightarrow> mach_name \<Rightarrow> right \<Rightarrow> namespace_table \<Rightarrow> u32 option" where
  "user_references task name right t =
     (case lookup task name t of
        None \<Rightarrow> None
      | Some entry \<Rightarrow>
          if ne_type entry AND type_mask right = 0 then None else Some (ne_refs entry right))"

definition rename :: "task_id \<Rightarrow> mach_name \<Rightarrow> mach_name \<Rightarrow> namespace_table \<Rightarrow> bool \<times> namespace_table" where
  "rename task old_name new_name t =
     (if \<not> valid_name old_name \<or> \<not> valid_name new_name then (False, t)
      else case map_of t task of
        None \<Rightarrow> (False, t)
      | Some sp \<Rightarrow>
          if map_of (sp_entries sp) new_name \<noteq> None then (False, t)
          else (case map_of (sp_entries sp) old_name of
            None \<Rightarrow> (False, t)
          | Some entry \<Rightarrow>
              let object = ne_object entry;
                  sp1 = set_entry new_name entry (erase_entry old_name sp)
              in (True, om_put task (index_name (unindex_name sp1 object old_name) object new_name) t)))"

text \<open>The erase-on-last-right tail that three operations share: store the entry, or drop the
  name (with its index) when no type is left.\<close>

definition store_or_drop :: "mach_name \<Rightarrow> name_entry \<Rightarrow> space \<Rightarrow> space" where
  "store_or_drop name entry sp =
     (if ne_type entry = 0
      then erase_entry name (unindex_name sp (ne_object entry) name)
      else set_entry name entry sp)"

definition modify_references ::
    "task_id \<Rightarrow> mach_name \<Rightarrow> right \<Rightarrow> int \<Rightarrow> namespace_table \<Rightarrow> bool \<times> namespace_table" where
  "modify_references task name right delta t =
     (case map_of t task of
        None \<Rightarrow> (False, t)
      | Some sp \<Rightarrow>
          (case map_of (sp_entries sp) name of
             None \<Rightarrow> (False, t)
           | Some entry \<Rightarrow>
               let msk = type_mask right; references = ne_refs entry right in
               if ne_type entry AND msk = 0 then (False, t)
               else if delta > 0 \<and> right \<noteq> Send \<and> right \<noteq> DeadName then (False, t)
               else if delta > 0 then
                 (let amount = word_of_int delta :: u32;
                      maximum = (if right = Send then maximum_send_user_references else maximum_user_references)
                  in if references > maximum \<or> amount > maximum - references then (False, t)
                     else (True, om_put task (set_entry name
                       (entry\<lparr>ne_refs := (ne_refs entry)(right := references + amount)\<rparr>) sp) t))
               else
                 (let magnitude = nat (- delta)
                  in if magnitude > unat references then (False, t)
                     else let left = references - of_nat magnitude;
                              entry1 = entry\<lparr>ne_refs := (ne_refs entry)(right := left)\<rparr>
                       in if left = 0
                          then (True, om_put task (store_or_drop name
                                  (entry1\<lparr>ne_type := ne_type entry AND NOT msk\<rparr>) sp) t)
                          else (True, om_put task (set_entry name entry1 sp) t))))"

definition destroy_name :: "task_id \<Rightarrow> mach_name \<Rightarrow> namespace_table \<Rightarrow> name_entry option \<times> namespace_table" where
  "destroy_name task name t =
     (case map_of t task of
        None \<Rightarrow> (None, t)
      | Some sp \<Rightarrow>
          (case map_of (sp_entries sp) name of
             None \<Rightarrow> (None, t)
           | Some removed \<Rightarrow>
               (Some removed,
                om_put task (erase_entry name (unindex_name sp (ne_object removed) name)) t)))"

definition dead_entry :: "name_entry \<Rightarrow> name_entry" where
  "dead_entry entry =
     (let combined = unat (ne_refs entry Send) + unat (ne_refs entry SendOnce);
          references = of_nat (min (max combined 1) u32_max) :: u32
      in entry\<lparr>ne_type := (ne_type entry AND NOT (type_mask Send OR type_mask SendOnce)) OR type_mask DeadName,
               ne_refs := ((ne_refs entry)(Send := 0, SendOnce := 0))(DeadName := references)\<rparr>)"

fun mark_names ::
    "task_id \<Rightarrow> mach_name list \<Rightarrow> (mach_name, name_entry) omap \<Rightarrow>
     ns_error + named_entry list \<times> (mach_name, name_entry) omap" where
  "mark_names task [] entries = Inr ([], entries)"
| "mark_names task (name # names) entries =
     (case map_of entries name of
        None \<Rightarrow> Inl OutOfRange
      | Some entry \<Rightarrow>
          if ne_type entry AND (type_mask Send OR type_mask SendOnce) = 0
          then mark_names task names entries
          else (case mark_names task names (om_put name (dead_entry entry) entries) of
                  Inl e \<Rightarrow> Inl e
                | Inr (affected, entries') \<Rightarrow>
                    Inr (\<lparr>nm_task = task, nm_name = name, nm_entry = entry\<rparr> # affected, entries')))"

fun mark_object_dead :: "mach_object \<Rightarrow> namespace_table \<Rightarrow> ns_error + named_entry list \<times> namespace_table" where
  "mark_object_dead object [] = Inr ([], [])"
| "mark_object_dead object ((task, sp) # t) =
     (case (case indexed_names sp object of
              None \<Rightarrow> Inr ([], sp_entries sp)
            | Some names \<Rightarrow> mark_names task names (sp_entries sp)) of
        Inl e \<Rightarrow> Inl e
      | Inr (affected, entries) \<Rightarrow>
          (case mark_object_dead object t of
             Inl e \<Rightarrow> Inl e
           | Inr (others, t') \<Rightarrow> Inr (affected @ others, (task, sp\<lparr>sp_entries := entries\<rparr>) # t')))"

definition remove_type :: "task_id \<Rightarrow> mach_name \<Rightarrow> type_mask32 \<Rightarrow> namespace_table \<Rightarrow> bool \<times> namespace_table" where
  "remove_type task name type t =
     (case map_of t task of
        None \<Rightarrow> (False, t)
      | Some sp \<Rightarrow>
          (case map_of (sp_entries sp) name of
             None \<Rightarrow> (False, t)
           | Some entry \<Rightarrow>
               if ne_type entry AND type = 0 then (False, t)
               else (True, om_put task (store_or_drop name
                 (entry\<lparr>ne_type := ne_type entry AND NOT type,
                        ne_refs := (\<lambda>right. if type AND type_mask right \<noteq> 0 then 0
                                            else ne_refs entry right)\<rparr>) sp) t)))"

definition deallocate :: "task_id \<Rightarrow> mach_name \<Rightarrow> namespace_table \<Rightarrow> bool \<times> namespace_table" where
  "deallocate task name t =
     (case map_of t task of
        None \<Rightarrow> (False, t)
      | Some sp \<Rightarrow>
          (case map_of (sp_entries sp) name of
             None \<Rightarrow> (False, t)
           | Some entry \<Rightarrow>
               let available = ne_type entry AND (type_mask Send OR type_mask SendOnce OR type_mask DeadName) in
               if available = 0 then (False, t)
               else let released = (if available AND type_mask Send \<noteq> 0 then Send
                                    else if available AND type_mask SendOnce \<noteq> 0 then SendOnce
                                    else DeadName);
                        references = ne_refs entry released
                 in if references > 1
                    then (True, om_put task (set_entry name
                           (entry\<lparr>ne_refs := (ne_refs entry)(released := references - 1)\<rparr>) sp) t)
                    else (True, om_put task (store_or_drop name
                           (entry\<lparr>ne_refs := (ne_refs entry)(released := 0),
                                  ne_type := ne_type entry AND NOT (type_mask released)\<rparr>) sp) t)))"

section \<open>Type masks as sets of rights\<close>

definition has_right :: "type_mask32 \<Rightarrow> right \<Rightarrow> bool" where
  "has_right w r \<longleftrightarrow> bit w (right_index r + 16)"

lemma type_mask_eq: "type_mask r = 2 ^ (right_index r + 16)"
  by (simp add: type_mask_def push_bit_eq_mult)

lemma right_index_inj [simp]: "right_index r = right_index s \<longleftrightarrow> r = s"
  by (cases r; cases s) simp_all

lemma right_index_bound: "right_index r + 16 < 32"
  by (cases r) simp_all

lemma type_test: "w AND type_mask r = 0 \<longleftrightarrow> \<not> has_right w r"
  by (simp add: type_mask_eq has_right_def and_exp_eq_0_iff_not_bit)

lemma has_right_mask [simp]: "has_right (type_mask s) r \<longleftrightarrow> r = s"
  using right_index_bound [of r] by (auto simp: has_right_def type_mask_eq bit_simps)

lemma has_right_or [simp]: "has_right (v OR w) r \<longleftrightarrow> has_right v r \<or> has_right w r"
  by (simp add: has_right_def bit_simps)

lemma has_right_and [simp]: "has_right (v AND w) r \<longleftrightarrow> has_right v r \<and> has_right w r"
  by (simp add: has_right_def bit_simps)

lemma has_right_not [simp]: "has_right (NOT w) r \<longleftrightarrow> \<not> has_right w r"
  using right_index_bound [of r] by (simp add: has_right_def bit_simps)

lemma has_right_zero [simp]: "\<not> has_right 0 r"
  by (simp add: has_right_def)

lemma or_eq_zero: "(v :: u32) OR w = 0 \<longleftrightarrow> v = 0 \<and> w = 0"
  by (auto simp: bit_eq_iff bit_simps)

lemma type_test2: "w AND (type_mask r OR type_mask s) = 0 \<longleftrightarrow> \<not> has_right w r \<and> \<not> has_right w s"
  by (simp add: bit.conj_disj_distrib or_eq_zero type_test)

lemma type_test3:
  "w AND (type_mask r OR type_mask s OR type_mask q) = 0 \<longleftrightarrow>
    \<not> has_right w r \<and> \<not> has_right w s \<and> \<not> has_right w q"
  by (simp add: bit.conj_disj_distrib or_eq_zero type_test)

lemmas type_tests = type_test type_test2 type_test3

section \<open>Sorted name vectors\<close>

lemma insert_sorted_spec:
  "sorted_wrt (<) ns \<Longrightarrow> sorted_wrt (<) (insert_sorted n ns) \<and> set (insert_sorted n ns) = insert n (set ns)"
proof (induction ns)
  case (Cons m ns)
  show ?case
  proof (cases "m < n")
    case True
    then have "insert_sorted n (m # ns) = m # insert_sorted n ns"
      by (simp add: insert_sorted_def Let_def)
    with Cons True show ?thesis by auto
  next
    case False
    with Cons.prems show ?thesis by (auto simp: insert_sorted_def Let_def)
  qed
qed (simp add: insert_sorted_def)

lemma erase_sorted_spec:
  "sorted_wrt (<) ns \<Longrightarrow> sorted_wrt (<) (erase_sorted n ns) \<and> set (erase_sorted n ns) = set ns - {n}"
proof (induction ns)
  case (Cons m ns)
  show ?case
  proof (cases "m < n")
    case True
    then have "erase_sorted n (m # ns) = m # erase_sorted n ns"
      by (simp add: erase_sorted_def Let_def)
    with Cons True show ?thesis by auto
  next
    case False
    with Cons.prems show ?thesis by (auto simp: erase_sorted_def Let_def)
  qed
qed (simp add: erase_sorted_def)

section \<open>Invariant\<close>

definition entry_ok :: "mach_name \<Rightarrow> name_entry \<Rightarrow> bool" where
  "entry_ok n e \<longleftrightarrow> valid_name n \<and> ne_object e \<noteq> null_name \<and> ne_type e \<noteq> 0 \<and>
     (\<forall>r. ne_refs e r \<noteq> 0 \<longleftrightarrow> has_right (ne_type e) r)"

definition names_of :: "(mach_name \<rightharpoonup> name_entry) \<Rightarrow> mach_object \<Rightarrow> mach_name set" where
  "names_of es ob = {n. \<exists>e. es n = Some e \<and> ne_object e = ob}"

text \<open>The index holds, for each object, exactly its names in increasing order.\<close>

definition index_ok :: "(mach_name \<rightharpoonup> name_entry) \<Rightarrow> (mach_object \<rightharpoonup> mach_name list) \<Rightarrow> bool" where
  "index_ok es ix \<longleftrightarrow> (\<forall>ob. case ix ob of
      None \<Rightarrow> names_of es ob = {}
    | Some ns \<Rightarrow> ns \<noteq> [] \<and> sorted_wrt (<) ns \<and> set ns = names_of es ob)"

definition space_ok :: "space \<Rightarrow> bool" where
  "space_ok sp \<longleftrightarrow> om_wf (sp_entries sp) \<and>
     (\<forall>n e. map_of (sp_entries sp) n = Some e \<longrightarrow> entry_ok n e) \<and>
     index_ok (map_of (sp_entries sp)) (sp_names sp)"

definition table_ok :: "namespace_table \<Rightarrow> bool" where
  "table_ok t \<longleftrightarrow> om_wf t \<and> (\<forall>task sp. map_of t task = Some sp \<longrightarrow> space_ok sp)"

lemma index_okD_None: "index_ok es ix \<Longrightarrow> ix ob = None \<Longrightarrow> names_of es ob = {}"
  by (auto simp: index_ok_def dest: spec [of _ ob])

lemma index_okD_Some:
  "index_ok es ix \<Longrightarrow> ix ob = Some ns \<Longrightarrow> ns \<noteq> [] \<and> sorted_wrt (<) ns \<and> set ns = names_of es ob"
  by (auto simp: index_ok_def dest: spec [of _ ob])

lemma index_ok_same_objects:
  assumes "\<And>n. map_option ne_object (es' n) = map_option ne_object (es n)"
  shows "index_ok es' ix = index_ok es ix"
proof -
  have "(\<exists>e. es' n = Some e \<and> ne_object e = ob) \<longleftrightarrow> (\<exists>e. es n = Some e \<and> ne_object e = ob)" for n ob
    using assms [of n] by (cases "es' n"; cases "es n") auto
  then have eq: "names_of es' = names_of es" by (simp add: names_of_def fun_eq_iff)
  show ?thesis unfolding index_ok_def eq ..
qed

lemma index_ok_insert:
  assumes ok: "index_ok es ix" and "es n = None" and "ne_object e = ob"
  shows "index_ok (es(n \<mapsto> e)) (ix(ob \<mapsto> insert_sorted n (case ix ob of None \<Rightarrow> [] | Some ns \<Rightarrow> ns)))"
proof -
  let ?old = "case ix ob of None \<Rightarrow> [] | Some ns \<Rightarrow> ns"
  have here: "names_of (es(n \<mapsto> e)) ob = insert n (names_of es ob)"
    and other: "\<And>ob'. ob' \<noteq> ob \<Longrightarrow> names_of (es(n \<mapsto> e)) ob' = names_of es ob'"
    using assms(2,3) by (auto simp: names_of_def)
  have "sorted_wrt (<) ?old \<and> set ?old = names_of es ob"
    using index_okD_None [OF ok, of ob] index_okD_Some [OF ok, of ob] by (cases "ix ob") auto
  then have new: "sorted_wrt (<) (insert_sorted n ?old) \<and> set (insert_sorted n ?old) = insert n (names_of es ob)"
    using insert_sorted_spec by blast
  then have ne: "insert_sorted n ?old \<noteq> []" by auto
  show ?thesis
    unfolding index_ok_def
  proof
    fix ob'
    show "case (ix(ob \<mapsto> insert_sorted n ?old)) ob' of None \<Rightarrow> names_of (es(n \<mapsto> e)) ob' = {}
      | Some ns \<Rightarrow> ns \<noteq> [] \<and> sorted_wrt (<) ns \<and> set ns = names_of (es(n \<mapsto> e)) ob'"
    proof (cases "ob' = ob")
      case True
      with new ne here show ?thesis by simp
    next
      case False
      with index_okD_None [OF ok, of ob'] index_okD_Some [OF ok, of ob'] other [OF False]
      show ?thesis by (cases "ix ob'") auto
    qed
  qed
qed

lemma index_ok_remove:
  assumes ok: "index_ok es ix" and "es n = Some e" and "ix (ne_object e) = Some ns"
  shows "index_ok (es(n := None))
    (if erase_sorted n ns = [] then ix(ne_object e := None) else ix(ne_object e \<mapsto> erase_sorted n ns))"
proof -
  let ?ob = "ne_object e"
  have here: "names_of (es(n := None)) ?ob = names_of es ?ob - {n}"
    and other: "\<And>ob'. ob' \<noteq> ?ob \<Longrightarrow> names_of (es(n := None)) ob' = names_of es ob'"
    using assms(2) by (auto simp: names_of_def)
  have new: "sorted_wrt (<) (erase_sorted n ns) \<and> set (erase_sorted n ns) = names_of es ?ob - {n}"
    using index_okD_Some [OF ok assms(3)] erase_sorted_spec by blast
  show ?thesis
    unfolding index_ok_def
  proof
    fix ob'
    show "case (if erase_sorted n ns = [] then ix(?ob := None) else ix(?ob \<mapsto> erase_sorted n ns)) ob' of
        None \<Rightarrow> names_of (es(n := None)) ob' = {}
      | Some ns' \<Rightarrow> ns' \<noteq> [] \<and> sorted_wrt (<) ns' \<and> set ns' = names_of (es(n := None)) ob'"
    proof (cases "ob' = ?ob")
      case True
      with new here show ?thesis by (cases "erase_sorted n ns = []") auto
    next
      case False
      with index_okD_None [OF ok, of ob'] index_okD_Some [OF ok, of ob'] other [OF False]
      show ?thesis by (cases "ix ob'") auto
    qed
  qed
qed

section \<open>Spaces keep the invariant\<close>

lemma set_entry_fields [simp]:
  "sp_entries (set_entry n e sp) = om_put n e (sp_entries sp)" "sp_names (set_entry n e sp) = sp_names sp"
  "sp_entries (erase_entry n sp) = om_erase n (sp_entries sp)" "sp_names (erase_entry n sp) = sp_names sp"
  "sp_entries (index_name sp ob n) = sp_entries sp" "sp_entries (unindex_name sp ob n) = sp_entries sp"
  by (simp_all add: set_entry_def erase_entry_def index_name_def unindex_name_def Let_def split: option.split)

lemma space_ok_empty [simp]: "space_ok empty_space"
  by (simp add: space_ok_def empty_space_def index_ok_def names_of_def)

lemma space_ok_update:
  assumes "space_ok sp" and "map_of (sp_entries sp) n = Some e"
    and "ne_object e' = ne_object e" and "entry_ok n e'"
  shows "space_ok (set_entry n e' sp)"
  using assms index_ok_same_objects [of "map_of (om_put n e' (sp_entries sp))" "map_of (sp_entries sp)"]
  by (auto simp: space_ok_def)

lemma space_ok_fresh:
  assumes "space_ok sp" and "map_of (sp_entries sp) n = None" and "entry_ok n e" and "ne_object e = ob"
  shows "space_ok (index_name (set_entry n e sp) ob n)"
  using assms index_ok_insert [of "map_of (sp_entries sp)" "sp_names sp" n e ob]
  by (auto simp: space_ok_def index_name_def)

lemma space_ok_drop:
  assumes ok: "space_ok sp" and at: "map_of (sp_entries sp) n = Some e"
  shows "space_ok (erase_entry n (unindex_name sp (ne_object e) n))"
proof -
  have ix: "index_ok (map_of (sp_entries sp)) (sp_names sp)" using ok by (simp add: space_ok_def)
  have "n \<in> names_of (map_of (sp_entries sp)) (ne_object e)" using at by (simp add: names_of_def)
  then obtain ns where ns: "sp_names sp (ne_object e) = Some ns"
    using index_okD_None [OF ix, of "ne_object e"] by (cases "sp_names sp (ne_object e)") auto
  from index_ok_remove [OF ix at ns] ok show ?thesis
    by (auto simp: space_ok_def erase_entry_def unindex_name_def ns Let_def)
qed

lemma space_ok_store_or_drop:
  assumes "space_ok sp" and "map_of (sp_entries sp) n = Some e"
    and "ne_object e' = ne_object e" and "ne_type e' \<noteq> 0 \<Longrightarrow> entry_ok n e'"
  shows "space_ok (store_or_drop n e' sp)"
  using assms space_ok_update [OF assms(1,2,3)] space_ok_drop [OF assms(1,2)]
  by (simp add: store_or_drop_def)

lemma table_ok_put: "table_ok t \<Longrightarrow> space_ok sp \<Longrightarrow> table_ok (om_put task sp t)"
  by (simp add: table_ok_def)

lemma table_ok_find: "table_ok t \<Longrightarrow> map_of t task = Some sp \<Longrightarrow> space_ok sp"
  by (simp add: table_ok_def)

lemma table_ok_space_of: "table_ok t \<Longrightarrow> space_ok (space_of task t)"
  by (auto simp: space_of_def table_ok_def split: option.split)

lemma space_entry_ok: "space_ok sp \<Longrightarrow> map_of (sp_entries sp) n = Some e \<Longrightarrow> entry_ok n e"
  by (simp add: space_ok_def)

lemma make_entry_ok:
  "valid_name n \<Longrightarrow> ob \<noteq> null_name \<Longrightarrow> ty \<noteq> 0 \<Longrightarrow> entry_ok n (make_entry ob ty refs)"
  by (auto simp: entry_ok_def make_entry_def type_test max_def)

lemma make_entry_object [simp]: "ne_object (make_entry ob ty refs) = ob"
  by (simp add: make_entry_def)

lemma add_types_object [simp]: "ne_object (add_types e ty refs c) = ne_object e"
  by (simp add: add_types_def)

lemma word_succ_not_zero: "(x :: u32) < u32_numeric_max \<Longrightarrow> x + 1 \<noteq> 0"
  by (auto simp: u32_numeric_max_def add_eq_0_iff2)

lemma word_succ_unat: "(x :: u32) < u32_numeric_max \<Longrightarrow> unat (x + 1) = unat x + 1"
  by (simp add: u32_numeric_max_def word_less_nat_alt unat_word_ariths)

lemma add_types_refs:
  "ne_refs (add_types e ty refs c) r =
    (if \<not> has_right ty r then ne_refs e r
     else if \<not> has_right (ne_type e) r then max 1 refs
     else if (r = Send \<or> r = DeadName) \<and> c \<and> ne_refs e r < u32_numeric_max then ne_refs e r + 1
     else max (ne_refs e r) refs)"
proof -
  have "type_mask r AND reference_counted_types = 0 \<longleftrightarrow> \<not> (r = Send \<or> r = DeadName)"
    by (subst and.commute) (simp only: type_test reference_counted_types_def has_right_or has_right_mask)
  then show ?thesis by (simp add: add_types_def Let_def type_test)
qed

lemma add_types_type [simp]: "ne_type (add_types e ty refs c) = ne_type e OR ty"
  by (simp add: add_types_def)

lemma add_types_ok:
  assumes "entry_ok n e"
  shows "entry_ok n (add_types e ty refs c)"
proof -
  have "ne_refs (add_types e ty refs c) r \<noteq> 0 \<longleftrightarrow> has_right (ne_type e OR ty) r" for r
  proof -
    have refs: "ne_refs (add_types e ty refs c) r =
      (if \<not> has_right ty r then ne_refs e r
       else if \<not> has_right (ne_type e) r then max 1 refs
       else if (r = Send \<or> r = DeadName) \<and> c \<and> ne_refs e r < u32_numeric_max then ne_refs e r + 1
       else max (ne_refs e r) refs)"
      by (simp add: add_types_refs)
    have old: "ne_refs e r \<noteq> 0 \<longleftrightarrow> has_right (ne_type e) r" using assms by (simp add: entry_ok_def)
    have "max 1 refs \<noteq> 0" by (auto simp: max_def)
    moreover have "ne_refs e r \<noteq> 0 \<Longrightarrow> max (ne_refs e r) refs \<noteq> 0" by (auto simp: max_def)
    ultimately show ?thesis
      unfolding refs has_right_or using old word_succ_not_zero [of "ne_refs e r"] by presburger
  qed
  moreover have "ne_type e OR ty \<noteq> 0" using assms by (simp add: entry_ok_def or_eq_zero)
  ultimately show ?thesis using assms by (simp add: entry_ok_def)
qed

lemma free_candidate_Some:
  "free_candidate es c = Some x \<Longrightarrow> valid_name x \<and> map_of es x = None"
proof (induction es c rule: free_candidate.induct)
  case (1 es c)
  then show ?case
    by (simp add: free_candidate.simps [of es c] split: if_splits)
qed

lemma space_of_fields:
  "map_of t task = Some sp \<Longrightarrow> space_of task t = sp"
  by (simp add: space_of_def)

section \<open>Operations keep the invariant\<close>

lemma install_ok: "table_ok t \<Longrightarrow> table_ok (snd (install task n ob ty refs t))"
proof -
  assume t: "table_ok t"
  note sp = table_ok_space_of [OF t, of task]
  show ?thesis
  proof (cases "map_of (sp_entries (space_of task t)) n")
    case None
    then show ?thesis
      using t sp by (auto simp: install_def Let_def intro!: table_ok_put space_ok_fresh make_entry_ok)
  next
    case (Some e)
    then show ?thesis
      using t sp space_entry_ok [OF sp Some]
      by (auto simp: install_def Let_def intro!: table_ok_put space_ok_update [OF sp Some] add_types_ok)
  qed
qed

lemma allocate_space_ok:
  assumes "space_ok sp" "ob \<noteq> null_name" "ty \<noteq> 0" "valid_name c" "map_of (sp_entries sp) c = None"
  shows "space_ok (index_name (set_entry c (make_entry ob ty 1) sp) ob c)"
  using assms by (intro space_ok_fresh make_entry_ok) auto

lemma space_ok_next_name [simp]: "space_ok (sp\<lparr>sp_next_name := c\<rparr>) = space_ok sp"
  by (simp add: space_ok_def)

lemma allocate_ok: "table_ok t \<Longrightarrow> table_ok (snd (allocate task ob ty t))"
proof -
  assume t: "table_ok t"
  note sp = table_ok_space_of [OF t, of task]
  show ?thesis
    using t sp free_candidate_Some [of "sp_entries (space_of task t)" "sp_next_name (space_of task t)"]
    by (auto simp: allocate_def Let_def split: option.split intro!: table_ok_put allocate_space_ok)
qed

lemma indexed_name_entry:
  assumes "space_ok sp" and "indexed_names sp ob = Some (n # ns)"
  shows "\<exists>e. map_of (sp_entries sp) n = Some e \<and> ne_object e = ob"
  using index_okD_Some [of "map_of (sp_entries sp)" "sp_names sp" ob "n # ns"] assms
  by (auto simp: space_ok_def indexed_names_def names_of_def)

text \<open>The result of the operations that use \<open>at\<close>: no exception, and a good table.\<close>

definition ns_good :: "ns_error + 'a \<times> namespace_table \<Rightarrow> bool" where
  "ns_good r \<longleftrightarrow> (\<exists>x t. r = Inr (x, t) \<and> table_ok t)"

lemma ns_good_Inr: "table_ok (snd p) \<Longrightarrow> ns_good (Inr p)"
  by (cases p) (auto simp: ns_good_def)

lemma coalesce_right_good:
  assumes "table_ok t" "space_ok sp" "map_of (sp_entries sp) n = Some e"
  shows "ns_good (coalesce_right task n ty sp t)"
  unfolding coalesce_right_def assms(3) option.case
  using assms space_entry_ok [OF assms(2,3)]
  by (auto intro!: ns_good_Inr table_ok_put space_ok_update [OF assms(2,3)] add_types_ok)

lemma copyout_good: "table_ok t \<Longrightarrow> ns_good (copyout task ob ty t)"
proof -
  assume t: "table_ok t"
  note sp = table_ok_space_of [OF t, of task]
  note t' = table_ok_put [OF t sp, of task]
  show ?thesis
    using allocate_ok [OF t', of task ob ty]
      indexed_name_entry [OF sp, of ob] coalesce_right_good [OF t' sp]
    by (auto simp: copyout_def Let_def split: option.splits list.splits intro!: ns_good_Inr)
qed

lemma copyout_at_name_good: "table_ok t \<Longrightarrow> ns_good (copyout_at_name task ob ty p t)"
proof -
  assume t: "table_ok t"
  note sp = table_ok_space_of [OF t, of task]
  note t' = table_ok_put [OF t sp, of task]
  have placed: "table_ok (om_put task (index_name (set_entry p (make_entry ob ty 1) (space_of task t)) ob p)
      (om_put task (space_of task t) t))"
    if "ob \<noteq> null_name" "ty \<noteq> 0" "valid_name p" "map_of (sp_entries (space_of task t)) p = None"
    using that sp by (intro table_ok_put [OF t'] allocate_space_ok) auto
  have alloc: "ns_good (Inr (allocate task ob ty (om_put task (space_of task t) t)))"
    using allocate_ok [OF t'] by (rule ns_good_Inr)
  have joined: "ns_good (coalesce_right task n ty (space_of task t) (om_put task (space_of task t) t))"
    if "indexed_names (space_of task t) ob = Some (n # ns)" for n ns
    using indexed_name_entry [OF sp that] coalesce_right_good [OF t' sp] by blast
  show ?thesis
    using placed alloc joined
    by (auto simp: copyout_at_name_def Let_def split: option.splits list.splits intro!: ns_good_Inr)
qed

lemma unindex_set_commute:
  "unindex_name (set_entry n e (erase_entry m sp)) ob k = set_entry n e (erase_entry m (unindex_name sp ob k))"
  by (simp add: unindex_name_def set_entry_def erase_entry_def Let_def split: option.split)

lemma rename_ok: "table_ok t \<Longrightarrow> table_ok (snd (rename task old new t))"
proof -
  assume t: "table_ok t"
  have "space_ok (index_name (unindex_name (set_entry new e (erase_entry old sp)) (ne_object e) old) (ne_object e) new)"
    if "valid_name new" "map_of t task = Some sp" "map_of (sp_entries sp) new = None"
      "map_of (sp_entries sp) old = Some e" for sp e
  proof -
    note sp = table_ok_find [OF t that(2)]
    have "entry_ok new e" using space_entry_ok [OF sp that(4)] that(1) by (simp add: entry_ok_def)
    then show ?thesis
      unfolding unindex_set_commute
      using space_ok_drop [OF sp that(4)] that(3) by (intro space_ok_fresh) auto
  qed
  with t show ?thesis
    by (auto simp: rename_def Let_def split: option.split intro!: table_ok_put)
qed

lemma destroy_name_ok: "table_ok t \<Longrightarrow> table_ok (snd (destroy_name task n t))"
  by (auto simp: destroy_name_def split: option.split intro!: table_ok_put space_ok_drop dest: table_ok_find)

lemma word_add_within:
  assumes "(a :: u32) \<le> mx" "b \<le> mx - a"
  shows "unat (a + b) = unat a + unat b" and "a + b \<le> mx"
proof -
  have le: "unat a \<le> unat mx" using assms(1) by (simp add: word_le_nat_alt)
  have "unat b \<le> unat mx - unat a"
    using assms by (simp add: word_le_nat_alt unat_sub)
  then have sum: "unat a + unat b \<le> unat mx" using le by simp
  then show eq: "unat (a + b) = unat a + unat b"
    using unat_u32 [of mx] by (simp add: unat_word_ariths)
  show "a + b \<le> mx" using sum by (simp add: word_le_nat_alt eq)
qed

text \<open>Changing one counter, or dropping one right with its counter.\<close>

lemma entry_ok_set_ref:
  assumes "entry_ok n e" "has_right (ne_type e) r" "v \<noteq> 0"
  shows "entry_ok n (e\<lparr>ne_refs := (ne_refs e)(r := v)\<rparr>)"
  using assms by (auto simp: entry_ok_def)

lemma entry_ok_drop_right:
  assumes "entry_ok n e" "ne_type e AND NOT (type_mask r) \<noteq> 0"
  shows "entry_ok n (e\<lparr>ne_refs := (ne_refs e)(r := 0), ne_type := ne_type e AND NOT (type_mask r)\<rparr>)"
  using assms by (auto simp: entry_ok_def)

lemma modify_references_ok: "table_ok t \<Longrightarrow> table_ok (snd (modify_references task n r delta t))"
proof -
  assume t: "table_ok t"
  show ?thesis
  proof (cases "find_space task t")
    case (Some sp)
    then have find: "map_of t task = Some sp" by (simp add: find_space_def)
    note sp = table_ok_find [OF t find]
    show ?thesis
    proof (cases "map_of (sp_entries sp) n")
      case (Some e)
      note ok = space_entry_ok [OF sp Some]
      let ?mx = "if r = Send then maximum_send_user_references else maximum_user_references"
      have up: "space_ok (set_entry n (e\<lparr>ne_refs := (ne_refs e)(r := v)\<rparr>) sp)"
        if "has_right (ne_type e) r" "v \<noteq> 0" for v
        by (rule space_ok_update [OF sp Some _ entry_ok_set_ref [OF ok that]]) simp
      have down: "space_ok (store_or_drop n (e\<lparr>ne_refs := (ne_refs e)(r := 0),
          ne_type := ne_type e AND NOT (type_mask r)\<rparr>) sp)"
        by (rule space_ok_store_or_drop [OF sp Some]) (auto intro: entry_ok_drop_right [OF ok])
      have sum: "ne_refs e r + a \<noteq> 0"
        if "has_right (ne_type e) r" "\<not> ne_refs e r > ?mx" "\<not> a > ?mx - ne_refs e r" for a
      proof -
        have "ne_refs e r \<noteq> 0" using ok that(1) by (simp add: entry_ok_def)
        moreover have "unat (ne_refs e r + a) = unat (ne_refs e r) + unat a"
          using that(2,3) by (intro word_add_within [of _ ?mx]) (auto simp: not_less)
        ultimately show ?thesis by (metis add_is_0 unat_eq_zero)
      qed
      show ?thesis
        using t find Some up down sum
        by (auto simp: modify_references_def Let_def type_test intro!: table_ok_put)
    qed (use t find in \<open>simp add: modify_references_def\<close>)
  qed (use t in \<open>simp add: modify_references_def find_space_def\<close>)
qed

lemma remove_type_ok: "table_ok t \<Longrightarrow> table_ok (snd (remove_type task n ty t))"
proof -
  assume t: "table_ok t"
  have "space_ok (store_or_drop n (e\<lparr>ne_type := ne_type e AND NOT ty,
      ne_refs := (\<lambda>right. if ty AND type_mask right \<noteq> 0 then 0 else ne_refs e right)\<rparr>) sp)"
    if "map_of t task = Some sp" "map_of (sp_entries sp) n = Some e" for sp e
  proof -
    note sp = table_ok_find [OF t that(1)]
    show ?thesis
      using space_entry_ok [OF sp that(2)]
      by (intro space_ok_store_or_drop [OF sp that(2)]) (auto simp: entry_ok_def type_test)
  qed
  with t show ?thesis
    by (auto simp: remove_type_def Let_def split: option.split intro!: table_ok_put)
qed

lemma deallocate_ok: "table_ok t \<Longrightarrow> table_ok (snd (deallocate task n t))"
proof -
  assume t: "table_ok t"
  have kept: "space_ok (set_entry n (e\<lparr>ne_refs := (ne_refs e)(r := ne_refs e r - 1)\<rparr>) sp)"
    if "map_of t task = Some sp" "map_of (sp_entries sp) n = Some e" "ne_refs e r > 1" for sp e r
  proof -
    note sp = table_ok_find [OF t that(1)]
    note ok = space_entry_ok [OF sp that(2)]
    have "ne_refs e r \<noteq> 0" using that(3) by (metis not_less0 word_not_simps(1))
    then have "has_right (ne_type e) r" using ok unfolding entry_ok_def by blast
    moreover have "ne_refs e r - 1 \<noteq> 0" using that(3) by (metis eq_iff_diff_eq_0 less_irrefl)
    ultimately show ?thesis
      by (intro space_ok_update [OF sp that(2) _ entry_ok_set_ref [OF ok]]) simp_all
  qed
  have dropped: "space_ok (store_or_drop n (e\<lparr>ne_refs := (ne_refs e)(r := 0),
          ne_type := ne_type e AND NOT (type_mask r)\<rparr>) sp)"
    if "map_of t task = Some sp" "map_of (sp_entries sp) n = Some e" for sp e r
  proof -
    note sp = table_ok_find [OF t that(1)]
    show ?thesis
      by (rule space_ok_store_or_drop [OF sp that(2)])
        (auto intro: entry_ok_drop_right [OF space_entry_ok [OF sp that(2)]])
  qed
  from t kept dropped show ?thesis
    by (auto simp: deallocate_def Let_def split: option.split intro!: table_ok_put)
qed

section \<open>Marking an object dead\<close>

definition kill_entry :: "name_entry \<Rightarrow> name_entry" where
  "kill_entry e = (if \<not> has_right (ne_type e) Send \<and> \<not> has_right (ne_type e) SendOnce then e else dead_entry e)"

lemma dead_refs_nonzero: "(of_nat (min (max m 1) u32_max) :: u32) \<noteq> 0"
proof -
  have "unat (of_nat (min (max m 1) u32_max) :: u32) = min (max m 1) u32_max"
    by (simp add: unat_of_nat u32_max_def min_def)
  moreover have "min (max m 1) u32_max \<noteq> 0" by (simp add: u32_max_def)
  ultimately show ?thesis by (metis unat_0)
qed

lemma dead_entry_type: "has_right (ne_type (dead_entry e)) r \<longleftrightarrow>
    r = DeadName \<or> (r \<noteq> Send \<and> r \<noteq> SendOnce \<and> has_right (ne_type e) r)"
  by (auto simp: dead_entry_def Let_def)

lemma dead_entry_refs: "ne_refs (dead_entry e) r =
    (if r = DeadName then of_nat (min (max (unat (ne_refs e Send) + unat (ne_refs e SendOnce)) 1) u32_max)
     else if r = Send \<or> r = SendOnce then 0 else ne_refs e r)"
  by (simp add: dead_entry_def Let_def)

lemma kill_entry_ok: "entry_ok n e \<Longrightarrow> entry_ok n (kill_entry e) \<and> ne_object (kill_entry e) = ne_object e"
proof -
  assume ok: "entry_ok n e"
  have "ne_refs (dead_entry e) r \<noteq> 0 \<longleftrightarrow> has_right (ne_type (dead_entry e)) r" for r
    using ok unfolding dead_entry_type dead_entry_refs
    by (simp only: entry_ok_def dead_refs_nonzero split: if_splits) auto
  moreover have "ne_type (dead_entry e) \<noteq> 0"
    using dead_entry_type [of e DeadName] by (metis has_right_zero)
  ultimately show ?thesis using ok
    by (auto simp: kill_entry_def entry_ok_def) (simp_all add: dead_entry_def Let_def)
qed

definition sends_to :: "(mach_name, name_entry) omap \<Rightarrow> mach_name \<Rightarrow> bool" where
  "sends_to es n \<longleftrightarrow> (\<exists>e. map_of es n = Some e \<and> (has_right (ne_type e) Send \<or> has_right (ne_type e) SendOnce))"

lemma mark_names_spec:
  "\<lbrakk>distinct ns; \<forall>n\<in>set ns. map_of es n \<noteq> None; om_wf es\<rbrakk> \<Longrightarrow>
    \<exists>es'. mark_names task ns es =
      Inr (map (\<lambda>n. \<lparr>nm_task = task, nm_name = n, nm_entry = the (map_of es n)\<rparr>) (filter (sends_to es) ns), es') \<and>
      om_wf es' \<and> map_of es' = (\<lambda>n. if n \<in> set ns then map_option kill_entry (map_of es n) else map_of es n)"
proof (induction ns arbitrary: es)
  case (Cons n ns)
  obtain e where e: "map_of es n = Some e" using Cons.prems(2) by auto
  show ?case
  proof (cases "has_right (ne_type e) Send \<or> has_right (ne_type e) SendOnce")
    case True
    let ?es = "om_put n (dead_entry e) es"
    obtain es' where es': "mark_names task ns ?es =
        Inr (map (\<lambda>n. \<lparr>nm_task = task, nm_name = n, nm_entry = the (map_of ?es n)\<rparr>) (filter (sends_to ?es) ns), es')"
        "om_wf es'" "map_of es' = (\<lambda>k. if k \<in> set ns then map_option kill_entry (map_of ?es k) else map_of ?es k)"
    proof -
      have "distinct ns" "\<forall>k\<in>set ns. map_of ?es k \<noteq> None" "om_wf ?es"
        using Cons.prems by (simp_all del: map_of_eq_None_iff)
      from Cons.IH [OF this] that show ?thesis by blast
    qed
    let ?named = "\<lambda>es n. \<lparr>nm_task = task, nm_name = n, nm_entry = the (map_of es n)\<rparr>"
    have "filter (sends_to ?es) ns = filter (sends_to es) ns"
      using Cons.prems(1) by (intro filter_cong) (auto simp: sends_to_def)
    then have "map (?named ?es) (filter (sends_to ?es) ns) = map (?named es) (filter (sends_to es) ns)"
      using Cons.prems(1) by (auto intro!: map_cong)
    with es'(1) have "mark_names task ns ?es = Inr (map (?named es) (filter (sends_to es) ns), es')"
      by simp
    then have "mark_names task (n # ns) es = Inr (map (?named es) (filter (sends_to es) (n # ns)), es')"
      using e True by (auto simp: type_test2 sends_to_def)
    moreover have "map_of es' = (\<lambda>k. if k \<in> set (n # ns) then map_option kill_entry (map_of es k) else map_of es k)"
      using es'(3) e True Cons.prems(1) by (auto simp: kill_entry_def fun_eq_iff)
    ultimately show ?thesis using es'(2) by blast
  next
    case False
    with Cons.IH [of es] Cons.prems e show ?thesis
      by (auto simp: type_test2 sends_to_def kill_entry_def fun_eq_iff)
  qed
qed simp

section \<open>The index against a scan of the entries\<close>

definition entries_for :: "mach_object \<Rightarrow> space \<Rightarrow> (mach_name \<times> name_entry) list" where
  "entries_for ob sp = filter (\<lambda>e. ne_object (snd e) = ob) (sp_entries sp)"

lemma entries_for_mem:
  "space_ok sp \<Longrightarrow> (n, e) \<in> set (entries_for ob sp) \<longleftrightarrow> map_of (sp_entries sp) n = Some e \<and> ne_object e = ob"
  by (auto simp: entries_for_def space_ok_def om_lookup_mem)

lemma indexed_scan:
  assumes ok: "space_ok sp"
  shows "(case indexed_names sp ob of None \<Rightarrow> [] | Some ns \<Rightarrow> ns) = map fst (entries_for ob sp)"
proof -
  let ?ns = "case indexed_names sp ob of None \<Rightarrow> [] | Some ns \<Rightarrow> ns"
  have ix: "index_ok (map_of (sp_entries sp)) (sp_names sp)" using ok by (simp add: space_ok_def)
  have ns: "sorted_wrt (<) ?ns \<and> set ?ns = names_of (map_of (sp_entries sp)) ob"
    using index_okD_None [OF ix, of ob] index_okD_Some [OF ix, of ob]
    by (cases "sp_names sp ob") (auto simp: indexed_names_def)
  have "set (map fst (entries_for ob sp)) = names_of (map_of (sp_entries sp)) ob"
    using entries_for_mem [OF ok] by (force simp: names_of_def)
  moreover have "sorted_wrt (<) (map fst (entries_for ob sp))"
    using ok by (simp add: entries_for_def space_ok_def om_wf_def sorted_wrt_map sorted_wrt_filter)
  ultimately show ?thesis using ns by (metis strict_sorted_equal)
qed

lemma indexed_head:
  "space_ok sp \<Longrightarrow> (case indexed_names sp ob of Some (n # _) \<Rightarrow> Some n | _ \<Rightarrow> None) =
    (case entries_for ob sp of [] \<Rightarrow> None | e # _ \<Rightarrow> Some (fst e))"
  using indexed_scan [of sp ob] by (auto split: option.splits list.splits)

lemma name_for_scan:
  assumes "table_ok t"
  shows "name_for task ob t = map_option nm_name (find (\<lambda>e. ne_object (nm_entry e) = ob) (entries_of task t))"
proof (cases "map_of t task")
  case (Some sp)
  have "(case entries_for ob sp of [] \<Rightarrow> None | e # _ \<Rightarrow> Some (fst e)) =
      map_option fst (find (\<lambda>e. ne_object (snd e) = ob) (sp_entries sp))"
    unfolding entries_for_def by (rule case_filter_find)
  moreover have "map_option nm_name (find (\<lambda>e. ne_object (nm_entry e) = ob)
      (map (\<lambda>(name, entry). \<lparr>nm_task = task, nm_name = name, nm_entry = entry\<rparr>) es)) =
      map_option fst (find (\<lambda>e. ne_object (snd e) = ob) es)" for es
    by (induction es) auto
  ultimately show ?thesis
    using Some indexed_head [OF table_ok_find [OF assms Some]] by (simp add: name_for_def entries_of_def)
qed (simp add: name_for_def entries_of_def)

lemma count_names_scan:
  assumes "om_wf es"
  shows "set xs \<subseteq> set es \<Longrightarrow> count_names (type_mask r) r (map fst xs) es =
    Inr (sum_list (map (\<lambda>e. if has_right (ne_type (snd e)) r then unat (ne_refs (snd e) r) else 0) xs))"
proof (induction xs)
  case (Cons x xs)
  then have "map_of es (fst x) = Some (snd x)"
    using om_lookup_mem [OF assms, of "fst x" "snd x"] by simp
  with Cons show ?case by (simp add: type_test)
qed simp

definition scan_count :: "mach_object \<Rightarrow> right \<Rightarrow> namespace_table \<Rightarrow> nat" where
  "scan_count ob r t = sum_list (map (\<lambda>(task, sp). sum_list (map (\<lambda>(n, e).
     if ne_object e = ob \<and> has_right (ne_type e) r then unat (ne_refs e r) else 0) (sp_entries sp))) t)"

lemma sum_list_entries_for:
  "sum_list (map (\<lambda>e. if has_right (ne_type (snd e)) r then unat (ne_refs (snd e) r) else 0) (entries_for ob sp)) =
   sum_list (map (\<lambda>(n, e). if ne_object e = ob \<and> has_right (ne_type e) r then unat (ne_refs e r) else 0) (sp_entries sp))"
proof -
  have "sum_list (map f (filter P es)) = sum_list (map (\<lambda>x. if P x then f x else 0) es)"
    for f :: "_ \<Rightarrow> nat" and P and es :: "(mach_name \<times> name_entry) list"
    by (induction es) auto
  then show ?thesis
    unfolding entries_for_def by (simp add: case_prod_unfold if_if_eq_conj cong: if_cong)
qed

lemma count_spaces_scan:
  "\<forall>(task, sp)\<in>set t. space_ok sp \<Longrightarrow> count_spaces ob r t = Inr (scan_count ob r t)"
proof (induction t)
  case (Cons x t)
  obtain task sp where x: "x = (task, sp)" by (cases x)
  with Cons.prems have ok: "space_ok sp" by simp
  have "(case indexed_names sp ob of None \<Rightarrow> Inr 0
      | Some names \<Rightarrow> count_names (type_mask r) r names (sp_entries sp)) =
      count_names (type_mask r) r (map fst (entries_for ob sp)) (sp_entries sp)"
    using indexed_scan [OF ok, of ob] by (simp split: option.splits)
  also have "\<dots> = Inr (sum_list (map (\<lambda>(n, e). if ne_object e = ob \<and> has_right (ne_type e) r
      then unat (ne_refs e r) else 0) (sp_entries sp)))"
    using ok count_names_scan [of "sp_entries sp" "entries_for ob sp" r]
    unfolding sum_list_entries_for [symmetric] by (simp add: space_ok_def entries_for_def)
  finally show ?case using Cons x by (simp add: scan_count_def)
qed (simp add: scan_count_def)

lemma table_ok_spaces: "table_ok t \<Longrightarrow> \<forall>(task, sp)\<in>set t. space_ok sp"
  unfolding table_ok_def by (auto simp: om_lookup_mem)

section \<open>Marking an object dead, over all tasks\<close>

definition killed_space :: "mach_object \<Rightarrow> space \<Rightarrow> space \<Rightarrow> bool" where
  "killed_space ob sp sp' \<longleftrightarrow> space_ok sp' \<and>
     map_of (sp_entries sp') =
       (\<lambda>n. map_option (\<lambda>e. if ne_object e = ob then kill_entry e else e) (map_of (sp_entries sp) n))"

lemma mark_space:
  assumes ok: "space_ok sp"
  shows "\<exists>es'. (case indexed_names sp ob of None \<Rightarrow> Inr ([], sp_entries sp)
      | Some names \<Rightarrow> mark_names task names (sp_entries sp)) =
      Inr (map (\<lambda>(n, e). \<lparr>nm_task = task, nm_name = n, nm_entry = e\<rparr>)
        (filter (\<lambda>(n, e). has_right (ne_type e) Send \<or> has_right (ne_type e) SendOnce) (entries_for ob sp)), es') \<and>
      killed_space ob sp (sp\<lparr>sp_entries := es'\<rparr>)"
proof -
  let ?es = "sp_entries sp" and ?ns = "map fst (entries_for ob sp)"
  have wf: "om_wf ?es" using ok by (simp add: space_ok_def)
  have wf': "om_wf (entries_for ob sp)" using wf by (simp add: entries_for_def om_wf_def sorted_wrt_filter)
  have all: "\<forall>n\<in>set ?ns. map_of ?es n \<noteq> None" using entries_for_mem [OF ok] by fastforce
  from mark_names_spec [OF om_wf_distinct [OF wf'] all wf, of task] obtain es' where es':
    "mark_names task ?ns ?es = Inr (map (\<lambda>n. \<lparr>nm_task = task, nm_name = n, nm_entry = the (map_of ?es n)\<rparr>)
       (filter (sends_to ?es) ?ns), es')" "om_wf es'"
    "map_of es' = (\<lambda>n. if n \<in> set ?ns then map_option kill_entry (map_of ?es n) else map_of ?es n)"
    by blast
  have aff: "map (\<lambda>n. \<lparr>nm_task = task, nm_name = n, nm_entry = the (map_of ?es n)\<rparr>) (filter (sends_to ?es) ?ns) =
      map (\<lambda>(n, e). \<lparr>nm_task = task, nm_name = n, nm_entry = e\<rparr>)
        (filter (\<lambda>(n, e). has_right (ne_type e) Send \<or> has_right (ne_type e) SendOnce) (entries_for ob sp))"
  proof -
    have "sends_to ?es (fst x) \<longleftrightarrow> (case x of (n, e) \<Rightarrow> has_right (ne_type e) Send \<or> has_right (ne_type e) SendOnce)"
        "map_of ?es (fst x) = Some (snd x)"
      if "x \<in> set (entries_for ob sp)" for x
      using that entries_for_mem [OF ok, of "fst x" "snd x"] by (auto simp: sends_to_def)
    then show ?thesis
      by (auto simp: filter_map comp_def intro!: map_cong filter_cong)
  qed
  have mem: "n \<in> set ?ns \<longleftrightarrow> (\<exists>e. map_of ?es n = Some e \<and> ne_object e = ob)" for n
    using entries_for_mem [OF ok, of n] by force
  have view: "map_of es' = (\<lambda>n. map_option (\<lambda>e. if ne_object e = ob then kill_entry e else e) (map_of ?es n))"
  proof
    fix n
    show "map_of es' n = map_option (\<lambda>e. if ne_object e = ob then kill_entry e else e) (map_of ?es n)"
      unfolding es'(3) mem by (cases "map_of ?es n") auto
  qed
  have ok': "entry_ok n e" if "map_of es' n = Some e" for n e
    using that space_entry_ok [OF ok] kill_entry_ok unfolding view by (auto split: if_splits)
  have objs: "map_option ne_object (map_of es' n) = map_option ne_object (map_of ?es n)" for n
    using space_entry_ok [OF ok, of n] kill_entry_ok [of n] unfolding view by (cases "map_of ?es n") auto
  have "killed_space ob sp (sp\<lparr>sp_entries := es'\<rparr>)"
    using ok ok' es'(2) index_ok_same_objects [of "map_of es'" "map_of ?es", OF objs] view
    by (simp add: killed_space_def space_ok_def)
  moreover have "(case indexed_names sp ob of None \<Rightarrow> Inr ([], ?es)
      | Some names \<Rightarrow> mark_names task names ?es) = mark_names task ?ns ?es"
    using indexed_scan [OF ok, of ob] by (simp split: option.splits)
  ultimately show ?thesis using es'(1) aff by auto
qed

definition affected_entries :: "mach_object \<Rightarrow> namespace_table \<Rightarrow> named_entry list" where
  "affected_entries ob t = concat (map (\<lambda>(task, sp).
     map (\<lambda>(n, e). \<lparr>nm_task = task, nm_name = n, nm_entry = e\<rparr>)
       (filter (\<lambda>(n, e). ne_object e = ob \<and> (has_right (ne_type e) Send \<or> has_right (ne_type e) SendOnce))
         (sp_entries sp))) t)"

lemma mark_object_dead_list:
  "\<forall>(task, sp)\<in>set t. space_ok sp \<Longrightarrow> \<exists>t'. mark_object_dead ob t = Inr (affected_entries ob t, t') \<and>
    list_all2 (\<lambda>x y. fst x = fst y \<and> killed_space ob (snd x) (snd y)) t t'"
proof (induction t)
  case (Cons x t)
  obtain task sp where x: "x = (task, sp)" by (cases x)
  with Cons.prems have ok: "space_ok sp" by simp
  obtain es' where "(case indexed_names sp ob of None \<Rightarrow> Inr ([], sp_entries sp)
      | Some names \<Rightarrow> mark_names task names (sp_entries sp)) =
      Inr (map (\<lambda>(n, e). \<lparr>nm_task = task, nm_name = n, nm_entry = e\<rparr>)
        (filter (\<lambda>(n, e). has_right (ne_type e) Send \<or> has_right (ne_type e) SendOnce) (entries_for ob sp)), es')"
      "killed_space ob sp (sp\<lparr>sp_entries := es'\<rparr>)"
    using mark_space [OF ok, of task ob] by blast
  moreover obtain t' where "mark_object_dead ob t = Inr (affected_entries ob t, t')"
      "list_all2 (\<lambda>x y. fst x = fst y \<and> killed_space ob (snd x) (snd y)) t t'"
    using Cons by auto
  ultimately show ?case
    by (auto simp: x affected_entries_def entries_for_def case_prod_unfold conj_commute intro!: arg_cong [where f = "map _"])
qed (simp add: affected_entries_def)

lemma list_all2_map_of:
  "list_all2 (\<lambda>x y. fst x = fst y \<and> R (snd x) (snd y)) t t' \<Longrightarrow>
    rel_option R (map_of t k) (map_of t' k)"
  by (induction t t' rule: list_all2_induct) auto

lemma mark_object_dead_ok:
  assumes "table_ok t"
  shows "\<exists>t'. mark_object_dead ob t = Inr (affected_entries ob t, t') \<and> table_ok t' \<and>
    (\<forall>task. rel_option (killed_space ob) (map_of t task) (map_of t' task))"
proof -
  obtain t' where t': "mark_object_dead ob t = Inr (affected_entries ob t, t')"
      "list_all2 (\<lambda>x y. fst x = fst y \<and> killed_space ob (snd x) (snd y)) t t'"
    using mark_object_dead_list [OF table_ok_spaces [OF assms]] by blast
  have keys: "map fst t = map fst t'"
    using t'(2) by (induction t t' rule: list_all2_induct) auto
  have "om_wf t'" using assms keys by (simp add: table_ok_def om_wf_def sorted_wrt_map [symmetric])
  moreover have "space_ok sp" if "map_of t' task = Some sp" for task sp
    using list_all2_map_of [OF t'(2), of task] that by (auto simp: killed_space_def elim: option.rel_cases)
  ultimately show ?thesis using t' list_all2_map_of [OF t'(2)] by (auto simp: table_ok_def)
qed

section \<open>Histories of the table\<close>

datatype ns_op =
    CreateTask task_id
  | DestroyTask task_id
  | Install task_id mach_name mach_object type_mask32 u32
  | Allocate task_id mach_object type_mask32
  | Copyout task_id mach_object type_mask32
  | CopyoutAtName task_id mach_object type_mask32 mach_name
  | Rename task_id mach_name mach_name
  | ModifyReferences task_id mach_name right int
  | DestroyName task_id mach_name
  | MarkObjectDead mach_object
  | RemoveType task_id mach_name type_mask32
  | Deallocate task_id mach_name

fun ns_apply :: "namespace_table \<Rightarrow> ns_op \<Rightarrow> ns_error + namespace_table" where
  "ns_apply t (CreateTask task) = Inr (create_task task t)"
| "ns_apply t (DestroyTask task) = Inr (destroy_task task t)"
| "ns_apply t (Install task n ob ty refs) = Inr (snd (install task n ob ty refs t))"
| "ns_apply t (Allocate task ob ty) = Inr (snd (allocate task ob ty t))"
| "ns_apply t (Copyout task ob ty) = map_sum id snd (copyout task ob ty t)"
| "ns_apply t (CopyoutAtName task ob ty n) = map_sum id snd (copyout_at_name task ob ty n t)"
| "ns_apply t (Rename task old new) = Inr (snd (rename task old new t))"
| "ns_apply t (ModifyReferences task n r delta) = Inr (snd (modify_references task n r delta t))"
| "ns_apply t (DestroyName task n) = Inr (snd (destroy_name task n t))"
| "ns_apply t (MarkObjectDead ob) = map_sum id snd (mark_object_dead ob t)"
| "ns_apply t (RemoveType task n ty) = Inr (snd (remove_type task n ty t))"
| "ns_apply t (Deallocate task n) = Inr (snd (deallocate task n t))"

text \<open>The first exception ends the history.\<close>

fun ns_step :: "ns_error + namespace_table \<Rightarrow> ns_op \<Rightarrow> ns_error + namespace_table" where
  "ns_step (Inl e) _ = Inl e"
| "ns_step (Inr t) e = ns_apply t e"

definition ns_live :: "ns_error + namespace_table \<Rightarrow> bool" where
  "ns_live s \<longleftrightarrow> (\<exists>t. s = Inr t \<and> table_ok t)"

lemma ns_good_snd: "ns_good r \<Longrightarrow> ns_live (map_sum id snd r)"
  by (auto simp: ns_good_def ns_live_def)

lemma ns_live_Inr: "table_ok t \<Longrightarrow> ns_live (Inr t)"
  by (simp add: ns_live_def)

lemma ns_apply_live: "table_ok t \<Longrightarrow> ns_live (ns_apply t e)"
proof (cases e)
  case (DestroyTask task)
  assume "table_ok t"
  with DestroyTask show ?thesis by (auto simp: destroy_task_def table_ok_def intro!: ns_live_Inr)
next
  case (CreateTask task)
  assume "table_ok t"
  with CreateTask show ?thesis
    by (auto simp: create_task_def om_emplace_def intro!: ns_live_Inr table_ok_put)
next
  case (MarkObjectDead ob)
  assume "table_ok t"
  with MarkObjectDead mark_object_dead_ok [of t ob] show ?thesis by (auto intro!: ns_live_Inr)
qed (simp_all add: ns_good_snd ns_live_Inr install_ok allocate_ok copyout_good copyout_at_name_good rename_ok
    modify_references_ok destroy_name_ok remove_type_ok deallocate_ok)

interpretation ns_machine: machine "Inr []" ns_step ns_live
proof unfold_locales
  fix s e
  assume "ns_live s"
  then show "ns_live (ns_step s e)" by (auto simp: ns_live_def [of s] ns_apply_live)
qed (simp add: ns_live_def table_ok_def)

definition ns_run :: "ns_op list \<Rightarrow> ns_error + namespace_table" where
  "ns_run ops = foldl ns_step (Inr []) ops"

lemma ns_run_ok: "ns_run ops = Inr t \<Longrightarrow> table_ok t"
  using ns_machine.run_inv [of ops] by (simp add: ns_run_def ns_live_def)

section \<open>Properties\<close>

text \<open>
  C4: no history of namespace operations, with any arguments, raises the exception of
  \<open>std::map::at\<close>, and after every one the per-object name index agrees with the entries: each
  entry has a valid name, a live object, and a positive count for exactly the rights it holds.
\<close>

theorem namespace_history_safe:
  "\<exists>t. ns_run ops = Inr t \<and> table_ok t"
  using ns_machine.run_inv [of ops] by (simp add: ns_run_def ns_live_def)

text \<open>
  the index answers what a scan of the authoritative entries in name order would: the
  lowest name of the object in the task.
\<close>

theorem namespace_name_for_is_scan:
  assumes "ns_run ops = Inr t"
  shows "name_for task ob t =
    map_option nm_name (find (\<lambda>e. ne_object (nm_entry e) = ob) (entries_of task t))"
  using ns_run_ok [OF assms] by (rule name_for_scan)

theorem namespace_name_for_is_scan_witness:
  "name_for 1 7 [] = map_option nm_name (find (\<lambda>e. ne_object (nm_entry e) = 7) (entries_of 1 []))"
  by (rule namespace_name_for_is_scan [of "[]"]) (simp add: ns_run_def)

text \<open>
  the reference count of a right over all tasks, computed from the index, is the sum over
  all entries of all tasks that denote the object and hold the right (modulo the width of
  \<open>size_t\<close>), and computing it never throws.
\<close>

theorem namespace_reference_count_is_scan:
  assumes "ns_run ops = Inr t"
  shows "right_reference_count ob r t = Inr (scan_count ob r t mod 2 ^ 64)"
  using count_spaces_scan [OF table_ok_spaces [OF ns_run_ok [OF assms]]]
  by (simp add: right_reference_count_def)

theorem namespace_reference_count_is_scan_witness:
  "right_reference_count 7 Send [] = Inr (scan_count 7 Send [] mod 2 ^ 64)"
  by (rule namespace_reference_count_is_scan [of "[]"]) (simp add: ns_run_def)

fun op_task :: "ns_op \<Rightarrow> task_id option" where
  "op_task (CreateTask task) = Some task"
| "op_task (DestroyTask task) = Some task"
| "op_task (Install task n ob ty refs) = Some task"
| "op_task (Allocate task ob ty) = Some task"
| "op_task (Copyout task ob ty) = Some task"
| "op_task (CopyoutAtName task ob ty n) = Some task"
| "op_task (Rename task old new) = Some task"
| "op_task (ModifyReferences task n r delta) = Some task"
| "op_task (DestroyName task n) = Some task"
| "op_task (MarkObjectDead ob) = None"
| "op_task (RemoveType task n ty) = Some task"
| "op_task (Deallocate task n) = Some task"

lemma coalesce_right_other:
  "coalesce_right task n ty sp t = Inr (x, t') \<Longrightarrow> other \<noteq> task \<Longrightarrow> map_of t' other = map_of t other"
  by (auto simp: coalesce_right_def split: option.splits)

lemma allocate_other: "other \<noteq> task \<Longrightarrow> map_of (snd (allocate task ob ty t)) other = map_of t other"
  by (simp add: allocate_def Let_def split: option.splits)

lemma copyout_other:
  assumes "copyout task ob ty t = Inr (x, t')" and "other \<noteq> task"
  shows "map_of t' other = map_of t other"
  using assms allocate_other [OF assms(2), of ob ty "om_put task (space_of task t) t"]
  by (auto simp: copyout_def Let_def split: if_splits option.splits list.splits dest: coalesce_right_other)

lemma copyout_at_name_other:
  assumes "copyout_at_name task ob ty n t = Inr (x, t')" and "other \<noteq> task"
  shows "map_of t' other = map_of t other"
  using assms allocate_other [OF assms(2), of ob ty "om_put task (space_of task t) t"]
  by (auto simp: copyout_at_name_def Let_def split: if_splits option.splits list.splits
      dest: coalesce_right_other)

text \<open>
  names are task-local: an operation on one task never changes what any other task's
  names, index or allocation cursor are.
\<close>

theorem namespace_task_isolation:
  assumes "ns_apply t e = Inr t'" and "op_task e = Some task" and "other \<noteq> task"
  shows "find_space other t' = find_space other t"
proof (cases e)
  case (Copyout k ob ty)
  with assms show ?thesis
    by (cases "copyout k ob ty t") (auto simp: find_space_def dest: copyout_other)
next
  case (CopyoutAtName k ob ty n)
  with assms show ?thesis
    by (cases "copyout_at_name k ob ty n t") (auto simp: find_space_def dest: copyout_at_name_other)
next
  case (Allocate k ob ty)
  with assms show ?thesis by (auto simp: find_space_def allocate_other)
qed (use assms in \<open>auto simp: find_space_def create_task_def destroy_task_def install_def rename_def
      modify_references_def destroy_name_def remove_type_def deallocate_def Let_def
      split: option.splits if_splits\<close>)

theorem namespace_task_isolation_witness:
  "find_space 2 (create_task 1 []) = find_space 2 []"
  by (rule namespace_task_isolation [of "[]" "CreateTask 1" _ 1 2]) simp_all

lemma lookup_put: "lookup k m (om_put task sp t) = (if k = task then map_of (sp_entries sp) m else lookup k m t)"
  by (simp add: lookup_def)

lemma space_of_put [simp]: "space_of k (om_put task sp t) = (if k = task then sp else space_of k t)"
  by (simp add: space_of_def)

lemma lookup_space_of: "lookup task m t = map_of (sp_entries (space_of task t)) m"
  by (simp add: lookup_def space_of_def empty_space_def split: option.split)

text \<open>What \<open>allocate\<close> does to the names when it succeeds.\<close>

lemma allocate_Some:
  assumes "allocate task ob ty t = (Some n, t')"
  shows "valid_name n \<and> lookup task n t = None \<and> ob \<noteq> null_name \<and> ty \<noteq> 0 \<and>
    lookup k m t' = (if k = task \<and> m = n then Some (make_entry ob ty 1) else lookup k m t)"
proof -
  let ?sp = "space_of task t"
  have nz: "ob \<noteq> null_name" "ty \<noteq> 0" using assms by (auto simp: allocate_def split: if_splits)
  obtain c where c: "free_candidate (sp_entries ?sp) (sp_next_name ?sp) = Some c"
    using assms by (auto simp: allocate_def Let_def split: if_splits option.splits)
  with assms nz have "n = c" "lookup k m t' = (if k = task then
      map_of (om_put n (make_entry ob ty 1) (sp_entries ?sp)) m else lookup k m t)"
    by (auto simp: allocate_def Let_def lookup_put)
  with nz free_candidate_Some [OF c] show ?thesis by (simp add: lookup_space_of)
qed

lemma lookup_put_space_of: "lookup k m (om_put task (space_of task t) t) = lookup k m t"
  by (simp add: lookup_put lookup_space_of)

text \<open>
  a SendOnce right never coalesces: a successful copyout of one always introduces a valid
  name the task did not have, with exactly one reference, and leaves every other name of every
  task as it was, even when the object already has names there.
\<close>

theorem copyout_send_once_fresh:
  assumes "copyout task ob ty t = Inr (Some n, t')" and "has_right ty SendOnce"
  shows "valid_name n \<and> lookup task n t = None \<and> user_references task n SendOnce t' = Some 1 \<and>
    (\<forall>k m. (k, m) \<noteq> (task, n) \<longrightarrow> lookup k m t' = lookup k m t)"
proof -
  have a: "allocate task ob ty (om_put task (space_of task t) t) = (Some n, t')"
    using assms by (simp add: copyout_def Let_def type_test)
  have "user_references task n SendOnce t' = Some 1"
    using allocate_Some [OF a, of task n] assms(2)
    by (auto simp: user_references_def make_entry_def type_test)
  then show ?thesis
    using allocate_Some [OF a] by (auto simp: lookup_put_space_of)
qed

theorem copyout_send_once_fresh_witness:
  "lookup 1 first_dynamic_name [] = None"
proof -
  have "copyout 1 7 (type_mask SendOnce) [] =
      Inr (Some first_dynamic_name, snd (allocate 1 7 (type_mask SendOnce) (om_put 1 empty_space [])))"
    by (simp add: copyout_def Let_def space_of_def allocate_def null_name_def type_mask_eq empty_space_def
        free_candidate.simps valid_name_def first_dynamic_name_def dead_name_def)
  from copyout_send_once_fresh [OF this] show ?thesis by simp
qed

lemma or_mask_same: "has_right w r \<Longrightarrow> w OR type_mask r = w"
  unfolding has_right_def type_mask_eq by (rule bit_word_eqI) (auto simp: bit_simps)

lemma drop_added_send:
  assumes "entry_ok n e" and "\<not> has_right (ne_type e) Send"
  shows "(ne_type e OR type_mask Send) AND NOT (type_mask Send) = ne_type e" and "ne_refs e Send = 0"
proof -
  show "ne_refs e Send = 0" using assms by (auto simp: entry_ok_def)
  have "ne_type e AND type_mask Send = 0" using assms(2) by (simp add: type_test)
  then show "(ne_type e OR type_mask Send) AND NOT (type_mask Send) = ne_type e"
    by (simp add: bit_eq_iff bit_simps) blast
qed

lemma copyout_send_cases:
  assumes ok: "table_ok t" and out: "copyout task ob (type_mask Send) t = Inr (Some n, t')"
  shows "(\<forall>k m. (k, m) \<noteq> (task, n) \<longrightarrow> lookup k m t' = lookup k m t) \<and>
    (case lookup task n t of
       None \<Rightarrow> lookup task n t' = Some (make_entry ob (type_mask Send) 1)
     | Some e \<Rightarrow> lookup task n t' = Some (add_types e (type_mask Send) 1 True))"
proof -
  let ?sp = "space_of task t"
  note sp = table_ok_space_of [OF ok, of task]
  show ?thesis
  proof (cases "case indexed_names ?sp ob of None \<Rightarrow> [] | Some ns \<Rightarrow> ns")
    case Nil
    then have "allocate task ob (type_mask Send) (om_put task ?sp t) = (Some n, t')"
      using out by (auto simp: copyout_def Let_def type_test split: option.splits list.splits)
    from allocate_Some [OF this] show ?thesis by (auto simp: lookup_put_space_of)
  next
    case (Cons m ms)
    then have ix: "indexed_names ?sp ob = Some (m # ms)" by (cases "indexed_names ?sp ob") auto
    then obtain e where e: "map_of (sp_entries ?sp) m = Some e" using indexed_name_entry [OF sp] by blast
    with ix out have n: "n = m" and t': "t' = om_put task (set_entry m (add_types e (type_mask Send) 1 True) ?sp)
        (om_put task ?sp t)"
      by (auto simp: copyout_def Let_def type_test coalesce_right_def)
    have "lookup task n t = Some e" using e n by (simp add: lookup_space_of)
    then show ?thesis by (auto simp: n t' lookup_put lookup_put_space_of lookup_space_of)
  qed
qed

text \<open>
  copying out a send right and deallocating the name it was given restores every name of
  every task, whether the name was new, already held send rights, or held only another right
  of the object (unless the reference count was saturated).
\<close>

theorem copyout_deallocate_roundtrip:
  assumes ok: "table_ok t" and out: "copyout task ob (type_mask Send) t = Inr (Some n, t')"
    and unsaturated: "\<And>e. lookup task n t = Some e \<Longrightarrow> ne_refs e Send < u32_numeric_max"
  shows "fst (deallocate task n t') \<and> lookup k m (snd (deallocate task n t')) = lookup k m t"
proof -
  have others: "(k, m) \<noteq> (task, n) \<Longrightarrow> lookup k m t' = lookup k m t" for k m
    using copyout_send_cases [OF ok out] by blast
  define e' where "e' = (case lookup task n t of None \<Rightarrow> make_entry ob (type_mask Send) 1
      | Some e \<Rightarrow> add_types e (type_mask Send) 1 True)"
  have at: "lookup task n t' = Some e'"
    using copyout_send_cases [OF ok out] by (simp add: e'_def split: option.splits)
  then obtain sp where sp: "map_of t' task = Some sp" "map_of (sp_entries sp) n = Some e'"
    by (auto simp: lookup_def split: option.splits)
  have rest: "lookup k m (om_put task sp' t') = lookup k m t"
    if "\<And>x. x \<noteq> n \<Longrightarrow> map_of (sp_entries sp') x = map_of (sp_entries sp) x"
       "map_of (sp_entries sp') n = lookup task n t" for sp'
  proof (cases "k = task \<and> m \<noteq> n")
    case True
    with that(1) [of m] have "lookup k m (om_put task sp' t') = lookup task m t'"
      by (simp add: lookup_put) (simp add: lookup_def sp)
    with True others [of task m] show ?thesis by simp
  next
    case False
    with that(2) others [of k m] show ?thesis by (auto simp: lookup_put)
  qed
  have send: "has_right (ne_type e') Send"
    by (simp add: e'_def make_entry_def split: option.split)
  have avail: "ne_type e' AND (type_mask Send OR type_mask SendOnce OR type_mask DeadName) \<noteq> 0"
    "(ne_type e' AND (type_mask Send OR type_mask SendOnce OR type_mask DeadName)) AND type_mask Send \<noteq> 0"
    using send by (simp_all add: type_test3 type_test)
  show ?thesis
  proof (cases "lookup task n t")
    case None
    then have e': "e' = make_entry ob (type_mask Send) 1" by (simp add: e'_def)
    have "ne_refs e' Send = 1" "ne_type e' AND NOT (type_mask Send) = 0"
      by (simp_all add: e' make_entry_def type_test)
    then show ?thesis
      using sp avail None by (simp add: deallocate_def Let_def store_or_drop_def rest)
  next
    case (Some e)
    then have e': "e' = add_types e (type_mask Send) 1 True" by (simp add: e'_def)
    have obj: "ne_object e' = ne_object e" by (simp add: e')
    have eok: "entry_ok n e"
      using Some space_entry_ok [OF table_ok_space_of [OF ok]] by (simp add: lookup_space_of)
    show ?thesis
    proof (cases "has_right (ne_type e) Send")
      case True
      have refs: "ne_refs e' = (ne_refs e)(Send := ne_refs e Send + 1)"
        using True unsaturated [OF Some] by (auto simp: e' add_types_refs fun_eq_iff)
      have ty: "ne_type e' = ne_type e"
        using True by (simp add: e' or_mask_same)
      have nz: "ne_refs e Send \<noteq> 0" using eok True by (simp add: entry_ok_def)
      have "unat (ne_refs e Send + 1) = unat (ne_refs e Send) + 1"
        using unsaturated [OF Some] by (rule word_succ_unat)
      then have gt: "ne_refs e Send + 1 > 1" using nz by (simp add: word_less_nat_alt unat_gt_0)
      have "e'\<lparr>ne_refs := (ne_refs e')(Send := ne_refs e' Send - 1)\<rparr> = e"
        by (rule name_entry.equality) (simp_all add: refs ty obj)
      then show ?thesis
        using sp avail Some gt by (simp add: deallocate_def Let_def refs rest)
    next
      case False
      note undo = drop_added_send [OF eok False]
      have ty: "ne_type e' AND NOT (type_mask Send) = ne_type e" by (simp add: e' undo(1))
      have refs: "ne_refs e' = (ne_refs e)(Send := 1)"
        using False by (auto simp: e' add_types_refs fun_eq_iff)
      have "e'\<lparr>ne_refs := (ne_refs e')(Send := 0), ne_type := ne_type e' AND NOT (type_mask Send)\<rparr> = e"
        by (rule name_entry.equality) (simp_all add: refs obj ty undo(2) fun_upd_idem)
      moreover have "ne_type e \<noteq> 0" using eok by (simp add: entry_ok_def)
      ultimately show ?thesis
        using sp avail Some by (simp add: deallocate_def Let_def refs store_or_drop_def rest)
    qed
  qed
qed


lemma create_task_ok: "table_ok (create_task task [])"
  by (simp add: create_task_def om_emplace_def table_ok_def om_wf_Cons)

lemma first_copyout:
  "ob \<noteq> null_name \<Longrightarrow> \<exists>t'. copyout 1 ob (type_mask Send) (create_task 1 []) = Inr (Some first_dynamic_name, t')"
  by (simp add: copyout_def Let_def space_of_def allocate_def create_task_def om_emplace_def type_mask_eq
      empty_space_def free_candidate.simps valid_name_def first_dynamic_name_def dead_name_def
      null_name_def indexed_names_def)

theorem copyout_deallocate_roundtrip_witness:
  "\<exists>t'. copyout 1 7 (type_mask Send) (create_task 1 []) = Inr (Some first_dynamic_name, t') \<and>
    fst (deallocate 1 first_dynamic_name t')"
proof -
  obtain t' where t': "copyout 1 7 (type_mask Send) (create_task 1 []) = Inr (Some first_dynamic_name, t')"
    using first_copyout [of 7] by (auto simp: null_name_def)
  have "lookup 1 first_dynamic_name (create_task 1 []) = Some e \<Longrightarrow> ne_refs e Send < u32_numeric_max" for e
    by (simp add: lookup_def create_task_def om_emplace_def empty_space_def)
  from copyout_deallocate_roundtrip [OF create_task_ok t' this] t' show ?thesis by blast
qed

lemma lookup_entry_ok: "lookup task n t = Some e \<Longrightarrow> table_ok t \<Longrightarrow> entry_ok n e"
  using space_entry_ok [OF table_ok_space_of] by (simp add: lookup_space_of)

lemma type_mask_bit: "bit (type_mask r) i \<longleftrightarrow> i = right_index r + 16"
  unfolding type_mask_eq bit_exp_iff by (cases r) auto

lemma dead_entry_effect:
  assumes ok: "entry_ok n e" and s: "bit (ne_type e) 16 \<or> bit (ne_type e) 18"
  shows "bit (ne_type (dead_entry e)) i \<longleftrightarrow> i = 20 \<or> i \<noteq> 16 \<and> i \<noteq> 18 \<and> bit (ne_type e) i"
    "unat (ne_refs (dead_entry e) DeadName) = min (unat (ne_refs e Send) + unat (ne_refs e SendOnce)) (2 ^ 32 - 1)"
    "ne_object (dead_entry e) = ne_object e" "ne_refs (dead_entry e) Send = 0" "ne_refs (dead_entry e) SendOnce = 0"
    "ne_refs (dead_entry e) Receive = ne_refs e Receive" "ne_refs (dead_entry e) PortSet = ne_refs e PortSet"
proof -
  show "bit (ne_type (dead_entry e)) i \<longleftrightarrow> i = 20 \<or> i \<noteq> 16 \<and> i \<noteq> 18 \<and> bit (ne_type e) i"
    using bit_imp_le_length [of "ne_type e" i]
    by (auto simp: dead_entry_def Let_def bit_and_iff bit_or_iff bit_not_iff type_mask_bit)
  have "ne_refs e Send \<noteq> 0 \<or> ne_refs e SendOnce \<noteq> 0" using ok s by (simp add: entry_ok_def has_right_def)
  then have "unat (ne_refs e Send) + unat (ne_refs e SendOnce) \<ge> 1" by (auto simp: unat_eq_0 Suc_le_eq simp flip: neq0_conv)
  then have "min (max (unat (ne_refs e Send) + unat (ne_refs e SendOnce)) 1) u32_max =
      min (unat (ne_refs e Send) + unat (ne_refs e SendOnce)) (2 ^ 32 - 1)"
    by (simp add: u32_max_def)
  moreover have "unat (of_nat (min m (2 ^ 32 - 1)) :: u32) = min m (2 ^ 32 - 1)" for m
    by (simp add: unat_of_nat min_def)
  ultimately show "unat (ne_refs (dead_entry e) DeadName) = min (unat (ne_refs e Send) + unat (ne_refs e SendOnce)) (2 ^ 32 - 1)"
    by (simp only: dead_entry_refs simp_thms if_True)
  show "ne_object (dead_entry e) = ne_object e" by (simp add: dead_entry_def Let_def)
qed (simp_all add: dead_entry_refs)

lemma affected_entries_sorted:
  "table_ok t \<Longrightarrow> sorted_wrt (\<lambda>a b. nm_task a < nm_task b \<or> nm_task a = nm_task b \<and> nm_name a < nm_name b) (affected_entries ob t)"
proof (induction t)
  case (Cons x t)
  obtain task sp where x: "x = (task, sp)" by (cases x)
  have "map_of (x # t) task = Some sp" by (simp add: x)
  then have "space_ok sp" "om_wf ((task, sp) # t)" using Cons.prems x unfolding table_ok_def by blast+
  then have wf: "om_wf (sp_entries sp)" "\<forall>y\<in>set t. task < fst y" by (auto simp: space_ok_def om_wf_def)
  have "table_ok t"
  proof -
    have "map_of (x # t) k = Some sq" if "map_of t k = Some sq" for k sq
      using wf(2) map_of_SomeD [OF that] that by (auto simp: x)
    moreover have "om_wf t" using Cons.prems by (simp add: table_ok_def om_wf_def)
    ultimately show ?thesis using Cons.prems unfolding table_ok_def by blast
  qed
  with Cons.IH show ?case
    using wf by (fastforce simp: affected_entries_def x sorted_wrt_append om_wf_def sorted_wrt_map
      intro: sorted_wrt_mono_rel [rotated] sorted_wrt_filter)
qed (simp add: affected_entries_def)

lemma affected_entries_mem:
  assumes "table_ok t"
  shows "\<lparr>nm_task = task, nm_name = n, nm_entry = e\<rparr> \<in> set (affected_entries ob t) \<longleftrightarrow>
    lookup task n t = Some e \<and> ne_object e = ob \<and> (bit (ne_type e) 16 \<or> bit (ne_type e) 18)"
proof -
  have "lookup task n t = Some e \<longleftrightarrow> (\<exists>sp. (task, sp) \<in> set t \<and> (n, e) \<in> set (sp_entries sp))"
  proof -
    have "(task, sp) \<in> set t \<longleftrightarrow> map_of t task = Some sp" for sp using assms by (simp add: table_ok_def om_lookup_mem)
    moreover have "(n, e) \<in> set (sp_entries sp) \<longleftrightarrow> map_of (sp_entries sp) n = Some e" if "map_of t task = Some sp" for sp
      using assms that by (auto simp: table_ok_def space_ok_def om_lookup_mem)
    ultimately show ?thesis by (auto simp: lookup_def split: option.split)
  qed
  moreover have "\<lparr>nm_task = task, nm_name = n, nm_entry = e\<rparr> \<in> set (affected_entries ob t) \<longleftrightarrow>
      (\<exists>sp. (task, sp) \<in> set t \<and> (n, e) \<in> set (sp_entries sp)) \<and> ne_object e = ob \<and> (bit (ne_type e) 16 \<or> bit (ne_type e) 18)"
    by (force simp: affected_entries_def has_right_def image_iff)
  ultimately show ?thesis by simp
qed

text \<open>
  C5: Marking an object dead is complete and exact, in every task at once. Bits 16 to 20 of an
  entry's type say that it holds a send, receive, send-once, port-set or dead-name right. Each entry of
  the object with a send or send-once right becomes a dead name whose reference count is the sum of both
  counts (at most 2 ^ 32 - 1), loses both rights with their counts, and keeps every other bit of
  its type and the counts of its receive and port-set rights; every other entry of every task stays as
  it is, and no name appears or goes away. The call reports the turned entries, as they were, in
  the order of task and name, each once and no other.\<close>

theorem mark_object_dead_complete:
  assumes "table_ok t"
  shows "\<exists>affected t'. mark_object_dead ob t = Inr (affected, t') \<and>
    sorted_wrt (\<lambda>a b. nm_task a < nm_task b \<or> nm_task a = nm_task b \<and> nm_name a < nm_name b) affected \<and>
    (\<forall>task n e. \<lparr>nm_task = task, nm_name = n, nm_entry = e\<rparr> \<in> set affected \<longleftrightarrow>
       lookup task n t = Some e \<and> ne_object e = ob \<and> (bit (ne_type e) 16 \<or> bit (ne_type e) 18)) \<and>
    (\<forall>task n. case lookup task n t of
       None \<Rightarrow> lookup task n t' = None
     | Some e \<Rightarrow> \<exists>e'. lookup task n t' = Some e' \<and> ne_object e' = ne_object e \<and>
         (if ne_object e = ob \<and> (bit (ne_type e) 16 \<or> bit (ne_type e) 18) then
            (\<forall>i. bit (ne_type e') i \<longleftrightarrow> i = 20 \<or> i \<noteq> 16 \<and> i \<noteq> 18 \<and> bit (ne_type e) i) \<and>
            unat (ne_refs e' DeadName) = min (unat (ne_refs e Send) + unat (ne_refs e SendOnce)) (2 ^ 32 - 1) \<and>
            ne_refs e' Send = 0 \<and> ne_refs e' SendOnce = 0 \<and>
            ne_refs e' Receive = ne_refs e Receive \<and> ne_refs e' PortSet = ne_refs e PortSet
          else e' = e))"
proof -
  obtain t' where t': "mark_object_dead ob t = Inr (affected_entries ob t, t')"
      "\<And>task. rel_option (killed_space ob) (map_of t task) (map_of t' task)"
    using mark_object_dead_ok [OF assms] by blast
  have view: "lookup task n t' =
      map_option (\<lambda>e. if ne_object e = ob then kill_entry e else e) (lookup task n t)" for task n
    using t'(2) [of task] by (simp add: lookup_def killed_space_def option.rel_sel) (cases "map_of t task"; cases "map_of t' task"; simp)
  have killed: "lookup task n t' = Some (if ne_object e = ob \<and> (bit (ne_type e) 16 \<or> bit (ne_type e) 18) then dead_entry e else e)"
    "entry_ok n e" if "lookup task n t = Some e" for task n e
    using that lookup_entry_ok [OF that assms] by (auto simp: view kill_entry_def has_right_def)
  show ?thesis
  proof (intro exI conjI allI)
    show "mark_object_dead ob t = Inr (affected_entries ob t, t')" by (rule t'(1))
    fix task n
    show "case lookup task n t of
       None \<Rightarrow> lookup task n t' = None
     | Some e \<Rightarrow> \<exists>e'. lookup task n t' = Some e' \<and> ne_object e' = ne_object e \<and>
         (if ne_object e = ob \<and> (bit (ne_type e) 16 \<or> bit (ne_type e) 18) then
            (\<forall>i. bit (ne_type e') i \<longleftrightarrow> i = 20 \<or> i \<noteq> 16 \<and> i \<noteq> 18 \<and> bit (ne_type e) i) \<and>
            unat (ne_refs e' DeadName) = min (unat (ne_refs e Send) + unat (ne_refs e SendOnce)) (2 ^ 32 - 1) \<and>
            ne_refs e' Send = 0 \<and> ne_refs e' SendOnce = 0 \<and>
            ne_refs e' Receive = ne_refs e Receive \<and> ne_refs e' PortSet = ne_refs e PortSet
          else e' = e)"
    proof (cases "lookup task n t")
      case (Some e)
      then show ?thesis
        using killed [OF Some] dead_entry_effect [OF killed(2) [OF Some]]
        by (cases "ne_object e = ob \<and> (bit (ne_type e) 16 \<or> bit (ne_type e) 18)") auto
    qed (simp add: view)
  qed (use assms affected_entries_sorted affected_entries_mem in blast)+
qed

text \<open>A task holds 2 send and 3 send-once references and the receive right of one object, and a send right of another.\<close>

definition example_entry :: name_entry where
  "example_entry = \<lparr>ne_object = 7, ne_type = type_mask Send OR type_mask SendOnce OR type_mask Receive,
     ne_refs = (\<lambda>r. case r of Send \<Rightarrow> 2 | SendOnce \<Rightarrow> 3 | Receive \<Rightarrow> 1 | _ \<Rightarrow> 0)\<rparr>"

definition example_table :: namespace_table where
  "example_table = [(1, \<lparr>sp_next_name = first_dynamic_name,
     sp_entries = [(16, example_entry), (32, make_entry 9 (type_mask Send) 1)], sp_names = [7 \<mapsto> [16], 9 \<mapsto> [32]]\<rparr>)]"

lemma example_table_ok: "table_ok example_table"
proof -
  have "entry_ok 16 example_entry"
    unfolding entry_ok_def has_right_def
    by (auto simp: example_entry_def valid_name_def null_name_def dead_name_def type_mask_eq bit_or_iff bit_exp_iff split: right.split)
  moreover have "entry_ok 32 (make_entry 9 (type_mask Send) 1)"
    by (rule make_entry_ok) (simp_all add: valid_name_def null_name_def dead_name_def type_mask_eq)
  ultimately show ?thesis
    by (auto simp: example_table_def table_ok_def space_ok_def om_wf_def index_ok_def names_of_def example_entry_def split: if_splits)
qed

theorem mark_object_dead_complete_witness:
  "\<exists>affected t' e'. mark_object_dead 7 example_table = Inr (affected, t') \<and>
    \<lparr>nm_task = 1, nm_name = 16, nm_entry = example_entry\<rparr> \<in> set affected \<and>
    lookup 1 16 t' = Some e' \<and> bit (ne_type e') 20 \<and> bit (ne_type e') 17 \<and> \<not> bit (ne_type e') 16 \<and> unat (ne_refs e' DeadName) = 5 \<and>
    lookup 1 32 t' = Some (make_entry 9 (type_mask Send) 1)"
proof -
  have e: "lookup 1 16 example_table = Some example_entry" "lookup 1 32 example_table = Some (make_entry 9 (type_mask Send) 1)"
    by (simp_all add: lookup_def example_table_def)
  have b: "ne_object example_entry = 7" "bit (ne_type example_entry) 16" "bit (ne_type example_entry) 17"
    "unat (ne_refs example_entry Send) + unat (ne_refs example_entry SendOnce) = 5"
    by (simp_all add: example_entry_def type_mask_eq bit_or_iff bit_exp_iff)
  obtain affected t' where m: "mark_object_dead 7 example_table = Inr (affected, t')"
      "\<lparr>nm_task = 1, nm_name = 16, nm_entry = example_entry\<rparr> \<in> set affected"
      "\<exists>e'. lookup 1 16 t' = Some e' \<and> bit (ne_type e') 20 \<and> bit (ne_type e') 17 \<and> \<not> bit (ne_type e') 16 \<and> unat (ne_refs e' DeadName) = 5"
      "lookup 1 32 t' = Some (make_entry 9 (type_mask Send) 1)"
    using mark_object_dead_complete [OF example_table_ok, of 7]
  proof (elim exE conjE, goal_cases)
    case (1 affected t')
    then show ?case
      using 1(5) [rule_format, of 1 16] 1(5) [rule_format, of 1 32] b e by (intro 1(1)) auto
  qed
  then show ?thesis by blast
qed

lemma masked_out: "(x AND NOT m) AND m = (0 :: u32)"
  by (simp add: and.assoc)

text \<open>The two range checks of \<open>mod_refs\<close>, read over the integers.\<close>

lemma reference_growth_fits:
  fixes held limit amount :: u32
  shows "\<not> (held > limit \<or> amount > limit - held) \<longleftrightarrow> unat held + unat amount \<le> unat limit"
proof (cases "held \<le> limit")
  case True
  then have sub: "unat (limit - held) = unat limit - unat held" "unat held \<le> unat limit"
    by (simp_all only: unat_sub word_le_nat_alt)
  have "(amount \<le> limit - held) = (unat amount \<le> unat limit - unat held)"
    by (simp only: word_le_nat_alt sub(1))
  with True sub(2) show ?thesis by (simp add: not_less le_diff_conv2 add.commute)
next
  case False
  then have "limit < held" by (simp add: not_le)
  moreover from this have "unat limit < unat held" by (simp add: word_less_nat_alt)
  ultimately show ?thesis by auto
qed

lemma reference_growth_value:
  fixes held :: u32
  assumes "0 < delta" "delta < 2 ^ 31"
  shows "unat (word_of_int delta :: u32) = nat delta"
    and "held + word_of_int delta = word_of_int (int (unat held) + delta)"
proof -
  have "uint (word_of_int delta :: u32) = delta mod 2 ^ 32"
    by (simp only: uint_word_of_int) simp
  also have "\<dots> = delta" using assms by (intro mod_pos_pos_trivial) auto
  finally show "unat (word_of_int delta :: u32) = nat delta" by (simp only: unat_eq_nat_uint)
  show "held + word_of_int delta = word_of_int (int (unat held) + delta)"
    by simp
qed

lemma reference_shrink_value:
  fixes held :: u32
  assumes "delta \<le> 0" "nat (- delta) \<le> unat held"
  shows "held - of_nat (nat (- delta)) = word_of_int (int (unat held) + delta)"
    and "word_of_int (int (unat held) + delta) = (0 :: u32) \<longleftrightarrow> int (unat held) + delta = 0"
proof -
  show "held - of_nat (nat (- delta)) = word_of_int (int (unat held) + delta)"
    using assms by (simp add: of_nat_nat)
  have "uint (word_of_int (int (unat held) + delta) :: u32) = (int (unat held) + delta) mod 2 ^ 32"
    by (simp only: uint_word_of_int) simp
  also have "\<dots> = int (unat held) + delta"
  proof (rule mod_pos_pos_trivial)
    show "0 \<le> int (unat held) + delta" using assms(2) by linarith
    have "int (unat held) < 2 ^ 32" using unat_u32 [of held] by (metis of_nat_less_numeral_power_cancel_iff)
    with assms(1) show "int (unat held) + delta < 2 ^ 32" by linarith
  qed
  finally have "uint (word_of_int (int (unat held) + delta) :: u32) = int (unat held) + delta" .
  then show "word_of_int (int (unat held) + delta) = (0 :: u32) \<longleftrightarrow> int (unat held) + delta = 0"
    by (metis unsigned_eq_0_iff)
qed

text \<open>
  \<open>mach_port_mod_refs\<close> arithmetic: a positive delta is accepted only for send rights and
  dead names and only up to the 16-bit user reference limit (one less for send rights), a
  negative one only down to zero, at which the right disappears; no count ever wraps.
\<close>

theorem modify_references_exact:
  assumes e: "lookup task n t = Some e" and r: "has_right (ne_type e) r"
    and range: "- (2 ^ 31) \<le> delta" "delta < 2 ^ 31"
  shows "let result = modify_references task n r delta t; old = int (unat (ne_refs e r));
      limit = (if r = Send then 0xFFFE else 0xFFFF) in
    (fst result \<longleftrightarrow> (if delta > 0 then (r = Send \<or> r = DeadName) \<and> old + delta \<le> limit else 0 \<le> old + delta)) \<and>
    (if fst result
     then user_references task n r (snd result) =
       (if old + delta = 0 then None else Some (word_of_int (old + delta)))
     else snd result = t)"
proof -
  obtain sp where sp: "map_of t task = Some sp" "map_of (sp_entries sp) n = Some e"
    using e by (auto simp: lookup_def split: option.splits)
  have has: "ne_type e AND type_mask r \<noteq> 0" using r by (simp add: type_test)
  define old where "old = int (unat (ne_refs e r))"
  define mx where "mx = (if r = Send then maximum_send_user_references else maximum_user_references)"
  have mx: "int (unat mx) = (if r = Send then 0xFFFE else 0xFFFF)"
    by (simp add: mx_def maximum_send_user_references_def maximum_user_references_def)
  show ?thesis
  proof (cases "delta > 0")
    case True
    have "unat (ne_refs e r) + unat (word_of_int delta :: u32) \<le> unat mx \<longleftrightarrow> old + delta \<le> int (unat mx)"
      unfolding reference_growth_value(1) [OF True range(2)] old_def using True by linarith
    then have "ne_refs e r > mx \<or> word_of_int delta > mx - ne_refs e r \<longleftrightarrow> \<not> old + delta \<le> int (unat mx)"
      using reference_growth_fits [where held = "ne_refs e r" and limit = mx and amount = "word_of_int delta"]
      by blast
    moreover have "old + delta \<noteq> 0" unfolding old_def using True by linarith
    ultimately show ?thesis
      using True sp has reference_growth_value(2) [OF True range(2), of "ne_refs e r"]
      unfolding Let_def mx [symmetric] old_def [symmetric]
      by (auto simp: modify_references_def Let_def user_references_def lookup_put mx_def [symmetric])
  next
    case False
    then have le: "delta \<le> 0" by simp
    show ?thesis
    proof (cases "nat (- delta) > unat (ne_refs e r)")
      case True
      then have "\<not> 0 \<le> old + delta" unfolding old_def by linarith
      with True False sp has show ?thesis
        unfolding Let_def old_def [symmetric] by (simp add: modify_references_def Let_def)
    next
      case fits: False
      then have nn: "0 \<le> old + delta" unfolding old_def by linarith
      note shrunk = reference_shrink_value [OF le, of "ne_refs e r", folded old_def]
      show ?thesis
        using False sp has fits nn shrunk masked_out [of "ne_type e" "type_mask r"]
        unfolding Let_def old_def [symmetric]
        by (auto simp: modify_references_def Let_def user_references_def lookup_put store_or_drop_def)
    qed
  qed
qed

theorem modify_references_exact_witness:
  "\<exists>t n e. lookup 1 n t = Some e \<and> has_right (ne_type e) Send \<and> fst (modify_references 1 n Send 5 t)"
proof -
  let ?t = "[(1, set_entry 0x103 (make_entry 7 (type_mask Send) 1) empty_space)]"
  have e: "lookup 1 0x103 ?t = Some (make_entry 7 (type_mask Send) 1)"
    by (simp add: lookup_def)
  have "has_right (ne_type (make_entry 7 (type_mask Send) 1)) Send" by (simp add: make_entry_def)
  from modify_references_exact [OF e this, of 5] this
  have "fst (modify_references 1 0x103 Send 5 ?t)"
    by (simp add: Let_def) (simp add: make_entry_def)
  with e \<open>has_right _ _\<close> show ?thesis by blast
qed

end
