(* ===== verification/Xnu_Run_Queue.thy ===== *)
theory Xnu_Run_Queue
  imports Ilsim_Prelude "HOL-Library.Product_Lexorder" "HOL-Library.Multiset"
begin

text \<open>
  The run queue of the XNU scheduler (\<open>RunQueue\<close> of \<open>include/ilemu/xnu_scheduler.hpp\<close> and the
  parts of \<open>src/mach/xnu_scheduler.cpp\<close> that touch one queue only): 128 FIFO lists, a side
  index of realtime threads by deadline, a 128-bit occupancy bitmap, the highest occupied
  priority and the number of queued threads. The invariant says that these five agree; the
  interface \<open>priority_queues\<close> is what the scheduler relies on.
\<close>

section \<open>Thread identifiers\<close>

datatype thread_id = ThreadId (ti_process: u32) (ti_thread: u32)

text \<open>The defaulted three-way comparison compares the process first and then the thread.\<close>

instantiation thread_id :: linorder
begin

definition less_eq_thread_id :: "thread_id \<Rightarrow> thread_id \<Rightarrow> bool" where
  "less_eq_thread_id s t \<longleftrightarrow>
     ti_process s < ti_process t \<or> ti_process s = ti_process t \<and> ti_thread s \<le> ti_thread t"

definition less_thread_id :: "thread_id \<Rightarrow> thread_id \<Rightarrow> bool" where
  "less_thread_id s t \<longleftrightarrow>
     ti_process s < ti_process t \<or> ti_process s = ti_process t \<and> ti_thread s < ti_thread t"

instance
  by standard (auto simp: less_eq_thread_id_def less_thread_id_def intro: thread_id.expand)

end

section \<open>The queue and its operations\<close>

definition run_queue_count :: nat where "run_queue_count = 128"
definition realtime_queue_priority :: int where "realtime_queue_priority = 97"

datatype queue_position = Front | Back

record run_queue =
  queues :: "nat \<Rightarrow> thread_id list"
  realtime_order :: "(nat \<times> thread_id) list"
  bitmap :: "u32 list"
  high_queue :: int
  rq_count :: nat

definition empty_run_queue :: run_queue where
  "empty_run_queue = \<lparr>queues = (\<lambda>_. []), realtime_order = [], bitmap = [0, 0, 0, 0],
     high_queue = -1, rq_count = 0\<rparr>"

text \<open>\<open>std::countl_zero\<close> on 32-bit words.\<close>

definition countl_zero :: "u32 \<Rightarrow> nat" where
  "countl_zero w = length (takeWhile (\<lambda>i. \<not> bit w (31 - i)) [0..<32])"

fun scan_bitmap :: "nat \<Rightarrow> u32 list \<Rightarrow> int" where
  "scan_bitmap 0 words = -1"
| "scan_bitmap (Suc word_index) words =
     (let word = words ! word_index in
      if word \<noteq> 0 then int (word_index * 32 + (31 - countl_zero word))
      else scan_bitmap word_index words)"

definition refresh_high_queue :: "run_queue \<Rightarrow> run_queue" where
  "refresh_high_queue q = q\<lparr>high_queue := scan_bitmap (length (bitmap q)) (bitmap q)\<rparr>"

definition bitmap_set :: "int \<Rightarrow> u32 list \<Rightarrow> u32 list" where
  "bitmap_set priority words =
     words[nat priority div 32 := words ! (nat priority div 32) OR push_bit (nat priority mod 32) 1]"

definition bitmap_clear :: "int \<Rightarrow> u32 list \<Rightarrow> u32 list" where
  "bitmap_clear priority words =
     words[nat priority div 32 := words ! (nat priority div 32) AND NOT (push_bit (nat priority mod 32) 1)]"

text \<open>The part of \<open>enqueue\<close> that changes the queue: a realtime thread goes to the end of its
  list and into the deadline index, any other to the asked end.\<close>

definition rq_insert ::
    "queue_position \<Rightarrow> (nat \<times> thread_id) option \<Rightarrow> thread_id \<Rightarrow> int \<Rightarrow> run_queue \<Rightarrow> run_queue" where
  "rq_insert position realtime_key t priority q =
     (let queue = queues q (nat priority);
          inserted = (if realtime_key \<noteq> None then queue @ [t]
                      else if position = Front then t # queue else queue @ [t])
      in q\<lparr>queues := (queues q)(nat priority := inserted),
           realtime_order := (case realtime_key of None \<Rightarrow> realtime_order q
                              | Some key \<Rightarrow> insort_insert key (realtime_order q)),
           bitmap := bitmap_set priority (bitmap q),
           high_queue := max (high_queue q) priority,
           rq_count := rq_count q + 1\<rparr>)"

text \<open>The part of \<open>remove_from_queue\<close> that changes the queue; the iterator of a thread points
  at its own node, so erasing it removes the thread from the list.\<close>

definition rq_erase :: "(nat \<times> thread_id) option \<Rightarrow> thread_id \<Rightarrow> int \<Rightarrow> run_queue \<Rightarrow> run_queue" where
  "rq_erase realtime_key t priority q =
     (let queue = remove1 t (queues q (nat priority));
          q1 = q\<lparr>queues := (queues q)(nat priority := queue),
                 realtime_order := (case realtime_key of None \<Rightarrow> realtime_order q
                                    | Some key \<Rightarrow> remove1 key (realtime_order q)),
                 rq_count := rq_count q - 1\<rparr>
      in if queue = [] then
           (let q2 = q1\<lparr>bitmap := bitmap_clear priority (bitmap q1)\<rparr>
            in if priority = high_queue q2 then refresh_high_queue q2 else q2)
         else q1)"

section \<open>What the queue means\<close>

definition rq_bag :: "run_queue \<Rightarrow> thread_id multiset" where
  "rq_bag q = (\<Sum>p<128. mset (queues q p))"

definition occupied :: "run_queue \<Rightarrow> nat set" where
  "occupied q = {p. p < 128 \<and> queues q p \<noteq> []}"

definition top_priority :: "run_queue \<Rightarrow> int" where
  "top_priority q = (if occupied q = {} then -1 else int (Max (occupied q)))"

definition bitmap_ok :: "run_queue \<Rightarrow> bool" where
  "bitmap_ok q \<longleftrightarrow> length (bitmap q) = 4 \<and>
     (\<forall>p<128. bit (bitmap q ! (p div 32)) (p mod 32) \<longleftrightarrow> queues q p \<noteq> [])"

definition rq_inv :: "run_queue \<Rightarrow> bool" where
  "rq_inv q \<longleftrightarrow> bitmap_ok q \<and> high_queue q = top_priority q \<and> rq_count q = size (rq_bag q) \<and>
     (\<forall>t. count (rq_bag q) t \<le> 1) \<and> sorted (realtime_order q) \<and> distinct (realtime_order q)"

section \<open>The bitmap scan\<close>

lemma takeWhile_upt_first:
  assumes "k < n" "P k" "\<And>i. i < k \<Longrightarrow> \<not> P i"
  shows "length (takeWhile (\<lambda>i. \<not> P i) [0..<n]) = k"
proof -
  have "[0..<n] = [0..<k] @ k # [Suc k..<n]"
    using assms(1) upt_add_eq_append [of 0 k "n - k"] upt_conv_Cons [of k n] by simp
  moreover have "takeWhile (\<lambda>i. \<not> P i) [0..<k] = [0..<k]" using assms(3) by simp
  ultimately show ?thesis using assms(2) by (simp add: takeWhile_append)
qed

text \<open>The bit that \<open>31 - countl_zero\<close> computes is the highest set bit.\<close>

lemma countl_zero_highest:
  assumes "w \<noteq> 0"
  shows "31 - countl_zero w = Max {i. bit w i}" and "finite {i. bit w i}" and "{i. bit w i} \<noteq> {}"
proof -
  have sub: "{i. bit w i} \<subseteq> {..<32}" by (auto dest: bit_imp_le_length)
  then show fin: "finite {i. bit w i}" by (rule finite_subset) simp
  show ne: "{i. bit w i} \<noteq> {}" using assms by (auto simp: bit_eq_iff)
  let ?m = "Max {i. bit w i}"
  have m: "bit w ?m" "?m < 32" using Max_in [OF fin ne] sub by auto
  have "length (takeWhile (\<lambda>i. \<not> bit w (31 - i)) [0..<32]) = 31 - ?m"
  proof (rule takeWhile_upt_first)
    show "31 - ?m < 32" "bit w (31 - (31 - ?m))" using m by simp_all
    fix i assume i: "i < 31 - ?m"
    show "\<not> bit w (31 - i)"
    proof
      assume "bit w (31 - i)"
      then have "31 - i \<le> ?m" using fin by (simp add: Max_ge)
      with i show False by linarith
    qed
  qed
  then show "31 - countl_zero w = Max {i. bit w i}" using m by (simp add: countl_zero_def)
qed

definition set_bits :: "nat \<Rightarrow> u32 list \<Rightarrow> nat set" where
  "set_bits n words = {p. p < 32 * n \<and> bit (words ! (p div 32)) (p mod 32)}"

lemma u32_bit_less: "bit (w :: u32) i \<Longrightarrow> i < 32"
  by (auto dest: bit_imp_le_length)

lemma set_bits_Suc:
  "set_bits (Suc n) words = set_bits n words \<union> (\<lambda>i. 32 * n + i) ` {i. bit (words ! n) i}"
proof (intro set_eqI iffI)
  fix p assume p: "p \<in> set_bits (Suc n) words"
  show "p \<in> set_bits n words \<union> (\<lambda>i. 32 * n + i) ` {i. bit (words ! n) i}"
  proof (cases "p < 32 * n")
    case False
    with p have "p div 32 = n" by (auto simp: set_bits_def intro!: div_nat_eqI)
    moreover have "p = 32 * (p div 32) + p mod 32" by simp
    ultimately show ?thesis using p by (auto simp: set_bits_def)
  qed (use p in \<open>simp add: set_bits_def\<close>)
next
  fix p assume "p \<in> set_bits n words \<union> (\<lambda>i. 32 * n + i) ` {i. bit (words ! n) i}"
  then consider "p \<in> set_bits n words" | i where "p = 32 * n + i" "bit (words ! n) i" "i < 32"
    using u32_bit_less by auto
  then show "p \<in> set_bits (Suc n) words"
    by cases (auto simp: set_bits_def)
qed

lemma scan_bitmap_Max:
  "scan_bitmap n words = (if set_bits n words = {} then -1 else int (Max (set_bits n words)))"
proof (induction n)
  case (Suc n)
  let ?B = "{i. bit (words ! n) i}"
  have fin: "finite (set_bits n words)" by (simp add: set_bits_def)
  show ?case
  proof (cases "words ! n = 0")
    case True
    then show ?thesis using Suc by (simp add: set_bits_Suc)
  next
    case False
    note top = countl_zero_highest [OF False]
    have "Max (set_bits (Suc n) words) = 32 * n + Max ?B"
    proof (rule Max_eqI)
      show "finite (set_bits (Suc n) words)" by (simp add: set_bits_def)
      show "32 * n + Max ?B \<in> set_bits (Suc n) words"
        using Max_in [OF top(2,3)] by (simp add: set_bits_Suc)
      fix p assume "p \<in> set_bits (Suc n) words"
      then show "p \<le> 32 * n + Max ?B"
        using top(2) by (auto simp: set_bits_Suc) (simp add: set_bits_def)
    qed
    moreover have "set_bits (Suc n) words \<noteq> {}" using top(3) by (auto simp: set_bits_Suc)
    ultimately show ?thesis using False top(1) by (simp add: Let_def)
  qed
qed (simp add: set_bits_def)

lemma bitmap_ok_occupied: "bitmap_ok q \<Longrightarrow> set_bits (length (bitmap q)) (bitmap q) = occupied q"
  by (auto simp: bitmap_ok_def set_bits_def occupied_def)

lemma refresh_high_queue_top: "bitmap_ok q \<Longrightarrow> high_queue (refresh_high_queue q) = top_priority q"
  by (simp add: refresh_high_queue_def scan_bitmap_Max bitmap_ok_occupied top_priority_def)

lemma bit_at_update:
  assumes "p < 128" "k < 128" "length words = 4"
  shows "bit (words[k div 32 := w] ! (p div 32)) (p mod 32) \<longleftrightarrow>
    (if p div 32 = k div 32 then bit w (p mod 32) else bit (words ! (p div 32)) (p mod 32))"
  using assms by (simp add: nth_list_update div_less_iff_less_mult)

lemma same_bit: "(p div 32 = k div 32 \<and> p mod 32 = k mod 32) \<longleftrightarrow> p = (k :: nat)"
  by (metis div_mult_mod_eq)

lemma one_bit: "i < 32 \<Longrightarrow> j < 32 \<Longrightarrow> bit (2 ^ j :: u32) i \<longleftrightarrow> i = j"
  by (auto simp: bit_exp_iff possible_bit_def)

lemma bitmap_set_bit:
  assumes "p < 128" "k < 128" "length words = 4"
  shows "bit (bitmap_set (int k) words ! (p div 32)) (p mod 32) \<longleftrightarrow>
    p = k \<or> bit (words ! (p div 32)) (p mod 32)"
proof (cases "p div 32 = k div 32")
  case True
  then have "bit (words ! (k div 32) OR push_bit (k mod 32) 1) (p mod 32) \<longleftrightarrow>
      bit (words ! (p div 32)) (p mod 32) \<or> p = k"
    using same_bit [of p k] by (simp add: bit_or_iff one_bit)
  then show ?thesis using True unfolding bitmap_set_def nat_int bit_at_update [OF assms] by auto
next
  case False
  then show ?thesis unfolding bitmap_set_def nat_int bit_at_update [OF assms] by auto
qed

lemma bitmap_clear_bit:
  assumes "p < 128" "k < 128" "length words = 4"
  shows "bit (bitmap_clear (int k) words ! (p div 32)) (p mod 32) \<longleftrightarrow>
    p \<noteq> k \<and> bit (words ! (p div 32)) (p mod 32)"
proof (cases "p div 32 = k div 32")
  case True
  then have "bit (words ! (k div 32) AND NOT (push_bit (k mod 32) 1)) (p mod 32) \<longleftrightarrow>
      bit (words ! (p div 32)) (p mod 32) \<and> p \<noteq> k"
    using same_bit [of p k] u32_bit_less [of "words ! (k div 32)" "p mod 32"]
    by (auto simp: bit_and_iff bit_not_iff one_bit)
  then show ?thesis using True unfolding bitmap_clear_def nat_int bit_at_update [OF assms] by auto
next
  case False
  then show ?thesis unfolding bitmap_clear_def nat_int bit_at_update [OF assms] by auto
qed

section \<open>The bag of queued threads\<close>

lemma sum_mset_upd:
  fixes k :: nat
  assumes "k < 128"
  shows "(\<Sum>p<128. mset ((f(k := xs)) p)) + mset (f k) = (\<Sum>p<128. mset (f p)) + mset xs"
proof -
  let ?g = "\<lambda>p. mset ((f(k := xs)) p)"
  have "(\<Sum>p<128. ?g p) = ?g k + (\<Sum>p\<in>{..<128} - {k}. ?g p)"
    using assms by (intro sum.remove) auto
  also have "(\<Sum>p\<in>{..<128} - {k}. ?g p) = (\<Sum>p\<in>{..<128} - {k}. mset (f p))"
    by (intro sum.cong) auto
  finally have "(\<Sum>p<128. ?g p) = mset xs + (\<Sum>p\<in>{..<128} - {k}. mset (f p))" by simp
  moreover have "(\<Sum>p<128. mset (f p)) = mset (f k) + (\<Sum>p\<in>{..<128} - {k}. mset (f p))"
    using assms by (intro sum.remove) auto
  ultimately show ?thesis by (simp add: ac_simps)
qed

lemma in_rq_bag: "t \<in># rq_bag q \<longleftrightarrow> (\<exists>p<128. t \<in> set (queues q p))"
proof -
  have "set_mset (\<Sum>p\<in>A. mset (queues q p)) = (\<Union>p\<in>A. set (queues q p))" if "finite A" for A
    using that by induction auto
  from this [of "{..<128}"] show ?thesis unfolding rq_bag_def by auto
qed

lemma queue_sub_bag: "k < 128 \<Longrightarrow> count (mset (queues q k)) t \<le> count (rq_bag q) t"
  unfolding rq_bag_def
  by (subst sum.remove [of "{..<128}" k]) auto

lemma queue_distinct: "rq_inv q \<Longrightarrow> k < 128 \<Longrightarrow> distinct (queues q k)"
  using queue_sub_bag [of k q]
  by (auto simp: rq_inv_def distinct_count_atmost_1 le_Suc_eq intro: le_antisym)
     (metis One_nat_def count_eq_zero_iff le_Suc_eq le_zero_eq order.trans set_mset_mset)

lemma queue_unique:
  assumes inv: "rq_inv q" and p: "p < 128" "t \<in> set (queues q p)" and k: "k < 128" "t \<in> set (queues q k)"
  shows "p = k"
proof (rule ccontr)
  assume ne: "p \<noteq> k"
  have "rq_bag q = mset (queues q p) + (\<Sum>i\<in>{..<128} - {p}. mset (queues q i))"
    unfolding rq_bag_def using p by (intro sum.remove) auto
  also have "(\<Sum>i\<in>{..<128} - {p}. mset (queues q i)) =
      mset (queues q k) + (\<Sum>i\<in>{..<128} - {p} - {k}. mset (queues q i))"
    using k ne by (intro sum.remove) auto
  finally have "count (rq_bag q) t \<ge> count (mset (queues q p)) t + count (mset (queues q k)) t" by simp
  moreover have "count (mset (queues q p)) t \<ge> 1" "count (mset (queues q k)) t \<ge> 1"
    using p(2) k(2) by (simp_all add: Suc_le_eq count_greater_zero_iff)
  moreover have "count (rq_bag q) t \<le> 1" using inv by (simp add: rq_inv_def)
  ultimately show False by linarith
qed

lemma rq_insert_sel:
  "queues (rq_insert position key t (int k) q) k =
     (if key = None \<and> position = Front then t # queues q k else queues q k @ [t])"
  "p \<noteq> k \<Longrightarrow> queues (rq_insert position key t (int k) q) p = queues q p"
  "realtime_order (rq_insert position key t (int k) q) =
     (case key of None \<Rightarrow> realtime_order q | Some x \<Rightarrow> insort_insert x (realtime_order q))"
  by (auto simp: rq_insert_def Let_def)

lemma rq_insert_bag:
  assumes "k < 128"
  shows "rq_bag (rq_insert position key t (int k) q) = add_mset t (rq_bag q)"
proof -
  let ?xs = "queues (rq_insert position key t (int k) q) k"
  have "queues (rq_insert position key t (int k) q) = (queues q)(k := ?xs)"
    by (auto simp: fun_eq_iff rq_insert_sel(2))
  then have "rq_bag (rq_insert position key t (int k) q) + mset (queues q k) = rq_bag q + mset ?xs"
    unfolding rq_bag_def using sum_mset_upd [OF assms, of "queues q" ?xs] by simp
  also have "mset ?xs = add_mset t (mset (queues q k))" by (simp add: rq_insert_sel(1))
  finally show ?thesis by simp
qed

lemma rq_erase_sel:
  "queues (rq_erase key t (int k) q) = (queues q)(k := remove1 t (queues q k))"
  "realtime_order (rq_erase key t (int k) q) =
     (case key of None \<Rightarrow> realtime_order q | Some x \<Rightarrow> remove1 x (realtime_order q))"
  "rq_count (rq_erase key t (int k) q) = rq_count q - 1"
  by (auto simp: rq_erase_def Let_def refresh_high_queue_def)

lemma cancel_part: "b + m = a + r \<Longrightarrow> m = add_mset t r \<Longrightarrow> a = add_mset t b"
  by simp

lemma rq_erase_bag:
  assumes "k < 128" "t \<in> set (queues q k)"
  shows "rq_bag q = add_mset t (rq_bag (rq_erase key t (int k) q))"
proof -
  have "rq_bag (rq_erase key t (int k) q) + mset (queues q k) = rq_bag q + mset (remove1 t (queues q k))"
    unfolding rq_bag_def rq_erase_sel using sum_mset_upd [OF assms(1), of "queues q"] by simp
  moreover have "mset (queues q k) = add_mset t (mset (remove1 t (queues q k)))"
    using assms(2) by simp
  ultimately show ?thesis by (rule cancel_part)
qed

lemma occupied_finite [simp]: "finite (occupied q)"
  by (simp add: occupied_def)

lemma rq_insert_inv:
  assumes inv: "rq_inv q" and k: "k < 128" and fresh: "t \<notin># rq_bag q"
  shows "rq_inv (rq_insert position key t (int k) q)"
proof -
  let ?q = "rq_insert position key t (int k) q"
  have ne: "queues ?q p \<noteq> [] \<longleftrightarrow> p = k \<or> queues q p \<noteq> []" for p
    by (cases "p = k") (auto simp: rq_insert_sel)
  have bm: "bitmap ?q = bitmap_set (int k) (bitmap q)" by (simp add: rq_insert_def Let_def)
  have len: "length (bitmap q) = 4" using inv by (simp add: rq_inv_def bitmap_ok_def)
  have "bitmap_ok ?q"
    using inv unfolding bitmap_ok_def bm ne
    by (simp add: rq_inv_def bitmap_ok_def bitmap_set_bit [OF _ k len]) (simp add: bitmap_set_def)
  moreover have occ: "occupied ?q = insert k (occupied q)"
    using k ne by (auto simp: occupied_def)
  have "high_queue ?q = max (top_priority q) (int k)"
    using inv by (simp add: rq_insert_def Let_def rq_inv_def)
  then have "high_queue ?q = top_priority ?q"
    by (auto simp: top_priority_def occ max.commute)
  moreover have "rq_count ?q = size (rq_bag ?q)"
    using inv by (simp add: rq_insert_bag [OF k]) (simp add: rq_insert_def Let_def rq_inv_def)
  moreover have "\<forall>u. count (rq_bag ?q) u \<le> 1"
    using inv fresh by (simp add: rq_insert_bag [OF k] rq_inv_def not_in_iff)
  ultimately show ?thesis
    using inv unfolding rq_inv_def rq_insert_sel(3)
    by (auto split: option.splits intro: sorted_insort_insert distinct_insort_insert)
qed

lemma rq_erase_inv:
  assumes inv: "rq_inv q" and k: "k < 128" and t: "t \<in> set (queues q k)"
  shows "rq_inv (rq_erase key t (int k) q)"
proof -
  let ?q = "rq_erase key t (int k) q"
  let ?e = "remove1 t (queues q k) = []"
  have len: "length (bitmap q) = 4" using inv by (simp add: rq_inv_def bitmap_ok_def)
  have bm: "bitmap ?q = (if ?e then bitmap_clear (int k) (bitmap q) else bitmap q)"
    by (auto simp: rq_erase_def Let_def refresh_high_queue_def)
  have ne: "queues ?q p \<noteq> [] \<longleftrightarrow> queues q p \<noteq> [] \<and> \<not> (p = k \<and> ?e)" for p
    using t by (auto simp: rq_erase_sel)
  have ok: "bitmap_ok ?q"
  proof (cases ?e)
    case True
    then show ?thesis
      using inv unfolding bitmap_ok_def bm ne
      by (simp add: rq_inv_def bitmap_ok_def bitmap_clear_bit [OF _ k len] conj_commute) (simp add: bitmap_clear_def)
  next
    case False
    then show ?thesis using inv unfolding bitmap_ok_def bm ne by (simp add: rq_inv_def bitmap_ok_def)
  qed
  have kocc: "k \<in> occupied q" using k t by (auto simp: occupied_def)
  have occ: "occupied ?q = (if ?e then occupied q - {k} else occupied q)"
    using ne by (auto simp: occupied_def)
  have high: "high_queue ?q = (if ?e \<and> int k = high_queue q then top_priority ?q else high_queue q)"
  proof (cases "?e \<and> int k = high_queue q")
    case True
    then have e: "?e" "high_queue q = int k" by simp_all
    then have "high_queue ?q = scan_bitmap (length (bitmap ?q)) (bitmap ?q)"
      by (simp add: rq_erase_def Let_def refresh_high_queue_def)
    then show ?thesis
      using True ok by (simp add: scan_bitmap_Max bitmap_ok_occupied top_priority_def)
  qed (auto simp: rq_erase_def Let_def)
  have "high_queue ?q = top_priority ?q"
  proof (cases "?e \<and> int k = high_queue q")
    case False
    have top: "high_queue q = int (Max (occupied q))"
      using inv kocc by (auto simp: rq_inv_def top_priority_def)
    have "Max (occupied q) \<in> occupied ?q"
    proof -
      have "Max (occupied q) \<in> occupied q" using kocc by (intro Max_in) auto
      then show ?thesis using False top by (auto simp: occ)
    qed
    then have "Max (occupied ?q) = Max (occupied q)"
      by (intro Max_eqI) (auto simp: occ split: if_splits)
    with \<open>Max (occupied q) \<in> occupied ?q\<close> show ?thesis
      using high False top by (auto simp: top_priority_def)
  qed (use high in simp)
  moreover have bag: "rq_bag q = add_mset t (rq_bag ?q)" using k t by (rule rq_erase_bag)
  moreover have "rq_count ?q = size (rq_bag ?q)"
    using inv bag by (simp add: rq_erase_sel rq_inv_def)
  moreover have "count (rq_bag ?q) u \<le> 1" for u
  proof -
    have "count (rq_bag ?q) u \<le> count (rq_bag q) u" unfolding bag by simp
    also have "\<dots> \<le> 1" using inv by (simp add: rq_inv_def)
    finally show ?thesis .
  qed
  ultimately show ?thesis
    using inv ok unfolding rq_inv_def rq_erase_sel(2)
    by (auto split: option.splits intro: sorted_remove1)
qed

section \<open>The interface\<close>

text \<open>
  What a client may rely on: the recorded top priority names an occupied level when anything
  is queued, and no level above it is occupied. Levels above 127 do not exist.
\<close>

locale priority_queues =
  fixes inv :: "'q \<Rightarrow> bool"
    and level :: "'q \<Rightarrow> nat \<Rightarrow> 't list"
    and top :: "'q \<Rightarrow> int"
    and queued_count :: "'q \<Rightarrow> nat"
  assumes top_law: "inv q \<Longrightarrow> top q =
      (if {p. p < 128 \<and> level q p \<noteq> []} = {} then -1 else int (Max {p. p < 128 \<and> level q p \<noteq> []}))"
    and count_law: "inv q \<Longrightarrow> queued_count q = 0 \<longleftrightarrow> (\<forall>p<128. level q p = [])"
begin

lemma top_occupied:
  assumes "inv q" and "queued_count q \<noteq> 0"
  shows "0 \<le> top q" and "top q < 128" and "level q (nat (top q)) \<noteq> []"
proof -
  let ?S = "{p. p < 128 \<and> level q p \<noteq> []}"
  have ne: "?S \<noteq> {}" using assms count_law by auto
  then have "Max ?S \<in> ?S" by (intro Max_in) auto
  moreover have "top q = int (Max ?S)" using top_law [OF assms(1)] ne by simp
  ultimately show "0 \<le> top q" and "top q < 128" and "level q (nat (top q)) \<noteq> []" by auto
qed

lemma top_upper:
  assumes "inv q" and "p < 128" and "t \<in> set (level q p)"
  shows "int p \<le> top q" and "queued_count q \<noteq> 0"
proof -
  let ?S = "{p. p < 128 \<and> level q p \<noteq> []}"
  have p: "p \<in> ?S" using assms by auto
  then have "p \<le> Max ?S" by (intro Max_ge) auto
  then show "int p \<le> top q" using top_law [OF assms(1)] p by auto
  show "queued_count q \<noteq> 0" using count_law [OF assms(1)] p by auto
qed

lemma empty_top: "inv q \<Longrightarrow> queued_count q = 0 \<Longrightarrow> top q = -1"
  using count_law top_law by auto

end

interpretation rq: priority_queues rq_inv queues high_queue rq_count
proof
  fix q assume inv: "rq_inv q"
  then show "high_queue q = (if {p. p < 128 \<and> queues q p \<noteq> []} = {} then -1
      else int (Max {p. p < 128 \<and> queues q p \<noteq> []}))"
    by (simp add: rq_inv_def top_priority_def occupied_def)
  have "rq_count q = 0 \<longleftrightarrow> rq_bag q = {#}" using inv by (simp add: rq_inv_def)
  also have "\<dots> \<longleftrightarrow> (\<forall>t. t \<notin># rq_bag q)" by (auto intro: multiset_eqI simp: not_in_iff)
  also have "\<dots> \<longleftrightarrow> (\<forall>p<128. queues q p = [])"
    by (auto simp: in_rq_bag) (metis list.set_intros(1) neq_Nil_conv)
  finally show "rq_count q = 0 \<longleftrightarrow> (\<forall>p<128. queues q p = [])" .
qed

lemma empty_run_queue_inv: "rq_inv empty_run_queue"
proof -
  have "bitmap_ok empty_run_queue"
    by (auto simp: bitmap_ok_def empty_run_queue_def nth_Cons split: nat.splits)
  moreover have "rq_bag empty_run_queue = {#}" by (simp add: rq_bag_def empty_run_queue_def)
  moreover have "top_priority empty_run_queue = -1"
    by (simp add: top_priority_def occupied_def empty_run_queue_def)
  ultimately show ?thesis by (simp add: rq_inv_def) (simp add: empty_run_queue_def)
qed

end
