(* ===== verification/Xnu_Scheduler.thy ===== *)
theory Xnu_Scheduler
  imports Xnu_Run_Queue
begin

text \<open>
  The deterministic implementation of the XNU 792 scheduler (\<open>src/mach/xnu_scheduler.cpp\<close>):
  registration and removal of threads, blocking, waking and suspension, priority policies
  (timeshare with usage decay, fixed, realtime by deadline, depression, failsafe demotion),
  selection of the next thread for a processor and the accounting of a completed slice.

  The state is one record. A C++ reference to a \<open>ThreadRecord\<close> is the identifier of its
  thread, and every \<open>std::logic_error\<close>, \<open>std::invalid_argument\<close> and \<open>at()\<close> failure is a value
  of \<open>sched_error\<close>. Times, ticks and counters are naturals; \<open>saturating_add\<close> and the two
  places that may wrap are written out. Iteration over an \<open>unordered_map\<close> happens in an order
  the language leaves open: the operations that iterate take that order as an argument, and
  the theorems hold for every order.
\<close>

section \<open>Constants\<close>

definition minimum_priority :: int where "minimum_priority = 0"
definition maximum_priority :: int where "maximum_priority = 127"
definition maximum_kernel_priority :: int where "maximum_kernel_priority = 95"
definition preempt_priority :: int where "preempt_priority = maximum_kernel_priority - 2"
definition default_base_priority :: int where "default_base_priority = 31"
definition default_guest_ticks_per_second :: nat where "default_guest_ticks_per_second = 400000000"
definition default_preemption_rate :: nat where "default_preemption_rate = 100"
definition scheduling_usage_decay_ticks :: nat where "scheduling_usage_decay_ticks = 32"
definition maximum_unsafe_quanta :: nat where "maximum_unsafe_quanta = 800"
definition scheduler_tick_shift :: nat where "scheduler_tick_shift = 3"
definition failsafe_release_scheduler_ticks :: nat where
  "failsafe_release_scheduler_ticks =
     (2 * maximum_unsafe_quanta div default_preemption_rate) * 2 ^ scheduler_tick_shift"
definition minimum_realtime_computation_ticks :: nat where
  "minimum_realtime_computation_ticks = default_guest_ticks_per_second * 50 div 1000000"
definition maximum_realtime_computation_ticks :: nat where
  "maximum_realtime_computation_ticks = default_guest_ticks_per_second * 50000 div 1000000"
definition standard_quantum_ticks :: nat where
  "standard_quantum_ticks = default_guest_ticks_per_second div default_preemption_rate"

section \<open>State\<close>

datatype thread_state = Runnable | Running | Waiting
datatype slice_completion = Continue | Yield | Block | Terminate
datatype time_accounting = Advance | Deferred
datatype preemption = NoPreemption | Preempt | Urgent

datatype sched_error =
    InvalidArgument
  | EmptyRunQueue
  | RealtimeIndexInconsistent
  | BitmapInconsistent
  | MembershipInconsistent
  | NoSuchElement

record scheduled_slice =
  slice_thread :: thread_id
  slice_processor :: nat
  tick_budget :: nat

record scheduling_info =
  state :: thread_state
  base_priority :: int
  scheduled_priority :: int
  remaining_quantum :: nat
  scheduling_usage :: nat
  cpu_usage :: nat
  scheduler_stamp :: nat
  bound_processor :: "nat option"
  last_processor :: "nat option"
  realtime_period :: nat
  realtime_computation :: nat
  realtime_constraint :: nat
  realtime_deadline :: nat
  computation_metered :: nat
  failsafe_release_tick :: nat
  remaining_timeslices :: nat
  timeslice_processor :: "nat option"
  timeshare :: bool
  realtime :: bool
  realtime_preemptible :: bool
  failsafe :: bool
  depressed :: bool

text \<open>\<open>queue_position\<close> holds an iterator to the thread's own list node; only its presence
  carries information.\<close>

record thread_record = scheduling_info +
  queued :: bool
  queued_priority :: int
  queue_position :: "unit option"
  realtime_queue_key :: "(nat \<times> thread_id) option"
  priority_usage_shift :: "nat option"
  queued_processor :: "nat option"
  depression_deadline :: "nat option"
  suspend_count :: nat
  resume_runnable :: bool
  wake_pending :: bool
  failsafe_saved_base_priority :: int
  failsafe_saved_timeshare :: bool
  failsafe_saved_realtime :: bool

definition default_record :: thread_record where
  "default_record = \<lparr>state = Waiting, base_priority = default_base_priority,
     scheduled_priority = default_base_priority, remaining_quantum = standard_quantum_ticks,
     scheduling_usage = 0, cpu_usage = 0, scheduler_stamp = 0, bound_processor = None,
     last_processor = None, realtime_period = 0, realtime_computation = 0, realtime_constraint = 0,
     realtime_deadline = 0, computation_metered = 0, failsafe_release_tick = 0,
     remaining_timeslices = 0, timeslice_processor = None, timeshare = True, realtime = False,
     realtime_preemptible = False, failsafe = False, depressed = False,
     queued = False, queued_priority = 0, queue_position = None, realtime_queue_key = None,
     priority_usage_shift = None, queued_processor = None, depression_deadline = None,
     suspend_count = 0, resume_runnable = False, wake_pending = False,
     failsafe_saved_base_priority = 0, failsafe_saved_timeshare = False,
     failsafe_saved_realtime = False\<rparr>"

record scheduler =
  processor_set_run_queue :: run_queue
  processor_run_queues :: "run_queue list"
  threads :: "thread_id \<rightharpoonup> thread_record"
  process_threads :: "u32 \<rightharpoonup> thread_id set"
  depression_order :: "(nat \<times> thread_id) list"
  failsafe_order :: "(nat \<times> thread_id) list"
  runnable_count :: nat
  waiting_count :: nat
  active_timeshare_count :: nat
  quantum_ticks :: nat
  scheduler_tick_ticks :: nat
  scheduler_usage_shift :: nat
  elapsed_since_scheduler_tick :: nat
  elapsed_ticks :: nat
  scheduler_tick :: nat

text \<open>The thread record an iterator or reference denotes, and an assignment through it.\<close>

definition record_of :: "scheduler \<Rightarrow> thread_id \<Rightarrow> thread_record" where
  "record_of s t = (case threads s t of Some r \<Rightarrow> r | None \<Rightarrow> default_record)"

definition modify :: "thread_id \<Rightarrow> (thread_record \<Rightarrow> thread_record) \<Rightarrow> scheduler \<Rightarrow> scheduler" where
  "modify t f s = s\<lparr>threads := (threads s)(t := map_option f (threads s t))\<rparr>"

text \<open>A run queue is named by its processor, or by \<open>None\<close> for the processor set's.\<close>

definition run_queue_at :: "scheduler \<Rightarrow> nat option \<Rightarrow> run_queue option" where
  "run_queue_at s loc =
     (case loc of None \<Rightarrow> Some (processor_set_run_queue s)
      | Some i \<Rightarrow> if i < length (processor_run_queues s) then Some (processor_run_queues s ! i) else None)"

definition set_run_queue :: "nat option \<Rightarrow> run_queue \<Rightarrow> scheduler \<Rightarrow> scheduler" where
  "set_run_queue loc q s =
     (case loc of None \<Rightarrow> s\<lparr>processor_set_run_queue := q\<rparr>
      | Some i \<Rightarrow> s\<lparr>processor_run_queues := (processor_run_queues s)[i := q]\<rparr>)"

section \<open>Arithmetic helpers\<close>

definition decay_once :: "nat \<Rightarrow> nat" where
  "decay_once usage = usage div 2 + usage div 8"

definition clamp_priority :: "int \<Rightarrow> int" where
  "clamp_priority priority = max minimum_priority (min maximum_priority priority)"

function usage_shift_loop :: "nat \<Rightarrow> nat \<Rightarrow> nat" where
  "usage_shift_loop scaled_interval shift =
     (if scaled_interval > nat default_base_priority then usage_shift_loop (scaled_interval div 2) (shift + 1)
      else shift)"
  by pat_completeness auto
termination by (relation "measure fst") (simp_all add: default_base_priority_def)

declare usage_shift_loop.simps [simp del]

definition compute_usage_shift :: "nat \<Rightarrow> nat" where
  "compute_usage_shift tick_ticks =
     usage_shift_loop (((tick_ticks div 3) * 5 + ((tick_ticks mod 3) * 5) div 3) mod 2 ^ 64) 0"

fun load_shift_loop :: "nat \<Rightarrow> nat \<Rightarrow> nat" where
  "load_shift_loop load load_shift =
     (if load > 1 then load_shift_loop (load div 2) (load_shift + 1) else load_shift)"

declare load_shift_loop.simps [simp del]

definition processor_set_priority_shift :: "scheduler \<Rightarrow> nat option" where
  "processor_set_priority_shift s =
     (let shared_threads = active_timeshare_count s;
          processors = length (processor_run_queues s)
      in if shared_threads \<le> processors then None
         else let load = (if processors > 1 then shared_threads div processors else shared_threads);
                  load_shift = load_shift_loop (min load (run_queue_count - 1)) 0
              in Some (if load_shift < scheduler_usage_shift s
                       then scheduler_usage_shift s - load_shift else 0))"

definition quantum_for :: "scheduler \<Rightarrow> thread_record \<Rightarrow> nat" where
  "quantum_for s r = (if realtime r then realtime_computation r else quantum_ticks s)"

definition timeshare_quanta :: "scheduler \<Rightarrow> nat" where
  "timeshare_quanta s =
     (let processor_count = length (processor_run_queues s);
          queued_count = rq_count (processor_set_run_queue s)
      in if queued_count \<ge> processor_count then 1
         else if queued_count \<le> 1 then processor_count mod 2 ^ 32
         else ((processor_count + queued_count div 2) div queued_count) mod 2 ^ 32)"

section \<open>Queue membership\<close>

definition enqueue :: "thread_id \<Rightarrow> queue_position \<Rightarrow> scheduler \<Rightarrow> sched_error + scheduler" where
  "enqueue t position s =
     (case threads s t of
        None \<Rightarrow> Inl NoSuchElement
      | Some r \<Rightarrow>
          if queued r then Inr s
          else case run_queue_at s (bound_processor r) of
            None \<Rightarrow> Inl NoSuchElement
          | Some q \<Rightarrow>
              let priority = scheduled_priority r;
                  realtime_key = (if realtime r \<and> priority \<ge> realtime_queue_priority
                                  then Some (realtime_deadline r, t) else None);
                  s1 = set_run_queue (bound_processor r) (rq_insert position realtime_key t priority q) s
              in Inr (modify t (\<lambda>r. r\<lparr>queue_position := Some (),
                        realtime_queue_key := (if realtime_key \<noteq> None then realtime_key else realtime_queue_key r),
                        queued := True, queued_priority := priority,
                        queued_processor := bound_processor r\<rparr>)
                      (s1\<lparr>runnable_count := runnable_count s + 1\<rparr>)))"

definition remove_from_queue :: "thread_id \<Rightarrow> scheduler \<Rightarrow> sched_error + scheduler" where
  "remove_from_queue t s =
     (let r = record_of s t in
      if \<not> queued r then Inr s
      else case run_queue_at s (queued_processor r) of
        None \<Rightarrow> Inl NoSuchElement
      | Some q \<Rightarrow>
          if queue_position r = None then Inl MembershipInconsistent
          else let s1 = set_run_queue (queued_processor r)
                     (rq_erase (realtime_queue_key r) t (queued_priority r) q) s
            in Inr (modify t (\<lambda>r. r\<lparr>queue_position := None, realtime_queue_key := None,
                      queued := False, queued_processor := None\<rparr>)
                    (s1\<lparr>runnable_count := runnable_count s - 1\<rparr>)))"

definition selected_run_queue :: "nat \<Rightarrow> scheduler \<Rightarrow> nat option option" where
  "selected_run_queue processor s =
     (if processor \<ge> length (processor_run_queues s) then None
      else let local_run_queue = processor_run_queues s ! processor in
        if rq_count local_run_queue \<noteq> 0 \<and>
           high_queue local_run_queue \<ge> high_queue (processor_set_run_queue s) then Some (Some processor)
        else if rq_count (processor_set_run_queue s) \<noteq> 0 then Some None
        else None)"

definition peek_highest :: "run_queue \<Rightarrow> scheduler \<Rightarrow> sched_error + thread_id" where
  "peek_highest q s =
     (if rq_count q = 0 \<or> high_queue q < minimum_priority then Inl EmptyRunQueue
      else let priority = high_queue q in
        if priority \<ge> realtime_queue_priority then
          (case realtime_order q of
             [] \<Rightarrow> Inl RealtimeIndexInconsistent
           | key # _ \<Rightarrow>
               (case threads s (snd key) of
                  None \<Rightarrow> Inl RealtimeIndexInconsistent
                | Some r \<Rightarrow>
                    if \<not> queued r \<or> queued_priority r \<noteq> priority then Inl RealtimeIndexInconsistent
                    else Inr (snd key)))
        else (case queues q (nat priority) of
                [] \<Rightarrow> Inl BitmapInconsistent
              | t # _ \<Rightarrow> Inr t))"

definition peek_next_for_processor :: "nat \<Rightarrow> scheduler \<Rightarrow> sched_error + thread_id option" where
  "peek_next_for_processor processor s =
     (case selected_run_queue processor s of
        None \<Rightarrow> Inr None
      | Some loc \<Rightarrow>
          (case run_queue_at s loc of
             None \<Rightarrow> Inr None
           | Some q \<Rightarrow> and_then (peek_highest q s) (\<lambda>t. Inr (Some t))))"

text \<open>The tail of \<open>pop_highest\<close>, after the thread has left its list.\<close>

definition rq_popped :: "int \<Rightarrow> run_queue \<Rightarrow> run_queue" where
  "rq_popped priority q =
     (let q1 = q\<lparr>rq_count := rq_count q - 1\<rparr> in
      if queues q1 (nat priority) = []
      then refresh_high_queue (q1\<lparr>bitmap := bitmap_clear priority (bitmap q1)\<rparr>)
      else q1)"

definition pop_highest :: "nat option \<Rightarrow> run_queue \<Rightarrow> scheduler \<Rightarrow> sched_error + thread_id \<times> scheduler" where
  "pop_highest loc q s =
     (if rq_count q = 0 \<or> high_queue q < minimum_priority then Inl EmptyRunQueue
      else let priority = high_queue q; queue = queues q (nat priority) in
        and_then (peek_highest q s) (\<lambda>t.
          case threads s t of
            None \<Rightarrow> Inl NoSuchElement
          | Some r \<Rightarrow>
              if priority \<ge> realtime_queue_priority \<and> realtime_order q \<noteq> [] then
                if queue_position r = None then Inl RealtimeIndexInconsistent
                else let q1 = q\<lparr>queues := (queues q)(nat priority := remove1 t queue),
                                realtime_order := tl (realtime_order q)\<rparr>
                  in Inr (t, modify t (\<lambda>r. r\<lparr>queue_position := None, realtime_queue_key := None\<rparr>)
                               (set_run_queue loc (rq_popped priority q1) s))
              else let q1 = q\<lparr>queues := (queues q)(nat priority := tl queue)\<rparr>
                in Inr (t, modify t (\<lambda>r. r\<lparr>queue_position := None\<rparr>)
                             (set_run_queue loc (rq_popped priority q1) s))))"

section \<open>Priorities, depression and failsafe\<close>

definition index_depression :: "thread_id \<Rightarrow> scheduler \<Rightarrow> scheduler" where
  "index_depression t s =
     (case depression_deadline (record_of s t) of
        None \<Rightarrow> s
      | Some deadline \<Rightarrow> s\<lparr>depression_order := insort_insert (deadline, t) (depression_order s)\<rparr>)"

definition unindex_depression :: "thread_id \<Rightarrow> scheduler \<Rightarrow> scheduler" where
  "unindex_depression t s =
     (case depression_deadline (record_of s t) of
        None \<Rightarrow> s
      | Some deadline \<Rightarrow> s\<lparr>depression_order := remove1 (deadline, t) (depression_order s)\<rparr>)"

definition index_failsafe :: "thread_id \<Rightarrow> scheduler \<Rightarrow> scheduler" where
  "index_failsafe t s =
     (let r = record_of s t in
      if failsafe r
      then s\<lparr>failsafe_order := insort_insert (failsafe_release_tick r, t) (failsafe_order s)\<rparr> else s)"

definition unindex_failsafe :: "thread_id \<Rightarrow> scheduler \<Rightarrow> scheduler" where
  "unindex_failsafe t s =
     (let r = record_of s t in
      if failsafe r
      then s\<lparr>failsafe_order := remove1 (failsafe_release_tick r, t) (failsafe_order s)\<rparr> else s)"

definition unindex_thread :: "thread_id \<Rightarrow> scheduler \<Rightarrow> scheduler" where
  "unindex_thread t s =
     (let s1 = (if threads s t = None then s else unindex_failsafe t (unindex_depression t s)) in
      case process_threads s1 (ti_process t) of
        None \<Rightarrow> s1
      | Some members \<Rightarrow>
          s1\<lparr>process_threads := (process_threads s1)
            (ti_process t := (if members - {t} = {} then None else Some (members - {t})))\<rparr>)"

text \<open>The priority that \<open>recompute_priority\<close> computes from the policy of a record.\<close>

definition policy_priority :: "thread_record \<Rightarrow> int" where
  "policy_priority r =
     (let penalty = int (min (case priority_usage_shift r of None \<Rightarrow> 0
                              | Some shift \<Rightarrow> scheduling_usage r div 2 ^ shift) (nat maximum_priority))
      in if realtime r then realtime_queue_priority
         else if timeshare r
         then max minimum_priority (min maximum_kernel_priority (base_priority r - penalty))
         else base_priority r)"

definition recompute_priority :: "thread_id \<Rightarrow> scheduler \<Rightarrow> sched_error + scheduler" where
  "recompute_priority t s =
     (let r = record_of s t; priority = policy_priority r in
      if depressed r then Inr s
      else if priority = scheduled_priority r then Inr s
      else let was_queued = queued r in
        and_then (if was_queued then remove_from_queue t s else Inr s) (\<lambda>s1.
          let s2 = modify t (\<lambda>r. r\<lparr>scheduled_priority := priority\<rparr>) s1
          in if was_queued then enqueue t Back s2 else Inr s2))"

definition restore_depression :: "thread_id \<Rightarrow> scheduler \<Rightarrow> sched_error + scheduler" where
  "restore_depression t s =
     (if \<not> depressed (record_of s t) then Inr s
      else recompute_priority t
        (modify t (\<lambda>r. r\<lparr>depressed := False, depression_deadline := None\<rparr>) (unindex_depression t s)))"

definition apply_failsafe :: "thread_id \<Rightarrow> scheduler \<Rightarrow> sched_error + scheduler" where
  "apply_failsafe t s =
     (let r = record_of s t in
      if failsafe r then Inr s
      else let s1 = modify t (\<lambda>r. r\<lparr>failsafe_saved_base_priority := base_priority r,
                       failsafe_saved_timeshare := timeshare r, failsafe_saved_realtime := realtime r,
                       base_priority := (if realtime r then minimum_priority else base_priority r),
                       realtime := False, timeshare := True, failsafe := True,
                       failsafe_release_tick :=
                         saturating_add (scheduler_tick s) failsafe_release_scheduler_ticks\<rparr>) s;
               s2 = (if state r \<noteq> Waiting \<and> \<not> timeshare r
                     then s1\<lparr>active_timeshare_count := active_timeshare_count s1 + 1\<rparr> else s1)
        in recompute_priority t (index_failsafe t s2))"

definition release_failsafe :: "thread_id \<Rightarrow> scheduler \<Rightarrow> sched_error + scheduler" where
  "release_failsafe t s =
     (let r = record_of s t in
      if \<not> failsafe r then Inr s
      else let s1 = unindex_failsafe t s;
               s2 = (if state r \<noteq> Waiting \<and> timeshare r \<noteq> failsafe_saved_timeshare r
                     then s1\<lparr>active_timeshare_count :=
                       (if failsafe_saved_timeshare r then active_timeshare_count s1 + 1
                        else active_timeshare_count s1 - 1)\<rparr> else s1);
               s3 = modify t (\<lambda>r. r\<lparr>base_priority := failsafe_saved_base_priority r,
                       timeshare := failsafe_saved_timeshare r, realtime := failsafe_saved_realtime r,
                       failsafe := False, failsafe_release_tick := 0, computation_metered := 0\<rparr>) s2;
               s4 = modify t (\<lambda>r. r\<lparr>remaining_quantum := quantum_for s3 r\<rparr>) s3
        in recompute_priority t s4)"

section \<open>Time\<close>

text \<open>The loops below end because each turn removes an entry of an order index. For that the
  frame of the operations they call is needed first: queue operations keep both indices.\<close>

lemma modify_sel [simp]:
  "processor_set_run_queue (modify t f s) = processor_set_run_queue s"
  "processor_run_queues (modify t f s) = processor_run_queues s"
  "threads (modify t f s) = (threads s)(t := map_option f (threads s t))"
  "process_threads (modify t f s) = process_threads s"
  "depression_order (modify t f s) = depression_order s"
  "failsafe_order (modify t f s) = failsafe_order s"
  "runnable_count (modify t f s) = runnable_count s"
  "waiting_count (modify t f s) = waiting_count s"
  "active_timeshare_count (modify t f s) = active_timeshare_count s"
  "quantum_ticks (modify t f s) = quantum_ticks s"
  "scheduler_tick_ticks (modify t f s) = scheduler_tick_ticks s"
  "scheduler_usage_shift (modify t f s) = scheduler_usage_shift s"
  "elapsed_since_scheduler_tick (modify t f s) = elapsed_since_scheduler_tick s"
  "elapsed_ticks (modify t f s) = elapsed_ticks s"
  "scheduler_tick (modify t f s) = scheduler_tick s"
  by (simp_all add: modify_def)

lemma set_run_queue_sel [simp]:
  "threads (set_run_queue loc q s) = threads s"
  "process_threads (set_run_queue loc q s) = process_threads s"
  "depression_order (set_run_queue loc q s) = depression_order s"
  "failsafe_order (set_run_queue loc q s) = failsafe_order s"
  "runnable_count (set_run_queue loc q s) = runnable_count s"
  "waiting_count (set_run_queue loc q s) = waiting_count s"
  "active_timeshare_count (set_run_queue loc q s) = active_timeshare_count s"
  "quantum_ticks (set_run_queue loc q s) = quantum_ticks s"
  "scheduler_tick_ticks (set_run_queue loc q s) = scheduler_tick_ticks s"
  "scheduler_usage_shift (set_run_queue loc q s) = scheduler_usage_shift s"
  "elapsed_since_scheduler_tick (set_run_queue loc q s) = elapsed_since_scheduler_tick s"
  "elapsed_ticks (set_run_queue loc q s) = elapsed_ticks s"
  "scheduler_tick (set_run_queue loc q s) = scheduler_tick s"
  "length (processor_run_queues (set_run_queue loc q s)) = length (processor_run_queues s)"
  by (simp_all add: set_run_queue_def split: option.split)

text \<open>\<open>rest_of\<close> keeps what the queue operations must not touch.\<close>

definition rest_of :: "scheduler \<Rightarrow> scheduler" where
  "rest_of s = s\<lparr>processor_set_run_queue := empty_run_queue, processor_run_queues := [],
     threads := Map.empty, runnable_count := 0\<rparr>"

lemma rest_of_modify [simp]: "rest_of (modify t f s) = rest_of s"
  by (simp add: rest_of_def modify_def)

lemma rest_of_set_run_queue [simp]: "rest_of (set_run_queue loc q s) = rest_of s"
  by (simp add: rest_of_def set_run_queue_def split: option.split)

lemma rest_of_runnable_count [simp]: "rest_of (s\<lparr>runnable_count := n\<rparr>) = rest_of s"
  by (simp add: rest_of_def)

lemma rest_ofD:
  assumes "rest_of s' = rest_of s"
  shows "process_threads s' = process_threads s" "depression_order s' = depression_order s"
    "failsafe_order s' = failsafe_order s" "waiting_count s' = waiting_count s"
    "active_timeshare_count s' = active_timeshare_count s" "quantum_ticks s' = quantum_ticks s"
    "scheduler_tick_ticks s' = scheduler_tick_ticks s" "scheduler_usage_shift s' = scheduler_usage_shift s"
    "elapsed_since_scheduler_tick s' = elapsed_since_scheduler_tick s"
    "elapsed_ticks s' = elapsed_ticks s" "scheduler_tick s' = scheduler_tick s"
  using assms by (cases s; cases s'; simp add: rest_of_def)+

lemma enqueue_rest: "enqueue t position s = Inr s' \<Longrightarrow> rest_of s' = rest_of s"
  by (auto simp: enqueue_def Let_def split: option.splits if_splits)

lemma remove_from_queue_rest: "remove_from_queue t s = Inr s' \<Longrightarrow> rest_of s' = rest_of s"
  by (auto simp: remove_from_queue_def Let_def split: option.splits if_splits)

lemma recompute_priority_rest: "recompute_priority t s = Inr s' \<Longrightarrow> rest_of s' = rest_of s"
  by (auto simp: recompute_priority_def Let_def and_then_Inr split: if_splits
      dest!: enqueue_rest remove_from_queue_rest)

lemma restore_depression_order:
  assumes "restore_depression t s = Inr s'" "threads s t = Some r" "depressed r"
  shows "depression_order s' = (case depression_deadline r of None \<Rightarrow> depression_order s
    | Some d \<Rightarrow> remove1 (d, t) (depression_order s))"
proof -
  have "rest_of s' = rest_of (unindex_depression t s)"
    using assms recompute_priority_rest by (fastforce simp: restore_depression_def record_of_def)
  from rest_ofD(2) [OF this] show ?thesis
    using assms(2) by (simp add: unindex_depression_def record_of_def split: option.splits)
qed

lemma release_failsafe_order:
  assumes "release_failsafe t s = Inr s'" "threads s t = Some r" "failsafe r"
  shows "failsafe_order s' = remove1 (failsafe_release_tick r, t) (failsafe_order s)"
proof -
  have "failsafe_order s' = failsafe_order (unindex_failsafe t s)"
    using assms by (auto simp: release_failsafe_def record_of_def Let_def split: if_splits
        dest!: recompute_priority_rest dest: rest_ofD(3))
  then show ?thesis
    using assms(2,3) by (simp add: unindex_failsafe_def record_of_def Let_def)
qed

function expire_depressions :: "scheduler \<Rightarrow> sched_error + scheduler" where
  "expire_depressions s =
     (case depression_order s of
        [] \<Rightarrow> Inr s
      | (deadline, t) # rest \<Rightarrow>
          if deadline > elapsed_ticks s then Inr s
          else if (case threads s t of None \<Rightarrow> True
                   | Some r \<Rightarrow> \<not> depressed r \<or> depression_deadline r \<noteq> Some deadline)
          then expire_depressions (s\<lparr>depression_order := rest\<rparr>)
          else and_then (restore_depression t s) expire_depressions)"
  by pat_completeness auto
termination
proof (relation "measure (\<lambda>s. length (depression_order s))", goal_cases)
  case (3 s key rest d t s')
  then obtain r where "threads s t = Some r" "depressed r" "depression_deadline r = Some d"
    by (auto split: option.splits)
  then show ?case using restore_depression_order [OF 3(5)] 3(1,2) by simp
qed simp_all

declare expire_depressions.simps [simp del]

function release_failsafes :: "scheduler \<Rightarrow> sched_error + scheduler" where
  "release_failsafes s =
     (case failsafe_order s of
        [] \<Rightarrow> Inr s
      | (release_tick, t) # rest \<Rightarrow>
          if release_tick > scheduler_tick s then Inr s
          else if (case threads s t of None \<Rightarrow> True
                   | Some r \<Rightarrow> \<not> failsafe r \<or> failsafe_release_tick r \<noteq> release_tick)
          then release_failsafes (s\<lparr>failsafe_order := rest\<rparr>)
          else and_then (release_failsafe t s) release_failsafes)"
  by pat_completeness auto
termination
proof (relation "measure (\<lambda>s. length (failsafe_order s))", goal_cases)
  case (3 s key rest d t s')
  then obtain r where "threads s t = Some r" "failsafe r" "failsafe_release_tick r = d"
    by (auto split: option.splits)
  then show ?case using release_failsafe_order [OF 3(5)] 3(1,2) by simp
qed simp_all

declare release_failsafes.simps [simp del]

text \<open>One turn of the aging loop, and the loop in a given iteration order of \<open>threads_\<close>.\<close>

definition age_thread :: "nat \<Rightarrow> nat option \<Rightarrow> thread_id \<Rightarrow> scheduler \<Rightarrow> sched_error + scheduler" where
  "age_thread elapsed shift t s =
     (if threads s t = None then Inr s
      else recompute_priority t (modify t (\<lambda>r. r\<lparr>priority_usage_shift := shift,
        scheduling_usage := (if elapsed \<ge> scheduling_usage_decay_ticks then 0
                             else (decay_once ^^ elapsed) (scheduling_usage r)),
        cpu_usage := (if elapsed \<ge> scheduling_usage_decay_ticks then 0
                      else (decay_once ^^ elapsed) (cpu_usage r)),
        scheduler_stamp := scheduler_tick s\<rparr>) s))"

definition age_priorities :: "thread_id list \<Rightarrow> nat \<Rightarrow> scheduler \<Rightarrow> sched_error + scheduler" where
  "age_priorities order elapsed s =
     (let shift = processor_set_priority_shift s in
      and_then (release_failsafes s) (each (age_thread elapsed shift) order))"

definition advance_scheduler_time :: "thread_id list \<Rightarrow> nat \<Rightarrow> scheduler \<Rightarrow> sched_error + scheduler" where
  "advance_scheduler_time order consumed s =
     and_then (expire_depressions (s\<lparr>elapsed_ticks := saturating_add (elapsed_ticks s) consumed\<rparr>)) (\<lambda>s1.
       let since = saturating_add (elapsed_since_scheduler_tick s1) consumed;
           elapsed = since div scheduler_tick_ticks s1;
           s2 = s1\<lparr>elapsed_since_scheduler_tick := since mod scheduler_tick_ticks s1\<rparr>
       in if elapsed = 0 then Inr s2
          else age_priorities order elapsed
                 (s2\<lparr>scheduler_tick := saturating_add (scheduler_tick s2) elapsed\<rparr>))"

definition advance_time :: "thread_id list \<Rightarrow> nat \<Rightarrow> scheduler \<Rightarrow> sched_error + scheduler" where
  "advance_time order elapsed s = advance_scheduler_time order elapsed s"

section \<open>The operations\<close>

definition scheduler_init :: "nat \<Rightarrow> nat \<Rightarrow> nat \<Rightarrow> sched_error + scheduler" where
  "scheduler_init quantum tick_ticks processor_count =
     (if quantum = 0 \<or> tick_ticks = 0 \<or> processor_count = 0 then Inl InvalidArgument
      else Inr \<lparr>processor_set_run_queue = empty_run_queue,
        processor_run_queues = replicate processor_count empty_run_queue, threads = Map.empty,
        process_threads = Map.empty, depression_order = [], failsafe_order = [], runnable_count = 0,
        waiting_count = 0, active_timeshare_count = 0, quantum_ticks = quantum,
        scheduler_tick_ticks = tick_ticks, scheduler_usage_shift = compute_usage_shift tick_ticks,
        elapsed_since_scheduler_tick = 0, elapsed_ticks = 0, scheduler_tick = 0\<rparr>)"

definition register_thread :: "thread_id \<Rightarrow> int \<Rightarrow> bool \<Rightarrow> scheduler \<Rightarrow> sched_error + bool \<times> scheduler" where
  "register_thread t priority runnable s =
     (if threads s t \<noteq> None then Inr (False, s)
      else let r = default_record\<lparr>base_priority := clamp_priority priority,
                 scheduled_priority := clamp_priority priority, remaining_quantum := quantum_ticks s,
                 scheduler_stamp := scheduler_tick s, state := (if runnable then Runnable else Waiting)\<rparr>;
               members = (case process_threads s (ti_process t) of None \<Rightarrow> {} | Some m \<Rightarrow> m);
               s1 = s\<lparr>threads := (threads s)(t \<mapsto> r),
                      process_threads := (process_threads s)(ti_process t \<mapsto> insert t members)\<rparr>
        in if runnable
           then and_then (enqueue t Back (s1\<lparr>active_timeshare_count := active_timeshare_count s1 + 1\<rparr>))
                  (\<lambda>s2. Inr (True, s2))
           else Inr (True, s1\<lparr>waiting_count := waiting_count s1 + 1\<rparr>))"

definition remove_thread :: "thread_id \<Rightarrow> scheduler \<Rightarrow> sched_error + bool \<times> scheduler" where
  "remove_thread t s =
     (case threads s t of
        None \<Rightarrow> Inr (False, s)
      | Some r \<Rightarrow>
          let s1 = (if state r = Waiting then s\<lparr>waiting_count := waiting_count s - 1\<rparr>
                    else if timeshare r then s\<lparr>active_timeshare_count := active_timeshare_count s - 1\<rparr>
                    else s)
          in and_then (remove_from_queue t s1) (\<lambda>s2.
               let s3 = unindex_thread t s2 in Inr (True, s3\<lparr>threads := (threads s3)(t := None)\<rparr>)))"

text \<open>\<open>order\<close> is the iteration order of the process's unordered set of threads.\<close>

definition remove_process :: "thread_id list \<Rightarrow> u32 \<Rightarrow> scheduler \<Rightarrow> sched_error + nat \<times> scheduler" where
  "remove_process order process s =
     (case process_threads s process of
        None \<Rightarrow> Inr (0, s)
      | Some members \<Rightarrow>
          and_then (each (\<lambda>t s. and_then (remove_thread t s) (\<lambda>(_, s'). Inr s'))
                     (filter (\<lambda>t. t \<in> members) order) s)
            (\<lambda>s'. Inr (card members, s')))"

definition make_runnable :: "thread_id \<Rightarrow> scheduler \<Rightarrow> sched_error + bool \<times> scheduler" where
  "make_runnable t s =
     (case threads s t of
        None \<Rightarrow> Inr (False, s)
      | Some r \<Rightarrow>
          if suspend_count r \<noteq> 0 then Inr (True, modify t (\<lambda>r. r\<lparr>resume_runnable := True\<rparr>) s)
          else if state r = Running \<or> queued r then Inr (True, s)
          else let s1 = (if state r = Waiting
                         then s\<lparr>waiting_count := waiting_count s - 1,
                                active_timeshare_count := (if timeshare r then active_timeshare_count s + 1
                                                           else active_timeshare_count s)\<rparr>
                         else s);
                   s2 = modify t (\<lambda>r. r\<lparr>state := Runnable, remaining_quantum := quantum_for s r,
                          computation_metered := 0,
                          realtime_deadline := (if realtime r
                            then saturating_add (elapsed_ticks s) (realtime_constraint r)
                            else realtime_deadline r)\<rparr>) s1
            in and_then (enqueue t Back s2) (\<lambda>s3. Inr (True, s3)))"

definition wake_thread :: "thread_id \<Rightarrow> scheduler \<Rightarrow> sched_error + bool \<times> scheduler" where
  "wake_thread t s =
     (case threads s t of
        None \<Rightarrow> Inr (False, s)
      | Some r \<Rightarrow>
          if state r = Running then Inr (True, modify t (\<lambda>r. r\<lparr>wake_pending := True\<rparr>) s)
          else make_runnable t s)"

definition block :: "thread_id \<Rightarrow> scheduler \<Rightarrow> sched_error + bool \<times> scheduler" where
  "block t s =
     (case threads s t of
        None \<Rightarrow> Inr (False, s)
      | Some r \<Rightarrow>
          let was_waiting = (state r = Waiting) in
          and_then (remove_from_queue t s) (\<lambda>s1.
            let s2 = modify t (\<lambda>r. r\<lparr>state := Waiting\<rparr>) s1;
                s3 = (if was_waiting then s2
                      else s2\<lparr>waiting_count := waiting_count s2 + 1,
                              active_timeshare_count := (if timeshare r then active_timeshare_count s2 - 1
                                                         else active_timeshare_count s2)\<rparr>)
            in Inr (True, modify t (\<lambda>r. r\<lparr>remaining_quantum := quantum_for s3 r, computation_metered := 0,
                     resume_runnable := (if suspend_count r \<noteq> 0 then False else resume_runnable r)\<rparr>) s3)))"

definition suspend_thread :: "thread_id \<Rightarrow> scheduler \<Rightarrow> sched_error + bool \<times> scheduler" where
  "suspend_thread t s =
     (case threads s t of
        None \<Rightarrow> Inr (False, s)
      | Some r \<Rightarrow>
          if suspend_count r = u32_max then Inr (False, s)
          else let s1 = modify t (\<lambda>r. r\<lparr>suspend_count := suspend_count r + 1\<rparr>) s in
            if suspend_count r \<noteq> 0 then Inr (True, s1)
            else let s2 = modify t (\<lambda>r. r\<lparr>resume_runnable := (state r = Runnable \<or> state r = Running)\<rparr>) s1 in
              if state r = Waiting then Inr (True, s2)
              else and_then (remove_from_queue t s2) (\<lambda>s3.
                let s4 = modify t (\<lambda>r. r\<lparr>state := Waiting\<rparr>) s3
                in Inr (True, s4\<lparr>waiting_count := waiting_count s4 + 1,
                         active_timeshare_count := (if timeshare r then active_timeshare_count s4 - 1
                                                    else active_timeshare_count s4)\<rparr>)))"

definition resume_thread :: "thread_id \<Rightarrow> scheduler \<Rightarrow> sched_error + bool \<times> scheduler" where
  "resume_thread t s =
     (case threads s t of
        None \<Rightarrow> Inr (False, s)
      | Some r \<Rightarrow>
          if suspend_count r = 0 then Inr (False, s)
          else let s1 = modify t (\<lambda>r. r\<lparr>suspend_count := suspend_count r - 1\<rparr>) s in
            if suspend_count r - 1 \<noteq> 0 \<or> \<not> resume_runnable r then Inr (True, s1)
            else let s2 = (modify t (\<lambda>r. r\<lparr>resume_runnable := False, state := Runnable\<rparr>) s1)
                       \<lparr>waiting_count := waiting_count s1 - 1,
                        active_timeshare_count := (if timeshare r then active_timeshare_count s1 + 1
                                                   else active_timeshare_count s1)\<rparr>;
                     s3 = modify t (\<lambda>r. r\<lparr>remaining_quantum := quantum_for s2 r, computation_metered := 0\<rparr>) s2
              in and_then (enqueue t Back s3) (\<lambda>s4. Inr (True, s4)))"

definition set_base_priority :: "thread_id \<Rightarrow> int \<Rightarrow> scheduler \<Rightarrow> sched_error + bool \<times> scheduler" where
  "set_base_priority t priority s =
     (case threads s t of
        None \<Rightarrow> Inr (False, s)
      | Some r \<Rightarrow>
          let clamped = clamp_priority priority in
          if base_priority r = clamped then Inr (True, s)
          else and_then (recompute_priority t (modify t (\<lambda>r. r\<lparr>base_priority := clamped\<rparr>) s))
                 (\<lambda>s1. Inr (True, s1)))"

definition depress :: "thread_id \<Rightarrow> nat \<Rightarrow> scheduler \<Rightarrow> sched_error + bool \<times> scheduler" where
  "depress t duration s =
     (case threads s t of
        None \<Rightarrow> Inr (False, s)
      | Some r \<Rightarrow>
          if depressed r then Inr (True, s)
          else let was_queued = queued r in
            and_then (if was_queued then remove_from_queue t s else Inr s) (\<lambda>s1.
              let s2 = modify t (\<lambda>r. r\<lparr>depressed := True, scheduled_priority := minimum_priority,
                     depression_deadline := (if duration \<noteq> 0
                       then Some (saturating_add (elapsed_ticks s1) duration) else None)\<rparr>) s1;
                  s3 = (if duration \<noteq> 0 then index_depression t s2 else s2)
              in and_then (if was_queued then enqueue t Back s3 else Inr s3) (\<lambda>s4. Inr (True, s4))))"

definition bind_thread :: "thread_id \<Rightarrow> nat option \<Rightarrow> scheduler \<Rightarrow> sched_error + bool \<times> scheduler" where
  "bind_thread t processor s =
     (if (case processor of None \<Rightarrow> False | Some i \<Rightarrow> i \<ge> length (processor_run_queues s)) then Inr (False, s)
      else case threads s t of
        None \<Rightarrow> Inr (False, s)
      | Some r \<Rightarrow>
          if bound_processor r = processor then Inr (True, s)
          else let was_queued = queued r in
            and_then (if was_queued then remove_from_queue t s else Inr s) (\<lambda>s1.
              let s2 = modify t (\<lambda>r. r\<lparr>bound_processor := processor\<rparr>) s1
              in and_then (if was_queued then enqueue t Back s2 else Inr s2) (\<lambda>s3. Inr (True, s3))))"

definition set_timeshare :: "thread_id \<Rightarrow> bool \<Rightarrow> scheduler \<Rightarrow> sched_error + bool \<times> scheduler" where
  "set_timeshare t share s =
     (case threads s t of
        None \<Rightarrow> Inr (False, s)
      | Some r \<Rightarrow>
          if \<not> realtime r \<and> timeshare r = share then Inr (True, s)
          else let s1 = modify t (\<lambda>r. r\<lparr>realtime := False, timeshare := share\<rparr>) s;
                   s2 = (if state r \<noteq> Waiting \<and> timeshare r \<noteq> share
                         then s1\<lparr>active_timeshare_count := (if share then active_timeshare_count s1 + 1
                                                            else active_timeshare_count s1 - 1)\<rparr>
                         else s1);
                   s3 = modify t (\<lambda>r. r\<lparr>remaining_quantum := quantum_ticks s2\<rparr>) s2
            in and_then (recompute_priority t s3) (\<lambda>s4. Inr (True, s4)))"

definition set_realtime ::
    "thread_id \<Rightarrow> nat \<Rightarrow> nat \<Rightarrow> nat \<Rightarrow> bool \<Rightarrow> scheduler \<Rightarrow> sched_error + bool \<times> scheduler" where
  "set_realtime t period computation constraint preemptible s =
     (if constraint < computation \<or> computation < minimum_realtime_computation_ticks \<or>
         computation > maximum_realtime_computation_ticks then Inr (False, s)
      else case threads s t of
        None \<Rightarrow> Inr (False, s)
      | Some r \<Rightarrow>
          let s1 = modify t (\<lambda>r. r\<lparr>timeshare := False, realtime := True\<rparr>) s;
              s2 = (if state r \<noteq> Waiting \<and> timeshare r
                    then s1\<lparr>active_timeshare_count := active_timeshare_count s1 - 1\<rparr> else s1);
              s3 = modify t (\<lambda>r. r\<lparr>realtime_preemptible := preemptible, realtime_period := period,
                     realtime_computation := computation, realtime_constraint := constraint,
                     realtime_deadline := saturating_add (elapsed_ticks s2) constraint,
                     remaining_quantum := computation\<rparr>) s2
          in and_then (recompute_priority t s3) (\<lambda>s4. Inr (True, s4)))"

text \<open>What both branches of \<open>choose_next\<close> do with the thread they took off its queue.\<close>

definition start_slice ::
    "thread_id \<Rightarrow> nat \<Rightarrow> scheduler \<Rightarrow> sched_error + scheduled_slice option \<times> scheduler" where
  "start_slice t processor s =
     and_then (if depressed (record_of s t) then restore_depression t s else Inr s) (\<lambda>s1.
       let s2 = modify t (\<lambda>r. r\<lparr>state := Running, last_processor := Some processor\<rparr>) s1;
           r = record_of s2 t;
           s3 = (if timeshare r \<and> (remaining_timeslices r = 0 \<or> timeslice_processor r \<noteq> Some processor)
                 then modify t (\<lambda>r. r\<lparr>remaining_timeslices := timeshare_quanta s2,
                        timeslice_processor := Some processor\<rparr>) s2
                 else s2);
           s4 = modify t (\<lambda>r. r\<lparr>priority_usage_shift := processor_set_priority_shift s3\<rparr>) s3
       in Inr (Some \<lparr>slice_thread = t, slice_processor = processor,
                    tick_budget = remaining_quantum (record_of s4 t)\<rparr>, s4))"

definition choose_next ::
    "nat \<Rightarrow> thread_id option \<Rightarrow> scheduler \<Rightarrow> sched_error + scheduled_slice option \<times> scheduler" where
  "choose_next processor preferred s =
     (if processor \<ge> length (processor_run_queues s) then Inr (None, s)
      else case preferred of
        Some t \<Rightarrow>
          (case threads s t of
             None \<Rightarrow> Inr (None, s)
           | Some r \<Rightarrow>
               if \<not> queued r \<or> (bound_processor r \<noteq> None \<and> bound_processor r \<noteq> Some processor) then Inr (None, s)
               else and_then (remove_from_queue t s) (start_slice t processor))
      | None \<Rightarrow>
          (case selected_run_queue processor s of
             None \<Rightarrow> Inr (None, s)
           | Some loc \<Rightarrow>
               (case run_queue_at s loc of
                  None \<Rightarrow> Inr (None, s)
                | Some q \<Rightarrow>
                    and_then (pop_highest loc q s) (\<lambda>(t, s1).
                      if threads s1 t = None then Inl NoSuchElement
                      else start_slice t processor
                        ((modify t (\<lambda>r. r\<lparr>queued := False, queued_processor := None\<rparr>) s1)
                          \<lparr>runnable_count := runnable_count s1 - 1\<rparr>)))))"

definition preemption_for :: "thread_id \<Rightarrow> nat \<Rightarrow> scheduler \<Rightarrow> sched_error + preemption" where
  "preemption_for running_thread processor s =
     (if processor \<ge> length (processor_run_queues s) then Inr NoPreemption
      else case threads s running_thread of
        None \<Rightarrow> Inr NoPreemption
      | Some current \<Rightarrow>
          if state current \<noteq> Running then Inr NoPreemption
          else and_then (peek_next_for_processor processor s) (\<lambda>candidate_thread.
            case candidate_thread of
              None \<Rightarrow> Inr NoPreemption
            | Some t \<Rightarrow>
                (case threads s t of
                   None \<Rightarrow> Inr NoPreemption
                 | Some candidate \<Rightarrow>
                     let candidate_priority = scheduled_priority candidate;
                         current_priority = scheduled_priority current;
                         first_timeslice = (remaining_quantum current \<noteq> 0);
                         preempt = (if first_timeslice then candidate_priority > current_priority
                                    else candidate_priority \<ge> current_priority);
                         earlier = (candidate_priority \<ge> realtime_queue_priority \<and> realtime current \<and>
                                    realtime candidate \<and> realtime_deadline candidate < realtime_deadline current)
                     in if \<not> preempt \<and> \<not> earlier then Inr NoPreemption
                        else if \<not> timeshare candidate \<and> candidate_priority \<ge> preempt_priority
                        then Inr Urgent else Inr Preempt)))"

definition should_yield :: "thread_id \<Rightarrow> scheduler \<Rightarrow> bool" where
  "should_yield running_thread s =
     (case threads s running_thread of
        None \<Rightarrow> False
      | Some current \<Rightarrow>
          (case last_processor current of
             None \<Rightarrow> False
           | Some processor \<Rightarrow>
               state current = Running \<and> processor < length (processor_run_queues s) \<and>
               (rq_count (processor_run_queues s ! processor) \<noteq> 0 \<or> rq_count (processor_set_run_queue s) \<noteq> 0)))"

text \<open>The accounting of a completed slice and then what becomes of its thread.\<close>

definition charge_slice :: "nat \<Rightarrow> thread_record \<Rightarrow> thread_record" where
  "charge_slice consumed r = r\<lparr>
     scheduling_usage := (if priority_usage_shift r \<noteq> None \<and> timeshare r
       then saturating_add (scheduling_usage r) consumed else scheduling_usage r),
     cpu_usage := saturating_add (cpu_usage r) consumed,
     remaining_quantum := remaining_quantum r - min (remaining_quantum r) consumed,
     computation_metered := (if \<not> timeshare r then saturating_add (computation_metered r) consumed
       else computation_metered r)\<rparr>"

definition end_slice :: "thread_id \<Rightarrow> slice_completion \<Rightarrow> scheduler \<Rightarrow> sched_error + bool \<times> scheduler" where
  "end_slice t completion s =
     (let r = record_of s t; finish = (\<lambda>s. Inr (True, s)) in
      if completion = Terminate then
        (let s1 = (if timeshare r then s\<lparr>active_timeshare_count := active_timeshare_count s - 1\<rparr> else s);
             s2 = unindex_thread t s1
         in finish (s2\<lparr>threads := (threads s2)(t := None)\<rparr>))
      else if completion = Block then
        (if wake_pending r then
           and_then (enqueue t Back (modify t (\<lambda>r. r\<lparr>wake_pending := False, state := Runnable,
              remaining_quantum := quantum_for s r, remaining_timeslices := 0, timeslice_processor := None\<rparr>) s))
             finish
         else let s1 = modify t (\<lambda>r. r\<lparr>state := Waiting\<rparr>) s;
                  s2 = s1\<lparr>waiting_count := waiting_count s1 + 1,
                         active_timeshare_count := (if timeshare r then active_timeshare_count s1 - 1
                                                    else active_timeshare_count s1)\<rparr>
           in finish (modify t (\<lambda>r. r\<lparr>remaining_quantum := quantum_for s2 r, remaining_timeslices := 0,
                        timeslice_processor := None\<rparr>) s2))
      else let s1 = modify t (\<lambda>r. r\<lparr>wake_pending := False\<rparr>) s in
        if completion = Yield \<or> remaining_quantum r = 0 then
          and_then (recompute_priority t (modify t (\<lambda>r. r\<lparr>
              computation_metered := (if completion = Yield then 0 else computation_metered r),
              remaining_quantum := quantum_for s1 r\<rparr>) s1)) (\<lambda>s2.
            let s3 = modify t (\<lambda>r. r\<lparr>state := Runnable\<rparr>) s2; r3 = record_of s3 t in
            if completion \<noteq> Yield \<and> timeshare r3 \<and> remaining_timeslices r3 > 1
            then and_then (enqueue t Front (modify t (\<lambda>r. r\<lparr>remaining_timeslices := remaining_timeslices r - 1\<rparr>) s3)) finish
            else and_then (enqueue t Back (modify t (\<lambda>r. r\<lparr>remaining_timeslices := 0, timeslice_processor := None\<rparr>) s3)) finish)
        else and_then (enqueue t Front (modify t (\<lambda>r. r\<lparr>state := Runnable\<rparr>) s1)) finish)"

definition complete_slice ::
    "thread_id list \<Rightarrow> thread_id \<Rightarrow> nat \<Rightarrow> slice_completion \<Rightarrow> time_accounting \<Rightarrow> scheduler
      \<Rightarrow> sched_error + bool \<times> scheduler" where
  "complete_slice order t consumed completion accounting s =
     (case threads s t of
        None \<Rightarrow> Inr (False, s)
      | Some r \<Rightarrow>
          if state r \<noteq> Running then Inr (False, s)
          else let s1 = modify t (charge_slice consumed) s; r1 = record_of s1 t in
            and_then (if remaining_quantum r1 = 0 \<and> \<not> timeshare r1 \<and>
                         computation_metered r1 > (maximum_unsafe_quanta * quantum_ticks s1) mod 2 ^ 64
                      then apply_failsafe t s1 else Inr s1) (\<lambda>s2.
              and_then (if accounting = Advance then advance_scheduler_time order consumed s2 else Inr s2)
                (end_slice t completion)))"

definition contains_thread :: "thread_id \<Rightarrow> scheduler \<Rightarrow> bool" where
  "contains_thread t s \<longleftrightarrow> threads s t \<noteq> None"

definition thread_info :: "thread_id \<Rightarrow> scheduler \<Rightarrow> scheduling_info option" where
  "thread_info t s = map_option scheduling_info.truncate (threads s t)"

definition highest_runnable_priority :: "scheduler \<Rightarrow> int" where
  "highest_runnable_priority s =
     foldl (\<lambda>priority q. max priority (high_queue q)) (high_queue (processor_set_run_queue s))
       (processor_run_queues s)"

end
