(* ===== verification/Xnu_Scheduler_Safety.thy ===== *)
theory Xnu_Scheduler_Safety
  imports Xnu_Scheduler
begin

text \<open>
  The invariant of the scheduler state and its preservation by every operation. It has four
  layers: the run queues hold exactly the queued threads, each at its scheduled priority
  (\<open>queue_core\<close>); the counters count (\<open>count_core\<close>); the deadline, failsafe and process indices
  index (\<open>index_core\<close>); and each thread record is consistent in itself (\<open>policy_rec\<close> and
  \<open>life_rec\<close>). Operations are specified with \<open>returns\<close>, so each specification also says that
  the operation does not throw.
\<close>

section \<open>The invariant\<close>

definition queue_rec :: "nat \<Rightarrow> thread_id \<Rightarrow> thread_record \<Rightarrow> bool" where
  "queue_rec n t r \<longleftrightarrow>
     (\<forall>i. bound_processor r = Some i \<longrightarrow> i < n) \<and> 0 \<le> scheduled_priority r \<and> scheduled_priority r \<le> 97 \<and>
     (if queued r
      then queue_position r = Some () \<and> queued_processor r = bound_processor r \<and>
        queued_priority r = scheduled_priority r \<and>
        (realtime_queue_key r = None \<longleftrightarrow> scheduled_priority r \<noteq> 97) \<and>
        (\<forall>k. realtime_queue_key r = Some k \<longrightarrow> snd k = t)
      else queue_position r = None \<and> queued_processor r = None \<and> realtime_queue_key r = None)"

definition holds_at :: "(thread_id \<rightharpoonup> thread_record) \<Rightarrow> nat option \<Rightarrow> int \<Rightarrow> thread_id \<Rightarrow> bool" where
  "holds_at T loc p t \<longleftrightarrow>
     (\<exists>r. T t = Some r \<and> queued r \<and> queued_processor r = loc \<and> queued_priority r = p)"

definition keyed_at :: "(thread_id \<rightharpoonup> thread_record) \<Rightarrow> nat option \<Rightarrow> nat \<times> thread_id \<Rightarrow> bool" where
  "keyed_at T loc k \<longleftrightarrow>
     (\<exists>r. T (snd k) = Some r \<and> queued r \<and> queued_processor r = loc \<and> realtime_queue_key r = Some k)"

definition link_at :: "(thread_id \<rightharpoonup> thread_record) \<Rightarrow> nat option \<Rightarrow> run_queue \<Rightarrow> bool" where
  "link_at T loc q \<longleftrightarrow> rq_inv q \<and>
     (\<forall>p<128. \<forall>t. t \<in> set (queues q p) \<longleftrightarrow> holds_at T loc (int p) t) \<and>
     (\<forall>k. k \<in> set (realtime_order q) \<longleftrightarrow> keyed_at T loc k)"

definition cnt :: "(thread_record \<Rightarrow> bool) \<Rightarrow> (thread_id \<rightharpoonup> thread_record) \<Rightarrow> nat" where
  "cnt P T = card {t. \<exists>r. T t = Some r \<and> P r}"

definition queue_core :: "scheduler \<Rightarrow> bool" where
  "queue_core s \<longleftrightarrow> finite (dom (threads s)) \<and> processor_run_queues s \<noteq> [] \<and>
     (\<forall>loc q. run_queue_at s loc = Some q \<longrightarrow> link_at (threads s) loc q) \<and>
     (\<forall>t r. threads s t = Some r \<longrightarrow> queue_rec (length (processor_run_queues s)) t r) \<and>
     runnable_count s = cnt queued (threads s)"

definition count_core :: "scheduler \<Rightarrow> bool" where
  "count_core s \<longleftrightarrow> waiting_count s = cnt (\<lambda>r. state r = Waiting) (threads s) \<and>
     active_timeshare_count s = cnt (\<lambda>r. state r \<noteq> Waiting \<and> timeshare r) (threads s)"

definition order_ok :: "(nat \<Rightarrow> thread_record \<Rightarrow> bool) \<Rightarrow> (thread_id \<rightharpoonup> thread_record)
    \<Rightarrow> (nat \<times> thread_id) list \<Rightarrow> bool" where
  "order_ok K T xs \<longleftrightarrow> sorted xs \<and> distinct xs \<and>
     (\<forall>d t. (d, t) \<in> set xs \<longleftrightarrow> (\<exists>r. T t = Some r \<and> K d r))"

abbreviation depression_key :: "nat \<Rightarrow> thread_record \<Rightarrow> bool" where
  "depression_key d r \<equiv> depression_deadline r = Some d"

abbreviation failsafe_key :: "nat \<Rightarrow> thread_record \<Rightarrow> bool" where
  "failsafe_key d r \<equiv> failsafe r \<and> failsafe_release_tick r = d"

definition process_ok :: "(thread_id \<rightharpoonup> thread_record) \<Rightarrow> (u32 \<rightharpoonup> thread_id set) \<Rightarrow> bool" where
  "process_ok T P \<longleftrightarrow>
     (\<forall>p. P p = (let members = {t. ti_process t = p \<and> T t \<noteq> None} in
        if members = {} then None else Some members))"

definition index_core :: "scheduler \<Rightarrow> bool" where
  "index_core s \<longleftrightarrow> order_ok depression_key (threads s) (depression_order s) \<and>
     order_ok failsafe_key (threads s) (failsafe_order s) \<and>
     process_ok (threads s) (process_threads s)"

definition policy_rec :: "thread_record \<Rightarrow> bool" where
  "policy_rec r \<longleftrightarrow> 0 \<le> base_priority r \<and> base_priority r \<le> 96 \<and>
     0 \<le> failsafe_saved_base_priority r \<and> failsafe_saved_base_priority r \<le> 96 \<and>
     (\<not> realtime r \<longrightarrow> scheduled_priority r \<le> 96) \<and>
     (depressed r \<longrightarrow> scheduled_priority r = 0) \<and> (\<not> depressed r \<longrightarrow> depression_deadline r = None)"

definition life_rec :: "thread_record \<Rightarrow> bool" where
  "life_rec r \<longleftrightarrow> (queued r \<longleftrightarrow> state r = Runnable) \<and> (suspend_count r > 0 \<longrightarrow> state r = Waiting)"

definition sched_inv :: "scheduler \<Rightarrow> bool" where
  "sched_inv s \<longleftrightarrow> queue_core s \<and> count_core s \<and> index_core s \<and>
     (\<forall>t r. threads s t = Some r \<longrightarrow> policy_rec r \<and> life_rec r)"

section \<open>Counting threads\<close>

lemma cnt_upd:
  assumes "finite (dom T)" and "T t = Some r"
  shows "cnt P (T(t \<mapsto> r')) + of_bool (P r) = cnt P T + of_bool (P r')"
proof -
  let ?A = "{u. u \<noteq> t \<and> (\<exists>r. T u = Some r \<and> P r)}"
  have fin: "finite ?A" by (rule finite_subset [OF _ assms(1)]) auto
  have split: "cnt P U = card ?A + of_bool (P v)" if "U t = Some v" "\<And>u. u \<noteq> t \<Longrightarrow> U u = T u" for U v
  proof -
    have "{u. \<exists>r. U u = Some r \<and> P r} = (if P v then insert t ?A else ?A)"
      using that by auto (metis option.inject)+
    then show ?thesis using fin by (simp add: cnt_def)
  qed
  show ?thesis using split [of T r] split [of "T(t \<mapsto> r')" r'] assms(2) by simp
qed

lemma cnt_insert:
  assumes "finite (dom T)" and "T t = None"
  shows "cnt P (T(t \<mapsto> r)) = cnt P T + of_bool (P r)"
proof -
  have "{u. \<exists>v. (T(t \<mapsto> r)) u = Some v \<and> P v} =
      (if P r then insert t {u. \<exists>v. T u = Some v \<and> P v} else {u. \<exists>v. T u = Some v \<and> P v})"
    using assms(2) by auto
  moreover have "finite {u. \<exists>v. T u = Some v \<and> P v}" by (rule finite_subset [OF _ assms(1)]) auto
  ultimately show ?thesis using assms(2) by (simp add: cnt_def)
qed

lemma cnt_delete:
  assumes "finite (dom T)" and "T t = Some r"
  shows "cnt P (T(t := None)) + of_bool (P r) = cnt P T"
proof -
  have "cnt P ((T(t := None))(t \<mapsto> r)) = cnt P (T(t := None)) + of_bool (P r)"
    by (rule cnt_insert) (use assms(1) in auto)
  then show ?thesis using assms(2) by (simp add: fun_upd_idem)
qed

lemma cnt_same: "(\<And>r'. T' t = Some r' \<Longrightarrow> P r' \<longleftrightarrow> P r) \<Longrightarrow> T t = Some r \<Longrightarrow> T' = T(t \<mapsto> r') \<Longrightarrow> cnt P T' = cnt P T"
  unfolding cnt_def by (rule arg_cong [where f = card]) (auto split: if_splits)

section \<open>Links between threads and queues\<close>

lemma holds_at_upd: "holds_at (T(t \<mapsto> r)) loc p u \<longleftrightarrow>
    (if u = t then queued r \<and> queued_processor r = loc \<and> queued_priority r = p else holds_at T loc p u)"
  by (auto simp: holds_at_def)

lemma keyed_at_upd: "keyed_at (T(t \<mapsto> r)) loc k \<longleftrightarrow>
    (if snd k = t then queued r \<and> queued_processor r = loc \<and> realtime_queue_key r = Some k else keyed_at T loc k)"
  by (auto simp: keyed_at_def)

lemma link_other:
  assumes "link_at T loc' q" and "T t = Some r" and "loc' \<noteq> loc"
    and "queued r \<Longrightarrow> queued_processor r = loc" and "queued r' \<Longrightarrow> queued_processor r' = loc"
  shows "link_at (T(t \<mapsto> r')) loc' q"
proof -
  have "holds_at (T(t \<mapsto> r')) loc' p u = holds_at T loc' p u" for p u
    using assms(2-) by (auto simp: holds_at_def)
  moreover have "keyed_at (T(t \<mapsto> r')) loc' k = keyed_at T loc' k" for k
    using assms(2-) by (auto simp: keyed_at_def)
  ultimately show ?thesis using assms(1) by (simp add: link_at_def)
qed

lemma link_neutral:
  assumes "link_at T loc q" and "T t = Some r"
    and "queued r' = queued r" "queued_processor r' = queued_processor r"
      "queued_priority r' = queued_priority r" "realtime_queue_key r' = realtime_queue_key r"
  shows "link_at (T(t \<mapsto> r')) loc q"
proof -
  have "holds_at (T(t \<mapsto> r')) loc p u = holds_at T loc p u" for p u
    using assms(2-) by (auto simp: holds_at_def)
  moreover have "keyed_at (T(t \<mapsto> r')) loc k = keyed_at T loc k" for k
    using assms(2-) by (auto simp: keyed_at_def)
  ultimately show ?thesis using assms(1) by (simp add: link_at_def)
qed

lemma link_insert:
  assumes link: "link_at T loc q" and t: "T t = Some r" "\<not> queued r" and p: "p < 128"
    and r': "queued r'" "queued_processor r' = loc" "queued_priority r' = int p"
      "realtime_queue_key r' = key" "\<And>k. key = Some k \<Longrightarrow> snd k = t"
  shows "link_at (T(t \<mapsto> r')) loc (rq_insert position key t (int p) q)"
proof -
  let ?q = "rq_insert position key t (int p) q"
  have no: "\<not> holds_at T loc i t" "\<And>k. snd k = t \<Longrightarrow> \<not> keyed_at T loc k" for i
    using t by (auto simp: holds_at_def keyed_at_def)
  then have "t \<notin># rq_bag q" using link by (auto simp: link_at_def in_rq_bag)
  then have "rq_inv ?q" using link p by (auto simp: link_at_def intro: rq_insert_inv)
  moreover have "u \<in> set (queues ?q i) \<longleftrightarrow> holds_at (T(t \<mapsto> r')) loc (int i) u" if "i < 128" for i u
  proof -
    have "set (queues ?q i) = (if i = p then insert t (set (queues q i)) else set (queues q i))"
      by (cases "i = p") (auto simp: rq_insert_sel)
    then show ?thesis using link that no r' by (auto simp: link_at_def holds_at_upd)
  qed
  moreover have "k \<in> set (realtime_order ?q) \<longleftrightarrow> keyed_at (T(t \<mapsto> r')) loc k" for k
  proof (cases k)
    case (Pair d u)
    have "set (realtime_order ?q) = set_option key \<union> set (realtime_order q)"
      by (auto simp: rq_insert_sel(3) set_insort_insert split: option.splits)
    then show ?thesis using link no(2) [of k] r' unfolding Pair by (auto simp: link_at_def keyed_at_upd)
  qed
  ultimately show ?thesis by (simp add: link_at_def)
qed

lemma link_erase:
  assumes link: "link_at T loc q" and t: "T t = Some r" "queued r" "queued_processor r = loc"
      "queued_priority r = int p" "realtime_queue_key r = key" "\<And>k. key = Some k \<Longrightarrow> snd k = t"
    and p: "p < 128" and r': "\<not> queued r'"
  shows "link_at (T(t \<mapsto> r')) loc (rq_erase key t (int p) q)"
proof -
  let ?q = "rq_erase key t (int p) q"
  have inv: "rq_inv q" using link by (simp add: link_at_def)
  have mem: "t \<in> set (queues q p)" using link t p by (auto simp: link_at_def holds_at_def)
  have only: "\<And>i. i < 128 \<Longrightarrow> t \<in> set (queues q i) \<Longrightarrow> i = p"
    using queue_unique [OF inv] mem p by blast
  have dist: "distinct (queues q p)" "distinct (realtime_order q)"
    using queue_distinct [OF inv p] inv by (simp_all add: rq_inv_def)
  have "u \<in> set (queues ?q i) \<longleftrightarrow> holds_at (T(t \<mapsto> r')) loc (int i) u" if "i < 128" for i u
    using link that r' only [OF that] dist(1) by (auto simp: link_at_def holds_at_upd rq_erase_sel)
  moreover have "k \<in> set (realtime_order ?q) \<longleftrightarrow> keyed_at (T(t \<mapsto> r')) loc k" for k
  proof (cases k)
    case (Pair d u)
    have "set (realtime_order ?q) = set (realtime_order q) - set_option key"
      using dist(2) by (auto simp: rq_erase_sel split: option.splits)
    moreover have "keyed_at T loc k \<Longrightarrow> snd k = t \<Longrightarrow> key = Some k"
      using t by (auto simp: keyed_at_def)
    ultimately show ?thesis using link t(6) r' unfolding Pair by (auto simp: link_at_def keyed_at_upd)
  qed
  ultimately show ?thesis using rq_erase_inv [OF inv p mem] by (simp add: link_at_def)
qed

section \<open>Queue operations\<close>

lemma run_queue_at_modify [simp]: "run_queue_at (modify t f s) = run_queue_at s"
  by (simp add: run_queue_at_def fun_eq_iff split: option.split)

lemma run_queue_at_runnable_count [simp]: "run_queue_at (s\<lparr>runnable_count := n\<rparr>) = run_queue_at s"
  by (simp add: run_queue_at_def fun_eq_iff split: option.split)

lemma run_queue_at_set:
  "run_queue_at s loc = Some q0 \<Longrightarrow>
    run_queue_at (set_run_queue loc q s) loc' = (if loc' = loc then Some q else run_queue_at s loc')"
  by (auto simp: run_queue_at_def set_run_queue_def split: option.splits if_splits)

definition enqueued_rec :: "thread_id \<Rightarrow> thread_record \<Rightarrow> thread_record" where
  "enqueued_rec t r = r\<lparr>queue_position := Some (),
     realtime_queue_key := (if scheduled_priority r = 97 then Some (realtime_deadline r, t) else None),
     queued := True, queued_priority := scheduled_priority r, queued_processor := bound_processor r\<rparr>"

definition dequeued_rec :: "thread_record \<Rightarrow> thread_record" where
  "dequeued_rec r = r\<lparr>queue_position := None, realtime_queue_key := None, queued := False,
     queued_processor := None\<rparr>"

lemma enqueued_rec_sel [simp]:
  "queued (enqueued_rec t r)"
  "state (enqueued_rec t r) = state r"
  "base_priority (enqueued_rec t r) = base_priority r"
  "scheduled_priority (enqueued_rec t r) = scheduled_priority r"
  "remaining_quantum (enqueued_rec t r) = remaining_quantum r"
  "bound_processor (enqueued_rec t r) = bound_processor r"
  "timeshare (enqueued_rec t r) = timeshare r"
  "realtime (enqueued_rec t r) = realtime r"
  "failsafe (enqueued_rec t r) = failsafe r"
  "depressed (enqueued_rec t r) = depressed r"
  "wake_pending (enqueued_rec t r) = wake_pending r"
  "suspend_count (enqueued_rec t r) = suspend_count r"
  "resume_runnable (enqueued_rec t r) = resume_runnable r"
  "depression_deadline (enqueued_rec t r) = depression_deadline r"
  "failsafe_release_tick (enqueued_rec t r) = failsafe_release_tick r"
  "failsafe_saved_base_priority (enqueued_rec t r) = failsafe_saved_base_priority r"
  "failsafe_saved_timeshare (enqueued_rec t r) = failsafe_saved_timeshare r"
  "failsafe_saved_realtime (enqueued_rec t r) = failsafe_saved_realtime r"
  "realtime_deadline (enqueued_rec t r) = realtime_deadline r"
  by (simp_all add: enqueued_rec_def)

lemma dequeued_rec_sel [simp]:
  "\<not> queued (dequeued_rec r)"
  "state (dequeued_rec r) = state r"
  "base_priority (dequeued_rec r) = base_priority r"
  "scheduled_priority (dequeued_rec r) = scheduled_priority r"
  "remaining_quantum (dequeued_rec r) = remaining_quantum r"
  "bound_processor (dequeued_rec r) = bound_processor r"
  "timeshare (dequeued_rec r) = timeshare r"
  "realtime (dequeued_rec r) = realtime r"
  "failsafe (dequeued_rec r) = failsafe r"
  "depressed (dequeued_rec r) = depressed r"
  "wake_pending (dequeued_rec r) = wake_pending r"
  "suspend_count (dequeued_rec r) = suspend_count r"
  "resume_runnable (dequeued_rec r) = resume_runnable r"
  "depression_deadline (dequeued_rec r) = depression_deadline r"
  "failsafe_release_tick (dequeued_rec r) = failsafe_release_tick r"
  "failsafe_saved_base_priority (dequeued_rec r) = failsafe_saved_base_priority r"
  "failsafe_saved_timeshare (dequeued_rec r) = failsafe_saved_timeshare r"
  "failsafe_saved_realtime (dequeued_rec r) = failsafe_saved_realtime r"
  "realtime_deadline (dequeued_rec r) = realtime_deadline r"
  by (simp_all add: dequeued_rec_def)

text \<open>What an operation leaves alone when it only moves a thread between queues.\<close>

definition moved :: "thread_id \<Rightarrow> thread_record \<Rightarrow> scheduler \<Rightarrow> scheduler \<Rightarrow> bool" where
  "moved t r' s s' \<longleftrightarrow> threads s' = (threads s)(t \<mapsto> r') \<and> rest_of s' = rest_of s \<and>
     length (processor_run_queues s') = length (processor_run_queues s)"

lemma queue_core_rec: "queue_core s \<Longrightarrow> threads s t = Some r \<Longrightarrow> queue_rec (length (processor_run_queues s)) t r"
  by (simp add: queue_core_def)

lemma queue_core_link: "queue_core s \<Longrightarrow> run_queue_at s loc = Some q \<Longrightarrow> link_at (threads s) loc q"
  by (simp add: queue_core_def)

lemma queue_core_finite: "queue_core s \<Longrightarrow> finite (dom (threads s))"
  by (simp add: queue_core_def)

lemma bound_run_queue:
  assumes "queue_rec (length (processor_run_queues s)) t r"
  obtains q where "run_queue_at s (bound_processor r) = Some q"
  using assms that by (cases "bound_processor r") (auto simp: run_queue_at_def queue_rec_def)

lemma enqueue_spec:
  assumes core: "queue_core s" and t: "threads s t = Some r" "\<not> queued r"
    and rt: "scheduled_priority r = 97 \<Longrightarrow> realtime r"
  shows "returns (enqueue t position s) (\<lambda>s'. queue_core s' \<and> moved t (enqueued_rec t r) s s')"
proof -
  note rec = queue_core_rec [OF core t(1)]
  obtain q where q: "run_queue_at s (bound_processor r) = Some q" by (rule bound_run_queue [OF rec])
  define p where "p = nat (scheduled_priority r)"
  have p: "scheduled_priority r = int p" "p < 128" using rec by (auto simp: p_def queue_rec_def)
  define key where "key = realtime_queue_key (enqueued_rec t r)"
  have key: "key = (if realtime r \<and> realtime_queue_priority \<le> int p then Some (realtime_deadline r, t) else None)"
    using rec rt p by (auto simp: key_def enqueued_rec_def realtime_queue_priority_def queue_rec_def)
  have none: "realtime_queue_key r = None" using rec t(2) by (simp add: queue_rec_def)
  let ?q = "rq_insert position key t (int p) q"
  define s' where "s' = (set_run_queue (bound_processor r) ?q s)\<lparr>runnable_count := runnable_count s + 1\<rparr>"
  have res: "enqueue t position s = Inr (modify t (\<lambda>_. enqueued_rec t r) s')"
    using t q none key
    by (auto simp: enqueue_def Let_def p s'_def modify_def enqueued_rec_def realtime_queue_priority_def key_def)
  have T: "threads s' = threads s" by (simp add: s'_def)
  have len: "length (processor_run_queues s') = length (processor_run_queues s)" by (simp add: s'_def)
  have at: "run_queue_at s' loc = (if loc = bound_processor r then Some ?q else run_queue_at s loc)" for loc
    using run_queue_at_set [OF q, of ?q loc] by (simp add: s'_def)
  have link: "link_at ((threads s)(t \<mapsto> enqueued_rec t r)) loc q'" if "run_queue_at s' loc = Some q'" for loc q'
  proof (cases "loc = bound_processor r")
    case True
    have "link_at ((threads s)(t \<mapsto> enqueued_rec t r)) loc ?q"
      unfolding True by (rule link_insert [OF queue_core_link [OF core q] t p(2)])
        (auto simp: enqueued_rec_def p key_def split: if_splits)
    with that True show ?thesis by (simp add: at)
  next
    case False
    with that at have "link_at (threads s) loc q'" using core queue_core_link by auto
    then show ?thesis using t False by (rule_tac link_other) (auto simp: enqueued_rec_def)
  qed
  have "queue_rec (length (processor_run_queues s)) t (enqueued_rec t r)"
    using rec by (auto simp: queue_rec_def enqueued_rec_def split: if_splits)
  moreover have "runnable_count s + 1 = cnt queued ((threads s)(t \<mapsto> enqueued_rec t r))"
    using cnt_upd [OF queue_core_finite [OF core] t(1), of queued "enqueued_rec t r"] core t(2)
    by (simp add: enqueued_rec_def queue_core_def)
  ultimately have "queue_core (modify t (\<lambda>_. enqueued_rec t r) s')"
    using core link t len by (auto simp: queue_core_def T) (simp_all add: s'_def)
  then show ?thesis
    using t unfolding res by (simp add: moved_def T len) (simp add: s'_def)
qed

lemma remove_from_queue_spec:
  assumes core: "queue_core s" and t: "threads s t = Some r" "queued r"
  shows "returns (remove_from_queue t s) (\<lambda>s'. queue_core s' \<and> moved t (dequeued_rec r) s s')"
proof -
  note rec = queue_core_rec [OF core t(1)]
  have eqs: "queued_processor r = bound_processor r" "queued_priority r = scheduled_priority r"
      "queue_position r = Some ()"
    using rec t(2) by (auto simp: queue_rec_def)
  obtain q where q: "run_queue_at s (queued_processor r) = Some q"
    using bound_run_queue [OF rec] eqs by auto
  define p where "p = nat (queued_priority r)"
  have p: "queued_priority r = int p" "p < 128" using rec eqs by (auto simp: p_def queue_rec_def)
  let ?q = "rq_erase (realtime_queue_key r) t (int p) q"
  define s' where "s' = (set_run_queue (queued_processor r) ?q s)\<lparr>runnable_count := runnable_count s - 1\<rparr>"
  have res: "remove_from_queue t s = Inr (modify t (\<lambda>_. dequeued_rec r) s')"
    using t q by (simp add: remove_from_queue_def record_of_def Let_def p s'_def modify_def dequeued_rec_def eqs)
  have T: "threads s' = threads s" by (simp add: s'_def)
  have len: "length (processor_run_queues s') = length (processor_run_queues s)" by (simp add: s'_def)
  have at: "run_queue_at s' loc = (if loc = queued_processor r then Some ?q else run_queue_at s loc)" for loc
    using run_queue_at_set [OF q, of ?q loc] by (simp add: s'_def)
  have link: "link_at ((threads s)(t \<mapsto> dequeued_rec r)) loc q'" if "run_queue_at s' loc = Some q'" for loc q'
  proof (cases "loc = queued_processor r")
    case True
    have "link_at ((threads s)(t \<mapsto> dequeued_rec r)) loc ?q"
      unfolding True by (rule link_erase [OF queue_core_link [OF core q] t])
        (use rec t(2) p in \<open>simp_all add: dequeued_rec_def queue_rec_def\<close>)
    with that True show ?thesis by (simp add: at)
  next
    case False
    with that at have "link_at (threads s) loc q'" using core queue_core_link by auto
    then show ?thesis using t False by (rule_tac link_other) (auto simp: dequeued_rec_def)
  qed
  have "queue_rec (length (processor_run_queues s)) t (dequeued_rec r)"
    using rec by (auto simp: queue_rec_def dequeued_rec_def split: if_splits)
  moreover have "runnable_count s - 1 = cnt queued ((threads s)(t \<mapsto> dequeued_rec r))"
    using cnt_upd [OF queue_core_finite [OF core] t(1), of queued "dequeued_rec r"] core t(2)
    by (simp add: dequeued_rec_def queue_core_def)
  ultimately have "queue_core (modify t (\<lambda>_. dequeued_rec r) s')"
    using core link t len by (auto simp: queue_core_def T) (simp_all add: s'_def)
  then show ?thesis
    using t unfolding res by (simp add: moved_def T len) (simp add: s'_def)
qed

section \<open>Changes of one record\<close>

text \<open>A change that leaves the queue fields of a record alone keeps \<open>queue_core\<close>.\<close>

lemma queue_core_change:
  assumes core: "queue_core s" and t: "threads s t = Some r"
    and s': "threads s' = (threads s)(t \<mapsto> r')" "processor_set_run_queue s' = processor_set_run_queue s"
      "processor_run_queues s' = processor_run_queues s" "runnable_count s' = runnable_count s"
    and same: "queued r' = queued r" "queued_processor r' = queued_processor r"
      "queued_priority r' = queued_priority r" "realtime_queue_key r' = realtime_queue_key r"
    and rec: "queue_rec (length (processor_run_queues s)) t r'"
  shows "queue_core s'"
proof -
  have "run_queue_at s' = run_queue_at s"
    using s' by (simp add: run_queue_at_def fun_eq_iff split: option.split)
  moreover have "link_at ((threads s)(t \<mapsto> r')) loc q" if "run_queue_at s loc = Some q" for loc q
    using queue_core_link [OF core that] t same by (rule link_neutral)
  moreover have "cnt queued ((threads s)(t \<mapsto> r')) = cnt queued (threads s)"
    using cnt_upd [OF queue_core_finite [OF core] t, of queued r'] same by simp
  ultimately show ?thesis using core s' rec by (auto simp: queue_core_def)
qed

text \<open>The counters follow a change of the state or the policy of one thread.\<close>

lemma count_core_change:
  assumes "count_core s" and fin: "finite (dom (threads s))" and t: "threads s t = Some r"
    and "threads s' = (threads s)(t \<mapsto> r')"
    and "waiting_count s' + of_bool (state r = Waiting) = waiting_count s + of_bool (state r' = Waiting)"
    and "active_timeshare_count s' + of_bool (state r \<noteq> Waiting \<and> timeshare r) =
      active_timeshare_count s + of_bool (state r' \<noteq> Waiting \<and> timeshare r')"
  shows "count_core s'"
proof -
  have "waiting_count s = cnt (\<lambda>r. state r = Waiting) (threads s)"
    "active_timeshare_count s = cnt (\<lambda>r. state r \<noteq> Waiting \<and> timeshare r) (threads s)"
    using assms(1) by (simp_all add: count_core_def)
  then show ?thesis
    using assms(5,6) cnt_upd [OF fin t, of "\<lambda>r. state r = Waiting" r']
      cnt_upd [OF fin t, of "\<lambda>r. state r \<noteq> Waiting \<and> timeshare r" r']
    unfolding count_core_def assms(4) by linarith
qed

lemma waiting_positive:
  assumes "count_core s" "finite (dom (threads s))" "threads s t = Some r" "state r = Waiting"
  shows "waiting_count s > 0"
proof -
  have "t \<in> {t. \<exists>r. threads s t = Some r \<and> state r = Waiting}" using assms by simp
  moreover have "finite {t. \<exists>r. threads s t = Some r \<and> state r = Waiting}"
    by (rule finite_subset [OF _ assms(2)]) auto
  ultimately show ?thesis using assms(1) by (auto simp: count_core_def cnt_def card_gt_0_iff)
qed

lemma active_positive:
  assumes "count_core s" "finite (dom (threads s))" "threads s t = Some r" "state r \<noteq> Waiting" "timeshare r"
  shows "active_timeshare_count s > 0"
proof -
  have "t \<in> {t. \<exists>r. threads s t = Some r \<and> (state r \<noteq> Waiting \<and> timeshare r)}" using assms by simp
  moreover have "finite {t. \<exists>r. threads s t = Some r \<and> (state r \<noteq> Waiting \<and> timeshare r)}"
    by (rule finite_subset [OF _ assms(2)]) auto
  ultimately show ?thesis using assms(1) by (auto simp: count_core_def cnt_def card_gt_0_iff)
qed

lemma order_ok_upd:
  assumes ok: "order_ok K T xs" and t: "T t = Some r"
    and keys: "\<And>d. K d r' \<longleftrightarrow> K d r"
  shows "order_ok K (T(t \<mapsto> r')) xs"
  using assms by (auto simp: order_ok_def)

lemma process_ok_upd: "process_ok T P \<Longrightarrow> T t = Some r \<Longrightarrow> process_ok (T(t \<mapsto> r')) P"
proof -
  assume "process_ok T P" "T t = Some r"
  moreover from this(2) have "{u. ti_process u = p \<and> (T(t \<mapsto> r')) u \<noteq> None} = {u. ti_process u = p \<and> T u \<noteq> None}" for p
    by auto
  ultimately show ?thesis unfolding process_ok_def by simp
qed

lemma index_core_change:
  assumes "index_core s" and "threads s t = Some r" and "threads s' = (threads s)(t \<mapsto> r')"
    and "depression_order s' = depression_order s" "failsafe_order s' = failsafe_order s"
      "process_threads s' = process_threads s"
    and "depression_deadline r' = depression_deadline r" "failsafe r' = failsafe r"
      "failsafe_release_tick r' = failsafe_release_tick r"
  shows "index_core s'"
  using assms unfolding index_core_def by (simp add: order_ok_upd process_ok_upd)

section \<open>Recomputing a priority\<close>

text \<open>The part of a record that moving it and setting its scheduled priority leaves alone.\<close>

definition policy_of :: "thread_record \<Rightarrow> thread_record" where
  "policy_of r = r\<lparr>scheduled_priority := 0, queued := False, queued_priority := 0, queue_position := None,
     realtime_queue_key := None, queued_processor := None\<rparr>"

lemma policy_ofD:
  assumes "policy_of r' = policy_of r"
  shows "state r' = state r" "base_priority r' = base_priority r" "remaining_quantum r' = remaining_quantum r"
    "bound_processor r' = bound_processor r" "timeshare r' = timeshare r" "realtime r' = realtime r"
    "failsafe r' = failsafe r" "depressed r' = depressed r" "wake_pending r' = wake_pending r"
    "suspend_count r' = suspend_count r" "resume_runnable r' = resume_runnable r"
    "depression_deadline r' = depression_deadline r" "failsafe_release_tick r' = failsafe_release_tick r"
    "failsafe_saved_base_priority r' = failsafe_saved_base_priority r"
    "failsafe_saved_timeshare r' = failsafe_saved_timeshare r"
    "failsafe_saved_realtime r' = failsafe_saved_realtime r"
    "realtime_deadline r' = realtime_deadline r" "remaining_timeslices r' = remaining_timeslices r"
    "last_processor r' = last_processor r" "timeslice_processor r' = timeslice_processor r"
    "scheduling_usage r' = scheduling_usage r" "priority_usage_shift r' = priority_usage_shift r"
  using assms by (cases r; cases r'; simp add: policy_of_def)+

lemma policy_of_simps [simp]:
  "policy_of (enqueued_rec t r) = policy_of r"
  "policy_of (dequeued_rec r) = policy_of r"
  "policy_of (r\<lparr>scheduled_priority := p\<rparr>) = policy_of r"
  by (simp_all add: policy_of_def enqueued_rec_def dequeued_rec_def)

lemma policy_priority_range:
  assumes "0 \<le> base_priority r" "base_priority r \<le> 96"
  shows "0 \<le> policy_priority r" "policy_priority r \<le> 97" "policy_priority r = 97 \<longleftrightarrow> realtime r"
  using assms
  by (auto simp: policy_priority_def Let_def realtime_queue_priority_def minimum_priority_def
      maximum_kernel_priority_def)

lemma moved_counts:
  assumes "moved t r' s s'" "threads s t = Some r" "policy_of r' = policy_of r"
  shows "count_core s \<Longrightarrow> finite (dom (threads s)) \<Longrightarrow> count_core s'" and "index_core s \<Longrightarrow> index_core s'"
proof -
  note m = assms(1) [unfolded moved_def]
  note same = policy_ofD [OF assms(3)] rest_ofD [OF m [THEN conjunct2, THEN conjunct1]]
  show "count_core s'" if "count_core s" "finite (dom (threads s))"
    by (rule count_core_change [OF that assms(2), where r' = r']) (use m in \<open>simp_all add: same\<close>)
  show "index_core s'" if "index_core s"
    by (rule index_core_change [OF that assms(2), where r' = r']) (use m in \<open>simp_all add: same\<close>)
qed

text \<open>The outcome of an operation that may move one thread: the cores are kept, the record keeps
  its policy and its membership, and nothing else changes.\<close>

definition resettled :: "thread_id \<Rightarrow> thread_record \<Rightarrow> scheduler \<Rightarrow> scheduler \<Rightarrow> bool" where
  "resettled t r s s' \<longleftrightarrow> queue_core s' \<and> (\<exists>r'. moved t r' s s' \<and> policy_of r' = policy_of r \<and>
     queued r' = queued r \<and> scheduled_priority r' =
       (if depressed r then scheduled_priority r else policy_priority r))"

lemma moved_trans: "moved t r1 s s1 \<Longrightarrow> moved t r2 s1 s2 \<Longrightarrow> moved t r2 s s2"
  by (auto simp: moved_def)

lemma moved_modify: "threads s t = Some r \<Longrightarrow> moved t (f r) s (modify t f s)"
  by (simp add: moved_def)

lemma queue_core_reprioritise:
  assumes core: "queue_core s" and t: "threads s t = Some r" "\<not> queued r"
    and "0 \<le> p" "p \<le> 97"
  shows "queue_core (modify t (\<lambda>r. r\<lparr>scheduled_priority := p\<rparr>) s)"
  by (rule queue_core_change [OF core t(1), where r' = "r\<lparr>scheduled_priority := p\<rparr>"])
    (use assms queue_core_rec [OF core t(1)] in \<open>simp_all add: queue_rec_def\<close>)

lemma recompute_priority_spec:
  assumes core: "queue_core s" and t: "threads s t = Some r"
    and base: "0 \<le> base_priority r" "base_priority r \<le> 96"
  shows "returns (recompute_priority t s) (resettled t r s)"
proof (cases "depressed r \<or> policy_priority r = scheduled_priority r")
  case True
  then have "recompute_priority t s = Inr s"
    using t by (auto simp: recompute_priority_def Let_def record_of_def)
  moreover have "moved t r s s" using t by (simp add: moved_def fun_upd_idem)
  ultimately show ?thesis using core True by (auto simp: resettled_def)
next
  case False
  let ?p = "policy_priority r"
  note range = policy_priority_range [OF base]
  have res: "recompute_priority t s =
      and_then (if queued r then remove_from_queue t s else Inr s) (\<lambda>s1.
        let s2 = modify t (\<lambda>r. r\<lparr>scheduled_priority := ?p\<rparr>) s1
        in if queued r then enqueue t Back s2 else Inr s2)"
    using t False by (simp add: recompute_priority_def Let_def record_of_def)
  show ?thesis
  proof (cases "queued r")
    case False
    have "moved t (r\<lparr>scheduled_priority := ?p\<rparr>) s (modify t (\<lambda>r. r\<lparr>scheduled_priority := ?p\<rparr>) s)"
      using t by (simp add: moved_def)
    with False show ?thesis
      using queue_core_reprioritise [OF core t False range(1,2)] \<open>\<not> (depressed r \<or> _)\<close>
      unfolding res by (auto simp: resettled_def Let_def intro!: exI [of _ "r\<lparr>scheduled_priority := ?p\<rparr>"])
  next
    case True
    let ?r1 = "dequeued_rec r"
    let ?r2 = "?r1\<lparr>scheduled_priority := ?p\<rparr>"
    show ?thesis unfolding res if_P [OF True] Let_def
    proof (rule returns_and_then [OF remove_from_queue_spec [OF core t True]])
      fix s1 assume s1: "queue_core s1 \<and> moved t ?r1 s s1"
      then have t1: "threads s1 t = Some ?r1" by (simp add: moved_def)
      let ?s2 = "modify t (\<lambda>r. r\<lparr>scheduled_priority := ?p\<rparr>) s1"
      have core2: "queue_core ?s2"
        using s1 t1 range by (intro queue_core_reprioritise) (auto simp: dequeued_rec_def)
      have m2: "moved t ?r2 s ?s2"
        using moved_trans [of t ?r1 s s1 ?r2] s1 moved_modify [OF t1] by simp
      have t2: "threads ?s2 t = Some ?r2" using t1 by simp
      show "returns (enqueue t Back ?s2) (resettled t r s)"
      proof (rule returns_mono [OF enqueue_spec [OF core2 t2]])
        show "\<not> queued ?r2" by (simp add: dequeued_rec_def)
        show "scheduled_priority ?r2 = 97 \<Longrightarrow> realtime ?r2"
          using range(3) by (simp add: dequeued_rec_def)
        fix s' assume s': "queue_core s' \<and> moved t (enqueued_rec t ?r2) ?s2 s'"
        then have "moved t (enqueued_rec t ?r2) s s'" using moved_trans [OF m2] by blast
        with s' True \<open>\<not> (depressed r \<or> _)\<close> show "resettled t r s s'"
          by (auto simp: resettled_def intro!: exI [of _ "enqueued_rec t ?r2"])
      qed
    qed
  qed
qed

section \<open>Threads and index entries that come and go\<close>

lemma order_ok_insort:
  assumes "order_ok K T xs" and "T t = Some r" and "\<And>d'. \<not> K d' r" and "\<And>d'. K d' r' \<longleftrightarrow> d' = d"
  shows "order_ok K (T(t \<mapsto> r')) (insort_insert (d, t) xs)"
  using assms by (auto simp: order_ok_def set_insort_insert sorted_insort_insert distinct_insort_insert)

lemma order_ok_remove:
  assumes "order_ok K T xs" and "T t = Some r" and "\<And>d'. K d' r \<longleftrightarrow> d' = d" and "\<And>d'. \<not> K d' r'"
  shows "order_ok K (T(t \<mapsto> r')) (remove1 (d, t) xs)"
  using assms by (auto simp: order_ok_def sorted_remove1)

lemma order_ok_delete:
  assumes "order_ok K T xs" and "T t = Some r" and "\<And>d'. \<not> K d' r"
  shows "order_ok K (T(t := None)) xs"
  using assms unfolding order_ok_def by auto

lemma order_ok_insert:
  assumes "order_ok K T xs" and "T t = None" and "\<And>d'. \<not> K d' r"
  shows "order_ok K (T(t \<mapsto> r)) xs"
  using assms unfolding order_ok_def by auto

lemma process_ok_insert:
  assumes "process_ok T P"
  shows "process_ok (T(t \<mapsto> r)) (P(ti_process t \<mapsto>
    insert t (case P (ti_process t) of None \<Rightarrow> {} | Some m \<Rightarrow> m)))"
proof -
  have P: "P p = (let m = {u. ti_process u = p \<and> T u \<noteq> None} in if m = {} then None else Some m)" for p
    using assms unfolding process_ok_def by blast
  let ?M = "\<lambda>p. {u. ti_process u = p \<and> (T(t \<mapsto> r)) u \<noteq> None}"
  have "?M (ti_process t) = insert t {u. ti_process u = ti_process t \<and> T u \<noteq> None}" by auto
  moreover have "p \<noteq> ti_process t \<Longrightarrow> ?M p = {u. ti_process u = p \<and> T u \<noteq> None}" for p by auto
  ultimately show ?thesis unfolding process_ok_def by (auto simp: Let_def P)
qed

lemma process_ok_delete:
  assumes "process_ok T P" and "T t = Some r"
  shows "\<exists>m. P (ti_process t) = Some m \<and>
    process_ok (T(t := None)) (P(ti_process t := (if m - {t} = {} then None else Some (m - {t}))))"
proof -
  have P: "P p = (let m = {u. ti_process u = p \<and> T u \<noteq> None} in if m = {} then None else Some m)" for p
    using assms(1) unfolding process_ok_def by blast
  let ?m = "{u. ti_process u = ti_process t \<and> T u \<noteq> None}"
  have "P (ti_process t) = Some ?m" using assms(2) by (auto simp: P Let_def)
  moreover have "{u. ti_process u = p \<and> (T(t := None)) u \<noteq> None} =
      (if p = ti_process t then ?m - {t} else {u. ti_process u = p \<and> T u \<noteq> None})" for p by auto
  ultimately show ?thesis unfolding process_ok_def by (auto simp: Let_def P)
qed

text \<open>Inserting and deleting a thread that is on no queue.\<close>

lemma link_insert_thread:
  "link_at T loc q \<Longrightarrow> T t = None \<Longrightarrow> \<not> queued r \<Longrightarrow> link_at (T(t \<mapsto> r)) loc q"
  unfolding link_at_def by (auto simp: holds_at_def keyed_at_def)

lemma link_delete_thread:
  assumes "link_at T loc q" "T t = Some r" "\<not> queued r"
  shows "link_at (T(t := None)) loc q"
proof -
  have "holds_at (T(t := None)) loc p u = holds_at T loc p u" for p u
    using assms(2,3) by (auto simp: holds_at_def)
  moreover have "keyed_at (T(t := None)) loc k = keyed_at T loc k" for k
    using assms(2,3) by (auto simp: keyed_at_def)
  ultimately show ?thesis using assms(1) by (simp add: link_at_def)
qed

lemma queue_core_insert:
  assumes core: "queue_core s" and t: "threads s t = None" and r: "\<not> queued r"
      "queue_rec (length (processor_run_queues s)) t r"
    and s': "threads s' = (threads s)(t \<mapsto> r)" "processor_set_run_queue s' = processor_set_run_queue s"
      "processor_run_queues s' = processor_run_queues s" "runnable_count s' = runnable_count s"
  shows "queue_core s'"
proof -
  have "run_queue_at s' = run_queue_at s"
    using s' by (simp add: run_queue_at_def fun_eq_iff split: option.split)
  then show ?thesis
    using core s' r t link_insert_thread [of "threads s" _ _ t r] cnt_insert [OF queue_core_finite [OF core] t, of queued r]
    by (auto simp: queue_core_def)
qed

lemma queue_core_delete:
  assumes core: "queue_core s" and t: "threads s t = Some r" and r: "\<not> queued r"
    and s': "threads s' = (threads s)(t := None)" "processor_set_run_queue s' = processor_set_run_queue s"
      "processor_run_queues s' = processor_run_queues s" "runnable_count s' = runnable_count s"
  shows "queue_core s'"
proof -
  have "run_queue_at s' = run_queue_at s"
    using s' by (simp add: run_queue_at_def fun_eq_iff split: option.split)
  then show ?thesis
    using core s' r link_delete_thread [of "threads s" _ _ t r] t cnt_delete [OF queue_core_finite [OF core] t, of queued]
    by (auto simp: queue_core_def)
qed

lemma count_core_insert:
  assumes "count_core s" "finite (dom (threads s))" "threads s t = None" "threads s' = (threads s)(t \<mapsto> r)"
    and "waiting_count s' = waiting_count s + of_bool (state r = Waiting)"
    and "active_timeshare_count s' = active_timeshare_count s + of_bool (state r \<noteq> Waiting \<and> timeshare r)"
  shows "count_core s'"
  using assms cnt_insert [OF assms(2,3)] unfolding count_core_def by simp

lemma count_core_delete:
  assumes "count_core s" and fin: "finite (dom (threads s))" and t: "threads s t = Some r"
    and "threads s' = (threads s)(t := None)"
    and "waiting_count s' + of_bool (state r = Waiting) = waiting_count s"
    and "active_timeshare_count s' + of_bool (state r \<noteq> Waiting \<and> timeshare r) = active_timeshare_count s"
  shows "count_core s'"
proof -
  have "waiting_count s = cnt (\<lambda>r. state r = Waiting) (threads s)"
    "active_timeshare_count s = cnt (\<lambda>r. state r \<noteq> Waiting \<and> timeshare r) (threads s)"
    using assms(1) by (simp_all add: count_core_def)
  then show ?thesis
    using assms(5,6) cnt_delete [OF fin t, of "\<lambda>r. state r = Waiting"]
      cnt_delete [OF fin t, of "\<lambda>r. state r \<noteq> Waiting \<and> timeshare r"]
    unfolding count_core_def assms(4) by linarith
qed

text \<open>\<open>unindex_thread\<close> followed by the erasure of the thread.\<close>

lemma unindex_thread_sel [simp]:
  "threads (unindex_thread t s) = threads s"
  "processor_set_run_queue (unindex_thread t s) = processor_set_run_queue s"
  "processor_run_queues (unindex_thread t s) = processor_run_queues s"
  "runnable_count (unindex_thread t s) = runnable_count s"
  "waiting_count (unindex_thread t s) = waiting_count s"
  "active_timeshare_count (unindex_thread t s) = active_timeshare_count s"
  by (simp_all add: unindex_thread_def unindex_failsafe_def unindex_depression_def Let_def split: option.split)

lemma unindex_thread_orders:
  assumes "index_core s" and t: "threads s t = Some r"
  shows "order_ok depression_key ((threads s)(t := None)) (depression_order (unindex_thread t s))"
    and "order_ok failsafe_key ((threads s)(t := None)) (failsafe_order (unindex_thread t s))"
    and "process_ok ((threads s)(t := None)) (process_threads (unindex_thread t s))"
proof -
  have ok: "order_ok depression_key (threads s) (depression_order s)"
      "order_ok failsafe_key (threads s) (failsafe_order s)" "process_ok (threads s) (process_threads s)"
    using assms(1) by (simp_all add: index_core_def)
  let ?r = "r\<lparr>depression_deadline := None, failsafe := False\<rparr>"
  have del: "((threads s)(t \<mapsto> ?r))(t := None) = (threads s)(t := None)" by simp
  have d: "depression_order (unindex_thread t s) = (case depression_deadline r of None \<Rightarrow> depression_order s
      | Some d \<Rightarrow> remove1 (d, t) (depression_order s))"
    using t by (simp add: unindex_thread_def unindex_failsafe_def unindex_depression_def Let_def record_of_def split: option.split)
  have f: "failsafe_order (unindex_thread t s) = (if failsafe r then remove1 (failsafe_release_tick r, t) (failsafe_order s)
      else failsafe_order s)"
    using t by (simp add: unindex_thread_def unindex_failsafe_def unindex_depression_def Let_def record_of_def split: option.split)
  show "order_ok depression_key ((threads s)(t := None)) (depression_order (unindex_thread t s))"
  proof (cases "depression_deadline r")
    case None
    then show ?thesis using order_ok_delete [OF ok(1) t] by (simp add: d)
  next
    case (Some dl)
    have "order_ok depression_key ((threads s)(t \<mapsto> ?r)) (remove1 (dl, t) (depression_order s))"
      using ok(1) t by (rule order_ok_remove) (auto simp: Some)
    from order_ok_delete [OF this, of t ?r] Some show ?thesis by (simp add: d)
  qed
  show "order_ok failsafe_key ((threads s)(t := None)) (failsafe_order (unindex_thread t s))"
  proof (cases "failsafe r")
    case False
    then show ?thesis using order_ok_delete [OF ok(2) t] by (simp add: f)
  next
    case True
    have "order_ok failsafe_key ((threads s)(t \<mapsto> ?r)) (remove1 (failsafe_release_tick r, t) (failsafe_order s))"
      using ok(2) t by (rule order_ok_remove) (auto simp: True)
    from order_ok_delete [OF this, of t ?r] True show ?thesis by (simp add: f)
  qed
  show "process_ok ((threads s)(t := None)) (process_threads (unindex_thread t s))"
  proof -
    obtain m where m: "process_threads s (ti_process t) = Some m" "process_ok ((threads s)(t := None))
        ((process_threads s)(ti_process t := (if m - {t} = {} then None else Some (m - {t}))))"
      using process_ok_delete [OF ok(3) t] by blast
    have "process_threads (unindex_thread t s) =
        (process_threads s)(ti_process t := (if m - {t} = {} then None else Some (m - {t})))"
      using t m(1) by (simp add: unindex_thread_def unindex_failsafe_def unindex_depression_def Let_def split: option.split)
    with m(2) show ?thesis by simp
  qed
qed

section \<open>Composing the layers\<close>

definition cores :: "scheduler \<Rightarrow> bool" where
  "cores s \<longleftrightarrow> queue_core s \<and> count_core s \<and> index_core s"

lemma sched_inv_cores: "sched_inv s \<Longrightarrow> cores s"
  by (simp add: sched_inv_def cores_def)

lemma sched_inv_rec: "sched_inv s \<Longrightarrow> threads s t = Some r \<Longrightarrow> policy_rec r \<and> life_rec r"
  by (simp add: sched_inv_def)

lemma cores_finite: "cores s \<Longrightarrow> finite (dom (threads s))"
  by (simp add: cores_def queue_core_def)

lemma cores_queue_rec: "cores s \<Longrightarrow> threads s t = Some r \<Longrightarrow> queue_rec (length (processor_run_queues s)) t r"
  by (simp add: cores_def queue_core_def)

lemma sched_inv_one:
  assumes "sched_inv s" "cores s'" "threads s' = (threads s)(t \<mapsto> r')" "policy_rec r'" "life_rec r'"
  shows "sched_inv s'"
  using assms by (auto simp: sched_inv_def cores_def)

lemma cores_moved:
  assumes "cores s" "threads s t = Some r" "queue_core s'" "moved t r' s s'" "policy_of r' = policy_of r"
  shows "cores s'"
  using assms moved_counts [OF assms(4,2,5)] by (simp add: cores_def queue_core_finite)

text \<open>A change of one record that touches neither queue fields nor index keys.\<close>

lemma cores_change:
  assumes cores: "cores s" and t: "threads s t = Some r" and s': "threads s' = (threads s)(t \<mapsto> r')"
    and queues: "processor_set_run_queue s' = processor_set_run_queue s"
      "processor_run_queues s' = processor_run_queues s" "runnable_count s' = runnable_count s"
    and orders: "depression_order s' = depression_order s" "failsafe_order s' = failsafe_order s"
      "process_threads s' = process_threads s"
    and same: "queued r' = queued r" "queued_processor r' = queued_processor r"
      "queued_priority r' = queued_priority r" "realtime_queue_key r' = realtime_queue_key r"
      "queue_position r' = queue_position r" "bound_processor r' = bound_processor r"
      "scheduled_priority r' = scheduled_priority r"
      "depression_deadline r' = depression_deadline r" "failsafe r' = failsafe r"
      "failsafe_release_tick r' = failsafe_release_tick r"
    and counts: "waiting_count s' + of_bool (state r = Waiting) = waiting_count s + of_bool (state r' = Waiting)"
      "active_timeshare_count s' + of_bool (state r \<noteq> Waiting \<and> timeshare r) =
        active_timeshare_count s + of_bool (state r' \<noteq> Waiting \<and> timeshare r')"
  shows "cores s'"
proof -
  have c: "queue_core s" "count_core s" "index_core s" using cores by (simp_all add: cores_def)
  have "queue_rec (length (processor_run_queues s)) t r'"
    using queue_core_rec [OF c(1) t] same unfolding queue_rec_def by simp
  with c(1) t s' queues same have "queue_core s'" by (intro queue_core_change [OF c(1) t]) simp_all
  moreover have "count_core s'" by (rule count_core_change [OF c(2) queue_core_finite [OF c(1)] t s' counts])
  moreover have "index_core s'" by (rule index_core_change [OF c(3) t s' orders same(8-10)])
  ultimately show ?thesis by (simp add: cores_def)
qed

lemmas cores_modify = cores_change [where s' = "modify t f s" for t f s, simplified]

definition settled :: "thread_record \<Rightarrow> bool" where
  "settled r \<longleftrightarrow> 0 \<le> base_priority r \<and> base_priority r \<le> 96 \<and>
     0 \<le> failsafe_saved_base_priority r \<and> failsafe_saved_base_priority r \<le> 96 \<and>
     (depressed r \<longrightarrow> scheduled_priority r = 0) \<and> (\<not> depressed r \<longrightarrow> depression_deadline r = None)"

lemma policy_rec_settled: "policy_rec r \<Longrightarrow> settled r"
  by (simp add: policy_rec_def settled_def)

lemma settled_policy_rec:
  assumes "settled r" "policy_of r' = policy_of r"
    "scheduled_priority r' = (if depressed r then scheduled_priority r else policy_priority r)"
  shows "policy_rec r'"
  using assms(1,3) policy_priority_range [of r] unfolding policy_rec_def settled_def policy_ofD [OF assms(2)]
  by auto

lemma recompute_cores:
  assumes "cores s" and t: "threads s t = Some r" and "settled r"
  shows "returns (recompute_priority t s) (\<lambda>s'. cores s' \<and> resettled t r s s')"
proof (rule returns_mono [OF recompute_priority_spec [OF _ t]])
  show "queue_core s" "0 \<le> base_priority r" "base_priority r \<le> 96"
    using assms by (simp_all add: cores_def settled_def)
  fix s' assume "resettled t r s s'"
  then show "cores s' \<and> resettled t r s s'"
    using assms(1) t by (auto simp: resettled_def intro: cores_moved)
qed

lemma recompute_inv:
  assumes inv: "sched_inv s" and "cores s1" and s1: "threads s1 = (threads s)(t \<mapsto> r)"
    and r: "settled r" "life_rec r"
  shows "returns (recompute_priority t s1) (\<lambda>s'. sched_inv s' \<and> resettled t r s1 s')"
proof (rule returns_mono [OF recompute_cores [OF assms(2) _ r(1)]])
  show "threads s1 t = Some r" by (simp add: s1)
  fix s' assume s': "cores s' \<and> resettled t r s1 s'"
  then obtain r' where r': "moved t r' s1 s'" "policy_of r' = policy_of r" "queued r' = queued r"
      "scheduled_priority r' = (if depressed r then scheduled_priority r else policy_priority r)"
    by (auto simp: resettled_def)
  have "life_rec r'" using r(2) unfolding life_rec_def policy_ofD [OF r'(2)] r'(3) .
  moreover have "policy_rec r'" by (rule settled_policy_rec [OF r(1) r'(2,4)])
  moreover have "threads s' = (threads s)(t \<mapsto> r')" using r'(1) by (simp add: moved_def s1)
  ultimately show "sched_inv s' \<and> resettled t r s1 s'"
    using s' sched_inv_one [OF inv] by blast
qed

lemma enqueue_inv:
  assumes inv: "sched_inv s" and cores: "cores s1" and s1: "threads s1 = (threads s)(t \<mapsto> r)"
    and r: "policy_rec r" "\<not> queued r" "state r = Runnable" "suspend_count r = 0"
  shows "returns (enqueue t position s1) (\<lambda>s'. sched_inv s' \<and> moved t (enqueued_rec t r) s1 s')"
proof (rule returns_mono [OF enqueue_spec])
  show "queue_core s1" using cores by (simp add: cores_def)
  show t: "threads s1 t = Some r" by (simp add: s1)
  show "\<not> queued r" by fact
  show "realtime r" if "scheduled_priority r = 97" using r(1) that by (auto simp: policy_rec_def)
  fix s' assume s': "queue_core s' \<and> moved t (enqueued_rec t r) s1 s'"
  then have "cores s'" using cores t by (auto intro: cores_moved)
  moreover have "threads s' = (threads s)(t \<mapsto> enqueued_rec t r)" using s' by (simp add: moved_def s1)
  ultimately show "sched_inv s' \<and> moved t (enqueued_rec t r) s1 s'"
    using s' r by (auto intro!: sched_inv_one [OF inv] simp: policy_rec_def life_rec_def)
qed

lemma remove_cores:
  assumes cores: "cores s" and t: "threads s t = Some r"
  shows "returns (remove_from_queue t s) (\<lambda>s'. cores s' \<and> moved t (dequeued_rec r) s s')"
proof (cases "queued r")
  case True
  show ?thesis
  proof (rule returns_mono [OF remove_from_queue_spec [OF _ t True]])
    show "queue_core s" using cores by (simp add: cores_def)
    fix s' assume "queue_core s' \<and> moved t (dequeued_rec r) s s'"
    then show "cores s' \<and> moved t (dequeued_rec r) s s'" using cores t by (auto intro: cores_moved)
  qed
next
  case False
  then have "dequeued_rec r = r"
    using cores_queue_rec [OF cores t] by (intro thread_record.equality) (simp_all add: dequeued_rec_def queue_rec_def)
  then show ?thesis
    using False t cores by (simp add: remove_from_queue_def record_of_def moved_def fun_upd_idem)
qed

section \<open>Each operation keeps the invariant\<close>

abbreviation keeps_inv :: "sched_error + 'a \<times> scheduler \<Rightarrow> bool" where
  "keeps_inv m \<equiv> returns m (\<lambda>(_, s'). sched_inv s')"

text \<open>A change of fields that no layer of the invariant looks at.\<close>

lemma touch_inv:
  assumes inv: "sched_inv s" and t: "threads s t = Some r"
    and f: "f r = r\<lparr>resume_runnable := a, wake_pending := b\<rparr>"
  shows "sched_inv (modify t f s)"
proof (rule sched_inv_one [OF inv])
  show "cores (modify t f s)"
    by (rule cores_change [OF sched_inv_cores [OF inv] t, where r' = "f r"]) (simp_all add: t f)
  show "threads (modify t f s) = (threads s)(t \<mapsto> f r)" by (simp add: t)
  show "policy_rec (f r)" "life_rec (f r)"
    using sched_inv_rec [OF inv t] by (simp_all add: policy_rec_def life_rec_def f)
qed

lemma make_runnable_inv:
  assumes inv: "sched_inv s"
  shows "keeps_inv (make_runnable t s)"
proof (cases "threads s t")
  case (Some r)
  note rec = sched_inv_rec [OF inv Some]
  consider "suspend_count r \<noteq> 0" | "suspend_count r = 0" "state r = Running \<or> queued r"
    | "suspend_count r = 0" "state r = Waiting" "\<not> queued r"
    using rec by (cases "state r") (auto simp: life_rec_def)
  then show ?thesis
  proof cases
    case 1
    have "sched_inv (modify t (\<lambda>r. r\<lparr>resume_runnable := True\<rparr>) s)"
      by (rule touch_inv [OF inv Some, where b = "wake_pending r"]) simp
    with 1 Some show ?thesis by (simp add: make_runnable_def)
  next
    case 2
    then show ?thesis using Some inv by (auto simp: make_runnable_def)
  next
    case 3
    let ?f = "\<lambda>r. r\<lparr>state := Runnable, remaining_quantum := quantum_for s r, computation_metered := 0,
      realtime_deadline := (if realtime r then saturating_add (elapsed_ticks s) (realtime_constraint r)
        else realtime_deadline r)\<rparr>"
    define s1 where "s1 = modify t ?f (s\<lparr>waiting_count := waiting_count s - 1,
      active_timeshare_count := (if timeshare r then active_timeshare_count s + 1 else active_timeshare_count s)\<rparr>)"
    have s1: "threads s1 = (threads s)(t \<mapsto> ?f r)" by (simp add: s1_def Some)
    have pos: "waiting_count s > 0"
      using waiting_positive [of s t r] sched_inv_cores [OF inv] Some 3(2) by (simp add: cores_def queue_core_finite)
    have "cores s1"
      by (rule cores_change [OF sched_inv_cores [OF inv] Some s1]) (use 3 pos in \<open>simp_all add: s1_def\<close>)
    then have "returns (enqueue t Back s1) (\<lambda>s'. sched_inv s' \<and> moved t (enqueued_rec t (?f r)) s1 s')"
      by (rule enqueue_inv [OF inv _ s1]) (use rec 3 in \<open>simp_all add: policy_rec_def\<close>)
    then have "keeps_inv (and_then (enqueue t Back s1) (\<lambda>s3. Inr (True, s3)))"
      by (rule returns_and_then) simp
    then show ?thesis using Some 3 by (simp add: make_runnable_def Let_def s1_def)
  qed
qed (use inv in \<open>simp add: make_runnable_def\<close>)

lemma wake_thread_inv:
  assumes inv: "sched_inv s"
  shows "keeps_inv (wake_thread t s)"
proof (cases "threads s t")
  case (Some r)
  have "sched_inv (modify t (\<lambda>r. r\<lparr>wake_pending := True\<rparr>) s)"
    by (rule touch_inv [OF inv Some, where a = "resume_runnable r"]) simp
  then show ?thesis using Some make_runnable_inv [OF inv] by (simp add: wake_thread_def)
qed (use inv in \<open>simp add: wake_thread_def\<close>)

lemma block_inv:
  assumes inv: "sched_inv s"
  shows "keeps_inv (block t s)"
proof (cases "threads s t")
  case (Some r)
  note rec = sched_inv_rec [OF inv Some]
  show ?thesis
    unfolding block_def Some option.case Let_def
  proof (rule returns_and_then [OF remove_cores [OF sched_inv_cores [OF inv] Some]], goal_cases)
    case (1 s1)
    then have t1: "threads s1 t = Some (dequeued_rec r)" by (simp add: moved_def)
    have pos: "state r \<noteq> Waiting \<Longrightarrow> timeshare r \<Longrightarrow> active_timeshare_count s1 > 0"
      using active_positive [of s1 t "dequeued_rec r"] 1 t1 by (simp add: cores_def queue_core_finite)
    let ?s2 = "modify t (\<lambda>r. r\<lparr>state := Waiting\<rparr>) s1"
    let ?s3 = "if state r = Waiting then ?s2 else ?s2\<lparr>waiting_count := waiting_count ?s2 + 1,
      active_timeshare_count := if timeshare r then active_timeshare_count ?s2 - 1 else active_timeshare_count ?s2\<rparr>"
    let ?f = "\<lambda>r. r\<lparr>remaining_quantum := quantum_for ?s3 r, computation_metered := 0,
      resume_runnable := if suspend_count r \<noteq> 0 then False else resume_runnable r\<rparr>"
    let ?r = "?f ((dequeued_rec r)\<lparr>state := Waiting\<rparr>)"
    have T: "threads (modify t ?f ?s3) = (threads s1)(t \<mapsto> ?r)" using t1 by simp
    have "cores (modify t ?f ?s3)"
      by (rule cores_change [OF _ t1 T]) (use 1 pos in simp_all)
    moreover have "threads (modify t ?f ?s3) = (threads s)(t \<mapsto> ?r)"
      using 1 unfolding T by (simp add: moved_def)
    ultimately have "sched_inv (modify t ?f ?s3)"
      by (rule sched_inv_one [OF inv]) (use rec in \<open>simp_all add: policy_rec_def life_rec_def\<close>)
    then show ?case by (simp only: returns_Inr prod.case)
  qed
qed (use inv in \<open>simp add: block_def\<close>)

lemma keeps_invI: "returns m (\<lambda>s'. sched_inv s' \<and> Q s') \<Longrightarrow> keeps_inv (and_then m (\<lambda>s'. Inr (True, s')))"
  by (erule returns_and_then) simp

lemma suspend_thread_inv:
  assumes inv: "sched_inv s"
  shows "keeps_inv (suspend_thread t s)"
proof (cases "threads s t")
  case (Some r)
  note rec = sched_inv_rec [OF inv Some]
  let ?f = "\<lambda>r. r\<lparr>suspend_count := suspend_count r + 1\<rparr>"
  let ?g = "\<lambda>r. r\<lparr>resume_runnable := (state r = Runnable \<or> state r = Running)\<rparr>"
  let ?s2 = "modify t ?g (modify t ?f s)"
  have c1: "cores (modify t ?f s)"
    by (rule cores_change [OF sched_inv_cores [OF inv] Some, where r' = "?f r"]) (simp_all add: Some)
  have c2: "cores ?s2"
    by (rule cores_change [OF sched_inv_cores [OF inv] Some, where r' = "?g (?f r)"]) (simp_all add: Some)
  have i: "sched_inv (modify t ?f s)" "sched_inv ?s2" if "state r = Waiting"
    by (rule sched_inv_one [OF inv c1, where r' = "?f r"]; use rec that in \<open>simp add: Some policy_rec_def life_rec_def\<close>)
      (rule sched_inv_one [OF inv c2, where r' = "?g (?f r)"]; use rec that in \<open>simp add: Some policy_rec_def life_rec_def\<close>)
  have again: "suspend_count r \<noteq> 0 \<Longrightarrow> state r = Waiting" using rec by (auto simp: life_rec_def)
  have t2: "threads ?s2 t = Some (?g (?f r))" by (simp add: Some)
  have "keeps_inv (and_then (remove_from_queue t ?s2) (\<lambda>s3.
      let s4 = modify t (\<lambda>r. r\<lparr>state := Waiting\<rparr>) s3
      in Inr (True, s4\<lparr>waiting_count := waiting_count s4 + 1,
           active_timeshare_count := (if timeshare r then active_timeshare_count s4 - 1
                                      else active_timeshare_count s4)\<rparr>)))" if run: "state r \<noteq> Waiting"
    unfolding Let_def
  proof (rule returns_and_then [OF remove_cores [OF c2 t2]], goal_cases)
    case (1 s3)
    let ?r3 = "dequeued_rec (?g (?f r))"
    from 1 have t3: "threads s3 t = Some ?r3" by (simp add: moved_def)
    have pos: "timeshare r \<Longrightarrow> active_timeshare_count s3 > 0"
      using active_positive [of s3 t ?r3] 1 t3 run by (simp add: cores_def queue_core_finite)
    let ?s4 = "modify t (\<lambda>r. r\<lparr>state := Waiting\<rparr>) s3"
    let ?s5 = "?s4\<lparr>waiting_count := waiting_count ?s4 + 1,
      active_timeshare_count := if timeshare r then active_timeshare_count ?s4 - 1 else active_timeshare_count ?s4\<rparr>"
    have "cores ?s5"
      by (rule cores_change [OF _ t3, where r' = "?r3\<lparr>state := Waiting\<rparr>"]) (use 1 pos t3 run in simp_all)
    moreover have "threads ?s5 = (threads s)(t \<mapsto> ?r3\<lparr>state := Waiting\<rparr>)"
      using 1 by (simp add: moved_def Some)
    ultimately have "sched_inv ?s5"
      by (rule sched_inv_one [OF inv]) (use rec in \<open>simp_all add: policy_rec_def life_rec_def\<close>)
    then show ?case by (simp only: returns_Inr prod.case)
  qed
  with i again inv show ?thesis by (simp add: suspend_thread_def Some Let_def)
qed (use inv in \<open>simp add: suspend_thread_def\<close>)

lemma resume_thread_inv:
  assumes inv: "sched_inv s"
  shows "keeps_inv (resume_thread t s)"
proof (cases "threads s t")
  case (Some r)
  note rec = sched_inv_rec [OF inv Some]
  let ?f = "\<lambda>r. r\<lparr>suspend_count := suspend_count r - 1\<rparr>"
  have c1: "cores (modify t ?f s)"
    by (rule cores_change [OF sched_inv_cores [OF inv] Some, where r' = "?f r"]) (simp_all add: Some)
  have i1: "sched_inv (modify t ?f s)"
    by (rule sched_inv_one [OF inv c1, where r' = "?f r"]) (use rec in \<open>auto simp: Some policy_rec_def life_rec_def\<close>)
  define s2 where "s2 = (modify t (\<lambda>r. r\<lparr>resume_runnable := False, state := Runnable\<rparr>) (modify t ?f s))
    \<lparr>waiting_count := waiting_count (modify t ?f s) - 1,
     active_timeshare_count := (if timeshare r then active_timeshare_count (modify t ?f s) + 1
                                else active_timeshare_count (modify t ?f s))\<rparr>"
  define s3 where "s3 = modify t (\<lambda>r. r\<lparr>remaining_quantum := quantum_for s2 r, computation_metered := 0\<rparr>) s2"
  let ?r = "(?f r)\<lparr>resume_runnable := False, state := Runnable, remaining_quantum := quantum_for s2 r, computation_metered := 0\<rparr>"
  have T: "threads s3 = (threads s)(t \<mapsto> ?r)" by (simp add: s3_def s2_def Some quantum_for_def)
  have "keeps_inv (and_then (enqueue t Back s3) (\<lambda>s4. Inr (True, s4)))" if sus: "suspend_count r = 1"
  proof (rule keeps_invI, rule enqueue_inv [OF inv _ T])
    have w: "state r = Waiting" "\<not> queued r" using rec sus by (auto simp: life_rec_def)
    have pos: "waiting_count s > 0"
      using waiting_positive [of s t r] sched_inv_cores [OF inv] Some w by (simp add: cores_def queue_core_finite)
    show "cores s3"
      by (rule cores_change [OF sched_inv_cores [OF inv] Some T]) (use w pos in \<open>simp_all add: s3_def s2_def\<close>)
    show "policy_rec ?r" "\<not> queued ?r" "state ?r = Runnable" "suspend_count ?r = 0"
      using rec w sus by (simp_all add: policy_rec_def)
  qed
  with i1 inv show ?thesis
    by (auto simp: resume_thread_def Some Let_def s3_def s2_def)
qed (use inv in \<open>simp add: resume_thread_def\<close>)

lemma set_base_priority_inv:
  assumes inv: "sched_inv s" and p: "p \<le> 96"
  shows "keeps_inv (set_base_priority t p s)"
proof (cases "threads s t")
  case (Some r)
  note rec = sched_inv_rec [OF inv Some]
  let ?f = "\<lambda>r. r\<lparr>base_priority := clamp_priority p\<rparr>"
  have range: "0 \<le> clamp_priority p" "clamp_priority p \<le> 96"
    using p by (simp_all add: clamp_priority_def minimum_priority_def maximum_priority_def)
  have "cores (modify t ?f s)"
    by (rule cores_change [OF sched_inv_cores [OF inv] Some, where r' = "?f r"]) (simp_all add: Some)
  then have "returns (recompute_priority t (modify t ?f s))
      (\<lambda>s'. sched_inv s' \<and> resettled t (?f r) (modify t ?f s) s')"
    by (rule recompute_inv [OF inv]) (use rec range in \<open>simp_all add: Some settled_def policy_rec_def life_rec_def\<close>)
  from keeps_invI [OF this] inv show ?thesis by (simp add: set_base_priority_def Some Let_def)
qed (use inv in \<open>simp add: set_base_priority_def\<close>)

lemma set_timeshare_inv:
  assumes inv: "sched_inv s"
  shows "keeps_inv (set_timeshare t share s)"
proof (cases "threads s t")
  case (Some r)
  note rec = sched_inv_rec [OF inv Some]
  let ?f = "\<lambda>r. r\<lparr>realtime := False, timeshare := share\<rparr>"
  define s2 where "s2 = (if state r \<noteq> Waiting \<and> timeshare r \<noteq> share
    then (modify t ?f s)\<lparr>active_timeshare_count := (if share then active_timeshare_count (modify t ?f s) + 1
      else active_timeshare_count (modify t ?f s) - 1)\<rparr> else modify t ?f s)"
  define s3 where "s3 = modify t (\<lambda>r. r\<lparr>remaining_quantum := quantum_ticks s2\<rparr>) s2"
  let ?r = "(?f r)\<lparr>remaining_quantum := quantum_ticks s2\<rparr>"
  have T: "threads s3 = (threads s)(t \<mapsto> ?r)" by (simp add: s3_def s2_def Some)
  have pos: "state r \<noteq> Waiting \<Longrightarrow> timeshare r \<Longrightarrow> active_timeshare_count s > 0"
    using active_positive [of s t r] sched_inv_cores [OF inv] Some by (simp add: cores_def queue_core_finite)
  have "cores s3"
    by (rule cores_change [OF sched_inv_cores [OF inv] Some T]) (use pos in \<open>auto simp: s3_def s2_def\<close>)
  then have "returns (recompute_priority t s3) (\<lambda>s'. sched_inv s' \<and> resettled t ?r s3 s')"
    by (rule recompute_inv [OF inv _ T]) (use rec in \<open>simp_all add: settled_def policy_rec_def life_rec_def\<close>)
  from keeps_invI [OF this] inv show ?thesis by (simp add: set_timeshare_def Some Let_def s3_def s2_def)
qed (use inv in \<open>simp add: set_timeshare_def\<close>)

lemma set_realtime_inv:
  assumes inv: "sched_inv s"
  shows "keeps_inv (set_realtime t period computation constraint preemptible s)"
proof (cases "threads s t")
  case (Some r)
  note rec = sched_inv_rec [OF inv Some]
  let ?f = "\<lambda>r. r\<lparr>timeshare := False, realtime := True\<rparr>"
  define s2 where "s2 = (if state r \<noteq> Waiting \<and> timeshare r
    then (modify t ?f s)\<lparr>active_timeshare_count := active_timeshare_count (modify t ?f s) - 1\<rparr> else modify t ?f s)"
  let ?g = "\<lambda>r. r\<lparr>realtime_preemptible := preemptible, realtime_period := period,
    realtime_computation := computation, realtime_constraint := constraint,
    realtime_deadline := saturating_add (elapsed_ticks s2) constraint, remaining_quantum := computation\<rparr>"
  define s3 where "s3 = modify t ?g s2"
  let ?r = "?g (?f r)"
  have T: "threads s3 = (threads s)(t \<mapsto> ?r)" by (simp add: s3_def s2_def Some)
  have pos: "state r \<noteq> Waiting \<Longrightarrow> timeshare r \<Longrightarrow> active_timeshare_count s > 0"
    using active_positive [of s t r] sched_inv_cores [OF inv] Some by (simp add: cores_def queue_core_finite)
  have "cores s3"
    by (rule cores_change [OF sched_inv_cores [OF inv] Some T]) (use pos in \<open>auto simp: s3_def s2_def\<close>)
  then have "returns (recompute_priority t s3) (\<lambda>s'. sched_inv s' \<and> resettled t ?r s3 s')"
    by (rule recompute_inv [OF inv _ T]) (use rec in \<open>simp_all add: settled_def policy_rec_def life_rec_def\<close>)
  from keeps_invI [OF this] inv show ?thesis by (simp add: set_realtime_def Some Let_def s3_def s2_def)
qed (use inv in \<open>simp add: set_realtime_def\<close>)

text \<open>Taking a thread off its queue, changing it, and putting it back if it was queued.\<close>

lemma requeue_inv:
  assumes inv: "sched_inv s" and t: "threads s t = Some r" and cores: "cores s1"
    and s1: "threads s1 = (threads s)(t \<mapsto> r1)" and r1: "policy_rec r1" "\<not> queued r1" "state r1 = state r"
      "suspend_count r1 = suspend_count r"
  shows "returns (if queued r then enqueue t Back s1 else Inr s1) (\<lambda>s'. sched_inv s' \<and> True)"
proof (cases "queued r")
  case True
  then have "state r = Runnable" "suspend_count r = 0"
    using sched_inv_rec [OF inv t] by (auto simp: life_rec_def)
  then have "returns (enqueue t Back s1) (\<lambda>s'. sched_inv s' \<and> moved t (enqueued_rec t r1) s1 s')"
    by (intro enqueue_inv [OF inv cores s1]) (use r1 in simp_all)
  then show ?thesis using True by (auto elim: returns_mono)
next
  case False
  then have "life_rec r1" using sched_inv_rec [OF inv t] r1 by (simp add: life_rec_def)
  then show ?thesis using False sched_inv_one [OF inv cores s1 r1(1)] by simp
qed

lemma dequeue_first:
  assumes "cores s" "threads s t = Some r"
  shows "returns (if queued r then remove_from_queue t s else Inr s)
    (\<lambda>s'. cores s' \<and> moved t (dequeued_rec r) s s')"
proof -
  have "\<not> queued r \<Longrightarrow> remove_from_queue t s = Inr s"
    using assms(2) by (simp add: remove_from_queue_def record_of_def)
  then show ?thesis using remove_cores [OF assms] by auto
qed

lemma bind_thread_inv:
  assumes inv: "sched_inv s"
  shows "keeps_inv (bind_thread t processor s)"
proof (cases "threads s t")
  case (Some r)
  note rec = sched_inv_rec [OF inv Some]
  have "keeps_inv (and_then (if queued r then remove_from_queue t s else Inr s) (\<lambda>s1.
      and_then (if queued r then enqueue t Back (modify t (\<lambda>r. r\<lparr>bound_processor := processor\<rparr>) s1)
        else Inr (modify t (\<lambda>r. r\<lparr>bound_processor := processor\<rparr>) s1)) (\<lambda>s3. Inr (True, s3))))"
    if proc: "\<And>i. processor = Some i \<Longrightarrow> i < length (processor_run_queues s)"
  proof (rule returns_and_then [OF dequeue_first [OF sched_inv_cores [OF inv] Some]], goal_cases)
    case (1 s1)
    let ?r1 = "dequeued_rec r" and ?f = "\<lambda>r. r\<lparr>bound_processor := processor\<rparr>"
    from 1 have t1: "threads s1 t = Some ?r1" and len: "length (processor_run_queues s1) = length (processor_run_queues s)"
      by (simp_all add: moved_def)
    have c: "queue_core s1" "count_core s1" "index_core s1" using 1 by (simp_all add: cores_def)
    have qr: "queue_rec (length (processor_run_queues s1)) t (?f ?r1)"
      using queue_core_rec [OF c(1) t1] proc by (simp add: queue_rec_def len dequeued_rec_def)
    have "queue_core (modify t ?f s1)"
      by (rule queue_core_change [OF c(1) t1, where r' = "?f ?r1"]) (simp_all add: t1 qr)
    moreover have "count_core (modify t ?f s1)"
      by (rule count_core_change [OF c(2) queue_core_finite [OF c(1)] t1, where r' = "?f ?r1"]) (simp_all add: t1)
    moreover have "index_core (modify t ?f s1)"
      by (rule index_core_change [OF c(3) t1, where r' = "?f ?r1"]) (simp_all add: t1)
    ultimately have "cores (modify t ?f s1)" by (simp add: cores_def)
    then show ?case
      by (intro keeps_invI [OF requeue_inv [OF inv Some, where ?r1.0 = "?f ?r1"]])
        (use 1 rec in \<open>simp_all add: moved_def policy_rec_def\<close>)
  qed
  with inv show ?thesis by (auto simp: bind_thread_def Some Let_def split: option.splits)
qed (use inv in \<open>simp add: bind_thread_def split: option.split\<close>)

lemma depress_cores:
  assumes cores: "cores s" and t: "threads s t = Some r" "\<not> queued r" "depression_deadline r = None"
    and r': "r' = r\<lparr>depressed := True, scheduled_priority := minimum_priority, depression_deadline := deadline\<rparr>"
    and s': "threads s' = (threads s)(t \<mapsto> r')"
      "depression_order s' = (case deadline of None \<Rightarrow> depression_order s
         | Some d \<Rightarrow> insort_insert (d, t) (depression_order s))"
      "processor_set_run_queue s' = processor_set_run_queue s" "processor_run_queues s' = processor_run_queues s"
      "runnable_count s' = runnable_count s" "failsafe_order s' = failsafe_order s"
      "process_threads s' = process_threads s" "waiting_count s' = waiting_count s"
      "active_timeshare_count s' = active_timeshare_count s"
  shows "cores s'"
proof -
  have c: "queue_core s" "count_core s" "index_core s" using cores by (simp_all add: cores_def)
  have "queue_rec (length (processor_run_queues s)) t r'"
    using queue_core_rec [OF c(1) t(1)] t(2) by (simp add: r' queue_rec_def minimum_priority_def)
  then have "queue_core s'"
    by (rule_tac queue_core_change [OF c(1) t(1) s'(1,3,4,5)]) (simp_all add: r')
  moreover have "count_core s'"
    by (rule count_core_change [OF c(2) queue_core_finite [OF c(1)] t(1) s'(1)]) (simp_all add: r' s')
  moreover have "order_ok depression_key (threads s') (depression_order s')"
  proof (cases deadline)
    case None
    have "order_ok depression_key ((threads s)(t \<mapsto> r')) (depression_order s)"
      by (rule order_ok_upd [where r = r]) (use c(3) t None in \<open>auto simp: r' index_core_def\<close>)
    then show ?thesis using None by (simp add: s')
  next
    case (Some d)
    have "order_ok depression_key ((threads s)(t \<mapsto> r')) (insort_insert (d, t) (depression_order s))"
      by (rule order_ok_insort [where r = r]) (use c(3) t Some in \<open>auto simp: r' index_core_def\<close>)
    then show ?thesis using Some by (simp add: s')
  qed
  moreover have "order_ok failsafe_key (threads s') (failsafe_order s')" "process_ok (threads s') (process_threads s')"
    unfolding s' using c(3) t(1) by (auto simp: index_core_def r' intro: order_ok_upd process_ok_upd)
  ultimately show ?thesis by (simp add: cores_def index_core_def)
qed

lemma depress_inv:
  assumes inv: "sched_inv s"
  shows "keeps_inv (depress t duration s)"
proof (cases "threads s t")
  case (Some r)
  note rec = sched_inv_rec [OF inv Some]
  show ?thesis
  proof (cases "depressed r")
    case False
    show ?thesis
      unfolding depress_def Some option.case if_not_P [OF False] Let_def
    proof (rule returns_and_then [OF dequeue_first [OF sched_inv_cores [OF inv] Some]], goal_cases)
      case (1 s1)
      let ?dl = "if duration \<noteq> 0 then Some (saturating_add (elapsed_ticks s1) duration) else None"
      let ?f = "\<lambda>r. r\<lparr>depressed := True, scheduled_priority := minimum_priority, depression_deadline := ?dl\<rparr>"
      let ?s2 = "modify t ?f s1"
      let ?s3 = "if duration \<noteq> 0 then index_depression t ?s2 else ?s2"
      let ?r1 = "dequeued_rec r"
      from 1 have t1: "threads s1 t = Some ?r1" and T1: "threads s1 = (threads s)(t \<mapsto> ?r1)"
        by (simp_all add: moved_def)
      have none: "depression_deadline ?r1 = None" using rec False by (simp add: policy_rec_def)
      have T3: "threads ?s3 = (threads s1)(t \<mapsto> ?f ?r1)"
        using t1 by (simp add: index_depression_def split: option.split)
      have "cores ?s3"
        by (rule depress_cores [OF _ t1 _ none refl T3])
          (use 1 t1 in \<open>simp_all add: index_depression_def record_of_def\<close>)
      moreover have "threads ?s3 = (threads s)(t \<mapsto> ?f ?r1)" unfolding T3 T1 by simp
      ultimately show ?case
        by (intro keeps_invI [OF requeue_inv [OF inv Some, where ?r1.0 = "?f ?r1"]])
          (use rec in \<open>simp_all add: policy_rec_def minimum_priority_def\<close>)
    qed
  qed (use inv Some in \<open>simp add: depress_def\<close>)
qed (use inv in \<open>simp add: depress_def\<close>)

lemma register_thread_inv:
  assumes inv: "sched_inv s" and p: "p \<le> 96"
  shows "keeps_inv (register_thread t p runnable s)"
proof (cases "threads s t")
  case None
  have c: "queue_core s" "count_core s" "index_core s" using inv by (simp_all add: sched_inv_def)
  let ?p = "clamp_priority p"
  have range: "0 \<le> ?p" "?p \<le> 96"
    using p by (simp_all add: clamp_priority_def minimum_priority_def maximum_priority_def)
  define r where "r = default_record\<lparr>base_priority := ?p, scheduled_priority := ?p,
    remaining_quantum := quantum_ticks s, scheduler_stamp := scheduler_tick s,
    state := (if runnable then Runnable else Waiting)\<rparr>"
  define s1 where "s1 = s\<lparr>threads := (threads s)(t \<mapsto> r), process_threads := (process_threads s)
    (ti_process t \<mapsto> insert t (case process_threads s (ti_process t) of None \<Rightarrow> {} | Some m \<Rightarrow> m))\<rparr>"
  define s2 where "s2 = (if runnable then s1\<lparr>active_timeshare_count := active_timeshare_count s1 + 1\<rparr>
    else s1\<lparr>waiting_count := waiting_count s1 + 1\<rparr>)"
  have T: "threads s2 = (threads s)(t \<mapsto> r)" by (simp add: s2_def s1_def)
  have "queue_core s2"
    by (rule queue_core_insert [OF c(1) None, where r = r])
      (use range in \<open>simp_all add: r_def default_record_def queue_rec_def s2_def s1_def\<close>)
  moreover have "count_core s2"
    by (rule count_core_insert [OF c(2) queue_core_finite [OF c(1)] None T])
      (simp_all add: r_def default_record_def s2_def s1_def)
  moreover have "order_ok depression_key (threads s2) (depression_order s2)"
      "order_ok failsafe_key (threads s2) (failsafe_order s2)"
    using c(3) None unfolding T
    by (auto simp: index_core_def s2_def s1_def r_def default_record_def intro!: order_ok_insert)
  moreover have "process_ok (threads s2) (process_threads s2)"
    using c(3) process_ok_insert [of "threads s" "process_threads s" t r] unfolding T
    by (simp add: index_core_def s2_def s1_def)
  ultimately have cores: "cores s2" by (simp add: cores_def index_core_def)
  have pr: "policy_rec r" using range by (simp add: policy_rec_def r_def default_record_def)
  show ?thesis
  proof (cases runnable)
    case True
    have "returns (enqueue t Back s2) (\<lambda>s'. sched_inv s' \<and> moved t (enqueued_rec t r) s2 s')"
      by (rule enqueue_inv [OF inv cores T pr]) (simp_all add: r_def default_record_def True)
    from keeps_invI [OF this] True None show ?thesis
      by (simp add: register_thread_def Let_def s2_def s1_def r_def)
  next
    case False
    have "sched_inv s2"
      by (rule sched_inv_one [OF inv cores T pr]) (simp add: life_rec_def r_def default_record_def False)
    with False None show ?thesis by (simp add: register_thread_def Let_def s2_def s1_def r_def)
  qed
qed (use inv in \<open>simp add: register_thread_def\<close>)

text \<open>Removing a thread from the table once it is off its queue and its counter is adjusted.\<close>

lemma erase_thread_inv:
  assumes inv: "sched_inv s" and t: "threads s t = Some r"
    and s2: "queue_core s2" "index_core s2" "threads s2 = (threads s)(t \<mapsto> r2)" "\<not> queued r2"
    and counts: "waiting_count s2 + of_bool (state r = Waiting) = waiting_count s"
      "active_timeshare_count s2 + of_bool (state r \<noteq> Waiting \<and> timeshare r) = active_timeshare_count s"
  shows "sched_inv ((unindex_thread t s2)\<lparr>threads := (threads s2)(t := None)\<rparr>)" (is "sched_inv ?s")
proof -
  have c: "queue_core s" "count_core s" using inv by (simp_all add: sched_inv_def)
  have t2: "threads s2 t = Some r2" by (simp add: s2)
  have T: "threads ?s = (threads s)(t := None)" by (simp add: s2)
  have "queue_core ?s" by (rule queue_core_delete [OF s2(1) t2 s2(4)]) simp_all
  moreover have "count_core ?s"
    by (rule count_core_delete [OF c(2) queue_core_finite [OF c(1)] t T]) (use counts in simp_all)
  moreover have "index_core ?s"
    using unindex_thread_orders [OF s2(2) t2] by (simp add: index_core_def)
  moreover have "policy_rec ra \<and> life_rec ra" if "threads ?s u = Some ra" for u ra
    using inv that unfolding T by (auto simp: sched_inv_def split: if_splits)
  ultimately show ?thesis by (simp add: sched_inv_def)
qed

lemma queue_core_cong:
  assumes "queue_core s" "threads s' = threads s" "processor_set_run_queue s' = processor_set_run_queue s"
    "processor_run_queues s' = processor_run_queues s" "runnable_count s' = runnable_count s"
  shows "queue_core s'"
proof -
  have "run_queue_at s' = run_queue_at s"
    using assms by (simp add: run_queue_at_def fun_eq_iff split: option.split)
  with assms show ?thesis by (simp add: queue_core_def)
qed

lemma index_core_cong:
  "index_core s \<Longrightarrow> threads s' = threads s \<Longrightarrow> depression_order s' = depression_order s \<Longrightarrow>
    failsafe_order s' = failsafe_order s \<Longrightarrow> process_threads s' = process_threads s \<Longrightarrow> index_core s'"
  by (simp add: index_core_def)

lemma remove_queue_core:
  assumes core: "queue_core s" and t: "threads s t = Some r"
  shows "returns (remove_from_queue t s) (\<lambda>s'. queue_core s' \<and> moved t (dequeued_rec r) s s')"
proof (cases "queued r")
  case True
  show ?thesis by (rule remove_from_queue_spec [OF core t True])
next
  case False
  then have "dequeued_rec r = r"
    using queue_core_rec [OF core t] by (intro thread_record.equality) (simp_all add: dequeued_rec_def queue_rec_def)
  then show ?thesis
    using False t core by (simp add: remove_from_queue_def record_of_def moved_def fun_upd_idem)
qed

lemma remove_thread_inv:
  assumes inv: "sched_inv s"
  shows "returns (remove_thread t s) (\<lambda>(_, s'). sched_inv s' \<and> (\<forall>u. u \<noteq> t \<longrightarrow> threads s' u = threads s u) \<and>
    threads s' t = None)"
proof (cases "threads s t")
  case (Some r)
  have c: "queue_core s" "count_core s" "index_core s" using inv by (simp_all add: sched_inv_def)
  define s1 where "s1 = (if state r = Waiting then s\<lparr>waiting_count := waiting_count s - 1\<rparr>
    else if timeshare r then s\<lparr>active_timeshare_count := active_timeshare_count s - 1\<rparr> else s)"
  have T1: "threads s1 = threads s" by (simp add: s1_def)
  have c1: "queue_core s1" "index_core s1"
    by (rule queue_core_cong [OF c(1)]; simp add: s1_def) (rule index_core_cong [OF c(3)]; simp add: s1_def)
  have pos: "state r = Waiting \<Longrightarrow> waiting_count s > 0"
      "state r \<noteq> Waiting \<Longrightarrow> timeshare r \<Longrightarrow> active_timeshare_count s > 0"
    using waiting_positive active_positive c Some by (auto simp: queue_core_finite)
  show ?thesis
    unfolding remove_thread_def Some option.case Let_def
  proof (subst s1_def [symmetric], rule returns_and_then [OF remove_queue_core [OF c1(1), of t r]], goal_cases)
    case 1
    then show ?case by (simp add: T1 Some)
  next
    case (2 s2)
    then have m: "queue_core s2" "moved t (dequeued_rec r) s1 s2" by simp_all
    have "index_core s2"
      by (rule moved_counts(2) [OF m(2) _ _ c1(2)]) (simp_all add: T1 Some)
    moreover have "threads s2 = (threads s)(t \<mapsto> dequeued_rec r)" using m(2) by (simp add: moved_def T1)
    moreover have "waiting_count s2 = waiting_count s1" "active_timeshare_count s2 = active_timeshare_count s1"
      using m(2) by (simp_all add: moved_def rest_ofD(4,5) [of s2 s1])
    ultimately have "sched_inv ((unindex_thread t s2)\<lparr>threads := (threads s2)(t := None)\<rparr>)"
      by (intro erase_thread_inv [OF inv Some m(1)]) (use pos in \<open>auto simp: s1_def\<close>)
    then show ?case using m(2) by (simp add: moved_def T1)
  qed
qed (use inv in \<open>simp add: remove_thread_def\<close>)

lemma remove_process_inv:
  assumes inv: "sched_inv s"
  shows "keeps_inv (remove_process order process s)"
proof (cases "process_threads s process")
  case (Some members)
  have "returns (each (\<lambda>t s. and_then (remove_thread t s) (\<lambda>(_, s'). Inr s'))
      (filter (\<lambda>t. t \<in> members) order) s) sched_inv"
  proof (rule returns_each [where P = sched_inv, OF inv])
    fix t s assume "sched_inv s"
    from remove_thread_inv [OF this, of t]
    show "returns (and_then (remove_thread t s) (\<lambda>(_, s'). Inr s')) sched_inv"
      by (rule returns_and_then) auto
  qed
  then show ?thesis unfolding remove_process_def Some option.case by (rule returns_and_then) simp
qed (use inv in \<open>simp add: remove_process_def\<close>)

section \<open>Depression, failsafe and the passage of time\<close>

text \<open>What the passage of time never changes about a thread.\<close>

definition life_of :: "thread_record \<Rightarrow> thread_state \<times> nat \<times> bool \<times> bool \<times> nat option \<times> bool" where
  "life_of r = (state r, suspend_count r, wake_pending r, resume_runnable r, bound_processor r, queued r)"

definition timed :: "scheduler \<Rightarrow> scheduler \<Rightarrow> bool" where
  "timed s s' \<longleftrightarrow> (\<forall>u. map_option life_of (threads s' u) = map_option life_of (threads s u)) \<and>
     length (processor_run_queues s') = length (processor_run_queues s) \<and> quantum_ticks s' = quantum_ticks s"

lemma timed_refl [simp]: "timed s s"
  by (simp add: timed_def)

lemma timed_trans: "timed s s1 \<Longrightarrow> timed s1 s2 \<Longrightarrow> timed s s2"
  by (simp add: timed_def)

lemma timed_one:
  assumes "threads s t = Some r" "threads s' = (threads s)(t \<mapsto> r')" "life_of r' = life_of r"
    "length (processor_run_queues s') = length (processor_run_queues s)" "quantum_ticks s' = quantum_ticks s"
  shows "timed s s'"
  using assms by (simp add: timed_def)

lemma timed_thread:
  assumes "timed s s'" "threads s t = Some r"
  obtains r' where "threads s' t = Some r'" "life_of r' = life_of r"
  using assms unfolding timed_def by (metis map_option_eq_Some)

lemma resettled_timed:
  assumes "resettled t r1 s1 s'" and "threads s t = Some r" and "threads s1 = (threads s)(t \<mapsto> r1)"
    and "life_of r1 = life_of r" "length (processor_run_queues s1) = length (processor_run_queues s)"
      "quantum_ticks s1 = quantum_ticks s"
  shows "timed s s'"
proof -
  obtain r' where r': "moved t r' s1 s'" "policy_of r' = policy_of r1" "queued r' = queued r1"
    using assms(1) by (auto simp: resettled_def)
  have "life_of r' = life_of r1" by (simp add: life_of_def policy_ofD [OF r'(2)] r'(3))
  then show ?thesis
    using assms r'(1) rest_ofD(6) [of s' s1] by (intro timed_one [of s t r s' r']) (auto simp: moved_def)
qed

lemma undepressed_cores:
  assumes cores: "cores s" and t: "threads s t = Some r"
    and s': "s' = modify t (\<lambda>r. r\<lparr>depressed := False, depression_deadline := None\<rparr>) (unindex_depression t s)"
  shows "cores s' \<and> threads s' = (threads s)(t \<mapsto> r\<lparr>depressed := False, depression_deadline := None\<rparr>) \<and>
    length (processor_run_queues s') = length (processor_run_queues s) \<and> quantum_ticks s' = quantum_ticks s"
proof -
  let ?r = "r\<lparr>depressed := False, depression_deadline := None\<rparr>"
  have c: "queue_core s" "count_core s" "index_core s" using cores by (simp_all add: cores_def)
  have T: "threads s' = (threads s)(t \<mapsto> ?r)"
    using t by (simp add: s' unindex_depression_def split: option.split)
  have d: "depression_order s' = (case depression_deadline r of None \<Rightarrow> depression_order s
      | Some d \<Rightarrow> remove1 (d, t) (depression_order s))"
    using t by (simp add: s' unindex_depression_def record_of_def split: option.split)
  have same: "processor_set_run_queue s' = processor_set_run_queue s" "processor_run_queues s' = processor_run_queues s"
      "runnable_count s' = runnable_count s" "failsafe_order s' = failsafe_order s"
      "process_threads s' = process_threads s" "waiting_count s' = waiting_count s"
      "active_timeshare_count s' = active_timeshare_count s" "quantum_ticks s' = quantum_ticks s"
    by (simp_all add: s' unindex_depression_def split: option.split)
  have "queue_core s'"
    by (rule queue_core_change [OF c(1) t T same(1-3)])
      (use queue_core_rec [OF c(1) t] in \<open>simp_all add: queue_rec_def\<close>)
  moreover have "count_core s'"
    by (rule count_core_change [OF c(2) queue_core_finite [OF c(1)] t T]) (simp_all add: same)
  moreover have "order_ok depression_key (threads s') (depression_order s')"
  proof (cases "depression_deadline r")
    case None
    have "order_ok depression_key ((threads s)(t \<mapsto> ?r)) (depression_order s)"
      by (rule order_ok_upd [where r = r]) (use c(3) t None in \<open>auto simp: index_core_def\<close>)
    then show ?thesis using None by (simp add: T d)
  next
    case (Some dl)
    have "order_ok depression_key ((threads s)(t \<mapsto> ?r)) (remove1 (dl, t) (depression_order s))"
      by (rule order_ok_remove [where r = r]) (use c(3) t Some in \<open>auto simp: index_core_def\<close>)
    then show ?thesis using Some by (simp add: T d)
  qed
  moreover have "order_ok failsafe_key (threads s') (failsafe_order s')" "process_ok (threads s') (process_threads s')"
    unfolding T same using c(3) t by (auto simp: index_core_def intro: order_ok_upd process_ok_upd)
  ultimately show ?thesis using T same by (simp add: cores_def index_core_def)
qed

lemma restore_depression_spec:
  assumes cores: "cores s" and t: "threads s t = Some r" and r: "policy_rec r"
  shows "returns (restore_depression t s) (\<lambda>s'. cores s' \<and> (\<exists>r'. threads s' = (threads s)(t \<mapsto> r') \<and>
    policy_rec r' \<and> life_of r' = life_of r \<and> timeshare r' = timeshare r \<and> remaining_quantum r' = remaining_quantum r) \<and> timed s s')"
proof (cases "depressed r")
  case False
  then show ?thesis
    using cores t r by (auto simp: restore_depression_def record_of_def fun_upd_idem intro!: exI [of _ r])
next
  case True
  let ?r = "r\<lparr>depressed := False, depression_deadline := None\<rparr>"
  define s1 where "s1 = modify t (\<lambda>r. r\<lparr>depressed := False, depression_deadline := None\<rparr>) (unindex_depression t s)"
  have s1: "cores s1" "threads s1 = (threads s)(t \<mapsto> ?r)" "length (processor_run_queues s1) = length (processor_run_queues s)"
      "quantum_ticks s1 = quantum_ticks s"
    using undepressed_cores [OF cores t s1_def] by simp_all
  have st: "settled ?r" using r by (simp add: policy_rec_def settled_def)
  have "returns (recompute_priority t s1) (\<lambda>s'. cores s' \<and> resettled t ?r s1 s')"
    by (rule recompute_cores [OF s1(1) _ st]) (simp add: s1)
  then have "returns (recompute_priority t s1) (\<lambda>s'. cores s' \<and> (\<exists>r'. threads s' = (threads s)(t \<mapsto> r') \<and>
    policy_rec r' \<and> life_of r' = life_of r \<and> timeshare r' = timeshare r \<and> remaining_quantum r' = remaining_quantum r) \<and> timed s s')"
  proof (rule returns_mono)
    fix s' assume s': "cores s' \<and> resettled t ?r s1 s'"
    then obtain r' where r': "moved t r' s1 s'" "policy_of r' = policy_of ?r" "queued r' = queued ?r"
        "scheduled_priority r' = (if depressed ?r then scheduled_priority ?r else policy_priority ?r)"
      by (auto simp: resettled_def)
    have "policy_rec r'" by (rule settled_policy_rec [OF st r'(2,4)])
    moreover have "life_of r' = life_of r" "timeshare r' = timeshare r" "remaining_quantum r' = remaining_quantum r"
      by (simp_all add: life_of_def policy_ofD [OF r'(2)] r'(3))
    moreover have "timed s s'"
      using s' t s1 by (intro resettled_timed [of t ?r s1 s' s r]) (simp_all add: life_of_def)
    ultimately show "cores s' \<and> (\<exists>r'. threads s' = (threads s)(t \<mapsto> r') \<and> policy_rec r' \<and> life_of r' = life_of r \<and>
        timeshare r' = timeshare r \<and> remaining_quantum r' = remaining_quantum r) \<and> timed s s'"
      using s' r'(1) s1(2) by (auto simp: moved_def)
  qed
  then show ?thesis using True t by (simp add: restore_depression_def record_of_def s1_def)
qed

lemma life_rec_life_of: "life_of r' = life_of r \<Longrightarrow> life_rec r' = life_rec r"
  by (simp add: life_of_def life_rec_def)

lemma restore_depression_inv:
  assumes inv: "sched_inv s" and t: "threads s t = Some r"
  shows "returns (restore_depression t s) (\<lambda>s'. sched_inv s' \<and> timed s s')"
proof (rule returns_mono [OF restore_depression_spec [OF sched_inv_cores [OF inv] t]])
  show "policy_rec r" using sched_inv_rec [OF inv t] by simp
  fix s' assume "cores s' \<and> (\<exists>r'. threads s' = (threads s)(t \<mapsto> r') \<and> policy_rec r' \<and> life_of r' = life_of r \<and>
    timeshare r' = timeshare r \<and> remaining_quantum r' = remaining_quantum r) \<and> timed s s'"
  then show "sched_inv s' \<and> timed s s'"
    using sched_inv_one [OF inv] sched_inv_rec [OF inv t] life_rec_life_of by blast
qed

lemma sched_inv_cong:
  assumes "sched_inv s" "threads s' = threads s" "processor_set_run_queue s' = processor_set_run_queue s"
    "processor_run_queues s' = processor_run_queues s" "runnable_count s' = runnable_count s"
    "waiting_count s' = waiting_count s" "active_timeshare_count s' = active_timeshare_count s"
    "depression_order s' = depression_order s" "failsafe_order s' = failsafe_order s"
    "process_threads s' = process_threads s"
  shows "sched_inv s'"
  using assms queue_core_cong [of s s'] index_core_cong [of s s'] unfolding sched_inv_def count_core_def by metis

lemma expire_depressions_inv: "sched_inv s \<Longrightarrow> returns (expire_depressions s) (\<lambda>s'. sched_inv s' \<and> timed s s')"
proof (induction s rule: expire_depressions.induct)
  case (1 s)
  show ?case
  proof (cases "depression_order s")
    case Nil
    then show ?thesis using "1.prems" by (subst expire_depressions.simps) simp
  next
    case (Cons key rest)
    obtain d t where key: "key = (d, t)" by (cases key)
    have "(d, t) \<in> set (depression_order s)" by (simp add: Cons key)
    then obtain r where r: "threads s t = Some r" "depression_deadline r = Some d"
      using "1.prems" by (auto simp: sched_inv_def index_core_def order_ok_def)
    then have dep: "depressed r" using sched_inv_rec [OF "1.prems" r(1)] by (auto simp: policy_rec_def)
    show ?thesis
    proof (cases "d > elapsed_ticks s")
      case True
      then show ?thesis using "1.prems" by (subst expire_depressions.simps) (simp add: Cons key)
    next
      case False
      have "returns (and_then (restore_depression t s) expire_depressions) (\<lambda>s'. sched_inv s' \<and> timed s s')"
      proof (rule returnsE [OF restore_depression_inv [OF "1.prems" r(1)]])
        fix s1 assume s1: "restore_depression t s = Inr s1" "sched_inv s1 \<and> timed s s1"
        have "returns (expire_depressions s1) (\<lambda>s'. sched_inv s' \<and> timed s1 s')"
          by (rule "1.IH"(2) [OF Cons]) (use key False r dep s1 in simp_all)
        with s1 show ?thesis by (auto elim!: returns_mono intro: timed_trans)
      qed
      then show ?thesis
        using r dep False by (subst expire_depressions.simps) (simp add: Cons key)
    qed
  qed
qed

text \<open>A change of the policy of one thread together with its entry in the failsafe index.\<close>

lemma failsafe_cores:
  assumes cores: "cores s" and t: "threads s t = Some r" and T: "threads s' = (threads s)(t \<mapsto> r')"
    and queues: "processor_set_run_queue s' = processor_set_run_queue s"
      "processor_run_queues s' = processor_run_queues s" "runnable_count s' = runnable_count s"
    and orders: "depression_order s' = depression_order s" "process_threads s' = process_threads s"
      "order_ok failsafe_key ((threads s)(t \<mapsto> r')) (failsafe_order s')"
    and same: "queued r' = queued r" "queued_processor r' = queued_processor r"
      "queued_priority r' = queued_priority r" "realtime_queue_key r' = realtime_queue_key r"
      "queue_position r' = queue_position r" "bound_processor r' = bound_processor r"
      "scheduled_priority r' = scheduled_priority r" "depression_deadline r' = depression_deadline r"
    and counts: "waiting_count s' + of_bool (state r = Waiting) = waiting_count s + of_bool (state r' = Waiting)"
      "active_timeshare_count s' + of_bool (state r \<noteq> Waiting \<and> timeshare r) =
        active_timeshare_count s + of_bool (state r' \<noteq> Waiting \<and> timeshare r')"
  shows "cores s'"
proof -
  have c: "queue_core s" "count_core s" "index_core s" using cores by (simp_all add: cores_def)
  have "queue_rec (length (processor_run_queues s)) t r'"
    using queue_core_rec [OF c(1) t] same unfolding queue_rec_def by simp
  then have "queue_core s'" by (intro queue_core_change [OF c(1) t T queues]) (simp_all add: same)
  moreover have "count_core s'" by (rule count_core_change [OF c(2) queue_core_finite [OF c(1)] t T counts])
  moreover have "order_ok depression_key (threads s') (depression_order s')" "process_ok (threads s') (process_threads s')"
    unfolding T orders using c(3) t same(8) by (auto simp: index_core_def intro: order_ok_upd process_ok_upd)
  ultimately show ?thesis using orders(3) by (simp add: cores_def index_core_def T)
qed

lemma apply_failsafe_inv:
  assumes inv: "sched_inv s" and t: "threads s t = Some r"
  shows "returns (apply_failsafe t s) (\<lambda>s'. sched_inv s' \<and> timed s s')"
proof (cases "failsafe r")
  case False
  note rec = sched_inv_rec [OF inv t]
  let ?f = "\<lambda>r. r\<lparr>failsafe_saved_base_priority := base_priority r,
     failsafe_saved_timeshare := timeshare r, failsafe_saved_realtime := realtime r,
     base_priority := (if realtime r then minimum_priority else base_priority r),
     realtime := False, timeshare := True, failsafe := True,
     failsafe_release_tick := saturating_add (scheduler_tick s) failsafe_release_scheduler_ticks\<rparr>"
  define s2 where "s2 = (if state r \<noteq> Waiting \<and> \<not> timeshare r
    then (modify t ?f s)\<lparr>active_timeshare_count := active_timeshare_count (modify t ?f s) + 1\<rparr> else modify t ?f s)"
  define s3 where "s3 = index_failsafe t s2"
  have T: "threads s3 = (threads s)(t \<mapsto> ?f r)" by (simp add: s3_def s2_def index_failsafe_def t Let_def)
  have fo: "failsafe_order s3 = insort_insert (saturating_add (scheduler_tick s) failsafe_release_scheduler_ticks, t) (failsafe_order s)"
    by (simp add: s3_def s2_def index_failsafe_def t Let_def record_of_def)
  have "order_ok failsafe_key ((threads s)(t \<mapsto> ?f r)) (failsafe_order s3)"
    unfolding fo by (rule order_ok_insort [where r = r])
      (use inv t False in \<open>auto simp: sched_inv_def index_core_def\<close>)
  then have "cores s3"
    by (intro failsafe_cores [OF sched_inv_cores [OF inv] t T])
      (auto simp: s3_def s2_def index_failsafe_def t Let_def)
  then have "returns (recompute_priority t s3) (\<lambda>s'. sched_inv s' \<and> resettled t (?f r) s3 s')"
    by (rule recompute_inv [OF inv _ T])
      (use rec in \<open>simp_all add: settled_def policy_rec_def life_rec_def minimum_priority_def\<close>)
  then have "returns (recompute_priority t s3) (\<lambda>s'. sched_inv s' \<and> timed s s')"
  proof (rule returns_mono)
    fix s' assume s': "sched_inv s' \<and> resettled t (?f r) s3 s'"
    have "timed s s'"
      by (rule resettled_timed [OF s' [THEN conjunct2] t T])
        (simp_all add: life_of_def s3_def s2_def index_failsafe_def Let_def)
    with s' show "sched_inv s' \<and> timed s s'" by simp
  qed
  then show ?thesis using False t by (simp add: apply_failsafe_def record_of_def Let_def s3_def s2_def)
qed (use inv t in \<open>simp add: apply_failsafe_def record_of_def\<close>)

lemma release_failsafe_inv:
  assumes inv: "sched_inv s" and t: "threads s t = Some r"
  shows "returns (release_failsafe t s) (\<lambda>s'. sched_inv s' \<and> timed s s')"
proof (cases "failsafe r")
  case True
  note rec = sched_inv_rec [OF inv t]
  let ?s1 = "unindex_failsafe t s"
  define s2 where "s2 = (if state r \<noteq> Waiting \<and> timeshare r \<noteq> failsafe_saved_timeshare r
     then ?s1\<lparr>active_timeshare_count := (if failsafe_saved_timeshare r then active_timeshare_count ?s1 + 1
                        else active_timeshare_count ?s1 - 1)\<rparr> else ?s1)"
  let ?f = "\<lambda>r. r\<lparr>base_priority := failsafe_saved_base_priority r,
     timeshare := failsafe_saved_timeshare r, realtime := failsafe_saved_realtime r,
     failsafe := False, failsafe_release_tick := 0, computation_metered := 0\<rparr>"
  define s3 where "s3 = modify t ?f s2"
  define s4 where "s4 = modify t (\<lambda>r. r\<lparr>remaining_quantum := quantum_for s3 r\<rparr>) s3"
  let ?r = "(?f r)\<lparr>remaining_quantum := quantum_for s3 (?f r)\<rparr>"
  have T: "threads s4 = (threads s)(t \<mapsto> ?r)"
    by (simp add: s4_def s3_def s2_def unindex_failsafe_def t Let_def)
  have fo: "failsafe_order s4 = remove1 (failsafe_release_tick r, t) (failsafe_order s)"
    using True by (simp add: s4_def s3_def s2_def unindex_failsafe_def t Let_def record_of_def)
  have ok: "order_ok failsafe_key ((threads s)(t \<mapsto> ?r)) (failsafe_order s4)"
    unfolding fo by (rule order_ok_remove [where r = r])
      (use inv t True in \<open>auto simp: sched_inv_def index_core_def\<close>)
  have pos: "state r \<noteq> Waiting \<Longrightarrow> timeshare r \<Longrightarrow> active_timeshare_count s > 0"
    using active_positive [of s t r] sched_inv_cores [OF inv] t by (simp add: cores_def queue_core_finite)
  have "cores s4"
    by (rule failsafe_cores [OF sched_inv_cores [OF inv] t T _ _ _ _ _ ok])
      (use pos in \<open>auto simp: s4_def s3_def s2_def unindex_failsafe_def t Let_def\<close>)
  then have "returns (recompute_priority t s4) (\<lambda>s'. sched_inv s' \<and> resettled t ?r s4 s')"
    by (rule recompute_inv [OF inv _ T])
      (use rec in \<open>simp_all add: settled_def policy_rec_def life_rec_def\<close>)
  then have "returns (recompute_priority t s4) (\<lambda>s'. sched_inv s' \<and> timed s s')"
  proof (rule returns_mono)
    fix s' assume s': "sched_inv s' \<and> resettled t ?r s4 s'"
    have "timed s s'"
      by (rule resettled_timed [OF s' [THEN conjunct2] t T])
        (simp_all add: life_of_def s4_def s3_def s2_def unindex_failsafe_def Let_def)
    with s' show "sched_inv s' \<and> timed s s'" by simp
  qed
  then show ?thesis using True t by (simp add: release_failsafe_def record_of_def Let_def s4_def s3_def s2_def)
qed (use inv t in \<open>simp add: release_failsafe_def record_of_def\<close>)

lemma release_failsafes_inv: "sched_inv s \<Longrightarrow> returns (release_failsafes s) (\<lambda>s'. sched_inv s' \<and> timed s s')"
proof (induction s rule: release_failsafes.induct)
  case (1 s)
  show ?case
  proof (cases "failsafe_order s")
    case Nil
    then show ?thesis using "1.prems" by (subst release_failsafes.simps) simp
  next
    case (Cons key rest)
    obtain d t where key: "key = (d, t)" by (cases key)
    have "(d, t) \<in> set (failsafe_order s)" by (simp add: Cons key)
    then obtain r where r: "threads s t = Some r" "failsafe r" "failsafe_release_tick r = d"
      using "1.prems" by (auto simp: sched_inv_def index_core_def order_ok_def)
    show ?thesis
    proof (cases "d > scheduler_tick s")
      case True
      then show ?thesis using "1.prems" by (subst release_failsafes.simps) (simp add: Cons key)
    next
      case False
      have "returns (and_then (release_failsafe t s) release_failsafes) (\<lambda>s'. sched_inv s' \<and> timed s s')"
      proof (rule returnsE [OF release_failsafe_inv [OF "1.prems" r(1)]])
        fix s1 assume s1: "release_failsafe t s = Inr s1" "sched_inv s1 \<and> timed s s1"
        have "returns (release_failsafes s1) (\<lambda>s'. sched_inv s' \<and> timed s1 s')"
          by (rule "1.IH"(2) [OF Cons]) (use key False r s1 in simp_all)
        with s1 show ?thesis by (auto elim!: returns_mono intro: timed_trans)
      qed
      then show ?thesis
        using r False by (subst release_failsafes.simps) (simp add: Cons key)
    qed
  qed
qed

lemma age_thread_inv:
  assumes inv: "sched_inv s"
  shows "returns (age_thread elapsed shift t s) (\<lambda>s'. sched_inv s' \<and> timed s s')"
proof (cases "threads s t")
  case (Some r)
  let ?f = "\<lambda>r. r\<lparr>priority_usage_shift := shift,
    scheduling_usage := (if elapsed \<ge> scheduling_usage_decay_ticks then 0 else (decay_once ^^ elapsed) (scheduling_usage r)),
    cpu_usage := (if elapsed \<ge> scheduling_usage_decay_ticks then 0 else (decay_once ^^ elapsed) (cpu_usage r)),
    scheduler_stamp := scheduler_tick s\<rparr>"
  have T: "threads (modify t ?f s) = (threads s)(t \<mapsto> ?f r)" by (simp add: Some)
  have "cores (modify t ?f s)"
    by (rule cores_change [OF sched_inv_cores [OF inv] Some T]) simp_all
  then have "returns (recompute_priority t (modify t ?f s)) (\<lambda>s'. sched_inv s' \<and> resettled t (?f r) (modify t ?f s) s')"
    by (rule recompute_inv [OF inv _ T])
      (use sched_inv_rec [OF inv Some] in \<open>simp_all add: settled_def policy_rec_def life_rec_def\<close>)
  then have "returns (recompute_priority t (modify t ?f s)) (\<lambda>s'. sched_inv s' \<and> timed s s')"
    by (rule returns_mono) (use Some in \<open>auto intro!: resettled_timed [OF _ Some T] simp: life_of_def\<close>)
  then show ?thesis by (simp add: age_thread_def Some)
qed (use inv in \<open>simp add: age_thread_def\<close>)

lemma age_priorities_inv:
  assumes inv: "sched_inv s"
  shows "returns (age_priorities order elapsed s) (\<lambda>s'. sched_inv s' \<and> timed s s')"
  unfolding age_priorities_def Let_def
proof (rule returns_and_then [OF release_failsafes_inv [OF inv]])
  fix s1 assume s1: "sched_inv s1 \<and> timed s s1"
  show "returns (each (age_thread elapsed (processor_set_priority_shift s)) order s1) (\<lambda>s'. sched_inv s' \<and> timed s s')"
  proof (rule returns_each [where P = "\<lambda>s'. sched_inv s' \<and> timed s s'", OF s1])
    fix t s2 assume "sched_inv s2 \<and> timed s s2"
    then show "returns (age_thread elapsed (processor_set_priority_shift s) t s2) (\<lambda>s'. sched_inv s' \<and> timed s s')"
      using age_thread_inv [of s2 elapsed "processor_set_priority_shift s" t] by (auto elim!: returns_mono intro: timed_trans)
  qed
qed

lemma advance_scheduler_time_inv:
  assumes inv: "sched_inv s"
  shows "returns (advance_scheduler_time order consumed s) (\<lambda>s'. sched_inv s' \<and> timed s s')"
proof -
  let ?s0 = "s\<lparr>elapsed_ticks := saturating_add (elapsed_ticks s) consumed\<rparr>"
  have "sched_inv ?s0" by (rule sched_inv_cong [OF inv]) simp_all
  from expire_depressions_inv [OF this]
  show ?thesis
    unfolding advance_scheduler_time_def Let_def
  proof (rule returns_and_then, goal_cases)
    case (1 s1)
    let ?s2 = "s1\<lparr>elapsed_since_scheduler_tick :=
      saturating_add (elapsed_since_scheduler_tick s1) consumed mod scheduler_tick_ticks s1\<rparr>"
    let ?e = "saturating_add (elapsed_since_scheduler_tick s1) consumed div scheduler_tick_ticks s1"
    let ?s3 = "?s2\<lparr>scheduler_tick := saturating_add (scheduler_tick ?s2) ?e\<rparr>"
    have i: "sched_inv ?s2" "sched_inv ?s3"
      by (rule sched_inv_cong [of s1]; use 1 in simp)+
    have "timed s s1" using 1 by (simp add: timed_def)
    then have t: "timed s ?s2" "timed s ?s3" by (simp_all add: timed_def)
    show ?case
      using i(1) t(1) age_priorities_inv [OF i(2), of order ?e] t(2)
      by (auto elim!: returns_mono intro: timed_trans)
  qed
qed

section \<open>Selecting a thread\<close>

lemma peek_highest_spec:
  assumes core: "queue_core s" and q: "run_queue_at s loc = Some q" "rq_count q \<noteq> 0"
  shows "returns (peek_highest q s) (\<lambda>t. \<exists>r. threads s t = Some r \<and> queued r \<and> queued_processor r = loc \<and>
    queued_priority r = high_queue q \<and>
    (if high_queue q = 97 then realtime_order q \<noteq> [] \<and> realtime_queue_key r = Some (hd (realtime_order q))
     else high_queue q < 97 \<and> realtime_queue_key r = None \<and>
       queues q (nat (high_queue q)) = t # tl (queues q (nat (high_queue q)))))"
proof -
  note link = queue_core_link [OF core q(1)]
  have inv: "rq_inv q" using link by (simp add: link_at_def)
  note top = rq.top_occupied [OF inv q(2)]
  let ?p = "nat (high_queue q)"
  obtain u us where u: "queues q ?p = u # us" using top(3) by (cases "queues q ?p") auto
  moreover have "?p < 128" "int ?p = high_queue q" using top by simp_all
  moreover have "u \<in> set (queues q ?p) \<longleftrightarrow> holds_at (threads s) loc (int ?p) u"
    using link \<open>?p < 128\<close> unfolding link_at_def by blast
  ultimately have "holds_at (threads s) loc (high_queue q) u" by simp
  then obtain v where v: "threads s u = Some v" "queued v" "queued_processor v = loc" "queued_priority v = high_queue q"
    by (auto simp: holds_at_def)
  note vr = queue_core_rec [OF core v(1)]
  have le: "high_queue q \<le> 97" using vr v by (auto simp: queue_rec_def)
  show ?thesis
  proof (cases "high_queue q = 97")
    case False
    then have "realtime_queue_key v = None" using vr v by (auto simp: queue_rec_def)
    then show ?thesis
      using False le top q(2) u v
      by (simp add: peek_highest_def Let_def minimum_priority_def realtime_queue_priority_def)
  next
    case True
    obtain k where k: "realtime_queue_key v = Some k" "snd k = u"
      using vr v True by (auto simp: queue_rec_def)
    then have "keyed_at (threads s) loc k" using v by (auto simp: keyed_at_def)
    then have "k \<in> set (realtime_order q)" using link by (cases k) (auto simp: link_at_def)
    then obtain h hs where h: "realtime_order q = h # hs" by (cases "realtime_order q") auto
    then have "keyed_at (threads s) loc h" using link by (cases h) (auto simp: link_at_def)
    then obtain w where w: "threads s (snd h) = Some w" "queued w" "queued_processor w = loc" "realtime_queue_key w = Some h"
      by (auto simp: keyed_at_def)
    then have "queued_priority w = 97" using queue_core_rec [OF core w(1)] by (auto simp: queue_rec_def)
    then show ?thesis
      using True q(2) h w
      by (simp add: peek_highest_def Let_def minimum_priority_def realtime_queue_priority_def)
  qed
qed

text \<open>Popping the highest thread is removing it from its queue.\<close>

lemma rq_popped_erase:
  assumes "high_queue q = int p" "t \<in> set (queues q p)"
  shows "rq_popped (int p) (q\<lparr>queues := (queues q)(p := remove1 t (queues q p)),
      realtime_order := (case key of None \<Rightarrow> realtime_order q | Some k \<Rightarrow> remove1 k (realtime_order q))\<rparr>) =
    rq_erase key t (int p) q"
  using assms by (simp add: rq_popped_def rq_erase_def Let_def refresh_high_queue_def)

lemma pop_is_remove:
  assumes core: "queue_core s" and q: "run_queue_at s loc = Some q" "rq_count q \<noteq> 0"
    and peek: "peek_highest q s = Inr t"
  shows "\<exists>s1. pop_highest loc q s = Inr (t, s1) \<and> threads s1 t \<noteq> None \<and>
    remove_from_queue t s = Inr ((modify t (\<lambda>r. r\<lparr>queued := False, queued_processor := None\<rparr>) s1)
      \<lparr>runnable_count := runnable_count s1 - 1\<rparr>)"
proof -
  from peek_highest_spec [OF core q] peek obtain r where r: "threads s t = Some r" "queued r" "queued_processor r = loc"
    "queued_priority r = high_queue q"
    and rt: "if high_queue q = 97 then realtime_order q \<noteq> [] \<and> realtime_queue_key r = Some (hd (realtime_order q))
     else high_queue q < 97 \<and> realtime_queue_key r = None \<and>
       queues q (nat (high_queue q)) = t # tl (queues q (nat (high_queue q)))"
    by auto
  have link: "link_at (threads s) loc q" by (rule queue_core_link [OF core q(1)])
  have inv: "rq_inv q" using link by (simp add: link_at_def)
  note top = rq.top_occupied [OF inv q(2)]
  define p where "p = nat (high_queue q)"
  have p: "high_queue q = int p" "p < 128" using top by (simp_all add: p_def)
  have pos: "queue_position r = Some ()" using queue_core_rec [OF core r(1)] r(2) by (simp add: queue_rec_def)
  have mem: "t \<in> set (queues q p)" using link r p by (auto simp: link_at_def holds_at_def)
  let ?q = "rq_erase (realtime_queue_key r) t (int p) q"
  let ?s1 = "modify t (\<lambda>r. r\<lparr>queue_position := None, realtime_queue_key := None\<rparr>) (set_run_queue loc ?q s)"
  have rem: "remove_from_queue t s = Inr ((modify t (\<lambda>r. r\<lparr>queued := False, queued_processor := None\<rparr>) ?s1)
      \<lparr>runnable_count := runnable_count ?s1 - 1\<rparr>)"
    using r q pos by (simp add: remove_from_queue_def record_of_def Let_def p modify_def)
  have tl1: "remove1 (hd xs) xs = tl xs" for xs :: "(nat \<times> thread_id) list" by (cases xs) simp_all
  have "pop_highest loc q s = Inr (t, ?s1)"
  proof (cases "high_queue q = 97")
    case True
    then have "p = 97" using p by simp
    show ?thesis
      using True rt q(2) peek r pos rq_popped_erase [OF p(1) mem, of "realtime_queue_key r"]
      by (simp add: pop_highest_def Let_def minimum_priority_def realtime_queue_priority_def tl1 \<open>p = 97\<close>)
  next
    case False
    then have k: "realtime_queue_key r = None" "high_queue q < 97" "remove1 t (queues q p) = tl (queues q p)"
      using rt by (auto simp: p_def) (metis remove1.simps(2))
    have same: "modify t (\<lambda>r. r\<lparr>queue_position := None\<rparr>) (set_run_queue loc ?q s) = ?s1"
      using r k by (auto simp: modify_def intro!: scheduler.equality thread_record.equality)
    show ?thesis
      using k q(2) peek r top rq_popped_erase [OF p(1) mem, of None] same
      by (simp add: pop_highest_def Let_def minimum_priority_def realtime_queue_priority_def p)
  qed
  moreover have "threads ?s1 t \<noteq> None" using r by simp
  ultimately show ?thesis using rem by blast
qed

lemma selected_run_queue_Some:
  assumes core: "queue_core s" and sel: "selected_run_queue processor s = Some loc"
  obtains q where "run_queue_at s loc = Some q" "rq_count q \<noteq> 0" "processor < length (processor_run_queues s)"
    "loc = None \<or> loc = Some processor"
  using sel that by (auto simp: selected_run_queue_def run_queue_at_def Let_def split: if_splits)

text \<open>Without a preference, \<open>choose_next\<close> takes the thread that \<open>peek_next_for_processor\<close> shows, as
  if it had been preferred.\<close>

lemma choose_next_peek:
  assumes core: "queue_core s" and p: "processor < length (processor_run_queues s)"
  shows "returns (peek_next_for_processor processor s) (\<lambda>next.
    case next of
      None \<Rightarrow> selected_run_queue processor s = None \<and> choose_next processor None s = Inr (None, s)
    | Some t \<Rightarrow> choose_next processor None s = choose_next processor (Some t) s \<and>
        (\<exists>r. threads s t = Some r \<and> queued r \<and> (bound_processor r = None \<or> bound_processor r = Some processor)))"
proof (cases "selected_run_queue processor s")
  case None
  then show ?thesis using p by (simp add: peek_next_for_processor_def choose_next_def)
next
  case (Some loc)
  obtain q where q: "run_queue_at s loc = Some q" "rq_count q \<noteq> 0" "loc = None \<or> loc = Some processor"
    using selected_run_queue_Some [OF core Some] by metis
  obtain t r where t: "peek_highest q s = Inr t" "threads s t = Some r" "queued r" "queued_processor r = loc"
    using peek_highest_spec [OF core q(1,2)] by (auto elim!: returnsE)
  then have bound: "bound_processor r = loc" using queue_core_rec [OF core t(2)] by (auto simp: queue_rec_def)
  obtain s1 where s1: "pop_highest loc q s = Inr (t, s1)" "threads s1 t \<noteq> None"
      "remove_from_queue t s = Inr ((modify t (\<lambda>r. r\<lparr>queued := False, queued_processor := None\<rparr>) s1)
        \<lparr>runnable_count := runnable_count s1 - 1\<rparr>)"
    using pop_is_remove [OF core q(1,2) t(1)] by blast
  have "choose_next processor None s = choose_next processor (Some t) s"
    using p Some q s1 t bound by (auto simp: choose_next_def)
  then show ?thesis using Some q t bound by (auto simp: peek_next_for_processor_def)
qed

lemma start_slice_inv:
  assumes inv: "sched_inv s" and t: "threads s t = Some r" "state r = Runnable"
    and cores: "cores s1" and s1: "threads s1 = (threads s)(t \<mapsto> dequeued_rec r)"
  shows "returns (start_slice t processor s1) (\<lambda>(slice, s'). sched_inv s' \<and>
    (\<exists>r'. threads s' = (threads s)(t \<mapsto> r') \<and> state r' = Running \<and> last_processor r' = Some processor \<and>
      slice = Some \<lparr>slice_thread = t, slice_processor = processor, tick_budget = remaining_quantum r'\<rparr> \<and>
      remaining_quantum r' = remaining_quantum r \<and> bound_processor r' = bound_processor r))"
proof -
  note rec = sched_inv_rec [OF inv t(1)]
  let ?r1 = "dequeued_rec r"
  have t1: "threads s1 t = Some ?r1" by (simp add: s1)
  have p1: "policy_rec ?r1" using rec by (simp add: policy_rec_def)
  let ?P = "\<lambda>s'. cores s' \<and> (\<exists>r'. threads s' = (threads s1)(t \<mapsto> r') \<and> policy_rec r' \<and> life_of r' = life_of ?r1 \<and>
     timeshare r' = timeshare ?r1 \<and> remaining_quantum r' = remaining_quantum ?r1) \<and> timed s1 s'"
  have "returns (if depressed (record_of s1 t) then restore_depression t s1 else Inr s1) ?P"
    using restore_depression_spec [OF cores t1 p1] cores p1 t1
    by (auto simp: fun_upd_idem intro!: exI [of _ ?r1])
  then show ?thesis
    unfolding start_slice_def
  proof (rule returns_and_then, goal_cases)
    case (1 s2)
    then obtain r2 where r2: "threads s2 = (threads s1)(t \<mapsto> r2)" "policy_rec r2" "life_of r2 = life_of ?r1"
        "timeshare r2 = timeshare r" "remaining_quantum r2 = remaining_quantum r" "cores s2" by auto
    have t2: "threads s2 t = Some r2" by (simp add: r2)
    have life: "state r2 = Runnable" "\<not> queued r2" "suspend_count r2 = 0" "bound_processor r2 = bound_processor r"
      using r2(3) t(2) rec by (auto simp: life_of_def life_rec_def)
    define s3 where "s3 = modify t (\<lambda>r. r\<lparr>state := Running, last_processor := Some processor\<rparr>) s2"
    let ?r3 = "r2\<lparr>state := Running, last_processor := Some processor\<rparr>"
    define s4 where "s4 = (if timeshare ?r3 \<and> (remaining_timeslices ?r3 = 0 \<or> timeslice_processor ?r3 \<noteq> Some processor)
      then modify t (\<lambda>r. r\<lparr>remaining_timeslices := timeshare_quanta s3, timeslice_processor := Some processor\<rparr>) s3 else s3)"
    define s5 where "s5 = modify t (\<lambda>r. r\<lparr>priority_usage_shift := processor_set_priority_shift s4\<rparr>) s4"
    have r3: "record_of (modify t (\<lambda>r. r\<lparr>state := Running, last_processor := Some processor\<rparr>) s2) t = ?r3"
      using t2 by (simp add: record_of_def)
    obtain r5 where r5: "threads s5 = (threads s2)(t \<mapsto> r5)" "policy_of r5 = policy_of (r5\<lparr>state := Running\<rparr>)"
        "policy_rec r5 = policy_rec ?r3" "life_rec r5 = life_rec ?r3" "state r5 = Running" "last_processor r5 = Some processor"
        "remaining_quantum r5 = remaining_quantum r2" "bound_processor r5 = bound_processor r2"
      and c5: "cores s5"
    proof -
      define r4 where "r4 = (if timeshare ?r3 \<and> (remaining_timeslices ?r3 = 0 \<or> timeslice_processor ?r3 \<noteq> Some processor)
        then ?r3\<lparr>remaining_timeslices := timeshare_quanta s3, timeslice_processor := Some processor\<rparr> else ?r3)"
      let ?r5 = "r4\<lparr>priority_usage_shift := processor_set_priority_shift s4\<rparr>"
      have T: "threads s5 = (threads s2)(t \<mapsto> ?r5)" using t2 by (auto simp: s5_def s4_def s3_def r4_def)
      have "cores s5"
        by (rule cores_change [OF r2(6) t2 T]) (use life in \<open>simp_all add: s5_def s4_def s3_def r4_def\<close>)
      then show thesis
        by (intro that [OF T]) (simp_all add: r4_def policy_rec_def life_rec_def policy_of_def)
    qed
    have "sched_inv s5"
      by (rule sched_inv_one [OF inv c5, of t r5]) (use r2 r5 life s1 in \<open>simp_all add: policy_rec_def life_rec_def\<close>)
    moreover have "threads s5 = (threads s)(t \<mapsto> r5)" using r5(1) r2(1) s1 by simp
    moreover have "record_of s5 t = r5" using r5(1) by (simp add: record_of_def)
    ultimately show ?case
      unfolding Let_def
      unfolding r3
      unfolding s3_def [symmetric]
      unfolding s4_def [symmetric]
      unfolding s5_def [symmetric]
      using r5 r2(5) life(4) by auto
  qed
qed

lemma choose_preferred_inv:
  assumes inv: "sched_inv s" and p: "processor < length (processor_run_queues s)"
    and t: "threads s t = Some r" "queued r" "bound_processor r = None \<or> bound_processor r = Some processor"
  shows "returns (choose_next processor (Some t) s) (\<lambda>(slice, s'). sched_inv s' \<and>
    (\<exists>r'. threads s' = (threads s)(t \<mapsto> r') \<and> state r' = Running \<and> last_processor r' = Some processor \<and>
      slice = Some \<lparr>slice_thread = t, slice_processor = processor, tick_budget = remaining_quantum r'\<rparr> \<and>
      remaining_quantum r' = remaining_quantum r \<and> bound_processor r' = bound_processor r))"
proof -
  have run: "state r = Runnable" using sched_inv_rec [OF inv t(1)] t(2) by (auto simp: life_rec_def)
  have eq: "choose_next processor (Some t) s = and_then (remove_from_queue t s) (start_slice t processor)"
    using p t by (auto simp: choose_next_def)
  show ?thesis
    unfolding eq
  proof (rule returns_and_then [OF remove_cores [OF sched_inv_cores [OF inv] t(1)]])
    fix s1 assume "cores s1 \<and> moved t (dequeued_rec r) s s1"
    then show "returns (start_slice t processor s1) (\<lambda>(slice, s'). sched_inv s' \<and>
        (\<exists>r'. threads s' = (threads s)(t \<mapsto> r') \<and> state r' = Running \<and> last_processor r' = Some processor \<and>
          slice = Some \<lparr>slice_thread = t, slice_processor = processor, tick_budget = remaining_quantum r'\<rparr> \<and>
          remaining_quantum r' = remaining_quantum r \<and> bound_processor r' = bound_processor r))"
      by (intro start_slice_inv [OF inv t(1) run]) (simp_all add: moved_def)
  qed
qed

lemma choose_next_inv:
  assumes inv: "sched_inv s"
  shows "keeps_inv (choose_next processor preferred s)"
proof (cases "processor < length (processor_run_queues s)")
  case True
  have pref: "keeps_inv (choose_next processor (Some t) s)" for t
  proof (cases "\<exists>r. threads s t = Some r \<and> queued r \<and> (bound_processor r = None \<or> bound_processor r = Some processor)")
    case True
    then obtain r where "threads s t = Some r" "queued r" "bound_processor r = None \<or> bound_processor r = Some processor" by blast
    from choose_preferred_inv [OF inv \<open>processor < _\<close> this] show ?thesis by (rule returns_mono) auto
  next
    case False
    then show ?thesis using inv by (auto simp: choose_next_def split: option.split)
  qed
  show ?thesis
  proof (cases preferred)
    case None
    have "queue_core s" using inv by (simp add: sched_inv_def)
    from choose_next_peek [OF this True] show ?thesis
      using pref inv None by (auto elim!: returnsE split: option.splits)
  qed (simp add: pref)
qed (use inv in \<open>simp add: choose_next_def\<close>)

section \<open>Completing a slice\<close>

text \<open>A running thread that stops running: enqueued again, waiting, or gone.\<close>

lemma resume_queue_inv:
  assumes inv: "sched_inv s" and t: "threads s t = Some r" "state r = Running"
    and T: "threads s' = (threads s)(t \<mapsto> r')" and r': "state r' = Runnable" "policy_rec r'"
      "queued r' = queued r" "queued_processor r' = queued_processor r"
      "queued_priority r' = queued_priority r" "realtime_queue_key r' = realtime_queue_key r"
      "queue_position r' = queue_position r" "bound_processor r' = bound_processor r"
      "scheduled_priority r' = scheduled_priority r" "depression_deadline r' = depression_deadline r"
      "failsafe r' = failsafe r" "failsafe_release_tick r' = failsafe_release_tick r"
      "timeshare r' = timeshare r" "suspend_count r' = suspend_count r"
    and same: "processor_set_run_queue s' = processor_set_run_queue s" "processor_run_queues s' = processor_run_queues s"
      "runnable_count s' = runnable_count s" "depression_order s' = depression_order s"
      "failsafe_order s' = failsafe_order s" "process_threads s' = process_threads s"
      "waiting_count s' = waiting_count s" "active_timeshare_count s' = active_timeshare_count s"
  shows "returns (enqueue t position s') (\<lambda>s''. sched_inv s'' \<and> moved t (enqueued_rec t r') s' s'')"
proof -
  have life: "\<not> queued r" "suspend_count r = 0" using sched_inv_rec [OF inv t(1)] t(2) by (auto simp: life_rec_def)
  have "cores s'"
    by (rule cores_change [OF sched_inv_cores [OF inv] t(1) T]) (use same r' t in simp_all)
  then show ?thesis by (rule enqueue_inv [OF inv _ T]) (use r' life in simp_all)
qed

lemma end_slice_inv:
  assumes inv: "sched_inv s" and t: "threads s t = Some r" "state r = Running"
  shows "keeps_inv (end_slice t completion s)"
proof -
  note rec = sched_inv_rec [OF inv t(1)]
  have life: "\<not> queued r" "suspend_count r = 0" using rec t(2) by (auto simp: life_rec_def)
  have rt: "record_of s t = r" by (simp add: record_of_def t)
  have pos: "timeshare r \<Longrightarrow> active_timeshare_count s > 0"
    using active_positive [of s t r] sched_inv_cores [OF inv] t by (simp add: cores_def queue_core_finite)
  consider "completion = Terminate" | "completion = Block" "wake_pending r" | "completion = Block" "\<not> wake_pending r"
    | "completion \<in> {Continue, Yield}" "completion = Yield \<or> remaining_quantum r = 0"
    | "completion = Continue" "remaining_quantum r \<noteq> 0"
    by (cases completion) auto
  then show ?thesis
  proof cases
    case 1
    let ?s1 = "if timeshare r then s\<lparr>active_timeshare_count := active_timeshare_count s - 1\<rparr> else s"
    have "sched_inv ((unindex_thread t ?s1)\<lparr>threads := (threads ?s1)(t := None)\<rparr>)"
    proof (rule erase_thread_inv [OF inv t(1), where ?r2.0 = r])
      show "queue_core ?s1" by (rule queue_core_cong [of s]) (use inv in \<open>simp_all add: sched_inv_def\<close>)
      show "index_core ?s1" by (rule index_core_cong [of s]) (use inv in \<open>simp_all add: sched_inv_def\<close>)
    qed (use life t pos in \<open>simp_all add: fun_upd_idem\<close>)
    then show ?thesis by (simp add: end_slice_def rt 1 Let_def)
  next
    case 2
    let ?f = "\<lambda>r. r\<lparr>wake_pending := False, state := Runnable, remaining_quantum := quantum_for s r,
      remaining_timeslices := 0, timeslice_processor := None\<rparr>"
    have "returns (enqueue t Back (modify t ?f s)) (\<lambda>s'. sched_inv s' \<and> moved t (enqueued_rec t (?f r)) (modify t ?f s) s')"
      by (rule resume_queue_inv [OF inv t]) (use rec t in \<open>simp_all add: policy_rec_def\<close>)
    from keeps_invI [OF this] 2 show ?thesis by (simp add: end_slice_def rt Let_def)
  next
    case 3
    let ?s1 = "modify t (\<lambda>r. r\<lparr>state := Waiting\<rparr>) s"
    let ?s2 = "?s1\<lparr>waiting_count := waiting_count ?s1 + 1,
      active_timeshare_count := if timeshare r then active_timeshare_count ?s1 - 1 else active_timeshare_count ?s1\<rparr>"
    let ?g = "\<lambda>r. r\<lparr>remaining_quantum := quantum_for ?s2 r, remaining_timeslices := 0, timeslice_processor := None\<rparr>"
    let ?r = "?g (r\<lparr>state := Waiting\<rparr>)"
    have T: "threads (modify t ?g ?s2) = (threads s)(t \<mapsto> ?r)" by (simp add: t)
    have "cores (modify t ?g ?s2)"
      by (rule cores_change [OF sched_inv_cores [OF inv] t(1) T]) (use t pos in simp_all)
    then have "sched_inv (modify t ?g ?s2)"
      by (rule sched_inv_one [OF inv _ T]) (use rec life in \<open>simp_all add: policy_rec_def life_rec_def\<close>)
    then show ?thesis using 3 by (simp add: end_slice_def rt Let_def)
  next
    case 4
    define f where "f = (\<lambda>r. r\<lparr>computation_metered := (if completion = Yield then 0 else computation_metered r),
      remaining_quantum := quantum_for s r\<rparr>)"
    let ?s1 = "modify t f (modify t (\<lambda>r. r\<lparr>wake_pending := False\<rparr>) s)"
    let ?r1 = "f (r\<lparr>wake_pending := False\<rparr>)"
    have T1: "threads ?s1 = (threads s)(t \<mapsto> ?r1)" by (simp add: t)
    have "cores ?s1"
      by (rule cores_change [OF sched_inv_cores [OF inv] t(1) T1]) (simp_all add: f_def)
    then have step: "returns (recompute_priority t ?s1) (\<lambda>s'. sched_inv s' \<and> resettled t ?r1 ?s1 s')"
      by (rule recompute_inv [OF inv _ T1])
        (use rec in \<open>simp_all add: f_def settled_def policy_rec_def life_rec_def\<close>)
    have q: "quantum_for (modify t g s) r = quantum_for s r" for g r by (simp add: quantum_for_def)
    have eq: "end_slice t completion s = and_then (recompute_priority t ?s1) (\<lambda>s2.
        let s3 = modify t (\<lambda>r. r\<lparr>state := Runnable\<rparr>) s2; r3 = record_of s3 t in
        if completion \<noteq> Yield \<and> timeshare r3 \<and> remaining_timeslices r3 > 1
        then and_then (enqueue t Front (modify t (\<lambda>r. r\<lparr>remaining_timeslices := remaining_timeslices r - 1\<rparr>) s3)) (\<lambda>s. Inr (True, s))
        else and_then (enqueue t Back (modify t (\<lambda>r. r\<lparr>remaining_timeslices := 0, timeslice_processor := None\<rparr>) s3)) (\<lambda>s. Inr (True, s)))"
      using 4 by (auto simp: end_slice_def rt Let_def q f_def)
    show ?thesis
      unfolding eq Let_def
    proof (rule returns_and_then [OF step], goal_cases)
      case (1 s2)
      then obtain r2 where r2: "moved t r2 ?s1 s2" "policy_of r2 = policy_of ?r1" by (auto simp: resettled_def)
      have t2: "threads s2 t = Some r2" using r2(1) by (simp add: moved_def)
      have run: "state r2 = Running" using policy_ofD(1) [OF r2(2)] t(2) by (simp add: f_def)
      have p2: "policy_rec r2" using sched_inv_rec [of s2 t r2] 1 t2 by simp
      let ?s3 = "modify t (\<lambda>r. r\<lparr>state := Runnable\<rparr>) s2"
      have go: "keeps_inv (and_then (enqueue t position (modify t h ?s3)) (\<lambda>s. Inr (True, s)))"
        if h: "h = (\<lambda>r. r\<lparr>remaining_timeslices := remaining_timeslices r - 1\<rparr>) \<or>
          h = (\<lambda>r. r\<lparr>remaining_timeslices := 0, timeslice_processor := None\<rparr>)" for position h
      proof -
        have "returns (enqueue t position (modify t h ?s3))
            (\<lambda>s'. sched_inv s' \<and> moved t (enqueued_rec t (h (r2\<lparr>state := Runnable\<rparr>))) (modify t h ?s3) s')"
          by (rule resume_queue_inv [OF _ t2 run])
            (use 1 t2 h p2 in \<open>auto simp: policy_rec_def\<close>)
        then show ?thesis by (rule keeps_invI)
      qed
      then show ?case by simp
    qed
  next
    case 5
    let ?s1 = "modify t (\<lambda>r. r\<lparr>state := Runnable\<rparr>) (modify t (\<lambda>r. r\<lparr>wake_pending := False\<rparr>) s)"
    let ?r1 = "r\<lparr>wake_pending := False, state := Runnable\<rparr>"
    have "returns (enqueue t Front ?s1) (\<lambda>s'. sched_inv s' \<and> moved t (enqueued_rec t ?r1) ?s1 s')"
      by (rule resume_queue_inv [OF inv t]) (use rec t in \<open>simp_all add: policy_rec_def\<close>)
    from keeps_invI [OF this] 5 show ?thesis by (simp add: end_slice_def rt Let_def)
  qed
qed

text \<open>The accounting phase of \<open>complete_slice\<close>: the thread comes out of it still running, with
  its pending wake-up and its suspensions as they were.\<close>

lemma complete_slice_charge:
  assumes inv: "sched_inv s" and t: "threads s t = Some r" "state r = Running"
  shows "\<exists>s3 r3. complete_slice order t consumed completion accounting s = end_slice t completion s3 \<and>
    sched_inv s3 \<and> threads s3 t = Some r3 \<and> state r3 = Running \<and> life_of r3 = life_of r"
proof -
  let ?s1 = "modify t (charge_slice consumed) s"
  have T: "threads ?s1 = (threads s)(t \<mapsto> charge_slice consumed r)" by (simp add: t)
  have "cores ?s1"
    by (rule cores_change [OF sched_inv_cores [OF inv] t(1) T]) (simp_all add: charge_slice_def)
  then have i1: "sched_inv ?s1"
    by (rule sched_inv_one [OF inv _ T])
      (use sched_inv_rec [OF inv t(1)] in \<open>simp_all add: charge_slice_def policy_rec_def life_rec_def\<close>)
  have t1: "threads ?s1 t = Some (charge_slice consumed r)" by (simp add: t)
  have life: "life_of (charge_slice consumed r) = life_of r" by (simp add: life_of_def charge_slice_def)
  let ?P = "\<lambda>s'. sched_inv s' \<and> timed ?s1 s'"
  have step1: "returns (if c then apply_failsafe t ?s1 else Inr ?s1) ?P" for c
    using apply_failsafe_inv [OF i1 t1] i1 by simp
  have step2: "returns (if accounting = Advance then advance_scheduler_time order consumed s2 else Inr s2) ?P"
    if "?P s2" for s2
    using that advance_scheduler_time_inv [of s2 order consumed] by (auto elim!: returns_mono intro: timed_trans)
  have step: "\<exists>s3. and_then (if c then apply_failsafe t ?s1 else Inr ?s1) (\<lambda>s2.
      and_then (if accounting = Advance then advance_scheduler_time order consumed s2 else Inr s2)
        (end_slice t completion)) = end_slice t completion s3 \<and> ?P s3" for c
  proof -
    obtain s2 where s2: "(if c then apply_failsafe t ?s1 else Inr ?s1) = Inr s2" "?P s2"
      using step1 by (rule returnsE)
    obtain s3 where "(if accounting = Advance then advance_scheduler_time order consumed s2 else Inr s2) = Inr s3" "?P s3"
      using step2 [OF s2(2)] by (rule returnsE)
    then show ?thesis unfolding s2(1) and_then_simps by auto
  qed
  have nn: "\<not> state r \<noteq> Running" using t by simp
  obtain s3 where s3: "complete_slice order t consumed completion accounting s = end_slice t completion s3" "?P s3"
    using step unfolding complete_slice_def t(1) option.case Let_def if_not_P [OF nn] by blast
  obtain r3 where r3: "threads s3 t = Some r3" "life_of r3 = life_of r"
    using timed_thread [of ?s1 s3 t "charge_slice consumed r"] s3(2) t1 life by auto
  then have "state r3 = Running" using t(2) by (simp add: life_of_def)
  with s3 r3 show ?thesis by blast
qed

lemma complete_slice_inv:
  assumes inv: "sched_inv s"
  shows "keeps_inv (complete_slice order t consumed completion accounting s)"
proof (cases "threads s t")
  case (Some r)
  show ?thesis
  proof (cases "state r = Running")
    case True
    from complete_slice_charge [OF inv Some True, of order consumed completion accounting] show ?thesis
      using end_slice_inv by force
  qed (use inv Some in \<open>simp add: complete_slice_def\<close>)
qed (use inv in \<open>simp add: complete_slice_def\<close>)

section \<open>Histories\<close>

text \<open>Every operation as an event; the iteration orders come with the events that need one.\<close>

datatype sched_op =
    Register thread_id int bool
  | RemoveThread thread_id
  | RemoveProcess "thread_id list" u32
  | MakeRunnable thread_id
  | Wake thread_id
  | BlockThread thread_id
  | Suspend thread_id
  | Resume thread_id
  | SetBasePriority thread_id int
  | Depress thread_id nat
  | Bind thread_id "nat option"
  | SetTimeshare thread_id bool
  | SetRealtime thread_id nat nat nat bool
  | Choose nat "thread_id option"
  | Complete "thread_id list" thread_id nat slice_completion time_accounting
  | AdvanceTime "thread_id list" nat

definition after :: "sched_error + 'a \<times> scheduler \<Rightarrow> sched_error + scheduler" where
  "after m = and_then m (\<lambda>(_, s). Inr s)"

fun sched_apply :: "scheduler \<Rightarrow> sched_op \<Rightarrow> sched_error + scheduler" where
  "sched_apply s (Register t p runnable) = after (register_thread t p runnable s)"
| "sched_apply s (RemoveThread t) = after (remove_thread t s)"
| "sched_apply s (RemoveProcess order p) = after (remove_process order p s)"
| "sched_apply s (MakeRunnable t) = after (make_runnable t s)"
| "sched_apply s (Wake t) = after (wake_thread t s)"
| "sched_apply s (BlockThread t) = after (block t s)"
| "sched_apply s (Suspend t) = after (suspend_thread t s)"
| "sched_apply s (Resume t) = after (resume_thread t s)"
| "sched_apply s (SetBasePriority t p) = after (set_base_priority t p s)"
| "sched_apply s (Depress t d) = after (depress t d s)"
| "sched_apply s (Bind t processor) = after (bind_thread t processor s)"
| "sched_apply s (SetTimeshare t share) = after (set_timeshare t share s)"
| "sched_apply s (SetRealtime t period computation constraint preemptible) =
     after (set_realtime t period computation constraint preemptible s)"
| "sched_apply s (Choose processor preferred) = after (choose_next processor preferred s)"
| "sched_apply s (Complete order t consumed completion accounting) =
     after (complete_slice order t consumed completion accounting s)"
| "sched_apply s (AdvanceTime order elapsed) = advance_time order elapsed s"

text \<open>The priorities below the realtime band are the ones the thread policies may ask for.\<close>

fun op_below_realtime :: "sched_op \<Rightarrow> bool" where
  "op_below_realtime (Register t p runnable) = (p < realtime_queue_priority)"
| "op_below_realtime (SetBasePriority t p) = (p < realtime_queue_priority)"
| "op_below_realtime _ = True"

lemma after_inv: "keeps_inv m \<Longrightarrow> returns (after m) sched_inv"
  unfolding after_def by (erule returns_and_then) auto

lemma sched_apply_inv:
  assumes "sched_inv s" and "op_below_realtime e"
  shows "returns (sched_apply s e) sched_inv"
proof (cases e)
  case (RemoveThread t)
  then show ?thesis using remove_thread_inv [OF assms(1), of t] by (auto intro!: after_inv elim: returns_mono)
next
  case (AdvanceTime order elapsed)
  then show ?thesis
    using advance_scheduler_time_inv [OF assms(1), of order elapsed]
    by (auto simp: advance_time_def elim: returns_mono)
qed (use assms in \<open>auto simp: realtime_queue_priority_def intro!: after_inv intro: register_thread_inv remove_process_inv
      make_runnable_inv wake_thread_inv block_inv suspend_thread_inv resume_thread_inv set_base_priority_inv
      depress_inv bind_thread_inv set_timeshare_inv set_realtime_inv choose_next_inv complete_slice_inv\<close>)

lemma scheduler_init_inv:
  assumes "scheduler_init quantum tick_ticks processors = Inr s"
  shows "sched_inv s"
proof -
  have s: "threads s = Map.empty" "processor_set_run_queue s = empty_run_queue"
      "processor_run_queues s = replicate processors empty_run_queue" "processors \<noteq> 0"
      "depression_order s = []" "failsafe_order s = []" "process_threads s = Map.empty"
      "runnable_count s = 0" "waiting_count s = 0" "active_timeshare_count s = 0"
    using assms by (auto simp: scheduler_init_def split: if_splits)
  have "run_queue_at s loc = Some q \<Longrightarrow> q = empty_run_queue" for loc q
    by (auto simp: run_queue_at_def s split: option.splits if_splits)
  moreover have "link_at Map.empty loc empty_run_queue" for loc
    using empty_run_queue_inv unfolding link_at_def
    by (simp add: holds_at_def keyed_at_def) (simp add: empty_run_queue_def)
  ultimately have "queue_core s" using s by (auto simp: queue_core_def cnt_def)
  moreover have "count_core s" by (simp add: count_core_def cnt_def s)
  moreover have "index_core s" by (simp add: index_core_def order_ok_def process_ok_def s)
  ultimately show ?thesis by (simp add: sched_inv_def s)
qed

definition sched_run :: "scheduler \<Rightarrow> sched_op list \<Rightarrow> sched_error + scheduler" where
  "sched_run s ops = each (\<lambda>e s. sched_apply s e) ops s"

lemma sched_run_inv:
  assumes "scheduler_init quantum tick_ticks processors = Inr s" and "list_all op_below_realtime ops"
  shows "returns (sched_run s ops) sched_inv"
  unfolding sched_run_def
  by (rule returns_each [where P = sched_inv, OF scheduler_init_inv [OF assms(1)]])
    (use assms(2) in \<open>auto simp: list_all_iff intro: sched_apply_inv\<close>)

end
