(* ===== verification/Xnu_Scheduler_Properties.thy ===== *)
theory Xnu_Scheduler_Properties
  imports Xnu_Scheduler_Safety
begin

text \<open>
  What the scheduler promises to the rest of the system, stated over every history of its
  operations: queues and counters always agree with the thread table, the selected thread is
  one of highest priority, suspension is respected, a wake-up that races a blocking call is
  not lost, and preemption is asked for exactly when the policy says so. One theorem records
  where the implementation throws instead: a thread in the realtime band that is not realtime.
\<close>

section \<open>Reading the queues\<close>

definition eligible :: "nat \<Rightarrow> scheduler \<Rightarrow> thread_id \<Rightarrow> thread_record \<Rightarrow> bool" where
  "eligible processor s t r \<longleftrightarrow> threads s t = Some r \<and> state r = Runnable \<and>
     (bound_processor r = None \<or> bound_processor r = Some processor)"

lemma inv_queue_core: "sched_inv s \<Longrightarrow> queue_core s"
  by (simp add: sched_inv_def)

lemma queued_iff_runnable: "sched_inv s \<Longrightarrow> threads s t = Some r \<Longrightarrow> queued r \<longleftrightarrow> state r = Runnable"
  by (auto simp: sched_inv_def life_rec_def)

lemma in_queue_iff:
  assumes inv: "sched_inv s" and q: "run_queue_at s loc = Some q" and p: "p < 128"
  shows "t \<in> set (queues q p) \<longleftrightarrow> (\<exists>r. threads s t = Some r \<and> state r = Runnable \<and>
    bound_processor r = loc \<and> scheduled_priority r = int p)"
proof -
  have "t \<in> set (queues q p) \<longleftrightarrow> holds_at (threads s) loc (int p) t"
    using queue_core_link [OF inv_queue_core [OF inv] q] p by (simp add: link_at_def)
  also have "\<dots> \<longleftrightarrow> (\<exists>r. threads s t = Some r \<and> state r = Runnable \<and> bound_processor r = loc \<and>
      scheduled_priority r = int p)"
    using queue_core_rec [OF inv_queue_core [OF inv], of t] queued_iff_runnable [OF inv, of t]
    by (cases "threads s t") (auto simp: holds_at_def queue_rec_def)
  finally show ?thesis .
qed

lemma runnable_in_queue:
  assumes inv: "sched_inv s" and t: "threads s t = Some r" "state r = Runnable"
  obtains q where "run_queue_at s (bound_processor r) = Some q" "rq_inv q" "rq_count q \<noteq> 0"
    "scheduled_priority r \<le> high_queue q"
proof -
  note rec = queue_core_rec [OF inv_queue_core [OF inv] t(1)]
  obtain q where q: "run_queue_at s (bound_processor r) = Some q" using bound_run_queue [OF rec] .
  let ?p = "nat (scheduled_priority r)"
  have p: "?p < 128" "int ?p = scheduled_priority r" using rec by (auto simp: queue_rec_def)
  have mem: "t \<in> set (queues q ?p)" using in_queue_iff [OF inv q p(1), of t] t p(2) by auto
  have inv_q: "rq_inv q" using queue_core_link [OF inv_queue_core [OF inv] q] by (simp add: link_at_def)
  from rq.top_upper [OF inv_q p(1) mem] p(2) that [OF q inv_q] show thesis by simp
qed

lemma high_queue_below_empty: "rq_inv q \<Longrightarrow> rq_count q = 0 \<Longrightarrow> high_queue q = -1"
  by (rule rq.empty_top)

text \<open>The selected queue dominates every thread the processor could run.\<close>

lemma selected_dominates:
  assumes inv: "sched_inv s" and p: "processor < length (processor_run_queues s)" and u: "eligible processor s u ru"
  obtains loc q where "selected_run_queue processor s = Some loc" "run_queue_at s loc = Some q"
    "scheduled_priority ru \<le> high_queue q"
proof -
  let ?l = "processor_run_queues s ! processor" and ?g = "processor_set_run_queue s"
  have at: "run_queue_at s (Some processor) = Some ?l" "run_queue_at s None = Some ?g"
    using p by (simp_all add: run_queue_at_def)
  have invs: "rq_inv ?l" "rq_inv ?g"
    using queue_core_link [OF inv_queue_core [OF inv]] at by (auto simp: link_at_def)
  obtain q where q: "run_queue_at s (bound_processor ru) = Some q" "rq_count q \<noteq> 0" "scheduled_priority ru \<le> high_queue q"
    using runnable_in_queue [OF inv, of u ru] u by (auto simp: eligible_def)
  have q': "q = ?l \<or> q = ?g" using q(1) u at by (auto simp: eligible_def)
  show thesis
  proof (cases "rq_count ?l \<noteq> 0 \<and> high_queue ?l \<ge> high_queue ?g")
    case True
    then show thesis using p q q' at by (intro that [of "Some processor" ?l]) (auto simp: selected_run_queue_def Let_def)
  next
    case False
    have g: "rq_count ?g \<noteq> 0"
    proof
      assume "rq_count ?g = 0"
      with invs(2) have "high_queue ?g = -1" by (rule high_queue_below_empty)
      moreover have "rq_count ?l \<noteq> 0" using q q' \<open>rq_count ?g = 0\<close> by auto
      then have "0 \<le> high_queue ?l" using rq.top_occupied(1) [OF invs(1)] by simp
      ultimately show False using False \<open>rq_count ?l \<noteq> 0\<close> by simp
    qed
    have "high_queue q \<le> high_queue ?g" using q' False q(2) by auto
    then show thesis using p q(3) at g False by (intro that [of None ?g]) (auto simp: selected_run_queue_def Let_def)
  qed
qed

lemma peek_next_spec:
  assumes inv: "sched_inv s" and p: "processor < length (processor_run_queues s)"
  shows "returns (peek_next_for_processor processor s) (\<lambda>next. case next of
      None \<Rightarrow> \<forall>t r. \<not> eligible processor s t r
    | Some t \<Rightarrow> \<exists>r. eligible processor s t r \<and>
        (\<forall>u ru. eligible processor s u ru \<longrightarrow> scheduled_priority ru \<le> scheduled_priority r))"
proof (cases "selected_run_queue processor s")
  case None
  then have "\<not> eligible processor s t r" for t r
    using selected_dominates [OF inv p] by (metis option.distinct(1))
  with None show ?thesis by (simp add: peek_next_for_processor_def)
next
  case (Some loc)
  obtain q where q: "run_queue_at s loc = Some q" "rq_count q \<noteq> 0" "loc = None \<or> loc = Some processor"
    using selected_run_queue_Some [OF inv_queue_core [OF inv] Some] by metis
  obtain t r where t: "peek_highest q s = Inr t" "threads s t = Some r" "queued r" "queued_processor r = loc"
      "queued_priority r = high_queue q"
    using peek_highest_spec [OF inv_queue_core [OF inv] q(1,2)] by (auto elim!: returnsE)
  have r: "bound_processor r = loc" "scheduled_priority r = high_queue q"
    using queue_core_rec [OF inv_queue_core [OF inv] t(2)] t by (auto simp: queue_rec_def)
  have "eligible processor s t r"
    using t r q(3) queued_iff_runnable [OF inv t(2)] by (auto simp: eligible_def)
  moreover have "scheduled_priority ru \<le> scheduled_priority r" if "eligible processor s u ru" for u ru
    using selected_dominates [OF inv p that] Some q(1) r(2) by (metis option.inject)
  ultimately show ?thesis using Some q t by (auto simp: peek_next_for_processor_def)
qed

text \<open>The first thread of its level, or the one with the least deadline key in the realtime band.\<close>

definition first_in_line :: "scheduler \<Rightarrow> thread_id \<Rightarrow> thread_record \<Rightarrow> bool" where
  "first_in_line s t r \<longleftrightarrow> (\<exists>q. run_queue_at s (bound_processor r) = Some q \<and>
     (if scheduled_priority r = 97
      then \<exists>k. realtime_queue_key r = Some k \<and> (\<forall>k'\<in>set (realtime_order q). k \<le> k')
      else hd (queues q (nat (scheduled_priority r))) = t))"

lemma peek_first_in_line:
  assumes inv: "sched_inv s" and peek: "peek_next_for_processor processor s = Inr (Some t)"
  obtains r where "threads s t = Some r" "first_in_line s t r"
proof -
  obtain loc where sel: "selected_run_queue processor s = Some loc"
    using peek by (cases "selected_run_queue processor s") (auto simp: peek_next_for_processor_def)
  obtain q where q: "run_queue_at s loc = Some q" "rq_count q \<noteq> 0"
    using selected_run_queue_Some [OF inv_queue_core [OF inv] sel] by metis
  have "peek_highest q s = Inr t" using peek sel q by (auto simp: peek_next_for_processor_def and_then_Inr)
  with peek_highest_spec [OF inv_queue_core [OF inv] q] obtain r where
    r: "threads s t = Some r" "queued r" "queued_processor r = loc" "queued_priority r = high_queue q"
    and line: "if high_queue q = 97 then realtime_order q \<noteq> [] \<and> realtime_queue_key r = Some (hd (realtime_order q))
     else high_queue q < 97 \<and> realtime_queue_key r = None \<and>
       queues q (nat (high_queue q)) = t # tl (queues q (nat (high_queue q)))" by auto
  have b: "bound_processor r = loc" "scheduled_priority r = high_queue q"
    using queue_core_rec [OF inv_queue_core [OF inv] r(1)] r by (auto simp: queue_rec_def)
  have "sorted (realtime_order q)"
    using queue_core_link [OF inv_queue_core [OF inv] q(1)] by (simp add: link_at_def rq_inv_def)
  then have "realtime_order q \<noteq> [] \<Longrightarrow> \<forall>k'\<in>set (realtime_order q). hd (realtime_order q) \<le> k'"
    by (cases "realtime_order q") auto
  then have "first_in_line s t r"
    using q(1) b line by (auto simp: first_in_line_def split: if_splits) (metis list.sel(1))
  with r(1) show thesis by (rule that)
qed

definition scheduler_reachable :: "scheduler \<Rightarrow> bool" where
  "scheduler_reachable s \<longleftrightarrow> (\<exists>quantum tick_ticks processors s0 ops.
     scheduler_init quantum tick_ticks processors = Inr s0 \<and> list_all op_below_realtime ops \<and>
     sched_run s0 ops = Inr s)"

lemma reachable_inv: "scheduler_reachable s \<Longrightarrow> sched_inv s"
  using sched_run_inv by (fastforce simp: scheduler_reachable_def returns_def)

section \<open>The properties\<close>

text \<open>
  C6: no history of operations that keeps explicit priorities below the realtime band makes
  the scheduler throw, and after it every run queue holds exactly the runnable threads bound
  to it, each once and at its scheduled priority, while the two counters count the runnable
  and the waiting threads.
\<close>

theorem scheduler_history_safe:
  assumes "scheduler_init quantum tick_ticks processors = Inr s0" and "list_all op_below_realtime ops"
  shows "\<exists>s. sched_run s0 ops = Inr s \<and>
    (\<forall>loc q p t. run_queue_at s loc = Some q \<and> p < 128 \<longrightarrow> distinct (queues q p) \<and>
      (t \<in> set (queues q p) \<longleftrightarrow> (\<exists>r. threads s t = Some r \<and> state r = Runnable \<and>
        bound_processor r = loc \<and> scheduled_priority r = int p))) \<and>
    runnable_count s = card {t. \<exists>r. threads s t = Some r \<and> state r = Runnable} \<and>
    waiting_count s = card {t. \<exists>r. threads s t = Some r \<and> state r = Waiting}"
proof -
  obtain s where s: "sched_run s0 ops = Inr s" "sched_inv s"
    using sched_run_inv [OF assms] by (auto elim: returnsE)
  have "distinct (queues q p)" if "run_queue_at s loc = Some q" "p < 128" for loc q p
    using queue_core_link [OF inv_queue_core [OF s(2)] that(1)] that(2) by (auto simp: link_at_def intro: queue_distinct)
  moreover have "{t. \<exists>r. threads s t = Some r \<and> queued r} = {t. \<exists>r. threads s t = Some r \<and> state r = Runnable}"
    using queued_iff_runnable [OF s(2)] by auto
  then have "runnable_count s = card {t. \<exists>r. threads s t = Some r \<and> state r = Runnable}"
    using s(2) by (simp add: sched_inv_def queue_core_def cnt_def)
  moreover have "waiting_count s = card {t. \<exists>r. threads s t = Some r \<and> state r = Waiting}"
    using s(2) by (simp add: sched_inv_def count_core_def cnt_def)
  ultimately show ?thesis using s(1) in_queue_iff [OF s(2)] by blast
qed

text \<open>A concrete scheduler and history, for the witnesses.\<close>

definition demo_thread :: thread_id where "demo_thread = ThreadId 1 1"

lemma init_ok: "\<exists>s. scheduler_init 10 80 2 = Inr s \<and> sched_inv s \<and> length (processor_run_queues s) = 2"
  using scheduler_init_inv [of 10 80 2] by (simp add: scheduler_init_def)

theorem scheduler_history_safe_witness:
  "\<exists>s0 s. scheduler_init 10 80 2 = Inr s0 \<and>
    sched_run s0 [Register demo_thread 31 True, Choose 0 None, Suspend demo_thread] = Inr s"
proof -
  obtain s0 where "scheduler_init 10 80 2 = Inr s0" using init_ok by blast
  moreover from scheduler_history_safe [OF this, of "[Register demo_thread 31 True, Choose 0 None, Suspend demo_thread]"]
  obtain s where "sched_run s0 [Register demo_thread 31 True, Choose 0 None, Suspend demo_thread] = Inr s"
    by (auto simp: realtime_queue_priority_def)
  ultimately show ?thesis by blast
qed

lemma reachable_init: "scheduler_init quantum tick_ticks processors = Inr s \<Longrightarrow> scheduler_reachable s"
  unfolding scheduler_reachable_def
  by (intro exI [of _ quantum] exI [of _ tick_ticks] exI [of _ processors] exI [of _ s] exI [of _ "[]"])
    (simp add: sched_run_def)

lemma each_append: "each f (xs @ ys) s = and_then (each f xs s) (each f ys)"
  by (induction xs arbitrary: s) (simp_all add: and_then_def split: sum.split)

lemma reachable_step:
  assumes "scheduler_reachable s" and "op_below_realtime e" and "sched_apply s e = Inr s'"
  shows "scheduler_reachable s'"
proof -
  obtain quantum tick_ticks processors s0 ops where h: "scheduler_init quantum tick_ticks processors = Inr s0"
      "list_all op_below_realtime ops" "sched_run s0 ops = Inr s"
    using assms(1) by (auto simp: scheduler_reachable_def)
  have "sched_run s0 (ops @ [e]) = Inr s'" using h(3) assms(3) by (simp add: sched_run_def each_append)
  with h assms(2) show ?thesis
    unfolding scheduler_reachable_def
    by (intro exI [of _ quantum] exI [of _ tick_ticks] exI [of _ processors] exI [of _ s0] exI [of _ "ops @ [e]"]) simp
qed

text \<open>
  C7: \<open>choose_next\<close> gives a processor a thread of the highest scheduled priority among the
  runnable threads that are unbound or bound to it, the first in line at that priority (the
  earliest deadline in the realtime band), makes exactly that thread run with its remaining
  quantum as budget, and gives none exactly when there is no such thread.
\<close>

theorem choose_next_picks_highest:
  assumes "scheduler_reachable s" and p: "processor < length (processor_run_queues s)"
  shows "if \<exists>t r. eligible processor s t r
    then \<exists>t r r' s'. choose_next processor None s =
        Inr (Some \<lparr>slice_thread = t, slice_processor = processor, tick_budget = remaining_quantum r\<rparr>, s') \<and>
      eligible processor s t r \<and> first_in_line s t r \<and>
      (\<forall>u ru. eligible processor s u ru \<longrightarrow> scheduled_priority ru \<le> scheduled_priority r) \<and>
      threads s' = (threads s)(t \<mapsto> r') \<and> state r' = Running \<and> last_processor r' = Some processor
    else choose_next processor None s = Inr (None, s)"
proof -
  note inv = reachable_inv [OF assms(1)]
  obtain nxt where nxt: "peek_next_for_processor processor s = Inr nxt"
    and peek: "case nxt of None \<Rightarrow> \<forall>t r. \<not> eligible processor s t r
      | Some t \<Rightarrow> \<exists>r. eligible processor s t r \<and>
          (\<forall>u ru. eligible processor s u ru \<longrightarrow> scheduled_priority ru \<le> scheduled_priority r)"
    using peek_next_spec [OF inv p] by (auto elim: returnsE)
  note choose = choose_next_peek [OF inv_queue_core [OF inv] p, unfolded nxt returns_Inr]
  show ?thesis
  proof (cases nxt)
    case None
    with peek choose show ?thesis by auto
  next
    case (Some t)
    obtain r where r: "eligible processor s t r"
        "\<forall>u ru. eligible processor s u ru \<longrightarrow> scheduled_priority ru \<le> scheduled_priority r"
      using peek Some by auto
    have line: "first_in_line s t r"
      using peek_first_in_line [OF inv] nxt Some r(1) by (metis eligible_def option.inject)
    have t: "threads s t = Some r" "queued r" "bound_processor r = None \<or> bound_processor r = Some processor"
      using r(1) queued_iff_runnable [OF inv] by (auto simp: eligible_def)
    obtain s' r' where res: "choose_next processor (Some t) s =
        Inr (Some \<lparr>slice_thread = t, slice_processor = processor, tick_budget = remaining_quantum r'\<rparr>, s')"
      "threads s' = (threads s)(t \<mapsto> r')" "state r' = Running" "last_processor r' = Some processor"
      "remaining_quantum r' = remaining_quantum r"
      using choose_preferred_inv [OF inv p t] by (auto elim!: returnsE)
    have "choose_next processor None s =
        Inr (Some \<lparr>slice_thread = t, slice_processor = processor, tick_budget = remaining_quantum r\<rparr>, s')"
      using choose res Some by simp
    with r line res(2-4) show ?thesis by auto
  qed
qed

text \<open>The smallest interesting state: one runnable thread on a machine with two processors.\<close>

lemma demo_registered:
  "\<exists>s. scheduler_reachable s \<and> length (processor_run_queues s) = 2 \<and>
    (\<exists>r. eligible 0 s demo_thread r \<and> suspend_count r = 0)"
proof -
  obtain s0 where s0: "scheduler_init 10 80 2 = Inr s0" "sched_inv s0" "length (processor_run_queues s0) = 2"
    using init_ok by blast
  have new: "threads s0 demo_thread = None" using s0(1) by (auto simp: scheduler_init_def)
  obtain s where s: "sched_apply s0 (Register demo_thread 31 True) = Inr s"
    using sched_apply_inv [OF s0(2), of "Register demo_thread 31 True"]
    by (auto simp: realtime_queue_priority_def elim: returnsE)
  then obtain b where b: "register_thread demo_thread 31 True s0 = Inr (b, s)"
    by (auto simp: after_def and_then_Inr)
  have "scheduler_reachable s"
    by (rule reachable_step [OF reachable_init [OF s0(1)] _ s]) (simp add: realtime_queue_priority_def)
  moreover have "length (processor_run_queues s) = 2 \<and> (\<exists>r. eligible 0 s demo_thread r \<and> suspend_count r = 0)"
    using b new s0(3)
    by (auto simp: register_thread_def Let_def and_then_Inr enqueue_def default_record_def eligible_def
        split: option.splits if_splits)
  ultimately show ?thesis by blast
qed

theorem choose_next_picks_highest_witness:
  "\<exists>s t s' chosen. scheduler_reachable s \<and> choose_next 0 None s = Inr (Some chosen, s') \<and> slice_thread chosen = t"
proof -
  obtain s r where s: "scheduler_reachable s" "length (processor_run_queues s) = 2" "eligible 0 s demo_thread r"
    using demo_registered by blast
  then have p: "0 < length (processor_run_queues s)" by simp
  from choose_next_picks_highest [OF s(1) p] s show ?thesis by (auto split: if_splits)
qed

text \<open>
  C8: a suspended thread is never chosen, by preference or by priority: whatever thread a
  processor is given had no outstanding suspension.
\<close>

theorem suspended_thread_never_chosen:
  assumes "scheduler_reachable s" and "choose_next processor preferred s = Inr (Some chosen, s')"
  shows "\<exists>r. threads s (slice_thread chosen) = Some r \<and> suspend_count r = 0 \<and> state r = Runnable"
proof -
  note inv = reachable_inv [OF assms(1)]
  have p: "processor < length (processor_run_queues s)"
    using assms(2) by (auto simp: choose_next_def split: if_splits)
  have pick: ?thesis if res: "choose_next processor (Some t) s = Inr (Some chosen, s')" for t
  proof -
    obtain r where t: "threads s t = Some r" "queued r" "bound_processor r = None \<or> bound_processor r = Some processor"
      using res by (auto simp: choose_next_def split: option.splits if_splits)
    then have "state r = Runnable" "suspend_count r = 0"
      using sched_inv_rec [OF inv t(1)] by (auto simp: life_rec_def)
    moreover have "slice_thread chosen = t"
      using choose_preferred_inv [OF inv p t] res by auto
    ultimately show ?thesis using t by blast
  qed
  show ?thesis
  proof (cases preferred)
    case None
    obtain t where "choose_next processor None s = choose_next processor (Some t) s"
      using choose_next_peek [OF inv_queue_core [OF inv] p] assms(2) None
      by (auto elim!: returnsE split: option.splits)
    then show ?thesis using pick assms(2) None by simp
  next
    case (Some t)
    then show ?thesis using pick assms(2) by blast
  qed
qed

theorem suspended_thread_never_chosen_witness:
  "\<exists>s chosen s' r. choose_next 0 (Some demo_thread) s = Inr (Some chosen, s') \<and>
    threads s (slice_thread chosen) = Some r \<and> suspend_count r = 0"
proof -
  obtain s r where s: "scheduler_reachable s" "length (processor_run_queues s) = 2" "eligible 0 s demo_thread r"
    using demo_registered by blast
  note inv = reachable_inv [OF s(1)]
  have t: "threads s demo_thread = Some r" "queued r" "bound_processor r = None \<or> bound_processor r = Some 0"
    using s(3) queued_iff_runnable [OF inv] by (auto simp: eligible_def)
  obtain chosen s' where c: "choose_next 0 (Some demo_thread) s = Inr (Some chosen, s')"
    using choose_preferred_inv [OF inv _ t] s(2) by (auto elim!: returnsE)
  from suspended_thread_never_chosen [OF s(1) c] c show ?thesis by blast
qed

text \<open>
  C9: no wake-up is lost: when a wake-up reaches a thread that is still running and the
  thread then blocks, it does not sleep but goes back to its queue, whatever time the chosen
  consumed and however it is accounted.
\<close>

theorem wake_before_block_not_lost:
  assumes "scheduler_reachable s" and t: "threads s t = Some r" "state r = Running"
  shows "\<exists>s1 s2 r2. wake_thread t s = Inr (True, s1) \<and>
    complete_slice order t consumed Block accounting s1 = Inr (True, s2) \<and>
    threads s2 t = Some r2 \<and> state r2 = Runnable \<and> \<not> wake_pending r2"
proof -
  note inv = reachable_inv [OF assms(1)]
  let ?s1 = "modify t (\<lambda>r. r\<lparr>wake_pending := True\<rparr>) s"
  have wake: "wake_thread t s = Inr (True, ?s1)" using t by (simp add: wake_thread_def)
  have i1: "sched_inv ?s1" using wake_thread_inv [OF inv, of t] by (simp add: wake)
  let ?r1 = "r\<lparr>wake_pending := True\<rparr>"
  have t1: "threads ?s1 t = Some ?r1" "state ?r1 = Running" by (simp_all add: t)
  obtain s3 r3 where s3: "sched_inv s3" "threads s3 t = Some r3" "state r3 = Running" "wake_pending r3"
    and run: "complete_slice order t consumed Block accounting ?s1 = end_slice t Block s3"
    using complete_slice_charge [OF i1 t1, of order consumed Block accounting]
    by (auto simp: life_of_def)
  let ?f = "\<lambda>r. r\<lparr>wake_pending := False, state := Runnable, remaining_quantum := quantum_for s3 r,
    remaining_timeslices := 0, timeslice_processor := None\<rparr>"
  have "returns (enqueue t Back (modify t ?f s3)) (\<lambda>s'. sched_inv s' \<and> moved t (enqueued_rec t (?f r3)) (modify t ?f s3) s')"
    by (rule resume_queue_inv [OF s3(1-3)])
      (use sched_inv_rec [OF s3(1,2)] s3 in \<open>simp_all add: policy_rec_def\<close>)
  then obtain s2 where s2: "enqueue t Back (modify t ?f s3) = Inr s2" "moved t (enqueued_rec t (?f r3)) (modify t ?f s3) s2"
    by (auto elim: returnsE)
  have "end_slice t Block s3 = Inr (True, s2)"
    using s3 s2(1) by (simp add: end_slice_def record_of_def Let_def)
  moreover have "threads s2 t = Some (enqueued_rec t (?f r3))" using s2(2) by (simp add: moved_def)
  ultimately show ?thesis using wake run by (auto simp: enqueued_rec_def)
qed

lemma recompute_length: "recompute_priority t s = Inr s' \<Longrightarrow> length (processor_run_queues s') = length (processor_run_queues s)"
  by (auto simp: recompute_priority_def Let_def and_then_Inr enqueue_def remove_from_queue_def
      split: if_splits option.splits)

lemma choose_next_length:
  assumes "choose_next processor (Some t) s = Inr (res, s')"
  shows "length (processor_run_queues s') = length (processor_run_queues s)"
proof -
  have unindex: "processor_run_queues (unindex_depression t s) = processor_run_queues s" for s
    by (simp add: unindex_depression_def split: option.split)
  have restore: "restore_depression t s = Inr s' \<Longrightarrow> length (processor_run_queues s') = length (processor_run_queues s)" for s s'
    by (auto simp: restore_depression_def unindex split: if_splits dest: recompute_length)
  have "remove_from_queue t s = Inr s' \<Longrightarrow> length (processor_run_queues s') = length (processor_run_queues s)" for s s'
    by (auto simp: remove_from_queue_def Let_def split: if_splits option.splits)
  then show ?thesis
    using assms by (auto simp: choose_next_def start_slice_def and_then_Inr Let_def split: if_splits option.splits dest!: restore)
qed

lemma demo_running:
  "\<exists>s r. scheduler_reachable s \<and> threads s demo_thread = Some r \<and> state r = Running \<and>
    length (processor_run_queues s) = 2"
proof -
  obtain s r where s: "scheduler_reachable s" "length (processor_run_queues s) = 2" "eligible 0 s demo_thread r"
    using demo_registered by blast
  note inv = reachable_inv [OF s(1)]
  have t: "threads s demo_thread = Some r" "queued r" "bound_processor r = None \<or> bound_processor r = Some 0"
    using s(3) queued_iff_runnable [OF inv] by (auto simp: eligible_def)
  obtain chosen s' r' where c: "choose_next 0 (Some demo_thread) s = Inr (Some chosen, s')"
      "threads s' = (threads s)(demo_thread \<mapsto> r')" "state r' = Running"
      "length (processor_run_queues s') = length (processor_run_queues s)"
    using choose_preferred_inv [OF inv _ t] choose_next_length s(2) by (fastforce elim!: returnsE)
  have "scheduler_reachable s'"
    by (rule reachable_step [OF s(1), of "Choose 0 (Some demo_thread)"]) (simp_all add: c after_def)
  with c s(2) show ?thesis by auto
qed

theorem wake_before_block_not_lost_witness:
  "\<exists>s s1 s2 r2. scheduler_reachable s \<and> wake_thread demo_thread s = Inr (True, s1) \<and>
    complete_slice [demo_thread] demo_thread 7 Block Advance s1 = Inr (True, s2) \<and>
    threads s2 demo_thread = Some r2 \<and> state r2 = Runnable"
proof -
  obtain s r where "scheduler_reachable s" "threads s demo_thread = Some r" "state r = Running"
    using demo_running by blast
  from wake_before_block_not_lost [OF this, of "[demo_thread]" 7 Advance] \<open>scheduler_reachable s\<close>
  show ?thesis by blast
qed

text \<open>
  preemption is asked for exactly when the best thread the processor could run instead
  has a higher priority than the running one, or an equal one and the running thread has used
  up its quantum, or both are realtime and it has the earlier deadline; it is urgent exactly
  when that thread is not timeshared and its priority is at least 93. The check never throws.
\<close>

theorem preemption_policy:
  assumes "scheduler_reachable s" and p: "processor < length (processor_run_queues s)"
    and t: "threads s t = Some current" "state current = Running"
  shows "\<exists>decision. preemption_for t processor s = Inr decision \<and>
    (decision = NoPreemption \<longrightarrow> (\<forall>u ru. eligible processor s u ru \<longrightarrow>
      scheduled_priority ru \<le> scheduled_priority current \<and>
      (remaining_quantum current = 0 \<longrightarrow> scheduled_priority ru < scheduled_priority current))) \<and>
    (decision \<noteq> NoPreemption \<longrightarrow> (\<exists>u ru. eligible processor s u ru \<and>
      (\<forall>v rv. eligible processor s v rv \<longrightarrow> scheduled_priority rv \<le> scheduled_priority ru) \<and>
      (scheduled_priority ru > scheduled_priority current \<or>
       scheduled_priority ru = scheduled_priority current \<and> remaining_quantum current = 0 \<or>
       realtime ru \<and> realtime current \<and> realtime_deadline ru < realtime_deadline current) \<and>
      (decision = Urgent \<longleftrightarrow> \<not> timeshare ru \<and> scheduled_priority ru \<ge> 93)))"
proof -
  note inv = reachable_inv [OF assms(1)]
  obtain nxt where nxt: "peek_next_for_processor processor s = Inr nxt"
    and peek: "case nxt of None \<Rightarrow> \<forall>t r. \<not> eligible processor s t r
      | Some t \<Rightarrow> \<exists>r. eligible processor s t r \<and>
          (\<forall>u ru. eligible processor s u ru \<longrightarrow> scheduled_priority ru \<le> scheduled_priority r)"
    using peek_next_spec [OF inv p] by (auto elim: returnsE)
  show ?thesis
  proof (cases nxt)
    case None
    then show ?thesis using nxt peek p t by (simp add: preemption_for_def)
  next
    case (Some u)
    then obtain ru where ru: "eligible processor s u ru"
        "\<forall>v rv. eligible processor s v rv \<longrightarrow> scheduled_priority rv \<le> scheduled_priority ru"
      using peek by auto
    have u: "threads s u = Some ru" using ru(1) by (simp add: eligible_def)
    define d where "d = (if \<not> (if remaining_quantum current \<noteq> 0 then scheduled_priority ru > scheduled_priority current
        else scheduled_priority ru \<ge> scheduled_priority current) \<and>
        \<not> (scheduled_priority ru \<ge> realtime_queue_priority \<and> realtime current \<and> realtime ru \<and>
           realtime_deadline ru < realtime_deadline current) then NoPreemption
      else if \<not> timeshare ru \<and> scheduled_priority ru \<ge> preempt_priority then Urgent else Preempt)"
    have res: "preemption_for t processor s = Inr d"
      using p t nxt Some u by (simp add: preemption_for_def Let_def d_def)
    have none: "scheduled_priority ru \<le> scheduled_priority current \<and>
        (remaining_quantum current = 0 \<longrightarrow> scheduled_priority ru < scheduled_priority current)" if "d = NoPreemption"
      using that by (auto simp: d_def split: if_splits)
    have all: "\<forall>v rv. eligible processor s v rv \<longrightarrow> scheduled_priority rv \<le> scheduled_priority current \<and>
        (remaining_quantum current = 0 \<longrightarrow> scheduled_priority rv < scheduled_priority current)" if "d = NoPreemption"
      using none [OF that] ru(2) by (meson order.trans le_less_trans)
    have "(scheduled_priority ru > scheduled_priority current \<or>
       scheduled_priority ru = scheduled_priority current \<and> remaining_quantum current = 0 \<or>
       realtime ru \<and> realtime current \<and> realtime_deadline ru < realtime_deadline current) \<and>
      (d = Urgent \<longleftrightarrow> \<not> timeshare ru \<and> scheduled_priority ru \<ge> 93)" if "d \<noteq> NoPreemption"
      using that by (auto simp: d_def preempt_priority_def maximum_kernel_priority_def split: if_splits)
    with res all ru show ?thesis by (intro exI [of _ d]) blast
  qed
qed

theorem preemption_policy_witness:
  "\<exists>s decision. scheduler_reachable s \<and> preemption_for demo_thread 0 s = Inr decision"
proof -
  obtain s r where s: "scheduler_reachable s" "threads s demo_thread = Some r" "state r = Running"
      "length (processor_run_queues s) = 2"
    using demo_running by blast
  then have "0 < length (processor_run_queues s)" by simp
  from preemption_policy [OF s(1) this s(2,3)] s(1) show ?thesis by blast
qed

lemma remove_each:
  "sched_inv s \<Longrightarrow> returns (each (\<lambda>t s. and_then (remove_thread t s) (\<lambda>(_, s'). Inr s')) ts s)
    (\<lambda>s'. sched_inv s' \<and> threads s' = (threads s) |` (- set ts))"
proof (induction ts arbitrary: s)
  case (Cons t ts)
  have first: "returns (and_then (remove_thread t s) (\<lambda>(_, s'). Inr s'))
      (\<lambda>s'. sched_inv s' \<and> threads s' = (threads s)(t := None))"
    using remove_thread_inv [OF Cons.prems, of t] by (rule returns_and_then) (auto simp: fun_eq_iff)
  show ?case
    unfolding each.simps
  proof (rule returns_and_then [OF first])
    fix s1 assume s1: "sched_inv s1 \<and> threads s1 = (threads s)(t := None)"
    then have "threads s1 |` (- set ts) = threads s |` (- set (t # ts))"
      by (auto simp: restrict_map_def fun_eq_iff)
    with Cons.IH [of s1] s1
    show "returns (each (\<lambda>t s. and_then (remove_thread t s) (\<lambda>(_, s'). Inr s')) ts s1)
        (\<lambda>s'. sched_inv s' \<and> threads s' = threads s |` (- set (t # ts)))" by metis
  qed
qed (simp add: restrict_map_def fun_eq_iff)

text \<open>
  removing a process removes all of its threads and nothing else, from the table and from
  every index and queue, and reports how many there were, in whatever order the set of its
  threads is traversed.
\<close>

theorem remove_process_exact:
  assumes "scheduler_reachable s" and order: "set order = {t. ti_process t = p \<and> threads s t \<noteq> None}"
  shows "\<exists>s'. remove_process order p s = Inr (card (set order), s') \<and>
    (\<forall>u. threads s' u = (if ti_process u = p then None else threads s u)) \<and>
    (\<forall>loc q i u. run_queue_at s' loc = Some q \<and> i < 128 \<and> u \<in> set (queues q i) \<longrightarrow> ti_process u \<noteq> p)"
proof -
  note inv = reachable_inv [OF assms(1)]
  have idx: "process_threads s p = (if set order = {} then None else Some (set order))"
  proof -
    have "process_ok (threads s) (process_threads s)" using inv by (simp add: sched_inv_def index_core_def)
    then have "process_threads s p = (let members = {t. ti_process t = p \<and> threads s t \<noteq> None} in
        if members = {} then None else Some members)" unfolding process_ok_def by blast
    then show ?thesis unfolding Let_def order [symmetric] .
  qed
  show ?thesis
  proof (cases "set order = {}")
    case True
    then have "\<forall>u. threads s u = (if ti_process u = p then None else threads s u)" using order by auto
    moreover have "\<forall>loc q i u. run_queue_at s loc = Some q \<and> i < 128 \<and> u \<in> set (queues q i) \<longrightarrow> ti_process u \<noteq> p"
      using in_queue_iff [OF inv] True order by fastforce
    ultimately show ?thesis using True idx by (intro exI [of _ s]) (simp add: remove_process_def)
  next
    case False
    have filt: "filter (\<lambda>t. t \<in> set order) order = order" by simp
    obtain s' where s': "each (\<lambda>t s. and_then (remove_thread t s) (\<lambda>(_, s'). Inr s')) order s = Inr s'"
        "sched_inv s'" "threads s' = threads s |` (- set order)"
      using remove_each [OF inv, of order] by (auto elim: returnsE)
    have T: "threads s' u = (if ti_process u = p then None else threads s u)" for u
      using s'(3) order by (auto simp: restrict_map_def)
    moreover have "ti_process u \<noteq> p" if "run_queue_at s' loc = Some q" "i < 128" "u \<in> set (queues q i)" for loc q i u
      using in_queue_iff [OF s'(2) that(1,2), of u] that(3) T [of u] by auto
    moreover have "remove_process order p s = Inr (card (set order), s')"
      using s'(1) idx False by (simp add: remove_process_def filt)
    ultimately show ?thesis by blast
  qed
qed

theorem remove_process_exact_witness:
  "\<exists>s s'. scheduler_reachable s \<and> remove_process [] 9 s = Inr (0, s')"
proof -
  obtain s where s: "scheduler_init 10 80 2 = Inr s" using init_ok by blast
  then have "set [] = {t. ti_process t = 9 \<and> threads s t \<noteq> None}" by (auto simp: scheduler_init_def)
  from remove_process_exact [OF reachable_init [OF s] this] reachable_init [OF s] show ?thesis by auto
qed

lemma foldl_max_high:
  "(q \<in> set qs \<longrightarrow> high_queue q \<le> foldl (\<lambda>p q. max p (high_queue q)) m qs) \<and>
   m \<le> foldl (\<lambda>p q. max p (high_queue q)) m qs \<and>
   (foldl (\<lambda>p q. max p (high_queue q)) m qs = m \<or> (\<exists>q\<in>set qs. foldl (\<lambda>p q. max p (high_queue q)) m qs = high_queue q))"
proof (induction qs arbitrary: m)
  case (Cons a qs)
  from Cons.IH [of "max m (high_queue a)"] show ?case by (auto simp: max_def split: if_splits)
qed simp

text \<open>
  the highest runnable priority the scheduler reports is an upper bound of the scheduled
  priorities of all runnable threads, and is that of one of them unless none is runnable, when
  it is -1.
\<close>

theorem highest_runnable_priority_correct:
  assumes "scheduler_reachable s"
  shows "(\<forall>t r. threads s t = Some r \<and> state r = Runnable \<longrightarrow> scheduled_priority r \<le> highest_runnable_priority s) \<and>
    (if \<exists>t r. threads s t = Some r \<and> state r = Runnable
     then \<exists>t r. threads s t = Some r \<and> state r = Runnable \<and> scheduled_priority r = highest_runnable_priority s
     else highest_runnable_priority s = -1)"
proof -
  note inv = reachable_inv [OF assms]
  let ?h = "highest_runnable_priority s"
  have at: "\<exists>loc. run_queue_at s loc = Some q" if "q = processor_set_run_queue s \<or> q \<in> set (processor_run_queues s)" for q
    using that by (auto simp: run_queue_at_def in_set_conv_nth split: option.split intro: exI [of _ None] exI [of _ "Some i" for i])
  have upper: "high_queue q \<le> ?h" if "run_queue_at s loc = Some q" for loc q
    using that foldl_max_high [of q "processor_run_queues s" "high_queue (processor_set_run_queue s)"]
    by (auto simp: run_queue_at_def highest_runnable_priority_def split: option.splits if_splits)
  obtain q loc where q: "run_queue_at s loc = Some q" "?h = high_queue q"
    using foldl_max_high [of _ "processor_run_queues s" "high_queue (processor_set_run_queue s)"] at
    unfolding highest_runnable_priority_def by metis
  have rq: "rq_inv q" using queue_core_link [OF inv_queue_core [OF inv] q(1)] by (simp add: link_at_def)
  have bound: "scheduled_priority r \<le> ?h" if "threads s t = Some r" "state r = Runnable" for t r
    using runnable_in_queue [OF inv that] upper by (metis order.trans)
  have some: "\<exists>t r. threads s t = Some r \<and> state r = Runnable \<and> scheduled_priority r = ?h" if "rq_count q \<noteq> 0"
  proof -
    note top = rq.top_occupied [OF rq that]
    obtain t where "t \<in> set (queues q (nat (high_queue q)))" using top(3) by (cases "queues q (nat (high_queue q))") auto
    moreover have "nat (high_queue q) < 128" "int (nat (high_queue q)) = high_queue q" using top by simp_all
    ultimately show ?thesis using in_queue_iff [OF inv q(1)] q(2) by auto
  qed
  have nonneg: "0 \<le> scheduled_priority r" if "threads s t = Some r" for t r
    using queue_core_rec [OF inv_queue_core [OF inv] that] by (simp add: queue_rec_def)
  show ?thesis
  proof (cases "rq_count q = 0")
    case True
    then have "?h = -1" using rq.empty_top [OF rq] q(2) by simp
    then show ?thesis using bound nonneg by fastforce
  next
    case False
    then show ?thesis using some bound by auto
  qed
qed

theorem highest_runnable_priority_correct_witness:
  "\<exists>s. scheduler_reachable s \<and> (\<exists>t r. threads s t = Some r \<and> scheduled_priority r = highest_runnable_priority s)"
proof -
  obtain s r where s: "scheduler_reachable s" "eligible 0 s demo_thread r" using demo_registered by blast
  then have "\<exists>t r. threads s t = Some r \<and> state r = Runnable" by (auto simp: eligible_def)
  with highest_runnable_priority_correct [OF s(1)] s(1) show ?thesis by (auto split: if_splits)
qed

text \<open>
  a thread registered with a base priority in the realtime band (97 to 127) without the
  realtime policy is put on a list but not in the deadline index, and the next selection on
  any processor throws \<open>std::logic_error\<close> instead of running it.
\<close>

theorem realtime_band_without_policy_throws:
  assumes init: "scheduler_init quantum tick_ticks processors = Inr s" and p: "97 \<le> p" and i: "i < processors"
  shows "\<exists>s1. register_thread t p True s = Inr (True, s1) \<and>
    choose_next i None s1 = Inl RealtimeIndexInconsistent"
proof -
  let ?p = "clamp_priority p"
  have range: "97 \<le> ?p" "?p \<le> 127"
    using p by (simp_all add: clamp_priority_def minimum_priority_def maximum_priority_def)
  have s: "threads s = Map.empty" "processor_set_run_queue s = empty_run_queue" "process_threads s = Map.empty"
      "processor_run_queues s = replicate processors empty_run_queue"
    using init by (auto simp: scheduler_init_def split: if_splits)
  let ?q = "rq_insert Back None t ?p empty_run_queue"
  obtain s1 where s1: "register_thread t p True s = Inr (True, s1)" "processor_set_run_queue s1 = ?q"
      "processor_run_queues s1 = replicate processors empty_run_queue"
    using s by (simp add: register_thread_def Let_def enqueue_def default_record_def run_queue_at_def set_run_queue_def)
  have q: "rq_count ?q = 1" "high_queue ?q = ?p" "realtime_order ?q = []"
    using range by (simp_all add: rq_insert_def Let_def empty_run_queue_def)
  have "selected_run_queue i s1 = Some None"
    using s1 q i by (simp add: selected_run_queue_def Let_def empty_run_queue_def)
  moreover have "pop_highest None ?q s1 = Inl RealtimeIndexInconsistent"
    using q range by (simp add: pop_highest_def peek_highest_def Let_def minimum_priority_def realtime_queue_priority_def)
  ultimately have "choose_next i None s1 = Inl RealtimeIndexInconsistent"
    using s1 i by (simp add: choose_next_def run_queue_at_def)
  with s1(1) show ?thesis by blast
qed

theorem realtime_band_without_policy_throws_witness:
  "\<exists>s s1. scheduler_init 10 80 2 = Inr s \<and> register_thread demo_thread 127 True s = Inr (True, s1) \<and>
    choose_next 1 None s1 = Inl RealtimeIndexInconsistent"
proof -
  obtain s where s: "scheduler_init 10 80 2 = Inr s" using init_ok by blast
  from realtime_band_without_policy_throws [OF s, of 127 1 demo_thread] s show ?thesis by auto
qed

lemma enqueue_result:
  assumes "enqueue t position s = Inr s'" "threads s t = Some r" "\<not> queued r"
  shows "\<exists>r'. threads s' t = Some r' \<and> policy_of r' = policy_of r \<and> quantum_ticks s' = quantum_ticks s"
  using assms by (auto simp: enqueue_def Let_def policy_of_def split: option.splits)

lemma policy_of_quantum_for:
  "policy_of r' = policy_of r \<Longrightarrow> quantum_ticks s' = quantum_ticks s \<Longrightarrow> quantum_for s' r' = quantum_for s r"
  by (cases r; cases r'; simp add: policy_of_def quantum_for_def)

text \<open>
  suspending a runnable or running thread once and resuming it once puts it back on its
  run queue with a fresh quantum, and a thread that was waiting is waiting again; neither call
  throws.
\<close>

theorem suspend_resume_roundtrip:
  assumes "scheduler_reachable s" and t: "threads s t = Some r" and free: "suspend_count r = 0"
  shows "\<exists>s1 s2 r2. suspend_thread t s = Inr (True, s1) \<and> resume_thread t s1 = Inr (True, s2) \<and>
    threads s2 t = Some r2 \<and> suspend_count r2 = 0 \<and>
    state r2 = (if state r = Waiting then Waiting else Runnable) \<and>
    (state r \<noteq> Waiting \<longrightarrow> remaining_quantum r2 = quantum_for s2 r2)"
proof -
  note inv = reachable_inv [OF assms(1)]
  have step: "\<exists>s1 r1. suspend_thread t s = Inr (True, s1) \<and> threads s1 t = Some r1 \<and> suspend_count r1 = 1 \<and>
      state r1 = Waiting \<and> resume_runnable r1 = (state r \<noteq> Waiting)"
  proof (cases "state r = Waiting")
    case True
    then show ?thesis using t free by (auto simp: suspend_thread_def Let_def u32_max_def)
  next
    case False
    let ?g = "\<lambda>r. r\<lparr>resume_runnable := (state r = Runnable \<or> state r = Running)\<rparr>"
    let ?s2 = "modify t ?g (modify t (\<lambda>r. r\<lparr>suspend_count := suspend_count r + 1\<rparr>) s)"
    have q2: "queue_core ?s2"
      by (rule queue_core_change [OF inv_queue_core [OF inv] t, where r' = "?g (r\<lparr>suspend_count := suspend_count r + 1\<rparr>)"])
        (use queue_core_rec [OF inv_queue_core [OF inv] t] t in \<open>simp_all add: queue_rec_def\<close>)
    obtain s3 where s3: "remove_from_queue t ?s2 = Inr s3"
        "moved t (dequeued_rec (?g (r\<lparr>suspend_count := suspend_count r + 1\<rparr>))) ?s2 s3"
      using remove_queue_core [OF q2, of t] t by (auto elim!: returnsE)
    have "threads s3 t = Some (dequeued_rec (?g (r\<lparr>suspend_count := suspend_count r + 1\<rparr>)))"
      using s3(2) by (simp add: moved_def)
    with s3(1) t free False show ?thesis
      by (cases "state r") (auto simp: suspend_thread_def Let_def u32_max_def)
  qed
  then obtain s1 r1 where s1: "suspend_thread t s = Inr (True, s1)" "threads s1 t = Some r1" "suspend_count r1 = 1"
      "state r1 = Waiting" "resume_runnable r1 = (state r \<noteq> Waiting)" by blast
  have i1: "sched_inv s1" using suspend_thread_inv [OF inv, of t] s1(1) by simp
  have "\<exists>s2 r2. resume_thread t s1 = Inr (True, s2) \<and> threads s2 t = Some r2 \<and> suspend_count r2 = 0 \<and>
      state r2 = (if state r = Waiting then Waiting else Runnable) \<and>
      (state r \<noteq> Waiting \<longrightarrow> remaining_quantum r2 = quantum_for s2 r2)"
  proof (cases "state r = Waiting")
    case True
    then show ?thesis using s1 by (simp add: resume_thread_def Let_def)
  next
    case False
    obtain res where res: "resume_thread t s1 = Inr res" using resume_thread_inv [OF i1, of t] by (auto elim: returnsE)
    have nq: "\<not> queued r1" using sched_inv_rec [OF i1 s1(2)] s1(4) by (simp add: life_rec_def)
    define s2 where "s2 = (modify t (\<lambda>r. r\<lparr>resume_runnable := False, state := Runnable\<rparr>)
        (modify t (\<lambda>r. r\<lparr>suspend_count := suspend_count r - 1\<rparr>) s1))
      \<lparr>waiting_count := waiting_count s1 - 1,
       active_timeshare_count := (if timeshare r1 then active_timeshare_count s1 + 1 else active_timeshare_count s1)\<rparr>"
    define s3 where "s3 = modify t (\<lambda>r. r\<lparr>remaining_quantum := quantum_for s2 r, computation_metered := 0\<rparr>) s2"
    have "resume_thread t s1 = and_then (enqueue t Back s3) (\<lambda>s4. Inr (True, s4))"
      using s1 False by (simp add: resume_thread_def Let_def s3_def s2_def)
    with res obtain s4 where s4: "enqueue t Back s3 = Inr s4" "resume_thread t s1 = Inr (True, s4)"
      by (auto simp: and_then_Inr)
    let ?r3 = "r1\<lparr>suspend_count := 0, resume_runnable := False, state := Runnable,
      remaining_quantum := quantum_for s2 r1, computation_metered := 0\<rparr>"
    have "threads s3 t = Some ?r3" using s1 by (simp add: s3_def s2_def quantum_for_def)
    then obtain r4 where r4: "threads s4 t = Some r4" "policy_of r4 = policy_of ?r3" "quantum_ticks s4 = quantum_ticks s3"
      using enqueue_result [OF s4(1)] nq by auto
    have "quantum_for s4 r4 = quantum_for s3 ?r3" by (rule policy_of_quantum_for [OF r4(2,3)])
    also have "\<dots> = quantum_for s2 r1" by (simp add: quantum_for_def s3_def)
    finally show ?thesis using s4(2) r4(1) False policy_ofD [OF r4(2)] by auto
  qed
  with s1(1) show ?thesis by blast
qed

theorem suspend_resume_roundtrip_witness:
  "\<exists>s s1 s2. scheduler_reachable s \<and> suspend_thread demo_thread s = Inr (True, s1) \<and>
    resume_thread demo_thread s1 = Inr (True, s2)"
proof -
  obtain s r where "scheduler_reachable s" "threads s demo_thread = Some r" "suspend_count r = 0"
    using demo_registered by (auto simp: eligible_def)
  from suspend_resume_roundtrip [OF this] \<open>scheduler_reachable s\<close> show ?thesis by blast
qed

end
