(* ===== verification/File_Lock.thy ===== *)
theory File_Lock
  imports Ilsim_Prelude
begin

text \<open>
  Advisory file locks (\<open>src/kernel/bsd/filesystem/locking.cpp\<close> and
  \<open>include/ilemu/bsd_file_lock.hpp\<close>): the registry of \<open>flock\<close> locks, owned by open file
  descriptions, and of POSIX record locks, owned by processes and kept as byte ranges; the
  \<open>fcntl\<close> and \<open>flock\<close> calls on top of it with their blocking requests. The registry is one
  record and every call is one step on it, as the registry's mutex makes it; the lemmas read
  the ranges byte by byte.
\<close>

section \<open>The registry\<close>

datatype lock_kind = Shared | Exclusive

record record_range =
  rl_kind :: lock_kind
  rl_start :: u64
  rl_end :: "u64 option"

record owned_lock = record_range +
  rl_owner :: u32

record file_lock =
  exclusive_owner :: "u64 option"
  shared_owners :: "u64 set"

record open_description =
  od_identifier :: u64
  od_file :: u32
  od_host_descriptor :: int

record lock_registry =
  next_description_identifier :: u64
  flocks :: "(u32, file_lock) omap"
  record_locks :: "(u32, owned_lock list) omap"

definition empty_registry :: lock_registry where
  "empty_registry = \<lparr>next_description_identifier = 1, flocks = [], record_locks = []\<rparr>"

definition ranges_overlap :: "'a record_range_scheme \<Rightarrow> 'b record_range_scheme \<Rightarrow> bool" where
  "ranges_overlap lhs rhs \<longleftrightarrow>
     (let lhs_before_rhs = (case rl_end lhs of None \<Rightarrow> False | Some e \<Rightarrow> e \<le> rl_start rhs);
          rhs_before_lhs = (case rl_end rhs of None \<Rightarrow> False | Some e \<Rightarrow> e \<le> rl_start lhs)
      in \<not> lhs_before_rhs \<and> \<not> rhs_before_lhs)"

definition locks_conflict :: "lock_kind \<Rightarrow> lock_kind \<Rightarrow> bool" where
  "locks_conflict lhs rhs \<longleftrightarrow> lhs = Exclusive \<or> rhs = Exclusive"

definition open_file :: "u32 \<Rightarrow> int \<Rightarrow> lock_registry \<Rightarrow> open_description \<times> lock_registry" where
  "open_file permanent_file_id host_descriptor g =
     (\<lparr>od_identifier = next_description_identifier g, od_file = permanent_file_id,
       od_host_descriptor = host_descriptor\<rparr>,
      g\<lparr>next_description_identifier := next_description_identifier g + 1\<rparr>)"

definition file_lock_of :: "u32 \<Rightarrow> lock_registry \<Rightarrow> file_lock" where
  "file_lock_of file g = (case map_of (flocks g) file of Some l \<Rightarrow> l
     | None \<Rightarrow> \<lparr>exclusive_owner = None, shared_owners = {}\<rparr>)"

text \<open>\<open>locks_[id]\<close> creates the entry when it is missing, also when the attempt then fails.\<close>

definition try_acquire :: "open_description \<Rightarrow> lock_kind \<Rightarrow> lock_registry \<Rightarrow> bool \<times> lock_registry" where
  "try_acquire description kind g =
     (let file = od_file description; owner = od_identifier description; l = file_lock_of file g;
          store = (\<lambda>l. g\<lparr>flocks := om_put file l (flocks g)\<rparr>)
      in if kind = Shared then
           if exclusive_owner l \<noteq> None \<and> exclusive_owner l \<noteq> Some owner then (False, store l)
           else (True, store (l\<lparr>exclusive_owner := None, shared_owners := insert owner (shared_owners l)\<rparr>))
         else if (exclusive_owner l \<noteq> None \<and> exclusive_owner l \<noteq> Some owner) \<or>
                 (shared_owners l \<noteq> {} \<and> \<not> (card (shared_owners l) = 1 \<and> owner \<in> shared_owners l))
         then (False, store l)
         else (True, store (l\<lparr>shared_owners := shared_owners l - {owner}, exclusive_owner := Some owner\<rparr>)))"

definition release :: "open_description \<Rightarrow> lock_registry \<Rightarrow> lock_registry" where
  "release description g =
     (case map_of (flocks g) (od_file description) of
        None \<Rightarrow> g
      | Some l \<Rightarrow>
          let owner = od_identifier description;
              l1 = (if exclusive_owner l = Some owner then l\<lparr>exclusive_owner := None\<rparr> else l);
              l2 = l1\<lparr>shared_owners := shared_owners l1 - {owner}\<rparr>
          in if exclusive_owner l2 = None \<and> shared_owners l2 = {}
             then g\<lparr>flocks := om_erase (od_file description) (flocks g)\<rparr>
             else g\<lparr>flocks := om_put (od_file description) l2 (flocks g)\<rparr>)"

definition conflicting :: "u32 \<Rightarrow> 'a record_range_scheme \<Rightarrow> owned_lock \<Rightarrow> bool" where
  "conflicting owner_pid request candidate \<longleftrightarrow> rl_owner candidate \<noteq> owner_pid \<and>
     ranges_overlap candidate request \<and> locks_conflict (rl_kind candidate) (rl_kind request)"

definition record_conflict :: "u32 \<Rightarrow> u32 \<Rightarrow> record_range \<Rightarrow> lock_registry \<Rightarrow> owned_lock option" where
  "record_conflict file owner_pid request g =
     (case map_of (record_locks g) file of
        None \<Rightarrow> None
      | Some locks \<Rightarrow> find (conflicting owner_pid request) locks)"

text \<open>The loop that both \<open>try_set_record_lock\<close> and \<open>unlock_record_lock\<close> run over the locks of a
  file: a lock of the caller that overlaps the range leaves what sticks out of it.\<close>

definition carve_one :: "u32 \<Rightarrow> 'a record_range_scheme \<Rightarrow> owned_lock \<Rightarrow> owned_lock list" where
  "carve_one owner_pid span candidate =
     (if rl_owner candidate \<noteq> owner_pid \<or> \<not> ranges_overlap candidate span then [candidate]
      else (if rl_start candidate < rl_start span
            then [candidate\<lparr>rl_end := Some (rl_start span), rl_owner := owner_pid\<rparr>] else []) @
           (case rl_end span of
              None \<Rightarrow> []
            | Some e \<Rightarrow>
                if rl_end candidate = None \<or> (\<exists>c. rl_end candidate = Some c \<and> e < c)
                then [candidate\<lparr>rl_start := e, rl_owner := owner_pid\<rparr>] else []))"

definition carve :: "u32 \<Rightarrow> 'a record_range_scheme \<Rightarrow> owned_lock list \<Rightarrow> owned_lock list" where
  "carve owner_pid span locks = concat (map (carve_one owner_pid span) locks)"

definition owned :: "record_range \<Rightarrow> u32 \<Rightarrow> owned_lock" where
  "owned request owner_pid = record_range.extend request (owned_lock.fields owner_pid)"

definition locks_of :: "u32 \<Rightarrow> lock_registry \<Rightarrow> owned_lock list" where
  "locks_of file g = (case map_of (record_locks g) file of None \<Rightarrow> [] | Some locks \<Rightarrow> locks)"

definition try_set_record_lock :: "u32 \<Rightarrow> u32 \<Rightarrow> record_range \<Rightarrow> lock_registry \<Rightarrow> bool \<times> lock_registry" where
  "try_set_record_lock file owner_pid request g =
     (let locks = locks_of file g; store = (\<lambda>locks. g\<lparr>record_locks := om_put file locks (record_locks g)\<rparr>) in
      if find (conflicting owner_pid request) locks \<noteq> None then (False, store locks)
      else (True, store (carve owner_pid request locks @ [owned request owner_pid])))"

definition unlock_record_lock :: "u32 \<Rightarrow> u32 \<Rightarrow> record_range \<Rightarrow> lock_registry \<Rightarrow> lock_registry" where
  "unlock_record_lock file owner_pid span g =
     (case map_of (record_locks g) file of
        None \<Rightarrow> g
      | Some locks \<Rightarrow>
          let replacement = carve owner_pid span locks in
          if replacement = [] then g\<lparr>record_locks := om_erase file (record_locks g)\<rparr>
          else g\<lparr>record_locks := om_put file replacement (record_locks g)\<rparr>)"

fun erase_owner :: "u32 \<Rightarrow> (u32, owned_lock list) omap \<Rightarrow> (u32, owned_lock list) omap" where
  "erase_owner owner_pid [] = []"
| "erase_owner owner_pid ((file, locks) # rest) =
     (let left = filter (\<lambda>c. rl_owner c \<noteq> owner_pid) locks in
      if left = [] then erase_owner owner_pid rest else (file, left) # erase_owner owner_pid rest)"

definition release_process_record_locks :: "u32 \<Rightarrow> lock_registry \<Rightarrow> lock_registry" where
  "release_process_record_locks owner_pid g = g\<lparr>record_locks := erase_owner owner_pid (record_locks g)\<rparr>"

section \<open>Reading ranges byte by byte\<close>

definition covers :: "'a record_range_scheme \<Rightarrow> u64 \<Rightarrow> bool" where
  "covers r b \<longleftrightarrow> rl_start r \<le> b \<and> (\<forall>e. rl_end r = Some e \<longrightarrow> b < e)"

definition proper :: "'a record_range_scheme \<Rightarrow> bool" where
  "proper r \<longleftrightarrow> (\<forall>e. rl_end r = Some e \<longrightarrow> rl_start r < e)"

lemma overlap_iff:
  assumes "proper l" "proper r"
  shows "ranges_overlap l r \<longleftrightarrow> (\<exists>b. covers l b \<and> covers r b)"
proof
  assume "ranges_overlap l r"
  then have "covers l (max (rl_start l) (rl_start r)) \<and> covers r (max (rl_start l) (rl_start r))"
    using assms by (auto simp: ranges_overlap_def covers_def proper_def Let_def max_def not_le split: option.splits)
  then show "\<exists>b. covers l b \<and> covers r b" by blast
next
  assume "\<exists>b. covers l b \<and> covers r b"
  then show "ranges_overlap l r"
    by (auto simp: ranges_overlap_def covers_def Let_def split: option.splits)
qed

text \<open>The kinds of lock a process holds on a byte, over the list of locks of a file.\<close>

definition at :: "u32 \<Rightarrow> u64 \<Rightarrow> owned_lock \<Rightarrow> bool" where
  "at pid b c \<longleftrightarrow> rl_owner c = pid \<and> covers c b"

definition kinds_at :: "owned_lock list \<Rightarrow> u32 \<Rightarrow> u64 \<Rightarrow> lock_kind list" where
  "kinds_at locks pid b = map rl_kind (filter (at pid b) locks)"

lemma kinds_at_simps [simp]:
  "kinds_at [] pid b = []"
  "kinds_at (c # cs) pid b = (if at pid b c then [rl_kind c] else []) @ kinds_at cs pid b"
  "kinds_at (xs @ ys) pid b = kinds_at xs pid b @ kinds_at ys pid b"
  by (simp_all add: kinds_at_def)

lemma in_kinds_at: "k \<in> set (kinds_at locks pid b) \<longleftrightarrow> (\<exists>c\<in>set locks. at pid b c \<and> rl_kind c = k)"
  by (auto simp: kinds_at_def)

lemma owned_fields [simp]:
  "rl_kind (owned r pid) = rl_kind r" "rl_start (owned r pid) = rl_start r"
  "rl_end (owned r pid) = rl_end r" "rl_owner (owned r pid) = pid"
  by (simp_all add: owned_def record_range.defs owned_lock.defs)

lemma covers_owned [simp]: "covers (owned r pid) b = covers r b"
  by (simp add: covers_def)

lemma kinds_carve_one:
  assumes "proper c" "proper span"
  shows "kinds_at (carve_one pid span c) p b =
    (if at p b c \<and> \<not> (p = pid \<and> covers span b) then [rl_kind c] else [])"
proof (cases "rl_owner c = pid \<and> ranges_overlap c span")
  case True
  then show ?thesis
    using assms
    by (cases "rl_end c"; cases "rl_end span")
      (auto simp: carve_one_def at_def covers_def proper_def ranges_overlap_def Let_def not_le not_less)
next
  case False
  then have "carve_one pid span c = [c]" by (auto simp: carve_one_def)
  moreover have "\<not> (at p b c \<and> p = pid \<and> covers span b)"
    using False overlap_iff [OF assms] by (auto simp: at_def)
  ultimately show ?thesis by auto
qed

lemma kinds_carve:
  assumes "\<forall>c\<in>set locks. proper c" "proper span"
  shows "kinds_at (carve pid span locks) p b =
    (if p = pid \<and> covers span b then [] else kinds_at locks p b)"
  using assms by (induction locks) (auto simp: carve_def kinds_carve_one)

lemma proper_carve_one: "proper c \<Longrightarrow> proper span \<Longrightarrow> \<forall>d\<in>set (carve_one pid span c). proper d"
  by (auto simp: carve_one_def proper_def ranges_overlap_def Let_def not_le split: option.splits if_splits)

lemma proper_carve:
  "\<forall>c\<in>set locks. proper c \<Longrightarrow> proper span \<Longrightarrow> \<forall>c\<in>set (carve pid span locks). proper c"
  using proper_carve_one by (fastforce simp: carve_def)

section \<open>The abstract table of byte locks and what the registry promises of it\<close>

text \<open>The contract: a byte of a file carries at most one lock per process. \<open>blocked\<close> is the
  POSIX conflict rule, \<open>grant\<close> and \<open>drop\<close> change exactly the bytes asked for.\<close>

type_synonym byte_locks = "u32 \<Rightarrow> u64 \<Rightarrow> u32 \<Rightarrow> lock_kind option"

definition blocked :: "byte_locks \<Rightarrow> u32 \<Rightarrow> u32 \<Rightarrow> record_range \<Rightarrow> bool" where
  "blocked A file pid r \<longleftrightarrow>
     (\<exists>b q k. q \<noteq> pid \<and> covers r b \<and> A file b q = Some k \<and> locks_conflict k (rl_kind r))"

definition grant :: "u32 \<Rightarrow> u32 \<Rightarrow> record_range \<Rightarrow> byte_locks \<Rightarrow> byte_locks" where
  "grant file pid r A = (\<lambda>f b p. if f = file \<and> p = pid \<and> covers r b then Some (rl_kind r) else A f b p)"

definition drop_locks :: "u32 \<Rightarrow> u32 \<Rightarrow> record_range \<Rightarrow> byte_locks \<Rightarrow> byte_locks" where
  "drop_locks file pid r A = (\<lambda>f b p. if f = file \<and> p = pid \<and> covers r b then None else A f b p)"

definition exclusion :: "byte_locks \<Rightarrow> bool" where
  "exclusion A \<longleftrightarrow> (\<forall>f b p q k l. p \<noteq> q \<longrightarrow> A f b p = Some k \<longrightarrow> A f b q = Some l \<longrightarrow> \<not> locks_conflict k l)"

definition lock_at :: "lock_registry \<Rightarrow> byte_locks" where
  "lock_at g = (\<lambda>file b pid. case kinds_at (locks_of file g) pid b of [] \<Rightarrow> None | k # _ \<Rightarrow> Some k)"

definition record_inv :: "lock_registry \<Rightarrow> bool" where
  "record_inv g \<longleftrightarrow> om_wf (record_locks g) \<and>
     (\<forall>file. (\<forall>c\<in>set (locks_of file g). proper c) \<and>
             (\<forall>p b. length (kinds_at (locks_of file g) p b) \<le> 1))"

lemma exclusion_grant: "exclusion A \<Longrightarrow> \<not> blocked A file pid r \<Longrightarrow> exclusion (grant file pid r A)"
proof (unfold exclusion_def, intro allI impI)
  fix f b p q k l
  assume A: "\<forall>f b p q k l. p \<noteq> q \<longrightarrow> A f b p = Some k \<longrightarrow> A f b q = Some l \<longrightarrow> \<not> locks_conflict k l"
    and free: "\<not> blocked A file pid r" and "p \<noteq> q"
    and k: "grant file pid r A f b p = Some k" and l: "grant file pid r A f b q = Some l"
  have free: "\<not> locks_conflict m (rl_kind r)" if "x \<noteq> pid" "covers r b" "A file b x = Some m" for x m
    using free that by (auto simp: blocked_def)
  consider "f = file" "covers r b" "p = pid" | "f = file" "covers r b" "q = pid"
    | "\<not> (f = file \<and> p = pid \<and> covers r b)" "\<not> (f = file \<and> q = pid \<and> covers r b)"
    by blast
  then show "\<not> locks_conflict k l"
  proof cases
    case 1
    with k l \<open>p \<noteq> q\<close> free [of q l] show ?thesis by (auto simp: grant_def locks_conflict_def)
  next
    case 2
    with k l \<open>p \<noteq> q\<close> free [of p k] show ?thesis by (auto simp: grant_def locks_conflict_def)
  next
    case 3
    then have "A f b p = Some k" "A f b q = Some l" using k l by (auto simp: grant_def split: if_splits)
    with A \<open>p \<noteq> q\<close> show ?thesis by metis
  qed
qed

lemma exclusion_drop: "exclusion A \<Longrightarrow> exclusion (drop_locks file pid r A)"
  unfolding exclusion_def drop_locks_def by (auto split: if_splits)

lemma lock_at_in:
  "record_inv g \<Longrightarrow> lock_at g file b p = Some k \<longleftrightarrow> (\<exists>c\<in>set (locks_of file g). at p b c \<and> rl_kind c = k)"
proof -
  assume inv: "record_inv g"
  then have "length (kinds_at (locks_of file g) p b) \<le> 1" by (simp add: record_inv_def)
  then have "lock_at g file b p = Some k \<longleftrightarrow> k \<in> set (kinds_at (locks_of file g) p b)"
    by (cases "kinds_at (locks_of file g) p b") (auto simp: lock_at_def)
  then show ?thesis by (simp add: in_kinds_at)
qed

lemma find_conflicting:
  assumes "record_inv g" "proper r"
  shows "find (conflicting pid r) (locks_of file g) \<noteq> None \<longleftrightarrow> blocked (lock_at g) file pid r"
proof -
  have "find (conflicting pid r) (locks_of file g) \<noteq> None \<longleftrightarrow>
      (\<exists>c\<in>set (locks_of file g). conflicting pid r c)"
    by (auto simp: find_None_iff)
  also have "\<dots> \<longleftrightarrow> (\<exists>c\<in>set (locks_of file g). rl_owner c \<noteq> pid \<and> (\<exists>b. covers c b \<and> covers r b) \<and>
      locks_conflict (rl_kind c) (rl_kind r))"
  proof (rule bex_cong)
    fix c assume "c \<in> set (locks_of file g)"
    then have "proper c" using assms(1) by (auto simp: record_inv_def)
    then show "conflicting pid r c \<longleftrightarrow> rl_owner c \<noteq> pid \<and> (\<exists>b. covers c b \<and> covers r b) \<and>
      locks_conflict (rl_kind c) (rl_kind r)"
      by (simp add: conflicting_def overlap_iff [OF _ assms(2)])
  qed simp
  also have "\<dots> \<longleftrightarrow> blocked (lock_at g) file pid r"
    by (auto simp: blocked_def lock_at_in [OF assms(1)] at_def)
  finally show ?thesis .
qed

lemma locks_of_put [simp]:
  "locks_of f (g\<lparr>record_locks := om_put file locks (record_locks g)\<rparr>) =
     (if f = file then locks else locks_of f g)"
  by (simp add: locks_of_def)

lemma locks_of_erase [simp]:
  "locks_of f (g\<lparr>record_locks := om_erase file (record_locks g)\<rparr>) =
     (if f = file then [] else locks_of f g)"
  by (simp add: locks_of_def)

lemma locks_of_flocks [simp]: "locks_of f (g\<lparr>flocks := x\<rparr>) = locks_of f g"
  "locks_of f (g\<lparr>next_description_identifier := y\<rparr>) = locks_of f g"
  by (simp_all add: locks_of_def)

lemma try_set_refused:
  assumes "record_inv g" "proper r" "blocked (lock_at g) file pid r"
  shows "\<not> fst (try_set_record_lock file pid r g)"
    and "lock_at (snd (try_set_record_lock file pid r g)) = lock_at g"
    and "record_inv (snd (try_set_record_lock file pid r g))"
  using assms find_conflicting [OF assms(1,2)]
  by (auto simp: try_set_record_lock_def Let_def lock_at_def record_inv_def fun_eq_iff)

lemma try_set_granted:
  assumes "record_inv g" "proper r" "\<not> blocked (lock_at g) file pid r"
  shows "fst (try_set_record_lock file pid r g)"
    and "lock_at (snd (try_set_record_lock file pid r g)) = grant file pid r (lock_at g)"
    and "record_inv (snd (try_set_record_lock file pid r g))"
proof -
  have find: "find (conflicting pid r) (locks_of file g) = None"
    using assms(3) unfolding find_conflicting [OF assms(1,2), symmetric] by simp
  have wf: "om_wf (record_locks g)" and pr: "\<forall>f. \<forall>c\<in>set (locks_of f g). proper c"
    and one: "\<forall>f p b. length (kinds_at (locks_of f g) p b) \<le> 1"
    using assms(1) by (simp_all add: record_inv_def)
  define locks where "locks = carve pid r (locks_of file g) @ [owned r pid]"
  have eq: "try_set_record_lock file pid r g =
      (True, g\<lparr>record_locks := om_put file locks (record_locks g)\<rparr>)"
    using find by (simp add: try_set_record_lock_def locks_def)
  have k: "kinds_at locks p b =
      (if p = pid \<and> covers r b then [rl_kind r] else kinds_at (locks_of file g) p b)" for p b
    using pr assms(2) by (auto simp: locks_def kinds_carve at_def)
  have pl: "\<forall>c\<in>set locks. proper c"
    using proper_carve [of "locks_of file g" r pid] pr assms(2) by (auto simp: locks_def proper_def)
  show "fst (try_set_record_lock file pid r g)" by (simp add: eq)
  show "lock_at (snd (try_set_record_lock file pid r g)) = grant file pid r (lock_at g)"
    by (auto simp: eq lock_at_def grant_def fun_eq_iff k)
  show "record_inv (snd (try_set_record_lock file pid r g))"
    using wf pr one pl by (auto simp: eq record_inv_def k)
qed

lemma unlock_exact:
  assumes "record_inv g" "proper r"
  shows "lock_at (unlock_record_lock file pid r g) = drop_locks file pid r (lock_at g)"
    and "record_inv (unlock_record_lock file pid r g)"
proof -
  have wf: "om_wf (record_locks g)" and pr: "\<forall>f. \<forall>c\<in>set (locks_of f g). proper c"
    and one: "\<forall>f p b. length (kinds_at (locks_of f g) p b) \<le> 1"
    using assms(1) by (simp_all add: record_inv_def)
  have lo: "locks_of f (unlock_record_lock file pid r g) =
      (if f = file then carve pid r (locks_of file g) else locks_of f g)" for f
    by (auto simp: unlock_record_lock_def Let_def locks_of_def carve_def split: option.splits)
  have k: "kinds_at (carve pid r (locks_of file g)) p b =
      (if p = pid \<and> covers r b then [] else kinds_at (locks_of file g) p b)" for p b
    using pr assms(2) by (simp add: kinds_carve)
  show "lock_at (unlock_record_lock file pid r g) = drop_locks file pid r (lock_at g)"
    by (auto simp: lock_at_def drop_locks_def fun_eq_iff lo k)
  have "om_wf (record_locks (unlock_record_lock file pid r g))"
    using wf by (auto simp: unlock_record_lock_def Let_def split: option.splits)
  then show "record_inv (unlock_record_lock file pid r g)"
    using pr one proper_carve [of "locks_of file g" r pid] assms(2)
    by (auto simp: record_inv_def lo k)
qed

text \<open>Process exit.\<close>

definition drop_owner :: "u32 \<Rightarrow> byte_locks \<Rightarrow> byte_locks" where
  "drop_owner pid A = (\<lambda>f b p. if p = pid then None else A f b p)"

lemma exclusion_drop_owner: "exclusion A \<Longrightarrow> exclusion (drop_owner pid A)"
  unfolding exclusion_def drop_owner_def by (auto split: if_splits)

lemma erase_owner_Cons:
  "erase_owner pid (e # m) =
     (let left = filter (\<lambda>c. rl_owner c \<noteq> pid) (snd e) in
      if left = [] then erase_owner pid m else (fst e, left) # erase_owner pid m)"
  by (cases e) (simp add: Let_def)

lemma erase_owner_keys: "fst ` set (erase_owner pid m) \<subseteq> fst ` set m"
  by (induction m) (auto simp: Let_def erase_owner_Cons)

lemma erase_owner_wf: "om_wf m \<Longrightarrow> om_wf (erase_owner pid m)"
proof (induction m)
  case (Cons e m)
  then have "fst e < fst e'" if "e' \<in> set (erase_owner pid m)" for e'
    using erase_owner_keys [of pid m] that by (force simp: om_wf_Cons)
  then show ?case using Cons by (auto simp: Let_def om_wf_Cons erase_owner_Cons)
qed simp

lemma erase_owner_lookup:
  "distinct (map fst m) \<Longrightarrow> map_of (erase_owner pid m) f =
     (case map_of m f of None \<Rightarrow> None
      | Some locks \<Rightarrow> let left = filter (\<lambda>c. rl_owner c \<noteq> pid) locks in if left = [] then None else Some left)"
proof (induction m)
  case (Cons e m)
  then have "map_of m (fst e) = None" by (simp add: map_of_eq_None_iff)
  then show ?case using Cons by (cases e) (auto simp: Let_def erase_owner_Cons)
qed simp

lemma release_process_exact:
  assumes "record_inv g"
  shows "lock_at (release_process_record_locks pid g) = drop_owner pid (lock_at g)"
    and "record_inv (release_process_record_locks pid g)"
proof -
  have wf: "om_wf (record_locks g)" and pr: "\<forall>f. \<forall>c\<in>set (locks_of f g). proper c"
    and one: "\<forall>f p b. length (kinds_at (locks_of f g) p b) \<le> 1"
    using assms by (simp_all add: record_inv_def)
  have lo: "locks_of f (release_process_record_locks pid g) =
      filter (\<lambda>c. rl_owner c \<noteq> pid) (locks_of f g)" for f
    by (auto simp: locks_of_def release_process_record_locks_def
        erase_owner_lookup [OF om_wf_distinct [OF wf]] Let_def split: option.splits)
  have k: "kinds_at (filter (\<lambda>c. rl_owner c \<noteq> pid) cs) p b = (if p = pid then [] else kinds_at cs p b)" for cs p b
    by (induction cs) (auto simp: at_def)
  show "lock_at (release_process_record_locks pid g) = drop_owner pid (lock_at g)"
    by (auto simp: lock_at_def drop_owner_def fun_eq_iff lo k)
  show "record_inv (release_process_record_locks pid g)"
    using pr one erase_owner_wf [OF wf]
    by (auto simp: record_inv_def lo k) (simp add: release_process_record_locks_def)
qed

section \<open>Open file descriptions and their locks\<close>

definition flock_inv :: "lock_registry \<Rightarrow> bool" where
  "flock_inv g \<longleftrightarrow> om_wf (flocks g) \<and>
     (\<forall>file. finite (shared_owners (file_lock_of file g)) \<and>
             (exclusive_owner (file_lock_of file g) \<noteq> None \<longrightarrow> shared_owners (file_lock_of file g) = {}))"

text \<open>Which lock a description, given by its identifier, holds on a file.\<close>

definition flock_at :: "lock_registry \<Rightarrow> u32 \<Rightarrow> u64 \<Rightarrow> lock_kind option" where
  "flock_at g file owner =
     (let l = file_lock_of file g in
      if exclusive_owner l = Some owner then Some Exclusive
      else if owner \<in> shared_owners l then Some Shared else None)"

lemma file_lock_of_put [simp]:
  "file_lock_of f (g\<lparr>flocks := om_put file l (flocks g)\<rparr>) = (if f = file then l else file_lock_of f g)"
  by (simp add: file_lock_of_def)

lemma file_lock_of_others [simp]:
  "file_lock_of f (g\<lparr>record_locks := x\<rparr>) = file_lock_of f g"
  "file_lock_of f (g\<lparr>next_description_identifier := y\<rparr>) = file_lock_of f g"
  by (simp_all add: file_lock_of_def)

lemma card_one_singleton: "card X = 1 \<and> a \<in> X \<longleftrightarrow> X = {a}"
  by (auto simp: card_1_singleton_iff)

lemma try_acquire_inv: "flock_inv g \<Longrightarrow> flock_inv (snd (try_acquire d k g))"
  unfolding flock_inv_def try_acquire_def Let_def card_one_singleton by auto

lemma file_lock_of_release:
  "file_lock_of f (release d g) =
     (let l = file_lock_of f g in
      if f = od_file d then
        l\<lparr>exclusive_owner := (if exclusive_owner l = Some (od_identifier d) then None else exclusive_owner l),
          shared_owners := shared_owners l - {od_identifier d}\<rparr>
      else l)"
  by (auto simp: file_lock_of_def release_def Let_def split: option.splits if_splits)

lemma release_inv: "flock_inv g \<Longrightarrow> flock_inv (release d g)"
proof -
  assume inv: "flock_inv g"
  have "om_wf (flocks (release d g))"
    using inv by (auto simp: flock_inv_def release_def Let_def split: option.splits)
  then show ?thesis using inv by (auto simp: flock_inv_def file_lock_of_release Let_def)
qed

lemma try_acquire_iff:
  assumes "flock_inv g"
  shows "fst (try_acquire d k g) \<longleftrightarrow>
    (\<forall>o' l. o' \<noteq> od_identifier d \<longrightarrow> flock_at g (od_file d) o' = Some l \<longrightarrow> \<not> locks_conflict l k)"
proof -
  define fl where "fl = file_lock_of (od_file d) g"
  have excl: "exclusive_owner fl \<noteq> None \<longrightarrow> shared_owners fl = {}"
    using assms by (simp add: flock_inv_def fl_def)
  have "fst (try_acquire d k g) \<longleftrightarrow>
    (exclusive_owner fl = None \<or> exclusive_owner fl = Some (od_identifier d)) \<and>
    (k = Shared \<or> shared_owners fl \<subseteq> {od_identifier d})"
    unfolding try_acquire_def Let_def card_one_singleton fl_def [symmetric] by (auto; cases k; auto)
  also have "\<dots> \<longleftrightarrow> (\<forall>o' l. o' \<noteq> od_identifier d \<longrightarrow> flock_at g (od_file d) o' = Some l \<longrightarrow> \<not> locks_conflict l k)"
    unfolding flock_at_def Let_def fl_def [symmetric] locks_conflict_def
    using excl by (cases k; cases "exclusive_owner fl") auto
  finally show ?thesis .
qed

lemma try_acquire_effect:
  "flock_inv g \<Longrightarrow> flock_at (snd (try_acquire d k g)) f o' =
    (if fst (try_acquire d k g) \<and> f = od_file d \<and> o' = od_identifier d then Some k else flock_at g f o')"
  unfolding try_acquire_def flock_at_def flock_inv_def Let_def card_one_singleton
  by (cases k) auto

lemma release_effect:
  "flock_at (release d g) f o' =
    (if f = od_file d \<and> o' = od_identifier d then None else flock_at g f o')"
  by (auto simp: flock_at_def file_lock_of_release Let_def)

definition flock_exclusion :: "lock_registry \<Rightarrow> bool" where
  "flock_exclusion g \<longleftrightarrow> (\<forall>f o1 o2 k l. o1 \<noteq> o2 \<longrightarrow> flock_at g f o1 = Some k \<longrightarrow>
     flock_at g f o2 = Some l \<longrightarrow> \<not> locks_conflict k l)"

lemma flock_inv_exclusion: "flock_inv g \<Longrightarrow> flock_exclusion g"
  unfolding flock_inv_def flock_exclusion_def flock_at_def Let_def locks_conflict_def
  by (auto split: if_splits)

section \<open>The interface the calls rely on\<close>

text \<open>
  A store of record locks: requests are granted or refused by the conflict rule on bytes and
  change nothing but the caller's bytes in the range. What the calls need follows from it
  alone: mutual exclusion on every byte, and that a lock stays until its owner gives it up.
\<close>

locale byte_lock_store =
  fixes table :: "'g \<Rightarrow> byte_locks"
    and ok :: "'g \<Rightarrow> bool"
    and try_set :: "u32 \<Rightarrow> u32 \<Rightarrow> record_range \<Rightarrow> 'g \<Rightarrow> bool \<times> 'g"
    and unlock :: "u32 \<Rightarrow> u32 \<Rightarrow> record_range \<Rightarrow> 'g \<Rightarrow> 'g"
    and release_owner :: "u32 \<Rightarrow> 'g \<Rightarrow> 'g"
  assumes set_ok: "ok g \<Longrightarrow> proper r \<Longrightarrow> ok (snd (try_set f p r g))"
    and set_iff: "ok g \<Longrightarrow> proper r \<Longrightarrow> fst (try_set f p r g) \<longleftrightarrow> \<not> blocked (table g) f p r"
    and set_table: "ok g \<Longrightarrow> proper r \<Longrightarrow> table (snd (try_set f p r g)) =
        (if blocked (table g) f p r then table g else grant f p r (table g))"
    and unlock_ok: "ok g \<Longrightarrow> proper r \<Longrightarrow> ok (unlock f p r g)"
    and unlock_table: "ok g \<Longrightarrow> proper r \<Longrightarrow> table (unlock f p r g) = drop_locks f p r (table g)"
    and release_ok: "ok g \<Longrightarrow> ok (release_owner p g)"
    and release_table: "ok g \<Longrightarrow> table (release_owner p g) = drop_owner p (table g)"
begin

lemma set_exclusion:
  "ok g \<Longrightarrow> proper r \<Longrightarrow> exclusion (table g) \<Longrightarrow> exclusion (table (snd (try_set f p r g)))"
  by (simp add: set_table exclusion_grant)

lemma unlock_exclusion:
  "ok g \<Longrightarrow> proper r \<Longrightarrow> exclusion (table g) \<Longrightarrow> exclusion (table (unlock f p r g))"
  by (simp add: unlock_table exclusion_drop)

lemma release_exclusion: "ok g \<Longrightarrow> exclusion (table g) \<Longrightarrow> exclusion (table (release_owner p g))"
  by (simp add: release_table exclusion_drop_owner)

lemma others_untouched:
  assumes "ok g" "proper r" "q \<noteq> p"
  shows "table (snd (try_set f p r g)) f' b q = table g f' b q"
    and "table (unlock f p r g) f' b q = table g f' b q"
    and "table (release_owner p g) f' b q = table g f' b q"
  using assms by (auto simp: set_table unlock_table release_table grant_def drop_locks_def drop_owner_def)

text \<open>A refused request is granted as soon as the processes in its way have gone.\<close>

lemma granted_after_release:
  assumes "ok g" "proper r" and only: "\<And>b x k. x \<noteq> p \<Longrightarrow> covers r b \<Longrightarrow>
    table g f b x = Some k \<Longrightarrow> locks_conflict k (rl_kind r) \<Longrightarrow> x = q"
  shows "fst (try_set f p r (release_owner q g))"
  using assms(1,2) only
  by (auto simp: set_iff release_ok release_table blocked_def drop_owner_def split: if_splits)

end

interpretation locks: byte_lock_store lock_at record_inv try_set_record_lock unlock_record_lock release_process_record_locks
proof (unfold_locales, goal_cases)
  case (1 g r f p)
  then show ?case using try_set_refused(3) try_set_granted(3) by metis
next
  case (2 g r f p)
  then show ?case using try_set_refused(1) try_set_granted(1) by metis
next
  case (3 g r f p)
  then show ?case using try_set_refused(2) try_set_granted(2) by metis
qed (simp_all add: unlock_exact release_process_exact)

lemma record_conflict_iff:
  assumes "record_inv g" "proper r"
  shows "record_conflict f pid r g = None \<longleftrightarrow> fst (try_set_record_lock f pid r g)"
proof -
  have "record_conflict f pid r g = find (conflicting pid r) (locks_of f g)"
    by (simp add: record_conflict_def locks_of_def split: option.splits)
  then show ?thesis by (simp add: try_set_record_lock_def Let_def)
qed

lemma record_conflict_sound:
  assumes "record_inv g" "proper r" "record_conflict f pid r g = Some c"
  shows "rl_owner c \<noteq> pid \<and> (\<exists>b. covers c b \<and> covers r b \<and>
    lock_at g f b (rl_owner c) = Some (rl_kind c) \<and> locks_conflict (rl_kind c) (rl_kind r))"
proof -
  have "find (conflicting pid r) (locks_of f g) = Some c"
    using assms(3) by (simp add: record_conflict_def locks_of_def split: option.splits)
  then have c: "c \<in> set (locks_of f g)" "conflicting pid r c"
    by (auto simp: find_Some_iff)
  then have "proper c" using assms(1) by (auto simp: record_inv_def)
  then obtain b where b: "covers c b" "covers r b"
    using c overlap_iff [OF _ assms(2)] by (auto simp: conflicting_def)
  then have "lock_at g f b (rl_owner c) = Some (rl_kind c)"
    using c(1) by (auto simp: lock_at_in [OF assms(1)] at_def)
  then show ?thesis using b c(2) by (auto simp: conflicting_def)
qed

lemma empty_registry_ok [simp]:
  "record_inv empty_registry" "flock_inv empty_registry" "lock_at empty_registry = (\<lambda>f b p. None)"
  by (auto simp: record_inv_def flock_inv_def empty_registry_def locks_of_def file_lock_of_def
      lock_at_def fun_eq_iff)

end
