(* ===== verification/File_Lock_Calls.thy ===== *)
theory File_Lock_Calls
  imports File_Lock
begin

text \<open>
  The system calls on advisory locks (\<open>src/kernel/bsd/filesystem/locking.cpp\<close>): \<open>fcntl\<close> with
  the record lock commands, \<open>flock\<close>, the requests that wait and their completion
  (\<open>CompatibilityKernel::deliver_pending_io_locked\<close>), and what closing a descriptor and
  exiting do to the locks. Guest memory and the host file system are arguments: the reads a
  call makes are given, its writes are returned. Log output is left out.
\<close>

section \<open>Data\<close>

type_synonym path = string

record guest_memory =
  mem_read64 :: "u32 \<Rightarrow> u64 option"
  mem_read32 :: "u32 \<Rightarrow> u32 option"
  mem_read16 :: "u32 \<Rightarrow> u16 option"
  mem_writable :: "u32 \<Rightarrow> u32 \<Rightarrow> bool"

datatype guest_write = Write64 u32 u64 | Write32 u32 u32 | Write16 u32 u16

datatype host_access = Host_Read_Only | Host_Write_Only | Host_Read_Write

record host_files =
  permanent_id :: "path \<Rightarrow> u32 option"
  host_open :: "path \<Rightarrow> host_access \<Rightarrow> int"
  file_size :: "path \<Rightarrow> u64 option"

record guest_record_lock =
  gl_start :: int
  gl_length :: int
  gl_pid :: u32
  gl_type :: u16
  gl_whence :: u16

record pending_flock =
  pf_fd :: u32
  pf_kind :: lock_kind
  pf_description :: open_description
  pf_processor :: nat

record pending_record_lock =
  pr_fd :: u32
  pr_file :: u32
  pr_range :: record_range
  pr_processor :: nat

record lock_task =
  task_pid :: u32
  waiting_for_events :: bool
  file_descriptors :: "(u32, path) omap"
  regular_file_open_descriptions :: "(u32, open_description) omap"
  file_status_flags :: "(u32, u32) omap"
  duplicated_descriptors :: "(u32, u32) omap"
  file_offsets :: "(u32, u64) omap"
  pending_flocks :: "(nat, pending_flock) omap"
  pending_record_locks :: "(nat, pending_record_lock) omap"

datatype call_result = Not_Handled | Bsd_Error u32 | Bsd_Success u32 | Halted

definition get_record_lock :: u32 where "get_record_lock = 7"
definition set_record_lock :: u32 where "set_record_lock = 8"
definition set_record_lock_wait :: u32 where "set_record_lock_wait = 9"
definition record_lock_read :: u16 where "record_lock_read = 1"
definition record_lock_unlock :: u16 where "record_lock_unlock = 2"
definition record_lock_write :: u16 where "record_lock_write = 3"
definition flock_shared :: u32 where "flock_shared = 0x01"
definition flock_exclusive :: u32 where "flock_exclusive = 0x02"
definition flock_non_blocking :: u32 where "flock_non_blocking = 0x04"
definition flock_unlock :: u32 where "flock_unlock = 0x08"
definition access_mode :: u32 where "access_mode = 0x0003"
definition read_only :: u32 where "read_only = 0x0000"
definition write_only :: u32 where "write_only = 0x0001"
definition read_write :: u32 where "read_write = 0x0002"
definition error_io :: u32 where "error_io = 5"
definition bad_file_descriptor :: u32 where "bad_file_descriptor = 9"
definition bad_address :: u32 where "bad_address = 14"
definition invalid_argument :: u32 where "invalid_argument = 22"
definition would_block :: u32 where "would_block = 35"

lemmas lock_abi = get_record_lock_def set_record_lock_def set_record_lock_wait_def
  record_lock_read_def record_lock_unlock_def record_lock_write_def
  flock_shared_def flock_exclusive_def flock_non_blocking_def flock_unlock_def
  access_mode_def read_only_def write_only_def read_write_def
  error_io_def bad_file_descriptor_def bad_address_def invalid_argument_def would_block_def

section \<open>Reading the request\<close>

definition read_guest_record_lock :: "guest_memory \<Rightarrow> u32 \<Rightarrow> guest_record_lock option" where
  "read_guest_record_lock memory address =
     (case (mem_read64 memory (address + 0), mem_read64 memory (address + 8),
            mem_read32 memory (address + 16), mem_read16 memory (address + 20),
            mem_read16 memory (address + 22)) of
        (Some start, Some len, Some pid, Some type, Some whence) \<Rightarrow>
          Some \<lparr>gl_start = sint start, gl_length = sint len, gl_pid = pid, gl_type = type, gl_whence = whence\<rparr>
      | _ \<Rightarrow> None)"

text \<open>Signed 64-bit arithmetic: \<open>s64\<close> gives the value of an expression, or the undefined
  behaviour that C++ has when it leaves the type.\<close>

definition s64_min :: int where "s64_min = - (2 ^ 63)"
definition s64_max :: int where "s64_max = 2 ^ 63 - 1"

datatype range_error = Rejected | Signed_Overflow

definition s64 :: "int \<Rightarrow> range_error + int" where
  "s64 x = (if s64_min \<le> x \<and> x \<le> s64_max then Inr x else Inl Signed_Overflow)"

definition start_out_of_bounds :: "int \<Rightarrow> int \<Rightarrow> range_error + bool" where
  "start_out_of_bounds base start =
     (if start = s64_min then Inr True
      else if 0 < start then and_then (s64 (s64_max - start)) (\<lambda>room. Inr (room < base))
      else if start < 0 then and_then (s64 (- start)) (\<lambda>needed. Inr (base < needed))
      else Inr False)"

definition normalise_length :: "int \<Rightarrow> int \<Rightarrow> range_error + (int \<times> int)" where
  "normalise_length start len =
     (if len < 0 then
        and_then (s64 (- len)) (\<lambda>n.
          if start < n then Inl Rejected else and_then (s64 (start + len)) (\<lambda>start. Inr (start, n)))
      else Inr (start, len))"

definition resolve_range :: "int \<Rightarrow> int \<Rightarrow> int \<Rightarrow> range_error + (int \<times> int option)" where
  "resolve_range base guest_start guest_length =
     and_then (start_out_of_bounds base guest_start) (\<lambda>outside.
     if outside then Inl Rejected else
     and_then (s64 (base + guest_start)) (\<lambda>start.
     if start < 0 \<or> guest_length = s64_min then Inl Rejected else
     and_then (normalise_length start guest_length) (\<lambda>(start, len).
     and_then (if 0 < len then and_then (s64 (s64_max - len)) (\<lambda>room. Inr (room < start)) else Inr False)
       (\<lambda>too_long.
     if too_long then Inl Rejected
     else if len = 0 then Inr (start, None)
     else and_then (s64 (start + len)) (\<lambda>e. Inr (start, Some e))))))"

text \<open>The base of the range by \<open>l_whence\<close>: \<open>SEEK_SET\<close>, \<open>SEEK_CUR\<close>, \<open>SEEK_END\<close>.\<close>

definition seek_base :: "host_files \<Rightarrow> lock_task \<Rightarrow> u32 \<Rightarrow> path \<Rightarrow> u16 \<Rightarrow> u32 + int" where
  "seek_base host k fd path whence =
     (if whence = 0 then Inr 0
      else if whence = 1 then
        (case map_of (file_offsets k) fd of
           None \<Rightarrow> Inl invalid_argument
         | Some current \<Rightarrow> if s64_max < uint current then Inl invalid_argument else Inr (uint current))
      else if whence = 2 then
        (case file_size host path of
           None \<Rightarrow> Inl error_io
         | Some bytes \<Rightarrow> if s64_max < uint bytes then Inl error_io else Inr (uint bytes))
      else Inl invalid_argument)"

section \<open>The calls\<close>

definition ensure_regular_file_open_description ::
    "host_files \<Rightarrow> u32 \<Rightarrow> lock_task \<times> lock_registry \<Rightarrow> open_description option \<times> lock_task \<times> lock_registry" where
  "ensure_regular_file_open_description host fd kg = (let (k, g) = kg in
     case map_of (regular_file_open_descriptions k) fd of
       Some description \<Rightarrow> (Some description, k, g)
     | None \<Rightarrow>
         (case map_of (file_descriptors k) fd of
            None \<Rightarrow> (None, k, g)
          | Some path \<Rightarrow>
              (case permanent_id host path of
                 None \<Rightarrow> (None, k, g)
               | Some identity \<Rightarrow>
                   let guest_flags = (case map_of (file_status_flags k) fd of Some flags \<Rightarrow> flags | None \<Rightarrow> read_only);
                       access = guest_flags AND access_mode;
                       host_descriptor = host_open host path
                         (if access = write_only then Host_Write_Only
                          else if access = read_write then Host_Read_Write else Host_Read_Only)
                   in if host_descriptor < 0 then (None, k, g)
                      else let (description, g') = open_file identity host_descriptor g in
                        (Some description,
                         k\<lparr>regular_file_open_descriptions := om_put fd description (regular_file_open_descriptions k)\<rparr>,
                         g'))))"

definition whole_file :: record_range where
  "whole_file = \<lparr>rl_kind = Shared, rl_start = 0, rl_end = None\<rparr>"

definition release_record_locks_for_descriptor ::
    "host_files \<Rightarrow> u32 \<Rightarrow> lock_task \<times> lock_registry \<Rightarrow> lock_task \<times> lock_registry" where
  "release_record_locks_for_descriptor host fd kg = (let (k, g) = kg in
     case map_of (regular_file_open_descriptions k) fd of
       Some description \<Rightarrow> (k, unlock_record_lock (od_file description) (task_pid k) whole_file g)
     | None \<Rightarrow>
         if map_of (file_descriptors k) fd \<noteq> None then
           (case ensure_regular_file_open_description host fd (k, g) of
              (Some created, k', g') \<Rightarrow> (k', unlock_record_lock (od_file created) (task_pid k) whole_file g')
            | (None, k', g') \<Rightarrow> (k', g'))
         else (k, g))"

definition conflict_reply :: "u32 \<Rightarrow> owned_lock option \<Rightarrow> guest_write list" where
  "conflict_reply address conflict =
     (case conflict of
        None \<Rightarrow> [Write16 (address + 20) record_lock_unlock]
      | Some c \<Rightarrow>
          [Write64 (address + 0) (rl_start c),
           Write64 (address + 8) (case rl_end c of Some e \<Rightarrow> e - rl_start c | None \<Rightarrow> 0),
           Write32 (address + 16) (rl_owner c),
           Write16 (address + 20) (if rl_kind c = Exclusive then record_lock_write else record_lock_read),
           Write16 (address + 22) 0])"

text \<open>The tail of \<open>dispatch_bsd_record_locking\<close>, once the range is known.\<close>

definition apply_record_lock ::
    "guest_memory \<Rightarrow> nat \<Rightarrow> u32 \<Rightarrow> u32 \<Rightarrow> u32 \<Rightarrow> u16 \<Rightarrow> u32 \<Rightarrow> record_range \<Rightarrow> lock_task \<times> lock_registry \<Rightarrow>
     call_result \<times> guest_write list \<times> lock_task \<times> lock_registry" where
  "apply_record_lock memory processor command fd address type permanent_file_id r kg = (let (k, g) = kg in
     if command = get_record_lock then
       if \<not> mem_writable memory address 24 then (Bsd_Error bad_address, [], k, g)
       else (Bsd_Success 0, conflict_reply address (record_conflict permanent_file_id (task_pid k) r g), k, g)
     else if type = record_lock_unlock then
       (Bsd_Success 0, [], k, unlock_record_lock permanent_file_id (task_pid k) r g)
     else
       let access_flags = (case map_of (file_status_flags k) fd of Some flags \<Rightarrow> flags | None \<Rightarrow> read_only);
           mode = access_flags AND access_mode
       in if (rl_kind r = Shared \<and> mode = write_only) \<or> (rl_kind r = Exclusive \<and> mode = read_only)
          then (Bsd_Error bad_file_descriptor, [], k, g)
          else (case try_set_record_lock permanent_file_id (task_pid k) r g of
            (True, g') \<Rightarrow> (Bsd_Success 0, [], k, g')
          | (False, g') \<Rightarrow>
              if command = set_record_lock then (Bsd_Error would_block, [], k, g')
              else (Halted, [],
                k\<lparr>pending_record_locks := om_put processor
                     \<lparr>pr_fd = fd, pr_file = permanent_file_id, pr_range = r, pr_processor = processor\<rparr>
                     (pending_record_locks k), waiting_for_events := True\<rparr>, g')))"

definition range_of :: "u16 \<Rightarrow> int \<times> int option \<Rightarrow> record_range" where
  "range_of type r =
     \<lparr>rl_kind = (if type = record_lock_write then Exclusive else Shared),
      rl_start = word_of_int (fst r), rl_end = map_option word_of_int (snd r)\<rparr>"

definition dispatch_bsd_record_locking ::
    "host_files \<Rightarrow> guest_memory \<Rightarrow> nat \<Rightarrow> u32 \<Rightarrow> u32 \<Rightarrow> u32 \<Rightarrow> lock_task \<times> lock_registry \<Rightarrow>
     range_error + (call_result \<times> guest_write list \<times> lock_task \<times> lock_registry)" where
  "dispatch_bsd_record_locking host memory processor command fd0 address kg =
     (if command \<noteq> get_record_lock \<and> command \<noteq> set_record_lock \<and> command \<noteq> set_record_lock_wait
      then Inr (Not_Handled, [], kg)
      else
        let fd = (case map_of (duplicated_descriptors (fst kg)) fd0 of Some d \<Rightarrow> d | None \<Rightarrow> fd0);
            (found, k, g) = ensure_regular_file_open_description host fd kg
        in case (map_of (file_descriptors k) fd, found) of
          (Some path, Some description) \<Rightarrow>
            (case read_guest_record_lock memory address of
               None \<Rightarrow> Inr (Bsd_Error bad_address, [], k, g)
             | Some guest \<Rightarrow>
                 if gl_type guest \<noteq> record_lock_read \<and> gl_type guest \<noteq> record_lock_write \<and>
                    gl_type guest \<noteq> record_lock_unlock
                 then Inr (Bsd_Error invalid_argument, [], k, g)
                 else if command = get_record_lock \<and> gl_type guest = record_lock_unlock
                 then Inr (Bsd_Error invalid_argument, [], k, g)
                 else (case seek_base host k fd path (gl_whence guest) of
                   Inl e \<Rightarrow> Inr (Bsd_Error e, [], k, g)
                 | Inr base \<Rightarrow>
                     (case resolve_range base (gl_start guest) (gl_length guest) of
                        Inl Rejected \<Rightarrow> Inr (Bsd_Error invalid_argument, [], k, g)
                      | Inl Signed_Overflow \<Rightarrow> Inl Signed_Overflow
                      | Inr r \<Rightarrow>
                          Inr (apply_record_lock memory processor command fd address (gl_type guest)
                            (od_file description) (range_of (gl_type guest) r) (k, g)))))
        | _ \<Rightarrow> Inr (Bsd_Error bad_file_descriptor, [], k, g))"

definition dispatch_bsd_filesystem_locking ::
    "host_files \<Rightarrow> nat \<Rightarrow> u32 \<Rightarrow> u32 \<Rightarrow> lock_task \<times> lock_registry \<Rightarrow> call_result \<times> lock_task \<times> lock_registry" where
  "dispatch_bsd_filesystem_locking host processor fd how kg =
     (case ensure_regular_file_open_description host fd kg of
        (None, k, g) \<Rightarrow> (Bsd_Error bad_file_descriptor, k, g)
      | (Some description, k, g) \<Rightarrow>
          if how AND flock_unlock \<noteq> 0 then (Bsd_Success 0, k, release description g)
          else
            (case (if how AND flock_exclusive \<noteq> 0 then Some Exclusive
                   else if how AND flock_shared \<noteq> 0 then Some Shared else None) of
               None \<Rightarrow> (Bsd_Error bad_file_descriptor, k, g)
             | Some kind \<Rightarrow>
                 (case try_acquire description kind g of
                    (True, g') \<Rightarrow> (Bsd_Success 0, k, g')
                  | (False, g') \<Rightarrow>
                      if how AND flock_non_blocking \<noteq> 0 then (Bsd_Error would_block, k, g')
                      else (Halted,
                        k\<lparr>pending_flocks := om_put processor
                             \<lparr>pf_fd = fd, pf_kind = kind, pf_description = description, pf_processor = processor\<rparr>
                             (pending_flocks k), waiting_for_events := True\<rparr>, g'))))"

text \<open>The two cases of \<open>deliver_pending_io_locked\<close> that complete a waiting lock request;
  \<open>None\<close> stands for going on to the other kinds of pending I/O.\<close>

definition deliver_pending_locks ::
    "nat \<Rightarrow> lock_task \<times> lock_registry \<Rightarrow> call_result option \<times> lock_task \<times> lock_registry" where
  "deliver_pending_locks processor kg = (let (k, g) = kg in
     case map_of (pending_record_locks k) processor of
       Some p \<Rightarrow>
         (case try_set_record_lock (pr_file p) (task_pid k) (pr_range p) g of
            (False, g') \<Rightarrow> (Some Halted, k, g')
          | (True, g') \<Rightarrow>
              (Some (Bsd_Success 0),
               k\<lparr>pending_record_locks := om_erase processor (pending_record_locks k), waiting_for_events := False\<rparr>, g'))
     | None \<Rightarrow>
         (case map_of (pending_flocks k) processor of
            Some p \<Rightarrow>
              (case try_acquire (pf_description p) (pf_kind p) g of
                 (False, g') \<Rightarrow> (Some Halted, k, g')
               | (True, g') \<Rightarrow>
                   (Some (Bsd_Success 0),
                    k\<lparr>pending_flocks := om_erase processor (pending_flocks k), waiting_for_events := False\<rparr>, g'))
          | None \<Rightarrow> (None, k, g)))"

section \<open>The range of a request\<close>

lemma s64_simps [simp]: "s64 x = Inr y \<longleftrightarrow> x = y \<and> s64_min \<le> x \<and> x \<le> s64_max"
  by (auto simp: s64_def)

lemma resolve_range_spec:
  assumes "0 \<le> base" "base \<le> s64_max" "s64_min \<le> st" "st \<le> s64_max" "s64_min \<le> len" "len \<le> s64_max"
  shows "resolve_range base st len =
    (if st \<noteq> s64_min \<and> len \<noteq> s64_min \<and> 0 \<le> base + st + min len 0 \<and> base + st + max len 0 \<le> s64_max
     then Inr (base + st + min len 0, if len = 0 then None else Some (base + st + max len 0))
     else Inl Rejected)"
  using assms
  unfolding resolve_range_def start_out_of_bounds_def normalise_length_def s64_def s64_min_def s64_max_def
  by (simp add: and_then_def min_def max_def split: sum.splits if_splits; linarith?)

lemma seek_base_bounds: "seek_base host k fd path whence = Inr base \<Longrightarrow> 0 \<le> base \<and> base \<le> s64_max"
  by (auto simp: seek_base_def s64_max_def split: if_splits option.splits)

lemma sint64_bounds: "s64_min \<le> sint (x :: u64)" "sint x \<le> s64_max"
  using sint_range_size [of x] by (simp_all add: s64_min_def s64_max_def word_size)

lemma read_guest_bounds:
  "read_guest_record_lock memory address = Some guest \<Longrightarrow>
     s64_min \<le> gl_start guest \<and> gl_start guest \<le> s64_max \<and>
     s64_min \<le> gl_length guest \<and> gl_length guest \<le> s64_max"
  by (auto simp: read_guest_record_lock_def sint64_bounds split: option.splits)

lemma range_of_proper:
  assumes "resolve_range base st len = Inr r" "0 \<le> base" "base \<le> s64_max"
    "s64_min \<le> st" "st \<le> s64_max" "s64_min \<le> len" "len \<le> s64_max"
  shows "proper (range_of type r)"
proof -
  have r: "r = (base + st + min len 0, if len = 0 then None else Some (base + st + max len 0))"
    and lo: "0 \<le> base + st + min len 0" and hi: "base + st + max len 0 \<le> s64_max"
    using assms(1) unfolding resolve_range_spec [OF assms(2-)] by (auto split: if_splits)
  have less: "(word_of_int a :: u64) < word_of_int b" if "0 \<le> a" "a < b" "b \<le> s64_max" for a b
    using that by (simp add: word_less_def uint_word_of_int s64_max_def)
  define a b where "a = base + st + min len 0" and "b = base + st + max len 0"
  have "len \<noteq> 0 \<Longrightarrow> (word_of_int a :: u64) < word_of_int b"
    using lo hi by (intro less) (auto simp: a_def b_def)
  moreover have "r = (a, if len = 0 then None else Some b)" by (simp add: r a_def b_def)
  ultimately show ?thesis by (simp add: proper_def range_of_def)
qed

section \<open>Histories of calls\<close>

text \<open>All processes with the registry they share. A description is destroyed when its last
  reference goes, which may be at any point after it was opened; the histories let it happen
  anywhere.\<close>

record lock_world =
  tasks :: "u32 \<Rightarrow> lock_task"
  registry :: lock_registry

datatype lock_event =
    Fcntl host_files guest_memory u32 nat u32 u32 u32
  | Flock host_files u32 nat u32 u32
  | Deliver u32 nat
  | Close_Descriptor host_files u32 u32
  | Exit u32
  | Destroy open_description

definition store_task :: "u32 \<Rightarrow> lock_task \<times> lock_registry \<Rightarrow> lock_world \<Rightarrow> lock_world" where
  "store_task pid kg w = w\<lparr>tasks := (tasks w)(pid := fst kg), registry := snd kg\<rparr>"

fun lock_step :: "lock_event \<Rightarrow> lock_world \<Rightarrow> range_error + lock_world" where
  "lock_step (Fcntl host memory pid processor command fd address) w =
     and_then (dispatch_bsd_record_locking host memory processor command fd address (tasks w pid, registry w))
       (\<lambda>(_, _, kg). Inr (store_task pid kg w))"
| "lock_step (Flock host pid processor fd how) w =
     Inr (store_task pid (snd (dispatch_bsd_filesystem_locking host processor fd how (tasks w pid, registry w))) w)"
| "lock_step (Deliver pid processor) w =
     Inr (store_task pid (snd (deliver_pending_locks processor (tasks w pid, registry w))) w)"
| "lock_step (Close_Descriptor host pid fd) w =
     Inr (store_task pid (release_record_locks_for_descriptor host fd (tasks w pid, registry w)) w)"
| "lock_step (Exit pid) w = Inr (w\<lparr>registry := release_process_record_locks pid (registry w)\<rparr>)"
| "lock_step (Destroy description) w = Inr (w\<lparr>registry := release description (registry w)\<rparr>)"

definition registry_ok :: "lock_registry \<Rightarrow> bool" where
  "registry_ok g \<longleftrightarrow> record_inv g \<and> exclusion (lock_at g) \<and> flock_inv g"

definition task_ok :: "lock_task \<Rightarrow> bool" where
  "task_ok k \<longleftrightarrow> (\<forall>i p. map_of (pending_record_locks k) i = Some p \<longrightarrow> proper (pr_range p))"

definition world_ok :: "lock_world \<Rightarrow> bool" where
  "world_ok w \<longleftrightarrow> registry_ok (registry w) \<and> (\<forall>pid. task_ok (tasks w pid) \<and> task_pid (tasks w pid) = pid)"

text \<open>What an operation of one process keeps: its identity, and both invariants.\<close>

definition keeps :: "lock_task \<times> lock_registry \<Rightarrow> lock_task \<times> lock_registry \<Rightarrow> bool" where
  "keeps kg kg' \<longleftrightarrow> registry_ok (snd kg) \<and> task_ok (fst kg) \<longrightarrow>
     registry_ok (snd kg') \<and> task_ok (fst kg') \<and> task_pid (fst kg') = task_pid (fst kg)"

lemma keeps_refl [simp]: "keeps kg kg"
  by (simp add: keeps_def)

lemma keeps_trans: "keeps a b \<Longrightarrow> keeps b c \<Longrightarrow> keeps a c"
  by (auto simp: keeps_def)

lemma store_task_ok:
  "world_ok w \<Longrightarrow> keeps (tasks w pid, registry w) kg \<Longrightarrow> world_ok (store_task pid kg w)"
  by (auto simp: world_ok_def keeps_def store_task_def)

text \<open>The two halves of the registry do not see each other's operations.\<close>

lemma flock_inv_record [simp]: "flock_inv (g\<lparr>record_locks := x\<rparr>) = flock_inv g"
  "flock_inv (g\<lparr>next_description_identifier := y\<rparr>) = flock_inv g"
  by (simp_all add: flock_inv_def)

lemma record_inv_flock [simp]: "record_inv (g\<lparr>flocks := x\<rparr>) = record_inv g"
  "record_inv (g\<lparr>next_description_identifier := y\<rparr>) = record_inv g"
  by (simp_all add: record_inv_def)

lemma lock_at_flock [simp]: "lock_at (g\<lparr>flocks := x\<rparr>) = lock_at g"
  "lock_at (g\<lparr>next_description_identifier := y\<rparr>) = lock_at g"
  by (simp_all add: lock_at_def)

lemma registry_ok_record:
  assumes "registry_ok g" "proper r"
  shows "registry_ok (snd (try_set_record_lock f p r g))" "registry_ok (unlock_record_lock f p r g)"
    "registry_ok (release_process_record_locks p g)"
proof -
  have "flock_inv (snd (try_set_record_lock f p r g))" "flock_inv (unlock_record_lock f p r g)"
    "flock_inv (release_process_record_locks p g)"
    using assms(1) by (auto simp: registry_ok_def try_set_record_lock_def unlock_record_lock_def
        release_process_record_locks_def Let_def split: option.splits)
  then show "registry_ok (snd (try_set_record_lock f p r g))" "registry_ok (unlock_record_lock f p r g)"
    "registry_ok (release_process_record_locks p g)"
    using assms by (simp_all add: registry_ok_def locks.set_ok locks.set_exclusion locks.unlock_ok
        locks.unlock_exclusion locks.release_ok locks.release_exclusion)
qed

lemma registry_ok_flock:
  assumes "registry_ok g"
  shows "registry_ok (snd (try_acquire d k g))" "registry_ok (release d g)"
    "registry_ok (snd (open_file i h g))"
proof -
  have x: "snd (try_acquire d k g) = g\<lparr>flocks := flocks (snd (try_acquire d k g))\<rparr>"
    by (simp add: try_acquire_def Let_def)
  have y: "release d g = g\<lparr>flocks := flocks (release d g)\<rparr>"
    by (simp add: release_def Let_def split: option.splits)
  show "registry_ok (snd (try_acquire d k g))"
    using assms try_acquire_inv [of g d k] unfolding registry_ok_def
    by (metis x record_inv_flock(1) lock_at_flock(1))
  show "registry_ok (release d g)"
    using assms release_inv [of g d] unfolding registry_ok_def
    by (metis y record_inv_flock(1) lock_at_flock(1))
  show "registry_ok (snd (open_file i h g))"
    using assms by (simp add: registry_ok_def open_file_def)
qed

lemma ensure_keeps: "keeps kg (snd (ensure_regular_file_open_description host fd kg))"
  using registry_ok_flock(3)
  by (auto simp: keeps_def ensure_regular_file_open_description_def Let_def task_ok_def case_prod_beta
      split: option.splits)

lemma whole_file_proper [simp]: "proper whole_file"
  by (simp add: proper_def whole_file_def)

lemma release_record_locks_keeps: "keeps kg (release_record_locks_for_descriptor host fd kg)"
proof -
  obtain k g where kg: "kg = (k, g)" by force
  have unlock: "keeps (k', g') (k', unlock_record_lock f p whole_file g')" for k' g' f p
    by (simp add: keeps_def registry_ok_record(2))
  obtain found k' g' where e: "ensure_regular_file_open_description host fd (k, g) = (found, k', g')"
    using prod_cases3 by blast
  have "keeps (k, g) (k', g')" using ensure_keeps [of "(k, g)" host fd] by (simp add: e)
  then show ?thesis
    using unlock keeps_trans [OF _ unlock]
    by (auto simp: kg release_record_locks_for_descriptor_def e split: option.splits)
qed

lemma apply_record_lock_keeps:
  assumes "proper r"
  shows "keeps kg (snd (snd (apply_record_lock memory processor command fd address type f r kg)))"
proof -
  obtain k g where kg: "kg = (k, g)" by force
  obtain got g' where t: "try_set_record_lock f (task_pid k) r g = (got, g')" by force
  have ok: "registry_ok g \<Longrightarrow> registry_ok g'" using registry_ok_record(1) [OF _ assms] t by (metis snd_conv)
  show ?thesis
    using ok assms registry_ok_record(2) [OF _ assms]
    by (cases got) (auto simp: kg keeps_def apply_record_lock_def t Let_def task_ok_def)
qed

lemma request_range:
  assumes "read_guest_record_lock memory address = Some guest" "seek_base host k fd path whence = Inr base"
  shows "resolve_range base (gl_start guest) (gl_length guest) \<noteq> Inl Signed_Overflow"
    and "resolve_range base (gl_start guest) (gl_length guest) = Inr r \<Longrightarrow> proper (range_of type r)"
  using read_guest_bounds [OF assms(1)] seek_base_bounds [OF assms(2)] range_of_proper
  by (auto simp: resolve_range_spec)

lemma record_locking_keeps:
  "returns (dispatch_bsd_record_locking host memory processor command fd0 address kg)
     (\<lambda>(_, _, kg'). keeps kg kg')"
proof (cases "command \<noteq> get_record_lock \<and> command \<noteq> set_record_lock \<and> command \<noteq> set_record_lock_wait")
  case True
  then show ?thesis by (simp add: dispatch_bsd_record_locking_def)
next
  case False
  define fd where "fd = (case map_of (duplicated_descriptors (fst kg)) fd0 of Some d \<Rightarrow> d | None \<Rightarrow> fd0)"
  obtain found k g where e: "ensure_regular_file_open_description host fd kg = (found, k, g)"
    using prod_cases3 by blast
  have k: "keeps kg (k, g)" using ensure_keeps [of kg host fd] by (simp add: e)
  have apply_k: "keeps kg (k', g')"
    if "apply_record_lock memory processor c fd address type f r (k, g) = (x, y, k', g')" "proper r"
    for c type f r x y k' g'
    using keeps_trans [OF k apply_record_lock_keeps [OF that(2)]] that(1) by (metis snd_conv)
  show ?thesis
    unfolding dispatch_bsd_record_locking_def fd_def [symmetric] e Let_def
    using False k request_range(1)
    by (auto split: option.split sum.split range_error.split elim!: apply_k intro: request_range(2))
qed

lemma flock_keeps: "keeps kg (snd (dispatch_bsd_filesystem_locking host processor fd how kg))"
proof -
  obtain found k g where e: "ensure_regular_file_open_description host fd kg = (found, k, g)"
    using prod_cases3 by blast
  have k: "keeps kg (k, g)" using ensure_keeps [of kg host fd] by (simp add: e)
  have a: "keeps (k, g) (k', snd (try_acquire d kind g))"
    if "task_pid k' = task_pid k" "pending_record_locks k' = pending_record_locks k" for d kind k'
    using that registry_ok_flock(1) by (simp add: keeps_def task_ok_def)
  have r: "keeps (k, g) (k, release d g)" for d by (simp add: keeps_def registry_ok_flock(2))
  have "keeps (k, g) (snd (dispatch_bsd_filesystem_locking host processor fd how kg))"
    unfolding dispatch_bsd_filesystem_locking_def e
    using a r by (auto simp: case_prod_beta split: option.splits bool.splits)
  then show ?thesis by (rule keeps_trans [OF k])
qed

lemma deliver_keeps: "keeps kg (snd (deliver_pending_locks processor kg))"
proof -
  obtain k g where kg: "kg = (k, g)" by force
  have "registry_ok (snd (try_set_record_lock (pr_file p) pid (pr_range p) g))"
    if "registry_ok g" "task_ok k" "map_of (pending_record_locks k) processor = Some p" for p pid
    using that registry_ok_record(1) by (auto simp: task_ok_def)
  then show ?thesis
    using registry_ok_flock(1)
    by (auto simp: kg keeps_def deliver_pending_locks_def task_ok_def case_prod_beta
        split: option.splits bool.splits)
qed

lemma lock_step_ok: "world_ok w \<Longrightarrow> returns (lock_step e w) world_ok"
proof (induction e w rule: lock_step.induct)
  case (1 host memory pid processor command fd address w)
  show ?case
    unfolding lock_step.simps
    by (rule returns_and_then [OF record_locking_keeps]) (auto intro: store_task_ok [OF 1])
next
  case (5 pid w)
  then show ?case using registry_ok_record(3) [OF _ whole_file_proper] by (simp add: world_ok_def)
next
  case (6 description w)
  then show ?case by (simp add: world_ok_def registry_ok_flock(2))
qed (simp_all add: store_task_ok flock_keeps deliver_keeps release_record_locks_keeps)

definition lock_run :: "lock_event list \<Rightarrow> lock_world \<Rightarrow> range_error + lock_world" where
  "lock_run = each lock_step"

definition fresh_world :: "lock_world \<Rightarrow> bool" where
  "fresh_world w \<longleftrightarrow> registry w = empty_registry \<and>
     (\<forall>pid. task_pid (tasks w pid) = pid \<and> pending_record_locks (tasks w pid) = [])"

lemma fresh_world_ok: "fresh_world w \<Longrightarrow> world_ok w"
  by (simp add: fresh_world_def world_ok_def registry_ok_def task_ok_def exclusion_def)

section \<open>Properties\<close>

text \<open>
  C10: Mutual exclusion. In every history of \<open>fcntl\<close> and \<open>flock\<close> calls, completions of waiting
  requests, closed descriptors, exits and destroyed descriptions, over all processes and
  whatever guest memory holds and the host file system answers, no call overflows signed
  arithmetic and afterwards no two processes hold conflicting record locks on one byte and no
  two open descriptions hold conflicting \<open>flock\<close> locks on one file.
\<close>

theorem lock_history_exclusive:
  "fresh_world w \<Longrightarrow> returns (lock_run es w)
     (\<lambda>w'. exclusion (lock_at (registry w')) \<and> flock_exclusion (registry w'))"
proof -
  assume "fresh_world w"
  then have "world_ok w" by (rule fresh_world_ok)
  then have "returns (lock_run es w) world_ok"
    unfolding lock_run_def by (rule returns_each) (rule lock_step_ok)
  then show ?thesis
    by (rule returns_mono) (simp add: world_ok_def registry_ok_def flock_inv_exclusion)
qed

definition sample_task :: "u32 \<Rightarrow> lock_task" where
  "sample_task pid = \<lparr>task_pid = pid, waiting_for_events = False, file_descriptors = [(3, ''/f'')],
     regular_file_open_descriptions = [], file_status_flags = [(3, 2)], duplicated_descriptors = [],
     file_offsets = [], pending_flocks = [], pending_record_locks = []\<rparr>"

definition sample_world :: lock_world where
  "sample_world = \<lparr>tasks = sample_task, registry = empty_registry\<rparr>"

definition sample_host :: host_files where
  "sample_host = \<lparr>permanent_id = (\<lambda>_. Some 77), host_open = (\<lambda>_ _. 5), file_size = (\<lambda>_. Some 100)\<rparr>"

text \<open>A request to write-lock the bytes 10 to 19.\<close>

definition sample_memory :: guest_memory where
  "sample_memory = \<lparr>mem_read64 = (\<lambda>_. Some 10), mem_read32 = (\<lambda>_. Some 0),
     mem_read16 = (\<lambda>a. Some (if a = 20 then 3 else 0)), mem_writable = (\<lambda>_ _. True)\<rparr>"

theorem lock_history_exclusive_witness:
  "returns (lock_run [Fcntl sample_host sample_memory 1 0 8 3 0, Fcntl sample_host sample_memory 2 0 9 3 0]
      sample_world)
     (\<lambda>w'. exclusion (lock_at (registry w')) \<and> flock_exclusion (registry w'))"
  by (rule lock_history_exclusive) (simp add: fresh_world_def sample_world_def sample_task_def)

text \<open>
  C11: A record lock request is refused exactly when another process holds a conflicting lock
  on one of its bytes; \<open>F_GETLK\<close> then reports such a lock and otherwise none. A granted request
  gives the caller the requested kind of lock on exactly the bytes of the range, whatever
  split its older locks need; nothing else changes for any process on any file.
\<close>

theorem record_lock_request_exact:
  assumes "record_inv g" "proper r"
  shows "let (granted, g') = try_set_record_lock f pid r g in
    (granted \<longleftrightarrow> \<not> blocked (lock_at g) f pid r) \<and>
    (record_conflict f pid r g = None \<longleftrightarrow> granted) \<and>
    (\<forall>f' b q. lock_at g' f' b q =
       (if granted \<and> f' = f \<and> q = pid \<and> covers r b then Some (rl_kind r) else lock_at g f' b q)) \<and>
    record_inv g'"
proof -
  obtain granted g' where t: "try_set_record_lock f pid r g = (granted, g')" by force
  have granted: "granted \<longleftrightarrow> \<not> blocked (lock_at g) f pid r"
    using locks.set_iff [OF assms, of f pid] t by simp
  have table: "lock_at g' = (if blocked (lock_at g) f pid r then lock_at g else grant f pid r (lock_at g))"
    using locks.set_table [OF assms, of f pid] t by simp
  have "record_inv g'" using locks.set_ok [OF assms, of f pid] t by simp
  moreover have "record_conflict f pid r g = None \<longleftrightarrow> granted"
    using record_conflict_iff [OF assms, of f pid] t by simp
  ultimately show ?thesis using granted by (simp add: t table grant_def)
qed

definition sample_registry :: lock_registry where
  "sample_registry = snd (try_set_record_lock 77 1 \<lparr>rl_kind = Exclusive, rl_start = 10, rl_end = Some 20\<rparr>
     empty_registry)"

lemma sample_registry_inv: "record_inv sample_registry"
  unfolding sample_registry_def by (rule locks.set_ok) (simp_all add: proper_def)

theorem record_lock_request_exact_witness:
  "let (granted, g') = try_set_record_lock 77 1 \<lparr>rl_kind = Shared, rl_start = 12, rl_end = Some 15\<rparr> sample_registry in
     granted \<and> lock_at g' 77 11 1 = Some Exclusive \<and> lock_at g' 77 12 1 = Some Shared \<and>
     lock_at g' 77 15 1 = Some Exclusive"
proof -
  define r :: record_range where "r = \<lparr>rl_kind = Shared, rl_start = 12, rl_end = Some 15\<rparr>"
  have "proper r" by (simp add: r_def proper_def)
  note exact = record_lock_request_exact [OF sample_registry_inv this, of 77 1]
  have "lock_at sample_registry 77 b q = (if q = 1 \<and> 10 \<le> b \<and> b < 20 then Some Exclusive else None)" for b q
    by (auto simp: sample_registry_def try_set_record_lock_def empty_registry_def Let_def locks_of_def
        lock_at_def carve_def at_def covers_def)
  then show ?thesis
    using exact unfolding r_def
    by (auto simp: blocked_def covers_def case_prod_beta Let_def)
qed

text \<open>
  The byte range of a request. For any 64-bit start and length and any base a file offset
  or size can have, no step of the computation overflows, and the request is accepted exactly
  when the bytes it names lie between 0 and the largest signed offset (the two most negative
  values being refused); it then covers from the lower end to the upper end, a negative length
  counting backwards from the start and a zero length reaching to the end of the file.
\<close>

theorem record_lock_range_resolution:
  assumes "0 \<le> base" "base \<le> s64_max"
  shows "resolve_range base (sint (st :: u64)) (sint (len :: u64)) =
    (let lo = base + sint st + min (sint len) 0; hi = base + sint st + max (sint len) 0 in
     if sint st \<noteq> s64_min \<and> sint len \<noteq> s64_min \<and> 0 \<le> lo \<and> hi \<le> s64_max
     then Inr (lo, if sint len = 0 then None else Some hi) else Inl Rejected)"
  unfolding resolve_range_spec [OF assms sint64_bounds sint64_bounds] Let_def by simp

theorem record_lock_range_resolution_witness:
  "resolve_range 100 (sint (- 10 :: u64)) (sint (- 20 :: u64)) = Inr (70, Some 90) \<and>
   resolve_range 0 (sint (- 10 :: u64)) (sint (5 :: u64)) = Inl Rejected"
  using record_lock_range_resolution [of 100 "- 10" "- 20"] record_lock_range_resolution [of 0 "- 10" 5]
  by (simp add: s64_min_def s64_max_def)

text \<open>
  C12: A waiting \<open>F_SETLKW\<close> request is not forgotten. When the only process whose locks stand
  in its way exits, the next delivery to the waiting processor completes the call with success,
  the caller holds the range, and it waits no longer.
\<close>

theorem waiting_record_lock_granted:
  assumes "world_ok w" "map_of (pending_record_locks (tasks w pid)) processor = Some p"
    and "\<forall>b x k. x \<noteq> pid \<and> covers (pr_range p) b \<and> lock_at (registry w) (pr_file p) b x = Some k \<and>
      locks_conflict k (rl_kind (pr_range p)) \<longrightarrow> x = q"
  shows "\<exists>k' g'. deliver_pending_locks processor
      (tasks w pid, release_process_record_locks q (registry w)) = (Some (Bsd_Success 0), k', g') \<and>
    \<not> waiting_for_events k' \<and> map_of (pending_record_locks k') processor = None \<and>
    (\<forall>b. covers (pr_range p) b \<longrightarrow> lock_at g' (pr_file p) b pid = Some (rl_kind (pr_range p)))"
proof -
  have inv: "record_inv (registry w)" and pr: "proper (pr_range p)" and pid: "task_pid (tasks w pid) = pid"
    using assms(1,2) by (auto simp: world_ok_def registry_ok_def task_ok_def)
  define g where "g = release_process_record_locks q (registry w)"
  have g: "record_inv g" unfolding g_def by (rule locks.release_ok [OF inv])
  have got: "fst (try_set_record_lock (pr_file p) pid (pr_range p) g)"
    unfolding g_def using locks.granted_after_release [OF inv pr] assms(3) by metis
  then obtain g' where t: "try_set_record_lock (pr_file p) pid (pr_range p) g = (True, g')"
    by (metis prod.collapse)
  have "\<not> blocked (lock_at g) (pr_file p) pid (pr_range p)" using locks.set_iff [OF g pr] got by blast
  then have "lock_at g' = grant (pr_file p) pid (pr_range p) (lock_at g)"
    using locks.set_table [OF g pr, of "pr_file p" pid] t by simp
  then show ?thesis
    using assms(2) pid t by (simp add: deliver_pending_locks_def g_def [symmetric] grant_def)
qed

definition waiting_world :: lock_world where
  "waiting_world = \<lparr>tasks = sample_task(2 := (sample_task 2)\<lparr>waiting_for_events := True,
       pending_record_locks := [(0, \<lparr>pr_fd = 3, pr_file = 77,
          pr_range = \<lparr>rl_kind = Exclusive, rl_start = 15, rl_end = None\<rparr>, pr_processor = 0\<rparr>)]\<rparr>),
     registry = sample_registry\<rparr>"

theorem waiting_record_lock_granted_witness:
  "\<exists>k' g'. deliver_pending_locks 0 (tasks waiting_world 2,
      release_process_record_locks 1 (registry waiting_world)) = (Some (Bsd_Success 0), k', g') \<and>
    \<not> waiting_for_events k'"
proof -
  have table: "lock_at sample_registry 77 b q = (if q = 1 \<and> 10 \<le> b \<and> b < 20 then Some Exclusive else None)" for b q
    by (auto simp: sample_registry_def try_set_record_lock_def empty_registry_def Let_def locks_of_def
        lock_at_def carve_def at_def covers_def)
  have "registry_ok sample_registry"
    unfolding sample_registry_def
    by (rule registry_ok_record(1)) (simp_all add: registry_ok_def proper_def exclusion_def)
  then have "world_ok waiting_world"
    by (auto simp: world_ok_def waiting_world_def task_ok_def sample_task_def proper_def)
  moreover define p where "p = \<lparr>pr_fd = 3, pr_file = 77,
      pr_range = \<lparr>rl_kind = Exclusive, rl_start = 15, rl_end = None\<rparr>, pr_processor = 0\<rparr>"
  moreover have "map_of (pending_record_locks (tasks waiting_world 2)) 0 = Some p"
    by (simp add: waiting_world_def p_def)
  moreover have "\<forall>b x k. x \<noteq> 2 \<and> covers (pr_range p) b \<and> lock_at (registry waiting_world) (pr_file p) b x = Some k \<and>
      locks_conflict k (rl_kind (pr_range p)) \<longrightarrow> x = 1"
    by (auto simp: p_def waiting_world_def table split: if_splits)
  ultimately show ?thesis using waiting_record_lock_granted by blast
qed

end
