(* ===== verification/File_Page_Cache.thy ===== *)
theory File_Page_Cache
  imports Ilsim_Prelude
begin

text \<open>
  Physical pages and the cache of file pages (\<open>include/ilemu/file_page_cache.hpp\<close>,
  \<open>src/foundation/memory/file_page_cache.cpp\<close>). A \<open>GuestPageBacking\<close> is a cell of a store and
  a \<open>shared_ptr\<close> to it is its number; the state of an open file is a cell as well, since the
  pieces of a split mapping share it. Reading the host file is an argument (\<open>pread\<close>, which
  gives the bytes received for an offset and a size), and so is what \<open>open\<close>, \<open>fstat\<close> and the
  hash of a file answer. Mutexes are left out: each operation holds them throughout, except
  that \<open>load_page\<close> looks twice, and the second look finds nothing when calls do not overlap.
\<close>

section \<open>Data\<close>

definition page_size :: nat where
  "page_size = 4096"

definition guest_file_prefetch_pages :: nat where
  "guest_file_prefetch_pages = 32"

definition file_prefetch_bytes :: nat where
  "file_prefetch_bytes = guest_file_prefetch_pages * page_size"

text \<open>\<open>std::array<std::byte, 4096>\<close>, by offset.\<close>

type_synonym page_bytes = "nat \<Rightarrow> u8"

definition zero_page :: page_bytes where
  "zero_page = (\<lambda>_. 0)"

type_synonym content_identity = "u8 list"

record guest_file_generation =
  device :: u64
  inode :: u64
  gen_file_size :: u64
  modified_seconds :: int
  modified_nanoseconds :: int
  changed_seconds :: int
  changed_nanoseconds :: int

record guest_file_io_state =
  io_descriptor :: int
  prefetched_pages :: "(nat, page_bytes) omap"

record guest_file_backing =
  fb_path :: string
  fb_cache_path :: string
  fb_file_size :: nat
  fb_generation :: guest_file_generation
  fb_identity :: content_identity
  fb_io :: nat
  first_offset :: nat
  end_offset :: nat

record guest_page_backing =
  pb_bytes :: page_bytes
  pb_file :: "guest_file_backing option"
  pb_writeback :: "guest_file_backing option"
  pb_offset :: nat
  pb_count :: nat
  pb_reservation :: u64
  pb_has_source :: bool
  pb_tracking :: bool
  pb_generation :: u64

text \<open>All pages and open files, with the two counters the pages share.\<close>

record page_store =
  backing_of :: "nat \<Rightarrow> guest_page_backing"
  next_backing :: nat
  io_of :: "nat \<Rightarrow> guest_file_io_state"
  next_io :: nat
  tracking_epoch :: u64
  next_reservation_identity :: u64

type_synonym pread = "int \<Rightarrow> nat \<Rightarrow> nat \<Rightarrow> u8 list"

section \<open>Physical pages\<close>

definition blank_backing :: "u64 \<Rightarrow> guest_page_backing" where
  "blank_backing identity =
     \<lparr>pb_bytes = zero_page, pb_file = None, pb_writeback = None, pb_offset = 0, pb_count = 0,
      pb_reservation = identity, pb_has_source = False, pb_tracking = False, pb_generation = 0\<rparr>"

definition set_backing :: "nat \<Rightarrow> guest_page_backing \<Rightarrow> page_store \<Rightarrow> page_store" where
  "set_backing b p st = st\<lparr>backing_of := (backing_of st)(b := p)\<rparr>"

definition new_backing :: "page_store \<Rightarrow> nat \<times> page_store" where
  "new_backing st =
     (next_backing st,
      set_backing (next_backing st) (blank_backing (next_reservation_identity st))
        (st\<lparr>next_backing := next_backing st + 1, next_reservation_identity := next_reservation_identity st + 1\<rparr>))"

definition invalidate_reservation_identity :: "nat \<Rightarrow> page_store \<Rightarrow> page_store" where
  "invalidate_reservation_identity b st =
     set_backing b ((backing_of st b)\<lparr>pb_reservation := next_reservation_identity st\<rparr>)
       (st\<lparr>next_reservation_identity := next_reservation_identity st + 1\<rparr>)"

text \<open>The bytes of page \<open>index\<close> of a batch, zero past its end.\<close>

definition batch_page :: "u8 list \<Rightarrow> nat \<Rightarrow> page_bytes" where
  "batch_page batch index =
     (\<lambda>i. if i < page_size \<and> index * page_size + i < length batch then batch ! (index * page_size + i) else 0)"

fun distribute :: "u8 list \<Rightarrow> nat \<Rightarrow> nat \<Rightarrow> nat \<Rightarrow> nat list \<Rightarrow> page_bytes \<times> (nat, page_bytes) omap \<Rightarrow>
    page_bytes \<times> (nat, page_bytes) omap" where
  "distribute batch received read_start file_offset [] acc = acc"
| "distribute batch received read_start file_offset (index # rest) (bytes, prefetched) =
     (let offset = index * page_size; page_offset = read_start + offset in
      distribute batch received read_start file_offset rest
        (if page_offset = file_offset then (batch_page batch index, prefetched)
         else if received > offset then (bytes, om_emplace page_offset (batch_page batch index) prefetched)
         else (bytes, prefetched)))"

definition read_cluster :: "pread \<Rightarrow> guest_file_backing \<Rightarrow> nat \<Rightarrow> guest_file_io_state \<Rightarrow>
    page_bytes \<times> guest_file_io_state" where
  "read_cluster pread f file_offset io =
     (let aligned_start = file_offset - file_offset mod file_prefetch_bytes;
          read_start = max (first_offset f) aligned_start;
          read_size = min (end_offset f - read_start) file_prefetch_bytes;
          read_pages = (read_size + page_size - 1) div page_size
      in if 0 \<le> io_descriptor io \<and> read_start \<le> 2 ^ 63 - 1 then
           let got = take read_size (pread (io_descriptor io) read_start read_size);
               batch = got @ replicate (read_size - length got) 0;
               (bytes, prefetched) =
                 distribute batch (length got) read_start file_offset [0..<read_pages] (zero_page, prefetched_pages io)
           in (bytes, io\<lparr>prefetched_pages := prefetched\<rparr>)
         else (zero_page, io))"

definition materialize :: "pread \<Rightarrow> nat \<Rightarrow> page_store \<Rightarrow> page_store" where
  "materialize pread b st =
     (let p = backing_of st b in
      if \<not> pb_has_source p then st
      else case pb_file p of
        None \<Rightarrow> st
      | Some f \<Rightarrow>
          let io = io_of st (fb_io f);
              (bytes, io') =
                (case map_of (prefetched_pages io) (pb_offset p) of
                   Some page \<Rightarrow> (page, io\<lparr>prefetched_pages := om_erase (pb_offset p) (prefetched_pages io)\<rparr>)
                 | None \<Rightarrow> read_cluster pread f (pb_offset p) io)
          in set_backing b (p\<lparr>pb_bytes := bytes, pb_file := None\<rparr>)
               (st\<lparr>io_of := (io_of st)(fb_io f := io')\<rparr>))"

text \<open>The copy constructor takes the bytes and a new identity, nothing else.\<close>

definition copy_backing :: "pread \<Rightarrow> nat \<Rightarrow> page_store \<Rightarrow> nat \<times> page_store" where
  "copy_backing pread b st =
     (let st1 = materialize pread b st; (b', st2) = new_backing st1
      in (b', set_backing b' ((backing_of st2 b')\<lparr>pb_bytes := pb_bytes (backing_of st1 b)\<rparr>) st2))"

definition enable_shared_write_tracking :: "nat \<Rightarrow> page_store \<Rightarrow> bool \<times> page_store" where
  "enable_shared_write_tracking b st =
     (if pb_tracking (backing_of st b) then (False, st)
      else (True, set_backing b ((backing_of st b)\<lparr>pb_tracking := True\<rparr>)
                    (st\<lparr>tracking_epoch := tracking_epoch st + 1\<rparr>)))"

definition mark_shared_write :: "nat \<Rightarrow> page_store \<Rightarrow> page_store" where
  "mark_shared_write b st =
     (if pb_tracking (backing_of st b)
      then set_backing b ((backing_of st b)\<lparr>pb_generation := pb_generation (backing_of st b) + 1\<rparr>) st
      else st)"

definition file_backed :: "nat \<Rightarrow> page_store \<Rightarrow> bool" where
  "file_backed b st \<longleftrightarrow> pb_writeback (backing_of st b) \<noteq> None"

text \<open>What \<open>flush_file\<close> asks the host to write: descriptor, offset and bytes. Whether the host
  takes it all decides the result of the call, which no caller reads.\<close>

definition flush_file :: "nat \<Rightarrow> page_store \<Rightarrow> (int \<times> nat \<times> u8 list) option" where
  "flush_file b st =
     (let p = backing_of st b in
      case pb_writeback p of
        None \<Rightarrow> None
      | Some f \<Rightarrow>
          let descriptor = io_descriptor (io_of st (fb_io f)) in
          if descriptor < 0 then None
          else Some (descriptor, pb_offset p, map (pb_bytes p) [0..<pb_count p]))"

section \<open>The cache\<close>

record cache_key =
  k_path :: string
  k_generation :: guest_file_generation
  k_identity :: content_identity
  k_offset :: nat
  k_count :: nat

record cache_stats =
  identity_queries :: u64
  sha_computations :: u64
  sha_bytes :: u64
  identity_hits :: u64
  generation_invalidations :: u64

record file_page_cache =
  maximum_pages :: nat
  identities :: "string \<rightharpoonup> guest_file_generation \<times> content_identity"
  cache_pages :: "(cache_key \<times> nat) list"
  lru :: "cache_key list"
  stats :: cache_stats

definition empty_cache :: "nat \<Rightarrow> file_page_cache" where
  "empty_cache limit = \<lparr>maximum_pages = limit, identities = Map.empty, cache_pages = [], lru = [],
     stats = \<lparr>identity_queries = 0, sha_computations = 0, sha_bytes = 0, identity_hits = 0, generation_invalidations = 0\<rparr>\<rparr>"

definition touch :: "cache_key \<Rightarrow> file_page_cache \<Rightarrow> file_page_cache" where
  "touch key c = c\<lparr>lru := filter (\<lambda>k. k \<noteq> key) (lru c) @ [key]\<rparr>"

definition erase_path :: "string \<Rightarrow> file_page_cache \<Rightarrow> file_page_cache" where
  "erase_path path c =
     c\<lparr>cache_pages := filter (\<lambda>e. k_path (fst e) \<noteq> path) (cache_pages c),
       lru := filter (\<lambda>k. k_path k \<noteq> path \<or> k \<notin> fst ` set (cache_pages c)) (lru c)\<rparr>"

fun evict_loop :: "nat \<Rightarrow> (cache_key \<times> nat) list \<Rightarrow> cache_key list \<Rightarrow> (cache_key \<times> nat) list \<times> cache_key list" where
  "evict_loop limit pages [] = (pages, [])"
| "evict_loop limit pages (key # rest) =
     (if length pages > limit then evict_loop limit (filter (\<lambda>e. fst e \<noteq> key) pages) rest
      else (pages, key # rest))"

definition evict :: "file_page_cache \<Rightarrow> file_page_cache" where
  "evict c = (if maximum_pages c = 0 then c
     else let (pages, order) = evict_loop (maximum_pages c) (cache_pages c) (lru c)
          in c\<lparr>cache_pages := pages, lru := order\<rparr>)"

definition key_of :: "guest_file_backing \<Rightarrow> nat \<Rightarrow> nat \<Rightarrow> cache_key" where
  "key_of mapping file_offset byte_count =
     \<lparr>k_path = fb_cache_path mapping, k_generation = fb_generation mapping, k_identity = fb_identity mapping,
      k_offset = file_offset, k_count = byte_count\<rparr>"

definition load_page :: "guest_file_backing \<Rightarrow> nat \<Rightarrow> nat \<Rightarrow> file_page_cache \<times> page_store \<Rightarrow>
    nat \<times> file_page_cache \<times> page_store" where
  "load_page mapping file_offset byte_count cst =
     (let (c, st) = cst; key = key_of mapping file_offset byte_count in
      case map_of (cache_pages c) key of
        Some page \<Rightarrow> (page, touch key c, st)
      | None \<Rightarrow>
          let (page, st1) = new_backing st;
              st2 = set_backing page ((backing_of st1 page)\<lparr>pb_file := Some mapping, pb_writeback := Some mapping,
                      pb_offset := file_offset, pb_count := byte_count, pb_has_source := True\<rparr>) st1
          in (page, evict (c\<lparr>cache_pages := (key, page) # cache_pages c, lru := lru c @ [key]\<rparr>), st2))"

text \<open>What the host says of a path: the descriptor \<open>open\<close> returns, the two \<open>fstat\<close> answers
  (regular file, size and generation), the hash of the contents, and the stable path.\<close>

record file_probe =
  probe_descriptor :: int
  probe_stat :: "(bool \<times> int \<times> guest_file_generation) option"
  probe_sha :: "content_identity option"
  probe_final :: "guest_file_generation option"
  probe_path :: string

definition lookup_identity :: "file_probe \<Rightarrow> int \<Rightarrow> guest_file_generation \<Rightarrow> file_page_cache \<Rightarrow>
    content_identity option \<times> file_page_cache" where
  "lookup_identity probe bytes generation c =
     (let c = c\<lparr>stats := (stats c)\<lparr>identity_queries := identity_queries (stats c) + 1\<rparr>\<rparr> in
      case identities c (probe_path probe) of
        Some (known, identity) \<Rightarrow>
          if known = generation
          then (Some identity, c\<lparr>stats := (stats c)\<lparr>identity_hits := identity_hits (stats c) + 1\<rparr>\<rparr>)
          else
            let c = erase_path (probe_path probe) c;
                s = (stats c)\<lparr>generation_invalidations := generation_invalidations (stats c) + 1,
                      sha_computations := sha_computations (stats c) + 1, sha_bytes := sha_bytes (stats c) + word_of_int bytes\<rparr>
            in (case probe_sha probe of
                  None \<Rightarrow> (None, c\<lparr>stats := s\<rparr>)
                | Some identity \<Rightarrow>
                    (Some identity, c\<lparr>stats := s, identities := (identities c)(probe_path probe \<mapsto> (generation, identity))\<rparr>))
      | None \<Rightarrow>
          let s = (stats c)\<lparr>sha_computations := sha_computations (stats c) + 1,
                    sha_bytes := sha_bytes (stats c) + word_of_int bytes\<rparr>
          in (case probe_sha probe of
                None \<Rightarrow> (None, c\<lparr>stats := s\<rparr>)
              | Some identity \<Rightarrow>
                  (Some identity, c\<lparr>stats := s, identities := (identities c)(probe_path probe \<mapsto> (generation, identity))\<rparr>)))"

definition open_mapping :: "file_probe \<Rightarrow> string \<Rightarrow> nat \<Rightarrow> nat \<Rightarrow> file_page_cache \<times> page_store \<Rightarrow>
    guest_file_backing option \<times> file_page_cache \<times> page_store" where
  "open_mapping probe path file_offset bytes cst = (let (c, st) = cst in
     if bytes = 0 \<or> file_offset mod page_size \<noteq> 0 then (None, c, st)
     else if probe_descriptor probe < 0 then (None, c, st)
     else case probe_stat probe of
       None \<Rightarrow> (None, c, st)
     | Some (regular, length_signed, generation) \<Rightarrow>
         if \<not> regular \<or> length_signed < 0 then (None, c, st)
         else let length_bytes = nat length_signed in
         if file_offset > length_bytes then (None, c, st)
         else let available = length_bytes - file_offset;
                  page_rounded_available = (available + page_size - 1) div page_size * page_size in
         if bytes > page_rounded_available then (None, c, st)
         else (case lookup_identity probe length_signed generation c of
           (None, c') \<Rightarrow> (None, c', st)
         | (Some identity, c') \<Rightarrow>
             if probe_final probe \<noteq> Some generation then (None, c', st)
             else
               (Some \<lparr>fb_path = path, fb_cache_path = probe_path probe, fb_file_size = length_bytes,
                      fb_generation = generation, fb_identity = identity, fb_io = next_io st,
                      first_offset = file_offset, end_offset = file_offset + min bytes available\<rparr>,
                c', st\<lparr>io_of := (io_of st)(next_io st := \<lparr>io_descriptor = probe_descriptor probe, prefetched_pages = []\<rparr>),
                       next_io := next_io st + 1\<rparr>)))"

fun load_run :: "guest_file_backing \<Rightarrow> nat \<Rightarrow> nat list \<Rightarrow> file_page_cache \<times> page_store \<Rightarrow>
    nat list option \<times> file_page_cache \<times> page_store" where
  "load_run mapping fin [] cst = (Some [], cst)"
| "load_run mapping fin (offset # rest) cst =
     (if offset > 2 ^ 63 - 1 then (None, cst)
      else case load_page mapping offset (min page_size (fin - offset)) cst of
        (page, cst1) \<Rightarrow>
          (case load_run mapping fin rest cst1 of
             (None, cst2) \<Rightarrow> (None, cst2)
           | (Some pages, cst2) \<Rightarrow> (Some (page # pages), cst2)))"

definition load_pages :: "file_probe \<Rightarrow> string \<Rightarrow> nat \<Rightarrow> nat \<Rightarrow> file_page_cache \<times> page_store \<Rightarrow>
    nat list option \<times> file_page_cache \<times> page_store" where
  "load_pages probe path file_offset bytes cst =
     (case open_mapping probe path file_offset bytes cst of
        (None, cst') \<Rightarrow> (None, cst')
      | (Some mapping, cst') \<Rightarrow>
          load_run mapping (file_offset + bytes)
            (map (\<lambda>i. file_offset + i * page_size) [0..<(bytes + page_size - 1) div page_size]) cst')"

definition cached_page_count :: "file_page_cache \<Rightarrow> nat" where
  "cached_page_count c = length (cache_pages c)"

section \<open>The cache stays bounded and never mixes files\<close>

lemma set_backing_simps [simp]:
  "backing_of (set_backing b p st) = (backing_of st)(b := p)"
  "next_backing (set_backing b p st) = next_backing st"
  "io_of (set_backing b p st) = io_of st" "next_io (set_backing b p st) = next_io st"
  by (simp_all add: set_backing_def)

lemma new_backing_simps [simp]:
  "fst (new_backing st) = next_backing st"
  "next_backing (snd (new_backing st)) = next_backing st + 1"
  "backing_of (snd (new_backing st)) =
     (backing_of st)(next_backing st := blank_backing (next_reservation_identity st))"
  "io_of (snd (new_backing st)) = io_of st" "next_io (snd (new_backing st)) = next_io st"
  by (simp_all add: new_backing_def)

text \<open>A page carries the file it was made for.\<close>

definition made_for :: "cache_key \<Rightarrow> guest_page_backing \<Rightarrow> bool" where
  "made_for k p \<longleftrightarrow> (case pb_writeback p of None \<Rightarrow> False | Some f \<Rightarrow> key_of f (pb_offset p) (pb_count p) = k)"

definition cache_inv :: "file_page_cache \<times> page_store \<Rightarrow> bool" where
  "cache_inv cst \<longleftrightarrow> (let (c, st) = cst in
     distinct (map fst (cache_pages c)) \<and> distinct (lru c) \<and> set (lru c) = fst ` set (cache_pages c) \<and>
     (maximum_pages c = 0 \<or> length (cache_pages c) \<le> maximum_pages c) \<and>
     (\<forall>(k, b) \<in> set (cache_pages c). b < next_backing st \<and> made_for k (backing_of st b)))"

lemma evict_loop_keeps:
  assumes "distinct (map fst pages)" "distinct order" "set order = fst ` set pages"
  shows "let (pages', order') = evict_loop limit pages order in
    distinct (map fst pages') \<and> distinct order' \<and> set order' = fst ` set pages' \<and>
    set pages' \<subseteq> set pages \<and> length pages' \<le> limit"
  using assms
proof (induction limit pages order rule: evict_loop.induct)
  case (2 limit pages key rest)
  show ?case
  proof (cases "length pages > limit")
    case True
    define pages1 where "pages1 = filter (\<lambda>e. fst e \<noteq> key) pages"
    have "set rest = fst ` set pages1" using 2(3,4) by (auto simp: pages1_def)
    moreover have "distinct (map fst pages1)" using 2(2) by (simp add: pages1_def distinct_map_filter)
    moreover have "distinct rest" using 2(3) by simp
    ultimately have "let (pages', order') = evict_loop limit pages1 rest in
      distinct (map fst pages') \<and> distinct order' \<and> set order' = fst ` set pages' \<and>
      set pages' \<subseteq> set pages1 \<and> length pages' \<le> limit"
      using 2(1) True by (simp add: pages1_def)
    moreover have "set pages1 \<subseteq> set pages" by (auto simp: pages1_def)
    moreover have "evict_loop limit pages (key # rest) = evict_loop limit pages1 rest"
      using True by (simp add: pages1_def)
    ultimately show ?thesis by (simp add: case_prod_beta Let_def) blast
  qed (use 2 in simp)
qed simp

text \<open>The page just appended at the young end of the order survives unless the limit is 0.\<close>

lemma evict_loop_young:
  assumes "map_of pages k = Some b" "0 < limit" "distinct (map fst pages)"
    "distinct (order @ [k])" "set (order @ [k]) = fst ` set pages"
  shows "map_of (fst (evict_loop limit pages (order @ [k]))) k = Some b"
  using assms
proof (induction order arbitrary: pages)
  case Nil
  then have "set (map fst pages) = {k}" by simp
  then have "length pages = 1" using distinct_card [OF Nil(3)] by simp
  then show ?case using Nil by simp
next
  case (Cons a order)
  have ne: "k \<noteq> a" using Cons.prems(4) by auto
  show ?case
  proof (cases "length pages > limit")
    case True
    have "fst ` set (filter (\<lambda>e. fst e \<noteq> a) pages) = set (order @ [k])"
      using Cons.prems(4,5) by (auto simp: set_eq_iff)
    moreover have "map_of (filter (\<lambda>e. fst e \<noteq> a) pages) k = Some b"
      using Cons.prems(1,3) ne by (simp add: map_of_eq_Some_iff distinct_map_filter)
    ultimately show ?thesis
      using Cons.IH [of "filter (\<lambda>e. fst e \<noteq> a) pages"] Cons.prems True
      by (simp add: distinct_map_filter)
  qed (use Cons.prems in simp)
qed

lemma evict_keeps:
  assumes "distinct (map fst (cache_pages c))" "distinct (lru c)" "set (lru c) = fst ` set (cache_pages c)"
  shows "distinct (map fst (cache_pages (evict c)))" "distinct (lru (evict c))"
    "set (lru (evict c)) = fst ` set (cache_pages (evict c))"
    "set (cache_pages (evict c)) \<subseteq> set (cache_pages c)"
    "maximum_pages c = 0 \<or> length (cache_pages (evict c)) \<le> maximum_pages c"
    "maximum_pages (evict c) = maximum_pages c"
  using evict_loop_keeps [OF assms, of "maximum_pages c"] assms
  by (auto simp: evict_def case_prod_beta Let_def)

lemma load_page_inv:
  assumes "cache_inv cst"
  shows "cache_inv (snd (load_page f off n cst))"
proof -
  obtain c st where cst: "cst = (c, st)" by force
  define k where "k = key_of f off n"
  show ?thesis
  proof (cases "map_of (cache_pages c) k")
    case (Some b)
    then have "k \<in> fst ` set (cache_pages c)" by (metis domI dom_map_of_conv_image_fst)
    then show ?thesis
      using assms Some by (auto simp: cst load_page_def k_def [symmetric] touch_def cache_inv_def)
  next
    case None
    define b st2 where "b = next_backing st" and "st2 = snd (snd (load_page f off n cst))"
    define c1 where "c1 = c\<lparr>cache_pages := (k, b) # cache_pages c, lru := lru c @ [k]\<rparr>"
    have eq: "snd (load_page f off n cst) = (evict c1, st2)" "maximum_pages c1 = maximum_pages c"
      using None by (simp_all add: cst load_page_def k_def [symmetric] c1_def b_def st2_def case_prod_beta Let_def)
    have st2: "next_backing st2 = next_backing st + 1"
      "backing_of st2 = (backing_of st)(b := (blank_backing (next_reservation_identity st))\<lparr>pb_file := Some f,
          pb_writeback := Some f, pb_offset := off, pb_count := n, pb_has_source := True\<rparr>)"
      using None by (simp_all add: st2_def cst load_page_def k_def [symmetric] b_def case_prod_beta Let_def)
    have fresh: "k \<notin> fst ` set (cache_pages c)" using None by (simp add: map_of_eq_None_iff)
    have d: "distinct (map fst (cache_pages c1))" "distinct (lru c1)" "set (lru c1) = fst ` set (cache_pages c1)"
      using assms fresh by (auto simp: c1_def cst cache_inv_def)
    have "b' < next_backing st2 \<and> made_for k' (backing_of st2 b')" if "(k', b') \<in> set (cache_pages c1)" for k' b'
    proof (cases "b' = b")
      case True
      then have "(k', b') \<notin> set (cache_pages c)" using assms by (force simp: cst cache_inv_def b_def)
      then have "k' = k" using that by (auto simp: c1_def)
      then show ?thesis using True by (simp add: st2 made_for_def b_def k_def)
    next
      case False
      then show ?thesis using that assms by (force simp: st2 c1_def cst cache_inv_def)
    qed
    then show ?thesis
      using evict_keeps [OF d] by (auto simp: eq cache_inv_def)
  qed
qed

lemma erase_path_inv: "cache_inv (c, st) \<Longrightarrow> cache_inv (erase_path path c, st)"
proof -
  assume inv: "cache_inv (c, st)"
  have "fst ` set (filter (\<lambda>e. k_path (fst e) \<noteq> path) (cache_pages c)) =
      {k \<in> fst ` set (cache_pages c). k_path k \<noteq> path}" by auto
  moreover have "length (filter (\<lambda>e. k_path (fst e) \<noteq> path) (cache_pages c)) \<le> n"
    if "length (cache_pages c) \<le> n" for n
    using that length_filter_le order_trans by blast
  ultimately show ?thesis
    using inv by (auto simp: cache_inv_def erase_path_def distinct_map_filter)
qed

lemma cache_inv_update [simp]:
  "cache_inv (c\<lparr>stats := x\<rparr>, st) = cache_inv (c, st)"
  "cache_inv (c\<lparr>identities := y\<rparr>, st) = cache_inv (c, st)"
  by (simp_all add: cache_inv_def)

lemma cache_inv_store:
  "cache_inv (c, st) \<Longrightarrow> next_backing st \<le> next_backing st' \<Longrightarrow>
   (\<And>b. b < next_backing st \<Longrightarrow> pb_writeback (backing_of st' b) = pb_writeback (backing_of st b) \<and>
     pb_offset (backing_of st' b) = pb_offset (backing_of st b) \<and>
     pb_count (backing_of st' b) = pb_count (backing_of st b)) \<Longrightarrow> cache_inv (c, st')"
  by (fastforce simp: cache_inv_def made_for_def split: option.splits)

lemma lookup_identity_inv: "cache_inv (c, st) \<Longrightarrow> cache_inv (snd (lookup_identity probe n g c), st)"
  by (simp add: lookup_identity_def Let_def erase_path_inv split: option.splits)

lemma open_mapping_inv:
  assumes "cache_inv cst"
  shows "cache_inv (snd (open_mapping probe path off n cst))"
proof -
  obtain c st where cst: "cst = (c, st)" by force
  have "cache_inv (snd (lookup_identity probe m g c), st')"
    if "backing_of st' = backing_of st" "next_backing st' = next_backing st" for m g st'
    by (rule cache_inv_store [OF lookup_identity_inv]) (use assms that in \<open>auto simp: cst\<close>)
  then show ?thesis
    using assms by (simp add: cst open_mapping_def Let_def case_prod_beta split: option.splits)
qed

lemma load_run_inv: "cache_inv cst \<Longrightarrow> cache_inv (snd (load_run f fin offs cst))"
proof (induction offs arbitrary: cst)
  case (Cons off offs)
  have "cache_inv (snd (load_page f off (min page_size (fin - off)) cst))"
    by (rule load_page_inv [OF Cons.prems])
  from Cons.IH [OF this] Cons.prems show ?case
    by (auto simp: case_prod_beta split: option.splits)
qed simp

lemma load_pages_inv: "cache_inv cst \<Longrightarrow> cache_inv (snd (load_pages probe path off n cst))"
  using open_mapping_inv [of cst probe path off n] load_run_inv
  by (auto simp: load_pages_def case_prod_beta split: option.splits)

lemma page_ops_inv:
  assumes "cache_inv (c, st)"
  shows "cache_inv (c, materialize pread b st)" "cache_inv (c, invalidate_reservation_identity b st)"
    "cache_inv (c, snd (enable_shared_write_tracking b st))" "cache_inv (c, mark_shared_write b st)"
  by (rule cache_inv_store [OF assms]; auto simp: materialize_def invalidate_reservation_identity_def
      enable_shared_write_tracking_def mark_shared_write_def Let_def case_prod_beta split: option.splits)+

lemma copy_backing_inv: "cache_inv (c, st) \<Longrightarrow> cache_inv (c, snd (copy_backing pread b st))"
  by (rule cache_inv_store [OF page_ops_inv(1) [of c st pread b]])
    (auto simp: copy_backing_def Let_def case_prod_beta)

datatype cache_event =
    Load_Page guest_file_backing nat nat
  | Load_Pages file_probe string nat nat
  | Open_Mapping file_probe string nat nat
  | Materialize nat
  | Copy_Page nat
  | Invalidate nat
  | Enable_Tracking nat
  | Mark_Write nat

fun cache_step :: "pread \<Rightarrow> file_page_cache \<times> page_store \<Rightarrow> cache_event \<Rightarrow> file_page_cache \<times> page_store" where
  "cache_step pread cst (Load_Page f off n) = snd (load_page f off n cst)"
| "cache_step pread cst (Load_Pages probe path off n) = snd (load_pages probe path off n cst)"
| "cache_step pread cst (Open_Mapping probe path off n) = snd (open_mapping probe path off n cst)"
| "cache_step pread (c, st) (Materialize b) = (c, materialize pread b st)"
| "cache_step pread (c, st) (Copy_Page b) = (c, snd (copy_backing pread b st))"
| "cache_step pread (c, st) (Invalidate b) = (c, invalidate_reservation_identity b st)"
| "cache_step pread (c, st) (Enable_Tracking b) = (c, snd (enable_shared_write_tracking b st))"
| "cache_step pread (c, st) (Mark_Write b) = (c, mark_shared_write b st)"

definition empty_store :: page_store where
  "empty_store = \<lparr>backing_of = (\<lambda>_. blank_backing 0), next_backing = 0,
     io_of = (\<lambda>_. \<lparr>io_descriptor = - 1, prefetched_pages = []\<rparr>), next_io = 0,
     tracking_epoch = 0, next_reservation_identity = 1\<rparr>"

interpretation cache: machine "(empty_cache limit, empty_store)" "cache_step pread" cache_inv for limit pread
proof (unfold_locales, goal_cases)
  case 1
  show ?case by (simp add: cache_inv_def empty_cache_def)
next
  case (2 cst e)
  then show ?case
    by (cases cst; cases e)
      (auto simp: load_page_inv load_pages_inv open_mapping_inv page_ops_inv copy_backing_inv)
qed

lemma load_page_result:
  assumes "cache_inv cst"
  shows "fst (load_page f off n cst) < next_backing (snd (snd (load_page f off n cst))) \<and>
    made_for (key_of f off n) (backing_of (snd (snd (load_page f off n cst))) (fst (load_page f off n cst)))"
proof -
  obtain c st where cst: "cst = (c, st)" by force
  show ?thesis
  proof (cases "map_of (cache_pages c) (key_of f off n)")
    case (Some b)
    then have "(key_of f off n, b) \<in> set (cache_pages c)" by (rule map_of_SomeD)
    then show ?thesis using assms Some by (auto simp: cst load_page_def cache_inv_def)
  qed (simp add: cst load_page_def case_prod_beta Let_def made_for_def)
qed

lemma load_page_again:
  assumes "cache_inv cst"
  shows "fst (load_page f off n (snd (load_page f off n cst))) = fst (load_page f off n cst)"
proof -
  obtain c st where cst: "cst = (c, st)" by force
  define k where "k = key_of f off n"
  show ?thesis
  proof (cases "map_of (cache_pages c) k")
    case (Some b)
    then show ?thesis by (simp add: cst load_page_def k_def [symmetric] touch_def)
  next
    case None
    define b where "b = next_backing st"
    have fresh: "k \<notin> fst ` set (cache_pages c)" using None by (simp add: map_of_eq_None_iff)
    have "map_of (fst (evict_loop (maximum_pages c) ((k, b) # cache_pages c) (lru c @ [k]))) k = Some b"
      if "maximum_pages c \<noteq> 0"
      by (rule evict_loop_young) (use assms fresh that in \<open>auto simp: cst cache_inv_def\<close>)
    then have "map_of (cache_pages (evict (c\<lparr>cache_pages := (k, b) # cache_pages c, lru := lru c @ [k]\<rparr>))) k = Some b"
      by (simp add: evict_def case_prod_beta Let_def)
    then show ?thesis
      using None by (simp add: cst load_page_def k_def [symmetric] b_def case_prod_beta Let_def)
  qed
qed

section \<open>Prefetching does not change what a page reads\<close>

text \<open>
  The contents a page of a mapping should have: the bytes of the file up to the end of the
  mapping, zero after it. All pieces of a split mapping share the file and its read-ahead;
  their ends are page boundaries inside the mapping or its own end.
\<close>

definition page_content :: "(nat \<Rightarrow> u8) \<Rightarrow> nat \<Rightarrow> nat \<Rightarrow> page_bytes" where
  "page_content file fin off = (\<lambda>i. if i < page_size \<and> off + i < fin then file (off + i) else 0)"

definition prefetch_ok :: "(nat \<Rightarrow> u8) \<Rightarrow> nat \<Rightarrow> guest_file_io_state \<Rightarrow> bool" where
  "prefetch_ok file fin io \<longleftrightarrow> (\<forall>o' pg. map_of (prefetched_pages io) o' = Some pg \<longrightarrow> pg = page_content file fin o')"

definition piece_of :: "nat \<Rightarrow> guest_file_backing \<Rightarrow> bool" where
  "piece_of fin f \<longleftrightarrow> first_offset f mod page_size = 0 \<and> end_offset f \<le> fin \<and>
     (end_offset f = fin \<or> end_offset f mod page_size = 0)"

text \<open>The host reads the file in full: what \<open>pread\<close> documents for a regular file with no
  signal or error, for ranges that end inside it.\<close>

definition reads_file :: "pread \<Rightarrow> int \<Rightarrow> (nat \<Rightarrow> u8) \<Rightarrow> nat \<Rightarrow> bool" where
  "reads_file pread d file len \<longleftrightarrow>
     (\<forall>off n. off + n \<le> len \<longrightarrow> pread d off n = map file [off..<off + n])"

lemma batch_page_content:
  assumes "batch = map file [start..<e]" "start \<le> e" "e = fin \<or> e mod page_size = 0"
    "start mod page_size = 0" "e \<le> fin" "start + index * page_size < e"
  shows "batch_page batch index = page_content file fin (start + index * page_size)"
proof (rule ext)
  fix i
  have "start + index * page_size + i < e \<longleftrightarrow> start + index * page_size + i < fin" if "i < page_size"
  proof (cases "e = fin")
    case False
    then have e: "e mod page_size = 0" using assms(3) by simp
    then obtain m where m: "e = page_size * m" by (metis mod_0_imp_dvd dvdE)
    obtain l where l: "start = page_size * l" using assms(4) by (metis mod_0_imp_dvd dvdE)
    have "page_size * (l + index) < page_size * m" using assms(6) m l by (simp add: algebra_simps)
    then have "page_size * (l + index + 1) \<le> page_size * m"
      by (metis Suc_eq_plus1 Suc_leI mult_le_mono2 mult_less_cancel1)
    then have "start + index * page_size + page_size \<le> e" using m l by (simp add: algebra_simps)
    then show ?thesis using that assms(5) by linarith
  qed simp
  moreover have "index * page_size + i < length batch \<longleftrightarrow> start + index * page_size + i < e"
    using assms(1,2) by auto
  ultimately show "batch_page batch index i = page_content file fin (start + index * page_size) i"
    by (auto simp: batch_page_def page_content_def assms(1) add.assoc)
qed

lemma distribute_ok:
  assumes content: "\<And>index. index \<in> set idx \<Longrightarrow> batch_page batch index = page_content file fin (start + index * page_size)"
    and pre: "\<forall>o' pg. map_of prefetched o' = Some pg \<longrightarrow> pg = page_content file fin o'"
  shows "map_of (snd (distribute batch received start off idx (bytes, prefetched))) o' = Some pg \<Longrightarrow>
      pg = page_content file fin o'"
    and "fst (distribute batch received start off idx (bytes, prefetched)) =
      (if \<exists>index\<in>set idx. start + index * page_size = off then page_content file fin off else bytes)"
proof -
  have "(\<forall>o' pg. map_of (snd (distribute batch received start off idx (bytes, prefetched))) o' = Some pg \<longrightarrow>
        pg = page_content file fin o') \<and>
      fst (distribute batch received start off idx (bytes, prefetched)) =
      (if \<exists>index\<in>set idx. start + index * page_size = off then page_content file fin off else bytes)"
    using assms
  proof (induction idx arbitrary: bytes prefetched)
    case (Cons index idx)
    define pf where "pf = (if start + index * page_size = off then prefetched
      else if received > index * page_size
        then om_emplace (start + index * page_size) (batch_page batch index) prefetched else prefetched)"
    define b1 where "b1 = (if start + index * page_size = off then batch_page batch index else bytes)"
    have step: "distribute batch received start off (index # idx) (bytes, prefetched) =
        distribute batch received start off idx (b1, pf)"
      by (simp add: pf_def b1_def Let_def)
    have here: "batch_page batch index = page_content file fin (start + index * page_size)"
      using Cons.prems(1) by simp
    have "\<forall>o' pg. map_of pf o' = Some pg \<longrightarrow> pg = page_content file fin o'"
      using Cons.prems(2) here by (simp add: pf_def)
    note IH = Cons.IH [OF Cons.prems(1) this, of b1]
    have "fst (distribute batch received start off idx (b1, pf)) =
        (if \<exists>index\<in>set idx. start + index * page_size = off then page_content file fin off else b1)"
      using IH by simp
    also have "\<dots> = (if \<exists>i\<in>set (index # idx). start + i * page_size = off then page_content file fin off else bytes)"
      using here by (auto simp: b1_def)
    finally show ?case using IH unfolding step by simp
  qed simp
  then show "map_of (snd (distribute batch received start off idx (bytes, prefetched))) o' = Some pg \<Longrightarrow>
      pg = page_content file fin o'"
    and "fst (distribute batch received start off idx (bytes, prefetched)) =
      (if \<exists>index\<in>set idx. start + index * page_size = off then page_content file fin off else bytes)"
    by blast+
qed

lemma page_multiple:
  assumes "a mod page_size = 0" "b mod page_size = 0" "a \<le> b"
  obtains i where "b = a + i * page_size"
proof -
  have "page_size dvd b - a" using assms by (simp add: dvd_diff_nat mod_0_imp_dvd)
  then obtain i where "b - a = page_size * i" by (rule dvdE)
  then have "b = a + i * page_size" using assms(3) by (simp add: algebra_simps)
  then show thesis by (rule that)
qed

lemma page_ceiling:
  "0 < n \<Longrightarrow> (n + page_size - 1) div page_size = (n - 1) div page_size + 1"
  "n \<le> (n + page_size - 1) div page_size * page_size"
  by (simp_all add: page_size_def)

lemma read_cluster_ok:
  assumes f: "piece_of fin f" "first_offset f \<le> off" "off < end_offset f" "off mod page_size = 0"
    and io: "prefetch_ok file fin io" "0 \<le> io_descriptor io"
    and host: "reads_file pread (io_descriptor io) file len" "fin \<le> len" "len \<le> 2 ^ 63"
  shows "fst (read_cluster pread f off io) = page_content file fin off"
    and "prefetch_ok file fin (snd (read_cluster pread f off io))"
proof -
  define start where "start = max (first_offset f) (off - off mod file_prefetch_bytes)"
  define size where "size = min (end_offset f - start) file_prefetch_bytes"
  define e where "e = start + size"
  define pages where "pages = (size + page_size - 1) div page_size"
  have ps: "page_size > 0" "file_prefetch_bytes mod page_size = 0" "file_prefetch_bytes > 0"
    by (simp_all add: page_size_def file_prefetch_bytes_def guest_file_prefetch_pages_def)
  have al: "(off - off mod file_prefetch_bytes) mod page_size = 0"
    using ps(2) by (metis minus_mod_eq_mult_div mod_mult_left_eq mod_mult_self1_is_0 mult_0 mod_0)
  have start: "start mod page_size = 0" "start \<le> off"
    using f al by (auto simp: start_def piece_of_def max_def)
  have "off < start + file_prefetch_bytes"
    using mod_less_divisor [OF ps(3), of off] by (auto simp: start_def max_def)
  then have off: "off < e" "e \<le> fin" "start \<le> e"
    using f start by (auto simp: e_def size_def piece_of_def)
  have e: "e = fin \<or> e mod page_size = 0"
    using f(1) start ps(2) off by (auto simp: e_def size_def piece_of_def min_def mod_add_eq [symmetric])
  define batch where "batch = map file [start..<e]"
  have read: "pread (io_descriptor io) start size = batch"
    using host off by (simp add: reads_file_def batch_def e_def)
  have size: "length batch = size" by (simp add: batch_def e_def)
  have pg: "start + index * page_size < e" if "index < pages" for index
  proof -
    have "index * page_size \<le> (pages - 1) * page_size" using that by auto
    also have "\<dots> < size"
    proof -
      have "0 < size" using off(1) start(2) by (simp add: e_def)
      then have "pages = (size - 1) div page_size + 1" unfolding pages_def by (rule page_ceiling)
      then have "(pages - 1) * page_size \<le> size - 1" by simp
      then show ?thesis using \<open>0 < size\<close> by linarith
    qed
    finally show ?thesis by (simp add: e_def)
  qed
  have content: "batch_page batch index = page_content file fin (start + index * page_size)"
    if "index \<in> set [0..<pages]" for index
    using that pg by (intro batch_page_content [OF batch_def off(3) e start(1) off(2)]) auto
  have cluster: "read_cluster pread f off io =
      (let (bytes, prefetched) = distribute batch size start off [0..<pages] (zero_page, prefetched_pages io)
       in (bytes, io\<lparr>prefetched_pages := prefetched\<rparr>))"
  proof -
    have "start \<le> 2 ^ 63 - 1" using off start(2) host(2,3) by linarith
    then show ?thesis
      using io(2) read size
      unfolding read_cluster_def Let_def start_def [symmetric]
      unfolding size_def [symmetric]
      unfolding pages_def [symmetric]
      by simp
  qed
  obtain i where i: "off = start + i * page_size" using page_multiple [OF start(1) f(4) start(2)] .
  have "i < pages"
  proof (rule ccontr)
    assume "\<not> i < pages"
    then have "pages * page_size \<le> i * page_size" by simp
    moreover have "size \<le> pages * page_size"
      unfolding pages_def by (rule page_ceiling)
    moreover have "i * page_size < size" using off(1) i by (simp add: e_def)
    ultimately show False by linarith
  qed
  then have "\<exists>index\<in>set [0..<pages]. start + index * page_size = off" using i by auto
  then show "fst (read_cluster pread f off io) = page_content file fin off"
    using distribute_ok(2) [of "[0..<pages]" batch "file" fin start "prefetched_pages io" size off zero_page]
      content io(1) by (simp add: cluster case_prod_beta Let_def prefetch_ok_def)
  have "\<forall>o' pg. map_of (prefetched_pages io) o' = Some pg \<longrightarrow> pg = page_content file fin o'"
    using io(1) by (simp add: prefetch_ok_def)
  note ok = distribute_ok(1) [OF content this]
  show "prefetch_ok file fin (snd (read_cluster pread f off io))"
    unfolding cluster prefetch_ok_def by (auto simp: case_prod_beta Let_def intro: ok)
qed

section \<open>Properties\<close>

text \<open>
  C13: The page cache. After any history of cache and page operations, loading a page gives a
  page that was made for the same file path, file generation, content hash, offset and byte
  count as asked for; the cache then holds at most its limit of pages (0 meaning no limit);
  and loading it once more gives the same physical page.
\<close>

theorem page_cache_history_correct:
  "let cst = foldl (cache_step pread) (empty_cache limit, empty_store) es;
       (page, cst') = load_page f off n cst
   in made_for (key_of f off n) (backing_of (snd cst') page) \<and>
      (maximum_pages (fst cst') = 0 \<or> cached_page_count (fst cst') \<le> maximum_pages (fst cst')) \<and>
      fst (load_page f off n cst') = page"
proof -
  have inv: "cache_inv (foldl (cache_step pread) (empty_cache limit, empty_store) es)"
    by (rule cache.run_inv)
  show ?thesis
    using load_page_result [OF inv] load_page_again [OF inv] load_page_inv [OF inv, of f off n]
    by (simp add: case_prod_beta Let_def cached_page_count_def cache_inv_def)
qed

text \<open>
  C14: Reading file pages in clusters changes nothing. Whatever was read ahead before, the first
  access to a file page fills it with the bytes of the file at its offset, zero past the end
  of the mapping, and the pages read ahead on the way are right as well.
\<close>

theorem materialize_reads_file:
  assumes "pb_has_source (backing_of st b)" "pb_file (backing_of st b) = Some f"
    and "piece_of fin f" "first_offset f \<le> pb_offset (backing_of st b)"
      "pb_offset (backing_of st b) < end_offset f" "pb_offset (backing_of st b) mod page_size = 0"
    and "prefetch_ok file fin (io_of st (fb_io f))" "0 \<le> io_descriptor (io_of st (fb_io f))"
    and "reads_file pread (io_descriptor (io_of st (fb_io f))) file len" "fin \<le> len" "len \<le> 2 ^ 63"
  shows "let st' = materialize pread b st in
    pb_bytes (backing_of st' b) = page_content file fin (pb_offset (backing_of st b)) \<and>
    pb_file (backing_of st' b) = None \<and> prefetch_ok file fin (io_of st' (fb_io f))"
proof (cases "map_of (prefetched_pages (io_of st (fb_io f))) (pb_offset (backing_of st b))")
  case None
  then show ?thesis
    using assms(1,2) read_cluster_ok [OF assms(3-11)]
    by (simp add: materialize_def Let_def case_prod_beta)
next
  case (Some pg)
  then show ?thesis
    using assms(1,2,7) by (simp add: materialize_def Let_def prefetch_ok_def)
qed

definition sample_mapping :: guest_file_backing where
  "sample_mapping = \<lparr>fb_path = ''/a'', fb_cache_path = ''/a'', fb_file_size = 5000,
     fb_generation = \<lparr>device = 1, inode = 2, gen_file_size = 5000, modified_seconds = 0, modified_nanoseconds = 0,
        changed_seconds = 0, changed_nanoseconds = 0\<rparr>,
     fb_identity = [7], fb_io = 0, first_offset = 0, end_offset = 5000\<rparr>"

definition sample_store :: page_store where
  "sample_store = snd (snd (load_page sample_mapping 4096 904 (empty_cache 0,
     empty_store\<lparr>io_of := (\<lambda>_. \<lparr>io_descriptor = 3, prefetched_pages = []\<rparr>)\<rparr>)))"

theorem materialize_reads_file_witness:
  "pb_bytes (backing_of (materialize (\<lambda>_ off n. map (\<lambda>i. of_nat i) [off..<off + n]) 0 sample_store) 0) 903 =
     of_nat (4096 + 903) \<and>
   pb_bytes (backing_of (materialize (\<lambda>_ off n. map (\<lambda>i. of_nat i) [off..<off + n]) 0 sample_store) 0) 904 = 0"
proof -
  have st: "backing_of sample_store 0 = (blank_backing 1)\<lparr>pb_file := Some sample_mapping,
      pb_writeback := Some sample_mapping, pb_offset := 4096, pb_count := 904, pb_has_source := True\<rparr>"
    "io_of sample_store = (\<lambda>_. \<lparr>io_descriptor = 3, prefetched_pages = []\<rparr>)"
    by (simp_all add: sample_store_def load_page_def empty_cache_def empty_store_def new_backing_def
        set_backing_def case_prod_beta Let_def)
  have "let st' = materialize (\<lambda>_ off n. map (\<lambda>i. of_nat i) [off..<off + n]) 0 sample_store in
    pb_bytes (backing_of st' 0) = page_content (\<lambda>i. of_nat i) 5000 (pb_offset (backing_of sample_store 0)) \<and>
    pb_file (backing_of st' 0) = None \<and> prefetch_ok (\<lambda>i. of_nat i) 5000 (io_of st' (fb_io sample_mapping))"
    by (rule materialize_reads_file [where len = 5000])
      (simp_all add: st sample_mapping_def piece_of_def page_size_def prefetch_ok_def reads_file_def)
  then show ?thesis by (simp add: st page_content_def page_size_def Let_def)
qed

text \<open>The pages a load returns, each made for its own offset and byte count.\<close>

lemma load_page_keeps:
  "b < next_backing (snd cst) \<Longrightarrow> b < next_backing (snd (snd (load_page f off n cst))) \<and>
     backing_of (snd (snd (load_page f off n cst))) b = backing_of (snd cst) b"
  by (simp add: load_page_def case_prod_beta Let_def split: option.split)

lemma load_run_result:
  assumes "cache_inv cst" "load_run f fin offs cst = (Some pages, cst')"
  shows "list_all2 (\<lambda>off b. made_for (key_of f off (min page_size (fin - off))) (backing_of (snd cst') b)) offs pages \<and>
    (\<forall>b < next_backing (snd cst). backing_of (snd cst') b = backing_of (snd cst) b)"
  using assms
proof (induction offs arbitrary: cst pages)
  case (Cons off offs)
  define n where "n = min page_size (fin - off)"
  obtain b cst1 where b: "load_page f off n cst = (b, cst1)" by (metis prod.collapse)
  have inv: "cache_inv cst1" using load_page_inv [OF Cons.prems(1), of f off n] b by simp
  have made: "b < next_backing (snd cst1)" "made_for (key_of f off n) (backing_of (snd cst1) b)"
    using load_page_result [OF Cons.prems(1), of f off n] b by simp_all
  obtain rest where rest: "load_run f fin offs cst1 = (Some rest, cst')" "pages = b # rest"
    using Cons.prems(2) b by (auto simp: n_def [symmetric] split: if_splits option.splits prod.splits)
  note ih = Cons.IH [OF inv rest(1)]
  have "backing_of (snd cst') b' = backing_of (snd cst) b'" if "b' < next_backing (snd cst)" for b'
    using load_page_keeps [OF that, of f off n] b ih by simp
  then show ?case using ih made by (simp add: rest(2) n_def)
qed simp

lemma materialize_descriptor:
  "io_descriptor (io_of (materialize pread b st) i) = io_descriptor (io_of st i)"
  "pb_writeback (backing_of (materialize pread b st) b) = pb_writeback (backing_of st b)"
  "pb_offset (backing_of (materialize pread b st) b) = pb_offset (backing_of st b)"
  "pb_count (backing_of (materialize pread b st) b) = pb_count (backing_of st b)"
  by (simp_all add: materialize_def read_cluster_def Let_def case_prod_beta split: option.splits)

lemma open_mapping_of:
  assumes "probe_stat probe = Some (regular, len, generation)" "open_mapping probe path off n cst = (Some f, cst')"
  shows "fb_cache_path f = probe_path probe" "fb_generation f = generation" "n \<noteq> 0"
  using assms by (auto simp: open_mapping_def Let_def case_prod_beta split: if_splits option.splits)

text \<open>
  C15: A shared mapping that reaches past the end of its file. In every reachable cache, when pages are
  loaded for a mapping that is longer than what the file has from its offset on, then the last page
  is written back, if its file is open, up to the end of the mapping: the write ends past the
  last byte of the file, which becomes that much longer.
\<close>

theorem shared_mapping_writes_past_end:
  assumes "load_pages probe path off n (foldl (cache_step pread) (empty_cache limit, empty_store) es) = (Some pages, c', st')"
    and "probe_stat probe = Some (regular, int len, generation)" "len < off + n"
  shows "\<exists>f. pb_writeback (backing_of st' (last pages)) = Some f \<and> fb_cache_path f = probe_path probe \<and> fb_generation f = generation \<and>
    (0 \<le> io_descriptor (io_of st' (fb_io f)) \<longrightarrow>
       (\<exists>start bytes. flush_file (last pages) (materialize pread' (last pages) st') = Some (io_descriptor (io_of st' (fb_io f)), start, bytes) \<and>
          start + length bytes = off + n \<and> len < start + length bytes))"
proof -
  define cst where "cst = foldl (cache_step pread) (empty_cache limit, empty_store) es"
  define k where "k = (n + page_size - 1) div page_size"
  define offs where "offs = map (\<lambda>i. off + i * page_size) [0..<k]"
  have inv: "cache_inv cst" unfolding cst_def by (rule cache.run_inv)
  obtain f cst1 where f: "open_mapping probe path off n cst = (Some f, cst1)" "load_run f (off + n) offs cst1 = (Some pages, c', st')"
    using assms(1) by (auto simp: load_pages_def cst_def [symmetric] offs_def k_def split: option.splits prod.splits)
  note o = open_mapping_of [OF assms(2) f(1)]
  have inv1: "cache_inv cst1" using open_mapping_inv [OF inv, of probe path off n] f(1) by simp
  have all: "list_all2 (\<lambda>off' b. made_for (key_of f off' (min page_size (off + n - off'))) (backing_of st' b)) offs pages"
    using load_run_result [OF inv1 f(2)] by simp
  have k: "0 < k" "(k - 1) * page_size < n" "n \<le> (k - 1) * page_size + page_size"
  proof -
    have p: "0 < page_size" by (simp add: page_size_def)
    define q where "q = (n - 1) div page_size"
    have n: "n = q * page_size + (n - 1) mod page_size + 1" using o(3) div_mult_mod_eq [of "n - 1" page_size] unfolding q_def by linarith
    have r: "(n - 1) mod page_size < page_size" by (rule mod_less_divisor [OF p])
    have kq: "k = Suc q"
    proof -
      have eq: "n + page_size - 1 = (n - 1) + page_size" using o(3) by simp
      show ?thesis unfolding k_def eq q_def using div_add_self2 [of page_size "n - 1"] p by simp
    qed
    have km: "(k - 1) * page_size = q * page_size" by (simp add: kq)
    show "0 < k" by (simp add: kq)
    show "(k - 1) * page_size < n" "n \<le> (k - 1) * page_size + page_size" using n r unfolding km by linarith+
  qed
  define start where "start = off + (k - 1) * page_size"
  have ne: "offs \<noteq> []" "last offs = start" using k(1) by (simp_all add: offs_def start_def last_map)
  have len: "length pages = length offs" using all by (simp add: list_all2_lengthD)
  then have "made_for (key_of f (last offs) (min page_size (off + n - last offs))) (backing_of st' (last pages))"
    using list_all2_nthD [OF all, of "length offs - 1"] ne(1) by (simp add: last_conv_nth flip: length_greater_0_conv)
  moreover have "min page_size (off + n - start) = off + n - start"
    using k(3) unfolding start_def by linarith
  ultimately have m: "made_for (key_of f start (off + n - start)) (backing_of st' (last pages))" by (simp only: ne(2))
  then obtain g where g: "pb_writeback (backing_of st' (last pages)) = Some g" "fb_cache_path g = fb_cache_path f"
    "fb_generation g = fb_generation f" "pb_offset (backing_of st' (last pages)) = start" "pb_count (backing_of st' (last pages)) = off + n - start"
    by (auto simp: made_for_def key_of_def split: option.splits)
  have "start + (off + n - start) = off + n" using k by (simp add: start_def)
  then show ?thesis
    using g o(1,2) assms(3) by (simp add: flush_file_def materialize_descriptor Let_def)
qed

definition short_probe :: file_probe where
  "short_probe = \<lparr>probe_descriptor = 3, probe_stat = Some (True, 100, fb_generation sample_mapping),
     probe_sha = Some [7], probe_final = Some (fb_generation sample_mapping), probe_path = ''/a''\<rparr>"

theorem shared_mapping_writes_past_end_witness:
  "\<exists>bytes. flush_file 0 (materialize (\<lambda>_ _ _. replicate 100 65) 0 (snd (snd (load_pages short_probe ''/a'' 0 4096 (empty_cache 0, empty_store))))) =
     Some (3, 0, bytes) \<and> length bytes = 4096"
proof -
  have load: "load_pages short_probe ''/a'' 0 4096 (empty_cache 0, empty_store) = (Some [0], snd (load_pages short_probe ''/a'' 0 4096 (empty_cache 0, empty_store)))"
    "map_option fb_io (pb_writeback (backing_of (snd (snd (load_pages short_probe ''/a'' 0 4096 (empty_cache 0, empty_store)))) 0)) = Some 0"
    "io_descriptor (io_of (snd (snd (load_pages short_probe ''/a'' 0 4096 (empty_cache 0, empty_store)))) 0) = 3"
    "pb_offset (backing_of (snd (snd (load_pages short_probe ''/a'' 0 4096 (empty_cache 0, empty_store)))) 0) = 0"
    by (simp_all add: load_pages_def open_mapping_def lookup_identity_def short_probe_def empty_cache_def empty_store_def
      page_size_def load_page_def key_of_def new_backing_def set_backing_def evict_def blank_backing_def case_prod_beta Let_def)
  obtain c' st' where r: "load_pages short_probe ''/a'' 0 4096 (empty_cache 0, empty_store) = (Some [0], c', st')"
    using load(1) by (metis prod.collapse)
  have run: "load_pages short_probe ''/a'' 0 4096 (foldl (cache_step (\<lambda>_ _ _. [])) (empty_cache 0, empty_store) []) = (Some [0], c', st')"
    using r by simp
  have stat: "probe_stat short_probe = Some (True, int 100, fb_generation sample_mapping)" by (simp add: short_probe_def)
  show ?thesis
    using shared_mapping_writes_past_end [OF run stat, of "\<lambda>_ _ _. replicate 100 65"] load(2-4)
    by (auto simp: r flush_file_def materialize_descriptor)
qed

end
