(* ===== verification/Address_Space.thy ===== *)
theory Address_Space
  imports Vm_Map File_Page_Cache
begin

text \<open>
  Guest address spaces (\<open>include/ilemu/address_space.hpp\<close>,
  \<open>src/foundation/address_space.cpp\<close>): the state and the operations on pages. Forked spaces
  share page maps, permission chunks and physical pages through \<open>shared_ptr\<close>, and
  \<open>unique()\<close> decides when a copy is made; so the model is a heap of all of them, a
  \<open>shared_ptr\<close> is the number of its object, and \<open>unique()\<close> counts the references from live
  spaces, their caches and the holders outside (named memory objects and the like). A space is
  given by its number. Addresses and sizes are naturals under the guards of the code; locks and
  performance counters are left out.
\<close>

section \<open>State\<close>

record page =
  pg_backing :: "nat option"
  pg_generation :: u64
  file_cached :: bool
  shared_writable :: bool
  file_writeback_capable :: bool
  file_writeback :: bool
  copy_on_write_possible :: bool

definition blank_page :: page where
  "blank_page = \<lparr>pg_backing = None, pg_generation = 0, file_cached = False, shared_writable = False,
     file_writeback_capable = False, file_writeback = False, copy_on_write_possible = False\<rparr>"

record file_mapping =
  fm_end :: nat
  fm_offset :: nat
  fm_backing :: guest_file_backing

record tracked_range =
  tr_begin :: nat
  tr_end :: nat

record mapping_lease =
  ml_begin :: nat
  ml_end :: nat

type_synonym page_pointer = "nat \<times> nat"

record guest_space =
  vm_regions :: vm_map
  translation_profile_map :: vm_map
  pages_ref :: nat
  file_mappings :: "(nat, file_mapping) omap"
  page_lookup :: "nat \<Rightarrow> (nat \<Rightarrow> page_pointer option) option"
  page_permissions :: "nat \<Rightarrow> nat option"
  jit_read :: "(nat \<Rightarrow> nat option) option"
  jit_write :: "(nat \<Rightarrow> nat option) option"
  direct_jit_write_pages :: "nat set"
  jit_page_table_enabled :: bool
  jit_write_page_table_enabled :: bool
  exclusive_write_tracked_pages :: "nat set"
  observed_epoch :: u64
  tracked_write_ranges :: "tracked_range list"
  write_generation :: u64
  mapping_leases :: "(u64, mapping_lease) omap"
  next_mapping_lease_token :: u64
  cache_ref :: nat
  parallel_access :: bool
  has_observer :: bool

record memory_world =
  live :: "nat list"
  space_of :: "nat \<Rightarrow> guest_space"
  next_space :: nat
  page_map_of :: "nat \<Rightarrow> (nat, page) omap"
  next_page_map :: nat
  chunk_of :: "nat \<Rightarrow> nat \<Rightarrow> u8"
  next_chunk :: nat
  cache_of :: "nat \<Rightarrow> file_page_cache"
  next_cache :: nat
  store :: page_store
  held :: "nat list"
  disk_writes :: "(int \<times> nat \<times> u8 list) list"
  notifications :: nat

definition set_space :: "nat \<Rightarrow> guest_space \<Rightarrow> memory_world \<Rightarrow> memory_world" where
  "set_space s sp w = w\<lparr>space_of := (space_of w)(s := sp)\<rparr>"

definition pages_of :: "nat \<Rightarrow> memory_world \<Rightarrow> (nat, page) omap" where
  "pages_of s w = page_map_of w (pages_ref (space_of w s))"

definition set_pages :: "nat \<Rightarrow> (nat, page) omap \<Rightarrow> memory_world \<Rightarrow> memory_world" where
  "set_pages s m w = w\<lparr>page_map_of := (page_map_of w)(pages_ref (space_of w s) := m)\<rparr>"

definition set_page :: "nat \<Rightarrow> nat \<Rightarrow> page \<Rightarrow> memory_world \<Rightarrow> memory_world" where
  "set_page s base pg w = set_pages s (om_put base pg (pages_of s w)) w"

section \<open>Addresses and reference counts\<close>

definition page_base :: "nat \<Rightarrow> nat" where
  "page_base address = address - address mod page_size"

definition range_overflows :: "nat \<Rightarrow> nat \<Rightarrow> bool" where
  "range_overflows address bytes \<longleftrightarrow> (if bytes = 0 then False else bytes - 1 > u32_max - address)"

definition page_range_end :: "nat \<Rightarrow> nat \<Rightarrow> nat" where
  "page_range_end address bytes = page_base (address + (bytes - 1)) + page_size"

text \<open>The loop \<open>for (base = first; base < end; base += page_size)\<close>.\<close>

definition page_bases :: "nat \<Rightarrow> nat \<Rightarrow> nat list" where
  "page_bases first fin = map (\<lambda>i. first + i * page_size) [0..<(fin - first + page_size - 1) div page_size]"

definition page_map_unique :: "nat \<Rightarrow> memory_world \<Rightarrow> bool" where
  "page_map_unique m w \<longleftrightarrow> length (filter (\<lambda>s. pages_ref (space_of w s) = m) (live w)) = 1"

definition backing_refs :: "nat \<Rightarrow> memory_world \<Rightarrow> nat" where
  "backing_refs b w =
     sum_list (map (\<lambda>m. length (filter (\<lambda>e. pg_backing (snd e) = Some b) (page_map_of w m)))
       (remdups (map (\<lambda>s. pages_ref (space_of w s)) (live w)))) +
     sum_list (map (\<lambda>c. length (filter (\<lambda>e. snd e = b) (cache_pages (cache_of w c))))
       (remdups (map (\<lambda>s. cache_ref (space_of w s)) (live w)))) +
     count_list (held w) b"

definition backing_unique :: "nat \<Rightarrow> memory_world \<Rightarrow> bool" where
  "backing_unique b w \<longleftrightarrow> backing_refs b w = 1"

definition page_permission_chunk_size :: nat where "page_permission_chunk_size = 4096"
definition page_permission_chunk_count :: nat where "page_permission_chunk_count = 256"
definition page_lookup_chunk_size :: nat where "page_lookup_chunk_size = 1024"

definition chunk_unique :: "nat \<Rightarrow> memory_world \<Rightarrow> bool" where
  "chunk_unique c w \<longleftrightarrow>
     sum_list (map (\<lambda>s. length (filter (\<lambda>i. page_permissions (space_of w s) i = Some c)
       [0..<page_permission_chunk_count])) (live w)) = 1"

section \<open>The page lookup table\<close>

definition find_page :: "nat \<Rightarrow> nat \<Rightarrow> memory_world \<Rightarrow> page option" where
  "find_page s address w =
     (let index = address div page_size in
      case page_lookup (space_of w s) (index div page_lookup_chunk_size) of
        None \<Rightarrow> None
      | Some chunk \<Rightarrow>
          (case chunk (index mod page_lookup_chunk_size) of
             None \<Rightarrow> None
           | Some (m, key) \<Rightarrow> map_of (page_map_of w m) key))"

definition lookup_cache :: "nat \<Rightarrow> nat \<Rightarrow> guest_space \<Rightarrow> guest_space" where
  "lookup_cache address m sp =
     (let index = address div page_size; i = index div page_lookup_chunk_size;
          chunk = (case page_lookup sp i of None \<Rightarrow> (\<lambda>_. None) | Some chunk \<Rightarrow> chunk)
      in sp\<lparr>page_lookup := (page_lookup sp)(i := Some (chunk(index mod page_lookup_chunk_size := Some (m, address))))\<rparr>)"

definition cache_page :: "nat \<Rightarrow> nat \<Rightarrow> memory_world \<Rightarrow> memory_world" where
  "cache_page s address w =
     set_space s (lookup_cache address (pages_ref (space_of w s)) (space_of w s)) w"

definition uncache_page :: "nat \<Rightarrow> nat \<Rightarrow> memory_world \<Rightarrow> memory_world" where
  "uncache_page s address w =
     (let sp = space_of w s; index = address div page_size; i = index div page_lookup_chunk_size in
      case page_lookup sp i of
        None \<Rightarrow> w
      | Some chunk \<Rightarrow>
          set_space s (sp\<lparr>page_lookup := (page_lookup sp)(i := Some (chunk(index mod page_lookup_chunk_size := None)))\<rparr>) w)"

definition rebuild_page_lookup :: "nat \<Rightarrow> memory_world \<Rightarrow> memory_world" where
  "rebuild_page_lookup s w =
     fold (\<lambda>e. cache_page s (fst e)) (pages_of s w)
       (set_space s ((space_of w s)\<lparr>page_lookup := (\<lambda>_. None)\<rparr>) w)"

definition ensure_unique_page_map :: "nat \<Rightarrow> memory_world \<Rightarrow> memory_world" where
  "ensure_unique_page_map s w =
     (if page_map_unique (pages_ref (space_of w s)) w then w
      else
        let m = next_page_map w;
            w1 = w\<lparr>page_map_of := (page_map_of w)(m := pages_of s w), next_page_map := m + 1\<rparr>
        in rebuild_page_lookup s (set_space s ((space_of w1 s)\<lparr>pages_ref := m\<rparr>) w1))"

section \<open>The permission index\<close>

definition mapped_page_flag :: u8 where
  "mapped_page_flag = 0x80"

definition page_permission :: "nat \<Rightarrow> nat \<Rightarrow> memory_world \<Rightarrow> u8" where
  "page_permission s page_index w =
     (case page_permissions (space_of w s) (page_index div page_permission_chunk_size) of
        None \<Rightarrow> 0
      | Some c \<Rightarrow> chunk_of w c (page_index mod page_permission_chunk_size))"

text \<open>The number of the chunk that may be written, in the world where the space has it.\<close>

definition writable_page_permission_chunk :: "nat \<Rightarrow> nat \<Rightarrow> memory_world \<Rightarrow> nat \<times> memory_world" where
  "writable_page_permission_chunk s page_index w =
     (let i = page_index div page_permission_chunk_size; sp = space_of w s; c = next_chunk w;
          fresh = (\<lambda>content. (c, set_space s (sp\<lparr>page_permissions := (page_permissions sp)(i := Some c)\<rparr>)
            (w\<lparr>chunk_of := (chunk_of w)(c := content), next_chunk := c + 1\<rparr>)))
      in case page_permissions sp i of
           None \<Rightarrow> fresh (\<lambda>_. 0)
         | Some old \<Rightarrow> if \<not> chunk_unique old w then fresh (chunk_of w old) else (old, w))"

definition put_permission :: "nat \<Rightarrow> nat \<Rightarrow> (u8 \<Rightarrow> u8) \<Rightarrow> memory_world \<Rightarrow> memory_world" where
  "put_permission s page_index f w =
     (let (c, w1) = writable_page_permission_chunk s page_index w; j = page_index mod page_permission_chunk_size
      in w1\<lparr>chunk_of := (chunk_of w1)(c := (chunk_of w1 c)(j := f (chunk_of w1 c j)))\<rparr>)"

definition add_page_permissions :: "nat \<Rightarrow> nat \<Rightarrow> nat \<Rightarrow> perm \<Rightarrow> memory_world \<Rightarrow> memory_world" where
  "add_page_permissions s address fin permissions w =
     fold (\<lambda>base. put_permission s (base div page_size) (\<lambda>flags. flags OR (mapped_page_flag OR permissions)))
       (page_bases address fin) w"

definition set_page_permissions :: "nat \<Rightarrow> nat \<Rightarrow> nat \<Rightarrow> perm \<Rightarrow> memory_world \<Rightarrow> memory_world" where
  "set_page_permissions s address fin permissions w =
     fold (\<lambda>base. put_permission s (base div page_size) (\<lambda>_. mapped_page_flag OR permissions))
       (page_bases address fin) w"

definition clear_page_permissions :: "nat \<Rightarrow> nat \<Rightarrow> nat \<Rightarrow> memory_world \<Rightarrow> memory_world" where
  "clear_page_permissions s address fin w =
     fold (\<lambda>base w.
         if page_permissions (space_of w s) (base div page_size div page_permission_chunk_size) = None then w
         else put_permission s (base div page_size) (\<lambda>_. 0) w)
       (page_bases address fin) w"

definition range_accessible :: "nat \<Rightarrow> nat \<Rightarrow> nat \<Rightarrow> perm \<Rightarrow> memory_world \<Rightarrow> bool" where
  "range_accessible s address bytes access w \<longleftrightarrow>
     (if range_overflows address bytes then False
      else if bytes = 0 then True
      else list_all (\<lambda>base. let flags = page_permission s (base div page_size) w in
             flags AND mapped_page_flag \<noteq> 0 \<and> flags AND access = access)
           (page_bases (page_base address) (page_range_end address bytes)))"

section \<open>Write tracking and the direct tables of the recompiler\<close>

definition tracks_write :: "nat \<Rightarrow> nat \<Rightarrow> nat \<Rightarrow> memory_world \<Rightarrow> bool" where
  "tracks_write s address bytes w \<longleftrightarrow>
     (if tracked_write_ranges (space_of w s) = [] \<or> bytes = 0 then False
      else list_ex (\<lambda>r. address < tr_end r \<and> tr_begin r < address + bytes) (tracked_write_ranges (space_of w s)))"

definition direct_write_allowed :: "nat \<Rightarrow> nat \<Rightarrow> memory_world \<Rightarrow> nat option" where
  "direct_write_allowed s base w =
     (let sp = space_of w s; flags = page_permission s (base div page_size) w;
          required = mapped_page_flag OR (perm_read OR perm_write) in
      if \<not> jit_write_page_table_enabled sp \<or> flags AND required \<noteq> required \<or> tracks_write s base page_size w
      then None
      else case find_page s base w of
        None \<Rightarrow> None
      | Some pg \<Rightarrow>
          (case pg_backing pg of
             None \<Rightarrow> None
           | Some b \<Rightarrow>
               if pb_tracking (backing_of (store w) b) \<or> file_cached pg \<or> shared_writable pg \<or>
                  (copy_on_write_possible pg \<and> \<not> shared_writable pg) \<or>
                  base \<in> exclusive_write_tracked_pages sp
               then None else Some b))"

definition direct_read_allowed :: "nat \<Rightarrow> nat \<Rightarrow> memory_world \<Rightarrow> nat option" where
  "direct_read_allowed s base w =
     (let flags = page_permission s (base div page_size) w; required = mapped_page_flag OR perm_read in
      if flags AND required = required
      then (case find_page s base w of None \<Rightarrow> None | Some pg \<Rightarrow> pg_backing pg) else None)"

definition refresh_jit_page :: "nat \<Rightarrow> nat \<Rightarrow> memory_world \<Rightarrow> memory_world" where
  "refresh_jit_page s address w =
     (let sp = space_of w s; base = page_base address; i = base div page_size in
      if jit_read sp = None \<and> jit_write sp = None then w
      else
        let had = (case jit_write sp of None \<Rightarrow> False | Some t \<Rightarrow> t i \<noteq> None);
            sp1 = sp\<lparr>jit_read := map_option (\<lambda>t. t(i := None)) (jit_read sp),
                     jit_write := map_option (\<lambda>t. t(i := None)) (jit_write sp),
                     direct_jit_write_pages := (if had then direct_jit_write_pages sp - {base} else direct_jit_write_pages sp)\<rparr>
        in if \<not> jit_page_table_enabled sp then set_space s sp1 w
           else
             let sp2 = (case direct_read_allowed s base w of None \<Rightarrow> sp1
                        | Some b \<Rightarrow> sp1\<lparr>jit_read := map_option (\<lambda>t. t(i \<mapsto> b)) (jit_read sp1)\<rparr>)
             in set_space s
                  (case (jit_write sp2, direct_write_allowed s base w) of
                     (Some t, Some b) \<Rightarrow>
                       sp2\<lparr>jit_write := Some (t(i \<mapsto> b)), direct_jit_write_pages := insert base (direct_jit_write_pages sp2)\<rparr>
                   | _ \<Rightarrow> sp2) w)"

definition refresh_jit_page_range :: "nat \<Rightarrow> nat \<Rightarrow> nat \<Rightarrow> memory_world \<Rightarrow> memory_world" where
  "refresh_jit_page_range s address fin w =
     (if (jit_read (space_of w s) = None \<and> jit_write (space_of w s) = None) \<or> fin \<le> address then w
      else fold (refresh_jit_page s) (page_bases (page_base address) fin) w)"

definition invalidate_shared_write_jit_pages :: "nat \<Rightarrow> memory_world \<Rightarrow> memory_world" where
  "invalidate_shared_write_jit_pages s w =
     (let sp = space_of w s in
      case jit_write sp of
        None \<Rightarrow> w
      | Some t \<Rightarrow>
          let stale = {a \<in> direct_jit_write_pages sp.
                case find_page s a w of None \<Rightarrow> False
                | Some pg \<Rightarrow> (case pg_backing pg of None \<Rightarrow> False | Some b \<Rightarrow> pb_tracking (backing_of (store w) b))}
          in set_space s (sp\<lparr>jit_write := Some (\<lambda>i. if i \<in> (\<lambda>a. a div page_size) ` stale then None else t i),
               direct_jit_write_pages := direct_jit_write_pages sp - stale\<rparr>) w)"

definition finish_shared_write_tracking :: "nat \<Rightarrow> u64 \<Rightarrow> nat \<Rightarrow> bool \<Rightarrow> memory_world \<Rightarrow> memory_world" where
  "finish_shared_write_tracking s initial_epoch local_transitions backing_may_have_aliases w =
     (let observed = tracking_epoch (store w);
          w1 = (if backing_may_have_aliases \<or> observed \<noteq> initial_epoch + of_nat local_transitions
                then invalidate_shared_write_jit_pages s w else w)
      in set_space s ((space_of w1 s)\<lparr>observed_epoch := observed\<rparr>) w1)"

definition clear_jit_page_table :: "guest_space \<Rightarrow> guest_space" where
  "clear_jit_page_table sp =
     sp\<lparr>jit_read := map_option (\<lambda>_ _. None) (jit_read sp), jit_write := map_option (\<lambda>_ _. None) (jit_write sp),
        direct_jit_write_pages := {}\<rparr>"

section \<open>Faulting pages in\<close>

definition find_file_mapping :: "nat \<Rightarrow> nat \<Rightarrow> memory_world \<Rightarrow> (nat \<times> file_mapping) option" where
  "find_file_mapping s address w =
     (case rev (om_before_upper address (file_mappings (space_of w s))) of
        [] \<Rightarrow> None
      | (start, m) # _ \<Rightarrow> if address < fm_end m then Some (start, m) else None)"

definition load_backing :: "pread \<Rightarrow> nat \<Rightarrow> guest_file_backing \<Rightarrow> nat \<Rightarrow> nat \<Rightarrow> memory_world \<Rightarrow> nat \<times> memory_world" where
  "load_backing pread s f file_offset byte_count w =
     (let c = cache_ref (space_of w s);
          (b, cache, st) = load_page f file_offset byte_count (cache_of w c, store w)
      in (b, w\<lparr>cache_of := (cache_of w)(c := cache), store := materialize pread b st\<rparr>))"

definition ensure_page :: "pread \<Rightarrow> nat \<Rightarrow> nat \<Rightarrow> memory_world \<Rightarrow> memory_world" where
  "ensure_page pread s address w0 =
     (let w = ensure_unique_page_map s w0; base = page_base address;
          found = map_of (pages_of s w) base;
          pg = (case found of None \<Rightarrow> blank_page | Some pg \<Rightarrow> pg);
          w1 = set_page s base pg w;
          w2 = (if pg_backing pg \<noteq> None then w1
                else case find_file_mapping s base w1 of
                  None \<Rightarrow> w1
                | Some (start, m) \<Rightarrow>
                    let file_offset = fm_offset m + (base - start);
                        byte_count = min page_size (end_offset (fm_backing m) - file_offset);
                        (b, w') = load_backing pread s (fm_backing m) file_offset byte_count w1
                    in set_page s base (pg\<lparr>pg_backing := Some b, file_cached := True, copy_on_write_possible := True\<rparr>) w')
      in if found = None then cache_page s base w2 else w2)"

definition range_needs_file_fault :: "nat \<Rightarrow> nat \<Rightarrow> nat \<Rightarrow> memory_world \<Rightarrow> bool" where
  "range_needs_file_fault s address bytes w \<longleftrightarrow>
     (if bytes = 0 \<or> range_overflows address bytes then False
      else list_ex (\<lambda>base.
             (case find_page s base w of None \<Rightarrow> True | Some pg \<Rightarrow> pg_backing pg = None) \<and>
             find_file_mapping s base w \<noteq> None)
           (page_bases (page_base address) (page_range_end address bytes)))"

text \<open>One page of a cluster: made resident if it is not.\<close>

definition fault_cluster_page :: "pread \<Rightarrow> nat \<Rightarrow> guest_file_backing \<Rightarrow> nat \<Rightarrow> nat \<times> nat \<Rightarrow> memory_world \<Rightarrow> memory_world" where
  "fault_cluster_page pread s f cluster_file_end fg w =
     (let (file_page, guest_base) = fg;
          found = map_of (pages_of s w) guest_base;
          pg = (case found of None \<Rightarrow> blank_page | Some pg \<Rightarrow> pg);
          w1 = set_page s guest_base pg w;
          w2 = (if pg_backing pg \<noteq> None then w1
                else let (b, w') = load_backing pread s f file_page (min page_size (cluster_file_end - file_page)) w1
                     in set_page s guest_base (pg\<lparr>pg_backing := Some b, file_cached := True, copy_on_write_possible := True\<rparr>) w');
          w3 = (if found = None then cache_page s guest_base w2 else w2)
      in refresh_jit_page s guest_base w3)"

definition cluster_pages :: "nat \<Rightarrow> nat \<Rightarrow> nat \<Rightarrow> nat \<Rightarrow> (nat \<times> nat) list" where
  "cluster_pages file_start file_end guest_start guest_end =
     takeWhile (\<lambda>(file_page, guest_page). file_page < file_end \<and> guest_page < guest_end)
       (map (\<lambda>i. (file_start + i * page_size, guest_start + i * page_size)) [0..<guest_file_prefetch_pages])"

definition fault_one :: "pread \<Rightarrow> nat \<Rightarrow> nat \<Rightarrow> memory_world \<Rightarrow> memory_world" where
  "fault_one pread s current w =
     (if (case find_page s current w of None \<Rightarrow> False | Some pg \<Rightarrow> pg_backing pg \<noteq> None) then w
      else case find_file_mapping s current w of
        None \<Rightarrow> w
      | Some (start, m) \<Rightarrow>
          let f = fm_backing m;
              current_file_offset = fm_offset m + (current - start);
              cluster_file_start = max (first_offset f) (current_file_offset - current_file_offset mod file_prefetch_bytes);
              cluster_file_end = min (end_offset f) (cluster_file_start + file_prefetch_bytes);
              cluster_guest_start = start + (cluster_file_start - fm_offset m)
          in fold (fault_cluster_page pread s f cluster_file_end)
               (cluster_pages cluster_file_start cluster_file_end cluster_guest_start (fm_end m)) w)"

definition fault_file_pages :: "pread \<Rightarrow> nat \<Rightarrow> nat \<Rightarrow> nat \<Rightarrow> memory_world \<Rightarrow> bool \<times> memory_world" where
  "fault_file_pages pread s address bytes w =
     (if bytes = 0 \<or> range_overflows address bytes then (bytes = 0, w)
      else if \<not> range_accessible s address bytes perm_none w then (False, w)
      else (True, fold (fault_one pread s) (page_bases (page_base address) (page_range_end address bytes))
                    (ensure_unique_page_map s w)))"

section \<open>Reading\<close>

definition resident :: "nat \<Rightarrow> nat \<Rightarrow> memory_world \<Rightarrow> nat option" where
  "resident s address w = (case find_page s address w of None \<Rightarrow> None | Some pg \<Rightarrow> pg_backing pg)"

definition read_byte :: "nat \<Rightarrow> nat \<Rightarrow> memory_world \<Rightarrow> u8" where
  "read_byte s address w =
     (case resident s address w of None \<Rightarrow> 0 | Some b \<Rightarrow> pb_bytes (backing_of (store w) b) (address mod page_size))"

text \<open>An unsigned integer of \<open>n\<close> bytes, kept in 64 bits, and its little-endian bytes.\<close>

definition join_bytes :: "u8 list \<Rightarrow> u64" where
  "join_bytes bs = fold (\<lambda>(i, b) v. v OR push_bit (8 * i) (ucast b)) (enumerate 0 bs) 0"

definition split_bytes :: "nat \<Rightarrow> u64 \<Rightarrow> u8 list" where
  "split_bytes n v = map (\<lambda>i. ucast (drop_bit (8 * i) v)) [0..<n]"

text \<open>One round of the loop of \<open>read_integer\<close>.\<close>

datatype 'a attempt = Denied | Got 'a | Must_Fault

definition read_integer_attempt :: "nat \<Rightarrow> nat \<Rightarrow> nat \<Rightarrow> perm \<Rightarrow> memory_world \<Rightarrow> u64 attempt" where
  "read_integer_attempt s address n access w =
     (if \<not> range_accessible s address n access w then Denied
      else let offset = address mod page_size in
        if offset \<le> page_size - n then
          (case resident s address w of
             Some b \<Rightarrow> Got (join_bytes (map (\<lambda>i. pb_bytes (backing_of (store w) b) (offset + i)) [0..<n]))
           | None \<Rightarrow> if find_file_mapping s address w = None then Got 0 else Must_Fault)
        else if \<not> range_needs_file_fault s address n w
        then Got (join_bytes (map (\<lambda>i. read_byte s (address + i) w) [0..<n]))
        else Must_Fault)"

partial_function (option) read_integer ::
    "pread \<Rightarrow> nat \<Rightarrow> nat \<Rightarrow> nat \<Rightarrow> perm \<Rightarrow> memory_world \<Rightarrow> (u64 option \<times> memory_world) option" where
  "read_integer pread s address n access w =
     (case read_integer_attempt s address n access w of
        Denied \<Rightarrow> Some (None, w)
      | Got v \<Rightarrow> Some (Some v, w)
      | Must_Fault \<Rightarrow>
          (case fault_file_pages pread s address n w of
             (ok, w') \<Rightarrow> if ok then read_integer pread s address n access w' else Some (None, w')))"

text \<open>The copying loop of \<open>read_bytes\<close> and \<open>copy_out\<close>, page by page.\<close>

function gather :: "nat \<Rightarrow> nat \<Rightarrow> nat \<Rightarrow> memory_world \<Rightarrow> u8 list" where
  "gather s current n w =
     (if n = 0 then []
      else let offset = current mod page_size; chunk = min (page_size - offset) n in
        (case resident s current w of
           Some b \<Rightarrow> map (pb_bytes (backing_of (store w) b)) [offset..<offset + chunk]
         | None \<Rightarrow> replicate chunk 0) @ gather s (current + chunk) (n - chunk) w)"
  by pat_completeness auto
termination
  by (relation "measure (\<lambda>(_, _, n, _). n)") (auto simp: page_size_def)

definition read_bytes_attempt :: "nat \<Rightarrow> nat \<Rightarrow> nat \<Rightarrow> memory_world \<Rightarrow> u8 list attempt" where
  "read_bytes_attempt s address n w =
     (if \<not> range_accessible s address n perm_read w then Denied
      else if \<not> range_needs_file_fault s address n w then Got (gather s address n w)
      else Must_Fault)"

partial_function (option) read_bytes ::
    "pread \<Rightarrow> nat \<Rightarrow> nat \<Rightarrow> nat \<Rightarrow> memory_world \<Rightarrow> (u8 list option \<times> memory_world) option" where
  "read_bytes pread s address n w =
     (case read_bytes_attempt s address n w of
        Denied \<Rightarrow> Some (None, w)
      | Got bs \<Rightarrow> Some (Some bs, w)
      | Must_Fault \<Rightarrow>
          (case fault_file_pages pread s address n w of
             (ok, w') \<Rightarrow> if ok then read_bytes pread s address n w' else Some (None, w')))"

definition copy_out :: "pread \<Rightarrow> nat \<Rightarrow> nat \<Rightarrow> nat \<Rightarrow> memory_world \<Rightarrow> (u8 list option \<times> memory_world) option" where
  "copy_out pread s address n w =
     (if range_overflows address n then Some (None, w)
      else if n = 0 then Some (Some [], w)
      else read_bytes pread s address n w)"

partial_function (option) read_c_string_loop ::
    "pread \<Rightarrow> nat \<Rightarrow> nat \<Rightarrow> nat \<Rightarrow> nat \<Rightarrow> u8 list \<Rightarrow> memory_world \<Rightarrow> (u8 list option \<times> memory_world) option" where
  "read_c_string_loop pread s address maximum_size consumed result w =
     (if \<not> consumed < maximum_size then Some (None, w)
      else if range_overflows address (consumed + 1) then Some (None, w)
      else let current = address + consumed in
        if \<not> range_accessible s current 1 perm_read w then Some (None, w)
        else case resident s current w of
          None \<Rightarrow>
            if find_file_mapping s current w = None then Some (Some result, w)
            else (case fault_file_pages pread s current 1 w of
              (ok, w') \<Rightarrow>
                if ok then read_c_string_loop pread s address maximum_size consumed result w' else Some (None, w'))
        | Some b \<Rightarrow>
            let offset = current mod page_size; chunk = min (page_size - offset) (maximum_size - consumed);
                got = map (pb_bytes (backing_of (store w) b)) [offset..<offset + chunk]
            in if 0 \<in> set got then Some (Some (result @ takeWhile (\<lambda>x. x \<noteq> 0) got), w)
               else read_c_string_loop pread s address maximum_size (consumed + chunk) (result @ got) w)"

definition read_c_string :: "pread \<Rightarrow> nat \<Rightarrow> nat \<Rightarrow> nat \<Rightarrow> memory_world \<Rightarrow> (u8 list option \<times> memory_world) option" where
  "read_c_string pread s address maximum_size w = read_c_string_loop pread s address maximum_size 0 [] w"

section \<open>Writing\<close>

text \<open>The page a write goes to is the entry of the space's own page map; \<open>unique()\<close> is asked
  of it before the copy.\<close>

definition writable_backing :: "pread \<Rightarrow> nat \<Rightarrow> nat \<Rightarrow> memory_world \<Rightarrow> nat \<times> memory_world" where
  "writable_backing pread s base w =
     (let pg = (case map_of (pages_of s w) base of None \<Rightarrow> blank_page | Some pg \<Rightarrow> pg);
          (b, st) =
            (case pg_backing pg of
               None \<Rightarrow> new_backing (store w)
             | Some b \<Rightarrow>
                 if file_cached pg \<or> (copy_on_write_possible pg \<and> \<not> shared_writable pg \<and> \<not> backing_unique b w)
                 then copy_backing pread b (store w) else (b, store w))
      in (b, set_page s base (pg\<lparr>pg_backing := Some b, file_cached := False, copy_on_write_possible := False\<rparr>)
               (w\<lparr>store := st\<rparr>)))"

definition mark_shared_backing_written :: "nat \<Rightarrow> nat \<Rightarrow> memory_world \<Rightarrow> memory_world" where
  "mark_shared_backing_written s b w =
     w\<lparr>store := mark_shared_write b (invalidate_reservation_identity b (store w)),
       notifications := (if has_observer (space_of w s) then notifications w + 1 else notifications w)\<rparr>"

definition patch :: "nat \<Rightarrow> u8 list \<Rightarrow> page_bytes \<Rightarrow> page_bytes" where
  "patch offset data bytes =
     (\<lambda>j. if offset \<le> j \<and> j < offset + length data then data ! (j - offset) else bytes j)"

definition put_bytes :: "nat \<Rightarrow> nat \<Rightarrow> u8 list \<Rightarrow> memory_world \<Rightarrow> memory_world" where
  "put_bytes b offset data w =
     (let p = backing_of (store w) b in
      w\<lparr>store := set_backing b (p\<lparr>pb_bytes := patch offset data (pb_bytes p)\<rparr>) (store w)\<rparr>)"

definition stamp_page :: "nat \<Rightarrow> nat \<Rightarrow> memory_world \<Rightarrow> memory_world" where
  "stamp_page s base w =
     (case map_of (pages_of s w) base of
        None \<Rightarrow> w
      | Some pg \<Rightarrow> set_page s base (pg\<lparr>pg_generation := write_generation (space_of w s)\<rparr>) w)"

definition next_generation :: "nat \<Rightarrow> memory_world \<Rightarrow> memory_world" where
  "next_generation s w =
     set_space s ((space_of w s)\<lparr>write_generation := write_generation (space_of w s) + 1\<rparr>) w"

definition mark_written :: "nat \<Rightarrow> nat \<Rightarrow> nat \<Rightarrow> memory_world \<Rightarrow> memory_world" where
  "mark_written s address n w =
     (if \<not> tracks_write s address n w then w
      else fold (\<lambda>base w. if find_page s base w = None then w else stamp_page s base w)
             (page_bases (page_base address) (page_base (address + (n - 1)) + 1)) (next_generation s w))"

definition touch_page :: "pread \<Rightarrow> nat \<Rightarrow> nat \<Rightarrow> memory_world \<Rightarrow> memory_world" where
  "touch_page pread s address w = (if resident s address w = None then ensure_page pread s address w else w)"

text \<open>A piece of a store, inside one page: find or make the page, detach it, refresh the direct
  tables, copy the bytes, count the write.\<close>

definition store_piece :: "pread \<Rightarrow> nat \<Rightarrow> nat \<Rightarrow> u8 list \<Rightarrow> memory_world \<Rightarrow> memory_world" where
  "store_piece pread s address data w =
     (let w1 = touch_page pread s address w;
          (b, w2) = writable_backing pread s (page_base address) w1;
          w3 = refresh_jit_page s address w2;
          w4 = put_bytes b (address mod page_size) data w3
      in mark_shared_backing_written s b w4)"

definition store_bytes :: "pread \<Rightarrow> nat \<Rightarrow> nat \<Rightarrow> u8 list \<Rightarrow> memory_world \<Rightarrow> memory_world" where
  "store_bytes pread s address data w =
     (if address mod page_size \<le> page_size - length data then
        let w1 = store_piece pread s address data w
        in if tracks_write s address (length data) w1
           then stamp_page s (page_base address) (next_generation s w1) else w1
      else mark_written s address (length data)
             (fold (\<lambda>(i, x). store_piece pread s (address + i) [x]) (enumerate 0 data) w))"

definition write_integer :: "pread \<Rightarrow> nat \<Rightarrow> nat \<Rightarrow> nat \<Rightarrow> u64 \<Rightarrow> memory_world \<Rightarrow> bool \<times> memory_world" where
  "write_integer pread s address n v w =
     (if \<not> range_accessible s address n perm_write w then (False, w)
      else (True, store_bytes pread s address (split_bytes n v) (ensure_unique_page_map s w)))"

text \<open>Reading the old value makes the pages present, as a store would.\<close>

definition fetch_value :: "pread \<Rightarrow> nat \<Rightarrow> nat \<Rightarrow> nat \<Rightarrow> memory_world \<Rightarrow> u64 \<times> memory_world" where
  "fetch_value pread s address n w =
     (let w1 = (if address mod page_size \<le> page_size - n then touch_page pread s address w
                else fold (\<lambda>i. touch_page pread s (address + i)) [0..<n] w)
      in (join_bytes (map (\<lambda>i. read_byte s (address + i) w1) [0..<n]), w1))"

definition compare_exchange_integer :: "pread \<Rightarrow> nat \<Rightarrow> nat \<Rightarrow> nat \<Rightarrow> u64 \<Rightarrow> u64 \<Rightarrow> memory_world \<Rightarrow> bool \<times> memory_world" where
  "compare_exchange_integer pread s address n expected v w =
     (if \<not> range_accessible s address n (perm_or perm_read perm_write) w then (False, w)
      else let (current, w1) = fetch_value pread s address n (ensure_unique_page_map s w) in
        if current \<noteq> expected then (False, w1)
        else (True, store_bytes pread s address (split_bytes n v) w1))"

definition exchange_integer :: "pread \<Rightarrow> nat \<Rightarrow> nat \<Rightarrow> nat \<Rightarrow> u64 \<Rightarrow> memory_world \<Rightarrow> u64 option \<times> memory_world" where
  "exchange_integer pread s address n v w =
     (if \<not> range_accessible s address n (perm_or perm_read perm_write) w then (None, w)
      else let (previous, w1) = fetch_value pread s address n (ensure_unique_page_map s w)
        in (Some previous, store_bytes pread s address (split_bytes n v) w1))"

function copy_in_loop :: "pread \<Rightarrow> nat \<Rightarrow> nat \<Rightarrow> u8 list \<Rightarrow> memory_world \<Rightarrow> memory_world" where
  "copy_in_loop pread s current data w =
     (if data = [] then w
      else
        let offset = current mod page_size; chunk = min (page_size - offset) (length data);
            w1 = ensure_page pread s current w;
            (b, w2) = writable_backing pread s (page_base current) w1;
            w3 = put_bytes b offset (take chunk data) w2;
            w4 = mark_shared_backing_written s b w3;
            w5 = refresh_jit_page s current w4
        in copy_in_loop pread s (current + chunk) (drop chunk data) w5)"
  by pat_completeness auto
termination
  by (relation "measure (\<lambda>(_, _, _, data, _). length data)") (auto simp: page_size_def)

definition copy_in :: "pread \<Rightarrow> nat \<Rightarrow> nat \<Rightarrow> u8 list \<Rightarrow> memory_world \<Rightarrow> bool \<times> memory_world" where
  "copy_in pread s address data w =
     (if range_overflows address (length data) then (False, w)
      else if data = [] then (True, w)
      else if \<not> range_accessible s address (length data) perm_none w then (False, w)
      else (True, mark_written s address (length data) (copy_in_loop pread s address data w)))"

end
