(* ===== verification/Address_Space_Ops.thy ===== *)
theory Address_Space_Ops
  imports Address_Space
begin

text \<open>
  Guest address spaces, continued (\<open>src/foundation/address_space.cpp\<close>): mapping, unmapping,
  protection, file mappings, sharing pages and mapping shared pages with leases, forking,
  the tables of the recompiler, write tracking and the queries.
\<close>

section \<open>Mapping\<close>

text \<open>\<open>vm_map_.map_or\<close> always returns on the maps a space has; see the lemmas on histories of a map.\<close>

definition vm_map_or :: "nat \<Rightarrow> nat \<Rightarrow> perm \<Rightarrow> vm_map \<Rightarrow> vm_map" where
  "vm_map_or first fin permissions m = (case map_or first fin permissions m of None \<Rightarrow> m | Some m' \<Rightarrow> m')"

definition invalidate_mapping_leases :: "nat \<Rightarrow> nat \<Rightarrow> guest_space \<Rightarrow> guest_space" where
  "invalidate_mapping_leases address fin sp =
     sp\<lparr>mapping_leases := filter (\<lambda>e. \<not> (ml_begin (snd e) < fin \<and> ml_end (snd e) > address)) (mapping_leases sp)\<rparr>"

definition as_map :: "nat \<Rightarrow> nat \<Rightarrow> nat \<Rightarrow> perm \<Rightarrow> memory_world \<Rightarrow> bool \<times> memory_world" where
  "as_map s address bytes permissions w =
     (if bytes = 0 \<or> range_overflows address bytes then (bytes = 0, w)
      else
        let first = page_base address; fin = page_range_end address bytes;
            sp = invalidate_mapping_leases first fin (space_of w s);
            w1 = set_space s (sp\<lparr>vm_regions := vm_map_or first fin permissions (vm_regions sp)\<rparr>) w
        in (True, refresh_jit_page_range s first fin (add_page_permissions s first fin permissions w1)))"

definition flush_shared_file_pages :: "nat \<Rightarrow> nat \<Rightarrow> nat \<Rightarrow> memory_world \<Rightarrow> memory_world" where
  "flush_shared_file_pages s address fin w =
     w\<lparr>disk_writes := disk_writes w @
         concat (map (\<lambda>(_, pg).
             case pg_backing pg of
               None \<Rightarrow> []
             | Some b \<Rightarrow>
                 if file_writeback pg \<and> file_backed b (store w)
                 then (case flush_file b (store w) of None \<Rightarrow> [] | Some out \<Rightarrow> [out]) else [])
           (takeWhile (\<lambda>e. fst e < fin) (om_lower address (pages_of s w))))\<rparr>"

definition make_backing :: "guest_file_backing \<Rightarrow> nat \<Rightarrow> nat \<Rightarrow> guest_file_backing" where
  "make_backing source first fin = source\<lparr>first_offset := first, end_offset := fin\<rparr>"

text \<open>What is left of one file mapping when a range is taken out of it.\<close>

definition cut_file_mapping :: "nat \<Rightarrow> nat \<Rightarrow> nat \<times> file_mapping \<Rightarrow> (nat \<times> file_mapping) list" where
  "cut_file_mapping address fin e =
     (let (start, source) = e; f = fm_backing source in
      (if start < address then
         [(start, \<lparr>fm_end = address, fm_offset = fm_offset source,
             fm_backing = make_backing f (fm_offset source)
               (min (end_offset f) (fm_offset source + (address - start)))\<rparr>)] else []) @
      (if fm_end source > fin then
         [(fin, \<lparr>fm_end = fm_end source, fm_offset = fm_offset source + (fin - start),
             fm_backing = make_backing f (fm_offset source + (fin - start)) (end_offset f)\<rparr>)] else []))"

text \<open>The loop visits the mappings from the last one at or before the range up to its end; the
  pieces are inserted after it.\<close>

definition unmap_file_mappings :: "nat \<Rightarrow> nat \<Rightarrow> (nat, file_mapping) omap \<Rightarrow> (nat, file_mapping) omap" where
  "unmap_file_mappings address fin m =
     (let before = om_before_lower address m; after = om_lower address m;
          (kept, seen) = (case rev before of
              [] \<Rightarrow> ([], after)
            | previous # earlier \<Rightarrow>
                if fm_end (snd previous) > address then (rev earlier, previous # after) else (before, after));
          hit = takeWhile (\<lambda>e. fst e < fin) seen;
          cut = filter (\<lambda>e. \<not> fm_end (snd e) \<le> address) hit;
          survivors = kept @ filter (\<lambda>e. fm_end (snd e) \<le> address) hit @ dropWhile (\<lambda>e. fst e < fin) seen
      in fold (\<lambda>(start, piece). om_emplace start piece) (concat (map (cut_file_mapping address fin) cut)) survivors)"

definition erase_pages :: "nat \<Rightarrow> nat \<Rightarrow> nat \<Rightarrow> memory_world \<Rightarrow> memory_world" where
  "erase_pages s address fin w =
     (let m = pages_of s w; gone = takeWhile (\<lambda>e. fst e < fin) (om_lower address m)
      in set_pages s (om_before_lower address m @ dropWhile (\<lambda>e. fst e < fin) (om_lower address m))
           (fold (\<lambda>e. uncache_page s (fst e)) gone w))"

definition unmap_range :: "nat \<Rightarrow> nat \<Rightarrow> nat \<Rightarrow> memory_world \<Rightarrow> memory_world" where
  "unmap_range s address fin w =
     (let w1 = flush_shared_file_pages s address fin w; sp = space_of w1 s;
          w2 = set_space s (sp\<lparr>vm_regions := unmap address fin (vm_regions sp),
                 translation_profile_map := unmap address fin (translation_profile_map sp),
                 file_mappings := unmap_file_mappings address fin (file_mappings sp)\<rparr>) w1;
          w3 = erase_pages s address fin (ensure_unique_page_map s w2); sp3 = space_of w3 s;
          w4 = set_space s (sp3\<lparr>exclusive_write_tracked_pages :=
                 exclusive_write_tracked_pages sp3 - set (page_bases address fin)\<rparr>) w3
      in refresh_jit_page_range s address fin (clear_page_permissions s address fin w4))"

definition as_unmap :: "nat \<Rightarrow> nat \<Rightarrow> nat \<Rightarrow> memory_world \<Rightarrow> bool \<times> memory_world" where
  "as_unmap s address bytes w =
     (if bytes = 0 \<or> range_overflows address bytes then (bytes = 0, w)
      else
        let first = page_base address; fin = page_range_end address bytes
        in (True, unmap_range s first fin (set_space s (invalidate_mapping_leases first fin (space_of w s)) w)))"

definition as_protect :: "nat \<Rightarrow> nat \<Rightarrow> nat \<Rightarrow> perm \<Rightarrow> memory_world \<Rightarrow> bool \<times> memory_world" where
  "as_protect s address bytes permissions w =
     (if bytes = 0 \<or> range_overflows address bytes then (bytes = 0, w)
      else
        let first = page_base address; fin = page_range_end address bytes; sp = space_of w s;
            (ok, m) = protect first fin permissions (vm_regions sp)
        in if \<not> ok then (False, w)
           else
             let w1 = set_page_permissions s first fin permissions (set_space s (sp\<lparr>vm_regions := m\<rparr>) w);
                 w2 = (if has_permission permissions perm_write then
                         let w' = ensure_unique_page_map s w1 in
                         set_pages s (map (\<lambda>(a, pg). (a, if first \<le> a \<and> a < fin \<and> file_writeback_capable pg
                             then pg\<lparr>file_writeback := True\<rparr> else pg)) (pages_of s w')) w'
                       else w1)
             in (True, refresh_jit_page_range s first fin w2))"

definition as_clear :: "nat \<Rightarrow> memory_world \<Rightarrow> memory_world" where
  "as_clear s w =
     (let w1 = flush_shared_file_pages s 0 (2 ^ 32) w; m = next_page_map w1; sp = space_of w1 s
      in set_space s ((clear_jit_page_table sp)\<lparr>vm_regions := [], translation_profile_map := [], pages_ref := m,
             file_mappings := [], page_lookup := (\<lambda>_. None), page_permissions := (\<lambda>_. None),
             exclusive_write_tracked_pages := {}, tracked_write_ranges := [], mapping_leases := []\<rparr>)
           (w1\<lparr>page_map_of := (page_map_of w1)(m := []), next_page_map := m + 1\<rparr>))"

definition map_file :: "file_probe \<Rightarrow> nat \<Rightarrow> nat \<Rightarrow> nat \<Rightarrow> perm \<Rightarrow> string \<Rightarrow> nat \<Rightarrow> memory_world \<Rightarrow> bool \<times> memory_world" where
  "map_file probe s address bytes permissions path file_offset w =
     (if bytes = 0 \<or> range_overflows address bytes \<or> address mod page_size \<noteq> 0 \<or> file_offset mod page_size \<noteq> 0
      then (False, w)
      else
        let c = cache_ref (space_of w s);
            (found, cache, st) = open_mapping probe path file_offset bytes (cache_of w c, store w);
            w1 = w\<lparr>cache_of := (cache_of w)(c := cache), store := st\<rparr>
        in case found of
             None \<Rightarrow> (False, w1)
           | Some f \<Rightarrow>
               let fin = page_range_end address bytes in
               if overlaps address fin (vm_regions (space_of w1 s)) then (False, w1)
               else
                 let sp = invalidate_mapping_leases address fin (space_of w1 s);
                     inserted = (map_of (file_mappings sp) address = None);
                     sp1 = sp\<lparr>file_mappings := om_emplace address \<lparr>fm_end = fin, fm_offset = file_offset, fm_backing = f\<rparr>
                             (file_mappings sp)\<rparr>
                 in if \<not> inserted then (False, set_space s sp1 w1)
                    else (True, add_page_permissions s address fin permissions
                           (set_space s (sp1\<lparr>vm_regions := vm_map_or address fin permissions (vm_regions sp1)\<rparr>) w1)))"

section \<open>Sharing pages\<close>

text \<open>The body of the loop of \<open>share_pages\<close> for one page; the accumulator has the shared
  pages, the number of tracking transitions, and the two flags.\<close>

definition share_page :: "pread \<Rightarrow> nat \<Rightarrow> nat \<Rightarrow> (nat list \<times> nat \<times> bool \<times> bool) \<times> memory_world \<Rightarrow>
    (nat list \<times> nat \<times> bool \<times> bool) \<times> memory_world" where
  "share_page pread s base acc =
     (let ((shared, transitions, tracked, aliases), w) = acc;
          w1 = ensure_page pread s base w;
          (b, w2) = writable_backing pread s base w1;
          pg2 = (case map_of (pages_of s w2) base of None \<Rightarrow> blank_page | Some pg \<Rightarrow> pg);
          w3 = set_page s base (pg2\<lparr>shared_writable := True\<rparr>) w2;
          (transitions', tracked', aliases', w4) =
            (if tracks_write s base page_size w3 then
               let aliases' = (aliases \<or> \<not> backing_unique b w3);
                   (changed, st) = enable_shared_write_tracking b (store w3)
               in (if changed then transitions + 1 else transitions, True, aliases', w3\<lparr>store := st\<rparr>)
             else (transitions, tracked, aliases, w3))
      in ((shared @ [b], transitions', tracked', aliases'), refresh_jit_page s base w4))"

text \<open>The pages returned are held by the caller from here on.\<close>

definition share_pages :: "pread \<Rightarrow> nat \<Rightarrow> nat \<Rightarrow> nat \<Rightarrow> memory_world \<Rightarrow> nat list option \<times> memory_world" where
  "share_pages pread s address bytes w =
     (if bytes = 0 \<or> address mod page_size \<noteq> 0 \<or> bytes mod page_size \<noteq> 0 \<or> range_overflows address bytes
      then (None, w)
      else if \<not> range_accessible s address bytes perm_none w then (None, w)
      else
        let epoch = tracking_epoch (store w);
            ((shared, transitions, tracked, aliases), w1) =
              fold (share_page pread s) (page_bases address (page_range_end address bytes)) (([], 0, False, False), w);
            w2 = (if tracked then finish_shared_write_tracking s epoch transitions aliases w1 else w1)
        in (Some shared, w2\<lparr>held := shared @ held w2\<rparr>))"

datatype page_mapping_mode = CopyOnWrite | Shared_Pages | SharedFile

definition install_page :: "nat \<Rightarrow> perm \<Rightarrow> page_mapping_mode \<Rightarrow> nat \<times> nat \<Rightarrow> (nat \<times> bool) \<times> memory_world \<Rightarrow>
    (nat \<times> bool) \<times> memory_world" where
  "install_page s permissions mode bb acc =
     (let (base, b) = bb; ((transitions, tracked), w) = acc;
          shared = (mode \<noteq> CopyOnWrite);
          capable = (mode = SharedFile \<and> file_backed b (store w));
          pg = \<lparr>pg_backing = Some b, pg_generation = 0, file_cached = False, shared_writable = shared,
                file_writeback_capable = capable, file_writeback = (capable \<and> has_permission permissions perm_write),
                copy_on_write_possible = \<not> shared\<rparr>;
          w1 = set_pages s (om_emplace base pg (pages_of s w)) w;
          (acc', w2) =
            (if shared \<and> tracks_write s base page_size w1 then
               let (changed, st) = enable_shared_write_tracking b (store w1)
               in ((if changed then transitions + 1 else transitions, True), w1\<lparr>store := st\<rparr>)
             else ((transitions, tracked), w1))
      in (acc', cache_page s base w2))"

text \<open>A fresh lease token: not zero, not in use. The loop ends because fewer than \<open>2 ^ 64\<close> leases exist.\<close>

definition bump_token :: "u64 \<Rightarrow> u64 \<times> u64" where
  "bump_token next = (if next = 0 then (next + 1, next + 2) else (next, next + 1))"

partial_function (option) fresh_token :: "(u64, mapping_lease) omap \<Rightarrow> u64 \<Rightarrow> (u64 \<times> u64) option" where
  "fresh_token leases next =
     (let (token, next') = bump_token next in
      if map_of leases token = None then Some (token, next') else fresh_token leases next')"

definition map_page_backings :: "nat \<Rightarrow> nat \<Rightarrow> nat \<Rightarrow> perm \<Rightarrow> nat list \<Rightarrow> page_mapping_mode \<Rightarrow> bool \<Rightarrow> memory_world \<Rightarrow>
    (bool \<times> u64 \<times> memory_world) option" where
  "map_page_backings s address bytes permissions backings mode want_lease w =
     (if bytes = 0 \<or> address mod page_size \<noteq> 0 \<or> bytes mod page_size \<noteq> 0 \<or> range_overflows address bytes \<or>
         length backings \<noteq> bytes div page_size
      then Some (False, 0, w)
      else
        let fin = page_range_end address bytes in
        if overlaps address fin (vm_regions (space_of w s)) then Some (False, 0, w)
        else
          let w1 = ensure_unique_page_map s (set_space s (invalidate_mapping_leases address fin (space_of w s)) w);
              epoch = tracking_epoch (store w);
              places = zip (map (\<lambda>i. address + i * page_size) [0..<length backings]) backings
          in if list_ex (\<lambda>(base, _). map_of (pages_of s w1) base \<noteq> None) places then Some (False, 0, w1)
             else
               let ((transitions, tracked), w2) = fold (install_page s permissions mode) places ((0, False), w1);
                   sp = space_of w2 s;
                   w3 = add_page_permissions s address fin permissions
                          (set_space s (sp\<lparr>vm_regions := vm_map_or address fin permissions (vm_regions sp)\<rparr>) w2);
                   w4 = (if tracked then finish_shared_write_tracking s epoch transitions True w3 else w3);
                   w5 = refresh_jit_page_range s address fin w4; sp5 = space_of w5 s
               in if \<not> want_lease then Some (True, 0, w5)
                  else map_option (\<lambda>(token, next). (True, token,
                         set_space s (sp5\<lparr>mapping_leases := om_emplace token \<lparr>ml_begin = address, ml_end = fin\<rparr> (mapping_leases sp5),
                           next_mapping_lease_token := next\<rparr>) w5))
                       (fresh_token (mapping_leases sp5) (next_mapping_lease_token sp5)))"

definition unmap_mapping_lease :: "nat \<Rightarrow> u64 \<Rightarrow> memory_world \<Rightarrow> bool \<times> memory_world" where
  "unmap_mapping_lease s token w =
     (if token = 0 then (False, w)
      else case map_of (mapping_leases (space_of w s)) token of
        None \<Rightarrow> (False, w)
      | Some lease \<Rightarrow>
          let sp = space_of w s;
              sp1 = invalidate_mapping_leases (ml_begin lease) (ml_end lease)
                      (sp\<lparr>mapping_leases := om_erase token (mapping_leases sp)\<rparr>)
          in (True, unmap_range s (ml_begin lease) (ml_end lease) (set_space s sp1 w)))"

section \<open>Creation, fork and destruction\<close>

definition fresh_space :: "nat \<Rightarrow> nat \<Rightarrow> u64 \<Rightarrow> guest_space" where
  "fresh_space m c epoch =
     \<lparr>vm_regions = [], translation_profile_map = [], pages_ref = m, file_mappings = [], page_lookup = (\<lambda>_. None),
      page_permissions = (\<lambda>_. None), jit_read = None, jit_write = None, direct_jit_write_pages = {},
      jit_page_table_enabled = False, jit_write_page_table_enabled = True, exclusive_write_tracked_pages = {},
      observed_epoch = epoch, tracked_write_ranges = [], write_generation = 0, mapping_leases = [],
      next_mapping_lease_token = 1, cache_ref = c, parallel_access = True, has_observer = False\<rparr>"

definition new_space :: "memory_world \<Rightarrow> nat \<times> memory_world" where
  "new_space w =
     (let s = next_space w; m = next_page_map w; c = next_cache w in
      (s, set_space s (fresh_space m c (tracking_epoch (store w)))
            (w\<lparr>live := s # live w, next_space := s + 1, page_map_of := (page_map_of w)(m := []), next_page_map := m + 1,
               cache_of := (cache_of w)(c := empty_cache (32 * 1024)), next_cache := c + 1\<rparr>)))"

definition destroy_space :: "nat \<Rightarrow> memory_world \<Rightarrow> memory_world" where
  "destroy_space s w = (flush_shared_file_pages s 0 (2 ^ 32) w)\<lparr>live := removeAll s (live w)\<rparr>"

text \<open>Marking the pages of the parent before they are shared with the child.\<close>

definition mark_copy_on_write :: "nat \<Rightarrow> nat \<times> page \<Rightarrow> memory_world \<Rightarrow> memory_world" where
  "mark_copy_on_write s e w =
     (if pg_backing (snd e) \<noteq> None \<and> \<not> shared_writable (snd e)
      then refresh_jit_page s (fst e) (set_page s (fst e) ((snd e)\<lparr>copy_on_write_possible := True\<rparr>) w)
      else w)"

definition clone :: "nat \<Rightarrow> memory_world \<Rightarrow> nat \<times> memory_world" where
  "clone s w =
     (let (child, w1) = new_space w;
          w2 = fold (mark_copy_on_write s) (pages_of s w1) w1;
          sp = space_of w2 s;
          w3 = set_space child ((space_of w2 child)\<lparr>vm_regions := vm_regions sp, translation_profile_map := translation_profile_map sp,
                 pages_ref := pages_ref sp, file_mappings := file_mappings sp\<rparr>) w2;
          w4 = rebuild_page_lookup child w3
      in (child, set_space child ((space_of w4 child)\<lparr>page_permissions := page_permissions sp,
            tracked_write_ranges := tracked_write_ranges sp, write_generation := write_generation sp,
            mapping_leases := mapping_leases sp, next_mapping_lease_token := next_mapping_lease_token sp,
            cache_ref := cache_ref sp, exclusive_write_tracked_pages := exclusive_write_tracked_pages sp,
            parallel_access := parallel_access sp,
            jit_page_table_enabled := (jit_page_table_enabled sp \<and> \<not> parallel_access sp)\<rparr>) w4))"

section \<open>The tables of the recompiler\<close>

definition set_parallel_access :: "nat \<Rightarrow> bool \<Rightarrow> memory_world \<Rightarrow> memory_world" where
  "set_parallel_access s enabled w =
     (let sp = (space_of w s)\<lparr>parallel_access := enabled, jit_page_table_enabled := \<not> enabled\<rparr>;
          w1 = set_space s sp w in
      if jit_read sp = None \<and> jit_write sp = None then w1
      else if enabled then set_space s (clear_jit_page_table sp) w1
      else fold (\<lambda>e. refresh_jit_page s (fst e)) (pages_of s w1) w1)"

definition ensure_jit_page_tables :: "nat \<Rightarrow> memory_world \<Rightarrow> memory_world" where
  "ensure_jit_page_tables s w =
     (let sp = space_of w s in
      if jit_read sp \<noteq> None \<and> jit_write sp \<noteq> None then w
      else
        let sp1 = sp\<lparr>jit_read := (if jit_read sp = None then Some (\<lambda>_. None) else jit_read sp),
                     jit_write := (if jit_write sp = None then Some (\<lambda>_. None) else jit_write sp),
                     direct_jit_write_pages := {}\<rparr>
        in fold (\<lambda>e. refresh_jit_page s (fst e)) (pages_of s w) (set_space s sp1 w))"

definition jit_read_page_table :: "nat \<Rightarrow> memory_world \<Rightarrow> bool \<times> memory_world" where
  "jit_read_page_table s w =
     (if \<not> jit_page_table_enabled (space_of w s) then (False, w) else (True, ensure_jit_page_tables s w))"

definition jit_write_page_table :: "nat \<Rightarrow> memory_world \<Rightarrow> bool \<times> memory_world" where
  "jit_write_page_table s w =
     (if \<not> jit_page_table_enabled (space_of w s) \<or> \<not> jit_write_page_table_enabled (space_of w s) then (False, w)
      else (True, ensure_jit_page_tables s w))"

definition disable_jit_page_table :: "nat \<Rightarrow> memory_world \<Rightarrow> memory_world" where
  "disable_jit_page_table s w =
     set_space s ((clear_jit_page_table (space_of w s))\<lparr>jit_page_table_enabled := False,
       jit_write_page_table_enabled := False\<rparr>) w"

definition disable_jit_write_page_table :: "nat \<Rightarrow> memory_world \<Rightarrow> memory_world" where
  "disable_jit_write_page_table s w =
     (let sp = space_of w s in
      set_space s (sp\<lparr>jit_write_page_table_enabled := False, jit_write := map_option (\<lambda>_ _. None) (jit_write sp),
        direct_jit_write_pages := {}\<rparr>) w)"

definition track_exclusive_access :: "nat \<Rightarrow> nat \<Rightarrow> nat \<Rightarrow> memory_world \<Rightarrow> memory_world" where
  "track_exclusive_access s address bytes w =
     (if bytes = 0 \<or> range_overflows address bytes then w
      else fold (\<lambda>base w. refresh_jit_page s base
               (set_space s ((space_of w s)\<lparr>exclusive_write_tracked_pages :=
                  insert base (exclusive_write_tracked_pages (space_of w s))\<rparr>) w))
             (page_bases (page_base address) (page_range_end address bytes)) w)"

definition synchronize_shared_write_tracking :: "nat \<Rightarrow> memory_world \<Rightarrow> memory_world" where
  "synchronize_shared_write_tracking s w =
     (let target = tracking_epoch (store w) in
      if target = observed_epoch (space_of w s) then w
      else let w1 = invalidate_shared_write_jit_pages s w
        in set_space s ((space_of w1 s)\<lparr>observed_epoch := target\<rparr>) w1)"

definition set_exclusive_write_observer :: "nat \<Rightarrow> bool \<Rightarrow> memory_world \<Rightarrow> memory_world" where
  "set_exclusive_write_observer s present w = set_space s ((space_of w s)\<lparr>has_observer := present\<rparr>) w"

definition exclusive_granule :: "nat \<Rightarrow> u64" where
  "exclusive_granule address = of_nat address AND NOT 63 AND 0xFFFFFFFF"

definition exclusive_reservation_key :: "nat \<Rightarrow> nat \<Rightarrow> memory_world \<Rightarrow> u64" where
  "exclusive_reservation_key s address w =
     (case resident s address w of
        None \<Rightarrow> exclusive_granule address
      | Some b \<Rightarrow>
          let identity = pb_reservation (backing_of (store w) b) in
          if identity = 0 \<or> identity > 2 ^ 52 - 1 then exclusive_granule address
          else push_bit 63 1 OR push_bit 12 identity OR exclusive_granule (address mod page_size))"

section \<open>Stable code ranges and write generations\<close>

definition mark_translation_profile_stable :: "nat \<Rightarrow> nat \<Rightarrow> nat \<Rightarrow> memory_world \<Rightarrow> memory_world" where
  "mark_translation_profile_stable s address bytes w =
     (if bytes = 0 \<or> range_overflows address bytes then w
      else let first = page_base address; fin = page_range_end address bytes; sp = space_of w s in
        if \<not> accessible first fin perm_execute (vm_regions sp) then w
        else set_space s (sp\<lparr>translation_profile_map := vm_map_or first fin perm_execute (translation_profile_map sp)\<rparr>) w)"

definition translation_profile_stable :: "nat \<Rightarrow> nat \<Rightarrow> nat \<Rightarrow> memory_world \<Rightarrow> bool" where
  "translation_profile_stable s address bytes w \<longleftrightarrow>
     (if bytes = 0 \<or> range_overflows address bytes then False
      else accessible address (address + bytes) perm_execute (vm_regions (space_of w s)) \<and>
           accessible address (address + bytes) perm_execute (translation_profile_map (space_of w s)))"

text \<open>Merging a new range with the ones it touches: the loop starts over after every merge.\<close>

function merge_tracked :: "nat \<Rightarrow> tracked_range \<Rightarrow> tracked_range list \<Rightarrow> tracked_range \<times> tracked_range list" where
  "merge_tracked index tracked ranges =
     (if index < length ranges then
        let existing = ranges ! index in
        if tr_end tracked < tr_begin existing \<or> tr_end existing < tr_begin tracked
        then merge_tracked (index + 1) tracked ranges
        else merge_tracked 0
               \<lparr>tr_begin = min (tr_begin tracked) (tr_begin existing), tr_end = max (tr_end tracked) (tr_end existing)\<rparr>
               (take index ranges @ drop (Suc index) ranges)
      else (tracked, ranges))"
  by pat_completeness auto
termination
  by (relation "measures [\<lambda>(_, _, ranges). length ranges, \<lambda>(index, _, ranges). length ranges - index]") auto

definition track_write_generation :: "nat \<Rightarrow> nat \<Rightarrow> nat \<Rightarrow> memory_world \<Rightarrow> bool \<times> memory_world" where
  "track_write_generation s address bytes w =
     (if bytes = 0 \<or> range_overflows address bytes then (False, w)
      else if \<not> range_accessible s address bytes perm_none w then (False, w)
      else
        let sp = space_of w s;
            (tracked, ranges) = merge_tracked 0 \<lparr>tr_begin = address, tr_end = address + bytes\<rparr> (tracked_write_ranges sp);
            w1 = set_space s (sp\<lparr>tracked_write_ranges := sort_key tr_begin (ranges @ [tracked])\<rparr>) w;
            epoch = tracking_epoch (store w1); fin = page_range_end address bytes;
            (transitions, any_shared, w2) =
              fold (\<lambda>base (transitions, any_shared, w).
                  case find_page s base w of
                    None \<Rightarrow> (transitions, any_shared, w)
                  | Some pg \<Rightarrow>
                      (case pg_backing pg of
                         None \<Rightarrow> (transitions, any_shared, w)
                       | Some b \<Rightarrow>
                           if \<not> shared_writable pg then (transitions, any_shared, w)
                           else let (changed, st) = enable_shared_write_tracking b (store w)
                             in (if changed then transitions + 1 else transitions, True, w\<lparr>store := st\<rparr>)))
                (page_bases (page_base address) fin) (0 :: nat, False, w1);
            w3 = (if any_shared then finish_shared_write_tracking s epoch transitions True w2 else w2)
        in (True, refresh_jit_page_range s (page_base address) fin w3))"

definition range_write_generation :: "nat \<Rightarrow> nat \<Rightarrow> nat \<Rightarrow> memory_world \<Rightarrow> u64 option" where
  "range_write_generation s address bytes w =
     (if bytes = 0 \<or> range_overflows address bytes then None
      else if \<not> range_accessible s address bytes perm_none w then None
      else Some (fold (\<lambda>base g. case find_page s base w of None \<Rightarrow> g | Some pg \<Rightarrow> max g (pg_generation pg))
             (page_bases (page_base address) (page_base (address + (bytes - 1)) + 1)) 0))"

record written_range =
  wr_address :: nat
  wr_bytes :: nat

text \<open>Adding a dirty page to the list of ranges, clipped to the request and joined to the last
  range when it continues it.\<close>

definition add_dirty :: "nat \<Rightarrow> nat \<Rightarrow> nat \<Rightarrow> written_range list \<Rightarrow> written_range list" where
  "add_dirty requested_begin requested_end base ranges =
     (let dirty_begin = max base requested_begin; dirty_end = min (base + page_size) requested_end in
      if dirty_end \<le> dirty_begin then ranges
      else case rev ranges of
        [] \<Rightarrow> ranges @ [\<lparr>wr_address = dirty_begin, wr_bytes = dirty_end - dirty_begin\<rparr>]
      | previous # earlier \<Rightarrow>
          if wr_address previous + wr_bytes previous = dirty_begin
          then rev earlier @ [previous\<lparr>wr_bytes := wr_bytes previous + (dirty_end - dirty_begin)\<rparr>]
          else ranges @ [\<lparr>wr_address = dirty_begin, wr_bytes = dirty_end - dirty_begin\<rparr>])"

definition write_generation_changes :: "nat \<Rightarrow> nat \<Rightarrow> nat \<Rightarrow> u64 \<Rightarrow> memory_world \<Rightarrow> (u64 \<times> written_range list) option" where
  "write_generation_changes s address bytes after_generation w =
     (if bytes = 0 \<or> range_overflows address bytes then None
      else if \<not> range_accessible s address bytes perm_none w then None
      else Some (fold (\<lambda>base (newest, ranges).
               let g = (case find_page s base w of None \<Rightarrow> 0 | Some pg \<Rightarrow> pg_generation pg) in
               (max newest g, if g \<le> after_generation then ranges else add_dirty address (address + bytes) base ranges))
             (page_bases (page_base address) (page_range_end address bytes)) (0, [])))"

definition shared_write_generation_changes :: "nat \<Rightarrow> nat \<Rightarrow> nat \<Rightarrow> u64 list \<Rightarrow> memory_world \<Rightarrow>
    (u64 list \<times> written_range list) option" where
  "shared_write_generation_changes s address bytes after_page_generations w =
     (if bytes = 0 \<or> range_overflows address bytes then None
      else if \<not> range_accessible s address bytes perm_none w then None
      else
        let bases = page_bases (page_base address) (page_range_end address bytes);
            has_baseline = (length after_page_generations = length bases)
        in Some (fold (\<lambda>(i, base) (generations, ranges).
               let g = (case resident s base w of None \<Rightarrow> 0 | Some b \<Rightarrow> pb_generation (backing_of (store w) b));
                   changed = (\<not> has_baseline \<or> g \<noteq> after_page_generations ! i)
               in (generations @ [g], if changed then add_dirty address (address + bytes) base ranges else ranges))
             (enumerate 0 bases) ([], [])))"

section \<open>Queries on pages\<close>

definition is_read_only_executable :: "nat \<Rightarrow> nat \<Rightarrow> nat \<Rightarrow> memory_world \<Rightarrow> bool" where
  "is_read_only_executable s address bytes w \<longleftrightarrow>
     (if bytes = 0 \<or> range_overflows address bytes then False
      else if \<not> range_accessible s address bytes perm_execute w \<or> range_accessible s address bytes perm_write w then False
      else list_all (\<lambda>base.
             case find_page s base w of
               None \<Rightarrow> find_file_mapping s base w \<noteq> None
             | Some pg \<Rightarrow>
                 (case pg_backing pg of
                    None \<Rightarrow> find_file_mapping s base w \<noteq> None
                  | Some b \<Rightarrow> \<not> ((\<not> file_cached pg \<and> \<not> file_backed b (store w)) \<or> shared_writable pg \<or>
                                 pb_tracking (backing_of (store w) b))))
           (page_bases (page_base address) (page_range_end address bytes)))"

definition resident_page_count :: "nat \<Rightarrow> memory_world \<Rightarrow> nat" where
  "resident_page_count s w = length (filter (\<lambda>e. pg_backing (snd e) \<noteq> None) (pages_of s w))"

definition shared_page_count :: "nat \<Rightarrow> memory_world \<Rightarrow> nat" where
  "shared_page_count s w =
     length (filter (\<lambda>e. case pg_backing (snd e) of None \<Rightarrow> False
       | Some b \<Rightarrow> \<not> page_map_unique (pages_ref (space_of w s)) w \<or> \<not> backing_unique b w) (pages_of s w))"

definition cached_file_mapping_count :: "nat \<Rightarrow> memory_world \<Rightarrow> nat" where
  "cached_file_mapping_count s w = length (filter (\<lambda>e. file_cached (snd e)) (pages_of s w))"

end
