(* ===== verification/Address_Space_Pages.thy ===== *)
theory Address_Space_Pages
  imports Address_Space_Ops
begin

text \<open>
  The invariant of the page maps of all address spaces: the lookup table of a space points at
  the entries of its own page map, page maps shared by several spaces hold no page that could be
  written in place, and a page that can be written in place has a physical page nobody else refers
  to. This theory has the invariant, the frame lemmas and the basic operations that keep it.
\<close>

section \<open>Address arithmetic\<close>

lemma page_base_alt: "page_base a = a div page_size * page_size"
  by (simp add: page_base_def minus_mod_eq_div_mult)

lemma page_base_div [simp]: "page_base a div page_size = a div page_size"
  by (simp add: page_base_alt page_size_def)

lemma page_base_mod [simp]: "page_base a mod page_size = 0"
  by (simp add: page_base_alt)

lemma page_base_idem [simp]: "page_base (page_base a) = page_base a"
  by (simp add: page_base_alt page_size_def)

lemma page_base_aligned: "a mod page_size = 0 \<Longrightarrow> page_base a = a"
  by (simp add: page_base_def)

lemma page_size_pos [simp]: "0 < page_size"
  by (simp add: page_size_def)

lemma page_size_nz [simp]: "page_size \<noteq> 0"
  by (simp add: page_size_def)

lemma page_base_le: "page_base a \<le> a"
  by (simp add: page_base_def)

lemma page_base_offset: "page_base a + a mod page_size = a"
  by (simp add: page_base_def)

section \<open>The lookup table\<close>

definition pointer :: "guest_space \<Rightarrow> nat \<Rightarrow> page_pointer option" where
  "pointer sp i = (case page_lookup sp (i div page_lookup_chunk_size) of
     None \<Rightarrow> None | Some chunk \<Rightarrow> chunk (i mod page_lookup_chunk_size))"

lemma find_page_pointer:
  "find_page s a w = (case pointer (space_of w s) (a div page_size) of
     None \<Rightarrow> None | Some (m, key) \<Rightarrow> map_of (page_map_of w m) key)"
  by (simp add: find_page_def pointer_def Let_def split: option.splits)

lemma chunk_position: "(i :: nat) div k = j div k \<Longrightarrow> i mod k = j mod k \<Longrightarrow> i = j"
  by (metis div_mult_mod_eq)

lemma pointer_lookup_cache [simp]:
  "pointer (lookup_cache a m sp) i = (if i = a div page_size then Some (m, a) else pointer sp i)"
  using chunk_position [of i page_lookup_chunk_size "a div page_size"]
  by (auto simp: pointer_def lookup_cache_def Let_def split: option.splits)

lemma lookup_cache_other [simp]:
  "pages_ref (lookup_cache a m sp) = pages_ref sp" "cache_ref (lookup_cache a m sp) = cache_ref sp"
  "file_mappings (lookup_cache a m sp) = file_mappings sp"
  by (simp_all add: lookup_cache_def Let_def)

lemma set_space_simps [simp]:
  "space_of (set_space s sp w) = (space_of w)(s := sp)" "live (set_space s sp w) = live w"
  "page_map_of (set_space s sp w) = page_map_of w" "next_page_map (set_space s sp w) = next_page_map w"
  "store (set_space s sp w) = store w" "held (set_space s sp w) = held w" "cache_of (set_space s sp w) = cache_of w"
  "next_space (set_space s sp w) = next_space w" "next_cache (set_space s sp w) = next_cache w"
  "chunk_of (set_space s sp w) = chunk_of w" "next_chunk (set_space s sp w) = next_chunk w"
  by (simp_all add: set_space_def)

lemma set_pages_simps [simp]:
  "space_of (set_pages s m w) = space_of w" "live (set_pages s m w) = live w"
  "page_map_of (set_pages s m w) = (page_map_of w)(pages_ref (space_of w s) := m)"
  "next_page_map (set_pages s m w) = next_page_map w"
  "store (set_pages s m w) = store w" "held (set_pages s m w) = held w" "cache_of (set_pages s m w) = cache_of w"
  "next_space (set_pages s m w) = next_space w" "next_cache (set_pages s m w) = next_cache w"
  "chunk_of (set_pages s m w) = chunk_of w" "next_chunk (set_pages s m w) = next_chunk w"
  by (simp_all add: set_pages_def)

lemma set_page_simps [simp]:
  "space_of (set_page s base pg w) = space_of w" "live (set_page s base pg w) = live w"
  "page_map_of (set_page s base pg w) = (page_map_of w)(pages_ref (space_of w s) := om_put base pg (pages_of s w))"
  "next_page_map (set_page s base pg w) = next_page_map w"
  "store (set_page s base pg w) = store w" "held (set_page s base pg w) = held w"
  "cache_of (set_page s base pg w) = cache_of w" "next_space (set_page s base pg w) = next_space w"
  "next_cache (set_page s base pg w) = next_cache w"
  "chunk_of (set_page s base pg w) = chunk_of w" "next_chunk (set_page s base pg w) = next_chunk w"
  by (simp_all add: set_page_def)

lemma pages_of_upd [simp]:
  "pages_of s (set_pages s m w) = m" "pages_of s (set_page s base pg w) = om_put base pg (pages_of s w)"
  by (simp_all add: pages_of_def set_page_def)

lemma set_space_twice [simp]: "set_space s sp' (set_space s sp w) = set_space s sp' w"
  by (simp add: set_space_def)

lemma set_space_id [simp]: "set_space s (space_of w s) w = w"
  by (simp add: set_space_def)

lemma fold_cache_page:
  "fold (\<lambda>e. cache_page s (fst e)) es w =
     set_space s (fold (\<lambda>e. lookup_cache (fst e) (pages_ref (space_of w s))) es (space_of w s)) w"
  by (induction es arbitrary: w) (simp_all add: cache_page_def)

lemma fold_lookup_cache:
  "pages_ref (fold (\<lambda>e. lookup_cache (fst e) m) es sp) = pages_ref sp \<and>
   cache_ref (fold (\<lambda>e. lookup_cache (fst e) m) es sp) = cache_ref sp \<and>
   file_mappings (fold (\<lambda>e. lookup_cache (fst e) m) es sp) = file_mappings sp \<and>
   pointer (fold (\<lambda>e. lookup_cache (fst e) m) es sp) i =
     (case rev (filter (\<lambda>e. fst e div page_size = i) es) of [] \<Rightarrow> pointer sp i | e # _ \<Rightarrow> Some (m, fst e))"
  by (induction es arbitrary: sp) (auto split: list.splits)

section \<open>The invariant\<close>

definition maps :: "memory_world \<Rightarrow> nat set" where
  "maps w = (\<lambda>s. pages_ref (space_of w s)) ` set (live w)"

definition entry :: "memory_world \<Rightarrow> nat \<Rightarrow> nat \<Rightarrow> page option" where
  "entry w m a = map_of (page_map_of w m) a"

definition refers :: "memory_world \<Rightarrow> nat \<Rightarrow> nat \<Rightarrow> nat \<Rightarrow> bool" where
  "refers w m a b \<longleftrightarrow> m \<in> maps w \<and> (\<exists>pg. entry w m a = Some pg \<and> pg_backing pg = Some b)"

text \<open>No other reference to the physical page than the given entry.\<close>

definition sole :: "memory_world \<Rightarrow> nat \<Rightarrow> nat \<Rightarrow> nat \<Rightarrow> bool" where
  "sole w m a b \<longleftrightarrow> (\<forall>m' a'. refers w m' a' b \<longrightarrow> m' = m \<and> a' = a) \<and> b \<notin> set (held w) \<and>
     (\<forall>s\<in>set (live w). b \<notin> snd ` set (cache_pages (cache_of w (cache_ref (space_of w s)))))"

definition in_place :: "page \<Rightarrow> bool" where
  "in_place pg \<longleftrightarrow> \<not> file_cached pg \<and> \<not> shared_writable pg \<and> \<not> copy_on_write_possible pg"

definition lookup_ok :: "memory_world \<Rightarrow> nat \<Rightarrow> bool" where
  "lookup_ok w s \<longleftrightarrow> (\<forall>i. pointer (space_of w s) i =
     (if entry w (pages_ref (space_of w s)) (i * page_size) = None then None
      else Some (pages_ref (space_of w s), i * page_size)))"

definition aligned_map :: "(nat, page) omap \<Rightarrow> bool" where
  "aligned_map m \<longleftrightarrow> om_wf m \<and> (\<forall>e\<in>set m. fst e mod page_size = 0)"

text \<open>A physical page that still waits to be read from its file has a file to be read from;
  pages in use and pages held outside have been read.\<close>

definition store_ok :: "page_store \<Rightarrow> bool" where
  "store_ok st \<longleftrightarrow> (\<forall>b. pb_file (backing_of st b) \<noteq> None \<longrightarrow> pb_has_source (backing_of st b))"

definition present :: "memory_world \<Rightarrow> nat \<Rightarrow> bool" where
  "present w b \<longleftrightarrow> b < next_backing (store w) \<and> pb_file (backing_of (store w) b) = None"

definition refs_ok :: "memory_world \<Rightarrow> bool" where
  "refs_ok w \<longleftrightarrow> distinct (live w) \<and>
     (\<forall>s\<in>set (live w). s < next_space w \<and> pages_ref (space_of w s) < next_page_map w \<and>
        cache_ref (space_of w s) < next_cache w \<and>
        cache_inv (cache_of w (cache_ref (space_of w s)), store w)) \<and>
     (\<forall>m a b. refers w m a b \<longrightarrow> present w b) \<and> (\<forall>b\<in>set (held w). present w b) \<and> store_ok (store w)"

definition private_ok :: "memory_world \<Rightarrow> bool" where
  "private_ok w \<longleftrightarrow>
     (\<forall>m\<in>maps w. \<forall>a pg b. entry w m a = Some pg \<longrightarrow> pg_backing pg = Some b \<longrightarrow> in_place pg \<longrightarrow> sole w m a b) \<and>
     (\<forall>s\<in>set (live w). \<forall>t\<in>set (live w). s \<noteq> t \<longrightarrow> pages_ref (space_of w s) = pages_ref (space_of w t) \<longrightarrow>
        (\<forall>a pg. entry w (pages_ref (space_of w s)) a = Some pg \<longrightarrow> pg_backing pg \<noteq> None \<longrightarrow>
           copy_on_write_possible pg \<or> shared_writable pg))"

definition page_inv :: "memory_world \<Rightarrow> bool" where
  "page_inv w \<longleftrightarrow> refs_ok w \<and> private_ok w \<and> (\<forall>m\<in>maps w. aligned_map (page_map_of w m)) \<and>
     (\<forall>s\<in>set (live w). lookup_ok w s)"

lemma refers_present: "page_inv w \<Longrightarrow> refers w m a b \<Longrightarrow> present w b"
  unfolding page_inv_def refs_ok_def by blast

lemma held_present: "page_inv w \<Longrightarrow> b \<in> set (held w) \<Longrightarrow> present w b"
  unfolding page_inv_def refs_ok_def by blast

lemma refers_less: "page_inv w \<Longrightarrow> refers w m a b \<Longrightarrow> b < next_backing (store w)"
  by (drule (1) refers_present) (simp add: present_def)

lemma held_less: "page_inv w \<Longrightarrow> b \<in> set (held w) \<Longrightarrow> b < next_backing (store w)"
  by (drule (1) held_present) (simp add: present_def)

lemma cached_less:
  "page_inv w \<Longrightarrow> s \<in> set (live w) \<Longrightarrow> b \<in> snd ` set (cache_pages (cache_of w (cache_ref (space_of w s)))) \<Longrightarrow>
     b < next_backing (store w)"
  by (fastforce simp: page_inv_def refs_ok_def cache_inv_def)

lemma in_place_sole:
  "page_inv w \<Longrightarrow> m \<in> maps w \<Longrightarrow> entry w m a = Some pg \<Longrightarrow> pg_backing pg = Some b \<Longrightarrow> in_place pg \<Longrightarrow> sole w m a b"
  unfolding page_inv_def private_ok_def by blast

lemma find_page_entry:
  "lookup_ok w s \<Longrightarrow> find_page s a w = entry w (pages_ref (space_of w s)) (page_base a)"
  by (auto simp: find_page_pointer lookup_ok_def page_base_alt entry_def)

lemma resident_entry:
  "lookup_ok w s \<Longrightarrow> resident s a w = Option.bind (entry w (pages_ref (space_of w s)) (page_base a)) pg_backing"
  by (simp add: resident_def find_page_entry split: option.splits)

section \<open>Operations that leave the pages alone\<close>

definition same_core :: "guest_space \<Rightarrow> guest_space \<Rightarrow> bool" where
  "same_core sp sp' \<longleftrightarrow> pages_ref sp' = pages_ref sp \<and> page_lookup sp' = page_lookup sp \<and> cache_ref sp' = cache_ref sp"

definition same_pages :: "memory_world \<Rightarrow> memory_world \<Rightarrow> bool" where
  "same_pages w w' \<longleftrightarrow> live w' = live w \<and> page_map_of w' = page_map_of w \<and> next_page_map w' = next_page_map w \<and>
     store w' = store w \<and> held w' = held w \<and> cache_of w' = cache_of w \<and> next_space w' = next_space w \<and>
     next_cache w' = next_cache w \<and> (\<forall>s. same_core (space_of w s) (space_of w' s))"

lemma same_core_refl [simp]: "same_core sp sp"
  by (simp add: same_core_def)

lemma same_pages_refl [simp]: "same_pages w w"
  by (simp add: same_pages_def)

lemma same_pages_trans: "same_pages a b \<Longrightarrow> same_pages b c \<Longrightarrow> same_pages a c"
  by (simp add: same_pages_def same_core_def)

lemma same_pages_fold:
  "(\<And>x w. same_pages w (f x w)) \<Longrightarrow> same_pages w (fold f xs w)"
  by (induction xs arbitrary: w) (auto intro: same_pages_trans)

lemma same_pages_space: "same_core (space_of w s) sp \<Longrightarrow> same_pages w (set_space s sp w)"
  by (simp add: same_pages_def)

lemma same_pages_entry: "same_pages w w' \<Longrightarrow> entry w' = entry w"
  by (simp add: same_pages_def entry_def fun_eq_iff)

lemma same_pages_maps: "same_pages w w' \<Longrightarrow> maps w' = maps w"
  by (simp add: same_pages_def maps_def same_core_def)

lemma same_pages_refers: "same_pages w w' \<Longrightarrow> refers w' = refers w"
  by (simp add: refers_def fun_eq_iff same_pages_maps same_pages_entry)

lemma same_pages_sole: "same_pages w w' \<Longrightarrow> sole w' = sole w"
proof -
  assume same: "same_pages w w'"
  then have "live w' = live w" "held w' = held w" "cache_of w' = cache_of w"
    "\<And>s. cache_ref (space_of w' s) = cache_ref (space_of w s)"
    by (simp_all add: same_pages_def same_core_def)
  then show ?thesis by (simp add: sole_def fun_eq_iff same_pages_refers [OF same])
qed

lemma same_pages_lookup: "same_pages w w' \<Longrightarrow> lookup_ok w' s = lookup_ok w s"
  by (simp add: lookup_ok_def same_pages_entry) (simp add: same_pages_def same_core_def pointer_def)

lemma same_pages_inv:
  assumes "same_pages w w'" "page_inv w"
  shows "page_inv w'"
proof -
  have "present w' = present w" using assms(1) by (simp add: present_def same_pages_def fun_eq_iff)
  then have "refs_ok w'"
    using assms same_pages_refers [OF assms(1)] unfolding page_inv_def refs_ok_def
    by (auto simp: same_pages_def same_core_def)
  moreover have "private_ok w'"
    using assms same_pages_maps [OF assms(1)] same_pages_entry [OF assms(1)] same_pages_sole [OF assms(1)]
    unfolding page_inv_def private_ok_def by (auto simp: same_pages_def same_core_def)
  moreover have "\<forall>m\<in>maps w'. aligned_map (page_map_of w' m)"
    using assms same_pages_maps [OF assms(1)] unfolding page_inv_def by (auto simp: same_pages_def)
  moreover have "\<forall>s\<in>set (live w'). lookup_ok w' s"
    using assms same_pages_lookup [OF assms(1)] unfolding page_inv_def by (auto simp: same_pages_def)
  ultimately show ?thesis by (simp add: page_inv_def)
qed

lemma same_pages_resident:
  assumes "same_pages w w'"
  shows "resident s a w' = resident s a w" "read_byte s a w' = read_byte s a w"
proof -
  have "find_page s a w' = find_page s a w"
  proof -
    have pm: "page_map_of w' = page_map_of w" and lk: "page_lookup (space_of w' s) = page_lookup (space_of w s)"
      using assms by (simp_all add: same_pages_def same_core_def)
    show ?thesis unfolding find_page_def pm lk ..
  qed
  then show "resident s a w' = resident s a w" by (simp add: resident_def)
  then show "read_byte s a w' = read_byte s a w"
    using assms by (simp add: read_byte_def same_pages_def split: option.splits)
qed

lemma put_permission_same [simp]: "same_pages w (put_permission s i f w)"
  by (simp add: put_permission_def writable_page_permission_chunk_def Let_def same_pages_def same_core_def set_space_def
      split: option.splits)

lemma permissions_same [simp]:
  "same_pages w (add_page_permissions s a e p w)" "same_pages w (set_page_permissions s a e p w)"
  "same_pages w (clear_page_permissions s a e w)"
  unfolding add_page_permissions_def set_page_permissions_def clear_page_permissions_def
  by (auto intro: same_pages_fold)

lemma refresh_same [simp]: "same_pages w (refresh_jit_page s a w)"
  by (auto simp: refresh_jit_page_def Let_def intro!: same_pages_space
      simp: same_core_def split: option.splits)

lemma refresh_range_same [simp]: "same_pages w (refresh_jit_page_range s a e w)"
  by (auto simp: refresh_jit_page_range_def intro: same_pages_fold)

lemma invalidate_same [simp]: "same_pages w (invalidate_shared_write_jit_pages s w)"
  by (auto simp: invalidate_shared_write_jit_pages_def Let_def same_core_def intro!: same_pages_space split: option.splits)

lemma finish_same [simp]: "same_pages w (finish_shared_write_tracking s e t al w)"
  unfolding finish_shared_write_tracking_def Let_def
  by (rule same_pages_trans [of _ "if al \<or> tracking_epoch (store w) \<noteq> e + of_nat t
        then invalidate_shared_write_jit_pages s w else w"])
    (auto intro!: same_pages_space simp: same_core_def)

section \<open>Owning a page map\<close>

definition owns :: "nat \<Rightarrow> memory_world \<Rightarrow> bool" where
  "owns s w \<longleftrightarrow> s \<in> set (live w) \<and> (\<forall>t\<in>set (live w). pages_ref (space_of w t) = pages_ref (space_of w s) \<longrightarrow> t = s)"

lemma owns_same: "same_pages w w' \<Longrightarrow> owns s w' = owns s w"
  by (simp add: owns_def same_pages_def same_core_def)

lemma unique_owns:
  assumes "distinct (live w)" "s \<in> set (live w)" "page_map_unique (pages_ref (space_of w s)) w"
  shows "owns s w"
proof -
  let ?xs = "filter (\<lambda>t. pages_ref (space_of w t) = pages_ref (space_of w s)) (live w)"
  obtain x where x: "?xs = [x]" using assms(3) by (auto simp: page_map_unique_def length_Suc_conv)
  have "s \<in> set ?xs" using assms(2) by simp
  then have "x = s" using x by simp
  show ?thesis
    unfolding owns_def
  proof (intro conjI ballI impI)
    fix t assume "t \<in> set (live w)" "pages_ref (space_of w t) = pages_ref (space_of w s)"
    then have "t \<in> set ?xs" by simp
    then show "t = s" using x \<open>x = s\<close> by simp
  qed (rule assms(2))
qed

lemma not_unique_shared:
  assumes "distinct (live w)" "s \<in> set (live w)" "\<not> page_map_unique (pages_ref (space_of w s)) w"
  shows "\<exists>t\<in>set (live w). t \<noteq> s \<and> pages_ref (space_of w t) = pages_ref (space_of w s)"
proof (rule ccontr)
  assume "\<not> ?thesis"
  then have "set (filter (\<lambda>t. pages_ref (space_of w t) = pages_ref (space_of w s)) (live w)) = {s}"
    using assms(2) by auto
  then have "length (filter (\<lambda>t. pages_ref (space_of w t) = pages_ref (space_of w s)) (live w)) = 1"
    using distinct_card [of "filter (\<lambda>t. pages_ref (space_of w t) = pages_ref (space_of w s)) (live w)"] assms(1)
    by simp
  then show False using assms(3) by (simp add: page_map_unique_def)
qed

lemma sole_others:
  "sole w m a b \<Longrightarrow> refers w m' a' b \<Longrightarrow> m' = m \<and> a' = a"
  by (simp add: sole_def)

lemma refersI: "m \<in> maps w \<Longrightarrow> entry w m a = Some pg \<Longrightarrow> pg_backing pg = Some b \<Longrightarrow> refers w m a b"
  by (auto simp: refers_def)

lemma in_maps [simp]: "s \<in> set (live w) \<Longrightarrow> pages_ref (space_of w s) \<in> maps w"
  by (auto simp: maps_def)

text \<open>Rebuilding the table of a space makes it right.\<close>

lemma rebuild_lookup_pointer:
  assumes "aligned_map (pages_of s w)"
  shows "pointer (space_of (rebuild_page_lookup s w) s) i =
    (if map_of (pages_of s w) (i * page_size) = None then None else Some (pages_ref (space_of w s), i * page_size))"
proof -
  let ?m = "pages_of s w"
  have eq: "fst e = i * page_size \<longleftrightarrow> fst e div page_size = i" if "e \<in> set ?m" for e
    using assms that unfolding aligned_map_def
    by (metis add_0_right div_mult_mod_eq nonzero_mult_div_cancel_right page_size_pos less_not_refl)
  have fst: "fst e = i * page_size" if "e \<in> set (filter (\<lambda>e. fst e div page_size = i) ?m)" for e
    using that eq by auto
  have empty: "map_of ?m (i * page_size) = None \<longleftrightarrow> filter (\<lambda>e. fst e div page_size = i) ?m = []"
  proof -
    have "map_of ?m (i * page_size) = None \<longleftrightarrow> (\<forall>e\<in>set ?m. fst e \<noteq> i * page_size)"
      by (auto simp: map_of_eq_None_iff image_iff)
    also have "\<dots> \<longleftrightarrow> (\<forall>e\<in>set ?m. fst e div page_size \<noteq> i)" using eq by blast
    finally show ?thesis by (simp add: filter_empty_conv)
  qed
  have "pointer (space_of (rebuild_page_lookup s w) s) i =
      (case rev (filter (\<lambda>e. fst e div page_size = i) ?m) of [] \<Rightarrow> None
       | e # _ \<Rightarrow> Some (pages_ref (space_of w s), fst e))"
  proof -
    have "pointer ((space_of w s)\<lparr>page_lookup := (\<lambda>_. None)\<rparr>) i = None" by (simp add: pointer_def)
    then show ?thesis
      by (simp add: rebuild_page_lookup_def fold_cache_page fold_lookup_cache split: list.split)
  qed
  also have "\<dots> = (if map_of ?m (i * page_size) = None then None
      else Some (pages_ref (space_of w s), i * page_size))"
  proof (cases "rev (filter (\<lambda>e. fst e div page_size = i) ?m)")
    case (Cons e es)
    then have "e \<in> set (filter (\<lambda>e. fst e div page_size = i) ?m)" by (metis list.set_intros(1) set_rev)
    then have "fst e = i * page_size" by (rule fst)
    moreover have "filter (\<lambda>e. fst e div page_size = i) ?m \<noteq> []" using Cons by auto
    then have "map_of ?m (i * page_size) \<noteq> None" unfolding empty .
    ultimately show ?thesis unfolding Cons by simp
  next
    case Nil
    then have "filter (\<lambda>e. fst e div page_size = i) ?m = []" by simp
    then have "map_of ?m (i * page_size) = None" unfolding empty .
    then show ?thesis unfolding Nil by simp
  qed
  finally show ?thesis .
qed

lemma rebuild_space:
  "rebuild_page_lookup s w = set_space s (space_of (rebuild_page_lookup s w) s) w"
  "pages_ref (space_of (rebuild_page_lookup s w) s) = pages_ref (space_of w s)"
  "cache_ref (space_of (rebuild_page_lookup s w) s) = cache_ref (space_of w s)"
  "file_mappings (space_of (rebuild_page_lookup s w) s) = file_mappings (space_of w s)"
  by (simp_all add: rebuild_page_lookup_def fold_cache_page fold_lookup_cache)

lemma ensure_unique_shared:
  assumes "\<not> page_map_unique (pages_ref (space_of w s)) w"
  defines "w' \<equiv> ensure_unique_page_map s w" and "m \<equiv> next_page_map w"
  shows "live w' = live w" "page_map_of w' = (page_map_of w)(m := pages_of s w)" "next_page_map w' = m + 1"
    "store w' = store w" "held w' = held w" "cache_of w' = cache_of w" "next_space w' = next_space w"
    "next_cache w' = next_cache w" "\<And>t. t \<noteq> s \<Longrightarrow> space_of w' t = space_of w t"
    "pages_ref (space_of w' s) = m" "cache_ref (space_of w' s) = cache_ref (space_of w s)"
    "file_mappings (space_of w' s) = file_mappings (space_of w s)"
proof -
  define w1 where "w1 = set_space s ((space_of w s)\<lparr>pages_ref := m\<rparr>)
    (w\<lparr>page_map_of := (page_map_of w)(m := pages_of s w), next_page_map := m + 1\<rparr>)"
  have w': "w' = rebuild_page_lookup s w1"
    using assms(1) by (simp add: w'_def ensure_unique_page_map_def w1_def m_def Let_def)
  have eq: "w' = set_space s (space_of w' s) w1" using rebuild_space(1) [of s w1] w' by simp
  show "live w' = live w" "page_map_of w' = (page_map_of w)(m := pages_of s w)" "next_page_map w' = m + 1"
    "store w' = store w" "held w' = held w" "cache_of w' = cache_of w" "next_space w' = next_space w"
    "next_cache w' = next_cache w"
    by (subst eq, simp add: w1_def)+
  show "space_of w' t = space_of w t" if "t \<noteq> s" for t
    by (subst eq) (simp add: w1_def that)
  show "pages_ref (space_of w' s) = m" "cache_ref (space_of w' s) = cache_ref (space_of w s)"
    "file_mappings (space_of w' s) = file_mappings (space_of w s)"
    unfolding w' rebuild_space(2-4) by (simp_all add: w1_def)
qed

lemma ensure_unique_entry:
  assumes "page_inv w" "s \<in> set (live w)"
  shows "t \<in> set (live w) \<Longrightarrow>
    entry (ensure_unique_page_map s w) (pages_ref (space_of (ensure_unique_page_map s w) t)) a =
    entry w (pages_ref (space_of w t)) a"
proof (cases "page_map_unique (pages_ref (space_of w s)) w")
  case False
  note e = ensure_unique_shared [OF False]
  assume t: "t \<in> set (live w)"
  have fresh: "pages_ref (space_of w t) \<noteq> next_page_map w"
    using assms(1) t by (auto simp: page_inv_def refs_ok_def)
  show ?thesis
    by (cases "t = s") (simp_all add: entry_def e fresh pages_of_def)
qed (simp add: ensure_unique_page_map_def)

lemma ensure_unique_inv:
  assumes inv: "page_inv w" and s: "s \<in> set (live w)"
  shows "page_inv (ensure_unique_page_map s w)" "owns s (ensure_unique_page_map s w)"
    "live (ensure_unique_page_map s w) = live w"
proof -
  have d: "distinct (live w)" using inv by (simp add: page_inv_def refs_ok_def)
  show "page_inv (ensure_unique_page_map s w)" "owns s (ensure_unique_page_map s w)"
    "live (ensure_unique_page_map s w) = live w"
  proof (atomize (full), cases "page_map_unique (pages_ref (space_of w s)) w")
    case True
    then show "page_inv (ensure_unique_page_map s w) \<and> owns s (ensure_unique_page_map s w) \<and>
        live (ensure_unique_page_map s w) = live w"
      using inv unique_owns [OF d s True] by (simp add: ensure_unique_page_map_def)
  next
    case False
    define w' m old where "w' = ensure_unique_page_map s w" and "m = next_page_map w" and "old = pages_ref (space_of w s)"
    note e = ensure_unique_shared [OF False, folded w'_def m_def]
    obtain t where t: "t \<in> set (live w)" "t \<noteq> s" "pages_ref (space_of w t) = old"
      using not_unique_shared [OF d s False] by (auto simp: old_def)
    have fresh: "pages_ref (space_of w x) < m" if "x \<in> set (live w)" for x
      using inv that by (simp add: page_inv_def refs_ok_def m_def)
    have maps: "maps w' = insert m (maps w)"
    proof -
      have "maps w' = insert m ((\<lambda>x. pages_ref (space_of w x)) ` (set (live w) - {s}))"
      proof -
        have "maps w' = (\<lambda>x. pages_ref (space_of w' x)) ` insert s (set (live w) - {s})"
          using s e(1) by (simp add: maps_def insert_absorb)
        also have "\<dots> = insert m ((\<lambda>x. pages_ref (space_of w' x)) ` (set (live w) - {s}))"
          by (simp only: image_insert e(10))
        also have "(\<lambda>x. pages_ref (space_of w' x)) ` (set (live w) - {s}) =
            (\<lambda>x. pages_ref (space_of w x)) ` (set (live w) - {s})"
          using e(9) by (intro image_cong) auto
        finally show ?thesis .
      qed
      moreover have "old \<in> (\<lambda>x. pages_ref (space_of w x)) ` (set (live w) - {s})" using t by force
      then have "(\<lambda>x. pages_ref (space_of w x)) ` (set (live w) - {s}) = maps w"
        using s by (auto simp: maps_def old_def)
      ultimately show ?thesis by simp
    qed
    have m_old: "m \<notin> maps w" "old \<in> maps w" using fresh s by (auto simp: maps_def old_def)
    have ent: "entry w' x = (if x = m then entry w old else entry w x)" for x
      by (auto simp: entry_def e(2) pages_of_def old_def fun_eq_iff)
    have refers: "refers w' x a b \<longleftrightarrow> (if x = m then refers w old a b else refers w x a b)" for x a b
      using m_old by (auto simp: refers_def maps ent)
    have shared: "\<not> in_place pg" if "entry w old a = Some pg" "pg_backing pg = Some b" for a pg b
      using inv s t that unfolding page_inv_def private_ok_def in_place_def old_def by (metis option.discI)
    have sole: "sole w' x a b" if "sole w x a b" "x \<noteq> old" "x \<noteq> m" "refers w x a b" for x a b
    proof -
      have "\<not> refers w old a' b" for a' using sole_others [OF that(1)] that(2) by metis
      then have "\<forall>m' a'. refers w' m' a' b \<longrightarrow> m' = x \<and> a' = a"
        using that(1,3) by (auto simp: refers sole_def)
      moreover have "cache_ref (space_of w' x) = cache_ref (space_of w x)" for x
        using e(9,11) by (cases "x = s") auto
      ultimately show ?thesis using that(1) e by (simp add: sole_def)
    qed
    have refs: "refs_ok w'"
    proof -
      have "cache_ref (space_of w' x) = cache_ref (space_of w x)" for x
        using e(9,11) by (cases "x = s") auto
      moreover have "pages_ref (space_of w' x) < m + 1" if "x \<in> set (live w)" for x
        using fresh [OF that] e(9,10) by (cases "x = s") auto
      moreover have "present w' = present w" by (simp add: present_def e fun_eq_iff)
      moreover have "present w b" if "refers w' x a b" for x a b
        using that refers_present [OF inv] by (auto simp: refers split: if_splits)
      ultimately show ?thesis
        using inv by (simp add: page_inv_def refs_ok_def e m_def)
    qed
    have priv: "private_ok w'"
      unfolding private_ok_def
    proof (intro conjI ballI allI impI)
      fix x a pg b
      assume x: "x \<in> maps w'" and en: "entry w' x a = Some pg" "pg_backing pg = Some b" and ip: "in_place pg"
      have ne: "x \<noteq> m" "x \<noteq> old" using en ip shared by (auto simp: ent split: if_splits)
      have "x \<in> maps w" using x ne by (simp add: maps)
      moreover have "entry w x a = Some pg" using en ne by (simp add: ent)
      ultimately show "sole w' x a b"
        using sole inv ip en(2) ne refersI unfolding page_inv_def private_ok_def by metis
    next
      fix x y a pg
      assume xy: "x \<in> set (live w')" "y \<in> set (live w')" "x \<noteq> y"
        "pages_ref (space_of w' x) = pages_ref (space_of w' y)"
        and en: "entry w' (pages_ref (space_of w' x)) a = Some pg" "pg_backing pg \<noteq> None"
      have live: "x \<in> set (live w)" "y \<in> set (live w)" using xy e(1) by auto
      have "x \<noteq> s" "y \<noteq> s" using xy(3,4) fresh [OF live(1)] fresh [OF live(2)] e(9,10) by auto
      then have "pages_ref (space_of w' x) = pages_ref (space_of w x)" "pages_ref (space_of w' y) = pages_ref (space_of w y)"
        using e(9) by auto
      then show "copy_on_write_possible pg \<or> shared_writable pg"
        using inv live xy(3,4) en fresh [OF live(1)] unfolding page_inv_def private_ok_def ent by auto
    qed
    have al: "\<forall>x\<in>maps w'. aligned_map (page_map_of w' x)"
      using inv m_old by (auto simp: maps e(2) page_inv_def pages_of_def old_def [symmetric])
    have lk: "lookup_ok w' x" if "x \<in> set (live w)" for x
    proof (cases "x = s")
      case True
      define w1 where "w1 = set_space s ((space_of w s)\<lparr>pages_ref := m\<rparr>)
        (w\<lparr>page_map_of := (page_map_of w)(m := pages_of s w), next_page_map := m + 1\<rparr>)"
      have w': "w' = rebuild_page_lookup s w1"
        using False by (simp add: w'_def ensure_unique_page_map_def w1_def m_def Let_def)
      have p1: "pages_of s w1 = page_map_of w old" by (simp add: w1_def pages_of_def old_def)
      have al1: "aligned_map (pages_of s w1)" using inv m_old(2) by (simp add: p1 page_inv_def)
      have r1: "pages_ref (space_of w1 s) = m" by (simp add: w1_def)
      have "pointer (space_of w' s) i =
          (if map_of (page_map_of w old) (i * page_size) = None then None else Some (m, i * page_size))" for i
        using rebuild_lookup_pointer [OF al1, of i] unfolding p1 r1 w' [symmetric] .
      then show ?thesis by (simp add: True lookup_ok_def e(10) ent) (simp add: entry_def)
    next
      case False
      then have sp: "space_of w' x = space_of w x" using e(9) by simp
      have "entry w' (pages_ref (space_of w x)) = entry w (pages_ref (space_of w x))"
        using fresh [OF that] by (simp add: ent)
      then show ?thesis using inv that by (simp add: lookup_ok_def sp page_inv_def)
    qed
    have "owns s w'" unfolding owns_def
      using s e(1,9,10) fresh by (metis less_irrefl)
    then show "page_inv (ensure_unique_page_map s w) \<and> owns s (ensure_unique_page_map s w) \<and>
        live (ensure_unique_page_map s w) = live w"
      using refs priv al lk e(1) by (simp add: w'_def [symmetric] page_inv_def)
  qed
qed

end
