(* ===== verification/Address_Space_Writes.thy ===== *)
theory Address_Space_Writes
  imports Address_Space_Pages
begin

text \<open>
  Making pages present, detaching them and storing into them: each keeps the invariant of the
  page maps, and each changes what a space reads only where it should.
\<close>

section \<open>Changing the store\<close>

definition store_sim :: "page_store \<Rightarrow> page_store \<Rightarrow> bool" where
  "store_sim st st' \<longleftrightarrow> next_backing st \<le> next_backing st' \<and> (store_ok st \<longrightarrow> store_ok st') \<and>
     (\<forall>b < next_backing st. pb_writeback (backing_of st' b) = pb_writeback (backing_of st b) \<and>
        pb_offset (backing_of st' b) = pb_offset (backing_of st b) \<and>
        pb_count (backing_of st' b) = pb_count (backing_of st b) \<and>
        (pb_file (backing_of st b) = None \<longrightarrow> pb_file (backing_of st' b) = None))"

text \<open>Nothing that has been read is changed.\<close>

definition bytes_kept :: "page_store \<Rightarrow> page_store \<Rightarrow> bool" where
  "bytes_kept st st' \<longleftrightarrow> (\<forall>b < next_backing st. pb_file (backing_of st b) = None \<longrightarrow>
     pb_bytes (backing_of st' b) = pb_bytes (backing_of st b))"

lemma store_sim_refl [simp]: "store_sim st st" "bytes_kept st st"
  by (simp_all add: store_sim_def bytes_kept_def)

lemma store_sim_trans: "store_sim a b \<Longrightarrow> store_sim b c \<Longrightarrow> store_sim a c"
  by (simp add: store_sim_def)

lemma bytes_kept_trans: "bytes_kept a b \<Longrightarrow> store_sim a b \<Longrightarrow> bytes_kept b c \<Longrightarrow> bytes_kept a c"
  by (simp add: store_sim_def bytes_kept_def)

lemma cache_inv_sim: "cache_inv (c, st) \<Longrightarrow> store_sim st st' \<Longrightarrow> cache_inv (c, st')"
  using cache_inv_store [of c st st'] by (simp add: store_sim_def)

lemma blank_backing_simps [simp]:
  "pb_file (blank_backing i) = None" "pb_bytes (blank_backing i) = zero_page"
  by (simp_all add: blank_backing_def)

lemma page_ops_sim [simp]:
  "store_sim st (materialize pread b st)" "store_sim st (invalidate_reservation_identity b st)"
  "store_sim st (snd (enable_shared_write_tracking b st))" "store_sim st (mark_shared_write b st)"
  "store_sim st (snd (new_backing st))" "store_sim st (set_backing b ((backing_of st b)\<lparr>pb_bytes := x\<rparr>) st)"
  by (auto simp: store_sim_def store_ok_def materialize_def invalidate_reservation_identity_def
      enable_shared_write_tracking_def mark_shared_write_def Let_def case_prod_beta split: option.splits)

lemma page_ops_kept [simp]:
  "bytes_kept st (materialize pread b st)" "bytes_kept st (invalidate_reservation_identity b st)"
  "bytes_kept st (snd (enable_shared_write_tracking b st))" "bytes_kept st (mark_shared_write b st)"
  "bytes_kept st (snd (new_backing st))"
  by (auto simp: bytes_kept_def materialize_def invalidate_reservation_identity_def
      enable_shared_write_tracking_def mark_shared_write_def Let_def case_prod_beta split: option.splits)

lemma materialize_present: "store_ok st \<Longrightarrow> pb_file (backing_of (materialize pread b st) b) = None"
  by (auto simp: materialize_def store_ok_def Let_def case_prod_beta split: option.splits)

lemma copy_backing_sim [simp]:
  "store_sim st (snd (copy_backing pread b st))" "bytes_kept st (snd (copy_backing pread b st))"
  "pb_file (backing_of (snd (copy_backing pread b st)) (next_backing st)) = None"
proof -
  have sim: "store_sim st (snd (new_backing (materialize pread b st)))"
    using store_sim_trans page_ops_sim(1,5) by blast
  show "store_sim st (snd (copy_backing pread b st))"
    unfolding copy_backing_def Let_def case_prod_beta snd_conv by (rule store_sim_trans [OF sim page_ops_sim(6)])
  have nb: "next_backing (materialize pread b st) = next_backing st"
    by (simp add: materialize_def Let_def case_prod_beta split: option.splits)
  have "bytes_kept st (snd (new_backing (materialize pread b st)))"
    using bytes_kept_trans page_ops_kept(1,5) page_ops_sim(1) by blast
  then show "bytes_kept st (snd (copy_backing pread b st))"
    by (auto simp: copy_backing_def Let_def case_prod_beta bytes_kept_def nb)
  show "pb_file (backing_of (snd (copy_backing pread b st)) (next_backing st)) = None"
    by (simp add: copy_backing_def Let_def case_prod_beta nb)
qed

lemma store_entry [simp]: "entry (w\<lparr>store := st\<rparr>) = entry w" "maps (w\<lparr>store := st\<rparr>) = maps w"
  "refers (w\<lparr>store := st\<rparr>) = refers w" "sole (w\<lparr>store := st\<rparr>) = sole w"
  "lookup_ok (w\<lparr>store := st\<rparr>) s = lookup_ok w s" "owns s (w\<lparr>store := st\<rparr>) = owns s w"
  by (simp_all add: entry_def maps_def refers_def sole_def lookup_ok_def owns_def fun_eq_iff)

lemma present_sim: "present w b \<Longrightarrow> store_sim (store w) st \<Longrightarrow> present (w\<lparr>store := st\<rparr>) b"
  by (auto simp: present_def store_sim_def)

lemma store_inv:
  assumes "page_inv w" "store_sim (store w) st"
  shows "page_inv (w\<lparr>store := st\<rparr>)"
proof -
  have "refs_ok (w\<lparr>store := st\<rparr>)"
    using assms cache_inv_sim [OF _ assms(2)] present_sim [OF _ assms(2)]
    unfolding page_inv_def refs_ok_def by (simp add: store_sim_def)
  then show ?thesis using assms(1) by (simp add: page_inv_def private_ok_def)
qed

lemma put_bytes_sim: "put_bytes b off data w = w\<lparr>store := store (put_bytes b off data w)\<rparr>"
  "store_sim (store w) (store (put_bytes b off data w))"
  by (simp_all add: put_bytes_def Let_def)

lemma notify_inv [simp]: "page_inv (w\<lparr>notifications := n\<rparr>) = page_inv w"
  "owns s (w\<lparr>notifications := n\<rparr>) = owns s w" "lookup_ok (w\<lparr>notifications := n\<rparr>) s = lookup_ok w s"
  by (simp_all add: page_inv_def refs_ok_def private_ok_def maps_def lookup_ok_def entry_def refers_def sole_def owns_def
      present_def)

section \<open>Installing a page in an owned map\<close>

definition place_page :: "nat \<Rightarrow> nat \<Rightarrow> page \<Rightarrow> memory_world \<Rightarrow> memory_world" where
  "place_page s base pg w = (if map_of (pages_of s w) base = None
     then cache_page s base (set_page s base pg w) else set_page s base pg w)"

lemma install_simps [simp]:
  "live (place_page s base pg w) = live w" "store (place_page s base pg w) = store w" "held (place_page s base pg w) = held w"
  "cache_of (place_page s base pg w) = cache_of w" "next_page_map (place_page s base pg w) = next_page_map w"
  "next_space (place_page s base pg w) = next_space w" "next_cache (place_page s base pg w) = next_cache w"
  "pages_ref (space_of (place_page s base pg w) t) = pages_ref (space_of w t)"
  "cache_ref (space_of (place_page s base pg w) t) = cache_ref (space_of w t)"
  "file_mappings (space_of (place_page s base pg w) t) = file_mappings (space_of w t)"
  by (simp_all add: place_page_def cache_page_def)

lemma install_maps [simp]: "maps (place_page s base pg w) = maps w" "owns s (place_page t base pg w) = owns s w"
  by (simp_all add: maps_def owns_def)

lemma install_entry:
  "entry (place_page s base pg w) m a =
     (if m = pages_ref (space_of w s) \<and> a = base then Some pg else entry w m a)"
  by (simp add: place_page_def cache_page_def entry_def pages_of_def)

lemma install_refers:
  assumes "s \<in> set (live w)"
  shows "refers (place_page s base pg w) m a b \<longleftrightarrow>
    (if m = pages_ref (space_of w s) \<and> a = base then pg_backing pg = Some b else refers w m a b)"
  using assms by (auto simp: refers_def install_entry)

lemma install_lookup:
  assumes "lookup_ok w t" "owns s w" "t \<in> set (live w)" "base mod page_size = 0"
  shows "lookup_ok (place_page s base pg w) t"
proof (cases "t = s")
  case False
  then have "pages_ref (space_of w t) \<noteq> pages_ref (space_of w s)" using assms(2,3) by (auto simp: owns_def)
  moreover have "pointer (space_of (place_page s base pg w) t) = pointer (space_of w t)"
    using False by (simp add: place_page_def cache_page_def)
  ultimately show ?thesis using assms(1) by (simp add: lookup_ok_def install_entry)
next
  case True
  obtain k where k: "base = k * page_size" using assms(4) by (metis dvdE mod_0_imp_dvd mult.commute)
  have ent: "entry (place_page s base pg w) (pages_ref (space_of w s)) (i * page_size) =
      (if i = k then Some pg else entry w (pages_ref (space_of w s)) (i * page_size))" for i
    by (auto simp: install_entry k)
  show ?thesis
  proof (cases "map_of (pages_of s w) base = None")
    case new: True
    then have "pointer (space_of (place_page s base pg w) s) i =
        (if i = k then Some (pages_ref (space_of w s), k * page_size) else pointer (space_of w s) i)" for i
      by (simp add: place_page_def cache_page_def k)
    then show ?thesis using assms(1) True by (simp add: lookup_ok_def ent)
  next
    case old: False
    then have "entry w (pages_ref (space_of w s)) (k * page_size) \<noteq> None" by (simp add: entry_def pages_of_def k)
    moreover have "pointer (space_of (place_page s base pg w) s) = pointer (space_of w s)"
      using old by (auto simp: place_page_def)
    ultimately show ?thesis using assms(1) True by (simp add: lookup_ok_def ent)
  qed
qed

text \<open>What a page may bring with it: its physical page exists, belongs to no other page that is
  written in place, and to nobody else at all if it is to be written in place itself.\<close>

definition may_install :: "memory_world \<Rightarrow> nat \<Rightarrow> nat \<Rightarrow> page \<Rightarrow> bool" where
  "may_install w s base pg \<longleftrightarrow> (\<forall>b. pg_backing pg = Some b \<longrightarrow> present w b \<and>
     (\<forall>m a pg'. m \<in> maps w \<longrightarrow> entry w m a = Some pg' \<longrightarrow> pg_backing pg' = Some b \<longrightarrow> in_place pg' \<longrightarrow>
        m = pages_ref (space_of w s) \<and> a = base) \<and>
     (in_place pg \<longrightarrow> sole w (pages_ref (space_of w s)) base b))"

lemma install_inv:
  assumes inv: "page_inv w" and own: "owns s w" and base: "base mod page_size = 0" and may: "may_install w s base pg"
  shows "page_inv (place_page s base pg w)"
proof -
  let ?w = "place_page s base pg w" and ?m = "pages_ref (space_of w s)"
  have s: "s \<in> set (live w)" using own by (simp add: owns_def)
  have refs: "refs_ok ?w"
  proof -
    have "present w b" if "refers ?w m a b" for m a b
      using that may refers_present [OF inv] install_refers [OF s, of base pg m a b]
      unfolding may_install_def by metis
    moreover have "present ?w = present w" by (simp add: present_def fun_eq_iff)
    ultimately show ?thesis using inv unfolding page_inv_def refs_ok_def by simp
  qed
  have sole: "sole ?w m a b" if "sole w m a b" "refers ?w ?m base b \<Longrightarrow> m = ?m \<and> a = base" for m a b
  proof -
    have "m' = m \<and> a' = a" if "refers ?w m' a' b" for m' a'
    proof (cases "m' = ?m \<and> a' = base")
      case False
      then have "refers w m' a' b" using that install_refers [OF s, of base pg m' a' b] by metis
      then show ?thesis by (rule sole_others [OF \<open>sole w m a b\<close>])
    qed (use that \<open>refers ?w ?m base b \<Longrightarrow> m = ?m \<and> a = base\<close> in blast)
    then show ?thesis using \<open>sole w m a b\<close> by (simp add: sole_def)
  qed
  have "private_ok ?w"
    unfolding private_ok_def
  proof (intro conjI ballI allI impI)
    fix m a pg' b
    assume m: "m \<in> maps ?w" and e: "entry ?w m a = Some pg'" "pg_backing pg' = Some b" and ip: "in_place pg'"
    show "sole ?w m a b"
    proof (cases "m = ?m \<and> a = base")
      case True
      then have "pg' = pg" using e by (simp add: install_entry)
      then show ?thesis using may e ip True sole unfolding may_install_def by metis
    next
      case False
      then have e': "entry w m a = Some pg'" using e by (auto simp: install_entry)
      then have "sole w m a b" using inv m e ip by (auto simp: page_inv_def private_ok_def)
      moreover have "m = ?m \<and> a = base" if "refers ?w ?m base b"
        using that may m e e' ip install_refers [OF s, of base pg] by (auto simp: may_install_def)
      ultimately show ?thesis by (rule sole)
    qed
  next
    fix x y a pg'
    assume xy: "x \<in> set (live ?w)" "y \<in> set (live ?w)" "x \<noteq> y" "pages_ref (space_of ?w x) = pages_ref (space_of ?w y)"
      and e: "entry ?w (pages_ref (space_of ?w x)) a = Some pg'" "pg_backing pg' \<noteq> None"
    have "pages_ref (space_of w x) \<noteq> ?m" using xy own by (auto simp: owns_def)
    then show "copy_on_write_possible pg' \<or> shared_writable pg'"
      using inv xy e unfolding page_inv_def private_ok_def install_entry by auto
  qed
  moreover have "aligned_map (page_map_of ?w m)" if "m \<in> maps ?w" for m
  proof -
    have "aligned_map (page_map_of w m)" using inv that by (simp add: page_inv_def)
    then have "aligned_map (om_put base pg (page_map_of w m))"
      using base unfolding aligned_map_def by (fastforce simp: om_put_set)
    then show ?thesis
      using \<open>aligned_map (page_map_of w m)\<close> by (auto simp: place_page_def cache_page_def pages_of_def)
  qed
  moreover have "lookup_ok ?w t" if "t \<in> set (live ?w)" for t
    using install_lookup [OF _ own _ base] inv that by (simp add: page_inv_def)
  ultimately show ?thesis using refs by (simp add: page_inv_def)
qed

lemma may_install_blank: "pg_backing pg = None \<Longrightarrow> may_install w s base pg"
  by (simp add: may_install_def)

text \<open>Changing flags of a page that is there.\<close>

lemma may_install_flags:
  assumes inv: "page_inv w" and s: "s \<in> set (live w)"
    and old: "entry w (pages_ref (space_of w s)) base = Some pg" "pg_backing pg' = pg_backing pg"
    and flags: "in_place pg' \<Longrightarrow> in_place pg"
  shows "may_install w s base pg'"
  unfolding may_install_def
proof (intro allI impI conjI)
  fix b assume b: "pg_backing pg' = Some b"
  have r: "refers w (pages_ref (space_of w s)) base b" using s old b by (auto intro: refersI)
  show "present w b" by (rule refers_present [OF inv r])
  show "sole w (pages_ref (space_of w s)) base b" if "in_place pg'"
    using inv s old b flags [OF that] by (auto simp: page_inv_def private_ok_def)
  show "m = pages_ref (space_of w s)" "a = base"
    if "m \<in> maps w" "entry w m a = Some pg2" "pg_backing pg2 = Some b" "in_place pg2" for m a pg2
  proof -
    have "sole w m a b" using inv that by (auto simp: page_inv_def private_ok_def)
    from sole_others [OF this r] show "m = pages_ref (space_of w s)" "a = base" by auto
  qed
qed

text \<open>A physical page that is new, or whose only reference is the page itself.\<close>

lemma may_install_fresh:
  assumes inv: "page_inv w" and sim: "store_sim (store w) st"
    and b: "pg_backing pg = Some b" "next_backing (store w) \<le> b" "b < next_backing st" "pb_file (backing_of st b) = None"
  shows "may_install (w\<lparr>store := st\<rparr>) s base pg"
proof -
  have nobody: "\<not> refers w m a b" for m a using refers_less [OF inv] b(2) by (metis not_le)
  have "b \<notin> set (held w)" using held_less [OF inv] b(2) by (metis not_le)
  moreover have "b \<notin> snd ` set (cache_pages (cache_of w (cache_ref (space_of w t))))" if "t \<in> set (live w)" for t
    using cached_less [OF inv that] b(2) by (metis not_le)
  ultimately have "sole w m a b" for m a using nobody by (simp add: sole_def)
  then show ?thesis using b nobody by (auto simp: may_install_def refers_def present_def)
qed

section \<open>Counting references\<close>

lemma filter_two:
  assumes "x \<in> set xs" "y \<in> set xs" "x \<noteq> y" "P x" "P y"
  shows "2 \<le> length (filter P xs)"
proof -
  have "{x, y} \<subseteq> set (filter P xs)" using assms by auto
  then have "card {x, y} \<le> card (set (filter P xs))" by (intro card_mono) auto
  also have "\<dots> \<le> length (filter P xs)" by (rule card_length)
  finally show ?thesis using assms(3) by simp
qed

lemma unique_sole:
  assumes inv: "page_inv w" and r: "refers w m a b" and u: "backing_unique b w"
  shows "sole w m a b"
proof -
  define f where "f = (\<lambda>m. length (filter (\<lambda>e. pg_backing (snd e) = Some b) (page_map_of w m)))"
  define ms where "ms = remdups (map (\<lambda>s. pages_ref (space_of w s)) (live w))"
  define cs where "cs = sum_list (map (\<lambda>c. length (filter (\<lambda>e. snd e = b) (cache_pages (cache_of w c))))
      (remdups (map (\<lambda>s. cache_ref (space_of w s)) (live w))))"
  have total: "sum f (set ms) + cs + count_list (held w) b = 1"
    using u by (simp add: backing_unique_def backing_refs_def f_def ms_def cs_def sum_list_distinct_conv_sum_set)
  have ms: "set ms = maps w" by (simp add: ms_def maps_def)
  have wf: "om_wf (page_map_of w x)" if "x \<in> maps w" for x using inv that by (simp add: page_inv_def aligned_map_def)
  have mem: "\<exists>pg. (y, pg) \<in> set (page_map_of w x) \<and> pg_backing pg = Some b" if "refers w x y b" for x y
    using that by (auto simp: refers_def entry_def dest: map_of_SomeD)
  have pos: "1 \<le> f x" if "refers w x y b" for x y
  proof -
    obtain pg where "(y, pg) \<in> set (filter (\<lambda>e. pg_backing (snd e) = Some b) (page_map_of w x))"
      using mem [OF \<open>refers w x y b\<close>] by auto
    then show ?thesis unfolding f_def by (metis One_nat_def Suc_leI length_pos_if_in_set)
  qed
  have m: "m \<in> set ms" using r by (simp add: ms refers_def)
  have fm: "1 \<le> f m" by (rule pos [OF r])
  have sum_m: "f m + sum f (set ms - {m}) = sum f (set ms)" using m by (simp add: sum.remove)
  have rest: "sum f (set ms - {m}) = 0" "f m = 1" "cs = 0" "count_list (held w) b = 0"
    using total fm sum_m by linarith+
  have "x = m \<and> y = a" if xy: "refers w x y b" for x y
  proof -
    have "x = m"
    proof (rule ccontr)
      assume "x \<noteq> m"
      then have "x \<in> set ms - {m}" using xy by (simp add: ms refers_def)
      then have "f x = 0" using rest(1) by simp
      then show False using pos [OF xy] by simp
    qed
    moreover have "y = a"
    proof (rule ccontr)
      assume "y \<noteq> a"
      obtain p q where "(y, p) \<in> set (page_map_of w m)" "pg_backing p = Some b"
        "(a, q) \<in> set (page_map_of w m)" "pg_backing q = Some b"
        using mem [OF xy] mem [OF r] \<open>x = m\<close> by auto
      then have "2 \<le> f m" unfolding f_def using \<open>y \<noteq> a\<close> by (intro filter_two [of "(y, p)" _ "(a, q)"]) auto
      then show False using rest(2) by simp
    qed
    ultimately show ?thesis by simp
  qed
  moreover have "b \<notin> set (held w)" using rest(4) by (simp add: count_list_0_iff)
  moreover have "b \<notin> snd ` set (cache_pages (cache_of w (cache_ref (space_of w s))))" if "s \<in> set (live w)" for s
  proof -
    have "\<forall>c\<in>set (remdups (map (\<lambda>s. cache_ref (space_of w s)) (live w))).
        length (filter (\<lambda>e. snd e = b) (cache_pages (cache_of w c))) = 0"
      using rest(3) unfolding cs_def by (simp add: sum_list_eq_0_iff)
    then have "filter (\<lambda>e. snd e = b) (cache_pages (cache_of w (cache_ref (space_of w s)))) = []"
      using that by simp
    then show ?thesis by (auto simp: filter_empty_conv)
  qed
  ultimately show ?thesis by (auto simp: sole_def)
qed

section \<open>Detaching a page\<close>

text \<open>The physical page a store goes to: the old one if it may be written in place, or a new one
  with the same bytes.\<close>

definition detached :: "pread \<Rightarrow> memory_world \<Rightarrow> page \<Rightarrow> nat \<times> page_store" where
  "detached pread w pg =
     (case pg_backing pg of
        None \<Rightarrow> new_backing (store w)
      | Some b \<Rightarrow>
          if file_cached pg \<or> (copy_on_write_possible pg \<and> \<not> shared_writable pg \<and> \<not> backing_unique b w)
          then copy_backing pread b (store w) else (b, store w))"

lemma writable_backing_install:
  assumes "entry w (pages_ref (space_of w s)) base = Some pg"
  shows "writable_backing pread s base w =
    (fst (detached pread w pg),
     place_page s base (pg\<lparr>pg_backing := Some (fst (detached pread w pg)), file_cached := False, copy_on_write_possible := False\<rparr>)
       (w\<lparr>store := snd (detached pread w pg)\<rparr>))"
  using assms
  by (simp add: writable_backing_def detached_def Let_def case_prod_beta place_page_def entry_def pages_of_def)

lemma next_backing_ops [simp]:
  "next_backing (materialize pread b st) = next_backing st"
  "next_backing (snd (copy_backing pread b st)) = next_backing st + 1"
  "fst (copy_backing pread b st) = next_backing st"
  by (simp_all add: materialize_def copy_backing_def Let_def case_prod_beta split: option.splits)

lemma detached_cases:
  "(fst (detached pread w pg) = next_backing (store w) \<and>
    next_backing (snd (detached pread w pg)) = next_backing (store w) + 1 \<and>
    pb_file (backing_of (snd (detached pread w pg)) (fst (detached pread w pg))) = None) \<or>
   (pg_backing pg = Some (fst (detached pread w pg)) \<and> snd (detached pread w pg) = store w \<and> \<not> file_cached pg \<and>
    (copy_on_write_possible pg \<longrightarrow> \<not> shared_writable pg \<longrightarrow> backing_unique (fst (detached pread w pg)) w))"
  by (simp add: detached_def split: option.splits)

lemma detached_sim: "store_sim (store w) (snd (detached pread w pg))" "bytes_kept (store w) (snd (detached pread w pg))"
  by (simp_all add: detached_def split: option.splits)

lemma writable_backing_inv:
  assumes inv: "page_inv w" and own: "owns s w"
    and e: "entry w (pages_ref (space_of w s)) base = Some pg" and base: "base mod page_size = 0"
    and wb: "writable_backing pread s base w = (b, w')"
  shows "page_inv w'" "owns s w'" "live w' = live w"
    "entry w' (pages_ref (space_of w' s)) base =
       Some (pg\<lparr>pg_backing := Some b, file_cached := False, copy_on_write_possible := False\<rparr>)"
    "\<not> shared_writable pg \<Longrightarrow> sole w' (pages_ref (space_of w' s)) base b"
proof -
  have s: "s \<in> set (live w)" using own by (simp add: owns_def)
  define st where "st = snd (detached pread w pg)"
  define pg' where "pg' = pg\<lparr>pg_backing := Some b, file_cached := False, copy_on_write_possible := False\<rparr>"
  have b: "b = fst (detached pread w pg)" and w': "w' = place_page s base pg' (w\<lparr>store := st\<rparr>)"
    using wb by (auto simp: writable_backing_install [OF e] pg'_def st_def)
  have sim: "store_sim (store w) st" unfolding st_def by (rule detached_sim(1))
  have inv1: "page_inv (w\<lparr>store := st\<rparr>)" by (rule store_inv [OF inv sim])
  have may: "may_install (w\<lparr>store := st\<rparr>) s base pg'"
  proof (cases "b = next_backing (store w) \<and> next_backing st = next_backing (store w) + 1 \<and> pb_file (backing_of st b) = None")
    case True
    then show ?thesis
      using may_install_fresh [OF inv sim, of pg' b s base] by (auto simp: pg'_def)
  next
    case False
    then have old: "pg_backing pg = Some b" "st = store w" "\<not> file_cached pg"
      "copy_on_write_possible pg \<Longrightarrow> \<not> shared_writable pg \<Longrightarrow> backing_unique b w"
      using detached_cases [of pread w pg] by (auto simp: b st_def)
    have bb: "pg_backing pg = Some b" using old(1) .
    have r: "refers w (pages_ref (space_of w s)) base b" using s e bb by (auto intro: refersI)
    have sole: "sole w (pages_ref (space_of w s)) base b" if "\<not> shared_writable pg"
    proof (cases "copy_on_write_possible pg")
      case True
      then show ?thesis using old(4) that unique_sole [OF inv r] by simp
    next
      case False
      then have "in_place pg" using that old(3) by (simp add: in_place_def)
      then show ?thesis using in_place_sole [OF inv _ e bb] s by simp
    qed
    have "m = pages_ref (space_of w s) \<and> a = base"
      if "m \<in> maps w" "entry w m a = Some pg2" "pg_backing pg2 = Some b" "in_place pg2" for m a pg2
    proof -
      have "sole w m a b" by (rule in_place_sole [OF inv that])
      from sole_others [OF this r] show ?thesis by simp
    qed
    then show ?thesis
      using sole refers_present [OF inv r] old(2) by (auto simp: may_install_def pg'_def st_def in_place_def)
  qed
  show "page_inv w'" unfolding w' by (rule install_inv [OF inv1 _ base may]) (simp add: own)
  show "owns s w'" "live w' = live w" using own by (simp_all add: w')
  show ent: "entry w' (pages_ref (space_of w' s)) base =
      Some (pg\<lparr>pg_backing := Some b, file_cached := False, copy_on_write_possible := False\<rparr>)"
    by (simp add: w' install_entry pg'_def)
  show "sole w' (pages_ref (space_of w' s)) base b" if "\<not> shared_writable pg"
    using in_place_sole [OF \<open>page_inv w'\<close> _ ent] s that by (simp add: w' in_place_def)
qed

section \<open>Loading a file page\<close>

lemma load_page_store:
  "store_sim st (snd (snd (load_page f off n (c, st))))" "bytes_kept st (snd (snd (load_page f off n (c, st))))"
  by (auto simp: load_page_def Let_def case_prod_beta store_sim_def store_ok_def bytes_kept_def split: option.splits)

lemma load_page_fresh_or_cached:
  "fst (load_page f off n (c, st)) \<in> snd ` set (cache_pages c) \<or> fst (load_page f off n (c, st)) = next_backing st"
proof (cases "map_of (cache_pages c) (key_of f off n)")
  case (Some x)
  then have "x \<in> snd ` set (cache_pages c)" by (metis image_eqI map_of_SomeD snd_conv)
  then show ?thesis using Some by (simp add: load_page_def)
qed (simp add: load_page_def Let_def case_prod_beta)

lemma evict_subset: "set (cache_pages (evict c)) \<subseteq> set (cache_pages c)"
proof -
  have "set (fst (evict_loop limit pages order)) \<subseteq> set pages" for limit pages order
    by (induction limit pages order rule: evict_loop.induct) auto
  then show ?thesis by (auto simp: evict_def case_prod_beta Let_def)
qed

lemma load_page_cached:
  "snd ` set (cache_pages (fst (snd (load_page f off n (c, st))))) \<subseteq>
     insert (fst (load_page f off n (c, st))) (snd ` set (cache_pages c))"
  using evict_subset [of "c\<lparr>cache_pages := (key_of f off n, next_backing st) # cache_pages c, lru := lru c @ [key_of f off n]\<rparr>"]
  by (auto simp: load_page_def Let_def case_prod_beta touch_def split: option.splits)

lemma load_backing_facts:
  assumes inv: "page_inv w" and s: "s \<in> set (live w)" and l: "load_backing pread s f off n w = (b, w')"
  shows "page_inv w'" "present w' b" "\<And>m a pg. m \<in> maps w \<Longrightarrow> entry w m a = Some pg \<Longrightarrow> pg_backing pg = Some b \<Longrightarrow> \<not> in_place pg"
    "live w' = live w" "page_map_of w' = page_map_of w" "space_of w' = space_of w" "held w' = held w"
    "bytes_kept (store w) (store w')" "store_sim (store w) (store w')"
proof -
  define c where "c = cache_ref (space_of w s)"
  define r where "r = load_page f off n (cache_of w c, store w)"
  have b: "b = fst r" and w': "w' = w\<lparr>cache_of := (cache_of w)(c := fst (snd r)), store := materialize pread b (snd (snd r))\<rparr>"
    using l by (auto simp: load_backing_def Let_def r_def c_def case_prod_beta)
  have cinv: "cache_inv (cache_of w c, store w)" using inv s by (simp add: page_inv_def refs_ok_def c_def)
  have sim1: "store_sim (store w) (snd (snd r))" and kept1: "bytes_kept (store w) (snd (snd r))"
    unfolding r_def by (rule load_page_store)+
  have sim: "store_sim (store w) (store w')" using store_sim_trans [OF sim1 page_ops_sim(1)] by (simp add: w')
  have kept: "bytes_kept (store w) (store w')"
    using bytes_kept_trans [OF kept1 sim1 page_ops_kept(1)] by (simp add: w')
  show "live w' = live w" "page_map_of w' = page_map_of w" "space_of w' = space_of w" "held w' = held w"
    by (simp_all add: w')
  show "bytes_kept (store w) (store w')" by (rule kept)
  show "store_sim (store w) (store w')" by (rule sim)
  have entry: "entry w' = entry w" "maps w' = maps w" by (simp_all add: w' entry_def maps_def fun_eq_iff)
  then have refers: "refers w' = refers w" by (simp add: refers_def fun_eq_iff)
  have bc: "b \<in> snd ` set (cache_pages (cache_of w c)) \<or> b = next_backing (store w)"
    unfolding b r_def by (rule load_page_fresh_or_cached)
  have nosole: "\<not> sole w m a b" if "refers w m a b" for m a
    using bc s refers_less [OF inv that] by (auto simp: sole_def c_def)
  show "\<not> in_place pg" if "m \<in> maps w" "entry w m a = Some pg" "pg_backing pg = Some b" for m a pg
    using in_place_sole [OF inv that] nosole refersI [OF that] by blast
  have ok1: "store_ok (snd (snd r))" using inv sim1 by (auto simp: page_inv_def refs_ok_def store_sim_def)
  have bl: "b < next_backing (snd (snd r))"
    using load_page_result [OF cinv, of f off n] by (simp add: b r_def)
  show present: "present w' b" using materialize_present [OF ok1, of pread b] bl by (simp add: present_def w')
  have sole: "sole w' m a x" if "sole w m a x" "refers w m a x" for m a x
  proof -
    have "x \<noteq> b" using nosole that by blast
    moreover have "snd ` set (cache_pages (fst (snd r))) \<subseteq> insert b (snd ` set (cache_pages (cache_of w c)))"
      using load_page_cached [of f off n "cache_of w c" "store w"] by (simp add: r_def b)
    moreover have "x \<notin> snd ` set (cache_pages (cache_of w c))" using that(1) s by (simp add: sole_def c_def)
    ultimately have "x \<notin> snd ` set (cache_pages (fst (snd r)))" by blast
    then show ?thesis using that(1) unfolding sole_def refers by (simp add: w')
  qed
  have pres: "present w' x" if "present w x" for x
    using that sim by (auto simp: present_def store_sim_def)
  have "cache_inv (fst (snd r), snd (snd r))"
    using load_page_inv [OF cinv, of f off n] by (simp add: r_def)
  then have cinv': "cache_inv (fst (snd r), store w')" using page_ops_inv(1) by (simp add: w')
  have "refs_ok w'"
    using inv pres sim cinv' cache_inv_sim [OF _ sim] unfolding page_inv_def refs_ok_def refers
    by (auto simp: w' store_sim_def)
  moreover have "private_ok w'"
    using inv sole refersI unfolding page_inv_def private_ok_def entry by (simp add: w')
  ultimately show "page_inv w'"
    using inv by (simp add: page_inv_def entry lookup_ok_def) (simp add: w')
qed

section \<open>Making a page present\<close>

lemma distinct_filter_eq: "distinct xs \<Longrightarrow> x \<in> set xs \<Longrightarrow> filter (\<lambda>y. y = x) xs = [x]"
  by (induction xs) (auto simp: filter_empty_conv)

lemma om_put_same: "om_wf m \<Longrightarrow> map_of m k = Some v \<Longrightarrow> om_put k v m = m"
  by (rule om_wf_ext) (auto simp: fun_eq_iff)

lemma om_put_twice: "om_wf m \<Longrightarrow> om_put k v (om_put k u m) = om_put k v m"
  by (rule om_wf_ext) auto

lemma set_page_same:
  "om_wf (pages_of s w) \<Longrightarrow> map_of (pages_of s w) base = Some pg \<Longrightarrow> set_page s base pg w = w"
  by (simp add: set_page_def set_pages_def om_put_same) (simp add: pages_of_def)

text \<open>A step that makes a page of space \<open>s\<close> present or changes it, and nothing else that a space
  can read.\<close>

definition page_step :: "nat \<Rightarrow> nat \<Rightarrow> memory_world \<Rightarrow> memory_world \<Rightarrow> bool" where
  "page_step s base w w' \<longleftrightarrow> page_inv w' \<and> owns s w' \<and> live w' = live w \<and>
     (\<forall>t\<in>set (live w). \<forall>x. t \<noteq> s \<or> x \<noteq> base \<longrightarrow>
        entry w' (pages_ref (space_of w' t)) x = entry w (pages_ref (space_of w t)) x) \<and>
     store_sim (store w) (store w') \<and> bytes_kept (store w) (store w')"

lemma page_step_install:
  assumes "page_inv w" "owns s w" "base mod page_size = 0" "may_install w s base pg"
  shows "page_step s base w (place_page s base pg w)"
  using assms by (auto simp: page_step_def install_inv install_entry owns_def)

definition ensured :: "bool \<Rightarrow> page option \<Rightarrow> page \<Rightarrow> bool" where
  "ensured mapped old pg \<longleftrightarrow>
     (case old of None \<Rightarrow> \<not> shared_writable pg
      | Some p \<Rightarrow> shared_writable pg = shared_writable p \<and> (pg_backing p \<noteq> None \<longrightarrow> pg = p)) \<and>
     (pg_backing pg \<noteq> None \<longrightarrow> mapped \<and> file_cached pg \<or> old = Some pg)"

lemma ensure_page_owned:
  assumes inv: "page_inv w" and own: "owns s w"
  shows "page_step s (page_base a) w (ensure_page pread s a w)"
    "\<exists>pg. entry (ensure_page pread s a w) (pages_ref (space_of (ensure_page pread s a w) s)) (page_base a) = Some pg \<and>
      ensured (find_file_mapping s (page_base a) w \<noteq> None) (entry w (pages_ref (space_of w s)) (page_base a)) pg"
proof -
  have s: "s \<in> set (live w)" using own by (simp add: owns_def)
  define base m where "base = page_base a" and "m = pages_ref (space_of w s)"
  have bm: "base mod page_size = 0" by (simp add: base_def)
  have "page_map_unique m w"
  proof -
    have "filter (\<lambda>t. pages_ref (space_of w t) = m) (live w) = filter (\<lambda>t. t = s) (live w)"
      using own by (intro filter_cong) (auto simp: owns_def m_def)
    moreover have "length (filter (\<lambda>t. t = s) (live w)) = 1"
      using s inv distinct_filter_eq [of "live w" s] by (simp add: page_inv_def refs_ok_def)
    ultimately show ?thesis by (simp add: page_map_unique_def)
  qed
  then have eu: "ensure_unique_page_map s w = w" by (simp add: ensure_unique_page_map_def m_def)
  have wf: "om_wf (pages_of s w)" using inv s by (simp add: page_inv_def aligned_map_def pages_of_def)
  define old where "old = map_of (pages_of s w) base"
  have old: "entry w m base = old" by (simp add: entry_def old_def pages_of_def m_def)
  define pg where "pg = (case old of None \<Rightarrow> blank_page | Some pg \<Rightarrow> pg)"
  have unfold: "ensure_page pread s a w =
      (let w2 = (if pg_backing pg \<noteq> None then set_page s base pg w
           else case find_file_mapping s base (set_page s base pg w) of
             None \<Rightarrow> set_page s base pg w
           | Some (start, m) \<Rightarrow>
               let off = fm_offset m + (base - start); n = min page_size (end_offset (fm_backing m) - off);
                   (b, w') = load_backing pread s (fm_backing m) off n (set_page s base pg w)
               in set_page s base (pg\<lparr>pg_backing := Some b, file_cached := True, copy_on_write_possible := True\<rparr>) w')
       in if old = None then cache_page s base w2 else w2)"
    unfolding ensure_page_def Let_def eu pg_def old_def base_def ..
  have result: "page_step s base w (ensure_page pread s a w) \<and>
    (\<exists>pg'. entry (ensure_page pread s a w) (pages_ref (space_of (ensure_page pread s a w) s)) base = Some pg' \<and>
      ensured (find_file_mapping s base w \<noteq> None) old pg')"
  proof (cases "pg_backing pg = None")
    case False
    then have "old = Some pg" by (auto simp: pg_def blank_page_def split: option.splits)
    then have "ensure_page pread s a w = w"
      using False set_page_same [OF wf, of base pg]
      by (simp add: unfold old_def [symmetric])
    then show ?thesis
      using inv own \<open>old = Some pg\<close> old by (simp add: page_step_def ensured_def m_def)
  next
    case blank: True
    show ?thesis
    proof (cases "find_file_mapping s base w")
      case None
      have ffm: "find_file_mapping s base (set_page s base pg w) = None"
        using None by (simp add: find_file_mapping_def)
      have "ensure_page pread s a w = place_page s base pg w"
        using blank ffm by (auto simp: unfold place_page_def old_def Let_def)
      then show ?thesis
        using page_step_install [OF inv own bm may_install_blank [OF blank]] blank
        by (auto simp: install_entry ensured_def pg_def blank_page_def m_def split: option.splits)
    next
      case (Some sm)
      obtain start fm where sm: "sm = (start, fm)" by force
      define off n where "off = fm_offset fm + (base - start)" and "n = min page_size (end_offset (fm_backing fm) - off)"
      have ffm: "find_file_mapping s base (set_page s base pg w) = Some (start, fm)"
        using Some sm by (simp add: find_file_mapping_def)
      obtain b w1 where l: "load_backing pread s (fm_backing fm) off n w = (b, w1)" by force
      note L = load_backing_facts [OF inv s l]
      have l': "load_backing pread s (fm_backing fm) off n (set_page s base pg w) = (b, set_page s base pg w1)"
        using l by (auto simp: load_backing_def Let_def case_prod_beta set_page_def set_pages_def pages_of_def)
      define pg' where "pg' = pg\<lparr>pg_backing := Some b, file_cached := True, copy_on_write_possible := True\<rparr>"
      have po: "pages_of s w1 = pages_of s w" by (simp add: pages_of_def L)
      have "set_page s base pg' (set_page s base pg w1) = set_page s base pg' w1"
        using om_put_twice [OF wf, of base pg' pg] by (simp add: set_page_def po) (simp add: set_pages_def)
      then have eq: "ensure_page pread s a w = place_page s base pg' w1"
        using blank ffm l' po
        by (simp add: unfold Let_def off_def [symmetric] n_def [symmetric] pg'_def [symmetric] place_page_def old_def)
      have own1: "owns s w1" using own by (simp add: owns_def L)
      have mp: "maps w1 = maps w" "entry w1 = entry w" by (simp_all add: maps_def entry_def L fun_eq_iff)
      have may: "may_install w1 s base pg'"
        using L(2,3) by (auto simp: may_install_def pg'_def in_place_def mp)
      have step: "page_step s base w1 (place_page s base pg' w1)" by (rule page_step_install [OF L(1) own1 bm may])
      then have "page_step s base w (place_page s base pg' w1)"
        using L mp store_sim_trans [OF L(9)] bytes_kept_trans [OF L(8,9)] by (simp add: page_step_def)
      moreover have "ensured (find_file_mapping s base w \<noteq> None) old pg'"
        using blank Some by (auto simp: ensured_def pg'_def pg_def blank_page_def split: option.splits)
      ultimately show ?thesis by (simp add: eq install_entry)
    qed
  qed
  show "page_step s (page_base a) w (ensure_page pread s a w)" using result by (simp add: base_def)
  show "\<exists>pg. entry (ensure_page pread s a w) (pages_ref (space_of (ensure_page pread s a w) s)) (page_base a) = Some pg \<and>
      ensured (find_file_mapping s (page_base a) w \<noteq> None) (entry w (pages_ref (space_of w s)) (page_base a)) pg"
    using result old by (simp add: base_def m_def)
qed

section \<open>Storing into a page\<close>

lemma page_step_refl: "page_inv w \<Longrightarrow> owns s w \<Longrightarrow> page_step s base w w"
  by (simp add: page_step_def)

lemma inv_lookup: "page_inv w \<Longrightarrow> s \<in> set (live w) \<Longrightarrow> lookup_ok w s"
  by (simp add: page_inv_def)

lemma touch_page_facts:
  assumes inv: "page_inv w" and own: "owns s w"
  shows "page_step s (page_base a) w (touch_page pread s a w)"
    "\<exists>pg. entry (touch_page pread s a w) (pages_ref (space_of (touch_page pread s a w) s)) (page_base a) = Some pg \<and>
      ensured (find_file_mapping s (page_base a) w \<noteq> None) (entry w (pages_ref (space_of w s)) (page_base a)) pg"
proof -
  have lk: "lookup_ok w s" using inv own by (simp add: inv_lookup owns_def)
  show "page_step s (page_base a) w (touch_page pread s a w)"
    using ensure_page_owned(1) [OF inv own] page_step_refl [OF inv own] by (simp add: touch_page_def)
  show "\<exists>pg. entry (touch_page pread s a w) (pages_ref (space_of (touch_page pread s a w) s)) (page_base a) = Some pg \<and>
      ensured (find_file_mapping s (page_base a) w \<noteq> None) (entry w (pages_ref (space_of w s)) (page_base a)) pg"
  proof (cases "resident s a w")
    case None
    then show ?thesis using ensure_page_owned(2) [OF inv own] by (simp add: touch_page_def)
  next
    case (Some b)
    then obtain pg where "entry w (pages_ref (space_of w s)) (page_base a) = Some pg" "pg_backing pg = Some b"
      using resident_entry [OF lk, of a] by (cases "entry w (pages_ref (space_of w s)) (page_base a)") auto
    then show ?thesis using Some by (auto simp: touch_page_def ensured_def)
  qed
qed

lemma detached_bytes:
  assumes "\<And>b0. pg_backing pg = Some b0 \<Longrightarrow> present w b0"
  shows "pb_bytes (backing_of (snd (detached pread w pg)) (fst (detached pread w pg))) =
    (case pg_backing pg of None \<Rightarrow> zero_page | Some b0 \<Rightarrow> pb_bytes (backing_of (store w) b0))"
proof (cases "pg_backing pg")
  case (Some b)
  then have "present w b" using assms by simp
  then have "materialize pread b (store w) = store w"
    by (simp add: present_def materialize_def Let_def split: option.splits)
  then show ?thesis using Some by (simp add: detached_def copy_backing_def Let_def case_prod_beta)
qed (simp add: detached_def)

text \<open>What a store of \<open>data\<close> at offset \<open>off\<close> of the page at \<open>base\<close> does.\<close>

definition stored :: "nat \<Rightarrow> nat \<Rightarrow> nat \<Rightarrow> u8 list \<Rightarrow> memory_world \<Rightarrow> memory_world \<Rightarrow> bool" where
  "stored s base off data w w' \<longleftrightarrow> page_inv w' \<and> owns s w' \<and> live w' = live w \<and>
     (\<forall>t\<in>set (live w). \<forall>x. t \<noteq> s \<or> x \<noteq> base \<longrightarrow>
        entry w' (pages_ref (space_of w' t)) x = entry w (pages_ref (space_of w t)) x) \<and>
     (\<exists>pg b. entry w' (pages_ref (space_of w' s)) base = Some pg \<and> pg_backing pg = Some b \<and>
        shared_writable pg = (case entry w (pages_ref (space_of w s)) base of None \<Rightarrow> False | Some p \<Rightarrow> shared_writable p) \<and>
        (\<not> shared_writable pg \<longrightarrow> sole w' (pages_ref (space_of w' s)) base b) \<and>
        (\<forall>b' j. present w b' \<longrightarrow> \<not> (b' = b \<and> off \<le> j \<and> j < off + length data) \<longrightarrow>
           pb_bytes (backing_of (store w') b') j = pb_bytes (backing_of (store w) b') j) \<and>
        (\<forall>i < length data. pb_bytes (backing_of (store w') b) (off + i) = data ! i) \<and>
        (\<forall>j. \<not> (off \<le> j \<and> j < off + length data) \<longrightarrow>
           (case Option.bind (entry w (pages_ref (space_of w s)) base) pg_backing of
              Some b0 \<Rightarrow> pb_bytes (backing_of (store w') b) j = pb_bytes (backing_of (store w) b0) j
            | None \<Rightarrow> find_file_mapping s base w = None \<longrightarrow> pb_bytes (backing_of (store w') b) j = 0))) \<and>
     store_sim (store w) (store w')"

lemma mark_bytes [simp]:
  "pb_bytes (backing_of (mark_shared_write b st) x) = pb_bytes (backing_of st x)"
  "pb_bytes (backing_of (invalidate_reservation_identity b st) x) = pb_bytes (backing_of st x)"
  by (auto simp: mark_shared_write_def invalidate_reservation_identity_def)

text \<open>The page is present and detached, then written; the tables of the recompiler do not matter.\<close>

lemma stored_by:
  assumes inv: "page_inv w" and own: "owns s w" and base: "base = page_base a" and step: "page_step s base w w1"
    and pg: "entry w1 (pages_ref (space_of w1 s)) base = Some pg"
      "ensured (find_file_mapping s base w \<noteq> None) (entry w (pages_ref (space_of w s)) base) pg"
    and wb: "writable_backing pread s base w1 = (b, w2)"
    and st5: "st5 = mark_shared_write b (invalidate_reservation_identity b (store (put_bytes b (a mod page_size) data w2)))"
    and same: "same_pages (w2\<lparr>store := st5\<rparr>) w5"
  shows "stored s base (a mod page_size) data w w5"
proof -
  have inv1: "page_inv w1" "owns s w1" "live w1 = live w" using step by (simp_all add: page_step_def)
  have bm: "base mod page_size = 0" by (simp add: base)
  note W = writable_backing_inv [OF inv1(1,2) pg(1) bm wb]
  define st2 where "st2 = snd (detached pread w1 pg)"
  have b: "b = fst (detached pread w1 pg)" and st2: "store w2 = st2"
    using wb by (auto simp: writable_backing_install [OF pg(1)] st2_def)
  have sim5: "store_sim (store w2) st5"
    unfolding st5 using put_bytes_sim(2) [of w2 b "a mod page_size" data] store_sim_trans page_ops_sim(2,4) by blast
  have inv5: "page_inv w5" by (rule same_pages_inv [OF same store_inv [OF W(1) sim5]])
  have own5: "owns s w5" using W(2) by (simp add: owns_same [OF same])
  have store5: "store w5 = st5" using same by (simp add: same_pages_def)
  have ref: "pages_ref (space_of w5 t) = pages_ref (space_of w2 t)" for t
    using same by (simp add: same_pages_def same_core_def)
  have ent: "entry w5 = entry w2" using same_pages_entry [OF same] by simp
  have live5: "live w5 = live w" using same W(3) inv1(3) by (simp add: same_pages_def)
  have solew: "sole w5 = sole w2" using same_pages_sole [OF same] by simp
  have others: "entry w2 (pages_ref (space_of w2 t)) x = entry w1 (pages_ref (space_of w1 t)) x"
    if "t \<in> set (live w)" "t \<noteq> s \<or> x \<noteq> base" for t x
    using that wb inv1(2,3) by (auto simp: writable_backing_install [OF pg(1)] install_entry owns_def)
  have bytes5: "pb_bytes (backing_of st5 x) = (if x = b then patch (a mod page_size) data (pb_bytes (backing_of st2 b))
      else pb_bytes (backing_of st2 x))" for x
    by (simp add: st5 put_bytes_def Let_def st2)
  have kept2: "bytes_kept (store w) st2"
    using step detached_sim(2) [of w1 pread pg] unfolding st2_def page_step_def
    by (blast intro: bytes_kept_trans)
  have old_bytes: "pb_bytes (backing_of st2 b) = pb_bytes (backing_of (store w) b0)"
    if "entry w (pages_ref (space_of w s)) base = Some p" "pg_backing p = Some b0" for p b0
  proof -
    have "pg = p" using pg(2) that by (simp add: ensured_def)
    have r: "refers w (pages_ref (space_of w s)) base b0" using that own by (auto intro: refersI simp: owns_def)
    have r1: "refers w1 (pages_ref (space_of w1 s)) base b0"
      using pg(1) that \<open>pg = p\<close> inv1(2) by (auto intro: refersI simp: owns_def)
    have "pb_bytes (backing_of st2 b) = pb_bytes (backing_of (store w1) b0)"
      using detached_bytes [of pg w1 pread] refers_present [OF inv1(1) r1] that(2) \<open>pg = p\<close>
      by (simp add: b st2_def)
    also have "\<dots> = pb_bytes (backing_of (store w) b0)"
      using step refers_present [OF inv r] by (simp add: page_step_def bytes_kept_def present_def)
    finally show ?thesis .
  qed
  define pg5 where "pg5 = pg\<lparr>pg_backing := Some b, file_cached := False, copy_on_write_possible := False\<rparr>"
  have "entry w5 (pages_ref (space_of w5 s)) base = Some pg5" using W(4) by (simp add: ent ref pg5_def)
  moreover have "shared_writable pg5 = (case entry w (pages_ref (space_of w s)) base of None \<Rightarrow> False | Some p \<Rightarrow> shared_writable p)"
    using pg(2) by (auto simp: pg5_def ensured_def split: option.splits)
  moreover have "sole w5 (pages_ref (space_of w5 s)) base b" if "\<not> shared_writable pg5"
    using W(5) that by (simp add: solew ref pg5_def)
  moreover have "pb_bytes (backing_of (store w5) b') j = pb_bytes (backing_of (store w) b') j"
    if "present w b'" "\<not> (b' = b \<and> a mod page_size \<le> j \<and> j < a mod page_size + length data)" for b' j
    using that kept2 by (auto simp: store5 bytes5 bytes_kept_def present_def patch_def)
  moreover have "pb_bytes (backing_of (store w5) b) (a mod page_size + i) = data ! i" if "i < length data" for i
    using that by (simp add: store5 bytes5 patch_def)
  moreover have "case Option.bind (entry w (pages_ref (space_of w s)) base) pg_backing of
      Some b0 \<Rightarrow> pb_bytes (backing_of (store w5) b) j = pb_bytes (backing_of (store w) b0) j
    | None \<Rightarrow> find_file_mapping s base w = None \<longrightarrow> pb_bytes (backing_of (store w5) b) j = 0"
    if out: "\<not> (a mod page_size \<le> j \<and> j < a mod page_size + length data)" for j
  proof (cases "Option.bind (entry w (pages_ref (space_of w s)) base) pg_backing")
    case (Some b0)
    then obtain p where "entry w (pages_ref (space_of w s)) base = Some p" "pg_backing p = Some b0"
      by (auto simp: bind_eq_Some_conv)
    then show ?thesis using old_bytes Some out by (auto simp: store5 bytes5 patch_def)
  next
    case None
    have "pg_backing pg = None" if "find_file_mapping s base w = None"
      using pg(2) None that by (auto simp: ensured_def)
    then show ?thesis
      using None out by (auto simp: store5 bytes5 patch_def b st2_def detached_def zero_page_def blank_backing_def)
  qed
  moreover have "entry w5 (pages_ref (space_of w5 t)) x = entry w (pages_ref (space_of w t)) x"
    if "t \<in> set (live w)" "t \<noteq> s \<or> x \<noteq> base" for t x
    using others [OF that] step that by (simp add: ent ref page_step_def)
  moreover have "store_sim (store w) (store w5)"
    using step detached_sim(1) [of w1 pread pg] sim5 unfolding store5 st2 st2_def page_step_def
    by (blast intro: store_sim_trans)
  ultimately show ?thesis
    unfolding stored_def
    using inv5 own5 live5 by (intro conjI exI [of _ pg5] exI [of _ b]) (auto simp: pg5_def)
qed

lemma store_piece_stored:
  assumes inv: "page_inv w" and own: "owns s w"
  shows "stored s (page_base a) (a mod page_size) data w (store_piece pread s a data w)"
proof -
  define w1 where "w1 = touch_page pread s a w"
  obtain b w2 where wb: "writable_backing pread s (page_base a) w1 = (b, w2)" by force
  obtain pg where pg: "entry w1 (pages_ref (space_of w1 s)) (page_base a) = Some pg"
      "ensured (find_file_mapping s (page_base a) w \<noteq> None) (entry w (pages_ref (space_of w s)) (page_base a)) pg"
    using touch_page_facts(2) [OF inv own] by (auto simp: w1_def)
  define w3 where "w3 = refresh_jit_page s a w2"
  have "same_pages w2 w3" by (simp add: w3_def)
  then have "same_pages (w2\<lparr>store := mark_shared_write b (invalidate_reservation_identity b
      (store (put_bytes b (a mod page_size) data w2)))\<rparr>) (store_piece pread s a data w)"
    by (simp add: store_piece_def w1_def [symmetric] wb w3_def [symmetric] mark_shared_backing_written_def put_bytes_def
        Let_def same_pages_def)
  from stored_by [OF inv own refl _ pg wb refl this] touch_page_facts(1) [OF inv own] show ?thesis by (simp add: w1_def)
qed

end
