(* ===== verification/Address_Space_Invariant.thy ===== *)
theory Address_Space_Invariant
  imports Address_Space_Writes
begin

text \<open>
  Every operation on an address space keeps the invariant of the page maps, leaves the pages of
  the other spaces alone, and histories of operations from the empty world reach only states that
  satisfy it.
\<close>

section \<open>Operations on one space\<close>

text \<open>What an operation on space \<open>s\<close> may do to the world: the invariant holds after it, and the
  page entries of every other space are what they were.\<close>

definition confined :: "nat \<Rightarrow> memory_world \<Rightarrow> memory_world \<Rightarrow> bool" where
  "confined s w w' \<longleftrightarrow> page_inv w' \<and> live w' = live w \<and> store_sim (store w) (store w') \<and>
     (\<forall>t\<in>set (live w). t \<noteq> s \<longrightarrow> (\<forall>x. entry w' (pages_ref (space_of w' t)) x = entry w (pages_ref (space_of w t)) x))"

lemma confined_refl: "page_inv w \<Longrightarrow> confined s w w"
  by (simp add: confined_def)

lemma confined_trans: "confined s a b \<Longrightarrow> confined s b c \<Longrightarrow> confined s a c"
  unfolding confined_def by (metis store_sim_trans)

lemma confined_same: "page_inv w \<Longrightarrow> same_pages w w' \<Longrightarrow> confined s w w'"
  using same_pages_inv same_pages_entry [of w w'] by (auto simp: confined_def same_pages_def same_core_def)

lemma confined_then_same: "confined s w w1 \<Longrightarrow> same_pages w1 w2 \<Longrightarrow> confined s w w2"
  using confined_same [of w1 w2 s] confined_trans by (auto simp: confined_def)

lemma confined_inv: "confined s w w' \<Longrightarrow> page_inv w'" "confined s w w' \<Longrightarrow> live w' = live w"
  by (simp_all add: confined_def)

lemma confined_fold:
  assumes "page_inv w" "P w"
    and "\<And>x w. x \<in> set xs \<Longrightarrow> page_inv w \<Longrightarrow> P w \<Longrightarrow> confined s w (f x w) \<and> P (f x w)"
  shows "confined s w (fold f xs w) \<and> P (fold f xs w)"
  using assms
proof (induction xs arbitrary: w)
  case (Cons x xs)
  have step: "confined s w (f x w)" "P (f x w)" using Cons.prems(3) [of x w] Cons.prems(1,2) by auto
  have "confined s (f x w) (fold f xs (f x w)) \<and> P (fold f xs (f x w))"
    using Cons.IH [of "f x w"] step Cons.prems(3) by (simp add: confined_def)
  then show ?case using confined_trans [OF step(1)] by simp
qed (simp add: confined_refl)

lemma ensure_unique_held: "held (ensure_unique_page_map s w) = held w" "store (ensure_unique_page_map s w) = store w"
proof (atomize (full), cases "page_map_unique (pages_ref (space_of w s)) w")
  case False
  show "held (ensure_unique_page_map s w) = held w \<and> store (ensure_unique_page_map s w) = store w"
    using ensure_unique_shared(4,5) [OF False] by simp
qed (simp add: ensure_unique_page_map_def)

lemma ensure_unique_confined:
  "page_inv w \<Longrightarrow> s \<in> set (live w) \<Longrightarrow> confined s w (ensure_unique_page_map s w)"
  using ensure_unique_inv [of w s] ensure_unique_entry [of w s] ensure_unique_held
  by (simp add: confined_def)

lemma set_space_core_confined:
  "page_inv w \<Longrightarrow> same_core (space_of w s) sp \<Longrightarrow> confined s w (set_space s sp w)"
  by (rule confined_same [OF _ same_pages_space])

section \<open>Changing the flags of pages\<close>

text \<open>Flags may change in any page map, as long as no page becomes writable in place.\<close>

definition relabelled :: "memory_world \<Rightarrow> nat \<Rightarrow> (nat, page) omap \<Rightarrow> bool" where
  "relabelled w m pm \<longleftrightarrow> aligned_map pm \<and> (\<forall>a. case (entry w m a, map_of pm a) of
     (None, None) \<Rightarrow> True
   | (Some pg, Some pg') \<Rightarrow> pg_backing pg' = pg_backing pg \<and> (in_place pg' \<longrightarrow> in_place pg) \<and>
       (copy_on_write_possible pg \<or> shared_writable pg \<longrightarrow> copy_on_write_possible pg' \<or> shared_writable pg')
   | _ \<Rightarrow> False)"

lemma relabelled_entry:
  assumes "relabelled w m pm"
  shows "map_of pm a = None \<longleftrightarrow> entry w m a = None"
    "map_of pm a = Some pg' \<Longrightarrow> \<exists>pg. entry w m a = Some pg \<and> pg_backing pg' = pg_backing pg \<and> (in_place pg' \<longrightarrow> in_place pg) \<and>
       (copy_on_write_possible pg \<or> shared_writable pg \<longrightarrow> copy_on_write_possible pg' \<or> shared_writable pg')"
    "entry w m a = Some pg \<Longrightarrow> \<exists>pg'. map_of pm a = Some pg' \<and> pg_backing pg' = pg_backing pg"
proof -
  have "case (entry w m a, map_of pm a) of (None, None) \<Rightarrow> True
   | (Some pg, Some pg') \<Rightarrow> pg_backing pg' = pg_backing pg \<and> (in_place pg' \<longrightarrow> in_place pg) \<and>
       (copy_on_write_possible pg \<or> shared_writable pg \<longrightarrow> copy_on_write_possible pg' \<or> shared_writable pg')
   | _ \<Rightarrow> False"
    using assms unfolding relabelled_def by blast
  then show "map_of pm a = None \<longleftrightarrow> entry w m a = None"
    "map_of pm a = Some pg' \<Longrightarrow> \<exists>pg. entry w m a = Some pg \<and> pg_backing pg' = pg_backing pg \<and> (in_place pg' \<longrightarrow> in_place pg) \<and>
       (copy_on_write_possible pg \<or> shared_writable pg \<longrightarrow> copy_on_write_possible pg' \<or> shared_writable pg')"
    "entry w m a = Some pg \<Longrightarrow> \<exists>pg'. map_of pm a = Some pg' \<and> pg_backing pg' = pg_backing pg"
    by (simp_all split: option.splits)
qed

lemma relabel_inv:
  assumes inv: "page_inv w" and r: "relabelled w m pm"
  shows "page_inv (w\<lparr>page_map_of := (page_map_of w)(m := pm)\<rparr>)" (is "page_inv ?w")
proof -
  have ent: "entry ?w x a = (if x = m then map_of pm a else entry w x a)" for x a by (simp add: entry_def)
  have maps: "maps ?w = maps w" by (simp add: maps_def)
  have refers: "refers ?w = refers w"
  proof (intro ext)
    fix x a b show "refers ?w x a b = refers w x a b"
      using relabelled_entry(2,3) [OF r] unfolding refers_def maps ent by (metis option.inject)
  qed
  have sole: "sole ?w = sole w" by (simp add: sole_def fun_eq_iff refers)
  have "present ?w = present w" by (simp add: present_def fun_eq_iff)
  then have "refs_ok ?w" using inv unfolding page_inv_def refs_ok_def refers by simp
  moreover have "private_ok ?w"
    unfolding private_ok_def sole maps
  proof (intro conjI ballI allI impI)
    fix x a pg b
    assume x: "x \<in> maps w" and e: "entry ?w x a = Some pg" "pg_backing pg = Some b" "in_place pg"
    obtain pg0 where "entry w x a = Some pg0" "pg_backing pg0 = Some b" "in_place pg0"
      using e relabelled_entry(2) [OF r, of a pg] by (auto simp: ent split: if_splits)
    then show "sole w x a b" by (rule in_place_sole [OF inv x])
  next
    fix x y a pg
    assume xy: "x \<in> set (live ?w)" "y \<in> set (live ?w)" "x \<noteq> y" "pages_ref (space_of ?w x) = pages_ref (space_of ?w y)"
      and e: "entry ?w (pages_ref (space_of ?w x)) a = Some pg" "pg_backing pg \<noteq> None"
    obtain pg0 where pg0: "entry w (pages_ref (space_of w x)) a = Some pg0" "pg_backing pg0 \<noteq> None"
      "copy_on_write_possible pg0 \<or> shared_writable pg0 \<longrightarrow> copy_on_write_possible pg \<or> shared_writable pg"
    proof (cases "pages_ref (space_of w x) = m")
      case True
      then have "map_of pm a = Some pg" using e by (simp add: ent)
      from relabelled_entry(2) [OF r this] show thesis using True e(2) that by metis
    next
      case False
      then show thesis using e that [of pg] by (simp add: ent)
    qed
    have "copy_on_write_possible pg0 \<or> shared_writable pg0"
      using inv xy pg0(1,2) unfolding page_inv_def private_ok_def by auto
    then show "copy_on_write_possible pg \<or> shared_writable pg" using pg0(3) by blast
  qed
  moreover have "\<forall>x\<in>maps ?w. aligned_map (page_map_of ?w x)"
    using inv r by (simp add: maps page_inv_def relabelled_def)
  moreover have "(entry ?w x a = None) = (entry w x a = None)" for x a
    using relabelled_entry(1) [OF r, of a] by (simp add: ent)
  then have "lookup_ok ?w t" if "t \<in> set (live w)" for t
    using inv that by (simp add: page_inv_def lookup_ok_def)
  ultimately show ?thesis by (simp add: page_inv_def)
qed

section \<open>Erasing pages\<close>

text \<open>With fewer references, a physical page that had one keeps at most that one.\<close>

lemma sole_shrink:
  assumes "sole w m a b" "\<And>m' a'. refers w' m' a' b \<Longrightarrow> refers w m' a' b" "set (held w') \<subseteq> set (held w)"
    and "\<And>t. t \<in> set (live w') \<Longrightarrow> \<exists>u\<in>set (live w).
      snd ` set (cache_pages (cache_of w' (cache_ref (space_of w' t)))) \<subseteq>
      snd ` set (cache_pages (cache_of w (cache_ref (space_of w u))))"
  shows "sole w' m a b"
  unfolding sole_def
proof (intro conjI ballI allI impI)
  fix m' a' assume "refers w' m' a' b"
  then show "m' = m" "a' = a" using sole_others [OF assms(1)] assms(2) by blast+
next
  show "b \<notin> set (held w')" using assms(1,3) by (auto simp: sole_def)
next
  fix t assume "t \<in> set (live w')"
  then obtain u where "u \<in> set (live w)" "snd ` set (cache_pages (cache_of w' (cache_ref (space_of w' t)))) \<subseteq>
      snd ` set (cache_pages (cache_of w (cache_ref (space_of w u))))" using assms(4) by blast
  then show "b \<notin> snd ` set (cache_pages (cache_of w' (cache_ref (space_of w' t))))"
    using assms(1) unfolding sole_def by blast
qed

lemma pointer_uncache:
  "pointer (space_of (uncache_page s a w) s) i = (if i = a div page_size then None else pointer (space_of w s) i)"
  using chunk_position [of i page_lookup_chunk_size "a div page_size"]
  by (auto simp: uncache_page_def pointer_def Let_def split: option.splits)

lemma uncache_other:
  "t \<noteq> s \<Longrightarrow> space_of (uncache_page s a w) t = space_of w t"
  "pages_ref (space_of (uncache_page s a w) t) = pages_ref (space_of w t)"
  "cache_ref (space_of (uncache_page s a w) t) = cache_ref (space_of w t)"
  "uncache_page s a w = set_space s (space_of (uncache_page s a w) s) w"
  by (auto simp: uncache_page_def Let_def split: option.splits)

lemma fold_uncache:
  "(\<forall>t. t \<noteq> s \<longrightarrow> space_of (fold (\<lambda>e. uncache_page s (fst e)) es w) t = space_of w t) \<and>
   pages_ref (space_of (fold (\<lambda>e. uncache_page s (fst e)) es w) s) = pages_ref (space_of w s) \<and>
   cache_ref (space_of (fold (\<lambda>e. uncache_page s (fst e)) es w) s) = cache_ref (space_of w s) \<and>
   fold (\<lambda>e. uncache_page s (fst e)) es w = set_space s (space_of (fold (\<lambda>e. uncache_page s (fst e)) es w) s) w \<and>
   pointer (space_of (fold (\<lambda>e. uncache_page s (fst e)) es w) s) i =
     (if i \<in> (\<lambda>e. fst e div page_size) ` set es then None else pointer (space_of w s) i)"
proof (induction es arbitrary: w)
  case (Cons e es)
  let ?w1 = "uncache_page s (fst e) w" and ?w2 = "fold (\<lambda>e. uncache_page s (fst e)) es (uncache_page s (fst e) w)"
  have "?w2 = set_space s (space_of ?w2 s) ?w1" using Cons.IH [of ?w1] by blast
  also have "\<dots> = set_space s (space_of ?w2 s) w"
    using uncache_other(4) [of s "fst e" w] set_space_twice by metis
  finally have "?w2 = set_space s (space_of ?w2 s) w" .
  then show ?case using Cons.IH [of ?w1] uncache_other(1-3) [where s = s and a = "fst e" and w = w] by (auto simp: pointer_uncache)
qed simp

text \<open>Erasing the pages between two addresses.\<close>

lemma filter_above:
  assumes "\<forall>e\<in>set m. a < fst e" "\<not> a < (k :: 'k :: linorder)"
  shows "filter (\<lambda>e. fst e < k) m = []" "filter (\<lambda>e. \<not> fst e < k) m = m"
  using assms by (auto simp: filter_empty_conv filter_id_conv)

lemma om_wf_filters:
  assumes "om_wf m"
  shows "takeWhile (\<lambda>e. fst e < k) m = filter (\<lambda>e. fst e < k) m"
    "dropWhile (\<lambda>e. fst e < k) m = filter (\<lambda>e. \<not> fst e < k) m"
  using assms by (induction m) (auto simp: om_wf_Cons filter_above)

lemma om_wf_filter: "om_wf m \<Longrightarrow> om_wf (filter P m)"
  by (simp add: om_wf_def sorted_wrt_filter)

lemma erase_between:
  assumes "om_wf m"
  shows "om_wf (om_before_lower a m @ dropWhile (\<lambda>e. fst e < fin) (om_lower a m))"
    "map_of (om_before_lower a m @ dropWhile (\<lambda>e. fst e < fin) (om_lower a m)) x =
       (if a \<le> x \<and> x < fin then None else map_of m x)"
    "takeWhile (\<lambda>e. fst e < fin) (om_lower a m) = filter (\<lambda>e. a \<le> fst e \<and> fst e < fin) m"
proof -
  have low: "om_lower a m = filter (\<lambda>e. \<not> fst e < a) m" by (simp add: om_lower_def om_wf_filters [OF assms])
  have wf: "om_wf (om_lower a m)" unfolding low by (rule om_wf_filter [OF assms])
  have eq: "om_before_lower a m @ dropWhile (\<lambda>e. fst e < fin) (om_lower a m) =
      filter (\<lambda>e. \<not> (a \<le> fst e \<and> fst e < fin)) m"
    unfolding om_wf_filters(2) [OF wf] unfolding low om_before_lower_def om_wf_filters(1) [OF assms]
    using assms by (induction m) (auto simp: om_wf_Cons filter_above intro!: filter_cong)
  show "om_wf (om_before_lower a m @ dropWhile (\<lambda>e. fst e < fin) (om_lower a m))"
    unfolding eq by (rule om_wf_filter [OF assms])
  show "map_of (om_before_lower a m @ dropWhile (\<lambda>e. fst e < fin) (om_lower a m)) x =
       (if a \<le> x \<and> x < fin then None else map_of m x)"
    unfolding eq by (induction m) auto
  show "takeWhile (\<lambda>e. fst e < fin) (om_lower a m) = filter (\<lambda>e. a \<le> fst e \<and> fst e < fin) m"
    unfolding om_wf_filters(1) [OF wf] unfolding low by (auto intro!: filter_cong)
qed

lemma erase_pages_inv:
  assumes inv: "page_inv w" and own: "owns s w"
  shows "confined s w (erase_pages s a fin w)"
    "entry (erase_pages s a fin w) (pages_ref (space_of (erase_pages s a fin w) s)) x =
       (if a \<le> x \<and> x < fin then None else entry w (pages_ref (space_of w s)) x)"
proof -
  have s: "s \<in> set (live w)" using own by (simp add: owns_def)
  define m w' where "m = pages_ref (space_of w s)" and "w' = erase_pages s a fin w"
  have al: "aligned_map (page_map_of w m)" using inv s by (simp add: page_inv_def m_def)
  then have wf: "om_wf (page_map_of w m)" by (simp add: aligned_map_def)
  note E = erase_between [OF wf, where a = a and fin = fin]
  define gone where "gone = filter (\<lambda>e. a \<le> fst e \<and> fst e < fin) (page_map_of w m)"
  define w1 where "w1 = fold (\<lambda>e. uncache_page s (fst e)) gone w"
  define pm where "pm = om_before_lower a (page_map_of w m) @ dropWhile (\<lambda>e. fst e < fin) (om_lower a (page_map_of w m))"
  note F = fold_uncache [of s gone w, folded w1_def]
  have sp1: "\<And>t. t \<noteq> s \<Longrightarrow> space_of w1 t = space_of w t" "pages_ref (space_of w1 s) = m"
    "cache_ref (space_of w1 s) = cache_ref (space_of w s)" and w1: "w1 = set_space s (space_of w1 s) w"
    using F by (auto simp: m_def)
  have refs: "pages_ref (space_of w1 t) = pages_ref (space_of w t)" "cache_ref (space_of w1 t) = cache_ref (space_of w t)" for t
    using sp1 by (cases "t = s"; simp add: m_def)+
  have w': "w' = set_pages s pm w1"
    by (simp add: w'_def erase_pages_def Let_def pages_of_def m_def [symmetric] E(3) gone_def w1_def pm_def)
  have fields: "live w1 = live w" "page_map_of w1 = page_map_of w" "store w1 = store w" "held w1 = held w"
    "cache_of w1 = cache_of w" "next_page_map w1 = next_page_map w" "next_space w1 = next_space w" "next_cache w1 = next_cache w"
    by (subst w1, simp)+
  have fields': "live w' = live w" "store w' = store w" "held w' = held w" "cache_of w' = cache_of w"
    "next_page_map w' = next_page_map w" "next_space w' = next_space w" "next_cache w' = next_cache w"
    "pages_ref (space_of w' t) = pages_ref (space_of w t)" "cache_ref (space_of w' t) = cache_ref (space_of w t)" for t
    by (simp_all add: w' fields refs)
  have maps: "maps w' = maps w" by (simp add: maps_def w' fields refs)
  have ent: "entry w' y x = (if y = m \<and> a \<le> x \<and> x < fin then None else entry w y x)" for y x
    using E(2) [of x, folded pm_def] by (simp add: entry_def w' fields sp1)
  have refers: "refers w y x b" if "refers w' y x b" for y x b
    using that by (auto simp: refers_def maps ent split: if_splits)
  have sole: "sole w' y x b" if "sole w y x b" for y x b
    by (rule sole_shrink [OF that refers]) (auto simp: fields')
  have "present w' = present w" by (simp add: present_def fun_eq_iff w' fields)
  moreover have "present w b" if "refers w' y x b" for y x b by (rule refers_present [OF inv refers [OF that]])
  ultimately have "refs_ok w'" using inv unfolding page_inv_def refs_ok_def by (simp add: fields')
  moreover have "private_ok w'"
    unfolding private_ok_def
  proof (intro conjI ballI allI impI)
    fix y x pg b
    assume "y \<in> maps w'" "entry w' y x = Some pg" "pg_backing pg = Some b" "in_place pg"
    then show "sole w' y x b" using in_place_sole [OF inv, of y x pg b] sole by (simp add: maps ent split: if_splits)
  next
    fix t u x pg
    assume tu: "t \<in> set (live w')" "u \<in> set (live w')" "t \<noteq> u" "pages_ref (space_of w' t) = pages_ref (space_of w' u)"
      and e: "entry w' (pages_ref (space_of w' t)) x = Some pg" "pg_backing pg \<noteq> None"
    have "entry w (pages_ref (space_of w t)) x = Some pg" using e(1) by (simp add: ent fields' split: if_splits)
    then show "copy_on_write_possible pg \<or> shared_writable pg"
      using inv tu e(2) unfolding page_inv_def private_ok_def by (simp add: fields')
  qed
  moreover have "aligned_map (page_map_of w' y)" if "y \<in> maps w'" for y
  proof (cases "y = m")
    case True
    have "set pm \<subseteq> set (page_map_of w m)"
      unfolding pm_def by (auto simp: om_before_lower_def om_lower_def dest!: set_takeWhileD set_dropWhileD)
    then show ?thesis using al E(1) True by (auto simp: w' sp1 aligned_map_def pm_def)
  next
    case False
    then have "page_map_of w' y = page_map_of w y" by (simp add: w' sp1 fields)
    then show ?thesis using inv that by (simp add: page_inv_def maps)
  qed
  moreover have "lookup_ok w' t" if "t \<in> set (live w)" for t
  proof (cases "t = s")
    case False
    then have "pages_ref (space_of w t) \<noteq> m" using own that by (auto simp: owns_def m_def)
    then show ?thesis using inv that False by (simp add: page_inv_def lookup_ok_def ent fields') (simp add: w' sp1)
  next
    case True
    have lk: "lookup_ok w s" using inv s by (simp add: page_inv_def)
    have "pointer (space_of w1 s) i = (if i \<in> (\<lambda>e. fst e div page_size) ` set gone then None else pointer (space_of w s) i)" for i
      using fold_uncache [of s gone w i] by (simp add: w1_def)
    moreover have "i \<in> (\<lambda>e. fst e div page_size) ` set gone \<longleftrightarrow>
        a \<le> i * page_size \<and> i * page_size < fin \<and> entry w m (i * page_size) \<noteq> None" for i
    proof -
      have al': "fst e mod page_size = 0" if "e \<in> set (page_map_of w m)" for e using al that by (simp add: aligned_map_def)
      have "fst e = i * page_size \<longleftrightarrow> fst e div page_size = i" if "e \<in> set (page_map_of w m)" for e
        using al' [OF that] by (metis add_0_right div_mult_mod_eq nonzero_mult_div_cancel_right page_size_nz)
      then have "i \<in> (\<lambda>e. fst e div page_size) ` set gone \<longleftrightarrow>
          (\<exists>e\<in>set (page_map_of w m). fst e = i * page_size \<and> a \<le> fst e \<and> fst e < fin)"
        unfolding gone_def image_iff by (simp add: Bex_def) metis
      also have "\<dots> \<longleftrightarrow> a \<le> i * page_size \<and> i * page_size < fin \<and> i * page_size \<in> fst ` set (page_map_of w m)"
        by force
      finally show ?thesis by (simp add: entry_def map_of_eq_None_iff)
    qed
    ultimately show ?thesis
      using lk unfolding True lookup_ok_def w' by (auto simp: sp1 m_def [symmetric] ent [unfolded w'])
  qed
  ultimately have "page_inv w'" by (simp add: page_inv_def fields')
  moreover have "entry w' (pages_ref (space_of w' t)) x = entry w (pages_ref (space_of w t)) x"
    if "t \<in> set (live w)" "t \<noteq> s" for t x
    using own that by (auto simp: ent fields' owns_def m_def)
  ultimately show "confined s w (erase_pages s a fin w)"
    unfolding w'_def [symmetric] by (simp add: confined_def fields')
  show "entry (erase_pages s a fin w) (pages_ref (space_of (erase_pages s a fin w) s)) x =
       (if a \<le> x \<and> x < fin then None else entry w (pages_ref (space_of w s)) x)"
    unfolding w'_def [symmetric] by (simp add: ent fields' m_def)
qed

section \<open>Mapping, unmapping and protection\<close>

lemma flush_same [simp]: "same_pages w (flush_shared_file_pages s a fin w)"
  by (simp add: flush_shared_file_pages_def same_pages_def)

lemma confined_owned: "confined s w w' \<Longrightarrow> s \<in> set (live w) \<Longrightarrow> s \<in> set (live w')"
  by (simp add: confined_def)

lemma as_map_same: "same_pages w (snd (as_map s a n p w))"
  by (auto simp: as_map_def Let_def invalidate_mapping_leases_def same_core_def
      intro!: same_pages_trans [OF _ refresh_range_same] same_pages_trans [OF _ permissions_same(1)] same_pages_space)

lemma as_map_confined: "page_inv w \<Longrightarrow> confined s w (snd (as_map s a n p w))"
  by (rule confined_same [OF _ as_map_same])

lemma unmap_range_confined:
  assumes inv: "page_inv w" and s: "s \<in> set (live w)"
  shows "confined s w (unmap_range s a fin w)"
proof -
  define w1 where "w1 = flush_shared_file_pages s a fin w"
  define w2 where "w2 = set_space s ((space_of w1 s)\<lparr>vm_regions := unmap a fin (vm_regions (space_of w1 s)),
    translation_profile_map := unmap a fin (translation_profile_map (space_of w1 s)),
    file_mappings := unmap_file_mappings a fin (file_mappings (space_of w1 s))\<rparr>) w1"
  define w3 where "w3 = ensure_unique_page_map s w2"
  define w4 where "w4 = erase_pages s a fin w3"
  have "same_pages w1 w2" unfolding w2_def by (rule same_pages_space) (simp add: same_core_def)
  then have c2: "confined s w w2" using confined_same [OF inv] same_pages_trans flush_same w1_def by metis
  have s2: "s \<in> set (live w2)" using confined_owned [OF c2 s] .
  have c3: "confined s w2 w3" "owns s w3"
    unfolding w3_def using ensure_unique_confined [OF _ s2] ensure_unique_inv(2) [OF _ s2] c2 by (simp_all add: confined_def)
  then have c4: "confined s w w4"
    using erase_pages_inv(1) [of w3 s a fin] c2 confined_trans unfolding w4_def by (metis confined_inv(1))
  have "unmap_range s a fin w = refresh_jit_page_range s a fin (clear_page_permissions s a fin
      (set_space s ((space_of w4 s)\<lparr>exclusive_write_tracked_pages :=
         exclusive_write_tracked_pages (space_of w4 s) - set (page_bases a fin)\<rparr>) w4))"
    by (simp add: unmap_range_def Let_def w1_def w2_def w3_def w4_def)
  moreover have "same_pages w4 (refresh_jit_page_range s a fin (clear_page_permissions s a fin
      (set_space s ((space_of w4 s)\<lparr>exclusive_write_tracked_pages :=
         exclusive_write_tracked_pages (space_of w4 s) - set (page_bases a fin)\<rparr>) w4)))"
    by (intro same_pages_trans [OF _ refresh_range_same] same_pages_trans [OF _ permissions_same(3)] same_pages_space)
      (simp add: same_core_def)
  ultimately show ?thesis using confined_then_same [OF c4] by metis
qed

lemma leases_core [simp]: "same_core sp (invalidate_mapping_leases a fin sp)"
  by (simp add: invalidate_mapping_leases_def same_core_def)

lemma confined_leases:
  assumes "page_inv w" "s \<in> set (live w)" "same_core (space_of w s) sp"
  shows "confined s w (unmap_range s a fin (set_space s sp w))"
proof -
  have c: "confined s w (set_space s sp w)" by (rule set_space_core_confined [OF assms(1,3)])
  show ?thesis
    by (rule confined_trans [OF c unmap_range_confined]) (use c assms(2) in \<open>simp_all add: confined_def\<close>)
qed

lemma as_unmap_confined:
  "page_inv w \<Longrightarrow> s \<in> set (live w) \<Longrightarrow> confined s w (snd (as_unmap s a n w))"
  by (simp add: as_unmap_def Let_def confined_refl confined_leases)

lemma unmap_lease_confined:
  "page_inv w \<Longrightarrow> s \<in> set (live w) \<Longrightarrow> confined s w (snd (unmap_mapping_lease s token w))"
  by (simp add: unmap_mapping_lease_def Let_def confined_refl confined_leases same_core_def
      invalidate_mapping_leases_def split: option.splits)

lemma relabel_confined:
  assumes inv: "page_inv w" and own: "owns s w" and r: "relabelled w (pages_ref (space_of w s)) pm"
  shows "confined s w (set_pages s pm w)"
proof -
  have "page_inv (set_pages s pm w)" unfolding set_pages_def by (rule relabel_inv [OF inv r])
  moreover have "entry (set_pages s pm w) (pages_ref (space_of w t)) x = entry w (pages_ref (space_of w t)) x"
    if "t \<in> set (live w)" "t \<noteq> s" for t x
    using own that by (auto simp: entry_def owns_def)
  ultimately show ?thesis by (simp add: confined_def)
qed

lemma relabelled_map:
  assumes inv: "page_inv w" and m: "m \<in> maps w"
    and f: "\<And>a pg. pg_backing (f a pg) = pg_backing pg \<and> (in_place (f a pg) \<longrightarrow> in_place pg) \<and>
       (copy_on_write_possible pg \<or> shared_writable pg \<longrightarrow> copy_on_write_possible (f a pg) \<or> shared_writable (f a pg))"
  shows "relabelled w m (map (\<lambda>(a, pg). (a, f a pg)) (page_map_of w m))"
proof -
  have al: "aligned_map (page_map_of w m)" using inv m by (simp add: page_inv_def)
  have mo: "map_of (map (\<lambda>(a, pg). (a, f a pg)) es) x = map_option (f x) (map_of es x)" for es x
    by (induction es) auto
  have "aligned_map (map (\<lambda>(a, pg). (a, f a pg)) (page_map_of w m))"
  proof -
    have "map fst (map (\<lambda>(a, pg). (a, f a pg)) (page_map_of w m)) = map fst (page_map_of w m)" by (simp add: case_prod_beta comp_def)
    then show ?thesis using al unfolding aligned_map_def om_wf_def
      by (auto simp: sorted_wrt_map case_prod_beta)
  qed
  then show ?thesis using f by (auto simp: relabelled_def mo entry_def split: option.splits)
qed

lemma as_protect_confined:
  assumes inv: "page_inv w" and s: "s \<in> set (live w)"
  shows "confined s w (snd (as_protect s a n p w))"
proof (cases "n = 0 \<or> range_overflows a n")
  case False
  define first fin where "first = page_base a" and "fin = page_range_end a n"
  obtain ok m where pr: "protect first fin p (vm_regions (space_of w s)) = (ok, m)" by force
  show ?thesis
  proof (cases ok)
    case True
    define w1 where "w1 = set_page_permissions s first fin p (set_space s ((space_of w s)\<lparr>vm_regions := m\<rparr>) w)"
    define w' where "w' = ensure_unique_page_map s w1"
    define f :: "nat \<Rightarrow> page \<Rightarrow> page" where "f = (\<lambda>a pg. if first \<le> a \<and> a < fin \<and> file_writeback_capable pg then pg\<lparr>file_writeback := True\<rparr> else pg)"
    define w2 where "w2 = (if has_permission p perm_write then set_pages s (map (\<lambda>(a, pg). (a, f a pg)) (pages_of s w')) w' else w1)"
    have "same_pages w w1" unfolding w1_def
      by (intro same_pages_trans [OF same_pages_space permissions_same(2)]) (simp add: same_core_def)
    then have c1: "confined s w w1" by (rule confined_same [OF inv])
    have s1: "s \<in> set (live w1)" by (rule confined_owned [OF c1 s])
    have inv1: "page_inv w1" by (rule confined_inv(1) [OF c1])
    have c': "confined s w w'" unfolding w'_def by (rule confined_trans [OF c1 ensure_unique_confined [OF inv1 s1]])
    have own: "owns s w'" unfolding w'_def by (rule ensure_unique_inv(2) [OF inv1 s1])
    have "relabelled w' (pages_ref (space_of w' s)) (map (\<lambda>(a, pg). (a, f a pg)) (pages_of s w'))"
      unfolding pages_of_def by (rule relabelled_map [OF confined_inv(1) [OF c']])
        (use own in \<open>auto simp: owns_def f_def in_place_def\<close>)
    then have "confined s w w2"
      using relabel_confined [OF confined_inv(1) [OF c'] own] confined_trans [OF c'] c1 by (simp add: w2_def)
    moreover have "snd (as_protect s a n p w) = refresh_jit_page_range s first fin w2"
      using False True pr
      by (simp add: as_protect_def Let_def first_def [symmetric] fin_def [symmetric] w1_def [symmetric]
          w'_def [symmetric] w2_def f_def)
    ultimately show ?thesis using confined_then_same [OF _ refresh_range_same] by metis
  qed (use False pr in \<open>simp add: as_protect_def Let_def first_def fin_def confined_refl [OF inv]\<close>)
qed (simp add: as_protect_def confined_refl [OF inv])

section \<open>Spaces that come and go\<close>

definition kept_space :: "memory_world \<Rightarrow> memory_world \<Rightarrow> nat \<Rightarrow> bool" where
  "kept_space w w' t \<longleftrightarrow> t \<in> set (live w) \<and> pages_ref (space_of w' t) = pages_ref (space_of w t) \<and>
     page_map_of w' (pages_ref (space_of w t)) = page_map_of w (pages_ref (space_of w t)) \<and>
     page_lookup (space_of w' t) = page_lookup (space_of w t) \<and> cache_ref (space_of w' t) = cache_ref (space_of w t) \<and>
     cache_of w' (cache_ref (space_of w t)) = cache_of w (cache_ref (space_of w t))"

definition emptied_space :: "memory_world \<Rightarrow> memory_world \<Rightarrow> nat \<Rightarrow> bool" where
  "emptied_space w w' t \<longleftrightarrow> pages_ref (space_of w' t) = next_page_map w \<and> page_map_of w' (next_page_map w) = [] \<and>
     page_lookup (space_of w' t) = (\<lambda>_. None) \<and>
     (cache_pages (cache_of w' (cache_ref (space_of w' t))) = [] \<or>
      (\<exists>u\<in>set (live w). cache_of w' (cache_ref (space_of w' t)) = cache_of w (cache_ref (space_of w u))))"

text \<open>A change of the spaces in which all but one keep what they have and that one has no pages.\<close>

lemma spaces_inv:
  assumes inv: "page_inv w" and store: "store w' = store w" and held: "set (held w') \<subseteq> set (held w)"
    and live: "distinct (live w')" "\<And>t. t \<in> set (live w') \<Longrightarrow> kept_space w w' t \<or> (t = f \<and> emptied_space w w' f)"
    and bounds: "\<And>t. t \<in> set (live w') \<Longrightarrow> t < next_space w' \<and> pages_ref (space_of w' t) < next_page_map w' \<and>
      cache_ref (space_of w' t) < next_cache w' \<and> cache_inv (cache_of w' (cache_ref (space_of w' t)), store w)"
  shows "page_inv w'"
proof -
  have fresh: "pages_ref (space_of w t) \<noteq> next_page_map w" if "t \<in> set (live w)" for t
    using inv that by (auto simp: page_inv_def refs_ok_def)
  have map_of: "m \<in> maps w \<and> page_map_of w' m = page_map_of w m \<or> m = next_page_map w \<and> page_map_of w' m = []"
    if "m \<in> maps w'" for m
  proof -
    obtain t where t: "t \<in> set (live w')" "m = pages_ref (space_of w' t)" using \<open>m \<in> maps w'\<close> by (auto simp: maps_def)
    from live(2) [OF t(1)] show ?thesis by (auto simp: t(2) kept_space_def emptied_space_def)
  qed
  have entry: "m \<in> maps w \<and> entry w m a = Some pg" if "m \<in> maps w'" "entry w' m a = Some pg" for m a pg
    using map_of [OF that(1)] that(2) by (auto simp: entry_def)
  have refers: "refers w m a b" if "refers w' m a b" for m a b
    using that entry by (auto simp: refers_def)
  have pres: "present w b" if "refers w' m a b" for m a b by (rule refers_present [OF inv refers [OF that]])
  have "present w' = present w" by (simp add: present_def store fun_eq_iff)
  moreover have "present w b" if "b \<in> set (held w')" for b using that held held_present [OF inv] by blast
  ultimately have "refs_ok w'"
    using inv pres live(1) bounds unfolding page_inv_def refs_ok_def by (simp add: store)
  moreover have "private_ok w'"
    unfolding private_ok_def
  proof (intro conjI ballI allI impI)
    fix m a pg b
    assume m: "m \<in> maps w'" and e: "entry w' m a = Some pg" "pg_backing pg = Some b" "in_place pg"
    have "sole w m a b" using entry [OF m e(1)] in_place_sole [OF inv _ _ e(2,3)] by blast
    then show "sole w' m a b"
    proof (rule sole_shrink [OF _ refers held])
      fix t assume t: "t \<in> set (live w')"
      obtain u where "u \<in> set (live w)" using entry [OF m e(1)] by (auto simp: maps_def)
      then show "\<exists>u\<in>set (live w). snd ` set (cache_pages (cache_of w' (cache_ref (space_of w' t)))) \<subseteq>
        snd ` set (cache_pages (cache_of w (cache_ref (space_of w u))))"
        using live(2) [OF t] by (fastforce simp: kept_space_def emptied_space_def)
    qed
  next
    fix x y a pg
    assume xy: "x \<in> set (live w')" "y \<in> set (live w')" "x \<noteq> y" "pages_ref (space_of w' x) = pages_ref (space_of w' y)"
      and e: "entry w' (pages_ref (space_of w' x)) a = Some pg" "pg_backing pg \<noteq> None"
    have "pages_ref (space_of w' x) \<in> maps w'" using xy(1) by simp
    from map_of [OF this] have ne: "pages_ref (space_of w' x) \<noteq> next_page_map w"
      using e(1) fresh by (auto simp: entry_def maps_def)
    have kept: "kept_space w w' x" "kept_space w w' y"
      using live(2) [OF xy(1)] live(2) [OF xy(2)] ne xy(4) by (auto simp: emptied_space_def)
    then have "entry w (pages_ref (space_of w x)) a = Some pg"
      using e(1) by (simp add: kept_space_def entry_def)
    then show "copy_on_write_possible pg \<or> shared_writable pg"
      using inv kept xy(3,4) e(2) unfolding page_inv_def private_ok_def kept_space_def by metis
  qed
  moreover have "aligned_map (page_map_of w' m)" if "m \<in> maps w'" for m
  proof -
    have "aligned_map []" by (simp add: aligned_map_def)
    then show ?thesis using map_of [OF that] inv unfolding page_inv_def by metis
  qed
  moreover have "lookup_ok w' t" if t: "t \<in> set (live w')" for t
    using live(2) [OF t]
  proof
    assume k: "kept_space w w' t"
    then have "lookup_ok w t" using inv by (simp add: page_inv_def kept_space_def)
    then show ?thesis using k by (simp add: lookup_ok_def kept_space_def entry_def pointer_def)
  next
    assume "t = f \<and> emptied_space w w' f"
    then show ?thesis by (simp add: lookup_ok_def emptied_space_def entry_def pointer_def)
  qed
  ultimately show ?thesis by (simp add: page_inv_def)
qed

lemma as_clear_confined:
  assumes inv: "page_inv w" and s: "s \<in> set (live w)"
  shows "confined s w (as_clear s w)"
proof -
  define w1 where "w1 = flush_shared_file_pages s 0 (2 ^ 32) w"
  define sp where "sp = (clear_jit_page_table (space_of w1 s))\<lparr>vm_regions := [], translation_profile_map := [],
    pages_ref := next_page_map w1, file_mappings := [], page_lookup := (\<lambda>_. None), page_permissions := (\<lambda>_. None),
    exclusive_write_tracked_pages := {}, tracked_write_ranges := [], mapping_leases := []\<rparr>"
  define w' where "w' = set_space s sp
    (w1\<lparr>page_map_of := (page_map_of w1)(next_page_map w1 := []), next_page_map := next_page_map w1 + 1\<rparr>)"
  have w': "as_clear s w = w'" by (simp add: as_clear_def w'_def w1_def sp_def Let_def)
  have same: "same_pages w w1" by (simp add: w1_def)
  have inv1: "page_inv w1" by (rule same_pages_inv [OF same inv])
  have s1: "s \<in> set (live w1)" using same s by (simp add: same_pages_def)
  have sp: "pages_ref sp = next_page_map w1" "page_lookup sp = (\<lambda>_. None)" "cache_ref sp = cache_ref (space_of w1 s)"
    by (simp_all add: sp_def clear_jit_page_table_def)
  have ref: "t < next_space w1" "pages_ref (space_of w1 t) < next_page_map w1" "cache_ref (space_of w1 t) < next_cache w1"
    "cache_inv (cache_of w1 (cache_ref (space_of w1 t)), store w1)" if "t \<in> set (live w1)" for t
    using inv1 that by (simp_all add: page_inv_def refs_ok_def)
  have inv': "page_inv w'"
  proof (rule spaces_inv [OF inv1, where f = s])
    show "kept_space w1 w' t \<or> t = s \<and> emptied_space w1 w' s" if "t \<in> set (live w')" for t
    proof (cases "t = s")
      case True
      have "emptied_space w1 w' s" using s1 by (auto simp: emptied_space_def w'_def sp)
      then show ?thesis using True by simp
    next
      case False
      have "t \<in> set (live w1)" using that by (simp add: w'_def)
      then show ?thesis using False ref(2) [of t] by (simp add: kept_space_def w'_def)
    qed
    show "t < next_space w' \<and> pages_ref (space_of w' t) < next_page_map w' \<and>
      cache_ref (space_of w' t) < next_cache w' \<and> cache_inv (cache_of w' (cache_ref (space_of w' t)), store w1)"
      if "t \<in> set (live w')" for t
      using that ref [of t] ref [OF s1] by (auto simp: w'_def sp)
  qed (use inv1 in \<open>simp_all add: w'_def page_inv_def refs_ok_def\<close>)
  have "entry w' (pages_ref (space_of w' t)) x = entry w1 (pages_ref (space_of w1 t)) x"
    if "t \<in> set (live w1)" "t \<noteq> s" for t x
    using that ref(2) [OF that(1)] by (simp add: w'_def entry_def)
  then have "confined s w1 w'" using inv' by (simp add: confined_def) (simp add: w'_def)
  then show ?thesis using confined_trans [OF confined_same [OF inv same]] w' by simp
qed

lemma destroy_space_inv:
  assumes inv: "page_inv w"
  shows "page_inv (destroy_space s w)"
proof -
  have inv1: "page_inv (flush_shared_file_pages s 0 (2 ^ 32) w)" (is "page_inv ?w1")
    by (rule same_pages_inv [OF flush_same inv])
  have "live ?w1 = live w" by (simp add: flush_shared_file_pages_def)
  then show ?thesis unfolding destroy_space_def
    by (intro spaces_inv [OF inv1, where f = s])
      (use inv1 in \<open>auto simp: kept_space_def page_inv_def refs_ok_def distinct_removeAll\<close>)
qed

lemma empty_cache_inv: "cache_inv (empty_cache n, st)"
  by (simp add: cache_inv_def empty_cache_def)

lemma new_space_inv:
  assumes inv: "page_inv w"
  shows "page_inv (snd (new_space w))"
proof -
  define w' where "w' = snd (new_space w)"
  have ref: "t < next_space w" "pages_ref (space_of w t) < next_page_map w" "cache_ref (space_of w t) < next_cache w"
    "cache_inv (cache_of w (cache_ref (space_of w t)), store w)" if "t \<in> set (live w)" for t
    using inv that by (simp_all add: page_inv_def refs_ok_def)
  have w': "live w' = next_space w # live w" "store w' = store w" "held w' = held w"
    "next_space w' = next_space w + 1" "next_page_map w' = next_page_map w + 1" "next_cache w' = next_cache w + 1"
    "space_of w' = (space_of w)(next_space w := fresh_space (next_page_map w) (next_cache w) (tracking_epoch (store w)))"
    "page_map_of w' = (page_map_of w)(next_page_map w := [])"
    "cache_of w' = (cache_of w)(next_cache w := empty_cache (32 * 1024))"
    by (simp_all add: w'_def new_space_def Let_def)
  have fs: "pages_ref (fresh_space m c e) = m" "cache_ref (fresh_space m c e) = c" "page_lookup (fresh_space m c e) = (\<lambda>_. None)" for m c e
    by (simp_all add: fresh_space_def)
  have old: "t \<noteq> next_space w" if "t \<in> set (live w)" for t using ref(1) [OF that] by simp
  have "page_inv w'"
  proof (rule spaces_inv [OF inv, where f = "next_space w"])
    show "kept_space w w' t \<or> t = next_space w \<and> emptied_space w w' (next_space w)" if "t \<in> set (live w')" for t
      using that ref [of t] old [of t] by (auto simp: kept_space_def emptied_space_def w' fs empty_cache_def)
    show "t < next_space w' \<and> pages_ref (space_of w' t) < next_page_map w' \<and>
      cache_ref (space_of w' t) < next_cache w' \<and> cache_inv (cache_of w' (cache_ref (space_of w' t)), store w)"
      if "t \<in> set (live w')" for t
      using that ref [of t] old [of t] by (auto simp: w' fs empty_cache_inv)
    show "distinct (live w')" using inv old by (auto simp: w' page_inv_def refs_ok_def)
  qed (simp_all add: w')
  then show ?thesis by (simp add: w'_def)
qed

section \<open>File mappings\<close>

lemma lookup_identity_pages: "set (cache_pages (snd (lookup_identity probe n g c))) \<subseteq> set (cache_pages c)"
  by (auto simp: lookup_identity_def Let_def erase_path_def split: option.splits)

lemma open_mapping_facts:
  "set (cache_pages (fst (snd (open_mapping probe path off n (c, st))))) \<subseteq> set (cache_pages c)"
  "store_sim st (snd (snd (open_mapping probe path off n (c, st))))"
proof -
  let ?l = "\<lambda>m g. lookup_identity probe m g c"
  show "set (cache_pages (fst (snd (open_mapping probe path off n (c, st))))) \<subseteq> set (cache_pages c)"
    using lookup_identity_pages [of probe _ _ c] by (simp add: open_mapping_def Let_def case_prod_beta split: option.splits)
  show "store_sim st (snd (snd (open_mapping probe path off n (c, st))))"
    by (simp add: open_mapping_def Let_def case_prod_beta store_sim_def store_ok_def split: option.splits)
qed

lemma cache_change_inv:
  assumes inv: "page_inv w" and s: "s \<in> set (live w)" and sim: "store_sim (store w) st" and ci: "cache_inv (c, st)"
    and sub: "set (cache_pages c) \<subseteq> set (cache_pages (cache_of w (cache_ref (space_of w s))))"
  shows "page_inv (w\<lparr>cache_of := (cache_of w)(cache_ref (space_of w s) := c), store := st\<rparr>)" (is "page_inv ?w")
proof -
  have ent: "entry ?w = entry w" "maps ?w = maps w" by (simp_all add: entry_def maps_def fun_eq_iff)
  then have refers: "refers ?w = refers w" by (simp add: refers_def fun_eq_iff)
  have pres: "present ?w b" if "present w b" for b using that sim by (auto simp: present_def store_sim_def)
  have "refs_ok ?w"
    using inv pres sim ci cache_inv_sim [OF _ sim] unfolding page_inv_def refs_ok_def refers by (auto simp: store_sim_def)
  moreover have "sole ?w m a b" if "sole w m a b" for m a b
  proof (rule sole_shrink [OF that])
    show "refers ?w m' a' b \<Longrightarrow> refers w m' a' b" for m' a' by (simp only: refers)
  qed (use sub s in \<open>auto intro: image_mono\<close>)
  then have "private_ok ?w" using inv unfolding page_inv_def private_ok_def ent by simp
  moreover have "\<forall>m\<in>maps ?w. aligned_map (page_map_of ?w m)" using inv unfolding ent page_inv_def by simp
  moreover have "\<forall>t\<in>set (live ?w). lookup_ok ?w t" using inv unfolding page_inv_def lookup_ok_def ent by simp
  ultimately show ?thesis unfolding page_inv_def by blast
qed

lemma map_file_confined:
  assumes inv: "page_inv w" and s: "s \<in> set (live w)"
  shows "confined s w (snd (map_file probe s a n p path off w))"
proof -
  define c where "c = cache_ref (space_of w s)"
  define r where "r = open_mapping probe path off n (cache_of w c, store w)"
  define w1 where "w1 = w\<lparr>cache_of := (cache_of w)(c := fst (snd r)), store := snd (snd r)\<rparr>"
  have "cache_inv (cache_of w c, store w)" using inv s by (simp add: page_inv_def refs_ok_def c_def)
  then have "cache_inv (fst (snd r), snd (snd r))" using open_mapping_inv [of "(cache_of w c, store w)"] by (simp add: r_def)
  then have "page_inv w1"
    unfolding w1_def c_def
    by (intro cache_change_inv [OF inv s]) (use open_mapping_facts in \<open>auto simp: r_def c_def\<close>)
  moreover have "store_sim (store w) (snd (snd r))" unfolding r_def by (rule open_mapping_facts(2))
  ultimately have c1: "confined s w w1" by (simp add: confined_def w1_def entry_def)
  have "snd (map_file probe s a n p path off w) = w \<or> same_pages w1 (snd (map_file probe s a n p path off w))"
    unfolding map_file_def Let_def c_def [symmetric] r_def [symmetric] case_prod_beta w1_def [symmetric]
    by (auto simp: same_core_def invalidate_mapping_leases_def split: option.splits
        intro!: same_pages_trans [OF same_pages_space permissions_same(1)] same_pages_space)
  then show ?thesis using confined_then_same [OF c1] confined_refl [OF inv] by metis
qed

end
