(* ===== verification/Address_Space_Stores.thy ===== *)
theory Address_Space_Stores
  imports Address_Space_Invariant
begin

text \<open>
  Stores into a space, byte by byte: which bytes a store changes, in its own space and in all
  others; and the remaining operations on pages (faults, sharing, mapping shared pages, forking),
  each confined to its space.
\<close>

declare copy_in_loop.simps [simp del] gather.simps [simp del]

section \<open>What stores leave alone\<close>

text \<open>The mapping side of all spaces: file mappings, regions and permissions.\<close>

definition same_view :: "memory_world \<Rightarrow> memory_world \<Rightarrow> bool" where
  "same_view w w' \<longleftrightarrow> chunk_of w' = chunk_of w \<and> next_chunk w' = next_chunk w \<and>
     (\<forall>t. file_mappings (space_of w' t) = file_mappings (space_of w t) \<and>
     page_permissions (space_of w' t) = page_permissions (space_of w t) \<and> vm_regions (space_of w' t) = vm_regions (space_of w t) \<and>
     mapping_leases (space_of w' t) = mapping_leases (space_of w t))"

lemma same_view_refl [simp]: "same_view w w"
  by (simp add: same_view_def)

lemma same_view_trans: "same_view a b \<Longrightarrow> same_view b c \<Longrightarrow> same_view a c"
  by (simp add: same_view_def)

lemma same_view_fold: "(\<And>x w. same_view w (f x w)) \<Longrightarrow> same_view w (fold f xs w)"
  by (induction xs arbitrary: w) (auto intro: same_view_trans)

lemma same_view_accessible: "same_view w w' \<Longrightarrow> range_accessible s a n p w' = range_accessible s a n p w"
proof -
  assume "same_view w w'"
  then have "page_permission s i w' = page_permission s i w" for i
    by (simp add: page_permission_def same_view_def split: option.split)
  then show ?thesis by (simp add: range_accessible_def)
qed

lemma same_view_mapping: "same_view w w' \<Longrightarrow> find_file_mapping s a w' = find_file_mapping s a w"
  by (simp add: find_file_mapping_def same_view_def)

lemma lookup_cache_view [simp]:
  "page_permissions (lookup_cache a m sp) = page_permissions sp" "vm_regions (lookup_cache a m sp) = vm_regions sp"
  "mapping_leases (lookup_cache a m sp) = mapping_leases sp"
  by (simp_all add: lookup_cache_def Let_def)

lemma fold_lookup_view:
  "page_permissions (fold (\<lambda>e. lookup_cache (fst e) m) es sp) = page_permissions sp"
  "vm_regions (fold (\<lambda>e. lookup_cache (fst e) m) es sp) = vm_regions sp"
  "mapping_leases (fold (\<lambda>e. lookup_cache (fst e) m) es sp) = mapping_leases sp"
  "file_mappings (fold (\<lambda>e. lookup_cache (fst e) m) es sp) = file_mappings sp"
  by (induction es arbitrary: sp) auto

lemma page_ops_view [simp]:
  "same_view w (set_page s base pg w)" "same_view w (set_pages s pm w)" "same_view w (cache_page s base w)"
  "same_view w (w\<lparr>store := st\<rparr>)" "same_view w (snd (load_backing pread s f off n w))"
  by (simp_all add: same_view_def cache_page_def load_backing_def Let_def case_prod_beta)

lemma ensure_unique_view [simp]: "same_view w (ensure_unique_page_map s w)"
  by (simp add: ensure_unique_page_map_def Let_def rebuild_page_lookup_def fold_cache_page same_view_def fold_lookup_view)

lemma ensure_page_view [simp]: "same_view w (ensure_page pread s a w)"
proof -
  have t: "same_view w (set_page s base pg (snd (load_backing pread s f off n (set_page s base pg' (ensure_unique_page_map s w)))))"
    "same_view w (set_page s base pg' (ensure_unique_page_map s w))" for base pg f off n pg'
    by (meson page_ops_view ensure_unique_view same_view_trans)+
  have c: "same_view w (cache_page s base w')" if "same_view w w'" for base w'
    using that page_ops_view(3) same_view_trans by blast
  show ?thesis by (auto simp: ensure_page_def Let_def case_prod_beta t intro!: c split: option.splits)
qed

lemma refresh_view [simp]: "same_view w (refresh_jit_page s a w)"
  by (simp add: refresh_jit_page_def Let_def same_view_def split: option.splits)

lemma writable_backing_view [simp]: "same_view w (snd (writable_backing pread s base w))"
  by (simp add: writable_backing_def Let_def case_prod_beta same_view_def)

lemma put_bytes_view [simp]: "same_view w (put_bytes b off data w)" "same_view w (mark_shared_backing_written s b w)"
  by (simp_all add: put_bytes_def mark_shared_backing_written_def Let_def same_view_def)

lemma store_piece_view [simp]: "same_view w (store_piece pread s a data w)"
proof -
  have "same_view w (touch_page pread s a w)" by (simp add: touch_page_def)
  then show ?thesis unfolding store_piece_def Let_def case_prod_beta
    by (meson writable_backing_view refresh_view put_bytes_view same_view_trans)
qed

lemma stamp_view [simp]: "same_view w (stamp_page s base w)" "same_view w (next_generation s w)"
  by (simp_all add: stamp_page_def next_generation_def same_view_def split: option.splits)

lemma mark_written_view [simp]: "same_view w (mark_written s a n w)"
proof -
  have "same_view v (fold (\<lambda>base w. if find_page s base w = None then w else stamp_page s base w) bs v)" for bs v
    by (rule same_view_fold) simp
  from same_view_trans [OF stamp_view(2) this] show ?thesis by (simp add: mark_written_def)
qed

lemma store_bytes_view [simp]: "same_view w (store_bytes pread s a data w)"
proof -
  have f: "same_view w (fold (\<lambda>(i, x). store_piece pread s (a + i) [x]) es w)" for es
    by (rule same_view_fold) (simp add: case_prod_beta)
  show ?thesis unfolding store_bytes_def Let_def
    by (auto intro!: f same_view_trans [OF _ stamp_view(1)] same_view_trans [OF _ stamp_view(2)]
        same_view_trans [OF _ mark_written_view])
qed

section \<open>Stores, byte by byte\<close>

definition shared_at :: "nat \<Rightarrow> nat \<Rightarrow> memory_world \<Rightarrow> bool" where
  "shared_at s x w = (case find_page s x w of None \<Rightarrow> False | Some pg \<Rightarrow> shared_writable pg)"

text \<open>Reading the byte now would fault no file page in.\<close>

definition settled :: "nat \<Rightarrow> nat \<Rightarrow> memory_world \<Rightarrow> bool" where
  "settled s x w \<longleftrightarrow> resident s x w \<noteq> None \<or> find_file_mapping s (page_base x) w = None"

text \<open>A store of space \<open>s\<close> to the addresses in \<open>R\<close>: pages of other spaces stay, and if the store goes
  to pages that are not shared, every other byte anybody reads stays.\<close>

definition wrote :: "nat \<Rightarrow> nat set \<Rightarrow> memory_world \<Rightarrow> memory_world \<Rightarrow> bool" where
  "wrote s R w w' \<longleftrightarrow> page_inv w' \<and> owns s w' \<and> live w' = live w \<and> store_sim (store w) (store w') \<and> same_view w w' \<and>
     (\<forall>t\<in>set (live w). t \<noteq> s \<longrightarrow> (\<forall>x. entry w' (pages_ref (space_of w' t)) x = entry w (pages_ref (space_of w t)) x)) \<and>
     (\<forall>x. shared_at s x w' = shared_at s x w) \<and> (\<forall>x. resident s x w \<noteq> None \<longrightarrow> resident s x w' \<noteq> None) \<and>
     ((\<forall>x\<in>R. \<not> shared_at s x w) \<longrightarrow>
        (\<forall>t\<in>set (live w). \<forall>x. t \<noteq> s \<or> (x \<notin> R \<and> settled s x w) \<longrightarrow> read_byte t x w' = read_byte t x w))"

lemma wrote_trans:
  assumes a: "wrote s R w w1" and b: "wrote s R' w1 w2"
  shows "wrote s (R \<union> R') w w2"
proof -
  have settled: "settled s x w1" if "settled s x w" for x
    using that a same_view_mapping [of w w1] by (auto simp: wrote_def settled_def)
  have v: "same_view w w2" using a b same_view_trans [of w w1 w2] by (simp add: wrote_def)
  have st: "store_sim (store w) (store w2)" using a b store_sim_trans by (auto simp: wrote_def)
  have "read_byte t x w2 = read_byte t x w"
    if "\<forall>x\<in>R \<union> R'. \<not> shared_at s x w" "t \<in> set (live w)" "t \<noteq> s \<or> (x \<notin> R \<union> R' \<and> settled s x w)" for t x
  proof -
    have p: "\<forall>x\<in>R. \<not> shared_at s x w" "\<forall>x\<in>R'. \<not> shared_at s x w" using that(1) by auto
    have c: "t \<noteq> s \<or> (x \<notin> R \<and> settled s x w)" "t \<noteq> s \<or> (x \<notin> R' \<and> settled s x w1)"
      using that(3) settled [of x] by auto
    have sh: "\<forall>x. shared_at s x w1 = shared_at s x w" and l: "live w1 = live w" using a by (simp_all add: wrote_def)
    have "read_byte t x w1 = read_byte t x w" using a that(2) p(1) c(1) by (simp add: wrote_def)
    moreover have "read_byte t x w2 = read_byte t x w1" using b that(2) p(2) c(2) sh l by (simp add: wrote_def)
    ultimately show ?thesis by simp
  qed
  moreover have "entry w2 (pages_ref (space_of w2 t)) x = entry w (pages_ref (space_of w t)) x"
    if "t \<in> set (live w)" "t \<noteq> s" for t x
    using a b that by (simp add: wrote_def)
  moreover have "shared_at s x w2 = shared_at s x w" "resident s x w \<noteq> None \<Longrightarrow> resident s x w2 \<noteq> None" for x
    using a b unfolding wrote_def by blast+
  moreover have "page_inv w2" "owns s w2" "live w2 = live w" using a b by (simp_all add: wrote_def)
  ultimately show ?thesis using v st unfolding wrote_def by blast
qed

lemma wrote_confined: "wrote s R w w' \<Longrightarrow> confined s w w'"
  by (simp add: wrote_def confined_def)

lemma wrote_same:
  assumes "page_inv w" "owns s w" "same_pages w w'" "same_view w w'"
  shows "wrote s R w w'"
proof -
  have "find_page s x w' = find_page s x w" for x
  proof -
    have "page_map_of w' = page_map_of w" "page_lookup (space_of w' s) = page_lookup (space_of w s)"
      using assms(3) by (simp_all add: same_pages_def same_core_def)
    from this show ?thesis unfolding find_page_def by (simp only:)
  qed
  then show ?thesis
    using assms same_pages_inv [OF assms(3,1)] owns_same [OF assms(3)] same_pages_resident [OF assms(3)]
      same_pages_entry [OF assms(3)]
    by (simp add: wrote_def shared_at_def) (simp add: same_pages_def same_core_def)
qed

lemma piece_address:
  assumes "a mod page_size + n \<le> page_size" "i < n"
  shows "page_base (a + i) = page_base a" "(a + i) mod page_size = a mod page_size + i"
proof -
  have lt: "a mod page_size + i < page_size" using assms by simp
  have "a + i = page_base a + (a mod page_size + i)" by (simp add: page_base_def)
  then have "a + i = a div page_size * page_size + (a mod page_size + i)" by (simp add: page_base_alt)
  then have m: "(a + i) mod page_size = a mod page_size + i" using lt by (metis mod_less mod_mult_self3)
  then show "(a + i) mod page_size = a mod page_size + i" .
  then show "page_base (a + i) = page_base a" unfolding page_base_def m using page_base_le [of a] by simp
qed

lemma piece_offset:
  assumes "page_base x = page_base a" "a mod page_size \<le> x mod page_size" "x mod page_size < a mod page_size + n"
  shows "a \<le> x \<and> x < a + n"
  using assms page_base_offset [of x] page_base_offset [of a] by linarith

lemma stored_wrote:
  assumes inv: "page_inv w" and own: "owns s w" and st: "stored s (page_base a) (a mod page_size) data w w'"
    and view: "same_view w w'" and fit: "a mod page_size + length data \<le> page_size"
  shows "wrote s {a..<a + length data} w w'"
    "i < length data \<Longrightarrow> resident s (a + i) w' \<noteq> None \<and> read_byte s (a + i) w' = data ! i"
    "resident s x w \<noteq> None \<Longrightarrow> \<forall>j < length data. (a + j) mod page_size \<noteq> x mod page_size \<Longrightarrow>
       read_byte s x w' = read_byte s x w"
proof -
  let ?base = "page_base a" and ?off = "a mod page_size" and ?n = "length data"
  have s: "s \<in> set (live w)" using own by (simp add: owns_def)
  have inv': "page_inv w'" "owns s w'" "live w' = live w" using st by (simp_all add: stored_def)
  have lk: "lookup_ok w t" "lookup_ok w' t" if "t \<in> set (live w)" for t
    using inv inv' that by (simp_all add: page_inv_def)
  have others: "entry w' (pages_ref (space_of w' t)) y = entry w (pages_ref (space_of w t)) y"
    if "t \<in> set (live w)" "t \<noteq> s \<or> y \<noteq> ?base" for t y
    using st that by (simp add: stored_def)
  obtain pg b where pg: "entry w' (pages_ref (space_of w' s)) ?base = Some pg" "pg_backing pg = Some b"
    "shared_writable pg = (case entry w (pages_ref (space_of w s)) ?base of None \<Rightarrow> False | Some p \<Rightarrow> shared_writable p)"
    "\<not> shared_writable pg \<Longrightarrow> sole w' (pages_ref (space_of w' s)) ?base b"
    and kept: "\<And>b' j. present w b' \<Longrightarrow> \<not> (b' = b \<and> ?off \<le> j \<and> j < ?off + ?n) \<Longrightarrow>
           pb_bytes (backing_of (store w') b') j = pb_bytes (backing_of (store w) b') j"
    and new: "\<And>i. i < ?n \<Longrightarrow> pb_bytes (backing_of (store w') b) (?off + i) = data ! i"
    and rest: "\<And>j. \<not> (?off \<le> j \<and> j < ?off + ?n) \<Longrightarrow>
           (case Option.bind (entry w (pages_ref (space_of w s)) ?base) pg_backing of
              Some b0 \<Rightarrow> pb_bytes (backing_of (store w') b) j = pb_bytes (backing_of (store w) b0) j
            | None \<Rightarrow> find_file_mapping s ?base w = None \<longrightarrow> pb_bytes (backing_of (store w') b) j = 0)"
    using st unfolding stored_def by blast
  have res': "resident s y w' = Some b" if "page_base y = ?base" for y
    by (simp add: resident_entry [OF lk(2) [OF s]] that pg)
  have rd': "read_byte s y w' = pb_bytes (backing_of (store w') b) (y mod page_size)" if "page_base y = ?base" for y
    by (simp add: read_byte_def res' [OF that])
  show new_read: "resident s (a + i) w' \<noteq> None \<and> read_byte s (a + i) w' = data ! i" if "i < length data" for i
    using piece_address [OF fit that] new [OF that] by (simp add: res' rd')
  have far: "resident t y w' = resident t y w" if "t \<in> set (live w)" "t \<noteq> s \<or> page_base y \<noteq> ?base" for t y
    using others [OF that(1)] that by (simp add: resident_entry [OF lk(1) [OF that(1)]] resident_entry [OF lk(2) [OF that(1)]])
  have pres: "present w b'" if "t \<in> set (live w)" "resident t y w = Some b'" for t y b'
    using that refers_present [OF inv refersI [OF in_maps]]
    by (auto simp: resident_entry [OF lk(1) [OF that(1)]] bind_eq_Some_conv)
  have near: "read_byte s y w' = read_byte s y w"
    if "page_base y = ?base" "settled s y w" "\<not> (?off \<le> y mod page_size \<and> y mod page_size < ?off + ?n)" for y
  proof -
    have "read_byte s y w = (case Option.bind (entry w (pages_ref (space_of w s)) ?base) pg_backing of
        None \<Rightarrow> 0 | Some b0 \<Rightarrow> pb_bytes (backing_of (store w) b0) (y mod page_size))"
      by (simp add: read_byte_def resident_entry [OF lk(1) [OF s]] that(1))
    then show ?thesis
      using rest [OF that(3)] that(1,2)
      by (auto simp: rd' [OF that(1)] settled_def resident_entry [OF lk(1) [OF s]] split: option.splits)
  qed
  show "read_byte s x w' = read_byte s x w"
    if "resident s x w \<noteq> None" "\<forall>j < length data. (a + j) mod page_size \<noteq> x mod page_size" for x
  proof -
    have out: "\<not> (?off \<le> x mod page_size \<and> x mod page_size < ?off + ?n)"
    proof
      assume h: "?off \<le> x mod page_size \<and> x mod page_size < ?off + ?n"
      then have "x mod page_size - ?off < ?n" by linarith
      then have "(a + (x mod page_size - ?off)) mod page_size \<noteq> x mod page_size"
        and "(a + (x mod page_size - ?off)) mod page_size = ?off + (x mod page_size - ?off)"
        using that(2) piece_address(2) [OF fit] by blast+
      then show False using h by linarith
    qed
    show ?thesis
    proof (cases "page_base x = ?base")
      case True
      then show ?thesis by (rule near) (use that out in \<open>auto simp: settled_def\<close>)
    next
      case False
      then have "resident s x w' = resident s x w" using far [OF s] by simp
      then show ?thesis using that(1) kept pres [OF s] out by (auto simp: read_byte_def)
    qed
  qed
  have shared: "shared_at s y w' = shared_at s y w" for y
    using others [OF s, of "page_base y"] pg(1,3)
    by (cases "page_base y = ?base") (simp_all add: shared_at_def find_page_entry [OF lk(1) [OF s]] find_page_entry [OF lk(2) [OF s]])
  have iso: "read_byte t y w' = read_byte t y w"
    if priv: "\<forall>y\<in>{a..<a + ?n}. \<not> shared_at s y w" and t: "t \<in> set (live w)"
      and ty: "t \<noteq> s \<or> (y \<notin> {a..<a + ?n} \<and> settled s y w)" for t y
  proof (cases "t = s \<and> page_base y = ?base")
    case True
    then show ?thesis using near [of y] ty piece_offset [of y a ?n] by auto
  next
    case False
    then have eq: "resident t y w' = resident t y w" using far [OF t] by auto
    show ?thesis
    proof (cases "resident t y w")
      case (Some b')
      have "\<not> (b' = b \<and> ?off \<le> y mod page_size \<and> y mod page_size < ?off + ?n)"
      proof
        assume b: "b' = b \<and> ?off \<le> y mod page_size \<and> y mod page_size < ?off + ?n"
        then have "a \<in> {a..<a + ?n}" by auto
        then have "\<not> shared_at s a w" using priv by blast
        then have "\<not> shared_writable pg" using pg(3) by (simp add: shared_at_def find_page_entry [OF lk(1) [OF s]] split: option.splits)
        then have sole: "sole w' (pages_ref (space_of w' s)) ?base b" by (rule pg(4))
        obtain pg' where "entry w' (pages_ref (space_of w' t)) (page_base y) = Some pg'" "pg_backing pg' = Some b"
          using eq Some b by (auto simp: resident_entry [OF lk(2) [OF t]] bind_eq_Some_conv)
        then have "refers w' (pages_ref (space_of w' t)) (page_base y) b"
          using t inv'(3) by (auto intro!: refersI)
        from sole_others [OF sole this] show False using False inv'(2,3) t by (auto simp: owns_def)
      qed
      then show ?thesis using kept pres [OF t Some] eq Some by (simp add: read_byte_def)
    qed (simp add: read_byte_def eq)
  qed
  have res: "resident s y w' \<noteq> None" if "resident s y w \<noteq> None" for y
    using that far [OF s, of y] res' [of y] by (cases "page_base y = ?base") auto
  show "wrote s {a..<a + length data} w w'"
    unfolding wrote_def using inv' view iso res shared others st by (simp add: stored_def)
qed

lemma wrote_refl: "page_inv w \<Longrightarrow> owns s w \<Longrightarrow> wrote s R w w"
  by (rule wrote_same) simp_all

lemma wrote_inv: "wrote s R w w' \<Longrightarrow> page_inv w'" "wrote s R w w' \<Longrightarrow> owns s w'" "wrote s R w w' \<Longrightarrow> live w' = live w"
  "wrote s R w w' \<Longrightarrow> same_view w w'"
  by (simp_all add: wrote_def)

lemma flags_wrote:
  assumes inv: "page_inv w" and own: "owns s w" and base: "base mod page_size = 0"
    and old: "entry w (pages_ref (space_of w s)) base = Some pg"
    and new: "pg_backing pg' = pg_backing pg" "shared_writable pg' = shared_writable pg" "in_place pg' \<Longrightarrow> in_place pg"
  shows "wrote s R w (set_page s base pg' w)"
    "read_byte s x (set_page s base pg' w) = read_byte s x w" "resident s x (set_page s base pg' w) = resident s x w"
proof -
  have s: "s \<in> set (live w)" using own by (simp add: owns_def)
  define w' where "w' = set_page s base pg' w"
  have w': "w' = place_page s base pg' w" using old by (simp add: place_page_def w'_def entry_def pages_of_def)
  have inv': "page_inv w'" unfolding w' by (rule install_inv [OF inv own base may_install_flags [OF inv s old new(1,3)]])
  have own': "owns s w'" using own by (simp add: w')
  have ent: "entry w' (pages_ref (space_of w t)) y =
      (if t = s \<and> y = base then Some pg' else entry w (pages_ref (space_of w t)) y)" if "t \<in> set (live w)" for t y
    using own that by (auto simp: w' install_entry owns_def)
  have refs: "pages_ref (space_of w' t) = pages_ref (space_of w t)" for t by (simp add: w')
  have lk: "lookup_ok w t" "lookup_ok w' t" if "t \<in> set (live w)" for t
    using inv inv' that by (simp_all add: page_inv_def w')
  have res: "resident t y w' = resident t y w" if "t \<in> set (live w)" for t y
    using ent [OF that] old new(1)
    by (auto simp: resident_entry [OF lk(1) [OF that]] resident_entry [OF lk(2) [OF that]] refs)
  have rd: "read_byte t y w' = read_byte t y w" if "t \<in> set (live w)" for t y
  proof -
    have "store w' = store w" by (simp add: w')
    then show ?thesis unfolding read_byte_def res [OF that] by (simp only:)
  qed
  have sh: "shared_at s y w' = shared_at s y w" for y
    using ent [OF s] old new(2)
    by (auto simp: shared_at_def find_page_entry [OF lk(1) [OF s]] find_page_entry [OF lk(2) [OF s]] refs)
  show "wrote s R w (set_page s base pg' w)"
    unfolding w'_def [symmetric] wrote_def using inv' own' rd sh res [OF s] ent refs
    by (auto simp: w'_def)
  show "read_byte s x (set_page s base pg' w) = read_byte s x w" "resident s x (set_page s base pg' w) = resident s x w"
    using rd [OF s] res [OF s] by (simp_all add: w'_def)
qed

lemma stamp_page_wrote:
  assumes "page_inv w" "owns s w" "base mod page_size = 0"
  shows "wrote s R w (stamp_page s base w)" "read_byte s x (stamp_page s base w) = read_byte s x w"
    "resident s x (stamp_page s base w) = resident s x w"
proof -
  show "wrote s R w (stamp_page s base w)" "read_byte s x (stamp_page s base w) = read_byte s x w"
    "resident s x (stamp_page s base w) = resident s x w"
    unfolding stamp_page_def
    using flags_wrote [OF assms(1-3), of pg "pg\<lparr>pg_generation := write_generation (space_of w s)\<rparr>" for pg] wrote_refl [OF assms(1,2)]
    by (simp_all add: entry_def pages_of_def in_place_def split: option.split)
qed

lemma next_generation_same [simp]: "same_pages w (next_generation s w)"
  by (simp add: next_generation_def same_pages_space same_core_def)

lemma next_generation_wrote: "page_inv w \<Longrightarrow> owns s w \<Longrightarrow> wrote s R w (next_generation s w)"
  by (rule wrote_same) simp_all

lemma page_bases_mod: "first mod page_size = 0 \<Longrightarrow> base \<in> set (page_bases first fin) \<Longrightarrow> base mod page_size = 0"
  by (auto simp: page_bases_def)

lemma mark_written_wrote:
  assumes inv: "page_inv w" and own: "owns s w"
  shows "wrote s {} w (mark_written s a n w) \<and> (\<forall>x. read_byte s x (mark_written s a n w) = read_byte s x w \<and>
    resident s x (mark_written s a n w) = resident s x w)"
proof -
  define f where "f = (\<lambda>base w. if find_page s base w = None then w else stamp_page s base w)"
  have loop: "wrote s {} v (fold f bs v) \<and> (\<forall>x. read_byte s x (fold f bs v) = read_byte s x v \<and> resident s x (fold f bs v) = resident s x v)"
    if "page_inv v" "owns s v" "\<forall>b\<in>set bs. b mod page_size = 0" for bs v
    using that
  proof (induction bs arbitrary: v)
    case (Cons b bs)
    have step: "wrote s {} v (f b v) \<and> (\<forall>x. read_byte s x (f b v) = read_byte s x v \<and> resident s x (f b v) = resident s x v)"
      using stamp_page_wrote [of v s b] Cons.prems wrote_refl by (simp add: f_def)
    then have "wrote s {} (f b v) (fold f bs (f b v)) \<and> (\<forall>x. read_byte s x (fold f bs (f b v)) = read_byte s x (f b v) \<and>
        resident s x (fold f bs (f b v)) = resident s x (f b v))"
      using Cons.IH [of "f b v"] Cons.prems wrote_inv [of s "{}" v] by auto
    then show ?case using step wrote_trans [of s "{}" v "f b v" "{}" "fold f bs (f b v)"] by simp
  qed (simp add: wrote_refl)
  define v where "v = next_generation s w"
  have v: "wrote s {} w v" unfolding v_def by (rule next_generation_wrote [OF inv own])
  have rv: "read_byte s x v = read_byte s x w" "resident s x v = resident s x w" for x
    unfolding v_def by (rule same_pages_resident [OF next_generation_same])+
  have bm: "\<forall>b\<in>set (page_bases (page_base a) fin). b mod page_size = 0" for fin
    using page_bases_mod [OF page_base_mod] by blast
  show ?thesis
  proof (cases "tracks_write s a n w")
    case True
    then have eq: "mark_written s a n w = fold f (page_bases (page_base a) (page_base (a + (n - 1)) + 1)) v"
      by (simp add: mark_written_def f_def v_def)
    show ?thesis unfolding eq
      using loop [OF wrote_inv(1,2) [OF v] bm] wrote_trans [OF v, of "{}"] rv by simp
  qed (simp add: mark_written_def wrote_refl [OF inv own])
qed

lemma store_piece_wrote:
  assumes "page_inv w" "owns s w" "a mod page_size + length data \<le> page_size"
  shows "wrote s {a..<a + length data} w (store_piece pread s a data w)"
    "i < length data \<Longrightarrow> resident s (a + i) (store_piece pread s a data w) \<noteq> None \<and>
       read_byte s (a + i) (store_piece pread s a data w) = data ! i"
    "resident s x w \<noteq> None \<Longrightarrow> \<forall>j < length data. (a + j) mod page_size \<noteq> x mod page_size \<Longrightarrow>
       read_byte s x (store_piece pread s a data w) = read_byte s x w"
  using stored_wrote [OF assms(1,2) store_piece_stored [OF assms(1,2)] store_piece_view assms(3)] by blast+

lemma offsets_differ:
  assumes "0 < d" "d < page_size"
  shows "(c + d) mod page_size \<noteq> c mod page_size"
proof
  assume "(c + d) mod page_size = c mod page_size"
  then have "page_size dvd d" by (metis add_diff_cancel_left' le_add1 mod_eq_dvd_iff_nat)
  then show False using assms by (simp add: nat_dvd_not_less)
qed

lemma store_each:
  assumes "page_inv w" "owns s w" "length xs \<le> page_size"
    and f_def: "f = (\<lambda>(i, x). store_piece pread s (a + i) [x])"
  shows "wrote s {a + k..<a + k + length xs} w (fold f (enumerate k xs) w) \<and>
    (\<forall>i < length xs. resident s (a + k + i) (fold f (enumerate k xs) w) \<noteq> None \<and>
       read_byte s (a + k + i) (fold f (enumerate k xs) w) = xs ! i) \<and>
    (\<forall>y. resident s y w \<noteq> None \<longrightarrow> (\<forall>j < length xs. (a + k + j) mod page_size \<noteq> y mod page_size) \<longrightarrow>
       read_byte s y (fold f (enumerate k xs) w) = read_byte s y w)"
  using assms(1-3)
proof (induction xs arbitrary: w k)
  case Nil
  then show ?case by (simp add: wrote_refl)
next
  case (Cons x xs)
  define w1 where "w1 = store_piece pread s (a + k) [x] w"
  have "(a + k) mod page_size + 1 \<le> page_size" using mod_less_divisor [OF page_size_pos, of "a + k"] by linarith
  then have fit: "(a + k) mod page_size + length [x] \<le> page_size" by simp
  note P = store_piece_wrote [OF Cons.prems(1,2) fit, where pread = pread, folded w1_def]
  define w2 where "w2 = fold f (enumerate (Suc k) xs) w1"
  have w2: "fold f (enumerate k (x # xs)) w = w2" by (simp add: w2_def w1_def f_def)
  have I: "wrote s {a + Suc k..<a + Suc k + length xs} w1 w2"
    "\<And>i. i < length xs \<Longrightarrow> resident s (a + Suc k + i) w2 \<noteq> None \<and> read_byte s (a + Suc k + i) w2 = xs ! i"
    "\<And>y. resident s y w1 \<noteq> None \<Longrightarrow> \<forall>j < length xs. (a + Suc k + j) mod page_size \<noteq> y mod page_size \<Longrightarrow>
       read_byte s y w2 = read_byte s y w1"
    using Cons.IH [of w1 "Suc k"] wrote_inv(1,2) [OF P(1)] Cons.prems(3) unfolding w2_def by simp_all
  have R: "{a + k..<a + k + length [x]} \<union> {a + Suc k..<a + Suc k + length xs} = {a + k..<a + k + length (x # xs)}" by auto
  have W: "wrote s {a + k..<a + k + length (x # xs)} w w2" using wrote_trans [OF P(1) I(1)] unfolding R .
  have r1: "resident s (a + k) w1 \<noteq> None" "read_byte s (a + k) w1 = x" using P(2) [of 0] by simp_all
  have first: "resident s (a + k) w2 \<noteq> None" "read_byte s (a + k) w2 = x"
  proof -
    show "resident s (a + k) w2 \<noteq> None" using I(1) r1(1) by (auto simp: wrote_def)
    have "(a + Suc k + j) mod page_size \<noteq> (a + k) mod page_size" if "j < length xs" for j
      using offsets_differ [of "Suc j" "a + k"] that Cons.prems(3) by simp
    then show "read_byte s (a + k) w2 = x" using I(3) r1 by simp
  qed
  have content: "resident s (a + k + i) w2 \<noteq> None \<and> read_byte s (a + k + i) w2 = (x # xs) ! i" if "i < length (x # xs)" for i
    using first I(2) [of "i - 1"] that by (cases i) simp_all
  have kept: "read_byte s y w2 = read_byte s y w"
    if y: "resident s y w \<noteq> None" "\<forall>j < length (x # xs). (a + k + j) mod page_size \<noteq> y mod page_size" for y
  proof -
    have "(a + k + 0) mod page_size \<noteq> y mod page_size" using y(2) by blast
    then have "\<forall>j < length [x]. (a + k + j) mod page_size \<noteq> y mod page_size" by simp
    then have "read_byte s y w1 = read_byte s y w" using P(3) [OF y(1)] by simp
    moreover have "resident s y w1 \<noteq> None" using P(1) y(1) by (simp add: wrote_def)
    moreover have "\<forall>j < length xs. (a + Suc k + j) mod page_size \<noteq> y mod page_size"
      using y(2) by (metis Suc_less_eq add_Suc_shift add_Suc_right length_Cons add.assoc)
    ultimately show ?thesis using I(3) by simp
  qed
  show ?case unfolding w2 using W content kept by blast
qed

lemma store_bytes_wrote:
  assumes inv: "page_inv w" and own: "owns s w" and len: "length data \<le> page_size"
  shows "wrote s {a..<a + length data} w (store_bytes pread s a data w)"
    "i < length data \<Longrightarrow> resident s (a + i) (store_bytes pread s a data w) \<noteq> None \<and>
       read_byte s (a + i) (store_bytes pread s a data w) = data ! i"
proof -
  let ?w = "store_bytes pread s a data w"
  have "wrote s {a..<a + length data} w ?w \<and>
    (\<forall>i < length data. resident s (a + i) ?w \<noteq> None \<and> read_byte s (a + i) ?w = data ! i)"
  proof (cases "a mod page_size \<le> page_size - length data")
    case True
    then have fit: "a mod page_size + length data \<le> page_size" using len by linarith
    define w1 where "w1 = store_piece pread s a data w"
    note P = store_piece_wrote [OF inv own fit, where pread = pread, folded w1_def]
    define w2 where "w2 = next_generation s w1"
    have w2: "wrote s {} w1 w2" unfolding w2_def by (rule next_generation_wrote [OF wrote_inv(1,2) [OF P(1)]])
    have r2: "read_byte s x w2 = read_byte s x w1" "resident s x w2 = resident s x w1" for x
      unfolding w2_def by (rule same_pages_resident [OF next_generation_same])+
    note S = stamp_page_wrote [OF wrote_inv(1,2) [OF w2] page_base_mod, of _ a]
    have "?w = (if tracks_write s a (length data) w1 then stamp_page s (page_base a) w2 else w1)"
      using True by (simp add: store_bytes_def w1_def w2_def Let_def)
    moreover have "wrote s {a..<a + length data} w (stamp_page s (page_base a) w2)"
      using wrote_trans [OF wrote_trans [OF P(1) w2] S(1) [of "{}"]] by simp
    ultimately show ?thesis using P S(2,3) r2 by simp
  next
    case False
    define w1 where "w1 = fold (\<lambda>(i, x). store_piece pread s (a + i) [x]) (enumerate 0 data) w"
    have L: "wrote s {a..<a + length data} w w1"
      "\<forall>i < length data. resident s (a + i) w1 \<noteq> None \<and> read_byte s (a + i) w1 = data ! i"
      using store_each [OF inv own len refl, of a 0 pread] by (simp_all add: w1_def)
    have M: "wrote s {} w1 (mark_written s a (length data) w1)"
      "\<forall>x. read_byte s x (mark_written s a (length data) w1) = read_byte s x w1 \<and>
        resident s x (mark_written s a (length data) w1) = resident s x w1"
      using mark_written_wrote [OF wrote_inv(1,2) [OF L(1)]] by blast+
    have "?w = mark_written s a (length data) w1" using False by (simp add: store_bytes_def w1_def)
    then show ?thesis using wrote_trans [OF L(1) M(1)] L(2) M(2) by simp
  qed
  then show "wrote s {a..<a + length data} w ?w"
    "i < length data \<Longrightarrow> resident s (a + i) ?w \<noteq> None \<and> read_byte s (a + i) ?w = data ! i" by blast+
qed

section \<open>The operations that store\<close>

lemma entries_wrote:
  assumes inv: "page_inv w" and inv': "page_inv w'" and own: "owns s w'" and live: "live w' = live w"
    and sim: "store_sim (store w) (store w')" "bytes_kept (store w) (store w')" and view: "same_view w w'"
    and ent: "\<And>t x. t \<in> set (live w) \<Longrightarrow> t \<noteq> s \<or> x \<noteq> base \<Longrightarrow>
      entry w' (pages_ref (space_of w' t)) x = entry w (pages_ref (space_of w t)) x"
    and pg: "entry w' (pages_ref (space_of w' s)) base = Some pg"
      "ensured (find_file_mapping s base w \<noteq> None) (entry w (pages_ref (space_of w s)) base) pg"
  shows "wrote s {} w w'"
proof -
  have s: "s \<in> set (live w)" using own live by (simp add: owns_def)
  have lk: "lookup_ok w t" "lookup_ok w' t" if "t \<in> set (live w)" for t
    using inv inv' that live by (simp_all add: page_inv_def)
  have pres: "present w b'" if "t \<in> set (live w)" "resident t y w = Some b'" for t y b'
    using that refers_present [OF inv refersI [OF in_maps]]
    by (auto simp: resident_entry [OF lk(1) [OF that(1)]] bind_eq_Some_conv)
  have kept: "read_byte t y w' = read_byte t y w" if "t \<in> set (live w)" "resident t y w' = resident t y w" for t y
    using that(2) pres [OF that(1), of y] sim(2)
    by (auto simp: read_byte_def bytes_kept_def present_def split: option.splits)
  have far: "resident t y w' = resident t y w" if "t \<in> set (live w)" "t \<noteq> s \<or> page_base y \<noteq> base" for t y
    using ent [OF that(1)] that by (simp add: resident_entry [OF lk(1) [OF that(1)]] resident_entry [OF lk(2) [OF that(1)]])
  have near: "resident s y w' = resident s y w" if "page_base y = base" "settled s y w" for y
    using pg that
    by (auto simp: resident_entry [OF lk(1) [OF s]] resident_entry [OF lk(2) [OF s]] settled_def ensured_def
        split: option.splits bind_splits)
  have res: "resident s y w' \<noteq> None" if "resident s y w \<noteq> None" for y
    using that far [OF s, of y] near [of y] by (cases "page_base y = base") (simp_all add: settled_def)
  have sh: "shared_at s y w' = shared_at s y w" for y
    using ent [OF s, of "page_base y"] pg
    by (cases "page_base y = base")
      (auto simp: shared_at_def find_page_entry [OF lk(1) [OF s]] find_page_entry [OF lk(2) [OF s]] ensured_def split: option.splits)
  have "read_byte t y w' = read_byte t y w" if "t \<in> set (live w)" "t \<noteq> s \<or> settled s y w" for t y
    using kept [OF that(1)] far [OF that(1), of y] near [of y] that(2) by blast
  then show ?thesis unfolding wrote_def using inv' own live sim(1) view ent res sh by simp
qed

lemma touch_page_wrote: "page_inv w \<Longrightarrow> owns s w \<Longrightarrow> wrote s {} w (touch_page pread s a w)"
proof -
  assume inv: "page_inv w" and own: "owns s w"
  have view: "same_view w (touch_page pread s a w)" by (simp add: touch_page_def)
  show ?thesis
    using touch_page_facts [OF inv own, where a = a and pread = pread] entries_wrote [OF inv _ _ _ _ _ view, where base = "page_base a"]
    unfolding page_step_def by blast
qed

lemma ensure_page_wrote: "page_inv w \<Longrightarrow> owns s w \<Longrightarrow> wrote s {} w (ensure_page pread s a w)"
proof -
  assume inv: "page_inv w" and own: "owns s w"
  show ?thesis
    using ensure_page_owned [OF inv own, where a = a and pread = pread]
      entries_wrote [OF inv _ _ _ _ _ ensure_page_view, where base = "page_base a"]
    unfolding page_step_def by blast
qed

lemma ensure_unique_wrote: "page_inv w \<Longrightarrow> s \<in> set (live w) \<Longrightarrow> wrote s {} w (ensure_unique_page_map s w)"
proof -
  assume inv: "page_inv w" and s: "s \<in> set (live w)"
  let ?w = "ensure_unique_page_map s w"
  note E = ensure_unique_inv [OF inv s] and ent = ensure_unique_entry [OF inv s]
  have lk: "lookup_ok w t" "lookup_ok ?w t" if "t \<in> set (live w)" for t
    using inv E(1,3) that by (simp_all add: page_inv_def)
  have fp: "find_page t y ?w = find_page t y w" if "t \<in> set (live w)" for t y
    using ent [OF that] by (simp add: find_page_entry [OF lk(1) [OF that]] find_page_entry [OF lk(2) [OF that]])
  have rd: "read_byte t y ?w = read_byte t y w" "resident t y ?w = resident t y w" if "t \<in> set (live w)" for t y
    unfolding read_byte_def resident_def ensure_unique_held fp [OF that] by (rule refl)+
  show ?thesis using E ent s fp rd by (simp add: wrote_def ensure_unique_held shared_at_def)
qed

lemma writes_after_unique:
  assumes "page_inv w" "s \<in> set (live w)" "wrote s R (ensure_unique_page_map s w) w'"
  shows "wrote s R w w'"
  using wrote_trans [OF ensure_unique_wrote [OF assms(1,2)] assms(3)] by simp

lemma split_bytes_length [simp]: "length (split_bytes n v) = n"
  by (simp add: split_bytes_def)

lemma write_integer_wrote:
  assumes inv: "page_inv w" and s: "s \<in> set (live w)" and n: "n \<le> page_size"
    and r: "write_integer pread s a n v w = (True, w')"
  shows "wrote s {a..<a + n} w w'" "i < n \<Longrightarrow> resident s (a + i) w' \<noteq> None \<and> read_byte s (a + i) w' = split_bytes n v ! i"
proof -
  have eq: "w' = store_bytes pread s a (split_bytes n v) (ensure_unique_page_map s w)"
    using r by (simp add: write_integer_def split: if_splits)
  note E = ensure_unique_inv [OF inv s]
  have len: "length (split_bytes n v) \<le> page_size" using n by simp
  note W = store_bytes_wrote [OF E(1,2) len, where a = a and pread = pread]
  show "wrote s {a..<a + n} w w'" unfolding eq by (rule writes_after_unique [OF inv s]) (use W(1) in simp)
  show "i < n \<Longrightarrow> resident s (a + i) w' \<noteq> None \<and> read_byte s (a + i) w' = split_bytes n v ! i"
    unfolding eq using W(2) [of i] by simp
qed

lemma write_integer_confined:
  "page_inv w \<Longrightarrow> s \<in> set (live w) \<Longrightarrow> n \<le> page_size \<Longrightarrow> confined s w (snd (write_integer pread s a n v w))"
proof -
  assume h: "page_inv w" "s \<in> set (live w)" "n \<le> page_size"
  show ?thesis
  proof (cases "fst (write_integer pread s a n v w)")
    case True
    then have "write_integer pread s a n v w = (True, snd (write_integer pread s a n v w))" by (metis prod.collapse)
    from write_integer_wrote(1) [OF h this] show ?thesis by (rule wrote_confined)
  next
    case False
    then have "snd (write_integer pread s a n v w) = w" by (auto simp: write_integer_def split: if_splits)
    then show ?thesis by (simp add: confined_refl [OF h(1)])
  qed
qed

lemma fetch_value_wrote:
  assumes inv: "page_inv w" and own: "owns s w"
  shows "wrote s {} w (snd (fetch_value pread s a n w))"
proof -
  have "wrote s {} v (fold (\<lambda>i. touch_page pread s (a + i)) is v)" if "page_inv v" "owns s v" for "is" v
    using that
  proof (induction "is" arbitrary: v)
    case (Cons i "is")
    have t: "wrote s {} v (touch_page pread s (a + i) v)" by (rule touch_page_wrote [OF Cons.prems])
    from wrote_trans [OF t Cons.IH [OF wrote_inv(1,2) [OF t]]] show ?case by simp
  qed (simp add: wrote_refl)
  then show ?thesis using touch_page_wrote [OF inv own] inv own by (simp add: fetch_value_def Let_def)
qed

lemma exchange_wrote:
  assumes inv: "page_inv w" and s: "s \<in> set (live w)" and n: "n \<le> page_size"
  shows "snd (exchange_integer pread s a n v w) = w \<or> wrote s {a..<a + n} w (snd (exchange_integer pread s a n v w))"
    "snd (compare_exchange_integer pread s a n e v w) = w \<or> wrote s {a..<a + n} w (snd (compare_exchange_integer pread s a n e v w))"
proof -
  note E = ensure_unique_inv [OF inv s]
  define w1 where "w1 = snd (fetch_value pread s a n (ensure_unique_page_map s w))"
  have f: "wrote s {} w w1"
    unfolding w1_def by (rule writes_after_unique [OF inv s fetch_value_wrote [OF E(1,2)]])
  have len: "length (split_bytes n v) \<le> page_size" using n by simp
  have g: "wrote s {a..<a + n} w (store_bytes pread s a (split_bytes n v) w1)"
    using wrote_trans [OF f store_bytes_wrote(1) [OF wrote_inv(1,2) [OF f] len]] by simp
  have h: "wrote s {a..<a + n} w w1" using wrote_trans [OF f wrote_refl [OF wrote_inv(1,2) [OF f], of "{a..<a + n}"]] by simp
  show "snd (exchange_integer pread s a n v w) = w \<or> wrote s {a..<a + n} w (snd (exchange_integer pread s a n v w))"
    "snd (compare_exchange_integer pread s a n e v w) = w \<or> wrote s {a..<a + n} w (snd (compare_exchange_integer pread s a n e v w))"
    using g h by (simp_all add: exchange_integer_def compare_exchange_integer_def case_prod_beta Let_def w1_def [symmetric])
qed

lemma owns_unique:
  assumes inv: "page_inv w" and own: "owns s w"
  shows "ensure_unique_page_map s w = w"
proof -
  have "filter (\<lambda>t. pages_ref (space_of w t) = pages_ref (space_of w s)) (live w) = filter (\<lambda>t. t = s) (live w)"
    using own by (intro filter_cong) (auto simp: owns_def)
  moreover have "length (filter (\<lambda>t. t = s) (live w)) = 1"
    using inv own distinct_filter_eq [of "live w" s] by (simp add: page_inv_def refs_ok_def owns_def)
  ultimately show ?thesis by (simp add: ensure_unique_page_map_def page_map_unique_def)
qed

lemma ensure_page_unique:
  "page_inv w \<Longrightarrow> s \<in> set (live w) \<Longrightarrow> ensure_page pread s a w = ensure_page pread s a (ensure_unique_page_map s w)"
  using owns_unique [OF ensure_unique_inv(1,2)] by (simp add: ensure_page_def)

lemma copy_piece_wrote:
  assumes inv: "page_inv w" and s: "s \<in> set (live w)" and fit: "a mod page_size + length data \<le> page_size"
    and wb: "writable_backing pread s (page_base a) (ensure_page pread s a w) = (b, w2)"
  shows "wrote s {a..<a + length data} w
    (refresh_jit_page s a (mark_shared_backing_written s b (put_bytes b (a mod page_size) data w2)))" (is "wrote s _ w ?w5")
proof -
  define w0 where "w0 = ensure_unique_page_map s w"
  note E = ensure_unique_inv [OF inv s, folded w0_def]
  have eq: "ensure_page pread s a w = ensure_page pread s a w0" unfolding w0_def by (rule ensure_page_unique [OF inv s])
  define st5 where "st5 = mark_shared_write b (invalidate_reservation_identity b (store (put_bytes b (a mod page_size) data w2)))"
  define w4 where "w4 = mark_shared_backing_written s b (put_bytes b (a mod page_size) data w2)"
  have "same_pages (w2\<lparr>store := st5\<rparr>) w4"
    by (simp add: w4_def st5_def mark_shared_backing_written_def put_bytes_def Let_def same_pages_def)
  then have same: "same_pages (w2\<lparr>store := st5\<rparr>) ?w5" unfolding w4_def [symmetric] by (rule same_pages_trans) simp
  obtain pg where pg: "entry (ensure_page pread s a w0) (pages_ref (space_of (ensure_page pread s a w0) s)) (page_base a) = Some pg"
    "ensured (find_file_mapping s (page_base a) w0 \<noteq> None) (entry w0 (pages_ref (space_of w0 s)) (page_base a)) pg"
    using ensure_page_owned(2) [OF E(1,2)] by blast
  have st: "stored s (page_base a) (a mod page_size) data w0 ?w5"
    by (rule stored_by [OF E(1,2) refl ensure_page_owned(1) [OF E(1,2)] pg wb [unfolded eq] st5_def same])
  have "same_view w0 w2"
    using same_view_trans [OF ensure_page_view [of w0 pread s a] writable_backing_view [of _ pread s "page_base a"]] wb eq by simp
  then have view: "same_view w0 ?w5"
    by (intro same_view_trans [OF _ refresh_view] same_view_trans [OF _ put_bytes_view(2)] same_view_trans [OF _ put_bytes_view(1)])
  show ?thesis
    by (rule writes_after_unique [OF inv s]) (use stored_wrote(1) [OF E(1,2) st view fit] in \<open>simp add: w0_def\<close>)
qed

lemma copy_in_loop_wrote:
  assumes "page_inv w" "s \<in> set (live w)" "data \<noteq> []"
  shows "wrote s {a..<a + length data} w (copy_in_loop pread s a data w)"
  using assms
proof (induction pread s a data w rule: copy_in_loop.induct)
  case (1 pread s a data w)
  define chunk where "chunk = min (page_size - a mod page_size) (length data)"
  obtain b w2 where wb: "writable_backing pread s (page_base a) (ensure_page pread s a w) = (b, w2)" by force
  define w5 where "w5 = refresh_jit_page s a (mark_shared_backing_written s b (put_bytes b (a mod page_size) (take chunk data) w2))"
  have "0 < length data" "a mod page_size < page_size" using 1(4) by simp_all
  then have c: "chunk \<le> length data" "0 < chunk" "a mod page_size + chunk \<le> page_size"
    unfolding chunk_def by linarith+
  have P: "wrote s {a..<a + chunk} w w5"
    using copy_piece_wrote [OF 1(2,3) _ wb, of "take chunk data"] c unfolding w5_def by (simp add: min_absorb2)
  have eq: "copy_in_loop pread s a data w = copy_in_loop pread s (a + chunk) (drop chunk data) w5"
    using 1(4) by (subst copy_in_loop.simps) (simp add: chunk_def [symmetric] wb w5_def Let_def)
  show ?case
  proof (cases "drop chunk data = []")
    case True
    then have "chunk = length data" using c(1) by simp
    moreover have "copy_in_loop pread s a data w = w5" unfolding eq by (subst copy_in_loop.simps) (simp add: True)
    ultimately show ?thesis using P by simp
  next
    case False
    have "wrote s {a + chunk..<a + chunk + length (drop chunk data)} w5 (copy_in_loop pread s (a + chunk) (drop chunk data) w5)"
      by (rule 1(1) [OF 1(4) refl chunk_def refl refl wb [symmetric] refl refl w5_def _ _ False])
        (use wrote_inv [OF P] 1(3) in simp_all)
    from wrote_trans [OF P this] show ?thesis unfolding eq
      using c(1) by (simp add: ivl_disj_un_two(3))
  qed
qed

lemma copy_in_wrote:
  assumes inv: "page_inv w" and s: "s \<in> set (live w)" and r: "copy_in pread s a data w = (True, w')" and ne: "data \<noteq> []"
  shows "wrote s {a..<a + length data} w w'"
proof -
  have W: "wrote s {a..<a + length data} w (copy_in_loop pread s a data w)" (is "wrote s _ w ?w1")
    by (rule copy_in_loop_wrote [OF inv s ne])
  have "w' = mark_written s a (length data) ?w1" using r ne by (simp add: copy_in_def split: if_splits)
  then show ?thesis
    using wrote_trans [OF W, of "{}"] mark_written_wrote [OF wrote_inv(1,2) [OF W]] by simp
qed

lemma copy_in_confined:
  assumes inv: "page_inv w" and s: "s \<in> set (live w)"
  shows "confined s w (snd (copy_in pread s a data w))"
proof (cases "fst (copy_in pread s a data w) \<and> data \<noteq> []")
  case True
  then have "copy_in pread s a data w = (True, snd (copy_in pread s a data w))" by (metis prod.collapse)
  from copy_in_wrote [OF inv s this] True show ?thesis by (simp add: wrote_confined)
next
  case False
  moreover have "fst (copy_in pread s a data w) \<and> data \<noteq> [] \<or> snd (copy_in pread s a data w) = w"
    by (simp add: copy_in_def)
  ultimately show ?thesis by (simp only: confined_refl [OF inv] simp_thms)
qed

end
