(* ===== verification/Address_Space_Faults.thy ===== *)
theory Address_Space_Faults
  imports Address_Space_Stores
begin

text \<open>
  File mappings and page faults: the invariant of the file mappings of a space, the fault loop
  that makes a cluster of file pages resident, and the read loops, which return because one fault
  is enough.
\<close>

section \<open>Well-formed file mappings\<close>

text \<open>A mapping covers whole pages, and every page of it starts before the end of the file range.\<close>

definition mapping_ok :: "nat \<times> file_mapping \<Rightarrow> bool" where
  "mapping_ok e \<longleftrightarrow> (let (start, m) = e; f = fm_backing m in
     start mod page_size = 0 \<and> fm_end m mod page_size = 0 \<and> start < fm_end m \<and> fm_offset m mod page_size = 0 \<and>
     first_offset f = fm_offset m \<and> fm_offset m + (fm_end m - start) < end_offset f + page_size)"

definition files_ok :: "(nat, file_mapping) omap \<Rightarrow> bool" where
  "files_ok m \<longleftrightarrow> (\<forall>e\<in>set m. mapping_ok e)"

lemma aligned_le: "(a :: nat) mod page_size = 0 \<Longrightarrow> a \<le> x \<longleftrightarrow> a \<le> page_base x"
proof
  assume a: "a mod page_size = 0" and "a \<le> x"
  then have "a div page_size \<le> x div page_size" by (simp add: div_le_mono)
  then have "a div page_size * page_size \<le> page_base x" by (simp add: page_base_alt)
  then show "a \<le> page_base x" using a by (metis add.right_neutral div_mult_mod_eq)
qed (use page_base_le order_trans in blast)

lemma aligned_less: "(a :: nat) mod page_size = 0 \<Longrightarrow> x < a \<longleftrightarrow> page_base x < a"
  using aligned_le [of a x] by linarith

lemma aligned_step: "(a :: nat) mod page_size = 0 \<Longrightarrow> b mod page_size = 0 \<Longrightarrow> a < b \<Longrightarrow> a + page_size \<le> b"
proof -
  assume a: "a mod page_size = 0" and b: "b mod page_size = 0" and l: "a < b"
  have "page_size dvd b - a" using a b by (simp add: dvd_diff_nat mod_0_imp_dvd)
  then have "page_size \<le> b - a" using l by (simp add: dvd_imp_le)
  then show ?thesis using l by linarith
qed

lemma find_file_mapping_mem:
  assumes "find_file_mapping s a w = Some (start, m)"
  shows "(start, m) \<in> set (file_mappings (space_of w s))" "start \<le> a" "a < fm_end m"
proof -
  obtain es where es: "rev (om_before_upper a (file_mappings (space_of w s))) = (start, m) # es" and lt: "a < fm_end m"
    using assms by (auto simp: find_file_mapping_def split: list.splits if_splits)
  then have "(start, m) \<in> set (om_before_upper a (file_mappings (space_of w s)))" by (metis list.set_intros(1) set_rev)
  then show "(start, m) \<in> set (file_mappings (space_of w s))" "start \<le> a" unfolding om_before_upper_def
    by (auto dest: set_takeWhileD)
  show "a < fm_end m" by (rule lt)
qed

lemma find_file_mapping_page:
  assumes ok: "files_ok (file_mappings (space_of w s))"
  shows "find_file_mapping s (page_base a) w = find_file_mapping s a w"
proof -
  have al: "fst e mod page_size = 0 \<and> fm_end (snd e) mod page_size = 0" if "e \<in> set (file_mappings (space_of w s))" for e
    using ok that by (auto simp: files_ok_def mapping_ok_def Let_def case_prod_beta)
  have eq: "om_before_upper (page_base a) (file_mappings (space_of w s)) = om_before_upper a (file_mappings (space_of w s))"
    unfolding om_before_upper_def
  proof (rule takeWhile_cong [OF refl])
    fix e assume "e \<in> set (file_mappings (space_of w s))"
    then have "fst e mod page_size = 0" using al by blast
    from aligned_le [OF this] show "(fst e \<le> page_base a) = (fst e \<le> a)" by blast
  qed
  have "page_base a < fm_end m \<longleftrightarrow> a < fm_end m" if "(start, m) \<in> set (om_before_upper a (file_mappings (space_of w s)))" for start m
  proof -
    have "(start, m) \<in> set (file_mappings (space_of w s))" using that unfolding om_before_upper_def by (auto dest: set_takeWhileD)
    then show ?thesis using al [of "(start, m)"] aligned_less [of "fm_end m" a] by simp
  qed
  note iff = this
  show ?thesis
  proof (cases "rev (om_before_upper a (file_mappings (space_of w s)))")
    case (Cons e es)
    obtain start m where e: "e = (start, m)" by force
    have "(start, m) \<in> set (om_before_upper a (file_mappings (space_of w s)))"
      using Cons e by (metis list.set_intros(1) set_rev)
    then show ?thesis unfolding find_file_mapping_def eq Cons e using iff by simp
  qed (simp add: find_file_mapping_def eq)
qed

section \<open>Faulting one page in\<close>

definition load_and_install :: "pread \<Rightarrow> nat \<Rightarrow> nat \<Rightarrow> guest_file_backing \<Rightarrow> nat \<Rightarrow> nat \<Rightarrow> page \<Rightarrow> memory_world \<Rightarrow> memory_world" where
  "load_and_install pread s base f off n pg w =
     (let (b, w') = load_backing pread s f off n w
      in place_page s base (pg\<lparr>pg_backing := Some b, file_cached := True, copy_on_write_possible := True\<rparr>) w')"

lemma load_and_install_step:
  assumes inv: "page_inv w" and own: "owns s w" and bm: "base mod page_size = 0"
  shows "page_step s base w (load_and_install pread s base f off n pg w)"
    "\<exists>b. entry (load_and_install pread s base f off n pg w) (pages_ref (space_of (load_and_install pread s base f off n pg w) s)) base =
       Some (pg\<lparr>pg_backing := Some b, file_cached := True, copy_on_write_possible := True\<rparr>)"
    "same_view w (load_and_install pread s base f off n pg w)"
proof -
  have s: "s \<in> set (live w)" using own by (simp add: owns_def)
  obtain b w1 where l: "load_backing pread s f off n w = (b, w1)" by force
  note L = load_backing_facts [OF inv s l]
  define pg' where "pg' = pg\<lparr>pg_backing := Some b, file_cached := True, copy_on_write_possible := True\<rparr>"
  have eq: "load_and_install pread s base f off n pg w = place_page s base pg' w1"
    by (simp add: load_and_install_def l pg'_def)
  have own1: "owns s w1" using own by (simp add: owns_def L)
  have mp: "maps w1 = maps w" "entry w1 = entry w" by (simp_all add: maps_def entry_def L fun_eq_iff)
  have may: "may_install w1 s base pg'"
    using L(2,3) by (auto simp: may_install_def pg'_def in_place_def mp)
  have "page_step s base w1 (place_page s base pg' w1)" by (rule page_step_install [OF L(1) own1 bm may])
  then show "page_step s base w (load_and_install pread s base f off n pg w)"
    using L mp store_sim_trans [OF L(9)] bytes_kept_trans [OF L(8,9)] by (simp add: page_step_def eq)
  show "\<exists>b. entry (load_and_install pread s base f off n pg w) (pages_ref (space_of (load_and_install pread s base f off n pg w) s)) base =
       Some (pg\<lparr>pg_backing := Some b, file_cached := True, copy_on_write_possible := True\<rparr>)"
    by (auto simp: eq install_entry pg'_def)
  have "same_view w w1" using page_ops_view(5) [of w pread s f off n] l by simp
  then show "same_view w (load_and_install pread s base f off n pg w)"
    unfolding eq place_page_def by (auto intro: same_view_trans [OF _ page_ops_view(3)] same_view_trans [OF _ page_ops_view(1)])
qed

lemma fault_cluster_page_eq:
  assumes inv: "page_inv w" and own: "owns s w"
  shows "fault_cluster_page pread s f fin (fp, base) w = refresh_jit_page s base
    (let pg = (case entry w (pages_ref (space_of w s)) base of None \<Rightarrow> blank_page | Some pg \<Rightarrow> pg) in
     if pg_backing pg \<noteq> None then w else load_and_install pread s base f fp (min page_size (fin - fp)) pg w)"
proof -
  have s: "s \<in> set (live w)" using own by (simp add: owns_def)
  have wf: "om_wf (pages_of s w)" using inv s by (simp add: page_inv_def aligned_map_def pages_of_def)
  define old where "old = map_of (pages_of s w) base"
  define pg where "pg = (case old of None \<Rightarrow> blank_page | Some pg \<Rightarrow> pg)"
  have old: "entry w (pages_ref (space_of w s)) base = old" by (simp add: entry_def old_def pages_of_def)
  have unfold: "fault_cluster_page pread s f fin (fp, base) w =
      (let w1 = set_page s base pg w;
          w2 = (if pg_backing pg \<noteq> None then w1
                else let (b, w') = load_backing pread s f fp (min page_size (fin - fp)) w1
                     in set_page s base (pg\<lparr>pg_backing := Some b, file_cached := True, copy_on_write_possible := True\<rparr>) w');
          w3 = (if old = None then cache_page s base w2 else w2)
      in refresh_jit_page s base w3)"
    unfolding fault_cluster_page_def Let_def pg_def old_def case_prod_conv ..
  show ?thesis
  proof (cases "pg_backing pg = None")
    case False
    then have "old = Some pg" by (auto simp: pg_def blank_page_def split: option.splits)
    then show ?thesis using False set_page_same [OF wf, of base pg] by (simp add: unfold old old_def [symmetric] Let_def)
  next
    case True
    obtain b w1 where l: "load_backing pread s f fp (min page_size (fin - fp)) w = (b, w1)" by force
    have po: "pages_of s w1 = pages_of s w" "space_of w1 = space_of w" "page_map_of w1 = page_map_of w"
      using load_backing_facts [OF inv s l] by (simp_all add: pages_of_def)
    have l': "load_backing pread s f fp (min page_size (fin - fp)) (set_page s base pg w) = (b, set_page s base pg w1)"
      using l by (auto simp: load_backing_def Let_def case_prod_beta set_page_def set_pages_def pages_of_def)
    have "set_page s base pg' (set_page s base pg w1) = set_page s base pg' w1" for pg'
      using om_put_twice [OF wf, of base pg' pg] by (simp add: set_page_def po) (simp add: set_pages_def)
    then show ?thesis
      using True by (simp add: unfold old pg_def [symmetric] Let_def l' load_and_install_def l place_page_def po old_def [symmetric])
  qed
qed

text \<open>A fault keeps what is resident and what the other spaces read.\<close>

definition faulted :: "nat \<Rightarrow> memory_world \<Rightarrow> memory_world \<Rightarrow> bool" where
  "faulted s w v \<longleftrightarrow> confined s w v \<and> owns s v \<and> same_view w v \<and>
     (\<forall>t\<in>set (live w). \<forall>x. t \<noteq> s \<or> resident t x w \<noteq> None \<longrightarrow>
        resident t x v = resident t x w \<and> read_byte t x v = read_byte t x w)"

lemma faulted_refl: "page_inv w \<Longrightarrow> owns s w \<Longrightarrow> faulted s w w"
  by (simp add: faulted_def confined_refl)

lemma faulted_trans:
  assumes a: "faulted s w v" and b: "faulted s v u"
  shows "faulted s w u"
proof -
  have l: "live v = live w" using a by (simp add: faulted_def confined_def)
  have "confined s w u" "same_view w u"
    using a b confined_trans [of s w v u] same_view_trans [of w v u] by (simp_all add: faulted_def)
  moreover have "resident t x u = resident t x w \<and> read_byte t x u = read_byte t x w"
    if "t \<in> set (live w)" "t \<noteq> s \<or> resident t x w \<noteq> None" for t x
  proof -
    have 1: "resident t x v = resident t x w \<and> read_byte t x v = read_byte t x w" using a that by (simp add: faulted_def)
    then have "t \<noteq> s \<or> resident t x v \<noteq> None" using that(2) by simp
    then have "resident t x u = resident t x v \<and> read_byte t x u = read_byte t x v"
      using b that(1) l by (simp add: faulted_def)
    with 1 show ?thesis by simp
  qed
  ultimately show ?thesis using b by (simp add: faulted_def)
qed

lemma faulted_inv: "faulted s w v \<Longrightarrow> page_inv v" "faulted s w v \<Longrightarrow> owns s v" "faulted s w v \<Longrightarrow> live v = live w"
  "faulted s w v \<Longrightarrow> same_view w v"
  by (simp_all add: faulted_def confined_def)

lemma faulted_resident: "faulted s w v \<Longrightarrow> s \<in> set (live w) \<Longrightarrow> resident s x w \<noteq> None \<Longrightarrow> resident s x v \<noteq> None"
  by (simp add: faulted_def)

lemma page_step_faulted:
  assumes inv: "page_inv w" and own: "owns s w" and step: "page_step s base w v" and view: "same_view w v"
    and blank: "Option.bind (entry w (pages_ref (space_of w s)) base) pg_backing = None"
  shows "faulted s w v"
proof -
  have lk: "lookup_ok w t" "lookup_ok v t" if "t \<in> set (live w)" for t
    using inv step that by (simp_all add: page_inv_def page_step_def)
  have res: "resident t x v = resident t x w" if "t \<in> set (live w)" "t \<noteq> s \<or> resident t x w \<noteq> None" for t x
  proof -
    have "t \<noteq> s \<or> page_base x \<noteq> base"
      using that blank by (auto simp: resident_entry [OF lk(1) [OF that(1)]])
    then have "entry v (pages_ref (space_of v t)) (page_base x) = entry w (pages_ref (space_of w t)) (page_base x)"
      using step that(1) unfolding page_step_def by blast
    then show ?thesis by (simp add: resident_entry [OF lk(1) [OF that(1)]] resident_entry [OF lk(2) [OF that(1)]])
  qed
  moreover have "read_byte t x v = read_byte t x w" if "t \<in> set (live w)" "t \<noteq> s \<or> resident t x w \<noteq> None" for t x
  proof (cases "resident t x w")
    case (Some b)
    then have "refers w (pages_ref (space_of w t)) (page_base x) b"
      using that(1) by (auto intro!: refersI simp: resident_entry [OF lk(1) [OF that(1)]] bind_eq_Some_conv)
    then have "present w b" by (rule refers_present [OF inv])
    then show ?thesis using res [OF that] Some step
      by (simp add: read_byte_def page_step_def bytes_kept_def present_def)
  qed (simp add: read_byte_def res [OF that])
  ultimately show ?thesis using step view by (simp add: faulted_def confined_def page_step_def)
qed

lemma same_faulted: "page_inv w \<Longrightarrow> owns s w \<Longrightarrow> same_pages w v \<Longrightarrow> same_view w v \<Longrightarrow> faulted s w v"
  using owns_same same_pages_resident confined_same by (simp add: faulted_def)

lemma fault_cluster_facts:
  assumes inv: "page_inv w" and own: "owns s w" and bm: "base mod page_size = 0"
  shows "faulted s w (fault_cluster_page pread s f fin (fp, base) w)"
    "resident s base (fault_cluster_page pread s f fin (fp, base) w) \<noteq> None"
proof -
  have s: "s \<in> set (live w)" using own by (simp add: owns_def)
  have lk: "lookup_ok w s" using inv s by (simp add: page_inv_def)
  define pg where "pg = (case entry w (pages_ref (space_of w s)) base of None \<Rightarrow> blank_page | Some pg \<Rightarrow> pg)"
  define v where "v = (if pg_backing pg \<noteq> None then w else load_and_install pread s base f fp (min page_size (fin - fp)) pg w)"
  have eq: "fault_cluster_page pread s f fin (fp, base) w = refresh_jit_page s base v"
    by (simp add: fault_cluster_page_eq [OF inv own] v_def pg_def Let_def)
  note LI = load_and_install_step [OF inv own bm]
  have V: "faulted s w v \<and> resident s base v \<noteq> None"
  proof (cases "pg_backing pg = None")
    case True
    have "Option.bind (entry w (pages_ref (space_of w s)) base) pg_backing = None"
      using True by (simp add: pg_def split: option.splits)
    then have f: "faulted s w v" using page_step_faulted [OF inv own LI(1,3)] True by (simp add: v_def)
    have "lookup_ok v s" using faulted_inv(1,3) [OF f] s by (simp add: page_inv_def)
    moreover have "\<exists>b. entry v (pages_ref (space_of v s)) base =
        Some (pg\<lparr>pg_backing := Some b, file_cached := True, copy_on_write_possible := True\<rparr>)"
      using LI(2) True by (simp add: v_def)
    ultimately show ?thesis using f by (auto simp: resident_entry page_base_aligned [OF bm])
  next
    case False
    then have "resident s base w \<noteq> None"
      by (auto simp: resident_entry [OF lk] page_base_aligned [OF bm] pg_def blank_page_def split: option.splits)
    then show ?thesis using False faulted_refl [OF inv own] by (simp add: v_def)
  qed
  have R: "faulted s v (refresh_jit_page s base v)"
    by (rule same_faulted) (use faulted_inv [of s w v] V in simp_all)
  show "faulted s w (fault_cluster_page pread s f fin (fp, base) w)" unfolding eq by (rule faulted_trans) (use V R in simp_all)
  show "resident s base (fault_cluster_page pread s f fin (fp, base) w) \<noteq> None"
    unfolding eq using V same_pages_resident(1) [OF refresh_same] by metis
qed

lemma faulted_fold:
  assumes "page_inv w" "owns s w"
    and "\<And>x w. x \<in> set xs \<Longrightarrow> page_inv w \<Longrightarrow> owns s w \<Longrightarrow> P w \<Longrightarrow> faulted s w (f x w) \<and> P (f x w)" and "P w"
  shows "faulted s w (fold f xs w) \<and> P (fold f xs w)"
  using assms
proof (induction xs arbitrary: w)
  case (Cons x xs)
  have 1: "faulted s w (f x w)" "P (f x w)" using Cons.prems(3) [of x w] Cons.prems(1,2,4) by simp_all
  have "faulted s (f x w) (fold f xs (f x w)) \<and> P (fold f xs (f x w))"
    using Cons.IH [of "f x w"] faulted_inv(1,2) [OF 1(1)] 1(2) Cons.prems(3) by simp
  then show ?case using faulted_trans [OF 1(1)] by simp
qed (simp add: faulted_refl)

section \<open>Faulting a range in\<close>

lemma cluster_pages_mem:
  assumes "i < guest_file_prefetch_pages" "file_start + i * page_size < file_end" "guest_start + i * page_size < guest_end"
  shows "(file_start + i * page_size, guest_start + i * page_size) \<in> set (cluster_pages file_start file_end guest_start guest_end)"
proof -
  let ?f = "\<lambda>i. (file_start + i * page_size, guest_start + i * page_size)"
  let ?P = "\<lambda>(file_page, guest_page). file_page < file_end \<and> guest_page < guest_end"
  have split: "map ?f [0..<guest_file_prefetch_pages] = map ?f [0..<Suc i] @ map ?f [Suc i..<guest_file_prefetch_pages]"
  proof -
    have "[0..<guest_file_prefetch_pages] = [0..<Suc i] @ [Suc i..<guest_file_prefetch_pages]"
      using upt_add_eq_append [of 0 "Suc i" "guest_file_prefetch_pages - Suc i"] assms(1) by (simp del: upt_Suc)
    then show ?thesis by (simp only: map_append)
  qed
  have "?P (?f j)" if "j \<le> i" for j
  proof -
    have "j * page_size \<le> i * page_size" using that by simp
    then show ?thesis using assms(2,3) unfolding case_prod_conv by linarith
  qed
  then have "takeWhile ?P (map ?f [0..<Suc i] @ map ?f [Suc i..<guest_file_prefetch_pages]) =
      map ?f [0..<Suc i] @ takeWhile ?P (map ?f [Suc i..<guest_file_prefetch_pages])"
    by (intro takeWhile_append2) (auto simp del: upt_Suc)
  moreover have "?f i \<in> set (map ?f [0..<Suc i])" 
    unfolding set_map by (rule image_eqI [of _ _ i]) simp_all
  ultimately have "?f i \<in> set (takeWhile ?P (map ?f [0..<Suc i] @ map ?f [Suc i..<guest_file_prefetch_pages]))"
    by (simp only: set_append Un_iff simp_thms)
  then show ?thesis by (simp only: cluster_pages_def split)
qed

lemma cluster_pages_aligned:
  "guest_start mod page_size = 0 \<Longrightarrow> (fp, base) \<in> set (cluster_pages file_start file_end guest_start guest_end) \<Longrightarrow>
     base mod page_size = 0"
  by (auto simp: cluster_pages_def dest!: set_takeWhileD)

lemma fault_one_facts:
  assumes inv: "page_inv w" and own: "owns s w" and ok: "files_ok (file_mappings (space_of w s))"
    and cm: "current mod page_size = 0"
  shows "faulted s w (fault_one pread s current w)"
    "find_file_mapping s current w \<noteq> None \<Longrightarrow> resident s current (fault_one pread s current w) \<noteq> None"
proof -
  have s: "s \<in> set (live w)" using own by (simp add: owns_def)
  have "faulted s w (fault_one pread s current w) \<and>
    (find_file_mapping s current w \<noteq> None \<longrightarrow> resident s current (fault_one pread s current w) \<noteq> None)"
  proof (cases "resident s current w \<noteq> None \<or> find_file_mapping s current w = None")
    case True
    then have "fault_one pread s current w = w"
    proof
      assume "resident s current w \<noteq> None"
      then have "case find_page s current w of None \<Rightarrow> False | Some pg \<Rightarrow> pg_backing pg \<noteq> None"
        by (simp add: resident_def split: option.splits)
      then show ?thesis by (simp only: fault_one_def if_True)
    qed (simp add: fault_one_def)
    moreover have "find_file_mapping s current w \<noteq> None \<longrightarrow> resident s current w \<noteq> None" using True by argo
    ultimately show ?thesis using faulted_refl [OF inv own] by (simp only: simp_thms)
  next
    case False
    then obtain start m where fm: "find_file_mapping s current w = Some (start, m)" by auto
    define f where "f = fm_backing m"
    define cur where "cur = fm_offset m + (current - start)"
    define cfs where "cfs = max (first_offset f) (cur - cur mod file_prefetch_bytes)"
    define cfe where "cfe = min (end_offset f) (cfs + file_prefetch_bytes)"
    define cgs where "cgs = start + (cfs - fm_offset m)"
    define pages where "pages = cluster_pages cfs cfe cgs (fm_end m)"
    have eq: "fault_one pread s current w = fold (fault_cluster_page pread s f cfe) pages w"
    proof -
      have "\<not> (case find_page s current w of None \<Rightarrow> False | Some pg \<Rightarrow> pg_backing pg \<noteq> None)"
        using False by (auto simp: resident_def split: option.splits)
      then show ?thesis
        by (simp add: fault_one_def fm Let_def pages_def cgs_def cfe_def cfs_def cur_def f_def)
    qed
    note M = find_file_mapping_mem [OF fm]
    have mo: "start mod page_size = 0" "fm_end m mod page_size = 0" "fm_offset m mod page_size = 0"
      "first_offset f = fm_offset m" "fm_offset m + (fm_end m - start) < end_offset f + page_size"
    proof -
      have "mapping_ok (start, m)" using ok M(1) unfolding files_ok_def by blast
      then show "start mod page_size = 0" "fm_end m mod page_size = 0" "fm_offset m mod page_size = 0"
        "first_offset f = fm_offset m" "fm_offset m + (fm_end m - start) < end_offset f + page_size"
        by (simp_all only: mapping_ok_def f_def Let_def case_prod_conv)
    qed
    have pb: "file_prefetch_bytes = guest_file_prefetch_pages * page_size" "0 < file_prefetch_bytes"
      by (simp_all add: file_prefetch_bytes_def guest_file_prefetch_pages_def page_size_def)
    have dvd: "page_size dvd current - start" "page_size dvd fm_offset m" "page_size dvd start"
      using cm mo by (simp_all add: dvd_diff_nat mod_0_imp_dvd)
    then have cur: "page_size dvd cur" by (simp add: cur_def)
    then have "page_size dvd cur - cur mod file_prefetch_bytes"
      using pb by (metis dvd_diff_nat dvd_mod dvd_triv_right)
    then have cfs: "page_size dvd cfs" "fm_offset m \<le> cfs" "cfs \<le> cur"
      using dvd by (simp_all add: cfs_def mo max_def cur_def)
    have cgm: "cgs mod page_size = 0" using dvd cfs by (simp add: cgs_def dvd_imp_mod_0)
    have al: "base mod page_size = 0" if "(fp, base) \<in> set pages" for fp base
      by (rule cluster_pages_aligned [OF cgm that [unfolded pages_def]])
    define i where "i = (cur - cfs) div page_size"
    have ii: "i * page_size = cur - cfs" using cur cfs by (simp add: i_def dvd_diff_nat)
    have "cur mod file_prefetch_bytes < file_prefetch_bytes" using pb(2) by simp
    then have near: "cur - cfs < file_prefetch_bytes" unfolding cfs_def by linarith
    then have "i < guest_file_prefetch_pages" using ii pb(1) by (metis mult_less_cancel2)
    moreover have "cfs + i * page_size < cfe"
    proof -
      have "current + page_size \<le> fm_end m" by (rule aligned_step [OF cm mo(2) M(3)])
      then have "cur < end_offset f" using mo(5) M(2) unfolding cur_def by linarith
      then show ?thesis using near cfs(3) ii by (simp add: cfe_def)
    qed
    moreover have place: "cgs + i * page_size = current"
      using ii cfs(2,3) M(2) unfolding cgs_def cur_def by linarith
    ultimately have mem: "(cfs + i * page_size, current) \<in> set pages"
      using cluster_pages_mem [of i cfs cfe cgs "fm_end m"] M(3) unfolding pages_def by simp
    obtain before after where split: "pages = before @ (cfs + i * page_size, current) # after"
      using mem by (meson split_list)
    have step: "faulted s v (fault_cluster_page pread s f cfe x v) \<and> True" if "x \<in> set pages" "page_inv v" "owns s v" for x v
      using fault_cluster_facts(1) [OF that(2,3)] al that(1) by (cases x) auto
    define v1 where "v1 = fold (fault_cluster_page pread s f cfe) before w"
    have f1: "faulted s w v1" unfolding v1_def
      using faulted_fold [OF inv own, of before "\<lambda>_. True" "fault_cluster_page pread s f cfe"] step split by simp
    define v2 where "v2 = fault_cluster_page pread s f cfe (cfs + i * page_size, current) v1"
    have f2: "faulted s v1 v2" "resident s current v2 \<noteq> None"
      unfolding v2_def using fault_cluster_facts [OF faulted_inv(1,2) [OF f1] cm] by simp_all
    define v3 where "v3 = fold (fault_cluster_page pread s f cfe) after v2"
    have f3: "faulted s v2 v3" unfolding v3_def
      using faulted_fold [OF faulted_inv(1,2) [OF f2(1)], of after "\<lambda>_. True" "fault_cluster_page pread s f cfe"] step split by simp
    have "fault_one pread s current w = v3" by (simp add: eq split v1_def v2_def v3_def)
    moreover have "faulted s w v3" using faulted_trans [OF faulted_trans [OF f1 f2(1)] f3] .
    moreover have "resident s current v3 \<noteq> None"
      using faulted_resident [OF f3 _ f2(2)] faulted_inv(3) [OF f2(1)] faulted_inv(3) [OF f1] s by simp
    ultimately show ?thesis by simp
  qed
  then show "faulted s w (fault_one pread s current w)"
    "find_file_mapping s current w \<noteq> None \<Longrightarrow> resident s current (fault_one pread s current w) \<noteq> None" by simp_all
qed

lemma same_view_files: "same_view w w' \<Longrightarrow> files_ok (file_mappings (space_of w' t)) = files_ok (file_mappings (space_of w t))"
  by (simp add: same_view_def)

lemma fault_all:
  assumes inv: "page_inv w" and own: "owns s w" and ok: "files_ok (file_mappings (space_of w s))"
    and al: "\<forall>b\<in>set bs. b mod page_size = 0"
  shows "faulted s w (fold (fault_one pread s) bs w) \<and>
    (\<forall>b\<in>set bs. find_file_mapping s b w \<noteq> None \<longrightarrow> resident s b (fold (fault_one pread s) bs w) \<noteq> None)"
  using inv own ok al
proof (induction bs arbitrary: w)
  case (Cons b bs)
  have s: "s \<in> set (live w)" using Cons.prems(2) by (simp add: owns_def)
  define v where "v = fault_one pread s b w"
  have F: "faulted s w v" "find_file_mapping s b w \<noteq> None \<Longrightarrow> resident s b v \<noteq> None"
    unfolding v_def using fault_one_facts [OF Cons.prems(1-3)] Cons.prems(4) by simp_all
  have I: "faulted s v (fold (fault_one pread s) bs v)"
    "\<forall>b\<in>set bs. find_file_mapping s b v \<noteq> None \<longrightarrow> resident s b (fold (fault_one pread s) bs v) \<noteq> None"
    using Cons.IH [of v] faulted_inv [OF F(1)] Cons.prems(3,4) same_view_files by auto
  have "resident s b (fold (fault_one pread s) bs v) \<noteq> None" if "find_file_mapping s b w \<noteq> None"
    using faulted_resident [OF I(1) _ F(2) [OF that]] faulted_inv(3) [OF F(1)] s by simp
  moreover have "find_file_mapping s b' v = find_file_mapping s b' w" for b'
    by (rule same_view_mapping [OF faulted_inv(4) [OF F(1)]])
  ultimately show ?case using faulted_trans [OF F(1) I(1)] I(2) by (simp add: v_def)
qed (simp add: faulted_refl)

lemma ensure_unique_faulted:
  assumes inv: "page_inv w" and s: "s \<in> set (live w)"
  shows "faulted s w (ensure_unique_page_map s w)"
proof -
  let ?v = "ensure_unique_page_map s w"
  note E = ensure_unique_inv [OF inv s] and ent = ensure_unique_entry [OF inv s]
  have lk: "lookup_ok w t" "lookup_ok ?v t" if "t \<in> set (live w)" for t
    using inv E(1,3) that by (simp_all add: page_inv_def)
  have res: "resident t y ?v = resident t y w" if "t \<in> set (live w)" for t y
    using ent [OF that] by (simp add: resident_entry [OF lk(1) [OF that]] resident_entry [OF lk(2) [OF that]])
  have "read_byte t y ?v = read_byte t y w" if "t \<in> set (live w)" for t y
    unfolding read_byte_def res [OF that] ensure_unique_held ..
  then show ?thesis using ensure_unique_confined [OF inv s] E res by (simp add: faulted_def)
qed

text \<open>After a fault, no page of the range is missing that a file mapping could supply.\<close>

lemma fault_file_pages_facts:
  assumes inv: "page_inv w" and s: "s \<in> set (live w)" and ok: "files_ok (file_mappings (space_of w s))"
    and acc: "range_accessible s a n perm_none w" "n \<noteq> 0"
  shows "\<exists>v. fault_file_pages pread s a n w = (True, v) \<and> faulted s w v \<and> \<not> range_needs_file_fault s a n v \<and>
    (\<forall>b\<in>set (page_bases (page_base a) (page_range_end a n)). find_file_mapping s b w \<noteq> None \<longrightarrow> resident s b v \<noteq> None)"
proof -
  define u where "u = ensure_unique_page_map s w"
  define bs where "bs = page_bases (page_base a) (page_range_end a n)"
  define v where "v = fold (fault_one pread s) bs u"
  have U: "faulted s w u" unfolding u_def by (rule ensure_unique_faulted [OF inv s])
  have no: "\<not> range_overflows a n" using acc by (auto simp: range_accessible_def)
  have eq: "fault_file_pages pread s a n w = (True, v)"
    using acc no by (simp add: fault_file_pages_def v_def bs_def u_def)
  have al: "\<forall>b\<in>set bs. b mod page_size = 0" using page_bases_mod [OF page_base_mod] unfolding bs_def by blast
  have oku: "files_ok (file_mappings (space_of u s))" using ok same_view_files [OF faulted_inv(4) [OF U]] by simp
  have V: "faulted s u v" "\<forall>b\<in>set bs. find_file_mapping s b u \<noteq> None \<longrightarrow> resident s b v \<noteq> None"
    using fault_all [OF faulted_inv(1,2) [OF U] oku al, of pread] by (simp_all add: v_def)
  have W: "faulted s w v" by (rule faulted_trans [OF U V(1)])
  have fm: "find_file_mapping s b v = find_file_mapping s b w" "find_file_mapping s b u = find_file_mapping s b w" for b
    using same_view_mapping faulted_inv(4) [OF W] faulted_inv(4) [OF U] by blast+
  have "\<not> range_needs_file_fault s a n v"
  proof -
    have "\<not> ((case find_page s b v of None \<Rightarrow> True | Some pg \<Rightarrow> pg_backing pg = None) \<and> find_file_mapping s b v \<noteq> None)"
      if "b \<in> set bs" for b
      using V(2) that fm by (auto simp: resident_def split: option.splits)
    then show ?thesis unfolding range_needs_file_fault_def bs_def list_ex_iff by auto
  qed
  then show ?thesis using eq W V(2) fm by (auto simp: bs_def)
qed

section \<open>Reads return\<close>

lemma accessible_any: "range_accessible s a n p w \<Longrightarrow> range_accessible s a n perm_none w"
  by (auto simp: range_accessible_def perm_none_def Let_def list_all_iff split: if_splits)

lemma page_bases_first:
  assumes "n \<noteq> 0"
  shows "page_base a \<in> set (page_bases (page_base a) (page_range_end a n))"
proof -
  have "page_base a \<le> page_base (a + (n - 1))" using aligned_le [OF page_base_mod] page_base_le [of a] by (simp add: le_add1 order_trans)
  then have "0 < (page_range_end a n - page_base a + page_size - 1) div page_size"
    unfolding page_range_end_def by (simp add: page_size_def)
  then show ?thesis unfolding page_bases_def set_map by (intro image_eqI [of _ _ 0]) simp_all
qed

lemma faulted_settles:
  assumes s: "s \<in> set (live w)" and inv: "page_inv w" and f: "faulted s w v" and ok: "files_ok (file_mappings (space_of w s))"
    and res: "find_file_mapping s (page_base a) w \<noteq> None \<Longrightarrow> resident s (page_base a) v \<noteq> None"
  shows "find_file_mapping s a v = None \<or> resident s a v \<noteq> None"
proof -
  have "find_file_mapping s a v = find_file_mapping s a w" by (rule same_view_mapping [OF faulted_inv(4) [OF f]])
  also have "\<dots> = find_file_mapping s (page_base a) w" using find_file_mapping_page [OF ok] by simp
  finally have fm: "find_file_mapping s a v = find_file_mapping s (page_base a) w" .
  have "lookup_ok v s" using faulted_inv(1,3) [OF f] s by (simp add: page_inv_def)
  then have "resident s a v = resident s (page_base a) v" by (simp add: resident_entry)
  then show ?thesis using res fm by metis
qed

text \<open>The value a read of \<open>n\<close> bytes gives when nothing is left to fault in.\<close>

lemma read_integer_attempt_settled:
  assumes "range_accessible s a n p w" "find_file_mapping s a w = None \<or> resident s a w \<noteq> None"
    "\<not> range_needs_file_fault s a n w"
  shows "\<exists>x. read_integer_attempt s a n p w = Got x"
  using assms by (auto simp: read_integer_attempt_def Let_def split: option.splits)

lemma join_zeros: "join_bytes (replicate n 0) = 0"
proof -
  have "fold (\<lambda>(i, b) v. v OR push_bit (8 * i) (ucast b)) (enumerate k (replicate n (0 :: u8))) v = (v :: u64)" for k v
    by (induction n arbitrary: k) simp_all
  then show ?thesis by (simp add: join_bytes_def)
qed

lemma read_integer_attempt_value:
  assumes inv: "page_inv w" and s: "s \<in> set (live w)" and n: "n \<le> page_size" and g: "read_integer_attempt s a n p w = Got x"
  shows "x = join_bytes (map (\<lambda>i. read_byte s (a + i) w) [0..<n])"
proof (cases "a mod page_size \<le> page_size - n")
  case True
  have lk: "lookup_ok w s" by (rule inv_lookup [OF inv s])
  have fit: "a mod page_size + n \<le> page_size" using True n by linarith
  have byte: "read_byte s (a + i) w = (case resident s a w of None \<Rightarrow> 0 | Some b \<Rightarrow> pb_bytes (backing_of (store w) b) (a mod page_size + i))"
    if "i < n" for i
    using piece_address [OF fit that] by (simp add: read_byte_def resident_entry [OF lk] cong: option.case_cong)
  show ?thesis
  proof (cases "resident s a w")
    case None
    have "map (\<lambda>i. read_byte s (a + i) w) [0..<n] = replicate n 0"
      using byte None by (intro nth_equalityI) simp_all
    then show ?thesis using g True None by (auto simp: read_integer_attempt_def Let_def join_zeros split: if_splits)
  next
    case (Some b)
    have "map (\<lambda>i. pb_bytes (backing_of (store w) b) (a mod page_size + i)) [0..<n] = map (\<lambda>i. read_byte s (a + i) w) [0..<n]"
      using byte Some by (intro map_cong) simp_all
    moreover have "x = join_bytes (map (\<lambda>i. pb_bytes (backing_of (store w) b) (a mod page_size + i)) [0..<n])"
      using g True Some by (auto simp: read_integer_attempt_def Let_def split: if_splits)
    ultimately show ?thesis by (simp only:)
  qed
next
  case False
  then show ?thesis using g by (auto simp: read_integer_attempt_def Let_def split: if_splits)
qed

lemma read_integer_returns:
  assumes inv: "page_inv w" and s: "s \<in> set (live w)" and ok: "files_ok (file_mappings (space_of w s))"
    and n: "n \<noteq> 0" "n \<le> page_size"
  shows "\<exists>r v. read_integer pread s a n p w = Some (r, v) \<and> (v = w \<or> faulted s w v) \<and>
    r = (if range_accessible s a n p w then Some (join_bytes (map (\<lambda>i. read_byte s (a + i) v) [0..<n])) else None)"
proof (cases "read_integer_attempt s a n p w")
  case Denied
  then have "\<not> range_accessible s a n p w"
    by (auto simp: read_integer_attempt_def Let_def split: if_splits option.splits)
  then show ?thesis using Denied by (subst read_integer.simps) simp
next
  case (Got x)
  then have "range_accessible s a n p w" by (auto simp: read_integer_attempt_def split: if_splits)
  then show ?thesis using Got read_integer_attempt_value [OF inv s n(2) Got] by (subst read_integer.simps) simp
next
  case Must_Fault
  then have acc: "range_accessible s a n p w" by (auto simp: read_integer_attempt_def split: if_splits)
  obtain v where v: "fault_file_pages pread s a n w = (True, v)" "faulted s w v" "\<not> range_needs_file_fault s a n v"
    "\<forall>b\<in>set (page_bases (page_base a) (page_range_end a n)). find_file_mapping s b w \<noteq> None \<longrightarrow> resident s b v \<noteq> None"
    using fault_file_pages_facts [OF inv s ok accessible_any [OF acc] n(1)] by blast
  have "find_file_mapping s a v = None \<or> resident s a v \<noteq> None"
    by (rule faulted_settles [OF s inv v(2) ok]) (use v(4) page_bases_first [OF n(1)] in blast)
  moreover have "range_accessible s a n p v" using acc same_view_accessible [OF faulted_inv(4) [OF v(2)]] by simp
  ultimately obtain x where x: "read_integer_attempt s a n p v = Got x"
    using read_integer_attempt_settled v(3) by blast
  have "x = join_bytes (map (\<lambda>i. read_byte s (a + i) v) [0..<n])"
    by (rule read_integer_attempt_value [OF faulted_inv(1) [OF v(2)] _ n(2) x]) (use faulted_inv(3) [OF v(2)] s in simp)
  moreover have "read_integer pread s a n p v = Some (Some x, v)" using x by (subst read_integer.simps) simp
  then have "read_integer pread s a n p w = Some (Some x, v)"
    using Must_Fault v(1) by (subst read_integer.simps) simp
  ultimately show ?thesis using acc v(2) by simp
qed

lemma read_bytes_returns:
  assumes inv: "page_inv w" and s: "s \<in> set (live w)" and ok: "files_ok (file_mappings (space_of w s))"
  shows "\<exists>r v. read_bytes pread s a n w = Some (r, v) \<and> (v = w \<or> faulted s w v) \<and>
    r = (if range_accessible s a n perm_read w then Some (gather s a n v) else None)"
proof (cases "read_bytes_attempt s a n w")
  case Denied
  then have "\<not> range_accessible s a n perm_read w" by (auto simp: read_bytes_attempt_def split: if_splits)
  then show ?thesis using Denied by (subst read_bytes.simps) simp
next
  case (Got x)
  then have "range_accessible s a n perm_read w" "x = gather s a n w" by (auto simp: read_bytes_attempt_def split: if_splits)
  then show ?thesis using Got by (subst read_bytes.simps) simp
next
  case Must_Fault
  then have acc: "range_accessible s a n perm_read w" "n \<noteq> 0"
    by (auto simp: read_bytes_attempt_def range_needs_file_fault_def split: if_splits)
  obtain v where v: "fault_file_pages pread s a n w = (True, v)" "faulted s w v" "\<not> range_needs_file_fault s a n v"
    using fault_file_pages_facts [OF inv s ok accessible_any [OF acc(1)] acc(2)] by blast
  have "range_accessible s a n perm_read v" using acc(1) same_view_accessible [OF faulted_inv(4) [OF v(2)]] by simp
  then have "read_bytes_attempt s a n v = Got (gather s a n v)" using v(3) by (simp add: read_bytes_attempt_def)
  then have "read_bytes pread s a n v = Some (Some (gather s a n v), v)" by (subst read_bytes.simps) simp
  then have "read_bytes pread s a n w = Some (Some (gather s a n v), v)"
    using Must_Fault v(1) by (subst read_bytes.simps) simp
  then show ?thesis using acc(1) v(2) by simp
qed

end
