(* ===== verification/Address_Space_Sharing.thy ===== *)
theory Address_Space_Sharing
  imports Address_Space_Faults
begin

text \<open>
  Sharing pages between spaces, mapping shared pages, forking and the operations on the tables of
  the recompiler keep the invariant of the page maps.
\<close>

section \<open>Holding pages outside the spaces\<close>

text \<open>A physical page that is not written in place through a page map may be held outside.\<close>

definition may_hold :: "memory_world \<Rightarrow> nat \<Rightarrow> bool" where
  "may_hold w b \<longleftrightarrow> present w b \<and> (\<forall>m\<in>maps w. \<forall>a pg. entry w m a = Some pg \<longrightarrow> pg_backing pg = Some b \<longrightarrow> \<not> in_place pg)"

lemma may_hold_entry:
  assumes inv: "page_inv w" and m: "m \<in> maps w" and e: "entry w m a = Some pg" "pg_backing pg = Some b" "\<not> in_place pg"
  shows "may_hold w b"
proof -
  have r: "refers w m a b" by (rule refersI [OF m e(1,2)])
  have "\<not> in_place pg'" if "m' \<in> maps w" "entry w m' a' = Some pg'" "pg_backing pg' = Some b" for m' a' pg'
  proof
    assume "in_place pg'"
    from in_place_sole [OF inv that this] have "m = m'" "a = a'" using r sole_others by blast+
    then show False using that(2) e(1,3) \<open>in_place pg'\<close> by simp
  qed
  then show ?thesis using refers_present [OF inv r] by (auto simp: may_hold_def)
qed

lemma held_may_hold:
  assumes inv: "page_inv w" and b: "b \<in> set (held w)"
  shows "may_hold w b"
proof -
  have "\<not> in_place pg" if "m \<in> maps w" "entry w m a = Some pg" "pg_backing pg = Some b" for m a pg
  proof
    assume "in_place pg"
    from in_place_sole [OF inv that this] show False using b by (simp add: sole_def)
  qed
  then show ?thesis using held_present [OF inv b] by (auto simp: may_hold_def)
qed

lemma hold_inv:
  assumes inv: "page_inv w" and bs: "\<forall>b\<in>set bs. may_hold w b"
  shows "page_inv (w\<lparr>held := bs @ held w\<rparr>)" (is "page_inv ?w")
proof -
  have ent: "entry ?w = entry w" "maps ?w = maps w" by (simp_all add: entry_def maps_def fun_eq_iff)
  then have refers: "refers ?w = refers w" by (simp add: refers_def fun_eq_iff)
  have pres: "present ?w = present w" by (simp add: present_def fun_eq_iff)
  have "refs_ok ?w" using inv bs unfolding page_inv_def refs_ok_def refers pres by (auto simp: may_hold_def)
  moreover have "private_ok ?w"
    unfolding private_ok_def ent
  proof (intro conjI ballI allI impI)
    fix m a pg b
    assume e: "m \<in> maps w" "entry w m a = Some pg" "pg_backing pg = Some b" "in_place pg"
    have "b \<notin> set bs" using e bs unfolding may_hold_def by blast
    moreover have "sole w m a b" by (rule in_place_sole [OF inv e])
    ultimately show "sole ?w m a b" unfolding sole_def refers by simp
  next
    fix x y a pg
    assume "x \<in> set (live ?w)" "y \<in> set (live ?w)" "x \<noteq> y" "pages_ref (space_of ?w x) = pages_ref (space_of ?w y)"
      "entry w (pages_ref (space_of ?w x)) a = Some pg" "pg_backing pg \<noteq> None"
    then show "copy_on_write_possible pg \<or> shared_writable pg"
      using inv unfolding page_inv_def private_ok_def by simp
  qed
  moreover have "\<forall>m\<in>maps ?w. aligned_map (page_map_of ?w m)" using inv unfolding ent page_inv_def by simp
  moreover have "\<forall>t\<in>set (live ?w). lookup_ok ?w t" using inv unfolding page_inv_def lookup_ok_def ent by simp
  ultimately show ?thesis unfolding page_inv_def by blast
qed

lemma release_held_inv:
  assumes inv: "page_inv w"
  shows "page_inv (w\<lparr>held := remove1 b (held w)\<rparr>)"
proof (rule spaces_inv [OF inv])
  show "set (held (w\<lparr>held := remove1 b (held w)\<rparr>)) \<subseteq> set (held w)" using set_remove1_subset by simp
qed (use inv in \<open>auto simp: kept_space_def page_inv_def refs_ok_def\<close>)

section \<open>Sharing the pages of a range\<close>

lemma enable_tracking_store [simp]:
  "store_sim st (snd (enable_shared_write_tracking b st))" "bytes_kept st (snd (enable_shared_write_tracking b st))"
  by simp_all

lemma share_page_facts:
  assumes inv: "page_inv w" and s: "s \<in> set (live w)" and bm: "base mod page_size = 0"
    and r_def: "r = share_page pread s base (acc, w)"
  shows "confined s w (snd r)"
    "\<exists>b pg. fst (fst r) = fst acc @ [b] \<and> entry (snd r) (pages_ref (space_of (snd r) s)) base = Some pg \<and>
       pg_backing pg = Some b \<and> shared_writable pg"
    "x \<noteq> base \<Longrightarrow> entry (snd r) (pages_ref (space_of (snd r) s)) x = entry w (pages_ref (space_of w s)) x"
    "same_view w (snd r)"
proof -
  obtain shared tr tk al where acc: "acc = (shared, tr, tk, al)" by (metis prod_cases4)
  define u where "u = ensure_unique_page_map s w"
  define w1 where "w1 = ensure_page pread s base u"
  obtain b w2 where wb: "writable_backing pread s base w1 = (b, w2)" by force
  note E = ensure_unique_inv [OF inv s, folded u_def]
  have pb: "page_base base = base" by (rule page_base_aligned [OF bm])
  have st1: "page_step s base u w1" unfolding w1_def using ensure_page_owned(1) [OF E(1,2), of base pread] by (simp add: pb)
  have i1: "page_inv w1" "owns s w1" "live w1 = live u" using st1 by (simp_all add: page_step_def)
  obtain pg where e1: "entry w1 (pages_ref (space_of w1 s)) base = Some pg"
    using ensure_page_owned(2) [OF E(1,2), of pread base] unfolding pb w1_def by blast
  note W = writable_backing_inv [OF i1(1,2) e1 bm wb]
  define pg2 where "pg2 = pg\<lparr>pg_backing := Some b, file_cached := False, copy_on_write_possible := False\<rparr>"
  define w3 where "w3 = set_page s base (pg2\<lparr>shared_writable := True\<rparr>) w2"
  have e2: "entry w2 (pages_ref (space_of w2 s)) base = Some pg2" using W(4) by (simp add: pg2_def)
  have w3: "w3 = place_page s base (pg2\<lparr>shared_writable := True\<rparr>) w2"
    using e2 by (simp add: w3_def place_page_def entry_def pages_of_def)
  have s2: "s \<in> set (live w2)" using W(2) by (simp add: owns_def)
  have inv3: "page_inv w3" unfolding w3
    by (rule install_inv [OF W(1,2) bm may_install_flags [OF W(1) s2 e2]]) (simp_all add: in_place_def)
  define st where "st = (if tracks_write s base page_size w3 then snd (enable_shared_write_tracking b (store w3)) else store w3)"
  define w4 where "w4 = w3\<lparr>store := st\<rparr>"
  have sim4: "store_sim (store w3) st" by (simp add: st_def)
  have r: "snd r = refresh_jit_page s base w4" "fst (fst r) = shared @ [b]"
  proof -
    have m2: "(case map_of (pages_of s w2) base of None \<Rightarrow> blank_page | Some pg \<Rightarrow> pg) = pg2"
      using e2 by (simp add: entry_def pages_of_def)
    have w1': "ensure_page pread s base w = w1" unfolding w1_def u_def by (rule ensure_page_unique [OF inv s])
    have t: "tracks_write s base page_size w3 \<Longrightarrow> w4 = w3\<lparr>store := snd (enable_shared_write_tracking b (store w3))\<rparr>"
      "\<not> tracks_write s base page_size w3 \<Longrightarrow> w4 = w3" by (simp_all add: w4_def st_def)
    show "snd r = refresh_jit_page s base w4" "fst (fst r) = shared @ [b]"
      unfolding r_def acc share_page_def Let_def case_prod_conv w1' wb m2 w3_def [symmetric]
      using t by (simp_all add: case_prod_beta)
  qed
  have same: "same_pages w4 (snd r)" unfolding r by simp
  have inv5: "page_inv (snd r)" by (rule same_pages_inv [OF same]) (simp add: w4_def store_inv [OF inv3 sim4])
  have ref4: "pages_ref (space_of (snd r) t) = pages_ref (space_of w2 t)" for t
    using same by (simp add: same_pages_def same_core_def w4_def w3)
  have ent5: "entry (snd r) = entry w3" using same_pages_entry [OF same] by (simp add: w4_def)
  have others: "entry (snd r) (pages_ref (space_of (snd r) t)) y = entry w (pages_ref (space_of w t)) y"
    if "t \<in> set (live w)" "t \<noteq> s \<or> y \<noteq> base" for t y
  proof -
    have "entry (snd r) (pages_ref (space_of (snd r) t)) y = entry w2 (pages_ref (space_of w2 t)) y"
      using that W(2,3) E(3) i1(3) by (auto simp: ent5 ref4 w3 install_entry owns_def)
    also have "\<dots> = entry w1 (pages_ref (space_of w1 t)) y"
      using that wb i1(2,3) E(3) by (auto simp: writable_backing_install [OF e1] install_entry owns_def)
    also have "\<dots> = entry u (pages_ref (space_of u t)) y"
      using st1 that E(3) by (simp add: page_step_def)
    also have "\<dots> = entry w (pages_ref (space_of w t)) y"
      unfolding u_def by (rule ensure_unique_entry [OF inv s that(1)])
    finally show ?thesis .
  qed
  have "store w2 = snd (detached pread w1 pg)" using wb by (auto simp: writable_backing_install [OF e1])
  then have "store_sim (store w1) (store w2)" by (simp add: detached_sim)
  moreover have "store_sim (store w) (store w1)" using st1 ensure_unique_held(2) [of s w] by (simp add: page_step_def u_def)
  moreover have "store (snd r) = st" using same by (simp add: same_pages_def w4_def)
  moreover have "store w3 = store w2" by (simp add: w3)
  ultimately have sim: "store_sim (store w) (store (snd r))" using sim4 store_sim_trans by metis
  have live: "live (snd r) = live w" using same W(3) i1(3) E(3) by (simp add: same_pages_def w4_def w3)
  show "confined s w (snd r)" using inv5 live sim others by (simp add: confined_def)
  show "\<exists>b pg. fst (fst r) = fst acc @ [b] \<and> entry (snd r) (pages_ref (space_of (snd r) s)) base = Some pg \<and>
       pg_backing pg = Some b \<and> shared_writable pg"
    by (simp add: r(2) acc ent5 ref4 w3 install_entry pg2_def)
  show "x \<noteq> base \<Longrightarrow> entry (snd r) (pages_ref (space_of (snd r) s)) x = entry w (pages_ref (space_of w s)) x"
    by (rule others [OF s]) simp
  have "same_view w w2"
    using same_view_trans [OF ensure_page_view [of w pread s base] writable_backing_view [of _ pread s base]] wb
      ensure_page_unique [OF inv s, of pread base] by (simp add: w1_def u_def)
  moreover have "same_view w2 w4" unfolding w4_def w3_def
    by (rule same_view_trans [OF page_ops_view(1) page_ops_view(4)])
  ultimately show "same_view w (snd r)" unfolding r using same_view_trans refresh_view by metis
qed

lemma page_bases_distinct: "distinct (page_bases first fin)"
  unfolding page_bases_def distinct_map by (simp add: inj_on_def)

lemma share_fold:
  assumes "page_inv w" "s \<in> set (live w)" "\<forall>b\<in>set bs. b mod page_size = 0" "distinct bs" "set bs \<inter> done = {}"
    and "\<forall>b\<in>set (fst acc). \<exists>a\<in>done. \<exists>pg. entry w (pages_ref (space_of w s)) a = Some pg \<and> pg_backing pg = Some b \<and> shared_writable pg"
    and "r = fold (share_page pread s) bs (acc, w)"
  shows "confined s w (snd r) \<and> same_view w (snd r) \<and> (\<forall>b\<in>set (fst (fst r)). may_hold (snd r) b)"
  using assms
proof (induction bs arbitrary: acc w "done")
  case Nil
  have "may_hold w b" if b: "b \<in> set (fst acc)" for b
  proof -
    obtain a pg where "entry w (pages_ref (space_of w s)) a = Some pg" "pg_backing pg = Some b" "shared_writable pg"
      using Nil.prems(6) b by blast
    then show ?thesis using may_hold_entry [OF Nil.prems(1) in_maps [OF Nil.prems(2)]] by (simp add: in_place_def)
  qed
  then show ?case using Nil by (simp add: confined_refl)
next
  case (Cons x bs)
  define q where "q = share_page pread s x (acc, w)"
  have xm: "x mod page_size = 0" using Cons.prems(3) by simp
  note F = share_page_facts [OF Cons.prems(1,2) xm q_def]
  define v where "v = snd q"
  have v: "page_inv v" "live v = live w" using F(1) by (simp_all add: confined_def v_def)
  have q: "q = (fst q, v)" by (simp add: v_def)
  have prem: "\<forall>b\<in>set (fst (fst q)). \<exists>a\<in>insert x done. \<exists>pg. entry v (pages_ref (space_of v s)) a = Some pg \<and>
      pg_backing pg = Some b \<and> shared_writable pg"
  proof
    fix b assume b: "b \<in> set (fst (fst q))"
    obtain b' pg where new: "fst (fst q) = fst acc @ [b']" "entry v (pages_ref (space_of v s)) x = Some pg"
      "pg_backing pg = Some b'" "shared_writable pg" using F(2) by (auto simp: v_def)
    show "\<exists>a\<in>insert x done. \<exists>pg. entry v (pages_ref (space_of v s)) a = Some pg \<and> pg_backing pg = Some b \<and> shared_writable pg"
    proof (cases "b = b'")
      case True
      then show ?thesis using new by blast
    next
      case False
      then have "b \<in> set (fst acc)" using b new(1) by simp
      then obtain a pg where "a \<in> done" "entry w (pages_ref (space_of w s)) a = Some pg" "pg_backing pg = Some b" "shared_writable pg"
        using Cons.prems(6) by blast
      moreover have "a \<noteq> x" using \<open>a \<in> done\<close> Cons.prems(5) by auto
      ultimately show ?thesis using F(3) [of a] by (auto simp: v_def)
    qed
  qed
  have rest: "r = fold (share_page pread s) bs (fst q, v)" using Cons.prems(7) q by (simp add: q_def)
  have I: "confined s v (snd r) \<and> same_view v (snd r) \<and> (\<forall>b\<in>set (fst (fst r)). may_hold (snd r) b)"
    by (rule Cons.IH [OF v(1) _ _ _ _ prem rest]) (use Cons.prems v in auto)
  then show ?case
    using confined_trans [OF F(1)] same_view_trans [OF F(4)] unfolding v_def by blast
qed

lemma refresh_range_view [simp]: "same_view w (refresh_jit_page_range s a fin w)"
  by (simp add: refresh_jit_page_range_def same_view_fold)

lemma finish_view [simp]: "same_view w (finish_shared_write_tracking s e t al w)"
  by (auto simp: finish_shared_write_tracking_def invalidate_shared_write_jit_pages_def Let_def same_view_def split: option.splits)

lemma share_pages_inv:
  assumes inv: "page_inv w" and s: "s \<in> set (live w)"
  shows "page_inv (snd (share_pages pread s a n w)) \<and> live (snd (share_pages pread s a n w)) = live w \<and>
    same_view w (snd (share_pages pread s a n w))"
proof (cases "n = 0 \<or> a mod page_size \<noteq> 0 \<or> n mod page_size \<noteq> 0 \<or> range_overflows a n \<or> \<not> range_accessible s a n perm_none w")
  case True
  then have "snd (share_pages pread s a n w) = w" by (auto simp: share_pages_def)
  then show ?thesis using inv by simp
next
  case False
  define r where "r = fold (share_page pread s) (page_bases a (page_range_end a n)) (([], 0, False, False), w)"
  obtain acc w1 where r1: "r = (acc, w1)" by (rule prod.exhaust)
  obtain shared tr tk al where "acc = (shared, tr, tk, al)" by (metis prod_cases4)
  with r1 have r: "r = ((shared, tr, tk, al), w1)" by simp
  have "\<forall>b\<in>set (page_bases a (page_range_end a n)). b mod page_size = 0" using page_bases_mod False by blast
  then have "confined s w w1 \<and> same_view w w1 \<and> (\<forall>b\<in>set shared. may_hold w1 b)"
    using share_fold [OF inv s _ page_bases_distinct _ _ r_def, of "{}"] by (simp add: r)
  then have F: "page_inv w1" "live w1 = live w" "same_view w w1" "\<forall>b\<in>set shared. may_hold w1 b"
    by (simp_all add: confined_def)
  define w2 where "w2 = (if tk then finish_shared_write_tracking s (tracking_epoch (store w)) tr al w1 else w1)"
  have same: "same_pages w1 w2" by (simp add: w2_def)
  have "may_hold w2 b" if "b \<in> set shared" for b
    using F(4) that same_pages_maps [OF same] same_pages_entry [OF same] same
    by (auto simp: may_hold_def present_def same_pages_def)
  then have "page_inv (w2\<lparr>held := shared @ held w2\<rparr>)" using hold_inv [OF same_pages_inv [OF same F(1)]] by blast
  moreover have "snd (share_pages pread s a n w) = w2\<lparr>held := shared @ held w2\<rparr>"
    using False r by (simp add: share_pages_def Let_def r_def [symmetric] w2_def)
  moreover have "live w2 = live w" using same F(2) by (simp add: same_pages_def)
  moreover have "same_view w w2" using F(3) same_view_trans [OF F(3) finish_view] by (simp add: w2_def)
  ultimately show ?thesis by (simp add: same_view_def)
qed

section \<open>Mapping pages that are held outside\<close>

lemma install_page_facts:
  assumes inv: "page_inv w" and own: "owns s w" and bm: "base mod page_size = 0" and b: "b \<in> set (held w)"
    and fresh: "entry w (pages_ref (space_of w s)) base = None"
    and r_def: "r = install_page s p mode (base, b) (acc, w)"
  shows "confined s w (snd r)" "owns s (snd r)" "held (snd r) = held w"
    "x \<noteq> base \<Longrightarrow> entry (snd r) (pages_ref (space_of (snd r) s)) x = entry w (pages_ref (space_of w s)) x"
    "same_view w (snd r)"
proof -
  define pg where "pg = \<lparr>pg_backing = Some b, pg_generation = 0, file_cached = False, shared_writable = (mode \<noteq> CopyOnWrite),
    file_writeback_capable = (mode = SharedFile \<and> file_backed b (store w)),
    file_writeback = (mode = SharedFile \<and> file_backed b (store w)) \<and> has_permission p perm_write,
    copy_on_write_possible = \<not> mode \<noteq> CopyOnWrite\<rparr>"
  define w1 where "w1 = set_pages s (om_emplace base pg (pages_of s w)) w"
  have none: "map_of (pages_of s w) base = None" using fresh by (simp add: entry_def pages_of_def)
  have w1: "w1 = set_page s base pg w" by (simp add: w1_def om_emplace_def none set_page_def)
  define st where "st = (if mode \<noteq> CopyOnWrite \<and> tracks_write s base page_size w1
    then snd (enable_shared_write_tracking b (store w)) else store w)"
  have st1: "store w1 = store w" by (simp add: w1)
  have id: "w1\<lparr>store := store w\<rparr> = w1" unfolding st1 [symmetric] by simp
  have "snd r = cache_page s base (w1\<lparr>store := st\<rparr>)"
    unfolding r_def install_page_def Let_def case_prod_beta fst_conv snd_conv pg_def [symmetric] w1_def [symmetric] st_def
    by (simp add: st1 id)
  also have "\<dots> = (place_page s base pg w)\<lparr>store := st\<rparr>"
    using none by (simp add: place_page_def w1 cache_page_def set_space_def)
  finally have r: "snd r = (place_page s base pg w)\<lparr>store := st\<rparr>" .
  have "may_install w s base pg"
    using held_may_hold [OF inv b] by (auto simp: may_install_def may_hold_def pg_def in_place_def)
  then have "page_inv (place_page s base pg w)" by (rule install_inv [OF inv own bm])
  moreover have sim: "store_sim (store w) st" by (simp add: st_def)
  ultimately have "page_inv (snd r)" unfolding r by (simp add: store_inv)
  then show "confined s w (snd r)"
    using sim own by (auto simp: confined_def r install_entry owns_def)
  show "owns s (snd r)" "held (snd r) = held w" using own by (simp_all add: r)
  show "x \<noteq> base \<Longrightarrow> entry (snd r) (pages_ref (space_of (snd r) s)) x = entry w (pages_ref (space_of w s)) x"
    by (simp add: r install_entry)
  have "same_view w (place_page s base pg w)" unfolding place_page_def
    by (auto intro: same_view_trans [OF _ page_ops_view(3)])
  then show "same_view w (snd r)" unfolding r by (rule same_view_trans [OF _ page_ops_view(4)])
qed

lemma install_fold:
  assumes "page_inv w" "owns s w" "\<forall>(base, b)\<in>set ps. base mod page_size = 0 \<and> b \<in> set (held w) \<and>
      entry w (pages_ref (space_of w s)) base = None" "distinct (map fst ps)"
    and "r = fold (install_page s p mode) ps (acc, w)"
  shows "confined s w (snd r) \<and> same_view w (snd r)"
  using assms
proof (induction ps arbitrary: acc w)
  case (Cons x ps)
  obtain base b where x: "x = (base, b)" by force
  define q where "q = install_page s p mode (base, b) (acc, w)"
  have h: "base mod page_size = 0" "b \<in> set (held w)" "entry w (pages_ref (space_of w s)) base = None"
    using Cons.prems(3) by (simp_all add: x)
  note F = install_page_facts [OF Cons.prems(1,2) h q_def]
  have "\<forall>(base, b)\<in>set ps. base mod page_size = 0 \<and> b \<in> set (held (snd q)) \<and>
      entry (snd q) (pages_ref (space_of (snd q) s)) base = None"
  proof safe
    fix c d assume m: "(c, d) \<in> set ps"
    then have "c \<noteq> base" using Cons.prems(4) x by force
    then show "c mod page_size = 0" "d \<in> set (held (snd q))" "entry (snd q) (pages_ref (space_of (snd q) s)) c = None"
      using Cons.prems(3) m F(3,4) by auto
  qed
  moreover have "r = fold (install_page s p mode) ps (fst q, snd q)" using Cons.prems(5) by (simp add: q_def x)
  ultimately have "confined s (snd q) (snd r) \<and> same_view (snd q) (snd r)"
    using Cons.IH [of "snd q" "fst q"] F(1,2) Cons.prems(4) by (simp add: confined_def)
  then show ?case using confined_trans [OF F(1)] same_view_trans [OF F(5)] by blast
qed (simp add: confined_refl)

lemma permissions_view_maps [simp]:
  "file_mappings (space_of (add_page_permissions s a fin p w) t) = file_mappings (space_of w t)"
proof -
  have "file_mappings (space_of (put_permission s i f w) t) = file_mappings (space_of w t)" for s i f w
    by (simp add: put_permission_def writable_page_permission_chunk_def Let_def split: option.splits)
  then have "file_mappings (space_of (fold (\<lambda>base. put_permission s (base div page_size) f) bs w) t) = file_mappings (space_of w t)" for f bs
    by (induction bs arbitrary: w) simp_all
  then show ?thesis by (simp add: add_page_permissions_def)
qed

text \<open>The file mappings of all spaces.\<close>

definition same_files :: "memory_world \<Rightarrow> memory_world \<Rightarrow> bool" where
  "same_files w w' \<longleftrightarrow> (\<forall>t. file_mappings (space_of w' t) = file_mappings (space_of w t))"

lemma same_files_refl [simp]: "same_files w w"
  by (simp add: same_files_def)

lemma same_files_trans: "same_files a b \<Longrightarrow> same_files b c \<Longrightarrow> same_files a c"
  by (simp add: same_files_def)

lemma view_files: "same_view w w' \<Longrightarrow> same_files w w'"
  by (simp add: same_view_def same_files_def)

lemma same_files_fold: "(\<And>x w. same_files w (f x w)) \<Longrightarrow> same_files w (fold f xs w)"
  by (induction xs arbitrary: w) (auto intro: same_files_trans)

lemma put_permission_files [simp]: "same_files w (put_permission s i f w)"
  by (simp add: same_files_def put_permission_def writable_page_permission_chunk_def Let_def split: option.splits)

lemma files_ops [simp]:
  "same_files w (add_page_permissions s a e p w)" "same_files w (set_page_permissions s a e p w)"
  "same_files w (clear_page_permissions s a e w)" "same_files w (refresh_jit_page_range s a e w)"
  "same_files w (flush_shared_file_pages s a e w)"
proof -
  show "same_files w (add_page_permissions s a e p w)" "same_files w (set_page_permissions s a e p w)"
    "same_files w (clear_page_permissions s a e w)"
    unfolding add_page_permissions_def set_page_permissions_def clear_page_permissions_def by (auto intro: same_files_fold)
  show "same_files w (refresh_jit_page_range s a e w)"
    using same_files_fold [of "refresh_jit_page s"] view_files [OF refresh_view] by (simp add: refresh_jit_page_range_def)
  show "same_files w (flush_shared_file_pages s a e w)" by (simp add: flush_shared_file_pages_def same_files_def)
qed

lemma set_space_files: "file_mappings sp = file_mappings (space_of w s) \<Longrightarrow> same_files w (set_space s sp w)"
  by (simp add: same_files_def)

text \<open>What a call of \<open>map_page_backings\<close> that maps pages does: from the world \<open>w2\<close> with the pages in
  place, regions and flags (\<open>w5\<close>), and the lease if one is asked for.\<close>

definition maps_backings :: "nat \<Rightarrow> nat \<Rightarrow> nat \<Rightarrow> perm \<Rightarrow> memory_world \<Rightarrow> memory_world \<Rightarrow> memory_world \<Rightarrow> bool" where
  "maps_backings s a fin p w2 w5 w' \<longleftrightarrow>
     same_view (add_page_permissions s a fin p
       (set_space s ((space_of w2 s)\<lparr>vm_regions := vm_map_or a fin p (vm_regions (space_of w2 s))\<rparr>) w2)) w5 \<and>
     (w' = w5 \<or> (\<exists>token next. w' = set_space s ((space_of w5 s)\<lparr>mapping_leases :=
        om_emplace token \<lparr>ml_begin = a, ml_end = fin\<rparr> (mapping_leases (space_of w5 s)), next_mapping_lease_token := next\<rparr>) w5))"

lemma map_page_backings_inv:
  assumes inv: "page_inv w" and s: "s \<in> set (live w)" and held: "set bs \<subseteq> set (held w)"
    and r: "map_page_backings s a n p bs mode lease w = Some (ok, token, w')"
  shows "confined s w w'" "same_files w w'"
    "w' \<noteq> w \<Longrightarrow> \<exists>w2 w5. same_view (set_space s (invalidate_mapping_leases a (page_range_end a n) (space_of w s)) w) w2 \<and>
       live w2 = live w \<and> (w' = w2 \<or> confined s w w5 \<and> n \<noteq> 0 \<and> a mod page_size = 0 \<and> \<not> range_overflows a n \<and>
         maps_backings s a (page_range_end a n) p w2 w5 w')"
proof -
  define fin where "fin = page_range_end a n"
  define w0 where "w0 = set_space s (invalidate_mapping_leases a fin (space_of w s)) w"
  define w1 where "w1 = ensure_unique_page_map s w0"
  define ps where "ps = zip (map (\<lambda>i. a + i * page_size) [0..<length bs]) bs"
  have c0: "confined s w w0" unfolding w0_def by (rule set_space_core_confined [OF inv leases_core])
  have s0: "s \<in> set (live w0)" by (rule confined_owned [OF c0 s])
  have inv0: "page_inv w0" by (rule confined_inv(1) [OF c0])
  have c1: "confined s w w1" unfolding w1_def by (rule confined_trans [OF c0 ensure_unique_confined [OF inv0 s0]])
  have own1: "owns s w1" unfolding w1_def by (rule ensure_unique_inv(2) [OF inv0 s0])
  have h1: "held w1 = held w" by (simp add: w1_def ensure_unique_held w0_def)
  have f0: "same_files w w0" unfolding w0_def by (rule set_space_files) (simp add: invalidate_mapping_leases_def)
  then have f1: "same_files w w1" unfolding w1_def using same_files_trans view_files ensure_unique_view by blast
  define bad where "bad \<longleftrightarrow> n = 0 \<or> a mod page_size \<noteq> 0 \<or> n mod page_size \<noteq> 0 \<or> range_overflows a n \<or> length bs \<noteq> n div page_size"
  have v1: "same_view w0 w1" "live w1 = live w"
    using confined_inv(2) [OF c1] by (simp_all add: w1_def)
  have D: "w' = w \<or> w' = w1 \<or> (confined s w w' \<and> same_files w w' \<and>
     (\<exists>w2 w5. same_view w0 w2 \<and> live w2 = live w \<and> confined s w w5 \<and> \<not> bad \<and> maps_backings s a fin p w2 w5 w'))"
  proof (cases "bad \<or> overlaps a fin (vm_regions (space_of w s)) \<or>
      list_ex (\<lambda>(base, _). map_of (pages_of s w1) base \<noteq> None) ps")
    case True
    then show ?thesis
      using r unfolding map_page_backings_def Let_def bad_def fin_def [symmetric] w0_def [symmetric] w1_def [symmetric] ps_def [symmetric]
      by (auto split: if_splits)
  next
    case False
    define epoch where "epoch = tracking_epoch (store w)"
    obtain acc w2 where q: "fold (install_page s p mode) ps ((0, False), w1) = (acc, w2)" by (rule prod.exhaust)
    obtain tr tk where acc: "acc = (tr, tk)" by (rule prod.exhaust)
    have "\<forall>(base, b)\<in>set ps. base mod page_size = 0 \<and> b \<in> set (held w1) \<and> entry w1 (pages_ref (space_of w1 s)) base = None"
    proof safe
      fix base b assume m: "(base, b) \<in> set ps"
      have am: "a mod page_size = 0" using False by (simp add: bad_def)
      show "base mod page_size = 0" using m am unfolding ps_def by (auto dest!: set_zip_leftD)
      show "b \<in> set (held w1)" using m held h1 unfolding ps_def by (auto dest!: set_zip_rightD)
      have "\<not> (\<lambda>(base, _). map_of (pages_of s w1) base \<noteq> None) (base, b)"
        using False m unfolding list_ex_iff by blast
      then show "entry w1 (pages_ref (space_of w1 s)) base = None" by (simp add: entry_def pages_of_def)
    qed
    moreover have "distinct (map fst ps)"
      unfolding ps_def by (simp add: distinct_map inj_on_def)
    ultimately have F: "confined s w1 w2" "same_view w1 w2"
      using install_fold [OF confined_inv(1) [OF c1] own1 _ _ q [symmetric]] by simp_all
    define w3 where "w3 = add_page_permissions s a fin p
      (set_space s ((space_of w2 s)\<lparr>vm_regions := vm_map_or a fin p (vm_regions (space_of w2 s))\<rparr>) w2)"
    define w4 where "w4 = (if tk then finish_shared_write_tracking s epoch tr True w3 else w3)"
    define w5 where "w5 = refresh_jit_page_range s a fin w4"
    have s3: "same_pages w2 w3" unfolding w3_def
      by (intro same_pages_trans [OF same_pages_space permissions_same(1)]) (simp add: same_core_def)
    have s5: "same_pages w2 w5" unfolding w5_def w4_def
      by (intro same_pages_trans [OF _ refresh_range_same]) (simp add: s3 same_pages_trans [OF s3 finish_same])
    have "same_files w2 w3" unfolding w3_def
      by (intro same_files_trans [OF set_space_files files_ops(1)]) simp
    from same_files_trans [OF same_files_trans [OF f1 view_files [OF F(2)]] this] have f3: "same_files w w3" .
    then have f5: "same_files w w5" unfolding w5_def w4_def
      by (intro same_files_trans [OF _ files_ops(4)]) (simp add: same_files_trans [OF f3 view_files [OF finish_view]])
    have c5: "confined s w w5" by (rule confined_then_same [OF confined_trans [OF c1 F(1)] s5])
    define sp5 where "sp5 = space_of w5 s"
    have eq: "map_page_backings s a n p bs mode lease w = (if \<not> lease then Some (True, 0, w5)
        else map_option (\<lambda>(token, next). (True, token,
               set_space s (sp5\<lparr>mapping_leases := om_emplace token \<lparr>ml_begin = a, ml_end = fin\<rparr> (mapping_leases sp5),
                 next_mapping_lease_token := next\<rparr>) w5))
             (fresh_token (mapping_leases sp5) (next_mapping_lease_token sp5)))"
      unfolding map_page_backings_def Let_def fin_def [symmetric] w0_def [symmetric] w1_def [symmetric] ps_def [symmetric]
        bad_def [symmetric] epoch_def [symmetric] q acc case_prod_conv w3_def [symmetric] w4_def [symmetric]
        w5_def [symmetric] sp5_def [symmetric]
      using False by (simp only: de_Morgan_disj if_False)
    have ends: "w' = w5 \<or> (\<exists>token next. w' = set_space s (sp5\<lparr>mapping_leases :=
        om_emplace token \<lparr>ml_begin = a, ml_end = fin\<rparr> (mapping_leases sp5), next_mapping_lease_token := next\<rparr>) w5)"
    proof (cases lease)
      case True
      then obtain nt where "w' = set_space s (sp5\<lparr>mapping_leases := om_emplace token \<lparr>ml_begin = a, ml_end = fin\<rparr> (mapping_leases sp5),
                 next_mapping_lease_token := nt\<rparr>) w5" using r unfolding eq by auto
      then show ?thesis by blast
    qed (use r eq in simp)
    then have "\<exists>sp. same_core (space_of w5 s) sp \<and> file_mappings sp = file_mappings (space_of w5 s) \<and> w' = set_space s sp w5"
    proof (elim disjE exE)
      assume "w' = w5"
      then show "\<exists>sp. same_core (space_of w5 s) sp \<and> file_mappings sp = file_mappings (space_of w5 s) \<and> w' = set_space s sp w5"
        by (intro exI [of _ "space_of w5 s"]) simp
    next
      fix token nt
      assume "w' = set_space s (sp5\<lparr>mapping_leases :=
        om_emplace token \<lparr>ml_begin = a, ml_end = fin\<rparr> (mapping_leases sp5), next_mapping_lease_token := nt\<rparr>) w5"
      then show "\<exists>sp. same_core (space_of w5 s) sp \<and> file_mappings sp = file_mappings (space_of w5 s) \<and> w' = set_space s sp w5"
        by (intro exI conjI) (simp_all add: sp5_def same_core_def)
    qed
    then have "confined s w w' \<and> same_files w w'"
      using c5 f5 confined_then_same [OF c5 same_pages_space] same_files_trans [OF f5 set_space_files] by blast
    moreover have "same_view w3 w5"
      unfolding w5_def w4_def by (cases tk) (simp_all add: same_view_trans [OF finish_view refresh_range_view] refresh_range_view)
    then have "maps_backings s a fin p w2 w5 w'" using ends unfolding maps_backings_def w3_def sp5_def by blast
    moreover have "same_view w0 w2" "live w2 = live w"
      using same_view_trans [OF v1(1) F(2)] confined_inv(2) [OF F(1)] v1(2) by simp_all
    ultimately show ?thesis using c5 False by blast
  qed
  show "confined s w w'" "same_files w w'" using D c1 f1 confined_refl [OF inv] by auto
  assume "w' \<noteq> w"
  with D consider (stop) "w' = w1" | (mapped) w2 w5 where "same_view w0 w2" "live w2 = live w" "confined s w w5" "\<not> bad"
    "maps_backings s a fin p w2 w5 w'" by blast
  then have "\<exists>w2 w5. same_view w0 w2 \<and> live w2 = live w \<and>
    (w' = w2 \<or> confined s w w5 \<and> n \<noteq> 0 \<and> a mod page_size = 0 \<and> \<not> range_overflows a n \<and> maps_backings s a fin p w2 w5 w')"
  proof cases
    case stop
    then show ?thesis using v1 by (intro exI [of _ w1]) simp
  next
    case mapped
    then show ?thesis by (intro exI [of _ w2] exI [of _ w5]) (simp add: bad_def)
  qed
  then show "\<exists>w2 w5. same_view (set_space s (invalidate_mapping_leases a (page_range_end a n) (space_of w s)) w) w2 \<and>
       live w2 = live w \<and> (w' = w2 \<or> confined s w w5 \<and> n \<noteq> 0 \<and> a mod page_size = 0 \<and> \<not> range_overflows a n \<and>
         maps_backings s a (page_range_end a n) p w2 w5 w')"
    unfolding fin_def w0_def .
qed

section \<open>Forking\<close>

definition marked :: "page \<Rightarrow> page" where
  "marked pg = (if pg_backing pg \<noteq> None \<and> \<not> shared_writable pg then pg\<lparr>copy_on_write_possible := True\<rparr> else pg)"

lemma mark_copy_on_write_facts:
  assumes inv: "page_inv w" and s: "s \<in> set (live w)" and e: "entry w (pages_ref (space_of w s)) a = Some pg"
  defines "v \<equiv> mark_copy_on_write s (a, pg) w"
  shows "page_inv v" "live v = live w" "store v = store w" "same_view w v"
    "\<And>t. pages_ref (space_of v t) = pages_ref (space_of w t)" "\<And>t. cache_ref (space_of v t) = cache_ref (space_of w t)"
    "entry v m x = (if m = pages_ref (space_of w s) \<and> x = a then Some (marked pg) else entry w m x)"
proof -
  define pm where "pm = om_put a (marked pg) (pages_of s w)"
  have po: "pages_of s w = page_map_of w (pages_ref (space_of w s))" by (simp add: pages_of_def)
  have al: "aligned_map (pages_of s w)" using inv s by (simp add: page_inv_def po)
  have am: "a mod page_size = 0"
    using e al unfolding entry_def po [symmetric] aligned_map_def by (fastforce dest: map_of_SomeD)
  have "aligned_map pm" using al am unfolding aligned_map_def pm_def by (fastforce simp: om_put_set)
  then have r: "relabelled w (pages_ref (space_of w s)) pm"
    using e by (auto simp: relabelled_def pm_def entry_def po marked_def in_place_def split: option.splits)
  define u where "u = set_page s a (marked pg) w"
  have u: "page_inv u" using relabel_inv [OF inv r] by (simp add: u_def set_page_def set_pages_def pm_def)
  have eu: "entry u m x = (if m = pages_ref (space_of w s) \<and> x = a then Some (marked pg) else entry w m x)" for m x
    by (simp add: u_def entry_def pages_of_def)
  have idem: "marked pg = pg \<Longrightarrow> u = w"
    using set_page_same [of s w a pg] e al by (simp add: u_def entry_def pages_of_def aligned_map_def)
  have v: "v = (if pg_backing pg \<noteq> None \<and> \<not> shared_writable pg then refresh_jit_page s a u else w)"
    by (simp add: v_def mark_copy_on_write_def u_def marked_def)
  have same: "same_pages u v"
  proof (cases "pg_backing pg \<noteq> None \<and> \<not> shared_writable pg")
    case False
    then have "marked pg = pg" by (simp only: marked_def if_False)
    from idem [OF this] False show ?thesis by (simp only: v if_False same_pages_refl)
  qed (simp add: v)
  show "page_inv v" by (rule same_pages_inv [OF same u])
  show "live v = live w" "store v = store w" "\<And>t. pages_ref (space_of v t) = pages_ref (space_of w t)"
    "\<And>t. cache_ref (space_of v t) = cache_ref (space_of w t)"
    using same by (simp_all add: same_pages_def same_core_def u_def)
  show "entry v m x = (if m = pages_ref (space_of w s) \<and> x = a then Some (marked pg) else entry w m x)"
    using same_pages_entry [OF same] eu by simp
  show "same_view w v" using same_view_trans [OF page_ops_view(1) refresh_view] by (simp add: v u_def)
qed

lemma mark_fold:
  assumes "page_inv w" "s \<in> set (live w)" "distinct (map fst es)"
    and "\<forall>(a, pg)\<in>set es. entry w (pages_ref (space_of w s)) a = Some pg"
  shows "page_inv (fold (mark_copy_on_write s) es w) \<and> live (fold (mark_copy_on_write s) es w) = live w \<and>
    store (fold (mark_copy_on_write s) es w) = store w \<and> same_view w (fold (mark_copy_on_write s) es w) \<and>
    (\<forall>t. pages_ref (space_of (fold (mark_copy_on_write s) es w) t) = pages_ref (space_of w t)) \<and>
    (\<forall>t. cache_ref (space_of (fold (mark_copy_on_write s) es w) t) = cache_ref (space_of w t)) \<and>
    (\<forall>m x. entry (fold (mark_copy_on_write s) es w) m x =
      (if m = pages_ref (space_of w s) \<and> x \<in> fst ` set es then map_option marked (entry w m x) else entry w m x))"
  using assms
proof (induction es arbitrary: w)
  case (Cons e es)
  obtain a pg where e: "e = (a, pg)" by force
  define v where "v = mark_copy_on_write s e w"
  have en: "entry w (pages_ref (space_of w s)) a = Some pg" using Cons.prems(4) by (simp add: e)
  have v: "v = mark_copy_on_write s (a, pg) w" by (simp add: v_def e)
  note M = mark_copy_on_write_facts [OF Cons.prems(1,2) en, folded v]
  have "\<forall>(b, pg)\<in>set es. entry v (pages_ref (space_of v s)) b = Some pg"
  proof (clarify)
    fix b q assume m: "(b, q) \<in> set es"
    have "b \<noteq> a" using Cons.prems(3) m by (force simp: e)
    have "(b, q) \<in> set (e # es)" using m by simp
    from bspec [OF Cons.prems(4) this] have "entry w (pages_ref (space_of w s)) b = Some q" by simp
    then show "entry v (pages_ref (space_of v s)) b = Some q" using \<open>b \<noteq> a\<close> by (simp add: M(5,7))
  qed
  then have I: "page_inv (fold (mark_copy_on_write s) es v) \<and> live (fold (mark_copy_on_write s) es v) = live v \<and>
    store (fold (mark_copy_on_write s) es v) = store v \<and> same_view v (fold (mark_copy_on_write s) es v) \<and>
    (\<forall>t. pages_ref (space_of (fold (mark_copy_on_write s) es v) t) = pages_ref (space_of v t)) \<and>
    (\<forall>t. cache_ref (space_of (fold (mark_copy_on_write s) es v) t) = cache_ref (space_of v t)) \<and>
    (\<forall>m x. entry (fold (mark_copy_on_write s) es v) m x =
      (if m = pages_ref (space_of v s) \<and> x \<in> fst ` set es then map_option marked (entry v m x) else entry v m x))"
    using Cons.IH [of v] M(1,2) Cons.prems(2,3) by (simp add: e)
  have na: "a \<notin> fst ` set es" using Cons.prems(3) by (simp add: e)
  have "entry (fold (mark_copy_on_write s) es v) m x =
      (if m = pages_ref (space_of w s) \<and> x \<in> fst ` set (e # es) then map_option marked (entry w m x) else entry w m x)" for m x
    using I na en by (auto simp: M(5,7) e)
  then show ?case using I M(2-6) same_view_trans [OF M(4)] by (simp add: v_def [symmetric])
qed simp

lemma adopt_inv:
  assumes inv: "page_inv w" and live: "c \<in> set (live w)" "s \<in> set (live w)" "c \<noteq> s"
    and cow: "\<And>a pg. entry w (pages_ref (space_of w s)) a = Some pg \<Longrightarrow> pg_backing pg \<noteq> None \<Longrightarrow>
      copy_on_write_possible pg \<or> shared_writable pg"
    and sp: "pages_ref sp = pages_ref (space_of w s)" "cache_ref sp = cache_ref (space_of w s)"
      "\<And>i. pointer sp i = pointer (space_of w s) i"
  shows "page_inv (set_space c sp w)" (is "page_inv ?w")
proof -
  have ent: "entry ?w = entry w" by (simp add: entry_def fun_eq_iff)
  have maps: "maps ?w \<subseteq> maps w" using live sp by (auto simp: maps_def)
  then have refers: "refers w m a b" if "refers ?w m a b" for m a b using that by (auto simp: refers_def ent)
  have pres: "present ?w = present w" by (simp add: present_def fun_eq_iff)
  have p: "present w b" if "refers ?w m a b" for m a b by (rule refers_present [OF inv refers [OF that]])
  have "s < next_space w \<and> pages_ref (space_of w s) < next_page_map w \<and> cache_ref (space_of w s) < next_cache w \<and>
     cache_inv (cache_of w (cache_ref (space_of w s)), store w)" and "c < next_space w"
    using inv live unfolding page_inv_def refs_ok_def by blast+
  then have "refs_ok ?w" using inv p unfolding page_inv_def refs_ok_def pres by (auto simp: sp)
  moreover have "private_ok ?w"
    unfolding private_ok_def ent
  proof (intro conjI ballI allI impI)
    fix m a pg b
    assume m: "m \<in> maps ?w" and e: "entry w m a = Some pg" "pg_backing pg = Some b" "in_place pg"
    have "sole w m a b" using in_place_sole [OF inv _ e] m maps by blast
    then show "sole ?w m a b"
    proof (rule sole_shrink)
      show "refers ?w m' a' b \<Longrightarrow> refers w m' a' b" for m' a' by (rule refers)
      show "\<exists>u\<in>set (live w). snd ` set (cache_pages (cache_of ?w (cache_ref (space_of ?w t)))) \<subseteq>
        snd ` set (cache_pages (cache_of w (cache_ref (space_of w u))))" if "t \<in> set (live ?w)" for t
        using that live sp(2) by (cases "t = c") auto
    qed simp
  next
    fix x y a pg
    assume xy: "x \<in> set (live ?w)" "y \<in> set (live ?w)" "x \<noteq> y" "pages_ref (space_of ?w x) = pages_ref (space_of ?w y)"
      and e: "entry w (pages_ref (space_of ?w x)) a = Some pg" "pg_backing pg \<noteq> None"
    show "copy_on_write_possible pg \<or> shared_writable pg"
    proof (cases "pages_ref (space_of ?w x) = pages_ref (space_of w s)")
      case True
      then show ?thesis using cow e by simp
    next
      case False
      then have "x \<noteq> c" "y \<noteq> c" using xy(4) sp(1) by auto
      then show ?thesis using inv xy e unfolding page_inv_def private_ok_def by auto
    qed
  qed
  moreover have "\<forall>m\<in>maps ?w. aligned_map (page_map_of ?w m)" using inv maps unfolding page_inv_def by auto
  moreover have "lookup_ok ?w t" if "t \<in> set (live w)" for t
    using inv that live sp unfolding page_inv_def lookup_ok_def ent by auto
  ultimately show ?thesis by (simp add: page_inv_def)
qed

text \<open>What a fork gives: a child that has the entries of its parent, copied on the next write.\<close>

lemma clone_facts:
  assumes inv: "page_inv w" and s: "s \<in> set (live w)" and c: "clone s w = (child, w')"
  shows "page_inv w'" "child = next_space w" "live w' = child # live w"
    "t \<in> set (live w) \<Longrightarrow> entry w' (pages_ref (space_of w' t)) x =
       (if pages_ref (space_of w t) = pages_ref (space_of w s) then map_option marked (entry w (pages_ref (space_of w t)) x)
        else entry w (pages_ref (space_of w t)) x)"
    "entry w' (pages_ref (space_of w' child)) x = entry w' (pages_ref (space_of w' s)) x"
    "store w' = store w"
    "t \<in> set (live w) \<Longrightarrow> file_mappings (space_of w' t) = file_mappings (space_of w t)"
    "file_mappings (space_of w' child) = file_mappings (space_of w s)"
proof -
  define w1 where "w1 = snd (new_space w)"
  have child: "child = next_space w" using c by (simp add: clone_def new_space_def Let_def)
  define w2 where "w2 = fold (mark_copy_on_write s) (pages_of s w1) w1"
  define sp where "sp = space_of w2 s"
  define w3 where "w3 = set_space child ((space_of w2 child)\<lparr>vm_regions := vm_regions sp, translation_profile_map := translation_profile_map sp,
                 pages_ref := pages_ref sp, file_mappings := file_mappings sp\<rparr>) w2"
  define w4 where "w4 = rebuild_page_lookup child w3"
  have w1: "live w1 = child # live w" "store w1 = store w" "page_inv w1"
    "t \<in> set (live w) \<Longrightarrow> space_of w1 t = space_of w t"
    "t \<in> set (live w) \<Longrightarrow> page_map_of w1 (pages_ref (space_of w t)) = page_map_of w (pages_ref (space_of w t))" for t
  proof -
    show "page_inv w1" unfolding w1_def by (rule new_space_inv [OF inv])
    show "live w1 = child # live w" "store w1 = store w" by (simp_all add: w1_def new_space_def Let_def child)
    assume "t \<in> set (live w)"
    then have "t \<noteq> next_space w" "pages_ref (space_of w t) \<noteq> next_page_map w" using inv by (auto simp: page_inv_def refs_ok_def)
    then show "space_of w1 t = space_of w t" "page_map_of w1 (pages_ref (space_of w t)) = page_map_of w (pages_ref (space_of w t))"
      by (simp_all add: w1_def new_space_def Let_def)
  qed
  have s1: "s \<in> set (live w1)" using s w1(1) by simp
  have al1: "aligned_map (pages_of s w1)" using w1(3) s1 by (simp add: page_inv_def pages_of_def)
  have wf1: "om_wf (pages_of s w1)" using al1 by (simp add: aligned_map_def)
  have pre: "\<forall>(a, pg)\<in>set (pages_of s w1). entry w1 (pages_ref (space_of w1 s)) a = Some pg"
    using om_lookup_mem [OF wf1] by (auto simp: entry_def pages_of_def)
  note M = mark_fold [OF w1(3) s1 om_wf_distinct [OF wf1] pre, folded w2_def]
  have keys: "x \<in> fst ` set (pages_of s w1) \<longleftrightarrow> entry w1 (pages_ref (space_of w1 s)) x \<noteq> None" for x
    by (simp add: entry_def pages_of_def map_of_eq_None_iff)
  have e2: "entry w2 m x = (if m = pages_ref (space_of w1 s) then map_option marked (entry w1 m x) else entry w1 m x)" for m x
    using M keys [of x] by auto
  have ne: "child \<noteq> s" using s inv unfolding child page_inv_def refs_ok_def by auto
  have w3: "space_of w3 child = (space_of w2 child)\<lparr>vm_regions := vm_regions sp, translation_profile_map := translation_profile_map sp,
                 pages_ref := pages_ref sp, file_mappings := file_mappings sp\<rparr>" "\<And>t. t \<noteq> child \<Longrightarrow> space_of w3 t = space_of w2 t"
    "live w3 = live w2" "page_map_of w3 = page_map_of w2" "store w3 = store w2"
    by (simp_all add: w3_def)
  have w4: "w4 = set_space child (space_of w4 child) w2"
    using rebuild_space(1) [of child w3] by (simp add: w4_def) (simp add: w3_def)
  define spc where "spc = (space_of w4 child)\<lparr>page_permissions := page_permissions sp,
            tracked_write_ranges := tracked_write_ranges sp, write_generation := write_generation sp,
            mapping_leases := mapping_leases sp, next_mapping_lease_token := next_mapping_lease_token sp,
            cache_ref := cache_ref sp, exclusive_write_tracked_pages := exclusive_write_tracked_pages sp,
            parallel_access := parallel_access sp,
            jit_page_table_enabled := (jit_page_table_enabled sp \<and> \<not> parallel_access sp)\<rparr>"
  have w': "w' = set_space child spc w4"
    using c by (simp add: clone_def w1_def [symmetric] case_prod_beta Let_def)
      (auto simp: new_space_def Let_def child spc_def w4_def w3_def sp_def w2_def w1_def)
  then have w'2: "w' = set_space child spc w2" using w4 set_space_twice by metis
  have spc: "pages_ref spc = pages_ref sp" "cache_ref spc = cache_ref sp" "file_mappings spc = file_mappings sp"
    "\<And>i. pointer spc i = pointer (space_of w4 child) i"
    unfolding spc_def w4_def by (simp_all add: rebuild_space(2-4) w3(1) pointer_def)
  have s2: "s \<in> set (live w2)" "child \<in> set (live w2)" "page_inv w2" using M s1 w1(1) by simp_all
  have p3: "pages_of child w3 = page_map_of w2 (pages_ref sp)" by (simp add: pages_of_def w3)
  have al3: "aligned_map (pages_of child w3)" using s2 unfolding p3 sp_def page_inv_def by simp
  have ptr: "pointer spc i = pointer (space_of w2 s) i" for i
  proof -
    have "pointer spc i = (if map_of (page_map_of w2 (pages_ref sp)) (i * page_size) = None then None
        else Some (pages_ref sp, i * page_size))"
      using rebuild_lookup_pointer [OF al3, of i] unfolding p3 spc(4) w4_def by (simp add: w3(1))
    also have "\<dots> = pointer (space_of w2 s) i"
      using s2(1,3) by (simp add: page_inv_def lookup_ok_def entry_def sp_def)
    finally show ?thesis .
  qed
  show "page_inv w'" unfolding w'2
  proof (rule adopt_inv [OF s2(3,2,1) ne])
    show "copy_on_write_possible pg \<or> shared_writable pg"
      if "entry w2 (pages_ref (space_of w2 s)) a = Some pg" "pg_backing pg \<noteq> None" for a pg using that
    proof -
      assume h: "entry w2 (pages_ref (space_of w2 s)) a = Some pg" "pg_backing pg \<noteq> None"
      have "pages_ref (space_of w2 s) = pages_ref (space_of w1 s)" using M by blast
      then obtain q where "pg = marked q" using h(1) e2 by auto
      then show ?thesis using h(2) by (cases "pg_backing q \<noteq> None \<and> \<not> shared_writable q") (auto simp: marked_def)
    qed
  qed (simp_all add: ptr spc(1-3) sp_def)
  show "child = next_space w" by (rule child)
  show "live w' = child # live w" "store w' = store w" using M w1 by (simp_all add: w'2)
  have fm: "file_mappings (space_of w2 t) = file_mappings (space_of w1 t)" for t using M by (simp add: same_view_def)
  show "entry w' (pages_ref (space_of w' t)) x =
       (if pages_ref (space_of w t) = pages_ref (space_of w s) then map_option marked (entry w (pages_ref (space_of w t)) x)
        else entry w (pages_ref (space_of w t)) x)" if "t \<in> set (live w)" for t x
  proof -
    have "t \<noteq> child" using that inv by (auto simp: child page_inv_def refs_ok_def)
    then have "entry w' (pages_ref (space_of w' t)) x = entry w2 (pages_ref (space_of w t)) x"
      using M w1(4) [OF that] by (simp add: w'2 entry_def)
    moreover have "entry w1 (pages_ref (space_of w t)) x = entry w (pages_ref (space_of w t)) x"
      using w1(5) [OF that] by (simp add: entry_def)
    ultimately show ?thesis using w1(4) [OF s] by (auto simp: e2)
  qed
  show "entry w' (pages_ref (space_of w' child)) x = entry w' (pages_ref (space_of w' s)) x" for x
    using ne by (simp add: w'2 entry_def spc sp_def)
  show "file_mappings (space_of w' t) = file_mappings (space_of w t)" if "t \<in> set (live w)" for t
  proof -
    have "t \<noteq> child" using that inv by (auto simp: child page_inv_def refs_ok_def)
    then show ?thesis using w1(4) [OF that] fm by (simp add: w'2)
  qed
  show "file_mappings (space_of w' child) = file_mappings (space_of w s)"
    using w1(4) [OF s] fm by (simp add: w'2 spc sp_def)
qed

end
