(* ===== verification/Address_Space_Index.thy ===== *)
theory Address_Space_Index
  imports Address_Space_Sharing
begin

text \<open>
  The permission index: a byte of flags for each page, in chunks that forked spaces share until
  one of them writes. It always agrees with the interval map of the space, so the check of an
  access by the index is the check of every byte of the range by the map.
\<close>

section \<open>Chunks\<close>

definition chunks_ok :: "memory_world \<Rightarrow> bool" where
  "chunks_ok w \<longleftrightarrow> distinct (live w) \<and>
     (\<forall>t\<in>set (live w). \<forall>i c. page_permissions (space_of w t) i = Some c \<longrightarrow> c < next_chunk w \<and> i < page_permission_chunk_count)"

lemma chunk_unique_slot:
  assumes ok: "chunks_ok w" and s: "s \<in> set (live w)" "page_permissions (space_of w s) i = Some c" and u: "chunk_unique c w"
    and t: "t \<in> set (live w)" "page_permissions (space_of w t) j = Some c"
  shows "t = s \<and> j = i"
proof -
  define f where "f = (\<lambda>t. filter (\<lambda>i. page_permissions (space_of w t) i = Some c) [0..<page_permission_chunk_count])"
  have d: "distinct (live w)" using ok by (simp add: chunks_ok_def)
  have i: "i \<in> set (f s)" and j: "j \<in> set (f t)" using ok s t by (auto simp: f_def chunks_ok_def)
  have sum: "(\<Sum>x\<in>set (live w). length (f x)) = 1"
    using u d by (simp add: chunk_unique_def f_def sum_list_distinct_conv_sum_set)
  have s1: "length (f s) \<ge> 1" using i by (metis One_nat_def Suc_leI length_pos_if_in_set)
  have "(\<Sum>x\<in>set (live w). length (f x)) = length (f s) + (\<Sum>x\<in>set (live w) - {s}. length (f x))"
    using s(1) by (simp add: sum.remove)
  then have rest: "length (f s) = 1" "(\<Sum>x\<in>set (live w) - {s}. length (f x)) = 0" using sum s1 by linarith+
  have "t = s"
  proof (rule ccontr)
    assume "t \<noteq> s"
    then have "length (f t) = 0" using rest(2) t(1) by simp
    then show False using j by simp
  qed
  moreover have "j = i"
  proof -
    obtain y where "f s = [y]" using rest(1) by (auto simp: length_Suc_conv)
    then show ?thesis using i j \<open>t = s\<close> by auto
  qed
  ultimately show ?thesis by simp
qed

text \<open>What a change of the flags of one page of a space leaves alone.\<close>

definition index_step :: "nat \<Rightarrow> memory_world \<Rightarrow> memory_world \<Rightarrow> bool" where
  "index_step s w w' \<longleftrightarrow> chunks_ok w' \<and> live w' = live w \<and>
     (\<forall>t. vm_regions (space_of w' t) = vm_regions (space_of w t) \<and> mapping_leases (space_of w' t) = mapping_leases (space_of w t) \<and>
        file_mappings (space_of w' t) = file_mappings (space_of w t)) \<and>
     (\<forall>t\<in>set (live w). t \<noteq> s \<longrightarrow> (\<forall>j. page_permission t j w' = page_permission t j w))"

lemma put_permission_step:
  assumes ok: "chunks_ok w" and s: "s \<in> set (live w)" and i: "i < page_permission_chunk_size * page_permission_chunk_count"
  shows "index_step s w (put_permission s i f w)"
    "page_permission s j (put_permission s i f w) = (if j = i then f (page_permission s i w) else page_permission s j w)"
proof -
  define k where "k = i div page_permission_chunk_size"
  define e where "e = i mod page_permission_chunk_size"
  obtain c w1 where wc: "writable_page_permission_chunk s i w = (c, w1)" by force
  define content where "content = (case page_permissions (space_of w s) k of None \<Rightarrow> (\<lambda>_. 0) | Some old \<Rightarrow> chunk_of w old)"
  have k: "k < page_permission_chunk_count" using i by (simp add: k_def less_mult_imp_div_less mult.commute)
  have bound: "c' < next_chunk w \<and> j < page_permission_chunk_count"
    if "t \<in> set (live w)" "page_permissions (space_of w t) j = Some c'" for t j c'
    using ok that unfolding chunks_ok_def by blast
  have W: "live w1 = live w" "chunk_of w1 c = content" "chunks_ok w1" "page_permissions (space_of w1 s) k = Some c"
    "\<And>j. j \<noteq> k \<Longrightarrow> page_permissions (space_of w1 s) j = page_permissions (space_of w s) j"
    "\<And>t. t \<noteq> s \<Longrightarrow> page_permissions (space_of w1 t) = page_permissions (space_of w t)"
    "\<And>t. vm_regions (space_of w1 t) = vm_regions (space_of w t) \<and> mapping_leases (space_of w1 t) = mapping_leases (space_of w t) \<and>
        file_mappings (space_of w1 t) = file_mappings (space_of w t)"
    "\<And>c'. c' < next_chunk w \<Longrightarrow> chunk_of w1 c' = chunk_of w c'"
    "\<And>t j. t \<in> set (live w) \<Longrightarrow> page_permissions (space_of w1 t) j = Some c \<Longrightarrow> t = s \<and> j = k"
  proof -
    consider (keep) "page_permissions (space_of w s) k = Some c" "chunk_unique c w" "w1 = w" |
      (fresh) "c = next_chunk w" "w1 = set_space s ((space_of w s)\<lparr>page_permissions := (page_permissions (space_of w s))(k := Some c)\<rparr>)
            (w\<lparr>chunk_of := (chunk_of w)(c := content), next_chunk := c + 1\<rparr>)"
    proof (cases "page_permissions (space_of w s) k")
      case None
      have "(c, w1) = (next_chunk w, set_space s ((space_of w s)\<lparr>page_permissions := (page_permissions (space_of w s))(k := Some (next_chunk w))\<rparr>)
            (w\<lparr>chunk_of := (chunk_of w)(next_chunk w := content), next_chunk := next_chunk w + 1\<rparr>))"
        using None wc unfolding writable_page_permission_chunk_def Let_def k_def content_def by auto
      then show ?thesis using fresh by simp
    next
      case (Some old)
      show ?thesis
      proof (cases "chunk_unique old w")
        case True
        have "(c, w1) = (old, w)"
          using Some True wc unfolding writable_page_permission_chunk_def Let_def k_def by auto
        then show ?thesis using keep Some True by simp
      next
        case False
        have "(c, w1) = (next_chunk w, set_space s ((space_of w s)\<lparr>page_permissions := (page_permissions (space_of w s))(k := Some (next_chunk w))\<rparr>)
            (w\<lparr>chunk_of := (chunk_of w)(next_chunk w := content), next_chunk := next_chunk w + 1\<rparr>))"
          using Some False wc unfolding writable_page_permission_chunk_def Let_def k_def content_def by auto
        then show ?thesis using fresh by simp
      qed
    qed
    then have "live w1 = live w \<and> chunk_of w1 c = content \<and> chunks_ok w1 \<and> page_permissions (space_of w1 s) k = Some c \<and>
      (\<forall>j. j \<noteq> k \<longrightarrow> page_permissions (space_of w1 s) j = page_permissions (space_of w s) j) \<and>
      (\<forall>t. t \<noteq> s \<longrightarrow> page_permissions (space_of w1 t) = page_permissions (space_of w t)) \<and>
      (\<forall>t. vm_regions (space_of w1 t) = vm_regions (space_of w t) \<and> mapping_leases (space_of w1 t) = mapping_leases (space_of w t) \<and>
        file_mappings (space_of w1 t) = file_mappings (space_of w t)) \<and>
      (\<forall>c'. c' < next_chunk w \<longrightarrow> chunk_of w1 c' = chunk_of w c') \<and>
      (\<forall>t j. t \<in> set (live w) \<longrightarrow> page_permissions (space_of w1 t) j = Some c \<longrightarrow> t = s \<and> j = k)"
    proof cases
      case keep
      then show ?thesis using ok chunk_unique_slot [OF ok s keep(1,2)] by (auto simp: content_def)
    next
      case fresh
      have "chunks_ok w1"
        using ok k bound unfolding chunks_ok_def fresh by (auto simp: fresh(1) intro: less_SucI)
      then show ?thesis using fresh bound by (auto simp: fresh(2))
    qed
    then show "live w1 = live w" "chunk_of w1 c = content" "chunks_ok w1" "page_permissions (space_of w1 s) k = Some c"
      "\<And>j. j \<noteq> k \<Longrightarrow> page_permissions (space_of w1 s) j = page_permissions (space_of w s) j"
      "\<And>t. t \<noteq> s \<Longrightarrow> page_permissions (space_of w1 t) = page_permissions (space_of w t)"
      "\<And>t. vm_regions (space_of w1 t) = vm_regions (space_of w t) \<and> mapping_leases (space_of w1 t) = mapping_leases (space_of w t) \<and>
        file_mappings (space_of w1 t) = file_mappings (space_of w t)"
      "\<And>c'. c' < next_chunk w \<Longrightarrow> chunk_of w1 c' = chunk_of w c'"
      "\<And>t j. t \<in> set (live w) \<Longrightarrow> page_permissions (space_of w1 t) j = Some c \<Longrightarrow> t = s \<and> j = k"
      by blast+
  qed
  define w2 where "w2 = w1\<lparr>chunk_of := (chunk_of w1)(c := (chunk_of w1 c)(e := f (chunk_of w1 c e)))\<rparr>"
  have w2: "put_permission s i f w = w2" by (simp add: put_permission_def wc w2_def e_def Let_def)
  have old: "page_permission s i w = content e"
    by (simp add: page_permission_def k_def e_def content_def split: option.splits)
  have pp: "page_permission t j w2 = (if t = s \<and> j = i then f (page_permission s i w) else page_permission t j w)"
    if t: "t \<in> set (live w)" for t j
  proof (cases "t = s \<and> j div page_permission_chunk_size = k")
    case True
    have "j mod page_permission_chunk_size = e \<longleftrightarrow> j = i"
      using True chunk_position [of j page_permission_chunk_size i] by (auto simp: k_def e_def)
    moreover have "page_permission s j w = content (j mod page_permission_chunk_size)"
      using True by (simp add: page_permission_def content_def split: option.splits)
    ultimately show ?thesis using True W(2,4) old by (simp add: page_permission_def w2_def)
  next
    case False
    then have "page_permissions (space_of w1 t) (j div page_permission_chunk_size) =
        page_permissions (space_of w t) (j div page_permission_chunk_size)"
      using W(5,6) by (cases "t = s") auto
    moreover have "c' \<noteq> c \<and> chunk_of w1 c' = chunk_of w c'"
      if "page_permissions (space_of w t) (j div page_permission_chunk_size) = Some c'" for c'
      using W(9) [OF t, of "j div page_permission_chunk_size"] W(8) [of c'] bound [OF t that] that False calculation by auto
    moreover have "\<not> (t = s \<and> j = i)" using False by (auto simp: k_def)
    ultimately show ?thesis by (auto simp: page_permission_def w2_def split: option.splits)
  qed
  show "page_permission s j (put_permission s i f w) = (if j = i then f (page_permission s i w) else page_permission s j w)"
    unfolding w2 using pp [OF s] by simp
  have "chunks_ok w2" using W(3) by (simp add: chunks_ok_def w2_def)
  then show "index_step s w (put_permission s i f w)"
    unfolding w2 index_step_def using pp W(1,7) by (simp add: w2_def)
qed

end
