(* ===== verification/Address_Space_Permissions.thy ===== *)
theory Address_Space_Permissions
  imports Address_Space_Index
begin

text \<open>
  The permission index agrees with the interval map: what each operation of a space does to the
  flags of its pages is what it does to its regions.
\<close>

section \<open>A loop over the pages of a range\<close>

lemma index_step_refl: "chunks_ok w \<Longrightarrow> index_step s w w"
  by (simp add: index_step_def)

lemma index_step_trans: "index_step s a b \<Longrightarrow> index_step s b c \<Longrightarrow> index_step s a c"
  by (simp add: index_step_def)

definition updates_page :: "nat \<Rightarrow> (u8 \<Rightarrow> u8) \<Rightarrow> (nat \<Rightarrow> memory_world \<Rightarrow> memory_world) \<Rightarrow> bool" where
  "updates_page s f h \<longleftrightarrow> (\<forall>base w. chunks_ok w \<longrightarrow> s \<in> set (live w) \<longrightarrow> base < 2 ^ 32 \<longrightarrow> index_step s w (h base w) \<and>
     (\<forall>j. page_permission s j (h base w) =
        (if j = base div page_size then f (page_permission s j w) else page_permission s j w)))"

lemma page_index_bound: "base < 2 ^ 32 \<Longrightarrow> base div page_size < page_permission_chunk_size * page_permission_chunk_count"
  by (simp add: page_size_def page_permission_chunk_size_def page_permission_chunk_count_def less_mult_imp_div_less)

lemma put_updates: "updates_page s f (\<lambda>base. put_permission s (base div page_size) f)"
  unfolding updates_page_def using put_permission_step page_index_bound by auto

lemma clear_updates:
  "updates_page s (\<lambda>_. 0) (\<lambda>base w.
     if page_permissions (space_of w s) (base div page_size div page_permission_chunk_size) = None then w
     else put_permission s (base div page_size) (\<lambda>_. 0) w)"
  using put_updates [of s "\<lambda>_. 0"] unfolding updates_page_def
  by (auto simp: index_step_refl page_permission_def)

lemma updates_fold:
  assumes h: "updates_page s f h"
    and w: "chunks_ok w" "s \<in> set (live w)" "\<forall>b\<in>set bs. b < 2 ^ 32" "distinct (map (\<lambda>b. b div page_size) bs)"
  shows "index_step s w (fold h bs w) \<and> (\<forall>j. page_permission s j (fold h bs w) =
     (if j \<in> (\<lambda>b. b div page_size) ` set bs then f (page_permission s j w) else page_permission s j w))"
  using w
proof (induction bs arbitrary: w)
  case Nil
  then show ?case by (simp add: index_step_refl)
next
  case (Cons b bs)
  have one: "index_step s w (h b w)"
    "\<And>j. page_permission s j (h b w) = (if j = b div page_size then f (page_permission s j w) else page_permission s j w)"
    using h Cons.prems unfolding updates_page_def by auto
  have ok: "chunks_ok (h b w)" "s \<in> set (live (h b w))"
    using one(1) Cons.prems(2) by (auto simp: index_step_def)
  have rest: "index_step s (h b w) (fold h bs (h b w)) \<and> (\<forall>j. page_permission s j (fold h bs (h b w)) =
     (if j \<in> (\<lambda>b. b div page_size) ` set bs then f (page_permission s j (h b w)) else page_permission s j (h b w)))"
    using Cons.IH [OF ok] Cons.prems(3,4) by simp
  moreover have "b div page_size \<notin> (\<lambda>b. b div page_size) ` set bs" using Cons.prems(4) by auto
  ultimately show ?case using index_step_trans [OF one(1)] one(2) by auto
qed

lemma page_bases_indices:
  assumes "first mod page_size = 0" "fin mod page_size = 0"
  shows "(\<lambda>b. b div page_size) ` set (page_bases first fin) = {first div page_size..<fin div page_size}"
    "distinct (map (\<lambda>b. b div page_size) (page_bases first fin))"
    "b \<in> set (page_bases first fin) \<Longrightarrow> b < fin"
proof -
  obtain x y where xy: "first = x * page_size" "fin = y * page_size"
    using assms by (metis mod_eq_0_iff_dvd dvd_def mult.commute)
  have count: "(fin - first + page_size - 1) div page_size = y - x"
    unfolding xy by (simp add: diff_mult_distrib [symmetric] page_size_def)
  show "(\<lambda>b. b div page_size) ` set (page_bases first fin) = {first div page_size..<fin div page_size}"
  proof (intro set_eqI iffI)
    fix j
    assume "j \<in> {first div page_size..<fin div page_size}"
    then have j: "x \<le> j" "j < y" by (simp_all add: xy)
    then have "first + (j - x) * page_size \<in> set (page_bases first fin)"
      unfolding page_bases_def count set_map by (intro image_eqI [of _ _ "j - x"]) auto
    moreover have "(first + (j - x) * page_size) div page_size = j" using j by (simp add: xy)
    ultimately show "j \<in> (\<lambda>b. b div page_size) ` set (page_bases first fin)" by (metis imageI)
  qed (unfold page_bases_def count, auto simp: xy)
  show "distinct (map (\<lambda>b. b div page_size) (page_bases first fin))"
    by (simp add: page_bases_def distinct_map inj_on_def comp_def xy del: upt_Suc)
  show "b < fin" if "b \<in> set (page_bases first fin)"
    using that unfolding page_bases_def count by (auto simp: xy add_mult_distrib [symmetric])
qed

section \<open>The index and the map of a space\<close>

definition flags_of :: "perm option \<Rightarrow> u8" where
  "flags_of p = (case p of None \<Rightarrow> 0 | Some q \<Rightarrow> mapped_page_flag OR q)"

definition index_of :: "nat \<Rightarrow> memory_world \<Rightarrow> bool" where
  "index_of t w \<longleftrightarrow> vm_inv (vm_regions (space_of w t)) \<and>
     (\<forall>a < 2 ^ 32. page_permission t (a div page_size) w = flags_of (perm_at (vm_regions (space_of w t)) a))"

definition index_ok :: "memory_world \<Rightarrow> bool" where
  "index_ok w \<longleftrightarrow> chunks_ok w \<and> (\<forall>t\<in>set (live w). index_of t w)"

lemma index_ofD:
  "index_of t w \<Longrightarrow> vm_inv (vm_regions (space_of w t))"
  "index_of t w \<Longrightarrow> a < 2 ^ 32 \<Longrightarrow> page_permission t (a div page_size) w = flags_of (perm_at (vm_regions (space_of w t)) a)"
  by (simp_all add: index_of_def)

lemma index_okD: "index_ok w \<Longrightarrow> chunks_ok w" "index_ok w \<Longrightarrow> t \<in> set (live w) \<Longrightarrow> index_of t w"
  by (simp_all add: index_ok_def)

text \<open>A world whose chunks are untouched, and whose spaces differ at most in the regions of one.\<close>

definition same_index :: "nat \<Rightarrow> memory_world \<Rightarrow> memory_world \<Rightarrow> bool" where
  "same_index s w w' \<longleftrightarrow> live w' = live w \<and> chunk_of w' = chunk_of w \<and> next_chunk w' = next_chunk w \<and>
     (\<forall>t. page_permissions (space_of w' t) = page_permissions (space_of w t)) \<and>
     (\<forall>t. t \<noteq> s \<longrightarrow> vm_regions (space_of w' t) = vm_regions (space_of w t))"

lemma same_index_refl [simp]: "same_index s w w"
  by (simp add: same_index_def)

lemma same_index_trans: "same_index s a b \<Longrightarrow> same_index s b c \<Longrightarrow> same_index s a c"
  by (simp add: same_index_def)

lemma view_index: "same_view w w' \<Longrightarrow> live w' = live w \<Longrightarrow> same_index s w w'"
  by (simp add: same_view_def same_index_def)

lemma set_space_index:
  "page_permissions sp = page_permissions (space_of w s) \<Longrightarrow> same_index s w (set_space s sp w)"
  by (simp add: same_index_def)

lemma same_index_flags: "same_index s w w' \<Longrightarrow> page_permission t j w' = page_permission t j w"
  by (simp add: same_index_def page_permission_def cong: option.case_cong)

lemma same_index_chunks: "same_index s w w' \<Longrightarrow> chunks_ok w' = chunks_ok w"
  by (simp add: same_index_def chunks_ok_def)

lemma same_index_other:
  assumes "same_index s w w'" "t \<noteq> s"
  shows "index_of t w' = index_of t w"
  using assms by (simp add: index_of_def same_index_flags [OF assms(1)] same_index_def)

lemma same_view_index_of: "same_view w w' \<Longrightarrow> index_of t w' = index_of t w"
  by (simp add: index_of_def page_permission_def same_view_def cong: option.case_cong)

lemma same_view_chunks:
  assumes "same_view w w'" "live w' = live w"
  shows "chunks_ok w' = chunks_ok w"
  using assms by (simp add: chunks_ok_def same_view_def)

lemma same_view_index_ok: "same_view w w' \<Longrightarrow> live w' = live w \<Longrightarrow> index_ok w' = index_ok w"
  by (simp add: index_ok_def same_view_index_of same_view_chunks)

lemma aligned_range_div:
  assumes "first mod page_size = 0" "fin mod page_size = 0"
  shows "a div page_size \<in> {first div page_size..<fin div page_size} \<longleftrightarrow> first \<le> a \<and> a < fin"
proof -
  have "first \<le> a \<longleftrightarrow> first div page_size \<le> a div page_size"
    using aligned_le [OF assms(1), of a] assms(1)
    by (metis div_le_mono div_mult_mod_eq mult_le_mono1 page_base_alt add.right_neutral)
  moreover have "a < fin \<longleftrightarrow> a div page_size < fin div page_size"
    using assms(2) by (metis div_less_iff_less_mult div_mult_mod_eq page_size_pos add.right_neutral)
  ultimately show ?thesis by auto
qed

text \<open>A change of the regions of a range together with the same change of the flags of its pages.\<close>

lemma range_update:
  assumes ok: "index_ok w" and s: "s \<in> set (live w)" and same: "same_index s w w1"
    and al: "first mod page_size = 0" "fin mod page_size = 0" "fin \<le> 2 ^ 32"
    and m: "vm_inv (vm_regions (space_of w1 s))"
      "\<And>a. perm_at (vm_regions (space_of w1 s)) a =
         (if first \<le> a \<and> a < fin then g (perm_at (vm_regions (space_of w s)) a) else perm_at (vm_regions (space_of w s)) a)"
    and h: "updates_page s f h" and fg: "\<And>p. f (flags_of p) = flags_of (g p)"
    and w2_def: "w2 = fold h (page_bases first fin) w1"
  shows "index_ok w2" "live w2 = live w"
    "mapping_leases (space_of w2 t) = mapping_leases (space_of w1 t)"
    "file_mappings (space_of w2 t) = file_mappings (space_of w1 t)"
proof -
  have c1: "chunks_ok w1" using same_index_chunks [OF same] index_okD(1) [OF ok] by simp
  have l1: "live w1 = live w" using same by (simp add: same_index_def)
  have b: "\<forall>b\<in>set (page_bases first fin). b < 2 ^ 32"
    using page_bases_indices(3) [OF al(1,2)] al(3) by fastforce
  have two: "index_step s w1 w2" "\<And>j. page_permission s j w2 =
      (if j \<in> {first div page_size..<fin div page_size} then f (page_permission s j w1) else page_permission s j w1)"
    using updates_fold [OF h c1 _ b page_bases_indices(2) [OF al(1,2)]] s
    by (simp_all only: w2_def l1 page_bases_indices(1) [OF al(1,2)])
  show "live w2 = live w" using two(1) l1 by (simp add: index_step_def)
  show "mapping_leases (space_of w2 t) = mapping_leases (space_of w1 t)"
    "file_mappings (space_of w2 t) = file_mappings (space_of w1 t)" using two(1) by (simp_all add: index_step_def)
  have "index_of t w2" if t: "t \<in> set (live w)" for t
  proof (cases "t = s")
    case True
    have "page_permission s (a div page_size) w2 = flags_of (perm_at (vm_regions (space_of w2 s)) a)" if a: "a < 2 ^ 32" for a
      using two(2) [of "a div page_size"] index_ofD(2) [OF index_okD(2) [OF ok s] a] aligned_range_div [OF al(1,2), of a]
        m(2) [of a] fg two(1)
      by (simp add: same_index_flags [OF same] index_step_def)
    then show ?thesis using True m(1) two(1) by (simp add: index_of_def index_step_def)
  next
    case False
    have "index_of t w1" using same_index_other [OF same False] index_okD(2) [OF ok t] by simp
    then show ?thesis using two(1) False t by (simp add: index_of_def index_step_def l1)
  qed
  then show "index_ok w2" using two(1) l1 by (simp add: index_ok_def index_step_def)
qed

section \<open>The tables of every space\<close>

definition leases_ok :: "(u64, mapping_lease) omap \<Rightarrow> bool" where
  "leases_ok ls \<longleftrightarrow> (\<forall>e\<in>set ls. ml_begin (snd e) mod page_size = 0 \<and> ml_end (snd e) mod page_size = 0 \<and> ml_end (snd e) \<le> 2 ^ 32)"

definition tables_ok :: "memory_world \<Rightarrow> nat \<Rightarrow> bool" where
  "tables_ok w t \<longleftrightarrow> files_ok (file_mappings (space_of w t)) \<and> leases_ok (mapping_leases (space_of w t))"

definition world_ok :: "memory_world \<Rightarrow> bool" where
  "world_ok w \<longleftrightarrow> page_inv w \<and> index_ok w \<and> (\<forall>t\<in>set (live w). tables_ok w t)"

lemma world_okD:
  "world_ok w \<Longrightarrow> page_inv w" "world_ok w \<Longrightarrow> index_ok w" "world_ok w \<Longrightarrow> t \<in> set (live w) \<Longrightarrow> tables_ok w t"
  "world_ok w \<Longrightarrow> t \<in> set (live w) \<Longrightarrow> files_ok (file_mappings (space_of w t))"
  by (simp_all add: world_ok_def tables_ok_def)

lemma same_view_tables: "same_view w w' \<Longrightarrow> tables_ok w' t = tables_ok w t"
  by (simp add: same_view_def tables_ok_def)

lemma world_ok_view:
  assumes "world_ok w" "page_inv w'" "same_view w w'" "live w' = live w"
  shows "world_ok w'"
  using assms same_view_index_ok [OF assms(3,4)] same_view_tables [OF assms(3)] by (simp add: world_ok_def)

lemma leases_ok_invalidate:
  "leases_ok (mapping_leases sp) \<Longrightarrow> leases_ok (mapping_leases (invalidate_mapping_leases a fin sp))"
  by (simp add: leases_ok_def invalidate_mapping_leases_def)

lemma invalidate_leases_simps [simp]:
  "vm_regions (invalidate_mapping_leases a fin sp) = vm_regions sp"
  "page_permissions (invalidate_mapping_leases a fin sp) = page_permissions sp"
  "file_mappings (invalidate_mapping_leases a fin sp) = file_mappings sp"
  by (simp_all add: invalidate_mapping_leases_def)

lemma page_range:
  assumes "n \<noteq> 0" "\<not> range_overflows a n" "a < 2 ^ 32"
  shows "page_base a mod page_size = 0" "page_range_end a n mod page_size = 0" "page_base a < page_range_end a n"
    "page_range_end a n \<le> 2 ^ 32" "valid_range (page_base a) (page_range_end a n)"
proof -
  show "page_base a mod page_size = 0" by simp
  have b: "a + (n - 1) < 2 ^ 32" using assms by (simp add: range_overflows_def u32_max_def)
  show "page_range_end a n mod page_size = 0" unfolding page_range_end_def by (simp add: mod_add_eq [symmetric])
  have "page_base a \<le> page_base (a + (n - 1))" by (simp add: page_base_alt div_le_mono)
  then show lt: "page_base a < page_range_end a n" by (simp add: page_range_end_def page_size_def)
  have "page_base (a + (n - 1)) < 2 ^ 32" using page_base_le [of "a + (n - 1)"] b by linarith
  then show le: "page_range_end a n \<le> 2 ^ 32"
    unfolding page_range_end_def by (intro aligned_step page_base_mod) (simp_all add: page_size_def)
  show "valid_range (page_base a) (page_range_end a n)" using lt le by (simp add: valid_range_def address_space_end_def)
qed

lemma flush_view [simp]: "same_view w (flush_shared_file_pages s a fin w)"
  by (simp add: flush_shared_file_pages_def same_view_def)

lemma flags_or: "flags_of p OR (mapped_page_flag OR q) = flags_of (Some (or_perm q p))"
  by (cases p) (simp_all add: flags_of_def or_perm_def perm_or_def or.assoc or.left_commute)

lemma vm_map_or_spec:
  assumes "vm_inv m" "valid_range first fin"
  shows "vm_inv (vm_map_or first fin p m)"
    "perm_at (vm_map_or first fin p m) a = (if first \<le> a \<and> a < fin then Some (or_perm p (perm_at m a)) else perm_at m a)"
  using map_or_spec [OF assms(1), of first fin p] assms(2) by (auto simp: vm_map_or_def)

section \<open>Operations on regions\<close>

definition same_tables :: "nat \<Rightarrow> memory_world \<Rightarrow> memory_world \<Rightarrow> bool" where
  "same_tables s w w' \<longleftrightarrow> (\<forall>t. t \<noteq> s \<longrightarrow> file_mappings (space_of w' t) = file_mappings (space_of w t) \<and>
     mapping_leases (space_of w' t) = mapping_leases (space_of w t))"

lemma view_same_tables: "same_view w w' \<Longrightarrow> same_tables s w w'"
  by (simp add: same_view_def same_tables_def)

lemma set_space_tables [simp]: "same_tables s w (set_space s sp w)"
  by (simp add: same_tables_def)

lemma same_tables_trans: "same_tables s a b \<Longrightarrow> same_tables s b c \<Longrightarrow> same_tables s a c"
  by (simp add: same_tables_def)

lemma world_ok_update:
  assumes ok: "world_ok w" and s: "s \<in> set (live w)" and same: "same_index s w w1" "same_tables s w w1" "tables_ok w1 s"
    and al: "first mod page_size = 0" "fin mod page_size = 0" "fin \<le> 2 ^ 32"
    and m: "vm_inv (vm_regions (space_of w1 s))"
      "\<And>a. perm_at (vm_regions (space_of w1 s)) a =
         (if first \<le> a \<and> a < fin then g (perm_at (vm_regions (space_of w s)) a) else perm_at (vm_regions (space_of w s)) a)"
    and h: "updates_page s f h" "\<And>p. f (flags_of p) = flags_of (g p)"
    and w3: "same_view (fold h (page_bases first fin) w1) w3" "page_inv w3" "live w3 = live w"
  shows "world_ok w3"
proof -
  define w2 where "w2 = fold h (page_bases first fin) w1"
  note u = range_update [OF world_okD(2) [OF ok] s same(1) al m h w2_def]
  have "tables_ok w2 t" if "t \<in> set (live w)" for t
  proof (cases "t = s")
    case True
    then show ?thesis using same(3) by (simp add: tables_ok_def u(3,4))
  next
    case False
    then show ?thesis using world_okD(3) [OF ok that] same(2) by (simp add: tables_ok_def u(3,4) same_tables_def)
  qed
  moreover have view: "same_view w2 w3" using w3(1) by (simp add: w2_def)
  ultimately show ?thesis
    using u(1,2) w3(2,3) same_view_index_ok [OF view] same_view_tables [OF view] by (simp add: world_ok_def)
qed

lemma region_regs: "world_ok w \<Longrightarrow> s \<in> set (live w) \<Longrightarrow> vm_inv (vm_regions (space_of w s))"
  by (blast intro: index_ofD(1) index_okD(2) world_okD(2))

lemma confined_page_inv: "confined s w w' \<Longrightarrow> page_inv w'"
  by (rule confined_inv(1))

lemma as_map_world:
  assumes ok: "world_ok w" and s: "s \<in> set (live w)" and a: "a < 2 ^ 32"
  shows "world_ok (snd (as_map s a n p w))"
proof (cases "n = 0 \<or> range_overflows a n")
  case True
  then show ?thesis using ok by (simp add: as_map_def)
next
  case False
  define first where "first = page_base a"
  define fin where "fin = page_range_end a n"
  define sp where "sp = invalidate_mapping_leases first fin (space_of w s)"
  define w1 where "w1 = set_space s (sp\<lparr>vm_regions := vm_map_or first fin p (vm_regions sp)\<rparr>) w"
  note r = page_range [OF _ _ a, of n, folded first_def fin_def]
  have val: "valid_range first fin" using r(5) False by simp
  have eq: "snd (as_map s a n p w) = refresh_jit_page_range s first fin (add_page_permissions s first fin p w1)"
    using False by (simp add: as_map_def Let_def w1_def sp_def first_def fin_def)
  have c: "confined s w (snd (as_map s a n p w))" by (rule as_map_confined [OF world_okD(1) [OF ok]])
  note vs = vm_map_or_spec [OF region_regs [OF ok s] val, of p]
  show ?thesis unfolding eq
  proof (rule world_ok_update [OF ok s, where g = "\<lambda>x. Some (or_perm p x)" and h = "\<lambda>base. put_permission s (base div page_size) (\<lambda>flags. flags OR (mapped_page_flag OR p))" and first = first and fin = fin, OF _ _ _ _ _ _ _ _ put_updates flags_or])
    show "same_index s w w1" unfolding w1_def by (rule set_space_index) (simp add: sp_def)
    show "same_tables s w w1" by (simp add: w1_def)
    show "tables_ok w1 s" using world_okD(3) [OF ok s] leases_ok_invalidate by (simp add: tables_ok_def w1_def sp_def)
    show "vm_inv (vm_regions (space_of w1 s))" using vs(1) by (simp add: w1_def sp_def)
    show "perm_at (vm_regions (space_of w1 s)) x =
        (if first \<le> x \<and> x < fin then Some (or_perm p (perm_at (vm_regions (space_of w s)) x)) else perm_at (vm_regions (space_of w s)) x)" for x
      using vs(2) by (simp add: w1_def sp_def)
    show "same_view (fold (\<lambda>base. put_permission s (base div page_size) (\<lambda>flags. flags OR (mapped_page_flag OR p))) (page_bases first fin) w1)
        (refresh_jit_page_range s first fin (add_page_permissions s first fin p w1))"
      unfolding add_page_permissions_def by simp
    show "page_inv (refresh_jit_page_range s first fin (add_page_permissions s first fin p w1))"
      "live (refresh_jit_page_range s first fin (add_page_permissions s first fin p w1)) = live w"
      using confined_inv [OF c] eq by simp_all
  qed (use False r in simp_all)
qed

end
