(* ===== verification/Address_Space_Worlds.thy ===== *)
theory Address_Space_Worlds
  imports Address_Space_Permissions
begin

text \<open>
  Every operation of a space keeps the invariant of the whole world: pages, permission index,
  file mappings and leases of every live space.
\<close>

section \<open>Unmapping\<close>

lemma cut_file_mapping_ok:
  assumes ok: "mapping_ok (start, m)" and al: "address mod page_size = 0" "fin mod page_size = 0"
    and hit: "start < fin" "address < fm_end m" "(b, p) \<in> set (cut_file_mapping address fin (start, m))"
  shows "mapping_ok (b, p)"
proof -
  have k: "start mod page_size = 0" "fm_end m mod page_size = 0" "start < fm_end m" "fm_offset m mod page_size = 0"
    "first_offset (fm_backing m) = fm_offset m" "fm_offset m + (fm_end m - start) < end_offset (fm_backing m) + page_size"
    using ok unfolding mapping_ok_def Let_def prod.case by blast+
  consider (left) "start < address" "b = start" "p = \<lparr>fm_end = address, fm_offset = fm_offset m,
       fm_backing = make_backing (fm_backing m) (fm_offset m) (min (end_offset (fm_backing m)) (fm_offset m + (address - start)))\<rparr>"
    | (right) "fin < fm_end m" "b = fin" "p = \<lparr>fm_end = fm_end m, fm_offset = fm_offset m + (fin - start),
       fm_backing = make_backing (fm_backing m) (fm_offset m + (fin - start)) (end_offset (fm_backing m))\<rparr>"
    using hit(3) by (auto simp: cut_file_mapping_def Let_def split: if_splits)
  then show ?thesis
  proof cases
    case left
    have "fm_offset m + (address - start) < min (end_offset (fm_backing m)) (fm_offset m + (address - start)) + page_size"
      using k(6) left(1) hit(2) page_size_pos by linarith
    then show ?thesis using left k al(1) by (simp add: mapping_ok_def Let_def make_backing_def del: add_diff_assoc)
  next
    case right
    have "(fin - start) mod page_size = 0" using k(1) al(2) hit(1) by (simp add: mod_eq_0_iff_dvd dvd_diff_nat)
    then have "(fm_offset m + (fin - start)) mod page_size = 0" using k(4) by (simp add: mod_eq_0_iff_dvd)
    then show ?thesis using right k al(2) hit(1) by (simp add: mapping_ok_def Let_def make_backing_def)
  qed
qed

lemma om_emplace_subset: "set (om_emplace k v m) \<subseteq> insert (k, v) (set m)"
proof -
  have "set (om_put k v m) \<subseteq> insert (k, v) (set m)" by (induction m) (auto split: if_splits)
  then show ?thesis by (auto simp: om_emplace_def)
qed

lemma emplace_all_subset:
  "set (fold (\<lambda>(k, v). om_emplace k v) ps m) \<subseteq> set ps \<union> set m"
proof (induction ps arbitrary: m)
  case (Cons p ps)
  then show ?case using om_emplace_subset [of "fst p" "snd p" m] by (fastforce simp: case_prod_beta)
qed simp

lemma unmap_files_ok:
  assumes ok: "files_ok m" and al: "address mod page_size = 0" "fin mod page_size = 0"
  shows "files_ok (unmap_file_mappings address fin m)"
proof -
  define r where "r = (case rev (om_before_lower address m) of [] \<Rightarrow> ([], om_lower address m)
     | previous # earlier \<Rightarrow>
         if fm_end (snd previous) > address then (rev earlier, previous # om_lower address m) else (om_before_lower address m, om_lower address m))"
  have sub: "set (fst r) \<union> set (snd r) \<subseteq> set m"
  proof -
    have m: "set (om_before_lower address m) \<union> set (om_lower address m) = set m"
      by (metis om_split_lower set_append)
    show ?thesis
    proof (cases "rev (om_before_lower address m)")
      case Nil
      then show ?thesis using m by (auto simp: r_def)
    next
      case (Cons x xs)
      then have "om_before_lower address m = rev xs @ [x]" by (metis rev.simps(2) rev_rev_ident)
      then show ?thesis using m Cons by (auto simp: r_def)
    qed
  qed
  define hit where "hit = takeWhile (\<lambda>e. fst e < fin) (snd r)"
  define cut where "cut = filter (\<lambda>e. \<not> fm_end (snd e) \<le> address) hit"
  define rest where "rest = fst r @ filter (\<lambda>e. fm_end (snd e) \<le> address) hit @ dropWhile (\<lambda>e. fst e < fin) (snd r)"
  have eq: "unmap_file_mappings address fin m =
      fold (\<lambda>(start, piece). om_emplace start piece) (concat (map (cut_file_mapping address fin) cut)) rest"
    unfolding unmap_file_mappings_def Let_def r_def [symmetric] case_prod_beta hit_def cut_def rest_def by (rule refl)
  have hits: "e \<in> set m \<and> fst e < fin" if "e \<in> set hit" for e
    using that sub set_takeWhileD [of e "\<lambda>e. fst e < fin" "snd r"] by (auto simp: hit_def)
  have "mapping_ok e" if e: "e \<in> set (unmap_file_mappings address fin m)" for e
  proof -
    consider (piece) c where "c \<in> set cut" "e \<in> set (cut_file_mapping address fin c)" | (old) "e \<in> set rest"
      using e emplace_all_subset [of "concat (map (cut_file_mapping address fin) cut)" rest] unfolding eq by auto
    then show ?thesis
    proof cases
      case piece
      then have c: "c \<in> set m" "fst c < fin" "address < fm_end (snd c)" using hits by (auto simp: cut_def)
      then have "mapping_ok (fst c, snd c)" using ok by (simp add: files_ok_def)
      then show ?thesis using cut_file_mapping_ok [OF _ al c(2,3), of "fst e" "snd e"] piece(2) by simp
    next
      case old
      then have "e \<in> set m" using sub hits [of e] set_dropWhileD [of e "\<lambda>e. fst e < fin" "snd r"] by (auto simp: rest_def)
      then show ?thesis using ok by (simp add: files_ok_def)
    qed
  qed
  then show ?thesis by (simp add: files_ok_def)
qed

lemma uncache_view [simp]: "same_view w (uncache_page s a w)"
  by (simp add: uncache_page_def Let_def same_view_def split: option.splits)

lemma erase_pages_view [simp]: "same_view w (erase_pages s a fin w)"
  unfolding erase_pages_def Let_def by (rule same_view_trans [OF same_view_fold page_ops_view(2)]) simp

lemma view_after:
  assumes "same_index s w w1" "same_tables s w w1" "same_view w1 w2" "live w2 = live w1"
  shows "same_index s w w2" "same_tables s w w2"
  using assms by (auto simp: same_index_def same_tables_def same_view_def)

lemma ensure_unique_live [simp]: "live (ensure_unique_page_map s w) = live w"
proof (cases "page_map_unique (pages_ref (space_of w s)) w")
  case True
  then show ?thesis by (simp add: ensure_unique_page_map_def)
qed (rule ensure_unique_shared(1))

lemma erase_pages_live [simp]: "live (erase_pages s a fin w) = live w"
proof -
  have "live (uncache_page s b w) = live w" for b w
    by (simp add: uncache_page_def Let_def split: option.splits)
  then have "live (fold (\<lambda>e. uncache_page s (fst e)) es w) = live w" for es
    by (induction es arbitrary: w) auto
  then show ?thesis by (simp add: erase_pages_def Let_def)
qed

lemma unmap_range_world:
  assumes ok: "world_ok w" and s: "s \<in> set (live w)"
    and al: "a mod page_size = 0" "fin mod page_size = 0" "fin \<le> 2 ^ 32"
  shows "world_ok (unmap_range s a fin w)"
proof -
  define w1 where "w1 = flush_shared_file_pages s a fin w"
  define w2 where "w2 = set_space s ((space_of w1 s)\<lparr>vm_regions := unmap a fin (vm_regions (space_of w1 s)),
     translation_profile_map := unmap a fin (translation_profile_map (space_of w1 s)),
     file_mappings := unmap_file_mappings a fin (file_mappings (space_of w1 s))\<rparr>) w1"
  define w3 where "w3 = erase_pages s a fin (ensure_unique_page_map s w2)"
  define w4 where "w4 = set_space s ((space_of w3 s)\<lparr>exclusive_write_tracked_pages :=
     exclusive_write_tracked_pages (space_of w3 s) - set (page_bases a fin)\<rparr>) w3"
  have eq: "unmap_range s a fin w = refresh_jit_page_range s a fin (clear_page_permissions s a fin w4)"
    unfolding unmap_range_def Let_def w1_def w2_def w3_def w4_def by (rule refl)
  have w1: "same_view w w1" "live w1 = live w" by (simp add: w1_def, simp add: w1_def flush_shared_file_pages_def)
  have v: "same_view w2 w4" "live w4 = live w2"
  proof -
    have "same_view w2 w3" unfolding w3_def by (rule same_view_trans [OF ensure_unique_view erase_pages_view])
    moreover have "same_view w3 w4" by (simp add: w4_def same_view_def)
    ultimately show "same_view w2 w4" by (rule same_view_trans)
  qed (simp add: w4_def w3_def)
  have w1s: "vm_regions (space_of w1 t) = vm_regions (space_of w t)" "file_mappings (space_of w1 t) = file_mappings (space_of w t)"
    "mapping_leases (space_of w1 t) = mapping_leases (space_of w t)" for t
    using w1(1) by (simp_all add: same_view_def)
  have w4s: "vm_regions (space_of w4 s) = unmap a fin (vm_regions (space_of w s))"
    "file_mappings (space_of w4 s) = unmap_file_mappings a fin (file_mappings (space_of w s))"
    "mapping_leases (space_of w4 s) = mapping_leases (space_of w s)"
    using v(1) w1s by (simp_all add: same_view_def w2_def)
  have i2: "same_index s w w2" "same_tables s w w2"
    unfolding w2_def using w1(2) w1(1) by (simp_all add: same_index_def same_tables_def same_view_def)
  note us = unmap_spec [OF region_regs [OF ok s], of a fin]
  have c: "confined s w (unmap_range s a fin w)" by (rule unmap_range_confined [OF world_okD(1) [OF ok] s])
  show ?thesis unfolding eq
  proof (rule world_ok_update [OF ok s, where g = "\<lambda>x. None" and first = a and fin = fin, OF _ _ _ _ _ _ _ _ clear_updates])
    show "same_index s w w4" "same_tables s w w4" using view_after [OF i2 v] by simp_all
    show "tables_ok w4 s"
      using world_okD(3) [OF ok s] unmap_files_ok [OF _ al(1,2)] by (simp add: tables_ok_def w4s)
    show "vm_inv (vm_regions (space_of w4 s))" using us by (simp add: w4s)
    show "perm_at (vm_regions (space_of w4 s)) x =
        (if a \<le> x \<and> x < fin then None else perm_at (vm_regions (space_of w s)) x)" for x
      using us al(3) by (auto simp: w4s valid_range_def address_space_end_def)
    show "same_view (fold (\<lambda>base w.
         if page_permissions (space_of w s) (base div page_size div page_permission_chunk_size) = None then w
         else put_permission s (base div page_size) (\<lambda>_. 0) w) (page_bases a fin) w4)
        (refresh_jit_page_range s a fin (clear_page_permissions s a fin w4))"
      unfolding clear_page_permissions_def by simp
    show "page_inv (refresh_jit_page_range s a fin (clear_page_permissions s a fin w4))"
      "live (refresh_jit_page_range s a fin (clear_page_permissions s a fin w4)) = live w"
      using confined_inv [OF c] eq by simp_all
    show "0 = flags_of None" by (simp add: flags_of_def)
  qed (use al in simp_all)
qed

text \<open>The leases a range touches go first.\<close>

lemma set_leases_world:
  assumes ok: "world_ok w" and sp: "same_core (space_of w s) sp" "vm_regions sp = vm_regions (space_of w s)"
    "page_permissions sp = page_permissions (space_of w s)" "file_mappings sp = file_mappings (space_of w s)"
    and ls: "set (mapping_leases sp) \<subseteq> set (mapping_leases (space_of w s))"
  shows "world_ok (set_space s sp w)"
proof -
  have "page_inv (set_space s sp w)"
    using set_space_core_confined [OF world_okD(1) [OF ok] sp(1)] by (rule confined_page_inv)
  moreover have "index_of t (set_space s sp w) = index_of t w" for t
    using sp by (simp add: index_of_def page_permission_def cong: option.case_cong)
  moreover have "chunks_ok (set_space s sp w) = chunks_ok w" using sp by (auto simp: chunks_ok_def)
  moreover have "tables_ok (set_space s sp w) t" if "t \<in> set (live w)" for t
    using world_okD(3) [OF ok that] sp ls by (auto simp: tables_ok_def leases_ok_def)
  ultimately show ?thesis using world_okD(2) [OF ok] by (simp add: world_ok_def index_ok_def)
qed

lemma invalidate_world:
  "world_ok w \<Longrightarrow> world_ok (set_space s (invalidate_mapping_leases a fin (space_of w s)) w)"
  by (rule set_leases_world) (auto simp: invalidate_mapping_leases_def same_core_def)

lemma as_unmap_world:
  assumes ok: "world_ok w" and s: "s \<in> set (live w)" and a: "a < 2 ^ 32"
  shows "world_ok (snd (as_unmap s a n w))"
proof (cases "n = 0 \<or> range_overflows a n")
  case False
  then show ?thesis
    using page_range [OF _ _ a, of n] s unmap_range_world [OF invalidate_world [OF ok]] by (simp add: as_unmap_def Let_def)
qed (use ok in \<open>auto simp: as_unmap_def\<close>)

lemma unmap_lease_world:
  assumes ok: "world_ok w" and s: "s \<in> set (live w)"
  shows "world_ok (snd (unmap_mapping_lease s token w))"
proof (cases "token = 0 \<or> map_of (mapping_leases (space_of w s)) token = None")
  case True
  then show ?thesis using ok by (auto simp: unmap_mapping_lease_def)
next
  case False
  then obtain l where l: "map_of (mapping_leases (space_of w s)) token = Some l" by auto
  define sp where "sp = invalidate_mapping_leases (ml_begin l) (ml_end l)
     ((space_of w s)\<lparr>mapping_leases := om_erase token (mapping_leases (space_of w s))\<rparr>)"
  have eq: "snd (unmap_mapping_lease s token w) = unmap_range s (ml_begin l) (ml_end l) (set_space s sp w)"
    using False l by (simp add: unmap_mapping_lease_def sp_def Let_def)
  have "(token, l) \<in> set (mapping_leases (space_of w s))" using l by (rule map_of_SomeD)
  then have al: "ml_begin l mod page_size = 0" "ml_end l mod page_size = 0" "ml_end l \<le> 2 ^ 32"
    using world_okD(3) [OF ok s] unfolding tables_ok_def leases_ok_def by force+
  have "world_ok (set_space s sp w)"
    by (rule set_leases_world [OF ok]) (auto simp: sp_def invalidate_mapping_leases_def same_core_def om_erase_def)
  then show ?thesis unfolding eq using unmap_range_world [OF _ _ al] s by simp
qed

section \<open>Protection\<close>

lemma as_protect_world:
  assumes ok: "world_ok w" and s: "s \<in> set (live w)" and a: "a < 2 ^ 32"
  shows "world_ok (snd (as_protect s a n p w))"
proof (cases "n = 0 \<or> range_overflows a n \<or> \<not> fst (protect (page_base a) (page_range_end a n) p (vm_regions (space_of w s)))")
  case True
  then show ?thesis using ok by (auto simp: as_protect_def Let_def case_prod_beta)
next
  case False
  define first where "first = page_base a"
  define fin where "fin = page_range_end a n"
  define m where "m = snd (protect first fin p (vm_regions (space_of w s)))"
  define w1 where "w1 = set_space s ((space_of w s)\<lparr>vm_regions := m\<rparr>) w"
  define w2 where "w2 = set_page_permissions s first fin p w1"
  define w3 where "w3 = (if has_permission p perm_write then
     let w' = ensure_unique_page_map s w2 in
     set_pages s (map (\<lambda>(a, pg). (a, if first \<le> a \<and> a < fin \<and> file_writeback_capable pg
       then pg\<lparr>file_writeback := True\<rparr> else pg)) (pages_of s w')) w' else w2)"
  have eq: "snd (as_protect s a n p w) = refresh_jit_page_range s first fin w3"
    using False unfolding as_protect_def w3_def w2_def w1_def m_def first_def fin_def by (simp add: Let_def case_prod_beta)
  note r = page_range [OF _ _ a, of n, folded first_def fin_def]
  note ps = protect_spec [OF region_regs [OF ok s], of first fin p]
  have okp: "fst (protect first fin p (vm_regions (space_of w s)))" using False by (simp add: first_def fin_def)
  have c: "confined s w (snd (as_protect s a n p w))" by (rule as_protect_confined [OF world_okD(1) [OF ok] s])
  have v3: "same_view w2 w3"
    unfolding w3_def Let_def by (cases "has_permission p perm_write") (simp_all add: same_view_trans [OF ensure_unique_view page_ops_view(2)])
  show ?thesis unfolding eq
  proof (rule world_ok_update [OF ok s, where g = "\<lambda>x. Some p" and first = first and fin = fin, OF _ _ _ _ _ _ _ _ put_updates])
    show "same_index s w w1" "same_tables s w w1" unfolding w1_def by (simp_all add: set_space_index)
    show "tables_ok w1 s" using world_okD(3) [OF ok s] by (simp add: tables_ok_def w1_def)
    show "vm_inv (vm_regions (space_of w1 s))" using ps by (simp add: w1_def m_def)
    show "perm_at (vm_regions (space_of w1 s)) x =
        (if first \<le> x \<and> x < fin then Some p else perm_at (vm_regions (space_of w s)) x)" for x
      using ps okp by (simp add: w1_def m_def)
    show "same_view (fold (\<lambda>base. put_permission s (base div page_size) (\<lambda>_. mapped_page_flag OR p)) (page_bases first fin) w1)
        (refresh_jit_page_range s first fin w3)"
      using same_view_trans [OF v3 refresh_range_view] unfolding w2_def set_page_permissions_def .
    show "page_inv (refresh_jit_page_range s first fin w3)" "live (refresh_jit_page_range s first fin w3) = live w"
      using confined_inv [OF c] eq by simp_all
    show "mapped_page_flag OR p = flags_of (Some p)" by (simp add: flags_of_def)
  qed (use False r in simp_all)
qed

section \<open>Creation, clearing and destruction\<close>

text \<open>A space with no region, or one that has taken over the tables of another.\<close>

lemma index_of_empty: "vm_regions (space_of w t) = [] \<Longrightarrow> page_permissions (space_of w t) = (\<lambda>_. None) \<Longrightarrow> index_of t w"
  by (simp add: index_of_def vm_inv_def page_permission_def flags_of_def)

lemma index_of_copy:
  assumes "index_of s w" "vm_regions (space_of w' t) = vm_regions (space_of w s)"
    "page_permissions (space_of w' t) = page_permissions (space_of w s)" "chunk_of w' = chunk_of w"
  shows "index_of t w'"
  using assms by (simp add: index_of_def page_permission_def cong: option.case_cong)

lemma tables_ok_copy:
  assumes "tables_ok w s" "file_mappings (space_of w' t) = file_mappings (space_of w s)"
    "mapping_leases (space_of w' t) = mapping_leases (space_of w s)"
  shows "tables_ok w' t"
  using assms by (simp add: tables_ok_def)

lemma tables_ok_empty: "file_mappings (space_of w t) = [] \<Longrightarrow> mapping_leases (space_of w t) = [] \<Longrightarrow> tables_ok w t"
  by (simp add: tables_ok_def files_ok_def leases_ok_def)

definition copies_view :: "memory_world \<Rightarrow> nat \<Rightarrow> memory_world \<Rightarrow> nat \<Rightarrow> bool" where
  "copies_view w s w' t \<longleftrightarrow> vm_regions (space_of w' t) = vm_regions (space_of w s) \<and>
     page_permissions (space_of w' t) = page_permissions (space_of w s) \<and>
     file_mappings (space_of w' t) = file_mappings (space_of w s) \<and> mapping_leases (space_of w' t) = mapping_leases (space_of w s)"

definition blank_view :: "memory_world \<Rightarrow> nat \<Rightarrow> bool" where
  "blank_view w t \<longleftrightarrow> vm_regions (space_of w t) = [] \<and> page_permissions (space_of w t) = (\<lambda>_. None) \<and>
     file_mappings (space_of w t) = [] \<and> mapping_leases (space_of w t) = []"

lemma world_ok_spaces:
  assumes ok: "world_ok w" and inv: "page_inv w'" and ch: "chunk_of w' = chunk_of w" "next_chunk w' = next_chunk w"
    and sp: "\<And>t. t \<in> set (live w') \<Longrightarrow> blank_view w' t \<or> (\<exists>s\<in>set (live w). copies_view w s w' t)"
  shows "world_ok w'"
proof -
  have d: "distinct (live w')" using inv by (simp add: page_inv_def refs_ok_def)
  have "index_of t w' \<and> tables_ok w' t \<and>
      (\<forall>i c. page_permissions (space_of w' t) i = Some c \<longrightarrow> c < next_chunk w' \<and> i < page_permission_chunk_count)"
    if t: "t \<in> set (live w')" for t
  proof (cases "blank_view w' t")
    case True
    then show ?thesis by (simp add: blank_view_def index_of_empty tables_ok_empty)
  next
    case False
    then obtain s where s: "s \<in> set (live w)" "copies_view w s w' t" using sp [OF t] by blast
    have "\<forall>i c. page_permissions (space_of w s) i = Some c \<longrightarrow> c < next_chunk w \<and> i < page_permission_chunk_count"
      using index_okD(1) [OF world_okD(2) [OF ok]] s(1) by (simp add: chunks_ok_def)
    then show ?thesis
      using index_of_copy [OF index_okD(2) [OF world_okD(2) [OF ok] s(1)], of w' t]
        tables_ok_copy [OF world_okD(3) [OF ok s(1)], of w' t] s(2) ch by (simp add: copies_view_def)
  qed
  then show ?thesis using d inv by (simp add: world_ok_def index_ok_def chunks_ok_def)
qed

lemma copies_view_same: "space_of w' t = space_of w t \<Longrightarrow> copies_view w t w' t"
  by (simp add: copies_view_def)

lemma as_clear_world:
  assumes ok: "world_ok w" and s: "s \<in> set (live w)"
  shows "world_ok (as_clear s w)"
proof (rule world_ok_spaces [OF ok])
  show "page_inv (as_clear s w)" by (rule confined_page_inv [OF as_clear_confined [OF world_okD(1) [OF ok] s]])
  show "chunk_of (as_clear s w) = chunk_of w" "next_chunk (as_clear s w) = next_chunk w"
    by (simp_all add: as_clear_def Let_def flush_shared_file_pages_def)
  have live: "live (as_clear s w) = live w" by (simp add: as_clear_def Let_def flush_shared_file_pages_def)
  show "blank_view (as_clear s w) t \<or> (\<exists>s'\<in>set (live w). copies_view w s' (as_clear s w) t)"
    if "t \<in> set (live (as_clear s w))" for t
  proof (cases "t = s")
    case True
    then have "blank_view (as_clear s w) t" by (simp add: blank_view_def as_clear_def Let_def)
    then show ?thesis by blast
  next
    case False
    then have "copies_view w t (as_clear s w) t"
      by (intro copies_view_same) (simp add: as_clear_def Let_def flush_shared_file_pages_def)
    then show ?thesis using that live by auto
  qed
qed

lemma destroy_space_world:
  assumes ok: "world_ok w"
  shows "world_ok (destroy_space s w)"
proof (rule world_ok_spaces [OF ok])
  show "page_inv (destroy_space s w)" by (rule destroy_space_inv [OF world_okD(1) [OF ok]])
  show "blank_view (destroy_space s w) t \<or> (\<exists>s'\<in>set (live w). copies_view w s' (destroy_space s w) t)"
    if "t \<in> set (live (destroy_space s w))" for t
  proof -
    have "copies_view w t (destroy_space s w) t"
      by (rule copies_view_same) (simp add: destroy_space_def flush_shared_file_pages_def)
    then show ?thesis using that by (auto simp: destroy_space_def flush_shared_file_pages_def)
  qed
qed (simp_all add: destroy_space_def flush_shared_file_pages_def)

lemma new_space_world:
  assumes ok: "world_ok w"
  shows "world_ok (snd (new_space w))"
proof (rule world_ok_spaces [OF ok])
  show "page_inv (snd (new_space w))" by (rule new_space_inv [OF world_okD(1) [OF ok]])
  show "blank_view (snd (new_space w)) t \<or> (\<exists>s'\<in>set (live w). copies_view w s' (snd (new_space w)) t)"
    if "t \<in> set (live (snd (new_space w)))" for t
  proof (cases "t = next_space w")
    case True
    then have "blank_view (snd (new_space w)) t" by (simp add: blank_view_def new_space_def Let_def fresh_space_def)
    then show ?thesis by blast
  next
    case False
    then have "copies_view w t (snd (new_space w)) t" by (intro copies_view_same) (simp add: new_space_def Let_def)
    then show ?thesis using that False by (auto simp: new_space_def Let_def)
  qed
qed (simp_all add: new_space_def Let_def)

section \<open>Fork\<close>

lemma mark_view [simp]: "same_view w (mark_copy_on_write s e w)"
  unfolding mark_copy_on_write_def by (auto intro: same_view_trans [OF page_ops_view(1) refresh_view])

lemma rebuild_view [simp]: "same_view w (rebuild_page_lookup s w)"
proof -
  have "same_view w (set_space s ((space_of w s)\<lparr>page_lookup := (\<lambda>_. None)\<rparr>) w)" by (simp add: same_view_def)
  then show ?thesis unfolding rebuild_page_lookup_def by (rule same_view_trans) (simp add: same_view_fold)
qed

lemma clone_view:
  assumes c: "clone s w = (child, w')" and s: "s \<noteq> next_space w"
  shows "copies_view w s w' child" "t \<noteq> child \<Longrightarrow> copies_view w t w' t" "chunk_of w' = chunk_of w" "next_chunk w' = next_chunk w"
proof -
  define w1 where "w1 = snd (new_space w)"
  define w2 where "w2 = fold (mark_copy_on_write s) (pages_of s w1) w1"
  define sp where "sp = space_of w2 s"
  define w3 where "w3 = set_space child ((space_of w2 child)\<lparr>vm_regions := vm_regions sp, translation_profile_map := translation_profile_map sp,
     pages_ref := pages_ref sp, file_mappings := file_mappings sp\<rparr>) w2"
  define w4 where "w4 = rebuild_page_lookup child w3"
  have child: "child = next_space w" using c by (auto simp: clone_def Let_def new_space_def)
  have ns: "new_space w = (child, w1)" by (simp add: w1_def new_space_def Let_def child)
  have w': "w' = set_space child ((space_of w4 child)\<lparr>page_permissions := page_permissions sp,
      tracked_write_ranges := tracked_write_ranges sp, write_generation := write_generation sp,
      mapping_leases := mapping_leases sp, next_mapping_lease_token := next_mapping_lease_token sp,
      cache_ref := cache_ref sp, exclusive_write_tracked_pages := exclusive_write_tracked_pages sp,
      parallel_access := parallel_access sp,
      jit_page_table_enabled := (jit_page_table_enabled sp \<and> \<not> parallel_access sp)\<rparr>) w4"
    using c unfolding clone_def ns prod.case Let_def w2_def [symmetric] sp_def [symmetric] w3_def [symmetric] w4_def [symmetric]
    by simp
  have v2: "same_view w1 w2" unfolding w2_def by (simp add: same_view_fold)
  have v4: "same_view w3 w4" unfolding w4_def by simp
  have one: "copies_view w t w1 t" "chunk_of w1 = chunk_of w" "next_chunk w1 = next_chunk w" if "t \<noteq> child" for t
    using that child by (simp_all add: w1_def new_space_def Let_def copies_view_def)
  have two: "copies_view w t w2 t" if "t \<noteq> child" for t
    using one(1) [OF that] v2 by (simp add: copies_view_def same_view_def)
  have sc: "s \<noteq> child" using s child by simp
  have "vm_regions sp = vm_regions (space_of w s)" "page_permissions sp = page_permissions (space_of w s)"
    "file_mappings sp = file_mappings (space_of w s)" "mapping_leases sp = mapping_leases (space_of w s)"
    using two [OF sc] by (simp_all add: sp_def copies_view_def)
  then show "copies_view w s w' child" using v4 by (simp add: copies_view_def w' same_view_def w3_def)
  show "copies_view w t w' t" if "t \<noteq> child"
    using two [OF that] v4 that by (simp add: copies_view_def w' same_view_def w3_def)
  show "chunk_of w' = chunk_of w" "next_chunk w' = next_chunk w"
    using v2 v4 one(2,3) [OF sc] by (simp_all add: w' same_view_def w3_def)
qed

lemma live_bound: "world_ok w \<Longrightarrow> s \<in> set (live w) \<Longrightarrow> s < next_space w"
  by (simp add: world_ok_def page_inv_def refs_ok_def)

lemma clone_world:
  assumes ok: "world_ok w" and s: "s \<in> set (live w)"
  shows "world_ok (snd (clone s w))"
proof -
  obtain child w' where c: "clone s w = (child, w')" by fastforce
  have ns: "s \<noteq> next_space w" using live_bound [OF ok s] by simp
  note f = clone_facts [OF world_okD(1) [OF ok] s c]
  note v = clone_view [OF c ns]
  have "world_ok w'"
  proof (rule world_ok_spaces [OF ok f(1) v(3,4)])
    fix t
    assume "t \<in> set (live w')"
    then have "t = child \<or> (t \<noteq> child \<and> t \<in> set (live w))" using f(3) by auto
    then show "blank_view w' t \<or> (\<exists>s\<in>set (live w). copies_view w s w' t)" using v(1,2) s by blast
  qed
  then show ?thesis by (simp add: c)
qed

section \<open>Mapping files and shared pages\<close>

lemma open_mapping_bounds:
  assumes o: "open_mapping probe path off n cst = (Some f, r)"
  shows "n \<noteq> 0" "off mod page_size = 0" "first_offset f = off"
    "\<exists>available. end_offset f = off + min n available \<and> n \<le> (available + page_size - 1) div page_size * page_size"
  using o by (auto simp: open_mapping_def Let_def case_prod_beta split: if_splits option.splits)

lemma round_up_bound:
  assumes "n \<le> (avail + page_size - 1) div page_size * page_size" "n \<noteq> 0" "a mod page_size = 0"
  shows "page_range_end a n - a < min n avail + page_size"
proof -
  obtain x where x: "a = x * page_size" using assms(3) by (metis mod_eq_0_iff_dvd dvd_def mult.commute)
  have "page_range_end a n - a = (n - 1) div page_size * page_size + page_size"
    by (simp add: page_range_end_def page_base_alt x add_mult_distrib)
  moreover have "(n - 1) div page_size * page_size < min n avail"
  proof -
    have "(n - 1) div page_size * page_size \<le> n - 1" by simp
    then have 1: "(n - 1) div page_size * page_size < n" using assms(2) by linarith
    have "n - 1 < (avail + page_size - 1) div page_size * page_size" using assms(1,2) by linarith
    then have "(n - 1) div page_size < (avail + page_size - 1) div page_size" by (simp add: less_mult_imp_div_less)
    then have "(n - 1) div page_size * page_size + page_size \<le> (avail + page_size - 1) div page_size * page_size"
      by (metis Suc_leI add.commute mult_Suc mult_le_mono1)
    moreover have "(avail + page_size - 1) div page_size * page_size \<le> avail + page_size - 1" by simp
    ultimately have "(n - 1) div page_size * page_size < avail" using page_size_pos by linarith
    with 1 show ?thesis by simp
  qed
  ultimately show ?thesis by simp
qed

lemma opened_world:
  assumes ok: "world_ok w" and s: "s \<in> set (live w)" and c: "c = cache_ref (space_of w s)"
    and o: "open_mapping probe path off n (cache_of w c, store w) = (found, cache, st)"
  shows "world_ok (w\<lparr>cache_of := (cache_of w)(c := cache), store := st\<rparr>)" (is "world_ok ?w")
proof (rule world_ok_view [OF ok])
  have "cache_inv (cache_of w c, store w)" using world_okD(1) [OF ok] s by (simp add: page_inv_def refs_ok_def c)
  then have "cache_inv (cache, st)" using open_mapping_inv [of "(cache_of w c, store w)"] by (metis o snd_conv)
  then show "page_inv ?w"
    unfolding c using open_mapping_facts [where probe = probe and path = path and off = off and n = n and c = "cache_of w c" and st = "store w"] unfolding o
    by (intro cache_change_inv [OF world_okD(1) [OF ok] s]) (simp_all add: c)
qed (simp_all add: same_view_def)

lemma files_ok_emplace: "files_ok m \<Longrightarrow> mapping_ok (a, f) \<Longrightarrow> files_ok (om_emplace a f m)"
  using om_emplace_subset [of a f m] by (auto simp: files_ok_def)

lemma map_file_world:
  assumes ok: "world_ok w" and s: "s \<in> set (live w)" and a: "a < 2 ^ 32"
  shows "world_ok (snd (map_file probe s a n p path off w))"
proof (cases "n = 0 \<or> range_overflows a n \<or> a mod page_size \<noteq> 0 \<or> off mod page_size \<noteq> 0")
  case True
  then have "map_file probe s a n p path off w = (False, w)" unfolding map_file_def by (simp only: if_True)
  then show ?thesis using ok by simp
next
  case False
  define c where "c = cache_ref (space_of w s)"
  obtain found cache st where o: "open_mapping probe path off n (cache_of w c, store w) = (found, cache, st)"
    by (metis prod_cases3)
  define w1 where "w1 = w\<lparr>cache_of := (cache_of w)(c := cache), store := st\<rparr>"
  have ok1: "world_ok w1" unfolding w1_def by (rule opened_world [OF ok s c_def o])
  have l1: "live w1 = live w" "s \<in> set (live w1)" using s by (simp_all add: w1_def)
  define fin where "fin = page_range_end a n"
  have sw: "space_of w1 = space_of w" by (simp add: w1_def)
  define sp where "sp = invalidate_mapping_leases a fin (space_of w s)"
  note r = page_range [OF _ _ a, of n, folded fin_def]
  have ab: "page_base a = a" using False by (simp add: page_base_aligned)
  show ?thesis
  proof (cases found)
    case None
    then have "map_file probe s a n p path off w = (False, w1)"
      using False o by (simp add: map_file_def Let_def c_def [symmetric] w1_def)
    then show ?thesis using ok1 by simp
  next
    case (Some f)
    define sp1 where "sp1 = sp\<lparr>file_mappings := om_emplace a \<lparr>fm_end = fin, fm_offset = off, fm_backing = f\<rparr> (file_mappings sp)\<rparr>"
    define w2 where "w2 = set_space s (sp1\<lparr>vm_regions := vm_map_or a fin p (vm_regions sp1)\<rparr>) w1"
    have eq: "map_file probe s a n p path off w =
        (if overlaps a fin (vm_regions (space_of w1 s)) then (False, w1)
         else if map_of (file_mappings sp) a \<noteq> None then (False, set_space s sp1 w1)
         else (True, add_page_permissions s a fin p w2))"
      using False o Some by (simp add: map_file_def Let_def c_def [symmetric] w1_def [symmetric] sw fin_def [symmetric]
          sp_def [symmetric] sp1_def [symmetric] w2_def [symmetric])
    consider (over) "overlaps a fin (vm_regions (space_of w1 s))"
      | (there) "\<not> overlaps a fin (vm_regions (space_of w1 s))" "map_of (file_mappings sp) a \<noteq> None"
      | (mapped) "\<not> overlaps a fin (vm_regions (space_of w1 s))" "map_of (file_mappings sp) a = None" by blast
    then show ?thesis
    proof cases
      case over
      then show ?thesis using eq ok1 by simp
    next
      case there
      have "world_ok (set_space s sp1 w1)"
        using there(2) by (intro set_leases_world [OF ok1]) (auto simp: sp1_def sp_def sw invalidate_mapping_leases_def same_core_def om_emplace_def)
      then show ?thesis using eq there by simp
    next
      case mapped
      have e: "snd (map_file probe s a n p path off w) = add_page_permissions s a fin p w2" using eq mapped by simp
      have val: "valid_range a fin" using r(5) False ab by simp
      note vs = vm_map_or_spec [OF region_regs [OF ok1 l1(2)] val, of p]
      note ob = open_mapping_bounds [OF o [unfolded Some]]
      have af: "a mod page_size = 0" "n \<noteq> 0" using False by simp_all
      obtain available where av: "end_offset f = off + min n available"
        "n \<le> (available + page_size - 1) div page_size * page_size" using ob(4) by blast
      have "mapping_ok (a, \<lparr>fm_end = fin, fm_offset = off, fm_backing = f\<rparr>)"
        using round_up_bound [OF av(2) af(2,1)] r(2,3) False ob(2,3) ab av(1)
        by (simp add: mapping_ok_def Let_def fin_def [symmetric] del: add_diff_assoc)
      then have files: "files_ok (file_mappings sp1)"
        using world_okD(4) [OF ok1 l1(2)] by (simp add: sp1_def sp_def sw files_ok_emplace)
      have c: "confined s w (snd (map_file probe s a n p path off w))" by (rule map_file_confined [OF world_okD(1) [OF ok] s])
      show ?thesis unfolding e
      proof (rule world_ok_update [OF ok1 l1(2), where g = "\<lambda>x. Some (or_perm p x)" and first = a and fin = fin and h = "\<lambda>base. put_permission s (base div page_size) (\<lambda>flags. flags OR (mapped_page_flag OR p))", OF _ _ _ _ _ _ _ _ put_updates flags_or])
        show "same_index s w1 w2" unfolding w2_def by (rule set_space_index) (simp add: sp1_def sp_def sw)
        show "same_tables s w1 w2" by (simp add: w2_def)
        show "tables_ok w2 s" using world_okD(3) [OF ok1 l1(2)] files leases_ok_invalidate
          by (simp add: tables_ok_def w2_def sp1_def sp_def sw)
        show "vm_inv (vm_regions (space_of w2 s))" using vs(1) by (simp add: w2_def sp1_def sp_def sw)
        show "perm_at (vm_regions (space_of w2 s)) x =
            (if a \<le> x \<and> x < fin then Some (or_perm p (perm_at (vm_regions (space_of w1 s)) x)) else perm_at (vm_regions (space_of w1 s)) x)" for x
          using vs(2) by (simp add: w2_def sp1_def sp_def sw)
        show "same_view (fold (\<lambda>base. put_permission s (base div page_size) (\<lambda>flags. flags OR (mapped_page_flag OR p))) (page_bases a fin) w2)
            (add_page_permissions s a fin p w2)" unfolding add_page_permissions_def by simp
        show "page_inv (add_page_permissions s a fin p w2)" "live (add_page_permissions s a fin p w2) = live w1"
          using confined_inv [OF c] e l1 by simp_all
      qed (use False r af in simp_all)
    qed
  qed
qed

lemma emplace_lease_world:
  assumes ok: "world_ok w" and s: "s \<in> set (live w)"
    and al: "b mod page_size = 0" "e mod page_size = 0" "e \<le> 2 ^ 32"
  shows "world_ok (set_space s ((space_of w s)\<lparr>mapping_leases :=
    om_emplace token \<lparr>ml_begin = b, ml_end = e\<rparr> (mapping_leases (space_of w s)), next_mapping_lease_token := nt\<rparr>) w)" (is "world_ok ?w")
proof -
  have "page_inv ?w"
    by (rule confined_page_inv [OF set_space_core_confined [OF world_okD(1) [OF ok]]]) (simp add: same_core_def)
  moreover have "index_of t ?w = index_of t w" for t
    by (simp add: index_of_def page_permission_def cong: option.case_cong)
  moreover have "chunks_ok ?w = chunks_ok w" by (auto simp: chunks_ok_def)
  moreover have "tables_ok ?w t" if "t \<in> set (live w)" for t
    using world_okD(3) [OF ok that] al om_emplace_subset [of token "\<lparr>ml_begin = b, ml_end = e\<rparr>" "mapping_leases (space_of w s)"]
    by (auto simp: tables_ok_def leases_ok_def)
  ultimately show ?thesis using world_okD(2) [OF ok] by (simp add: world_ok_def index_ok_def)
qed

lemma map_page_backings_world:
  assumes ok: "world_ok w" and s: "s \<in> set (live w)" and a: "a < 2 ^ 32" and held: "set bs \<subseteq> set (held w)"
    and r: "map_page_backings s a n p bs mode lease w = Some (got, token, w')"
  shows "world_ok w' \<and> live w' = live w"
proof -
  note f = map_page_backings_inv [OF world_okD(1) [OF ok] s held r]
  define fin where "fin = page_range_end a n"
  define w0 where "w0 = set_space s (invalidate_mapping_leases a fin (space_of w s)) w"
  have ok0: "world_ok w0" unfolding w0_def by (rule invalidate_world [OF ok])
  have l0: "live w0 = live w" "s \<in> set (live w0)" using s by (simp_all add: w0_def)
  have "world_ok w'" if ne: "w' \<noteq> w"
  proof -
    obtain w2 w5 where w2: "same_view w0 w2" "live w2 = live w"
      and alt: "w' = w2 \<or> confined s w w5 \<and> n \<noteq> 0 \<and> a mod page_size = 0 \<and> \<not> range_overflows a n \<and> maps_backings s a fin p w2 w5 w'"
      using f(3) [OF ne] unfolding w0_def fin_def by (elim exE conjE)
    show ?thesis
    proof (cases "w' = w2")
      case True
      then show ?thesis using world_ok_view [OF ok0, of w'] w2 l0 confined_page_inv [OF f(1)] by simp
    next
      case False
      then have c5: "confined s w w5" and g: "n \<noteq> 0" "a mod page_size = 0" "\<not> range_overflows a n"
        and mb: "maps_backings s a fin p w2 w5 w'" using alt by simp_all
      note r = page_range [OF g(1,3) a, folded fin_def]
      define w3 where "w3 = set_space s ((space_of w2 s)\<lparr>vm_regions := vm_map_or a fin p (vm_regions (space_of w2 s))\<rparr>) w2"
      have val: "valid_range a fin" using r(5) g(2) by (simp add: page_base_aligned)
      have regs: "vm_regions (space_of w2 s) = vm_regions (space_of w0 s)" using w2(1) by (simp add: same_view_def)
      note vs = vm_map_or_spec [OF region_regs [OF ok0 l0(2)] val, of p]
      have i2: "same_index s w0 w2" "same_tables s w0 w2" using w2 l0 by (simp_all add: view_index view_same_tables)
      have "world_ok w5"
      proof (rule world_ok_update [OF ok0 l0(2), where g = "\<lambda>x. Some (or_perm p x)" and first = a and fin = fin and h = "\<lambda>base. put_permission s (base div page_size) (\<lambda>flags. flags OR (mapped_page_flag OR p))", OF _ _ _ _ _ _ _ _ put_updates flags_or])
        show "same_index s w0 w3" unfolding w3_def by (rule same_index_trans [OF i2(1) set_space_index]) simp
        show "same_tables s w0 w3" unfolding w3_def by (rule same_tables_trans [OF i2(2) set_space_tables])
        show "tables_ok w3 s" using world_okD(3) [OF ok0 l0(2)] w2(1) by (simp add: tables_ok_def w3_def same_view_def)
        show "vm_inv (vm_regions (space_of w3 s))" using vs(1) by (simp add: w3_def regs)
        show "perm_at (vm_regions (space_of w3 s)) x =
            (if a \<le> x \<and> x < fin then Some (or_perm p (perm_at (vm_regions (space_of w0 s)) x)) else perm_at (vm_regions (space_of w0 s)) x)" for x
          using vs(2) by (simp add: w3_def regs)
        show "same_view (fold (\<lambda>base. put_permission s (base div page_size) (\<lambda>flags. flags OR (mapped_page_flag OR p))) (page_bases a fin) w3) w5"
          using mb unfolding maps_backings_def add_page_permissions_def w3_def by blast
        show "page_inv w5" "live w5 = live w0" using confined_inv [OF c5] l0 by simp_all
      qed (use g r in simp_all)
      moreover have "s \<in> set (live w5)" using confined_inv(2) [OF c5] s by simp
      ultimately show ?thesis
        using mb emplace_lease_world [OF _ _ g(2) r(2,4)] unfolding maps_backings_def by blast
    qed
  qed
  then show ?thesis using ok confined_inv(2) [OF f(1)] by auto
qed

end
