(* ===== verification/Address_Space_Histories.thy ===== *)
theory Address_Space_Histories
  imports Address_Space_Worlds
begin

text \<open>
  Histories of a set of guest address spaces: any sequence of the operations of the class on any
  of the live spaces, interleaved in any order, starting from no space at all. The invariant of
  the world holds after each, so the properties below are about every reachable world.
\<close>

section \<open>The operations that keep the tables\<close>

definition keeps_tables :: "memory_world \<Rightarrow> memory_world \<Rightarrow> bool" where
  "keeps_tables w w' \<longleftrightarrow> page_inv w' \<and> same_view w w' \<and> live w' = live w"

lemma keeps_world: "world_ok w \<Longrightarrow> keeps_tables w w' \<Longrightarrow> world_ok w'"
  unfolding keeps_tables_def by (blast intro: world_ok_view)

lemma keeps_tables_refl: "page_inv w \<Longrightarrow> keeps_tables w w"
  by (simp add: keeps_tables_def)

lemma keeps_tables_trans: "keeps_tables a b \<Longrightarrow> keeps_tables b c \<Longrightarrow> keeps_tables a c"
  unfolding keeps_tables_def using same_view_trans by metis

lemma keeps_same: "page_inv w \<Longrightarrow> same_pages w w' \<Longrightarrow> same_view w w' \<Longrightarrow> keeps_tables w w'"
  unfolding keeps_tables_def using same_pages_inv by (auto simp: same_pages_def)

lemma wrote_keeps: "wrote s R w w' \<Longrightarrow> keeps_tables w w'"
  unfolding keeps_tables_def using wrote_inv by blast

lemma faulted_keeps: "faulted s w w' \<Longrightarrow> keeps_tables w w'"
  unfolding keeps_tables_def using faulted_inv by blast

lemma store_keeps: "page_inv w \<Longrightarrow> store_sim (store w) st \<Longrightarrow> keeps_tables w (w\<lparr>store := st\<rparr>)"
  unfolding keeps_tables_def using store_inv by (auto simp: same_view_def)

text \<open>A change of the fields of a space that no part of the invariant reads.\<close>

lemma set_space_view:
  "vm_regions sp = vm_regions (space_of w s) \<Longrightarrow> page_permissions sp = page_permissions (space_of w s) \<Longrightarrow>
   file_mappings sp = file_mappings (space_of w s) \<Longrightarrow> mapping_leases sp = mapping_leases (space_of w s) \<Longrightarrow>
   same_view w (set_space s sp w)"
  by (simp add: same_view_def)

lemma clear_jit_simps [simp]:
  "same_core sp (clear_jit_page_table sp)" "vm_regions (clear_jit_page_table sp) = vm_regions sp"
  "page_permissions (clear_jit_page_table sp) = page_permissions sp" "file_mappings (clear_jit_page_table sp) = file_mappings sp"
  "mapping_leases (clear_jit_page_table sp) = mapping_leases sp"
  by (simp_all add: clear_jit_page_table_def same_core_def)

definition quiet :: "memory_world \<Rightarrow> memory_world \<Rightarrow> bool" where
  "quiet w w' \<longleftrightarrow> same_pages w w' \<and> same_view w w'"

lemma quiet_refl [simp]: "quiet w w" by (simp add: quiet_def)

lemma quiet_trans: "quiet a b \<Longrightarrow> quiet b c \<Longrightarrow> quiet a c"
  unfolding quiet_def by (blast intro: same_pages_trans same_view_trans)

lemma quiet_fold: "(\<And>x w. quiet w (f x w)) \<Longrightarrow> quiet w (fold f xs w)"
  by (induction xs arbitrary: w) (auto intro: quiet_trans)

lemma quiet_space:
  "same_core (space_of w s) sp \<Longrightarrow> vm_regions sp = vm_regions (space_of w s) \<Longrightarrow>
   page_permissions sp = page_permissions (space_of w s) \<Longrightarrow> file_mappings sp = file_mappings (space_of w s) \<Longrightarrow>
   mapping_leases sp = mapping_leases (space_of w s) \<Longrightarrow> quiet w (set_space s sp w)"
  by (simp add: quiet_def same_pages_space set_space_view)

lemma quiet_refresh [simp]: "quiet w (refresh_jit_page s a w)" "quiet w (refresh_jit_page_range s a fin w)"
  by (simp_all add: quiet_def)

lemma quiet_keeps: "page_inv w \<Longrightarrow> quiet w w' \<Longrightarrow> keeps_tables w w'"
  unfolding quiet_def by (blast intro: keeps_same)

lemma set_parallel_quiet: "quiet w (set_parallel_access s b w)"
proof -
  define sp where "sp = (space_of w s)\<lparr>parallel_access := b, jit_page_table_enabled := \<not> b\<rparr>"
  define w1 where "w1 = set_space s sp w"
  have q: "quiet w w1" unfolding w1_def by (rule quiet_space) (simp_all add: sp_def same_core_def)
  have "quiet w (fold (\<lambda>e. refresh_jit_page s (fst e)) es w1)" for es :: "(nat \<times> page) list"
    by (rule quiet_trans [OF q quiet_fold]) simp
  moreover have "quiet w (set_space s (clear_jit_page_table sp) w1)"
    unfolding w1_def set_space_twice by (rule quiet_space) (simp_all add: same_core_def clear_jit_page_table_def sp_def)
  ultimately show ?thesis
    using q unfolding set_parallel_access_def Let_def sp_def [symmetric] w1_def [symmetric] by simp
qed

lemma ensure_tables_quiet: "quiet w (ensure_jit_page_tables s w)"
  unfolding ensure_jit_page_tables_def Let_def
  by (auto intro!: quiet_trans [OF quiet_space quiet_fold] simp: same_core_def)

lemma jit_tables_quiet:
  "quiet w (snd (jit_read_page_table s w))" "quiet w (snd (jit_write_page_table s w))"
  "quiet w (disable_jit_page_table s w)" "quiet w (disable_jit_write_page_table s w)"
  by (simp_all add: jit_read_page_table_def jit_write_page_table_def ensure_tables_quiet disable_jit_page_table_def
      disable_jit_write_page_table_def Let_def quiet_space same_core_def clear_jit_page_table_def)

lemma track_exclusive_quiet: "quiet w (track_exclusive_access s a n w)"
  unfolding track_exclusive_access_def
  by (auto intro!: quiet_fold intro: quiet_trans [OF quiet_space quiet_refresh(1)] simp: same_core_def)

lemma invalidate_jit_view [simp]: "same_view w (invalidate_shared_write_jit_pages s w)"
  by (simp add: invalidate_shared_write_jit_pages_def Let_def same_view_def split: option.splits)

lemma synchronize_quiet: "quiet w (synchronize_shared_write_tracking s w)"
proof -
  have "quiet w (invalidate_shared_write_jit_pages s w)" by (simp add: quiet_def)
  then show ?thesis
    unfolding synchronize_shared_write_tracking_def Let_def
    by (auto intro!: quiet_trans [OF _ quiet_space] simp: same_core_def)
qed

lemma observer_quiet: "quiet w (set_exclusive_write_observer s b w)" "quiet w (mark_translation_profile_stable s a n w)"
  by (simp_all add: set_exclusive_write_observer_def mark_translation_profile_stable_def Let_def quiet_space same_core_def)

lemma track_generation_keeps:
  assumes inv: "page_inv w"
  shows "keeps_tables w (snd (track_write_generation s a n w))"
proof -
  define f where "f = (\<lambda>base ((transitions :: nat), any_shared, w).
                  case find_page s base w of
                    None \<Rightarrow> (transitions, any_shared, w)
                  | Some pg \<Rightarrow>
                      (case pg_backing pg of
                         None \<Rightarrow> (transitions, any_shared, w)
                       | Some b \<Rightarrow>
                           if \<not> shared_writable pg then (transitions, any_shared, w)
                           else let (changed, st) = enable_shared_write_tracking b (store w)
                             in (if changed then transitions + 1 else transitions, True, w\<lparr>store := st\<rparr>)))"
  have step: "keeps_tables v (snd (snd (f base (t, any, v))))" if "page_inv v" for base t any v
    using that keeps_tables_refl store_keeps [OF that enable_tracking_store(1)]
    by (auto simp: f_def Let_def case_prod_beta split: option.splits)
  have all: "keeps_tables v (snd (snd (fold f bs (t, any, v))))" if "page_inv v" for bs t any v
    using that
  proof (induction bs arbitrary: t any v)
    case Nil
    then show ?case by (simp add: keeps_tables_refl)
  next
    case (Cons b bs)
    obtain t' any' v' where e: "f b (t, any, v) = (t', any', v')" by (metis prod_cases3)
    have "keeps_tables v v'" using step [OF Cons.prems, of b t any] by (simp add: e)
    moreover have "page_inv v'" using calculation by (simp add: keeps_tables_def)
    ultimately show ?case using Cons.IH [of v' t' any'] keeps_tables_trans by (simp add: e)
  qed
  show ?thesis
  proof (cases "n = 0 \<or> range_overflows a n \<or> \<not> range_accessible s a n perm_none w")
    case True
    then show ?thesis using keeps_tables_refl [OF inv] by (auto simp: track_write_generation_def)
  next
    case False
    define m where "m = merge_tracked 0 \<lparr>tr_begin = a, tr_end = a + n\<rparr> (tracked_write_ranges (space_of w s))"
    define w1 where "w1 = set_space s ((space_of w s)\<lparr>tracked_write_ranges := sort_key tr_begin (snd m @ [fst m])\<rparr>) w"
    define fin where "fin = page_range_end a n"
    obtain t any w2 where q: "fold f (page_bases (page_base a) fin) (0, False, w1) = (t, any, w2)" by (metis prod_cases3)
    define w3 where "w3 = (if any then finish_shared_write_tracking s (tracking_epoch (store w1)) t True w2 else w2)"
    have eq: "snd (track_write_generation s a n w) = refresh_jit_page_range s (page_base a) fin w3"
      using False unfolding track_write_generation_def Let_def case_prod_beta m_def [symmetric] w1_def [symmetric]
        fin_def [symmetric] f_def [symmetric, unfolded Let_def case_prod_beta] by (simp add: q w3_def)
    have k1: "keeps_tables w w1" unfolding w1_def by (rule quiet_keeps [OF inv quiet_space]) (simp_all add: same_core_def)
    then have i1: "page_inv w1" by (simp add: keeps_tables_def)
    have k2: "keeps_tables w1 w2" using all [OF i1, of "page_bases (page_base a) fin" 0 False] by (simp add: q)
    then have i2: "page_inv w2" by (simp add: keeps_tables_def)
    have k3: "keeps_tables w2 w3" unfolding w3_def using keeps_tables_refl [OF i2] keeps_same [OF i2 finish_same finish_view] by simp
    then have i3: "page_inv w3" by (simp add: keeps_tables_def)
    have "keeps_tables w3 (refresh_jit_page_range s (page_base a) fin w3)" by (rule quiet_keeps [OF i3]) simp
    then show ?thesis unfolding eq using keeps_tables_trans k1 k2 k3 by blast
  qed
qed

section \<open>Histories\<close>

text \<open>What the host's files hold when a page is read may differ from one operation to the next, so
  each operation that may read one carries its \<open>pread\<close>. Integers are 1, 2, 4 or 8 bytes wide, the
  types the templates of the class are used at.\<close>

datatype width = W8 | W16 | W32 | W64

primrec width_bytes :: "width \<Rightarrow> nat" where
  "width_bytes W8 = 1"
| "width_bytes W16 = 2"
| "width_bytes W32 = 4"
| "width_bytes W64 = 8"

datatype memory_op =
    New_Space
  | Destroy_Space nat
  | Fork nat
  | Map_Range nat u32 nat perm
  | Unmap_Range nat u32 nat
  | Protect_Range nat u32 nat perm
  | Clear_Space nat
  | Map_File file_probe nat u32 nat perm string nat
  | Share_Pages pread nat u32 nat
  | Map_Pages nat u32 nat perm "nat list" page_mapping_mode bool
  | Unmap_Lease nat u64
  | Release_Page nat
  | Read_Integer pread nat u32 width perm
  | Read_Bytes pread nat u32 nat
  | Write_Integer pread nat u32 width u64
  | Exchange pread nat u32 width u64
  | Compare_Exchange pread nat u32 width u64 u64
  | Copy_In pread nat u32 "u8 list"
  | Set_Parallel nat bool
  | Read_Table nat
  | Write_Table nat
  | Disable_Tables nat
  | Disable_Write_Table nat
  | Track_Exclusive nat u32 nat
  | Synchronize_Tracking nat
  | Set_Observer nat bool
  | Mark_Stable nat u32 nat
  | Track_Writes nat u32 nat

definition on_space :: "nat \<Rightarrow> (memory_world \<Rightarrow> memory_world) \<Rightarrow> memory_world \<Rightarrow> memory_world" where
  "on_space s f w = (if s \<in> set (live w) then f w else w)"

definition returned :: "memory_world \<Rightarrow> ('a \<times> memory_world) option \<Rightarrow> memory_world" where
  "returned w r = (case r of None \<Rightarrow> w | Some (_, w') \<Rightarrow> w')"

fun memory_step :: "memory_world \<Rightarrow> memory_op \<Rightarrow> memory_world" where
  "memory_step w New_Space = snd (new_space w)"
| "memory_step w (Destroy_Space s) = on_space s (destroy_space s) w"
| "memory_step w (Fork s) = on_space s (\<lambda>w. snd (clone s w)) w"
| "memory_step w (Map_Range s a n p) = on_space s (\<lambda>w. snd (as_map s (unat a) n p w)) w"
| "memory_step w (Unmap_Range s a n) = on_space s (\<lambda>w. snd (as_unmap s (unat a) n w)) w"
| "memory_step w (Protect_Range s a n p) = on_space s (\<lambda>w. snd (as_protect s (unat a) n p w)) w"
| "memory_step w (Clear_Space s) = on_space s (as_clear s) w"
| "memory_step w (Map_File probe s a n p path off) = on_space s (\<lambda>w. snd (map_file probe s (unat a) n p path off w)) w"
| "memory_step w (Share_Pages pread s a n) = on_space s (\<lambda>w. snd (share_pages pread s (unat a) n w)) w"
| "memory_step w (Map_Pages s a n p bs mode lease) =
     (if set bs \<subseteq> set (held w)
      then on_space s (\<lambda>w. case map_page_backings s (unat a) n p bs mode lease w of None \<Rightarrow> w | Some (_, _, w') \<Rightarrow> w') w else w)"
| "memory_step w (Unmap_Lease s token) = on_space s (\<lambda>w. snd (unmap_mapping_lease s token w)) w"
| "memory_step w (Release_Page b) = w\<lparr>held := remove1 b (held w)\<rparr>"
| "memory_step w (Read_Integer pread s a k p) =
     on_space s (\<lambda>w. returned w (read_integer pread s (unat a) (width_bytes k) p w)) w"
| "memory_step w (Read_Bytes pread s a n) = on_space s (\<lambda>w. returned w (read_bytes pread s (unat a) n w)) w"
| "memory_step w (Write_Integer pread s a k v) = on_space s (\<lambda>w. snd (write_integer pread s (unat a) (width_bytes k) v w)) w"
| "memory_step w (Exchange pread s a k v) = on_space s (\<lambda>w. snd (exchange_integer pread s (unat a) (width_bytes k) v w)) w"
| "memory_step w (Compare_Exchange pread s a k e v) =
     on_space s (\<lambda>w. snd (compare_exchange_integer pread s (unat a) (width_bytes k) e v w)) w"
| "memory_step w (Copy_In pread s a data) = on_space s (\<lambda>w. snd (copy_in pread s (unat a) data w)) w"
| "memory_step w (Set_Parallel s b) = on_space s (set_parallel_access s b) w"
| "memory_step w (Read_Table s) = on_space s (\<lambda>w. snd (jit_read_page_table s w)) w"
| "memory_step w (Write_Table s) = on_space s (\<lambda>w. snd (jit_write_page_table s w)) w"
| "memory_step w (Disable_Tables s) = on_space s (disable_jit_page_table s) w"
| "memory_step w (Disable_Write_Table s) = on_space s (disable_jit_write_page_table s) w"
| "memory_step w (Track_Exclusive s a n) = on_space s (track_exclusive_access s (unat a) n) w"
| "memory_step w (Synchronize_Tracking s) = on_space s (synchronize_shared_write_tracking s) w"
| "memory_step w (Set_Observer s b) = on_space s (set_exclusive_write_observer s b) w"
| "memory_step w (Mark_Stable s a n) = on_space s (mark_translation_profile_stable s (unat a) n) w"
| "memory_step w (Track_Writes s a n) = on_space s (\<lambda>w. snd (track_write_generation s (unat a) n w)) w"

definition no_space :: guest_space where
  "no_space = fresh_space 0 0 0"

definition empty_world :: memory_world where
  "empty_world = \<lparr>live = [], space_of = (\<lambda>_. no_space), next_space = 0, page_map_of = (\<lambda>_. []), next_page_map = 0,
     chunk_of = (\<lambda>_ _. 0), next_chunk = 0, cache_of = (\<lambda>_. empty_cache 0), next_cache = 0, store = empty_store,
     held = [], disk_writes = [], notifications = 0\<rparr>"

definition memory_run :: "memory_op list \<Rightarrow> memory_world" where
  "memory_run ops = foldl memory_step empty_world ops"

lemma empty_world_ok: "world_ok empty_world"
  by (simp add: world_ok_def empty_world_def page_inv_def refs_ok_def private_ok_def maps_def refers_def store_ok_def
      empty_store_def index_ok_def chunks_ok_def)

lemma width_page: "width_bytes k \<noteq> 0" "width_bytes k \<le> page_size"
  by (cases k; simp add: page_size_def)+

lemma on_space_ok: "world_ok w \<Longrightarrow> (s \<in> set (live w) \<Longrightarrow> world_ok (f w)) \<Longrightarrow> world_ok (on_space s f w)"
  by (simp add: on_space_def)

lemma share_pages_world:
  "world_ok w \<Longrightarrow> s \<in> set (live w) \<Longrightarrow> world_ok (snd (share_pages pread s a n w))"
  using share_pages_inv [OF world_okD(1)] by (blast intro: world_ok_view)

lemma release_world: "world_ok w \<Longrightarrow> world_ok (w\<lparr>held := remove1 b (held w)\<rparr>)"
  by (rule world_ok_view) (simp_all add: release_held_inv world_okD(1) same_view_def)

lemma reads_world:
  assumes ok: "world_ok w" and s: "s \<in> set (live w)"
  shows "world_ok (returned w (read_integer pread s a (width_bytes k) p w))" "world_ok (returned w (read_bytes pread s a n w))"
proof -
  note i = world_okD(1) [OF ok] and f = world_okD(4) [OF ok s]
  have "v = w \<or> faulted s w v \<Longrightarrow> world_ok v" for v using ok keeps_world [OF ok faulted_keeps] by blast
  then show "world_ok (returned w (read_integer pread s a (width_bytes k) p w))" "world_ok (returned w (read_bytes pread s a n w))"
    using read_integer_returns [OF i s f width_page, of pread a k p] read_bytes_returns [OF i s f, of pread a n]
    by (auto simp: returned_def)
qed

lemma writes_world:
  assumes ok: "world_ok w" and s: "s \<in> set (live w)"
  shows "world_ok (snd (write_integer pread s a (width_bytes k) v w))" "world_ok (snd (exchange_integer pread s a (width_bytes k) v w))"
    "world_ok (snd (compare_exchange_integer pread s a (width_bytes k) e v w))" "world_ok (snd (copy_in pread s a data w))"
proof -
  note i = world_okD(1) [OF ok]
  have kw: "w' = w \<or> wrote s R w w' \<Longrightarrow> world_ok w'" for w' R using ok keeps_world [OF ok wrote_keeps] by blast
  show "world_ok (snd (write_integer pread s a (width_bytes k) v w))"
  proof (cases "range_accessible s a (width_bytes k) perm_write w")
    case True
    then have "write_integer pread s a (width_bytes k) v w = (True, snd (write_integer pread s a (width_bytes k) v w))"
      by (simp add: write_integer_def)
    from kw [OF disjI2 [OF write_integer_wrote(1) [OF i s width_page(2) this]]] show ?thesis .
  qed (simp add: write_integer_def ok)
  show "world_ok (snd (exchange_integer pread s a (width_bytes k) v w))"
    "world_ok (snd (compare_exchange_integer pread s a (width_bytes k) e v w))"
    by (rule kw [OF exchange_wrote(1) [OF i s width_page(2)]], rule kw [OF exchange_wrote(2) [OF i s width_page(2)]])
  show "world_ok (snd (copy_in pread s a data w))"
  proof (cases "fst (copy_in pread s a data w) \<and> data \<noteq> []")
    case True
    then have "copy_in pread s a data w = (True, snd (copy_in pread s a data w))" by (metis prod.collapse)
    from kw [OF disjI2 [OF copy_in_wrote [OF i s this]]] True show ?thesis by blast
  next
    case False
    moreover have "fst (copy_in pread s a data w) \<and> data \<noteq> [] \<or> snd (copy_in pread s a data w) = w"
      by (simp add: copy_in_def)
    ultimately have "snd (copy_in pread s a data w) = w" by blast
    then show ?thesis using ok by simp
  qed
qed

lemma quiet_world: "world_ok w \<Longrightarrow> quiet w w' \<Longrightarrow> world_ok w'"
  using keeps_world quiet_keeps world_okD(1) by blast

lemma unat_address: "unat (a :: u32) < 2 ^ 32"
  by (rule unat_u32)

lemma map_pages_world:
  assumes ok: "world_ok w" and s: "s \<in> set (live w)" and h: "set bs \<subseteq> set (held w)" and a: "a < 2 ^ 32"
  shows "world_ok (case map_page_backings s a n p bs mode lease w of None \<Rightarrow> w | Some (_, _, w') \<Rightarrow> w')"
  using map_page_backings_world [OF ok s a h] ok by (auto split: option.splits)

lemma step_world: "world_ok w \<Longrightarrow> world_ok (memory_step w e)"
  by (cases e) (simp_all add: on_space_ok new_space_world destroy_space_world clone_world as_map_world as_unmap_world
      as_protect_world as_clear_world map_file_world share_pages_world map_pages_world unmap_lease_world release_world
      reads_world writes_world unat_address [simplified] quiet_world [OF _ set_parallel_quiet] quiet_world [OF _ jit_tables_quiet(1)]
      quiet_world [OF _ jit_tables_quiet(2)] quiet_world [OF _ jit_tables_quiet(3)] quiet_world [OF _ jit_tables_quiet(4)]
      quiet_world [OF _ track_exclusive_quiet] quiet_world [OF _ synchronize_quiet] quiet_world [OF _ observer_quiet(1)]
      quiet_world [OF _ observer_quiet(2)] keeps_world [OF _ track_generation_keeps [OF world_okD(1)]])

interpretation memory: machine empty_world memory_step world_ok
  by unfold_locales (rule empty_world_ok, rule step_world)

lemma run_world: "world_ok (memory_run ops)"
  unfolding memory_run_def by (rule memory.run_inv)

end
