(* ===== verification/Address_Space_Properties.thy ===== *)
theory Address_Space_Properties
  imports Address_Space_Histories
begin

text \<open>
  What guest programs may rely on: stores into private memory are seen by nobody else, a value
  read back is the value stored, a fork copies what is read, reads always return, and the access
  check by the permission index is the check by the interval map.
\<close>

section \<open>Stores\<close>

text \<open>The space, the first address and the number of bytes of a store.\<close>

fun store_range :: "memory_op \<Rightarrow> (nat \<times> nat \<times> nat) option" where
  "store_range (Write_Integer pread s a k v) = Some (s, unat a, width_bytes k)"
| "store_range (Exchange pread s a k v) = Some (s, unat a, width_bytes k)"
| "store_range (Compare_Exchange pread s a k e v) = Some (s, unat a, width_bytes k)"
| "store_range (Copy_In pread s a data) = Some (s, unat a, length data)"
| "store_range _ = None"

lemma write_integer_stores:
  assumes inv: "page_inv w" and s: "s \<in> set (live w)" and n: "n \<le> page_size"
  shows "snd (write_integer pread s a n v w) = w \<or> wrote s {a..<a + n} w (snd (write_integer pread s a n v w))"
proof (cases "range_accessible s a n perm_write w")
  case True
  then have "write_integer pread s a n v w = (True, snd (write_integer pread s a n v w))" by (simp add: write_integer_def)
  from write_integer_wrote(1) [OF inv s n this] show ?thesis by (rule disjI2)
qed (simp add: write_integer_def)

lemma copy_in_stores:
  assumes inv: "page_inv w" and s: "s \<in> set (live w)"
  shows "snd (copy_in pread s a data w) = w \<or> wrote s {a..<a + length data} w (snd (copy_in pread s a data w))"
proof (cases "fst (copy_in pread s a data w) \<and> data \<noteq> []")
  case True
  then have "copy_in pread s a data w = (True, snd (copy_in pread s a data w))" by (metis prod.collapse)
  from copy_in_wrote [OF inv s this] True show ?thesis by blast
next
  case False
  moreover have "fst (copy_in pread s a data w) \<and> data \<noteq> [] \<or> snd (copy_in pread s a data w) = w" by (simp add: copy_in_def)
  ultimately show ?thesis by blast
qed

lemma step_stores:
  assumes ok: "world_ok w" and r: "store_range e = Some (s, a, n)"
  shows "memory_step w e = w \<or> wrote s {a..<a + n} w (memory_step w e)"
proof (cases "s \<in> set (live w)")
  case True
  note i = world_okD(1) [OF ok]
  show ?thesis
  proof (cases e)
    case (Write_Integer pread s' a' k v)
    then have eq: "s' = s" "unat a' = a" "width_bytes k = n" and "memory_step w e = snd (write_integer pread s a n v w)"
      using r True by (auto simp: on_space_def)
    then show ?thesis using write_integer_stores [OF i True, of n pread a v] width_page(2) [of k] by simp
  next
    case (Exchange pread s' a' k v)
    then have eq: "s' = s" "unat a' = a" "width_bytes k = n" and "memory_step w e = snd (exchange_integer pread s a n v w)"
      using r True by (auto simp: on_space_def)
    then show ?thesis using exchange_wrote(1) [OF i True, of n pread a v] width_page(2) [of k] by simp
  next
    case (Compare_Exchange pread s' a' k x v)
    then have eq: "s' = s" "unat a' = a" "width_bytes k = n" and "memory_step w e = snd (compare_exchange_integer pread s a n x v w)"
      using r True by (auto simp: on_space_def)
    then show ?thesis using exchange_wrote(2) [OF i True, of n pread a x v] width_page(2) [of k] by simp
  next
    case (Copy_In pread s' a' data)
    then have eq: "s' = s" "unat a' = a" "length data = n" and "memory_step w e = snd (copy_in pread s a data w)"
      using r True by (auto simp: on_space_def)
    then show ?thesis using copy_in_stores [OF i True, of pread a data] by simp
  qed (use r in simp_all)
next
  case False
  then show ?thesis using r by (cases e) (auto simp: on_space_def)
qed

text \<open>
  C16: isolation. In every reachable world, a store by a space (an integer write, an exchange, a
  compare-and-exchange or a block copy) whose range touches no page it shares for writing leaves
  every byte of every other space as it was, forked relatives with the same physical pages
  included, and every byte of its own outside the range that is present or of no file.
\<close>

theorem private_store_isolated:
  assumes "store_range e = Some (s, a, n)" "\<forall>x\<in>{a..<a + n}. \<not> shared_at s x (memory_run ops)"
    and "t \<in> set (live (memory_run ops))" "t \<noteq> s \<or> x \<notin> {a..<a + n} \<and> settled s x (memory_run ops)"
  shows "read_byte t x (memory_run (ops @ [e])) = read_byte t x (memory_run ops)"
proof -
  have "memory_run (ops @ [e]) = memory_step (memory_run ops) e" by (simp add: memory_run_def)
  then show ?thesis using step_stores [OF run_world assms(1), of ops] assms(2-4) by (auto simp: wrote_def)
qed

section \<open>A value read back\<close>

lemma join_split_step:
  "fold (\<lambda>(i, b) v. v OR push_bit (8 * i) (ucast (b :: u8))) (enumerate 0 (split_bytes n v)) 0 = take_bit (8 * n) (v :: u64)"
proof (induction n)
  case 0
  then show ?case by (simp add: split_bytes_def)
next
  case (Suc n)
  have "split_bytes (Suc n) v = split_bytes n v @ [ucast (drop_bit (8 * n) v)]" by (simp add: split_bytes_def)
  moreover have "take_bit (8 * n) v OR push_bit (8 * n) (ucast (ucast (drop_bit (8 * n) v) :: u8)) = take_bit (8 * Suc n) v"
    by (rule bit_eqI) (auto simp: bit_simps)
  ultimately show ?case using Suc by (simp add: enumerate_append_eq)
qed

lemma join_split: "join_bytes (split_bytes n v) = take_bit (8 * n) v"
  unfolding join_bytes_def by (rule join_split_step)

lemma read_back_bytes:
  assumes inv: "page_inv w" and s: "s \<in> set (live w)" and ok: "files_ok (file_mappings (space_of w s))"
    and n: "n \<noteq> 0" "n \<le> page_size" and acc: "range_accessible s a n p w"
    and res: "\<And>i. i < n \<Longrightarrow> resident s (a + i) w \<noteq> None \<and> read_byte s (a + i) w = split_bytes n v ! i"
  shows "\<exists>w'. read_integer pread s a n p w = Some (Some (take_bit (8 * n) v), w')"
proof -
  obtain r u where u: "read_integer pread s a n p w = Some (r, u)" "u = w \<or> faulted s w u"
    "r = Some (join_bytes (map (\<lambda>i. read_byte s (a + i) u) [0..<n]))"
    using read_integer_returns [OF inv s ok n, of pread a p] acc by auto
  have "read_byte s (a + i) u = split_bytes n v ! i" if "i < n" for i
    using u(2) res [OF that] s by (auto simp: faulted_def)
  then have "map (\<lambda>i. read_byte s (a + i) u) [0..<n] = split_bytes n v"
    by (intro nth_equalityI) simp_all
  then show ?thesis using u(1,3) join_split by simp
qed

text \<open>
  C17: round trip. In every reachable world, after a write of 1, 2, 4 or 8 bytes that is allowed
  (at any address, across a page boundary as well, into a private, forked, file-backed or shared
  page), a read of as many bytes at that address, if reading is allowed there, gives the value
  written, cut to its width. What the host's files hold by then does not matter.
\<close>

theorem write_read_roundtrip:
  assumes "s \<in> set (live (memory_run ops))"
    and "write_integer pread s (unat (a :: u32)) (width_bytes k) v (memory_run ops) = (True, w')"
    and "range_accessible s (unat a) (width_bytes k) p (memory_run ops)"
  shows "\<exists>w''. read_integer pread' s (unat a) (width_bytes k) p w' = Some (Some (take_bit (8 * width_bytes k) v), w'')"
proof -
  note ok = run_world [of ops]
  note wr = write_integer_wrote [OF world_okD(1) [OF ok] assms(1) width_page(2) assms(2)]
  have ok': "world_ok w'" using keeps_world [OF ok wrote_keeps [OF wr(1)]] .
  have live: "s \<in> set (live w')" using wrote_inv(3) [OF wr(1)] assms(1) by simp
  have acc: "range_accessible s (unat a) (width_bytes k) p w'"
    using assms(3) same_view_accessible [OF wrote_inv(4) [OF wr(1)]] by simp
  show ?thesis by (rule read_back_bytes [OF world_okD(1) [OF ok'] live world_okD(4) [OF ok' live] width_page acc wr(2)])
qed

section \<open>Fork\<close>

lemma marked_backing [simp]: "pg_backing (marked pg) = pg_backing pg"
  by (simp add: marked_def)

lemma clone_resident:
  assumes ok: "world_ok w" and s: "s \<in> set (live w)" and c: "clone s w = (child, w')"
  shows "t \<in> set (live w) \<Longrightarrow> resident t x w' = resident t x w" "resident child x w' = resident s x w"
proof -
  note f = clone_facts [OF world_okD(1) [OF ok] s c]
  have lk: "lookup_ok w t" if "t \<in> set (live w)" for t by (rule inv_lookup [OF world_okD(1) [OF ok] that])
  have lk': "lookup_ok w' t" if "t \<in> set (live w')" for t by (rule inv_lookup [OF f(1) that])
  have old: "resident t x w' = resident t x w" if t: "t \<in> set (live w)" for t
  proof -
    have "resident t x w' = Option.bind (entry w' (pages_ref (space_of w' t)) (page_base x)) pg_backing"
      by (rule resident_entry [OF lk']) (use t f(3) in simp)
    also have "\<dots> = Option.bind (entry w (pages_ref (space_of w t)) (page_base x)) pg_backing"
      unfolding f(4) [OF t, of "page_base x"] by (cases "entry w (pages_ref (space_of w t)) (page_base x)") auto
    also have "\<dots> = resident t x w" by (rule resident_entry [OF lk [OF t], symmetric])
    finally show ?thesis .
  qed
  then show "t \<in> set (live w) \<Longrightarrow> resident t x w' = resident t x w" .
  have "resident child x w' = Option.bind (entry w' (pages_ref (space_of w' child)) (page_base x)) pg_backing"
    by (rule resident_entry [OF lk']) (use f(3) in simp)
  also have "\<dots> = resident s x w'"
    unfolding f(5) by (rule resident_entry [OF lk', symmetric]) (use s f(3) in simp)
  finally show "resident child x w' = resident s x w" using old [OF s] by simp
qed

lemma clone_reads:
  assumes ok: "world_ok w" and s: "s \<in> set (live w)" and c: "clone s w = (child, w')"
  shows "t \<in> set (live w) \<Longrightarrow> read_byte t x w' = read_byte t x w" "read_byte child x w' = read_byte s x w"
  using clone_resident [OF ok s c] clone_facts(6) [OF world_okD(1) [OF ok] s c] by (simp_all add: read_byte_def cong: option.case_cong)

lemma copies_view_accessible:
  assumes "copies_view w s w' t" "chunk_of w' = chunk_of w"
  shows "range_accessible t a n p w' = range_accessible s a n p w"
  using assms by (simp add: range_accessible_def page_permission_def copies_view_def Let_def cong: option.case_cong)

lemma copies_view_mapping:
  assumes "copies_view w s w' t"
  shows "find_file_mapping t x w' = find_file_mapping s x w"
  using assms by (simp add: find_file_mapping_def copies_view_def)

text \<open>
  C18: fork. In every reachable world a fork gives a new live space that reads, byte for byte,
  what its parent read, with the same access rights everywhere and the same file mappings behind
  the pages not yet present; and no space that was there reads anything else than before.
\<close>

theorem fork_copies_memory:
  assumes "s \<in> set (live (memory_run ops))" "clone s (memory_run ops) = (child, w')"
  shows "live w' = child # live (memory_run ops) \<and> child \<notin> set (live (memory_run ops)) \<and>
    (\<forall>x. read_byte child x w' = read_byte s x (memory_run ops) \<and>
       find_file_mapping child x w' = find_file_mapping s x (memory_run ops)) \<and>
    (\<forall>a n p. range_accessible child a n p w' = range_accessible s a n p (memory_run ops)) \<and>
    (\<forall>t\<in>set (live (memory_run ops)). \<forall>x. read_byte t x w' = read_byte t x (memory_run ops))"
proof -
  note ok = run_world [of ops]
  have ns: "s \<noteq> next_space (memory_run ops)" using live_bound [OF ok assms(1)] by simp
  note v = clone_view [OF assms(2) ns] and f = clone_facts(2,3) [OF world_okD(1) [OF ok] assms]
  have "child \<notin> set (live (memory_run ops))" using f(1) live_bound [OF ok] by blast
  then show ?thesis
    using clone_reads [OF ok assms] copies_view_accessible [OF v(1,3)] copies_view_mapping [OF v(1)] f(2) by simp
qed

section \<open>Reads return\<close>

lemma c_string_resident:
  assumes more: "\<And>c r u. consumed < c \<Longrightarrow> page_inv u \<Longrightarrow> s \<in> set (live u) \<Longrightarrow> files_ok (file_mappings (space_of u s)) \<Longrightarrow>
      read_c_string_loop pread s a maximum c r u \<noteq> None"
    and w: "page_inv w" "s \<in> set (live w)" "files_ok (file_mappings (space_of w s))"
    and res: "resident s (a + consumed) w \<noteq> None"
  shows "read_c_string_loop pread s a maximum consumed result w \<noteq> None"
proof (cases "consumed < maximum \<and> \<not> range_overflows a (consumed + 1) \<and> range_accessible s (a + consumed) 1 perm_read w")
  case True
  obtain b where b: "resident s (a + consumed) w = Some b" using res by blast
  define chunk where "chunk = min (page_size - (a + consumed) mod page_size) (maximum - consumed)"
  have "consumed < consumed + chunk" using True by (simp add: chunk_def page_size_def)
  from more [OF this w] show ?thesis
    using True b by (subst read_c_string_loop.simps) (simp add: Let_def chunk_def)
next
  case False
  then show ?thesis by (subst read_c_string_loop.simps) auto
qed

lemma c_string_returns:
  assumes "page_inv w" "s \<in> set (live w)" "files_ok (file_mappings (space_of w s))"
  shows "read_c_string_loop pread s a maximum consumed result w \<noteq> None"
  using assms
proof (induction "maximum - consumed" arbitrary: consumed result w rule: less_induct)
  case less
  show ?case
  proof (cases "consumed < maximum \<and> \<not> range_overflows a (consumed + 1) \<and> range_accessible s (a + consumed) 1 perm_read w")
    case False
    then show ?thesis by (subst read_c_string_loop.simps) auto
  next
    case True
    note guard = True
    have more: "read_c_string_loop pread s a maximum c r u \<noteq> None"
      if "consumed < c" "page_inv u" "s \<in> set (live u)" "files_ok (file_mappings (space_of u s))" for c r u
    proof -
      have "maximum - c < maximum - consumed" using True that(1) by linarith
      then show ?thesis by (rule less.hyps [OF _ that(2-4)])
    qed
    show ?thesis
    proof (cases "resident s (a + consumed) w = None")
      case False
      then show ?thesis using c_string_resident [OF more less.prems] by blast
    next
      case None: True
      show ?thesis
      proof (cases "find_file_mapping s (a + consumed) w = None")
        case True
        then show ?thesis using None guard by (subst read_c_string_loop.simps) (simp add: Let_def)
      next
        case False
        obtain v where v: "fault_file_pages pread s (a + consumed) 1 w = (True, v)" "faulted s w v"
          "\<forall>b\<in>set (page_bases (page_base (a + consumed)) (page_range_end (a + consumed) 1)).
             find_file_mapping s b w \<noteq> None \<longrightarrow> resident s b v \<noteq> None"
          using fault_file_pages_facts [OF less.prems accessible_any, of "a + consumed" 1 perm_read pread] True by auto
        note V = faulted_inv [OF v(2)]
        have files: "files_ok (file_mappings (space_of v s))" using same_view_files [OF V(4)] less.prems(3) by simp
        have live: "s \<in> set (live v)" using V(3) less.prems(2) by simp
        have "find_file_mapping s (a + consumed) v = None \<or> resident s (a + consumed) v \<noteq> None"
          by (rule faulted_settles [OF less.prems(2,1) v(2) less.prems(3)]) (use v(3) page_bases_first [of 1 "a + consumed"] in auto)
        then have "resident s (a + consumed) v \<noteq> None" using False same_view_mapping [OF V(4)] by simp
        then have "read_c_string_loop pread s a maximum consumed result v \<noteq> None"
          using c_string_resident [OF more V(1) live files] by blast
        then show ?thesis using guard None False v(1) by (subst read_c_string_loop.simps) (simp add: Let_def)
      qed
    qed
  qed
qed

text \<open>
  C19: reads return. The loops that read guest memory start over after pages were brought in
  from a file; in every reachable world each of them ends, whatever the files hold: an integer
  or block read gives a value exactly when the range is readable, and the scan for the end of
  a string ends.
\<close>

theorem reads_terminate:
  assumes "s \<in> set (live (memory_run ops))"
  shows "(\<exists>r w'. read_integer pread s a (width_bytes k) p (memory_run ops) = Some (r, w') \<and>
      (r \<noteq> None \<longleftrightarrow> range_accessible s a (width_bytes k) p (memory_run ops))) \<and>
    (\<exists>r w'. copy_out pread s a n (memory_run ops) = Some (r, w') \<and>
      (r \<noteq> None \<longleftrightarrow> range_accessible s a n perm_read (memory_run ops))) \<and>
    (\<exists>r w'. read_c_string pread s a maximum (memory_run ops) = Some (r, w'))"
proof -
  note ok = run_world [of ops]
  note i = world_okD(1) [OF ok] and f = world_okD(4) [OF ok assms]
  have 1: "\<exists>r w'. read_integer pread s a (width_bytes k) p (memory_run ops) = Some (r, w') \<and>
      (r \<noteq> None \<longleftrightarrow> range_accessible s a (width_bytes k) p (memory_run ops))"
    using read_integer_returns [OF i assms f width_page, of pread a k p] by (auto split: if_splits)
  have 2: "\<exists>r w'. copy_out pread s a n (memory_run ops) = Some (r, w') \<and>
      (r \<noteq> None \<longleftrightarrow> range_accessible s a n perm_read (memory_run ops))"
    using read_bytes_returns [OF i assms f, of pread a n] by (auto simp: copy_out_def range_accessible_def split: if_splits)
  have 3: "\<exists>r w'. read_c_string pread s a maximum (memory_run ops) = Some (r, w')"
    using c_string_returns [OF i assms f, of pread a maximum 0 "[]"] by (auto simp: read_c_string_def)
  show ?thesis using 1 2 3 by blast
qed

section \<open>Access checks\<close>

lemma flags_check:
  assumes "access AND mapped_page_flag = 0"
  shows "(flags_of p AND mapped_page_flag \<noteq> 0 \<and> flags_of p AND access = access) \<longleftrightarrow>
    (\<exists>q. p = Some q \<and> has_permission q access)"
proof (cases p)
  case (Some q)
  have "(mapped_page_flag OR q) AND mapped_page_flag = mapped_page_flag" by (simp add: bit.conj_disj_distrib2)
  moreover have "(mapped_page_flag OR q) AND access = q AND access"
  proof -
    have "mapped_page_flag AND access = 0" using assms by (simp add: and.commute)
    then show ?thesis by (simp only: bit.conj_disj_distrib2 or.left_neutral)
  qed
  moreover have "mapped_page_flag \<noteq> 0" by (simp add: mapped_page_flag_def)
  ultimately show ?thesis using Some by (simp add: flags_of_def has_permission_def)
qed (simp add: flags_of_def)

lemma pages_of_range:
  assumes n: "n \<noteq> 0" and fits: "\<not> range_overflows a n" "a < 2 ^ 32"
  shows "(\<forall>b\<in>set (page_bases (page_base a) (page_range_end a n)). P (b div page_size)) \<longleftrightarrow>
    (\<forall>x. a \<le> x \<and> x < a + n \<longrightarrow> P (x div page_size))"
proof -
  note r = page_range [OF n fits]
  have "(\<lambda>b. b div page_size) ` set (page_bases (page_base a) (page_range_end a n)) =
      {a div page_size..<page_range_end a n div page_size}"
    using page_bases_indices(1) [OF r(1,2)] by simp
  also have "page_range_end a n div page_size = (a + (n - 1)) div page_size + 1"
    by (simp add: page_range_end_def page_base_alt)
  also have "{a div page_size..<(a + (n - 1)) div page_size + 1} = (\<lambda>x. x div page_size) ` {x. a \<le> x \<and> x < a + n}"
  proof (intro set_eqI iffI)
    fix j
    assume j: "j \<in> {a div page_size..<(a + (n - 1)) div page_size + 1}"
    have lo: "a div page_size \<le> j" and hi: "j \<le> (a + (n - 1)) div page_size" using j by auto
    define x where "x = max a (j * page_size)"
    have xd: "x div page_size = j"
    proof (cases "a \<le> j * page_size")
      case False
      then have "j \<le> a div page_size" by (metis div_le_mono linear nonzero_mult_div_cancel_right page_size_nz)
      then show ?thesis using False lo by (simp add: x_def)
    qed (simp add: x_def)
    have "j * page_size \<le> a + (n - 1)" using hi by (metis div_times_less_eq_dividend le_trans mult_le_mono1)
    then have "x < a + n" using n by (simp add: x_def)
    moreover have "a \<le> x" by (simp add: x_def)
    ultimately show "j \<in> (\<lambda>x. x div page_size) ` {x. a \<le> x \<and> x < a + n}"
      using xd by (intro image_eqI [where x = x]) simp_all
  next
    fix j
    assume "j \<in> (\<lambda>x. x div page_size) ` {x. a \<le> x \<and> x < a + n}"
    then obtain x where x: "a \<le> x" "x < a + n" "j = x div page_size" by blast
    then have "x \<le> a + (n - 1)" by simp
    then show "j \<in> {a div page_size..<(a + (n - 1)) div page_size + 1}" using x by (auto simp: div_le_mono less_Suc_eq_le)
  qed
  finally have eq: "(\<lambda>b. b div page_size) ` set (page_bases (page_base a) (page_range_end a n)) =
      (\<lambda>x. x div page_size) ` {x. a \<le> x \<and> x < a + n}" .
  have "(\<forall>b\<in>set (page_bases (page_base a) (page_range_end a n)). P (b div page_size)) \<longleftrightarrow>
      (\<forall>j\<in>(\<lambda>b. b div page_size) ` set (page_bases (page_base a) (page_range_end a n)). P j)" by simp
  also have "\<dots> \<longleftrightarrow> (\<forall>x. a \<le> x \<and> x < a + n \<longrightarrow> P (x div page_size))" unfolding eq by auto
  finally show ?thesis .
qed

lemma accessible_by_regions:
  assumes ok: "index_ok w" and s: "s \<in> set (live w)" and a: "a < 2 ^ 32" and acc: "access AND mapped_page_flag = 0"
  shows "range_accessible s a n access w \<longleftrightarrow> n = 0 \<or> accessible a (a + n) access (vm_regions (space_of w s))"
proof (cases "n = 0 \<or> range_overflows a n")
  case True
  then show ?thesis
    by (auto simp: range_accessible_def range_overflows_def accessible_def valid_range_def address_space_end_def u32_max_def
        split: if_splits)
next
  case False
  then have n: "n \<noteq> 0" "\<not> range_overflows a n" by simp_all
  define m where "m = vm_regions (space_of w s)"
  note ix = index_okD(2) [OF ok s]
  have fits: "a + n \<le> 2 ^ 32" using n a by (simp add: range_overflows_def u32_max_def)
  have "range_accessible s a n access w \<longleftrightarrow> (\<forall>b\<in>set (page_bases (page_base a) (page_range_end a n)).
      page_permission s (b div page_size) w AND mapped_page_flag \<noteq> 0 \<and> page_permission s (b div page_size) w AND access = access)"
    using n by (simp add: range_accessible_def Let_def list_all_iff)
  also have "\<dots> \<longleftrightarrow> (\<forall>x. a \<le> x \<and> x < a + n \<longrightarrow>
      page_permission s (x div page_size) w AND mapped_page_flag \<noteq> 0 \<and> page_permission s (x div page_size) w AND access = access)"
    by (rule pages_of_range [OF n a])
  also have "\<dots> \<longleftrightarrow> (\<forall>x. a \<le> x \<and> x < a + n \<longrightarrow>
      flags_of (perm_at m x) AND mapped_page_flag \<noteq> 0 \<and> flags_of (perm_at m x) AND access = access)"
    using index_ofD(2) [OF ix] fits unfolding m_def by (metis less_le_trans)
  also have "\<dots> \<longleftrightarrow> (\<forall>x. a \<le> x \<and> x < a + n \<longrightarrow> (\<exists>q. perm_at m x = Some q \<and> has_permission q access))"
    unfolding flags_check [OF acc] by (rule refl)
  also have "\<dots> \<longleftrightarrow> accessible a (a + n) access m"
    using accessible_spec [where m = m and start = a and fin = "a + n"] index_ofD(1) [OF ix] n fits
    by (simp add: m_def vm_inv_def valid_range_def address_space_end_def)
  finally show ?thesis using n by (simp add: m_def)
qed

text \<open>
  C20: the permission index is the interval map. In every reachable world the check of an access
  by the flags of the pages, which chunks of forked spaces share until one of them changes its
  own, gives the same answer as the check of every byte of the range by the regions of the
  space, for every address, size and kind of access.
\<close>

theorem permission_index_agrees:
  assumes "s \<in> set (live (memory_run ops))" "access AND mapped_page_flag = 0"
  shows "range_accessible s (unat (a :: u32)) n access (memory_run ops) \<longleftrightarrow>
    n = 0 \<or> accessible (unat a) (unat a + n) access (vm_regions (space_of (memory_run ops) s))"
  by (rule accessible_by_regions [OF world_okD(2) [OF run_world] assms(1) unat_address assms(2)])

section \<open>A concrete world\<close>

text \<open>A space with one page mapped for reading and writing, used in the examples.\<close>

definition example_ops :: "memory_op list" where
  "example_ops = [New_Space, Map_Range 0 0x1000 0x1000 3]"

lemma put_permission_regions: "vm_regions (space_of (put_permission s i f w) t) = vm_regions (space_of w t)"
  by (simp add: put_permission_def writable_page_permission_chunk_def Let_def case_prod_beta split: option.splits)

lemma add_permissions_regions: "vm_regions (space_of (add_page_permissions s a fin p w) t) = vm_regions (space_of w t)"
proof -
  have "vm_regions (space_of (fold (\<lambda>base. put_permission s (base div page_size) f) bs w) t) = vm_regions (space_of w t)" for f bs
    by (induction bs arbitrary: w) (simp_all add: put_permission_regions)
  then show ?thesis by (simp add: add_page_permissions_def)
qed

lemma as_map_regions:
  assumes "n \<noteq> 0" "\<not> range_overflows a n"
  shows "vm_regions (space_of (snd (as_map s a n p w)) s) = vm_map_or (page_base a) (page_range_end a n) p (vm_regions (space_of w s))"
proof -
  have "vm_regions (space_of (refresh_jit_page_range s b e v) t) = vm_regions (space_of v t)" for b e v t
    using refresh_range_view [of v s b e] by (simp add: same_view_def)
  then show ?thesis using assms by (simp add: as_map_def Let_def add_permissions_regions)
qed

lemma example_world:
  shows "live (memory_run example_ops) = [0]"
    "entry (memory_run example_ops) (pages_ref (space_of (memory_run example_ops) 0)) y = None"
    "0x1000 \<le> a \<Longrightarrow> a < e \<Longrightarrow> e \<le> 0x2000 \<Longrightarrow> has_permission 3 acc \<Longrightarrow>
       accessible a e acc (vm_regions (space_of (memory_run example_ops) 0))"
proof -
  define w1 where "w1 = snd (new_space empty_world)"
  have l1: "live w1 = [0]" "pages_ref (space_of w1 0) = 0" "page_map_of w1 0 = []" "vm_regions (space_of w1 0) = []"
    by (simp_all add: w1_def new_space_def empty_world_def Let_def fresh_space_def)
  have run: "memory_run example_ops = snd (as_map 0 0x1000 0x1000 3 w1)"
    by (simp add: memory_run_def example_ops_def w1_def on_space_def l1 [unfolded w1_def])
  have same: "same_pages w1 (memory_run example_ops)" unfolding run by (rule as_map_same)
  show l: "live (memory_run example_ops) = [0]" using same l1 by (simp add: same_pages_def)
  show "entry (memory_run example_ops) (pages_ref (space_of (memory_run example_ops) 0)) y = None"
    unfolding same_pages_entry [OF same] using same l1 by (simp add: same_pages_def same_core_def entry_def)
  have regs: "vm_regions (space_of (memory_run example_ops) 0) = vm_map_or 0x1000 0x2000 3 []"
    unfolding run by (subst as_map_regions)
      (simp_all add: range_overflows_def u32_max_def l1 page_base_def page_range_end_def page_size_def)
  have inv: "vm_inv []" by (simp add: vm_inv_def)
  have val: "valid_range 0x1000 0x2000" by (simp add: valid_range_def address_space_end_def)
  note spec = vm_map_or_spec [OF inv val, of 3]
  show "accessible a e acc (vm_regions (space_of (memory_run example_ops) 0))"
    if "0x1000 \<le> a" "a < e" "e \<le> 0x2000" "has_permission 3 acc"
    using that spec(1) unfolding regs
    by (subst accessible_spec) (auto simp: vm_inv_def spec(2) or_perm_def valid_range_def address_space_end_def)
qed

lemma example_accessible:
  assumes "0x1000 \<le> a" "a + n \<le> 0x2000" "has_permission 3 acc" "acc AND mapped_page_flag = 0"
  shows "range_accessible 0 a n acc (memory_run example_ops)"
proof -
  have "0 \<in> set (live (memory_run example_ops))" by (simp add: example_world(1))
  then show ?thesis
    using accessible_by_regions [OF world_okD(2) [OF run_world], of 0 example_ops a acc n] assms example_world(3) [of a "a + n" acc]
    by (cases "n = 0") auto
qed

lemma example_fork:
  shows "live (memory_run (example_ops @ [Fork 0])) = [1, 0]" "\<not> shared_at 0 x (memory_run (example_ops @ [Fork 0]))"
proof -
  define w where "w = memory_run example_ops"
  have l: "0 \<in> set (live w)" "live w = [0]" by (simp_all add: w_def example_world(1))
  have ok: "world_ok w" unfolding w_def by (rule run_world)
  obtain child w' where c: "clone 0 w = (child, w')" by force
  have run: "memory_run (example_ops @ [Fork 0]) = w'"
    using l(1) c by (simp add: memory_run_def w_def on_space_def)
  note f = clone_facts [OF world_okD(1) [OF ok] l(1) c]
  have "next_space w = 1"
    by (simp add: w_def memory_run_def example_ops_def on_space_def new_space_def empty_world_def Let_def)
       (use as_map_same in \<open>simp add: same_pages_def\<close>)
  then show "live (memory_run (example_ops @ [Fork 0])) = [1, 0]" using f(2,3) l(2) run by simp
  have "entry w' (pages_ref (space_of w' 0)) y = None" for y
    using f(4) [OF l(1)] example_world(2) by (simp add: w_def)
  moreover have "lookup_ok w' 0" by (rule inv_lookup [OF f(1)]) (use f(3) l in simp)
  ultimately show "\<not> shared_at 0 x (memory_run (example_ops @ [Fork 0]))" unfolding run by (simp add: shared_at_def find_page_entry)
qed

section \<open>Examples\<close>

theorem private_store_isolated_witness:
  "read_byte 1 0x1000 (memory_run ((example_ops @ [Fork 0]) @ [Write_Integer (\<lambda>_ _ _. []) 0 4096 W32 7])) =
   read_byte 1 0x1000 (memory_run (example_ops @ [Fork 0]))"
  by (rule private_store_isolated [where s = 0 and a = 4096 and n = 4]) (simp_all add: example_fork)

theorem write_read_roundtrip_witness:
  "\<exists>w''. read_integer (\<lambda>_ _ _. []) 0 (unat (0x1FFC :: u32)) (width_bytes W32) perm_read
     (snd (write_integer (\<lambda>_ _ _. []) 0 (unat (0x1FFC :: u32)) (width_bytes W32) 0x1234567890 (memory_run example_ops))) =
     Some (Some (take_bit (8 * width_bytes W32) 0x1234567890), w'')"
proof (rule write_read_roundtrip)
  show "0 \<in> set (live (memory_run example_ops))" by (simp add: example_world(1))
  show "write_integer (\<lambda>_ _ _. []) 0 (unat (0x1FFC :: u32)) (width_bytes W32) 0x1234567890 (memory_run example_ops) =
      (True, snd (write_integer (\<lambda>_ _ _. []) 0 (unat (0x1FFC :: u32)) (width_bytes W32) 0x1234567890 (memory_run example_ops)))"
    using example_accessible [of 8188 4 perm_write]
    by (simp add: write_integer_def perm_write_def has_permission_def mapped_page_flag_def)
  show "range_accessible 0 (unat (0x1FFC :: u32)) (width_bytes W32) perm_read (memory_run example_ops)"
    using example_accessible [of 8188 4 perm_read] by (simp add: perm_read_def has_permission_def mapped_page_flag_def)
qed

theorem fork_copies_memory_witness:
  "read_byte (fst (clone 0 (memory_run example_ops))) 0x1000 (snd (clone 0 (memory_run example_ops))) =
   read_byte 0 0x1000 (memory_run example_ops)"
  using fork_copies_memory [of 0 example_ops "fst (clone 0 (memory_run example_ops))" "snd (clone 0 (memory_run example_ops))"]
  by (simp add: example_world(1))

theorem reads_terminate_witness:
  "\<exists>r w'. read_c_string (\<lambda>_ _ _. []) 0 0x1000 16 (memory_run example_ops) = Some (r, w')"
  using reads_terminate [where s = 0 and ops = example_ops and pread = "\<lambda>_ _ _. []" and a = 4096 and maximum = 16]
  by (simp add: example_world(1))

theorem permission_index_agrees_witness:
  "range_accessible 0 (unat (0x1000 :: u32)) 0x1000 3 (memory_run example_ops)"
  using permission_index_agrees [of 0 example_ops 3 4096 4096] example_world(1,3)
  by (simp add: mapped_page_flag_def has_permission_def)

end
