(* ===== verification/Mach_Semaphore.thy ===== *)
theory Mach_Semaphore
  imports Mach_Namespace Virtual_Clock
begin

text \<open>
  Mach semaphores (\<open>src/kernel/mach/semaphore.cpp\<close>, the traps of \<open>traps.cpp\<close>, the BSD calls of
  \<open>process.cpp\<close>, creation and destruction in \<open>rights_message.cpp\<close> and \<open>support.cpp\<close>, and the
  poll of a blocked thread in \<open>kernel.cpp\<close>). A thread is the pair of its process and its
  processor. The state is what the kernels of all processes share (the semaphores, the queued
  wake-ups and terminations, names, clock) together with each kernel's table of pending waits
  and the set of halted threads. Every operation runs under the one Mach lock, so a history is a
  sequence of them. The signed 64-bit counts are integers: they cannot reach \<open>2 ^ 63\<close>.
\<close>

section \<open>State\<close>

type_synonym guest_thread = "u32 \<times> u32"

record mach_semaphore =
  sem_count :: int
  sem_owner :: u32
  sem_waiters :: "guest_thread list"

record pending_semaphore_wait =
  pw_semaphore :: mach_object
  pw_deadline :: "u64 option"
  pw_bsd :: bool

record semaphore_state =
  names :: namespace_table
  semaphores :: "(mach_object, mach_semaphore) omap"
  semaphore_wakeups :: "guest_thread set"
  semaphore_terminations :: "guest_thread set"
  thread_owner :: "mach_object \<Rightarrow> guest_thread option"
  task_owner :: "mach_object \<Rightarrow> u32 option"
  port_objects :: "mach_object set"
  clock :: virtual_clock
  pending_waits :: "guest_thread \<Rightarrow> pending_semaphore_wait option"
  halted :: "guest_thread set"

definition kern_invalid_argument :: u32 where "kern_invalid_argument = 4"
definition kern_terminated :: u32 where "kern_terminated = 37"
definition kern_not_waiting :: u32 where "kern_not_waiting = 48"
definition kern_operation_timed_out :: u32 where "kern_operation_timed_out = 49"
definition bsd_invalid_argument :: u32 where "bsd_invalid_argument = 22"
definition bsd_timed_out :: u32 where "bsd_timed_out = 60"

definition resolve_name_with_right :: "semaphore_state \<Rightarrow> u32 \<Rightarrow> mach_name \<Rightarrow> right \<Rightarrow> mach_object option" where
  "resolve_name_with_right st task name right =
     (case lookup task name (names st) of
        None \<Rightarrow> None
      | Some entry \<Rightarrow> if ne_type entry AND type_mask right = 0 then None else Some (ne_object entry))"

definition sem_at :: "semaphore_state \<Rightarrow> mach_object \<Rightarrow> mach_semaphore option" where
  "sem_at st object = map_of (semaphores st) object"

definition set_semaphore :: "mach_object \<Rightarrow> mach_semaphore \<Rightarrow> semaphore_state \<Rightarrow> semaphore_state" where
  "set_semaphore object sem st = st\<lparr>semaphores := om_put object sem (semaphores st)\<rparr>"

section \<open>Signals\<close>

definition signal_semaphore :: "u32 \<Rightarrow> mach_name \<Rightarrow> bool \<Rightarrow> bool \<Rightarrow> semaphore_state \<Rightarrow> u32 \<times> semaphore_state" where
  "signal_semaphore pid name all prepost st =
     (case resolve_name_with_right st pid name Send of
        None \<Rightarrow> (kern_invalid_argument, st)
      | Some object \<Rightarrow>
          (case sem_at st object of
             None \<Rightarrow> (kern_invalid_argument, st)
           | Some sem \<Rightarrow>
               (0, if all then
                     set_semaphore object (sem\<lparr>sem_waiters := [], sem_count := 0\<rparr>)
                       (st\<lparr>semaphore_wakeups := semaphore_wakeups st \<union> set (sem_waiters sem)\<rparr>)
                   else case sem_waiters sem of
                     waiter # rest \<Rightarrow>
                       set_semaphore object (sem\<lparr>sem_waiters := rest\<rparr>)
                         (st\<lparr>semaphore_wakeups := insert waiter (semaphore_wakeups st)\<rparr>)
                   | [] \<Rightarrow> if prepost then set_semaphore object (sem\<lparr>sem_count := sem_count sem + 1\<rparr>) st else st)))"

definition signal_semaphore_thread :: "u32 \<Rightarrow> mach_name \<Rightarrow> mach_name \<Rightarrow> semaphore_state \<Rightarrow> u32 \<times> semaphore_state" where
  "signal_semaphore_thread pid semaphore_name thread_name st =
     (case resolve_name_with_right st pid semaphore_name Send of
        None \<Rightarrow> (kern_invalid_argument, st)
      | Some object \<Rightarrow>
          (case sem_at st object of
             None \<Rightarrow> (kern_invalid_argument, st)
           | Some sem \<Rightarrow>
               let wake = (\<lambda>waiter. (0, set_semaphore object (sem\<lparr>sem_waiters := remove1 waiter (sem_waiters sem)\<rparr>)
                     (st\<lparr>semaphore_wakeups := insert waiter (semaphore_wakeups st)\<rparr>)))
               in if thread_name \<noteq> null_name then
                    (case Option.bind (resolve_name_with_right st pid thread_name Send) (thread_owner st) of
                       None \<Rightarrow> (kern_invalid_argument, st)
                     | Some target \<Rightarrow> if target \<in> set (sem_waiters sem) then wake target else (kern_not_waiting, st))
                  else case sem_waiters sem of [] \<Rightarrow> (kern_not_waiting, st) | first # _ \<Rightarrow> wake first))"

section \<open>Waiting\<close>

datatype wait_outcome = Mach_Result u32 | Bsd_Error u32 | Bsd_Success | Halted

definition finish_wait :: "bool \<Rightarrow> u32 \<Rightarrow> wait_outcome" where
  "finish_wait bsd_result result =
     (if result \<noteq> 0 then
        (if bsd_result then Bsd_Error (if result = kern_operation_timed_out then bsd_timed_out else bsd_invalid_argument)
         else Mach_Result result)
      else if bsd_result then Bsd_Success else Mach_Result 0)"

definition wait_on_semaphore ::
    "guest_thread \<Rightarrow> mach_name \<Rightarrow> mach_name \<Rightarrow> u64 option \<Rightarrow> bool \<Rightarrow> semaphore_state \<Rightarrow> wait_outcome \<times> semaphore_state" where
  "wait_on_semaphore thread wait_name signal_name timeout_interval bsd_result st =
     (let pid = fst thread;
          wait_object = resolve_name_with_right st pid wait_name Send;
          signal_object = (if signal_name = 0 then None else resolve_name_with_right st pid signal_name Send);
          (result, blocked, st1) =
            (case Option.bind wait_object (sem_at st) of
               None \<Rightarrow> (kern_invalid_argument, False, st)
             | Some sem \<Rightarrow>
                 let object = the wait_object in
                 if signal_name \<noteq> 0 \<and> signal_object = None then (kern_invalid_argument, False, st)
                 else if sem_count sem > 0 then (0, False, set_semaphore object (sem\<lparr>sem_count := sem_count sem - 1\<rparr>) st)
                 else if timeout_interval = Some 0 then (kern_operation_timed_out, False, st)
                 else (0, True, (set_semaphore object (sem\<lparr>sem_waiters := sem_waiters sem @ [thread]\<rparr>) st)
                        \<lparr>pending_waits := (pending_waits st)(thread \<mapsto> \<lparr>pw_semaphore = object,
                           pw_deadline = map_option (\<lambda>t. vc_now (clock st) + t) timeout_interval, pw_bsd = bsd_result\<rparr>)\<rparr>));
          (result', st2) =
            (if result = 0 \<and> signal_name \<noteq> 0 then signal_semaphore pid signal_name False True st1 else (result, st1))
      in if result' \<noteq> 0 \<or> \<not> blocked then (finish_wait bsd_result result', st2)
         else (Halted, st2\<lparr>halted := insert thread (halted st2)\<rparr>))"

text \<open>The poll of a thread with a pending wait; \<open>None\<close> leaves it halted.\<close>

definition resume_wait :: "guest_thread \<Rightarrow> semaphore_state \<Rightarrow> wait_outcome option \<times> semaphore_state" where
  "resume_wait thread st =
     (case pending_waits st thread of
        None \<Rightarrow> (None, st)
      | Some p \<Rightarrow>
          let terminated = (thread \<in> semaphore_terminations st);
              st1 = st\<lparr>semaphore_terminations := semaphore_terminations st - {thread}\<rparr>;
              awakened = (\<not> terminated \<and> thread \<in> semaphore_wakeups st1);
              st2 = (if terminated then st1 else st1\<lparr>semaphore_wakeups := semaphore_wakeups st1 - {thread}\<rparr>);
              timed_out = (\<not> terminated \<and> \<not> awakened \<and> (case pw_deadline p of None \<Rightarrow> False | Some d \<Rightarrow> vc_now (clock st) \<ge> d));
              st3 = (if timed_out then
                       (case sem_at st2 (pw_semaphore p) of
                          None \<Rightarrow> st2
                        | Some sem \<Rightarrow> set_semaphore (pw_semaphore p) (sem\<lparr>sem_waiters := removeAll thread (sem_waiters sem)\<rparr>) st2)
                     else st2)
          in if \<not> terminated \<and> \<not> awakened \<and> \<not> timed_out then (None, st3)
             else (Some (if pw_bsd p then
                           (if terminated then Bsd_Error bsd_invalid_argument
                            else if timed_out then Bsd_Error bsd_timed_out else Bsd_Success)
                         else Mach_Result (if terminated then kern_terminated
                                           else if timed_out then kern_operation_timed_out else 0)),
                   st3\<lparr>pending_waits := (pending_waits st3)(thread := None), halted := halted st3 - {thread}\<rparr>))"

section \<open>The traps and the BSD calls\<close>

text \<open>Traps 33 to 39 with the four registers of their arguments.\<close>

definition semaphore_trap ::
    "guest_thread \<Rightarrow> nat \<Rightarrow> u32 \<Rightarrow> u32 \<Rightarrow> u32 \<Rightarrow> u32 \<Rightarrow> semaphore_state \<Rightarrow> wait_outcome \<times> semaphore_state" where
  "semaphore_trap thread trap r0 r1 r2 r3 st =
     (let pid = fst thread; code = (\<lambda>(r, st). (Mach_Result r, st)) in
      if trap = 33 then code (signal_semaphore pid r0 False True st)
      else if trap = 34 then code (signal_semaphore pid r0 True False st)
      else if trap = 35 then code (signal_semaphore_thread pid r0 r1 st)
      else if trap = 36 then wait_on_semaphore thread r0 0 None False st
      else if trap = 37 then wait_on_semaphore thread r0 r1 None False st
      else
        let nsec = (if trap = 38 then r2 else r3); sec = (if trap = 38 then r1 else r2) in
        if nsec \<ge> 1000000000 then (Mach_Result kern_invalid_argument, st)
        else wait_on_semaphore thread r0 (if trap = 39 then r1 else 0)
               (Some (ucast sec * 1000000000 + ucast nsec)) False st)"

text \<open>\<open>__semwait_signal\<close>: registers 2 to 5 are the flag of a timeout, the flag of a relative one, and
  the time; the later call reads the time from guest memory, which may fail.\<close>

definition semwait_timeout :: "u32 \<Rightarrow> u32 \<Rightarrow> u32 \<Rightarrow> virtual_clock \<Rightarrow> u64" where
  "semwait_timeout relative sec nsec c =
     (let requested = ucast sec * 1000000000 + ucast nsec :: u64 in
      if relative \<noteq> 0 then requested
      else let now = wall_time c in if requested > now then requested - now else 0)"

definition semwait_signal ::
    "guest_thread \<Rightarrow> u32 \<Rightarrow> u32 \<Rightarrow> u32 \<Rightarrow> u32 \<Rightarrow> (u32 \<times> u32) option \<Rightarrow> semaphore_state \<Rightarrow> wait_outcome \<times> semaphore_state" where
  "semwait_signal thread wait_name signal_name timed relative timespec st =
     (if timed = 0 then wait_on_semaphore thread wait_name signal_name None True st
      else case timespec of
        None \<Rightarrow> (Bsd_Error bsd_invalid_argument, st)
      | Some (sec, nsec) \<Rightarrow>
          if nsec \<ge> 1000000000 then (Bsd_Error bsd_invalid_argument, st)
          else wait_on_semaphore thread wait_name signal_name (Some (semwait_timeout relative sec nsec (clock st))) True st)"

section \<open>Creation and destruction\<close>

definition target_task_for_port :: "semaphore_state \<Rightarrow> u32 \<Rightarrow> mach_name \<Rightarrow> u32 option" where
  "target_task_for_port st caller task_name =
     Option.bind (resolve_name_with_right st caller task_name Send) (task_owner st)"

text \<open>\<open>semaphore_create\<close> on the object number the kernel allocated; the name of the new right, if any.\<close>

definition semaphore_create ::
    "u32 \<Rightarrow> mach_name \<Rightarrow> u32 \<Rightarrow> u32 \<Rightarrow> mach_object \<Rightarrow> semaphore_state \<Rightarrow> ns_error + mach_name option \<times> semaphore_state" where
  "semaphore_create pid task_name policy value object st =
     (if policy \<le> 7 \<and> 0 \<le> sint value then
        (case target_task_for_port st pid task_name of
           None \<Rightarrow> Inr (None, st)
         | Some owner \<Rightarrow>
             let st1 = (if sem_at st object = None
                        then set_semaphore object \<lparr>sem_count = sint value, sem_owner = owner, sem_waiters = []\<rparr> st else st) in
             if object = 0 \<or> object = dead_name \<or> object \<in> port_objects st
             then Inr (None, st1\<lparr>semaphores := om_erase object (semaphores st1)\<rparr>)
             else
               let st2 = st1\<lparr>port_objects := insert object (port_objects st)\<rparr> in
               case copyout pid object (type_mask Send) (names st2) of
                 Inl e \<Rightarrow> Inl e
               | Inr (Some name, t) \<Rightarrow> Inr (Some name, st2\<lparr>names := t\<rparr>)
               | Inr (None, t) \<Rightarrow> Inr (None, st2\<lparr>names := t, semaphores := om_erase object (semaphores st2),
                     port_objects := port_objects st2 - {object}\<rparr>))
      else Inr (None, st))"

definition terminate_semaphore :: "mach_object \<Rightarrow> semaphore_state \<Rightarrow> semaphore_state" where
  "terminate_semaphore object st =
     (case sem_at st object of
        None \<Rightarrow> st
      | Some sem \<Rightarrow> st\<lparr>semaphore_terminations := semaphore_terminations st \<union> set (sem_waiters sem),
                      semaphores := om_erase object (semaphores st), port_objects := port_objects st - {object}\<rparr>)"

text \<open>\<open>semaphore_destroy\<close>, after the message has been decoded and its right consumed.\<close>

definition semaphore_destroy :: "u32 option \<Rightarrow> mach_object option \<Rightarrow> semaphore_state \<Rightarrow> u32 \<times> semaphore_state" where
  "semaphore_destroy target semaphore_object st =
     (case Option.bind semaphore_object (sem_at st) of
        None \<Rightarrow> (kern_invalid_argument, st)
      | Some sem \<Rightarrow>
          if target = None \<or> Some (sem_owner sem) \<noteq> target then (kern_invalid_argument, st)
          else (0, terminate_semaphore (the semaphore_object) st))"

definition drop_process :: "u32 \<Rightarrow> mach_semaphore \<Rightarrow> mach_semaphore" where
  "drop_process pid sem = sem\<lparr>sem_waiters := filter (\<lambda>t. fst t \<noteq> pid) (sem_waiters sem)\<rparr>"

definition terminate_exited_semaphores :: "u32 \<Rightarrow> semaphore_state \<Rightarrow> semaphore_state" where
  "terminate_exited_semaphores pid st =
     (let owned = map fst (filter (\<lambda>e. sem_owner (snd e) = pid) (semaphores st)); st1 = fold terminate_semaphore owned st in
      st1\<lparr>semaphore_wakeups := Set.filter (\<lambda>t. fst t \<noteq> pid) (semaphore_wakeups st1),
          semaphore_terminations := Set.filter (\<lambda>t. fst t \<noteq> pid) (semaphore_terminations st1),
          semaphores := map (map_prod id (drop_process pid)) (semaphores st1)\<rparr>)"

definition clear_pending :: "u32 \<Rightarrow> semaphore_state \<Rightarrow> semaphore_state" where
  "clear_pending pid st = st\<lparr>pending_waits := (\<lambda>t. if fst t = pid then None else pending_waits st t),
     halted := Set.filter (\<lambda>t. fst t \<noteq> pid) (halted st)\<rparr>"

definition process_exit :: "u32 \<Rightarrow> semaphore_state \<Rightarrow> semaphore_state" where
  "process_exit pid st = terminate_exited_semaphores pid (clear_pending pid st)"

text \<open>\<open>prepare_exec\<close> drops the pending waits of the threads that go away.\<close>

definition process_exec :: "u32 \<Rightarrow> semaphore_state \<Rightarrow> semaphore_state" where
  "process_exec pid st = clear_pending pid st"

section \<open>Histories\<close>

text \<open>A thread makes a call only when it is not halted; the object number of a new semaphore is not
  in use. What the rest of the kernel does to names, threads and tasks may be anything.\<close>

datatype sem_event =
    Set_Names namespace_table "mach_object \<Rightarrow> guest_thread option" "mach_object \<Rightarrow> u32 option"
  | Advance u64
  | Create u32 mach_name u32 u32 mach_object
  | Destroy "u32 option" "mach_object option"
  | Trap guest_thread nat u32 u32 u32 u32
  | Semwait guest_thread mach_name mach_name u32 u32 "(u32 \<times> u32) option"
  | Poll guest_thread
  | Exit u32
  | Exec u32

fun sem_step :: "semaphore_state \<Rightarrow> sem_event \<Rightarrow> semaphore_state" where
  "sem_step st (Set_Names t threads tasks) = st\<lparr>names := t, thread_owner := threads, task_owner := tasks\<rparr>"
| "sem_step st (Advance d) = st\<lparr>clock := snd (tick d (clock st))\<rparr>"
| "sem_step st (Create pid task_name policy value object) =
     (if sem_at st object \<noteq> None then st
      else case semaphore_create pid task_name policy value object st of Inl _ \<Rightarrow> st | Inr (_, st') \<Rightarrow> st')"
| "sem_step st (Destroy target object) = snd (semaphore_destroy target object st)"
| "sem_step st (Trap t n r0 r1 r2 r3) = (if t \<in> halted st then st else snd (semaphore_trap t n r0 r1 r2 r3 st))"
| "sem_step st (Semwait t w s timed relative ts) =
     (if t \<in> halted st then st else snd (semwait_signal t w s timed relative ts st))"
| "sem_step st (Poll t) = snd (resume_wait t st)"
| "sem_step st (Exit pid) = process_exit pid st"
| "sem_step st (Exec pid) = process_exec pid st"

definition sem_init :: semaphore_state where
  "sem_init = \<lparr>names = [], semaphores = [], semaphore_wakeups = {}, semaphore_terminations = {},
     thread_owner = (\<lambda>_. None), task_owner = (\<lambda>_. None), port_objects = {}, clock = clock_init default_initial_time,
     pending_waits = (\<lambda>_. None), halted = {}\<rparr>"

definition sem_run :: "sem_event list \<Rightarrow> semaphore_state" where
  "sem_run es = foldl sem_step sem_init es"

section \<open>Counts, queues and halted threads\<close>

definition queued :: "semaphore_state \<Rightarrow> mach_object \<Rightarrow> guest_thread \<Rightarrow> bool" where
  "queued st object t \<longleftrightarrow> (\<exists>sem. sem_at st object = Some sem \<and> t \<in> set (sem_waiters sem))"

definition sem_ok :: "mach_semaphore \<Rightarrow> bool" where
  "sem_ok sem \<longleftrightarrow> 0 \<le> sem_count sem \<and> (0 < sem_count sem \<longrightarrow> sem_waiters sem = [])"

definition accounted :: "semaphore_state \<Rightarrow> guest_thread \<Rightarrow> bool" where
  "accounted st t \<longleftrightarrow> (\<exists>p. pending_waits st t = Some p \<and>
     (t \<in> semaphore_wakeups st \<or> t \<in> semaphore_terminations st \<or> queued st (pw_semaphore p) t))"

definition sem_inv :: "semaphore_state \<Rightarrow> bool" where
  "sem_inv st \<longleftrightarrow> om_wf (semaphores st) \<and> (\<forall>object sem. sem_at st object = Some sem \<longrightarrow> sem_ok sem) \<and>
     (\<forall>t\<in>halted st. accounted st t)"

lemma sem_at_set [simp]: "sem_at (set_semaphore object sem st) o' = (if o' = object then Some sem else sem_at st o')"
  by (simp add: sem_at_def set_semaphore_def)

lemma set_semaphore_simps [simp]:
  "semaphore_wakeups (set_semaphore object sem st) = semaphore_wakeups st"
  "semaphore_terminations (set_semaphore object sem st) = semaphore_terminations st"
  "pending_waits (set_semaphore object sem st) = pending_waits st" "halted (set_semaphore object sem st) = halted st"
  "names (set_semaphore object sem st) = names st" "clock (set_semaphore object sem st) = clock st"
  "port_objects (set_semaphore object sem st) = port_objects st" "thread_owner (set_semaphore object sem st) = thread_owner st"
  "task_owner (set_semaphore object sem st) = task_owner st"
  "semaphores (set_semaphore object sem st) = om_put object sem (semaphores st)"
  by (simp_all add: set_semaphore_def)

lemma sem_at_update [simp]:
  "sem_at (st\<lparr>semaphore_wakeups := x\<rparr>) = sem_at st" "sem_at (st\<lparr>semaphore_terminations := x\<rparr>) = sem_at st"
  "sem_at (st\<lparr>pending_waits := y\<rparr>) = sem_at st" "sem_at (st\<lparr>halted := x\<rparr>) = sem_at st" "sem_at (st\<lparr>names := n\<rparr>) = sem_at st"
  "sem_at (st\<lparr>clock := c\<rparr>) = sem_at st" "sem_at (st\<lparr>port_objects := q\<rparr>) = sem_at st"
  "sem_at (st\<lparr>thread_owner := to\<rparr>) = sem_at st" "sem_at (st\<lparr>task_owner := ta\<rparr>) = sem_at st"
  "sem_at (st\<lparr>semaphores := m\<rparr>) = map_of m"
  by (simp_all add: sem_at_def fun_eq_iff)

text \<open>A step that takes threads out of queues only to give them a wake-up or a termination, and
  keeps the pending waits of halted threads.\<close>

definition hands_over :: "semaphore_state \<Rightarrow> semaphore_state \<Rightarrow> bool" where
  "hands_over st st' \<longleftrightarrow> (\<forall>t\<in>halted st. pending_waits st' t = pending_waits st t) \<and> halted st' = halted st \<and>
     semaphore_wakeups st \<subseteq> semaphore_wakeups st' \<and> semaphore_terminations st \<subseteq> semaphore_terminations st' \<and>
     (\<forall>object t. queued st object t \<longrightarrow> queued st' object t \<or> t \<in> semaphore_wakeups st' \<or> t \<in> semaphore_terminations st')"

definition sems_ok :: "semaphore_state \<Rightarrow> bool" where
  "sems_ok st \<longleftrightarrow> om_wf (semaphores st) \<and> (\<forall>object sem. sem_at st object = Some sem \<longrightarrow> sem_ok sem)"

lemma sem_inv_alt: "sem_inv st \<longleftrightarrow> sems_ok st \<and> (\<forall>t\<in>halted st. accounted st t)"
  by (auto simp: sem_inv_def sems_ok_def)

lemma hands_over_inv: "sem_inv st \<Longrightarrow> hands_over st st' \<Longrightarrow> sems_ok st' \<Longrightarrow> sem_inv st'"
  unfolding sem_inv_alt hands_over_def accounted_def by (metis subsetD)

lemma hands_over_refl [simp]: "hands_over st st"
  by (simp add: hands_over_def)

lemma hands_over_trans: "hands_over a b \<Longrightarrow> hands_over b c \<Longrightarrow> hands_over a c"
  unfolding hands_over_def by (metis subset_trans subsetD)

lemma sem_okD: "sems_ok st \<Longrightarrow> sem_at st object = Some sem \<Longrightarrow> sem_ok sem"
  by (simp add: sems_ok_def)

lemma sems_ok_set: "sems_ok st \<Longrightarrow> sem_ok sem \<Longrightarrow> sems_ok (set_semaphore object sem st)"
  by (simp add: sems_ok_def)

lemma signal_hands_over: "hands_over st (snd (signal_semaphore pid name all prepost st))"
  by (auto simp: signal_semaphore_def hands_over_def queued_def split: option.splits list.splits)

lemma signal_sems_ok:
  assumes "sems_ok st"
  shows "sems_ok (snd (signal_semaphore pid name all prepost st))"
proof (cases "Option.bind (resolve_name_with_right st pid name Send) (sem_at st)")
  case None
  then have "snd (signal_semaphore pid name all prepost st) = st"
    by (auto simp: signal_semaphore_def split: option.splits)
  then show ?thesis using assms by simp
next
  case (Some sem)
  then obtain object where o: "resolve_name_with_right st pid name Send = Some object" "sem_at st object = Some sem"
    by (auto simp: bind_eq_Some_conv)
  have "sem_ok sem" by (rule sem_okD [OF assms o(2)])
  then show ?thesis
    using assms o by (auto simp: signal_semaphore_def sems_ok_def sem_ok_def split: list.splits)
qed

lemma signal_thread_facts:
  assumes "sems_ok st"
  shows "hands_over st (snd (signal_semaphore_thread pid s t st))" "sems_ok (snd (signal_semaphore_thread pid s t st))"
proof -
  have wake: "hands_over st v \<and> sems_ok v"
    if o: "sem_at st object = Some sem" and v: "v = set_semaphore object (sem\<lparr>sem_waiters := remove1 w (sem_waiters sem)\<rparr>)
       (st\<lparr>semaphore_wakeups := insert w (semaphore_wakeups st)\<rparr>)" for object sem w v
  proof
    show "hands_over st v"
      using o unfolding v by (auto simp: hands_over_def queued_def)
    show "sems_ok v"
      using assms sem_okD [OF assms o] unfolding v by (auto simp: sems_ok_def sem_ok_def)
  qed
  have first: "hands_over st v \<and> sems_ok v"
    if "sem_at st object = Some sem" "sem_waiters sem = w # rest" "v = set_semaphore object (sem\<lparr>sem_waiters := rest\<rparr>)
       (st\<lparr>semaphore_wakeups := insert w (semaphore_wakeups st)\<rparr>)" for object sem w rest v
    using wake [OF that(1), of v w] that(2,3) by simp
  have "hands_over st (snd (signal_semaphore_thread pid s t st)) \<and> sems_ok (snd (signal_semaphore_thread pid s t st))"
    using assms wake first unfolding signal_semaphore_thread_def Let_def
    by (auto split: option.splits list.splits)
  then show "hands_over st (snd (signal_semaphore_thread pid s t st))" "sems_ok (snd (signal_semaphore_thread pid s t st))" by simp_all
qed

lemma signal_pending [simp]: "pending_waits (snd (signal_semaphore pid name all prepost st)) = pending_waits st"
  by (auto simp: signal_semaphore_def split: option.splits list.splits)

text \<open>The part of a wait before the paired signal.\<close>

definition wait_begin ::
    "guest_thread \<Rightarrow> mach_name \<Rightarrow> mach_name \<Rightarrow> u64 option \<Rightarrow> bool \<Rightarrow> semaphore_state \<Rightarrow> u32 \<times> bool \<times> semaphore_state" where
  "wait_begin thread wait_name signal_name timeout_interval bsd_result st =
     (case Option.bind (resolve_name_with_right st (fst thread) wait_name Send) (sem_at st) of
        None \<Rightarrow> (kern_invalid_argument, False, st)
      | Some sem \<Rightarrow>
          let object = the (resolve_name_with_right st (fst thread) wait_name Send) in
          if signal_name \<noteq> 0 \<and> resolve_name_with_right st (fst thread) signal_name Send = None then (kern_invalid_argument, False, st)
          else if sem_count sem > 0 then (0, False, set_semaphore object (sem\<lparr>sem_count := sem_count sem - 1\<rparr>) st)
          else if timeout_interval = Some 0 then (kern_operation_timed_out, False, st)
          else (0, True, (set_semaphore object (sem\<lparr>sem_waiters := sem_waiters sem @ [thread]\<rparr>) st)
                 \<lparr>pending_waits := (pending_waits st)(thread \<mapsto> \<lparr>pw_semaphore = object,
                    pw_deadline = map_option (\<lambda>t. vc_now (clock st) + t) timeout_interval, pw_bsd = bsd_result\<rparr>)\<rparr>))"

lemma wait_split:
  "wait_on_semaphore thread wait_name signal_name timeout_interval bsd_result st =
     (let (result, blocked, st1) = wait_begin thread wait_name signal_name timeout_interval bsd_result st;
          (result', st2) = (if result = 0 \<and> signal_name \<noteq> 0 then signal_semaphore (fst thread) signal_name False True st1
             else (result, st1))
      in if result' \<noteq> 0 \<or> \<not> blocked then (finish_wait bsd_result result', st2)
         else (Halted, st2\<lparr>halted := insert thread (halted st2)\<rparr>))"
  unfolding wait_on_semaphore_def wait_begin_def Let_def by (cases "signal_name = 0") (simp_all cong: option.case_cong)

lemma wait_begin_facts:
  assumes ok: "sems_ok st" and t: "thread \<notin> halted st"
    and w: "wait_begin thread wn sn timeout bsd st = (r, blocked, st1)"
  shows "hands_over st st1" "sems_ok st1" "names st1 = names st"
    "blocked \<Longrightarrow> r = 0 \<and> (\<exists>p. pending_waits st1 thread = Some p \<and> queued st1 (pw_semaphore p) thread)"
proof -
  have "hands_over st st1 \<and> sems_ok st1 \<and> names st1 = names st \<and>
    (blocked \<longrightarrow> r = 0 \<and> (\<exists>p. pending_waits st1 thread = Some p \<and> queued st1 (pw_semaphore p) thread))"
  proof (cases "Option.bind (resolve_name_with_right st (fst thread) wn Send) (sem_at st)")
    case None
    then show ?thesis using w ok by (auto simp: wait_begin_def)
  next
    case (Some sem)
    then obtain object where o: "resolve_name_with_right st (fst thread) wn Send = Some object" "sem_at st object = Some sem"
      by (auto simp: bind_eq_Some_conv)
    have so: "sem_ok sem" by (rule sem_okD [OF ok o(2)])
    define take where "take = set_semaphore object (sem\<lparr>sem_count := sem_count sem - 1\<rparr>) st"
    define block where "block = (set_semaphore object (sem\<lparr>sem_waiters := sem_waiters sem @ [thread]\<rparr>) st)
       \<lparr>pending_waits := (pending_waits st)(thread \<mapsto> \<lparr>pw_semaphore = object,
          pw_deadline = map_option (\<lambda>t. vc_now (clock st) + t) timeout, pw_bsd = bsd\<rparr>)\<rparr>"
    have take: "hands_over st take \<and> sems_ok take" if "sem_count sem > 0"
      using that so ok o(2) unfolding take_def by (auto simp: hands_over_def queued_def sems_ok_def sem_ok_def)
    have block: "hands_over st block \<and> sems_ok block \<and> queued block object thread" if "\<not> sem_count sem > 0"
      using that so ok o(2) t unfolding block_def by (auto simp: hands_over_def queued_def sems_ok_def sem_ok_def)
    consider "(r, blocked, st1) = (kern_invalid_argument, False, st)" | "sem_count sem > 0" "(r, blocked, st1) = (0, False, take)"
      | "(r, blocked, st1) = (kern_operation_timed_out, False, st)" | "\<not> sem_count sem > 0" "(r, blocked, st1) = (0, True, block)"
      using w unfolding wait_begin_def o Option.bind.bind_lunit Some option.case option.sel Let_def take_def block_def
      by (auto split: if_splits)
    then show ?thesis
    proof cases
      case 4
      then show ?thesis using block by (auto simp: block_def)
    qed (use ok take in \<open>auto simp: take_def\<close>)
  qed
  then show "hands_over st st1" "sems_ok st1" "names st1 = names st"
    "blocked \<Longrightarrow> r = 0 \<and> (\<exists>p. pending_waits st1 thread = Some p \<and> queued st1 (pw_semaphore p) thread)" by blast+
qed

lemma wait_inv:
  assumes inv: "sem_inv st" and t: "thread \<notin> halted st"
  shows "sem_inv (snd (wait_on_semaphore thread wn sn timeout bsd st))"
proof -
  obtain r blocked st1 where w: "wait_begin thread wn sn timeout bsd st = (r, blocked, st1)" by (metis prod_cases3)
  note f = wait_begin_facts [OF _ t w]
  have ok: "sems_ok st" using inv by (simp add: sem_inv_alt)
  define q where "q = (if r = 0 \<and> sn \<noteq> 0 then signal_semaphore (fst thread) sn False True st1 else (r, st1))"
  have q: "hands_over st1 (snd q)" "sems_ok (snd q)" "pending_waits (snd q) = pending_waits st1"
    using f(2) [OF ok] signal_hands_over signal_sems_ok by (simp_all add: q_def)
  have h: "hands_over st (snd q)" by (rule hands_over_trans [OF f(1) [OF ok] q(1)])
  have inv2: "sem_inv (snd q)" by (rule hands_over_inv [OF inv h q(2)])
  have eq: "snd (wait_on_semaphore thread wn sn timeout bsd st) =
      (if fst q \<noteq> 0 \<or> \<not> blocked then snd q else (snd q)\<lparr>halted := insert thread (halted (snd q))\<rparr>)"
    unfolding wait_split w prod.case Let_def q_def [symmetric] by (simp add: case_prod_beta)
  show ?thesis
  proof (cases "fst q \<noteq> 0 \<or> \<not> blocked")
    case True
    then show ?thesis using inv2 eq by simp
  next
    case False
    then obtain p where p: "pending_waits st1 thread = Some p" "queued st1 (pw_semaphore p) thread" using f(4) [OF ok] by blast
    have "accounted (snd q) thread" using p q(1,3) unfolding accounted_def hands_over_def by metis
    then show ?thesis
      using inv2 False unfolding eq by (auto simp: sem_inv_def accounted_def queued_def)
  qed
qed

lemma resume_inv:
  assumes inv: "sem_inv st"
  shows "sem_inv (snd (resume_wait thread st))"
proof (cases "pending_waits st thread")
  case None
  then show ?thesis using inv by (simp add: resume_wait_def)
next
  case (Some p)
  define woken where "woken \<longleftrightarrow> thread \<in> semaphore_terminations st \<or> thread \<in> semaphore_wakeups st \<or>
     (case pw_deadline p of None \<Rightarrow> False | Some d \<Rightarrow> vc_now (clock st) \<ge> d)"
  define v where "v = snd (resume_wait thread st)"
  have keep: "t \<in> semaphore_wakeups v \<longleftrightarrow> t \<in> semaphore_wakeups st" "t \<in> semaphore_terminations v \<longleftrightarrow> t \<in> semaphore_terminations st"
    "queued v object t \<longleftrightarrow> queued st object t" "pending_waits v t = pending_waits st t" if "t \<noteq> thread" for t object
    using that Some by (auto simp: v_def resume_wait_def Let_def queued_def split: option.splits)
  have h: "halted v = (if woken then halted st - {thread} else halted st)"
    using Some by (auto simp: v_def resume_wait_def Let_def woken_def split: option.splits)
  have still: "v = st" if "\<not> woken"
    using that Some by (simp add: v_def resume_wait_def Let_def woken_def)
  have "sems_ok v"
  proof -
    have "sems_ok st" using inv by (simp add: sem_inv_alt)
    then show ?thesis
      using Some by (auto simp: v_def resume_wait_def Let_def sems_ok_def sem_ok_def split: option.splits)
  qed
  moreover have "accounted v t" if "t \<in> halted v" for t
  proof (cases "t = thread")
    case True
    then have "\<not> woken" using that h by (auto split: if_splits)
    then show ?thesis using still inv that by (simp add: sem_inv_def)
  next
    case False
    then have "t \<in> halted st" using that h by (auto split: if_splits)
    then have "accounted st t" using inv by (simp add: sem_inv_def)
    then show ?thesis using keep [OF False] by (simp add: accounted_def)
  qed
  ultimately show ?thesis by (simp add: sem_inv_alt v_def)
qed

end
