(* ===== verification/Mach_Semaphore_Histories.thy ===== *)
theory Mach_Semaphore_Histories
  imports Mach_Semaphore
begin

text \<open>
  What histories of semaphore operations keep. Every history keeps a halted thread accounted for: it
  waits in a queue, or its wake-up or termination is recorded. Clean histories (no wait whose paired
  signal fails after the wait was queued, no exec over halted siblings) keep each thread in
  exactly one place, from which a signal reaches the first waiter and nobody else.
\<close>

section \<open>Creation, destruction and exit\<close>

text \<open>Creation leaves the semaphores alone, or adds one with no waiters, and touches no thread.\<close>

lemma sem_create_cases:
  assumes free: "sem_at st object = None" and c: "semaphore_create pid task_name policy v object st = Inr (n, st')"
  shows "\<exists>m P N. st' = st\<lparr>semaphores := m, port_objects := P, names := N\<rparr> \<and>
    (m = semaphores st \<or> m = om_erase object (om_put object \<lparr>sem_count = sint v, sem_owner = the (target_task_for_port st pid task_name),
         sem_waiters = []\<rparr> (semaphores st)) \<or>
     0 \<le> sint v \<and> m = om_put object \<lparr>sem_count = sint v, sem_owner = the (target_task_for_port st pid task_name),
         sem_waiters = []\<rparr> (semaphores st))" (is "?L st'")
proof -
  have "st = st\<lparr>semaphores := semaphores st, port_objects := port_objects st, names := names st\<rparr>" by simp
  then have same: "?L st" by blast
  show ?thesis
  proof (cases "policy \<le> 7 \<and> 0 \<le> sint v")
    case False
    show ?thesis using c same unfolding semaphore_create_def if_not_P [OF False] by simp
  next
    case True
    show ?thesis
    proof (cases "target_task_for_port st pid task_name")
      case None
      then show ?thesis using c same unfolding semaphore_create_def if_P [OF True] by simp
    next
      case (Some owner)
      define new where "new = \<lparr>sem_count = sint v, sem_owner = owner, sem_waiters = []\<rparr>"
      have L: "?L x" if "x = st\<lparr>semaphores := m, port_objects := P, names := N\<rparr>"
          "m = om_erase object (om_put object new (semaphores st)) \<or> m = om_put object new (semaphores st)" for x m P N
        using that True Some unfolding new_def by auto
      consider "st' = st\<lparr>semaphores := om_erase object (om_put object new (semaphores st)), port_objects := port_objects st, names := names st\<rparr>"
        | N where "st' = st\<lparr>semaphores := om_put object new (semaphores st), port_objects := insert object (port_objects st), names := N\<rparr>"
        | N where "st' = st\<lparr>names := N, semaphores := om_erase object (om_put object new (semaphores st))\<rparr>"
        using c free unfolding semaphore_create_def if_P [OF True] Some option.case option.sel Let_def new_def [symmetric]
        by (cases "object = 0 \<or> object = dead_name \<or> object \<in> port_objects st")
          (auto simp: set_semaphore_def split: sum.splits option.splits)
      then show ?thesis
      proof cases
        case (3 N)
        then have "st' = st\<lparr>semaphores := om_erase object (om_put object new (semaphores st)), port_objects := port_objects st, names := N\<rparr>"
          by simp
        then show ?thesis by (rule L) simp
      qed (blast intro: L)+
    qed
  qed
qed

lemma sem_create_facts:
  assumes ok: "sems_ok st" and free: "sem_at st object = None"
    and c: "semaphore_create pid task_name policy v object st = Inr (n, st')"
  shows "sems_ok st'" "queued st' = queued st" "halted st' = halted st" "pending_waits st' = pending_waits st"
    "semaphore_wakeups st' = semaphore_wakeups st" "semaphore_terminations st' = semaphore_terminations st"
    "sem_at st' = sem_at st \<or> (\<exists>sem. sem_at st' = (sem_at st)(object \<mapsto> sem) \<and> sem_waiters sem = [])"
proof -
  obtain m P N where st': "st' = st\<lparr>semaphores := m, port_objects := P, names := N\<rparr>"
    and m: "m = semaphores st \<or> m = om_erase object (om_put object \<lparr>sem_count = sint v, sem_owner = the (target_task_for_port st pid task_name),
         sem_waiters = []\<rparr> (semaphores st)) \<or>
     0 \<le> sint v \<and> m = om_put object \<lparr>sem_count = sint v, sem_owner = the (target_task_for_port st pid task_name),
         sem_waiters = []\<rparr> (semaphores st)"
    using sem_create_cases [OF free c] by blast
  have at: "sem_at st' = map_of m" "sem_at st = map_of (semaphores st)" unfolding st' by (simp_all add: sem_at_def fun_eq_iff)
  have f: "map_of (semaphores st) object = None" using free by (simp add: sem_at_def)
  show adds: "sem_at st' = sem_at st \<or> (\<exists>sem. sem_at st' = (sem_at st)(object \<mapsto> sem) \<and> sem_waiters sem = [])"
    using m f unfolding at by (auto simp: fun_upd_idem)
  show "sems_ok st'"
    using m ok f unfolding sems_ok_def at unfolding st' by (auto simp: sem_ok_def split: if_splits)
  show "queued st' = queued st"
    using adds
  proof
    assume "\<exists>sem. sem_at st' = (sem_at st)(object \<mapsto> sem) \<and> sem_waiters sem = []"
    then obtain sem where sem: "sem_at st' = (sem_at st)(object \<mapsto> sem)" "sem_waiters sem = []" by blast
    have "queued st' o' t \<longleftrightarrow> queued st o' t" for o' t using sem(2) free unfolding queued_def sem(1) by simp
    then show ?thesis by (simp add: fun_eq_iff)
  qed (simp add: queued_def fun_eq_iff)
qed (use sem_create_cases [OF free c] in auto)

lemma terminate_simps [simp]:
  "halted (terminate_semaphore object st) = halted st" "pending_waits (terminate_semaphore object st) = pending_waits st"
  "semaphore_wakeups (terminate_semaphore object st) = semaphore_wakeups st"
  by (simp_all add: terminate_semaphore_def split: option.split)

lemma sem_at_terminate [simp]: "sem_at (terminate_semaphore object st) = (sem_at st)(object := None)"
  by (auto simp: terminate_semaphore_def fun_eq_iff sem_at_def split: option.split)

lemma terminations_terminate:
  "semaphore_terminations (terminate_semaphore object st) = semaphore_terminations st \<union> {t. queued st object t}"
  by (auto simp: terminate_semaphore_def queued_def split: option.split)

lemma queued_terminate: "queued (terminate_semaphore object st) o' t \<longleftrightarrow> o' \<noteq> object \<and> queued st o' t"
  by (simp add: queued_def)

lemma terminate_sems_ok: "sems_ok st \<Longrightarrow> sems_ok (terminate_semaphore object st)"
proof -
  assume ok: "sems_ok st"
  have "om_wf (semaphores (terminate_semaphore object st))"
    using ok by (simp add: terminate_semaphore_def sems_ok_def split: option.split)
  then show ?thesis using ok by (simp add: sems_ok_def)
qed

lemma terminate_hands_over: "hands_over st (terminate_semaphore object st)"
  by (auto simp: hands_over_def terminations_terminate queued_terminate)

lemma fold_terminate:
  "halted (fold terminate_semaphore os st) = halted st" "pending_waits (fold terminate_semaphore os st) = pending_waits st"
  "semaphore_wakeups (fold terminate_semaphore os st) = semaphore_wakeups st"
  "sem_at (fold terminate_semaphore os st) = (\<lambda>o'. if o' \<in> set os then None else sem_at st o')"
  "semaphore_terminations (fold terminate_semaphore os st) = semaphore_terminations st \<union> {t. \<exists>o'\<in>set os. queued st o' t}"
  "sems_ok st \<Longrightarrow> sems_ok (fold terminate_semaphore os st)"
  by (induction os arbitrary: st) (auto simp: terminations_terminate queued_terminate terminate_sems_ok fun_eq_iff)

lemma map_drop_process:
  "map_of (map (map_prod id (drop_process pid)) m) object = map_option (drop_process pid) (map_of m object)"
  by (induction m) auto

lemma om_wf_map_prod: "om_wf m \<Longrightarrow> om_wf (map (map_prod id f) m)"
  by (simp add: om_wf_def sorted_wrt_map case_prod_beta)

text \<open>What an exit leaves, thread by thread: nothing of its own process, and the terminations of the
  others that waited on semaphores it owned.\<close>

definition owned_by :: "u32 \<Rightarrow> semaphore_state \<Rightarrow> mach_object set" where
  "owned_by pid st = {object. \<exists>sem. sem_at st object = Some sem \<and> sem_owner sem = pid}"

lemma exit_facts:
  assumes ok: "sems_ok st" and v: "v = process_exit pid st"
  shows "sems_ok v"
    "t \<in> halted v \<longleftrightarrow> t \<in> halted st \<and> fst t \<noteq> pid"
    "pending_waits v t = (if fst t = pid then None else pending_waits st t)"
    "t \<in> semaphore_wakeups v \<longleftrightarrow> t \<in> semaphore_wakeups st \<and> fst t \<noteq> pid"
    "t \<in> semaphore_terminations v \<longleftrightarrow> (t \<in> semaphore_terminations st \<or> (\<exists>o'\<in>owned_by pid st. queued st o' t)) \<and> fst t \<noteq> pid"
    "queued v object t \<longleftrightarrow> queued st object t \<and> object \<notin> owned_by pid st \<and> fst t \<noteq> pid"
    "sem_at v object = (if object \<in> owned_by pid st then None else map_option (drop_process pid) (sem_at st object))"
proof -
  define c where "c = clear_pending pid st"
  define owned where "owned = map fst (filter (\<lambda>e. sem_owner (snd e) = pid) (semaphores c))"
  have c: "semaphores c = semaphores st" "sem_at c = sem_at st" "queued c = queued st" "sems_ok c"
    "semaphore_wakeups c = semaphore_wakeups st" "semaphore_terminations c = semaphore_terminations st"
    using ok by (simp_all add: c_def clear_pending_def sem_at_def queued_def sems_ok_def fun_eq_iff)
  have wf: "om_wf (semaphores st)" using ok by (simp add: sems_ok_def)
  have owned: "set owned = owned_by pid st"
    unfolding owned_def owned_by_def c sem_at_def using om_lookup_mem [OF wf] by force
  define w where "w = fold terminate_semaphore owned c"
  note fw = fold_terminate [where os = owned and st = c, folded w_def, unfolded c owned]
  have eq: "v = w\<lparr>semaphore_wakeups := Set.filter (\<lambda>t. fst t \<noteq> pid) (semaphore_wakeups w),
          semaphore_terminations := Set.filter (\<lambda>t. fst t \<noteq> pid) (semaphore_terminations w),
          semaphores := map (map_prod id (drop_process pid)) (semaphores w)\<rparr>"
    unfolding v process_exit_def terminate_exited_semaphores_def Let_def c_def [symmetric] owned_def [symmetric] w_def [symmetric] ..
  have wok: "sems_ok w" using fw(6) c(4) by simp
  show at: "sem_at v object = (if object \<in> owned_by pid st then None else map_option (drop_process pid) (sem_at st object))" for object
    unfolding eq sem_at_def using fw(4) by (simp add: map_drop_process sem_at_def fun_eq_iff)
  have "om_wf (semaphores v)"
    using wok unfolding eq by (simp add: om_wf_map_prod sems_ok_def)
  moreover have "sem_ok sem" if "sem_at v o' = Some sem" for o' sem
    using that at [of o'] ok by (auto simp: sems_ok_def sem_ok_def drop_process_def split: if_splits)
  ultimately show "sems_ok v" by (simp add: sems_ok_def)
  show "t \<in> halted v \<longleftrightarrow> t \<in> halted st \<and> fst t \<noteq> pid"
    unfolding eq using fw(1) by (auto simp: c_def clear_pending_def)
  show "pending_waits v t = (if fst t = pid then None else pending_waits st t)"
    unfolding eq using fw(2) by (simp add: c_def clear_pending_def)
  show "t \<in> semaphore_wakeups v \<longleftrightarrow> t \<in> semaphore_wakeups st \<and> fst t \<noteq> pid"
    unfolding eq using fw(3) by auto
  show "t \<in> semaphore_terminations v \<longleftrightarrow> (t \<in> semaphore_terminations st \<or> (\<exists>o'\<in>owned_by pid st. queued st o' t)) \<and> fst t \<noteq> pid"
    unfolding eq using fw(5) by auto
  show "queued v object t \<longleftrightarrow> queued st object t \<and> object \<notin> owned_by pid st \<and> fst t \<noteq> pid"
    unfolding queued_def at by (auto simp: drop_process_def)
qed

section \<open>Every history\<close>

lemma frame_inv:
  assumes "sem_inv st" and "sems_ok st'" and "queued st' = queued st" and "halted st' = halted st"
    and "pending_waits st' = pending_waits st" and "semaphore_wakeups st' = semaphore_wakeups st"
    and "semaphore_terminations st' = semaphore_terminations st"
  shows "sem_inv st'"
  using assms by (simp add: sem_inv_alt accounted_def)

lemma create_inv:
  assumes "sem_inv st" "sem_at st object = None" "semaphore_create pid task_name policy v object st = Inr (n, st')"
  shows "sem_inv st'"
  using assms(1) by (rule frame_inv) (use assms(1) sem_create_facts [OF _ assms(2,3)] in \<open>simp_all add: sem_inv_alt\<close>)

lemma destroy_inv: "sem_inv st \<Longrightarrow> sem_inv (snd (semaphore_destroy target object st))"
  using hands_over_inv [OF _ terminate_hands_over terminate_sems_ok]
  by (auto simp: semaphore_destroy_def sem_inv_alt split: option.split)

lemma exit_inv: "sem_inv st \<Longrightarrow> sem_inv (process_exit pid st)"
proof -
  assume inv: "sem_inv st"
  then have ok: "sems_ok st" by (simp add: sem_inv_alt)
  note f = exit_facts [OF ok refl, where pid = pid]
  have "accounted (process_exit pid st) t" if t: "t \<in> halted st" "fst t \<noteq> pid" for t
  proof -
    obtain p where "pending_waits st t = Some p"
      "t \<in> semaphore_wakeups st \<or> t \<in> semaphore_terminations st \<or> queued st (pw_semaphore p) t"
      using inv t(1) by (auto simp: sem_inv_def accounted_def)
    then show ?thesis using t(2) unfolding accounted_def f(3-6) by auto
  qed
  then show ?thesis unfolding sem_inv_alt using f(1,2) by blast
qed

lemma exec_inv: "sem_inv st \<Longrightarrow> sem_inv (process_exec pid st)"
  by (auto simp: sem_inv_alt process_exec_def clear_pending_def sems_ok_def sem_at_def accounted_def queued_def)

lemma trap_inv:
  assumes "sem_inv st" "thread \<notin> halted st"
  shows "sem_inv (snd (semaphore_trap thread n r0 r1 r2 r3 st))"
proof -
  have ok: "sems_ok st" using assms by (simp add: sem_inv_alt)
  have "sem_inv (snd (signal_semaphore p s a b st))" "sem_inv (snd (signal_semaphore_thread p s t st))" for p s a b t
    by (rule hands_over_inv [OF assms(1) signal_hands_over signal_sems_ok [OF ok]],
        rule hands_over_inv [OF assms(1) signal_thread_facts [OF ok]])
  then show ?thesis
    using assms(1) wait_inv [OF assms] by (simp add: semaphore_trap_def Let_def case_prod_beta)
qed

lemma semwait_inv:
  assumes "sem_inv st" "thread \<notin> halted st"
  shows "sem_inv (snd (semwait_signal thread w s timed relative ts st))"
  using assms(1) wait_inv [OF assms] by (simp add: semwait_signal_def split: option.split)

lemma sem_step_inv: "sem_inv st \<Longrightarrow> sem_inv (sem_step st e)"
proof -
  assume inv: "sem_inv st"
  show ?thesis
  proof (cases e)
    case (Set_Names t threads tasks)
    then show ?thesis using inv by (simp add: sem_inv_alt accounted_def queued_def sems_ok_def)
  next
    case (Advance d)
    then show ?thesis using inv by (simp add: sem_inv_alt accounted_def queued_def sems_ok_def)
  next
    case (Create pid task_name policy v object)
    then show ?thesis using inv create_inv [OF inv] by (auto split: sum.split)
  qed (use inv in \<open>auto simp: destroy_inv exit_inv exec_inv trap_inv semwait_inv resume_inv\<close>)
qed

lemma sem_init_inv: "sem_inv sem_init"
  by (simp add: sem_inv_def sem_init_def sem_at_def)

interpretation semaphores: machine sem_init sem_step sem_inv
  by unfold_locales (simp_all add: sem_init_inv sem_step_inv)

lemma sem_run_inv: "sem_inv (sem_run es)"
  unfolding sem_run_def by (rule semaphores.run_inv)

section \<open>Clean histories\<close>

text \<open>The place of one thread: running, with no trace of it anywhere, or halted with a pending wait and
  either woken, terminated, or queued at the semaphore it waits for and at no other.\<close>

definition placed :: "bool \<Rightarrow> pending_semaphore_wait option \<Rightarrow> bool \<Rightarrow> bool \<Rightarrow> mach_object set \<Rightarrow> bool" where
  "placed waits pending woken terminated queues \<longleftrightarrow>
     (if waits then (\<exists>p. pending = Some p \<and> (if woken then \<not> terminated \<and> queues = {}
          else if terminated then queues = {} else queues = {pw_semaphore p}))
      else pending = None \<and> \<not> woken \<and> \<not> terminated \<and> queues = {})"

definition queues_of :: "semaphore_state \<Rightarrow> guest_thread \<Rightarrow> mach_object set" where
  "queues_of st t = {object. queued st object t}"

definition thread_placed :: "semaphore_state \<Rightarrow> guest_thread \<Rightarrow> bool" where
  "thread_placed st t \<longleftrightarrow> placed (t \<in> halted st) (pending_waits st t) (t \<in> semaphore_wakeups st)
     (t \<in> semaphore_terminations st) (queues_of st t)"

definition sem_strict :: "semaphore_state \<Rightarrow> bool" where
  "sem_strict st \<longleftrightarrow> sems_ok st \<and> (\<forall>object sem. sem_at st object = Some sem \<longrightarrow> distinct (sem_waiters sem)) \<and>
     (\<forall>t. thread_placed st t)"

text \<open>The paired signal of a wait reaches a semaphore or fails before the wait; an exec finds no halted
  thread of its process.\<close>

definition pair_clean :: "semaphore_state \<Rightarrow> u32 \<Rightarrow> mach_name \<Rightarrow> bool" where
  "pair_clean st pid name \<longleftrightarrow> name = 0 \<or>
     (case resolve_name_with_right st pid name Send of None \<Rightarrow> True | Some object \<Rightarrow> sem_at st object \<noteq> None)"

fun clean :: "semaphore_state \<Rightarrow> sem_event \<Rightarrow> bool" where
  "clean st (Trap t n r0 r1 r2 r3) \<longleftrightarrow> n \<in> {33, 34, 35, 36, 38} \<or> pair_clean st (fst t) r1"
| "clean st (Semwait t w s timed relative ts) \<longleftrightarrow> pair_clean st (fst t) s"
| "clean st (Exec pid) \<longleftrightarrow> (\<forall>t\<in>halted st. fst t \<noteq> pid)"
| "clean st e \<longleftrightarrow> True"

definition clean_step :: "semaphore_state \<Rightarrow> sem_event \<Rightarrow> semaphore_state" where
  "clean_step st e = (if clean st e then sem_step st e else st)"

definition clean_run :: "sem_event list \<Rightarrow> semaphore_state" where
  "clean_run es = foldl clean_step sem_init es"

lemma strictD:
  assumes "sem_strict st"
  shows "sems_ok st" "sem_at st object = Some sem \<Longrightarrow> distinct (sem_waiters sem)" "thread_placed st t"
  using assms unfolding sem_strict_def by blast+

lemma strict_queued:
  assumes "sem_strict st" "sem_at st object = Some sem" "t \<in> set (sem_waiters sem)"
  shows "t \<in> halted st" "t \<notin> semaphore_wakeups st" "t \<notin> semaphore_terminations st" "queues_of st t = {object}"
    "\<exists>p. pending_waits st t = Some p \<and> pw_semaphore p = object"
proof -
  have q: "object \<in> queues_of st t" using assms(2,3) by (simp add: queues_of_def queued_def)
  show "t \<in> halted st" "t \<notin> semaphore_wakeups st" "t \<notin> semaphore_terminations st" "queues_of st t = {object}"
    "\<exists>p. pending_waits st t = Some p \<and> pw_semaphore p = object"
    using strictD(3) [OF assms(1), of t] q unfolding thread_placed_def placed_def by (auto split: if_splits)
qed

lemma queues_upd:
  "sem_at st' = (sem_at st)(object \<mapsto> sem) \<Longrightarrow>
   queues_of st' t = (queues_of st t - {object}) \<union> (if t \<in> set (sem_waiters sem) then {object} else {})"
  by (auto simp: queues_of_def queued_def)

text \<open>Some waiters of one semaphore are given their wake-ups.\<close>

lemma wake_strict:
  assumes st: "sem_strict st" and o: "sem_at st object = Some sem" and ws: "ws \<subseteq> set (sem_waiters sem)"
    and at: "sem_at st' = (sem_at st)(object \<mapsto> sem')" and d: "distinct (sem_waiters sem')"
    and set: "set (sem_waiters sem') = set (sem_waiters sem) - ws" and ok: "sems_ok st'"
    and same: "halted st' = halted st" "pending_waits st' = pending_waits st"
      "semaphore_terminations st' = semaphore_terminations st"
    and w: "semaphore_wakeups st' = semaphore_wakeups st \<union> ws"
  shows "sem_strict st'"
proof -
  have "thread_placed st' t" for t
  proof (cases "t \<in> ws")
    case True
    then have m: "t \<in> set (sem_waiters sem)" using ws by blast
    note q = strict_queued [OF st o m]
    have "queues_of st' t = {}" using queues_upd [OF at, of t] q(4) set True by simp
    then show ?thesis using q True by (auto simp: thread_placed_def placed_def same w)
  next
    case False
    have "object \<in> queues_of st t \<longleftrightarrow> t \<in> set (sem_waiters sem)" using o by (simp add: queues_of_def queued_def)
    then have "queues_of st' t = queues_of st t" using queues_upd [OF at, of t] set False by auto
    then show ?thesis using strictD(3) [OF st, of t] False by (simp add: thread_placed_def same w)
  qed
  then show ?thesis using ok d strictD(2) [OF st] at by (auto simp: sem_strict_def)
qed

lemma signal_strict:
  assumes st: "sem_strict st"
  shows "sem_strict (snd (signal_semaphore pid name all prepost st))"
proof (cases "Option.bind (resolve_name_with_right st pid name Send) (sem_at st)")
  case None
  then have "snd (signal_semaphore pid name all prepost st) = st"
    by (auto simp: signal_semaphore_def split: option.splits)
  then show ?thesis using st by simp
next
  case (Some sem)
  then obtain object where o: "resolve_name_with_right st pid name Send = Some object" "sem_at st object = Some sem"
    by (auto simp: bind_eq_Some_conv)
  define v where "v = snd (signal_semaphore pid name all prepost st)"
  have ok: "sems_ok v" unfolding v_def by (rule signal_sems_ok [OF strictD(1) [OF st]])
  have d: "distinct (sem_waiters sem)" by (rule strictD(2) [OF st o(2)])
  define ws where "ws = (if all then set (sem_waiters sem) else set (take 1 (sem_waiters sem)))"
  define sem' where "sem' = the (sem_at v object)"
  note sig = v_def signal_semaphore_def o option.case
  have at: "sem_at v = (sem_at st)(object \<mapsto> sem')"
    unfolding sem'_def sig by (auto simp: fun_eq_iff o(2) split: list.split)
  have "halted v = halted st" "pending_waits v = pending_waits st" "semaphore_terminations v = semaphore_terminations st"
    "semaphore_wakeups v = semaphore_wakeups st \<union> ws"
    unfolding sig ws_def by (auto split: list.split)
  moreover have "distinct (sem_waiters sem') \<and> set (sem_waiters sem') = set (sem_waiters sem) - ws"
    using d unfolding sem'_def sig ws_def by (auto simp: o(2) split: list.split)
  moreover have "ws \<subseteq> set (sem_waiters sem)" by (auto simp: ws_def dest: in_set_takeD)
  ultimately show ?thesis using wake_strict [OF st o(2) _ at _ _ ok] unfolding v_def by blast
qed

lemma signal_thread_strict:
  assumes st: "sem_strict st"
  shows "sem_strict (snd (signal_semaphore_thread pid s t st))"
proof -
  define v where "v = snd (signal_semaphore_thread pid s t st)"
  have ok: "sems_ok v" unfolding v_def by (rule signal_thread_facts(2) [OF strictD(1) [OF st]])
  define wake where "wake object sem w = set_semaphore object (sem\<lparr>sem_waiters := remove1 w (sem_waiters sem)\<rparr>)
      (st\<lparr>semaphore_wakeups := insert w (semaphore_wakeups st)\<rparr>)" for object sem w
  define P where "P x \<longleftrightarrow> x = st \<or> (\<exists>object sem w. sem_at st object = Some sem \<and> w \<in> set (sem_waiters sem) \<and> x = wake object sem w)" for x
  have P: "P st" "sem_at st object = Some sem \<Longrightarrow> w \<in> set (sem_waiters sem) \<Longrightarrow> P (wake object sem w)" for object sem w
    by (auto simp: P_def simp del: split_paired_Ex)
  have "P v"
    unfolding v_def signal_semaphore_thread_def Let_def wake_def [symmetric] by (auto simp: P split: option.split list.split)
  then consider "v = st" | object sem w where "sem_at st object = Some sem" "w \<in> set (sem_waiters sem)" "v = wake object sem w" unfolding P_def by blast
  then have "sem_strict v"
  proof cases
    case 2
    note d = strictD(2) [OF st 2(1)]
    show ?thesis
      by (rule wake_strict [OF st 2(1), where ws = "{w}" and sem' = "sem\<lparr>sem_waiters := remove1 w (sem_waiters sem)\<rparr>"]) (use 2 d ok in \<open>auto simp: fun_eq_iff wake_def\<close>)
  qed (use st in simp)
  then show ?thesis by (simp add: v_def)
qed

lemma signal_halted:
  "signal_semaphore pid name all prepost (st\<lparr>halted := h\<rparr>) =
     (let (r, v) = signal_semaphore pid name all prepost st in (r, v\<lparr>halted := h\<rparr>))"
  by (auto simp: signal_semaphore_def resolve_name_with_right_def set_semaphore_def split: option.split list.split)

lemma signal_same_halted [simp]: "halted (snd (signal_semaphore pid name all prepost st)) = halted st"
  by (auto simp: signal_semaphore_def split: option.splits list.splits)

text \<open>A wait that blocks, with the thread marked halted at once, queues exactly that thread.\<close>

lemma block_strict:
  assumes st: "sem_strict st" and o: "sem_at st object = Some sem" and t: "t \<notin> halted st" and c: "\<not> 0 < sem_count sem"
  shows "sem_strict ((set_semaphore object (sem\<lparr>sem_waiters := sem_waiters sem @ [t]\<rparr>) st)
       \<lparr>pending_waits := (pending_waits st)(t \<mapsto> \<lparr>pw_semaphore = object, pw_deadline = d, pw_bsd = b\<rparr>),
        halted := insert t (halted st)\<rparr>)" (is "sem_strict ?v")
proof -
  define sem' where "sem' = sem\<lparr>sem_waiters := sem_waiters sem @ [t]\<rparr>"
  have at: "sem_at ?v = (sem_at st)(object \<mapsto> sem')" by (simp add: fun_eq_iff sem'_def)
  have q: "placed False (pending_waits st t) (t \<in> semaphore_wakeups st) (t \<in> semaphore_terminations st) (queues_of st t)"
    using strictD(3) [OF st, of t] t by (simp add: thread_placed_def)
  have new: "t \<notin> set (sem_waiters sem)" using strict_queued(1) [OF st o] t by blast
  have qs: "queues_of ?v t = {object}" using queues_upd [OF at, of t] q by (simp add: sem'_def placed_def)
  have other: "queues_of ?v u = queues_of st u" if "u \<noteq> t" for u
    using queues_upd [OF at, of u] that o by (auto simp: sem'_def queues_of_def queued_def)
  have "thread_placed ?v u" for u
  proof (cases "u = t")
    case True
    then show ?thesis using qs q unfolding thread_placed_def True by (simp add: placed_def)
  next
    case False
    then show ?thesis using strictD(3) [OF st, of u] other [OF False] by (simp add: thread_placed_def)
  qed
  moreover have "sems_ok ?v"
  proof -
    have "sem_ok sem" by (rule sem_okD [OF strictD(1) [OF st] o])
    then have "sem_ok sem'" using c by (simp add: sem_ok_def sem'_def)
    then show ?thesis using strictD(1) [OF st] by (simp add: sems_ok_def sem'_def)
  qed
  moreover have "distinct (sem_waiters s)" if "sem_at ?v o' = Some s" for o' s
    using that strictD(2) [OF st] new o unfolding at by (auto simp: sem'_def split: if_splits)
  ultimately show ?thesis unfolding sem_strict_def by blast
qed

lemma signal_clean_result:
  "pair_clean st pid name \<Longrightarrow> name \<noteq> 0 \<Longrightarrow> resolve_name_with_right st pid name Send \<noteq> None \<Longrightarrow>
   fst (signal_semaphore pid name all prepost st) = 0"
  by (auto simp: pair_clean_def signal_semaphore_def split: option.splits)

lemma count_strict:
  assumes st: "sem_strict st" and o: "sem_at st object = Some sem"
    and s: "sem_waiters sem' = sem_waiters sem" "sem_ok sem'"
  shows "sem_strict (set_semaphore object sem' st)"
proof -
  have q: "queues_of (set_semaphore object sem' st) = queues_of st"
    using o s(1) by (auto simp: queues_of_def queued_def fun_eq_iff)
  show ?thesis
    using st o s unfolding sem_strict_def thread_placed_def q by (auto simp: sems_ok_set)
qed

lemma wait_strict:
  assumes st: "sem_strict st" and t: "thread \<notin> halted st" and c: "pair_clean st (fst thread) sn"
  shows "sem_strict (snd (wait_on_semaphore thread wn sn timeout bsd st))"
proof (cases "Option.bind (resolve_name_with_right st (fst thread) wn Send) (sem_at st)")
  case None
  then show ?thesis using st unfolding wait_split wait_begin_def None option.case Let_def by (simp add: kern_invalid_argument_def)
next
  case (Some sem)
  then obtain object where o: "resolve_name_with_right st (fst thread) wn Send = Some object" "sem_at st object = Some sem"
    by (auto simp: bind_eq_Some_conv)
  have so: "sem_ok sem" by (rule sem_okD [OF strictD(1) [OF st] o(2)])
  define taken where "taken = set_semaphore object (sem\<lparr>sem_count := sem_count sem - 1\<rparr>) st"
  define blocked where "blocked = (set_semaphore object (sem\<lparr>sem_waiters := sem_waiters sem @ [thread]\<rparr>) st)
       \<lparr>pending_waits := (pending_waits st)(thread \<mapsto> \<lparr>pw_semaphore = object,
          pw_deadline = map_option (\<lambda>t. vc_now (clock st) + t) timeout, pw_bsd = bsd\<rparr>)\<rparr>"
  define r where "r = snd (wait_on_semaphore thread wn sn timeout bsd st)"
  define h where "h = insert thread (halted st)"
  have taken: "sem_strict taken" if "0 < sem_count sem"
    unfolding taken_def by (rule count_strict [OF st o(2)]) (use so that in \<open>auto simp: sem_ok_def\<close>)
  have block: "sem_strict (blocked\<lparr>halted := h\<rparr>)" if "\<not> 0 < sem_count sem"
    using block_strict [OF st o(2) t that] by (simp add: blocked_def h_def)
  have res: "resolve_name_with_right blocked = resolve_name_with_right st"
    by (simp add: resolve_name_with_right_def blocked_def fun_eq_iff)
  have w: "wait_begin thread wn sn timeout bsd st =
      (if sn \<noteq> 0 \<and> resolve_name_with_right st (fst thread) sn Send = None then (kern_invalid_argument, False, st)
       else if sem_count sem > 0 then (0, False, taken)
       else if timeout = Some 0 then (kern_operation_timed_out, False, st) else (0, True, blocked))"
    unfolding wait_begin_def o Option.bind.bind_lunit Some option.case option.sel Let_def taken_def blocked_def ..
  have hb: "halted blocked = halted st" by (simp add: blocked_def)
  note r = r_def wait_split w
  consider "r = st" | "0 < sem_count sem" "r = (if sn = 0 then taken else snd (signal_semaphore (fst thread) sn False True taken))"
    | "\<not> 0 < sem_count sem" "sn = 0" "r = blocked\<lparr>halted := h\<rparr>"
    | "\<not> 0 < sem_count sem" "sn \<noteq> 0" "resolve_name_with_right st (fst thread) sn Send \<noteq> None"
      "r = (if fst (signal_semaphore (fst thread) sn False True blocked) = 0
         then snd (signal_semaphore (fst thread) sn False True (blocked\<lparr>halted := h\<rparr>))
         else snd (signal_semaphore (fst thread) sn False True blocked))"
  proof (cases "sn \<noteq> 0 \<and> resolve_name_with_right st (fst thread) sn Send = None")
    case True
    then have "r = st" unfolding r by (simp add: kern_invalid_argument_def)
    then show ?thesis by (rule that(1))
  next
    case f: False
    show ?thesis
    proof (cases "0 < sem_count sem")
      case True
      then have "r = (if sn = 0 then taken else snd (signal_semaphore (fst thread) sn False True taken))"
        unfolding r if_not_P [OF f] if_P [OF True] by (simp add: case_prod_beta Let_def)
      with True show ?thesis by (rule that(2))
    next
      case c: False
      show ?thesis
      proof (cases "timeout = Some 0")
        case True
        have "r = st" unfolding r if_not_P [OF f] if_not_P [OF c] if_P [OF True] by (simp add: kern_operation_timed_out_def)
        then show ?thesis by (rule that(1))
      next
        case False
        note eq = r if_not_P [OF f] if_not_P [OF c] if_not_P [OF False]
        show ?thesis
        proof (cases "sn = 0")
          case True
          have "r = blocked\<lparr>halted := h\<rparr>" unfolding eq by (simp add: True hb h_def)
          with c True show ?thesis by (rule that(3))
        next
          case False
          then have res: "resolve_name_with_right st (fst thread) sn Send \<noteq> None" using f by simp
          have "r = (if fst (signal_semaphore (fst thread) sn False True blocked) = 0
             then snd (signal_semaphore (fst thread) sn False True (blocked\<lparr>halted := h\<rparr>))
             else snd (signal_semaphore (fst thread) sn False True blocked))"
            unfolding eq using False by (simp add: case_prod_beta Let_def signal_halted hb h_def)
          with c False res show ?thesis by (rule that(4))
        qed
      qed
    qed
  qed
  then have "sem_strict r"
  proof cases
    case 2
    then show ?thesis using taken signal_strict by simp
  next
    case 4
    have "pair_clean blocked (fst thread) sn"
      using c unfolding pair_clean_def res by (auto simp: blocked_def split: option.splits)
    then have "fst (signal_semaphore (fst thread) sn False True blocked) = 0"
      using 4(2,3) by (simp add: signal_clean_result res)
    then show ?thesis using 4 block signal_strict by simp
  qed (use st block in simp_all)
  then show ?thesis by (simp add: r_def)
qed

lemma thread_placed_update:
  assumes "sem_strict st" and "sems_ok st'" and "\<And>o' sem. sem_at st' o' = Some sem \<Longrightarrow> distinct (sem_waiters sem)"
    and "thread_placed st' t"
    and "\<And>u. u \<noteq> t \<Longrightarrow> (u \<in> halted st' \<longleftrightarrow> u \<in> halted st) \<and> pending_waits st' u = pending_waits st u \<and>
      (u \<in> semaphore_wakeups st' \<longleftrightarrow> u \<in> semaphore_wakeups st) \<and>
      (u \<in> semaphore_terminations st' \<longleftrightarrow> u \<in> semaphore_terminations st) \<and> queues_of st' u = queues_of st u"
  shows "sem_strict st'"
proof -
  have "thread_placed st' u" for u
    by (cases "u = t") (use assms(4,5) strictD(3) [OF assms(1), of u] in \<open>simp_all add: thread_placed_def\<close>)
  then show ?thesis using assms(2,3) unfolding sem_strict_def by blast
qed

text \<open>The poll of a halted thread in a strict state, by what it finds.\<close>

definition expired :: "pending_semaphore_wait \<Rightarrow> semaphore_state \<Rightarrow> bool" where
  "expired p st \<longleftrightarrow> (case pw_deadline p of None \<Rightarrow> False | Some d \<Rightarrow> vc_now (clock st) \<ge> d)"

definition release :: "guest_thread \<Rightarrow> semaphore_state \<Rightarrow> semaphore_state" where
  "release t st = st\<lparr>pending_waits := (pending_waits st)(t := None), halted := halted st - {t}\<rparr>"

lemma resume_cases:
  assumes "pending_waits st t = Some p"
  shows "t \<in> semaphore_terminations st \<Longrightarrow> snd (resume_wait t st) = release t (st\<lparr>semaphore_terminations := semaphore_terminations st - {t}\<rparr>)"
    "t \<notin> semaphore_terminations st \<Longrightarrow> t \<in> semaphore_wakeups st \<Longrightarrow>
       snd (resume_wait t st) = release t (st\<lparr>semaphore_wakeups := semaphore_wakeups st - {t}\<rparr>)"
    "t \<notin> semaphore_terminations st \<Longrightarrow> t \<notin> semaphore_wakeups st \<Longrightarrow> \<not> expired p st \<Longrightarrow> snd (resume_wait t st) = st"
    "t \<notin> semaphore_terminations st \<Longrightarrow> t \<notin> semaphore_wakeups st \<Longrightarrow> expired p st \<Longrightarrow>
       sem_at st (pw_semaphore p) = Some sem \<Longrightarrow> snd (resume_wait t st) =
       release t (set_semaphore (pw_semaphore p) (sem\<lparr>sem_waiters := removeAll t (sem_waiters sem)\<rparr>) st)"
  using assms by (simp_all add: resume_wait_def Let_def release_def expired_def)

lemma release_simps [simp]:
  "sem_at (release t st) = sem_at st" "queues_of (release t st) = queues_of st"
  "semaphore_wakeups (release t st) = semaphore_wakeups st" "semaphore_terminations (release t st) = semaphore_terminations st"
  "halted (release t st) = halted st - {t}" "pending_waits (release t st) = (pending_waits st)(t := None)"
  "semaphores (release t st) = semaphores st"
  by (simp_all add: release_def fun_eq_iff queues_of_def queued_def)

lemma queues_of_update [simp]:
  "queues_of (st\<lparr>semaphore_wakeups := x\<rparr>) = queues_of st" "queues_of (st\<lparr>semaphore_terminations := x\<rparr>) = queues_of st"
  by (simp_all add: fun_eq_iff queues_of_def queued_def)

lemma poll_strict:
  assumes st: "sem_strict st"
  shows "sem_strict (snd (resume_wait t st))"
proof (cases "pending_waits st t")
  case None
  then show ?thesis using st by (simp add: resume_wait_def)
next
  case (Some p)
  have pl: "placed (t \<in> halted st) (Some p) (t \<in> semaphore_wakeups st) (t \<in> semaphore_terminations st) (queues_of st t)"
    using strictD(3) [OF st, of t] Some by (simp add: thread_placed_def)
  define v where "v = snd (resume_wait t st)"
  note ok = strictD(1) [OF st] and d = strictD(2) [OF st]
  consider (gone) "t \<in> semaphore_terminations st" | (woken) "t \<notin> semaphore_terminations st" "t \<in> semaphore_wakeups st"
    | (still) "t \<notin> semaphore_terminations st" "t \<notin> semaphore_wakeups st" "\<not> expired p st"
    | (late) sem where "t \<notin> semaphore_terminations st" "t \<notin> semaphore_wakeups st" "expired p st" "sem_at st (pw_semaphore p) = Some sem"
        "queues_of st t = {pw_semaphore p}"
  proof -
    have "queues_of st t = {pw_semaphore p} \<and> (\<exists>sem. sem_at st (pw_semaphore p) = Some sem)"
      if "t \<notin> semaphore_terminations st" "t \<notin> semaphore_wakeups st"
      using pl that by (auto simp: placed_def queues_of_def queued_def split: if_splits)
    then show ?thesis using that by blast
  qed
  then have "sem_strict v"
  proof cases
    case gone
    then have v: "v = release t (st\<lparr>semaphore_terminations := semaphore_terminations st - {t}\<rparr>)"
      unfolding v_def by (rule resume_cases(1) [OF Some])
    show ?thesis
      by (rule thread_placed_update [OF st, where t = t])
        (use ok d pl gone in \<open>auto simp: v sems_ok_def thread_placed_def placed_def split: if_splits\<close>)
  next
    case woken
    then have v: "v = release t (st\<lparr>semaphore_wakeups := semaphore_wakeups st - {t}\<rparr>)"
      unfolding v_def by (rule resume_cases(2) [OF Some])
    show ?thesis
      by (rule thread_placed_update [OF st, where t = t])
        (use ok d pl woken in \<open>auto simp: v sems_ok_def thread_placed_def placed_def split: if_splits\<close>)
  next
    case still
    then have "v = st" unfolding v_def by (rule resume_cases(3) [OF Some])
    then show ?thesis using st by simp
  next
    case (late sem)
    define sem' where "sem' = sem\<lparr>sem_waiters := removeAll t (sem_waiters sem)\<rparr>"
    have v: "v = release t (set_semaphore (pw_semaphore p) sem' st)"
      unfolding v_def sem'_def by (rule resume_cases(4) [OF Some late(1-4)])
    have at: "sem_at v = (sem_at st)(pw_semaphore p \<mapsto> sem')" by (simp add: v fun_eq_iff)
    have "sem_ok sem'" using sem_okD [OF ok late(4)] by (auto simp: sem_ok_def sem'_def)
    then have "sems_ok v" using ok by (simp add: v sems_ok_def)
    moreover have "queues_of v t = {}" using queues_upd [OF at, of t] late(5) by (simp add: sem'_def)
    moreover have "queues_of v u = queues_of st u" if "u \<noteq> t" for u
      using queues_upd [OF at, of u] that late(4) by (auto simp: sem'_def queues_of_def queued_def)
    ultimately show ?thesis
      by (intro thread_placed_update [OF st, where t = t])
        (use d late in \<open>auto simp: at sem'_def distinct_removeAll thread_placed_def placed_def v split: if_splits\<close>)
  qed
  then show ?thesis by (simp add: v_def)
qed

lemma unqueue_strict:
  assumes st: "sem_strict st" and o: "sem_at st object = Some sem"
  shows "sem_strict (terminate_semaphore object st)"
proof -
  define v where "v = terminate_semaphore object st"
  have q: "queues_of v t = queues_of st t - {object}" for t
    by (auto simp: queues_of_def v_def queued_terminate)
  have "thread_placed v t" for t
  proof (cases "queued st object t")
    case True
    then have m: "t \<in> set (sem_waiters sem)" using o by (simp add: queued_def)
    note f = strict_queued [OF st o m]
    then show ?thesis using True
      by (auto simp: thread_placed_def placed_def q) (auto simp: v_def terminations_terminate)
  next
    case False
    then have "queues_of v t = queues_of st t" using q [of t] by (auto simp: queues_of_def)
    then show ?thesis
      using strictD(3) [OF st, of t] False by (simp add: thread_placed_def v_def terminations_terminate)
  qed
  moreover have "sems_ok v" unfolding v_def by (rule terminate_sems_ok [OF strictD(1) [OF st]])
  ultimately show ?thesis
    using strictD(2) [OF st] unfolding sem_strict_def v_def by (auto split: if_splits)
qed

lemma destroy_strict: "sem_strict st \<Longrightarrow> sem_strict (snd (semaphore_destroy target object st))"
  using unqueue_strict by (auto simp: semaphore_destroy_def bind_eq_Some_conv split: option.splits)

lemma exit_strict:
  assumes st: "sem_strict st"
  shows "sem_strict (process_exit pid st)"
proof -
  note f = exit_facts [OF strictD(1) [OF st] refl, where pid = pid]
  define v where "v = process_exit pid st"
  note f = f [folded v_def]
  have q: "queues_of v t = (if fst t = pid then {} else queues_of st t - owned_by pid st)" for t
    unfolding queues_of_def f(6) by auto
  have "thread_placed v t" for t
  proof (cases "fst t = pid")
    case True
    then show ?thesis by (simp add: thread_placed_def placed_def q f(2-5))
  next
    case False
    have p: "placed (t \<in> halted st) (pending_waits st t) (t \<in> semaphore_wakeups st) (t \<in> semaphore_terminations st) (queues_of st t)"
      using strictD(3) [OF st, of t] by (simp add: thread_placed_def)
    show ?thesis
    proof (cases "\<exists>o'\<in>owned_by pid st. queued st o' t")
      case True
      then obtain o' sem where o': "o' \<in> owned_by pid st" "sem_at st o' = Some sem" "t \<in> set (sem_waiters sem)"
        by (auto simp: queued_def)
      note g = strict_queued [OF st o'(2,3)]
      have "queues_of v t = {}" using q [of t] False g(4) o'(1) by simp
      then show ?thesis using g False True by (auto simp: thread_placed_def placed_def f(2-5))
    next
      case no: False
      then have "queues_of v t = queues_of st t" using q [of t] False by (auto simp: queues_of_def)
      then show ?thesis using p no False by (simp add: thread_placed_def f(2-5))
    qed
  qed
  moreover have "distinct (sem_waiters sem)" if "sem_at v o' = Some sem" for o' sem
    using that strictD(2) [OF st] unfolding f(7) by (auto simp: drop_process_def split: if_splits)
  ultimately show ?thesis using f(1) unfolding sem_strict_def v_def [symmetric] by blast
qed

lemma same_strict:
  assumes "sem_strict st" "sem_at st' = sem_at st" "om_wf (semaphores st')" "halted st' = halted st" "pending_waits st' = pending_waits st"
    "semaphore_wakeups st' = semaphore_wakeups st" "semaphore_terminations st' = semaphore_terminations st"
  shows "sem_strict st'"
  using assms by (simp add: sem_strict_def thread_placed_def queues_of_def queued_def sems_ok_def)

lemma create_strict:
  assumes st: "sem_strict st" and free: "sem_at st object = None"
    and c: "semaphore_create pid task_name policy v object st = Inr (n, st')"
  shows "sem_strict st'"
proof -
  note f = sem_create_facts [OF strictD(1) [OF st] free c]
  have "queues_of st' = queues_of st" using f(2) by (simp add: queues_of_def fun_eq_iff)
  moreover have "distinct (sem_waiters sem)" if "sem_at st' o' = Some sem" for o' sem
    using f(7) that strictD(2) [OF st] by (auto split: if_splits)
  ultimately show ?thesis using f(1,3-6) strictD(3) [OF st] by (simp add: sem_strict_def thread_placed_def)
qed

lemma exec_strict: "sem_strict st \<Longrightarrow> \<forall>t\<in>halted st. fst t \<noteq> pid \<Longrightarrow> sem_strict (process_exec pid st)"
proof (rule same_strict)
  assume st: "sem_strict st" and h: "\<forall>t\<in>halted st. fst t \<noteq> pid"
  have "pending_waits st t = None" if "fst t = pid" for t
    using strictD(3) [OF st, of t] h that by (auto simp: thread_placed_def placed_def)
  then show "pending_waits (process_exec pid st) = pending_waits st"
    by (simp add: process_exec_def clear_pending_def fun_eq_iff)
  show "halted (process_exec pid st) = halted st" using h by (auto simp: process_exec_def clear_pending_def)
  show "om_wf (semaphores (process_exec pid st))"
    using strictD(1) [OF st] by (simp add: process_exec_def clear_pending_def sems_ok_def)
qed (simp_all add: process_exec_def clear_pending_def sem_at_def fun_eq_iff)

lemma trap_strict:
  assumes st: "sem_strict st" and t: "t \<notin> halted st" and c: "clean st (Trap t n r0 r1 r2 r3)"
  shows "sem_strict (snd (semaphore_trap t n r0 r1 r2 r3 st))"
proof -
  have none: "pair_clean st pid 0" for pid by (simp add: pair_clean_def)
  show ?thesis
    using wait_strict [OF st t none] wait_strict [OF st t, of r1] c
    by (auto simp: semaphore_trap_def Let_def case_prod_beta signal_strict [OF st] signal_thread_strict [OF st] st)
qed

lemma clean_step_strict: "sem_strict st \<Longrightarrow> sem_strict (clean_step st e)"
proof -
  assume st: "sem_strict st"
  have "sem_strict (sem_step st e)" if c: "clean st e"
  proof (cases e)
    case (Set_Names t threads tasks)
    then show ?thesis using strictD(1) [OF st] by (intro same_strict [OF st]) (simp_all add: sems_ok_def)
  next
    case (Advance d)
    then show ?thesis using strictD(1) [OF st] by (intro same_strict [OF st]) (simp_all add: sems_ok_def)
  next
    case (Create pid task_name policy v object)
    then show ?thesis using st create_strict [OF st] by (auto split: sum.split)
  next
    case (Trap t n r0 r1 r2 r3)
    then show ?thesis using st c trap_strict [OF st] by simp
  next
    case (Semwait t w s timed relative ts)
    then show ?thesis using st c wait_strict [OF st] by (simp add: semwait_signal_def split: option.split)
  qed (use st c in \<open>simp_all add: destroy_strict exit_strict exec_strict poll_strict\<close>)
  then show ?thesis using st by (simp add: clean_step_def)
qed

lemma sem_init_strict: "sem_strict sem_init"
  by (simp add: sem_strict_def sems_ok_def sem_init_def sem_at_def thread_placed_def placed_def queues_of_def queued_def)

interpretation clean_semaphores: machine sem_init clean_step sem_strict
  by unfold_locales (simp_all add: sem_init_strict clean_step_strict)

lemma clean_run_strict: "sem_strict (clean_run es)"
  unfolding clean_run_def by (rule clean_semaphores.run_inv)

end
