(* ===== verification/Mach_Semaphore_Properties.thy ===== *)
theory Mach_Semaphore_Properties
  imports Mach_Semaphore_Histories
begin

text \<open>The properties of Mach semaphores, with their witnesses.\<close>

section \<open>A small world\<close>

text \<open>Process 1 creates two semaphores through the name 3 of its own task and then calls them 7 and 11;
  the name 15 is a send right of a plain port. Two of its threads wait for the first semaphore.\<close>

definition example_names :: "namespace_table" where
  "example_names = [(1, \<lparr>sp_next_name = first_dynamic_name,
     sp_entries = [(3, make_entry 2 (type_mask Send) 1), (7, make_entry 16 (type_mask Send) 1),
       (11, make_entry 17 (type_mask Send) 1), (15, make_entry 18 (type_mask Send) 1)], sp_names = (\<lambda>_. None)\<rparr>)]"

definition example_reset :: sem_event where
  "example_reset = Set_Names example_names (\<lambda>_. None) (\<lambda>object. if object = 2 then Some 1 else None)"

definition example_setup :: "sem_event list" where
  "example_setup = [example_reset, Create 1 3 0 0 16, example_reset, Create 1 3 0 0 17, example_reset]"

definition setup_world :: semaphore_state where
  "setup_world = sem_init\<lparr>names := example_names, task_owner := (\<lambda>object. if object = 2 then Some 1 else None),
     semaphores := [(16, \<lparr>sem_count = 0, sem_owner = 1, sem_waiters = []\<rparr>), (17, \<lparr>sem_count = 0, sem_owner = 1, sem_waiters = []\<rparr>)],
     port_objects := {17, 16}\<rparr>"

definition waiting_events :: "sem_event list" where
  "waiting_events = example_setup @ [Trap (1, 0) 36 7 0 0 0, Trap (1, 1) 36 7 0 0 0]"

lemma example_resolves:
  assumes "names st = example_names"
  shows "resolve_name_with_right st 1 3 Send = Some 2" "resolve_name_with_right st 1 7 Send = Some 16"
    "resolve_name_with_right st 1 11 Send = Some 17" "resolve_name_with_right st 1 15 Send = Some 18"
  using assms by (simp_all add: resolve_name_with_right_def lookup_def example_names_def make_entry_def type_mask_def)

lemma example_copyout: "object \<noteq> 0 \<Longrightarrow> \<exists>t. copyout 1 object (type_mask Send) example_names = Inr (Some first_dynamic_name, t)"
proof -
  assume o: "object \<noteq> 0"
  define sp where "sp = the (map_of example_names 1)"
  have sp: "space_of 1 example_names = sp" "sp_names sp object = None" "space_of 1 (om_put 1 sp example_names) = sp"
    "sp_next_name sp = first_dynamic_name" "map_of (sp_entries sp) first_dynamic_name = None"
    by (simp_all add: sp_def space_of_def example_names_def first_dynamic_name_def)
  have "free_candidate (sp_entries sp) first_dynamic_name = Some first_dynamic_name"
    using sp(5) by (subst free_candidate.simps) (simp add: valid_name_def first_dynamic_name_def null_name_def dead_name_def)
  then show ?thesis
    using o sp by (simp add: copyout_def indexed_names_def allocate_def type_mask_def null_name_def Let_def)
qed

lemma example_create:
  assumes "names st = example_names" "task_owner st = (\<lambda>object. if object = 2 then Some 1 else None)"
    "sem_at st object = None" "object \<noteq> 0" "object \<noteq> dead_name" "object \<notin> port_objects st" "thread_owner st = (\<lambda>_. None)"
  shows "sem_step (sem_step st (Create 1 3 0 0 object)) example_reset =
     st\<lparr>semaphores := om_put object \<lparr>sem_count = 0, sem_owner = 1, sem_waiters = []\<rparr> (semaphores st),
        port_objects := insert object (port_objects st)\<rparr>"
proof -
  obtain t where t: "copyout 1 object (type_mask Send) example_names = Inr (Some first_dynamic_name, t)"
    using example_copyout [OF assms(4)] by blast
  show ?thesis
    using assms t by (simp add: semaphore_create_def target_task_for_port_def example_resolves Let_def example_reset_def set_semaphore_def)
qed

lemma setup_run: "foldl sem_step sem_init example_setup = setup_world"
proof -
  define a where "a = sem_step sem_init example_reset"
  have a: "a = sem_init\<lparr>names := example_names, task_owner := (\<lambda>object. if object = 2 then Some 1 else None)\<rparr>"
    by (simp add: a_def example_reset_def sem_init_def)
  define b where "b = sem_step (sem_step a (Create 1 3 0 0 16)) example_reset"
  have b: "b = a\<lparr>semaphores := [(16, \<lparr>sem_count = 0, sem_owner = 1, sem_waiters = []\<rparr>)], port_objects := {16}\<rparr>"
    unfolding b_def by (subst example_create) (simp_all add: a sem_init_def dead_name_def sem_at_def)
  have "sem_step (sem_step b (Create 1 3 0 0 17)) example_reset = setup_world"
    by (subst example_create) (simp_all add: b a sem_init_def dead_name_def sem_at_def setup_world_def)
  then show ?thesis by (simp add: example_setup_def b_def a_def)
qed

lemma setup_clean: "foldl clean_step sem_init example_setup = setup_world"
  by (simp add: setup_run [symmetric] example_setup_def clean_step_def example_reset_def)

text \<open>The world in which the threads 0 and 1 wait for the first semaphore.\<close>

definition waiting_world :: semaphore_state where
  "waiting_world = setup_world\<lparr>semaphores := [(16, \<lparr>sem_count = 0, sem_owner = 1, sem_waiters = [(1, 0), (1, 1)]\<rparr>),
       (17, \<lparr>sem_count = 0, sem_owner = 1, sem_waiters = []\<rparr>)],
     pending_waits := [(1, 0) \<mapsto> \<lparr>pw_semaphore = 16, pw_deadline = None, pw_bsd = False\<rparr>,
       (1, 1) \<mapsto> \<lparr>pw_semaphore = 16, pw_deadline = None, pw_bsd = False\<rparr>],
     halted := {(1, 0), (1, 1)}\<rparr>"

lemma waiting_step:
  "foldl sem_step setup_world [Trap (1, 0) 36 7 0 0 0, Trap (1, 1) 36 7 0 0 0] = waiting_world"
  by (simp add: setup_world_def waiting_world_def sem_init_def semaphore_trap_def wait_on_semaphore_def example_resolves sem_at_def
      set_semaphore_def insert_commute)

lemma waiting_run: "sem_run waiting_events = waiting_world" "clean_run waiting_events = waiting_world"
proof -
  show "sem_run waiting_events = waiting_world"
    unfolding sem_run_def waiting_events_def foldl_append setup_run by (rule waiting_step)
  have "foldl clean_step setup_world [Trap (1, 0) 36 7 0 0 0, Trap (1, 1) 36 7 0 0 0] = waiting_world"
    unfolding waiting_step [symmetric] by (simp add: clean_step_def)
  then show "clean_run waiting_events = waiting_world"
    unfolding clean_run_def waiting_events_def foldl_append setup_clean .
qed

section \<open>Properties\<close>

text \<open>
  C22: Whatever sequence of traps, BSD calls, creations, destructions, polls, exits, execs and
  changes of the other kernel tables the processes make, a semaphore never has a negative count and
  never has both a positive count and waiters, and no halted thread is forgotten: it has a pending
  wait, and it stands in the queue of that semaphore or its wake-up or termination is recorded.\<close>

theorem halted_threads_accounted:
  assumes "st = sem_run es"
  shows "(sem_at st object = Some sem \<longrightarrow> 0 \<le> sem_count sem \<and> (0 < sem_count sem \<longrightarrow> sem_waiters sem = [])) \<and>
    (t \<in> halted st \<longrightarrow> (\<exists>p. pending_waits st t = Some p \<and> (t \<in> semaphore_wakeups st \<or> t \<in> semaphore_terminations st \<or>
       (\<exists>s. sem_at st (pw_semaphore p) = Some s \<and> t \<in> set (sem_waiters s)))))"
  using sem_run_inv [of es] unfolding assms sem_inv_def sem_ok_def accounted_def queued_def by blast

theorem halted_threads_accounted_witness:
  "\<exists>p s. pending_waits (sem_run waiting_events) (1, 1) = Some p \<and> sem_at (sem_run waiting_events) (pw_semaphore p) = Some s \<and>
     sem_count s \<le> 0 \<and> (1, 1) \<in> set (sem_waiters s)"
  using halted_threads_accounted [OF refl, of waiting_events 16 "\<lparr>sem_count = 0, sem_owner = 1, sem_waiters = [(1, 0), (1, 1)]\<rparr>" "(1, 1)"]
  by (simp add: waiting_run waiting_world_def sem_at_def setup_world_def sem_init_def)

text \<open>
  In a clean history (no wait whose paired signal names no semaphore, no exec over halted siblings)
  every thread is in exactly one place: it runs and nothing of a wait is left, or it is halted with
  a pending wait and is woken, or terminated, or queued exactly at the semaphore it waits for.\<close>

theorem clean_threads_in_one_place:
  assumes "st = clean_run es"
  shows "if t \<in> halted st
     then \<exists>p. pending_waits st t = Some p \<and>
       (if t \<in> semaphore_wakeups st then t \<notin> semaphore_terminations st \<and> queues_of st t = {}
        else if t \<in> semaphore_terminations st then queues_of st t = {} else queues_of st t = {pw_semaphore p})
     else pending_waits st t = None \<and> t \<notin> semaphore_wakeups st \<and> t \<notin> semaphore_terminations st \<and> queues_of st t = {}"
  using strictD(3) [OF clean_run_strict, of es t] unfolding assms thread_placed_def placed_def .

theorem clean_threads_in_one_place_witness: "queues_of (clean_run waiting_events) (1, 1) = {16}"
  using clean_threads_in_one_place [OF refl, of "(1, 1)" waiting_events] by (simp add: waiting_run waiting_world_def setup_world_def sem_init_def)

definition wait_succeeded :: "pending_semaphore_wait \<Rightarrow> wait_outcome" where
  "wait_succeeded p = (if pw_bsd p then Bsd_Success else Mach_Result 0)"

lemma resume_unchanged:
  assumes "pending_waits st' t = pending_waits st t" "t \<in> semaphore_wakeups st' \<longleftrightarrow> t \<in> semaphore_wakeups st"
    "t \<in> semaphore_terminations st' \<longleftrightarrow> t \<in> semaphore_terminations st" "clock st' = clock st"
  shows "fst (resume_wait t st') = fst (resume_wait t st)"
  using assms by (simp add: resume_wait_def Let_def split: option.split)

text \<open>
  C21: No signal is lost. After a clean history, \<open>semaphore_signal\<close> on a semaphore with waiters succeeds,
  takes the first waiter off the queue and leaves the others in their order; the next poll of that
  waiter lets it run with a successful result, whatever its deadline, and the poll of every other
  thread gives what it would have given before the signal.\<close>

theorem signal_wakes_first_waiter:
  assumes st: "st = clean_run es" and n: "resolve_name_with_right st pid name Send = Some object"
    and o: "sem_at st object = Some sem" and w: "sem_waiters sem = w # rest"
    and s: "signal_semaphore pid name False prepost st = (r, st')"
  shows "r = 0 \<and> sem_at st' object = Some (sem\<lparr>sem_waiters := rest\<rparr>) \<and>
    (\<exists>p. pending_waits st w = Some p \<and> pw_semaphore p = object \<and> fst (resume_wait w st') = Some (wait_succeeded p)) \<and>
    w \<notin> halted (snd (resume_wait w st')) \<and> (\<forall>t. t \<noteq> w \<longrightarrow> fst (resume_wait t st') = fst (resume_wait t st))"
proof -
  have strict: "sem_strict st" unfolding st by (rule clean_run_strict)
  have m: "w \<in> set (sem_waiters sem)" by (simp add: w)
  have eq: "r = 0" "st' = set_semaphore object (sem\<lparr>sem_waiters := rest\<rparr>) (st\<lparr>semaphore_wakeups := insert w (semaphore_wakeups st)\<rparr>)"
    using s by (simp_all add: signal_semaphore_def n o w)
  obtain p where p: "pending_waits st w = Some p" "pw_semaphore p = object" using strict_queued(5) [OF strict o m] by blast
  have poll: "fst (resume_wait w st') = Some (wait_succeeded p)" "w \<notin> halted (snd (resume_wait w st'))"
    using p strict_queued(3) [OF strict o m] unfolding eq(2) by (simp_all add: resume_wait_def wait_succeeded_def)
  have "fst (resume_wait t st') = fst (resume_wait t st)" if "t \<noteq> w" for t
    by (rule resume_unchanged) (use that in \<open>simp_all add: eq(2)\<close>)
  then show ?thesis using eq(1) p poll by (simp add: eq(2))
qed

theorem signal_wakes_first_waiter_witness:
  "fst (resume_wait (1, 0) (snd (signal_semaphore 1 7 False True (clean_run waiting_events)))) = Some (Mach_Result 0) \<and>
   fst (resume_wait (1, 1) (snd (signal_semaphore 1 7 False True (clean_run waiting_events)))) = None"
proof -
  let ?st = "clean_run waiting_events"
  have n: "resolve_name_with_right ?st 1 7 Send = Some 16"
    by (rule example_resolves) (simp add: waiting_run waiting_world_def setup_world_def)
  have o: "sem_at ?st 16 = Some \<lparr>sem_count = 0, sem_owner = 1, sem_waiters = [(1, 0), (1, 1)]\<rparr>"
    and p: "pending_waits ?st (1, 0) = Some \<lparr>pw_semaphore = 16, pw_deadline = None, pw_bsd = False\<rparr>"
    by (simp_all add: waiting_run waiting_world_def sem_at_def)
  have still: "fst (resume_wait (1, 1) ?st) = None"
    by (simp add: waiting_run waiting_world_def resume_wait_def setup_world_def sem_init_def)
  show ?thesis
    using signal_wakes_first_waiter [OF refl n o _ prod.collapse [symmetric], of "(1, 0)" "[(1, 1)]" True] still p
    by (simp add: wait_succeeded_def)
qed

text \<open>
  C23: A wait with a paired signal that names a port which is no semaphore fails with
  \<open>KERN_INVALID_ARGUMENT\<close>, yet when it would have blocked it leaves the running caller at the end of
  the queue with its pending wait. The next signal of a semaphore that had no waiter then reports
  success, leaves the count at 0 and wakes no halted thread: it is lost.\<close>

theorem failed_pair_leaves_waiter:
  assumes w: "resolve_name_with_right st (fst t) wn Send = Some object" "sem_at st object = Some sem"
    and c: "sem_count sem = 0" "timeout \<noteq> Some 0" "sem_waiters sem = []" "t \<notin> halted st"
    and s: "sn \<noteq> 0" "resolve_name_with_right st (fst t) sn Send = Some other" "sem_at st other = None"
    and r: "wait_on_semaphore t wn sn timeout False st = (result, st')"
    and again: "signal_semaphore (fst t) wn False True st' = (result', st'')"
  shows "result = Mach_Result kern_invalid_argument \<and> sem_at st' object = Some (sem\<lparr>sem_waiters := [t]\<rparr>) \<and> t \<notin> halted st' \<and>
    result' = 0 \<and> sem_at st'' object = Some sem \<and> semaphore_wakeups st'' = insert t (semaphore_wakeups st) \<and> halted st'' = halted st"
proof -
  have ne: "other \<noteq> object" using w(2) s(3) by auto
  define v where "v = (set_semaphore object (sem\<lparr>sem_waiters := [t]\<rparr>) st)\<lparr>pending_waits := (pending_waits st)(t \<mapsto>
      \<lparr>pw_semaphore = object, pw_deadline = map_option (\<lambda>i. vc_now (clock st) + i) timeout, pw_bsd = False\<rparr>)\<rparr>"
  have res: "resolve_name_with_right v = resolve_name_with_right st"
    by (simp add: v_def resolve_name_with_right_def fun_eq_iff)
  have started: "wait_begin t wn sn timeout False st = (0, True, v)"
    using w c s by (simp add: wait_begin_def v_def)
  have fail: "signal_semaphore (fst t) sn False True v = (kern_invalid_argument, v)"
    using s ne by (simp add: signal_semaphore_def res) (simp add: v_def)
  have "result = Mach_Result kern_invalid_argument" "st' = v"
    using r s(1) unfolding wait_split started by (simp_all add: fail Let_def finish_wait_def kern_invalid_argument_def)
  moreover have "sem\<lparr>sem_waiters := []\<rparr> = sem" using c(3) by simp
  ultimately show ?thesis
    using again w c(4) by (simp add: signal_semaphore_def res) (auto simp: v_def)
qed

theorem failed_pair_leaves_waiter_witness:
  "fst (wait_on_semaphore (1, 0) 7 15 None False (clean_run example_setup)) = Mach_Result 4"
proof -
  have "clean_run example_setup = setup_world" by (simp add: clean_run_def setup_clean)
  then show ?thesis
    using failed_pair_leaves_waiter [of setup_world "(1, 0)" 7 16 _ None 15 18, OF _ _ _ _ _ _ _ _ _ prod.collapse [symmetric] prod.collapse [symmetric]]
      example_resolves(2,4) [of setup_world]
    by (simp add: setup_world_def sem_at_def kern_invalid_argument_def sem_init_def)
qed

end
