(* ===== verification/Guest_Memory.thy ===== *)
theory Guest_Memory
  imports Ilsim_Prelude
begin

text \<open>
  The guest memory as the calls of the kernel use it: words that can be read and written
  (\<open>AddressSpace::read32\<close> and \<open>write32\<close>). A slot is a word the guest may read and write and shares with
  nobody; what is written to a slot is read back until a store that overlaps it.
\<close>

type_synonym 'm read_word = "u32 \<Rightarrow> 'm \<Rightarrow> u32 option \<times> 'm"
type_synonym 'm write_word = "u32 \<Rightarrow> u32 \<Rightarrow> 'm \<Rightarrow> bool \<times> 'm"

text \<open>How a system call ends: carry set with an error number in \<open>r0\<close>, or carry clear.\<close>

datatype call_result = Not_Handled | Failed u32 | Succeeded

definition error_bad_address :: u32 where "error_bad_address = 14"
definition error_invalid_argument :: u32 where "error_invalid_argument = 22"

definition apart :: "u32 \<Rightarrow> u32 \<Rightarrow> bool" where
  "apart a b \<longleftrightarrow> unat a + 4 \<le> unat b \<or> unat b + 4 \<le> unat a"

locale guest_memory =
  fixes ok :: "'m \<Rightarrow> bool"
    and slot :: "u32 \<Rightarrow> 'm \<Rightarrow> bool"
    and word_at :: "u32 \<Rightarrow> u32 \<Rightarrow> 'm \<Rightarrow> bool"
    and read32 :: "'m read_word"
    and write32 :: "'m write_word"
  assumes write_stores: "ok m \<Longrightarrow> slot a m \<Longrightarrow>
      \<exists>m'. write32 a v m = (True, m') \<and> ok m' \<and> word_at a v m' \<and> (\<forall>b. slot b m \<longrightarrow> slot b m') \<and>
        (\<forall>b u. apart a b \<longrightarrow> word_at b u m \<longrightarrow> word_at b u m')"
    and read_word: "ok m \<Longrightarrow> word_at a v m \<Longrightarrow> read32 a m = (Some v, m)"
begin

text \<open>Stores of words one after the other.\<close>

definition words_at :: "u32 \<Rightarrow> u32 list \<Rightarrow> 'm \<Rightarrow> bool" where
  "words_at a vs m \<longleftrightarrow> (\<forall>i < length vs. word_at (a + 4 * of_nat i) (vs ! i) m)"

definition slots_at :: "u32 \<Rightarrow> nat \<Rightarrow> 'm \<Rightarrow> bool" where
  "slots_at a n m \<longleftrightarrow> (\<forall>i < n. slot (a + 4 * of_nat i) m)"

lemma words_at_nth: "words_at a vs m \<Longrightarrow> i < length vs \<Longrightarrow> word_at (a + 4 * of_nat i) (vs ! i) m"
  by (simp add: words_at_def)

lemma apart_words: "unat a + 4 * n \<le> 2 ^ 32 \<Longrightarrow> i < n \<Longrightarrow> j < n \<Longrightarrow> i \<noteq> j \<Longrightarrow> apart (a + 4 * of_nat i) (a + 4 * of_nat j)"
proof -
  assume a: "unat a + 4 * n \<le> 2 ^ 32" "i < n" "j < n" "i \<noteq> j"
  have u: "unat (a + 4 * of_nat k) = unat a + 4 * k" if "k < n" for k
  proof -
    have "unat (4 * of_nat k :: u32) = 4 * k" using that a(1) by (simp add: unat_word_ariths unat_of_nat)
    then show ?thesis using that a(1) by (simp add: unat_word_ariths)
  qed
  show ?thesis using a(2-4) u by (auto simp: apart_def)
qed

lemma write_next:
  assumes "ok m" "slots_at a n m" "words_at a vs m" "length vs < n" "unat a + 4 * n \<le> 2 ^ 32"
  shows "\<exists>m'. write32 (a + 4 * of_nat (length vs)) v m = (True, m') \<and> ok m' \<and> slots_at a n m' \<and> words_at a (vs @ [v]) m'"
proof -
  have s: "slot (a + 4 * of_nat (length vs)) m" using assms(2,4) by (simp add: slots_at_def)
  obtain m' where m': "write32 (a + 4 * of_nat (length vs)) v m = (True, m')" "ok m'" "word_at (a + 4 * of_nat (length vs)) v m'"
    "\<forall>b. slot b m \<longrightarrow> slot b m'" "\<forall>b u. apart (a + 4 * of_nat (length vs)) b \<longrightarrow> word_at b u m \<longrightarrow> word_at b u m'"
    using write_stores [OF assms(1) s, of v] by blast
  have "word_at (a + 4 * of_nat i) ((vs @ [v]) ! i) m'" if "i < length (vs @ [v])" for i
  proof (cases "i = length vs")
    case True
    then show ?thesis using m'(3) by simp
  next
    case False
    then have i: "i < length vs" using that by simp
    have "apart (a + 4 * of_nat (length vs)) (a + 4 * of_nat i)"
      by (rule apart_words [OF assms(5)]) (use i assms(4) in simp_all)
    then show ?thesis using m'(5) words_at_nth [OF assms(3) i] i by (simp add: nth_append)
  qed
  then show ?thesis using m' assms(2) by (simp add: slots_at_def words_at_def)
qed

end

end
