(* ===== verification/Interval_Timer.thy ===== *)
theory Interval_Timer
  imports Guest_Memory
begin

text \<open>
  The real interval timer of a process (\<open>src/kernel/bsd/process/interval_timer.cpp\<close>): the calls
  \<open>setitimer\<close> and \<open>getitimer\<close> over guest memory, the next deadline, its service and the end of the
  process. Guest memory is a state \<open>'m\<close> with the functions that read and write its words, which the
  address spaces provide; both may change the state because a read may fault pages in.
\<close>

section \<open>State\<close>

record process_interval_timer =
  it_interval :: u64
  it_deadline :: "u64 option"

record timer_value =
  tv_interval :: u64
  tv_value :: u64

type_synonym interval_timers = "u32 \<Rightarrow> process_interval_timer option"

definition set_syscall :: u32 where "set_syscall = 83"
definition get_syscall :: u32 where "get_syscall = 86"
definition real_timer :: u32 where "real_timer = 0"
definition time_value_size :: u32 where "time_value_size = 8"
definition timer_value_size :: u32 where "timer_value_size = 2 * time_value_size"
definition ns_per_second :: u64 where "ns_per_second = 1000000000"
definition ns_per_microsecond :: u64 where "ns_per_microsecond = 1000"

definition last_fit :: "u32 \<Rightarrow> u32" where
  "last_fit width = 0xFFFFFFFF - width + 1"

section \<open>Guest structures\<close>

definition read_time_value :: "'m read_word \<Rightarrow> u32 \<Rightarrow> 'm \<Rightarrow> u64 option \<times> 'm" where
  "read_time_value read32 address m =
     (if address > last_fit time_value_size then (None, m)
      else
        let (raw_seconds, m1) = read32 address m;
            (raw_microseconds, m2) = read32 (address + 4) m1
        in (case (raw_seconds, raw_microseconds) of
              (Some seconds, Some microseconds) \<Rightarrow>
                if sint seconds < 0 \<or> sint microseconds < 0 \<or> sint microseconds \<ge> 1000000 then None
                else Some (ucast seconds * ns_per_second + ucast microseconds * ns_per_microsecond)
            | _ \<Rightarrow> None, m2))"

definition read_timer_value :: "'m read_word \<Rightarrow> u32 \<Rightarrow> 'm \<Rightarrow> timer_value option \<times> 'm" where
  "read_timer_value read32 address m =
     (if address = 0 \<or> address > last_fit timer_value_size then (None, m)
      else
        let (interval, m1) = read_time_value read32 address m;
            (val, m2) = read_time_value read32 (address + time_value_size) m1
        in (case (interval, val) of
              (Some i, Some v) \<Rightarrow> Some \<lparr>tv_interval = i, tv_value = v\<rparr>
            | _ \<Rightarrow> None, m2))"

definition write_time_value :: "'m write_word \<Rightarrow> u32 \<Rightarrow> u64 \<Rightarrow> 'm \<Rightarrow> bool \<times> 'm" where
  "write_time_value write32 address nanoseconds m =
     (let seconds = nanoseconds div ns_per_second;
          microseconds = (nanoseconds mod ns_per_second) div ns_per_microsecond
      in if seconds > 0x7FFFFFFF then (False, m)
         else case write32 address (ucast seconds) m of
             (False, m1) \<Rightarrow> (False, m1)
           | (True, m1) \<Rightarrow> write32 (address + 4) (ucast microseconds) m1)"

definition write_timer_value :: "'m write_word \<Rightarrow> u32 \<Rightarrow> timer_value \<Rightarrow> 'm \<Rightarrow> bool \<times> 'm" where
  "write_timer_value write32 address t m =
     (if address = 0 \<or> address > last_fit timer_value_size then (False, m)
      else case write_time_value write32 address (tv_interval t) m of
          (False, m1) \<Rightarrow> (False, m1)
        | (True, m1) \<Rightarrow> write_time_value write32 (address + time_value_size) (tv_value t) m1)"

section \<open>The calls\<close>

definition current_value :: "process_interval_timer \<Rightarrow> u64 \<Rightarrow> timer_value" where
  "current_value t now =
     \<lparr>tv_interval = it_interval t,
      tv_value = (case it_deadline t of None \<Rightarrow> 0 | Some d \<Rightarrow> if d > now then d - now else 0)\<rparr>"

definition deadline_after :: "u64 \<Rightarrow> u64 \<Rightarrow> u64 option" where
  "deadline_after now duration =
     (if duration = 0 then None
      else if duration > 0xFFFFFFFFFFFFFFFF - now then Some 0xFFFFFFFFFFFFFFFF
      else Some (now + duration))"

text \<open>\<open>timers[pid]\<close> inserts a disarmed timer when the process has none.\<close>

definition timer_of :: "u32 \<Rightarrow> interval_timers \<Rightarrow> process_interval_timer" where
  "timer_of pid ts = (case ts pid of None \<Rightarrow> \<lparr>it_interval = 0, it_deadline = None\<rparr> | Some t \<Rightarrow> t)"

definition dispatch_interval_timer ::
    "'m read_word \<Rightarrow> 'm write_word \<Rightarrow> u64 \<Rightarrow> u32 \<Rightarrow> u32 \<Rightarrow> u32 \<Rightarrow> u32 \<Rightarrow> u32 \<Rightarrow> interval_timers \<Rightarrow> 'm \<Rightarrow>
     call_result \<times> interval_timers \<times> 'm" where
  "dispatch_interval_timer read32 write32 now pid syscall_number r0 r1 r2 ts m =
     (if syscall_number \<noteq> set_syscall \<and> syscall_number \<noteq> get_syscall then (Not_Handled, ts, m)
      else if r0 \<noteq> real_timer then (Failed error_invalid_argument, ts, m)
      else if syscall_number = get_syscall then
        (let v = (case ts pid of None \<Rightarrow> \<lparr>tv_interval = 0, tv_value = 0\<rparr> | Some t \<Rightarrow> current_value t now)
         in case write_timer_value write32 r1 v m of
             (False, m1) \<Rightarrow> (Failed error_bad_address, ts, m1)
           | (True, m1) \<Rightarrow> (Succeeded, ts, m1))
      else case read_timer_value read32 r1 m of
          (None, m1) \<Rightarrow> (Failed (if r1 = 0 then error_bad_address else error_invalid_argument), ts, m1)
        | (Some requested, m1) \<Rightarrow>
            let t = timer_of pid ts;
                (written, m2) = (if r2 = 0 then (True, m1) else write_timer_value write32 r2 (current_value t now) m1)
            in if \<not> written then (Failed error_bad_address, ts(pid \<mapsto> t), m2)
               else (Succeeded, ts(pid \<mapsto> \<lparr>it_interval = tv_interval requested,
                       it_deadline = deadline_after now (tv_value requested)\<rparr>), m2))"

definition next_deadline :: "u32 \<Rightarrow> interval_timers \<Rightarrow> u64 option" where
  "next_deadline pid ts = Option.bind (ts pid) it_deadline"

definition service_due :: "u32 \<Rightarrow> u64 \<Rightarrow> interval_timers \<Rightarrow> bool \<times> interval_timers" where
  "service_due pid serviced_deadline ts =
     (case ts pid of
        None \<Rightarrow> (False, ts)
      | Some t \<Rightarrow>
          (case it_deadline t of
             None \<Rightarrow> (False, ts)
           | Some current \<Rightarrow>
               if current > serviced_deadline then (False, ts)
               else if it_interval t = 0 then (True, ts(pid \<mapsto> t\<lparr>it_deadline := None\<rparr>))
               else
                 let elapsed = serviced_deadline - current;
                     periods = elapsed div it_interval t + 1
                 in if periods > (0xFFFFFFFFFFFFFFFF - current) div it_interval t
                    then (True, ts(pid \<mapsto> t\<lparr>it_deadline := Some 0xFFFFFFFFFFFFFFFF\<rparr>))
                    else (True, ts(pid \<mapsto> t\<lparr>it_deadline := Some (current + periods * it_interval t)\<rparr>))))"

definition retire_process :: "u32 \<Rightarrow> interval_timers \<Rightarrow> interval_timers" where
  "retire_process pid ts = ts(pid := None)"

section \<open>Histories\<close>

datatype 'm itimer_event =
    Timer_Call "'m read_word" "'m write_word" 'm u64 u32 u32 u32 u32 u32
  | Service u32 u64
  | Retire u32

fun itimer_step :: "interval_timers \<Rightarrow> 'm itimer_event \<Rightarrow> interval_timers" where
  "itimer_step ts (Timer_Call rd wr m now pid n r0 r1 r2) = fst (snd (dispatch_interval_timer rd wr now pid n r0 r1 r2 ts m))"
| "itimer_step ts (Service pid d) = snd (service_due pid d ts)"
| "itimer_step ts (Retire pid) = retire_process pid ts"

definition itimer_run :: "'m itimer_event list \<Rightarrow> interval_timers" where
  "itimer_run es = foldl itimer_step (\<lambda>_. None) es"

text \<open>An interval is a whole number of microseconds below \<open>2 ^ 31\<close> seconds.\<close>

definition interval_ok :: "u64 \<Rightarrow> bool" where
  "interval_ok i \<longleftrightarrow> 1000 dvd unat i \<and> unat i < 2 ^ 31 * 10 ^ 9"

definition itimers_ok :: "interval_timers \<Rightarrow> bool" where
  "itimers_ok ts \<longleftrightarrow> (\<forall>pid t. ts pid = Some t \<longrightarrow> interval_ok (it_interval t))"

lemma small_signed:
  assumes "0 \<le> sint (x :: u32)"
  shows "sint x = int (unat x)" "unat x < 2 ^ 31"
proof -
  have u: "0 \<le> uint x" "uint x < 2 ^ 32" using unsigned_less [of x, where ?'a = int] by simp_all
  then have "take_bit 32 (uint x) = uint x" by (intro take_bit_int_eq_self) simp_all
  then have "sint x = uint x - 2 ^ 32 * of_bool (bit (uint x) 31)"
    by (simp add: sint_uint signed_take_bit_eq_take_bit_minus)
  then have eq: "sint x = int (unat x)" using assms u by (cases "bit (uint x) 31") simp_all
  moreover have "sint x < 2 ^ 31" using sint_lt [of x] by simp
  ultimately have "int (unat x) < int (2 ^ 31)" by simp
  then show "unat x < 2 ^ 31" using of_nat_less_iff by blast
  show "sint x = int (unat x)" by (rule eq)
qed

lemma unat_up [simp]: "unat (ucast (x :: u32) :: u64) = unat x"
  by (simp add: unsigned_ucast_eq take_bit_nat_eq_self less_trans [OF unsigned_less])

lemma time_value_unat:
  fixes s us :: u32
  assumes "unat s < 2 ^ 31" "unat us < 1000000"
  shows "unat (ucast s * ns_per_second + ucast us * ns_per_microsecond :: u64) = unat s * 10 ^ 9 + unat us * 1000"
proof -
  have a: "unat (ucast s * ns_per_second :: u64) = unat s * 10 ^ 9"
    using assms(1) by (simp add: ns_per_second_def unat_word_ariths)
  have b: "unat (ucast us * ns_per_microsecond :: u64) = unat us * 1000"
    using assms(2) by (simp add: ns_per_microsecond_def unat_word_ariths)
  show ?thesis using assms by (simp add: unat_word_ariths(1) a b)
qed

lemma read_time_value_ok:
  assumes "fst (read_time_value rd a m) = Some i"
  shows "interval_ok i"
proof -
  obtain s us where su: "\<not> sint s < 0" "\<not> sint us < 0" "\<not> sint us \<ge> 1000000"
      "i = ucast (s :: u32) * ns_per_second + ucast (us :: u32) * ns_per_microsecond"
    using assms by (auto simp: read_time_value_def Let_def case_prod_beta split: if_splits option.splits)
  have "0 \<le> sint s" "0 \<le> sint us" using su by simp_all
  note b = small_signed [OF this(1)] small_signed [OF this(2)]
  have "int (unat us) < int 1000000" using b(3) su(3) by linarith
  then have b: "unat s < 2 ^ 31" "unat us < 1000000" using b(2) of_nat_less_iff by blast+
  then have "unat i = unat s * 10 ^ 9 + unat us * 1000" using su(4) time_value_unat by simp
  then show ?thesis using b unfolding interval_ok_def by simp
qed

lemma read_timer_value_ok: "fst (read_timer_value rd a m) = Some v \<Longrightarrow> interval_ok (tv_interval v) \<and> interval_ok (tv_value v)"
  by (auto simp: read_timer_value_def Let_def case_prod_beta split: if_splits option.splits intro: read_time_value_ok)

lemma dispatch_timers:
  "fst (snd (dispatch_interval_timer rd wr now pid n r0 r1 r2 ts m)) \<in> {ts, ts(pid \<mapsto> timer_of pid ts)} \<or>
   (\<exists>v. fst (read_timer_value rd r1 m) = Some v \<and> fst (snd (dispatch_interval_timer rd wr now pid n r0 r1 r2 ts m)) =
      ts(pid \<mapsto> \<lparr>it_interval = tv_interval v, it_deadline = deadline_after now (tv_value v)\<rparr>))"
proof (cases "n = set_syscall \<and> r0 = real_timer")
  case True
  have "set_syscall \<noteq> get_syscall" by (simp add: set_syscall_def get_syscall_def)
  then show ?thesis
    using True by (cases "read_timer_value rd r1 m") (simp add: dispatch_interval_timer_def Let_def case_prod_beta split: option.split)
next
  case False
  then show ?thesis by (auto simp: dispatch_interval_timer_def Let_def case_prod_beta split: bool.split prod.split)
qed

lemma dispatch_itimers_ok:
  assumes ok: "itimers_ok ts"
  shows "itimers_ok (fst (snd (dispatch_interval_timer rd wr now pid n r0 r1 r2 ts m)))"
proof -
  have "interval_ok (it_interval (timer_of pid ts))"
    using ok by (simp add: timer_of_def itimers_ok_def interval_ok_def split: option.split)
  then have "itimers_ok ts'" if "ts' \<in> {ts, ts(pid \<mapsto> timer_of pid ts)}" for ts'
    using ok that by (auto simp: itimers_ok_def split: if_splits)
  moreover have "itimers_ok (ts(pid \<mapsto> \<lparr>it_interval = tv_interval v, it_deadline = d\<rparr>))" if "fst (read_timer_value rd r1 m) = Some v" for v d
    using ok read_timer_value_ok [OF that] by (simp add: itimers_ok_def)
  ultimately show ?thesis using dispatch_timers [of rd wr now pid n r0 r1 r2 ts m] by (metis (no_types, lifting))
qed

lemma service_itimers_ok: "itimers_ok ts \<Longrightarrow> itimers_ok (snd (service_due pid d ts))"
  by (auto simp: interval_ok_def service_due_def itimers_ok_def Let_def split: option.splits)

interpretation itimers: machine "\<lambda>_. None" itimer_step itimers_ok
proof
  show "itimers_ok (\<lambda>_. None)" by (simp add: itimers_ok_def)
  show "itimers_ok ts \<Longrightarrow> itimers_ok (itimer_step ts e)" for ts and e :: "'b itimer_event"
    by (cases e) (auto simp: dispatch_itimers_ok service_itimers_ok, auto simp: retire_process_def itimers_ok_def)
qed

lemma itimer_run_ok: "itimers_ok (itimer_run es)"
  unfolding itimer_run_def by (rule itimers.run_inv)

section \<open>Service\<close>

lemma unat_bound64: "unat (e :: u64) < 2 ^ 64"
  using unsigned_less [of e, where ?'a = nat] by simp

lemma periods_unat:
  assumes "(i :: u64) \<noteq> 0" "unat i > 1"
  shows "unat ((e :: u64) div i + 1) = unat e div unat i + 1"
proof -
  have "unat e div unat i < 2 ^ 64 - 1"
    using assms(2) unat_bound64 [of e] by (simp add: less_mult_imp_div_less)
  then show ?thesis by (simp add: unat_word_ariths unat_div)
qed

lemma sub_unat: "b \<le> (a :: u64) \<Longrightarrow> unat (a - b) = unat a - unat b"
  by (rule unat_sub)

lemma unat_max_minus: "unat (0xFFFFFFFFFFFFFFFF - (a :: u64)) = 2 ^ 64 - 1 - unat a"
proof -
  have "a \<le> 0xFFFFFFFFFFFFFFFF" using unat_bound64 [of a] by (simp add: word_le_nat_alt)
  then show ?thesis by (simp add: sub_unat)
qed

lemma service_at:
  assumes t: "ts pid = Some t" "it_deadline t = Some d" "\<not> d > late" "it_interval t \<noteq> 0" "interval_ok (it_interval t)"
    and s: "service_due pid late ts = (b, ts')"
  defines "N \<equiv> unat d + ((unat late - unat d) div unat (it_interval t) + 1) * unat (it_interval t)"
  shows "b" "\<exists>d'. ts' = ts(pid \<mapsto> t\<lparr>it_deadline := Some d'\<rparr>) \<and> unat d' = min N (2 ^ 64 - 1)"
    "unat late < N" "N \<le> unat late + unat (it_interval t)"
proof -
  define i where "i = unat (it_interval t)"
  have "i \<noteq> 0" "1000 dvd i" using t(4,5) by (simp_all add: i_def interval_ok_def unsigned_eq_0_iff)
  then have i: "i > 1" by (auto simp: dvd_def)
  have le: "d \<le> late" using t(3) by simp
  have e: "unat (late - d) = unat late - unat d" by (rule sub_unat [OF le])
  define p where "p = (unat late - unat d) div i + 1"
  have p: "unat ((late - d) div it_interval t + 1) = p"
    using periods_unat [of "it_interval t" "late - d"] t(4) i by (simp add: p_def i_def e)
  have N: "N = unat d + p * i" by (simp add: N_def p_def i_def)
  have room: "unat ((0xFFFFFFFFFFFFFFFF - d) div it_interval t) = (2 ^ 64 - 1 - unat d) div i"
    by (simp add: unat_div i_def unat_max_minus)
  have over: "(late - d) div it_interval t + 1 > (0xFFFFFFFFFFFFFFFF - d) div it_interval t \<longleftrightarrow> N > 2 ^ 64 - 1"
  proof -
    have "(late - d) div it_interval t + 1 > (0xFFFFFFFFFFFFFFFF - d) div it_interval t \<longleftrightarrow> (2 ^ 64 - 1 - unat d) div i < p"
      by (simp add: word_less_nat_alt p room)
    also have "\<dots> \<longleftrightarrow> 2 ^ 64 - 1 - unat d < p * i" using i by (simp add: div_less_iff_less_mult)
    also have "\<dots> \<longleftrightarrow> N > 2 ^ 64 - 1" using unat_bound64 [of d] unfolding N by linarith
    finally show ?thesis .
  qed
  have small: "unat (d + ((late - d) div it_interval t + 1) * it_interval t) = N" if "\<not> N > 2 ^ 64 - 1"
  proof -
    have m: "unat (((late - d) div it_interval t + 1) * it_interval t) = p * i"
      using that unfolding N by (simp add: unat_word_ariths(2) p i_def [symmetric])
    show ?thesis using that by (subst unat_word_ariths(1)) (simp add: m N)
  qed
  show "b" "\<exists>d'. ts' = ts(pid \<mapsto> t\<lparr>it_deadline := Some d'\<rparr>) \<and> unat d' = min N (2 ^ 64 - 1)"
    using s over small unfolding service_due_def t(1,2) option.case if_not_P [OF t(3)] if_not_P [OF t(4)] Let_def
    by (auto split: if_splits simp: min_def)
  have m: "(unat late - unat d) mod i < i" using i by simp
  have "p * i = (unat late - unat d) - (unat late - unat d) mod i + i"
    by (simp add: p_def minus_mod_eq_div_mult [symmetric])
  moreover have "unat d \<le> unat late" using le by (simp add: word_le_nat_alt)
  moreover have "(unat late - unat d) mod i \<le> unat late - unat d" by (rule mod_less_eq_dividend)
  ultimately show "unat late < N" "N \<le> unat late + unat (it_interval t)"
    using m unfolding N i_def [symmetric] by linarith+
qed

section \<open>Setting a timer and reading it back\<close>

definition time_words :: "u64 \<Rightarrow> u32 list" where
  "time_words n = [ucast (n div ns_per_second), ucast ((n mod ns_per_second) div ns_per_microsecond)]"

definition time_ok :: "u32 \<Rightarrow> u32 \<Rightarrow> bool" where
  "time_ok s us \<longleftrightarrow> 0 \<le> sint s \<and> 0 \<le> sint us \<and> sint us < 1000000"

definition nanoseconds :: "u32 \<Rightarrow> u32 \<Rightarrow> u64" where
  "nanoseconds s us = ucast s * ns_per_second + ucast us * ns_per_microsecond"

lemma time_okD:
  assumes "time_ok s us"
  shows "unat s < 2 ^ 31" "unat us < 1000000" "unat (nanoseconds s us) = unat s * 10 ^ 9 + unat us * 1000"
proof -
  have s: "0 \<le> sint s" "0 \<le> sint us" using assms by (simp_all add: time_ok_def)
  note b = small_signed [OF s(1)] small_signed [OF s(2)]
  have "int (unat us) < int 1000000" using b(3) assms by (simp add: time_ok_def)
  then show "unat s < 2 ^ 31" "unat us < 1000000" using b(2) of_nat_less_iff by blast+
  then show "unat (nanoseconds s us) = unat s * 10 ^ 9 + unat us * 1000" unfolding nanoseconds_def by (rule time_value_unat)
qed

lemma time_words_nat:
  assumes "unat n = s * 10 ^ 9 + us * 1000 + rest" "us < 1000000" "rest < 1000" "s < 2 ^ 31"
  shows "time_words n = [of_nat s, of_nat us]"
proof -
  have r: "us * 1000 + rest < 10 ^ 9" using assms(2,3) by simp
  have "unat (n div ns_per_second) = s"
    using r by (simp add: unat_div ns_per_second_def assms(1))
  moreover have "unat ((n mod ns_per_second) div ns_per_microsecond) = us"
  proof -
    have "unat (n mod ns_per_second) = us * 1000 + rest"
      using r mod_mult_self3 [of s "10 ^ 9" "us * 1000 + rest"] by (simp add: unat_mod ns_per_second_def assms(1) add.assoc)
    then show ?thesis using assms(3) by (simp add: unat_div ns_per_microsecond_def)
  qed
  ultimately show ?thesis unfolding time_words_def by (metis of_nat_unat)
qed

lemma time_words_back: "time_ok s us \<Longrightarrow> time_words (nanoseconds s us) = [s, us]"
  using time_words_nat [of "nanoseconds s us" "unat s" "unat us" 0] time_okD [of s us] by simp

context guest_memory
begin

lemma words4:
  "words_at a [x0, x1, x2, x3] m \<longleftrightarrow> word_at a x0 m \<and> word_at (a + 4) x1 m \<and> word_at (a + 8) x2 m \<and> word_at (a + 12) x3 m"
  by (auto simp: words_at_def less_Suc_eq numeral_eq_Suc nth_Cons split: nat.split)

lemma fits:
  assumes "\<not> a > last_fit timer_value_size"
  shows "\<not> a > last_fit time_value_size" "\<not> a + time_value_size > last_fit time_value_size" "unat a + 4 * 4 \<le> 2 ^ 32"
proof -
  have u: "unat a \<le> 0xFFFFFFF0" using assms by (simp add: last_fit_def timer_value_size_def time_value_size_def word_less_nat_alt not_less)
  then have "unat (a + 8) = unat a + 8" by (simp add: unat_word_ariths)
  then show "\<not> a > last_fit time_value_size" "\<not> a + time_value_size > last_fit time_value_size" "unat a + 4 * 4 \<le> 2 ^ 32"
    using u by (simp_all add: last_fit_def time_value_size_def word_less_nat_alt not_less)
qed

lemma read_timer_value_words:
  assumes "ok m" and w: "words_at a [s1, u1, s2, u2] m" and a: "a \<noteq> 0" "\<not> a > last_fit timer_value_size"
    and v: "time_ok s1 u1" "time_ok s2 u2"
  shows "read_timer_value read32 a m = (Some \<lparr>tv_interval = nanoseconds s1 u1, tv_value = nanoseconds s2 u2\<rparr>, m)"
proof -
  have time: "read_time_value read32 b m = (Some (nanoseconds s u), m)"
    if "word_at b s m" "word_at (b + 4) u m" "\<not> b > last_fit time_value_size" "time_ok s u" for b s u
    using that read_word [OF assms(1)] by (simp add: read_time_value_def nanoseconds_def time_ok_def)
  have "read_time_value read32 a m = (Some (nanoseconds s1 u1), m)"
    using w v(1) fits [OF a(2)] by (intro time) (simp_all add: words4)
  moreover have "read_time_value read32 (a + time_value_size) m = (Some (nanoseconds s2 u2), m)"
    using w v(2) fits [OF a(2)] by (intro time) (simp_all add: words4 time_value_size_def add.assoc)
  ultimately show ?thesis using a by (simp add: read_timer_value_def)
qed

lemma write_time_value_words:
  assumes "ok m" "slots_at a n m" "words_at a vs m" "length vs + 1 < n" "unat a + 4 * n \<le> 2 ^ 32" "t div ns_per_second \<le> 0x7FFFFFFF"
  shows "\<exists>m'. write_time_value write32 (a + 4 * of_nat (length vs)) t m = (True, m') \<and> ok m' \<and> slots_at a n m' \<and>
    words_at a (vs @ time_words t) m'"
proof -
  obtain m1 where 1: "write32 (a + 4 * of_nat (length vs)) (ucast (t div ns_per_second)) m = (True, m1)" "ok m1" "slots_at a n m1"
      "words_at a (vs @ [ucast (t div ns_per_second)]) m1"
    using write_next [OF assms(1-3) _ assms(5)] assms(4) by fastforce
  obtain m2 where 2: "write32 (a + 4 * of_nat (length vs) + 4) (ucast ((t mod ns_per_second) div ns_per_microsecond)) m1 = (True, m2)"
      "ok m2" "slots_at a n m2" "words_at a (vs @ time_words t) m2"
    using write_next [OF 1(2-4) _ assms(5), of "ucast ((t mod ns_per_second) div ns_per_microsecond)"] assms(4)
    by (auto simp: time_words_def ac_simps)
  show ?thesis using 1(1) 2 assms(6) by (simp add: write_time_value_def Let_def not_less)
qed

lemma write_timer_value_words:
  assumes "ok m" "slots_at a 4 m" and a: "a \<noteq> 0" "\<not> a > last_fit timer_value_size"
    and t: "tv_interval t div ns_per_second \<le> 0x7FFFFFFF" "tv_value t div ns_per_second \<le> 0x7FFFFFFF"
  shows "\<exists>m'. write_timer_value write32 a t m = (True, m') \<and> ok m' \<and> slots_at a 4 m' \<and>
    words_at a (time_words (tv_interval t) @ time_words (tv_value t)) m'"
proof -
  have none: "words_at a [] m" by (simp add: words_at_def)
  obtain m1 where 1: "write_time_value write32 a (tv_interval t) m = (True, m1)" "ok m1" "slots_at a 4 m1" "words_at a (time_words (tv_interval t)) m1"
    using write_time_value_words [OF assms(1,2) none _ fits(3) [OF a(2)] t(1)] by auto
  have two: "length (time_words (tv_interval t)) = 2" by (simp add: time_words_def)
  obtain m2 where 2: "write_time_value write32 (a + time_value_size) (tv_value t) m1 = (True, m2)" "ok m2" "slots_at a 4 m2"
      "words_at a (time_words (tv_interval t) @ time_words (tv_value t)) m2"
    using write_time_value_words [OF 1(2-4) _ fits(3) [OF a(2)] t(2)] two by (auto simp: time_value_size_def)
  show ?thesis using 1 2 a by (simp add: write_timer_value_def)
qed

text \<open>A timer set from a guest structure and read back later shows its interval and the time left.\<close>

lemma set_then_get:
  assumes ok: "ok m" and w: "words_at a [s1, u1, s2, u2] m" and a: "a \<noteq> 0" "\<not> a > last_fit timer_value_size"
    and v: "time_ok s1 u1" "time_ok s2 u2"
    and b: "slots_at b 4 m" "b \<noteq> 0" "\<not> b > last_fit timer_value_size"
    and now: "now \<le> later" "unat now + unat (nanoseconds s2 u2) < 2 ^ 64"
  shows "\<exists>ts' m'. dispatch_interval_timer read32 write32 now pid set_syscall 0 a 0 ts m = (Succeeded, ts', m) \<and>
    dispatch_interval_timer read32 write32 later pid get_syscall 0 b x ts' m = (Succeeded, ts', m') \<and>
    ok m' \<and> words_at b ([s1, u1] @ time_words (of_nat (unat (nanoseconds s2 u2) - (unat later - unat now)))) m'"
proof -
  define V where "V = nanoseconds s2 u2"
  define left where "left = (of_nat (unat V - (unat later - unat now)) :: u64)"
  define t where "t = \<lparr>it_interval = nanoseconds s1 u1, it_deadline = deadline_after now V\<rparr>"
  have diff: "set_syscall \<noteq> get_syscall" by (simp add: set_syscall_def get_syscall_def)
  have set: "dispatch_interval_timer read32 write32 now pid set_syscall 0 a 0 ts m = (Succeeded, ts(pid \<mapsto> t), m)"
    using read_timer_value_words [OF ok w a v] diff
    by (simp add: dispatch_interval_timer_def real_timer_def Let_def t_def V_def)
  have ul: "unat left = unat V - (unat later - unat now)"
    unfolding left_def using unat_bound64 [of V] by (simp add: unat_of_nat)
  have cur: "current_value t later = \<lparr>tv_interval = nanoseconds s1 u1, tv_value = left\<rparr>"
  proof (cases "V = 0")
    case True
    then have "left = 0" by (simp add: left_def)
    then show ?thesis using True by (simp add: t_def current_value_def deadline_after_def)
  next
    case False
    have le: "unat now \<le> unat later" using now(1) by (simp add: word_le_nat_alt)
    have sum: "unat (now + V) = unat now + unat V" using now(2) by (simp add: V_def unat_word_ariths)
    have "\<not> V > 0xFFFFFFFFFFFFFFFF - now"
      using now(2) by (simp add: V_def word_less_nat_alt unat_max_minus not_less)
    then have d: "it_deadline t = Some (now + V)" using False by (simp add: t_def deadline_after_def)
    have "(if now + V > later then now + V - later else 0) = left"
    proof -
      have "unat (if now + V > later then now + V - later else 0) = unat left"
        using le by (auto simp: ul word_less_nat_alt sum sub_unat word_le_nat_alt not_less)
      then show ?thesis by (rule unsigned_word_eqI)
    qed
    then show ?thesis by (simp add: current_value_def d) (simp add: t_def)
  qed
  have "unat (nanoseconds s1 u1) < 2 ^ 31 * 10 ^ 9" "unat left < 2 ^ 31 * 10 ^ 9"
    using time_okD [OF v(1)] time_okD [OF v(2)] ul by (simp_all add: V_def)
  then have "nanoseconds s1 u1 div ns_per_second \<le> 0x7FFFFFFF" "left div ns_per_second \<le> 0x7FFFFFFF"
    using less_mult_imp_div_less [of "unat (nanoseconds s1 u1)" "2 ^ 31" "10 ^ 9"] less_mult_imp_div_less [of "unat left" "2 ^ 31" "10 ^ 9"]
    by (simp_all add: word_le_nat_alt unat_div ns_per_second_def)
  then obtain m' where m': "write_timer_value write32 b (current_value t later) m = (True, m')" "ok m'"
      "words_at b (time_words (nanoseconds s1 u1) @ time_words left) m'"
    using write_timer_value_words [OF ok b(1-3), of "current_value t later"] cur by auto
  have get: "dispatch_interval_timer read32 write32 later pid get_syscall 0 b x (ts(pid \<mapsto> t)) m = (Succeeded, ts(pid \<mapsto> t), m')"
    using m'(1) by (simp add: dispatch_interval_timer_def real_timer_def)
  show ?thesis
    using set get m' time_words_back [OF v(1)] unfolding V_def [symmetric] left_def [symmetric] by auto
qed

end

end
