(* ===== verification/Address_Space_Words.thy ===== *)
theory Address_Space_Words
  imports Address_Space_Properties Guest_Memory
begin

text \<open>
  \<open>AddressSpace::read32\<close> and \<open>write32\<close> of one space as the guest memory that the calls of the kernel use.
\<close>

definition space_read32 :: "pread \<Rightarrow> nat \<Rightarrow> memory_world read_word" where
  "space_read32 pread s a w =
     (case read_integer pread s (unat a) 4 perm_read w of
        None \<Rightarrow> (None, w)
      | Some (r, w') \<Rightarrow> (map_option ucast r, w'))"

definition space_write32 :: "pread \<Rightarrow> nat \<Rightarrow> memory_world write_word" where
  "space_write32 pread s a v w = write_integer pread s (unat a) 4 (ucast v) w"

definition space_live :: "nat \<Rightarrow> memory_world \<Rightarrow> bool" where
  "space_live s w \<longleftrightarrow> world_ok w \<and> s \<in> set (live w)"

definition private_word :: "nat \<Rightarrow> u32 \<Rightarrow> memory_world \<Rightarrow> bool" where
  "private_word s a w \<longleftrightarrow> range_accessible s (unat a) 4 perm_read w \<and> range_accessible s (unat a) 4 perm_write w \<and>
     (\<forall>x\<in>{unat a..<unat a + 4}. \<not> shared_at s x w)"

definition stored_word :: "nat \<Rightarrow> u32 \<Rightarrow> u32 \<Rightarrow> memory_world \<Rightarrow> bool" where
  "stored_word s a v w \<longleftrightarrow> range_accessible s (unat a) 4 perm_read w \<and> (\<forall>i < 4. resident s (unat a + i) w \<noteq> None \<and>
     read_byte s (unat a + i) w = split_bytes 4 (ucast v) ! i)"

lemma resident_no_fault:
  assumes lk: "lookup_ok w s" and a: "\<not> range_overflows (unat (a :: u32)) 4"
    and r: "\<forall>i < 4. resident s (unat a + i) w \<noteq> None"
  shows "\<not> range_needs_file_fault s (unat a) 4 w"
proof -
  define P where "P j \<longleftrightarrow> resident s (j * page_size) w \<noteq> None" for j
  have base: "resident s (x div page_size * page_size) w = resident s x w" for x
    by (simp add: resident_entry [OF lk] page_base_alt)
  have "P (x div page_size)" if "unat a \<le> x" "x < unat a + 4" for x
  proof -
    have "resident s x w \<noteq> None" using r [rule_format, of "x - unat a"] that by simp
    then show ?thesis by (simp add: P_def base)
  qed
  then have all: "\<forall>b\<in>set (page_bases (page_base (unat a)) (page_range_end (unat a) 4)). P (b div page_size)"
    using pages_of_range [OF _ a unat_u32, of P] by simp
  have "\<exists>pg. find_page s b w = Some pg \<and> pg_backing pg \<noteq> None"
    if b: "b \<in> set (page_bases (page_base (unat a)) (page_range_end (unat a) 4))" for b
  proof -
    have "resident s b w \<noteq> None" using all b by (simp add: P_def base)
    then show ?thesis by (auto simp: resident_def split: option.splits)
  qed
  then show ?thesis
    using a unfolding range_needs_file_fault_def by (fastforce simp: list_ex_iff)
qed

lemma read_stored_word:
  assumes live: "space_live s w" and v: "stored_word s a v w"
  shows "space_read32 pread s a w = (Some v, w)"
proof -
  have inv: "page_inv w" using live by (simp add: space_live_def world_ok_def)
  have lk: "lookup_ok w s" using inv_lookup [OF inv] live by (simp add: space_live_def)
  have acc: "range_accessible s (unat a) 4 perm_read w" and r: "\<forall>i < 4. resident s (unat a + i) w \<noteq> None"
    and b: "\<And>i. i < 4 \<Longrightarrow> read_byte s (unat a + i) w = split_bytes 4 (ucast v) ! i"
    using v by (simp_all add: stored_word_def)
  have "\<not> range_overflows (unat a) 4" using acc by (auto simp: range_accessible_def split: if_splits)
  note nf = resident_no_fault [OF lk this r]
  have bytes: "map (\<lambda>i. read_byte s (unat a + i) w) [0..<4] = split_bytes 4 (ucast v)"
    using b by (intro nth_equalityI) simp_all
  have j: "join_bytes (split_bytes 4 (ucast v)) = (ucast v :: u64)"
    by (rule bit_eqI) (auto simp: join_split bit_simps dest: bit_imp_le_length)
  have "read_integer_attempt s (unat a) 4 perm_read w = Got (ucast v)"
  proof (cases "unat a mod page_size \<le> page_size - 4")
    case True
    obtain p where p: "resident s (unat a) w = Some p" using r [rule_format, of 0] by auto
    have "read_byte s (unat a + i) w = pb_bytes (backing_of (store w) p) (unat a mod page_size + i)" if "i < 4" for i
    proof -
      have m: "unat a mod page_size + i < page_size" using True that by (simp add: page_size_def)
      then have off: "(unat a + i) mod page_size = unat a mod page_size + i" by (metis mod_add_left_eq mod_less)
      have "(unat a + i) div page_size = unat a div page_size"
      proof (rule div_nat_eqI)
        have "unat a = page_size * (unat a div page_size) + unat a mod page_size" by simp
        then show "page_size * (unat a div page_size) \<le> unat a + i" "unat a + i < page_size * Suc (unat a div page_size)"
          using m unfolding mult_Suc_right by linarith+
      qed
      then have "resident s (unat a + i) w = Some p" using p by (simp add: resident_entry [OF lk] page_base_alt)
      then show ?thesis by (simp add: read_byte_def off)
    qed
    then have "map (\<lambda>i. pb_bytes (backing_of (store w) p) (unat a mod page_size + i)) [0..<4] = split_bytes 4 (ucast v)"
      unfolding bytes [symmetric] by (intro map_cong) simp_all
    then show ?thesis using True p acc j by (simp add: read_integer_attempt_def Let_def)
  next
    case False
    then show ?thesis using acc nf bytes j by (simp add: read_integer_attempt_def Let_def)
  qed
  then have "read_integer pread s (unat a) 4 perm_read w = Some (Some (ucast v), w)" by (subst read_integer.simps) simp
  moreover have "ucast (ucast v :: u64) = v" by (rule bit_word_eqI) (auto simp: bit_simps)
  ultimately show ?thesis by (simp add: space_read32_def)
qed

lemma write_private_word:
  assumes live: "space_live s w" and slot: "private_word s a w"
  shows "\<exists>w'. space_write32 pread s a v w = (True, w') \<and> space_live s w' \<and> stored_word s a v w' \<and>
    (\<forall>b. private_word s b w \<longrightarrow> private_word s b w') \<and> (\<forall>b u. apart a b \<longrightarrow> stored_word s b u w \<longrightarrow> stored_word s b u w')"
proof -
  have ok: "world_ok w" and s: "s \<in> set (live w)" using live by (simp_all add: space_live_def)
  have n: "4 \<le> page_size" by (simp add: page_size_def)
  define w' where "w' = snd (write_integer pread s (unat a) 4 (ucast v) w)"
  have eq: "write_integer pread s (unat a) 4 (ucast v) w = (True, w')"
    using slot by (simp add: w'_def write_integer_def private_word_def)
  note wr = write_integer_wrote [OF world_okD(1) [OF ok] s n eq]
  note acc = same_view_accessible [OF wrote_inv(4) [OF wr(1)]]
  have shared: "shared_at s x w' = shared_at s x w" for x using wr(1) by (simp add: wrote_def)
  have "stored_word s b u w'" if "apart a b" "stored_word s b u w" for b u
  proof -
    have "resident s (unat b + i) w' \<noteq> None \<and> read_byte s (unat b + i) w' = read_byte s (unat b + i) w" if i: "i < 4" for i
    proof -
      have out: "unat b + i \<notin> {unat a..<unat a + 4}" using \<open>apart a b\<close> i by (auto simp: apart_def)
      have r: "resident s (unat b + i) w \<noteq> None" using \<open>stored_word s b u w\<close> i by (simp add: stored_word_def)
      then show ?thesis using wr(1) s out slot by (auto simp: wrote_def settled_def private_word_def)
    qed
    then show ?thesis using \<open>stored_word s b u w\<close> by (simp add: stored_word_def acc)
  qed
  moreover have "stored_word s a v w'" using slot wr(2) by (simp add: stored_word_def acc private_word_def)
  moreover have "private_word s b w'" if "private_word s b w" for b using that by (simp add: private_word_def acc shared)
  moreover have "space_live s w'"
    using keeps_world [OF ok wrote_keeps [OF wr(1)]] wrote_inv(3) [OF wr(1)] s by (simp add: space_live_def)
  ultimately show ?thesis using eq by (auto simp: space_write32_def)
qed

interpretation space_words: guest_memory "space_live s" "private_word s" "stored_word s" "space_read32 pread s" "space_write32 pread s"
  for s pread
  by unfold_locales (blast intro: write_private_word read_stored_word)+

end
