(* ===== verification/Interval_Timer_Properties.thy ===== *)
theory Interval_Timer_Properties
  imports Interval_Timer Address_Space_Words
begin

text \<open>The properties of the interval timer, the second over the guest memory of an address space.\<close>

text \<open>
  C24: Service keeps the period. After any history of calls, services and exits, servicing a timer
  at or after its deadline reports the expiry once; a one-shot timer is disarmed, and a repeating
  one moves to the first multiple of its interval after the old deadline that lies beyond the time
  serviced, however late the service was (no drift, no expiry in the past), or to the largest
  64-bit time when that multiple does not fit.\<close>

theorem service_keeps_period:
  assumes ts: "ts = itimer_run es" and t: "ts pid = Some t" "it_deadline t = Some d" "d \<le> late"
    and s: "service_due pid late ts = (b, ts')"
  shows "b \<and> (\<forall>q. q \<noteq> pid \<longrightarrow> ts' q = ts q) \<and>
    (if it_interval t = 0 then ts' pid = Some (t\<lparr>it_deadline := None\<rparr>)
     else \<exists>d' N k. ts' pid = Some (t\<lparr>it_deadline := Some d'\<rparr>) \<and> N = unat d + k * unat (it_interval t) \<and>
       unat late < N \<and> N \<le> unat late + unat (it_interval t) \<and> unat d' = min N (2 ^ 64 - 1))"
proof (cases "it_interval t = 0")
  case True
  have le: "\<not> d > late" using t(3) by simp
  have "(b, ts') = (True, ts(pid \<mapsto> t\<lparr>it_deadline := None\<rparr>))"
    using s unfolding service_due_def t(1,2) option.case if_not_P [OF le] if_P [OF True] by simp
  then show ?thesis using True by simp
next
  case False
  have ok: "interval_ok (it_interval t)" using itimer_run_ok [of es] t(1) ts by (simp add: itimers_ok_def)
  have le: "\<not> d > late" using t(3) by simp
  note f = service_at [OF t(1,2) le False ok s]
  obtain d' where d': "ts' = ts(pid \<mapsto> t\<lparr>it_deadline := Some d'\<rparr>)"
    "unat d' = min (unat d + ((unat late - unat d) div unat (it_interval t) + 1) * unat (it_interval t)) (2 ^ 64 - 1)"
    using f(2) by blast
  have "\<exists>d' N k. ts' pid = Some (t\<lparr>it_deadline := Some d'\<rparr>) \<and> N = unat d + k * unat (it_interval t) \<and>
       unat late < N \<and> N \<le> unat late + unat (it_interval t) \<and> unat d' = min N (2 ^ 64 - 1)"
    by (intro exI conjI) (rule refl d' f(3,4) | simp add: d'(1))+
  then show ?thesis using f(1) d'(1) False by simp
qed

text \<open>A timer of one second with a period of three seconds, set by process 5 at time 10 from a memory
  that is the function of its words.\<close>

definition example_memory :: "u32 \<Rightarrow> u32" where
  "example_memory = (\<lambda>a. if a = 0x1000 then 3 else if a = 0x1008 then 1 else 0)"

definition example_read :: "(u32 \<Rightarrow> u32) read_word" where
  "example_read a m = (Some (m a), m)"

definition example_write :: "(u32 \<Rightarrow> u32) write_word" where
  "example_write a v m = (True, m(a := v))"

definition example_timers :: "(u32 \<Rightarrow> u32) itimer_event list" where
  "example_timers = [Timer_Call example_read example_write example_memory 10 5 83 0 0x1000 0]"

lemma example_timers_run:
  "itimer_run example_timers = [5 \<mapsto> \<lparr>it_interval = 3000000000, it_deadline = Some 1000000010\<rparr>]"
  by (simp add: itimer_run_def example_timers_def dispatch_interval_timer_def set_syscall_def get_syscall_def real_timer_def
      read_timer_value_def read_time_value_def example_read_def example_memory_def last_fit_def timer_value_size_def time_value_size_def
      ns_per_second_def ns_per_microsecond_def Let_def deadline_after_def)

theorem service_keeps_period_witness:
  "fst (service_due 5 9000000000 (itimer_run example_timers)) \<and>
   (\<exists>d' N k. snd (service_due 5 9000000000 (itimer_run example_timers)) 5 = Some \<lparr>it_interval = 3000000000, it_deadline = Some d'\<rparr> \<and>
     N = 1000000010 + k * 3000000000 \<and> 9000000000 < N \<and> N \<le> 12000000000 \<and> unat d' = min N (2 ^ 64 - 1))"
  using service_keeps_period [OF refl, of example_timers 5 "\<lparr>it_interval = 3000000000, it_deadline = Some 1000000010\<rparr>" 1000000010 9000000000,
      OF _ _ _ prod.collapse [symmetric]]
  by (simp add: example_timers_run)

text \<open>
  C25: Set, then get. Over the memory of an address space, in every reachable state of it: when a
  guest structure of four words holds a valid interval and value, \<open>setitimer\<close> from it succeeds, and a
  later \<open>getitimer\<close> into private memory succeeds and leaves there the interval word for word and
  the time left until the deadline in seconds and whole microseconds, which is zero once it passed.\<close>

theorem set_timer_then_get:
  assumes "space_live s w"
    and "\<forall>i < 4. stored_word s (a + 4 * of_nat i) ([s1, u1, s2, u2] ! i) w" "a \<noteq> 0" "a \<le> last_fit timer_value_size"
    and "time_ok s1 u1" "time_ok s2 u2"
    and "\<forall>i < 4. private_word s (b + 4 * of_nat i) w" "b \<noteq> 0" "b \<le> last_fit timer_value_size"
    and "now \<le> later" "unat now + unat (nanoseconds s2 u2) < 2 ^ 64"
    and "left = unat (nanoseconds s2 u2) - (unat later - unat now)"
  shows "\<exists>ts' w'. dispatch_interval_timer (space_read32 pread s) (space_write32 pread s) now pid 83 0 a 0 ts w = (Succeeded, ts', w) \<and>
    dispatch_interval_timer (space_read32 pread s) (space_write32 pread s) later pid 86 0 b x ts' w = (Succeeded, ts', w') \<and>
    space_live s w' \<and> stored_word s b s1 w' \<and> stored_word s (b + 4) u1 w' \<and>
    stored_word s (b + 8) (of_nat (left div 10 ^ 9)) w' \<and> stored_word s (b + 12) (of_nat (left mod 10 ^ 9 div 1000)) w'"
proof -
  have small: "left < 2 ^ 31 * 10 ^ 9" using time_okD [OF assms(6)] assms(12) by simp
  have u: "unat (of_nat left :: u64) = left" using small by (simp add: unat_of_nat)
  have words: "time_words (of_nat left) = [of_nat (left div 10 ^ 9), of_nat (left mod 10 ^ 9 div 1000)]"
  proof (rule time_words_nat)
    have "(left mod 10 ^ 9) mod 1000 = left mod 1000" by (simp add: mod_mod_cancel)
    then have "left mod 10 ^ 9 = left mod 10 ^ 9 div 1000 * 1000 + left mod 1000"
      using div_mult_mod_eq [of "left mod 10 ^ 9" 1000] by simp
    then show "unat (of_nat left :: u64) = left div 10 ^ 9 * 10 ^ 9 + left mod 10 ^ 9 div 1000 * 1000 + left mod 1000"
      using div_mult_mod_eq [of left "10 ^ 9"] unfolding u by linarith
    have "left mod 10 ^ 9 < 1000000 * 1000" by simp
    then show "left mod 10 ^ 9 div 1000 < 1000000" by (rule less_mult_imp_div_less)
    show "left div 10 ^ 9 < 2 ^ 31" using small by (rule less_mult_imp_div_less)
  qed simp
  have w4: "space_words.words_at s a [s1, u1, s2, u2] w" using assms(2) by (simp add: space_words.words_at_def)
  have b4: "space_words.slots_at s b 4 w" using assms(7) by (simp add: space_words.slots_at_def)
  have a4: "\<not> last_fit timer_value_size < a" and b5: "\<not> last_fit timer_value_size < b" using assms(4,9) by simp_all
  obtain ts' w' where *:
    "dispatch_interval_timer (space_read32 pread s) (space_write32 pread s) now pid set_syscall 0 a 0 ts w = (Succeeded, ts', w)"
    "dispatch_interval_timer (space_read32 pread s) (space_write32 pread s) later pid get_syscall 0 b x ts' w = (Succeeded, ts', w')"
    "space_live s w'" "space_words.words_at s b ([s1, u1] @ time_words (of_nat left)) w'"
    using guest_memory.set_then_get [OF space_words.guest_memory_axioms assms(1) w4 assms(3) a4 assms(5,6) b4 assms(8) b5 assms(10,11),
        where ts = ts and pid = pid and x = x, folded assms(12)] by blast
  then show ?thesis
    unfolding words by (auto simp: guest_memory.words4 [OF space_words.guest_memory_axioms] set_syscall_def get_syscall_def)
qed

lemma example_slots: "space_words.slots_at 0 0x1000 72 (memory_run example_ops)"
proof -
  have live: "0 \<in> set (live (memory_run example_ops))" by (simp add: example_world(1))
  have "lookup_ok (memory_run example_ops) 0" by (rule inv_lookup [OF world_okD(1) [OF run_world] live])
  then have shared: "\<not> shared_at 0 x (memory_run example_ops)" for x
    by (simp add: shared_at_def find_page_entry example_world(2))
  have "private_word 0 (0x1000 + 4 * of_nat i) (memory_run example_ops)" if i: "i < 72" for i
  proof -
    have "unat (4 * of_nat i :: u32) = 4 * i" using i by (simp add: unat_word_ariths unat_of_nat)
    then have u: "unat (0x1000 + 4 * of_nat i :: u32) = 0x1000 + 4 * i" using i by (simp add: unat_word_ariths)
    show ?thesis using i unfolding private_word_def u
      by (auto simp: shared intro!: example_accessible simp: has_permission_def perm_read_def perm_write_def mapped_page_flag_def)
  qed
  then show ?thesis by (simp add: space_words.slots_at_def)
qed

lemma example_stored:
  "\<exists>w. space_live 0 w \<and> space_words.slots_at 0 0x1000 72 w \<and> space_words.words_at 0 0x1000 [3, 0, 1, 500000] w"
proof -
  have 0: "space_live 0 (memory_run example_ops)" by (simp add: space_live_def run_world example_world(1))
  have none: "space_words.words_at 0 0x1000 [] (memory_run example_ops)" by (simp add: space_words.words_at_def)
  have fit: "unat (0x1000 :: u32) + 4 * 72 \<le> 2 ^ 32" by simp
  note next_word = space_words.write_next [OF _ _ _ _ fit, where pread = "\<lambda>_ _ _. []" and s = 0]
  obtain w1 where 1: "space_live 0 w1" "space_words.slots_at 0 0x1000 72 w1" "space_words.words_at 0 0x1000 ([] @ [3]) w1"
    using next_word [OF 0 example_slots none, of 3] by auto
  obtain w2 where 2: "space_live 0 w2" "space_words.slots_at 0 0x1000 72 w2" "space_words.words_at 0 0x1000 (([] @ [3]) @ [0]) w2"
    using next_word [OF 1, of 0] by auto
  obtain w3 where 3: "space_live 0 w3" "space_words.slots_at 0 0x1000 72 w3" "space_words.words_at 0 0x1000 ((([] @ [3]) @ [0]) @ [1]) w3"
    using next_word [OF 2, of 1] by auto
  obtain w4 where "space_live 0 w4" "space_words.slots_at 0 0x1000 72 w4"
      "space_words.words_at 0 0x1000 (((([] @ [3]) @ [0]) @ [1]) @ [500000]) w4"
    using next_word [OF 3, of 500000] by auto
  then show ?thesis by auto
qed

theorem set_timer_then_get_witness:
  "\<exists>w ts' w'. dispatch_interval_timer (space_read32 (\<lambda>_ _ _. []) 0) (space_write32 (\<lambda>_ _ _. []) 0) 10 5 83 0 0x1000 0 (\<lambda>_. None) w =
      (Succeeded, ts', w) \<and>
    dispatch_interval_timer (space_read32 (\<lambda>_ _ _. []) 0) (space_write32 (\<lambda>_ _ _. []) 0) 400000010 5 86 0 0x1100 0 ts' w = (Succeeded, ts', w') \<and>
    stored_word 0 0x1100 3 w' \<and> stored_word 0 0x1108 1 w' \<and> stored_word 0 0x110C 100000 w'"
proof -
  obtain w where w: "space_live 0 w" "space_words.slots_at 0 0x1000 72 w" "space_words.words_at 0 0x1000 [3, 0, 1, 500000] w"
    using example_stored by blast
  have a: "\<forall>i < 4. stored_word 0 (0x1000 + 4 * of_nat i) ([3, 0, 1, 500000] ! i) w" using w(3) by (simp add: space_words.words_at_def)
  have b: "\<forall>i < 4. private_word 0 (0x1100 + 4 * of_nat i) w"
  proof (intro allI impI)
    fix i :: nat
    assume i: "i < 4"
    have eq: "0x1000 + 4 * of_nat (64 + i) = (0x1100 + 4 * of_nat i :: u32)" by (simp add: distrib_left)
    show "private_word 0 (0x1100 + 4 * of_nat i) w"
      unfolding eq [symmetric] by (rule w(2) [unfolded space_words.slots_at_def, rule_format]) (use i in simp)
  qed
  have t: "time_ok 3 0" "time_ok 1 500000" by (simp_all add: time_ok_def)
  have n: "unat (nanoseconds 1 500000) = 1500000000" using time_okD(3) [OF t(2)] by simp
  show ?thesis
    using set_timer_then_get [OF w(1) a _ _ t b, of 10 400000010 1100000000] n
    by (simp add: last_fit_def timer_value_size_def time_value_size_def) blast
qed

end
