(* ===== verification/Virtual_Udp.thy ===== *)
theory Virtual_Udp
  imports Ilsim_Prelude
begin

text \<open>
  The in-memory UDP fabric (\<open>src/kernel/bsd/network/virtual_udp.cpp\<close>): sockets of one network, binding,
  connecting, multicast membership, sending to all matching sockets and receiving, and the control
  messages of a received datagram. Socket addresses are the byte vectors of the guest; a socket is a
  number, the network keeps weak pointers to sockets in the order of their creation, and a closed
  socket is one that is not there. Every call holds the lock of the network.
\<close>

section \<open>Addresses\<close>

type_synonym bytes = "u8 list"

definition af_inet :: u32 where "af_inet = 2"
definition af_link :: u32 where "af_link = 18"
definition af_inet6 :: u32 where "af_inet6 = 30"
definition protocol_ip :: u32 where "protocol_ip = 0"
definition protocol_ipv6 :: u32 where "protocol_ipv6 = 41"
definition ip_multicast_loop :: u32 where "ip_multicast_loop = 11"
definition ip_add_membership :: u32 where "ip_add_membership = 12"
definition ip_drop_membership :: u32 where "ip_drop_membership = 13"
definition ipv6_multicast_loop :: u32 where "ipv6_multicast_loop = 11"
definition ipv6_join_group :: u32 where "ipv6_join_group = 12"
definition ipv6_leave_group :: u32 where "ipv6_leave_group = 13"
definition maximum_pending_datagrams :: nat where "maximum_pending_datagrams = 256"
definition first_ephemeral_port :: u16 where "first_ephemeral_port = 49152"

definition default_ipv4_address :: bytes where "default_ipv4_address = [10, 0, 2, 15]"
definition default_ipv6_address :: bytes where "default_ipv6_address = replicate 15 0 @ [1]"

definition address_size :: "u32 \<Rightarrow> nat" where
  "address_size family = (if family = af_inet then 16 else if family = af_inet6 then 28 else 0)"

definition valid_address :: "bytes \<Rightarrow> u32 \<Rightarrow> bool" where
  "valid_address address family \<longleftrightarrow>
     (let expected = address_size family in
      expected \<noteq> 0 \<and> length address \<ge> expected \<and> ucast (address ! 1) = family)"

definition normalize_address :: "bytes \<Rightarrow> u32 \<Rightarrow> bytes" where
  "normalize_address address family =
     (let width = address_size family in (take width address)[0 := of_nat width])"

definition same_port :: "bytes \<Rightarrow> bytes \<Rightarrow> bool" where
  "same_port l r \<longleftrightarrow> l ! 2 = r ! 2 \<and> l ! 3 = r ! 3"

definition zero_port :: "bytes \<Rightarrow> bool" where
  "zero_port address \<longleftrightarrow> address ! 2 = 0 \<and> address ! 3 = 0"

definition set_port :: "bytes \<Rightarrow> u16 \<Rightarrow> bytes" where
  "set_port address port = address[2 := ucast (drop_bit 8 port), 3 := ucast port]"

definition ip_offset :: "u32 \<Rightarrow> nat" where
  "ip_offset family = (if family = af_inet then 4 else 8)"

definition address_bytes :: "bytes \<Rightarrow> u32 \<Rightarrow> bytes" where
  "address_bytes address family =
     take (if family = af_inet then 4 else 16) (drop (ip_offset family) address)"

definition wildcard_address :: "bytes \<Rightarrow> u32 \<Rightarrow> bool" where
  "wildcard_address address family \<longleftrightarrow> list_all (\<lambda>v. v = 0) (address_bytes address family)"

definition multicast_address :: "bytes \<Rightarrow> u32 \<Rightarrow> bool" where
  "multicast_address address family \<longleftrightarrow>
     (let bs = address_bytes address family in
      if family = af_inet then hd bs \<ge> 224 \<and> hd bs \<le> 239 else hd bs = 0xFF)"

definition same_ip :: "bytes \<Rightarrow> bytes \<Rightarrow> u32 \<Rightarrow> bool" where
  "same_ip l r family \<longleftrightarrow> address_bytes l family = address_bytes r family"

definition enabled_value :: "bytes \<Rightarrow> bool" where
  "enabled_value v \<longleftrightarrow> v \<noteq> [] \<and> list_ex (\<lambda>b. b \<noteq> 0) v"

section \<open>Sockets and the network\<close>

datatype udp_status = Success | Invalid_Argument | Address_Family_Unsupported | Not_Connected | Already_Connected

record udp_datagram =
  dg_bytes :: bytes
  dg_source :: bytes
  dg_destination :: bytes

record udp_socket =
  us_family :: u32
  us_bound :: bytes
  us_connected :: bytes
  us_groups :: "bytes set"
  us_incoming :: "udp_datagram list"
  us_loop :: bool

record udp_network =
  un_alive :: bool
  un_sockets :: "nat list"
  un_socket :: "nat \<Rightarrow> udp_socket option"
  un_fresh :: nat
  un_port :: u16

definition put_socket :: "nat \<Rightarrow> udp_socket \<Rightarrow> udp_network \<Rightarrow> udp_network" where
  "put_socket s k net = net\<lparr>un_socket := (un_socket net)(s \<mapsto> k)\<rparr>"

definition new_udp_socket :: "u32 \<Rightarrow> udp_socket" where
  "new_udp_socket family = \<lparr>us_family = family, us_bound = [], us_connected = [], us_groups = {}, us_incoming = [], us_loop = True\<rparr>"

definition udp_create :: "u32 \<Rightarrow> udp_network \<Rightarrow> nat option \<times> udp_network" where
  "udp_create family net =
     (if address_size family = 0 then (None, net)
      else let s = un_fresh net in
        (Some s, put_socket s (new_udp_socket family) (net\<lparr>un_sockets := un_sockets net @ [s], un_fresh := Suc s\<rparr>)))"

definition network_bind :: "nat \<Rightarrow> udp_socket \<Rightarrow> bytes \<Rightarrow> udp_network \<Rightarrow> udp_status \<times> udp_network" where
  "network_bind s k address net =
     (if \<not> valid_address address (us_family k) then (Invalid_Argument, net)
      else (Success, put_socket s (k\<lparr>us_bound := normalize_address address (us_family k)\<rparr>) net))"

definition network_set_option :: "nat \<Rightarrow> udp_socket \<Rightarrow> u32 \<Rightarrow> u32 \<Rightarrow> bytes \<Rightarrow> udp_network \<Rightarrow> udp_status \<times> udp_network" where
  "network_set_option s k level option v net =
     (let ipv4 = (us_family k = af_inet \<and> level = protocol_ip);
          ipv6 = (us_family k = af_inet6 \<and> level = protocol_ipv6)
      in if (ipv4 \<and> option = ip_multicast_loop) \<or> (ipv6 \<and> option = ipv6_multicast_loop) then
           (if v = [] then (Invalid_Argument, net)
            else (Success, put_socket s (k\<lparr>us_loop := enabled_value v\<rparr>) net))
         else
           let join = (ipv4 \<and> option = ip_add_membership) \<or> (ipv6 \<and> option = ipv6_join_group);
               leave = (ipv4 \<and> option = ip_drop_membership) \<or> (ipv6 \<and> option = ipv6_leave_group);
               group_size = (if ipv4 then 4 else 16)
           in if \<not> join \<and> \<not> leave then (Success, net)
              else if length v < group_size then (Invalid_Argument, net)
              else let grp = take group_size v in
                (Success, put_socket s (k\<lparr>us_groups := (if join then insert grp (us_groups k) else us_groups k - {grp})\<rparr>) net))"

section \<open>Sending\<close>

text \<open>The address a socket gets when it sends before it was bound.\<close>

definition ephemeral_address :: "u32 \<Rightarrow> u16 \<Rightarrow> bytes" where
  "ephemeral_address family port =
     set_port ((replicate (address_size family) 0)[0 := of_nat (address_size family), 1 := ucast family]) port"

definition source_address :: "bytes \<Rightarrow> u32 \<Rightarrow> bytes" where
  "source_address bound family =
     (if wildcard_address bound family
      then (let replacement = (if family = af_inet then default_ipv4_address else default_ipv6_address)
            in take (ip_offset family) bound @ replacement @ drop (ip_offset family + length replacement) bound)
      else bound)"

text \<open>Whether a live socket takes the datagram: \<open>own\<close> is true of the sender itself.\<close>

definition accepts :: "u32 \<Rightarrow> bool \<Rightarrow> bytes \<Rightarrow> bytes \<Rightarrow> bool \<Rightarrow> udp_socket \<Rightarrow> bool" where
  "accepts family loop source destination own target \<longleftrightarrow>
     (let multicast = multicast_address destination family;
          grp = address_bytes destination family;
          wildcard = wildcard_address (us_bound target) (us_family target)
      in if us_family target \<noteq> family \<or> us_bound target = [] \<or> \<not> same_port (us_bound target) destination then False
         else if us_connected target \<noteq> [] \<and>
           (\<not> same_port (us_connected target) source \<or> \<not> same_ip (us_connected target) source (us_family target)) then False
         else if own \<and> multicast \<and> \<not> loop then False
         else if multicast then wildcard \<or> grp \<in> us_groups target
         else wildcard \<or> same_ip (us_bound target) destination (us_family target))"

definition enqueue_datagram :: "udp_datagram \<Rightarrow> udp_socket \<Rightarrow> udp_socket" where
  "enqueue_datagram d k =
     k\<lparr>us_incoming := (if length (us_incoming k) \<ge> maximum_pending_datagrams then tl (us_incoming k) else us_incoming k) @ [d]\<rparr>"

text \<open>The loop over the weak pointers: those of closed sockets are dropped.\<close>

fun deliver :: "(nat \<Rightarrow> udp_socket \<Rightarrow> bool) \<Rightarrow> udp_datagram \<Rightarrow> nat list \<Rightarrow> (nat \<Rightarrow> udp_socket option) \<Rightarrow>
     nat list \<times> (nat \<Rightarrow> udp_socket option)" where
  "deliver takes d [] m = ([], m)"
| "deliver takes d (t # ts) m =
     (case m t of
        None \<Rightarrow> deliver takes d ts m
      | Some k \<Rightarrow>
          let (ts', m') = deliver takes d ts (if takes t k then m(t \<mapsto> enqueue_datagram d k) else m)
          in (t # ts', m'))"

definition network_send :: "nat \<Rightarrow> udp_socket \<Rightarrow> bytes \<Rightarrow> bytes \<Rightarrow> udp_network \<Rightarrow> udp_status \<times> udp_network" where
  "network_send s k bytes destination net =
     (if \<not> valid_address destination (us_family k) then (Invalid_Argument, net)
      else let destination' = normalize_address destination (us_family k) in
      if zero_port destination' then (Invalid_Argument, net)
      else
        let k1 = (if us_bound k = [] then k\<lparr>us_bound := ephemeral_address (us_family k) (un_port net)\<rparr> else k);
            port = (if us_bound k = [] then (if un_port net + 1 = 0 then first_ephemeral_port else un_port net + 1) else un_port net);
            source = source_address (us_bound k1) (us_family k);
            (sockets, m) = deliver (\<lambda>t. accepts (us_family k) (us_loop k) source destination' (t = s))
              \<lparr>dg_bytes = bytes, dg_source = source, dg_destination = destination'\<rparr>
              (un_sockets net) ((un_socket net)(s \<mapsto> k1))
        in (Success, net\<lparr>un_sockets := sockets, un_socket := m, un_port := port\<rparr>))"

section \<open>The operations of a socket\<close>

text \<open>On a socket that the caller holds; each first tries the weak pointer to the network.\<close>

definition udp_bind :: "nat \<Rightarrow> udp_socket \<Rightarrow> bytes \<Rightarrow> udp_network \<Rightarrow> udp_status \<times> udp_network" where
  "udp_bind s k address net =
     (if un_alive net then network_bind s k address net else (Address_Family_Unsupported, net))"

definition udp_connect :: "nat \<Rightarrow> udp_socket \<Rightarrow> bytes \<Rightarrow> udp_network \<Rightarrow> udp_status \<times> udp_network" where
  "udp_connect s k address net =
     (if \<not> valid_address address (us_family k) then (Invalid_Argument, net)
      else if \<not> un_alive net then (Address_Family_Unsupported, net)
      else let normalized = normalize_address address (us_family k) in
      if zero_port normalized then (Invalid_Argument, net)
      else if us_connected k \<noteq> [] then (Already_Connected, net)
      else (Success, put_socket s (k\<lparr>us_connected := normalized\<rparr>) net))"

definition udp_disconnect :: "nat \<Rightarrow> udp_socket \<Rightarrow> udp_network \<Rightarrow> udp_status \<times> udp_network" where
  "udp_disconnect s k net =
     (if \<not> un_alive net then (Address_Family_Unsupported, net)
      else if us_connected k = [] then (Not_Connected, net)
      else (Success, put_socket s (k\<lparr>us_connected := []\<rparr>) net))"

definition udp_set_option :: "nat \<Rightarrow> udp_socket \<Rightarrow> u32 \<Rightarrow> u32 \<Rightarrow> bytes \<Rightarrow> udp_network \<Rightarrow> udp_status \<times> udp_network" where
  "udp_set_option s k level option v net =
     (if un_alive net then network_set_option s k level option v net else (Address_Family_Unsupported, net))"

definition peer_address :: "udp_socket \<Rightarrow> udp_network \<Rightarrow> bytes option" where
  "peer_address k net = (if \<not> un_alive net \<or> us_connected k = [] then None else Some (us_connected k))"

definition udp_send_to :: "nat \<Rightarrow> udp_socket \<Rightarrow> bytes \<Rightarrow> bytes \<Rightarrow> udp_network \<Rightarrow> udp_status \<times> udp_network" where
  "udp_send_to s k bytes destination net =
     (if peer_address k net \<noteq> None then (Already_Connected, net)
      else if un_alive net then network_send s k bytes destination net else (Address_Family_Unsupported, net))"

definition udp_send :: "nat \<Rightarrow> udp_socket \<Rightarrow> bytes \<Rightarrow> udp_network \<Rightarrow> udp_status \<times> udp_network" where
  "udp_send s k bytes net =
     (case peer_address k net of
        None \<Rightarrow> (Not_Connected, net)
      | Some peer \<Rightarrow> if un_alive net then network_send s k bytes peer net else (Address_Family_Unsupported, net))"

definition udp_receive :: "nat \<Rightarrow> udp_socket \<Rightarrow> nat \<Rightarrow> udp_network \<Rightarrow> udp_datagram option \<times> udp_network" where
  "udp_receive s k capacity net =
     (if \<not> un_alive net then (None, net)
      else case us_incoming k of
        [] \<Rightarrow> (None, net)
      | d # rest \<Rightarrow>
          (Some (if length (dg_bytes d) > capacity then d\<lparr>dg_bytes := take capacity (dg_bytes d)\<rparr> else d),
           put_socket s (k\<lparr>us_incoming := rest\<rparr>) net))"

definition local_address :: "udp_socket \<Rightarrow> udp_network \<Rightarrow> bytes" where
  "local_address k net =
     (if \<not> un_alive net then []
      else if us_bound k \<noteq> [] then us_bound k
      else (replicate (address_size (us_family k)) 0)[0 := of_nat (address_size (us_family k)), 1 := ucast (us_family k)])"

definition udp_readable :: "udp_socket \<Rightarrow> udp_network \<Rightarrow> bool" where
  "udp_readable k net \<longleftrightarrow> un_alive net \<and> us_incoming k \<noteq> []"

definition udp_pending_bytes :: "udp_socket \<Rightarrow> udp_network \<Rightarrow> nat" where
  "udp_pending_bytes k net =
     (if \<not> un_alive net then 0 else case us_incoming k of [] \<Rightarrow> 0 | d # _ \<Rightarrow> length (dg_bytes d))"

end
