(* ===== verification/Virtual_Udp_Histories.thy ===== *)
theory Virtual_Udp_Histories
  imports Virtual_Udp
begin

text \<open>
  Histories of the UDP fabric: every operation of every socket in any order, sockets closed and the
  network dropped. The invariant types the state: every address the code indexes into has the exact
  size and family byte of its socket, ports and queues stay in their bounds, and the weak pointers
  name each socket once.
\<close>

section \<open>Events\<close>

datatype udp_event =
    Udp_Create u32
  | Udp_Bind nat bytes
  | Udp_Connect nat bytes
  | Udp_Disconnect nat
  | Udp_Option nat u32 u32 bytes
  | Udp_Send_To nat bytes bytes
  | Udp_Send nat bytes
  | Udp_Receive nat nat
  | Udp_Close nat
  | Udp_Drop_Network

definition on_socket :: "nat \<Rightarrow> (udp_socket \<Rightarrow> 'a \<times> udp_network) \<Rightarrow> udp_network \<Rightarrow> udp_network" where
  "on_socket s f net = (case un_socket net s of None \<Rightarrow> net | Some k \<Rightarrow> snd (f k))"

fun udp_step :: "udp_network \<Rightarrow> udp_event \<Rightarrow> udp_network" where
  "udp_step net (Udp_Create family) = (if un_alive net then snd (udp_create family net) else net)"
| "udp_step net (Udp_Bind s a) = on_socket s (\<lambda>k. udp_bind s k a net) net"
| "udp_step net (Udp_Connect s a) = on_socket s (\<lambda>k. udp_connect s k a net) net"
| "udp_step net (Udp_Disconnect s) = on_socket s (\<lambda>k. udp_disconnect s k net) net"
| "udp_step net (Udp_Option s level option v) = on_socket s (\<lambda>k. udp_set_option s k level option v net) net"
| "udp_step net (Udp_Send_To s bytes a) = on_socket s (\<lambda>k. udp_send_to s k bytes a net) net"
| "udp_step net (Udp_Send s bytes) = on_socket s (\<lambda>k. udp_send s k bytes net) net"
| "udp_step net (Udp_Receive s capacity) = on_socket s (\<lambda>k. udp_receive s k capacity net) net"
| "udp_step net (Udp_Close s) = net\<lparr>un_socket := (un_socket net)(s := None)\<rparr>"
| "udp_step net Udp_Drop_Network = net\<lparr>un_alive := False\<rparr>"

definition udp_init :: udp_network where
  "udp_init = \<lparr>un_alive = True, un_sockets = [], un_socket = (\<lambda>_. None), un_fresh = 0, un_port = first_ephemeral_port\<rparr>"

definition udp_run :: "udp_event list \<Rightarrow> udp_network" where
  "udp_run es = foldl udp_step udp_init es"

section \<open>The type of the state\<close>

definition address_ok :: "u32 \<Rightarrow> bytes \<Rightarrow> bool" where
  "address_ok family a \<longleftrightarrow> length a = address_size family \<and> a ! 0 = of_nat (address_size family) \<and> ucast (a ! 1) = family"

definition datagram_ok :: "u32 \<Rightarrow> udp_datagram \<Rightarrow> bool" where
  "datagram_ok family d \<longleftrightarrow> address_ok family (dg_source d) \<and> address_ok family (dg_destination d) \<and> \<not> zero_port (dg_destination d)"

definition socket_ok :: "udp_socket \<Rightarrow> bool" where
  "socket_ok k \<longleftrightarrow> us_family k \<in> {af_inet, af_inet6} \<and>
     (us_bound k = [] \<or> address_ok (us_family k) (us_bound k)) \<and>
     (us_connected k = [] \<or> address_ok (us_family k) (us_connected k) \<and> \<not> zero_port (us_connected k)) \<and>
     (\<forall>g\<in>us_groups k. length g = (if us_family k = af_inet then 4 else 16)) \<and>
     length (us_incoming k) \<le> maximum_pending_datagrams \<and> (\<forall>d\<in>set (us_incoming k). datagram_ok (us_family k) d)"

definition udp_ok :: "udp_network \<Rightarrow> bool" where
  "udp_ok net \<longleftrightarrow> distinct (un_sockets net) \<and> (\<forall>s\<in>set (un_sockets net). s < un_fresh net) \<and>
     (\<forall>s k. un_socket net s = Some k \<longrightarrow> s \<in> set (un_sockets net) \<and> socket_ok k) \<and> first_ephemeral_port \<le> un_port net"

lemma families [simp]: "af_inet \<noteq> af_inet6" "af_inet6 \<noteq> af_inet" "address_size af_inet = 16" "address_size af_inet6 = 28"
  by (simp_all add: af_inet_def af_inet6_def address_size_def)

lemma family_size: "address_size family \<noteq> 0 \<longleftrightarrow> family \<in> {af_inet, af_inet6}"
  by (simp add: address_size_def)

lemma normalize_ok: "valid_address a family \<Longrightarrow> address_ok family (normalize_address a family)"
  by (auto simp: valid_address_def address_ok_def normalize_address_def Let_def address_size_def split: if_splits)

lemma ephemeral_ok:
  assumes "family \<in> {af_inet, af_inet6}"
  shows "address_ok family (ephemeral_address family port)" "length (ephemeral_address family port) = address_size family"
  using assms by (auto simp: address_ok_def ephemeral_address_def set_port_def address_size_def af_inet_def af_inet6_def)

lemma source_ok:
  assumes "family \<in> {af_inet, af_inet6}" "address_ok family b"
  shows "address_ok family (source_address b family)"
  using assms
  by (auto simp: source_address_def address_ok_def ip_offset_def default_ipv4_address_def default_ipv6_address_def Let_def nth_append)

lemma socket_okD:
  assumes "socket_ok k"
  shows "us_family k \<in> {af_inet, af_inet6}" "us_bound k \<noteq> [] \<Longrightarrow> address_ok (us_family k) (us_bound k)"
    "us_connected k \<noteq> [] \<Longrightarrow> address_ok (us_family k) (us_connected k) \<and> \<not> zero_port (us_connected k)"
    "length (us_incoming k) \<le> maximum_pending_datagrams" "d \<in> set (us_incoming k) \<Longrightarrow> datagram_ok (us_family k) d"
  using assms by (auto simp: socket_ok_def)

lemma udp_okD:
  assumes "udp_ok net" "un_socket net s = Some k"
  shows "s \<in> set (un_sockets net)" "socket_ok k"
  using assms by (auto simp: udp_ok_def)

lemma put_socket_ok: "udp_ok net \<Longrightarrow> un_socket net s = Some k \<Longrightarrow> socket_ok k' \<Longrightarrow> udp_ok (put_socket s k' net)"
  by (auto simp: udp_ok_def put_socket_def)

section \<open>Delivery, socket by socket\<close>

text \<open>On distinct weak pointers the loop is the simultaneous delivery to every live listed socket.\<close>

lemma deliver_pointwise:
  assumes "distinct ts" and d: "deliver takes d ts m = (ts', m')"
  shows "ts' = filter (\<lambda>t. m t \<noteq> None) ts"
    "m' t = (case m t of None \<Rightarrow> None | Some k \<Rightarrow> Some (if t \<in> set ts \<and> takes t k then enqueue_datagram d k else k))"
proof -
  have "ts' = filter (\<lambda>t. m t \<noteq> None) ts \<and>
    (\<forall>t. m' t = (case m t of None \<Rightarrow> None | Some k \<Rightarrow> Some (if t \<in> set ts \<and> takes t k then enqueue_datagram d k else k)))"
    using assms
  proof (induction ts arbitrary: m ts' m')
    case Nil
    then show ?case by (auto split: option.split)
  next
    case (Cons a ts)
    have dist: "distinct ts" "a \<notin> set ts" using Cons.prems(1) by simp_all
    show ?case
    proof (cases "m a")
      case None
      then have "deliver takes d ts m = (ts', m')" using Cons.prems(2) by simp
      from Cons.IH [OF dist(1) this] show ?thesis using None by (auto split: option.splits)
    next
      case (Some k)
      define n where "n = (if takes a k then m(a \<mapsto> enqueue_datagram d k) else m)"
      obtain us u where u: "deliver takes d ts n = (us, u)" by force
      then have eq: "ts' = a # us" "m' = u" using Cons.prems(2) Some by (simp_all add: n_def)
      note ih = Cons.IH [OF dist(1) u]
      have "filter (\<lambda>t. n t \<noteq> None) ts = filter (\<lambda>t. m t \<noteq> None) ts"
        using dist(2) by (intro filter_cong) (auto simp: n_def)
      then show ?thesis using ih Some dist(2) unfolding eq by (auto simp: n_def split: option.splits)
    qed
  qed
  then show "ts' = filter (\<lambda>t. m t \<noteq> None) ts"
    "m' t = (case m t of None \<Rightarrow> None | Some k \<Rightarrow> Some (if t \<in> set ts \<and> takes t k then enqueue_datagram d k else k))" by blast+
qed

lemma enqueue_ok: "socket_ok k \<Longrightarrow> datagram_ok (us_family k) d \<Longrightarrow> socket_ok (enqueue_datagram d k)"
  by (auto simp: socket_ok_def enqueue_datagram_def maximum_pending_datagrams_def dest: list.set_sel(2) [rotated])

lemma accepts_family: "accepts family loop source destination own k \<Longrightarrow> us_family k = family"
  by (auto simp: accepts_def Let_def split: if_splits)

section \<open>Sends\<close>

definition sender_bound :: "udp_socket \<Rightarrow> u16 \<Rightarrow> udp_socket" where
  "sender_bound k port = (if us_bound k = [] then k\<lparr>us_bound := ephemeral_address (us_family k) port\<rparr> else k)"

definition sent_datagram :: "udp_socket \<Rightarrow> u16 \<Rightarrow> bytes \<Rightarrow> bytes \<Rightarrow> udp_datagram" where
  "sent_datagram k port bytes destination =
     \<lparr>dg_bytes = bytes, dg_source = source_address (us_bound (sender_bound k port)) (us_family k),
      dg_destination = normalize_address destination (us_family k)\<rparr>"

lemma sender_bound_ok: "socket_ok k \<Longrightarrow> socket_ok (sender_bound k port)"
  by (auto simp: sender_bound_def socket_ok_def ephemeral_ok)

lemma sender_bound_simps [simp]:
  "us_family (sender_bound k port) = us_family k" "us_connected (sender_bound k port) = us_connected k"
  "us_incoming (sender_bound k port) = us_incoming k" "us_groups (sender_bound k port) = us_groups k" "us_loop (sender_bound k port) = us_loop k"
  by (simp_all add: sender_bound_def)

lemma sender_bound_nonempty: "socket_ok k \<Longrightarrow> us_bound (sender_bound k port) \<noteq> []"
  using ephemeral_ok(2) [of "us_family k" port] socket_okD(1) [of k] by (auto simp: sender_bound_def)

lemma send_result:
  "fst (network_send s k bytes a net) \<in> {Success, Invalid_Argument}"
  "fst (network_send s k bytes a net) \<noteq> Success \<Longrightarrow> snd (network_send s k bytes a net) = net"
  "fst (network_send s k bytes a net) = Success \<longleftrightarrow>
     valid_address a (us_family k) \<and> \<not> zero_port (normalize_address a (us_family k))"
  by (auto simp: network_send_def Let_def case_prod_beta)

lemma next_port_le:
  assumes "(p :: u16) \<le> q" "q + 1 \<noteq> 0"
  shows "p \<le> q + 1"
proof -
  have "unat q + 1 \<noteq> 2 ^ 16"
  proof
    assume "unat q + 1 = 2 ^ 16"
    then have "unat (q + 1) = 0" by (simp add: unat_word_ariths)
    then show False using assms(2) by (simp add: unsigned_eq_0_iff)
  qed
  moreover have "unat q < 2 ^ 16" using unsigned_less [of q, where ?'a = nat] by simp
  ultimately have "unat (q + 1) = unat q + 1" by (simp add: unat_word_ariths)
  then show ?thesis using assms(1) by (simp add: word_le_nat_alt)
qed

lemma send_facts:
  assumes ok: "udp_ok net" and k: "un_socket net s = Some k" and r: "network_send s k bytes a net = (Success, net')"
  defines "d \<equiv> sent_datagram k (un_port net) bytes a"
  shows "datagram_ok (us_family k) d" "un_alive net' = un_alive net"
    "un_sockets net' = filter (\<lambda>t. un_socket net t \<noteq> None) (un_sockets net)"
    "un_socket net' t = (case ((un_socket net)(s \<mapsto> sender_bound k (un_port net))) t of None \<Rightarrow> None
       | Some kt \<Rightarrow> Some (if accepts (us_family k) (us_loop k) (dg_source d) (dg_destination d) (t = s) kt
           then enqueue_datagram d kt else kt))"
    "udp_ok net'"
proof -
  have sk: "socket_ok k" "s \<in> set (un_sockets net)" using udp_okD [OF ok k] by simp_all
  have v: "valid_address a (us_family k)" "\<not> zero_port (normalize_address a (us_family k))"
    using send_result(3) [of s k bytes a net] r by simp_all
  have b: "address_ok (us_family k) (us_bound (sender_bound k (un_port net)))"
    by (rule socket_okD(2) [OF sender_bound_ok [OF sk(1)], simplified]) (rule sender_bound_nonempty [OF sk(1)])
  show dok: "datagram_ok (us_family k) d"
    using v source_ok [OF socket_okD(1) [OF sk(1)] b] normalize_ok [OF v(1)] by (simp add: datagram_ok_def d_def sent_datagram_def)
  define takes where "takes t = accepts (us_family k) (us_loop k) (dg_source d) (dg_destination d) (t = s)" for t
  define m where "m = (un_socket net)(s \<mapsto> sender_bound k (un_port net))"
  obtain ts m' where D: "deliver takes d (un_sockets net) m = (ts, m')" by force
  define port where "port = (if us_bound k = [] then (if un_port net + 1 = 0 then first_ephemeral_port else un_port net + 1) else un_port net)"
  have "network_send s k bytes a net = (case deliver takes d (un_sockets net) m of
      (sockets, m) \<Rightarrow> (Success, net\<lparr>un_sockets := sockets, un_socket := m, un_port := port\<rparr>))"
    using v unfolding network_send_def takes_def m_def port_def d_def sent_datagram_def sender_bound_def by (simp add: Let_def)
  then have eq: "net' = net\<lparr>un_sockets := ts, un_socket := m', un_port := port\<rparr>" using r D by simp
  have dist: "distinct (un_sockets net)" using ok by (simp add: udp_ok_def)
  note P = deliver_pointwise [OF dist D]
  show "un_alive net' = un_alive net" by (simp add: eq)
  have "filter (\<lambda>t. m t \<noteq> None) (un_sockets net) = filter (\<lambda>t. un_socket net t \<noteq> None) (un_sockets net)"
    using k by (intro filter_cong) (auto simp: m_def)
  then show ts: "un_sockets net' = filter (\<lambda>t. un_socket net t \<noteq> None) (un_sockets net)" using P(1) by (simp add: eq)
  have listed: "t \<in> set (un_sockets net)" if "m t \<noteq> None" for t
    using that sk(2) udp_okD(1) [OF ok] by (auto simp: m_def split: if_splits)
  show at: "un_socket net' t = (case ((un_socket net)(s \<mapsto> sender_bound k (un_port net))) t of None \<Rightarrow> None
       | Some kt \<Rightarrow> Some (if accepts (us_family k) (us_loop k) (dg_source d) (dg_destination d) (t = s) kt
           then enqueue_datagram d kt else kt))" for t
    using P(2) [of t] listed [of t] unfolding m_def [symmetric] takes_def [symmetric] by (auto simp: eq split: option.splits)
  have old: "socket_ok kt" if "m t = Some kt" for t kt
    using that sender_bound_ok [OF sk(1)] udp_okD(2) [OF ok] by (auto simp: m_def split: if_splits)
  have "t \<in> set ts \<and> socket_ok kt" if t: "un_socket net' t = Some kt" for t kt
  proof -
    obtain kt0 where kt0: "m t = Some kt0" "kt = (if takes t kt0 then enqueue_datagram d kt0 else kt0)"
      using t at [of t] unfolding m_def [symmetric] takes_def [symmetric] by (auto split: option.splits)
    have "socket_ok kt" using old [OF kt0(1)] enqueue_ok [OF old [OF kt0(1)]] dok kt0(2) accepts_family
      by (auto simp: takes_def)
    then show ?thesis using kt0(1) listed [of t] P(1) by simp
  qed
  moreover have "first_ephemeral_port \<le> port"
  proof -
    have "first_ephemeral_port \<le> un_port net" using ok by (simp add: udp_ok_def)
    moreover from this have "first_ephemeral_port \<le> un_port net + 1" if "un_port net + 1 \<noteq> 0"
      by (rule next_port_le [OF _ that])
    ultimately show ?thesis by (simp add: port_def)
  qed
  ultimately show "udp_ok net'"
    using ok dist P(1) by (auto simp: udp_ok_def eq)
qed

section \<open>Every step keeps the type\<close>

lemma on_socket_ok:
  assumes "udp_ok net" and "\<And>k. un_socket net s = Some k \<Longrightarrow> socket_ok k \<Longrightarrow> udp_ok (snd (f k))"
  shows "udp_ok (on_socket s f net)"
  using assms udp_okD(2) [OF assms(1)] by (auto simp: on_socket_def split: option.split)

lemma create_ok: "udp_ok net \<Longrightarrow> udp_ok (snd (udp_create family net))"
proof (cases "address_size family = 0")
  case False
  assume ok: "udp_ok net"
  define net' where "net' = net\<lparr>un_sockets := un_sockets net @ [un_fresh net], un_fresh := Suc (un_fresh net)\<rparr>"
  have "socket_ok (new_udp_socket family)" using family_size [of family] False by (simp add: socket_ok_def new_udp_socket_def)
  then have "udp_ok (put_socket (un_fresh net) (new_udp_socket family) net')"
    using ok by (fastforce simp: udp_ok_def net'_def put_socket_def)
  then show ?thesis using False by (simp add: udp_create_def Let_def net'_def)
qed (simp add: udp_create_def)

lemma bind_ok: "udp_ok net \<Longrightarrow> un_socket net s = Some k \<Longrightarrow> socket_ok k \<Longrightarrow> udp_ok (snd (udp_bind s k a net))"
  by (auto simp: udp_bind_def network_bind_def normalize_ok socket_ok_def intro!: put_socket_ok)

lemma connect_ok: "udp_ok net \<Longrightarrow> un_socket net s = Some k \<Longrightarrow> socket_ok k \<Longrightarrow> udp_ok (snd (udp_connect s k a net))"
  by (auto simp: udp_connect_def Let_def normalize_ok socket_ok_def intro!: put_socket_ok)

lemma disconnect_ok: "udp_ok net \<Longrightarrow> un_socket net s = Some k \<Longrightarrow> socket_ok k \<Longrightarrow> udp_ok (snd (udp_disconnect s k net))"
  by (auto simp: udp_disconnect_def socket_ok_def intro!: put_socket_ok)

lemma set_option_ok:
  assumes "udp_ok net" "un_socket net s = Some k" and ok: "socket_ok k"
  shows "udp_ok (snd (udp_set_option s k level option v net))"
proof -
  define ipv4 where "ipv4 \<longleftrightarrow> us_family k = af_inet \<and> level = protocol_ip"
  define ipv6 where "ipv6 \<longleftrightarrow> us_family k = af_inet6 \<and> level = protocol_ipv6"
  have excl: "\<not> (ipv4 \<and> ipv6)" by (auto simp: ipv4_def ipv6_def)
  have loop: "udp_ok (put_socket s (k\<lparr>us_loop := b\<rparr>) net)" for b
    by (rule put_socket_ok [OF assms(1,2)]) (use ok in \<open>simp add: socket_ok_def\<close>)
  have groups: "udp_ok (put_socket s (k\<lparr>us_groups := gs\<rparr>) net)"
    if "gs \<subseteq> insert (take (if ipv4 then 4 else 16) v) (us_groups k)" "length v \<ge> (if ipv4 then 4 else 16)" "ipv4 \<or> ipv6" for gs
  proof (rule put_socket_ok [OF assms(1,2)])
    have "length (take (if ipv4 then 4 else 16) v) = (if us_family k = af_inet then 4 else 16)"
      using that(2,3) by (auto simp: ipv4_def ipv6_def)
    then show "socket_ok (k\<lparr>us_groups := gs\<rparr>)" using ok that(1) by (auto simp: socket_ok_def)
  qed
  show ?thesis
    unfolding udp_set_option_def network_set_option_def ipv4_def [symmetric] ipv6_def [symmetric] Let_def
    using assms(1) loop groups by (auto simp: subset_iff)
qed

lemma send_ok:
  assumes "udp_ok net" "un_socket net s = Some k"
  shows "udp_ok (snd (network_send s k bytes a net))"
proof (cases "fst (network_send s k bytes a net) = Success")
  case True
  then have "network_send s k bytes a net = (Success, snd (network_send s k bytes a net))" by (metis prod.collapse)
  from send_facts(5) [OF assms this] show ?thesis .
next
  case False
  then show ?thesis using send_result(2) [OF False] assms(1) by simp
qed

lemma receive_ok:
  assumes "udp_ok net" "un_socket net s = Some k" "socket_ok k"
  shows "udp_ok (snd (udp_receive s k capacity net))"
proof (cases "us_incoming k")
  case (Cons d rest)
  have "socket_ok (k\<lparr>us_incoming := rest\<rparr>)" using assms(3) Cons by (auto simp: socket_ok_def)
  then show ?thesis using assms(1) put_socket_ok [OF assms(1,2)] Cons by (simp add: udp_receive_def)
qed (use assms in \<open>simp add: udp_receive_def\<close>)

lemma udp_step_ok: "udp_ok net \<Longrightarrow> udp_ok (udp_step net e)"
proof -
  assume ok: "udp_ok net"
  show ?thesis
  proof (cases e)
    case (Udp_Create family)
    then show ?thesis using ok create_ok by simp
  next
    case (Udp_Send_To s bytes a)
    then show ?thesis using ok send_ok by (auto simp: udp_send_to_def intro!: on_socket_ok)
  next
    case (Udp_Send s bytes)
    then show ?thesis using ok send_ok by (auto simp: udp_send_def intro!: on_socket_ok split: option.split)
  next
    case (Udp_Close s)
    then show ?thesis using ok by (auto simp: udp_ok_def)
  next
    case Udp_Drop_Network
    then show ?thesis using ok by (simp add: udp_ok_def)
  qed (use ok in \<open>simp_all add: on_socket_ok bind_ok connect_ok disconnect_ok set_option_ok receive_ok\<close>)
qed

interpretation udp: machine udp_init udp_step udp_ok
  by unfold_locales (simp add: udp_init_def udp_ok_def, rule udp_step_ok)

lemma udp_run_ok: "udp_ok (udp_run es)"
  unfolding udp_run_def by (rule udp.run_inv)

section \<open>Replies\<close>

lemma source_parts:
  assumes "family \<in> {af_inet, af_inet6}" "address_ok family b"
  shows "source_address b family ! 2 = b ! 2" "source_address b family ! 3 = b ! 3"
    "\<not> wildcard_address b family \<Longrightarrow> source_address b family = b"
  using assms by (auto simp: source_address_def address_ok_def ip_offset_def Let_def nth_append)

lemma normalize_id: "family \<in> {af_inet, af_inet6} \<Longrightarrow> address_ok family a \<Longrightarrow> normalize_address a family = a \<and> valid_address a family"
  by (auto simp: normalize_address_def address_ok_def valid_address_def Let_def list_update_same_conv)

lemma ephemeral_port_nonzero:
  assumes "family \<in> {af_inet, af_inet6}" "first_ephemeral_port \<le> port"
  shows "\<not> zero_port (ephemeral_address family port)"
proof
  assume "zero_port (ephemeral_address family port)"
  then have z: "ucast (drop_bit 8 port) = (0 :: u8)"
    using assms(1) by (auto simp: zero_port_def ephemeral_address_def set_port_def)
  have "unat (ucast (drop_bit 8 port) :: u8) = unat port div 256 mod 256"
    by (simp add: unsigned_ucast_eq take_bit_eq_mod drop_bit_eq_div unat_div)
  moreover have "192 \<le> unat port div 256"
    using assms(2) div_le_mono [of 49152 "unat port" 256] by (simp add: first_ephemeral_port_def word_le_nat_alt)
  moreover have "unat port div 256 < 256"
    using unsigned_less [of port, where ?'a = nat] by (simp add: less_mult_imp_div_less)
  ultimately show False using z by simp
qed

end
