(* ===== verification/Virtual_Udp_Properties.thy ===== *)
theory Virtual_Udp_Properties
  imports Virtual_Udp_Histories
begin

text \<open>The properties of the UDP fabric, with their witnesses.\<close>

section \<open>Two sockets\<close>

text \<open>Socket 0 is bound to the port 5353 of any address; socket 1 sends to it from no address.\<close>

definition mdns_address :: bytes where
  "mdns_address = [16, 2, 0x14, 0xE9, 0, 0, 0, 0] @ replicate 8 0"

definition unicast_address :: bytes where
  "unicast_address = [16, 2, 0x14, 0xE9, 10, 0, 2, 15] @ replicate 8 0"

definition example_sockets :: "udp_event list" where
  "example_sockets = [Udp_Create 2, Udp_Create 2, Udp_Bind 0 mdns_address]"

lemmas udp_eval = udp_run_def udp_init_def on_socket_def udp_create_def put_socket_def new_udp_socket_def udp_bind_def
  network_bind_def valid_address_def normalize_address_def address_size_def af_inet_def af_inet6_def

lemma example_sockets_run:
  "udp_run example_sockets = \<lparr>un_alive = True, un_sockets = [0, 1],
     un_socket = [0 \<mapsto> (new_udp_socket 2)\<lparr>us_bound := mdns_address\<rparr>, 1 \<mapsto> new_udp_socket 2], un_fresh = 2, un_port = 49152\<rparr>"
  by (simp add: example_sockets_def udp_eval mdns_address_def Let_def first_ephemeral_port_def fun_upd_twist)

definition reply_address :: bytes where
  "reply_address = [16, 2, 0xC0, 0, 10, 0, 2, 15] @ replicate 8 0"

definition example_datagram :: udp_datagram where
  "example_datagram = \<lparr>dg_bytes = [7, 8], dg_source = reply_address, dg_destination = unicast_address\<rparr>"

lemma example_addresses:
  "valid_address unicast_address 2" "normalize_address unicast_address 2 = unicast_address" "\<not> zero_port unicast_address"
  "source_address (ephemeral_address 2 49152) 2 = reply_address" "\<not> multicast_address reply_address 2"
  "accepts 2 True reply_address unicast_address False ((new_udp_socket 2)\<lparr>us_bound := mdns_address\<rparr>)"
  "\<not> accepts 2 True reply_address unicast_address True ((new_udp_socket 2)\<lparr>us_bound := ephemeral_address 2 49152\<rparr>)"
  by code_simp+

lemma example_send:
  "udp_send_to 1 (new_udp_socket 2) [7, 8] unicast_address (udp_run example_sockets) =
   (Success, \<lparr>un_alive = True, un_sockets = [0, 1],
     un_socket = [0 \<mapsto> (new_udp_socket 2)\<lparr>us_bound := mdns_address, us_incoming := [example_datagram]\<rparr>,
        1 \<mapsto> (new_udp_socket 2)\<lparr>us_bound := ephemeral_address 2 49152\<rparr>], un_fresh = 2, un_port = 49153\<rparr>)"
proof -
  have k: "us_family (new_udp_socket 2) = 2" "us_bound (new_udp_socket 2) = []" "us_connected (new_udp_socket 2) = []"
    "us_incoming (new_udp_socket 2) = []" "us_loop (new_udp_socket 2)"
    by (simp_all add: new_udp_socket_def)
  show ?thesis
    unfolding example_sockets_run
    by (simp add: udp_send_to_def peer_address_def network_send_def k example_addresses Let_def example_datagram_def
        enqueue_datagram_def maximum_pending_datagrams_def fun_upd_twist)
qed

section \<open>Addresses read as numbers\<close>

text \<open>
  What a socket address says, read from its bytes without the helpers of the code: the port is
  the big-endian number of bytes 2 and 3, the IP address bytes 4 to 7 (IPv4) or 8 to 23 (IPv6). The
  properties below say in these terms who gets a datagram.\<close>

definition udp_port_number :: "bytes \<Rightarrow> nat" where
  "udp_port_number a = 256 * unat (a ! 2) + unat (a ! 3)"

definition udp_ip :: "u32 \<Rightarrow> bytes \<Rightarrow> nat list" where
  "udp_ip family a = map (\<lambda>i. unat (a ! i)) (if family = 2 then [4, 5, 6, 7] else [8..<24])"

definition udp_group_ip :: "u32 \<Rightarrow> nat list \<Rightarrow> bool" where
  "udp_group_ip family ip \<longleftrightarrow> (if family = 2 then 224 \<le> hd ip \<and> hd ip \<le> 239 else hd ip = 255)"

definition udp_any_ip :: "u32 \<Rightarrow> nat list" where
  "udp_any_ip family = (if family = 2 then [0, 0, 0, 0] else replicate 16 0)"

definition udp_host_ip :: "u32 \<Rightarrow> nat list" where
  "udp_host_ip family = (if family = 2 then [10, 0, 2, 15] else replicate 15 0 @ [1])"

lemma ports_number: "same_port l r \<longleftrightarrow> udp_port_number l = udp_port_number r"
proof -
  have "same_port l r \<longleftrightarrow> unat (l ! 2) = unat (r ! 2) \<and> unat (l ! 3) = unat (r ! 3)"
    by (simp add: same_port_def word_unat_eq_iff)
  moreover have "udp_port_number a div 256 = unat (a ! 2)" "udp_port_number a mod 256 = unat (a ! 3)" for a
    using unsigned_less [of "a ! 3", where ?'a = nat] by (simp_all add: udp_port_number_def)
  ultimately show ?thesis by (metis udp_port_number_def)
qed

lemma zero_port_number: "zero_port a \<longleftrightarrow> udp_port_number a = 0"
  by (simp add: zero_port_def udp_port_number_def unsigned_eq_0_iff)

lemma map_upt_window: "m + n \<le> length a \<Longrightarrow> map (\<lambda>i. f (a ! i)) [m..<m + n] = map f (take n (drop m a))"
  by (rule nth_equalityI) simp_all

lemma ip_bytes:
  assumes "family \<in> {af_inet, af_inet6}" "length a = address_size family"
  shows "udp_ip family a = map unat (address_bytes a family)"
proof (cases "family = af_inet")
  case True
  then have "length a = 16" using assms(2) by simp
  moreover have "[4, 5, 6, 7] = [4..<4 + 4::nat]" by (simp add: upt_rec)
  ultimately show ?thesis
    using True map_upt_window [of 4 4 a unat] by (simp add: udp_ip_def address_bytes_def ip_offset_def af_inet_def)
next
  case False
  then have "family = af_inet6" "family \<noteq> 2" using assms(1) by (auto simp: af_inet_def af_inet6_def)
  then show ?thesis
    using assms(2) map_upt_window [of 8 16 a unat] by (simp add: udp_ip_def address_bytes_def ip_offset_def del: upt_rec_numeral)
qed

lemma same_ip_numbers:
  assumes "family \<in> {af_inet, af_inet6}" "length a = address_size family" "length b = address_size family"
  shows "same_ip a b family \<longleftrightarrow> udp_ip family a = udp_ip family b"
proof -
  have "inj (unat :: u8 \<Rightarrow> nat)" by (simp add: inj_def word_unat_eq_iff)
  then show ?thesis using assms by (simp add: same_ip_def ip_bytes)
qed

section \<open>What a send carries\<close>

text \<open>
  A socket that sends before it was bound takes the next ephemeral port of any address; a socket
  of any address sends from the address of the host.\<close>

lemma ephemeral_numbers:
  assumes "family \<in> {af_inet, af_inet6}"
  shows "udp_port_number (ephemeral_address family port) = unat port" "udp_ip family (ephemeral_address family port) = udp_any_ip family"
proof -
  have "unat port < 65536" using unsigned_less [of port, where ?'a = nat] by simp
  moreover have "unat (ucast (drop_bit 8 port) :: u8) = unat port div 256 mod 256" "unat (ucast port :: u8) = unat port mod 256"
    by (simp_all add: unsigned_ucast_eq take_bit_eq_mod drop_bit_eq_div unat_div)
  ultimately show "udp_port_number (ephemeral_address family port) = unat port"
    using assms by (auto simp: udp_port_number_def ephemeral_address_def set_port_def)
  show "udp_ip family (ephemeral_address family port) = udp_any_ip family"
    using assms unfolding ip_bytes [OF assms ephemeral_ok(2) [OF assms]]
    by (auto simp: ephemeral_address_def set_port_def address_bytes_def ip_offset_def udp_any_ip_def af_inet_def af_inet6_def
        address_size_def numeral_eq_Suc)
qed

lemma family_shape:
  assumes "family \<in> {af_inet, af_inet6}"
  obtains "family = 2" "address_size 2 = 16" "ip_offset 2 = 4" "af_inet = 2"
  | "family = 30" "address_size 30 = 28" "ip_offset 30 = 8" "af_inet = 2" "af_inet6 = 30"
proof -
  have n: "af_inet = 2" "af_inet6 = 30" by (simp_all add: af_inet_def af_inet6_def)
  have "address_size 2 = 16" "address_size 30 = 28" using families(3,4) unfolding n .
  moreover have "ip_offset 2 = 4" "ip_offset 30 = 8" by (simp_all add: ip_offset_def n)
  ultimately show ?thesis using assms n by (cases "family = af_inet") (simp_all add: that)
qed

lemma wildcard_number:
  assumes "family \<in> {af_inet, af_inet6}" "length a = address_size family"
  shows "wildcard_address a family \<longleftrightarrow> udp_ip family a = udp_any_ip family"
proof -
  define n :: nat where "n = (if family = 2 then 4 else 16)"
  have "length (address_bytes a family) = n" "udp_any_ip family = replicate n 0"
    by (rule family_shape [OF assms(1)]; use assms(2) in \<open>simp add: n_def address_bytes_def udp_any_ip_def numeral_eq_Suc\<close>)+
  then show ?thesis
    unfolding ip_bytes [OF assms] wildcard_address_def
    by (simp add: list_eq_iff_nth_eq list_all_length unsigned_eq_0_iff)
qed

lemma group_number:
  assumes "family \<in> {af_inet, af_inet6}" "length a = address_size family"
  shows "multicast_address a family \<longleftrightarrow> udp_group_ip family (udp_ip family a)"
proof -
  have "address_bytes a family \<noteq> []" using assms by (auto simp: address_bytes_def ip_offset_def)
  then have "hd (udp_ip family a) = unat (hd (address_bytes a family))" by (simp add: ip_bytes [OF assms] hd_map)
  then show ?thesis
    using assms(1) by (auto simp: multicast_address_def udp_group_ip_def Let_def word_le_nat_alt word_unat_eq_iff af_inet_def af_inet6_def)
qed

lemma source_numbers:
  assumes fam: "family \<in> {af_inet, af_inet6}" and b: "address_ok family b"
  shows "udp_port_number (source_address b family) = udp_port_number b"
    "udp_ip family (source_address b family) = (if udp_ip family b = udp_any_ip family then udp_host_ip family else udp_ip family b)"
proof -
  have l: "length b = address_size family" "length (source_address b family) = address_size family"
    using b source_ok [OF fam b] by (simp_all add: address_ok_def)
  show "udp_port_number (source_address b family) = udp_port_number b"
    using source_parts(1,2) [OF fam b] by (simp add: udp_port_number_def)
  show "udp_ip family (source_address b family) = (if udp_ip family b = udp_any_ip family then udp_host_ip family else udp_ip family b)"
  proof (cases "wildcard_address b family")
    case True
    then have "udp_ip family (source_address b family) = udp_host_ip family"
      unfolding ip_bytes [OF fam l(2)]
      by (rule_tac family_shape [OF fam]; use l(1) in \<open>simp add: source_address_def address_bytes_def
          default_ipv4_address_def default_ipv6_address_def udp_host_ip_def Let_def\<close>)
    then show ?thesis using True wildcard_number [OF fam l(1)] by simp
  qed (use source_parts(3) [OF fam b] wildcard_number [OF fam l(1)] in simp)
qed

text \<open>
  A socket bound to port 0 cannot be answered. Binding to port 0 succeeds and keeps port 0, so
  that a send chooses no ephemeral port; what the socket sends arrives with source port 0, and
  every send to that source address is refused with \<open>Invalid_Argument\<close>.\<close>

lemma destination_numbers:
  assumes "family \<in> {af_inet, af_inet6}" "valid_address a family"
  shows "udp_port_number (normalize_address a family) = udp_port_number a" "udp_ip family (normalize_address a family) = udp_ip family a"
  by (rule family_shape [OF assms(1)];
      use assms(2) in \<open>simp add: valid_address_def Let_def normalize_address_def udp_port_number_def udp_ip_def\<close>)+

text \<open>The code's test of one socket, in numbers.\<close>

lemma accepts_numbers:
  assumes k: "socket_ok k" and d: "datagram_ok family d"
  shows "accepts family loop (dg_source d) (dg_destination d) own k \<longleftrightarrow>
    us_family k = family \<and> us_bound k \<noteq> [] \<and> udp_port_number (us_bound k) = udp_port_number (dg_destination d) \<and>
    (us_connected k = [] \<or> udp_port_number (us_connected k) = udp_port_number (dg_source d) \<and>
       udp_ip family (us_connected k) = udp_ip family (dg_source d)) \<and>
    (udp_ip family (us_bound k) = udp_any_ip family \<or>
     (if udp_group_ip family (udp_ip family (dg_destination d)) then udp_ip family (dg_destination d) \<in> map unat ` us_groups k
      else udp_ip family (us_bound k) = udp_ip family (dg_destination d))) \<and>
    (own \<and> udp_group_ip family (udp_ip family (dg_destination d)) \<longrightarrow> loop)"
proof (cases "us_family k = family \<and> us_bound k \<noteq> []")
  case True
  then have fam: "family \<in> {af_inet, af_inet6}" and b: "length (us_bound k) = address_size family"
    using socket_okD(1,2) [OF k] by (auto simp: address_ok_def)
  have l: "length (dg_source d) = address_size family" "length (dg_destination d) = address_size family"
    using d by (simp_all add: datagram_ok_def address_ok_def)
  have c: "length (us_connected k) = address_size family" if "us_connected k \<noteq> []"
    using socket_okD(3) [OF k that] True by (simp add: address_ok_def)
  have "inj (map (unat :: u8 \<Rightarrow> nat))" by (simp add: inj_def word_unat_eq_iff inj_map_eq_map)
  then have grp: "udp_ip family (dg_destination d) \<in> map unat ` us_groups k \<longleftrightarrow> address_bytes (dg_destination d) family \<in> us_groups k"
    unfolding ip_bytes [OF fam l(2)] by (rule inj_image_mem_iff)
  have fk: "us_family k = family" "us_bound k \<noteq> []" using True by simp_all
  have conn: "us_connected k \<noteq> [] \<Longrightarrow> same_ip (us_connected k) (dg_source d) family \<longleftrightarrow>
      udp_ip family (us_connected k) = udp_ip family (dg_source d)"
    using same_ip_numbers [OF fam c l(1)] by simp
  show ?thesis
    unfolding accepts_def Let_def grp fk(1) ports_number same_ip_numbers [OF fam b l(2)] wildcard_number [OF fam b] group_number [OF fam l(2)]
    using fk(2) conn by (cases "us_connected k = []"; cases own; cases loop) auto
next
  case False
  then show ?thesis by (auto simp: accepts_def Let_def)
qed

lemma enqueue_keeps_newest:
  "socket_ok k \<Longrightarrow> enqueue_datagram d k = k\<lparr>us_incoming := drop (Suc (length (us_incoming k)) - 256) (us_incoming k @ [d])\<rparr>"
  using socket_okD(4) [of k] by (cases "us_incoming k") (auto simp: enqueue_datagram_def maximum_pending_datagrams_def)

section \<open>Properties\<close>

text \<open>
  C28: The state is well typed. After any history, with or without datagrams waiting, the next
  ephemeral port is at or above 49152, through the wrap of its 16 bits, the weak pointers name no
  socket twice, and each live socket is listed there, is IPv4 or IPv6, keeps whole addresses as
  groups and has at most 256 datagrams waiting. Each address it keeps (bound and connected where set,
  both ends of each waiting datagram) has exactly the size, the length byte and the family byte
  of its family, so that every indexed access of the code is inside the vector, and no peer and no
  destination has port 0.\<close>

theorem udp_state_typed:
  "49152 \<le> unat (un_port (udp_run es)) \<and> distinct (un_sockets (udp_run es)) \<and>
   (\<forall>s k. un_socket (udp_run es) s = Some k \<longrightarrow>
     s \<in> set (un_sockets (udp_run es)) \<and> (us_family k = 2 \<or> us_family k = 30) \<and> length (us_incoming k) \<le> 256 \<and>
     (\<forall>g\<in>us_groups k. length g = (if us_family k = 2 then 4 else 16)) \<and>
     (\<forall>a\<in>({us_bound k, us_connected k} - {[]}) \<union> dg_source ` set (us_incoming k) \<union> dg_destination ` set (us_incoming k).
       length a = (if us_family k = 2 then 16 else 28) \<and> unat (a ! 0) = length a \<and> ucast (a ! 1) = us_family k) \<and>
     (us_connected k \<noteq> [] \<longrightarrow> udp_port_number (us_connected k) \<noteq> 0) \<and>
     (\<forall>d\<in>set (us_incoming k). udp_port_number (dg_destination d) \<noteq> 0))"
proof (intro conjI allI impI)
  have ok: "udp_ok (udp_run es)" by (rule udp_run_ok)
  then have "first_ephemeral_port \<le> un_port (udp_run es)" by (simp add: udp_ok_def)
  then show "49152 \<le> unat (un_port (udp_run es))" by (simp add: first_ephemeral_port_def word_le_nat_alt)
  show "distinct (un_sockets (udp_run es))" using ok by (simp add: udp_ok_def)
  fix s k assume k: "un_socket (udp_run es) s = Some k"
  show "s \<in> set (un_sockets (udp_run es))" by (rule udp_okD(1) [OF ok k])
  note sk = udp_okD(2) [OF ok k]
  note fam = socket_okD(1) [OF sk]
  show "us_family k = 2 \<or> us_family k = 30" using fam by (simp add: af_inet_def af_inet6_def)
  show "length (us_incoming k) \<le> 256" using socket_okD(4) [OF sk] by (simp add: maximum_pending_datagrams_def)
  show "\<forall>g\<in>us_groups k. length g = (if us_family k = 2 then 4 else 16)" using sk by (simp add: socket_ok_def af_inet_def)
  show "us_connected k \<noteq> [] \<Longrightarrow> udp_port_number (us_connected k) \<noteq> 0"
    using socket_okD(3) [OF sk] by (simp add: zero_port_number)
  show "\<forall>d\<in>set (us_incoming k). udp_port_number (dg_destination d) \<noteq> 0"
    using socket_okD(5) [OF sk] by (simp add: datagram_ok_def zero_port_number)
  have shape: "length a = (if us_family k = 2 then 16 else 28) \<and> unat (a ! 0) = length a \<and> ucast (a ! 1) = us_family k"
    if "address_ok (us_family k) a" for a
    by (rule family_shape [OF fam]; use that in \<open>simp add: address_ok_def\<close>)
  show "\<forall>a\<in>({us_bound k, us_connected k} - {[]}) \<union> dg_source ` set (us_incoming k) \<union> dg_destination ` set (us_incoming k).
       length a = (if us_family k = 2 then 16 else 28) \<and> unat (a ! 0) = length a \<and> ucast (a ! 1) = us_family k"
    using socket_okD(2,3,5) [OF sk] shape by (auto simp: datagram_ok_def)
qed

theorem udp_state_typed_witness:
  "length (us_bound ((new_udp_socket 2)\<lparr>us_bound := mdns_address, us_incoming := [example_datagram]\<rparr>)) = 16 \<and>
   unat (dg_source example_datagram ! 0) = 16 \<and> length (us_bound ((new_udp_socket 2)\<lparr>us_bound := ephemeral_address 2 49152\<rparr>)) = 16"
proof -
  define es where "es = example_sockets @ [Udp_Send_To 1 [7, 8] unicast_address]"
  have k: "un_socket (udp_run example_sockets) 1 = Some (new_udp_socket 2)" by (simp add: example_sockets_run)
  have "udp_run es = udp_step (udp_run example_sockets) (Udp_Send_To 1 [7, 8] unicast_address)" by (simp add: udp_run_def es_def)
  then have "udp_run es = snd (udp_send_to 1 (new_udp_socket 2) [7, 8] unicast_address (udp_run example_sockets))"
    by (simp only: udp_step.simps on_socket_def k option.case)
  then have s: "un_socket (udp_run es) 0 = Some ((new_udp_socket 2)\<lparr>us_bound := mdns_address, us_incoming := [example_datagram]\<rparr>)"
    "un_socket (udp_run es) 1 = Some ((new_udp_socket 2)\<lparr>us_bound := ephemeral_address 2 49152\<rparr>)"
    unfolding example_send by simp_all
  have ne: "mdns_address \<noteq> []" "ephemeral_address 2 49152 \<noteq> []" "us_family (new_udp_socket 2) = 2" by code_simp+
  note typed = udp_state_typed [of es, THEN conjunct2, THEN conjunct2, rule_format]
  show ?thesis using typed [OF s(1)] typed [OF s(2)] ne by simp
qed

text \<open>
  C26: A send reaches exactly the sockets it should, said in the ports and IP addresses that the
  bytes of the addresses hold. After any history a send that succeeds carries its bytes, from the
  port the sender is bound to (the next ephemeral port when it was not bound) and its IP address
  (the address of the host when it is bound to any address), to the address given. A live
  socket appends the datagram to its queue, dropping the oldest of a full one, if and only if it has
  the sender's family, is bound to the destination's port, is not connected or is connected to
  exactly the source, and either is bound to any address, or has joined the group when the
  destination is a multicast group, or is bound to the destination address when it is not; the sender
  itself takes no multicast when its loop option is off. Nothing else of any socket changes
  but the sender's own port, and the weak pointers of closed sockets are dropped.\<close>

theorem send_delivers_exactly:
  assumes "net = udp_run es" "un_socket net s = Some k" "udp_send_to s k bytes a net = (Success, net')"
  shows "\<exists>d own. dg_bytes d = bytes \<and>
    udp_port_number (dg_destination d) = udp_port_number a \<and> udp_ip (us_family k) (dg_destination d) = udp_ip (us_family k) a \<and>
    (if us_bound k = [] then udp_port_number own = unat (un_port net) \<and> udp_ip (us_family k) own = udp_any_ip (us_family k)
     else own = us_bound k) \<and> own \<noteq> [] \<and>
    udp_port_number (dg_source d) = udp_port_number own \<and>
    udp_ip (us_family k) (dg_source d) =
      (if udp_ip (us_family k) own = udp_any_ip (us_family k) then udp_host_ip (us_family k) else udp_ip (us_family k) own) \<and>
    un_sockets net' = filter (\<lambda>t. un_socket net t \<noteq> None) (un_sockets net) \<and>
    (\<forall>t. un_socket net' t =
      (case un_socket net t of None \<Rightarrow> None
       | Some kt \<Rightarrow>
           let bound = (if t = s then own else us_bound kt);
               ip = udp_ip (us_family k) a;
               takes = (us_family kt = us_family k \<and> bound \<noteq> [] \<and> udp_port_number bound = udp_port_number a \<and>
                 (us_connected kt = [] \<or> udp_port_number (us_connected kt) = udp_port_number (dg_source d) \<and>
                    udp_ip (us_family k) (us_connected kt) = udp_ip (us_family k) (dg_source d)) \<and>
                 (udp_ip (us_family k) bound = udp_any_ip (us_family k) \<or>
                  (if udp_group_ip (us_family k) ip then ip \<in> map unat ` us_groups kt else udp_ip (us_family k) bound = ip)) \<and>
                 (t = s \<and> udp_group_ip (us_family k) ip \<longrightarrow> us_loop k))
           in Some (kt\<lparr>us_bound := bound,
                us_incoming := (if takes then drop (Suc (length (us_incoming kt)) - 256) (us_incoming kt @ [d]) else us_incoming kt)\<rparr>)))"
proof -
  have ok: "udp_ok net" unfolding assms(1) by (rule udp_run_ok)
  have r: "network_send s k bytes a net = (Success, net')"
    using assms(3) by (auto simp: udp_send_to_def split: if_splits)
  have v: "valid_address a (us_family k)" using r send_result(3) [of s k bytes a net] by simp
  define d where "d = sent_datagram k (un_port net) bytes a"
  define own where "own = us_bound (sender_bound k (un_port net))"
  note f = send_facts [OF ok assms(2) r, folded d_def]
  note sk = udp_okD(2) [OF ok assms(2)]
  note fam = socket_okD(1) [OF sk]
  have ne: "own \<noteq> []" unfolding own_def by (rule sender_bound_nonempty [OF sk])
  have own: "address_ok (us_family k) own"
    using socket_okD(2) [OF sender_bound_ok [OF sk, of "un_port net"]] ne by (simp add: own_def)
  have src: "dg_source d = source_address own (us_family k)" by (simp add: d_def sent_datagram_def own_def)
  have dest: "udp_port_number (dg_destination d) = udp_port_number a" "udp_ip (us_family k) (dg_destination d) = udp_ip (us_family k) a"
    using destination_numbers [OF fam v] by (simp_all add: d_def sent_datagram_def)
  have mine: "if us_bound k = [] then udp_port_number own = unat (un_port net) \<and> udp_ip (us_family k) own = udp_any_ip (us_family k)
     else own = us_bound k"
    using ephemeral_numbers [OF fam] by (simp add: own_def sender_bound_def)
  have each: "un_socket net' t = (case un_socket net t of None \<Rightarrow> None
      | Some kt \<Rightarrow> let kt' = kt\<lparr>us_bound := (if t = s then own else us_bound kt)\<rparr> in
          Some (if accepts (us_family k) (us_loop k) (dg_source d) (dg_destination d) (t = s) kt' then enqueue_datagram d kt' else kt'))" for t
    using f(4) [of t] assms(2) by (auto simp: own_def sender_bound_def Let_def split: option.split)
  have bound_ok: "socket_ok (kt\<lparr>us_bound := (if t = s then own else us_bound kt)\<rparr>)" if "un_socket net t = Some kt" for t kt
    using udp_okD(2) [OF ok that] own that assms(2) by (auto simp: socket_ok_def)
  show ?thesis
  proof (intro exI [of _ d] exI [of _ own] conjI allI)
    show "dg_bytes d = bytes" by (simp add: d_def sent_datagram_def)
    fix t
    show "un_socket net' t = (case un_socket net t of None \<Rightarrow> None
      | Some kt \<Rightarrow>
           let bound = (if t = s then own else us_bound kt);
               ip = udp_ip (us_family k) a;
               takes = (us_family kt = us_family k \<and> bound \<noteq> [] \<and> udp_port_number bound = udp_port_number a \<and>
                 (us_connected kt = [] \<or> udp_port_number (us_connected kt) = udp_port_number (dg_source d) \<and>
                    udp_ip (us_family k) (us_connected kt) = udp_ip (us_family k) (dg_source d)) \<and>
                 (udp_ip (us_family k) bound = udp_any_ip (us_family k) \<or>
                  (if udp_group_ip (us_family k) ip then ip \<in> map unat ` us_groups kt else udp_ip (us_family k) bound = ip)) \<and>
                 (t = s \<and> udp_group_ip (us_family k) ip \<longrightarrow> us_loop k))
           in Some (kt\<lparr>us_bound := bound,
                us_incoming := (if takes then drop (Suc (length (us_incoming kt)) - 256) (us_incoming kt @ [d]) else us_incoming kt)\<rparr>))"
    proof (cases "un_socket net t")
      case (Some kt)
      define kt' where "kt' = kt\<lparr>us_bound := (if t = s then own else us_bound kt)\<rparr>"
      have kt': "socket_ok kt'" "us_incoming kt' = us_incoming kt" "us_family kt' = us_family kt" "us_connected kt' = us_connected kt"
        "us_groups kt' = us_groups kt" "us_bound kt' = (if t = s then own else us_bound kt)"
        using bound_ok [OF Some] by (simp_all add: kt'_def)
      have "un_socket net' t = Some (kt\<lparr>us_bound := us_bound kt',
          us_incoming := (if accepts (us_family k) (us_loop k) (dg_source d) (dg_destination d) (t = s) kt'
            then drop (Suc (length (us_incoming kt)) - 256) (us_incoming kt @ [d]) else us_incoming kt)\<rparr>)"
        by (simp add: each Some enqueue_keeps_newest [OF kt'(1)] Let_def flip: kt'_def) (simp add: kt'_def)
      then show ?thesis
        unfolding accepts_numbers [OF kt'(1) f(1)] dest kt'(2-5) Some option.case Let_def unfolding kt'(6) .
    qed (simp add: each)
  qed (use dest mine ne source_numbers [OF fam own, folded src] f(3) in simp_all)
qed

theorem send_delivers_exactly_witness:
  "\<exists>d. dg_bytes d = [7, 8] \<and> udp_port_number (dg_source d) = 49152 \<and> udp_ip 2 (dg_source d) = [10, 0, 2, 15] \<and>
    un_socket (snd (udp_send_to 1 (new_udp_socket 2) [7, 8] unicast_address (udp_run example_sockets))) 0 =
      Some ((new_udp_socket 2)\<lparr>us_bound := mdns_address, us_incoming := [d]\<rparr>) \<and>
    map_option us_incoming (un_socket (snd (udp_send_to 1 (new_udp_socket 2) [7, 8] unicast_address (udp_run example_sockets))) 1) = Some []"
proof -
  define net' where "net' = snd (udp_send_to 1 (new_udp_socket 2) [7, 8] unicast_address (udp_run example_sockets))"
  have k: "un_socket (udp_run example_sockets) 1 = Some (new_udp_socket 2)" by (simp add: example_sockets_run)
  have sent: "udp_send_to 1 (new_udp_socket 2) [7, 8] unicast_address (udp_run example_sockets) = (Success, net')"
    unfolding net'_def example_send by simp
  have z: "un_socket (udp_run example_sockets) 0 = Some ((new_udp_socket 2)\<lparr>us_bound := mdns_address\<rparr>)" "un_port (udp_run example_sockets) = 49152"
    by (simp_all add: example_sockets_run)
  have ks: "us_family (new_udp_socket 2) = 2" "us_bound (new_udp_socket 2) = []" "us_connected (new_udp_socket 2) = []"
    "us_incoming (new_udp_socket 2) = []" by (simp_all add: new_udp_socket_def)
  have n: "mdns_address \<noteq> []" "udp_port_number mdns_address = udp_port_number unicast_address" "udp_ip 2 mdns_address = udp_any_ip 2"
    "udp_port_number unicast_address = 5353" "unat (49152 :: u16) = 49152"
    by (simp_all add: mdns_address_def unicast_address_def udp_port_number_def udp_ip_def udp_any_ip_def)
  show ?thesis
    unfolding net'_def [symmetric]
    using send_delivers_exactly [OF refl k sent, unfolded ks z(2)]
  proof (elim exE conjE, goal_cases)
    case (1 d own)
    have own: "udp_port_number own = 49152" "udp_ip 2 own = udp_any_ip 2" using 1(4) n(5) by simp_all
    have "un_socket net' 0 = Some ((new_udp_socket 2)\<lparr>us_bound := mdns_address, us_incoming := [d]\<rparr>)"
      using 1(9) [THEN spec, of 0] n(1-3) by (simp add: z ks Let_def)
    moreover have "map_option us_incoming (un_socket net' 1) = Some []"
      using 1(9) [THEN spec, of 1] n(4) own by (simp add: k [unfolded One_nat_def] ks Let_def)
    ultimately show ?case using 1(1,6,7) own by (intro exI [of _ d]) (simp add: udp_host_ip_def)
  qed
qed

text \<open>
  C27: A reply reaches the sender. After any history, let a socket that is not bound to port 0 send
  a datagram, and let another socket that is not connected and had nothing waiting receive it. Then
  what it receives holds the bytes sent (as many as its buffer takes), and its reply to the source
  address of what it received succeeds and becomes the newest datagram waiting at the first socket,
  with the bytes of the reply and that source as its destination; the first socket receives it
  next when nothing else waits there. This holds whether the first socket was bound by the send
  itself, bound to any address or bound to one address (that is no multicast group).\<close>

theorem reply_reaches_sender:
  assumes net: "net = udp_run es" and k: "un_socket net s = Some k" "us_bound k = [] \<or> udp_port_number (us_bound k) \<noteq> 0"
    and r: "udp_send_to s k bytes a net = (Success, net1)" "un_socket net1 s = Some k1"
    and t: "t \<noteq> s" "un_socket net t = Some kt" "us_connected kt = []" "us_incoming kt = []"
    and got: "un_socket net1 t = Some kt1" "udp_receive t kt1 n net1 = (Some d, net2)"
    and unicast: "\<not> udp_group_ip (us_family k) (udp_ip (us_family k) (dg_source d))"
    and t2: "un_socket net2 t = Some kt2"
  shows "dg_bytes d = take n bytes \<and>
    (\<exists>net3 k3 d3 older. udp_send_to t kt2 reply (dg_source d) net2 = (Success, net3) \<and> un_socket net3 s = Some k3 \<and>
      us_incoming k3 = older @ [d3] \<and> dg_bytes d3 = reply \<and> dg_destination d3 = dg_source d \<and>
      (us_incoming k1 = [] \<longrightarrow> fst (udp_receive s k3 m net3) = Some (d3\<lparr>dg_bytes := take m reply\<rparr>)))"
proof -
  have ok: "udp_ok net" unfolding net by (rule udp_run_ok)
  have alive: "un_alive net" and r': "network_send s k bytes a net = (Success, net1)"
    using r(1) by (auto simp: udp_send_to_def split: if_splits)
  have conn: "us_connected k = []" using r(1) alive by (auto simp: udp_send_to_def peer_address_def split: if_splits)
  define e where "e = sent_datagram k (un_port net) bytes a"
  note f = send_facts [OF ok k(1) r', folded e_def]
  define k0 where "k0 = sender_bound k (un_port net)"
  have sk: "socket_ok k" "socket_ok k0" using udp_okD(2) [OF ok k(1)] sender_bound_ok by (simp_all add: k0_def)
  note fam = socket_okD(1) [OF sk(1)]
  have k0: "us_family k0 = us_family k" "us_connected k0 = []" "us_bound k0 \<noteq> []" "us_incoming k0 = us_incoming k"
    using conn sender_bound_nonempty [OF sk(1)] by (simp_all add: k0_def)
  have bok: "address_ok (us_family k) (us_bound k0)" using socket_okD(2) [OF sk(2) k0(3)] k0(1) by simp
  have e: "dg_source e = source_address (us_bound k0) (us_family k)" "dg_bytes e = bytes" by (simp_all add: e_def sent_datagram_def k0_def)
  note sn = source_numbers [OF fam bok, folded e(1)]
  have kt1: "us_incoming kt1 = [e]" "us_family kt1 = us_family k" "us_connected kt1 = []"
    using f(4) [of t] got t(2-4) t(1) accepts_family
    by (auto simp: udp_receive_def enqueue_datagram_def maximum_pending_datagrams_def split: if_splits)
  have d: "dg_bytes d = take n bytes" "dg_source d = dg_source e" and net2: "net2 = put_socket t (kt1\<lparr>us_incoming := []\<rparr>) net1"
    using got(2) kt1(1) f(2) alive e(2) by (auto simp: udp_receive_def split: if_splits)
  have kt2: "kt2 = kt1\<lparr>us_incoming := []\<rparr>" using t2 by (simp add: net2 put_socket_def)
  have ok2: "udp_ok net2" using receive_ok [OF f(5) got(1), of n] udp_okD(2) [OF f(5) got(1)] got(2) by simp
  have port: "udp_port_number (us_bound k0) \<noteq> 0"
    using k(2) ephemeral_numbers(1) [OF fam] ok by (auto simp: k0_def sender_bound_def udp_ok_def first_ephemeral_port_def word_le_nat_alt)
  have sok: "address_ok (us_family k) (dg_source e)" using f(1) by (simp add: datagram_ok_def)
  have valid: "valid_address (dg_source e) (us_family k)" "normalize_address (dg_source e) (us_family k) = dg_source e"
    using normalize_id [OF fam sok] by simp_all
  have k1: "us_family k1 = us_family k" "us_connected k1 = []" "us_bound k1 = us_bound k0"
    using f(4) [of s] r(2) k0 by (auto simp: enqueue_datagram_def k0_def [symmetric])
  have s2: "un_socket net2 s = Some k1" using r(2) t(1) by (simp add: net2 put_socket_def)
  define q where "q = network_send t kt2 reply (dg_source e) net2"
  have fam2: "us_family kt2 = us_family k" using kt1(2) by (simp add: kt2)
  have "fst q = Success" unfolding q_def send_result(3) fam2 using valid sn(1) port by (simp add: zero_port_number)
  then have q: "network_send t kt2 reply (dg_source e) net2 = (Success, snd q)" unfolding q_def by (metis prod.collapse)
  note f2 = send_facts [OF ok2 t2 q]
  define d3 where "d3 = sent_datagram kt2 (un_port net2) reply (dg_source e)"
  have d3: "dg_bytes d3 = reply" "dg_destination d3 = dg_source e" using valid(2) fam2 by (simp_all add: d3_def sent_datagram_def)
  have "accepts (us_family kt2) (us_loop kt2) (dg_source d3) (dg_destination d3) False k1"
    using accepts_numbers [OF udp_okD(2) [OF ok2 s2] f2(1), folded d3_def, of "us_loop kt2" False] k1 k0(3) sn unicast
    by (auto simp: d3(2) d(2) fam2)
  then have at: "un_socket (snd q) s = Some (enqueue_datagram d3 k1)"
    using f2(4) [of s, folded d3_def] t(1) s2 by simp
  moreover have "udp_send_to t kt2 reply (dg_source d) net2 = (Success, snd q)"
    using q kt1(3) alive f(2) by (simp add: udp_send_to_def peer_address_def kt2 net2 put_socket_def d(2))
  moreover have "fst (udp_receive s (enqueue_datagram d3 k1) m (snd q)) = Some (d3\<lparr>dg_bytes := take m reply\<rparr>)" if "us_incoming k1 = []"
    using that d3(1) alive f(2) f2(2) by (auto simp: udp_receive_def enqueue_datagram_def maximum_pending_datagrams_def net2 put_socket_def)
  ultimately show ?thesis using d d3
    by (intro conjI exI [of _ "snd q"] exI [of _ "enqueue_datagram d3 k1"] exI [of _ d3] exI) (simp_all add: enqueue_datagram_def)
qed

theorem reply_reaches_sender_witness:
  "\<exists>d net2 kt2 net3 k3.
    udp_receive 0 ((new_udp_socket 2)\<lparr>us_bound := mdns_address, us_incoming := [example_datagram]\<rparr>) 100
      (snd (udp_send_to 1 (new_udp_socket 2) [7, 8] unicast_address (udp_run example_sockets))) = (Some d, net2) \<and>
    un_socket net2 0 = Some kt2 \<and> udp_send_to 0 kt2 [9] (dg_source d) net2 = (Success, net3) \<and>
    un_socket net3 1 = Some k3 \<and> map_option dg_bytes (fst (udp_receive 1 k3 100 net3)) = Some [9]"
proof -
  define net1 where "net1 = snd (udp_send_to 1 (new_udp_socket 2) [7, 8] unicast_address (udp_run example_sockets))"
  define kt1 where "kt1 = (new_udp_socket 2)\<lparr>us_bound := mdns_address, us_incoming := [example_datagram]\<rparr>"
  define net2 where "net2 = put_socket 0 (kt1\<lparr>us_incoming := []\<rparr>) net1"
  have new: "us_family (new_udp_socket 2) = 2" "us_connected (new_udp_socket 2) = []" "us_incoming (new_udp_socket 2) = []"
    "us_bound (new_udp_socket 2) = [] \<or> udp_port_number (us_bound (new_udp_socket 2)) \<noteq> 0"
    by (simp_all add: new_udp_socket_def)
  have k: "un_socket (udp_run example_sockets) 1 = Some (new_udp_socket 2)" by (simp add: example_sockets_run)
  have r: "udp_send_to 1 (new_udp_socket 2) [7, 8] unicast_address (udp_run example_sockets) = (Success, net1)"
    "un_socket net1 1 = Some ((new_udp_socket 2)\<lparr>us_bound := ephemeral_address 2 49152\<rparr>)" "un_socket net1 0 = Some kt1" "un_alive net1"
    unfolding net1_def example_send kt1_def by simp_all
  have t: "0 \<noteq> (1 :: nat)" "un_socket (udp_run example_sockets) 0 = Some ((new_udp_socket 2)\<lparr>us_bound := mdns_address\<rparr>)"
    "us_connected ((new_udp_socket 2)\<lparr>us_bound := mdns_address\<rparr>) = []" "us_incoming ((new_udp_socket 2)\<lparr>us_bound := mdns_address\<rparr>) = []"
    by (simp_all add: example_sockets_run new)
  have got: "udp_receive 0 kt1 100 net1 = (Some example_datagram, net2)"
    using r(4) by (simp add: udp_receive_def kt1_def example_datagram_def net2_def)
  have m: "\<not> udp_group_ip (us_family (new_udp_socket 2)) (udp_ip (us_family (new_udp_socket 2)) (dg_source example_datagram))"
    by code_simp
  have t2: "un_socket net2 0 = Some (kt1\<lparr>us_incoming := []\<rparr>)" by (simp add: net2_def put_socket_def)
  show ?thesis
    unfolding net1_def [symmetric] kt1_def [symmetric]
    using reply_reaches_sender [OF refl k new(4) r(1,2) t r(3) got m t2, of "[9]" 100] got t2 new(3) by fastforce
qed

text \<open>
  A socket bound to port 0 cannot be answered. Binding to port 0 succeeds and keeps port 0, so
  that a send chooses no ephemeral port; what the socket sends arrives with source port 0, and
  every send to that source address is refused with \<open>Invalid_Argument\<close>.\<close>

theorem port_zero_unanswerable:
  assumes net: "net = udp_run es" and k: "un_socket net s = Some k" "un_alive net"
    and a: "valid_address a (us_family k)" "zero_port a"
    and bound: "udp_bind s k a net = (st, net1)" "un_socket net1 s = Some k1"
    and sent: "udp_send_to s k1 bytes b net1 = (Success, net2)"
    and t: "un_socket net2 t = Some kt" "us_family kt = us_family k" "us_connected kt = []"
  shows "st = Success \<and> zero_port (dg_source (sent_datagram k1 (un_port net1) bytes b)) \<and>
    udp_send_to t kt reply (dg_source (sent_datagram k1 (un_port net1) bytes b)) net2 = (Invalid_Argument, net2)"
proof -
  have ok: "udp_ok net" unfolding net by (rule udp_run_ok)
  have sk: "socket_ok k" by (rule udp_okD(2) [OF ok k(1)])
  note fam = socket_okD(1) [OF sk]
  define n where "n = normalize_address a (us_family k)"
  have nok: "address_ok (us_family k) n" unfolding n_def by (rule normalize_ok [OF a(1)])
  have len: "length a \<ge> address_size (us_family k)" "address_size (us_family k) \<ge> 16"
    using a(1) fam by (auto simp: valid_address_def Let_def)
  then have zn: "zero_port n" "n \<noteq> []" using a(2) nok by (auto simp: n_def normalize_address_def zero_port_def Let_def)
  have st: "st = Success" "net1 = put_socket s (k\<lparr>us_bound := n\<rparr>) net"
    using bound(1) a(1) k(2) by (simp_all add: udp_bind_def network_bind_def n_def)
  then have k1: "k1 = k\<lparr>us_bound := n\<rparr>" using bound(2) by (simp add: put_socket_def)
  define d where "d = sent_datagram k1 (un_port net1) bytes b"
  have src: "dg_source d = source_address n (us_family k)" using zn(2) by (simp add: d_def sent_datagram_def sender_bound_def k1)
  have z: "zero_port (dg_source d)" using source_parts [OF fam nok] zn(1) by (simp add: src zero_port_def)
  have sok: "address_ok (us_family k) (dg_source d)" unfolding src by (rule source_ok [OF fam nok])
  have "fst (network_send t kt reply (dg_source d) net2) = Invalid_Argument"
    using send_result(1,3) [of t kt reply "dg_source d" net2] z normalize_id [OF fam sok] t(2) by auto
  then have "network_send t kt reply (dg_source d) net2 = (Invalid_Argument, net2)"
    using send_result(2) [of t kt reply "dg_source d" net2] by (metis prod.collapse udp_status.distinct(1))
  moreover have "un_alive net2"
    using sent by (auto simp: udp_send_to_def network_send_def Let_def case_prod_beta split: if_splits)
  ultimately show ?thesis using st z t(3) by (simp add: d_def udp_send_to_def peer_address_def)
qed

theorem port_zero_unanswerable_witness:
  "\<exists>net1 k1. udp_bind 1 (new_udp_socket 2) (replicate 1 16 @ [2] @ replicate 14 0) (udp_run example_sockets) = (Success, net1) \<and>
    un_socket net1 1 = Some k1 \<and> zero_port (dg_source (sent_datagram k1 (un_port net1) [7] unicast_address))"
proof -
  define a :: bytes where "a = replicate 1 16 @ [2] @ replicate 14 0"
  define k1 where "k1 = (new_udp_socket 2)\<lparr>us_bound := a\<rparr>"
  define net1 where "net1 = put_socket 1 k1 (udp_run example_sockets)"
  have a: "valid_address a 2" "zero_port a" "normalize_address a 2 = a" unfolding a_def by code_simp+
  have fam: "us_family (new_udp_socket 2) = 2" by (simp add: new_udp_socket_def)
  have k: "un_socket (udp_run example_sockets) 1 = Some (new_udp_socket 2)" "un_alive (udp_run example_sockets)"
    by (simp_all add: example_sockets_run)
  have b: "udp_bind 1 (new_udp_socket 2) a (udp_run example_sockets) = (Success, net1)"
    using k(2) a fam by (simp add: udp_bind_def network_bind_def net1_def k1_def)
  have k1: "un_socket net1 1 = Some k1" by (simp add: net1_def put_socket_def)
  obtain net2 where s: "udp_send_to 1 k1 [7] unicast_address net1 = (Success, net2)"
  proof -
    have "fst (network_send 1 k1 [7] unicast_address net1) = Success"
      unfolding send_result(3) using example_addresses(1-3) by (simp add: k1_def new_udp_socket_def)
    then have "udp_send_to 1 k1 [7] unicast_address net1 = (Success, snd (network_send 1 k1 [7] unicast_address net1))"
      using k(2) by (simp add: udp_send_to_def peer_address_def k1_def new_udp_socket_def net1_def put_socket_def)
        (metis prod.collapse)
    then show ?thesis by (rule that)
  qed
  have net: "net1 = udp_run (example_sockets @ [Udp_Bind 1 a])"
    using b k(1) by (simp add: udp_run_def on_socket_def)
  have "un_socket net2 1 \<noteq> None"
  proof -
    have "network_send 1 k1 [7] unicast_address net1 = (Success, net2)" using s by (auto simp: udp_send_to_def split: if_splits)
    from send_facts(4) [OF _ k1 this, of 1] show ?thesis using udp_run_ok [of "example_sockets @ [Udp_Bind 1 a]"] net by simp
  qed
  then obtain kt where kt: "un_socket net2 1 = Some kt" by blast
  have "us_family kt = 2 \<and> us_connected kt = []"
  proof -
    have "network_send 1 k1 [7] unicast_address net1 = (Success, net2)" using s by (auto simp: udp_send_to_def split: if_splits)
    from send_facts(4) [OF _ k1 this, of 1] show ?thesis
      using udp_run_ok [of "example_sockets @ [Udp_Bind 1 a]"] net kt
      by (auto simp: enqueue_datagram_def k1_def new_udp_socket_def split: if_splits)
  qed
  then have "zero_port (dg_source (sent_datagram k1 (un_port net1) [7] unicast_address))"
    using port_zero_unanswerable [OF refl k(1,2) _ _ b k1 s kt] a fam by simp
  then show ?thesis using b k1 unfolding a_def by blast
qed

end
