(* ===== verification/Virtual_Udp_Control.thy ===== *)
theory Virtual_Udp_Control
  imports Virtual_Udp_Histories
begin

text \<open>
  The control messages that accompany a received datagram (\<open>make_virtual_udp_ancillary\<close> of
  \<open>virtual_udp.cpp\<close>): headers of three little-endian words, payloads padded to four bytes. The
  reference is a parser that walks a control buffer by the length words, as \<open>CMSG_NXTHDR\<close> does.
\<close>

definition control_header_size :: nat where "control_header_size = 12"
definition ip_receive_destination_address :: u32 where "ip_receive_destination_address = 7"
definition ip_receive_interface :: u32 where "ip_receive_interface = 20"
definition ip_receive_ttl :: u32 where "ip_receive_ttl = 24"
definition ipv6_packet_info :: u32 where "ipv6_packet_info = 19"
definition ipv6_hop_limit :: u32 where "ipv6_hop_limit = 20"
definition interface_type_ethernet :: u8 where "interface_type_ethernet = 6"

record ancillary_options =
  ao_destination :: bool
  ao_interface :: bool
  ao_hop_limit :: bool
  ao_interface_index :: u32

definition u32_bytes :: "u32 \<Rightarrow> bytes" where
  "u32_bytes v = map (\<lambda>i. ucast (drop_bit (8 * i) v)) [0..<4]"

function pad_words :: "bytes \<Rightarrow> bytes" where
  "pad_words control = (if length control mod 4 = 0 then control else pad_words (control @ [0]))"
  by pat_completeness auto
termination
  by (relation "measure (\<lambda>control. if length control mod 4 = 0 then 0 else 4 - length control mod 4)") (auto simp: mod_Suc)

declare pad_words.simps [simp del]

definition append_control :: "u32 \<Rightarrow> u32 \<Rightarrow> bytes \<Rightarrow> bytes \<Rightarrow> bytes" where
  "append_control level type payload control =
     pad_words (control @ u32_bytes (of_nat control_header_size + of_nat (length payload)) @ u32_bytes level @ u32_bytes type @ payload)"

text \<open>The link address of the interface \<open>en0\<close>.\<close>

definition link_address :: "u32 \<Rightarrow> bytes" where
  "link_address index =
     [20, ucast af_link, ucast index, ucast (drop_bit 8 index), interface_type_ethernet, 3, 0, 0] @
     [0x65, 0x6E, 0x30] @ replicate 9 0"

definition packet_info :: "bytes \<Rightarrow> u32 \<Rightarrow> bytes" where
  "packet_info destination index = take 16 (drop 8 destination) @ u32_bytes index"

definition make_virtual_udp_ancillary :: "u32 \<Rightarrow> udp_datagram \<Rightarrow> ancillary_options \<Rightarrow> bytes" where
  "make_virtual_udp_ancillary family d options =
     (if family = af_inet then
        let c1 = (if ao_destination options \<and> length (dg_destination d) \<ge> 16
                  then append_control protocol_ip ip_receive_destination_address (take 4 (drop 4 (dg_destination d))) [] else []);
            c2 = (if ao_interface options then append_control protocol_ip ip_receive_interface (link_address (ao_interface_index options)) c1 else c1)
        in if ao_hop_limit options then append_control protocol_ip ip_receive_ttl [255] c2 else c2
      else if family = af_inet6 then
        let c1 = (if ao_destination options \<and> length (dg_destination d) \<ge> 28
                  then append_control protocol_ipv6 ipv6_packet_info (packet_info (dg_destination d) (ao_interface_index options)) [] else [])
        in if ao_hop_limit options then append_control protocol_ipv6 ipv6_hop_limit [255, 0, 0, 0] c1 else c1
      else [])"

section \<open>The reference parser\<close>

definition word_at_front :: "bytes \<Rightarrow> nat" where
  "word_at_front bs = unat (bs ! 0) + 256 * unat (bs ! 1) + 65536 * unat (bs ! 2) + 16777216 * unat (bs ! 3)"

definition next_aligned :: "nat \<Rightarrow> nat" where
  "next_aligned n = (n + 3) div 4 * 4"

function parse_control :: "bytes \<Rightarrow> (u32 \<times> u32 \<times> bytes) list option" where
  "parse_control bs =
     (if bs = [] then Some []
      else if length bs < control_header_size then None
      else let n = word_at_front bs in
        if n < control_header_size \<or> length bs < n then None
        else case parse_control (drop (next_aligned n) bs) of
            None \<Rightarrow> None
          | Some rest \<Rightarrow> Some ((of_nat (word_at_front (drop 4 bs)), of_nat (word_at_front (drop 8 bs)),
              take (n - control_header_size) (drop control_header_size bs)) # rest))"
  by pat_completeness auto
termination
  by (relation "measure length") (auto simp: next_aligned_def control_header_size_def)

declare parse_control.simps [simp del]

lemma word_bytes: "word_at_front (u32_bytes v @ rest) = unat v"
proof -
  have "u32_bytes v = [ucast v, ucast (drop_bit 8 v), ucast (drop_bit 16 v), ucast (drop_bit 24 v)]"
    by (simp add: u32_bytes_def upt_rec)
  moreover have "unat v mod 256 + 256 * (unat v div 256 mod 256) + 65536 * (unat v div 65536 mod 256) +
      16777216 * (unat v div 16777216) = unat v"
  proof -
    have "unat v div 256 div 256 = unat v div 65536" "unat v div 65536 div 256 = unat v div 16777216"
      by (simp_all flip: div_mult2_eq)
    moreover have "unat v div 16777216 < 256" using unat_u32 [of v] by (simp add: less_mult_imp_div_less)
    moreover from this have "unat v div 16777216 mod 256 = unat v div 16777216" by simp
    ultimately show ?thesis
      using mult_div_mod_eq [of 256 "unat v"] mult_div_mod_eq [of 256 "unat v div 256"] mult_div_mod_eq [of 256 "unat v div 65536"]
      by linarith
  qed
  moreover have top: "unat v div 16777216 mod 256 = unat v div 16777216"
    using unat_u32 [of v] by (simp add: less_mult_imp_div_less)
  ultimately show ?thesis
    by (simp add: word_at_front_def unsigned_ucast_eq take_bit_eq_mod drop_bit_eq_div unat_div top)
qed

lemma u32_bytes_length [simp]: "length (u32_bytes v) = 4"
  by (simp add: u32_bytes_def)

lemma pad_words_eq: "pad_words c = c @ replicate (next_aligned (length c) - length c) 0"
proof (induction c rule: pad_words.induct)
  case (1 c)
  show ?case
  proof (cases "length c mod 4 = 0")
    case True
    then have "next_aligned (length c) = length c" unfolding next_aligned_def by presburger
    then show ?thesis using True by (simp add: pad_words.simps [of c])
  next
    case False
    then have "next_aligned (Suc (length c)) = next_aligned (length c)" "length c < next_aligned (length c)"
      unfolding next_aligned_def by presburger+
    then show ?thesis using 1 False by (subst pad_words.simps) (simp add: Suc_diff_Suc replicate_app_Cons_same flip: replicate_Suc)
  qed
qed

definition item_bytes :: "u32 \<times> u32 \<times> bytes \<Rightarrow> bytes" where
  "item_bytes item = (case item of (level, type, payload) \<Rightarrow>
     pad_words (u32_bytes (of_nat control_header_size + of_nat (length payload)) @ u32_bytes level @ u32_bytes type @ payload))"

lemma append_control_item:
  "length control mod 4 = 0 \<Longrightarrow> append_control level type payload control = control @ item_bytes (level, type, payload)"
proof -
  assume a: "length control mod 4 = 0"
  have "next_aligned (length control + n) = length control + next_aligned n" for n
    using a unfolding next_aligned_def by presburger
  then show ?thesis by (simp add: append_control_def item_bytes_def pad_words_eq)
qed

lemma item_bytes_length: "length (item_bytes (level, type, payload)) = next_aligned (12 + length payload)"
  by (simp add: item_bytes_def pad_words_eq next_aligned_def)

lemma parse_item:
  assumes "length payload < 1000"
  shows "parse_control (item_bytes (level, type, payload) @ rest) =
    map_option (\<lambda>items. (level, type, payload) # items) (parse_control rest)"
proof -
  define bs where "bs = item_bytes (level, type, payload) @ rest"
  define pad where "pad = replicate (next_aligned (12 + length payload) - (12 + length payload)) (0 :: u8)"
  have bs: "bs = u32_bytes (12 + of_nat (length payload)) @ u32_bytes level @ u32_bytes type @ payload @ pad @ rest"
    by (simp add: bs_def item_bytes_def pad_words_eq control_header_size_def pad_def)
  have len: "length bs = next_aligned (12 + length payload) + length rest" by (simp add: bs_def item_bytes_length)
  have n: "word_at_front bs = 12 + length payload"
    using assms unfolding bs word_bytes by (simp add: unat_word_ariths unat_of_nat)
  have na: "12 + length payload \<le> next_aligned (12 + length payload)" by (simp add: next_aligned_def)
  have parts: "word_at_front (drop 4 bs) = unat level" "word_at_front (drop 8 bs) = unat type"
    "take (length payload) (drop 12 bs) = payload"
    using word_bytes by (simp_all add: bs)
  have tail: "drop (next_aligned (12 + length payload)) bs = rest"
    unfolding bs_def by (simp add: item_bytes_length)
  show ?thesis
    unfolding bs_def [symmetric]
    by (subst parse_control.simps)
      (use n na len parts tail in \<open>auto simp: control_header_size_def Let_def split: option.split\<close>)
qed

lemma parse_items:
  "list_all (\<lambda>(level, type, payload). length payload < 1000) items \<Longrightarrow> parse_control (concat (map item_bytes items)) = Some items"
  by (induction items) (auto simp: parse_item parse_control.simps [of "[]"])

section \<open>Round trip\<close>

definition ancillary_items :: "u32 \<Rightarrow> udp_datagram \<Rightarrow> ancillary_options \<Rightarrow> (u32 \<times> u32 \<times> bytes) list" where
  "ancillary_items family d options =
     (if family = af_inet then
        (if ao_destination options then [(0, 7, take 4 (drop 4 (dg_destination d)))] else []) @
        (if ao_interface options then [(0, 20, link_address (ao_interface_index options))] else []) @
        (if ao_hop_limit options then [(0, 24, [255])] else [])
      else
        (if ao_destination options then [(41, 19, take 16 (drop 8 (dg_destination d)) @ u32_bytes (ao_interface_index options))] else []) @
        (if ao_hop_limit options then [(41, 20, [255, 0, 0, 0])] else []))"

lemma items_aligned: "length (concat (map item_bytes items)) mod 4 = 0"
proof (induction items)
  case (Cons i items)
  obtain level type payload where "i = (level, type, payload)" by (cases i) auto
  then have "length (item_bytes i) mod 4 = 0" by (simp add: item_bytes_length next_aligned_def)
  then show ?case using Cons by (simp add: mod_add_eq [symmetric])
qed simp

lemma append_items:
  "c = concat (map item_bytes items) \<Longrightarrow> append_control level type payload c = concat (map item_bytes (items @ [(level, type, payload)]))"
  using append_control_item [OF items_aligned] by simp

lemma make_items:
  assumes "family \<in> {af_inet, af_inet6}" "length (dg_destination d) = address_size family"
  shows "make_virtual_udp_ancillary family d options = concat (map item_bytes (ancillary_items family d options))"
proof -
  note cs = protocol_ip_def protocol_ipv6_def ip_receive_destination_address_def ip_receive_interface_def ip_receive_ttl_def
    ipv6_packet_info_def ipv6_hop_limit_def packet_info_def
  note app = append_items [of "[]" "[]", simplified] append_items [of _ "[i]" for i, simplified] append_items [of _ "[i, j]" for i j, simplified]
  show ?thesis
    using assms unfolding make_virtual_udp_ancillary_def ancillary_items_def Let_def cs by (auto simp: app)
qed

text \<open>
  Round trip of the control messages. For a datagram of an IPv4 or IPv6 socket, walking the
  control buffer the code builds by its length words gives back exactly the messages asked for, in
  order: level, type and payload of the destination address or packet information, of the link
  address of the interface and of the hop limit; every header starts at a multiple of four bytes.\<close>

theorem ancillary_roundtrip:
  assumes "family \<in> {af_inet, af_inet6}" "length (dg_destination d) = address_size family"
  shows "parse_control (make_virtual_udp_ancillary family d options) = Some (ancillary_items family d options) \<and>
    length (make_virtual_udp_ancillary family d options) mod 4 = 0"
  using assms
  by (auto simp: make_items items_aligned intro!: parse_items) (auto simp: ancillary_items_def link_address_def)

theorem ancillary_roundtrip_witness:
  "parse_control (make_virtual_udp_ancillary 2 \<lparr>dg_bytes = [], dg_source = [], dg_destination = [16, 2, 0, 53, 10, 0, 2, 3] @ replicate 8 0\<rparr>
      \<lparr>ao_destination = True, ao_interface = False, ao_hop_limit = True, ao_interface_index = 2\<rparr>) =
   Some [(0, 7, [10, 0, 2, 3]), (0, 24, [255])]"
  using ancillary_roundtrip [of 2 "\<lparr>dg_bytes = [], dg_source = [], dg_destination = [16, 2, 0, 53, 10, 0, 2, 3] @ replicate 8 0\<rparr>"
      "\<lparr>ao_destination = True, ao_interface = False, ao_hop_limit = True, ao_interface_index = 2\<rparr>"]
  by (simp add: af_inet_def address_size_def ancillary_items_def)

end
