(* ===== verification/Host_Resources.thy ===== *)
theory Host_Resources
  imports Ilsim_Prelude
begin

text \<open>
  The controller of host work (\<open>src/foundation/host_resource_controller.cpp\<close>): compilations and
  maintenance queued for worker threads, with a budget of time per duty window for each kind of
  compilation. Times and durations are nanoseconds as integers, \<open>Clock::now()\<close> is an argument; a
  token is named by the sequence number of its task. The critical sections of the workers are steps.
\<close>

section \<open>State\<close>

datatype work_kind = Background_Compile | Offline_Compile | Maintenance

record host_budget =
  worker_count :: nat
  duty_period :: int
  interactive_compile_budget :: int
  offline_compile_budget :: int
  deadline_reserve :: int

record host_task =
  ht_kind :: work_kind
  ht_deadline :: "int option"
  ht_sequence :: nat
  ht_cost :: int

record host_controller =
  hc_tasks :: "(nat, host_task) omap"
  hc_running :: "host_task list"
  hc_cancelled :: "nat set"
  hc_finished :: "nat set"
  hc_deadline :: "int option"
  hc_window :: int
  hc_interactive_work :: int
  hc_interactive_reserved :: int
  hc_offline_work :: int
  hc_offline_reserved :: int
  hc_next :: nat
  hc_active :: nat
  hc_completed :: nat
  hc_rejected :: nat
  hc_stopping :: bool

definition work_priority :: "work_kind \<Rightarrow> nat" where
  "work_priority kind = (case kind of Maintenance \<Rightarrow> 0 | Background_Compile \<Rightarrow> 1 | Offline_Compile \<Rightarrow> 2)"

definition task_precedes :: "host_task \<Rightarrow> host_task \<Rightarrow> bool" where
  "task_precedes l r \<longleftrightarrow>
     (case (ht_deadline l, ht_deadline r) of
        (Some a, Some b) \<Rightarrow>
          if a \<noteq> b then a < b
          else if work_priority (ht_kind l) \<noteq> work_priority (ht_kind r) then work_priority (ht_kind l) < work_priority (ht_kind r)
          else ht_sequence l < ht_sequence r
      | (Some _, None) \<Rightarrow> True
      | (None, Some _) \<Rightarrow> False
      | (None, None) \<Rightarrow>
          if work_priority (ht_kind l) \<noteq> work_priority (ht_kind r) then work_priority (ht_kind l) < work_priority (ht_kind r)
          else ht_sequence l < ht_sequence r)"

definition budget_valid :: "host_budget \<Rightarrow> bool" where
  "budget_valid b \<longleftrightarrow> \<not> (duty_period b \<le> 0 \<or> interactive_compile_budget b < 0 \<or>
     interactive_compile_budget b > duty_period b \<or> offline_compile_budget b < 0 \<or> deadline_reserve b < 0)"

text \<open>The constructor throws \<open>invalid_argument\<close> on an invalid budget.\<close>

definition controller_init :: "host_budget \<Rightarrow> int \<Rightarrow> host_controller option" where
  "controller_init b now =
     (if budget_valid b
      then Some \<lparr>hc_tasks = [], hc_running = [], hc_cancelled = {}, hc_finished = {}, hc_deadline = None, hc_window = now,
             hc_interactive_work = 0, hc_interactive_reserved = 0, hc_offline_work = 0, hc_offline_reserved = 0,
             hc_next = 1, hc_active = 0, hc_completed = 0, hc_rejected = 0, hc_stopping = False\<rparr>
      else None)"

section \<open>Submission\<close>

definition budgeted :: "work_kind \<Rightarrow> bool" where
  "budgeted kind \<longleftrightarrow> kind = Background_Compile \<or> kind = Offline_Compile"

definition limit_of :: "host_budget \<Rightarrow> work_kind \<Rightarrow> int" where
  "limit_of b kind = (if kind = Background_Compile then interactive_compile_budget b else offline_compile_budget b)"

definition too_close :: "host_budget \<Rightarrow> int \<Rightarrow> host_controller \<Rightarrow> bool" where
  "too_close b now hc \<longleftrightarrow> (case hc_deadline hc of None \<Rightarrow> False | Some d \<Rightarrow> d \<le> now + deadline_reserve b)"

definition reject :: "host_controller \<Rightarrow> nat option \<times> host_controller" where
  "reject hc = (None, hc\<lparr>hc_rejected := hc_rejected hc + 1\<rparr>)"

definition accept_task :: "work_kind \<Rightarrow> int option \<Rightarrow> int \<Rightarrow> host_controller \<Rightarrow> nat option \<times> host_controller" where
  "accept_task kind deadline cost hc =
     (let sequence = hc_next hc;
          t = \<lparr>ht_kind = kind, ht_deadline = deadline, ht_sequence = sequence, ht_cost = cost\<rparr>
      in (Some sequence, hc\<lparr>hc_tasks := om_emplace sequence t (hc_tasks hc), hc_next := sequence + 1\<rparr>))"

definition submit_work ::
    "host_budget \<Rightarrow> bool \<Rightarrow> int \<Rightarrow> work_kind \<Rightarrow> int option \<Rightarrow> int \<Rightarrow> host_controller \<Rightarrow> nat option \<times> host_controller" where
  "submit_work b has_work now kind deadline estimated_cost hc =
     (if \<not> has_work then (None, hc)
      else if hc_stopping hc \<or> worker_count b = 0 \<or> (budgeted kind \<and> too_close b now hc) then reject hc
      else if budgeted kind then
        let limit = limit_of b kind in
        if estimated_cost < 0 then reject hc
        else
          let cost = (if estimated_cost = 0 then limit else estimated_cost) in
          if limit = 0 \<or> cost > limit then reject hc else accept_task kind deadline cost hc
      else accept_task kind deadline 0 hc)"

definition cancel_work :: "nat \<Rightarrow> host_controller \<Rightarrow> host_controller" where
  "cancel_work sequence hc = hc\<lparr>hc_cancelled := insert sequence (hc_cancelled hc)\<rparr>"

definition set_next_deadline :: "int option \<Rightarrow> host_controller \<Rightarrow> host_controller" where
  "set_next_deadline deadline hc = hc\<lparr>hc_deadline := deadline\<rparr>"

definition stop_controller :: "host_controller \<Rightarrow> host_controller" where
  "stop_controller hc =
     (if hc_stopping hc then hc
      else hc\<lparr>hc_cancelled := hc_cancelled hc \<union> ht_sequence ` snd ` set (hc_tasks hc), hc_stopping := True\<rparr>)"

section \<open>The workers\<close>

definition within_budget :: "host_budget \<Rightarrow> host_controller \<Rightarrow> host_task \<Rightarrow> bool" where
  "within_budget b hc t \<longleftrightarrow>
     (let interactive = (ht_kind t = Background_Compile);
          limit = (if interactive then interactive_compile_budget b else offline_compile_budget b);
          work = (if interactive then hc_interactive_work hc else hc_offline_work hc);
          reserved = (if interactive then hc_interactive_reserved hc else hc_offline_reserved hc)
      in if work \<ge> limit then False
         else let available = limit - work in \<not> (reserved > available \<or> ht_cost t > available - reserved))"

definition eligible :: "host_budget \<Rightarrow> int \<Rightarrow> host_controller \<Rightarrow> host_task \<Rightarrow> bool" where
  "eligible b now hc t \<longleftrightarrow>
     (if \<not> hc_stopping hc \<and> budgeted (ht_kind t) then \<not> too_close b now hc \<and> within_budget b hc t else True)"

text \<open>The scan of the queue in the order of submission, left at the first cancelled task.\<close>

fun scan_tasks :: "(host_task \<Rightarrow> bool) \<Rightarrow> (host_task \<Rightarrow> bool) \<Rightarrow> host_task list \<Rightarrow> host_task option \<Rightarrow> host_task option" where
  "scan_tasks is_cancelled ok [] best = best"
| "scan_tasks is_cancelled ok (c # cs) best =
     (if is_cancelled c then Some c
      else if \<not> ok c then scan_tasks is_cancelled ok cs best
      else scan_tasks is_cancelled ok cs
        (case best of None \<Rightarrow> Some c | Some t \<Rightarrow> if task_precedes c t then Some c else Some t))"

definition start_window :: "host_budget \<Rightarrow> int \<Rightarrow> host_controller \<Rightarrow> host_controller" where
  "start_window b now hc =
     (if now - hc_window hc \<ge> duty_period b
      then hc\<lparr>hc_window := now, hc_interactive_work := 0, hc_offline_work := 0\<rparr> else hc)"

definition pick_task :: "host_budget \<Rightarrow> int \<Rightarrow> host_controller \<Rightarrow> host_task option" where
  "pick_task b now hc =
     scan_tasks (\<lambda>t. ht_sequence t \<in> hc_cancelled hc) (eligible b now hc) (map snd (hc_tasks hc)) None"

definition reserve_task :: "host_task \<Rightarrow> host_controller \<Rightarrow> host_controller" where
  "reserve_task t hc =
     (let hc1 = hc\<lparr>hc_tasks := om_erase (ht_sequence t) (hc_tasks hc), hc_active := hc_active hc + 1, hc_running := hc_running hc @ [t]\<rparr>
      in case ht_kind t of
           Background_Compile \<Rightarrow> hc1\<lparr>hc_interactive_reserved := hc_interactive_reserved hc + ht_cost t\<rparr>
         | Offline_Compile \<Rightarrow> hc1\<lparr>hc_offline_reserved := hc_offline_reserved hc + ht_cost t\<rparr>
         | Maintenance \<Rightarrow> hc1)"

text \<open>A worker that looks for work: the task it takes, or \<open>None\<close> when it waits (or, stopping, leaves).\<close>

definition worker_take :: "host_budget \<Rightarrow> int \<Rightarrow> host_controller \<Rightarrow> host_task option \<times> host_controller" where
  "worker_take b now hc =
     (if hc_tasks hc = [] then (None, hc)
      else let hc1 = start_window b now hc in
        case pick_task b now hc1 of
          None \<Rightarrow> (None, hc1)
        | Some t \<Rightarrow> (Some t, reserve_task t hc1))"

definition worker_finish :: "host_task \<Rightarrow> int \<Rightarrow> host_controller \<Rightarrow> host_controller" where
  "worker_finish t elapsed hc =
     (let hc1 = hc\<lparr>hc_finished := insert (ht_sequence t) (hc_finished hc), hc_active := hc_active hc - 1,
            hc_completed := hc_completed hc + 1, hc_running := remove1 t (hc_running hc)\<rparr>
      in case ht_kind t of
           Background_Compile \<Rightarrow> hc1\<lparr>hc_interactive_reserved := hc_interactive_reserved hc - ht_cost t,
               hc_interactive_work := hc_interactive_work hc + elapsed\<rparr>
         | Offline_Compile \<Rightarrow> hc1\<lparr>hc_offline_reserved := hc_offline_reserved hc - ht_cost t,
               hc_offline_work := hc_offline_work hc + elapsed\<rparr>
         | Maintenance \<Rightarrow> hc1)"

definition controller_idle :: "host_controller \<Rightarrow> bool" where
  "controller_idle hc \<longleftrightarrow> hc_tasks hc = [] \<and> hc_active hc = 0"

section \<open>Histories\<close>

datatype host_event =
    Submit bool int work_kind "int option" int
  | Cancel nat
  | Deadline "int option"
  | Take int
  | Finish nat int
  | Stop

text \<open>A worker takes work only while it runs none; a running task ends at any time, after any time.\<close>

fun host_step :: "host_budget \<Rightarrow> host_controller \<Rightarrow> host_event \<Rightarrow> host_controller" where
  "host_step b hc (Submit has_work now kind deadline cost) = snd (submit_work b has_work now kind deadline cost hc)"
| "host_step b hc (Cancel sequence) = cancel_work sequence hc"
| "host_step b hc (Deadline d) = set_next_deadline d hc"
| "host_step b hc (Take now) = (if length (hc_running hc) < worker_count b then snd (worker_take b now hc) else hc)"
| "host_step b hc (Finish i elapsed) =
     (if i < length (hc_running hc) \<and> 0 \<le> elapsed then worker_finish (hc_running hc ! i) elapsed hc else hc)"
| "host_step b hc Stop = stop_controller hc"

definition host_start :: "host_budget \<Rightarrow> int \<Rightarrow> host_controller" where
  "host_start b now = the (controller_init b now)"

definition host_run :: "host_budget \<Rightarrow> int \<Rightarrow> host_event list \<Rightarrow> host_controller" where
  "host_run b now es = foldl (host_step b) (host_start b now) es"

end
