(* ===== verification/Host_Resources_Properties.thy ===== *)
theory Host_Resources_Properties
  imports Host_Resources
begin

text \<open>
  The controller of host work over all histories: every task is in one place, the reservations are
  the costs of the running tasks, uncancelled compilations stay within their budget, the choice of
  a worker is the least eligible task, and a stopped controller drains.
\<close>

section \<open>The order of tasks\<close>

definition task_key :: "host_task \<Rightarrow> bool \<times> int \<times> nat \<times> nat" where
  "task_key t = (ht_deadline t = None, case ht_deadline t of None \<Rightarrow> 0 | Some d \<Rightarrow> d, work_priority (ht_kind t), ht_sequence t)"

lemma precedes_key:
  "task_precedes l r \<longleftrightarrow> (let (a, b, c, d) = task_key l; (a', b', c', d') = task_key r in
     (a < a') \<or> (a = a' \<and> (b < b' \<or> (b = b' \<and> (c < c' \<or> (c = c' \<and> d < d'))))))"
  by (auto simp: task_precedes_def task_key_def split: option.splits)

lemma precedes_trans: "task_precedes x y \<Longrightarrow> task_precedes y z \<Longrightarrow> task_precedes x z"
  by (auto simp: precedes_key split: prod.splits)

lemma precedes_total: "ht_sequence x \<noteq> ht_sequence y \<Longrightarrow> task_precedes x y \<or> task_precedes y x"
  by (auto simp: precedes_key task_key_def split: prod.splits)

lemma precedes_irrefl [simp]: "\<not> task_precedes x x"
  by (auto simp: precedes_key split: prod.splits)

section \<open>The scan\<close>

lemma scan_cancelled:
  "scan_tasks cn ok ts best = (if \<exists>t\<in>set ts. cn t then Some (hd (filter cn ts)) else scan_tasks (\<lambda>_. False) ok ts best)"
  by (induction ts arbitrary: best) auto

lemma scan_least:
  assumes "distinct (map ht_sequence (ts @ (case best of None \<Rightarrow> [] | Some t \<Rightarrow> [t])))"
    and r: "scan_tasks (\<lambda>_. False) ok ts best = r"
  shows "case r of None \<Rightarrow> best = None \<and> (\<forall>t\<in>set ts. \<not> ok t)
    | Some t \<Rightarrow> (t \<in> set ts \<and> ok t \<or> best = Some t) \<and>
        (\<forall>u. (u \<in> set ts \<and> ok u \<or> best = Some u) \<longrightarrow> u = t \<or> task_precedes t u)"
  using assms
proof (induction ts arbitrary: best)
  case Nil
  then show ?case by (auto split: option.splits)
next
  case (Cons c cs)
  define nb where "nb = (if ok c then (case best of None \<Rightarrow> Some c | Some t \<Rightarrow> if task_precedes c t then Some c else Some t) else best)"
  have r: "scan_tasks (\<lambda>_. False) ok cs nb = r" using Cons.prems(2) by (simp add: nb_def split: if_splits)
  have dist: "distinct (map ht_sequence (cs @ (case nb of None \<Rightarrow> [] | Some t \<Rightarrow> [t])))"
    using Cons.prems(1) by (auto simp: nb_def split: option.splits if_splits)
  note ih = Cons.IH [OF dist r]
  show ?case
  proof (cases r)
    case None
    then show ?thesis using ih by (auto simp: nb_def split: if_splits option.splits)
  next
    case (Some t)
    have least: "u = t \<or> task_precedes t u" if "u \<in> set cs \<and> ok u \<or> nb = Some u" for u using ih Some that by auto
    have mem: "t \<in> set cs \<and> ok t \<or> nb = Some t" using ih Some by auto
    have nbk: "nb = Some v \<Longrightarrow> v = c \<and> ok c \<or> best = Some v" for v by (auto simp: nb_def split: if_splits option.splits)
    have "u = t \<or> task_precedes t u" if u: "u = c \<and> ok c \<or> best = Some u" for u
    proof -
      obtain v where v: "nb = Some v" "u = v \<or> task_precedes v u"
      proof (cases best)
        case None
        then show ?thesis using u that by (auto simp: nb_def)
      next
        case (Some w)
        have "ht_sequence c \<noteq> ht_sequence w" using Cons.prems(1) Some by auto
        then have "task_precedes c w \<or> task_precedes w c" by (rule precedes_total)
        then show ?thesis using u that Some by (cases "ok c"; cases "task_precedes c w") (auto simp: nb_def)
      qed
      then show ?thesis using least [of v] precedes_trans [of t v u] by auto
    qed
    then show ?thesis using mem nbk least Some by auto
  qed
qed

section \<open>The invariant\<close>

definition costs :: "work_kind \<Rightarrow> host_task list \<Rightarrow> int" where
  "costs kind ts = sum_list (map ht_cost (filter (\<lambda>t. ht_kind t = kind) ts))"

definition uncancelled :: "host_controller \<Rightarrow> host_task list" where
  "uncancelled hc = filter (\<lambda>t. ht_sequence t \<notin> hc_cancelled hc) (hc_running hc)"

definition task_ok :: "host_budget \<Rightarrow> host_task \<Rightarrow> bool" where
  "task_ok b t \<longleftrightarrow> 0 \<le> ht_cost t \<and> (budgeted (ht_kind t) \<longrightarrow> ht_cost t \<le> limit_of b (ht_kind t))"

definition sequences :: "host_controller \<Rightarrow> nat list" where
  "sequences hc = map fst (hc_tasks hc) @ map ht_sequence (hc_running hc)"

definition places_ok :: "host_controller \<Rightarrow> bool" where
  "places_ok hc \<longleftrightarrow> om_wf (hc_tasks hc) \<and> (\<forall>e\<in>set (hc_tasks hc). ht_sequence (snd e) = fst e) \<and>
     distinct (sequences hc) \<and> finite (hc_finished hc) \<and> hc_finished hc \<inter> set (sequences hc) = {} \<and>
     set (sequences hc) \<union> hc_finished hc = {1..<hc_next hc} \<and> 1 \<le> hc_next hc"

definition counts_ok :: "host_budget \<Rightarrow> host_controller \<Rightarrow> bool" where
  "counts_ok b hc \<longleftrightarrow> hc_active hc = length (hc_running hc) \<and> length (hc_running hc) \<le> worker_count b \<and>
     hc_completed hc = card (hc_finished hc) \<and> hc_interactive_reserved hc = costs Background_Compile (hc_running hc) \<and>
     hc_offline_reserved hc = costs Offline_Compile (hc_running hc) \<and> 0 \<le> hc_interactive_work hc \<and> 0 \<le> hc_offline_work hc"

definition budgets_ok :: "host_budget \<Rightarrow> host_controller \<Rightarrow> bool" where
  "budgets_ok b hc \<longleftrightarrow> (\<forall>t\<in>snd ` set (hc_tasks hc) \<union> set (hc_running hc). task_ok b t) \<and>
     costs Background_Compile (uncancelled hc) \<le> interactive_compile_budget b \<and>
     costs Offline_Compile (uncancelled hc) \<le> offline_compile_budget b \<and>
     (hc_stopping hc \<longrightarrow> fst ` set (hc_tasks hc) \<subseteq> hc_cancelled hc)"

definition host_ok :: "host_budget \<Rightarrow> host_controller \<Rightarrow> bool" where
  "host_ok b hc \<longleftrightarrow> places_ok hc \<and> counts_ok b hc \<and> budgets_ok b hc"

lemma costs_simps [simp]:
  "costs kind [] = 0" "costs kind (t # ts) = (if ht_kind t = kind then ht_cost t else 0) + costs kind ts"
  "costs kind (xs @ ys) = costs kind xs + costs kind ys"
  by (simp_all add: costs_def)

lemma costs_remove1: "t \<in> set ts \<Longrightarrow> costs kind (remove1 t ts) = costs kind ts - (if ht_kind t = kind then ht_cost t else 0)"
  by (induction ts) auto

lemma costs_nonneg: "\<forall>t\<in>set ts. 0 \<le> ht_cost t \<Longrightarrow> 0 \<le> costs kind ts"
  by (induction ts) auto

lemma costs_filter: "\<forall>t\<in>set ts. 0 \<le> ht_cost t \<Longrightarrow> costs kind (filter P ts) \<le> costs kind ts"
  by (induction ts) auto

lemma costs_filter_mono: "\<forall>t\<in>set ts. 0 \<le> ht_cost t \<Longrightarrow> (\<And>t. t \<in> set ts \<Longrightarrow> P t \<Longrightarrow> Q t) \<Longrightarrow> costs kind (filter P ts) \<le> costs kind (filter Q ts)"
  by (induction ts) (auto simp: add_increasing)

lemma places_sequences:
  assumes "places_ok hc"
  shows "distinct (map ht_sequence (map snd (hc_tasks hc)))" "map ht_sequence (map snd (hc_tasks hc)) = map fst (hc_tasks hc)"
    "distinct (map ht_sequence (hc_running hc))"
proof -
  show eq: "map ht_sequence (map snd (hc_tasks hc)) = map fst (hc_tasks hc)"
    using assms by (simp add: places_ok_def)
  show "distinct (map ht_sequence (map snd (hc_tasks hc)))" "distinct (map ht_sequence (hc_running hc))"
    unfolding eq using assms by (simp_all add: places_ok_def sequences_def)
qed

lemma pick_member:
  assumes "pick_task b now hc = Some t"
  shows "t \<in> snd ` set (hc_tasks hc)" "ht_sequence t \<in> hc_cancelled hc \<or> eligible b now hc t"
proof -
  have "t \<in> set ts \<and> (cn t \<or> ok t) \<or> best = Some t" if "scan_tasks cn ok ts best = Some t" for cn ok ts best
    using that by (induction ts arbitrary: best) (auto split: if_splits option.splits)
  from this [OF assms [unfolded pick_task_def]]
  show "t \<in> snd ` set (hc_tasks hc)" "ht_sequence t \<in> hc_cancelled hc \<or> eligible b now hc t" by auto
qed

lemma places_alt:
  "places_ok hc \<longleftrightarrow> om_wf (hc_tasks hc) \<and> (\<forall>e\<in>set (hc_tasks hc). ht_sequence (snd e) = fst e) \<and>
     distinct (map ht_sequence (hc_running hc)) \<and> finite (hc_finished hc) \<and>
     fst ` set (hc_tasks hc) \<inter> ht_sequence ` set (hc_running hc) = {} \<and>
     hc_finished hc \<inter> (fst ` set (hc_tasks hc) \<union> ht_sequence ` set (hc_running hc)) = {} \<and>
     fst ` set (hc_tasks hc) \<union> ht_sequence ` set (hc_running hc) \<union> hc_finished hc = {1..<hc_next hc} \<and> 1 \<le> hc_next hc"
  using om_wf_distinct [of "hc_tasks hc"] by (auto simp: places_ok_def sequences_def)

lemma same_places:
  assumes "places_ok hc" "hc_tasks hc' = hc_tasks hc" "hc_running hc' = hc_running hc" "hc_finished hc' = hc_finished hc" "hc_next hc' = hc_next hc"
  shows "places_ok hc'"
  using assms by (simp add: places_ok_def sequences_def)

lemma accept_ok:
  assumes ok: "host_ok b hc" and c: "0 \<le> cost" "budgeted kind \<Longrightarrow> cost \<le> limit_of b kind" and run: "\<not> hc_stopping hc"
  shows "host_ok b (snd (accept_task kind deadline cost hc))"
proof -
  define t where "t = \<lparr>ht_kind = kind, ht_deadline = deadline, ht_sequence = hc_next hc, ht_cost = cost\<rparr>"
  have p: "places_ok hc" using ok by (simp add: host_ok_def)
  have fresh: "hc_next hc \<notin> fst ` set (hc_tasks hc) \<union> ht_sequence ` set (hc_running hc) \<union> hc_finished hc"
    using p unfolding places_alt by (metis atLeastLessThan_iff less_irrefl)
  then have "map_of (hc_tasks hc) (hc_next hc) = None" by (simp add: map_of_eq_None_iff)
  then have eq: "snd (accept_task kind deadline cost hc) = hc\<lparr>hc_tasks := om_put (hc_next hc) t (hc_tasks hc), hc_next := hc_next hc + 1\<rparr>"
    by (simp add: accept_task_def om_emplace_def t_def Let_def)
  have wf: "om_wf (hc_tasks hc)" using p by (simp add: places_ok_def)
  have set: "set (om_put (hc_next hc) t (hc_tasks hc)) = insert (hc_next hc, t) (set (hc_tasks hc))"
  proof -
    have "{e \<in> set (hc_tasks hc). fst e \<noteq> hc_next hc} = set (hc_tasks hc)" using fresh by force
    then show ?thesis using om_put_set [OF wf, of "hc_next hc" t] by simp
  qed
  have "{1..<Suc (hc_next hc)} = insert (hc_next hc) {1..<hc_next hc}" using p by (auto simp: places_alt)
  then have "places_ok (snd (accept_task kind deadline cost hc))"
  proof -
    have "ht_sequence t = hc_next hc" by (simp add: t_def)
    then show ?thesis using p fresh unfolding eq places_alt by (auto simp: set)
  qed
  moreover have "counts_ok b (snd (accept_task kind deadline cost hc))" using ok unfolding eq by (simp add: host_ok_def counts_ok_def)
  moreover have "budgets_ok b (snd (accept_task kind deadline cost hc))"
  proof -
    have "task_ok b t" using c by (simp add: task_ok_def t_def)
    then show ?thesis using ok run unfolding eq by (auto simp: host_ok_def budgets_ok_def set uncancelled_def)
  qed
  ultimately show ?thesis by (simp add: host_ok_def)
qed

lemma submit_ok:
  assumes "host_ok b hc" "budget_valid b"
  shows "host_ok b (snd (submit_work b has_work now kind deadline cost hc))"
proof -
  have rej: "host_ok b (snd (reject hc))"
    using assms(1) by (simp add: reject_def host_ok_def places_ok_def sequences_def counts_ok_def budgets_ok_def uncancelled_def)
  have lim: "0 \<le> limit_of b kind" using assms(2) by (simp add: budget_valid_def limit_of_def)
  show ?thesis
    using assms(1) rej accept_ok [OF assms(1), of "if cost = 0 then limit_of b kind else cost" kind deadline] lim
      accept_ok [OF assms(1), of 0 kind deadline] by (auto simp: submit_work_def Let_def)
qed

lemma cancel_ok:
  assumes "host_ok b hc" "hc_cancelled hc \<subseteq> c" "hc_stopping hc \<or> s \<Longrightarrow> fst ` set (hc_tasks hc) \<subseteq> c"
  shows "host_ok b (hc\<lparr>hc_cancelled := c, hc_stopping := hc_stopping hc \<or> s\<rparr>)"
proof -
  have pos: "\<forall>t\<in>set (hc_running hc). 0 \<le> ht_cost t" using assms(1) by (auto simp: host_ok_def budgets_ok_def task_ok_def)
  have "costs kind (uncancelled (hc\<lparr>hc_cancelled := c, hc_stopping := hc_stopping hc \<or> s\<rparr>)) \<le> costs kind (uncancelled hc)" for kind
    unfolding uncancelled_def using assms(2) by (auto intro!: costs_filter_mono pos)
  from this [of Background_Compile] this [of Offline_Compile] show ?thesis
    using assms by (auto simp: host_ok_def places_ok_def sequences_def counts_ok_def budgets_ok_def)
qed

lemma window_ok: "host_ok b hc \<Longrightarrow> host_ok b (start_window b now hc)"
  by (simp add: start_window_def host_ok_def places_ok_def sequences_def counts_ok_def budgets_ok_def uncancelled_def)

lemma reserve_ok:
  assumes ok: "host_ok b hc" and t: "pick_task b now hc = Some t" and room: "length (hc_running hc) < worker_count b" and b: "budget_valid b"
  shows "host_ok b (reserve_task t hc)"
proof -
  define v where "v = reserve_task t hc"
  have v: "hc_tasks v = om_erase (ht_sequence t) (hc_tasks hc)" "hc_running v = hc_running hc @ [t]" "hc_finished v = hc_finished hc"
    "hc_next v = hc_next hc" "hc_cancelled v = hc_cancelled hc" "hc_stopping v = hc_stopping hc" "hc_active v = hc_active hc + 1"
    "hc_completed v = hc_completed hc" "hc_interactive_work v = hc_interactive_work hc" "hc_offline_work v = hc_offline_work hc"
    "hc_interactive_reserved v = hc_interactive_reserved hc + (if ht_kind t = Background_Compile then ht_cost t else 0)"
    "hc_offline_reserved v = hc_offline_reserved hc + (if ht_kind t = Offline_Compile then ht_cost t else 0)"
    by (simp_all add: v_def reserve_task_def Let_def split: work_kind.split)
  have p: "places_ok hc" and counts: "counts_ok b hc" and bud: "budgets_ok b hc" using ok by (simp_all add: host_ok_def)
  have mem: "t \<in> snd ` set (hc_tasks hc)" by (rule pick_member(1) [OF t])
  then have entry: "(ht_sequence t, t) \<in> set (hc_tasks hc)" using p by (auto simp: places_ok_def)
  have erased: "fst ` set (hc_tasks v) = fst ` set (hc_tasks hc) - {ht_sequence t}" unfolding v by simp
  have seq: "ht_sequence t \<in> fst ` set (hc_tasks hc)" using entry by force
  have sub: "set (hc_tasks v) \<subseteq> set (hc_tasks hc)" unfolding v om_erase_def by auto
  have "places_ok v"
    using p seq sub unfolding places_alt erased unfolding v(2-4) by (auto simp: v(1))
  moreover have "counts_ok b v"
    using counts room unfolding counts_ok_def v by auto
  moreover have "budgets_ok b v"
  proof -
    have pos: "\<forall>u\<in>set (hc_running hc). 0 \<le> ht_cost u" using bud by (auto simp: budgets_ok_def task_ok_def)
    have le: "costs kind (uncancelled hc) \<le> costs kind (hc_running hc)" for kind
      unfolding uncancelled_def by (rule costs_filter [OF pos])
    have unc: "uncancelled v = uncancelled hc @ (if ht_sequence t \<in> hc_cancelled hc then [] else [t])"
      by (simp add: uncancelled_def v)
    have budget: "costs kind (uncancelled v) \<le> limit_of b kind" if k: "kind \<in> {Background_Compile, Offline_Compile}" for kind
    proof (cases "ht_sequence t \<notin> hc_cancelled hc \<and> ht_kind t = kind")
      case False
      then show ?thesis using bud k unc by (auto simp: budgets_ok_def limit_of_def)
    next
      case True
      then have el: "eligible b now hc t" using pick_member(2) [OF t] by simp
      have "\<not> hc_stopping hc" using True bud seq by (auto simp: budgets_ok_def)
      then have "within_budget b hc t" using el True k by (auto simp: eligible_def budgeted_def split: if_splits)
      then have "costs kind (hc_running hc) + ht_cost t \<le> limit_of b kind"
        using True k counts by (auto simp: within_budget_def counts_ok_def limit_of_def Let_def split: if_splits)
      then show ?thesis using le [of kind] True unc by simp
    qed
    have tasks: "\<forall>u\<in>snd ` set (hc_tasks v) \<union> set (hc_running v). task_ok b u"
      using bud sub mem unfolding budgets_ok_def v(2) by auto
    then show ?thesis
      using bud budget [of Background_Compile] budget [of Offline_Compile] unfolding budgets_ok_def v(5,6) erased by (auto simp: limit_of_def)
  qed
  ultimately show ?thesis by (simp add: host_ok_def v_def)
qed

lemma take_ok:
  assumes "host_ok b hc" "length (hc_running hc) < worker_count b" "budget_valid b"
  shows "host_ok b (snd (worker_take b now hc))"
proof -
  have "hc_running (start_window b now hc) = hc_running hc" by (simp add: start_window_def)
  then show ?thesis
    using assms window_ok [OF assms(1), of now] reserve_ok [OF window_ok [OF assms(1), of now]]
    by (auto simp: worker_take_def Let_def split: option.split)
qed

lemma finish_ok:
  assumes ok: "host_ok b hc" and t: "t \<in> set (hc_running hc)" and e: "0 \<le> elapsed"
  shows "host_ok b (worker_finish t elapsed hc)"
proof -
  define v where "v = worker_finish t elapsed hc"
  have v: "hc_tasks v = hc_tasks hc" "hc_running v = remove1 t (hc_running hc)" "hc_finished v = insert (ht_sequence t) (hc_finished hc)"
    "hc_next v = hc_next hc" "hc_cancelled v = hc_cancelled hc" "hc_stopping v = hc_stopping hc" "hc_active v = hc_active hc - 1"
    "hc_completed v = hc_completed hc + 1"
    "hc_interactive_work v = hc_interactive_work hc + (if ht_kind t = Background_Compile then elapsed else 0)"
    "hc_offline_work v = hc_offline_work hc + (if ht_kind t = Offline_Compile then elapsed else 0)"
    "hc_interactive_reserved v = hc_interactive_reserved hc - (if ht_kind t = Background_Compile then ht_cost t else 0)"
    "hc_offline_reserved v = hc_offline_reserved hc - (if ht_kind t = Offline_Compile then ht_cost t else 0)"
    by (simp_all add: v_def worker_finish_def Let_def split: work_kind.split)
  have p: "places_ok hc" and counts: "counts_ok b hc" and bud: "budgets_ok b hc" using ok by (simp_all add: host_ok_def)
  have dr: "distinct (map ht_sequence (hc_running hc))" using p by (simp add: places_alt)
  then have "distinct (hc_running hc)" by (simp add: distinct_map)
  then have set: "set (remove1 t (hc_running hc)) = set (hc_running hc) - {t}" by (rule set_remove1_eq)
  have seqs: "ht_sequence ` (set (hc_running hc) - {t}) = ht_sequence ` set (hc_running hc) - {ht_sequence t}"
    using dr t by (auto simp: distinct_map inj_on_def)
  have fresh: "ht_sequence t \<notin> hc_finished hc \<union> fst ` set (hc_tasks hc)" using p t by (auto simp: places_alt)
  have "distinct (map ht_sequence (remove1 t (hc_running hc)))" using dr by (simp add: distinct_map set inj_on_diff)
  then have "places_ok v"
    using p t fresh unfolding places_alt v set seqs by auto
  moreover have "counts_ok b v"
  proof -
    have "length (remove1 t (hc_running hc)) = length (hc_running hc) - 1" using t by (simp add: length_remove1)
    moreover have "card (insert (ht_sequence t) (hc_finished hc)) = card (hc_finished hc) + 1"
      using p fresh by (simp add: places_alt)
    ultimately show ?thesis
      using counts e t unfolding counts_ok_def v by (auto simp: costs_remove1)
  qed
  moreover have "budgets_ok b v"
  proof -
    have "filter P (remove1 t xs) = remove1 t (filter P xs)" for P :: "host_task \<Rightarrow> bool" and xs
      by (rule filter_remove1)
    then have "uncancelled v = remove1 t (uncancelled hc)" by (simp add: uncancelled_def v)
    moreover have "0 \<le> ht_cost u" if "u \<in> set (hc_running hc)" for u using bud that by (auto simp: budgets_ok_def task_ok_def)
    ultimately have "costs kind (uncancelled v) \<le> costs kind (uncancelled hc)" for kind
      using t by (cases "t \<in> set (uncancelled hc)") (auto simp: costs_remove1 remove1_idem)
    from this [of Background_Compile] this [of Offline_Compile] show ?thesis
      using bud unfolding budgets_ok_def v set by auto
  qed
  ultimately show ?thesis by (simp add: host_ok_def v_def)
qed

lemma host_step_ok: "budget_valid b \<Longrightarrow> host_ok b hc \<Longrightarrow> host_ok b (host_step b hc e)"
proof -
  assume b: "budget_valid b" and ok: "host_ok b hc"
  have tasks: "hc_stopping hc \<Longrightarrow> fst ` set (hc_tasks hc) \<subseteq> hc_cancelled hc" using ok by (simp add: host_ok_def budgets_ok_def)
  show ?thesis
  proof (cases e)
    case (Cancel sequence)
    then show ?thesis using cancel_ok [OF ok, of "insert sequence (hc_cancelled hc)" False] tasks
      by (auto simp: cancel_work_def)
  next
    case (Deadline d)
    then show ?thesis
      using ok by (simp add: set_next_deadline_def host_ok_def places_ok_def sequences_def counts_ok_def budgets_ok_def uncancelled_def)
  next
    case Stop
    have "ht_sequence ` snd ` set (hc_tasks hc) = fst ` set (hc_tasks hc)"
      using ok by (force simp: host_ok_def places_ok_def)
    then show ?thesis using Stop ok cancel_ok [OF ok, of "hc_cancelled hc \<union> fst ` set (hc_tasks hc)" True]
      by (simp add: stop_controller_def)
  qed (use b ok in \<open>auto simp: submit_ok take_ok finish_ok\<close>)
qed

lemma host_start_ok: "budget_valid b \<Longrightarrow> host_ok b (host_start b now)"
  by (simp add: host_start_def controller_init_def host_ok_def places_alt counts_ok_def budgets_ok_def uncancelled_def budget_valid_def)

interpretation host: machine "host_start b now" "host_step b" "\<lambda>hc. budget_valid b \<longrightarrow> host_ok b hc" for b now
  by unfold_locales (simp_all add: host_start_ok host_step_ok)

lemma host_run_ok: "budget_valid b \<Longrightarrow> host_ok b (host_run b now es)"
  unfolding host_run_def using host.run_inv [of b now es] by blast

lemma hd_filter_sorted:
  "sorted xs \<Longrightarrow> \<exists>x\<in>set xs. P x \<Longrightarrow> hd (filter P xs) = Min {x \<in> set xs. P x}" for xs :: "'a::linorder list"
proof (induction xs)
  case (Cons x xs)
  show ?case
  proof (cases "P x")
    case True
    have "Min {y \<in> set (x # xs). P y} = x" using True Cons.prems(1) by (intro Min_eqI) auto
    then show ?thesis using True by simp
  next
    case False
    then have "{y \<in> set (x # xs). P y} = {y \<in> set xs. P y}" by auto
    then show ?thesis using Cons False by auto
  qed
qed simp

lemma pick_exact:
  assumes p: "places_ok hc"
  defines "queue \<equiv> snd ` set (hc_tasks hc)"
  shows "case pick_task b now hc of
      None \<Rightarrow> \<forall>u\<in>queue. ht_sequence u \<notin> hc_cancelled hc \<and> \<not> eligible b now hc u
    | Some v \<Rightarrow> v \<in> queue \<and>
        (if ht_sequence ` queue \<inter> hc_cancelled hc \<noteq> {}
         then ht_sequence v = Min (ht_sequence ` queue \<inter> hc_cancelled hc)
         else eligible b now hc v \<and> (\<forall>u\<in>queue. eligible b now hc u \<longrightarrow> u = v \<or> task_precedes v u))"
proof -
  define ts where "ts = map snd (hc_tasks hc)"
  define cn where "cn t \<longleftrightarrow> ht_sequence t \<in> hc_cancelled hc" for t :: host_task
  have q: "queue = set ts" by (simp add: queue_def ts_def)
  have seqs: "map ht_sequence ts = map fst (hc_tasks hc)" using places_sequences(2) [OF p] by (simp add: ts_def)
  have pick: "pick_task b now hc = scan_tasks cn (eligible b now hc) ts None" by (simp add: pick_task_def ts_def cn_def [abs_def])
  show ?thesis
  proof (cases "\<exists>t\<in>set ts. cn t")
    case True
    have "sorted_wrt (<) (map fst (hc_tasks hc))" using p by (simp add: places_ok_def om_wf_def sorted_wrt_map)
    then have sorted: "sorted (map ht_sequence ts)" unfolding seqs by (rule strict_sorted_imp_sorted)
    have "filter cn ts \<noteq> []" using True by (simp add: filter_empty_conv)
    then have mem: "hd (filter cn ts) \<in> set ts" and hd: "ht_sequence (hd (filter cn ts)) = hd (filter (\<lambda>s. s \<in> hc_cancelled hc) (map ht_sequence ts))"
      using hd_in_set [of "filter cn ts"] by (simp_all add: filter_map comp_def cn_def [abs_def] hd_map)
    have "{x \<in> set (map ht_sequence ts). x \<in> hc_cancelled hc} = ht_sequence ` queue \<inter> hc_cancelled hc" by (auto simp: q)
    then have "ht_sequence (hd (filter cn ts)) = Min (ht_sequence ` queue \<inter> hc_cancelled hc)"
      using hd_filter_sorted [OF sorted, of "\<lambda>s. s \<in> hc_cancelled hc"] True hd by (auto simp: cn_def)
    then show ?thesis using True mem by (auto simp: pick scan_cancelled [of cn] q cn_def)
  next
    case False
    have "distinct (map ht_sequence ts)" using places_sequences(1) [OF p] by (simp add: ts_def)
    then have "case scan_tasks (\<lambda>_. False) (eligible b now hc) ts None of None \<Rightarrow> \<forall>t\<in>set ts. \<not> eligible b now hc t
      | Some t \<Rightarrow> t \<in> set ts \<and> eligible b now hc t \<and> (\<forall>u\<in>set ts. eligible b now hc u \<longrightarrow> u = t \<or> task_precedes t u)"
      using scan_least [of ts None "eligible b now hc", OF _ refl] by (auto split: option.splits)
    then show ?thesis using False by (auto simp: pick scan_cancelled [of cn] q cn_def split: option.splits)
  qed
qed

section \<open>A stopped controller\<close>

lemma scan_some: "list_ex (\<lambda>t. cn t \<or> ok t) ts \<or> best \<noteq> None \<Longrightarrow> scan_tasks cn ok ts best \<noteq> None"
  by (induction ts arbitrary: best) (auto split: option.split)

lemma omap_length: "om_wf m \<Longrightarrow> length m = card (fst ` set m)"
  using distinct_card [OF om_wf_distinct] by fastforce

text \<open>With the controller stopping, an idle worker that takes and finishes a task shortens the queue.\<close>

lemma stopped_turn:
  fixes now :: int
  assumes s: "hc_stopping hc" and q: "hc_tasks hc \<noteq> []" and p: "places_ok hc"
    and idle: "hc_running hc = []" and w: "0 < worker_count b" and e: "0 \<le> elapsed"
  defines "hc' \<equiv> host_step b (host_step b hc (Take now)) (Finish 0 elapsed)"
  shows "hc_stopping hc'" "hc_running hc' = []" "Suc (length (hc_tasks hc')) = length (hc_tasks hc)"
proof -
  define hc1 where "hc1 = start_window b now hc"
  have h1: "hc_tasks hc1 = hc_tasks hc" "hc_stopping hc1" "hc_running hc1 = []"
    using s idle by (simp_all add: hc1_def start_window_def)
  have "eligible b now hc1 = (\<lambda>_. True)" using h1(2) by (simp add: eligible_def fun_eq_iff)
  moreover have "list_ex (\<lambda>_. True) (map snd (hc_tasks hc1))" using q h1(1) by (cases "hc_tasks hc") auto
  ultimately obtain t where t: "pick_task b now hc1 = Some t"
    using scan_some [of _ "\<lambda>_. True" "map snd (hc_tasks hc1)" None] by (fastforce simp: pick_task_def)
  have run: "hc_running (reserve_task t hc1) = [t]" "hc_stopping (reserve_task t hc1)"
    "hc_tasks (reserve_task t hc1) = om_erase (ht_sequence t) (hc_tasks hc)"
    using h1 by (simp_all add: reserve_task_def Let_def split: work_kind.split)
  have hc': "hc' = worker_finish t elapsed (reserve_task t hc1)"
    using q e w idle t run(1) by (simp add: hc'_def worker_take_def hc1_def [symmetric])
  have "t \<in> snd ` set (hc_tasks hc)" using pick_member(1) [OF t] h1(1) by simp
  then have mem: "ht_sequence t \<in> fst ` set (hc_tasks hc)" using p by (force simp: places_ok_def)
  have wf: "om_wf (hc_tasks hc)" using p by (simp add: places_ok_def)
  have "card (fst ` set (hc_tasks hc) - {ht_sequence t}) = card (fst ` set (hc_tasks hc)) - 1"
    using mem by (simp add: card_Diff_singleton)
  moreover have "0 < card (fst ` set (hc_tasks hc))" using mem by (auto simp: card_gt_0_iff)
  ultimately have "Suc (length (om_erase (ht_sequence t) (hc_tasks hc))) = length (hc_tasks hc)"
    unfolding omap_length [OF wf] omap_length [OF om_erase_wf [OF wf]] om_erase_keys by simp
  then show "hc_stopping hc'" "hc_running hc' = []" "Suc (length (hc_tasks hc')) = length (hc_tasks hc)"
    using run unfolding hc' by (simp_all add: worker_finish_def Let_def split: work_kind.split)
qed

lemma steps_ok: "budget_valid b \<Longrightarrow> host_ok b hc \<Longrightarrow> host_ok b (foldl (host_step b) hc es)"
  by (induction es arbitrary: hc) (simp_all add: host_step_ok)

lemma stopped_drain:
  assumes "budget_valid b" "0 < worker_count b" "\<forall>(now, elapsed)\<in>set turns. 0 \<le> elapsed"
    and "host_ok b hc" "hc_stopping hc" "hc_running hc = []" "length (hc_tasks hc) = length turns"
  shows "controller_idle (foldl (host_step b) hc (concat (map (\<lambda>(now, elapsed). [Take now, Finish 0 elapsed]) turns)))"
  using assms
proof (induction turns arbitrary: hc)
  case Nil
  then show ?case by (simp add: controller_idle_def host_ok_def counts_ok_def)
next
  case (Cons turn turns)
  obtain now elapsed where turn: "turn = (now, elapsed)" by fastforce
  define hc' where "hc' = host_step b (host_step b hc (Take now)) (Finish 0 elapsed)"
  have "hc_tasks hc \<noteq> []" using Cons.prems by auto
  then have "hc_stopping hc'" "hc_running hc' = []" "Suc (length (hc_tasks hc')) = length (hc_tasks hc)"
    using stopped_turn [of hc b elapsed now] Cons.prems turn by (auto simp: hc'_def host_ok_def)
  moreover have "host_ok b hc'" unfolding hc'_def using Cons.prems by (intro host_step_ok)
  ultimately show ?case using Cons.IH [of hc'] Cons.prems turn by (simp add: hc'_def)
qed

lemma finish_running:
  "\<forall>e\<in>set ends. 0 \<le> e \<Longrightarrow> length ends = length (hc_running hc) \<Longrightarrow> hc_stopping hc \<Longrightarrow>
     hc_running (foldl (host_step b) hc (map (Finish 0) ends)) = [] \<and> hc_stopping (foldl (host_step b) hc (map (Finish 0) ends)) \<and>
     hc_tasks (foldl (host_step b) hc (map (Finish 0) ends)) = hc_tasks hc"
proof (induction ends arbitrary: hc)
  case (Cons e ends)
  define hc' where "hc' = host_step b hc (Finish 0 e)"
  obtain t ts where ts: "hc_running hc = t # ts" using Cons.prems by (cases "hc_running hc") auto
  have "hc_running hc' = ts" "hc_stopping hc' = hc_stopping hc" "hc_tasks hc' = hc_tasks hc"
    using Cons.prems ts by (simp_all add: hc'_def worker_finish_def Let_def split: work_kind.split)
  then show ?case using Cons.IH [of hc'] Cons.prems ts by (simp add: hc'_def)
qed simp

section \<open>Claims\<close>

definition sample_budget :: host_budget where
  "sample_budget = \<lparr>worker_count = 2, duty_period = 100, interactive_compile_budget = 20, offline_compile_budget = 50, deadline_reserve = 5\<rparr>"

definition sample_work :: "host_event list" where
  "sample_work = [Submit True 0 Background_Compile (Some 90) 12, Submit True 0 Maintenance None 7,
     Submit True 1 Background_Compile (Some 40) 15, Take 2, Take 3, Submit True 4 Offline_Compile None 0, Cancel 1]"

lemma sample_budget_valid: "budget_valid sample_budget"
  by (simp add: budget_valid_def sample_budget_def)

lemma sample_run:
  "map fst (hc_tasks (host_run sample_budget 0 sample_work)) = [1, 4] \<and>
   map ht_sequence (hc_running (host_run sample_budget 0 sample_work)) = [3, 2] \<and>
   hc_cancelled (host_run sample_budget 0 sample_work) = {1}"
  by code_simp

text \<open>
  C29: the workers never promise more compilation time than the budget grants. After any sequence of
  submissions, cancellations, deadline changes, worker turns and stops, the estimated costs of the
  running compilations of either kind that nobody cancelled add up to at most the budget of that
  kind, and no more tasks run than there are workers.
\<close>

theorem compile_budget_respected:
  assumes "budget_valid b"
  shows "(\<forall>kind\<in>{Background_Compile, Offline_Compile}. costs kind (uncancelled (host_run b now es)) \<le> limit_of b kind) \<and>
    length (hc_running (host_run b now es)) \<le> worker_count b"
  using host_run_ok [OF assms, of now es] by (simp add: host_ok_def budgets_ok_def counts_ok_def limit_of_def)

theorem compile_budget_respected_witness:
  "length (hc_running (host_run sample_budget 0 sample_work)) \<le> worker_count sample_budget"
  using compile_budget_respected [OF sample_budget_valid, of 0 sample_work] by blast

text \<open>
  the choice of a worker is exact. At any time after any history, if a queued task is cancelled,
  the worker picks the cancelled task submitted first; otherwise it picks the eligible task that
  precedes every other eligible one (earliest deadline, then priority of the kind, then order of
  submission); it picks none exactly when no queued task is cancelled or eligible.
\<close>

theorem worker_choice_exact:
  fixes t now :: int and es :: "host_event list"
  assumes "budget_valid b"
  defines "hc \<equiv> start_window b t (host_run b now es)"
  defines "queue \<equiv> snd ` set (hc_tasks hc)"
  shows "case pick_task b t hc of
      None \<Rightarrow> \<forall>u\<in>queue. ht_sequence u \<notin> hc_cancelled hc \<and> \<not> eligible b t hc u
    | Some v \<Rightarrow> v \<in> queue \<and>
        (if ht_sequence ` queue \<inter> hc_cancelled hc \<noteq> {}
         then ht_sequence v = Min (ht_sequence ` queue \<inter> hc_cancelled hc)
         else eligible b t hc v \<and> (\<forall>u\<in>queue. eligible b t hc u \<longrightarrow> u = v \<or> task_precedes v u))"
proof -
  have p: "places_ok hc" using window_ok [OF host_run_ok [OF assms(1)]] by (simp add: hc_def host_ok_def)
  show ?thesis unfolding queue_def by (rule pick_exact [OF p])
qed

theorem worker_choice_exact_witness:
  "\<exists>v. pick_task sample_budget 5 (start_window sample_budget 5 (host_run sample_budget 0 sample_work)) = Some v \<and> ht_sequence v = 1"
proof -
  define hc where "hc = start_window sample_budget 5 (host_run sample_budget 0 sample_work)"
  have ok: "places_ok hc" using window_ok [OF host_run_ok [OF sample_budget_valid]] by (simp add: hc_def host_ok_def)
  have same: "hc_tasks hc = hc_tasks (host_run sample_budget 0 sample_work)" "hc_cancelled hc = {1}"
    using sample_run by (simp_all add: hc_def start_window_def)
  have "set (map fst (hc_tasks hc)) = {1, 4}" unfolding same(1) sample_run [THEN conjunct1] by simp
  then have "fst ` set (hc_tasks hc) = {1, 4}" by simp
  moreover have "ht_sequence ` snd ` set (hc_tasks hc) = fst ` set (hc_tasks hc)"
    using arg_cong [OF places_sequences(2) [OF ok], of set] by (simp add: image_image)
  ultimately have seqs: "ht_sequence ` snd ` set (hc_tasks hc) \<inter> hc_cancelled hc = {1}" using same(2) by auto
  then have "1 \<in> ht_sequence ` snd ` set (hc_tasks hc)" by (metis IntD1 insertI1)
  then obtain u where u: "u \<in> snd ` set (hc_tasks hc)" "ht_sequence u \<in> hc_cancelled hc"
    unfolding image_iff [of 1] same(2) by force
  show ?thesis
  proof (cases "pick_task sample_budget 5 hc")
    case None
    have "ht_sequence u \<notin> hc_cancelled hc \<and> \<not> eligible sample_budget 5 hc u"
      by (rule bspec [OF worker_choice_exact [OF sample_budget_valid, of 5 0 sample_work, folded hc_def, unfolded None option.case] u(1)])
    then show ?thesis using u(2) by simp
  next
    case (Some v)
    have "ht_sequence v = 1"
      using worker_choice_exact [OF sample_budget_valid, of 5 0 sample_work, folded hc_def, unfolded Some seqs option.case] by simp
    then show ?thesis using Some by (simp add: hc_def)
  qed
qed

text \<open>
  no task is lost or run twice. After any history every sequence number handed out stands in
  exactly one place, once: queued, running or finished; and the counters say so: \<open>active_tasks_\<close> is
  the number of running tasks, \<open>completed_\<close> the number of finished ones, and the reserved times are
  the sums of the costs of the running compilations.
\<close>

theorem host_tasks_accounted:
  fixes now :: int and es :: "host_event list"
  assumes "budget_valid b"
  defines "h \<equiv> host_run b now es"
  shows "distinct (map fst (hc_tasks h) @ map ht_sequence (hc_running h)) \<and>
    hc_finished h \<inter> (fst ` set (hc_tasks h) \<union> ht_sequence ` set (hc_running h)) = {} \<and>
    fst ` set (hc_tasks h) \<union> ht_sequence ` set (hc_running h) \<union> hc_finished h = {1..<hc_next h} \<and>
    hc_active h = length (hc_running h) \<and> hc_completed h = card (hc_finished h) \<and>
    hc_interactive_reserved h = costs Background_Compile (hc_running h) \<and> hc_offline_reserved h = costs Offline_Compile (hc_running h)"
  using host_run_ok [OF assms(1), of now es] by (simp add: h_def host_ok_def places_ok_def counts_ok_def sequences_def)

theorem host_tasks_accounted_witness:
  "hc_active (host_run sample_budget 0 sample_work) = length (hc_running (host_run sample_budget 0 sample_work))"
  using host_tasks_accounted [OF sample_budget_valid, of 0 sample_work] by blast

text \<open>
  C30: stopping the controller ends. Whatever the history, once the controller is stopped, the end of
  the running tasks (at any times) followed by one turn of a worker for every queued task leaves the
  controller idle: no queued task, none active. No deadline or budget can hold a task back.
\<close>

theorem stopped_controller_drains:
  fixes turns :: "(int \<times> int) list"
  assumes "budget_valid b" "0 < worker_count b"
    and "length ends = length (hc_running (host_run b now es))" "\<forall>e\<in>set ends. 0 \<le> e"
    and "length turns = length (hc_tasks (host_run b now es))" "\<forall>(_, e)\<in>set turns. 0 \<le> e"
  shows "controller_idle (host_run b now
    (es @ [Stop] @ map (Finish 0) ends @ concat (map (\<lambda>(t, e). [Take t, Finish 0 e]) turns)))"
proof -
  define h where "h = stop_controller (host_run b now es)"
  define h1 where "h1 = foldl (host_step b) h (map (Finish 0) ends)"
  have h: "hc_running h = hc_running (host_run b now es)" "hc_tasks h = hc_tasks (host_run b now es)" "hc_stopping h"
    by (simp_all add: h_def stop_controller_def)
  have "host_ok b h" unfolding h_def using host_step_ok [OF assms(1) host_run_ok [OF assms(1), of now es], of Stop] by simp
  then have "host_ok b h1" unfolding h1_def by (rule steps_ok [OF assms(1)])
  moreover have "hc_running h1 = []" "hc_stopping h1" "hc_tasks h1 = hc_tasks h"
    using finish_running [of ends h b] assms h by (simp_all add: h1_def)
  moreover have "\<forall>(now, elapsed)\<in>set turns. 0 \<le> elapsed" using assms(6) by auto
  ultimately have "controller_idle (foldl (host_step b) h1 (concat (map (\<lambda>(now, elapsed). [Take now, Finish 0 elapsed]) turns)))"
    using stopped_drain [of b turns h1] assms h by simp
  then show ?thesis by (simp add: host_run_def h1_def h_def)
qed

theorem stopped_controller_drains_witness:
  "controller_idle (host_run sample_budget 0
     (sample_work @ [Stop] @ map (Finish 0) [4, 9] @ concat (map (\<lambda>(t, e). [Take t, Finish 0 e]) [(6, 1), (7, 0)])))"
proof (rule stopped_controller_drains [OF sample_budget_valid])
  show "0 < worker_count sample_budget" by (simp add: sample_budget_def)
  show "length [4, 9 :: int] = length (hc_running (host_run sample_budget 0 sample_work))"
    "length [(6 :: int, 1 :: int), (7, 0)] = length (hc_tasks (host_run sample_budget 0 sample_work))"
    using sample_run by (metis length_map length_Cons list.size(3))+
qed auto

end
