(* ===== verification/Shared_Region.thy ===== *)
theory Shared_Region
  imports Address_Space_Words
begin

text \<open>
  The shared region of a process (\<open>src/kernel/bsd/vm/shared_region.cpp\<close>): the calls of the dynamic
  linker that map the segments of a library at one slide, ask for the start of the region, and
  make it private by releasing what lies outside some ranges. Addresses of mappings and ranges are
  naturals, as the guards of the code keep every sum below \<open>2 ^ 33\<close>; guest addresses are words. Files
  of the host, the parsed generation of a dyld cache and the installation of replacements for
  library functions are functions in a record.
\<close>

section \<open>Constants and data\<close>

definition arm_mapping_size :: nat where "arm_mapping_size = 5 * 4"
definition mach_vm_mapping_size :: nat where "mach_vm_mapping_size = 3 * 8 + 2 * 4"
definition arm_shared_text_base :: nat where "arm_shared_text_base = 0x30000000"
definition arm_shared_data_base :: nat where "arm_shared_data_base = 0x38000000"
definition arm_shared_region_end :: nat where "arm_shared_region_end = 0x40000000"
definition arm_shared_half_size :: nat where "arm_shared_half_size = 0x08000000"
definition vm_protection_zero_fill :: u32 where "vm_protection_zero_fill = 0x10"
definition vm_protection_known :: u32 where "vm_protection_known = 1 OR 2 OR 4 OR 8 OR 0x10"
definition shared_region_range_size :: nat where "shared_region_range_size = 2 * 8"
definition maximum_mapping_count :: nat where "maximum_mapping_count = 2 * arm_shared_half_size div page_size"
definition maximum_range_count :: nat where
  "maximum_range_count = (arm_shared_region_end - arm_shared_text_base) div page_size"

definition error_no_memory :: u32 where "error_no_memory = 12"
definition error_bad_descriptor :: u32 where "error_bad_descriptor = 9"

record shared_mapping =
  sm_address :: nat
  sm_size :: nat
  sm_offset :: nat
  sm_maximum :: u32
  sm_initial :: u32

record shared_range =
  sr_address :: nat
  sr_end :: nat

datatype mapping_layout = Arm32_Words | Mach_Vm64

record cache_range =
  cr_address :: nat
  cr_size :: nat
  cr_offset :: nat

record cache_file =
  cf_path :: string
  cf_mappings :: "cache_range list"

record host_files =
  hf_read :: pread
  hf_probe :: file_probe
  hf_size :: "string \<Rightarrow> nat option"
  hf_cache :: "string \<Rightarrow> cache_file list option"
  hf_install :: "string \<Rightarrow> nat \<Rightarrow> nat \<Rightarrow> nat \<Rightarrow> bool \<Rightarrow> memory_world \<Rightarrow> memory_world"

definition add_overflows :: "nat \<Rightarrow> nat \<Rightarrow> bool" where
  "add_overflows l r \<longleftrightarrow> r > u32_max - l"

definition page_aligned :: "nat \<Rightarrow> bool" where
  "page_aligned v \<longleftrightarrow> v mod page_size = 0"

definition in_arm_shared_region :: "nat \<Rightarrow> nat \<Rightarrow> bool" where
  "in_arm_shared_region address bytes \<longleftrightarrow>
     (if bytes = 0 \<or> add_overflows address bytes then False
      else let fin = address + bytes in
        (address \<ge> arm_shared_text_base \<and> fin \<le> arm_shared_data_base) \<or>
        (address \<ge> arm_shared_data_base \<and> fin \<le> arm_shared_region_end))"

section \<open>Guest memory\<close>

definition space_read64 :: "pread \<Rightarrow> nat \<Rightarrow> u32 \<Rightarrow> memory_world \<Rightarrow> u64 option \<times> memory_world" where
  "space_read64 pread s a w =
     (case read_integer pread s (unat a) 8 perm_read w of None \<Rightarrow> (None, w) | Some (r, w') \<Rightarrow> (r, w'))"

definition space_write64 :: "pread \<Rightarrow> nat \<Rightarrow> u32 \<Rightarrow> u64 \<Rightarrow> memory_world \<Rightarrow> bool \<times> memory_world" where
  "space_write64 pread s a v w = write_integer pread s (unat a) 8 v w"

text \<open>Reads one after the other, each done whatever the others return.\<close>

fun read_each :: "(u32 \<Rightarrow> 'm \<Rightarrow> 'v option \<times> 'm) \<Rightarrow> u32 list \<Rightarrow> 'm \<Rightarrow> 'v option list \<times> 'm" where
  "read_each rd [] w = ([], w)"
| "read_each rd (a # as) w = (let (v, w1) = rd a w; (vs, w2) = read_each rd as w1 in (v # vs, w2))"

section \<open>Making the region private\<close>

text \<open>The ranges asked for, in the order of the guest; the error ends the loop.\<close>

fun read_ranges :: "pread \<Rightarrow> nat \<Rightarrow> u32 \<Rightarrow> nat list \<Rightarrow> shared_range list \<Rightarrow> memory_world \<Rightarrow> (u32 + shared_range list) \<times> memory_world" where
  "read_ranges pread s base [] ranges w = (Inr ranges, w)"
| "read_ranges pread s base (index # rest) ranges w =
     (let offset = index * shared_region_range_size in
      if offset > u32_max - unat base \<or> unat base + offset > u32_max - shared_region_range_size + 1
      then (Inl error_bad_address, w)
      else
        let address = base + of_nat offset;
            (range_address, w1) = space_read64 pread s address w;
            (range_size, w2) = space_read64 pread s (address + 8) w1
        in case (range_address, range_size) of
             (Some a, Some n) \<Rightarrow>
               if unat a > u32_max \<or> unat n > u32_max \<or> unat n = 0 \<or> \<not> page_aligned (unat a) \<or> \<not> page_aligned (unat n) \<or>
                  \<not> in_arm_shared_region (unat a) (unat n)
               then (Inl error_invalid_argument, w2)
               else read_ranges pread s base rest (ranges @ [\<lparr>sr_address = unat a, sr_end = unat a + unat n\<rparr>]) w2
           | _ \<Rightarrow> (Inl error_bad_address, w2))"

fun merge_range :: "shared_range list \<Rightarrow> shared_range \<Rightarrow> shared_range list" where
  "merge_range merged piece =
     (case rev merged of
        [] \<Rightarrow> [piece]
      | back # before \<Rightarrow>
          if sr_address piece \<le> sr_end back
          then rev before @ [back\<lparr>sr_end := max (sr_end back) (sr_end piece)\<rparr>]
          else merged @ [piece])"

definition merge_ranges :: "shared_range list \<Rightarrow> shared_range list" where
  "merge_ranges ranges = foldl merge_range [] (sort_key sr_address ranges)"

definition read_shared_region_ranges ::
    "pread \<Rightarrow> nat \<Rightarrow> u32 \<Rightarrow> u32 \<Rightarrow> memory_world \<Rightarrow> (u32 + shared_range list) \<times> memory_world" where
  "read_shared_region_ranges pread s range_count ranges_address w =
     (if unat range_count > maximum_range_count \<or> (range_count \<noteq> 0 \<and> ranges_address = 0)
      then (Inl error_invalid_argument, w)
      else case read_ranges pread s ranges_address [0..<unat range_count] [] w of
          (Inl e, w1) \<Rightarrow> (Inl e, w1)
        | (Inr ranges, w1) \<Rightarrow> (Inr (merge_ranges ranges), w1))"

text \<open>What of a mapped piece lies between the ranges to keep, and the position reached.\<close>

fun release_gaps :: "nat \<Rightarrow> nat \<Rightarrow> shared_range list \<Rightarrow> shared_range list \<times> nat" where
  "release_gaps position mapped_end [] = ([], position)"
| "release_gaps position mapped_end (k # keep) =
     (if \<not> sr_address k < mapped_end then ([], position)
      else
        let out = (if sr_address k > position then [\<lparr>sr_address = position, sr_end = min (sr_address k) mapped_end\<rparr>] else []);
            position' = max position (sr_end k)
        in if position' \<ge> mapped_end then (out, position')
           else let (rest, final) = release_gaps position' mapped_end keep in (out @ rest, final))"

function release_loop :: "vm_map \<Rightarrow> shared_range list \<Rightarrow> nat \<Rightarrow> shared_range list" where
  "release_loop m keep cursor =
     (if \<not> cursor < arm_shared_region_end then []
      else case region_at_or_after cursor m of
        None \<Rightarrow> []
      | Some region \<Rightarrow>
          let mapped_start = max cursor (max (mr_address region) arm_shared_text_base);
              mapped_end = min (mr_end region) arm_shared_region_end
          in if mapped_start \<ge> arm_shared_region_end then []
             else if mapped_end \<le> mapped_start then release_loop m keep (max (cursor + page_size) (mr_end region))
             else
               let keep' = dropWhile (\<lambda>k. sr_end k \<le> mapped_start) keep;
                   (out, position) = release_gaps mapped_start mapped_end keep'
               in out @ (if position < mapped_end then [\<lparr>sr_address = position, sr_end = mapped_end\<rparr>] else []) @
                  release_loop m keep' mapped_end)"
  by pat_completeness auto
termination
  by (relation "measure (\<lambda>(m, keep, cursor). arm_shared_region_end - cursor)") (auto simp: page_size_def)

declare release_loop.simps [simp del]

definition ranges_to_release :: "nat \<Rightarrow> shared_range list \<Rightarrow> memory_world \<Rightarrow> shared_range list" where
  "ranges_to_release s keep w = release_loop (vm_regions (space_of w s)) keep arm_shared_text_base"

definition shared_region_make_private :: "pread \<Rightarrow> nat \<Rightarrow> u32 \<Rightarrow> u32 \<Rightarrow> memory_world \<Rightarrow> call_result \<times> memory_world" where
  "shared_region_make_private pread s r0 r1 w =
     (case read_shared_region_ranges pread s r0 r1 w of
        (Inl e, w1) \<Rightarrow> (Failed e, w1)
      | (Inr keep, w1) \<Rightarrow>
          (Succeeded, fold (\<lambda>piece w. snd (as_unmap s (sr_address piece) (sr_end piece - sr_address piece) w))
             (ranges_to_release s keep w1) w1))"

section \<open>The start of the region\<close>

function step_search :: "(nat \<Rightarrow> bool) \<Rightarrow> nat \<Rightarrow> nat \<Rightarrow> nat option" where
  "step_search found cursor fin =
     (if \<not> cursor < fin then None
      else if found cursor then Some cursor
      else step_search found (cursor + page_size) fin)"
  by pat_completeness auto
termination
  by (relation "measure (\<lambda>(found, cursor, fin). fin - cursor)") (auto simp: page_size_def)

declare step_search.simps [simp del]

definition first_mapped_shared_region_page :: "nat \<Rightarrow> memory_world \<Rightarrow> nat option" where
  "first_mapped_shared_region_page s w =
     step_search (\<lambda>page. range_accessible s page page_size perm_none w) arm_shared_text_base arm_shared_region_end"

definition shared_region_check :: "pread \<Rightarrow> nat \<Rightarrow> u32 \<Rightarrow> memory_world \<Rightarrow> call_result \<times> memory_world" where
  "shared_region_check pread s r0 w =
     (case first_mapped_shared_region_page s w of
        None \<Rightarrow> (Failed error_no_memory, w)
      | Some start \<Rightarrow>
          (case space_write64 pread s r0 (of_nat start) w of
             (False, w1) \<Rightarrow> (Failed error_bad_address, w1)
           | (True, w1) \<Rightarrow> (Succeeded, w1)))"

section \<open>Mapping the segments of a library\<close>

definition protection_permissions :: "u32 \<Rightarrow> perm" where
  "protection_permissions protection =
     perm_or (if protection AND 1 \<noteq> 0 then perm_read else perm_none)
       (perm_or (if protection AND 2 \<noteq> 0 then perm_write else perm_none)
         (if protection AND 4 \<noteq> 0 then perm_execute else perm_none))"

definition read_mapping :: "pread \<Rightarrow> nat \<Rightarrow> u32 \<Rightarrow> nat \<Rightarrow> mapping_layout \<Rightarrow> memory_world \<Rightarrow> shared_mapping option \<times> memory_world" where
  "read_mapping pread s base index layout w =
     (let entry_size = (if layout = Arm32_Words then arm_mapping_size else mach_vm_mapping_size);
          offset = index * entry_size
      in if offset > u32_max - unat base then (None, w)
         else let address = base + of_nat offset in
           if layout = Arm32_Words then
             (case read_each (space_read32 pread s) [address, address + 4, address + 8, address + 12, address + 16] w of
                ([Some a, Some n, Some off, Some mx, Some ini], w1) \<Rightarrow>
                  (Some \<lparr>sm_address = unat a, sm_size = unat n, sm_offset = unat off, sm_maximum = mx, sm_initial = ini\<rparr>, w1)
              | (_, w1) \<Rightarrow> (None, w1))
           else
             let (wide, w1) = read_each (space_read64 pread s) [address, address + 8, address + 16] w;
                 (narrow, w2) = read_each (space_read32 pread s) [address + 24, address + 28] w1
             in case (wide, narrow) of
                  ([Some a, Some n, Some off], [Some mx, Some ini]) \<Rightarrow>
                    (if unat a > u32_max \<or> unat n > u32_max then None
                     else Some \<lparr>sm_address = unat a, sm_size = unat n, sm_offset = unat off, sm_maximum = mx, sm_initial = ini\<rparr>, w2)
                | _ \<Rightarrow> (None, w2))"

definition zero_fill :: "shared_mapping \<Rightarrow> bool" where
  "zero_fill m \<longleftrightarrow> sm_initial m AND vm_protection_zero_fill \<noteq> 0"

definition valid_mapping :: "shared_mapping \<Rightarrow> nat \<Rightarrow> bool" where
  "valid_mapping m file_size \<longleftrightarrow>
     in_arm_shared_region (sm_address m) (sm_size m) \<and> page_aligned (sm_address m) \<and> page_aligned (sm_offset m) \<and>
     sm_initial m AND NOT vm_protection_known = 0 \<and>
     sm_initial m AND NOT (sm_maximum m) AND (1 OR 2 OR 4) = 0 \<and>
     (zero_fill m \<or> (sm_offset m \<le> file_size \<and> sm_size m \<le> file_size - sm_offset m))"

fun read_mappings_from :: "pread \<Rightarrow> nat \<Rightarrow> u32 \<Rightarrow> nat \<Rightarrow> mapping_layout \<Rightarrow> nat list \<Rightarrow> shared_mapping list \<Rightarrow> memory_world \<Rightarrow>
    shared_mapping list option \<times> memory_world" where
  "read_mappings_from pread s base file_size layout [] ms w = (Some ms, w)"
| "read_mappings_from pread s base file_size layout (index # rest) ms w =
     (case read_mapping pread s base index layout w of
        (Some m, w1) \<Rightarrow>
          if valid_mapping m file_size then read_mappings_from pread s base file_size layout rest (ms @ [m]) w1 else (None, w1)
      | (None, w1) \<Rightarrow> (None, w1))"

definition read_mappings :: "pread \<Rightarrow> nat \<Rightarrow> u32 \<Rightarrow> u32 \<Rightarrow> nat \<Rightarrow> mapping_layout \<Rightarrow> memory_world \<Rightarrow> shared_mapping list option \<times> memory_world" where
  "read_mappings pread s address count file_size layout w =
     read_mappings_from pread s address file_size layout [0..<unat count] [] w"

definition mappings_fit :: "nat \<Rightarrow> shared_mapping list \<Rightarrow> memory_world \<Rightarrow> nat \<Rightarrow> bool" where
  "mappings_fit s ms w slide \<longleftrightarrow>
     list_all (\<lambda>m. \<not> add_overflows (sm_address m) slide \<and>
       (let address = sm_address m + slide in
        in_arm_shared_region address (sm_size m) \<and> \<not> range_accessible s address (sm_size m) perm_none w)) ms"

definition choose_slide :: "nat \<Rightarrow> shared_mapping list \<Rightarrow> bool \<Rightarrow> memory_world \<Rightarrow> nat option" where
  "choose_slide s ms may_slide w =
     (if mappings_fit s ms w 0 then Some 0
      else if \<not> may_slide \<or> ms = [] then None
      else step_search (mappings_fit s ms w) page_size arm_shared_half_size)"

text \<open>The file and the offset that hold a mapping: of a split cache, those of the first subcache
  whose mapping contains it.\<close>

definition range_holds :: "shared_mapping \<Rightarrow> cache_range \<Rightarrow> bool" where
  "range_holds m r \<longleftrightarrow>
     \<not> (sm_address m < cr_address r \<or> sm_address m - cr_address r > cr_size r \<or>
        sm_size m > cr_size r - (sm_address m - cr_address r) \<or> sm_offset m < cr_offset r \<or>
        sm_offset m - cr_offset r > cr_size r \<or> sm_size m > cr_size r - (sm_offset m - cr_offset r))"

definition mapping_source :: "host_files \<Rightarrow> string \<Rightarrow> cache_file list option \<Rightarrow> shared_mapping \<Rightarrow> (string \<times> nat) option" where
  "mapping_source files path shared_cache m =
     (case shared_cache of
        None \<Rightarrow> Some (path, sm_offset m)
      | Some cache \<Rightarrow>
          (case find (\<lambda>f. list_ex (range_holds m) (cf_mappings f)) cache of
             None \<Rightarrow> None
           | Some f \<Rightarrow>
               (case hf_size files (cf_path f) of
                  None \<Rightarrow> None
                | Some available \<Rightarrow>
                    if sm_offset m > available \<or> sm_size m > available - sm_offset m then None
                    else Some (cf_path f, sm_offset m))))"

definition rollback :: "nat \<Rightarrow> (nat \<times> nat) list \<Rightarrow> memory_world \<Rightarrow> memory_world" where
  "rollback s applied w = fold (\<lambda>(address, n) w. snd (as_unmap s address n w)) (rev applied) w"

text \<open>The loop that maps; on an error the mappings applied so far are taken back.\<close>

fun apply_mappings :: "host_files \<Rightarrow> nat \<Rightarrow> string \<Rightarrow> cache_file list option \<Rightarrow> nat \<Rightarrow> shared_mapping list \<Rightarrow> (nat \<times> nat) list \<Rightarrow>
    memory_world \<Rightarrow> (u32 + (nat \<times> nat) list) \<times> memory_world" where
  "apply_mappings files s path cache slide [] applied w = (Inr applied, w)"
| "apply_mappings files s path cache slide (m # ms) applied w =
     (let address = sm_address m + slide;
          permissions = protection_permissions (sm_initial m);
          source = (if zero_fill m then None else mapping_source files path cache m)
      in if \<not> zero_fill m \<and> source = None then (Inl error_invalid_argument, rollback s applied w)
         else
           let (mapped, w1) =
                 (if zero_fill m then as_map s address (sm_size m) permissions w
                  else map_file (hf_probe files) s address (sm_size m) permissions (fst (the source)) (snd (the source)) w)
           in if \<not> mapped then (Inl (if zero_fill m then error_no_memory else error_invalid_argument), rollback s applied w1)
              else
                let w2 = (if slide = 0 \<and> has_permission permissions perm_execute
                          then mark_translation_profile_stable s address (sm_size m) w1 else w1)
                in apply_mappings files s path cache slide ms (applied @ [(address, sm_size m)]) w2)"

definition install_images :: "host_files \<Rightarrow> string \<Rightarrow> cache_file list option \<Rightarrow> nat \<Rightarrow> shared_mapping list \<Rightarrow> memory_world \<Rightarrow> memory_world" where
  "install_images files path cache slide ms w =
     fold (\<lambda>m w. if zero_fill m then w
        else case mapping_source files path cache m of
          None \<Rightarrow> w
        | Some (source, offset) \<Rightarrow> hf_install files source (sm_address m + slide) (sm_size m) offset (cache \<noteq> None) w) ms w"

text \<open>\<open>descriptor\<close> is the path of the open file of \<open>r0\<close>, duplicates resolved.\<close>

definition shared_region_map :: "host_files \<Rightarrow> nat \<Rightarrow> string option \<Rightarrow> u32 \<Rightarrow> u32 \<Rightarrow> u32 \<Rightarrow> memory_world \<Rightarrow> call_result \<times> memory_world" where
  "shared_region_map files s descriptor mapping_count mappings_address slide_address w =
     (case descriptor of
        None \<Rightarrow> (Failed error_bad_descriptor, w)
      | Some path \<Rightarrow>
      if mapping_count = 0 then
        (if slide_address = 0 then (Succeeded, w)
         else case space_write64 (hf_read files) s slide_address 0 w of
             (False, w1) \<Rightarrow> (Failed error_bad_address, w1)
           | (True, w1) \<Rightarrow> (Succeeded, w1))
      else if unat mapping_count > maximum_mapping_count \<or> mappings_address = 0 then (Failed error_invalid_argument, w)
      else case hf_size files path of
        None \<Rightarrow> (Failed error_invalid_argument, w)
      | Some file_size \<Rightarrow>
          let cache = hf_cache files path;
              bound = (if cache = None then file_size else u64_max);
              (first, w1) = read_mappings (hf_read files) s mappings_address mapping_count bound Arm32_Words w;
              (mappings, w2) = (if first = None
                then read_mappings (hf_read files) s mappings_address mapping_count bound Mach_Vm64 w1 else (first, w1))
          in case mappings of
               None \<Rightarrow> (Failed error_invalid_argument, w2)
             | Some ms \<Rightarrow>
                 (case choose_slide s ms (slide_address \<noteq> 0) w2 of
                    None \<Rightarrow> (Failed error_no_memory, w2)
                  | Some slide \<Rightarrow>
                      (case apply_mappings files s path cache slide ms [] w2 of
                         (Inl e, w3) \<Rightarrow> (Failed e, w3)
                       | (Inr applied, w3) \<Rightarrow>
                           let (written, w4) = (if slide_address = 0 then (True, w3)
                                 else space_write64 (hf_read files) s slide_address (of_nat slide) w3)
                           in if \<not> written then (Failed error_bad_address, rollback s applied w4)
                              else (Succeeded, install_images files path cache slide ms w4))))"

definition dispatch_shared_region :: "host_files \<Rightarrow> nat \<Rightarrow> string option \<Rightarrow> u32 \<Rightarrow> u32 \<Rightarrow> u32 \<Rightarrow> u32 \<Rightarrow> u32 \<Rightarrow> memory_world \<Rightarrow> call_result \<times> memory_world" where
  "dispatch_shared_region files s descriptor number r0 r1 r2 r3 w =
     (if number = 294 then shared_region_check (hf_read files) s r0 w
      else if number = 300 then shared_region_make_private (hf_read files) s r0 r1 w
      else if number \<noteq> 299 \<and> number \<noteq> 295 then (Not_Handled, w)
      else shared_region_map files s descriptor r1 r2 (if number = 299 then r3 else 0) w)"

end
