(* ===== verification/Address_Space_Regions.thy ===== *)
theory Address_Space_Regions
  imports Address_Space_Words
begin

text \<open>
  What mapping, unmapping and reading do to the regions of the spaces, byte by byte: the facts that
  the calls of the kernel which place and remove mappings rest on.
\<close>

definition regions_at :: "nat \<Rightarrow> memory_world \<Rightarrow> nat \<Rightarrow> perm option" where
  "regions_at t w x = perm_at (vm_regions (space_of w t)) x"

definition page_span :: "nat \<Rightarrow> nat \<Rightarrow> nat set" where
  "page_span a n = {page_base a..<page_range_end a n}"

text \<open>A change of one space that leaves the regions of the others, and the set of spaces, alone.\<close>

definition remaps :: "nat \<Rightarrow> (nat \<Rightarrow> perm option) \<Rightarrow> memory_world \<Rightarrow> memory_world \<Rightarrow> bool" where
  "remaps s f w w' \<longleftrightarrow> world_ok w' \<and> live w' = live w \<and> regions_at s w' = f \<and> (\<forall>t. t \<noteq> s \<longrightarrow> regions_at t w' = regions_at t w)"

lemma remapsD:
  assumes "remaps s f w w'"
  shows "world_ok w'" "live w' = live w" "regions_at s w' x = f x" "t \<noteq> s \<Longrightarrow> regions_at t w' = regions_at t w"
  using assms by (simp_all add: remaps_def)

lemma remaps_refl: "world_ok w \<Longrightarrow> remaps s (regions_at s w) w w"
  by (simp add: remaps_def)

lemma remaps_trans: "remaps s f a b \<Longrightarrow> remaps s g b c \<Longrightarrow> remaps s g a c"
  by (simp add: remaps_def)

lemma remaps_cong: "remaps s f w w' \<Longrightarrow> (\<And>x. f x = g x) \<Longrightarrow> remaps s g w w'"
  by (simp add: remaps_def fun_eq_iff)

lemma keeps_remaps: "world_ok w \<Longrightarrow> keeps_tables w w' \<Longrightarrow> remaps s (regions_at s w) w w'"
  using keeps_world [of w w'] by (auto simp: remaps_def keeps_tables_def regions_at_def same_view_def)

lemma view_regions: "same_view w w' \<Longrightarrow> regions_at t w' = regions_at t w"
  by (simp add: same_view_def regions_at_def fun_eq_iff)

lemma put_permissions_regions:
  "(\<And>b w. vm_regions (space_of (h b w) t) = vm_regions (space_of w t)) \<Longrightarrow>
   vm_regions (space_of (fold h bs w) t) = vm_regions (space_of w t)"
  by (induction bs arbitrary: w) simp_all

lemma clear_permissions_regions: "vm_regions (space_of (clear_page_permissions s a fin w) t) = vm_regions (space_of w t)"
  unfolding clear_page_permissions_def by (rule put_permissions_regions) (simp add: put_permission_regions)

lemma unmap_range_regions:
  "vm_regions (space_of (unmap_range s a fin w) t) =
     (if t = s then unmap a fin (vm_regions (space_of w s)) else vm_regions (space_of w t))"
proof -
  have "vm_regions (space_of (refresh_jit_page_range s a fin v) t) = vm_regions (space_of v t)" for v
    using refresh_range_view [of v s a fin] by (simp add: same_view_def)
  moreover have "vm_regions (space_of (erase_pages s a fin (ensure_unique_page_map s v)) t) = vm_regions (space_of v t)" for v t
    using same_view_trans [OF ensure_unique_view [of v s] erase_pages_view [of _ s a fin]] by (simp add: same_view_def)
  moreover have "vm_regions (space_of (flush_shared_file_pages s a fin w) t) = vm_regions (space_of w t)" for t
    by (simp add: flush_shared_file_pages_def)
  ultimately show ?thesis by (simp add: unmap_range_def Let_def clear_permissions_regions)
qed

lemma as_unmap_remaps:
  assumes ok: "world_ok w" and s: "s \<in> set (live w)" and a: "a < 2 ^ 32" and n: "n \<noteq> 0" "\<not> range_overflows a n"
  shows "fst (as_unmap s a n w)" "remaps s (\<lambda>x. if x \<in> page_span a n then None else regions_at s w x) w (snd (as_unmap s a n w))"
proof -
  show "fst (as_unmap s a n w)" using n by (simp add: as_unmap_def Let_def)
  define w1 where "w1 = set_space s (invalidate_mapping_leases (page_base a) (page_range_end a n) (space_of w s)) w"
  have w1: "vm_regions (space_of w1 t) = vm_regions (space_of w t)" for t by (simp add: w1_def)
  have eq: "snd (as_unmap s a n w) = unmap_range s (page_base a) (page_range_end a n) w1"
    using n by (simp add: as_unmap_def Let_def w1_def)
  note us = unmap_spec [OF region_regs [OF ok s], of "page_base a" "page_range_end a n"]
  have "live (snd (as_unmap s a n w)) = live w"
    using confined_inv [OF as_unmap_confined [OF world_okD(1) [OF ok] s]] by simp
  then show "remaps s (\<lambda>x. if x \<in> page_span a n then None else regions_at s w x) w (snd (as_unmap s a n w))"
    using as_unmap_world [OF ok s a, of n] us page_range(5) [OF n a]
    by (simp add: remaps_def regions_at_def eq unmap_range_regions w1 fun_eq_iff page_span_def)
qed

lemma as_map_remaps:
  assumes ok: "world_ok w" and s: "s \<in> set (live w)" and a: "a < 2 ^ 32" and n: "n \<noteq> 0" "\<not> range_overflows a n"
  shows "fst (as_map s a n p w)"
    "remaps s (\<lambda>x. if x \<in> page_span a n then Some (or_perm p (regions_at s w x)) else regions_at s w x) w (snd (as_map s a n p w))"
proof -
  show "fst (as_map s a n p w)" using n by (simp add: as_map_def Let_def)
  have other: "vm_regions (space_of (snd (as_map s a n p w)) t) = vm_regions (space_of w t)" if "t \<noteq> s" for t
  proof -
    have "vm_regions (space_of (refresh_jit_page_range s b e v) t) = vm_regions (space_of v t)" for b e v
      using refresh_range_view [of v s b e] by (simp add: same_view_def)
    then show ?thesis using n that by (simp add: as_map_def Let_def add_permissions_regions)
  qed
  have "live (snd (as_map s a n p w)) = live w"
    using confined_inv [OF as_map_confined [OF world_okD(1) [OF ok]]] by simp
  moreover note vm_map_or_spec(2) [OF region_regs [OF ok s] page_range(5) [OF n a], of p]
  ultimately show "remaps s (\<lambda>x. if x \<in> page_span a n then Some (or_perm p (regions_at s w x)) else regions_at s w x) w (snd (as_map s a n p w))"
    using as_map_world [OF ok s a, of n p] other
    by (simp add: remaps_def regions_at_def as_map_regions [OF n] fun_eq_iff page_span_def)
qed

lemma map_file_remaps:
  assumes ok: "world_ok w" and s: "s \<in> set (live w)" and a: "a < 2 ^ 32" and r: "map_file probe s a n p path off w = (b, w')"
  shows "remaps s (if b then \<lambda>x. if x \<in> page_span a n then Some (or_perm p (regions_at s w x)) else regions_at s w x
      else regions_at s w) w w'"
    "b \<Longrightarrow> n \<noteq> 0 \<and> \<not> range_overflows a n \<and> a mod page_size = 0 \<and> (\<forall>x\<in>page_span a n. regions_at s w x = None)"
proof -
  have w': "world_ok w'" using map_file_world [OF ok s a, of probe n p path off] r by simp
  have l: "live w' = live w"
    using confined_inv [OF map_file_confined [OF world_okD(1) [OF ok] s]] r by (metis snd_conv)
  define c where "c = cache_ref (space_of w s)"
  obtain found cache st where o: "open_mapping probe path off n (cache_of w c, store w) = (found, cache, st)"
    by (metis prod_cases3)
  define w1 where "w1 = w\<lparr>cache_of := (cache_of w)(c := cache), store := st\<rparr>"
  have sw: "space_of w1 = space_of w" by (simp add: w1_def)
  define fin where "fin = page_range_end a n"
  define sp where "sp = invalidate_mapping_leases a fin (space_of w s)"
  define f where "f = the found"
  define sp1 where "sp1 = sp\<lparr>file_mappings := om_emplace a \<lparr>fm_end = fin, fm_offset = off, fm_backing = f\<rparr> (file_mappings sp)\<rparr>"
  define w2 where "w2 = set_space s (sp1\<lparr>vm_regions := vm_map_or a fin p (vm_regions sp1)\<rparr>) w1"
  define bad where "bad \<longleftrightarrow> n = 0 \<or> range_overflows a n \<or> a mod page_size \<noteq> 0 \<or> off mod page_size \<noteq> 0"
  have eq: "(b, w') = (if bad then (False, w) else if found = None then (False, w1)
      else if overlaps a fin (vm_regions (space_of w s)) then (False, w1)
      else if map_of (file_mappings sp) a \<noteq> None then (False, set_space s sp1 w1)
      else (True, add_page_permissions s a fin p w2))"
    unfolding r [symmetric] using o
    by (cases found) (auto simp: map_file_def Let_def c_def [symmetric] w1_def [symmetric] sw fin_def [symmetric]
        sp_def [symmetric] sp1_def w2_def bad_def f_def)
  have same: "regions_at t w1 = regions_at t w" "regions_at t (set_space s sp1 w1) = regions_at t w" for t
    by (simp_all add: regions_at_def fun_eq_iff sw sp1_def sp_def)
  have success: "b \<Longrightarrow> \<not> bad \<and> \<not> overlaps a fin (vm_regions (space_of w s)) \<and> w' = add_page_permissions s a fin p w2"
    using eq by (simp split: if_splits)
  have failure: "\<not> b \<Longrightarrow> w' = w \<or> w' = w1 \<or> w' = set_space s sp1 w1" using eq by (simp split: if_splits)
  have n: "n \<noteq> 0" "\<not> range_overflows a n" "a mod page_size = 0" if b using success [OF that] by (simp_all add: bad_def)
  have val: "valid_range a fin" if b
    using page_range(5) [OF n(1,2) a] n(3) that by (simp add: fin_def page_base_aligned)
  have "chain 0 (vm_regions (space_of w s))" using region_regs [OF ok s] by (simp add: vm_inv_def)
  then have free: "\<forall>x\<in>page_span a n. regions_at s w x = None" if b
    using success [OF that] val [OF that] n(3) [OF that] overlaps_spec [of "vm_regions (space_of w s)" a fin]
    by (auto simp: page_span_def regions_at_def fin_def page_base_aligned)
  show "b \<Longrightarrow> n \<noteq> 0 \<and> \<not> range_overflows a n \<and> a mod page_size = 0 \<and> (\<forall>x\<in>page_span a n. regions_at s w x = None)"
    using n free by blast
  show "remaps s (if b then \<lambda>x. if x \<in> page_span a n then Some (or_perm p (regions_at s w x)) else regions_at s w x
      else regions_at s w) w w'"
  proof (cases b)
    case False
    then show ?thesis using failure w' l same by (auto simp: remaps_def)
  next
    case True
    have "vm_regions (space_of w' t) = (if t = s then vm_map_or a fin p (vm_regions (space_of w s)) else vm_regions (space_of w t))" for t
      using success [OF True] by (simp add: add_permissions_regions w2_def sp1_def sp_def sw)
    then show ?thesis
      using True w' l n vm_map_or_spec(2) [OF region_regs [OF ok s] val [OF True], of p]
      by (simp add: remaps_def regions_at_def fun_eq_iff page_span_def fin_def page_base_aligned)
  qed
qed

section \<open>Writes of words\<close>

lemma write_integer_keeps:
  assumes ok: "world_ok w" and s: "s \<in> set (live w)" and n: "n \<le> page_size"
  shows "keeps_tables w (snd (write_integer pread s a n v w))"
proof (cases "fst (write_integer pread s a n v w)")
  case True
  then have "write_integer pread s a n v w = (True, snd (write_integer pread s a n v w))" by (metis prod.collapse)
  from write_integer_wrote(1) [OF world_okD(1) [OF ok] s n this] show ?thesis by (rule wrote_keeps)
next
  case False
  then have "snd (write_integer pread s a n v w) = w" by (simp add: write_integer_def split: if_splits)
  then show ?thesis using keeps_tables_refl [OF world_okD(1) [OF ok]] by simp
qed

section \<open>Mapped pages\<close>

text \<open>The pages of a space are mapped as a whole.\<close>

lemma mapped_by_page:
  assumes ok: "world_ok w" and s: "s \<in> set (live w)" and a: "a < 2 ^ 32" "b < 2 ^ 32" and page: "a div page_size = b div page_size"
  shows "regions_at s w a = None \<longleftrightarrow> regions_at s w b = None"
proof -
  have "flags_of (regions_at s w a) = flags_of (regions_at s w b)"
    using index_ofD(2) [OF index_okD(2) [OF world_okD(2) [OF ok] s]] a page unfolding regions_at_def by metis
  moreover have "mapped_page_flag OR q \<noteq> 0" for q by (simp add: mapped_page_flag_def or_eq_0_iff)
  ultimately show ?thesis by (auto simp: flags_of_def split: option.splits)
qed

end
