(* ===== verification/Address_Space_Files.thy ===== *)
theory Address_Space_Files
  imports Address_Space_Regions
begin

text \<open>
  The file mappings of a space: no two of them overlap and each lies in mapped memory, in every
  reachable world; so unmapping a range takes out exactly the pages of the range, and every other
  page keeps the place in its file that it would be read from.
\<close>

section \<open>Mappings that do not overlap\<close>

definition file_span :: "nat \<times> file_mapping \<Rightarrow> nat set" where
  "file_span e = {fst e..<fm_end (snd e)}"

definition files_apart :: "(nat, file_mapping) omap \<Rightarrow> bool" where
  "files_apart fm \<longleftrightarrow> om_wf fm \<and> files_ok fm \<and> (\<forall>e\<in>set fm. \<forall>e'\<in>set fm. file_span e \<inter> file_span e' \<noteq> {} \<longrightarrow> e = e')"

lemma files_apartD:
  assumes "files_apart fm"
  shows "om_wf fm" "files_ok fm" "e \<in> set fm \<Longrightarrow> e' \<in> set fm \<Longrightarrow> x \<in> file_span e \<Longrightarrow> x \<in> file_span e' \<Longrightarrow> e = e'"
    "e \<in> set fm \<Longrightarrow> fst e < fm_end (snd e)" "e \<in> set fm \<Longrightarrow> fst e mod page_size = 0 \<and> fm_end (snd e) mod page_size = 0"
  using assms by (auto simp: files_apart_def files_ok_def mapping_ok_def Let_def case_prod_beta)

lemma om_before_upper_filter: "om_wf m \<Longrightarrow> om_before_upper k m = filter (\<lambda>e. fst e \<le> k) m"
proof (induction m)
  case (Cons e m)
  show ?case
  proof (cases "fst e \<le> k")
    case True
    then show ?thesis using Cons by (simp add: om_before_upper_def om_wf_Cons)
  next
    case False
    then have "filter (\<lambda>e. fst e \<le> k) m = []" using Cons.prems by (auto simp: filter_empty_conv om_wf_Cons)
    then show ?thesis using False by (simp add: om_before_upper_def)
  qed
qed (simp add: om_before_upper_def)

text \<open>With mappings apart, the lookup of the code finds the mapping that covers the address.\<close>

lemma find_covering:
  assumes ap: "files_apart (file_mappings (space_of w s))"
  shows "find_file_mapping s x w = Some e \<longleftrightarrow> e \<in> set (file_mappings (space_of w s)) \<and> x \<in> file_span e"
proof
  assume "find_file_mapping s x w = Some e"
  then show "e \<in> set (file_mappings (space_of w s)) \<and> x \<in> file_span e"
    using find_file_mapping_mem [of s x w "fst e" "snd e"] by (simp add: file_span_def)
next
  let ?fm = "file_mappings (space_of w s)"
  assume e: "e \<in> set ?fm \<and> x \<in> file_span e"
  note wf = files_apartD(1) [OF ap]
  have "e \<in> set (om_before_upper x ?fm)" using e by (simp add: om_before_upper_filter [OF wf] file_span_def)
  then obtain es l where es: "om_before_upper x ?fm = es @ [l]" by (metis append_butlast_last_id length_pos_if_in_set length_greater_0_conv)
  have "l \<in> set (om_before_upper x ?fm)" using es by simp
  then have l: "l \<in> set ?fm" "fst l \<le> x" by (simp_all add: om_before_upper_filter [OF wf])
  have "e = l"
  proof (rule ccontr)
    assume ne: "e \<noteq> l"
    then have "e \<in> set es" using \<open>e \<in> set (om_before_upper x ?fm)\<close> es by auto
    moreover have "sorted_wrt (\<lambda>a b. fst a < fst b) (es @ [l])"
      using wf unfolding es [symmetric] om_before_upper_filter [OF wf] om_wf_def by (rule sorted_wrt_filter)
    ultimately have "fst e < fst l" by (simp add: sorted_wrt_append)
    then have "fst l \<in> file_span e" "fst l \<in> file_span l" using e l(2) files_apartD(4) [OF ap l(1)] by (simp_all add: file_span_def)
    then show False using files_apartD(3) [OF ap _ l(1)] e ne by blast
  qed
  then show "find_file_mapping s x w = Some e" using es e by (simp add: find_file_mapping_def file_span_def prod.case_eq_if)
qed

section \<open>Unmapping a range\<close>

lemma emplace_new_set:
  "om_wf m \<Longrightarrow> k \<notin> fst ` set m \<Longrightarrow> set (om_emplace k v m) = insert (k, v) (set m)"
  by (auto simp: om_emplace_def om_put_set map_of_eq_None_iff)

lemma emplace_all_set:
  assumes "om_wf m" "distinct (map fst ps)" "fst ` set ps \<inter> fst ` set m = {}"
  shows "set (fold (\<lambda>(k, v). om_emplace k v) ps m) = set ps \<union> set m \<and> om_wf (fold (\<lambda>(k, v). om_emplace k v) ps m)"
  using assms
proof (induction ps arbitrary: m)
  case (Cons p ps)
  obtain k v where p: "p = (k, v)" by (cases p)
  have k: "k \<notin> fst ` set m" using Cons.prems(3) by (simp add: p)
  have "fst ` set ps \<inter> fst ` set (om_emplace k v m) = {}"
    using Cons.prems(2,3) by (auto simp: emplace_new_set [OF Cons.prems(1) k] p)
  from Cons.IH [OF om_emplace_wf [OF Cons.prems(1)] _ this] Cons.prems(2)
  show ?case by (simp add: p emplace_new_set [OF Cons.prems(1) k])
qed simp

text \<open>The mappings after: those outside the range, and what is left of those it cuts.\<close>

definition cut_spans :: "nat \<Rightarrow> nat \<Rightarrow> (nat, file_mapping) omap \<Rightarrow> (nat \<times> file_mapping) set" where
  "cut_spans a fin fm = {e \<in> set fm. fm_end (snd e) \<le> a \<or> fin \<le> fst e} \<union>
     (\<Union>e\<in>{e \<in> set fm. a < fm_end (snd e) \<and> fst e < fin}. set (cut_file_mapping a fin e))"


lemma cut_keys: "e' \<in> set (cut_file_mapping a fin e) \<Longrightarrow> fst e' = fst e \<and> fst e < a \<or> fst e' = fin \<and> fin < fm_end (snd e)"
  by (auto simp: cut_file_mapping_def Let_def case_prod_beta split: if_splits)

lemma cut_distinct:
  assumes "distinct (map fst cs)" "a < fin" "\<forall>e\<in>set cs. \<forall>e'\<in>set cs. fin < fm_end (snd e) \<and> fin < fm_end (snd e') \<longrightarrow> e = e'"
  shows "distinct (map fst (concat (map (cut_file_mapping a fin) cs)))"
  using assms
proof (induction cs)
  case (Cons e cs)
  have one: "distinct (map fst (cut_file_mapping a fin e))"
    using Cons.prems(2) by (auto simp: cut_file_mapping_def Let_def case_prod_beta)
  have new: "e \<notin> set cs" "fst e \<notin> fst ` set cs" using Cons.prems(1) by auto
  have "fst x \<noteq> fst y" if x: "x \<in> set (cut_file_mapping a fin e)" and y: "y \<in> set (cut_file_mapping a fin c)" "c \<in> set cs" for x y c
  proof
    assume eq: "fst x = fst y"
    have "fst c \<noteq> fst e" using new(2) y(2) by (metis imageI)
    then have "fin < fm_end (snd e)" "fin < fm_end (snd c)" using cut_keys [OF x] cut_keys [OF y(1)] eq Cons.prems(2) by auto
    then show False using Cons.prems(3) y(2) new(1) by auto
  qed
  then have "fst ` set (cut_file_mapping a fin e) \<inter> fst ` set (concat (map (cut_file_mapping a fin) cs)) = {}" by fastforce
  then show ?case using one Cons.IH Cons.prems by simp
qed simp

lemma unmap_files_set:
  assumes ap: "files_apart fm" and lt: "a < fin"
  shows "set (unmap_file_mappings a fin fm) = cut_spans a fin fm" "om_wf (unmap_file_mappings a fin fm)"
proof -
  note wf = files_apartD(1) [OF ap] and pos = files_apartD(4) [OF ap]
  define before where "before = om_before_lower a fm"
  define after where "after = om_lower a fm"
  have fm: "fm = before @ after" by (simp add: before_def after_def om_split_lower)
  have below: "\<forall>e\<in>set before. fst e < a" by (auto simp: before_def om_before_lower_def dest: set_takeWhileD)
  have sorted: "sorted_wrt (\<lambda>a b. fst a < fst b) (before @ after)" using wf by (simp add: om_wf_def fm)
  define r where "r = (case rev before of [] \<Rightarrow> ([], after)
     | previous # earlier \<Rightarrow> if fm_end (snd previous) > a then (rev earlier, previous # after) else (before, after))"
  have r: "fst r @ snd r = fm \<and> (\<forall>e\<in>set (fst r). fm_end (snd e) \<le> a)"
  proof (cases "rev before")
    case Nil
    then show ?thesis by (simp add: r_def fm)
  next
    case (Cons previous earlier)
    then have b: "before = rev earlier @ [previous]" by (metis rev.simps(2) rev_rev_ident)
    have "fm_end (snd e) \<le> a" if e: "e \<in> set earlier" for e
    proof (rule ccontr)
      assume "\<not> fm_end (snd e) \<le> a"
      moreover have "fst e < fst previous" "fst previous < a" using sorted below e by (auto simp: b sorted_wrt_append)
      moreover have "fst previous < fm_end (snd previous)" by (rule pos) (simp add: fm b)
      ultimately have "fst previous \<in> file_span e" "fst previous \<in> file_span previous" by (simp_all add: file_span_def)
      then have "e = previous" using files_apartD(3) [OF ap] e by (auto simp: fm b)
      then show False using \<open>fst e < fst previous\<close> by simp
    qed
    then show ?thesis using Cons by (auto simp: r_def fm b)
  qed
  define hit where "hit = takeWhile (\<lambda>e. fst e < fin) (snd r)"
  define cut where "cut = filter (\<lambda>e. \<not> fm_end (snd e) \<le> a) hit"
  define rest where "rest = fst r @ filter (\<lambda>e. fm_end (snd e) \<le> a) hit @ dropWhile (\<lambda>e. fst e < fin) (snd r)"
  have eq: "unmap_file_mappings a fin fm = fold (\<lambda>(start, piece). om_emplace start piece) (concat (map (cut_file_mapping a fin) cut)) rest"
    unfolding unmap_file_mappings_def Let_def r_def before_def after_def case_prod_beta hit_def cut_def rest_def by (rule refl)
  have wr: "om_wf (snd r)" using wf r by (metis om_wf_def sorted_wrt_append)
  have low: "set (dropWhile (\<lambda>e. fst e < fin) (snd r)) = {e \<in> set (snd r). fin \<le> fst e}"
    using om_lower_wf [OF wr, of fin] by (simp add: om_lower_def)
  have hit: "set hit = {e \<in> set (snd r). fst e < fin}"
  proof -
    have "set (snd r) = set hit \<union> set (dropWhile (\<lambda>e. fst e < fin) (snd r))"
      unfolding hit_def by (metis set_append takeWhile_dropWhile_id)
    moreover have "\<forall>e\<in>set hit. fst e < fin" by (auto simp: hit_def dest: set_takeWhileD)
    ultimately show ?thesis unfolding low by (intro set_eqI) (metis (mono_tags, lifting) UnE UnI1 mem_Collect_eq not_le)
  qed
  have sr: "set fm = set (fst r) \<union> set (snd r)" using r by (metis set_append)
  have rest: "set rest = {e \<in> set fm. fm_end (snd e) \<le> a \<or> fin \<le> fst e}"
  proof -
    have "fst e < fin" if "e \<in> set fm" "fm_end (snd e) \<le> a" for e using pos [OF that(1)] that(2) lt by linarith
    moreover have "set rest = set (fst r) \<union> {e \<in> set (snd r). fst e < fin \<and> fm_end (snd e) \<le> a} \<union> {e \<in> set (snd r). fin \<le> fst e}"
      using hit low by (auto simp: rest_def)
    ultimately show ?thesis using r sr by blast
  qed
  have cuts: "set cut = {e \<in> set fm. a < fm_end (snd e) \<and> fst e < fin}"
  proof -
    have "set cut = {e \<in> set (snd r). fst e < fin \<and> a < fm_end (snd e)}" using hit by (auto simp: cut_def)
    then show ?thesis using r sr by fastforce
  qed
  have "om_wf rest"
  proof -
    have "om_wf (fst r @ hit @ dropWhile (\<lambda>e. fst e < fin) (snd r))" using wf r by (simp add: hit_def)
    then show ?thesis by (auto simp: rest_def om_wf_def sorted_wrt_append sorted_wrt_filter)
  qed
  moreover have "distinct (map fst (concat (map (cut_file_mapping a fin) cut)))"
  proof (rule cut_distinct [OF _ lt])
    have "om_wf cut" using wr by (simp add: cut_def hit_def om_wf_def sorted_wrt_filter sorted_wrt_takeWhile)
    then show "distinct (map fst cut)" by (rule om_wf_distinct)
    show "\<forall>e\<in>set cut. \<forall>e'\<in>set cut. fin < fm_end (snd e) \<and> fin < fm_end (snd e') \<longrightarrow> e = e'"
    proof (intro ballI impI)
      fix e e' assume "e \<in> set cut" "e' \<in> set cut" and over: "fin < fm_end (snd e) \<and> fin < fm_end (snd e')"
      then have e: "e \<in> set fm" "e' \<in> set fm" "fst e < fin" "fst e' < fin" by (auto simp: cuts)
      then have "fin \<in> file_span e" "fin \<in> file_span e'" using over by (simp_all add: file_span_def)
      then show "e = e'" by (rule files_apartD(3) [OF ap e(1,2)])
    qed
  qed
  moreover have "fst ` set (concat (map (cut_file_mapping a fin) cut)) \<inter> fst ` set rest = {}"
  proof -
    have "fst x \<noteq> fst y" if x: "x \<in> set (cut_file_mapping a fin e)" "e \<in> set cut" and y: "y \<in> set rest" for x y e
    proof
      assume eq: "fst x = fst y"
      have e: "e \<in> set fm" "a < fm_end (snd e)" "fst e < fin" and y': "y \<in> set fm" "fm_end (snd y) \<le> a \<or> fin \<le> fst y"
        using cuts x(2) rest y by auto
      from cut_keys [OF x(1)] show False
      proof (elim disjE conjE)
        assume "fst x = fst e" "fst e < a"
        then have "fst e \<in> file_span e" "fst e \<in> file_span y" using eq pos [OF e(1)] pos [OF y'(1)] by (simp_all add: file_span_def)
        then have "e = y" using files_apartD(3) [OF ap e(1) y'(1)] by blast
        then show False using e y' by auto
      next
        assume "fst x = fin" "fin < fm_end (snd e)"
        then have "fin \<in> file_span e" "fin \<in> file_span y" using eq e(3) pos [OF y'(1)] by (simp_all add: file_span_def)
        then have "e = y" using files_apartD(3) [OF ap e(1) y'(1)] by blast
        then show False using e(3) eq \<open>fst x = fin\<close> by simp
      qed
    qed
    then show ?thesis by fastforce
  qed
  ultimately have "set (unmap_file_mappings a fin fm) = set (concat (map (cut_file_mapping a fin) cut)) \<union> set rest \<and>
      om_wf (unmap_file_mappings a fin fm)"
    unfolding eq by (rule emplace_all_set)
  then show "set (unmap_file_mappings a fin fm) = cut_spans a fin fm" "om_wf (unmap_file_mappings a fin fm)"
    by (auto simp: cut_spans_def rest cuts)
qed


text \<open>
  Where a page that is not present is read from: the file without the bounds of the mapping, the
  offset of the page and the number of bytes of the page that the file range has.\<close>

definition page_source :: "nat \<Rightarrow> nat \<times> file_mapping \<Rightarrow> guest_file_backing \<times> nat \<times> nat" where
  "page_source x e =
     (let f = fm_backing (snd e); offset = fm_offset (snd e) + (page_base x - fst e)
      in (f\<lparr>first_offset := 0, end_offset := 0\<rparr>, offset, min page_size (end_offset f - offset)))"

definition file_source :: "nat \<Rightarrow> nat \<Rightarrow> memory_world \<Rightarrow> (guest_file_backing \<times> nat \<times> nat) option" where
  "file_source s x w = map_option (page_source x) (find_file_mapping s (page_base x) w)"

lemma cut_source:
  assumes ap: "files_apart fm" and lt: "a < fin" and al: "a mod page_size = 0" "fin mod page_size = 0" and e: "e \<in> set fm" "x \<in> file_span e" "x < a \<or> fin \<le> x"
    and hit: "a < fm_end (snd e)" "fst e < fin"
  shows "\<exists>e'\<in>set (cut_file_mapping a fin e). x \<in> file_span e' \<and> page_source x e' = page_source x e"
proof -
  define st where "st = fst e"
  define m where "m = snd e"
  have em: "e = (st, m)" by (simp add: st_def m_def)
  have st: "st mod page_size = 0" using files_apartD(5) [OF ap e(1)] by (simp add: st_def)
  have x: "st \<le> page_base x" "x < fm_end m" using e(2) aligned_le [OF st, of x] by (simp_all add: file_span_def st_def m_def)
  show ?thesis
  proof (cases "x < a")
    case True
    define p where "p = \<lparr>fm_end = a, fm_offset = fm_offset m,
       fm_backing = make_backing (fm_backing m) (fm_offset m) (min (end_offset (fm_backing m)) (fm_offset m + (a - st)))\<rparr>"
    have "page_base x < a" using True aligned_less [OF al(1)] by simp
    then have "page_base x + page_size \<le> a" by (rule aligned_step [OF page_base_mod al(1)])
    then have "min page_size (min (end_offset (fm_backing m)) (fm_offset m + (a - st)) - (fm_offset m + (page_base x - st))) =
        min page_size (end_offset (fm_backing m) - (fm_offset m + (page_base x - st)))"
      using x(1) by linarith
    then have "page_source x (st, p) = page_source x e" by (simp add: page_source_def em p_def make_backing_def Let_def)
    moreover have "(st, p) \<in> set (cut_file_mapping a fin e)" "x \<in> file_span (st, p)"
      using True x e(2) by (simp_all add: cut_file_mapping_def em p_def file_span_def Let_def)
    ultimately show ?thesis by blast
  next
    case False
    then have right: "fin \<le> x" using e(3) by simp
    then have pb: "fin \<le> page_base x" using aligned_le [OF al(2)] by simp
    define p where "p = \<lparr>fm_end = fm_end m, fm_offset = fm_offset m + (fin - st),
       fm_backing = make_backing (fm_backing m) (fm_offset m + (fin - st)) (end_offset (fm_backing m))\<rparr>"
    have "fin - st + (page_base x - fin) = page_base x - st" using pb hit(2) by (simp add: st_def)
    then have "page_source x (fin, p) = page_source x e" by (simp add: page_source_def em p_def make_backing_def Let_def add.assoc)
    moreover have "(fin, p) \<in> set (cut_file_mapping a fin e)" "x \<in> file_span (fin, p)"
      using right x by (simp_all add: cut_file_mapping_def em p_def file_span_def Let_def)
    ultimately show ?thesis by blast
  qed
qed

lemma cut_span: "e' \<in> set (cut_file_mapping a fin e) \<Longrightarrow> x \<in> file_span e' \<Longrightarrow> fst e < fin \<Longrightarrow> a < fm_end (snd e) \<Longrightarrow> x \<in> file_span e \<and> (x < a \<or> fin \<le> x)"
  by (auto simp: cut_file_mapping_def file_span_def Let_def case_prod_beta split: if_splits)

lemma cut_same:
  assumes "e1 \<in> set (cut_file_mapping a fin e)" "e2 \<in> set (cut_file_mapping a fin e)" "x \<in> file_span e1" "x \<in> file_span e2" "a < fin"
  shows "e1 = e2"
  using assms by (auto simp: cut_file_mapping_def file_span_def Let_def case_prod_beta split: if_splits)

lemma unmap_files_apart:
  assumes ap: "files_apart fm" and lt: "a < fin" and al: "a mod page_size = 0" "fin mod page_size = 0"
  shows "files_apart (unmap_file_mappings a fin fm)"
    "(\<exists>e\<in>set (unmap_file_mappings a fin fm). x \<in> file_span e) \<Longrightarrow> (\<exists>e\<in>set fm. x \<in> file_span e) \<and> \<not> (a \<le> x \<and> x < fin)"
    "e \<in> set fm \<Longrightarrow> x \<in> file_span e \<Longrightarrow> \<not> (a \<le> x \<and> x < fin) \<Longrightarrow>
       \<exists>e'\<in>set (unmap_file_mappings a fin fm). x \<in> file_span e' \<and> page_source x e' = page_source x e"
proof -
  note st = unmap_files_set [OF ap lt]
  have old: "\<exists>e0\<in>set fm. x \<in> file_span e0 \<and> (x < a \<or> fin \<le> x) \<and>
      (e = e0 \<and> (fm_end (snd e0) \<le> a \<or> fin \<le> fst e0) \<or> e \<in> set (cut_file_mapping a fin e0) \<and> a < fm_end (snd e0) \<and> fst e0 < fin)"
    if "e \<in> set (unmap_file_mappings a fin fm)" "x \<in> file_span e" for e x
  proof -
    from that(1) consider (kept) "e \<in> set fm" "fm_end (snd e) \<le> a \<or> fin \<le> fst e"
      | (piece) e0 where "e0 \<in> set fm" "a < fm_end (snd e0)" "fst e0 < fin" "e \<in> set (cut_file_mapping a fin e0)"
      unfolding st(1) cut_spans_def by auto
    then show ?thesis
    proof cases
      case kept
      then show ?thesis using that(2) by (intro bexI [of _ e]) (auto simp: file_span_def)
    next
      case piece
      then show ?thesis using cut_span [OF piece(4) that(2) piece(3,2)] by blast
    qed
  qed
  show "(\<exists>e\<in>set (unmap_file_mappings a fin fm). x \<in> file_span e) \<Longrightarrow> (\<exists>e\<in>set fm. x \<in> file_span e) \<and> \<not> (a \<le> x \<and> x < fin)"
    using old [of _ x] by fastforce
  have "e = e'" if e: "e \<in> set (unmap_file_mappings a fin fm)" "e' \<in> set (unmap_file_mappings a fin fm)" "x \<in> file_span e" "x \<in> file_span e'" for e e' x
  proof -
    obtain e0 where e0: "e0 \<in> set fm" "x \<in> file_span e0"
      "e = e0 \<and> (fm_end (snd e0) \<le> a \<or> fin \<le> fst e0) \<or> e \<in> set (cut_file_mapping a fin e0) \<and> a < fm_end (snd e0) \<and> fst e0 < fin"
      using old [OF e(1,3)] by blast
    obtain e1 where e1: "e1 \<in> set fm" "x \<in> file_span e1"
      "e' = e1 \<and> (fm_end (snd e1) \<le> a \<or> fin \<le> fst e1) \<or> e' \<in> set (cut_file_mapping a fin e1) \<and> a < fm_end (snd e1) \<and> fst e1 < fin"
      using old [OF e(2,4)] by blast
    have same: "e0 = e1" by (rule files_apartD(3) [OF ap e0(1) e1(1) e0(2) e1(2)])
    show ?thesis using e0(3) e1(3) cut_same [OF _ _ e(3,4) lt, of e0] unfolding same by auto
  qed
  then show "files_apart (unmap_file_mappings a fin fm)"
    using st(2) unmap_files_ok [OF files_apartD(2) [OF ap] al] by (fastforce simp: files_apart_def)
  show "\<exists>e'\<in>set (unmap_file_mappings a fin fm). x \<in> file_span e' \<and> page_source x e' = page_source x e"
    if e: "e \<in> set fm" "x \<in> file_span e" "\<not> (a \<le> x \<and> x < fin)"
  proof (cases "fm_end (snd e) \<le> a \<or> fin \<le> fst e")
    case True
    then show ?thesis using e unfolding st(1) cut_spans_def by auto
  next
    case False
    then have "a < fm_end (snd e)" "fst e < fin" "x < a \<or> fin \<le> x" using e(3) by auto
    from cut_source [OF ap lt al e(1,2) this(3,1,2)] show ?thesis
      using e(1) \<open>a < fm_end (snd e)\<close> \<open>fst e < fin\<close> unfolding st(1) cut_spans_def by blast
  qed
qed

section \<open>Every reachable world\<close>

text \<open>The leases are part of the invariant, as giving one up unmaps its range: it must not be empty.\<close>

definition files_mapped :: "nat \<Rightarrow> memory_world \<Rightarrow> bool" where
  "files_mapped t w \<longleftrightarrow> files_apart (file_mappings (space_of w t)) \<and>
     (\<forall>e\<in>set (file_mappings (space_of w t)). \<forall>x\<in>file_span e. regions_at t w x \<noteq> None) \<and>
     (\<forall>l\<in>set (mapping_leases (space_of w t)). ml_begin (snd l) < ml_end (snd l))"

definition world_files :: "memory_world \<Rightarrow> bool" where
  "world_files w \<longleftrightarrow> world_ok w \<and> (\<forall>t\<in>set (live w). files_mapped t w)"

lemma world_filesD: "world_files w \<Longrightarrow> world_ok w" "world_files w \<Longrightarrow> t \<in> set (live w) \<Longrightarrow> files_mapped t w"
  by (simp_all add: world_files_def)

text \<open>No new file mapping, and no new lease that is empty.\<close>

definition tables_from :: "memory_world \<Rightarrow> memory_world \<Rightarrow> bool" where
  "tables_from w w' \<longleftrightarrow> (\<forall>t. file_mappings (space_of w' t) = file_mappings (space_of w t) \<and>
     (\<forall>l\<in>set (mapping_leases (space_of w' t)). l \<in> set (mapping_leases (space_of w t)) \<or> ml_begin (snd l) < ml_end (snd l)))"

lemma tables_from_refl [simp]: "tables_from w w"
  by (simp add: tables_from_def)

lemma tables_from_trans: "tables_from a b \<Longrightarrow> tables_from b c \<Longrightarrow> tables_from a c"
  unfolding tables_from_def by metis

lemma tables_from_fold: "(\<And>x w. tables_from w (f x w)) \<Longrightarrow> tables_from w (fold f xs w)"
  by (induction xs arbitrary: w) (auto intro: tables_from_trans)

lemma view_tables: "same_view w w' \<Longrightarrow> tables_from w w'"
  by (simp add: same_view_def tables_from_def)

lemma set_space_tables_from:
  "file_mappings sp = file_mappings (space_of w s) \<Longrightarrow>
   (\<And>l. l \<in> set (mapping_leases sp) \<Longrightarrow> l \<in> set (mapping_leases (space_of w s)) \<or> ml_begin (snd l) < ml_end (snd l)) \<Longrightarrow>
   tables_from w (set_space s sp w)"
  by (simp add: tables_from_def)

lemma permissions_tables [simp]:
  "tables_from w (add_page_permissions s a fin p w)" "tables_from w (set_page_permissions s a fin p w)"
  "tables_from w (clear_page_permissions s a fin w)"
proof -
  have "tables_from w (put_permission s i f w)" for i f w
    by (simp add: tables_from_def put_permission_def writable_page_permission_chunk_def Let_def split: option.split)
  then show "tables_from w (add_page_permissions s a fin p w)" "tables_from w (set_page_permissions s a fin p w)"
    "tables_from w (clear_page_permissions s a fin w)"
    unfolding add_page_permissions_def set_page_permissions_def clear_page_permissions_def by (auto intro: tables_from_fold)
qed

text \<open>Memory mapped in addition keeps the invariant, and so does the copy of a space.\<close>

lemma grows_files:
  assumes "world_files w" "world_ok w'" "live w' = live w" "tables_from w w'" "\<And>t x. regions_at t w x \<noteq> None \<Longrightarrow> regions_at t w' x \<noteq> None"
  shows "world_files w'"
  using assms unfolding world_files_def files_mapped_def tables_from_def by metis

lemma keeps_files: "world_files w \<Longrightarrow> keeps_tables w w' \<Longrightarrow> world_files w'"
  using keeps_world [of w w'] view_tables [of w w'] view_regions [of w w']
  by (intro grows_files [of w w']) (auto simp: keeps_tables_def world_filesD)

lemma remaps_grows:
  assumes "world_files w" "remaps s f w w'" "tables_from w w'" "\<And>x. regions_at s w x \<noteq> None \<Longrightarrow> f x \<noteq> None"
  shows "world_files w'"
proof (rule grows_files [OF assms(1) remapsD(1,2) [OF assms(2)] assms(3)])
  show "regions_at t w' x \<noteq> None" if "regions_at t w x \<noteq> None" for t x
    using that assms(4) remapsD(3,4) [OF assms(2)] by (cases "t = s") auto
qed

lemma copies_files:
  assumes "world_files w" "world_ok w'"
    and "\<And>t. t \<in> set (live w') \<Longrightarrow> blank_view w' t \<or> (\<exists>s\<in>set (live w). copies_view w s w' t)"
  shows "world_files w'"
proof -
  have "files_mapped t w'" if "t \<in> set (live w')" for t
    using assms(3) [OF that]
  proof
    assume "blank_view w' t"
    then show ?thesis by (simp add: files_mapped_def files_apart_def files_ok_def blank_view_def)
  next
    assume "\<exists>s\<in>set (live w). copies_view w s w' t"
    then obtain u where u: "u \<in> set (live w)" "copies_view w u w' t" by blast
    show ?thesis using world_filesD(2) [OF assms(1) u(1)] u(2) by (simp add: copies_view_def files_mapped_def regions_at_def)
  qed
  then show ?thesis using assms(2) by (simp add: world_files_def)
qed

lemma invalidate_tables: "tables_from w (set_space s (invalidate_mapping_leases a fin (space_of w s)) w)"
  by (rule set_space_tables_from) (auto simp: invalidate_mapping_leases_def)

lemma as_map_tables: "tables_from w (snd (as_map s a n p w))"
proof (cases "n = 0 \<or> range_overflows a n")
  case False
  define first fin where "first = page_base a" and "fin = page_range_end a n"
  define sp where "sp = (invalidate_mapping_leases first fin (space_of w s))\<lparr>vm_regions := vm_map_or first fin p (vm_regions (space_of w s))\<rparr>"
  have eq: "snd (as_map s a n p w) = refresh_jit_page_range s first fin (add_page_permissions s first fin p (set_space s sp w))"
    using False by (simp add: as_map_def Let_def first_def fin_def sp_def)
  have "tables_from w (set_space s sp w)" by (rule set_space_tables_from) (auto simp: sp_def invalidate_mapping_leases_def)
  then have "tables_from w (add_page_permissions s first fin p (set_space s sp w))" by (rule tables_from_trans) simp
  then show ?thesis unfolding eq by (rule tables_from_trans) (simp add: view_tables)
qed (auto simp: as_map_def)

lemma as_map_files:
  assumes w: "world_files w" and s: "s \<in> set (live w)" and a: "a < 2 ^ 32"
  shows "world_files (snd (as_map s a n p w))"
proof (cases "n = 0 \<or> range_overflows a n")
  case False
  then have n: "n \<noteq> 0" "\<not> range_overflows a n" by simp_all
  show ?thesis
    by (rule remaps_grows [OF w as_map_remaps(2) [OF world_filesD(1) [OF w] s a n] as_map_tables]) simp
qed (use w in \<open>auto simp: as_map_def\<close>)

section \<open>Unmapping\<close>

lemma unmap_range_mappings:
  "file_mappings (space_of (unmap_range s a fin w) t) =
     (if t = s then unmap_file_mappings a fin (file_mappings (space_of w s)) else file_mappings (space_of w t))"
  "mapping_leases (space_of (unmap_range s a fin w) t) = mapping_leases (space_of w t)"
proof -
  define w1 where "w1 = flush_shared_file_pages s a fin w"
  define w2 where "w2 = set_space s ((space_of w1 s)\<lparr>vm_regions := unmap a fin (vm_regions (space_of w1 s)),
     translation_profile_map := unmap a fin (translation_profile_map (space_of w1 s)),
     file_mappings := unmap_file_mappings a fin (file_mappings (space_of w1 s))\<rparr>) w1"
  define w3 where "w3 = erase_pages s a fin (ensure_unique_page_map s w2)"
  define w4 where "w4 = set_space s ((space_of w3 s)\<lparr>exclusive_write_tracked_pages :=
     exclusive_write_tracked_pages (space_of w3 s) - set (page_bases a fin)\<rparr>) w3"
  have eq: "unmap_range s a fin w = refresh_jit_page_range s a fin (clear_page_permissions s a fin w4)"
    unfolding unmap_range_def Let_def w1_def w2_def w3_def w4_def by (rule refl)
  have w1: "space_of w1 = space_of w" by (simp add: w1_def flush_shared_file_pages_def)
  have v: "same_view w2 w4"
  proof -
    have "same_view w2 w3" unfolding w3_def by (rule same_view_trans [OF ensure_unique_view erase_pages_view])
    moreover have "same_view w3 w4" by (simp add: w4_def same_view_def)
    ultimately show ?thesis by (rule same_view_trans)
  qed
  have put: "file_mappings (space_of (put_permission s i f u) t) = file_mappings (space_of u t) \<and>
      mapping_leases (space_of (put_permission s i f u) t) = mapping_leases (space_of u t)" for i f u
    by (simp add: put_permission_def writable_page_permission_chunk_def Let_def split: option.split)
  have "file_mappings (space_of (clear_page_permissions s a fin u) t) = file_mappings (space_of u t) \<and>
      mapping_leases (space_of (clear_page_permissions s a fin u) t) = mapping_leases (space_of u t)" for u
  proof -
    have "file_mappings (space_of (fold (\<lambda>base w. if c base w then w else put_permission s (base div page_size) (\<lambda>_. 0) w) bs v) t) =
          file_mappings (space_of v t) \<and>
        mapping_leases (space_of (fold (\<lambda>base w. if c base w then w else put_permission s (base div page_size) (\<lambda>_. 0) w) bs v) t) =
          mapping_leases (space_of v t)" for c :: "nat \<Rightarrow> memory_world \<Rightarrow> bool" and bs v
      by (induction bs arbitrary: v) (simp_all add: put)
    then show ?thesis unfolding clear_page_permissions_def .
  qed
  moreover have "same_view u (refresh_jit_page_range s a fin u)" for u by simp
  ultimately have "file_mappings (space_of (unmap_range s a fin w) t) = file_mappings (space_of w4 t)"
    "mapping_leases (space_of (unmap_range s a fin w) t) = mapping_leases (space_of w4 t)"
    unfolding eq by (simp_all add: same_view_def)
  then show "file_mappings (space_of (unmap_range s a fin w) t) =
     (if t = s then unmap_file_mappings a fin (file_mappings (space_of w s)) else file_mappings (space_of w t))"
    "mapping_leases (space_of (unmap_range s a fin w) t) = mapping_leases (space_of w t)"
    using v by (simp_all add: same_view_def w2_def w1)
qed

lemma unmap_range_files:
  assumes w: "world_files w" and s: "s \<in> set (live w)" and al: "a mod page_size = 0" "fin mod page_size = 0" "fin \<le> 2 ^ 32" and lt: "a < fin"
  shows "world_files (unmap_range s a fin w)"
proof -
  note ok = world_filesD(1) [OF w] and fs = world_filesD(2) [OF w s]
  have ap: "files_apart (file_mappings (space_of w s))" using fs by (simp add: files_mapped_def)
  note un = unmap_files_apart [OF ap lt al(1,2)]
  note us = unmap_spec [OF region_regs [OF ok s], of a fin]
  have live: "live (unmap_range s a fin w) = live w"
    using confined_inv [OF unmap_range_confined [OF world_okD(1) [OF ok] s]] by simp
  have "files_mapped t (unmap_range s a fin w)" if t: "t \<in> set (live w)" for t
  proof (cases "t = s")
    case True
    have "regions_at s (unmap_range s a fin w) x \<noteq> None" if x: "e \<in> set (unmap_file_mappings a fin (file_mappings (space_of w s)))" "x \<in> file_span e" for e x
    proof -
      have "(\<exists>e\<in>set (file_mappings (space_of w s)). x \<in> file_span e) \<and> \<not> (a \<le> x \<and> x < fin)" using un(2) x by blast
      then show ?thesis using fs us by (auto simp: files_mapped_def regions_at_def unmap_range_regions)
    qed
    then show ?thesis using un(1) True fs by (simp add: files_mapped_def unmap_range_mappings)
  next
    case False
    then show ?thesis
      using world_filesD(2) [OF w t] by (simp add: files_mapped_def regions_at_def unmap_range_mappings unmap_range_regions)
  qed
  then show ?thesis using unmap_range_world [OF ok s al] live by (simp add: world_files_def)
qed

lemma as_unmap_files:
  assumes w: "world_files w" and s: "s \<in> set (live w)" and a: "a < 2 ^ 32"
  shows "world_files (snd (as_unmap s a n w))"
proof (cases "n = 0 \<or> range_overflows a n")
  case False
  define w1 where "w1 = set_space s (invalidate_mapping_leases (page_base a) (page_range_end a n) (space_of w s)) w"
  have "world_files w1" unfolding w1_def
    by (rule grows_files [OF w invalidate_world [OF world_filesD(1) [OF w]] _ invalidate_tables]) (auto simp: regions_at_def)
  moreover have "s \<in> set (live w1)" using s by (simp add: w1_def)
  moreover have "snd (as_unmap s a n w) = unmap_range s (page_base a) (page_range_end a n) w1"
    using False by (simp add: as_unmap_def Let_def w1_def)
  ultimately show ?thesis using unmap_range_files page_range [OF _ _ a, of n] False by simp
qed (use w in \<open>auto simp: as_unmap_def\<close>)

lemma unmap_lease_files:
  assumes w: "world_files w" and s: "s \<in> set (live w)"
  shows "world_files (snd (unmap_mapping_lease s token w))"
proof (cases "token = 0 \<or> map_of (mapping_leases (space_of w s)) token = None")
  case True
  then show ?thesis using w by (auto simp: unmap_mapping_lease_def)
next
  case False
  note ok = world_filesD(1) [OF w]
  obtain l where l: "map_of (mapping_leases (space_of w s)) token = Some l" using False by auto
  define sp where "sp = invalidate_mapping_leases (ml_begin l) (ml_end l)
     ((space_of w s)\<lparr>mapping_leases := om_erase token (mapping_leases (space_of w s))\<rparr>)"
  have eq: "snd (unmap_mapping_lease s token w) = unmap_range s (ml_begin l) (ml_end l) (set_space s sp w)"
    using False l by (simp add: unmap_mapping_lease_def sp_def Let_def)
  have mem: "(token, l) \<in> set (mapping_leases (space_of w s))" using l by (rule map_of_SomeD)
  then have al: "ml_begin l mod page_size = 0" "ml_end l mod page_size = 0" "ml_end l \<le> 2 ^ 32"
    using world_okD(3) [OF ok s] unfolding tables_ok_def leases_ok_def by force+
  have "ml_begin (snd (token, l)) < ml_end (snd (token, l))"
    using world_filesD(2) [OF w s] mem unfolding files_mapped_def by blast
  then have lt: "ml_begin l < ml_end l" by simp
  have ls: "set (mapping_leases sp) \<subseteq> set (mapping_leases (space_of w s))"
    by (auto simp: sp_def invalidate_mapping_leases_def om_erase_def)
  have "world_files (set_space s sp w)"
  proof (rule grows_files [OF w])
    show "world_ok (set_space s sp w)"
      by (rule set_leases_world [OF ok _ _ _ _ ls]) (simp_all add: sp_def same_core_def invalidate_mapping_leases_def)
    show "tables_from w (set_space s sp w)" by (rule set_space_tables_from) (use ls in \<open>auto simp: sp_def\<close>)
  qed (auto simp: regions_at_def sp_def)
  then show ?thesis unfolding eq using unmap_range_files [OF _ _ al lt] s by simp
qed

section \<open>Protection and file mappings\<close>

lemma as_protect_files:
  assumes w: "world_files w" and s: "s \<in> set (live w)" and a: "a < 2 ^ 32"
  shows "world_files (snd (as_protect s a n p w))"
proof (cases "n = 0 \<or> range_overflows a n \<or> \<not> fst (protect (page_base a) (page_range_end a n) p (vm_regions (space_of w s)))")
  case True
  then show ?thesis using w by (auto simp: as_protect_def Let_def case_prod_beta)
next
  case False
  note ok = world_filesD(1) [OF w]
  define first fin m where "first = page_base a" and "fin = page_range_end a n" and "m = snd (protect first fin p (vm_regions (space_of w s)))"
  define w1 where "w1 = set_space s ((space_of w s)\<lparr>vm_regions := m\<rparr>) w"
  define w2 where "w2 = set_page_permissions s first fin p w1"
  define w3 where "w3 = (if has_permission p perm_write then
     let w' = ensure_unique_page_map s w2 in
     set_pages s (map (\<lambda>(a, pg). (a, if first \<le> a \<and> a < fin \<and> file_writeback_capable pg
       then pg\<lparr>file_writeback := True\<rparr> else pg)) (pages_of s w')) w' else w2)"
  have eq: "snd (as_protect s a n p w) = refresh_jit_page_range s first fin w3"
    using False unfolding as_protect_def w3_def w2_def w1_def m_def first_def fin_def by (simp add: Let_def case_prod_beta)
  have v: "same_view w2 (refresh_jit_page_range s first fin w3)"
  proof (rule same_view_trans [OF _ refresh_range_view])
    show "same_view w2 w3" unfolding w3_def Let_def
      by (cases "has_permission p perm_write") (simp_all add: same_view_trans [OF ensure_unique_view page_ops_view(2)])
  qed
  have t1: "tables_from w w1" unfolding w1_def by (rule set_space_tables_from) simp_all
  have t2: "tables_from w w2" unfolding w2_def by (rule tables_from_trans [OF t1 permissions_tables(2)])
  have regs: "regions_at t (snd (as_protect s a n p w)) = perm_at (if t = s then m else vm_regions (space_of w t))" for t
  proof -
    have "vm_regions (space_of (set_page_permissions s first fin p w1) t) = vm_regions (space_of w1 t)"
      unfolding set_page_permissions_def by (rule put_permissions_regions) (simp add: put_permission_regions)
    then show ?thesis using v by (simp add: regions_at_def eq same_view_def w2_def w1_def fun_eq_iff)
  qed
  have live: "live (snd (as_protect s a n p w)) = live w"
    using confined_inv [OF as_protect_confined [OF world_okD(1) [OF ok] s]] by simp
  show ?thesis
  proof (rule grows_files [OF w as_protect_world [OF ok s a] live])
    show "tables_from w (snd (as_protect s a n p w))" unfolding eq by (rule tables_from_trans [OF t2 view_tables [OF v]])
    show "regions_at t w x \<noteq> None \<Longrightarrow> regions_at t (snd (as_protect s a n p w)) x \<noteq> None" for t x
      unfolding regs using protect_spec [OF region_regs [OF ok s], of first fin p] by (auto simp: regions_at_def m_def)
  qed
qed

text \<open>A file is mapped only where nothing is mapped, so where no file is.\<close>

lemma map_file_files:
  assumes w: "world_files w" and s: "s \<in> set (live w)" and a: "a < 2 ^ 32"
  shows "world_files (snd (map_file probe s a n p path off w))"
proof -
  note ok = world_filesD(1) [OF w]
  obtain b w' where r: "map_file probe s a n p path off w = (b, w')" by fastforce
  note m = map_file_remaps [OF ok s a r]
  define c where "c = cache_ref (space_of w s)"
  obtain found cache st where o: "open_mapping probe path off n (cache_of w c, store w) = (found, cache, st)"
    by (metis prod_cases3)
  define w1 where "w1 = w\<lparr>cache_of := (cache_of w)(c := cache), store := st\<rparr>"
  have sw: "space_of w1 = space_of w" by (simp add: w1_def)
  define fin where "fin = page_range_end a n"
  define sp where "sp = invalidate_mapping_leases a fin (space_of w s)"
  define e where "e = (a, \<lparr>fm_end = fin, fm_offset = off, fm_backing = the found\<rparr>)"
  define sp1 where "sp1 = sp\<lparr>file_mappings := om_emplace a (snd e) (file_mappings sp)\<rparr>"
  define w2 where "w2 = set_space s (sp1\<lparr>vm_regions := vm_map_or a fin p (vm_regions sp1)\<rparr>) w1"
  define bad where "bad \<longleftrightarrow> n = 0 \<or> range_overflows a n \<or> a mod page_size \<noteq> 0 \<or> off mod page_size \<noteq> 0"
  have eq: "(b, w') = (if bad then (False, w) else if found = None then (False, w1)
      else if overlaps a fin (vm_regions (space_of w s)) then (False, w1)
      else if map_of (file_mappings sp) a \<noteq> None then (False, set_space s sp1 w1)
      else (True, add_page_permissions s a fin p w2))"
    unfolding r [symmetric] using o
    by (cases found) (auto simp: map_file_def Let_def c_def [symmetric] w1_def [symmetric] sw fin_def [symmetric]
        sp_def [symmetric] sp1_def w2_def bad_def e_def)
  show ?thesis
  proof (cases b)
    case False
    have "tables_from w (set_space s sp1 w1)" if "map_of (file_mappings sp) a \<noteq> None"
      using that unfolding tables_from_def by (auto simp: sp1_def om_emplace_def sp_def invalidate_mapping_leases_def sw)
    then have "tables_from w w'" using eq False by (auto simp: tables_from_def sw split: if_splits)
    then show ?thesis using remaps_grows [OF w m(1)] False r by simp
  next
    case True
    then have w': "w' = add_page_permissions s a fin p w2" and new: "map_of (file_mappings (space_of w s)) a = None"
      using eq by (simp_all add: sp_def split: if_splits)
    note mt = m(2) [OF True]
    have fin: "a < fin" "page_base a = a" using page_range(3) [of n a] mt a by (simp_all add: fin_def page_base_aligned)
    have span: "file_span e = page_span a n" by (simp add: file_span_def page_span_def e_def fin_def fin(2))
    have fm: "file_mappings (space_of w' t) = (if t = s then om_put a (snd e) (file_mappings (space_of w s)) else file_mappings (space_of w t))"
      and ls: "\<forall>l\<in>set (mapping_leases (space_of w' t)). l \<in> set (mapping_leases (space_of w t)) \<or> ml_begin (snd l) < ml_end (snd l)" for t
    proof -
      have t: "file_mappings (space_of w' t) = file_mappings (space_of w2 t)"
        "\<forall>l\<in>set (mapping_leases (space_of w' t)). l \<in> set (mapping_leases (space_of w2 t)) \<or> ml_begin (snd l) < ml_end (snd l)"
        using permissions_tables(1) [of w2 s a fin p] unfolding w' tables_from_def by blast+
      show "file_mappings (space_of w' t) = (if t = s then om_put a (snd e) (file_mappings (space_of w s)) else file_mappings (space_of w t))"
        using new unfolding t(1) by (simp add: w2_def sp1_def sp_def om_emplace_def sw)
      show "\<forall>l\<in>set (mapping_leases (space_of w' t)). l \<in> set (mapping_leases (space_of w t)) \<or> ml_begin (snd l) < ml_end (snd l)"
        using t(2) by (auto simp: w2_def sp1_def sp_def sw invalidate_mapping_leases_def split: if_splits)
    qed
    have ok': "world_ok w'" and live: "live w' = live w" using remapsD(1,2) [OF m(1)] by simp_all
    have "files_mapped t w'" if t: "t \<in> set (live w)" for t
    proof (cases "t = s")
      case True
      have ap: "files_apart (file_mappings (space_of w s))" and mp: "\<forall>e\<in>set (file_mappings (space_of w s)). \<forall>x\<in>file_span e. regions_at s w x \<noteq> None"
        using world_filesD(2) [OF w s] by (simp_all add: files_mapped_def)
      have set: "set (file_mappings (space_of w' s)) = insert e (set (file_mappings (space_of w s)))"
        using new unfolding fm by (auto simp: om_put_set [OF files_apartD(1) [OF ap]] e_def map_of_eq_None_iff image_iff)
      have disj: "file_span e' \<inter> file_span e = {}" if "e' \<in> set (file_mappings (space_of w s))" for e'
        using mp mt that unfolding span by blast
      have "files_ok (file_mappings (space_of w' s))" using world_okD(4) [OF ok'] live s by simp
      then have "files_apart (file_mappings (space_of w' s))"
        using ap disj unfolding files_apart_def set by (auto simp: fm om_put_wf)
      moreover have "regions_at s w' x \<noteq> None" if "regions_at s w x \<noteq> None \<or> x \<in> file_span e" for x
        using that remapsD(3) [OF m(1), of x] \<open>b\<close> unfolding span by auto
      ultimately show ?thesis
        using world_filesD(2) [OF w s] mp ls [of s] unfolding True files_mapped_def set by blast
    next
      case False
      then show ?thesis
        using world_filesD(2) [OF w t] fm [of t] ls [of t] remapsD(4) [OF m(1) False] unfolding files_mapped_def by auto
    qed
    then show ?thesis using ok' live r by (simp add: world_files_def)
  qed
qed

lemma map_pages_files:
  assumes w: "world_files w" and s: "s \<in> set (live w)" and h: "set bs \<subseteq> set (held w)" and a: "a < 2 ^ 32"
    and r: "map_page_backings s a n p bs mode lease w = Some (got, token, w')"
  shows "world_files w'"
proof (cases "w' = w")
  case True
  then show ?thesis using w by simp
next
  case False
  note ok = world_filesD(1) [OF w]
  note f = map_page_backings_inv [OF world_okD(1) [OF ok] s h r]
  define fin where "fin = page_range_end a n"
  define w0 where "w0 = set_space s (invalidate_mapping_leases a fin (space_of w s)) w"
  obtain w2 w5 where w2: "same_view w0 w2" "live w2 = live w"
    and alt: "w' = w2 \<or> confined s w w5 \<and> n \<noteq> 0 \<and> a mod page_size = 0 \<and> \<not> range_overflows a n \<and> maps_backings s a fin p w2 w5 w'"
    using f(3) [OF False] unfolding w0_def fin_def by (elim exE conjE)
  have t2: "tables_from w w2" unfolding w0_def
    by (rule tables_from_trans [OF invalidate_tables view_tables [OF w2(1) [unfolded w0_def]]])
  have regs2: "vm_regions (space_of w2 t) = vm_regions (space_of w t)" for t using w2(1) by (simp add: same_view_def w0_def)
  have "tables_from w w' \<and> (\<forall>t x. regions_at t w x \<noteq> None \<longrightarrow> regions_at t w' x \<noteq> None)"
  proof (cases "w' = w2")
    case True
    then show ?thesis using t2 regs2 by (simp add: regions_at_def)
  next
    case False
    then have g: "n \<noteq> 0" "a mod page_size = 0" "\<not> range_overflows a n" and mb: "maps_backings s a fin p w2 w5 w'" using alt by simp_all
    note pr = page_range [OF g(1,3) a, folded fin_def]
    have ab: "page_base a = a" using g(2) by (simp add: page_base_aligned)
    define w3 where "w3 = set_space s ((space_of w2 s)\<lparr>vm_regions := vm_map_or a fin p (vm_regions (space_of w2 s))\<rparr>) w2"
    have v5: "same_view (add_page_permissions s a fin p w3) w5" using mb by (simp add: maps_backings_def w3_def)
    have t3: "tables_from w2 w3" unfolding w3_def by (rule set_space_tables_from) simp_all
    have t4: "tables_from w (add_page_permissions s a fin p w3)"
      by (rule tables_from_trans [OF tables_from_trans [OF t2 t3] permissions_tables(1)])
    have t5: "tables_from w w5" by (rule tables_from_trans [OF t4 view_tables [OF v5]])
    have regs5: "vm_regions (space_of w5 t) = (if t = s then vm_map_or a fin p (vm_regions (space_of w s)) else vm_regions (space_of w t))" for t
      using v5 by (simp add: same_view_def add_permissions_regions w3_def regs2)
    have w5: "w' = w5 \<or> (\<exists>tk nt. w' = set_space s ((space_of w5 s)\<lparr>mapping_leases :=
        om_emplace tk \<lparr>ml_begin = a, ml_end = fin\<rparr> (mapping_leases (space_of w5 s)), next_mapping_lease_token := nt\<rparr>) w5)"
      using mb by (simp add: maps_backings_def)
    have "tables_from w5 w'"
      using w5
    proof (elim disjE exE)
      fix tk nt
      assume eq: "w' = set_space s ((space_of w5 s)\<lparr>mapping_leases :=
        om_emplace tk \<lparr>ml_begin = a, ml_end = fin\<rparr> (mapping_leases (space_of w5 s)), next_mapping_lease_token := nt\<rparr>) w5"
      show ?thesis unfolding eq
        by (rule set_space_tables_from)
          (use om_emplace_subset [of tk "\<lparr>ml_begin = a, ml_end = fin\<rparr>" "mapping_leases (space_of w5 s)"] pr(3) ab in auto)
    qed simp
    moreover have "vm_regions (space_of w' t) = vm_regions (space_of w5 t)" for t using w5 by auto
    moreover have "valid_range a fin" using pr(5) ab by simp
    ultimately show ?thesis
      using tables_from_trans [OF t5] vm_map_or_spec(2) [OF region_regs [OF ok s], of a fin p]
      by (auto simp: regions_at_def regs5)
  qed
  then show ?thesis
    using grows_files [OF w] map_page_backings_world [OF ok s a h r] by blast
qed

section \<open>Histories\<close>

lemma clear_files: "world_files w \<Longrightarrow> s \<in> set (live w) \<Longrightarrow> world_files (as_clear s w)"
proof (rule copies_files)
  fix t assume t: "t \<in> set (live (as_clear s w))"
  show "blank_view (as_clear s w) t \<or> (\<exists>s'\<in>set (live w). copies_view w s' (as_clear s w) t)"
  proof (cases "t = s")
    case True
    then have "blank_view (as_clear s w) t" by (simp add: blank_view_def as_clear_def Let_def)
    then show ?thesis by blast
  next
    case False
    then have "copies_view w t (as_clear s w) t" by (intro copies_view_same) (simp add: as_clear_def Let_def flush_shared_file_pages_def)
    moreover have "t \<in> set (live w)" using t by (simp add: as_clear_def Let_def flush_shared_file_pages_def)
    ultimately show ?thesis by blast
  qed
qed (simp_all add: as_clear_world world_filesD)

lemma destroy_files: "world_files w \<Longrightarrow> world_files (destroy_space s w)"
proof (rule copies_files)
  fix t assume "t \<in> set (live (destroy_space s w))"
  moreover have "copies_view w t (destroy_space s w) t"
    by (rule copies_view_same) (simp add: destroy_space_def flush_shared_file_pages_def)
  ultimately show "blank_view (destroy_space s w) t \<or> (\<exists>s'\<in>set (live w). copies_view w s' (destroy_space s w) t)"
    by (auto simp: destroy_space_def flush_shared_file_pages_def)
qed (simp_all add: destroy_space_world world_filesD)

lemma new_space_files: "world_files w \<Longrightarrow> world_files (snd (new_space w))"
proof (rule copies_files)
  fix t assume t: "t \<in> set (live (snd (new_space w)))"
  show "blank_view (snd (new_space w)) t \<or> (\<exists>s'\<in>set (live w). copies_view w s' (snd (new_space w)) t)"
  proof (cases "t = next_space w")
    case True
    then have "blank_view (snd (new_space w)) t" by (simp add: blank_view_def new_space_def Let_def fresh_space_def)
    then show ?thesis by blast
  next
    case False
    then have "copies_view w t (snd (new_space w)) t" by (intro copies_view_same) (simp add: new_space_def Let_def)
    then show ?thesis using t False by (auto simp: new_space_def Let_def)
  qed
qed (simp_all add: new_space_world world_filesD)

lemma clone_files:
  assumes w: "world_files w" and s: "s \<in> set (live w)"
  shows "world_files (snd (clone s w))"
proof -
  note ok = world_filesD(1) [OF w]
  obtain child w' where c: "clone s w = (child, w')" by fastforce
  have ns: "s \<noteq> next_space w" using live_bound [OF ok s] by simp
  note f = clone_facts [OF world_okD(1) [OF ok] s c] and v = clone_view [OF c ns]
  have "world_files w'"
  proof (rule copies_files [OF w])
    show "world_ok w'" using clone_world [OF ok s] c by simp
    fix t assume "t \<in> set (live w')"
    then have "t = child \<or> (t \<noteq> child \<and> t \<in> set (live w))" using f(3) by auto
    then show "blank_view w' t \<or> (\<exists>s\<in>set (live w). copies_view w s w' t)" using v(1,2) s by blast
  qed
  then show ?thesis by (simp add: c)
qed

text \<open>The other operations keep the tables.\<close>

lemma reads_keep:
  assumes ok: "world_ok w" and s: "s \<in> set (live w)"
  shows "keeps_tables w (returned w (read_integer pread s a (width_bytes k) p w))" "keeps_tables w (returned w (read_bytes pread s a n w))"
proof -
  note i = world_okD(1) [OF ok] and f = world_okD(4) [OF ok s]
  have "v = w \<or> faulted s w v \<Longrightarrow> keeps_tables w v" for v using keeps_tables_refl [OF i] faulted_keeps by blast
  then show "keeps_tables w (returned w (read_integer pread s a (width_bytes k) p w))" "keeps_tables w (returned w (read_bytes pread s a n w))"
    using read_integer_returns [OF i s f width_page, of pread a k p] read_bytes_returns [OF i s f, of pread a n]
    by (auto simp: returned_def)
qed

lemma writes_keep:
  assumes ok: "world_ok w" and s: "s \<in> set (live w)"
  shows "keeps_tables w (snd (write_integer pread s a (width_bytes k) v w))" "keeps_tables w (snd (exchange_integer pread s a (width_bytes k) v w))"
    "keeps_tables w (snd (compare_exchange_integer pread s a (width_bytes k) e v w))" "keeps_tables w (snd (copy_in pread s a data w))"
proof -
  note i = world_okD(1) [OF ok]
  show "keeps_tables w (snd (write_integer pread s a (width_bytes k) v w))" by (rule write_integer_keeps [OF ok s width_page(2)])
  have kw: "w' = w \<or> wrote s R w w' \<Longrightarrow> keeps_tables w w'" for w' R using keeps_tables_refl [OF i] wrote_keeps by blast
  show "keeps_tables w (snd (exchange_integer pread s a (width_bytes k) v w))"
    "keeps_tables w (snd (compare_exchange_integer pread s a (width_bytes k) e v w))"
    by (rule kw [OF exchange_wrote(1) [OF i s width_page(2)]], rule kw [OF exchange_wrote(2) [OF i s width_page(2)]])
  show "keeps_tables w (snd (copy_in pread s a data w))"
  proof (cases "fst (copy_in pread s a data w) \<and> data \<noteq> []")
    case True
    then have "copy_in pread s a data w = (True, snd (copy_in pread s a data w))" by (metis prod.collapse)
    from wrote_keeps [OF copy_in_wrote [OF i s this]] True show ?thesis by blast
  next
    case False
    moreover have "fst (copy_in pread s a data w) \<and> data \<noteq> [] \<or> snd (copy_in pread s a data w) = w" by (simp add: copy_in_def)
    ultimately have "snd (copy_in pread s a data w) = w" by blast
    then show ?thesis using keeps_tables_refl [OF i] by simp
  qed
qed

lemma on_space_files: "world_files w \<Longrightarrow> (s \<in> set (live w) \<Longrightarrow> world_files (f w)) \<Longrightarrow> world_files (on_space s f w)"
  by (simp add: on_space_def)

lemma keeps_on_space:
  "world_files w \<Longrightarrow> (world_ok w \<Longrightarrow> s \<in> set (live w) \<Longrightarrow> keeps_tables w (f w)) \<Longrightarrow> world_files (on_space s f w)"
  using keeps_files world_filesD(1) by (simp add: on_space_def)

lemma quiet_on_space: "world_files w \<Longrightarrow> quiet w (f w) \<Longrightarrow> world_files (on_space s f w)"
  by (rule keeps_on_space) (simp_all add: quiet_keeps world_okD)

lemma share_pages_keep: "world_ok w \<Longrightarrow> s \<in> set (live w) \<Longrightarrow> keeps_tables w (snd (share_pages pread s a n w))"
  using share_pages_inv [OF world_okD(1)] by (simp add: keeps_tables_def)

lemma step_files: "world_files w \<Longrightarrow> world_files (memory_step w e)"
proof (cases e)
  case (Map_Pages s a n p bs mode lease)
  assume w: "world_files w"
  show ?thesis
    using w map_pages_files [OF w _ _ unat_address] by (auto simp: Map_Pages on_space_def split: option.split)
next
  case (Release_Page b)
  assume w: "world_files w"
  have "keeps_tables w (w\<lparr>held := remove1 b (held w)\<rparr>)"
    using world_okD(1) [OF world_filesD(1) [OF w]] by (simp add: keeps_tables_def release_held_inv same_view_def)
  then show ?thesis using keeps_files [OF w] by (simp add: Release_Page)
qed (simp_all add: on_space_files new_space_files destroy_files clone_files as_map_files as_unmap_files as_protect_files clear_files map_file_files
    unmap_lease_files unat_address [simplified] keeps_on_space share_pages_keep reads_keep writes_keep track_generation_keeps world_okD
    quiet_on_space set_parallel_quiet jit_tables_quiet track_exclusive_quiet synchronize_quiet observer_quiet)

interpretation mapped_files: machine empty_world memory_step world_files
  by unfold_locales (simp add: world_files_def empty_world_ok, simp add: empty_world_def, rule step_files)

lemma run_files: "world_files (memory_run ops)"
  unfolding memory_run_def by (rule mapped_files.run_inv)

end
