(* ===== verification/Address_Space_Contents.thy ===== *)
theory Address_Space_Contents
  imports Address_Space_Files
begin

text \<open>
  What mapping, unmapping, mapping a file and reading do to the contents of memory: which bytes read
  as before, and for a page that is not present, whether it still comes from the same place of the same file.
\<close>

section \<open>Contents that stay\<close>

text \<open>
  Outside \<open>T\<close>, and in every other space, every page keeps its place in its file, and every byte
  that no read would have to fault in from a file stays so and reads the same.\<close>

definition keeps_bytes :: "nat \<Rightarrow> nat set \<Rightarrow> memory_world \<Rightarrow> memory_world \<Rightarrow> bool" where
  "keeps_bytes s T w w' \<longleftrightarrow> (\<forall>t\<in>set (live w). \<forall>x. t \<noteq> s \<or> x \<notin> T \<longrightarrow>
     file_source t x w' = file_source t x w \<and> (settled t x w \<longrightarrow> settled t x w' \<and> read_byte t x w' = read_byte t x w))"

lemma keeps_bytesD:
  assumes "keeps_bytes s T w w'" "t \<in> set (live w)" "t \<noteq> s \<or> x \<notin> T"
  shows "file_source t x w' = file_source t x w" "settled t x w \<Longrightarrow> settled t x w'" "settled t x w \<Longrightarrow> read_byte t x w' = read_byte t x w"
  using assms unfolding keeps_bytes_def by blast+

lemma keeps_bytes_refl [simp]: "keeps_bytes s T w w"
  by (simp add: keeps_bytes_def)

lemma keeps_bytes_trans: "keeps_bytes s T a b \<Longrightarrow> keeps_bytes s T b c \<Longrightarrow> live b = live a \<Longrightarrow> keeps_bytes s T a c"
  by (simp add: keeps_bytes_def)

lemma keeps_bytes_mono: "keeps_bytes s T w w' \<Longrightarrow> T \<subseteq> T' \<Longrightarrow> keeps_bytes s T' w w'"
  unfolding keeps_bytes_def by blast

lemma tables_source: "tables_from w w' \<Longrightarrow> file_source t x w' = file_source t x w \<and> find_file_mapping t x w' = find_file_mapping t x w"
  by (simp add: tables_from_def file_source_def find_file_mapping_def)

lemma same_keeps_bytes: "same_pages w w' \<Longrightarrow> tables_from w w' \<Longrightarrow> keeps_bytes s T w w'"
  using tables_source [of w w'] same_pages_resident [of w w'] by (simp add: keeps_bytes_def settled_def)

lemma as_map_keeps_bytes: "keeps_bytes s T w (snd (as_map s a n p w))"
  by (rule same_keeps_bytes [OF as_map_same as_map_tables])

section \<open>Unmapping\<close>

lemma unmap_range_pages:
  assumes inv: "page_inv w" and s: "s \<in> set (live w)"
  shows "store (unmap_range s a fin w) = store w"
    "t \<in> set (live w) \<Longrightarrow> t \<noteq> s \<or> \<not> (a \<le> page_base x \<and> page_base x < fin) \<Longrightarrow> resident t x (unmap_range s a fin w) = resident t x w"
proof -
  define w1 where "w1 = flush_shared_file_pages s a fin w"
  define w2 where "w2 = set_space s ((space_of w1 s)\<lparr>vm_regions := unmap a fin (vm_regions (space_of w1 s)),
    translation_profile_map := unmap a fin (translation_profile_map (space_of w1 s)),
    file_mappings := unmap_file_mappings a fin (file_mappings (space_of w1 s))\<rparr>) w1"
  define w3 where "w3 = ensure_unique_page_map s w2"
  define w4 where "w4 = erase_pages s a fin w3"
  have "same_pages w1 w2" unfolding w2_def by (rule same_pages_space) (simp add: same_core_def)
  then have p2: "same_pages w w2" using same_pages_trans flush_same w1_def by metis
  have i2: "page_inv w2" by (rule same_pages_inv [OF p2 inv])
  have s2: "s \<in> set (live w2)" using p2 s by (simp add: same_pages_def)
  note E = ensure_unique_inv [OF i2 s2, folded w3_def] and ent = ensure_unique_entry [OF i2 s2, folded w3_def]
  note X = erase_pages_inv [OF E(1,2), of a fin, folded w4_def]
  define w5 where "w5 = unmap_range s a fin w"
  have p5: "same_pages w4 w5"
  proof -
    have "w5 = refresh_jit_page_range s a fin (clear_page_permissions s a fin
        (set_space s ((space_of w4 s)\<lparr>exclusive_write_tracked_pages :=
           exclusive_write_tracked_pages (space_of w4 s) - set (page_bases a fin)\<rparr>) w4))"
      by (simp add: unmap_range_def Let_def w1_def w2_def w3_def w4_def w5_def)
    then show ?thesis
      by (simp only:) (intro same_pages_trans [OF _ refresh_range_same] same_pages_trans [OF _ permissions_same(3)] same_pages_space,
        simp add: same_core_def)
  qed
  have st4: "store w4 = store w3"
  proof -
    have "store (uncache_page s b u) = store u" for b u by (simp add: uncache_page_def Let_def split: option.split)
    then have "store (fold (\<lambda>e. uncache_page s (fst e)) es u) = store u" for es :: "(nat \<times> page) list" and u
      by (induction es arbitrary: u) simp_all
    then show ?thesis by (simp add: w4_def erase_pages_def Let_def)
  qed
  have "store w3 = store w2" unfolding w3_def by (rule ensure_unique_held(2))
  then show "store (unmap_range s a fin w) = store w"
    using p2 p5 st4 by (simp add: same_pages_def w5_def)
  show "resident t x (unmap_range s a fin w) = resident t x w"
    if t: "t \<in> set (live w)" and out: "t \<noteq> s \<or> \<not> (a \<le> page_base x \<and> page_base x < fin)"
  proof -
    have live: "live w2 = live w" "live w3 = live w" "live w4 = live w"
      using p2 E(3) confined_inv(2) [OF X(1)] by (simp_all add: same_pages_def)
    have lk: "lookup_ok w2 t" "lookup_ok w3 t" "lookup_ok w4 t"
      using inv_lookup [OF i2] inv_lookup [OF E(1)] inv_lookup [OF confined_inv(1) [OF X(1)]] t live by simp_all
    have "entry w4 (pages_ref (space_of w4 t)) (page_base x) = entry w3 (pages_ref (space_of w3 t)) (page_base x)"
    proof (cases "t = s")
      case True
      then show ?thesis using X(2) [of "page_base x"] out by auto
    next
      case False
      then show ?thesis using X(1) t live by (simp add: confined_def)
    qed
    also have "\<dots> = entry w2 (pages_ref (space_of w2 t)) (page_base x)" using ent t live by simp
    finally have "resident t x w4 = resident t x w2" by (simp add: resident_entry [OF lk(3)] resident_entry [OF lk(1)])
    then show ?thesis using same_pages_resident(1) [OF p2] same_pages_resident(1) [OF p5] by (simp add: w5_def)
  qed
qed

lemma unmapped_source:
  assumes w: "files_apart (file_mappings (space_of w s))" and w': "file_mappings (space_of w' s) = unmap_file_mappings a fin (file_mappings (space_of w s))"
    and lt: "a < fin" and al: "a mod page_size = 0" "fin mod page_size = 0" and x: "\<not> (a \<le> x \<and> x < fin)"
  shows "file_source s x w' = file_source s x w"
proof -
  note un = unmap_files_apart [OF w lt al]
  have pb: "\<not> (a \<le> page_base x \<and> page_base x < fin)" using x aligned_le [OF al(1), of x] aligned_less [OF al(2), of x] by simp
  have ap': "files_apart (file_mappings (space_of w' s))" using un(1) w' by simp
  have src: "page_source (page_base x) e = page_source x e" for e by (simp add: page_source_def page_base_aligned)
  show ?thesis
  proof (cases "find_file_mapping s (page_base x) w")
    case None
    have "find_file_mapping s (page_base x) w' = None"
    proof (rule ccontr)
      assume "find_file_mapping s (page_base x) w' \<noteq> None"
      then obtain e where "e \<in> set (unmap_file_mappings a fin (file_mappings (space_of w s)))" "page_base x \<in> file_span e"
        using find_covering [OF ap'] w' by (metis option.exhaust)
      then obtain e0 where "e0 \<in> set (file_mappings (space_of w s))" "page_base x \<in> file_span e0" using un(2) by blast
      then show False using find_covering [OF w] None by (metis option.distinct(1))
    qed
    then show ?thesis using None by (simp add: file_source_def)
  next
    case (Some e)
    then have e: "e \<in> set (file_mappings (space_of w s))" "page_base x \<in> file_span e" using find_covering [OF w] by blast+
    obtain e' where e': "e' \<in> set (file_mappings (space_of w' s))" "page_base x \<in> file_span e'" "page_source (page_base x) e' = page_source (page_base x) e"
      using un(3) [OF e pb] w' by auto
    then have "find_file_mapping s (page_base x) w' = Some e'" using find_covering [OF ap'] by blast
    then show ?thesis using Some e'(3) by (simp add: file_source_def src)
  qed
qed

lemma settled_source: "settled s x w \<longleftrightarrow> resident s x w \<noteq> None \<or> file_source s x w = None"
  by (simp add: settled_def file_source_def)

lemma unmap_range_keeps_bytes:
  assumes w: "world_files w" and s: "s \<in> set (live w)" and al: "a mod page_size = 0" "fin mod page_size = 0" "a < fin"
  shows "keeps_bytes s {a..<fin} w (unmap_range s a fin w)"
  unfolding keeps_bytes_def
proof (intro ballI allI impI)
  fix t x assume t: "t \<in> set (live w)" and out: "t \<noteq> s \<or> x \<notin> {a..<fin}"
  note P = unmap_range_pages [OF world_okD(1) [OF world_filesD(1) [OF w]] s, where a = a and fin = fin]
  have src: "file_source t x (unmap_range s a fin w) = file_source t x w"
  proof (cases "t = s")
    case True
    have "files_apart (file_mappings (space_of w s))" using world_filesD(2) [OF w s] by (simp add: files_mapped_def)
    then show ?thesis unfolding True
      by (rule unmapped_source) (use al out True in \<open>simp_all add: unmap_range_mappings\<close>)
  next
    case False
    then show ?thesis by (simp add: file_source_def find_file_mapping_def unmap_range_mappings)
  qed
  have "\<not> (a \<le> page_base x \<and> page_base x < fin)" if "t = s"
    using out that aligned_le [OF al(1), of x] aligned_less [OF al(2), of x] by simp
  then have "resident t x (unmap_range s a fin w) = resident t x w" using P(2) [OF t] by blast
  then show "file_source t x (unmap_range s a fin w) = file_source t x w \<and>
      (settled t x w \<longrightarrow> settled t x (unmap_range s a fin w) \<and> read_byte t x (unmap_range s a fin w) = read_byte t x w)"
    using src by (simp add: settled_source read_byte_def P(1) cong: option.case_cong)
qed

lemma as_unmap_keeps_bytes:
  assumes w: "world_files w" and s: "s \<in> set (live w)" and a: "a < 2 ^ 32" and n: "n \<noteq> 0" "\<not> range_overflows a n"
  shows "keeps_bytes s (page_span a n) w (snd (as_unmap s a n w))"
proof -
  define w1 where "w1 = set_space s (invalidate_mapping_leases (page_base a) (page_range_end a n) (space_of w s)) w"
  have "world_files w1" unfolding w1_def
    by (rule grows_files [OF w invalidate_world [OF world_filesD(1) [OF w]] _ invalidate_tables]) (auto simp: regions_at_def)
  moreover have "s \<in> set (live w1)" using s by (simp add: w1_def)
  moreover have "snd (as_unmap s a n w) = unmap_range s (page_base a) (page_range_end a n) w1"
    using n by (simp add: as_unmap_def Let_def w1_def)
  ultimately have "keeps_bytes s (page_span a n) w1 (snd (as_unmap s a n w))"
    using unmap_range_keeps_bytes page_range [OF n a] by (simp add: page_span_def)
  moreover have "keeps_bytes s (page_span a n) w w1" unfolding w1_def
    by (rule same_keeps_bytes [OF same_pages_space invalidate_tables]) simp
  ultimately show ?thesis using keeps_bytes_trans [of s "page_span a n" w w1] by (simp add: w1_def)
qed

section \<open>Mapping a file\<close>

lemma open_mapping_backings: "backing_of (snd (snd (open_mapping probe path off n cst))) = backing_of (snd cst)"
  by (simp add: open_mapping_def Let_def case_prod_beta split: option.splits)

lemma map_file_keeps_bytes:
  assumes w: "world_files w" and s: "s \<in> set (live w)" and a: "a < 2 ^ 32" and r: "map_file probe s a n p path off w = (b, w')"
  shows "keeps_bytes s (if b then page_span a n else {}) w w'"
proof -
  note ok = world_filesD(1) [OF w]
  note m = map_file_remaps [OF ok s a r]
  define c where "c = cache_ref (space_of w s)"
  obtain found cache st where o: "open_mapping probe path off n (cache_of w c, store w) = (found, cache, st)"
    by (metis prod_cases3)
  define w1 where "w1 = w\<lparr>cache_of := (cache_of w)(c := cache), store := st\<rparr>"
  have sw: "space_of w1 = space_of w" by (simp add: w1_def)
  define fin where "fin = page_range_end a n"
  define sp where "sp = invalidate_mapping_leases a fin (space_of w s)"
  define e where "e = (a, \<lparr>fm_end = fin, fm_offset = off, fm_backing = the found\<rparr>)"
  define sp1 where "sp1 = sp\<lparr>file_mappings := om_emplace a (snd e) (file_mappings sp)\<rparr>"
  define w2 where "w2 = set_space s (sp1\<lparr>vm_regions := vm_map_or a fin p (vm_regions sp1)\<rparr>) w1"
  define bad where "bad \<longleftrightarrow> n = 0 \<or> range_overflows a n \<or> a mod page_size \<noteq> 0 \<or> off mod page_size \<noteq> 0"
  have eq: "(b, w') = (if bad then (False, w) else if found = None then (False, w1)
      else if overlaps a fin (vm_regions (space_of w s)) then (False, w1)
      else if map_of (file_mappings sp) a \<noteq> None then (False, set_space s sp1 w1)
      else (True, add_page_permissions s a fin p w2))"
    unfolding r [symmetric] using o
    by (cases found) (auto simp: map_file_def Let_def c_def [symmetric] w1_def [symmetric] sw fin_def [symmetric]
        sp_def [symmetric] sp1_def w2_def bad_def e_def)
  have bk: "backing_of st = backing_of (store w)" using open_mapping_backings [of probe path off n "(cache_of w c, store w)"] o by simp
  have res1: "resident t x w1 = resident t x w" "read_byte t x w1 = read_byte t x w" for t x
  proof -
    have "find_page t x w1 = find_page t x w" by (simp add: find_page_def w1_def cong: option.case_cong)
    then show "resident t x w1 = resident t x w" by (simp add: resident_def)
    then show "read_byte t x w1 = read_byte t x w" by (simp add: read_byte_def w1_def bk cong: option.case_cong)
  qed
  have k1: "keeps_bytes s T w w1" for T
    using res1 by (simp add: keeps_bytes_def settled_def file_source_def find_file_mapping_def sw)
  show ?thesis
  proof (cases b)
    case False
    have "keeps_bytes s {} w1 (set_space s sp1 w1)" if "map_of (file_mappings sp) a \<noteq> None"
    proof (rule same_keeps_bytes)
      show "same_pages w1 (set_space s sp1 w1)" by (rule same_pages_space) (simp add: sp1_def sp_def sw same_core_def invalidate_mapping_leases_def)
      show "tables_from w1 (set_space s sp1 w1)"
        using that by (intro set_space_tables_from) (auto simp: sp1_def om_emplace_def sp_def invalidate_mapping_leases_def sw)
    qed
    then have "keeps_bytes s {} w (set_space s sp1 w1)" if "map_of (file_mappings sp) a \<noteq> None"
      using that keeps_bytes_trans [OF k1] by (simp add: w1_def)
    then show ?thesis using eq False k1 by (auto split: if_splits)
  next
    case True
    then have w': "w' = add_page_permissions s a fin p w2" and new: "map_of (file_mappings (space_of w s)) a = None"
      using eq by (simp_all add: sp_def split: if_splits)
    note mt = m(2) [OF True]
    have ab: "page_base a = a" using mt by (simp add: page_base_aligned)
    have span: "file_span e = page_span a n" by (simp add: file_span_def page_span_def e_def fin_def ab)
    have p2: "same_pages w1 w2" unfolding w2_def
      by (rule same_pages_space) (simp add: sp1_def sp_def sw same_core_def invalidate_mapping_leases_def)
    have p1: "same_pages w1 w'" unfolding w' by (rule same_pages_trans [OF p2 permissions_same(1)])
    have res: "resident t x w' = resident t x w" "read_byte t x w' = read_byte t x w" for t x
      using same_pages_resident [OF p1] res1 by simp_all
    have fm: "file_mappings (space_of w' t) = (if t = s then om_put a (snd e) (file_mappings (space_of w s)) else file_mappings (space_of w t))" for t
    proof -
      have "file_mappings (space_of w' t) = file_mappings (space_of w2 t)"
        using permissions_tables(1) [of w2 s a fin p] unfolding w' tables_from_def by blast
      then show ?thesis using new by (simp add: w2_def sp1_def sp_def om_emplace_def sw)
    qed
    have live: "live w' = live w" using remapsD(2) [OF m(1)] .
    have wf': "world_files w'" using map_file_files [OF w s a, of probe n p path off] r by simp
    have ap: "files_apart (file_mappings (space_of w s))" "files_apart (file_mappings (space_of w' s))"
      using world_filesD(2) [OF w s] world_filesD(2) [OF wf', of s] s live by (simp_all add: files_mapped_def)
    have set: "set (file_mappings (space_of w' s)) = insert e (set (file_mappings (space_of w s)))"
      using new unfolding fm by (auto simp: om_put_set [OF files_apartD(1) [OF ap(1)]] e_def map_of_eq_None_iff image_iff)
    have src: "find_file_mapping t x w' = find_file_mapping t x w" if "t \<noteq> s \<or> x \<notin> page_span a n" for t x
    proof (cases "t = s")
      case True
      then have "find_file_mapping s x w' = Some f \<longleftrightarrow> find_file_mapping s x w = Some f" for f
        using that unfolding find_covering [OF ap(1)] find_covering [OF ap(2)] set by (auto simp: span)
      then have "find_file_mapping s x w' = find_file_mapping s x w"
        by (metis not_None_eq)
      then show ?thesis unfolding True .
    qed (simp add: find_file_mapping_def fm)
    have pb: "x \<notin> page_span a n \<Longrightarrow> page_base x \<notin> page_span a n" for x
    proof -
      have "fin mod page_size = 0" using page_range(2) [of n a] mt a by (simp add: fin_def)
      then show "x \<notin> page_span a n \<Longrightarrow> page_base x \<notin> page_span a n"
        using mt aligned_le [of a x] aligned_less [of fin x] by (simp add: page_span_def ab fin_def [symmetric])
    qed
    have "find_file_mapping t (page_base x) w' = find_file_mapping t (page_base x) w" if "t \<noteq> s \<or> x \<notin> page_span a n" for t x
      using src [of t "page_base x"] that pb [of x] by blast
    then show ?thesis using True res by (simp add: keeps_bytes_def settled_def file_source_def)
  qed
qed

section \<open>Reading\<close>

text \<open>A fault makes only pages present that a file mapping covers.\<close>

lemma fault_cluster_other:
  assumes inv: "page_inv w" and own: "owns s w" and bm: "base mod page_size = 0" and x: "page_base x \<noteq> base"
  shows "resident s x (fault_cluster_page pread s f fin (fp, base) w) = resident s x w"
proof -
  have s: "s \<in> set (live w)" using own by (simp add: owns_def)
  define pg where "pg = (case entry w (pages_ref (space_of w s)) base of None \<Rightarrow> blank_page | Some pg \<Rightarrow> pg)"
  define v where "v = (if pg_backing pg \<noteq> None then w else load_and_install pread s base f fp (min page_size (fin - fp)) pg w)"
  have eq: "fault_cluster_page pread s f fin (fp, base) w = refresh_jit_page s base v"
    by (simp add: fault_cluster_page_eq [OF inv own] v_def pg_def Let_def)
  have "resident s x v = resident s x w"
  proof (cases "pg_backing pg = None")
    case True
    then have st: "page_step s base w v" using load_and_install_step(1) [OF inv own bm] by (simp add: v_def)
    then have "lookup_ok v s" using s by (simp add: page_step_def page_inv_def)
    then show ?thesis using st s x by (simp add: resident_entry inv_lookup [OF inv s] page_step_def)
  qed (simp add: v_def)
  then show ?thesis unfolding eq using same_pages_resident(1) [OF refresh_same] by metis
qed

lemma fault_pages_other:
  assumes "page_inv w" "owns s w" "\<forall>(fp, base)\<in>set pages. base mod page_size = 0 \<and> base \<noteq> page_base x"
  shows "faulted s w (fold (fault_cluster_page pread s f fin) pages w) \<and>
    resident s x (fold (fault_cluster_page pread s f fin) pages w) = resident s x w"
  using assms
proof (induction pages arbitrary: w)
  case (Cons q pages)
  obtain fp base where q: "q = (fp, base)" by fastforce
  have b: "base mod page_size = 0" "page_base x \<noteq> base" using Cons.prems(3) by (auto simp: q)
  define v where "v = fault_cluster_page pread s f fin (fp, base) w"
  have f: "faulted s w v" unfolding v_def by (rule fault_cluster_facts(1) [OF Cons.prems(1,2) b(1)])
  have "resident s x v = resident s x w" unfolding v_def by (rule fault_cluster_other [OF Cons.prems(1,2) b])
  then show ?case using Cons.IH [OF faulted_inv(1,2) [OF f]] Cons.prems(3) faulted_trans [OF f] by (simp add: q v_def [symmetric])
qed (simp add: faulted_refl)

lemma fault_one_other:
  assumes inv: "page_inv w" and own: "owns s w" and ap: "files_apart (file_mappings (space_of w s))" and cm: "current mod page_size = 0"
    and x: "find_file_mapping s (page_base x) w = None"
  shows "resident s x (fault_one pread s current w) = resident s x w"
proof (cases "resident s current w \<noteq> None \<or> find_file_mapping s current w = None")
  case True
  have "fault_one pread s current w = w"
  proof (cases "case find_page s current w of None \<Rightarrow> False | Some pg \<Rightarrow> pg_backing pg \<noteq> None")
    case True
    then show ?thesis by (simp only: fault_one_def if_True)
  next
    case no: False
    then have "resident s current w = None" by (simp add: resident_def split: option.splits)
    then have "find_file_mapping s current w = None" using True by simp
    then show ?thesis by (simp add: fault_one_def)
  qed
  then show ?thesis by simp
next
  case False
  then obtain start m where fm: "find_file_mapping s current w = Some (start, m)" by auto
  define f where "f = fm_backing m"
  define cur where "cur = fm_offset m + (current - start)"
  define cfs where "cfs = max (first_offset f) (cur - cur mod file_prefetch_bytes)"
  define cfe where "cfe = min (end_offset f) (cfs + file_prefetch_bytes)"
  define cgs where "cgs = start + (cfs - fm_offset m)"
  define pages where "pages = cluster_pages cfs cfe cgs (fm_end m)"
  have eq: "fault_one pread s current w = fold (fault_cluster_page pread s f cfe) pages w"
  proof -
    have "\<not> (case find_page s current w of None \<Rightarrow> False | Some pg \<Rightarrow> pg_backing pg \<noteq> None)"
      using False by (simp add: resident_def split: option.splits)
    then show ?thesis by (simp add: fault_one_def fm Let_def pages_def cgs_def cfe_def cfs_def cur_def f_def)
  qed
  have mem: "(start, m) \<in> set (file_mappings (space_of w s))" using find_covering [OF ap] fm by blast
  then have mo: "mapping_ok (start, m)" using files_apartD(2) [OF ap] by (simp add: files_ok_def)
  have pb: "file_prefetch_bytes = guest_file_prefetch_pages * page_size"
    by (simp add: file_prefetch_bytes_def guest_file_prefetch_pages_def page_size_def)
  have al: "page_size dvd start" "page_size dvd fm_offset m" "first_offset f = fm_offset m"
    using mo by (simp_all add: mapping_ok_def Let_def f_def mod_0_imp_dvd)
  have "page_size dvd current - start" using cm al by (simp add: dvd_diff_nat mod_0_imp_dvd)
  then have "page_size dvd cur" using al by (simp add: cur_def)
  then have "page_size dvd cur - cur mod file_prefetch_bytes" using pb by (metis dvd_diff_nat dvd_mod dvd_triv_right)
  then have cg: "cgs mod page_size = 0" using al by (simp add: cgs_def cfs_def max_def dvd_diff_nat dvd_imp_mod_0)
  have "\<forall>(fp, base)\<in>set pages. base mod page_size = 0 \<and> base \<noteq> page_base x"
  proof safe
    fix fp base assume b: "(fp, base) \<in> set pages"
    show "base mod page_size = 0" by (rule cluster_pages_aligned [OF cg b [unfolded pages_def]])
  next
    fix fp assume b: "(fp, page_base x) \<in> set pages"
    have "start \<le> page_base x \<and> page_base x < fm_end m"
      using b by (auto simp: pages_def cluster_pages_def cgs_def dest!: set_takeWhileD)
    then have "find_file_mapping s (page_base x) w = Some (start, m)"
      using mem unfolding find_covering [OF ap] by (simp add: file_span_def)
    then show False using x by simp
  qed
  then show ?thesis unfolding eq using fault_pages_other [OF inv own] by blast
qed

lemma fault_all_other:
  assumes "page_inv w" "owns s w" "files_apart (file_mappings (space_of w s))" "\<forall>b\<in>set bs. b mod page_size = 0"
    and "find_file_mapping s (page_base x) w = None"
  shows "resident s x (fold (fault_one pread s) bs w) = resident s x w"
  using assms
proof (induction bs arbitrary: w)
  case (Cons b bs)
  define v where "v = fault_one pread s b w"
  have F: "faulted s w v"
    unfolding v_def using fault_one_facts(1) [OF Cons.prems(1,2) files_apartD(2) [OF Cons.prems(3)]] Cons.prems(4) by simp
  have "resident s x v = resident s x w"
    unfolding v_def using fault_one_other [OF Cons.prems(1-3) _ Cons.prems(5)] Cons.prems(4) by simp
  moreover have "file_mappings (space_of v s) = file_mappings (space_of w s)" "find_file_mapping s (page_base x) v = None"
    using faulted_inv(4) [OF F] same_view_mapping [OF faulted_inv(4) [OF F]] Cons.prems(5) by (simp_all add: same_view_def)
  ultimately show ?case using Cons.IH [OF faulted_inv(1,2) [OF F]] Cons.prems(3,4) by (simp add: v_def [symmetric])
qed simp

text \<open>A change that reading may make: tables stay, pages of files become present, nothing else.\<close>

definition only_reads :: "nat \<Rightarrow> memory_world \<Rightarrow> memory_world \<Rightarrow> bool" where
  "only_reads s w w' \<longleftrightarrow> keeps_tables w w' \<and> keeps_bytes s {} w w'"

lemma only_reads_refl: "world_ok w \<Longrightarrow> only_reads s w w"
  by (simp add: only_reads_def keeps_tables_refl world_okD)

lemma only_reads_trans: "only_reads s a b \<Longrightarrow> only_reads s b c \<Longrightarrow> only_reads s a c"
  unfolding only_reads_def using keeps_tables_trans keeps_bytes_trans by (metis keeps_tables_def)

lemma fault_file_pages_reads:
  assumes w: "world_files w" and s: "s \<in> set (live w)"
  shows "only_reads s w (snd (fault_file_pages pread s a n w))"
proof (cases "n = 0 \<or> range_overflows a n \<or> \<not> range_accessible s a n perm_none w")
  case True
  then have "snd (fault_file_pages pread s a n w) = w" by (auto simp: fault_file_pages_def)
  then show ?thesis using only_reads_refl [OF world_filesD(1) [OF w]] by simp
next
  case False
  note ok = world_filesD(1) [OF w]
  note inv = world_okD(1) [OF ok]
  have acc: "range_accessible s a n perm_none w" "n \<noteq> 0" using False by simp_all
  obtain v where v: "fault_file_pages pread s a n w = (True, v)" "faulted s w v"
    using fault_file_pages_facts [OF inv s world_okD(4) [OF ok s] acc] by blast
  define u where "u = ensure_unique_page_map s w"
  define bs where "bs = page_bases (page_base a) (page_range_end a n)"
  have vu: "v = fold (fault_one pread s) bs u" using v(1) False by (simp add: fault_file_pages_def u_def bs_def)
  have U: "faulted s w u" unfolding u_def by (rule ensure_unique_faulted [OF inv s])
  have ap: "files_apart (file_mappings (space_of u s))"
    using world_filesD(2) [OF w s] faulted_inv(4) [OF U] by (simp add: files_mapped_def same_view_def)
  have al: "\<forall>b\<in>set bs. b mod page_size = 0" using page_bases_mod [OF page_base_mod] unfolding bs_def by blast
  have unique: "resident s x u = resident s x w" for x
    unfolding u_def using ensure_unique_inv [OF inv s] ensure_unique_entry [OF inv s s] inv s
    by (simp add: resident_entry page_inv_def)
  have none: "resident s x v = resident s x w" if x: "find_file_mapping s (page_base x) w = None" for x
  proof -
    have "find_file_mapping s (page_base x) u = None" using x same_view_mapping [OF faulted_inv(4) [OF U]] by simp
    then show ?thesis unfolding vu using fault_all_other [OF faulted_inv(1,2) [OF U] ap al] unique by simp
  qed
  have fm: "find_file_mapping t x v = find_file_mapping t x w" for t x by (rule same_view_mapping [OF faulted_inv(4) [OF v(2)]])
  have "keeps_bytes s {} w v"
    unfolding keeps_bytes_def
  proof (intro ballI allI impI conjI)
    fix t x assume t: "t \<in> set (live w)"
    show "file_source t x v = file_source t x w" by (simp add: file_source_def fm)
    assume st: "settled t x w"
    have "resident t x v = resident t x w \<and> read_byte t x v = read_byte t x w"
    proof (cases "t \<noteq> s \<or> resident t x w \<noteq> None")
      case True
      then show ?thesis using v(2) t by (simp add: faulted_def)
    next
      case False
      then show ?thesis using none [of x] st by (auto simp: settled_def read_byte_def)
    qed
    then show "settled t x v" "read_byte t x v = read_byte t x w" using st by (simp_all add: settled_def fm)
  qed
  then show ?thesis using v faulted_keeps by (simp add: only_reads_def)
qed

lemma read_integer_only_reads:
  assumes w: "world_files w" and s: "s \<in> set (live w)" and n: "n \<noteq> 0" "n \<le> page_size"
  shows "\<exists>r v. read_integer pread s a n p w = Some (r, v) \<and> only_reads s w v"
proof (cases "read_integer_attempt s a n p w")
  case Must_Fault
  note ok = world_filesD(1) [OF w]
  note inv = world_okD(1) [OF ok]
  have acc: "range_accessible s a n p w" using Must_Fault by (auto simp: read_integer_attempt_def split: if_splits)
  obtain v where v: "fault_file_pages pread s a n w = (True, v)" "faulted s w v" "\<not> range_needs_file_fault s a n v"
    "\<forall>b\<in>set (page_bases (page_base a) (page_range_end a n)). find_file_mapping s b w \<noteq> None \<longrightarrow> resident s b v \<noteq> None"
    using fault_file_pages_facts [OF inv s world_okD(4) [OF ok s] accessible_any [OF acc] n(1)] by blast
  have "find_file_mapping s a v = None \<or> resident s a v \<noteq> None"
    by (rule faulted_settles [OF s inv v(2) world_okD(4) [OF ok s]]) (use v(4) page_bases_first [OF n(1)] in blast)
  moreover have "range_accessible s a n p v" using acc same_view_accessible [OF faulted_inv(4) [OF v(2)]] by simp
  ultimately obtain x where "read_integer_attempt s a n p v = Got x" using read_integer_attempt_settled v(3) by blast
  then have "read_integer pread s a n p v = Some (Some x, v)" by (subst read_integer.simps) simp
  then have "read_integer pread s a n p w = Some (Some x, v)" using Must_Fault v(1) by (subst read_integer.simps) simp
  then show ?thesis using fault_file_pages_reads [OF w s, of pread a n] v(1) by simp
qed (use only_reads_refl [OF world_filesD(1) [OF w]] in \<open>subst read_integer.simps, simp\<close>)+

section \<open>Moves\<close>

text \<open>A change of the regions of one space with what happens to the contents: outside \<open>T\<close>, nothing.\<close>

definition moves :: "nat \<Rightarrow> nat set \<Rightarrow> (nat \<Rightarrow> perm option) \<Rightarrow> memory_world \<Rightarrow> memory_world \<Rightarrow> bool" where
  "moves s T f w w' \<longleftrightarrow> remaps s f w w' \<and> keeps_bytes s T w w' \<and> world_files w'"

lemma movesD:
  assumes "moves s T f w w'"
  shows "remaps s f w w'" "keeps_bytes s T w w'" "world_files w'" "live w' = live w" "regions_at s w' x = f x"
  using assms by (simp_all add: moves_def remaps_def)

lemma moves_refl: "world_files w \<Longrightarrow> moves s T (regions_at s w) w w"
  by (simp add: moves_def remaps_refl world_filesD(1))

lemma moves_trans: "moves s T f a b \<Longrightarrow> moves s T g b c \<Longrightarrow> moves s T g a c"
  unfolding moves_def using remaps_trans keeps_bytes_trans remapsD(2) by metis

lemma moves_cong: "moves s T f w w' \<Longrightarrow> (\<And>x. f x = g x) \<Longrightarrow> moves s T g w w'"
  unfolding moves_def using remaps_cong by blast

lemma moves_mono: "moves s T f w w' \<Longrightarrow> T \<subseteq> T' \<Longrightarrow> moves s T' f w w'"
  unfolding moves_def using keeps_bytes_mono by blast

lemma as_unmap_moves:
  assumes w: "world_files w" and s: "s \<in> set (live w)" and a: "a < 2 ^ 32" and n: "n \<noteq> 0" "\<not> range_overflows a n"
  shows "moves s (page_span a n) (\<lambda>x. if x \<in> page_span a n then None else regions_at s w x) w (snd (as_unmap s a n w))"
  unfolding moves_def
  using as_unmap_remaps(2) [OF world_filesD(1) [OF w] s a n] as_unmap_keeps_bytes [OF w s a n] as_unmap_files [OF w s a] by blast

lemma as_map_moves:
  assumes w: "world_files w" and s: "s \<in> set (live w)" and a: "a < 2 ^ 32" and n: "n \<noteq> 0" "\<not> range_overflows a n"
  shows "moves s T (\<lambda>x. if x \<in> page_span a n then Some (or_perm p (regions_at s w x)) else regions_at s w x) w (snd (as_map s a n p w))"
  unfolding moves_def
  using as_map_remaps(2) [OF world_filesD(1) [OF w] s a n, of p] as_map_keeps_bytes as_map_files [OF w s a] by blast

lemma map_file_moves:
  assumes w: "world_files w" and s: "s \<in> set (live w)" and a: "a < 2 ^ 32" and r: "map_file probe s a n p path off w = (b, w')"
  shows "moves s (if b then page_span a n else {}) (if b then \<lambda>x. if x \<in> page_span a n then Some (or_perm p (regions_at s w x)) else regions_at s w x
      else regions_at s w) w w'"
  unfolding moves_def
  using map_file_remaps(1) [OF world_filesD(1) [OF w] s a r] map_file_keeps_bytes [OF w s a r] map_file_files [OF w s a, of probe n p path off] r
  by simp

lemma reads_moves: "world_files w \<Longrightarrow> only_reads s w w' \<Longrightarrow> moves s {} (regions_at s w) w w'"
  unfolding moves_def only_reads_def using keeps_remaps keeps_files world_filesD(1) by blast

lemma quiet_moves: "world_files w \<Longrightarrow> quiet w w' \<Longrightarrow> moves s T (regions_at s w) w w'"
  unfolding moves_def using keeps_remaps keeps_files quiet_keeps world_okD(1) world_filesD(1) same_keeps_bytes view_tables quiet_def by metis

lemma only_reads_files: "world_files w \<Longrightarrow> only_reads s w w' \<Longrightarrow> world_files w'"
  using keeps_files by (simp add: only_reads_def)

lemma only_reads_live: "only_reads s w w' \<Longrightarrow> live w' = live w"
  by (simp add: only_reads_def keeps_tables_def)

end
