(* ===== verification/Shared_Region_Properties.thy ===== *)
theory Shared_Region_Properties
  imports Shared_Region Address_Space_Contents
begin

text \<open>
  The properties of the shared region: what making it private releases, which slide is chosen, and
  what a call that maps leaves behind when it fails.
\<close>

section \<open>Ranges as sets of addresses\<close>

definition covered :: "shared_range list \<Rightarrow> nat set" where
  "covered rs = (\<Union>r\<in>set rs. {sr_address r..<sr_end r})"

lemma covered_simps [simp]:
  "covered [] = {}" "covered (r # rs) = {sr_address r..<sr_end r} \<union> covered rs" "covered (xs @ ys) = covered xs \<union> covered ys"
  by (auto simp: covered_def)

lemma covered_sort [simp]: "covered (sort_key f rs) = covered rs"
  by (simp add: covered_def)

lemma merge_range_covers:
  assumes "\<forall>m\<in>set merged. sr_address m \<le> sr_address r" "sr_address r < sr_end r"
  shows "covered (merge_range merged r) = covered merged \<union> {sr_address r..<sr_end r}"
    "\<forall>m\<in>set (merge_range merged r). sr_address m \<le> sr_address r"
    "sorted (map sr_address merged) \<Longrightarrow> sorted (map sr_address (merge_range merged r))"
proof -
  have "covered (merge_range merged r) = covered merged \<union> {sr_address r..<sr_end r} \<and>
    (\<forall>m\<in>set (merge_range merged r). sr_address m \<le> sr_address r) \<and>
    (sorted (map sr_address merged) \<longrightarrow> sorted (map sr_address (merge_range merged r)))"
  proof (cases merged rule: rev_cases)
    case (snoc ms b)
    then show ?thesis
      using assms by (cases "sr_address r \<le> sr_end b") (auto simp: sorted_append)
  qed (use assms in \<open>simp\<close>)
  then show "covered (merge_range merged r) = covered merged \<union> {sr_address r..<sr_end r}"
    "\<forall>m\<in>set (merge_range merged r). sr_address m \<le> sr_address r"
    "sorted (map sr_address merged) \<Longrightarrow> sorted (map sr_address (merge_range merged r))" by blast+
qed

lemma merge_from:
  assumes "sorted (map sr_address rs)" "\<forall>r\<in>set rs. sr_address r < sr_end r"
    and "\<forall>m\<in>set merged. \<forall>r\<in>set rs. sr_address m \<le> sr_address r" "sorted (map sr_address merged)"
  shows "covered (foldl merge_range merged rs) = covered merged \<union> covered rs \<and> sorted (map sr_address (foldl merge_range merged rs))"
  using assms
proof (induction rs arbitrary: merged)
  case (Cons r rs)
  have "\<forall>m\<in>set merged. sr_address m \<le> sr_address r" "sr_address r < sr_end r" using Cons.prems by auto
  note m = merge_range_covers [OF this]
  have "\<forall>m\<in>set (merge_range merged r). \<forall>r'\<in>set rs. sr_address m \<le> sr_address r'"
    using m(2) Cons.prems(1) by (auto intro: order_trans)
  then show ?case using Cons.IH [of "merge_range merged r"] Cons.prems m(1,3) by auto
qed simp

lemma merge_ranges_covers:
  assumes "\<forall>r\<in>set rs. sr_address r < sr_end r"
  shows "covered (merge_ranges rs) = covered rs" "sorted (map sr_address (merge_ranges rs))"
  using merge_from [of "sort_key sr_address rs" "[]"] assms by (simp_all add: merge_ranges_def)

section \<open>What is released\<close>

lemma release_gaps_covers:
  assumes "sorted (map sr_address keep)" "position < fin" and r: "release_gaps position fin keep = (out, final)"
  shows "covered out \<union> {final..<fin} = {position..<fin} - covered keep" "\<forall>g\<in>set out. sr_address g < sr_end g \<and> sr_end g \<le> fin"
proof -
  have "covered out \<union> {final..<fin} = {position..<fin} - covered keep \<and> (\<forall>g\<in>set out. sr_address g < sr_end g \<and> sr_end g \<le> fin)"
    using assms
  proof (induction keep arbitrary: position out)
    case (Cons k keep)
    define position' where "position' = max position (sr_end k)"
    define gap where "gap = (if sr_address k > position then [\<lparr>sr_address = position, sr_end = min (sr_address k) fin\<rparr>] else [])"
    have later: "covered keep \<inter> {..<sr_address k} = {}" using Cons.prems(1) by (fastforce simp: covered_def)
    show ?case
    proof (cases "sr_address k < fin")
      case False
      then have "out = []" "final = position" using Cons.prems(3) by simp_all
      then show ?thesis using False later by auto
    next
      case below: True
      have gap_covers: "covered gap = {position..<sr_address k} \<and> (\<forall>g\<in>set gap. sr_address g < sr_end g \<and> sr_end g \<le> fin)"
        using below Cons.prems(2) by (simp add: gap_def)
      show ?thesis
      proof (cases "position' \<ge> fin")
        case True
        then have "out = gap" "final = position'" using Cons.prems(3) below by (auto simp: Let_def position'_def [symmetric] gap_def [symmetric])
        moreover have "{position..<sr_address k} \<union> {position'..<fin} = {position..<fin} - ({sr_address k..<sr_end k} \<union> covered keep)"
          using True later below Cons.prems(2) unfolding position'_def by (auto simp: max_def split: if_splits)
        ultimately show ?thesis using gap_covers by simp
      next
        case False
        obtain rest where rest: "release_gaps position' fin keep = (rest, final)" "out = gap @ rest"
          using Cons.prems(3) below False
          by (auto simp: Let_def position'_def [symmetric] gap_def [symmetric] split: prod.splits)
        have "sorted (map sr_address keep)" "position' < fin" using Cons.prems(1) False by simp_all
        note ih = Cons.IH [OF this rest(1)]
        have "{position..<sr_address k} \<union> ({position'..<fin} - covered keep) = {position..<fin} - ({sr_address k..<sr_end k} \<union> covered keep)"
          using later below Cons.prems(2) unfolding position'_def by (auto simp: max_def split: if_splits)
        then show ?thesis using ih gap_covers rest(2) by (simp add: Un_assoc ball_Un)
      qed
    qed
  qed simp
  then show "covered out \<union> {final..<fin} = {position..<fin} - covered keep" "\<forall>g\<in>set out. sr_address g < sr_end g \<and> sr_end g \<le> fin" by blast+
qed

definition mapped_set :: "vm_map \<Rightarrow> nat set" where
  "mapped_set m = {a. perm_at m a \<noteq> None}"

lemma region_at_or_after_covers:
  assumes inv: "vm_inv m"
  shows "case region_at_or_after c m of
      None \<Rightarrow> mapped_set m \<inter> {c..} = {}
    | Some r \<Rightarrow> mr_address r < mr_end r \<and> c < mr_end r \<and> {mr_address r..<mr_end r} \<subseteq> mapped_set m \<and>
        mapped_set m \<inter> {c..<mr_address r} = {}"
proof -
  have ch: "chain 0 m" using inv by (simp add: vm_inv_def)
  note find = region_at_or_after_find [OF ch, of c]
  show ?thesis
  proof (cases "find (\<lambda>e. c < r_end (snd e)) m")
    case None
    have "\<forall>e\<in>set m. r_end (snd e) \<le> c" using None by (auto simp: find_None_iff not_less)
    then have "perm_at m a = None" if "c \<le> a" for a using that by (fastforce simp: perm_at_None [OF ch])
    then show ?thesis using None find by (auto simp: mapped_set_def)
  next
    case (Some e)
    obtain s r where e: "e = (s, r)" by (cases e) auto
    from Some obtain i where i: "i < length m" "c < r_end (snd (m ! i))" "e = m ! i" "\<forall>j < i. \<not> c < r_end (snd (m ! j))"
      by (auto simp: find_Some_iff)
    have mem: "(s, r) \<in> set m" using i e by (metis nth_mem)
    have "perm_at m a = None" if a: "c \<le> a" "a < s" for a
    proof -
      have "\<not> (s' \<le> a \<and> a < r_end r')" if "(s', r') \<in> set m" for s' r'
      proof
        assume cov: "s' \<le> a \<and> a < r_end r'"
        obtain j where j: "j < length m" "m ! j = (s', r')" using \<open>(s', r') \<in> set m\<close> by (auto simp: in_set_conv_nth)
        have "i \<le> j" using i(4) j cov a by (metis leI le_less_trans snd_conv)
        moreover have "i \<noteq> j" using cov a j i(3) e by auto
        ultimately have "i < j" by simp
        then have "s < s'" using chain_wf [OF ch] i(1,3) j e sorted_wrt_nth_less [of "\<lambda>a b. fst a < fst b" m i j]
          by (simp add: om_wf_def flip: i(3))
        then show False using cov a by simp
      qed
      then show ?thesis by (auto simp: perm_at_None [OF ch])
    qed
    moreover have "perm_at m a \<noteq> None" if "s \<le> a" "a < r_end r" for a using perm_at_mem [OF ch mem] that by simp
    moreover have "s < r_end r" using chain_mem [OF ch mem] by simp
    ultimately show ?thesis using find Some e i(2,3) by (auto simp: mapped_set_def to_mapping_def)
  qed
qed

lemma release_loop_covers:
  assumes "vm_inv m" "sorted (map sr_address keep)" "arm_shared_text_base \<le> cursor"
  shows "covered (release_loop m keep cursor) = mapped_set m \<inter> {cursor..<arm_shared_region_end} - covered keep \<and>
    (\<forall>r\<in>set (release_loop m keep cursor). sr_address r < sr_end r \<and> sr_end r \<le> arm_shared_region_end)"
  using assms
proof (induction m keep cursor rule: release_loop.induct)
  case (1 m keep cursor)
  note reg = region_at_or_after_covers [OF "1.prems"(1), of cursor]
  consider (past) "\<not> cursor < arm_shared_region_end" | (none) "cursor < arm_shared_region_end" "region_at_or_after cursor m = None"
    | (some) r where "cursor < arm_shared_region_end" "region_at_or_after cursor m = Some r"
    by (cases "region_at_or_after cursor m") blast+
  then show ?case
  proof cases
    case past
    then show ?thesis by (simp add: release_loop.simps [of m keep cursor])
  next
    case none
    then have "mapped_set m \<inter> {cursor..<arm_shared_region_end} = {}" using reg by auto
    then show ?thesis using none by (simp add: release_loop.simps [of m keep cursor])
  next
    case some
    define first where "first = max cursor (max (mr_address r) arm_shared_text_base)"
    define fin where "fin = min (mr_end r) arm_shared_region_end"
    have first: "first = max cursor (mr_address r)" using "1.prems"(3) by (simp add: first_def max_def)
    have r: "mr_address r < mr_end r" "cursor < mr_end r" "{mr_address r..<mr_end r} \<subseteq> mapped_set m"
      "mapped_set m \<inter> {cursor..<mr_address r} = {}" using reg some(2) by simp_all
    show ?thesis
    proof (cases "first \<ge> arm_shared_region_end")
      case True
      then have "release_loop m keep cursor = []"
        using some by (subst release_loop.simps) (simp add: Let_def first_def [symmetric])
      moreover have "mapped_set m \<inter> {cursor..<arm_shared_region_end} = {}" using True r(4) some(1) unfolding first le_max_iff_disj by fastforce
      ultimately show ?thesis by simp
    next
      case below: False
      then have lt: "first < fin" using r(1,2) some(1) first by (auto simp: fin_def not_le)
      define keep' where "keep' = dropWhile (\<lambda>k. sr_end k \<le> first) keep"
      obtain out position where gaps: "release_gaps first fin keep' = (out, position)" by fastforce
      define tail where "tail = (if position < fin then [\<lparr>sr_address = position, sr_end = fin\<rparr>] else [])"
      have eq: "release_loop m keep cursor = out @ tail @ release_loop m keep' fin"
        using some below lt gaps by (subst release_loop.simps)
          (simp add: Let_def first_def [symmetric] fin_def [symmetric] keep'_def [symmetric] tail_def)
      have sorted: "sorted (map sr_address keep')"
        using "1.prems"(2) unfolding keep'_def by (metis map_append sorted_append takeWhile_dropWhile_id)
      have same: "{first..} - covered keep' = {first..} - covered keep"
      proof -
        have "covered (takeWhile (\<lambda>k. sr_end k \<le> first) keep) \<inter> {first..} = {}"
          by (auto simp: covered_def dest: set_takeWhileD)
        moreover have "covered keep = covered (takeWhile (\<lambda>k. sr_end k \<le> first) keep) \<union> covered keep'"
          unfolding keep'_def by (metis covered_simps(3) takeWhile_dropWhile_id)
        ultimately show ?thesis by blast
      qed
      note g = release_gaps_covers [OF sorted lt gaps]
      have base: "arm_shared_text_base \<le> fin" using lt by (simp add: first_def)
      have ih: "covered (release_loop m keep' fin) = mapped_set m \<inter> {fin..<arm_shared_region_end} - covered keep' \<and>
          (\<forall>r\<in>set (release_loop m keep' fin). sr_address r < sr_end r \<and> sr_end r \<le> arm_shared_region_end)"
      proof (rule "1.IH"(2) [OF _ some(2) first_def fin_def _ _ keep'_def refl gaps [symmetric]])
        show "\<not> \<not> cursor < arm_shared_region_end" "\<not> arm_shared_region_end \<le> first" "\<not> fin \<le> first"
          using some(1) below lt by simp_all
      qed (use "1.prems"(1) sorted base in \<open>simp_all\<close>)
      have tail: "covered tail = {position..<fin}" "\<forall>t\<in>set tail. sr_address t < sr_end t \<and> sr_end t \<le> fin"
        by (simp_all add: tail_def)
      have "covered out \<union> (covered tail \<union> covered (release_loop m keep' fin)) =
          ({first..<fin} - covered keep') \<union> (mapped_set m \<inter> {fin..<arm_shared_region_end} - covered keep')"
        using g(1) ih tail(1) by blast
      also have "\<dots> = mapped_set m \<inter> {cursor..<arm_shared_region_end} - covered keep"
      proof -
        have "mapped_set m \<inter> {cursor..<arm_shared_region_end} = {first..<fin} \<union> (mapped_set m \<inter> {fin..<arm_shared_region_end})"
          using r lt first some(1) by (auto simp: fin_def min_def max_def split: if_splits)
        moreover have "x \<notin> covered keep' \<longleftrightarrow> x \<notin> covered keep" if "first \<le> x" for x using same that by blast
        ultimately show ?thesis using lt by auto
      qed
      finally have c: "covered (release_loop m keep cursor) = mapped_set m \<inter> {cursor..<arm_shared_region_end} - covered keep"
        by (simp add: eq)
      have "fin \<le> arm_shared_region_end" by (simp add: fin_def)
      then show ?thesis using c g(2) tail(2) ih unfolding eq by (auto intro: order_trans)
    qed
  qed
qed

section \<open>Releasing pages\<close>

definition whole_pages :: "nat set \<Rightarrow> bool" where
  "whole_pages T \<longleftrightarrow> (\<forall>x\<in>T. \<forall>y. y div page_size = x div page_size \<longrightarrow> y \<in> T)"

lemma whole_pages_range: "a mod page_size = 0 \<Longrightarrow> b mod page_size = 0 \<Longrightarrow> whole_pages {a..<b}"
proof -
  assume al: "a mod page_size = 0" "b mod page_size = 0"
  then obtain i j where ij: "a = i * page_size" "b = j * page_size" by (metis mod_0_imp_dvd dvdE mult.commute)
  have "x \<in> {a..<b} \<longleftrightarrow> i \<le> x div page_size \<and> x div page_size < j" for x
    by (auto simp: ij less_eq_div_iff_mult_less_eq div_less_iff_less_mult)
  then show ?thesis by (simp add: whole_pages_def)
qed

lemma whole_pages_minus: "whole_pages S \<Longrightarrow> whole_pages T \<Longrightarrow> whole_pages (S - T)"
  by (metis DiffD1 DiffD2 DiffI whole_pages_def)

lemma whole_pages_Union: "(\<And>r. r \<in> R \<Longrightarrow> whole_pages (f r)) \<Longrightarrow> whole_pages (\<Union>r\<in>R. f r)"
  by (auto simp: whole_pages_def)

lemma page_span_page:
  assumes "x \<in> page_span a n" "n \<noteq> 0"
  shows "\<exists>z\<in>{a..<a + n}. z div page_size = x div page_size"
proof -
  have x: "page_base a \<le> x" "x < page_base (a + (n - 1)) + page_size" using assms by (auto simp: page_span_def page_range_end_def)
  have lo: "a div page_size \<le> x div page_size" using div_le_mono [OF x(1), of page_size] by simp
  have hi: "x div page_size \<le> (a + (n - 1)) div page_size"
    using x(2) by (simp add: page_base_alt div_less_iff_less_mult [of page_size, simplified] less_Suc_eq_le [symmetric])
  show ?thesis
  proof (cases "x \<in> {a..<a + n}")
    case False
    then consider "x < a" | "a + (n - 1) < x" using assms(2) by fastforce
    then show ?thesis
    proof cases
      case 1
      then have "a div page_size = x div page_size" using lo div_le_mono [of x a page_size] by simp
      then show ?thesis using assms(2) by (intro bexI [of _ a]) simp_all
    next
      case 2
      then have "(a + (n - 1)) div page_size = x div page_size" using hi div_le_mono [of "a + (n - 1)" x page_size] by simp
      then show ?thesis using assms(2) by (intro bexI [of _ "a + (n - 1)"]) simp_all
    qed
  qed blast
qed

lemma page_span_covers: "n \<noteq> 0 \<Longrightarrow> {a..<a + n} \<subseteq> page_span a n"
proof
  fix x assume n: "n \<noteq> 0" and x: "x \<in> {a..<a + n}"
  have "page_base a \<le> x" using page_base_le [of a] x by simp
  moreover have "x div page_size \<le> (a + (n - 1)) div page_size" using x by (intro div_le_mono) auto
  then have "x < page_base (a + (n - 1)) + page_size"
    by (simp add: page_base_alt div_less_iff_less_mult [of page_size, simplified, symmetric] flip: mult_Suc add.commute)
  ultimately show "x \<in> page_span a n" by (simp add: page_span_def page_range_end_def)
qed

lemma unmap_pieces:
  assumes "world_files w" "s \<in> set (live w)" "\<forall>r\<in>set rs. sr_address r < sr_end r \<and> sr_end r \<le> 2 ^ 32"
    and "\<forall>r\<in>set rs. page_span (sr_address r) (sr_end r - sr_address r) \<subseteq> T"
  shows "moves s T (\<lambda>x. if \<exists>r\<in>set rs. x \<in> page_span (sr_address r) (sr_end r - sr_address r) then None else regions_at s w x) w
    (fold (\<lambda>piece w. snd (as_unmap s (sr_address piece) (sr_end piece - sr_address piece) w)) rs w)"
  using assms
proof (induction rs arbitrary: w)
  case Nil
  then show ?case by (simp add: moves_refl)
next
  case (Cons r rs)
  define w1 where "w1 = snd (as_unmap s (sr_address r) (sr_end r - sr_address r) w)"
  have r: "sr_address r < 2 ^ 32" "sr_end r - sr_address r \<noteq> 0" "\<not> range_overflows (sr_address r) (sr_end r - sr_address r)"
    using Cons.prems(3) by (auto simp: range_overflows_def u32_max_def)
  have inside: "page_span (sr_address r) (sr_end r - sr_address r) \<subseteq> T" using Cons.prems(4) by simp
  note m = moves_mono [OF as_unmap_moves [OF Cons.prems(1,2) r, folded w1_def] inside]
  have ok: "world_files w1" "s \<in> set (live w1)" using movesD(3,4) [OF m] Cons.prems(2) by simp_all
  note ih = Cons.IH [OF ok]
  show ?case unfolding fold_simps w1_def [symmetric]
    by (rule moves_cong [OF moves_trans [OF m ih]]) (use Cons.prems(3,4) in \<open>auto simp: movesD(5) [OF m]\<close>)
qed

lemma covered_by_pages:
  assumes "\<forall>r\<in>set rs. sr_address r < sr_end r" "whole_pages (covered rs)"
  shows "(\<exists>r\<in>set rs. x \<in> page_span (sr_address r) (sr_end r - sr_address r)) \<longleftrightarrow> x \<in> covered rs"
proof
  assume "\<exists>r\<in>set rs. x \<in> page_span (sr_address r) (sr_end r - sr_address r)"
  then obtain r where r: "r \<in> set rs" "x \<in> page_span (sr_address r) (sr_end r - sr_address r)" by blast
  have lt: "sr_address r < sr_end r" using assms(1) r(1) by simp
  then obtain z where "z \<in> {sr_address r..<sr_end r}" "z div page_size = x div page_size" using page_span_page [OF r(2)] by auto
  moreover from this have "z \<in> covered rs" using r(1) by (auto simp: covered_def)
  ultimately show "x \<in> covered rs" using assms(2) unfolding whole_pages_def by metis
next
  assume "x \<in> covered rs"
  then obtain r where r: "r \<in> set rs" "x \<in> {sr_address r..<sr_end r}" by (auto simp: covered_def)
  then have "x \<in> page_span (sr_address r) (sr_end r - sr_address r)"
    using page_span_covers [of "sr_end r - sr_address r" "sr_address r"] by auto
  then show "\<exists>r\<in>set rs. x \<in> page_span (sr_address r) (sr_end r - sr_address r)" using r(1) by blast
qed

section \<open>Reading the ranges\<close>

lemma space_read_only:
  assumes w: "world_files w" and s: "s \<in> set (live w)"
  shows "only_reads s w (snd (space_read32 pread s a w))" "only_reads s w (snd (space_read64 pread s a w))"
proof -
  obtain r w' where "read_integer pread s (unat a) 4 perm_read w = Some (r, w')" "only_reads s w w'"
    using read_integer_only_reads [OF w s, of 4 pread "unat a" perm_read] by (auto simp: page_size_def)
  then show "only_reads s w (snd (space_read32 pread s a w))" by (simp add: space_read32_def)
  obtain r w' where "read_integer pread s (unat a) 8 perm_read w = Some (r, w')" "only_reads s w w'"
    using read_integer_only_reads [OF w s, of 8 pread "unat a" perm_read] by (auto simp: page_size_def)
  then show "only_reads s w (snd (space_read64 pread s a w))" by (simp add: space_read64_def)
qed

text \<open>What every change of the memory by reading, mapping and unmapping leaves to the next one.\<close>

lemma only_reads_next:
  "world_files w \<Longrightarrow> s \<in> set (live w) \<Longrightarrow> only_reads s w w' \<Longrightarrow> world_files w' \<and> s \<in> set (live w')"
  using only_reads_files [of w s w'] only_reads_live [of s w w'] by simp

definition range_ok :: "shared_range \<Rightarrow> bool" where
  "range_ok r \<longleftrightarrow> page_aligned (sr_address r) \<and> page_aligned (sr_end r) \<and> sr_address r < sr_end r \<and> sr_end r \<le> arm_shared_region_end"

lemma read_ranges_only:
  assumes "world_files w" "s \<in> set (live w)" "\<forall>r\<in>set ranges. range_ok r"
  shows "only_reads s w (snd (read_ranges pread s base is ranges w))"
    "fst (read_ranges pread s base is ranges w) = Inr rs \<Longrightarrow> \<forall>r\<in>set rs. range_ok r"
proof -
  have "only_reads s w (snd (read_ranges pread s base is ranges w)) \<and>
    (\<forall>rs. fst (read_ranges pread s base is ranges w) = Inr rs \<longrightarrow> (\<forall>r\<in>set rs. range_ok r))"
    using assms
  proof (induction "is" arbitrary: ranges w)
    case Nil
    then show ?case by (simp add: only_reads_refl world_filesD(1))
  next
    case (Cons i rest)
    define address where "address = base + of_nat (i * shared_region_range_size)"
    obtain a w1 where 1: "space_read64 pread s address w = (a, w1)" by fastforce
    obtain n w2 where 2: "space_read64 pread s (address + 8) w1 = (n, w2)" by fastforce
    have k1: "only_reads s w w1" using space_read_only(2) [OF Cons.prems(1,2), of pread address] 1 by simp
    have w1: "world_files w1" "s \<in> set (live w1)" using only_reads_next [OF Cons.prems(1,2) k1] by simp_all
    have k2: "only_reads s w w2" using space_read_only(2) [OF w1, of pread "address + 8"] 2 only_reads_trans [OF k1] by simp
    have w2: "world_files w2" "s \<in> set (live w2)" using only_reads_next [OF Cons.prems(1,2) k2] by simp_all
    have refl: "only_reads s w w" by (rule only_reads_refl [OF world_filesD(1) [OF Cons.prems(1)]])
    define good where "good x y \<longleftrightarrow> \<not> (unat x > u32_max \<or> unat y > u32_max \<or> unat y = 0 \<or> \<not> page_aligned (unat x) \<or>
        \<not> page_aligned (unat y) \<or> \<not> in_arm_shared_region (unat x) (unat y))" for x y :: u64
    define step where "step x y = read_ranges pread s base rest (ranges @ [\<lparr>sr_address = unat x, sr_end = unat x + unat y\<rparr>]) w2" for x y :: u64
    have eq: "read_ranges pread s base (i # rest) ranges w \<in>
        {(Inl error_bad_address, w), (Inl error_bad_address, w2), (Inl error_invalid_argument, w2)} \<union> {step x y | x y. good x y}"
      unfolding read_ranges.simps Let_def address_def [symmetric] 1 2 prod.case good_def step_def
      by (auto split: option.splits)
    have good: "only_reads s w (snd (step x y)) \<and> (\<forall>rs. fst (step x y) = Inr rs \<longrightarrow> (\<forall>r\<in>set rs. range_ok r))" if "good x y" for x y
    proof -
      have "range_ok \<lparr>sr_address = unat x, sr_end = unat x + unat y\<rparr>"
        using that by (auto simp: good_def range_ok_def page_aligned_def in_arm_shared_region_def Let_def arm_shared_data_base_def
            arm_shared_region_end_def split: if_splits)
      then have "\<forall>r\<in>set (ranges @ [\<lparr>sr_address = unat x, sr_end = unat x + unat y\<rparr>]). range_ok r" using Cons.prems(3) by simp
      from Cons.IH [OF w2 this] show ?thesis using only_reads_trans [OF k2] by (simp add: step_def)
    qed
    show ?case using eq refl k2 good by auto
  qed
  then show "only_reads s w (snd (read_ranges pread s base is ranges w))"
    "fst (read_ranges pread s base is ranges w) = Inr rs \<Longrightarrow> \<forall>r\<in>set rs. range_ok r" by blast+
qed

lemma range_ok_whole: "\<forall>r\<in>set rs. range_ok r \<Longrightarrow> whole_pages (covered rs)"
  unfolding covered_def by (intro whole_pages_Union whole_pages_range) (auto simp: range_ok_def page_aligned_def)

lemma mapped_whole:
  assumes ok: "world_ok w" and s: "s \<in> set (live w)"
  shows "whole_pages (mapped_set (vm_regions (space_of w s)) \<inter> {arm_shared_text_base..<arm_shared_region_end})"
proof -
  have "whole_pages {arm_shared_text_base..<arm_shared_region_end}"
    by (rule whole_pages_range) (simp_all add: arm_shared_text_base_def arm_shared_region_end_def page_size_def)
  moreover have "y \<in> mapped_set (vm_regions (space_of w s))"
    if "x \<in> mapped_set (vm_regions (space_of w s))" "x < arm_shared_region_end" "y < arm_shared_region_end" "y div page_size = x div page_size" for x y
    using mapped_by_page [OF ok s, of x y] that by (auto simp: mapped_set_def regions_at_def arm_shared_region_end_def)
  ultimately show ?thesis unfolding whole_pages_def by (metis IntE IntI atLeastLessThan_iff)
qed

section \<open>Making the region private\<close>

lemma make_private_moves:
  assumes w: "world_files w" and s: "s \<in> set (live w)"
    and r: "read_ranges pread s r1 [0..<unat r0] [] w = (Inr ranges, w1)" and n: "unat r0 \<le> maximum_range_count" "r0 = 0 \<or> r1 \<noteq> 0"
  shows "fst (shared_region_make_private pread s r0 r1 w) = Succeeded"
    "moves s ({arm_shared_text_base..<arm_shared_region_end} - covered ranges)
      (\<lambda>x. if x \<in> {arm_shared_text_base..<arm_shared_region_end} - covered ranges then None else regions_at s w x) w
      (snd (shared_region_make_private pread s r0 r1 w))"
proof -
  define keep where "keep = merge_ranges ranges"
  define release where "release = ranges_to_release s keep w1"
  have eq: "shared_region_make_private pread s r0 r1 w =
      (Succeeded, fold (\<lambda>piece w. snd (as_unmap s (sr_address piece) (sr_end piece - sr_address piece) w)) release w1)"
    using r n by (auto simp: shared_region_make_private_def read_shared_region_ranges_def release_def keep_def)
  then show "fst (shared_region_make_private pread s r0 r1 w) = Succeeded" by simp
  have k: "only_reads s w w1" and rok: "\<forall>r\<in>set ranges. range_ok r"
    using read_ranges_only(1) [OF w s, of "[]" pread r1 "[0..<unat r0]"] read_ranges_only(2) [OF w s, of "[]" pread r1 "[0..<unat r0]" ranges] r
    by simp_all
  note first = reads_moves [OF w k]
  have w1: "world_files w1" "s \<in> set (live w1)" using only_reads_next [OF w s k] by simp_all
  note ok1 = world_filesD(1) [OF w1(1)] w1(2)
  have same: "regions_at s w1 x = regions_at s w x" for x by (rule movesD(5) [OF first])
  have lt: "\<forall>r\<in>set ranges. sr_address r < sr_end r" using rok by (simp add: range_ok_def)
  note keep = merge_ranges_covers [OF lt, folded keep_def]
  define T where "T = mapped_set (vm_regions (space_of w1 s)) \<inter> {arm_shared_text_base..<arm_shared_region_end} - covered ranges"
  have rel: "covered release = T" "\<forall>r\<in>set release. sr_address r < sr_end r \<and> sr_end r \<le> arm_shared_region_end"
    using release_loop_covers [OF region_regs [OF ok1] keep(2), of arm_shared_text_base]
    by (simp_all add: release_def ranges_to_release_def T_def keep(1))
  have "whole_pages T" unfolding T_def by (intro whole_pages_minus mapped_whole [OF ok1] range_ok_whole [OF rok])
  then have pages: "(\<exists>r\<in>set release. x \<in> page_span (sr_address r) (sr_end r - sr_address r)) \<longleftrightarrow> x \<in> T" for x
    using covered_by_pages [of release x] rel by simp
  have bounds: "\<forall>r\<in>set release. sr_address r < sr_end r \<and> sr_end r \<le> 2 ^ 32" using rel(2) by (auto simp: arm_shared_region_end_def)
  have inside: "\<forall>r\<in>set release. page_span (sr_address r) (sr_end r - sr_address r) \<subseteq> {arm_shared_text_base..<arm_shared_region_end} - covered ranges"
  proof (intro ballI subsetI)
    fix r x assume "r \<in> set release" "x \<in> page_span (sr_address r) (sr_end r - sr_address r)"
    then have "x \<in> T" using pages by blast
    then show "x \<in> {arm_shared_text_base..<arm_shared_region_end} - covered ranges" unfolding T_def by blast
  qed
  note u = unmap_pieces [OF w1 bounds inside]
  show "moves s ({arm_shared_text_base..<arm_shared_region_end} - covered ranges)
      (\<lambda>x. if x \<in> {arm_shared_text_base..<arm_shared_region_end} - covered ranges then None else regions_at s w x) w
      (snd (shared_region_make_private pread s r0 r1 w))"
    unfolding eq snd_conv
  proof (rule moves_cong [OF moves_trans [OF moves_mono [OF first empty_subsetI] u]])
    fix x
    show "(if \<exists>r\<in>set release. x \<in> page_span (sr_address r) (sr_end r - sr_address r) then None else regions_at s w1 x) =
        (if x \<in> {arm_shared_text_base..<arm_shared_region_end} - covered ranges then None else regions_at s w x)"
      unfolding pages using same [of x] by (auto simp: T_def mapped_set_def regions_at_def)
  qed
qed

section \<open>The slide\<close>

lemma step_search_Some:
  "step_search P c fin = Some k \<Longrightarrow> \<exists>i. k = c + i * page_size \<and> k < fin \<and> P k \<and> (\<forall>j < i. \<not> P (c + j * page_size))"
proof (induction P c fin rule: step_search.induct)
  case (1 P c fin)
  show ?case
  proof (cases "c < fin \<and> \<not> P c")
    case True
    then have "step_search P (c + page_size) fin = Some k" using "1.prems" by (simp add: step_search.simps [of P c])
    from "1.IH" [OF _ _ this] True obtain i where
      i: "k = c + page_size + i * page_size" "k < fin" "P k" "\<forall>j < i. \<not> P (c + page_size + j * page_size)" by auto
    have "\<not> P (c + j * page_size)" if "j < Suc i" for j
      using True i(4) that by (cases j) (auto simp: add.assoc)
    then show ?thesis using i by (intro exI [of _ "Suc i"]) (simp add: add.assoc)
  next
    case False
    then show ?thesis using "1.prems" by (intro exI [of _ 0]) (simp add: step_search.simps [of P c] split: if_splits)
  qed
qed

lemma step_search_None: "step_search P c fin = None \<Longrightarrow> c + i * page_size < fin \<Longrightarrow> \<not> P (c + i * page_size)"
proof (induction P c fin arbitrary: i rule: step_search.induct)
  case (1 P c fin)
  have c: "c < fin" using "1.prems"(2) by simp
  then have "\<not> P c" "step_search P (c + page_size) fin = None" using "1.prems"(1) by (simp_all add: step_search.simps [of P c] split: if_splits)
  then show ?case using "1.IH" [OF _ _ _, of "i - 1"] c "1.prems"(2) by (cases i) (auto simp: add.assoc)
qed

lemma choose_slide_exact:
  "case choose_slide s ms may w of
     Some k \<Rightarrow> mappings_fit s ms w k \<and> page_aligned k \<and> k < arm_shared_half_size \<and> (k = 0 \<or> may) \<and>
       (\<forall>j < k. page_aligned j \<longrightarrow> \<not> mappings_fit s ms w j)
   | None \<Rightarrow> \<not> mappings_fit s ms w 0 \<and> (may \<longrightarrow> (\<forall>j < arm_shared_half_size. page_aligned j \<longrightarrow> \<not> mappings_fit s ms w j))"
proof -
  have fit0: "mappings_fit s [] w k" for k by (simp add: mappings_fit_def)
  have al: "\<exists>i. j = page_size + i * page_size" if j: "page_aligned j" "j \<noteq> 0" for j
  proof -
    from j obtain i where "j = i * page_size" unfolding page_aligned_def by (metis mod_0_imp_dvd dvdE mult.commute)
    then show ?thesis using j(2) by (cases i) auto
  qed
  show ?thesis
  proof (cases "mappings_fit s ms w 0 \<or> \<not> may")
    case True
    then show ?thesis by (auto simp: choose_slide_def page_aligned_def arm_shared_half_size_def)
  next
    case False
    then have eq: "choose_slide s ms may w = step_search (mappings_fit s ms w) page_size arm_shared_half_size"
      using fit0 by (auto simp: choose_slide_def)
    show ?thesis
    proof (cases "choose_slide s ms may w")
      case None
      then show ?thesis using False eq step_search_None [of "mappings_fit s ms w" page_size arm_shared_half_size] al by fastforce
    next
      case (Some k)
      then obtain i where i: "k = page_size + i * page_size" "k < arm_shared_half_size" "mappings_fit s ms w k"
        "\<forall>j < i. \<not> mappings_fit s ms w (page_size + j * page_size)" using step_search_Some eq by metis
      have "\<not> mappings_fit s ms w j" if j: "j < k" "page_aligned j" for j
      proof (cases "j = 0")
        case False
        then obtain l where "j = page_size + l * page_size" using al j(2) by blast
        then show ?thesis using i(1,4) j(1) by auto
      qed (use False in simp)
      moreover have "page_aligned k" by (simp add: i(1) page_aligned_def)
      ultimately show ?thesis using Some i False by simp
    qed
  qed
qed

section \<open>Mapping and taking back\<close>

definition arm_shared_region :: "nat set" where
  "arm_shared_region = {arm_shared_text_base..<arm_shared_region_end}"

definition span_ok :: "nat \<times> nat \<Rightarrow> bool" where
  "span_ok p \<longleftrightarrow> fst p < 2 ^ 32 \<and> snd p \<noteq> 0 \<and> \<not> range_overflows (fst p) (snd p) \<and> page_span (fst p) (snd p) \<subseteq> arm_shared_region"

definition spans :: "(nat \<times> nat) list \<Rightarrow> nat set" where
  "spans applied = (\<Union>p\<in>set applied. page_span (fst p) (snd p))"

lemma page_span_within:
  assumes "n \<noteq> 0" "lo \<le> a" "a + n \<le> hi" "lo mod page_size = 0" "hi mod page_size = 0"
  shows "page_span a n \<subseteq> {lo..<hi}"
proof
  fix x assume "x \<in> page_span a n"
  then obtain z where "z \<in> {a..<a + n}" "z div page_size = x div page_size" using page_span_page assms(1) by blast
  moreover from this have "z \<in> {lo..<hi}" using assms(2,3) by auto
  ultimately show "x \<in> {lo..<hi}" using whole_pages_range [OF assms(4,5)] unfolding whole_pages_def by metis
qed

lemma in_region_span: "in_arm_shared_region a n \<Longrightarrow> span_ok (a, n)"
proof -
  assume r: "in_arm_shared_region a n"
  have n: "n \<noteq> 0" "arm_shared_text_base \<le> a" "a + n \<le> arm_shared_region_end"
    using r by (auto simp: in_arm_shared_region_def Let_def arm_shared_text_base_def arm_shared_data_base_def arm_shared_region_end_def
        split: if_splits)
  then have "page_span a n \<subseteq> arm_shared_region" unfolding arm_shared_region_def
    by (intro page_span_within) (simp_all add: arm_shared_text_base_def arm_shared_region_end_def page_size_def)
  then show ?thesis using n by (auto simp: span_ok_def range_overflows_def u32_max_def arm_shared_region_end_def)
qed

lemma spans_simps [simp]: "spans [] = {}" "spans (xs @ ys) = spans xs \<union> spans ys" "spans [p] = page_span (fst p) (snd p)"
  by (auto simp: spans_def)

lemma rollback_moves:
  assumes "world_files w" "s \<in> set (live w)" "\<forall>p\<in>set applied. span_ok p" "spans applied \<subseteq> U"
  shows "moves s U (\<lambda>x. if x \<in> spans applied then None else regions_at s w x) w (rollback s applied w)"
  unfolding rollback_def
  using assms
proof (induction applied arbitrary: w rule: rev_induct)
  case Nil
  then show ?case by (simp add: moves_refl)
next
  case (snoc p applied)
  define w1 where "w1 = snd (as_unmap s (fst p) (snd p) w)"
  have p: "fst p < 2 ^ 32" "snd p \<noteq> 0" "\<not> range_overflows (fst p) (snd p)" using snoc.prems(3) by (simp_all add: span_ok_def)
  have inside: "page_span (fst p) (snd p) \<subseteq> U" "spans applied \<subseteq> U" using snoc.prems(4) by simp_all
  note m = moves_mono [OF as_unmap_moves [OF snoc.prems(1,2) p, folded w1_def] inside(1)]
  have ok: "world_files w1" "s \<in> set (live w1)" using movesD(3,4) [OF m] snoc.prems(2) by simp_all
  note ih = snoc.IH [OF ok _ inside(2)]
  have eq: "fold (\<lambda>(address, n) w. snd (as_unmap s address n w)) (rev (applied @ [p])) w =
      fold (\<lambda>(address, n) w. snd (as_unmap s address n w)) (rev applied) w1"
    by (simp add: w1_def case_prod_beta)
  show ?case unfolding eq
    by (rule moves_cong [OF moves_trans [OF m ih]]) (use snoc.prems(3) in \<open>auto simp: movesD(5) [OF m]\<close>)
qed

lemma profile_stable_keeps: "world_ok w \<Longrightarrow> keeps_tables w (mark_translation_profile_stable s a n w)"
  by (rule quiet_keeps [OF world_okD(1) observer_quiet(2)])

text \<open>One mapping: when it succeeds, at most its own pages change.\<close>

definition apply_one :: "host_files \<Rightarrow> nat \<Rightarrow> string \<Rightarrow> cache_file list option \<Rightarrow> nat \<Rightarrow> shared_mapping \<Rightarrow> memory_world \<Rightarrow> bool \<times> memory_world" where
  "apply_one files s path cache slide m w =
     (let address = sm_address m + slide; permissions = protection_permissions (sm_initial m); source = the (mapping_source files path cache m)
      in if zero_fill m then as_map s address (sm_size m) permissions w
         else map_file (hf_probe files) s address (sm_size m) permissions (fst source) (snd source) w)"

lemma apply_one_moves:
  assumes w: "world_files w" and s: "s \<in> set (live w)" and sp: "span_ok (sm_address m + slide, sm_size m)"
    and r: "apply_one files s path cache slide m w = (b, w')"
  shows "\<exists>g. moves s (if b then page_span (sm_address m + slide) (sm_size m) else {}) g w w' \<and>
    (\<forall>x. \<not> (b \<and> x \<in> page_span (sm_address m + slide) (sm_size m)) \<longrightarrow> g x = regions_at s w x)"
proof -
  have a: "sm_address m + slide < 2 ^ 32" "sm_size m \<noteq> 0" "\<not> range_overflows (sm_address m + slide) (sm_size m)"
    using sp by (simp_all add: span_ok_def)
  show ?thesis
  proof (cases "zero_fill m")
    case True
    then have "as_map s (sm_address m + slide) (sm_size m) (protection_permissions (sm_initial m)) w = (b, w')"
      using r by (simp add: apply_one_def)
    then have b: "b" "w' = snd (as_map s (sm_address m + slide) (sm_size m) (protection_permissions (sm_initial m)) w)"
      using as_map_remaps(1) [OF world_filesD(1) [OF w] s a, of "protection_permissions (sm_initial m)"] by auto
    show ?thesis unfolding b(2)
      by (intro exI conjI, rule as_map_moves [OF w s a]) (simp add: b(1))
  next
    case False
    then obtain path' off where "map_file (hf_probe files) s (sm_address m + slide) (sm_size m) (protection_permissions (sm_initial m)) path' off w = (b, w')"
      using r by (simp add: apply_one_def Let_def)
    from map_file_moves [OF w s a(1) this] show ?thesis by (intro exI conjI) auto
  qed
qed

lemma apply_mappings_step:
  "apply_mappings files s path cache slide (m # ms) applied w =
     (if \<not> zero_fill m \<and> mapping_source files path cache m = None then (Inl error_invalid_argument, rollback s applied w)
      else case apply_one files s path cache slide m w of
        (False, w1) \<Rightarrow> (Inl (if zero_fill m then error_no_memory else error_invalid_argument), rollback s applied w1)
      | (True, w1) \<Rightarrow> apply_mappings files s path cache slide ms (applied @ [(sm_address m + slide, sm_size m)])
          (if slide = 0 \<and> has_permission (protection_permissions (sm_initial m)) perm_execute
           then mark_translation_profile_stable s (sm_address m + slide) (sm_size m) w1 else w1))"
  by (simp add: apply_one_def Let_def case_prod_beta split: bool.split)

declare apply_mappings.simps(2) [simp del]

lemma apply_mappings_moves:
  assumes "world_files w" "s \<in> set (live w)" "\<forall>p\<in>set applied. span_ok p" "\<forall>m\<in>set ms. span_ok (sm_address m + slide, sm_size m)"
    and "\<forall>x. x \<notin> spans applied \<longrightarrow> regions_at s w x = f x" "\<forall>x\<in>U. f x = None"
    and "spans applied \<subseteq> U" "\<forall>m\<in>set ms. page_span (sm_address m + slide) (sm_size m) \<subseteq> U"
    and "apply_mappings files s path cache slide ms applied w = (r, w')"
  shows "case r of
      Inl e \<Rightarrow> moves s U f w w'
    | Inr applied' \<Rightarrow> (\<forall>p\<in>set applied'. span_ok p) \<and> spans applied' \<subseteq> U \<and>
        (\<exists>g. moves s U g w w' \<and> (\<forall>x. x \<notin> spans applied' \<longrightarrow> g x = f x))"
  using assms
proof (induction ms arbitrary: applied w)
  case Nil
  then show ?case by (auto intro!: exI [of _ "regions_at s w"] moves_refl)
next
  case (Cons m ms)
  have undone: "moves s U f w (rollback s applied v)" if v: "moves s U (regions_at s w) w v" for v
  proof (rule moves_cong [OF moves_trans [OF v rollback_moves]])
    show "world_files v" "s \<in> set (live v)" using movesD(3,4) [OF v] Cons.prems(2) by simp_all
    show "(if x \<in> spans applied then None else regions_at s v x) = f x" for x
      using movesD(5) [OF v, of x] Cons.prems(5,6,7) by auto
  qed (rule Cons.prems(3,7))+
  obtain b w1 where one: "apply_one files s path cache slide m w = (b, w1)" by fastforce
  have sp: "span_ok (sm_address m + slide, sm_size m)" and inside: "page_span (sm_address m + slide) (sm_size m) \<subseteq> U"
    using Cons.prems(4,8) by simp_all
  from apply_one_moves [OF Cons.prems(1,2) sp one] obtain g where
    g0: "moves s (if b then page_span (sm_address m + slide) (sm_size m) else {}) g w w1"
      "\<forall>x. \<not> (b \<and> x \<in> page_span (sm_address m + slide) (sm_size m)) \<longrightarrow> g x = regions_at s w x" by blast
  have "(if b then page_span (sm_address m + slide) (sm_size m) else {}) \<subseteq> U" using inside by simp
  note g = moves_mono [OF g0(1) this] g0(2)
  show ?case
  proof (cases "\<not> zero_fill m \<and> mapping_source files path cache m = None \<or> \<not> b")
    case True
    moreover have "\<not> b \<Longrightarrow> moves s U (regions_at s w) w w1" using g by (auto intro: moves_cong)
    ultimately show ?thesis
      using Cons.prems(9) undone moves_refl [OF Cons.prems(1)] one by (auto simp: apply_mappings_step split: if_splits)
  next
    case False
    define w2 where "w2 = (if slide = 0 \<and> has_permission (protection_permissions (sm_initial m)) perm_execute
        then mark_translation_profile_stable s (sm_address m + slide) (sm_size m) w1 else w1)"
    have w1: "world_files w1" using movesD(3) [OF g(1)] .
    have "moves s U (regions_at s w1) w1 w2"
      using quiet_moves [OF w1 observer_quiet(2)] moves_refl [OF w1] by (simp add: w2_def)
    then have g2: "moves s U g w w2" using moves_trans [OF g(1), of "regions_at s w1" w2] movesD(5) [OF g(1)]
      by (auto intro: moves_cong)
    have eq: "apply_mappings files s path cache slide ms (applied @ [(sm_address m + slide, sm_size m)]) w2 = (r, w')"
      using Cons.prems(9) False one by (auto simp: apply_mappings_step w2_def)
    have "case r of Inl e \<Rightarrow> moves s U f w2 w'
      | Inr applied' \<Rightarrow> (\<forall>p\<in>set applied'. span_ok p) \<and> spans applied' \<subseteq> U \<and>
          (\<exists>g. moves s U g w2 w' \<and> (\<forall>x. x \<notin> spans applied' \<longrightarrow> g x = f x))"
    proof (rule Cons.IH [OF _ _ _ _ _ Cons.prems(6) _ _ eq])
      show "world_files w2" "s \<in> set (live w2)" using movesD(3,4) [OF g2] Cons.prems(2) by simp_all
      show "\<forall>x. x \<notin> spans (applied @ [(sm_address m + slide, sm_size m)]) \<longrightarrow> regions_at s w2 x = f x"
        using movesD(5) [OF g2] g(2) Cons.prems(5) by auto
    qed (use Cons.prems(3,4,7,8) sp in \<open>auto\<close>)
    then show ?thesis using moves_trans [OF g2] by (auto split: sum.splits)
  qed
qed

section \<open>Reading the mappings\<close>

lemma read_each_only:
  assumes rd: "\<And>a w. world_files w \<Longrightarrow> s \<in> set (live w) \<Longrightarrow> only_reads s w (snd (rd a w))"
    and w: "world_files w" "s \<in> set (live w)"
  shows "only_reads s w (snd (read_each rd as w))"
  using w
proof (induction "as" arbitrary: w)
  case Nil
  then show ?case by (simp add: only_reads_refl world_filesD(1))
next
  case (Cons a as)
  have k: "only_reads s w (snd (rd a w))" by (rule rd [OF Cons.prems])
  show ?case
    using only_reads_trans [OF k Cons.IH] only_reads_next [OF Cons.prems k]
    by (simp add: case_prod_beta)
qed

lemma read_mapping_only:
  assumes w: "world_files w" "s \<in> set (live w)"
  shows "only_reads s w (snd (read_mapping pread s base index layout w))"
proof -
  have narrow: "only_reads s v (snd (read_each (space_read32 pread s) as v))" if "world_files v" "s \<in> set (live v)" for "as" v
    by (rule read_each_only [OF space_read_only(1) that])
  have wide: "only_reads s v (snd (read_each (space_read64 pread s) as v))" if "world_files v" "s \<in> set (live v)" for "as" v
    by (rule read_each_only [OF space_read_only(2) that])
  have both: "only_reads s w (snd (read_each (space_read32 pread s) bs (snd (read_each (space_read64 pread s) as w))))" for as bs
  proof -
    have k: "only_reads s w (snd (read_each (space_read64 pread s) as w))" by (rule wide [OF w])
    show ?thesis by (rule only_reads_trans [OF k narrow]) (use only_reads_next [OF w k] in \<open>simp_all\<close>)
  qed
  define offset where "offset = index * (if layout = Arm32_Words then arm_mapping_size else mach_vm_mapping_size)"
  define address where "address = base + (of_nat offset :: u32)"
  obtain five w5 where 5: "read_each (space_read32 pread s) [address, address + 4, address + 8, address + 12, address + 16] w = (five, w5)" by fastforce
  obtain q w1 where q: "read_each (space_read64 pread s) [address, address + 8, address + 16] w = (q, w1)" by fastforce
  obtain d w2 where d: "read_each (space_read32 pread s) [address + 24, address + 28] w1 = (d, w2)" by fastforce
  have pick5: "snd (case five of [Some a, Some n, Some off, Some mx, Some ini] \<Rightarrow> (Some (f a n off mx ini), w5) | _ \<Rightarrow> (None, w5)) = w5"
    for f :: "u32 \<Rightarrow> u32 \<Rightarrow> u32 \<Rightarrow> u32 \<Rightarrow> u32 \<Rightarrow> shared_mapping"
    by (auto split: list.split option.split)
  have pick2: "snd (case d of [Some mx, Some ini] \<Rightarrow> (f mx ini, w2) | _ \<Rightarrow> (None, w2)) = w2" for f :: "u32 \<Rightarrow> u32 \<Rightarrow> shared_mapping option"
    by (auto split: list.split option.split)
  have pick3: "snd (case q of [Some a, Some n, Some off] \<Rightarrow> g a n off | _ \<Rightarrow> (None, w2)) = w2"
    if "\<And>a n off. snd (g a n off) = w2" for g :: "u64 \<Rightarrow> u64 \<Rightarrow> u64 \<Rightarrow> shared_mapping option \<times> memory_world"
    using that by (auto split: list.split option.split)
  have "snd (read_mapping pread s base index layout w) = (if offset > u32_max - unat base then w else if layout = Arm32_Words then w5 else w2)"
    unfolding read_mapping_def Let_def offset_def [symmetric] address_def [symmetric] 5 q prod.case d
    by (simp add: pick5 pick2 pick3)
  then show ?thesis
    using narrow [OF w, of "[address, address + 4, address + 8, address + 12, address + 16]"] 5
      both [of "[address + 24, address + 28]" "[address, address + 8, address + 16]"] q d only_reads_refl [OF world_filesD(1) [OF w(1)]]
    by simp
qed

lemma read_mappings_only:
  assumes "world_files w" "s \<in> set (live w)" "\<forall>m\<in>set ms. valid_mapping m bound"
    and "read_mappings_from pread s base bound layout is ms w = (r, w')"
  shows "only_reads s w w' \<and> (\<forall>ms'. r = Some ms' \<longrightarrow> (\<forall>m\<in>set ms'. valid_mapping m bound))"
  using assms
proof (induction "is" arbitrary: ms w)
  case Nil
  then show ?case by (auto simp: only_reads_refl world_filesD(1))
next
  case (Cons i rest)
  obtain mo w1 where m: "read_mapping pread s base i layout w = (mo, w1)" by fastforce
  have k: "only_reads s w w1" using read_mapping_only [OF Cons.prems(1,2), of pread base i layout] m by simp
  show ?case
  proof (cases "\<exists>m. mo = Some m \<and> valid_mapping m bound")
    case True
    then obtain m1 where m1: "mo = Some m1" "valid_mapping m1 bound" by blast
    then have "read_mappings_from pread s base bound layout rest (ms @ [m1]) w1 = (r, w')" using Cons.prems(4) m by simp
    from Cons.IH [OF _ _ _ this] only_reads_next [OF Cons.prems(1,2) k] m1 Cons.prems(3)
    show ?thesis using only_reads_trans [OF k] by auto
  next
    case False
    then have "r = None" "w' = w1" using Cons.prems(4) m by (auto split: option.splits)
    then show ?thesis using k by simp
  qed
qed

lemma fit_spans: "mappings_fit s ms w slide \<Longrightarrow> \<forall>m\<in>set ms. span_ok (sm_address m + slide, sm_size m)"
  by (auto simp: mappings_fit_def Let_def list_all_iff intro: in_region_span)

text \<open>The mappings a call asks for, in the layout of five words or, when that is refused, in the other one.\<close>

definition asked_mappings :: "host_files \<Rightarrow> nat \<Rightarrow> string \<Rightarrow> u32 \<Rightarrow> u32 \<Rightarrow> memory_world \<Rightarrow> shared_mapping list option \<times> memory_world" where
  "asked_mappings files s path count address w =
     (let bound = (if hf_cache files path = None then the (hf_size files path) else u64_max);
          (first, w1) = read_mappings (hf_read files) s address count bound Arm32_Words w
      in if first = None then read_mappings (hf_read files) s address count bound Mach_Vm64 w1 else (first, w1))"

lemma asked_mappings_only:
  assumes w: "world_files w" and s: "s \<in> set (live w)" and r: "asked_mappings files s path count address w = (ms, w')"
  shows "only_reads s w w'"
proof -
  define bound where "bound = (if hf_cache files path = None then the (hf_size files path) else u64_max)"
  obtain first w1 where 1: "read_mappings (hf_read files) s address count bound Arm32_Words w = (first, w1)" by fastforce
  have k1: "only_reads s w w1" using read_mappings_only [OF w s, of "[]"] 1 by (simp add: read_mappings_def)
  have w1: "world_files w1" "s \<in> set (live w1)" using only_reads_next [OF w s k1] by simp_all
  have "only_reads s w1 (snd (read_mappings (hf_read files) s address count bound Mach_Vm64 w1))"
    using read_mappings_only [OF w1, of "[]"] by (metis read_mappings_def empty_iff list.set(1) prod.collapse)
  moreover have "w' = (if first = None then snd (read_mappings (hf_read files) s address count bound Mach_Vm64 w1) else w1)"
    using r 1 by (auto simp: asked_mappings_def Let_def bound_def [symmetric] split: if_splits)
  ultimately show ?thesis using k1 only_reads_trans [OF k1] by simp
qed

lemma failed_write: "fst (space_write64 pread s a v w) = False \<Longrightarrow> snd (space_write64 pread s a v w) = w"
  by (simp add: space_write64_def write_integer_def split: if_splits)

lemma shared_region_map_steps:
  assumes "hf_size files path = Some n" "count \<noteq> 0" "\<not> (unat count > maximum_mapping_count \<or> address = 0)"
    and "asked_mappings files s path count address w = (mappings, w2)"
  shows "shared_region_map files s (Some path) count address slide_address w = (case mappings of
      None \<Rightarrow> (Failed error_invalid_argument, w2)
    | Some ms \<Rightarrow>
        (case choose_slide s ms (slide_address \<noteq> 0) w2 of
           None \<Rightarrow> (Failed error_no_memory, w2)
         | Some slide \<Rightarrow>
             (case apply_mappings files s path (hf_cache files path) slide ms [] w2 of
                (Inl e, w3) \<Rightarrow> (Failed e, w3)
              | (Inr applied, w3) \<Rightarrow>
                  let (written, w4) = (if slide_address = 0 then (True, w3)
                        else space_write64 (hf_read files) s slide_address (of_nat slide) w3)
                  in if \<not> written then (Failed error_bad_address, rollback s applied w4)
                     else (Succeeded, install_images files path (hf_cache files path) slide ms w4))))"
proof -
  define cache where "cache = hf_cache files path"
  define bound where "bound = (if cache = None then n else u64_max)"
  obtain first w1 where 1: "read_mappings (hf_read files) s address count bound Arm32_Words w = (first, w1)" by fastforce
  have 2: "(if first = None then read_mappings (hf_read files) s address count bound Mach_Vm64 w1 else (first, w1)) = (mappings, w2)"
    using assms(4) 1 unfolding asked_mappings_def assms(1) option.sel cache_def [symmetric] bound_def [symmetric] by (simp add: Let_def)
  show ?thesis
    unfolding shared_region_map_def Let_def option.case if_not_P [OF assms(2)] if_not_P [OF assms(3)] assms(1)
      cache_def [symmetric] bound_def [symmetric] 1 prod.case 2 by (simp add: case_prod_beta cong: option.case_cong sum.case_cong)
qed

text \<open>Every failure with the guest's list read leaves memory as it was wherever it was mapped, when the
  places chosen for the mappings held nothing.\<close>

lemma failed_map_moves:
  assumes w: "world_files w" and s: "s \<in> set (live w)"
    and asked: "\<And>ms v slide. \<lbrakk>asked_mappings files s path count address w = (Some ms, v);
        choose_slide s ms (slide_address \<noteq> 0) v = Some slide\<rbrakk> \<Longrightarrow>
      \<forall>m\<in>set ms. \<forall>x\<in>page_span (sm_address m + slide) (sm_size m). regions_at s w x = None"
    and r: "shared_region_map files s (Some path) count address slide_address w = (Failed e, w')"
  shows "\<exists>U. moves s U (regions_at s w) w w' \<and> (\<forall>x\<in>U. regions_at s w x = None)"
proof -
  have refl: ?thesis if "w' = w" using that moves_refl [OF w, of s "{}"] by blast
  consider (early) "w' = w"
    | (late) n where "count \<noteq> 0" "\<not> (unat count > maximum_mapping_count \<or> address = 0)" "hf_size files path = Some n"
    using r failed_write [of "hf_read files" s slide_address 0 w]
    by (auto simp: shared_region_map_def split: option.splits if_splits prod.splits bool.splits)
  then show ?thesis
  proof cases
    case late
    obtain mappings w2 where as: "asked_mappings files s path count address w = (mappings, w2)" by fastforce
    note rest = r [unfolded shared_region_map_steps [OF late(3,1,2) as]]
    have k2: "only_reads s w w2" by (rule asked_mappings_only [OF w s as])
    have w2: "world_files w2" "s \<in> set (live w2)" using only_reads_next [OF w s k2] by simp_all
    note kept = reads_moves [OF w k2]
    show ?thesis
    proof (cases "\<exists>ms slide. mappings = Some ms \<and> choose_slide s ms (slide_address \<noteq> 0) w2 = Some slide")
      case False
      then have "w' = w2" using rest by (auto split: option.splits)
      then show ?thesis using kept by blast
    next
      case True
      then obtain ms slide where ms: "mappings = Some ms" "choose_slide s ms (slide_address \<noteq> 0) w2 = Some slide" by blast
      have fit: "mappings_fit s ms w2 slide" using choose_slide_exact [of s ms w2 "slide_address \<noteq> 0"] ms(2) by simp
      define U where "U = (\<Union>m\<in>set ms. page_span (sm_address m + slide) (sm_size m))"
      have free: "\<forall>x\<in>U. regions_at s w x = None" using asked [of ms w2 slide] as ms by (auto simp: U_def)
      obtain res w3 where ap: "apply_mappings files s path (hf_cache files path) slide ms [] w2 = (res, w3)" by fastforce
      have same: "\<forall>x. x \<notin> spans [] \<longrightarrow> regions_at s w2 x = regions_at s w x" using movesD(5) [OF kept] by simp
      have inside: "spans [] \<subseteq> U" "\<forall>m\<in>set ms. page_span (sm_address m + slide) (sm_size m) \<subseteq> U" by (auto simp: U_def)
      have none: "\<forall>p\<in>set []. span_ok p" by simp
      note a = apply_mappings_moves [OF w2 none fit_spans [OF fit] same free inside ap]
      note first = moves_mono [OF kept empty_subsetI, of U]
      have "moves s U (regions_at s w) w w'"
      proof (cases res)
        case (Inl e')
        then have "w' = w3" "moves s U (regions_at s w) w2 w3" using a rest ms ap by simp_all
        then show ?thesis using moves_trans [OF first] by simp
      next
        case (Inr applied)
        then obtain g where g: "\<forall>p\<in>set applied. span_ok p" "spans applied \<subseteq> U" "moves s U g w2 w3"
          "\<forall>x. x \<notin> spans applied \<longrightarrow> g x = regions_at s w x" using a by auto
        have w': "w' = rollback s applied w3"
          using rest ms ap Inr failed_write [of "hf_read files" s slide_address "of_nat slide" w3]
          by (auto split: if_splits simp: case_prod_beta Let_def)
        have w3: "world_files w3" "s \<in> set (live w3)" using movesD(3,4) [OF g(3)] w2(2) by simp_all
        have "(if x \<in> spans applied then None else regions_at s w3 x) = regions_at s w x" for x
          using g(2,4) free movesD(5) [OF g(3), of x] by auto
        then show ?thesis unfolding w'
          by (rule moves_cong [OF moves_trans [OF moves_trans [OF first g(3)] rollback_moves [OF w3 g(1,2)]]])
      qed
      then show ?thesis using free by blast
    qed
  qed (rule refl)
qed

section \<open>Claims\<close>

text \<open>A space with a page below the shared region and one page of the region mapped for reading.\<close>

definition shared_ops :: "memory_op list" where
  "shared_ops = [New_Space, Map_Range 0 0x1000 0x1000 3, Map_Range 0 0x30000000 0x1000 1]"

lemma shared_example:
  "live (memory_run shared_ops) = [0]"
  "regions_at 0 (memory_run shared_ops) x =
     (if 0x30000000 \<le> x \<and> x < 0x30001000 then Some 1 else if 0x1000 \<le> x \<and> x < 0x2000 then Some 3 else None)"
  "regions_at 0 (memory_run example_ops) x = (if 0x1000 \<le> x \<and> x < 0x2000 then Some 3 else None)"
proof -
  define w1 where "w1 = snd (new_space empty_world)"
  have l1: "live w1 = [0]" "vm_regions (space_of w1 0) = []"
    by (simp_all add: w1_def new_space_def empty_world_def Let_def fresh_space_def)
  have "w1 = memory_run [New_Space]" by (simp add: memory_run_def w1_def)
  then have ok1: "world_ok w1" "0 \<in> set (live w1)" using run_world [of "[New_Space]"] l1(1) by simp_all
  define w2 where "w2 = snd (as_map 0 0x1000 0x1000 3 w1)"
  have m2: "remaps 0 (\<lambda>x. if x \<in> page_span 0x1000 0x1000 then Some (or_perm 3 (regions_at 0 w1 x)) else regions_at 0 w1 x) w1 w2"
    unfolding w2_def by (rule as_map_remaps(2) [OF ok1]) (simp_all add: range_overflows_def u32_max_def)
  have ok2: "world_ok w2" "live w2 = [0]" using remapsD(1,2) [OF m2] l1(1) by simp_all
  have m3: "remaps 0 (\<lambda>x. if x \<in> page_span 0x30000000 0x1000 then Some (or_perm 1 (regions_at 0 w2 x)) else regions_at 0 w2 x) w2
      (snd (as_map 0 0x30000000 0x1000 1 w2))"
    by (rule as_map_remaps(2) [OF ok2(1)]) (simp_all add: ok2(2) range_overflows_def u32_max_def)
  have run: "memory_run shared_ops = snd (as_map 0 0x30000000 0x1000 1 w2)"
    by (simp add: memory_run_def shared_ops_def on_space_def w2_def [symmetric] w1_def [symmetric] l1(1) ok2(2))
  show "live (memory_run shared_ops) = [0]" using remapsD(2) [OF m3] ok2(2) run by simp
  have run2: "memory_run example_ops = w2"
    by (simp add: memory_run_def example_ops_def on_space_def w2_def [symmetric] w1_def [symmetric] l1(1))
  have sp: "page_span 0x1000 0x1000 = {0x1000..<0x2000}" "page_span 0x30000000 0x1000 = {0x30000000..<0x30001000}"
    by (simp_all add: page_span_def page_base_def page_range_end_def page_size_def)
  show "regions_at 0 (memory_run example_ops) x = (if 0x1000 \<le> x \<and> x < 0x2000 then Some 3 else None)"
    unfolding run2 remapsD(3) [OF m2] by (simp add: sp regions_at_def l1(2) or_perm_def)
  show "regions_at 0 (memory_run shared_ops) x =
     (if 0x30000000 \<le> x \<and> x < 0x30001000 then Some 1 else if 0x1000 \<le> x \<and> x < 0x2000 then Some 3 else None)"
    unfolding run remapsD(3) [OF m3] remapsD(3) [OF m2] by (simp add: sp regions_at_def l1(2) or_perm_def)
qed

text \<open>A library list of one mapping, stored word by word in the page below the region: one zero-filled page
  at the start of the region.\<close>

definition list_words :: "u32 list" where
  "list_words = [0x30000000, 0x1000, 0, 7, 0x12]"

definition store_word :: "nat \<times> u32 \<Rightarrow> memory_op" where
  "store_word p = Write_Integer (\<lambda>_ _ _. []) 0 (0x1000 + 4 * of_nat (fst p)) W32 (ucast (snd p))"

definition list_ops :: "memory_op list" where
  "list_ops = example_ops @ map store_word (enumerate 0 list_words)"

definition listed_ops :: "memory_op list" where
  "listed_ops = list_ops @ [Map_Range 0 0x30000000 0x1000 1]"

lemma example_words: "space_words.slots_at 0 0x1000 5 (memory_run example_ops)"
proof -
  have "private_word 0 (0x1000 + 4 * of_nat i) (memory_run example_ops)" if i: "i < 5" for i
  proof -
    have u: "unat (0x1000 + 4 * of_nat i :: u32) = 0x1000 + 4 * i" using i by (simp add: unat_word_ariths unat_of_nat)
    have "shared_at 0 x (memory_run example_ops) = False" for x
      using inv_lookup [OF world_okD(1) [OF run_world]] example_world(1,2) by (simp add: shared_at_def find_page_entry)
    then show ?thesis
      using i example_accessible [of "0x1000 + 4 * i" 4 perm_read] example_accessible [of "0x1000 + 4 * i" 4 perm_write]
      by (simp add: private_word_def u perm_read_def perm_write_def has_permission_def mapped_page_flag_def)
  qed
  then show ?thesis by (simp add: space_words.slots_at_def)
qed

lemma stored_words:
  "length vs \<le> 5 \<Longrightarrow> space_live 0 (memory_run (example_ops @ map store_word (enumerate 0 vs))) \<and>
    space_words.slots_at 0 0x1000 5 (memory_run (example_ops @ map store_word (enumerate 0 vs))) \<and>
    space_words.words_at 0 0x1000 vs (memory_run (example_ops @ map store_word (enumerate 0 vs))) \<and>
    live (memory_run (example_ops @ map store_word (enumerate 0 vs))) = [0] \<and>
    regions_at 0 (memory_run (example_ops @ map store_word (enumerate 0 vs))) = regions_at 0 (memory_run example_ops)"
proof (induction vs rule: rev_induct)
  case Nil
  then show ?case using example_words run_world [of example_ops] example_world(1) by (simp add: space_live_def space_words.words_at_def)
next
  case (snoc v vs)
  define w where "w = memory_run (example_ops @ map store_word (enumerate 0 vs))"
  have w: "space_live 0 w" "space_words.slots_at 0 0x1000 5 w" "space_words.words_at 0 0x1000 vs w" "live w = [0]"
    "regions_at 0 w = regions_at 0 (memory_run example_ops)" "length vs < 5"
    using snoc by (simp_all add: w_def)
  obtain w' where w': "space_write32 (\<lambda>_ _ _. []) 0 (0x1000 + 4 * of_nat (length vs)) v w = (True, w')" "space_live 0 w'"
      "space_words.slots_at 0 0x1000 5 w'" "space_words.words_at 0 0x1000 (vs @ [v]) w'"
    using space_words.write_next [OF w(1-3,6), where v = v] by fastforce
  have run: "memory_run (example_ops @ map store_word (enumerate 0 (vs @ [v]))) = w'"
    using w'(1) w(4) by (simp add: memory_run_def w_def store_word_def on_space_def space_write32_def enumerate_append_eq)
  have k: "keeps_tables w w'"
    using write_integer_keeps [of w 0 4] w(1,4) w'(1) by (simp add: space_write32_def space_live_def page_size_def) (metis snd_conv)
  then show ?case unfolding run using w' w(4,5) view_regions [of w w' 0] by (simp add: keeps_tables_def)
qed

lemma list_world:
  "live (memory_run list_ops) = [0]" "regions_at 0 (memory_run list_ops) x = (if 0x1000 \<le> x \<and> x < 0x2000 then Some 3 else None)"
  "\<forall>i < 5. stored_word 0 (0x1000 + 4 * of_nat i) (list_words ! i) (memory_run list_ops)"
  using stored_words [of list_words] shared_example(3)
  by (simp_all add: list_ops_def list_words_def space_words.words_at_def)

lemma listed_world:
  "live (memory_run listed_ops) = [0]"
  "regions_at 0 (memory_run listed_ops) x =
     (if 0x30000000 \<le> x \<and> x < 0x30001000 then Some 1 else if 0x1000 \<le> x \<and> x < 0x2000 then Some 3 else None)"
  "settled 0 0x1010 (memory_run listed_ops)" "read_byte 0 0x1010 (memory_run listed_ops) = 0x12"
proof -
  have w: "world_files (memory_run list_ops)" by (rule run_files)
  have s: "0 \<in> set (live (memory_run list_ops))" by (simp add: list_world(1))
  define w' where "w' = snd (as_map 0 0x30000000 0x1000 1 (memory_run list_ops))"
  have m: "moves 0 {} (\<lambda>x. if x \<in> page_span 0x30000000 0x1000 then Some (or_perm 1 (regions_at 0 (memory_run list_ops) x))
      else regions_at 0 (memory_run list_ops) x) (memory_run list_ops) w'"
    unfolding w'_def by (rule as_map_moves [OF w s]) (simp_all add: range_overflows_def u32_max_def)
  have run: "memory_run listed_ops = w'"
    using s by (simp add: memory_run_def listed_ops_def w'_def on_space_def)
  have sp: "page_span 0x30000000 0x1000 = {0x30000000..<0x30001000}"
    by (simp add: page_span_def page_base_def page_range_end_def page_size_def)
  show "live (memory_run listed_ops) = [0]" using movesD(4) [OF m] by (simp add: run list_world(1))
  show "regions_at 0 (memory_run listed_ops) x =
     (if 0x30000000 \<le> x \<and> x < 0x30001000 then Some 1 else if 0x1000 \<le> x \<and> x < 0x2000 then Some 3 else None)"
    unfolding run movesD(5) [OF m] by (simp add: sp list_world(2) or_perm_def)
  have "stored_word 0 0x1010 0x12 (memory_run list_ops)" using list_world(3) [rule_format, of 4] by (simp add: list_words_def)
  then have b: "resident 0 0x1010 (memory_run list_ops) \<noteq> None" "read_byte 0 0x1010 (memory_run list_ops) = 0x12"
    by (auto simp: stored_word_def split_bytes_def dest!: spec [of _ 0])
  then have st: "settled 0 0x1010 (memory_run list_ops)" by (simp add: settled_def)
  show "settled 0 0x1010 (memory_run listed_ops)" "read_byte 0 0x1010 (memory_run listed_ops) = 0x12"
    using keeps_bytesD(2,3) [OF movesD(2) [OF m] s _ st] b(2) by (simp_all add: run)
qed

definition no_files :: host_files where
  "no_files = \<lparr>hf_read = (\<lambda>_ _ _. []), hf_probe = \<lparr>probe_descriptor = 0, probe_stat = None, probe_sha = None, probe_final = None, probe_path = []\<rparr>,
     hf_size = (\<lambda>_. Some 0), hf_cache = (\<lambda>_. None), hf_install = (\<lambda>_ _ _ _ _ w. w)\<rparr>"

text \<open>What the region loses when it is made private but for some ranges.\<close>

definition released :: "shared_range list \<Rightarrow> nat \<Rightarrow> bool" where
  "released ranges x \<longleftrightarrow>
     arm_shared_text_base \<le> x \<and> x < arm_shared_region_end \<and> (\<forall>r\<in>set ranges. \<not> (sr_address r \<le> x \<and> x < sr_end r))"

text \<open>
  C31: making the shared region private releases exactly what it should. In every reachable world, when
  the ranges the guest names are read and valid, the call succeeds; then an address of the shared
  region is unmapped unless it was mapped and lies in one of those ranges, whatever their order
  and overlaps, and every other address of the space, and every address of every other space, keeps
  its rights and its contents: a byte that is present or of no file reads the same, and a
  page that still has to come from a file comes from the same place of the same file.
\<close>

theorem make_private_exact:
  assumes "s \<in> set (live (memory_run ops))"
    and "read_ranges pread s r1 [0..<unat r0] [] (memory_run ops) = (Inr ranges, w1)"
    and "unat r0 \<le> maximum_range_count" "r0 = 0 \<or> r1 \<noteq> 0"
    and "dispatch_shared_region files s descriptor 300 r0 r1 r2 r3 (memory_run ops) = (result, w')" "hf_read files = pread"
  shows "result = Succeeded \<and> live w' = live (memory_run ops) \<and>
    (\<forall>x. regions_at s w' x = (if released ranges x then None else regions_at s (memory_run ops) x)) \<and>
    (\<forall>t. t \<noteq> s \<longrightarrow> regions_at t w' = regions_at t (memory_run ops)) \<and>
    (\<forall>t\<in>set (live (memory_run ops)). \<forall>x. t \<noteq> s \<or> \<not> released ranges x \<longrightarrow>
       file_source t x w' = file_source t x (memory_run ops) \<and>
       (settled t x (memory_run ops) \<longrightarrow> settled t x w' \<and> read_byte t x w' = read_byte t x (memory_run ops)))"
proof -
  have eq: "shared_region_make_private pread s r0 r1 (memory_run ops) = (result, w')"
    using assms(5,6) by (simp add: dispatch_shared_region_def)
  note m = make_private_moves [OF run_files assms(1-4), unfolded eq fst_conv snd_conv]
  have rel: "{arm_shared_text_base..<arm_shared_region_end} - covered ranges = Collect (released ranges)"
    by (auto simp: covered_def released_def)
  note m2 = m(2) [unfolded rel mem_Collect_eq]
  show ?thesis
    using m(1) movesD(4,5) [OF m2] remapsD(4) [OF movesD(1) [OF m2]] movesD(2) [OF m2, unfolded keeps_bytes_def mem_Collect_eq] by blast
qed

theorem make_private_exact_witness:
  "regions_at 0 (snd (dispatch_shared_region no_files 0 None 300 0 0 0 0 (memory_run listed_ops))) 0x30000FFF = None \<and>
   regions_at 0 (memory_run listed_ops) 0x30000FFF = Some 1 \<and>
   regions_at 0 (snd (dispatch_shared_region no_files 0 None 300 0 0 0 0 (memory_run listed_ops))) 0x1FFF = Some 3 \<and>
   read_byte 0 0x1010 (snd (dispatch_shared_region no_files 0 None 300 0 0 0 0 (memory_run listed_ops))) = 0x12"
proof -
  have r: "read_ranges (hf_read no_files) 0 0 [0..<unat (0 :: u32)] [] (memory_run listed_ops) = (Inr [], memory_run listed_ops)" by simp
  have s: "0 \<in> set (live (memory_run listed_ops))" by (simp add: listed_world(1))
  from make_private_exact [OF s r _ _ surjective_pairing refl, of None 0 0] show ?thesis
    using listed_world(3,4) s by (simp add: listed_world(2) released_def arm_shared_text_base_def arm_shared_region_end_def)
qed

text \<open>
  the slide is the least that fits. The slide chosen for the segments of a library is zero if they
  fit there, and only then when the caller forbids sliding; otherwise it is the least multiple of the
  page size below half the region at which all of them fit, and there is none exactly when none fits.
\<close>

theorem slide_choice_least:
  "case choose_slide s ms may w of
     Some k \<Rightarrow> mappings_fit s ms w k \<and> page_aligned k \<and> k < arm_shared_half_size \<and> (k = 0 \<or> may) \<and>
       (\<forall>j < k. page_aligned j \<longrightarrow> \<not> mappings_fit s ms w j)
   | None \<Rightarrow> \<not> mappings_fit s ms w 0 \<and> (may \<longrightarrow> (\<forall>j < arm_shared_half_size. page_aligned j \<longrightarrow> \<not> mappings_fit s ms w j))"
  by (rule choose_slide_exact)

text \<open>
  C32: a failed call leaves nothing behind. In every reachable world, when a call that maps a library
  fails, at whatever mapping or in the store of the slide, and the places chosen for its
  mappings held nothing, then the spaces are the same, every address of every space has the rights
  it had, and every mapped address of the calling space and every address of the others keep their
  contents: a byte that is present or of no file reads the same, and a page that still has
  to come from a file comes from the same place of the same file.
\<close>

theorem failed_map_restores:
  assumes "s \<in> set (live (memory_run ops))" "number \<in> {299, 295}"
    and "dispatch_shared_region files s (Some path) number r0 r1 r2 r3 (memory_run ops) = (Failed e, w')"
    and "\<And>ms v slide. asked_mappings files s path r1 r2 (memory_run ops) = (Some ms, v) \<Longrightarrow>
        choose_slide s ms (number = 299 \<and> r3 \<noteq> 0) v = Some slide \<Longrightarrow>
        \<forall>m\<in>set ms. \<forall>x\<in>page_span (sm_address m + slide) (sm_size m). regions_at s (memory_run ops) x = None"
  shows "live w' = live (memory_run ops) \<and> (\<forall>t. regions_at t w' = regions_at t (memory_run ops)) \<and>
    (\<forall>t\<in>set (live (memory_run ops)). \<forall>x. t \<noteq> s \<or> regions_at s (memory_run ops) x \<noteq> None \<longrightarrow>
       file_source t x w' = file_source t x (memory_run ops) \<and>
       (settled t x (memory_run ops) \<longrightarrow> settled t x w' \<and> read_byte t x w' = read_byte t x (memory_run ops)))"
proof -
  define sa where "sa = (if number = 299 then r3 else 0)"
  have sa: "sa \<noteq> 0 \<longleftrightarrow> number = 299 \<and> r3 \<noteq> 0" by (simp add: sa_def)
  have r: "shared_region_map files s (Some path) r1 r2 sa (memory_run ops) = (Failed e, w')"
    using assms(2,3) by (auto simp: dispatch_shared_region_def sa_def)
  obtain U where m: "moves s U (regions_at s (memory_run ops)) (memory_run ops) w'" "\<forall>x\<in>U. regions_at s (memory_run ops) x = None"
    using failed_map_moves [OF run_files assms(1) _ r] assms(4) unfolding sa by blast
  have "regions_at t w' = regions_at t (memory_run ops)" for t
    using remapsD(3,4) [OF movesD(1) [OF m(1)]] by (cases "t = s") (auto simp: fun_eq_iff)
  moreover have "t \<noteq> s \<or> x \<notin> U" if "t \<noteq> s \<or> regions_at s (memory_run ops) x \<noteq> None" for t x using that m(2) by auto
  ultimately show ?thesis using movesD(4) [OF m(1)] keeps_bytesD [OF movesD(2) [OF m(1)]] by blast
qed

text \<open>
  C33: a mapping that overlaps other memory in part is let through. The check of the code asks whether the
  whole target is mapped, so a zero-filled mapping whose target holds one mapped and one unmapped byte
  is placed with slide zero, and the byte that belonged to other memory gets the rights of both.
\<close>

theorem partial_overlap_accepted:
  assumes "s \<in> set (live (memory_run ops))" "valid_mapping m file_size" "zero_fill m"
    and "x \<in> {sm_address m..<sm_address m + sm_size m}" "regions_at s (memory_run ops) x = Some q"
    and "y \<in> {sm_address m..<sm_address m + sm_size m}" "regions_at s (memory_run ops) y = None"
  shows "choose_slide s [m] may (memory_run ops) = Some 0 \<and>
    (\<exists>w'. apply_mappings files s path cache 0 [m] [] (memory_run ops) = (Inr [(sm_address m, sm_size m)], w') \<and>
       regions_at s w' x = Some (perm_or q (protection_permissions (sm_initial m))))"
proof -
  note ok = run_world [of ops]
  have reg: "in_arm_shared_region (sm_address m) (sm_size m)" using assms(2) by (simp add: valid_mapping_def)
  then have sp: "span_ok (sm_address m, sm_size m)" by (rule in_region_span)
  then have a: "sm_address m < 2 ^ 32" "sm_size m \<noteq> 0" "\<not> range_overflows (sm_address m) (sm_size m)" by (simp_all add: span_ok_def)
  have chain: "chain 0 (vm_regions (space_of (memory_run ops) s))" using region_regs [OF ok assms(1)] by (simp add: vm_inv_def)
  have "\<not> accessible (sm_address m) (sm_address m + sm_size m) perm_none (vm_regions (space_of (memory_run ops) s))"
    using assms(6,7) by (auto simp: accessible_spec [OF chain] regions_at_def dest!: spec [of _ y])
  then have "\<not> range_accessible s (sm_address m) (sm_size m) perm_none (memory_run ops)"
    using accessible_by_regions [OF world_okD(2) [OF ok] assms(1) a(1), of perm_none "sm_size m"] a(2) by (simp add: perm_none_def)
  then have fit: "mappings_fit s [m] (memory_run ops) 0" using reg by (simp add: mappings_fit_def add_overflows_def)
  define w1 where "w1 = snd (as_map s (sm_address m) (sm_size m) (protection_permissions (sm_initial m)) (memory_run ops))"
  note mp = as_map_remaps [OF ok assms(1) a, of "protection_permissions (sm_initial m)", folded w1_def]
  define w' where "w' = (if has_permission (protection_permissions (sm_initial m)) perm_execute
    then mark_translation_profile_stable s (sm_address m) (sm_size m) w1 else w1)"
  have "apply_one files s path cache 0 m (memory_run ops) = (True, w1)"
    using assms(3) mp(1) by (simp add: apply_one_def w1_def prod_eq_iff)
  then have "apply_mappings files s path cache 0 [m] [] (memory_run ops) = (Inr [(sm_address m, sm_size m)], w')"
    using assms(3) by (simp add: apply_mappings_step w'_def)
  moreover have "regions_at s w' x = regions_at s w1 x"
    using remapsD(3) [OF keeps_remaps [OF remapsD(1) [OF mp(2)] profile_stable_keeps [OF remapsD(1) [OF mp(2)]]]] by (simp add: w'_def)
  moreover have "regions_at s w1 x = Some (perm_or q (protection_permissions (sm_initial m)))"
    using remapsD(3) [OF mp(2), of x] assms(4,5) page_span_covers [OF a(2), of "sm_address m"] by (auto simp: or_perm_def)
  ultimately show ?thesis using fit by (simp add: choose_slide_def)
qed

definition overlapping_mapping :: shared_mapping where
  "overlapping_mapping = \<lparr>sm_address = 0x30000000, sm_size = 0x2000, sm_offset = 0, sm_maximum = 7, sm_initial = 0x12\<rparr>"

theorem partial_overlap_accepted_witness:
  "\<exists>w'. apply_mappings no_files 0 ''lib'' None 0 [overlapping_mapping] [] (memory_run shared_ops) = (Inr [(0x30000000, 0x2000)], w') \<and>
     regions_at 0 w' 0x30000000 = Some 3"
proof -
  have m: "valid_mapping overlapping_mapping 0" "zero_fill overlapping_mapping"
    by (simp_all add: valid_mapping_def zero_fill_def overlapping_mapping_def in_arm_shared_region_def add_overflows_def u32_max_def
        arm_shared_text_base_def arm_shared_data_base_def page_aligned_def page_size_def vm_protection_known_def vm_protection_zero_fill_def)
  have p: "perm_or 1 (protection_permissions 18) = 3"
    by (simp add: protection_permissions_def perm_or_def perm_read_def perm_write_def perm_execute_def perm_none_def)
  from partial_overlap_accepted [OF _ m, where s = 0 and ops = shared_ops and x = "0x30000000" and q = 1 and y = "0x30001000"
    and files = no_files and path = "''lib''" and cache = None] show ?thesis
    by (simp add: shared_example overlapping_mapping_def p)
qed

text \<open>The call with the list above, and an address for the slide that is not mapped.\<close>

definition library_mapping :: shared_mapping where
  "library_mapping = \<lparr>sm_address = 0x30000000, sm_size = 0x1000, sm_offset = 0, sm_maximum = 7, sm_initial = 0x12\<rparr>"

lemma library_asked:
  "asked_mappings no_files 0 ''lib'' 1 0x1000 (memory_run list_ops) = (Some [library_mapping], memory_run list_ops)"
proof -
  have live: "space_live 0 (memory_run list_ops)" by (simp add: space_live_def run_world list_world(1))
  note st = list_world(3) [rule_format]
  have read: "space_read32 pread 0 0x1000 (memory_run list_ops) = (Some 0x30000000, memory_run list_ops)"
    "space_read32 pread 0 0x1004 (memory_run list_ops) = (Some 0x1000, memory_run list_ops)"
    "space_read32 pread 0 0x1008 (memory_run list_ops) = (Some 0, memory_run list_ops)"
    "space_read32 pread 0 0x100C (memory_run list_ops) = (Some 7, memory_run list_ops)"
    "space_read32 pread 0 0x1010 (memory_run list_ops) = (Some 0x12, memory_run list_ops)" for pread
    using st [of 0] st [of 1] st [of 2] st [of 3] st [of 4] by (simp_all add: list_words_def read_stored_word [OF live])
  have valid: "valid_mapping library_mapping 0"
    by (simp add: valid_mapping_def zero_fill_def library_mapping_def in_arm_shared_region_def add_overflows_def u32_max_def
        arm_shared_text_base_def arm_shared_data_base_def page_aligned_def page_size_def vm_protection_known_def vm_protection_zero_fill_def)
  have "read_mapping pread 0 0x1000 0 Arm32_Words (memory_run list_ops) = (Some library_mapping, memory_run list_ops)" for pread
    by (simp add: read_mapping_def read library_mapping_def)
  then show ?thesis using valid by (simp add: asked_mappings_def no_files_def read_mappings_def)
qed

lemma library_fails:
  "choose_slide 0 [library_mapping] may (memory_run list_ops) = Some 0"
  "fst (apply_mappings no_files 0 ''lib'' None 0 [library_mapping] [] (memory_run list_ops)) = Inr [(0x30000000, 0x1000)]"
  "fst (dispatch_shared_region no_files 0 (Some ''lib'') 299 3 1 0x1000 0x9000 (memory_run list_ops)) = Failed error_bad_address"
proof -
  define w where "w = memory_run list_ops"
  note ok = run_world [of list_ops, folded w_def]
  have s: "0 \<in> set (live w)" by (simp add: w_def list_world(1))
  define w1 where "w1 = snd (as_map 0 0x30000000 0x1000 2 w)"
  have a: "0x30000000 < (2 :: nat) ^ 32" "(0x1000 :: nat) \<noteq> 0" "\<not> range_overflows 0x30000000 0x1000"
    by (simp_all add: range_overflows_def u32_max_def)
  note mp = as_map_remaps [OF ok s a, of 2, folded w1_def]
  have sp: "page_span 0x30000000 0x1000 = {0x30000000..<0x30001000}"
    by (simp add: page_span_def page_base_def page_range_end_def page_size_def)
  have none: "\<not> range_accessible 0 a n p v"
    if "regions_at 0 v a = None" "a < 2 ^ 32" "n \<noteq> 0" "world_ok v" "0 \<in> set (live v)" "p = perm_none \<or> p = perm_write" for a n p v
  proof -
    have "chain 0 (vm_regions (space_of v 0))" using region_regs [OF that(4,5)] by (simp add: vm_inv_def)
    then show ?thesis
      using that accessible_by_regions [OF world_okD(2) [OF that(4)] that(5,2), of p n]
      by (auto simp: accessible_spec regions_at_def perm_none_def perm_write_def mapped_page_flag_def dest!: spec [of _ a])
  qed
  have "\<not> range_accessible 0 0x30000000 0x1000 perm_none w"
    by (rule none [OF _ _ _ ok s]) (simp_all add: w_def list_world(2))
  then have fit: "mappings_fit 0 [library_mapping] w 0"
    by (simp add: mappings_fit_def library_mapping_def add_overflows_def in_arm_shared_region_def u32_max_def
        arm_shared_text_base_def arm_shared_data_base_def)
  then show slide: "choose_slide 0 [library_mapping] may (memory_run list_ops) = Some 0" for may by (simp add: choose_slide_def w_def)
  have p: "protection_permissions 18 = 2"
    by (simp add: protection_permissions_def perm_or_def perm_read_def perm_write_def perm_execute_def perm_none_def)
  have ap: "apply_mappings no_files 0 ''lib'' None 0 [library_mapping] [] w = (Inr [(0x30000000, 0x1000)], w1)"
  proof -
    have "apply_one no_files 0 ''lib'' None 0 library_mapping w = (True, w1)"
      using mp(1) by (simp add: apply_one_def zero_fill_def library_mapping_def vm_protection_zero_fill_def p w1_def prod_eq_iff)
    then show ?thesis
      by (simp add: apply_mappings_step zero_fill_def library_mapping_def vm_protection_zero_fill_def p has_permission_def perm_execute_def)
  qed
  then show "fst (apply_mappings no_files 0 ''lib'' None 0 [library_mapping] [] (memory_run list_ops)) = Inr [(0x30000000, 0x1000)]"
    by (simp add: w_def)
  have "\<not> range_accessible 0 0x9000 8 perm_write w1"
    by (rule none) (use remapsD(1-3) [OF mp(2)] s in \<open>simp_all add: sp w_def list_world(2)\<close>)
  then have wr: "space_write64 pread 0 0x9000 v w1 = (False, w1)" for pread v
    by (simp add: space_write64_def write_integer_def)
  show "fst (dispatch_shared_region no_files 0 (Some ''lib'') 299 3 1 0x1000 0x9000 (memory_run list_ops)) = Failed error_bad_address"
  proof -
    have "hf_size no_files ''lib'' = Some 0" "hf_cache no_files ''lib'' = None" by (simp_all add: no_files_def)
    moreover have "\<not> (unat (1 :: u32) > maximum_mapping_count \<or> (0x1000 :: u32) = 0)"
      by (simp add: maximum_mapping_count_def arm_shared_half_size_def page_size_def)
    ultimately show ?thesis
      using ap slide wr by (simp add: dispatch_shared_region_def w_def shared_region_map_steps [OF _ _ _ library_asked])
  qed
qed

theorem failed_map_restores_witness:
  "\<exists>w'. dispatch_shared_region no_files 0 (Some ''lib'') 299 3 1 0x1000 0x9000 (memory_run list_ops) = (Failed error_bad_address, w') \<and>
     fst (apply_mappings no_files 0 ''lib'' None 0 [library_mapping] [] (memory_run list_ops)) = Inr [(0x30000000, 0x1000)] \<and>
     regions_at 0 w' 0x30000000 = None \<and> regions_at 0 w' 0x1010 = Some 3 \<and> read_byte 0 0x1010 w' = 0x12"
proof -
  obtain w' where run: "dispatch_shared_region no_files 0 (Some ''lib'') 299 3 1 0x1000 0x9000 (memory_run list_ops) = (Failed error_bad_address, w')"
    using library_fails(3) by (metis prod.collapse)
  have s: "0 \<in> set (live (memory_run list_ops))" by (simp add: list_world(1))
  have sp: "page_span 0x30000000 0x1000 = {0x30000000..<0x30001000}"
    by (simp add: page_span_def page_base_def page_range_end_def page_size_def)
  have free: "\<forall>m\<in>set ms. \<forall>x\<in>page_span (sm_address m + slide) (sm_size m). regions_at 0 (memory_run list_ops) x = None"
    if "asked_mappings no_files 0 ''lib'' 1 0x1000 (memory_run list_ops) = (Some ms, v)"
      "choose_slide 0 ms ((299 :: nat) = 299 \<and> (0x9000 :: u32) \<noteq> 0) v = Some slide" for ms v slide
    using that library_fails(1) by (auto simp: library_asked library_mapping_def sp list_world(2))
  note c = failed_map_restores [OF s _ run free]
  have "stored_word 0 0x1010 0x12 (memory_run list_ops)" using list_world(3) [rule_format, of 4] by (simp add: list_words_def)
  then have b: "settled 0 0x1010 (memory_run list_ops)" "read_byte 0 0x1010 (memory_run list_ops) = 0x12"
    by (auto simp: stored_word_def settled_def split_bytes_def dest!: spec [of _ 0])
  show ?thesis using c run library_fails(2) b s by (simp add: list_world(2))
qed

end
