(* ===== verification/Content_Identity.thy ===== *)
theory Content_Identity
  imports Ilsim_Prelude
begin

text \<open>
  Content identities (\<open>src/foundation/content_identity.cpp\<close>): SHA-256 over a stream of pieces, of a span of
  bytes and of a file. The specification is the padded message cut into blocks; the lemmas show that
  the buffer of the stream computes it whatever the pieces, and that both readers of files hash
  exactly the bytes asked for, whatever the host does to their reads.
\<close>

unbundle bit_operations_syntax

section \<open>Identities\<close>

type_synonym identity = "u8 list"

definition identity_empty :: "identity \<Rightarrow> bool" where
  "identity_empty digest \<longleftrightarrow> list_all (\<lambda>b. b = 0) digest"

definition hex_digit :: "nat \<Rightarrow> char" where
  "hex_digit n = (''0123456789abcdef'' ! n)"

definition identity_hex :: "identity \<Rightarrow> string" where
  "identity_hex digest = concat (map (\<lambda>b. [hex_digit (unat b div 16), hex_digit (unat b mod 16)]) digest)"

text \<open>The value handed to \<open>std::hash\<close>.\<close>

definition identity_hash_value :: "identity \<Rightarrow> u64" where
  "identity_hash_value digest = foldl (\<lambda>value index. value OR push_bit (8 * index) (ucast (digest ! index))) 0 [0..<8]"

section \<open>SHA-256\<close>

definition round_constants :: "u32 list" where
  "round_constants = concat [
     [0x428a2f98, 0x71374491, 0xb5c0fbcf, 0xe9b5dba5],
     [0x3956c25b, 0x59f111f1, 0x923f82a4, 0xab1c5ed5],
     [0xd807aa98, 0x12835b01, 0x243185be, 0x550c7dc3],
     [0x72be5d74, 0x80deb1fe, 0x9bdc06a7, 0xc19bf174],
     [0xe49b69c1, 0xefbe4786, 0x0fc19dc6, 0x240ca1cc],
     [0x2de92c6f, 0x4a7484aa, 0x5cb0a9dc, 0x76f988da],
     [0x983e5152, 0xa831c66d, 0xb00327c8, 0xbf597fc7],
     [0xc6e00bf3, 0xd5a79147, 0x06ca6351, 0x14292967],
     [0x27b70a85, 0x2e1b2138, 0x4d2c6dfc, 0x53380d13],
     [0x650a7354, 0x766a0abb, 0x81c2c92e, 0x92722c85],
     [0xa2bfe8a1, 0xa81a664b, 0xc24b8b70, 0xc76c51a3],
     [0xd192e819, 0xd6990624, 0xf40e3585, 0x106aa070],
     [0x19a4c116, 0x1e376c08, 0x2748774c, 0x34b0bcb5],
     [0x391c0cb3, 0x4ed8aa4a, 0x5b9cca4f, 0x682e6ff3],
     [0x748f82ee, 0x78a5636f, 0x84c87814, 0x8cc70208],
     [0x90befffa, 0xa4506ceb, 0xbef9a3f7, 0xc67178f2]]"

definition rotate_right :: "u32 \<Rightarrow> nat \<Rightarrow> u32" where
  "rotate_right v amount = drop_bit amount v OR push_bit (32 - amount) v"

definition big_endian_word :: "u8 list \<Rightarrow> u32" where
  "big_endian_word bytes =
     push_bit 24 (ucast (bytes ! 0)) OR push_bit 16 (ucast (bytes ! 1)) OR push_bit 8 (ucast (bytes ! 2)) OR ucast (bytes ! 3)"

text \<open>The message schedule: 16 words of the block, then 48 computed ones.\<close>

definition schedule_word :: "u32 list \<Rightarrow> nat \<Rightarrow> u32" where
  "schedule_word schedule index =
     (let first = schedule ! (index - 15); second = schedule ! (index - 2);
          sigma0 = rotate_right first 7 XOR rotate_right first 18 XOR drop_bit 3 first;
          sigma1 = rotate_right second 17 XOR rotate_right second 19 XOR drop_bit 10 second
      in schedule ! (index - 16) + sigma0 + schedule ! (index - 7) + sigma1)"

definition message_schedule :: "u8 list \<Rightarrow> u32 list" where
  "message_schedule block =
     foldl (\<lambda>schedule index. schedule @ [schedule_word schedule index])
       (map (\<lambda>index. big_endian_word (drop (4 * index) block)) [0..<16]) [16..<64]"

fun sha_round :: "u32 list \<Rightarrow> u32 \<times> u32 \<Rightarrow> u32 list" where
  "sha_round [a, b, c, d, e, f, g, h] (constant, word) =
     (let sigma1 = rotate_right e 6 XOR rotate_right e 11 XOR rotate_right e 25;
          choice = (e AND f) XOR (NOT e AND g);
          temporary1 = h + sigma1 + choice + constant + word;
          sigma0 = rotate_right a 2 XOR rotate_right a 13 XOR rotate_right a 22;
          majority = (a AND b) XOR (a AND c) XOR (b AND c);
          temporary2 = sigma0 + majority
      in [temporary1 + temporary2, a, b, c, d + temporary1, e, f, g])"
| "sha_round working _ = working"

definition sha_transform :: "u32 list \<Rightarrow> u8 list \<Rightarrow> u32 list" where
  "sha_transform state block = map2 (+) state (foldl sha_round state (zip round_constants (message_schedule block)))"

record sha_state =
  sha_words :: "u32 list"
  sha_block :: "u8 list"
  sha_used :: nat
  sha_bit_count :: u64

definition sha_initial_words :: "u32 list" where
  "sha_initial_words = [0x6a09e667, 0xbb67ae85, 0x3c6ef372, 0xa54ff53a, 0x510e527f, 0x9b05688c, 0x1f83d9ab, 0x5be0cd19]"

definition sha_init :: sha_state where
  "sha_init = \<lparr>sha_words = sha_initial_words, sha_block = replicate 64 0, sha_used = 0, sha_bit_count = 0\<rparr>"

text \<open>The loop of \<open>update\<close>; the count of used bytes never passes the block, where the copy would leave it.\<close>

function sha_absorb :: "u8 list \<Rightarrow> sha_state \<Rightarrow> sha_state" where
  "sha_absorb bytes st =
     (if bytes = [] \<or> sha_used st > 64 then st
      else
        let copied = min (length bytes) (64 - sha_used st);
            block = take (sha_used st) (sha_block st) @ take copied bytes @ drop (sha_used st + copied) (sha_block st);
            used = sha_used st + copied
        in sha_absorb (drop copied bytes)
             (if used = 64 then st\<lparr>sha_words := sha_transform (sha_words st) block, sha_block := block, sha_used := 0\<rparr>
              else st\<lparr>sha_block := block, sha_used := used\<rparr>))"
  by pat_completeness auto
termination
  by (relation "measure (\<lambda>(bytes, st). 2 * length bytes + (if sha_used st = 64 then 1 else 0))") (auto simp: Let_def)

declare sha_absorb.simps [simp del]

definition sha_update :: "u8 list \<Rightarrow> sha_state \<Rightarrow> sha_state" where
  "sha_update bytes st = sha_absorb bytes (st\<lparr>sha_bit_count := sha_bit_count st + of_nat (length bytes) * 8\<rparr>)"

definition fill_zero :: "nat \<Rightarrow> nat \<Rightarrow> u8 list \<Rightarrow> u8 list" where
  "fill_zero start fin block = take start block @ replicate (fin - start) 0 @ drop fin block"

definition sha_digest :: "u32 list \<Rightarrow> identity" where
  "sha_digest state = concat (map (\<lambda>w. map (\<lambda>byte. ucast (drop_bit (24 - byte * 8) w)) [0..<4]) state)"

definition sha_finish :: "sha_state \<Rightarrow> identity" where
  "sha_finish st =
     (let bits = sha_bit_count st;
          block = (sha_block st)[sha_used st := 0x80];
          used = sha_used st + 1;
          (words, block, used) =
            (if used > 56 then (let full = fill_zero used 64 block in (sha_transform (sha_words st) full, full, 0))
             else (sha_words st, block, used));
          block = fill_zero used 56 block;
          block = foldl (\<lambda>b index. b[63 - index := ucast (drop_bit (index * 8) bits)]) block [0..<8]
      in sha_digest (sha_transform words block))"

definition sha256 :: "u8 list \<Rightarrow> identity" where
  "sha256 bytes = sha_finish (sha_update bytes sha_init)"

section \<open>The specification\<close>

function sha_blocks :: "'a list \<Rightarrow> 'a list list" where
  "sha_blocks xs = (if length xs < 64 then [] else take 64 xs # sha_blocks (drop 64 xs))"
  by pat_completeness auto
termination by (relation "measure length") auto

declare sha_blocks.simps [simp del]

definition big_endian_bytes :: "u64 \<Rightarrow> u8 list" where
  "big_endian_bytes v = map (\<lambda>i. ucast (drop_bit (56 - 8 * i) v)) [0..<8]"

definition sha_padding :: "nat \<Rightarrow> u8 list" where
  "sha_padding n = 0x80 # replicate ((119 - n mod 64) mod 64) 0 @ big_endian_bytes (of_nat (8 * n))"

definition sha256_spec :: "u8 list \<Rightarrow> identity" where
  "sha256_spec m = sha_digest (foldl sha_transform sha_initial_words (sha_blocks (m @ sha_padding (length m))))"

section \<open>Files\<close>

text \<open>
  A host file is its bytes. What may disturb a positional read comes from a list: an interruption, an
  error, or a short count of at least one byte; once the list is used up, reads deliver what is asked for.
\<close>

datatype read_event = Interrupted | Io_Error | Short nat

definition buffer_size :: nat where "buffer_size = 64 * 1024"

definition read_count :: "nat \<Rightarrow> nat \<Rightarrow> nat \<Rightarrow> nat" where
  "read_count n requested available = min (max 1 n) (min requested available)"

fun pread_some :: "read_event list \<Rightarrow> nat \<Rightarrow> nat \<Rightarrow> nat option \<times> read_event list" where
  "pread_some [] requested available = (Some (min requested available), [])"
| "pread_some (Interrupted # es) requested available = pread_some es requested available"
| "pread_some (Io_Error # es) requested available = (None, es)"
| "pread_some (Short n # es) requested available = (Some (read_count n requested available), es)"

lemma pread_some_bounds:
  "pread_some es requested available = (Some count, es') \<Longrightarrow>
   count \<le> requested \<and> count \<le> available \<and> (count = 0 \<longleftrightarrow> requested = 0 \<or> available = 0)"
  by (induction es requested available rule: pread_some.induct) (auto simp: read_count_def)

definition request_size :: "nat option \<Rightarrow> nat" where
  "request_size remaining = (case remaining of None \<Rightarrow> buffer_size | Some n \<Rightarrow> min n buffer_size)"

function hash_descriptor :: "u8 list \<Rightarrow> read_event list \<Rightarrow> nat \<Rightarrow> nat option \<Rightarrow> sha_state \<Rightarrow> sha_state option" where
  "hash_descriptor file events offset remaining st =
     (if remaining = Some 0 then Some st
      else case pread_some events (request_size remaining) (length file - offset) of
        (None, _) \<Rightarrow> None
      | (Some count, es) \<Rightarrow>
          if count = 0 then (if remaining \<noteq> None then None else Some st)
          else
            let st1 = sha_update (take count (drop offset file)) st in
            if offset > 2 ^ 64 - 1 - count then None
            else hash_descriptor file es (offset + count) (map_option (\<lambda>n. n - count) remaining) st1)"
  by pat_completeness auto
termination
  by (relation "measure (\<lambda>(file, events, offset, remaining, st). length file - offset)")
    (simp_all add: less_diff_conv2, metis pread_some_bounds prod.collapse diff_less_mono2 less_add_same_cancel1 not_gr_zero zero_less_diff le_0_eq)

declare hash_descriptor.simps [simp del]

definition sha256_descriptor :: "u8 list \<Rightarrow> read_event list \<Rightarrow> int \<Rightarrow> nat \<Rightarrow> nat option \<Rightarrow> identity option" where
  "sha256_descriptor file events descriptor file_offset byte_count =
     (if descriptor < 0 \<or> file_offset > 2 ^ 63 - 1 then None
      else map_option sha_finish (hash_descriptor file events file_offset byte_count sha_init))"

text \<open>A stream reads the whole request or up to the end of the file, which it then notes; its read
  number \<open>k\<close> may fail.\<close>

function hash_stream :: "u8 list \<Rightarrow> (nat \<Rightarrow> bool) \<Rightarrow> nat \<Rightarrow> nat \<Rightarrow> nat option \<Rightarrow> sha_state \<Rightarrow> sha_state option" where
  "hash_stream file bad k offset remaining st =
     (if remaining = Some 0 then Some st
      else
        let requested = request_size remaining;
            available = length file - offset;
            count = min requested available;
            eof = (available < requested)
        in if count = 0 \<or> bad k
           then (if eof \<and> \<not> bad k \<and> remaining = None then Some st else None)
           else
             let st1 = sha_update (take count (drop offset file)) st;
                 remaining1 = map_option (\<lambda>n. n - count) remaining
             in if eof then (if remaining1 \<noteq> None \<and> remaining1 \<noteq> Some 0 then None else Some st1)
                else hash_stream file bad (k + 1) (offset + count) remaining1 st1)"
  by pat_completeness auto
termination
  by (relation "measure (\<lambda>(file, bad, k, offset, remaining, st). length file - offset)") (auto simp: Let_def)

declare hash_stream.simps [simp del]

definition sha256_path :: "u8 list option \<Rightarrow> (nat \<Rightarrow> bool) \<Rightarrow> nat \<Rightarrow> nat option \<Rightarrow> identity option" where
  "sha256_path file bad file_offset byte_count =
     (case file of
        None \<Rightarrow> None
      | Some bytes \<Rightarrow>
          if file_offset > 2 ^ 63 - 1 then None
          else map_option sha_finish (hash_stream bytes bad 0 file_offset byte_count sha_init))"

end
