(* ===== verification/Jit_Profile.thy ===== *)
theory Jit_Profile
  imports Content_Identity "HOL-Library.List_Lexorder"
begin

text \<open>
  The translation profiles of the recompiler (\<open>src/foundation/jit_translation_profile.cpp\<close>): the
  bounded record of the code locations that were translated, its file format with a checksum, and
  the store that loads a profile by the identity of an executable and saves all of them. The host
  directory is a map from file names to bytes, and how each save goes is an event; allocation
  failures, which the code swallows, are left out.
\<close>

unbundle bit_operations_syntax

section \<open>Profiles\<close>

definition maximum_locations :: nat where "maximum_locations = 131072"

record jit_profile =
  jp_locations :: "u64 list"
  jp_known :: "u64 set"
  jp_discarded :: "u64 set"

fun insert_locations :: "u64 list \<Rightarrow> jit_profile \<Rightarrow> jit_profile" where
  "insert_locations [] p = p"
| "insert_locations (l # ls) p =
     insert_locations ls (if l \<noteq> 0 \<and> l \<notin> jp_known p
       then p\<lparr>jp_locations := jp_locations p @ [l], jp_known := insert l (jp_known p)\<rparr> else p)"

definition new_profile :: "u64 list \<Rightarrow> jit_profile" where
  "new_profile descriptors =
     (let retained = min (length descriptors) maximum_locations
      in insert_locations (drop (length descriptors - retained) descriptors)
           \<lparr>jp_locations = [], jp_known = {}, jp_discarded = {}\<rparr>)"

definition record_location :: "u64 \<Rightarrow> jit_profile \<Rightarrow> jit_profile" where
  "record_location l p =
     (if l = 0 then p
      else if l \<in> jp_known p \<or> l \<in> jp_discarded p then p
      else
        let p1 = (if length (jp_locations p) = maximum_locations
              then let oldest = hd (jp_locations p) in
                p\<lparr>jp_locations := tl (jp_locations p), jp_known := jp_known p - {oldest},
                  jp_discarded := jp_discarded p - {oldest}\<rparr>
              else p)
        in if l \<in> jp_known p1 then p1
           else p1\<lparr>jp_locations := jp_locations p1 @ [l], jp_known := insert l (jp_known p1)\<rparr>)"

definition discard_location :: "u64 \<Rightarrow> jit_profile \<Rightarrow> jit_profile" where
  "discard_location l p =
     (if l = 0 then p
      else if l \<notin> jp_known p then p
      else p\<lparr>jp_discarded := insert l (jp_discarded p), jp_known := jp_known p - {l}\<rparr>)"

definition profile_snapshot :: "jit_profile \<Rightarrow> u64 list" where
  "profile_snapshot p = filter (\<lambda>l. l \<in> jp_known p) (jp_locations p)"

section \<open>The file format\<close>

definition profile_magic :: "u8 list" where
  "profile_magic = [0x69, 0x4C, 0x4A, 0x54, 0x50, 0x52, 0x46, 0x32]"

definition fnv_offset_basis :: u64 where "fnv_offset_basis = 14695981039346656037"
definition fnv_prime :: u64 where "fnv_prime = 1099511628211"

definition hash_bytes :: "u64 \<Rightarrow> u8 list \<Rightarrow> u64" where
  "hash_bytes hash bytes = foldl (\<lambda>h b. (h XOR ucast b) * fnv_prime) hash bytes"

text \<open>The little-endian bytes of a word, and the word of such bytes.\<close>

definition word_bytes :: "'a::len word \<Rightarrow> u8 list" where
  "word_bytes v = map (\<lambda>i. ucast (drop_bit (8 * i) v)) [0..<LENGTH('a) div 8]"

fun bytes_word :: "u8 list \<Rightarrow> 'a::len word" where
  "bytes_word [] = 0"
| "bytes_word (b # bs) = ucast b OR push_bit 8 (bytes_word bs)"

definition profile_checksum :: "identity \<Rightarrow> u64 list \<Rightarrow> u64" where
  "profile_checksum identity ls =
     foldl (\<lambda>hash l. hash_bytes hash (word_bytes l)) (hash_bytes fnv_offset_basis identity) ls"

definition read_word :: "nat \<Rightarrow> u8 list \<Rightarrow> ('a::len word \<times> u8 list) option" where
  "read_word n bytes = (if length bytes < n then None else Some (bytes_word (take n bytes), drop n bytes))"

fun read_locations :: "nat \<Rightarrow> u8 list \<Rightarrow> (u64 list \<times> u8 list) option" where
  "read_locations 0 bytes = Some ([], bytes)"
| "read_locations (Suc n) bytes =
     (case read_word 8 bytes of
        None \<Rightarrow> None
      | Some (l, rest) \<Rightarrow> map_option (\<lambda>(ls, end_of). (l # ls, end_of)) (read_locations n rest))"

definition load_profile :: "u8 list option \<Rightarrow> identity \<Rightarrow> u64 list" where
  "load_profile file expected =
     (case file of
        None \<Rightarrow> []
      | Some bytes \<Rightarrow>
          if take 8 bytes \<noteq> profile_magic then []
          else case read_word 4 (drop 8 bytes) of
            None \<Rightarrow> []
          | Some (location_count :: u32, r1) \<Rightarrow>
          (case read_word 8 r1 of
            None \<Rightarrow> []
          | Some (expected_checksum :: u64, r2) \<Rightarrow>
              if length r2 < 32 then []
              else if take 32 r2 \<noteq> expected \<or> unat location_count > maximum_locations then []
              else case read_locations (unat location_count) (drop 32 r2) of
                None \<Rightarrow> []
              | Some (ls, r3) \<Rightarrow>
                  if r3 \<noteq> [] \<or> profile_checksum (take 32 r2) ls \<noteq> expected_checksum then [] else ls))"

definition profile_bytes :: "identity \<Rightarrow> u64 list \<Rightarrow> u8 list" where
  "profile_bytes identity ls =
     profile_magic @ word_bytes (of_nat (length ls) :: u32) @ word_bytes (profile_checksum identity ls) @ identity @
     concat (map word_bytes ls)"

section \<open>The store\<close>

type_synonym directory = "string \<Rightarrow> u8 list option"

definition profile_file_stem :: "identity \<Rightarrow> string" where
  "profile_file_stem identity = identity_hex identity"

definition profile_file :: "identity \<Rightarrow> string" where
  "profile_file identity = profile_file_stem identity @ ''.profile''"

definition temporary_file :: "identity \<Rightarrow> string" where
  "temporary_file identity = profile_file_stem identity @ ''.profile.tmp''"

datatype save_outcome = Directory_Failed | Open_Failed | Write_Failed "u8 list" | Rename_Failed bool | Replaced

text \<open>The flag says that an exception leaves the loop over the profiles.\<close>

definition save_profile :: "save_outcome \<Rightarrow> identity \<Rightarrow> u64 list \<Rightarrow> directory \<Rightarrow> bool \<times> directory" where
  "save_profile outcome identity ls dir =
     (if identity_empty identity \<or> ls = [] \<or> length ls > maximum_locations then (False, dir)
      else case outcome of
        Directory_Failed \<Rightarrow> (True, dir)
      | Open_Failed \<Rightarrow> (False, dir)
      | Write_Failed partial \<Rightarrow> (False, dir(temporary_file identity \<mapsto> partial))
      | Rename_Failed removed \<Rightarrow>
          (False, dir(temporary_file identity := (if removed then None else Some (profile_bytes identity ls))))
      | Replaced \<Rightarrow> (False, dir(profile_file identity \<mapsto> profile_bytes identity ls, temporary_file identity := None)))"

type_synonym profile_store = "(identity, jit_profile) omap"

definition profile_for :: "identity \<Rightarrow> directory \<Rightarrow> profile_store \<Rightarrow> profile_store" where
  "profile_for identity dir store =
     (if map_of store identity = None
      then om_put identity (new_profile (load_profile (dir (profile_file identity)) identity)) store else store)"

fun save_profiles :: "(identity \<Rightarrow> save_outcome) \<Rightarrow> profile_store \<Rightarrow> directory \<Rightarrow> directory" where
  "save_profiles outcome [] dir = dir"
| "save_profiles outcome ((identity, p) # rest) dir =
     (case save_profile (outcome identity) identity (profile_snapshot p) dir of
        (True, dir') \<Rightarrow> dir'
      | (False, dir') \<Rightarrow> save_profiles outcome rest dir')"

section \<open>Histories\<close>

text \<open>The recompiler records and discards through the profile it was given; a run of the simulator ends
  with or without a save, and the next one starts with an empty store.\<close>

datatype profile_event =
    Profile_For identity
  | Record identity u64
  | Discard identity u64
  | Save "identity \<Rightarrow> save_outcome"
  | Restart

fun profile_step :: "profile_store \<times> directory \<Rightarrow> profile_event \<Rightarrow> profile_store \<times> directory" where
  "profile_step (store, dir) (Profile_For i) = (if length i = 32 then profile_for i dir store else store, dir)"
| "profile_step (store, dir) (Record i l) =
     (case map_of store i of None \<Rightarrow> (store, dir) | Some p \<Rightarrow> (om_put i (record_location l p) store, dir))"
| "profile_step (store, dir) (Discard i l) =
     (case map_of store i of None \<Rightarrow> (store, dir) | Some p \<Rightarrow> (om_put i (discard_location l p) store, dir))"
| "profile_step (store, dir) (Save outcome) = (store, save_profiles outcome store dir)"
| "profile_step (store, dir) Restart = ([], dir)"

definition profile_run :: "directory \<Rightarrow> profile_event list \<Rightarrow> profile_store \<times> directory" where
  "profile_run dir es = foldl profile_step ([], dir) es"

end
