(* ===== verification/Jit_Profile_Properties.thy ===== *)
theory Jit_Profile_Properties
  imports Jit_Profile
begin

text \<open>
  Properties of the translation profiles: what every history keeps of a profile, the file format read
  back exactly, and what a run of the simulator leaves to the next.
\<close>

section \<open>Words and bytes\<close>

lemma bit_bytes_word:
  "bit (bytes_word bs :: 'a::len word) k \<longleftrightarrow> k < 8 * length bs \<and> k < LENGTH('a) \<and> bit (bs ! (k div 8)) (k mod 8)"
proof (induction bs arbitrary: k)
  case (Cons b bs)
  have b: "\<not> bit b k" if "8 \<le> k" using that bit_imp_le_length [of b k] by auto
  have step: "bit (bytes_word (b # bs) :: 'a word) k \<longleftrightarrow>
      k < LENGTH('a) \<and> (bit b k \<or> 8 \<le> k \<and> bit (bytes_word bs :: 'a word) (k - 8))"
    by (simp only: bytes_word.simps bit_or_iff bit_push_bit_iff bit_ucast_iff possible_bit_word) blast
  show ?case
  proof (cases "k < 8")
    case True
    then show ?thesis unfolding step by (simp add: conj_commute)
  next
    case False
    then have "k div 8 = Suc ((k - 8) div 8)" "k mod 8 = (k - 8) mod 8"
      using le_div_geq [of 8 k] le_mod_geq [of 8 k] by simp_all
    moreover have "k - 8 < 8 * length bs \<longleftrightarrow> k < 8 * length (b # bs)" using False by auto
    ultimately show ?thesis unfolding step Cons [of "k - 8"] using False b by (auto simp: less_imp_diff_less)
  qed
qed simp

lemma word_bytes_length [simp]: "length (word_bytes (v :: 'a::len word)) = LENGTH('a) div 8"
  by (simp add: word_bytes_def)

lemma bit_word_bytes: "k < LENGTH('a) div 8 \<Longrightarrow> j < 8 \<Longrightarrow> bit (word_bytes (v :: 'a::len word) ! k) j \<longleftrightarrow> bit v (8 * k + j)"
  by (simp add: word_bytes_def bit_simps)

lemma bytes_word_back: "8 dvd LENGTH('a) \<Longrightarrow> bytes_word (word_bytes (v :: 'a::len word)) = v"
  by (rule bit_word_eqI) (auto simp: bit_bytes_word bit_word_bytes less_mult_imp_div_less)

lemma word_bytes_back: "8 * length bs = LENGTH('a) \<Longrightarrow> word_bytes (bytes_word bs :: 'a::len word) = bs"
proof (rule nth_equalityI)
  assume len: "8 * length bs = LENGTH('a)"
  then have n: "LENGTH('a) div 8 = length bs" by (metis nonzero_mult_div_cancel_left zero_neq_numeral)
  then show "length (word_bytes (bytes_word bs :: 'a word)) = length bs" by simp
  fix i assume i: "i < length (word_bytes (bytes_word bs :: 'a word))"
  have "bit (word_bytes (bytes_word bs :: 'a word) ! i) j \<longleftrightarrow> bit (bs ! i) j" if "j < 8" for j
    using i n that len by (simp add: bit_word_bytes bit_bytes_word)
  then show "word_bytes (bytes_word bs :: 'a word) ! i = bs ! i" by (intro bit_word_eqI) simp
qed

section \<open>The file format\<close>

lemma read_locations_back: "read_locations (length ls) (concat (map word_bytes ls) @ rest) = Some (ls, rest)"
  by (induction ls) (simp_all add: read_word_def bytes_word_back)

lemma read_locations_only: "read_locations n bytes = Some (ls, rest) \<Longrightarrow> length ls = n \<and> bytes = concat (map word_bytes ls) @ rest"
proof (induction n arbitrary: bytes ls)
  case (Suc n)
  then obtain l ls' where "8 \<le> length bytes" "ls = l # ls'" "l = bytes_word (take 8 bytes)" "read_locations n (drop 8 bytes) = Some (ls', rest)"
    by (auto simp: read_word_def split: if_splits)
  moreover from this have "word_bytes l = take 8 bytes" by (simp add: word_bytes_back)
  ultimately show ?case using Suc.IH [of "drop 8 bytes" ls'] by (metis append_assoc append_take_drop_id concat.simps(2) length_Cons list.simps(9))
qed simp

lemma small_count: "n \<le> maximum_locations \<Longrightarrow> unat (of_nat n :: u32) = n"
  by (simp add: unat_of_nat maximum_locations_def)

lemma magic_length [simp]: "length profile_magic = 8"
  by (simp add: profile_magic_def)

lemma load_back:
  assumes "length identity = 32" "length ls \<le> maximum_locations"
  shows "load_profile (Some (profile_bytes identity ls)) identity = ls"
  using assms small_count [OF assms(2)] read_locations_back [of ls "[]"]
  by (simp add: load_profile_def profile_bytes_def read_word_def bytes_word_back)

lemma load_only:
  assumes "load_profile (Some bytes) identity = ls" "ls \<noteq> []"
  shows "length ls \<le> maximum_locations \<and> length identity = 32 \<and> bytes = profile_bytes identity ls"
proof -
  define r1 where "r1 = drop 12 bytes"
  define r2 where "r2 = drop 20 bytes"
  have magic: "take 8 bytes = profile_magic" using assms by (auto simp: load_profile_def split: if_splits)
  then have l8: "8 \<le> length bytes" using magic_length by (metis length_take min_def nat_le_linear)
  have l12: "12 \<le> length bytes" using assms l8 by (auto simp: load_profile_def read_word_def split: if_splits)
  have l20: "20 \<le> length bytes" using assms l8 l12 by (auto simp: load_profile_def read_word_def split: if_splits)
  define count :: u32 where "count = bytes_word (take 4 (drop 8 bytes))"
  define checksum :: u64 where "checksum = bytes_word (take 8 r1)"
  have body: "load_profile (Some bytes) identity =
      (if length r2 < 32 then []
       else if take 32 r2 \<noteq> identity \<or> unat count > maximum_locations then []
       else case read_locations (unat count) (drop 32 r2) of
         None \<Rightarrow> []
       | Some (ls, r3) \<Rightarrow> if r3 \<noteq> [] \<or> profile_checksum (take 32 r2) ls \<noteq> checksum then [] else ls)"
    unfolding r2_def count_def checksum_def r1_def
    using magic l8 l12 l20 by (simp add: load_profile_def read_word_def)
  then have r: "\<not> length r2 < 32" "take 32 r2 = identity" "unat count \<le> maximum_locations"
    "read_locations (unat count) (drop 32 r2) = Some (ls, [])" "profile_checksum identity ls = checksum"
    using assms by (auto split: if_splits option.splits prod.splits)
  note only = read_locations_only [OF r(4)]
  have "word_bytes (of_nat (length ls) :: u32) = take 4 (drop 8 bytes)"
    using only l12 by (simp add: count_def word_bytes_back)
  moreover have "word_bytes (profile_checksum identity ls) = take 8 r1"
    using r(5) l20 by (simp add: checksum_def word_bytes_back r1_def)
  moreover have "bytes = take 8 bytes @ take 4 (drop 8 bytes) @ take 8 r1 @ take 32 r2 @ drop 32 r2"
    using append_take_drop_id [of 8 bytes] append_take_drop_id [of 4 "drop 8 bytes"]
      append_take_drop_id [of 8 r1] append_take_drop_id [of 32 r2] by (simp add: r1_def r2_def)
  moreover have "length identity = 32" using r(1,2) by auto
  ultimately show ?thesis using magic r only by (simp add: profile_bytes_def)
qed

section \<open>Profiles\<close>

definition profile_ok :: "jit_profile \<Rightarrow> bool" where
  "profile_ok p \<longleftrightarrow> distinct (jp_locations p) \<and> 0 \<notin> set (jp_locations p) \<and> length (jp_locations p) \<le> maximum_locations \<and>
     jp_known p \<inter> jp_discarded p = {} \<and> jp_known p \<union> jp_discarded p = set (jp_locations p)"

lemma insert_locations_ok:
  "profile_ok p \<Longrightarrow> jp_discarded p = {} \<Longrightarrow> length (jp_locations p) + length ls \<le> maximum_locations \<Longrightarrow> profile_ok (insert_locations ls p)"
  by (induction ls arbitrary: p) (auto simp: profile_ok_def)

lemma insert_locations_all:
  "distinct (jp_locations p @ ls) \<Longrightarrow> 0 \<notin> set ls \<Longrightarrow> jp_known p = set (jp_locations p) \<Longrightarrow>
   insert_locations ls p = p\<lparr>jp_locations := jp_locations p @ ls, jp_known := set (jp_locations p @ ls)\<rparr>"
  by (induction ls arbitrary: p) auto

lemma new_profile_ok: "profile_ok (new_profile ls)"
  unfolding new_profile_def Let_def by (rule insert_locations_ok) (auto simp: profile_ok_def)

lemma new_profile_all:
  assumes "distinct ls" "0 \<notin> set ls" "length ls \<le> maximum_locations"
  shows "new_profile ls = \<lparr>jp_locations = ls, jp_known = set ls, jp_discarded = {}\<rparr>"
  using assms by (simp add: new_profile_def insert_locations_all)

lemma record_ok: "profile_ok p \<Longrightarrow> profile_ok (record_location l p)"
proof -
  assume ok: "profile_ok p"
  have tl: "set (tl xs) = set xs - {hd xs}" if "distinct xs" "xs \<noteq> []" for xs :: "u64 list" using that by (cases xs) auto
  have "maximum_locations \<noteq> 0" by (simp add: maximum_locations_def)
  then show ?thesis
    using ok tl [of "jp_locations p"] by (cases "jp_locations p") (auto simp: record_location_def profile_ok_def Let_def)
qed

lemma discard_ok: "profile_ok p \<Longrightarrow> profile_ok (discard_location l p)"
  by (auto simp: discard_location_def profile_ok_def)

lemma snapshot_facts:
  assumes "profile_ok p"
  shows "distinct (profile_snapshot p)" "0 \<notin> set (profile_snapshot p)" "length (profile_snapshot p) \<le> maximum_locations"
    "set (profile_snapshot p) = jp_known p"
  using assms by (auto simp: profile_snapshot_def profile_ok_def intro: order_trans [OF length_filter_le])

lemma snapshot_new: "profile_ok p \<Longrightarrow> profile_snapshot (new_profile (profile_snapshot p)) = profile_snapshot p"
proof -
  assume ok: "profile_ok p"
  have "new_profile (profile_snapshot p) = \<lparr>jp_locations = profile_snapshot p, jp_known = set (profile_snapshot p), jp_discarded = {}\<rparr>"
    using snapshot_facts [OF ok] by (intro new_profile_all)
  then have "profile_snapshot (new_profile (profile_snapshot p)) = filter (\<lambda>l. l \<in> set (profile_snapshot p)) (profile_snapshot p)"
    by (simp only: profile_snapshot_def [of "\<lparr>jp_locations = _, jp_known = _, jp_discarded = _\<rparr>"] jit_profile.select_convs)
  then show ?thesis by (simp add: filter_id_conv)
qed

section \<open>File names\<close>

lemma hex_digit_inj: "a < 16 \<Longrightarrow> b < 16 \<Longrightarrow> hex_digit a = hex_digit b \<longleftrightarrow> a = b"
proof -
  have "distinct ''0123456789abcdef''" by simp
  then show "a < 16 \<Longrightarrow> b < 16 \<Longrightarrow> ?thesis" unfolding hex_digit_def by (subst nth_eq_iff_index_eq) simp_all
qed

lemma hex_byte_inj:
  assumes "hex_digit (unat a div 16) = hex_digit (unat b div 16)" "hex_digit (unat a mod 16) = hex_digit (unat b mod 16)"
  shows "a = (b :: u8)"
proof -
  have "unat x < 2 ^ LENGTH(8)" for x :: u8 by (rule unsigned_less)
  then have "unat x div 16 < 16" for x :: u8 by (simp add: less_mult_imp_div_less)
  then have "unat a div 16 = unat b div 16" "unat a mod 16 = unat b mod 16" using assms by (simp_all add: hex_digit_inj)
  then show ?thesis by (metis div_mult_mod_eq word_unat_eq_iff)
qed

lemma stem_length: "length (profile_file_stem i) = 2 * length i"
  by (induction i) (simp_all add: profile_file_stem_def identity_hex_def)

lemma stem_inj: "profile_file_stem i = profile_file_stem j \<longleftrightarrow> i = j"
proof
  show "profile_file_stem i = profile_file_stem j \<Longrightarrow> i = j"
  proof (induction i j rule: list_induct2')
    case (4 x xs y ys)
    then show ?case by (auto simp: profile_file_stem_def identity_hex_def intro: hex_byte_inj)
  qed (auto simp: profile_file_stem_def identity_hex_def)
qed simp

lemma file_names [simp]:
  "profile_file i = profile_file j \<longleftrightarrow> i = j"
  "length i = length j \<Longrightarrow> temporary_file i \<noteq> profile_file j"
  "length i = length j \<Longrightarrow> profile_file j \<noteq> temporary_file i"
proof -
  show "profile_file i = profile_file j \<longleftrightarrow> i = j" by (simp add: profile_file_def stem_inj)
  show "temporary_file i \<noteq> profile_file j" if "length i = length j"
  proof
    assume "temporary_file i = profile_file j"
    then have "length (temporary_file i) = length (profile_file j)" by simp
    then show False using that by (simp add: temporary_file_def profile_file_def stem_length)
  qed
  then show "profile_file j \<noteq> temporary_file i" if "length i = length j" using that by metis
qed

section \<open>Saving\<close>

lemma save_profile_other:
  "i \<noteq> j \<Longrightarrow> length i = length j \<Longrightarrow> snd (save_profile outcome j ls dir) (profile_file i) = dir (profile_file i)"
  by (cases outcome) (simp_all add: save_profile_def)

lemma save_profile_empty: "save_profile outcome i [] dir = (False, dir)"
  by (simp add: save_profile_def)

definition store_ok :: "profile_store \<Rightarrow> bool" where
  "store_ok store \<longleftrightarrow> om_wf store \<and> (\<forall>(i, p) \<in> set store. length i = 32 \<and> profile_ok p)"

lemma save_profiles_other:
  assumes "map_of store i = None" "length i = 32" "\<forall>j \<in> fst ` set store. length j = 32"
  shows "save_profiles outcome store dir (profile_file i) = dir (profile_file i)"
  using assms
proof (induction store arbitrary: dir)
  case (Cons e store)
  obtain j p where e: "e = (j, p)" by (cases e)
  obtain stop dir' where s: "save_profile (outcome j) j (profile_snapshot p) dir = (stop, dir')" by fastforce
  have "dir' (profile_file i) = dir (profile_file i)"
    using save_profile_other [of i j "outcome j" "profile_snapshot p" dir] Cons.prems e s by (auto split: if_splits)
  then show ?case using Cons.IH [of dir'] Cons.prems e s by (auto split: if_splits bool.split)
qed simp

lemma save_profiles_this:
  assumes "om_wf store" "map_of store i = Some p" "\<forall>j \<in> fst ` set store. length j = 32"
    and "\<forall>j. outcome j \<noteq> Directory_Failed \<or> profile_snapshot p = []"
  shows "save_profiles outcome store dir (profile_file i) =
    snd (save_profile (outcome i) i (profile_snapshot p) dir) (profile_file i)"
  using assms
proof (induction store arbitrary: dir)
  case (Cons e store)
  obtain j q where e: "e = (j, q)" by (cases e)
  obtain stop dir' where s: "save_profile (outcome j) j (profile_snapshot q) dir = (stop, dir')" by fastforce
  have i: "length i = 32" using Cons.prems(2,3) map_of_SomeD [OF Cons.prems(2)] by force
  show ?case
  proof (cases "i = j")
    case True
    then have "q = p" and rest: "map_of store i = None" "\<forall>j \<in> fst ` set store. length j = 32"
      using Cons.prems(1-3) e by (auto simp: om_wf_Cons map_of_eq_None_iff)
    then show ?thesis using True e s save_profiles_other [OF rest(1) i rest(2)] by (auto split: bool.split)
  next
    case False
    have d: "dir' (profile_file i) = dir (profile_file i)"
      using save_profile_other [of i j "outcome j" "profile_snapshot q" dir] False i Cons.prems(3) e s by auto
    have same: "snd (save_profile (outcome i) i (profile_snapshot p) dir') (profile_file i) =
        snd (save_profile (outcome i) i (profile_snapshot p) dir) (profile_file i)"
      using d by (cases "outcome i") (simp_all add: save_profile_def)
    show ?thesis
    proof (cases stop)
      case True
      then have "profile_snapshot p = []" using s Cons.prems(4) by (cases "outcome j") (auto simp: save_profile_def split: if_splits)
      then show ?thesis using True e s d by (simp add: save_profile_empty)
    next
      case stop: False
      have "save_profiles outcome store dir' (profile_file i) =
          snd (save_profile (outcome i) i (profile_snapshot p) dir') (profile_file i)"
        using Cons.prems False e by (intro Cons.IH) (auto simp: om_wf_Cons)
      then show ?thesis using e s stop same by simp
    qed
  qed
qed simp

section \<open>Histories\<close>

lemma map_of_ok: "store_ok store \<Longrightarrow> map_of store i = Some p \<Longrightarrow> length i = 32 \<and> profile_ok p"
  by (auto simp: store_ok_def dest: map_of_SomeD)

lemma put_ok: "store_ok store \<Longrightarrow> length i = 32 \<Longrightarrow> profile_ok p \<Longrightarrow> store_ok (om_put i p store)"
  by (auto simp: store_ok_def om_put_set)

lemma store_ok_lengths: "store_ok store \<Longrightarrow> \<forall>j \<in> fst ` set store. length j = 32"
  by (auto simp: store_ok_def)

lemma step_ok: "store_ok (fst s) \<Longrightarrow> store_ok (fst (profile_step s e))"
proof (cases s)
  case (Pair store dir)
  moreover assume "store_ok (fst s)"
  ultimately show ?thesis
    by (cases e)
      (auto simp: profile_for_def new_profile_ok record_ok discard_ok intro!: put_ok dest: map_of_ok split: option.split, simp add: store_ok_def)
qed

interpretation profiles: machine "([], dir)" profile_step "\<lambda>s. store_ok (fst s)" for dir
proof unfold_locales
  show "store_ok (fst ([], dir))" by (simp add: store_ok_def)
qed (rule step_ok)

lemma run_store_ok: "store_ok (fst (profile_run dir es))"
  unfolding profile_run_def by (rule profiles.run_inv)

text \<open>The steps that end one run of the simulator and ask for a profile in the next.\<close>

definition next_run :: "(identity \<Rightarrow> save_outcome) \<Rightarrow> identity \<Rightarrow> profile_event list" where
  "next_run outcome i = [Save outcome, Restart, Profile_For i]"

lemma next_run_profile:
  assumes "length i = 32"
  shows "map_of (fst (profile_run dir (es @ next_run outcome i))) i =
    Some (new_profile (load_profile (case profile_run dir es of (store, dir') \<Rightarrow> save_profiles outcome store dir' (profile_file i)) i))"
  using assms by (cases "profile_run dir es") (simp add: profile_run_def next_run_def profile_for_def)

section \<open>Claims\<close>

text \<open>
  Whatever files the directory holds and whatever is recorded, discarded, saved and restarted,
  every profile of the store stays well formed: its identity has 32 bytes, the hints it hands to the
  translator are pairwise different and not zero, there are at most 131072 of them, and a location is
  never both known and discarded.
\<close>

theorem profiles_stay_well_formed:
  assumes "map_of (fst (profile_run dir es)) i = Some p"
  shows "length i = 32 \<and> distinct (profile_snapshot p) \<and> 0 \<notin> set (profile_snapshot p) \<and>
    length (profile_snapshot p) \<le> length (jp_locations p) \<and> length (jp_locations p) \<le> maximum_locations \<and>
    jp_known p \<inter> jp_discarded p = {} \<and> jp_known p \<union> jp_discarded p = set (jp_locations p)"
proof -
  have "length i = 32" "profile_ok p" using map_of_ok [OF run_store_ok assms] by simp_all
  then show ?thesis using snapshot_facts [of p] by (auto simp: profile_ok_def profile_snapshot_def)
qed

definition sample_identity :: identity where
  "sample_identity = replicate 32 7"

theorem profiles_stay_well_formed_witness:
  "map_of (fst (profile_run Map.empty [Profile_For sample_identity, Record sample_identity 5])) sample_identity \<noteq> None \<and>
   distinct (profile_snapshot (the (map_of (fst (profile_run Map.empty [Profile_For sample_identity, Record sample_identity 5])) sample_identity)))"
proof -
  have "map_of (fst (profile_run Map.empty [Profile_For sample_identity, Record sample_identity 5])) sample_identity =
      Some \<lparr>jp_locations = [5], jp_known = {5}, jp_discarded = {}\<rparr>"
    by (simp add: profile_run_def profile_for_def sample_identity_def new_profile_def load_profile_def record_location_def maximum_locations_def)
  from profiles_stay_well_formed [OF this] this show ?thesis by simp
qed

text \<open>
  C34: A file yields hints exactly when it is, byte for byte, the file the save of these hints under this
  identity writes: a wrong magic, identity, checksum, count, a truncated file and bytes after the end
  all load as no hints.
\<close>

theorem load_profile_exact:
  assumes "ls \<noteq> []"
  shows "load_profile (Some bytes) identity = ls \<longleftrightarrow>
    length identity = 32 \<and> length ls \<le> maximum_locations \<and> bytes = profile_bytes identity ls"
  using load_only [OF _ assms] load_back by blast

theorem load_profile_exact_witness:
  "load_profile (Some (profile_bytes sample_identity [5, 9])) sample_identity = [5, 9]"
  by (subst load_profile_exact) (simp_all add: sample_identity_def maximum_locations_def)

text \<open>
  C35: A run of the simulator that ends with a save leaves its hints to the next: if the directory could be
  made and the file of the profile was replaced, the next run is given the same hints in the same order,
  whatever happened to the files of the other profiles.
\<close>

theorem profile_survives_restart:
  assumes "map_of (fst (profile_run dir es)) i = Some p" "profile_snapshot p \<noteq> []"
    and "\<not> identity_empty i"
    and "outcome i = Replaced" "\<forall>j. outcome j \<noteq> Directory_Failed"
  shows "map_option profile_snapshot (map_of (fst (profile_run dir (es @ next_run outcome i))) i) = Some (profile_snapshot p)"
proof -
  obtain store dir' where run: "profile_run dir es = (store, dir')" by fastforce
  then have ok: "store_ok store" and p: "map_of store i = Some p" using run_store_ok [of dir es] assms(1) by simp_all
  then have i: "length i = 32" and pok: "profile_ok p" using map_of_ok by blast+
  note snap = snapshot_facts [OF pok]
  have "save_profiles outcome store dir' (profile_file i) = Some (profile_bytes i (profile_snapshot p))"
    using save_profiles_this [OF _ p store_ok_lengths [OF ok]] ok assms(2-5) snap(3) by (simp add: store_ok_def save_profile_def)
  then show ?thesis
    using next_run_profile [OF i] run i snap(3) snapshot_new [OF pok] by (simp add: load_back)
qed

theorem profile_survives_restart_witness:
  "map_option profile_snapshot (map_of (fst (profile_run Map.empty
     ([Profile_For sample_identity, Record sample_identity 5] @ next_run (\<lambda>_. Replaced) sample_identity))) sample_identity) = Some [5]"
proof -
  let ?p = "\<lparr>jp_locations = [5], jp_known = {5}, jp_discarded = {}\<rparr>"
  have p: "map_of (fst (profile_run Map.empty [Profile_For sample_identity, Record sample_identity 5])) sample_identity = Some ?p"
    by (simp add: profile_run_def profile_for_def sample_identity_def new_profile_def load_profile_def record_location_def maximum_locations_def)
  have hints: "profile_snapshot ?p = [5]" by (simp add: profile_snapshot_def)
  have "\<not> identity_empty sample_identity" by (simp add: sample_identity_def identity_empty_def list_all_iff)
  from profile_survives_restart [OF p _ this, of "\<lambda>_. Replaced"] show ?thesis unfolding hints by simp
qed

text \<open>
  C36: A profile whose hints have all been discarded is not written, so its file keeps what it held: the
  next run is given the hints of the old file again, however the save goes, although discarding is meant
  to take effect when the profile is next saved.
\<close>

theorem discarded_hints_come_back:
  assumes "map_of (fst (profile_run dir es)) i = Some p" "jp_known p = {}"
  shows "map_of (fst (profile_run dir (es @ next_run outcome i))) i =
    Some (new_profile (load_profile (snd (profile_run dir es) (profile_file i)) i))"
proof -
  obtain store dir' where run: "profile_run dir es = (store, dir')" by fastforce
  then have ok: "store_ok store" and p: "map_of store i = Some p" using run_store_ok [of dir es] assms(1) by simp_all
  have "profile_snapshot p = []" using assms(2) by (simp add: profile_snapshot_def)
  then have "save_profiles outcome store dir' (profile_file i) = dir' (profile_file i)"
    using save_profiles_this [OF _ p store_ok_lengths [OF ok]] ok by (simp add: store_ok_def save_profile_empty)
  then show ?thesis using next_run_profile run map_of_ok [OF ok p] by simp
qed

theorem discarded_hints_come_back_witness:
  "map_option profile_snapshot (map_of (fst (profile_run [profile_file sample_identity \<mapsto> profile_bytes sample_identity [5]]
     ([Profile_For sample_identity, Discard sample_identity 5] @ next_run (\<lambda>_. Replaced) sample_identity))) sample_identity) = Some [5]"
proof -
  let ?dir = "[profile_file sample_identity \<mapsto> profile_bytes sample_identity [5]]"
  have load: "load_profile (?dir (profile_file sample_identity)) sample_identity = [5]"
    by (simp add: load_back sample_identity_def maximum_locations_def)
  have new: "new_profile [5] = \<lparr>jp_locations = [5], jp_known = {5}, jp_discarded = {}\<rparr>" 
    using new_profile_all [of "[5]"] by (simp add: maximum_locations_def)
  have run: "profile_run ?dir [Profile_For sample_identity, Discard sample_identity 5] =
      ([(sample_identity, \<lparr>jp_locations = [5], jp_known = {}, jp_discarded = {5}\<rparr>)], ?dir)"
    using load new by (simp add: profile_run_def profile_for_def discard_location_def) (simp add: sample_identity_def)
  show ?thesis
    using discarded_hints_come_back [where dir = ?dir and es = "[Profile_For sample_identity, Discard sample_identity 5]" and i = sample_identity]
      run load new by (simp add: profile_snapshot_def)
qed

end
