(* ===== verification/Content_Identity_Properties.thy ===== *)
theory Content_Identity_Properties
  imports Content_Identity
begin

text \<open>
  Properties of content identities: the stream of SHA-256 against the padded message, for any division
  into pieces, and the readers of files against the bytes of the file.
\<close>

section \<open>Blocks\<close>

lemma sha_blocks_short: "length xs < 64 \<Longrightarrow> sha_blocks xs = []"
  by (simp add: sha_blocks.simps)

lemma sha_blocks_one: "length xs = 64 \<Longrightarrow> sha_blocks xs = [xs]"
  by (simp add: sha_blocks.simps [of xs] sha_blocks_short)

lemma sha_blocks_append: "64 dvd length xs \<Longrightarrow> sha_blocks (xs @ ys) = sha_blocks xs @ sha_blocks ys"
proof (induction xs rule: sha_blocks.induct)
  case (1 xs)
  show ?case
  proof (cases "length xs < 64")
    case True
    then have "xs = []" using 1(2) by (auto dest: dvd_imp_le)
    then show ?thesis by (simp add: sha_blocks_short)
  next
    case False
    then have "64 dvd length (drop 64 xs)" using 1(2) by (simp add: dvd_minus_self)
    then show ?thesis using False 1(1) by (simp add: sha_blocks.simps [of "xs @ ys"] sha_blocks.simps [of xs])
  qed
qed

section \<open>The buffer of the stream\<close>

definition absorbed :: "u8 list \<Rightarrow> u8 list \<Rightarrow> sha_state \<Rightarrow> bool" where
  "absorbed pre rest st \<longleftrightarrow> 64 dvd length pre \<and> length rest < 64 \<and> sha_used st = length rest \<and> length (sha_block st) = 64 \<and>
     take (length rest) (sha_block st) = rest \<and> sha_words st = foldl sha_transform sha_initial_words (sha_blocks pre)"

lemma absorb_count [simp]: "sha_bit_count (sha_absorb bytes st) = sha_bit_count st"
proof (induction bytes st rule: sha_absorb.induct)
  case (1 bytes st)
  then show ?case by (subst sha_absorb.simps) (simp add: Let_def)
qed

lemma absorb_step:
  assumes "absorbed pre rest st" "bytes \<noteq> []"
  defines "copied \<equiv> min (length bytes) (64 - length rest)"
  defines "block \<equiv> take (length rest) (sha_block st) @ take copied bytes @ drop (length rest + copied) (sha_block st)"
  defines "st' \<equiv> (if length rest + copied = 64 then st\<lparr>sha_words := sha_transform (sha_words st) block, sha_block := block, sha_used := 0\<rparr>
      else st\<lparr>sha_block := block, sha_used := length rest + copied\<rparr>)"
  shows "sha_absorb bytes st = sha_absorb (drop copied bytes) st'"
    and "\<exists>pre' rest'. absorbed pre' rest' st' \<and> pre' @ rest' = pre @ rest @ take copied bytes"
proof -
  have used: "sha_used st = length rest" and len: "length rest < 64" using assms(1) by (simp_all add: absorbed_def)
  show "sha_absorb bytes st = sha_absorb (drop copied bytes) st'"
    using assms(2) used len unfolding st'_def block_def copied_def by (subst sha_absorb.simps) (simp add: Let_def)
  have blk: "block = rest @ take copied bytes @ drop (length rest + copied) (sha_block st)" "length block = 64"
    using assms(1) by (auto simp: absorbed_def block_def copied_def)
  show "\<exists>pre' rest'. absorbed pre' rest' st' \<and> pre' @ rest' = pre @ rest @ take copied bytes"
  proof (cases "length rest + copied = 64")
    case True
    then have b: "block = rest @ take copied bytes" using blk(1) assms(1) by (simp add: absorbed_def)
    then have "absorbed (pre @ block) [] st'"
      using assms(1) True blk(2) by (simp add: absorbed_def st'_def sha_blocks_append sha_blocks_one)
    then show ?thesis using b by fastforce
  next
    case False
    then have "length rest + length bytes < 64" using len by (simp add: copied_def min_def split: if_splits)
    then have "absorbed pre (rest @ take copied bytes) st'"
      using assms(1) blk len by (simp add: absorbed_def st'_def copied_def)
    then show ?thesis by fastforce
  qed
qed

lemma absorb_all:
  "absorbed pre rest st \<Longrightarrow> \<exists>pre' rest'. absorbed pre' rest' (sha_absorb bytes st) \<and> pre' @ rest' = pre @ rest @ bytes"
proof (induction bytes arbitrary: pre rest st rule: length_induct)
  case (1 bytes)
  show ?case
  proof (cases "bytes = []")
    case True
    then show ?thesis using 1(2) by (subst sha_absorb.simps) auto
  next
    case False
    let ?c = "min (length bytes) (64 - length rest)"
    obtain st' pre' rest' where step: "sha_absorb bytes st = sha_absorb (drop ?c bytes) st'"
      and "absorbed pre' rest' st'" and split: "pre' @ rest' = pre @ rest @ take ?c bytes"
      using absorb_step [OF 1(2) False] by blast
    moreover have "length (drop ?c bytes) < length bytes" using False 1(2) by (simp add: absorbed_def)
    ultimately obtain pre'' rest'' where "absorbed pre'' rest'' (sha_absorb (drop ?c bytes) st')"
      "pre'' @ rest'' = pre' @ rest' @ drop ?c bytes"
      using 1(1) by blast
    moreover from this split have "pre'' @ rest'' = pre @ rest @ bytes"
      by (metis append.assoc append_take_drop_id)
    ultimately show ?thesis using step by auto
  qed
qed

definition represents :: "sha_state \<Rightarrow> u8 list \<Rightarrow> bool" where
  "represents st m \<longleftrightarrow> (\<exists>pre rest. absorbed pre rest st \<and> m = pre @ rest) \<and> sha_bit_count st = of_nat (8 * length m)"

lemma represents_init: "represents sha_init []"
  by (simp add: represents_def absorbed_def sha_init_def sha_blocks_short)

lemma represents_update: "represents st m \<Longrightarrow> represents (sha_update bytes st) (m @ bytes)"
proof -
  assume r: "represents st m"
  then obtain pre rest where "absorbed pre rest st" and m: "m = pre @ rest" by (auto simp: represents_def)
  then have "absorbed pre rest (st\<lparr>sha_bit_count := sha_bit_count st + of_nat (length bytes) * 8\<rparr>)" by (simp add: absorbed_def)
  from absorb_all [OF this, of bytes] obtain pre' rest'
    where "absorbed pre' rest' (sha_update bytes st)" "m @ bytes = pre' @ rest'" by (auto simp: sha_update_def m)
  moreover have "sha_bit_count (sha_update bytes st) = of_nat (8 * length (m @ bytes))"
    using r by (simp add: represents_def sha_update_def algebra_simps)
  ultimately show ?thesis unfolding represents_def by blast
qed

section \<open>Padding\<close>

lemma length_bytes [simp]: "length (big_endian_bytes v) = 8"
  by (simp add: big_endian_bytes_def)

lemma write_count:
  assumes "length block = 64"
  shows "foldl (\<lambda>b index. b[63 - index := ucast (drop_bit (index * 8) bits)]) block [0..<8] = take 56 block @ big_endian_bytes bits"
proof -
  obtain ys where ys: "drop 56 block = ys" "length ys = 8" using assms by simp
  from ys(2) obtain x0 x1 x2 x3 x4 x5 x6 x7 where "ys = [x0, x1, x2, x3, x4, x5, x6, x7]"
    by (auto simp: length_Suc_conv eval_nat_numeral)
  with ys(1) have "block = take 56 block @ [x0, x1, x2, x3, x4, x5, x6, x7]" by (metis append_take_drop_id)
  moreover have "length (take 56 block) = 56" using assms by simp
  ultimately obtain p where "block = p @ [x0, x1, x2, x3, x4, x5, x6, x7]" "length p = 56" by blast
  then show ?thesis by (simp add: big_endian_bytes_def upt_rec list_update_append)
qed

lemma padding_short: "n mod 64 \<le> 55 \<Longrightarrow> sha_padding n = 0x80 # replicate (55 - n mod 64) 0 @ big_endian_bytes (of_nat (8 * n))"
proof -
  assume "n mod 64 \<le> 55"
  then have "119 - n mod 64 = (55 - n mod 64) + 64" by simp
  then have "(119 - n mod 64) mod 64 = 55 - n mod 64" by (simp del: add_diff_assoc2)
  then show ?thesis by (simp add: sha_padding_def)
qed

lemma padding_long:
  "55 < n mod 64 \<Longrightarrow> sha_padding n = (0x80 # replicate (63 - n mod 64) 0) @ replicate 56 0 @ big_endian_bytes (of_nat (8 * n))"
proof -
  assume "55 < n mod 64"
  moreover have "n mod 64 < 64" by simp
  ultimately have "119 - n mod 64 = (63 - n mod 64) + 56" "119 - n mod 64 < 64" by linarith+
  then have "(119 - n mod 64) mod 64 = (63 - n mod 64) + 56" by simp
  then show ?thesis by (simp only: sha_padding_def replicate_add append_Cons append_assoc)
qed

lemma represents_finish: "represents st m \<Longrightarrow> sha_finish st = sha256_spec m"
proof -
  assume r: "represents st m"
  then obtain pre rest where a: "absorbed pre rest st" and m: "m = pre @ rest" by (auto simp: represents_def)
  define block where "block = (sha_block st)[length rest := 0x80]"
  define bits where "bits = sha_bit_count st"
  have bits: "bits = of_nat (8 * length m)" using r by (simp add: represents_def bits_def)
  have len: "length rest < 64" "length block = 64" and used: "sha_used st = length rest" using a by (simp_all add: absorbed_def block_def)
  have start: "take (length rest + 1) block = rest @ [0x80]"
    using a by (simp add: absorbed_def block_def take_Suc_conv_app_nth)
  have words: "sha_words st = foldl sha_transform sha_initial_words (sha_blocks pre)" and pre: "64 dvd length pre"
    using a by (simp_all add: absorbed_def)
  have n: "length m mod 64 = length rest" using pre len m by auto
  have spec: "sha256_spec m = sha_digest (foldl sha_transform (sha_words st) (sha_blocks (rest @ sha_padding (length m))))"
    using pre m words by (simp add: sha256_spec_def sha_blocks_append)
  show ?thesis
  proof (cases "length rest \<le> 55")
    case True
    define final where "final = rest @ sha_padding (length m)"
    have "length final = 64" using True n by (simp add: final_def padding_short)
    then have s: "sha256_spec m = sha_digest (sha_transform (sha_words st) final)"
      unfolding spec final_def [symmetric] by (simp add: sha_blocks_one)
    have "take 56 (fill_zero (length rest + 1) 56 block) @ big_endian_bytes bits = final"
      using True start len n bits Suc_diff_le [OF True] by (simp add: fill_zero_def final_def padding_short)
    moreover have "length (fill_zero (length rest + 1) 56 block) = 64" using True len by (simp add: fill_zero_def)
    ultimately show ?thesis
      using True write_count [of "fill_zero (length rest + 1) 56 block" bits] s
      by (simp add: sha_finish_def used Let_def block_def bits_def)
  next
    case False
    define full where "full = rest @ 0x80 # replicate (63 - length rest) 0"
    define final where "final = replicate 56 (0::u8) @ big_endian_bytes bits"
    have lf: "length full = 64" "length final = 64" using False len by (simp_all add: full_def final_def)
    have "rest @ sha_padding (length m) = full @ final"
      using False n bits by (simp add: padding_long full_def final_def)
    then have s: "sha256_spec m = sha_digest (sha_transform (sha_transform (sha_words st) full) final)"
      unfolding spec using lf by (simp add: sha_blocks_append sha_blocks_one)
    have f: "fill_zero (length rest + 1) 64 block = full" using start len by (simp add: fill_zero_def full_def)
    have "take 56 (fill_zero 0 56 full) @ big_endian_bytes bits = final" by (simp add: fill_zero_def final_def)
    moreover have "length (fill_zero 0 56 full) = 64" using lf by (simp add: fill_zero_def)
    ultimately show ?thesis
      using False write_count [of "fill_zero 0 56 full" bits] s f
      by (simp add: sha_finish_def used Let_def block_def bits_def)
  qed
qed

section \<open>Files\<close>

lemma take_more: "take (k + n) (drop i xs) = take k (drop i xs) @ take n (drop (i + k) xs)"
  by (metis add.commute drop_drop take_add)

text \<open>What the readers have hashed when they end, or none when the file is too short.\<close>

definition bytes_asked :: "u8 list \<Rightarrow> nat \<Rightarrow> nat option \<Rightarrow> u8 list option" where
  "bytes_asked content offset wanted =
     (case wanted of
        None \<Rightarrow> Some (drop offset content)
      | Some n \<Rightarrow> if n \<le> length content - offset then Some (take n (drop offset content)) else None)"

lemma bytes_asked_end: "length content \<le> offset \<Longrightarrow> bytes_asked content offset wanted = (if wanted = None \<or> wanted = Some 0 then Some [] else None)"
  by (cases wanted) (simp_all add: bytes_asked_def)

lemma bytes_asked_more:
  assumes "count \<le> length content - offset" "\<forall>n. wanted = Some n \<longrightarrow> count \<le> n"
  shows "bytes_asked content offset wanted =
    map_option ((@) (take count (drop offset content))) (bytes_asked content (offset + count) (map_option (\<lambda>n. n - count) wanted))"
proof (cases wanted)
  case None
  have "drop offset content = take count (drop offset content) @ drop (offset + count) content"
    by (metis add.commute append_take_drop_id drop_drop)
  then show ?thesis using None by (simp add: bytes_asked_def)
next
  case (Some n)
  then obtain r where "n = count + r" using assms(2) le_Suc_ex by blast
  then show ?thesis using Some assms(1) by (auto simp: bytes_asked_def take_more)
qed

lemma request_positive [simp]: "wanted \<noteq> Some 0 \<Longrightarrow> request_size wanted > 0"
  by (auto simp: request_size_def buffer_size_def split: option.split)

lemma request_bound: "count \<le> request_size wanted \<Longrightarrow> wanted = Some n \<Longrightarrow> count \<le> n"
  by (simp add: request_size_def)

lemma pread_some_events: "Io_Error \<notin> set es \<Longrightarrow> \<exists>count es'. pread_some es r a = (Some count, es') \<and> set es' \<subseteq> set es"
  by (induction es r a rule: pread_some.induct) auto

lemma hash_descriptor_exact:
  assumes "Io_Error \<notin> set events" "length content \<le> 2 ^ 63" "represents st m"
  shows "map_option sha_finish (hash_descriptor content events offset wanted st) =
    map_option (\<lambda>bytes. sha256_spec (m @ bytes)) (bytes_asked content offset wanted)"
  using assms
proof (induction content events offset wanted st arbitrary: m rule: hash_descriptor.induct)
  case (1 content events offset wanted st)
  show ?case
  proof (cases "wanted = Some 0")
    case True
    then show ?thesis using represents_finish [OF 1(4)] by (subst hash_descriptor.simps) (simp add: bytes_asked_def)
  next
    case False
    obtain count es where rd: "pread_some events (request_size wanted) (length content - offset) = (Some count, es)" and es: "set es \<subseteq> set events"
      using pread_some_events [OF 1(2)] by blast
    note bounds = pread_some_bounds [OF rd]
    show ?thesis
    proof (cases "count = 0")
      case True
      then have "length content \<le> offset" using bounds request_positive [OF False] by simp
      then show ?thesis using False True rd represents_finish [OF 1(4)] by (subst hash_descriptor.simps) (auto simp: bytes_asked_end)
    next
      case pos: False
      have "offset + count \<le> length content" using bounds pos by arith
      then have fits: "\<not> offset > 2 ^ 64 - 1 - count" using 1(3) by simp
      let ?w = "map_option (\<lambda>n. n - count) wanted"
      have "map_option sha_finish (hash_descriptor content es (offset + count) ?w (sha_update (take count (drop offset content)) st)) =
          map_option (\<lambda>bytes. sha256_spec ((m @ take count (drop offset content)) @ bytes)) (bytes_asked content (offset + count) ?w)"
        using es 1(2,3) by (intro 1(1) [OF False rd [symmetric] refl pos refl fits] represents_update 1(4)) auto
      moreover have "hash_descriptor content events offset wanted st =
          hash_descriptor content es (offset + count) ?w (sha_update (take count (drop offset content)) st)"
        using False rd pos fits by (subst hash_descriptor.simps) (simp add: Let_def)
      moreover have "bytes_asked content offset wanted = map_option ((@) (take count (drop offset content))) (bytes_asked content (offset + count) ?w)"
        using bounds request_bound [of count wanted] by (intro bytes_asked_more) auto
      ultimately show ?thesis by (simp add: option.map_comp comp_def)
    qed
  qed
qed

lemma hash_stream_exact:
  assumes "\<forall>k. \<not> bad k" "represents st m"
  shows "map_option sha_finish (hash_stream content bad k offset wanted st) =
    map_option (\<lambda>bytes. sha256_spec (m @ bytes)) (bytes_asked content offset wanted)"
  using assms
proof (induction content bad k offset wanted st arbitrary: m rule: hash_stream.induct)
  case (1 content bad k offset wanted st)
  show ?case
  proof (cases "wanted = Some 0")
    case True
    then show ?thesis using represents_finish [OF 1(3)] by (subst hash_stream.simps) (simp add: bytes_asked_def)
  next
    case False
    define count where "count = min (request_size wanted) (length content - offset)"
    let ?w = "map_option (\<lambda>n. n - count) wanted"
    let ?st = "sha_update (take count (drop offset content)) st"
    have bad: "\<not> bad k" and eof: "count = 0 \<Longrightarrow> length content - offset < request_size wanted"
      using 1(2) request_positive [OF False] by (auto simp: count_def)
    have step: "hash_stream content bad k offset wanted st =
        (if count = 0 then (if wanted = None then Some st else None)
         else if length content - offset < request_size wanted then (if ?w \<noteq> None \<and> ?w \<noteq> Some 0 then None else Some ?st)
         else hash_stream content bad (k + 1) (offset + count) ?w ?st)"
      using False bad eof by (subst hash_stream.simps) (simp add: Let_def flip: count_def)
    have more: "bytes_asked content offset wanted = map_option ((@) (take count (drop offset content))) (bytes_asked content (offset + count) ?w)"
      using request_bound [of count wanted] by (intro bytes_asked_more) (auto simp: count_def)
    show ?thesis
    proof (cases "count = 0")
      case True
      then have "length content \<le> offset" using request_positive [OF False] by (simp add: count_def)
      then show ?thesis using False True step represents_finish [OF 1(3)] by (auto simp: bytes_asked_end)
    next
      case pos: False
      show ?thesis
      proof (cases "length content - offset < request_size wanted")
        case True
        then have "length content \<le> offset + count" by (simp add: count_def)
        then show ?thesis
          using pos True step more represents_finish [OF represents_update [OF 1(3)]] by (auto simp: bytes_asked_end)
      next
        case whole: False
        have "map_option sha_finish (hash_stream content bad (k + 1) (offset + count) ?w ?st) =
            map_option (\<lambda>bytes. sha256_spec ((m @ take count (drop offset content)) @ bytes)) (bytes_asked content (offset + count) ?w)"
          using False pos whole 1(2) represents_update [OF 1(3)] by (intro 1(1)) (auto simp: count_def)
        then show ?thesis using step more pos whole by (simp add: option.map_comp comp_def)
      qed
    qed
  qed
qed

section \<open>Claims\<close>

text \<open>
  C37: The identity of a stream does not depend on how it is cut into pieces: for every list of pieces it is
  the SHA-256 of their concatenation, that is the digest of the message with its padding, block by block.
\<close>

theorem sha256_of_pieces: "sha_finish (foldl (\<lambda>st piece. sha_update piece st) sha_init pieces) = sha256_spec (concat pieces)"
proof -
  have "represents (foldl (\<lambda>st piece. sha_update piece st) st pieces) (m @ concat pieces)" if "represents st m" for st m
    using that
  proof (induction pieces arbitrary: st m)
    case (Cons piece pieces)
    from Cons.IH [OF represents_update [OF Cons.prems]] show ?case by simp
  qed simp
  from this [OF represents_init] show ?thesis by (simp add: represents_finish)
qed

text \<open>
  C38: Both readers of files give the same identity, that of exactly the bytes from the offset on, or of as
  many of them as were asked for, however often the positional reads are interrupted or cut short; they
  give none exactly when the file is too short.
\<close>

theorem sha256_file_exact:
  fixes bad :: "nat \<Rightarrow> bool"
  assumes "Io_Error \<notin> set events" "\<forall>k. \<not> bad k" "length content \<le> 2 ^ 63" "0 \<le> descriptor" "offset < 2 ^ 63"
  shows "sha256_descriptor content events descriptor offset wanted = map_option sha256_spec (bytes_asked content offset wanted) \<and>
    sha256_path (Some content) bad offset wanted = map_option sha256_spec (bytes_asked content offset wanted)"
  using assms(4,5) hash_descriptor_exact [OF assms(1,3) represents_init, of offset wanted]
    hash_stream_exact [OF assms(2) represents_init, of content 0 offset wanted]
  by (simp_all add: sha256_descriptor_def sha256_path_def)

theorem sha256_file_exact_witness:
  "sha256_descriptor [1, 2, 3] [Interrupted, Short 1] 5 1 (Some 2) = sha256_path (Some [1, 2, 3]) (\<lambda>_. False) 1 (Some 2) \<and>
   sha256_descriptor [1, 2, 3] [Interrupted, Short 1] 5 1 (Some 2) = Some (sha256_spec [2, 3])"
  using sha256_file_exact [of "[Interrupted, Short 1]" "\<lambda>_. False" "[1, 2, 3]" 5 1 "Some 2"] by (simp add: bytes_asked_def)

end
