(* ===== verification/Mach_Receive.thy ===== *)
theory Mach_Receive
  imports Mach_Namespace
begin

text \<open>
  Port sets, message queues and waiting receivers: the operations on sets of \<open>KernelSharedState\<close>
  (\<open>include/ilemu/kernel_shared_state.hpp\<close>), the start of a receive in \<open>src/kernel/mach/message.cpp\<close>, and
  in \<open>src/kernel/mach/ipc.cpp\<close> the choice of the receiver and of the queue and the check by the generation
  of the queues that lets a poll be skipped. What is done with a message once its receiver is chosen,
  the copying out of rights and memory, always ends the receive; whether it takes the message off
  the queue is an event.
\<close>

section \<open>State\<close>

record port_set_link =
  sl_set :: u32
  sl_sequence :: u64

record 'm mach_queues =
  mq_sets :: "u32 \<Rightarrow> u32 list option"
  mq_links :: "u32 \<Rightarrow> port_set_link list option"
  mq_next :: u64
  mq_queues :: "u32 \<Rightarrow> 'm list option"
  mq_generation :: u64

definition mach_queues_init :: "'m mach_queues" where
  "mach_queues_init = \<lparr>mq_sets = Map.empty, mq_links = Map.empty, mq_next = 1, mq_queues = Map.empty, mq_generation = 1\<rparr>"

record pending_receive =
  pr_address :: u32
  pr_size :: u32
  pr_name :: u32
  pr_options :: u32
  pr_deadline :: "u64 option"
  pr_object :: "u32 option"
  pr_generation :: u64
  pr_sequence :: u64

type_synonym pending_receives = "(nat, pending_receive) omap"

section \<open>Port sets\<close>

definition allocate_wait_queue_sequence :: "'m mach_queues \<Rightarrow> u64 \<times> 'm mach_queues" where
  "allocate_wait_queue_sequence st =
     (if mq_next st = 0 then (1, st\<lparr>mq_next := 2\<rparr>) else (mq_next st, st\<lparr>mq_next := mq_next st + 1\<rparr>))"

definition note_topology_change :: "'m mach_queues \<Rightarrow> 'm mach_queues" where
  "note_topology_change st = st\<lparr>mq_generation := mq_generation st + 1\<rparr>"

definition enqueue_message :: "u32 \<Rightarrow> 'm \<Rightarrow> 'm mach_queues \<Rightarrow> 'm mach_queues" where
  "enqueue_message destination message st =
     st\<lparr>mq_queues := (mq_queues st)(destination \<mapsto> (case mq_queues st destination of None \<Rightarrow> [] | Some q \<Rightarrow> q) @ [message]),
        mq_generation := mq_generation st + 1\<rparr>"

definition create_port_set :: "u32 \<Rightarrow> 'm mach_queues \<Rightarrow> bool \<times> 'm mach_queues" where
  "create_port_set s st =
     (if mq_sets st s = None then (True, st\<lparr>mq_sets := (mq_sets st)(s \<mapsto> [])\<rparr>) else (False, st))"

definition insert_set_member :: "u32 \<Rightarrow> u32 \<Rightarrow> 'm mach_queues \<Rightarrow> bool \<times> 'm mach_queues" where
  "insert_set_member s m st =
     (case mq_sets st s of
        None \<Rightarrow> (False, st)
      | Some members \<Rightarrow>
          if m \<in> set members then (False, st)
          else
            let (sequence, st1) = allocate_wait_queue_sequence (st\<lparr>mq_sets := (mq_sets st)(s \<mapsto> members @ [m])\<rparr>);
                links = (case mq_links st1 m of None \<Rightarrow> [] | Some ls \<Rightarrow> ls)
            in (True, note_topology_change
                  (st1\<lparr>mq_links := (mq_links st1)(m \<mapsto> links @ [\<lparr>sl_set = s, sl_sequence = sequence\<rparr>])\<rparr>)))"

definition erase_link :: "u32 \<Rightarrow> u32 \<Rightarrow> (u32 \<Rightarrow> port_set_link list option) \<Rightarrow> u32 \<Rightarrow> port_set_link list option" where
  "erase_link s m links =
     (case links m of
        None \<Rightarrow> links
      | Some ls \<Rightarrow> let rest = filter (\<lambda>l. sl_set l \<noteq> s) ls in links(m := (if rest = [] then None else Some rest)))"

definition extract_set_member :: "u32 \<Rightarrow> u32 \<Rightarrow> 'm mach_queues \<Rightarrow> bool \<times> 'm mach_queues" where
  "extract_set_member s m st =
     (case mq_sets st s of
        None \<Rightarrow> (False, st)
      | Some members \<Rightarrow>
          if m \<notin> set members then (False, st)
          else (True, note_topology_change
                 (st\<lparr>mq_sets := (mq_sets st)(s \<mapsto> remove1 m members), mq_links := erase_link s m (mq_links st)\<rparr>)))"

definition remove_member_from_all :: "u32 \<Rightarrow> 'm mach_queues \<Rightarrow> bool \<times> 'm mach_queues" where
  "remove_member_from_all m st =
     (case mq_links st m of
        None \<Rightarrow> (False, st)
      | Some ls \<Rightarrow>
          (True, note_topology_change
             (st\<lparr>mq_sets := fold (\<lambda>l sets. sets(sl_set l := map_option (filter (\<lambda>x. x \<noteq> m)) (sets (sl_set l)))) ls (mq_sets st),
                 mq_links := (mq_links st)(m := None)\<rparr>)))"

definition erase_port_set :: "u32 \<Rightarrow> 'm mach_queues \<Rightarrow> bool \<times> 'm mach_queues" where
  "erase_port_set s st =
     (case mq_sets st s of
        None \<Rightarrow> (False, st)
      | Some members \<Rightarrow>
          (True, note_topology_change
             (st\<lparr>mq_links := fold (erase_link s) members (mq_links st), mq_sets := (mq_sets st)(s := None)\<rparr>)))"

section \<open>The receiver of a queued message\<close>

text \<open>A candidate has the sequence of its element of the port's wait queue, its own sequence and the
  processor.\<close>

type_synonym candidate = "u64 \<times> u64 \<times> nat"

fun better :: "candidate \<Rightarrow> candidate option \<Rightarrow> candidate option" where
  "better c None = Some c"
| "better (element, receiver, p) (Some (element', receiver', p')) =
     (if element < element' \<or> (element = element' \<and> receiver < receiver')
      then Some (element, receiver, p) else Some (element', receiver', p'))"

fun better_in_set :: "candidate \<Rightarrow> candidate option \<Rightarrow> candidate option" where
  "better_in_set c None = Some c"
| "better_in_set (element, receiver, p) (Some (element', receiver', p')) =
     (if receiver < receiver' then Some (element, receiver, p) else Some (element', receiver', p'))"

definition resolve_receives :: "u32 \<Rightarrow> namespace_table \<Rightarrow> pending_receives \<Rightarrow> pending_receives" where
  "resolve_receives task ns rs =
     map (\<lambda>(p, r). (p, if pr_object r = None then r\<lparr>pr_object := resolve task (pr_name r) ns\<rparr> else r)) rs"

definition set_receiver :: "pending_receives \<Rightarrow> port_set_link \<Rightarrow> candidate option" where
  "set_receiver rs link =
     fold (\<lambda>(p, r) selected. if pr_object r = Some (sl_set link)
        then better_in_set (sl_sequence link, pr_sequence r, p) selected else selected) rs None"

definition preferred_receiver :: "u32 \<Rightarrow> namespace_table \<Rightarrow> u32 \<Rightarrow> 'm mach_queues \<Rightarrow> pending_receives \<Rightarrow> pending_receives \<times> nat option" where
  "preferred_receiver task ns queued_port st rs =
     (let rs1 = resolve_receives task ns rs;
          direct = fold (\<lambda>(p, r) selected. if pr_object r = Some queued_port
             then better (pr_sequence r, pr_sequence r, p) selected else selected) rs1 None;
          links = (case mq_links st queued_port of None \<Rightarrow> [] | Some ls \<Rightarrow> ls);
          selected = fold (\<lambda>link selected. case set_receiver rs1 link of None \<Rightarrow> selected | Some c \<Rightarrow> better c selected) links direct
      in (rs1, map_option (\<lambda>(_, _, p). p) selected))"

section \<open>Delivery\<close>

text \<open>The queues a receive looks at, in order: that of its own object, then those of the members of the
  set. A message is visible if a queue holds one, and it is taken if this processor is preferred.\<close>

definition queue_of :: "'m mach_queues \<Rightarrow> u32 \<Rightarrow> 'm list" where
  "queue_of st q = (case mq_queues st q of None \<Rightarrow> [] | Some ms \<Rightarrow> ms)"

fun select_queue :: "u32 \<Rightarrow> namespace_table \<Rightarrow> nat \<Rightarrow> 'm mach_queues \<Rightarrow> u32 list \<Rightarrow> pending_receives \<Rightarrow>
    pending_receives \<times> bool \<times> u32 option" where
  "select_queue task ns p st [] rs = (rs, False, None)"
| "select_queue task ns p st (q # qs) rs =
     (if queue_of st q = [] then select_queue task ns p st qs rs
      else
        let (rs1, receiver) = preferred_receiver task ns q st rs in
        if receiver = Some p then (rs1, True, Some q)
        else let (rs2, _, found) = select_queue task ns p st qs rs1 in (rs2, True, found))"

definition receive_queues :: "'m mach_queues \<Rightarrow> u32 \<Rightarrow> u32 list" where
  "receive_queues st object = object # (case mq_sets st object of None \<Rightarrow> [] | Some members \<Rightarrow> members)"

datatype 'm delivery = Blocked | Timed_Out | Message u32 'm

definition expired :: "u64 \<Rightarrow> pending_receive \<Rightarrow> bool" where
  "expired now r = (case pr_deadline r of None \<Rightarrow> False | Some deadline \<Rightarrow> now \<ge> deadline)"

definition deliver_pending :: "u32 \<Rightarrow> namespace_table \<Rightarrow> nat \<Rightarrow> u64 \<Rightarrow> 'm mach_queues \<Rightarrow> pending_receives \<Rightarrow>
    'm delivery \<times> pending_receives" where
  "deliver_pending task ns p now st rs =
     (case map_of rs p of
        None \<Rightarrow> (Blocked, rs)
      | Some r \<Rightarrow>
      (case (if pr_object r = None then resolve task (pr_name r) ns else pr_object r) of
         None \<Rightarrow> (Blocked, rs)
       | Some object \<Rightarrow>
           let (rs1, has_visible_message, found) =
                 select_queue task ns p st (receive_queues st object) (om_put p (r\<lparr>pr_object := Some object\<rparr>) rs)
           in case found of
                Some q \<Rightarrow> (Message q (hd (queue_of st q)), om_erase p rs1)
              | None \<Rightarrow>
                  if expired now r then (Timed_Out, om_erase p rs1)
                  else if has_visible_message then (Blocked, rs1)
                  else (Blocked, om_put p (r\<lparr>pr_object := Some object, pr_generation := mq_generation st\<rparr>) rs1)))"

definition deliver_if_ready :: "u32 \<Rightarrow> namespace_table \<Rightarrow> nat \<Rightarrow> u64 \<Rightarrow> 'm mach_queues \<Rightarrow> pending_receives \<Rightarrow>
    'm delivery \<times> pending_receives" where
  "deliver_if_ready task ns p now st rs =
     (case map_of rs p of
        None \<Rightarrow> (Blocked, rs)
      | Some r \<Rightarrow>
          if pr_object r \<noteq> None \<and> pr_generation r = mq_generation st \<and> \<not> expired now r then (Blocked, rs)
          else deliver_pending task ns p now st rs)"

record receive_call =
  rc_address :: u32
  rc_size :: u32
  rc_name :: u32
  rc_options :: u32
  rc_timeout :: u32

definition option_receive_timeout :: u32 where "option_receive_timeout = 0x100"
definition ns_per_millisecond :: u64 where "ns_per_millisecond = 1000000"

definition receive_deadline :: "receive_call \<Rightarrow> u64 \<Rightarrow> u64 option" where
  "receive_deadline call now =
     (if rc_options call AND option_receive_timeout = 0 then None
      else let interval = ucast (rc_timeout call) * ns_per_millisecond
           in Some (if interval > 0xFFFFFFFFFFFFFFFF - now then 0xFFFFFFFFFFFFFFFF else now + interval))"

definition begin_receive :: "u32 \<Rightarrow> namespace_table \<Rightarrow> nat \<Rightarrow> receive_call \<Rightarrow> u64 \<Rightarrow> 'm mach_queues \<Rightarrow> pending_receives \<Rightarrow>
    'm delivery \<times> 'm mach_queues \<times> pending_receives" where
  "begin_receive task ns p call now st rs =
     (let object = resolve task (rc_name call) ns;
          (sequence, st1) = allocate_wait_queue_sequence st;
          r = \<lparr>pr_address = rc_address call, pr_size = rc_size call, pr_name = rc_name call, pr_options = rc_options call,
               pr_deadline = receive_deadline call now, pr_object = object, pr_generation = 0, pr_sequence = sequence\<rparr>;
          (outcome, rs1) = deliver_pending task ns p now st1 (om_put p r rs)
      in if outcome = Blocked \<and> rc_options call AND option_receive_timeout \<noteq> 0 \<and> rc_timeout call = 0
         then (Timed_Out, st1, om_erase p rs1) else (outcome, st1, rs1))"

definition pop_message :: "u32 \<Rightarrow> 'm mach_queues \<Rightarrow> 'm mach_queues" where
  "pop_message q st = st\<lparr>mq_queues := (mq_queues st)(q := map_option tl (mq_queues st q))\<rparr>"

section \<open>Histories\<close>

text \<open>Every process has its own receives. The name spaces of the moment are part of an event; the flag
  says whether a message that found its receiver was taken off its queue.\<close>

record 'm port_world =
  pw_queues :: "'m mach_queues"
  pw_receives :: "u32 \<Rightarrow> pending_receives"

definition port_world_init :: "'m port_world" where
  "port_world_init = \<lparr>pw_queues = mach_queues_init, pw_receives = (\<lambda>_. [])\<rparr>"

datatype 'm port_event =
    Create_Set u32
  | Insert_Member u32 u32
  | Extract_Member u32 u32
  | Remove_Member u32
  | Erase_Set u32
  | Enqueue u32 'm
  | Drop_Queue u32
  | Begin_Receive u32 namespace_table nat receive_call u64 bool
  | Poll u32 namespace_table nat u64 bool
  | Cancel u32 nat
  | Cancel_All u32

definition finish_receive :: "u32 \<Rightarrow> bool \<Rightarrow> 'm delivery \<Rightarrow> 'm mach_queues \<Rightarrow> pending_receives \<Rightarrow> 'm port_world \<Rightarrow> 'm port_world" where
  "finish_receive task taken outcome st rs w =
     w\<lparr>pw_queues := (case outcome of Message q _ \<Rightarrow> if taken then pop_message q st else st | _ \<Rightarrow> st),
       pw_receives := (pw_receives w)(task := rs)\<rparr>"

fun port_step :: "'m port_world \<Rightarrow> 'm port_event \<Rightarrow> 'm port_world" where
  "port_step w (Create_Set s) = w\<lparr>pw_queues := snd (create_port_set s (pw_queues w))\<rparr>"
| "port_step w (Insert_Member s m) = w\<lparr>pw_queues := snd (insert_set_member s m (pw_queues w))\<rparr>"
| "port_step w (Extract_Member s m) = w\<lparr>pw_queues := snd (extract_set_member s m (pw_queues w))\<rparr>"
| "port_step w (Remove_Member m) = w\<lparr>pw_queues := snd (remove_member_from_all m (pw_queues w))\<rparr>"
| "port_step w (Erase_Set s) = w\<lparr>pw_queues := snd (erase_port_set s (pw_queues w))\<rparr>"
| "port_step w (Enqueue d m) = w\<lparr>pw_queues := enqueue_message d m (pw_queues w)\<rparr>"
| "port_step w (Drop_Queue d) = w\<lparr>pw_queues := (pw_queues w)\<lparr>mq_queues := (mq_queues (pw_queues w))(d := None)\<rparr>\<rparr>"
| "port_step w (Begin_Receive task ns p call now taken) =
     (let (outcome, st, rs) = begin_receive task ns p call now (pw_queues w) (pw_receives w task)
      in finish_receive task taken outcome st rs w)"
| "port_step w (Poll task ns p now taken) =
     (let (outcome, rs) = deliver_if_ready task ns p now (pw_queues w) (pw_receives w task)
      in finish_receive task taken outcome (pw_queues w) rs w)"
| "port_step w (Cancel task p) = w\<lparr>pw_receives := (pw_receives w)(task := om_erase p (pw_receives w task))\<rparr>"
| "port_step w (Cancel_All task) = w\<lparr>pw_receives := (pw_receives w)(task := [])\<rparr>"

definition port_run :: "'m port_event list \<Rightarrow> 'm port_world" where
  "port_run es = foldl port_step port_world_init es"

end
