(* ===== verification/Mach_Receive_Properties.thy ===== *)
theory Mach_Receive_Properties
  imports Mach_Receive
begin

text \<open>
  Properties of port sets and waiting receivers: the two maps between sets and members mirror each other,
  the receiver of a message is the first in line of the wait queues of the kernel that is emulated, and
  a poll that is skipped would have found nothing.
\<close>

section \<open>Sets and links\<close>

definition members_of :: "'m mach_queues \<Rightarrow> u32 \<Rightarrow> u32 list" where
  "members_of st s = (case mq_sets st s of None \<Rightarrow> [] | Some ms \<Rightarrow> ms)"

definition links_of :: "'m mach_queues \<Rightarrow> u32 \<Rightarrow> port_set_link list" where
  "links_of st m = (case mq_links st m of None \<Rightarrow> [] | Some ls \<Rightarrow> ls)"

definition topology_ok :: "'m mach_queues \<Rightarrow> bool" where
  "topology_ok st \<longleftrightarrow> (\<forall>s. distinct (members_of st s)) \<and> (\<forall>m. distinct (map sl_set (links_of st m))) \<and>
     (\<forall>m. mq_links st m \<noteq> Some []) \<and> (\<forall>s m. m \<in> set (members_of st s) \<longleftrightarrow> s \<in> sl_set ` set (links_of st m))"

lemma allocate_facts:
  "mq_sets (snd (allocate_wait_queue_sequence st)) = mq_sets st" "mq_links (snd (allocate_wait_queue_sequence st)) = mq_links st"
  "mq_queues (snd (allocate_wait_queue_sequence st)) = mq_queues st" "mq_generation (snd (allocate_wait_queue_sequence st)) = mq_generation st"
  by (simp_all add: allocate_wait_queue_sequence_def)

definition clean_links :: "u32 \<Rightarrow> port_set_link list option \<Rightarrow> port_set_link list option" where
  "clean_links s entry = (case entry of None \<Rightarrow> None | Some ls \<Rightarrow>
     let rest = filter (\<lambda>l. sl_set l \<noteq> s) ls in if rest = [] then None else Some rest)"

lemma erase_link_at: "erase_link s m links x = (if x = m then clean_links s (links m) else links x)"
  by (simp add: erase_link_def clean_links_def Let_def split: option.split)

lemma clean_links_twice [simp]: "clean_links s (clean_links s e) = clean_links s e"
  by (simp add: clean_links_def Let_def split: option.split)

lemma clean_links_nonempty [simp]: "clean_links s e \<noteq> Some []"
  by (simp add: clean_links_def Let_def split: option.split)

lemma clean_links_list: "(case clean_links s e of None \<Rightarrow> [] | Some ls \<Rightarrow> ls) = filter (\<lambda>l. sl_set l \<noteq> s) (case e of None \<Rightarrow> [] | Some ls \<Rightarrow> ls)"
  by (simp add: clean_links_def Let_def split: option.split)

lemma erase_links_at: "fold (erase_link s) ms links x = (if x \<in> set ms then clean_links s (links x) else links x)"
  by (induction ms arbitrary: links) (auto simp: erase_link_at)

lemma remove_from_sets_at:
  "fold (\<lambda>l sets. sets(sl_set l := map_option (filter (\<lambda>x. x \<noteq> m)) (sets (sl_set l)))) ls sets s =
   (if s \<in> sl_set ` set ls then map_option (filter (\<lambda>x. x \<noteq> m)) (sets s) else sets s)"
  by (induction ls arbitrary: sets) (auto simp: option.map_comp comp_def)

text \<open>The operations, as seen through the members of a set and the links of a member.\<close>

lemma create_facts:
  "members_of (snd (create_port_set s st)) x = members_of st x" "mq_links (snd (create_port_set s st)) = mq_links st"
  "mq_queues (snd (create_port_set s st)) = mq_queues st" "mq_generation (snd (create_port_set s st)) = mq_generation st"
  "mq_next (snd (create_port_set s st)) = mq_next st"
  by (simp_all add: create_port_set_def members_of_def)

lemma insert_facts:
  assumes "insert_set_member s m st = (True, st')"
  shows "m \<notin> set (members_of st s)" "members_of st' x = (if x = s then members_of st s @ [m] else members_of st x)"
    "links_of st' y = (if y = m then links_of st m @ [\<lparr>sl_set = s, sl_sequence = fst (allocate_wait_queue_sequence st)\<rparr>] else links_of st y)"
    "mq_links st' y \<noteq> Some [] \<or> mq_links st y = Some []" "mq_next st' = mq_next (snd (allocate_wait_queue_sequence st))"
    "mq_generation st' = mq_generation st + 1" "mq_queues st' = mq_queues st"
  using assms
  by (auto simp: insert_set_member_def members_of_def links_of_def allocate_wait_queue_sequence_def note_topology_change_def Let_def
      split: option.splits if_splits)

lemma insert_refused: "insert_set_member s m st = (False, st') \<Longrightarrow> st' = st"
  by (simp add: insert_set_member_def Let_def case_prod_beta split: option.splits if_splits)

lemma extract_facts:
  assumes "extract_set_member s m st = (True, st')"
  shows "members_of st' x = (if x = s then remove1 m (members_of st s) else members_of st x)"
    "mq_links st' y = (if y = m then clean_links s (mq_links st m) else mq_links st y)"
    "mq_next st' = mq_next st" "mq_generation st' = mq_generation st + 1" "mq_queues st' = mq_queues st"
  using assms
  by (auto simp: extract_set_member_def members_of_def note_topology_change_def erase_link_at split: option.splits if_splits)

lemma extract_refused: "extract_set_member s m st = (False, st') \<Longrightarrow> st' = st \<and> m \<notin> set (members_of st s)"
  by (auto simp: extract_set_member_def members_of_def split: option.splits if_splits)

lemma remove_all_facts:
  assumes "remove_member_from_all m st = (True, st')"
  shows "members_of st' x = (if x \<in> sl_set ` set (links_of st m) then filter (\<lambda>y. y \<noteq> m) (members_of st x) else members_of st x)"
    "mq_links st' y = (if y = m then None else mq_links st y)"
    "mq_next st' = mq_next st" "mq_generation st' = mq_generation st + 1" "mq_queues st' = mq_queues st"
proof -
  obtain ls where ls: "mq_links st m = Some ls" and st': "st' = note_topology_change
      (st\<lparr>mq_sets := fold (\<lambda>l sets. sets(sl_set l := map_option (filter (\<lambda>x. x \<noteq> m)) (sets (sl_set l)))) ls (mq_sets st),
          mq_links := (mq_links st)(m := None)\<rparr>)"
    using assms by (cases "mq_links st m") (simp_all add: remove_member_from_all_def)
  show "members_of st' x = (if x \<in> sl_set ` set (links_of st m) then filter (\<lambda>y. y \<noteq> m) (members_of st x) else members_of st x)"
  proof -
    have "mq_sets st' x = (if x \<in> sl_set ` set ls then map_option (filter (\<lambda>y. y \<noteq> m)) (mq_sets st x) else mq_sets st x)"
      unfolding st' note_topology_change_def by (simp add: remove_from_sets_at cong del: if_weak_cong)
    then show ?thesis by (cases "mq_sets st x") (simp_all add: ls members_of_def links_of_def)
  qed
  show "mq_links st' y = (if y = m then None else mq_links st y)" "mq_next st' = mq_next st"
    "mq_generation st' = mq_generation st + 1" "mq_queues st' = mq_queues st"
    by (simp_all add: st' note_topology_change_def)
qed

lemma remove_all_refused: "remove_member_from_all m st = (False, st') \<Longrightarrow> st' = st \<and> links_of st m = []"
  by (auto simp: remove_member_from_all_def links_of_def split: option.splits)

lemma erase_set_facts:
  assumes "erase_port_set s st = (True, st')"
  shows "members_of st' x = (if x = s then [] else members_of st x)"
    "mq_links st' y = (if y \<in> set (members_of st s) then clean_links s (mq_links st y) else mq_links st y)"
    "mq_next st' = mq_next st" "mq_generation st' = mq_generation st + 1" "mq_queues st' = mq_queues st"
  using assms
  by (auto simp: erase_port_set_def members_of_def note_topology_change_def erase_links_at split: option.splits if_splits)

lemma erase_set_refused: "erase_port_set s st = (False, st') \<Longrightarrow> st' = st \<and> members_of st s = []"
  by (auto simp: erase_port_set_def members_of_def split: option.splits)

lemma links_of_clean: "mq_links st' y = clean_links s (mq_links st y) \<Longrightarrow> links_of st' y = filter (\<lambda>l. sl_set l \<noteq> s) (links_of st y)"
  by (simp add: links_of_def clean_links_list)

lemma bool_pair_cases:
  obtains (yes) x where "p = (True, x)" | (no) x where "p = (False, x)"
  by (cases p) (metis (full_types))

text \<open>The mirror is kept by every operation.\<close>

lemma topology_filter:
  assumes ok: "topology_ok st"
    and sets: "\<And>x. members_of st' x = filter (keep x) (members_of st x)"
    and links: "\<And>y. links_of st' y = filter (\<lambda>l. keep (sl_set l) y) (links_of st y)"
    and nonempty: "\<And>y. mq_links st' y \<noteq> Some []"
  shows "topology_ok st'"
proof -
  have "distinct (map sl_set (filter P ls))" if "distinct (map sl_set ls)" for P and ls :: "port_set_link list"
    using that by (simp add: distinct_map_filter)
  moreover have "m \<in> set (members_of st' s) \<longleftrightarrow> s \<in> sl_set ` set (links_of st' m)" for s m
    using ok unfolding topology_ok_def sets links by auto
  ultimately show ?thesis using ok nonempty unfolding topology_ok_def sets links by simp
qed

lemma topology_same: "topology_ok st \<Longrightarrow> (\<And>x. members_of st' x = members_of st x) \<Longrightarrow> mq_links st' = mq_links st \<Longrightarrow> topology_ok st'"
  by (simp add: topology_ok_def links_of_def)

lemma create_topology: "topology_ok st \<Longrightarrow> topology_ok (snd (create_port_set s st))"
  by (erule topology_same) (simp_all add: create_facts)

lemma insert_topology:
  assumes "topology_ok st"
  shows "topology_ok (snd (insert_set_member s m st))"
proof (cases "insert_set_member s m st" rule: bool_pair_cases)
  case (yes st')
    note facts = insert_facts [OF yes]
    have "s \<notin> sl_set ` set (links_of st m)" using assms facts(1) unfolding topology_ok_def by blast
    then show ?thesis
      using assms facts(1,4) unfolding yes snd_conv topology_ok_def facts(2,3) by auto
next
  case (no st')
  then show ?thesis using assms insert_refused by fastforce
qed

lemma extract_topology:
  assumes "topology_ok st"
  shows "topology_ok (snd (extract_set_member s m st))"
proof (cases "extract_set_member s m st" rule: bool_pair_cases)
  case (yes st')
    note facts = extract_facts [OF yes]
    have "topology_ok st'"
    proof (rule topology_filter [OF assms, where keep = "\<lambda>x y. x \<noteq> s \<or> y \<noteq> m"])
      show "members_of st' x = filter (\<lambda>y. x \<noteq> s \<or> y \<noteq> m) (members_of st x)" for x
        using assms by (auto simp: facts(1) topology_ok_def distinct_remove1_removeAll removeAll_filter_not_eq intro: filter_cong)
      show "links_of st' y = filter (\<lambda>l. sl_set l \<noteq> s \<or> y \<noteq> m) (links_of st y)" for y
        using facts(2) [of y] links_of_clean [of st' y s st] by (auto simp: links_of_def)
      show "mq_links st' y \<noteq> Some []" for y using facts(2) [of y] assms by (auto simp: topology_ok_def)
    qed
    then show ?thesis using yes by simp
next
  case (no st')
  then show ?thesis using assms extract_refused by fastforce
qed

lemma remove_all_topology:
  assumes "topology_ok st"
  shows "topology_ok (snd (remove_member_from_all m st))"
proof (cases "remove_member_from_all m st" rule: bool_pair_cases)
  case (yes st')
    note facts = remove_all_facts [OF yes]
    have "topology_ok st'"
    proof (rule topology_filter [OF assms, where keep = "\<lambda>x y. y \<noteq> m"])
      show "members_of st' x = filter (\<lambda>y. y \<noteq> m) (members_of st x)" for x
      proof -
        have "m \<in> set (members_of st x) \<longleftrightarrow> x \<in> sl_set ` set (links_of st m)" using assms by (simp add: topology_ok_def)
        then show ?thesis unfolding facts(1) by (auto intro!: filter_True [symmetric])
      qed
      show "links_of st' y = filter (\<lambda>l. y \<noteq> m) (links_of st y)" for y
        using facts(2) [of y] by (simp add: links_of_def)
      show "mq_links st' y \<noteq> Some []" for y using facts(2) [of y] assms by (auto simp: topology_ok_def)
    qed
    then show ?thesis using yes by simp
next
  case (no st')
  then show ?thesis using assms remove_all_refused by fastforce
qed

lemma erase_set_topology:
  assumes "topology_ok st"
  shows "topology_ok (snd (erase_port_set s st))"
proof (cases "erase_port_set s st" rule: bool_pair_cases)
  case (yes st')
    note facts = erase_set_facts [OF yes]
    have "topology_ok st'"
    proof (rule topology_filter [OF assms, where keep = "\<lambda>x y. x \<noteq> s"])
      show "members_of st' x = filter (\<lambda>y. x \<noteq> s) (members_of st x)" for x by (simp add: facts(1))
      show "links_of st' y = filter (\<lambda>l. sl_set l \<noteq> s) (links_of st y)" for y
      proof (cases "y \<in> set (members_of st s)")
        case True
        then show ?thesis using facts(2) [of y] by (simp add: links_of_clean)
      next
        case False
        then have "s \<notin> sl_set ` set (links_of st y)" using assms by (simp add: topology_ok_def)
        then show ?thesis using False facts(2) [of y] by (auto simp: links_of_def filter_id_conv intro!: filter_True [symmetric])
      qed
      show "mq_links st' y \<noteq> Some []" for y using facts(2) [of y] assms by (auto simp: topology_ok_def)
    qed
    then show ?thesis using yes by simp
next
  case (no st')
  then show ?thesis using assms erase_set_refused by fastforce
qed

section \<open>What a delivery does to the receives\<close>

definition resolved :: "u32 \<Rightarrow> namespace_table \<Rightarrow> pending_receive \<Rightarrow> pending_receive" where
  "resolved task ns r = (if pr_object r = None then r\<lparr>pr_object := resolve task (pr_name r) ns\<rparr> else r)"

lemma resolved_fields [simp]:
  "pr_sequence (resolved task ns r) = pr_sequence r" "pr_generation (resolved task ns r) = pr_generation r"
  "pr_name (resolved task ns r) = pr_name r" "resolved task ns (resolved task ns r) = resolved task ns r"
  by (simp_all add: resolved_def)

lemma resolve_receives_map: "resolve_receives task ns rs = map (\<lambda>(p, r). (p, resolved task ns r)) rs"
  by (simp add: resolve_receives_def resolved_def)

lemma resolve_lookup [simp]: "map_of (resolve_receives task ns rs) p = map_option (resolved task ns) (map_of rs p)"
  unfolding resolve_receives_map by (induction rs) auto

lemma resolve_wf [simp]: "om_wf (resolve_receives task ns rs) = om_wf rs"
  unfolding resolve_receives_map om_wf_def by (simp add: sorted_wrt_map case_prod_beta)

lemma resolve_twice [simp]: "resolve_receives task ns (resolve_receives task ns rs) = resolve_receives task ns rs"
  unfolding resolve_receives_map by (simp add: case_prod_beta comp_def)

lemma preferred_receives [simp]: "fst (preferred_receiver task ns q st rs) = resolve_receives task ns rs"
  by (simp add: preferred_receiver_def Let_def)

lemma preferred_after_resolve [simp]:
  "preferred_receiver task ns q st (resolve_receives task ns rs) = preferred_receiver task ns q st rs"
  by (simp add: preferred_receiver_def)

lemma select_queue_cases:
  assumes "select_queue task ns p st qs rs = (rs', visible, found)"
  shows "rs' = (if visible then resolve_receives task ns rs else rs)" "visible \<longleftrightarrow> (\<exists>q\<in>set qs. queue_of st q \<noteq> [])"
    "found = Some q \<Longrightarrow> q \<in> set qs \<and> queue_of st q \<noteq> [] \<and> snd (preferred_receiver task ns q st rs) = Some p"
    "found = None \<Longrightarrow> x \<in> set qs \<Longrightarrow> queue_of st x \<noteq> [] \<Longrightarrow> snd (preferred_receiver task ns x st rs) \<noteq> Some p"
proof -
  have "rs' = (if visible then resolve_receives task ns rs else rs) \<and> (visible \<longleftrightarrow> (\<exists>q\<in>set qs. queue_of st q \<noteq> [])) \<and>
      (\<forall>q. found = Some q \<longrightarrow> q \<in> set qs \<and> queue_of st q \<noteq> [] \<and> snd (preferred_receiver task ns q st rs) = Some p) \<and>
      (found = None \<longrightarrow> (\<forall>x\<in>set qs. queue_of st x \<noteq> [] \<longrightarrow> snd (preferred_receiver task ns x st rs) \<noteq> Some p))"
    using assms
  proof (induction qs arbitrary: rs rs' visible found)
    case (Cons q qs)
    show ?case
    proof (cases "queue_of st q = []")
      case True
      then show ?thesis using Cons.IH [of rs rs' visible found] Cons.prems by simp
    next
      case False
      obtain receiver where pref: "preferred_receiver task ns q st rs = (resolve_receives task ns rs, receiver)"
        using preferred_receives [of task ns q st rs] by (metis prod.collapse)
      show ?thesis
      proof (cases "receiver = Some p")
        case True
        then show ?thesis using False pref Cons.prems by auto
      next
        case other: False
        obtain rs2 v2 f2 where rec: "select_queue task ns p st qs (resolve_receives task ns rs) = (rs2, v2, f2)" by (metis prod_cases3)
        from Cons.IH [OF rec] have IH: "rs2 = resolve_receives task ns rs"
            "\<forall>q. f2 = Some q \<longrightarrow> q \<in> set qs \<and> queue_of st q \<noteq> [] \<and> snd (preferred_receiver task ns q st rs) = Some p"
            "f2 = None \<longrightarrow> (\<forall>x\<in>set qs. queue_of st x \<noteq> [] \<longrightarrow> snd (preferred_receiver task ns x st rs) \<noteq> Some p)"
          by auto
        have "rs' = rs2" "visible" "found = f2" using False other pref rec Cons.prems by auto
        then show ?thesis using IH False other pref by auto
      qed
    qed
  qed simp
  then show "rs' = (if visible then resolve_receives task ns rs else rs)" "visible \<longleftrightarrow> (\<exists>q\<in>set qs. queue_of st q \<noteq> [])"
    "found = Some q \<Longrightarrow> q \<in> set qs \<and> queue_of st q \<noteq> [] \<and> snd (preferred_receiver task ns q st rs) = Some p"
    "found = None \<Longrightarrow> x \<in> set qs \<Longrightarrow> queue_of st x \<noteq> [] \<Longrightarrow> snd (preferred_receiver task ns x st rs) \<noteq> Some p"
    by auto
qed

definition quiet :: "'m mach_queues \<Rightarrow> u32 \<Rightarrow> bool" where
  "quiet st object \<longleftrightarrow> (\<forall>q\<in>set (receive_queues st object). queue_of st q = [])"

lemma select_quiet: "quiet st object \<Longrightarrow> select_queue task ns p st (receive_queues st object) rs = (rs, False, None)"
proof -
  have "(\<forall>q\<in>set qs. queue_of st q = []) \<Longrightarrow> select_queue task ns p st qs rs = (rs, False, None)" for qs
    by (induction qs) auto
  then show "quiet st object \<Longrightarrow> ?thesis" by (simp add: quiet_def)
qed

text \<open>The entries after a delivery: that of the processor goes with a result, and stays with its sequence
  otherwise; the generation noted is the current one only for a quiet object; others are at most
  resolved.\<close>

lemma deliver_facts:
  assumes "deliver_pending task ns p now st rs = (outcome, rs')" "om_wf rs"
  shows "om_wf rs'"
    and "x \<noteq> p \<Longrightarrow> map_of rs' x = map_of rs x \<or> map_of rs' x = map_option (resolved task ns) (map_of rs x)"
    and "outcome \<noteq> Blocked \<Longrightarrow> map_of rs' p = None"
    and "outcome = Blocked \<Longrightarrow> map_of rs p = None \<Longrightarrow> map_of rs' p = None"
    and "outcome = Blocked \<Longrightarrow> map_of rs p = Some r \<Longrightarrow> \<exists>r'. map_of rs' p = Some r' \<and> pr_sequence r' = pr_sequence r \<and>
        (pr_generation r' = pr_generation r \<and> pr_object r' = pr_object (resolved task ns r) \<or>
         (\<exists>object. pr_object r' = Some object \<and> pr_generation r' = mq_generation st \<and> quiet st object))"
proof -
  have "om_wf rs' \<and> (x \<noteq> p \<longrightarrow> map_of rs' x = map_of rs x \<or> map_of rs' x = map_option (resolved task ns) (map_of rs x)) \<and>
      (outcome \<noteq> Blocked \<longrightarrow> map_of rs' p = None) \<and> (outcome = Blocked \<longrightarrow> map_of rs p = None \<longrightarrow> map_of rs' p = None) \<and>
      (outcome = Blocked \<longrightarrow> (\<forall>r. map_of rs p = Some r \<longrightarrow> (\<exists>r'. map_of rs' p = Some r' \<and> pr_sequence r' = pr_sequence r \<and>
        (pr_generation r' = pr_generation r \<and> pr_object r' = pr_object (resolved task ns r) \<or>
         (\<exists>object. pr_object r' = Some object \<and> pr_generation r' = mq_generation st \<and> quiet st object)))))"
  proof (cases "map_of rs p")
    case None
    then show ?thesis using assms by (auto simp: deliver_pending_def)
  next
    case (Some r)
    have obj: "(if pr_object r = None then resolve task (pr_name r) ns else pr_object r) = pr_object (resolved task ns r)"
      by (simp add: resolved_def)
    show ?thesis
    proof (cases "pr_object (resolved task ns r)")
      case None
      then have "pr_object r = None" by (simp add: resolved_def split: if_splits)
      then have "outcome = Blocked" "rs' = rs" using assms(1) Some None obj by (auto simp: deliver_pending_def)
      then show ?thesis using assms(2) Some None \<open>pr_object r = None\<close> by simp
    next
      case object: (Some object)
      define rs0 where "rs0 = om_put p (r\<lparr>pr_object := Some object\<rparr>) rs"
      have rs0: "om_wf rs0" "map_of rs0 = (map_of rs)(p \<mapsto> r\<lparr>pr_object := Some object\<rparr>)" using assms(2) by (simp_all add: rs0_def)
      obtain rs1 visible found where sel: "select_queue task ns p st (receive_queues st object) rs0 = (rs1, visible, found)" by (metis prod_cases3)
      note sc = select_queue_cases [OF sel]
      have rs1: "om_wf rs1" "x \<noteq> p \<Longrightarrow> map_of rs1 x = map_of rs x \<or> map_of rs1 x = map_option (resolved task ns) (map_of rs x)"
        "map_of rs1 p = Some (r\<lparr>pr_object := Some object\<rparr>)"
        using sc(1) rs0 by (auto simp: resolved_def)
      have d: "(outcome, rs') = (case found of
            Some q \<Rightarrow> (Message q (hd (queue_of st q)), om_erase p rs1)
          | None \<Rightarrow>
              if expired now r then (Timed_Out, om_erase p rs1)
              else if visible then (Blocked, rs1)
              else (Blocked, om_put p (r\<lparr>pr_object := Some object, pr_generation := mq_generation st\<rparr>) rs1))"
        using assms(1) Some obj object sel unfolding rs0_def by (simp add: deliver_pending_def cong: if_cong option.case_cong)
      consider (gone) "outcome \<noteq> Blocked" "rs' = om_erase p rs1" | (kept) "outcome = Blocked" "rs' = rs1"
        | (noted) "outcome = Blocked" "\<not> visible" "rs' = om_put p (r\<lparr>pr_object := Some object, pr_generation := mq_generation st\<rparr>) rs1"
        using d by (cases found) (auto split: if_splits)
      then show ?thesis
      proof cases
        case gone
        then show ?thesis using rs1 by simp
      next
        case kept
        then show ?thesis using rs1 Some object by simp
      next
        case noted
        then have "quiet st object" using sc(2) by (simp add: quiet_def)
        then show ?thesis using noted rs1 Some by simp
      qed
    qed
  qed
  then show "om_wf rs'"
    and "x \<noteq> p \<Longrightarrow> map_of rs' x = map_of rs x \<or> map_of rs' x = map_option (resolved task ns) (map_of rs x)"
    and "outcome \<noteq> Blocked \<Longrightarrow> map_of rs' p = None"
    and "outcome = Blocked \<Longrightarrow> map_of rs p = None \<Longrightarrow> map_of rs' p = None"
    and "outcome = Blocked \<Longrightarrow> map_of rs p = Some r \<Longrightarrow> \<exists>r'. map_of rs' p = Some r' \<and> pr_sequence r' = pr_sequence r \<and>
        (pr_generation r' = pr_generation r \<and> pr_object r' = pr_object (resolved task ns r) \<or>
         (\<exists>object. pr_object r' = Some object \<and> pr_generation r' = mq_generation st \<and> quiet st object))"
    by blast+
qed

section \<open>The generation of the queues\<close>

lemma receive_queues_members: "receive_queues st object = object # members_of st object"
  by (simp add: receive_queues_def members_of_def)

lemma quiet_mono:
  "quiet st object \<Longrightarrow> members_of st' object = members_of st object \<Longrightarrow> (\<And>q. queue_of st q = [] \<Longrightarrow> queue_of st' q = []) \<Longrightarrow> quiet st' object"
  by (simp add: quiet_def receive_queues_members)

definition generations_ok :: "'m mach_queues \<Rightarrow> pending_receives \<Rightarrow> bool" where
  "generations_ok st rs \<longleftrightarrow> om_wf rs \<and> (\<forall>p r. map_of rs p = Some r \<longrightarrow>
     (pr_object r = None \<longrightarrow> pr_generation r = 0) \<and> pr_generation r \<le> mq_generation st \<and>
     (\<forall>object. pr_object r = Some object \<longrightarrow> pr_generation r = mq_generation st \<longrightarrow> quiet st object))"

lemma generations_entry:
  "generations_ok st rs \<Longrightarrow> map_of rs p = Some r \<Longrightarrow>
   (pr_object r = None \<longrightarrow> pr_generation r = 0) \<and> pr_generation r \<le> mq_generation st \<and>
   (\<forall>object. pr_object r = Some object \<longrightarrow> pr_generation r = mq_generation st \<longrightarrow> quiet st object)"
  by (simp add: generations_ok_def)

lemma generations_bump:
  assumes "generations_ok st rs" "mq_generation st' = mq_generation st + 1" "mq_generation st + 1 \<noteq> 0"
  shows "generations_ok st' rs"
proof -
  have "unat (mq_generation st') = unat (mq_generation st) + 1"
    using assms(2,3) unatSuc [of "mq_generation st"] by (simp add: add.commute)
  then have "pr_generation r \<le> mq_generation st \<Longrightarrow> pr_generation r \<le> mq_generation st' \<and> pr_generation r \<noteq> mq_generation st'" for r
    by (auto simp: word_le_nat_alt)
  then show ?thesis using assms(1) unfolding generations_ok_def by blast
qed

lemma generations_quieter:
  "generations_ok st rs \<Longrightarrow> mq_generation st' = mq_generation st \<Longrightarrow> (\<And>object. quiet st object \<Longrightarrow> quiet st' object) \<Longrightarrow> generations_ok st' rs"
  by (simp add: generations_ok_def)

lemma generations_new:
  "generations_ok st rs \<Longrightarrow> mq_generation st \<noteq> 0 \<Longrightarrow> pr_generation r = 0 \<Longrightarrow> generations_ok st (om_put p r rs)"
  by (auto simp: generations_ok_def)

lemma generations_erase: "generations_ok st rs \<Longrightarrow> generations_ok st (om_erase p rs)"
  by (simp add: generations_ok_def)

lemma generations_deliver:
  assumes "generations_ok st rs" "mq_generation st \<noteq> 0" "deliver_pending task ns p now st rs = (outcome, rs')"
  shows "generations_ok st rs'"
proof -
  have wf: "om_wf rs" using assms(1) by (simp add: generations_ok_def)
  note df = deliver_facts [OF assms(3) wf]
  have res: "(pr_object r' = None \<longrightarrow> pr_generation r' = 0) \<and> pr_generation r' \<le> mq_generation st \<and>
      (\<forall>object. pr_object r' = Some object \<longrightarrow> pr_generation r' = mq_generation st \<longrightarrow> quiet st object)"
    if "map_of rs x = Some r" "pr_generation r' = pr_generation r" "pr_object r' = pr_object r \<or> pr_object r' = pr_object (resolved task ns r)" for x r r'
    using generations_entry [OF assms(1) that(1)] that(2,3) assms(2) by (auto simp: resolved_def split: if_splits)
  have "(pr_object r' = None \<longrightarrow> pr_generation r' = 0) \<and> pr_generation r' \<le> mq_generation st \<and>
      (\<forall>object. pr_object r' = Some object \<longrightarrow> pr_generation r' = mq_generation st \<longrightarrow> quiet st object)"
    if x: "map_of rs' x = Some r'" for x r'
  proof (cases "x = p")
    case False
    then consider "map_of rs x = Some r'" | r where "map_of rs x = Some r" "r' = resolved task ns r"
      using df(2) [OF False] x by (cases "map_of rs x") auto
    then show ?thesis
    proof cases
      case 1
      then show ?thesis by (intro res [of x r' r']) simp_all
    next
      case (2 r)
      then show ?thesis by (intro res [of x r r']) simp_all
    qed
  next
    case True
    then have blocked: "outcome = Blocked" using df(3) x by auto
    then obtain r where r: "map_of rs p = Some r" using df(4) x True by (cases "map_of rs p") auto
    from df(5) [OF blocked r] x True
    consider "pr_generation r' = pr_generation r" "pr_object r' = pr_object (resolved task ns r)"
      | object where "pr_object r' = Some object" "pr_generation r' = mq_generation st" "quiet st object" by auto
    then show ?thesis
    proof cases
      case 1
      then show ?thesis using res [OF r] by blast
    next
      case 2
      then show ?thesis by simp
    qed
  qed
  then show ?thesis using df(1) by (simp add: generations_ok_def)
qed

lemma deliver_if_ready_cases:
  "deliver_if_ready task ns p now st rs = (Blocked, rs) \<or> deliver_if_ready task ns p now st rs = deliver_pending task ns p now st rs"
  by (simp add: deliver_if_ready_def split: option.split)

lemma pop_quiet: "quiet st object \<Longrightarrow> quiet (pop_message q st) object"
  by (erule quiet_mono) (auto simp: pop_message_def members_of_def queue_of_def split: option.splits)

lemma finish_queues: "pw_queues (finish_receive task taken outcome st rs w) = st \<or> (\<exists>q. pw_queues (finish_receive task taken outcome st rs w) = pop_message q st)"
  by (simp add: finish_receive_def split: delivery.split) blast

lemma finish_receives [simp]: "pw_receives (finish_receive task taken outcome st rs w) = (pw_receives w)(task := rs)"
  by (simp add: finish_receive_def)

lemma begin_receive_cases:
  assumes "begin_receive task ns p call now st rs = (outcome, st', rs')"
  obtains r outcome' rs1 where "pr_generation r = 0" "pr_sequence r = fst (allocate_wait_queue_sequence st)"
    "deliver_pending task ns p now (snd (allocate_wait_queue_sequence st)) (om_put p r rs) = (outcome', rs1)"
    "st' = snd (allocate_wait_queue_sequence st)"
    "(outcome = outcome' \<and> rs' = rs1) \<or> (outcome' = Blocked \<and> outcome = Timed_Out \<and> rs' = om_erase p rs1)"
proof -
  obtain sequence st1 where a: "allocate_wait_queue_sequence st = (sequence, st1)" by fastforce
  define r where "r = \<lparr>pr_address = rc_address call, pr_size = rc_size call, pr_name = rc_name call, pr_options = rc_options call,
    pr_deadline = receive_deadline call now, pr_object = resolve task (rc_name call) ns, pr_generation = 0, pr_sequence = sequence\<rparr>"
  obtain outcome' rs1 where d: "deliver_pending task ns p now st1 (om_put p r rs) = (outcome', rs1)" by fastforce
  have "(outcome, st', rs') = (if outcome' = Blocked \<and> rc_options call AND option_receive_timeout \<noteq> 0 \<and> rc_timeout call = 0
         then (Timed_Out, st1, om_erase p rs1) else (outcome', st1, rs1))"
    using assms d unfolding begin_receive_def a Let_def r_def by simp
  then show thesis using that [of r outcome' rs1] a d by (auto simp: r_def split: if_splits)
qed

definition generations_kept :: "nat \<Rightarrow> 'm port_world \<Rightarrow> bool" where
  "generations_kept n w \<longleftrightarrow> mq_generation (pw_queues w) \<noteq> 0 \<and> unat (mq_generation (pw_queues w)) \<le> n + 1 \<and>
     (\<forall>task. generations_ok (pw_queues w) (pw_receives w task))"

lemma kept_bump:
  assumes "generations_kept n w" "n + 2 < 2 ^ 64" "pw_receives w' = pw_receives w"
    "mq_generation (pw_queues w') = mq_generation (pw_queues w) + 1"
  shows "generations_kept (n + 1) w'"
proof -
  have "unat (mq_generation (pw_queues w)) + 1 < 2 ^ 64" using assms(1,2) by (simp add: generations_kept_def)
  then have u: "unat (mq_generation (pw_queues w) + 1) = unat (mq_generation (pw_queues w)) + 1" by (simp add: unat_word_ariths)
  then have "mq_generation (pw_queues w) + 1 \<noteq> 0" by (metis add_is_0 one_neq_zero unat_0)
  then show ?thesis using assms u unfolding generations_kept_def by (auto intro: generations_bump)
qed

lemma kept_quieter:
  assumes "generations_kept n w" "mq_generation (pw_queues w') = mq_generation (pw_queues w)"
    "\<And>object. quiet (pw_queues w) object \<Longrightarrow> quiet (pw_queues w') object"
    "\<And>task. pw_receives w' task = pw_receives w task \<or> generations_ok (pw_queues w) (pw_receives w' task)"
  shows "generations_kept (n + 1) w'"
proof -
  have "generations_ok (pw_queues w) (pw_receives w' task)" for task
    using assms(1) assms(4) [of task] by (auto simp: generations_kept_def)
  then have "generations_ok (pw_queues w') (pw_receives w' task)" for task
    using assms(2,3) by (auto intro: generations_quieter)
  then show ?thesis using assms(1,2) by (simp add: generations_kept_def)
qed

lemma kept_finish:
  assumes "generations_kept n w" "mq_generation st = mq_generation (pw_queues w)"
    "\<And>object. quiet (pw_queues w) object \<Longrightarrow> quiet st object" "generations_ok (pw_queues w) rs"
  shows "generations_kept (n + 1) (finish_receive task taken outcome st rs w)"
proof (rule kept_quieter [OF assms(1)])
  let ?w = "finish_receive task taken outcome st rs w"
  show "mq_generation (pw_queues ?w) = mq_generation (pw_queues w)"
    using finish_queues [of task taken outcome st rs w] assms(2) by (auto simp: pop_message_def)
  show "quiet (pw_queues ?w) object" if "quiet (pw_queues w) object" for object
    using finish_queues [of task taken outcome st rs w] assms(3) [OF that] by (auto intro: pop_quiet)
  show "pw_receives ?w t = pw_receives w t \<or> generations_ok (pw_queues w) (pw_receives ?w t)" for t
    using assms(4) by simp
qed

lemma generations_same: "generations_ok st rs \<Longrightarrow> mq_generation st' = mq_generation st \<Longrightarrow> quiet st' = quiet st \<Longrightarrow> generations_ok st' rs"
  by (simp add: generations_ok_def)

lemma kept_step:
  assumes "generations_kept n w" "n + 2 < 2 ^ 64"
  shows "generations_kept (n + 1) (port_step w e)"
proof -
  have ok: "generations_ok (pw_queues w) (pw_receives w t)" for t using assms(1) by (simp add: generations_kept_def)
  have gen: "mq_generation (pw_queues w) \<noteq> 0" using assms(1) by (simp add: generations_kept_def)
  have same: "generations_kept (n + 1) w" using kept_quieter [OF assms(1), of w] by simp
  have set_op: "generations_kept (n + 1) (w\<lparr>pw_queues := snd result\<rparr>)"
    if "\<And>st'. result = (True, st') \<Longrightarrow> mq_generation st' = mq_generation (pw_queues w) + 1"
      "\<And>st'. result = (False, st') \<Longrightarrow> st' = pw_queues w" for result
  proof (cases result rule: bool_pair_cases)
    case (yes st')
    then show ?thesis using that(1) by (intro kept_bump [OF assms(1,2)]) simp_all
  next
    case (no st')
    then show ?thesis using that(2) same by simp
  qed
  show ?thesis
  proof (cases e)
    case (Create_Set s)
    have "quiet (pw_queues w) object \<Longrightarrow> quiet (snd (create_port_set s (pw_queues w))) object" for object
      by (erule quiet_mono) (simp_all add: create_facts queue_of_def)
    then show ?thesis unfolding Create_Set port_step.simps by (intro kept_quieter [OF assms(1)]) (simp_all add: create_facts)
  next
    case (Insert_Member s m)
    then show ?thesis unfolding Insert_Member port_step.simps using insert_facts(6) insert_refused by (intro set_op) blast+
  next
    case (Extract_Member s m)
    then show ?thesis unfolding Extract_Member port_step.simps using extract_facts(4) extract_refused by (intro set_op) blast+
  next
    case (Remove_Member m)
    then show ?thesis unfolding Remove_Member port_step.simps using remove_all_facts(4) remove_all_refused by (intro set_op) blast+
  next
    case (Erase_Set s)
    then show ?thesis unfolding Erase_Set port_step.simps using erase_set_facts(4) erase_set_refused by (intro set_op) blast+
  next
    case (Enqueue d m)
    then show ?thesis unfolding Enqueue port_step.simps by (intro kept_bump [OF assms(1,2)]) (simp_all add: enqueue_message_def)
  next
    case (Drop_Queue d)
    have "quiet (pw_queues w) object \<Longrightarrow> quiet (pw_queues (port_step w e)) object" for object
      by (erule quiet_mono) (auto simp: Drop_Queue members_of_def queue_of_def)
    then show ?thesis using Drop_Queue by (intro kept_quieter [OF assms(1)]) auto
  next
    case (Begin_Receive task ns p call now taken)
    obtain outcome st rs where b: "begin_receive task ns p call now (pw_queues w) (pw_receives w task) = (outcome, st, rs)" by (metis prod_cases3)
    let ?st = "snd (allocate_wait_queue_sequence (pw_queues w))"
    have q: "quiet ?st = quiet (pw_queues w)"
      by (simp add: fun_eq_iff quiet_def receive_queues_def queue_of_def allocate_facts)
    obtain r outcome' rs1 where r: "pr_generation r = 0"
      and d: "deliver_pending task ns p now ?st (om_put p r (pw_receives w task)) = (outcome', rs1)"
      and st: "st = ?st" and rs: "(outcome = outcome' \<and> rs = rs1) \<or> (outcome' = Blocked \<and> outcome = Timed_Out \<and> rs = om_erase p rs1)"
      by (rule begin_receive_cases [OF b])
    have ok': "generations_ok ?st (pw_receives w t)" for t using generations_same [OF ok] q allocate_facts by blast
    have "mq_generation ?st \<noteq> 0" using gen by (simp add: allocate_facts)
    then have "generations_ok ?st rs1" using generations_deliver [OF generations_new [OF ok' _ r] _ d] by blast
    then have "generations_ok ?st rs" using rs generations_erase by metis
    then have "generations_ok (pw_queues w) rs" by (rule generations_same) (simp_all add: q allocate_facts)
    then show ?thesis using Begin_Receive b st q by (simp add: kept_finish [OF assms(1), simplified] allocate_facts)
  next
    case (Poll task ns p now taken)
    obtain outcome rs where d: "deliver_if_ready task ns p now (pw_queues w) (pw_receives w task) = (outcome, rs)" by (metis prod.collapse)
    then have "generations_ok (pw_queues w) rs"
      using deliver_if_ready_cases [of task ns p now "pw_queues w" "pw_receives w task"] ok generations_deliver [OF ok gen] by (metis snd_conv)
    then show ?thesis using Poll d by (simp add: kept_finish [OF assms(1), simplified])
  next
    case (Cancel task p)
    then show ?thesis unfolding Cancel port_step.simps by (intro kept_quieter [OF assms(1)]) (simp_all add: generations_erase [OF ok])
  next
    case (Cancel_All task)
    then show ?thesis unfolding Cancel_All port_step.simps by (intro kept_quieter [OF assms(1)]) (simp_all add: generations_ok_def)
  qed
qed

text \<open>The count of events that bounds both counters is part of the state of this machine.\<close>

definition counted_step :: "nat \<times> 'm port_world \<Rightarrow> 'm port_event \<Rightarrow> nat \<times> 'm port_world" where
  "counted_step = (\<lambda>(n, w) e. (n + 1, port_step w e))"

lemma counted_run: "foldl counted_step (n, w) es = (n + length es, foldl port_step w es)"
  by (induction es arbitrary: n w) (simp_all add: counted_step_def)

interpretation generations: machine "(0, port_world_init)" counted_step "\<lambda>(n, w). n + 1 < 2 ^ 64 \<longrightarrow> generations_kept n w"
proof unfold_locales
  show "case (0, port_world_init) of (n, w) \<Rightarrow> n + 1 < 2 ^ 64 \<longrightarrow> generations_kept n w"
    by (simp add: generations_kept_def generations_ok_def port_world_init_def mach_queues_init_def)
next
  fix s :: "nat \<times> 'a port_world" and e
  assume "case s of (n, w) \<Rightarrow> n + 1 < 2 ^ 64 \<longrightarrow> generations_kept n w"
  then show "case counted_step s e of (n, w) \<Rightarrow> n + 1 < 2 ^ 64 \<longrightarrow> generations_kept n w"
    by (cases s) (auto simp: counted_step_def intro: kept_step [simplified])
qed

lemma run_generations: "length es + 1 < 2 ^ 64 \<Longrightarrow> generations_kept (length es) (port_run es)"
  using generations.run_inv [of es] by (simp add: counted_run port_run_def)

section \<open>Wait queues\<close>

text \<open>
  The order of arrival of all that waits: a receive of a processor, or the link of a member to a set. The
  wait queue of a port is what of it concerns the port, and a link stands for the receives of its set.
\<close>

datatype arrival = Waiter u32 nat | Link u32 u32

definition waiting :: "'m port_world \<Rightarrow> u32 \<Rightarrow> nat \<Rightarrow> bool" where
  "waiting w task p \<longleftrightarrow> map_of (pw_receives w task) p \<noteq> None"

fun link_of :: "u32 \<Rightarrow> arrival \<Rightarrow> bool" where
  "link_of m (Link m' s) = (m' = m)"
| "link_of m (Waiter task p) = False"

fun link_to :: "u32 \<Rightarrow> arrival \<Rightarrow> bool" where
  "link_to s (Link m s') = (s' = s)"
| "link_to s (Waiter task p) = False"

fun waiter_of :: "u32 \<Rightarrow> arrival \<Rightarrow> bool" where
  "waiter_of task (Waiter task' p) = (task' = task)"
| "waiter_of task (Link m s) = False"

fun arrive :: "'m port_world \<Rightarrow> 'm port_event \<Rightarrow> arrival list \<Rightarrow> arrival list" where
  "arrive w (Insert_Member s m) as = (if fst (insert_set_member s m (pw_queues w)) then as @ [Link m s] else as)"
| "arrive w (Extract_Member s m) as = filter (\<lambda>a. a \<noteq> Link m s) as"
| "arrive w (Remove_Member m) as = filter (\<lambda>a. \<not> link_of m a) as"
| "arrive w (Erase_Set s) as = filter (\<lambda>a. \<not> link_to s a) as"
| "arrive w (Begin_Receive task ns p call now taken) as =
     filter (\<lambda>a. a \<noteq> Waiter task p) as @
     (if waiting (port_step w (Begin_Receive task ns p call now taken)) task p then [Waiter task p] else [])"
| "arrive w (Poll task ns p now taken) as =
     (if waiting (port_step w (Poll task ns p now taken)) task p then as else filter (\<lambda>a. a \<noteq> Waiter task p) as)"
| "arrive w (Cancel task p) as = filter (\<lambda>a. a \<noteq> Waiter task p) as"
| "arrive w (Cancel_All task) as = filter (\<lambda>a. \<not> waiter_of task a) as"
| "arrive w _ as = as"

definition arrivals :: "'m port_event list \<Rightarrow> arrival list" where
  "arrivals es = snd (foldl (\<lambda>(w, as) e. (port_step w e, arrive w e as)) (port_world_init, []) es)"

text \<open>The first in line: the first element of the port's wait queue that has a receive for it.\<close>

definition first_of_set :: "u32 \<Rightarrow> (nat \<Rightarrow> u32 option) \<Rightarrow> arrival list \<Rightarrow> u32 \<Rightarrow> nat option" where
  "first_of_set task object all s =
     (case filter (\<lambda>a. case a of Waiter t p \<Rightarrow> t = task \<and> object p = Some s | Link _ _ \<Rightarrow> False) all of
        Waiter _ p # _ \<Rightarrow> Some p
      | _ \<Rightarrow> None)"

fun first_in_line :: "u32 \<Rightarrow> (nat \<Rightarrow> u32 option) \<Rightarrow> arrival list \<Rightarrow> u32 \<Rightarrow> arrival list \<Rightarrow> nat option" where
  "first_in_line task object all q [] = None"
| "first_in_line task object all q (Waiter t p # as) =
     (if t = task \<and> object p = Some q then Some p else first_in_line task object all q as)"
| "first_in_line task object all q (Link m s # as) =
     (case (if m = q then first_of_set task object all s else None) of
        Some p \<Rightarrow> Some p
      | None \<Rightarrow> first_in_line task object all q as)"

definition wait_object :: "u32 \<Rightarrow> namespace_table \<Rightarrow> pending_receives \<Rightarrow> nat \<Rightarrow> u32 option" where
  "wait_object task ns rs p = (case map_of rs p of None \<Rightarrow> None | Some r \<Rightarrow> pr_object (resolved task ns r))"

text \<open>Arrivals with the numbers the code gave them: increasing, and those of the entries and links.\<close>

definition entry_number :: "pending_receives \<Rightarrow> nat \<Rightarrow> nat option" where
  "entry_number rs p = map_option (\<lambda>r. unat (pr_sequence r)) (map_of rs p)"

definition link_numbers :: "'m mach_queues \<Rightarrow> u32 \<Rightarrow> (u32 \<times> nat) set" where
  "link_numbers st m = (\<lambda>l. (sl_set l, unat (sl_sequence l))) ` set (links_of st m)"

fun arrival_number :: "'m port_world \<Rightarrow> nat \<Rightarrow> arrival \<Rightarrow> bool" where
  "arrival_number w k (Waiter task p) = (entry_number (pw_receives w task) p = Some k)"
| "arrival_number w k (Link m s) = ((s, k) \<in> link_numbers (pw_queues w) m)"

definition numbered :: "'m port_world \<Rightarrow> (nat \<times> arrival) list \<Rightarrow> bool" where
  "numbered w ws \<longleftrightarrow> sorted_wrt (\<lambda>a b. fst a < fst b) ws \<and> (\<forall>e\<in>set ws. fst e < unat (mq_next (pw_queues w))) \<and>
     (\<forall>k a. (k, a) \<in> set ws \<longleftrightarrow> arrival_number w k a)"

lemma numbered_filter:
  assumes "numbered w ws" "unat (mq_next (pw_queues w)) \<le> unat (mq_next (pw_queues w'))"
    and "\<And>k a. arrival_number w' k a \<longleftrightarrow> keep a \<and> arrival_number w k a"
  shows "numbered w' (filter (\<lambda>e. keep (snd e)) ws)"
proof -
  have "fst e < unat (mq_next (pw_queues w'))" if "e \<in> set ws" for e
    using assms(1,2) that unfolding numbered_def by fastforce
  then show ?thesis using assms(1) unfolding numbered_def assms(3) by (auto simp: sorted_wrt_filter)
qed

lemma numbered_append:
  assumes "numbered w ws" "unat (mq_next (pw_queues w)) \<le> k" "k < unat (mq_next (pw_queues w'))"
    and "\<And>j b. arrival_number w' j b \<longleftrightarrow> (j, b) = (k, a) \<or> arrival_number w j b"
  shows "numbered w' (ws @ [(k, a)])"
proof -
  have "fst e < k" if "e \<in> set ws" for e using assms(1,2) that unfolding numbered_def by fastforce
  then show ?thesis
    using assms(1,3) unfolding numbered_def assms(4) by (auto simp: sorted_wrt_append dest: less_trans)
qed

definition line_ok :: "nat \<Rightarrow> 'm port_world \<Rightarrow> arrival list \<Rightarrow> bool" where
  "line_ok n w as \<longleftrightarrow> mq_next (pw_queues w) \<noteq> 0 \<and> unat (mq_next (pw_queues w)) \<le> n + 1 \<and> topology_ok (pw_queues w) \<and>
     (\<forall>task. om_wf (pw_receives w task)) \<and> (\<exists>ws. numbered w ws \<and> as = map snd ws)"

lemma line_filter:
  assumes "line_ok n w as" "mq_next (pw_queues w') = mq_next (pw_queues w) \<or> (mq_next (pw_queues w') = mq_next (pw_queues w) + 1 \<and> n + 2 < 2 ^ 64)"
    "topology_ok (pw_queues w')" "\<And>task. om_wf (pw_receives w' task)"
    "\<And>k a. arrival_number w' k a \<longleftrightarrow> keep a \<and> arrival_number w k a"
  shows "line_ok (n + 1) w' (filter keep as)"
proof -
  obtain ws where ws: "numbered w ws" "as = map snd ws" using assms(1) by (auto simp: line_ok_def)
  have u: "unat (mq_next (pw_queues w)) \<le> n + 1" using assms(1) by (simp add: line_ok_def)
  have nx: "mq_next (pw_queues w') \<noteq> 0 \<and> unat (mq_next (pw_queues w')) \<le> n + 2 \<and> unat (mq_next (pw_queues w)) \<le> unat (mq_next (pw_queues w'))"
  proof (cases "mq_next (pw_queues w') = mq_next (pw_queues w)")
    case True
    then show ?thesis using assms(1) by (simp add: line_ok_def)
  next
    case False
    then have next': "mq_next (pw_queues w') = mq_next (pw_queues w) + 1" "n + 2 < 2 ^ 64" using assms(2) by auto
    then have "unat (mq_next (pw_queues w')) = unat (mq_next (pw_queues w)) + 1" using u by (simp add: unat_word_ariths)
    then show ?thesis using u by (metis Suc_eq_plus1 Suc_neq_Zero add_2_eq_Suc' add_le_cancel_right le_add1 one_add_one add.assoc unat_0)
  qed
  have "numbered w' (filter (\<lambda>e. keep (snd e)) ws)" using numbered_filter [OF ws(1)] nx assms(5) by blast
  moreover have "filter keep as = map snd (filter (\<lambda>e. keep (snd e)) ws)" by (simp add: ws(2) filter_map comp_def)
  ultimately show ?thesis using nx assms(3,4) unfolding line_ok_def by auto
qed

lemma line_append:
  assumes "line_ok n w as" "n + 2 < 2 ^ 64" "mq_next (pw_queues w') = mq_next (pw_queues w) + 1" "topology_ok (pw_queues w')"
    "\<And>task. om_wf (pw_receives w' task)" "\<And>k. \<not> arrival_number w k a"
    "\<And>j b. arrival_number w' j b \<longleftrightarrow> (j, b) = (unat (mq_next (pw_queues w)), a) \<or> arrival_number w j b"
  shows "line_ok (n + 1) w' (as @ [a])"
proof -
  obtain ws where ws: "numbered w ws" "as = map snd ws" using assms(1) by (auto simp: line_ok_def)
  have u: "unat (mq_next (pw_queues w)) \<le> n + 1" using assms(1) by (simp add: line_ok_def)
  then have u': "unat (mq_next (pw_queues w')) = unat (mq_next (pw_queues w)) + 1" using assms(2,3) by (simp add: unat_word_ariths)
  then have "numbered w' (ws @ [(unat (mq_next (pw_queues w)), a)])" using numbered_append [OF ws(1) _ _ assms(7)] by simp
  moreover have "as @ [a] = map snd (ws @ [(unat (mq_next (pw_queues w)), a)])" by (simp add: ws(2))
  moreover have "mq_next (pw_queues w') \<noteq> 0" using u' by (metis add_is_0 one_neq_zero unat_0)
  ultimately show ?thesis using u u' assms(4,5) unfolding line_ok_def by auto
qed

lemma allocate_number:
  "mq_next st \<noteq> 0 \<Longrightarrow> allocate_wait_queue_sequence st = (mq_next st, st\<lparr>mq_next := mq_next st + 1\<rparr>)"
  by (simp add: allocate_wait_queue_sequence_def)

lemma same_links:
  assumes "mq_sets st' = mq_sets st" "mq_links st' = mq_links st"
  shows "topology_ok st' = topology_ok st" "link_numbers st' m = link_numbers st m"
  using assms by (simp_all add: topology_ok_def members_of_def links_of_def link_numbers_def)

lemma finish_links:
  "mq_sets (pw_queues (finish_receive task taken outcome st rs w)) = mq_sets st"
  "mq_links (pw_queues (finish_receive task taken outcome st rs w)) = mq_links st"
  "mq_next (pw_queues (finish_receive task taken outcome st rs w)) = mq_next st"
  by (simp_all add: finish_receive_def pop_message_def split: delivery.split)

lemma deliver_numbers:
  assumes "deliver_pending task ns p now st rs = (outcome, rs')" "om_wf rs"
  shows "om_wf rs'" "x \<noteq> p \<Longrightarrow> entry_number rs' x = entry_number rs x"
    "entry_number rs' p = None \<or> entry_number rs' p = entry_number rs p"
proof -
  note df = deliver_facts [OF assms]
  show "om_wf rs'" by (rule df(1))
  show "entry_number rs' x = entry_number rs x" if "x \<noteq> p"
    using df(2) [OF that] by (auto simp: entry_number_def option.map_comp comp_def)
  show "entry_number rs' p = None \<or> entry_number rs' p = entry_number rs p"
  proof (cases "map_of rs p")
    case None
    then show ?thesis using df(3,4) by (cases "outcome = Blocked") (simp_all add: entry_number_def)
  next
    case (Some r)
    then show ?thesis using df(3) df(5) [OF _ Some] by (cases "outcome = Blocked") (auto simp: entry_number_def)
  qed
qed

lemma entry_erase: "entry_number (om_erase p rs) x = (if x = p then None else entry_number rs x)"
  by (simp add: entry_number_def)

lemma entry_put: "entry_number (om_put p r rs) x = (if x = p then Some (unat (pr_sequence r)) else entry_number rs x)"
  by (simp add: entry_number_def)

lemma waiting_entry: "waiting w task p \<longleftrightarrow> entry_number (pw_receives w task) p \<noteq> None"
  by (simp add: waiting_def entry_number_def)

lemma no_link: "topology_ok st \<Longrightarrow> m \<notin> set (members_of st s) \<Longrightarrow> (s, k) \<notin> link_numbers st m"
  by (force simp: topology_ok_def link_numbers_def)

lemma link_numbers_clean:
  "mq_links st' y = clean_links s (mq_links st y) \<Longrightarrow> (x, k) \<in> link_numbers st' y \<longleftrightarrow> x \<noteq> s \<and> (x, k) \<in> link_numbers st y"
  by (auto simp: link_numbers_def links_of_clean)

lemma link_numbers_same: "mq_links st' y = mq_links st y \<Longrightarrow> link_numbers st' y = link_numbers st y"
  by (simp add: link_numbers_def links_of_def)

lemma line_same:
  assumes "line_ok n w as" "pw_receives w' = pw_receives w" "mq_next (pw_queues w') = mq_next (pw_queues w)"
    "topology_ok (pw_queues w')" "\<And>m. link_numbers (pw_queues w') m = link_numbers (pw_queues w) m"
  shows "line_ok (n + 1) w' as"
proof -
  have "arrival_number w' k a = arrival_number w k a" for k a using assms(2,5) by (cases a) simp_all
  then have "line_ok (n + 1) w' (filter (\<lambda>_. True) as)"
    using assms by (intro line_filter [OF assms(1)]) (auto simp: line_ok_def)
  then show ?thesis by simp
qed

lemma line_sets:
  assumes "line_ok n w as" "mq_next st' = mq_next (pw_queues w)" "topology_ok st'"
    "\<And>m s k. (s, k) \<in> link_numbers st' m \<longleftrightarrow> keep (Link m s) \<and> (s, k) \<in> link_numbers (pw_queues w) m"
    "\<And>task p. keep (Waiter task p)"
  shows "line_ok (n + 1) (w\<lparr>pw_queues := st'\<rparr>) (filter keep as)"
proof (rule line_filter [OF assms(1)])
  show "arrival_number (w\<lparr>pw_queues := st'\<rparr>) k a \<longleftrightarrow> keep a \<and> arrival_number w k a" for k a
    using assms(4,5) by (cases a) simp_all
qed (use assms in \<open>auto simp: line_ok_def\<close>)

lemma line_receives:
  assumes "line_ok n w as" "mq_next (pw_queues w') = mq_next (pw_queues w) \<or> (mq_next (pw_queues w') = mq_next (pw_queues w) + 1 \<and> n + 2 < 2 ^ 64)"
    "mq_sets (pw_queues w') = mq_sets (pw_queues w)" "mq_links (pw_queues w') = mq_links (pw_queues w)"
    "\<And>t. om_wf (pw_receives w' t)"
    "\<And>t p. entry_number (pw_receives w' t) p = (if keep (Waiter t p) then entry_number (pw_receives w t) p else None)"
    "\<And>m s. keep (Link m s)"
  shows "line_ok (n + 1) w' (filter keep as)"
proof (rule line_filter [OF assms(1,2)])
  note same = same_links [OF assms(3,4)]
  show "topology_ok (pw_queues w')" using assms(1) by (simp add: same line_ok_def)
  show "arrival_number w' k a \<longleftrightarrow> keep a \<and> arrival_number w k a" for k a
    using assms(6,7) by (cases a) (simp_all add: same)
qed (rule assms(5))

lemma line_insert:
  assumes "line_ok n w as" "n + 2 < 2 ^ 64"
  shows "line_ok (n + 1) (port_step w (Insert_Member s m)) (arrive w (Insert_Member s m) as)"
proof (cases "insert_set_member s m (pw_queues w)" rule: bool_pair_cases)
  case (no st')
  then have "st' = pw_queues w" by (rule insert_refused)
  then show ?thesis using no assms(1) by (auto intro: line_same [simplified] simp: line_ok_def)
next
  case (yes st')
  note facts = insert_facts [OF yes]
  have next0: "mq_next (pw_queues w) \<noteq> 0" and topo: "topology_ok (pw_queues w)" using assms(1) by (simp_all add: line_ok_def)
  have none: "(s, k) \<notin> link_numbers (pw_queues w) m" for k using no_link [OF topo facts(1)] .
  have links: "(x, k) \<in> link_numbers st' y \<longleftrightarrow> (k, Link y x) = (unat (mq_next (pw_queues w)), Link m s) \<or> (x, k) \<in> link_numbers (pw_queues w) y" for x y k
    using facts(3) [of y] allocate_number [OF next0] by (auto simp: link_numbers_def)
  have "line_ok (n + 1) (w\<lparr>pw_queues := st'\<rparr>) (as @ [Link m s])"
  proof (rule line_append [OF assms])
    show "mq_next (pw_queues (w\<lparr>pw_queues := st'\<rparr>)) = mq_next (pw_queues w) + 1" using facts(5) allocate_number [OF next0] by simp
    show "topology_ok (pw_queues (w\<lparr>pw_queues := st'\<rparr>))" using insert_topology [OF topo, of s m] yes by simp
    show "om_wf (pw_receives (w\<lparr>pw_queues := st'\<rparr>) task)" for task using assms(1) by (simp add: line_ok_def)
    show "\<not> arrival_number w k (Link m s)" for k using none by simp
    show "arrival_number (w\<lparr>pw_queues := st'\<rparr>) j b \<longleftrightarrow> (j, b) = (unat (mq_next (pw_queues w)), Link m s) \<or> arrival_number w j b" for j b
      using links by (cases b) auto
  qed
  then show ?thesis using yes by simp
qed

lemma line_set_step:
  assumes "line_ok n w as"
  shows "line_ok (n + 1) (port_step w (Extract_Member s m)) (arrive w (Extract_Member s m) as)"
    and "line_ok (n + 1) (port_step w (Remove_Member m)) (arrive w (Remove_Member m) as)"
    and "line_ok (n + 1) (port_step w (Erase_Set s)) (arrive w (Erase_Set s) as)"
proof -
  have topo: "topology_ok (pw_queues w)" using assms by (simp add: line_ok_def)
  have iff: "m \<in> set (members_of (pw_queues w) s) \<longleftrightarrow> s \<in> sl_set ` set (links_of (pw_queues w) m)" for s m
    using topo by (simp add: topology_ok_def)
  show "line_ok (n + 1) (port_step w (Extract_Member s m)) (arrive w (Extract_Member s m) as)"
    unfolding port_step.simps arrive.simps
  proof (rule line_sets [OF assms])
    show "topology_ok (snd (extract_set_member s m (pw_queues w)))" by (rule extract_topology [OF topo])
    show "mq_next (snd (extract_set_member s m (pw_queues w))) = mq_next (pw_queues w)"
      by (cases "extract_set_member s m (pw_queues w)" rule: bool_pair_cases) (auto dest: extract_facts(3) extract_refused)
    show "(x, k) \<in> link_numbers (snd (extract_set_member s m (pw_queues w))) y \<longleftrightarrow> Link y x \<noteq> Link m s \<and> (x, k) \<in> link_numbers (pw_queues w) y" for x y k
    proof (cases "extract_set_member s m (pw_queues w)" rule: bool_pair_cases)
      case (yes st')
      then show ?thesis
        using extract_facts(2) [OF yes, of y] link_numbers_clean [of st' y s "pw_queues w" x k] link_numbers_same [of st' y "pw_queues w"]
        by (cases "y = m") auto
    next
      case (no st')
      then show ?thesis using extract_refused [OF no] no_link [OF topo] by auto
    qed
  qed simp
  show "line_ok (n + 1) (port_step w (Remove_Member m)) (arrive w (Remove_Member m) as)"
    unfolding port_step.simps arrive.simps
  proof (rule line_sets [OF assms])
    show "topology_ok (snd (remove_member_from_all m (pw_queues w)))" by (rule remove_all_topology [OF topo])
    show "mq_next (snd (remove_member_from_all m (pw_queues w))) = mq_next (pw_queues w)"
      by (cases "remove_member_from_all m (pw_queues w)" rule: bool_pair_cases) (auto dest: remove_all_facts(3) remove_all_refused)
    show "(x, k) \<in> link_numbers (snd (remove_member_from_all m (pw_queues w))) y \<longleftrightarrow> \<not> link_of m (Link y x) \<and> (x, k) \<in> link_numbers (pw_queues w) y" for x y k
    proof (cases "remove_member_from_all m (pw_queues w)" rule: bool_pair_cases)
      case (yes st')
      then show ?thesis using remove_all_facts(2) [OF yes, of y] by (cases "y = m") (auto simp: link_numbers_def links_of_def)
    next
      case (no st')
      then show ?thesis using remove_all_refused [OF no] by (auto simp: link_numbers_def)
    qed
  qed simp
  show "line_ok (n + 1) (port_step w (Erase_Set s)) (arrive w (Erase_Set s) as)"
    unfolding port_step.simps arrive.simps
  proof (rule line_sets [OF assms])
    show "topology_ok (snd (erase_port_set s (pw_queues w)))" by (rule erase_set_topology [OF topo])
    show "mq_next (snd (erase_port_set s (pw_queues w))) = mq_next (pw_queues w)"
      by (cases "erase_port_set s (pw_queues w)" rule: bool_pair_cases) (auto dest: erase_set_facts(3) erase_set_refused)
    show "(x, k) \<in> link_numbers (snd (erase_port_set s (pw_queues w))) y \<longleftrightarrow> \<not> link_to s (Link y x) \<and> (x, k) \<in> link_numbers (pw_queues w) y" for x y k
    proof (cases "erase_port_set s (pw_queues w)" rule: bool_pair_cases)
      case (yes st')
      show ?thesis
      proof (cases "y \<in> set (members_of (pw_queues w) s)")
        case True
        then show ?thesis using yes erase_set_facts(2) [OF yes, of y] link_numbers_clean [of st' y s "pw_queues w" x k] by auto
      next
        case False
        then show ?thesis using yes erase_set_facts(2) [OF yes, of y] link_numbers_same [of st' y "pw_queues w"] no_link [OF topo False] by auto
      qed
    next
      case (no st')
      then show ?thesis using erase_set_refused [OF no] no_link [OF topo] by auto
    qed
  qed simp
qed

lemma line_begin:
  assumes "line_ok n w as" "n + 2 < 2 ^ 64"
  shows "line_ok (n + 1) (port_step w (Begin_Receive task ns p call now taken)) (arrive w (Begin_Receive task ns p call now taken) as)"
proof -
  define w' where "w' = port_step w (Begin_Receive task ns p call now taken)"
  define st rs where "st = pw_queues w" and "rs = pw_receives w task"
  have next0: "mq_next st \<noteq> 0" and wf: "om_wf (pw_receives w t)" for t using assms(1) by (simp_all add: line_ok_def st_def)
  obtain outcome st1 rs1 where b: "begin_receive task ns p call now st rs = (outcome, st1, rs1)" by (metis prod_cases3)
  obtain r outcome' rs2 where r: "pr_sequence r = mq_next st" and d: "deliver_pending task ns p now st1 (om_put p r rs) = (outcome', rs2)"
    and st1: "st1 = st\<lparr>mq_next := mq_next st + 1\<rparr>"
    and rs1: "rs1 = rs2 \<or> rs1 = om_erase p rs2"
    using begin_receive_cases [OF b] allocate_number [OF next0] by (metis fst_conv snd_conv)
  have w': "w' = finish_receive task taken outcome st1 rs1 w" using b by (simp add: w'_def st_def rs_def)
  have wf': "om_wf (om_put p r rs)" using wf by (simp add: rs_def)
  note dn = deliver_numbers [OF d wf']
  have sets: "mq_sets (pw_queues w') = mq_sets (pw_queues w)" "mq_links (pw_queues w') = mq_links (pw_queues w)"
    "mq_next (pw_queues w') = mq_next (pw_queues w) + 1"
    by (simp_all add: w' finish_links st1 st_def)
  have others: "entry_number (pw_receives w' t) x = entry_number (pw_receives w t) x" if "t \<noteq> task \<or> x \<noteq> p" for t x
    using that dn(2) [of x] rs1 by (auto simp: w' entry_erase entry_put rs_def)
  have mine: "entry_number (pw_receives w' task) p = None \<or> entry_number (pw_receives w' task) p = Some (unat (mq_next st))"
    using dn(3) rs1 r by (auto simp: w' entry_erase entry_put)
  have wfs: "om_wf (pw_receives w' t)" for t using wf dn(1) rs1 by (auto simp: w')
  show ?thesis
  proof (cases "waiting w' task p")
    case False
    then have "line_ok (n + 1) w' (filter (\<lambda>a. a \<noteq> Waiter task p) as)"
      using others wfs sets assms(2) by (intro line_receives [OF assms(1)]) (auto simp: waiting_entry)
    then show ?thesis using False unfolding arrive.simps w'_def [symmetric] by simp
  next
    case True
    then have p: "entry_number (pw_receives w' task) p = Some (unat (mq_next st))" using mine by (auto simp: waiting_entry)
    obtain ws where ws: "numbered w ws" "as = map snd ws" using assms(1) by (auto simp: line_ok_def)
    let ?w1 = "w\<lparr>pw_receives := (pw_receives w)(task := om_erase p rs)\<rparr>"
    have n1: "numbered ?w1 (filter (\<lambda>e. snd e \<noteq> Waiter task p) ws)"
    proof (rule numbered_filter [OF ws(1)])
      show "arrival_number ?w1 k a \<longleftrightarrow> a \<noteq> Waiter task p \<and> arrival_number w k a" for k a
        by (cases a) (auto simp: entry_erase rs_def)
    qed simp
    have u: "unat (mq_next (pw_queues w')) = unat (mq_next st) + 1"
      using assms sets(3) by (simp add: line_ok_def st_def unat_word_ariths)
    have "numbered w' (filter (\<lambda>e. snd e \<noteq> Waiter task p) ws @ [(unat (mq_next st), Waiter task p)])"
    proof (rule numbered_append [OF n1])
      show "arrival_number w' j b \<longleftrightarrow> (j, b) = (unat (mq_next st), Waiter task p) \<or> arrival_number ?w1 j b" for j b
      proof (cases b)
        case (Waiter t x)
        then show ?thesis using p others [of t x] by (cases "t = task \<and> x = p") (auto simp: entry_erase rs_def)
      next
        case (Link m s)
        then show ?thesis using same_links(2) [OF sets(1,2)] by simp
      qed
    qed (simp_all add: u st_def)
    moreover have "arrive w (Begin_Receive task ns p call now taken) as =
        map snd (filter (\<lambda>e. snd e \<noteq> Waiter task p) ws @ [(unat (mq_next st), Waiter task p)])"
      using True unfolding arrive.simps w'_def [symmetric] by (simp add: ws(2) filter_map comp_def)
    moreover have "topology_ok (pw_queues w')" using assms(1) same_links(1) [OF sets(1,2)] by (simp add: line_ok_def)
    moreover have "mq_next (pw_queues w') \<noteq> 0" using u by (metis add_is_0 one_neq_zero unat_0)
    moreover have "unat (mq_next (pw_queues w')) \<le> n + 1 + 1" using u assms(1) by (simp add: line_ok_def st_def)
    ultimately show ?thesis using wfs unfolding line_ok_def w'_def by blast
  qed
qed

lemma line_poll:
  assumes "line_ok n w as"
  shows "line_ok (n + 1) (port_step w (Poll task ns p now taken)) (arrive w (Poll task ns p now taken) as)"
proof -
  define w' where "w' = port_step w (Poll task ns p now taken)"
  have wf: "om_wf (pw_receives w t)" for t using assms by (simp add: line_ok_def)
  obtain outcome rs where d: "deliver_if_ready task ns p now (pw_queues w) (pw_receives w task) = (outcome, rs)" by fastforce
  have w': "w' = finish_receive task taken outcome (pw_queues w) rs w" using d by (simp add: w'_def)
  have "rs = pw_receives w task \<or> deliver_pending task ns p now (pw_queues w) (pw_receives w task) = (outcome, rs)"
    using deliver_if_ready_cases [of task ns p now "pw_queues w" "pw_receives w task"] d by auto
  then have dn: "om_wf rs \<and> (\<forall>x. x \<noteq> p \<longrightarrow> entry_number rs x = entry_number (pw_receives w task) x) \<and>
      (entry_number rs p = None \<or> entry_number rs p = entry_number (pw_receives w task) p)"
  proof
    assume d': "deliver_pending task ns p now (pw_queues w) (pw_receives w task) = (outcome, rs)"
    show ?thesis using deliver_numbers [OF d' wf] by blast
  qed (simp add: wf)
  have sets: "mq_sets (pw_queues w') = mq_sets (pw_queues w)" "mq_links (pw_queues w') = mq_links (pw_queues w)"
    "mq_next (pw_queues w') = mq_next (pw_queues w)"
    by (simp_all add: w' finish_links)
  have numbers: "entry_number (pw_receives w' t) x =
      (if Waiter t x \<noteq> Waiter task p \<or> waiting w' task p then entry_number (pw_receives w t) x else None)" for t x
    using dn by (cases "t = task"; cases "x = p") (auto simp: waiting_entry w')
  have "om_wf (pw_receives w' t)" for t using dn wf by (simp add: w')
  then have "line_ok (n + 1) w' (filter (\<lambda>a. a \<noteq> Waiter task p \<or> waiting w' task p) as)"
    using numbers sets by (intro line_receives [OF assms]) simp_all
  then show ?thesis unfolding arrive.simps w'_def [symmetric] by (cases "waiting w' task p") simp_all
qed

lemma line_step:
  assumes "line_ok n w as" "n + 2 < 2 ^ 64"
  shows "line_ok (n + 1) (port_step w e) (arrive w e as)"
proof (cases e)
  case (Create_Set s)
  have topo: "topology_ok (pw_queues w)" using assms(1) by (simp add: line_ok_def)
  have "line_ok (n + 1) (port_step w (Create_Set s)) as"
    by (rule line_same [OF assms(1)]) (simp_all add: create_facts create_topology [OF topo] link_numbers_def links_of_def)
  then show ?thesis using Create_Set by simp
next
  case (Enqueue d m)
  have "line_ok (n + 1) (port_step w (Enqueue d m)) as"
    using assms(1) by (intro line_same [OF assms(1)])
      (simp_all add: enqueue_message_def line_ok_def link_numbers_def links_of_def topology_ok_def members_of_def)
  then show ?thesis using Enqueue by simp
next
  case (Drop_Queue d)
  have "line_ok (n + 1) (port_step w (Drop_Queue d)) as"
    using assms(1) by (intro line_same [OF assms(1)]) (simp_all add: line_ok_def link_numbers_def links_of_def topology_ok_def members_of_def)
  then show ?thesis using Drop_Queue by simp
next
  case (Cancel task p)
  have "line_ok (n + 1) (port_step w (Cancel task p)) (filter (\<lambda>a. a \<noteq> Waiter task p) as)"
    using assms(1) by (intro line_receives [OF assms(1)]) (auto simp: line_ok_def entry_erase)
  then show ?thesis using Cancel by simp
next
  case (Cancel_All task)
  have "line_ok (n + 1) (port_step w (Cancel_All task)) (filter (\<lambda>a. \<not> waiter_of task a) as)"
    using assms(1) by (intro line_receives [OF assms(1)]) (auto simp: line_ok_def entry_number_def)
  then show ?thesis using Cancel_All by simp
next
  case (Insert_Member s m)
  then show ?thesis using line_insert [OF assms] by simp
next
  case (Extract_Member s m)
  then show ?thesis using line_set_step(1) [OF assms(1)] by simp
next
  case (Remove_Member m)
  then show ?thesis using line_set_step(2) [OF assms(1)] by simp
next
  case (Erase_Set s)
  then show ?thesis using line_set_step(3) [OF assms(1)] by simp
next
  case (Begin_Receive task ns p call now taken)
  then show ?thesis using line_begin [OF assms] by simp
next
  case (Poll task ns p now taken)
  then show ?thesis using line_poll [OF assms(1)] by simp
qed

definition lined_step :: "(nat \<times> 'm port_world) \<times> arrival list \<Rightarrow> 'm port_event \<Rightarrow> (nat \<times> 'm port_world) \<times> arrival list" where
  "lined_step = (\<lambda>((n, w), as) e. ((n + 1, port_step w e), arrive w e as))"

lemma lined_run:
  "foldl lined_step ((n, w), as) es =
   ((n + length es, foldl port_step w es), snd (foldl (\<lambda>(w, as) e. (port_step w e, arrive w e as)) (w, as) es))"
  by (induction es arbitrary: n w as) (simp_all add: lined_step_def)

definition lined_ok :: "(nat \<times> 'm port_world) \<times> arrival list \<Rightarrow> bool" where
  "lined_ok s \<longleftrightarrow> fst (fst s) + 1 < 2 ^ 64 \<longrightarrow> line_ok (fst (fst s)) (snd (fst s)) (snd s)"

lemma line_init: "line_ok 0 port_world_init []"
proof -
  have "numbered port_world_init []"
    unfolding numbered_def
    by (auto simp: port_world_init_def mach_queues_init_def entry_number_def link_numbers_def links_of_def elim: arrival_number.elims)
  then show ?thesis
    by (auto simp: line_ok_def port_world_init_def mach_queues_init_def topology_ok_def members_of_def links_of_def)
qed

interpretation lines: machine "((0, port_world_init), [])" lined_step lined_ok
proof unfold_locales
  show "lined_ok ((0, port_world_init), [])" by (simp add: lined_ok_def line_init)
next
  fix s :: "(nat \<times> 'a port_world) \<times> arrival list" and e
  obtain n w as where s: "s = ((n, w), as)" by (metis prod.collapse)
  assume "lined_ok s"
  then show "lined_ok (lined_step s e)" using line_step [of n w as e] by (simp add: s lined_step_def lined_ok_def)
qed

lemma run_line: "length es + 1 < 2 ^ 64 \<Longrightarrow> line_ok (length es) (port_run es) (arrivals es)"
  using lines.run_inv [of es] by (simp add: lined_run lined_ok_def port_run_def arrivals_def)

section \<open>The preferred receiver is the first in line\<close>

text \<open>Both folds keep a candidate with the least key.\<close>

definition no_worse :: "candidate \<Rightarrow> candidate \<Rightarrow> bool" where
  "no_worse = (\<lambda>(a, b, p) (a', b', p'). a < a' \<or> (a = a' \<and> b \<le> b'))"

lemma no_worse_simp [simp]: "no_worse (a, b, p) (a', b', p') \<longleftrightarrow> a < a' \<or> (a = a' \<and> b \<le> b')"
  by (simp add: no_worse_def)

definition best_of :: "candidate set \<Rightarrow> candidate option \<Rightarrow> bool" where
  "best_of C best \<longleftrightarrow> (case best of None \<Rightarrow> C = {} | Some c \<Rightarrow> c \<in> C \<and> (\<forall>d\<in>C. no_worse c d))"

lemma no_worse_trans: "no_worse a b \<Longrightarrow> no_worse b c \<Longrightarrow> no_worse a c"
  by (cases a; cases b; cases c) auto

lemma no_worse_refl: "no_worse a a"
  by (cases a) simp

lemma better_choice: "\<exists>x. better c (Some d) = Some x \<and> (x = c \<or> x = d) \<and> no_worse x c \<and> no_worse x d"
  by (cases c; cases d) auto

lemma better_in_set_choice: "fst c = fst d \<Longrightarrow> \<exists>x. better_in_set c (Some d) = Some x \<and> (x = c \<or> x = d) \<and> no_worse x c \<and> no_worse x d"
  by (cases c; cases d) auto

lemma best_insert:
  assumes "best_of C (Some d)" "x = c \<or> x = d" "no_worse x c" "no_worse x d"
  shows "best_of (insert c C) (Some x)"
  using assms no_worse_trans by (auto simp: best_of_def)

lemma best_none: "best_of C None \<Longrightarrow> best_of (insert c C) (Some c)"
  by (simp add: best_of_def no_worse_refl)

lemma better_best: "best_of C best \<Longrightarrow> best_of (insert c C) (better c best)"
proof (cases best)
  case (Some d)
  then show "best_of C best \<Longrightarrow> ?thesis" using better_choice [of c d] best_insert by metis
qed (simp add: best_none)

lemma better_in_set_best:
  assumes "best_of C best" "\<forall>d\<in>C. fst d = fst c"
  shows "best_of (insert c C) (better_in_set c best)"
proof (cases best)
  case (Some d)
  then have "fst c = fst d" using assms by (simp add: best_of_def)
  then show ?thesis using Some assms(1) better_in_set_choice [of c d] best_insert by metis
qed (use assms in \<open>simp add: best_none\<close>)

definition set_candidates :: "pending_receives \<Rightarrow> port_set_link \<Rightarrow> candidate set" where
  "set_candidates rs link = {(sl_sequence link, pr_sequence r, p) | p r. (p, r) \<in> set rs \<and> pr_object r = Some (sl_set link)}"

lemma set_receiver_best: "best_of (set_candidates rs link) (set_receiver rs link)"
proof -
  have "best_of (C \<union> set_candidates rs link)
      (fold (\<lambda>(p, r) selected. if pr_object r = Some (sl_set link) then better_in_set (sl_sequence link, pr_sequence r, p) selected else selected) rs best)"
    if "best_of C best" "\<forall>d\<in>C. fst d = sl_sequence link" for C best
    using that
  proof (induction rs arbitrary: C best)
    case (Cons e rs)
    obtain p r where e: "e = (p, r)" by (cases e)
    show ?case
    proof (cases "pr_object r = Some (sl_set link)")
      case True
      let ?c = "(sl_sequence link, pr_sequence r, p)"
      have "best_of (insert ?c C \<union> set_candidates rs link)
          (fold (\<lambda>(p, r) selected. if pr_object r = Some (sl_set link) then better_in_set (sl_sequence link, pr_sequence r, p) selected else selected)
            rs (better_in_set ?c best))"
        using Cons.prems by (intro Cons.IH better_in_set_best) auto
      moreover have "insert ?c C \<union> set_candidates rs link = C \<union> set_candidates (e # rs) link"
        using True e by (auto simp: set_candidates_def)
      ultimately show ?thesis using True e by simp
    next
      case False
      then have "set_candidates (e # rs) link = set_candidates rs link" using e by (auto simp: set_candidates_def)
      then show ?thesis using False e Cons by simp
    qed
  qed (simp add: set_candidates_def)
  from this [of "{}" None] show ?thesis by (simp add: set_receiver_def best_of_def)
qed

definition direct_candidates :: "pending_receives \<Rightarrow> u32 \<Rightarrow> candidate set" where
  "direct_candidates rs q = {(pr_sequence r, pr_sequence r, p) | p r. (p, r) \<in> set rs \<and> pr_object r = Some q}"

lemma direct_best:
  "best_of (direct_candidates rs q)
    (fold (\<lambda>(p, r) selected. if pr_object r = Some q then better (pr_sequence r, pr_sequence r, p) selected else selected) rs None)"
proof -
  have "best_of (C \<union> direct_candidates rs q)
      (fold (\<lambda>(p, r) selected. if pr_object r = Some q then better (pr_sequence r, pr_sequence r, p) selected else selected) rs best)"
    if "best_of C best" for C best
    using that
  proof (induction rs arbitrary: C best)
    case (Cons e rs)
    obtain p r where e: "e = (p, r)" by (cases e)
    show ?case
    proof (cases "pr_object r = Some q")
      case True
      let ?c = "(pr_sequence r, pr_sequence r, p)"
      have "best_of (insert ?c C \<union> direct_candidates rs q)
          (fold (\<lambda>(p, r) selected. if pr_object r = Some q then better (pr_sequence r, pr_sequence r, p) selected else selected) rs (better ?c best))"
        by (intro Cons.IH better_best Cons.prems)
      moreover have "insert ?c C \<union> direct_candidates rs q = C \<union> direct_candidates (e # rs) q"
        using True e by (auto simp: direct_candidates_def)
      ultimately show ?thesis using True e by simp
    next
      case False
      then have "direct_candidates (e # rs) q = direct_candidates rs q" using e by (auto simp: direct_candidates_def)
      then show ?thesis using False e Cons by simp
    qed
  qed (simp add: direct_candidates_def)
  from this [of "{}" None] show ?thesis by (simp add: best_of_def)
qed

text \<open>Only the best of each set is considered; the rest of the set is no better.\<close>

lemma links_best:
  assumes "best_of C best"
  shows "best_of (C \<union> (\<Union>link\<in>set links. set_candidates rs link))
    (fold (\<lambda>link selected. case set_receiver rs link of None \<Rightarrow> selected | Some c \<Rightarrow> better c selected) links best)"
  using assms
proof (induction links arbitrary: C best)
  case (Cons link links)
  have step: "best_of (C \<union> set_candidates rs link) (case set_receiver rs link of None \<Rightarrow> best | Some c \<Rightarrow> better c best)"
  proof (cases "set_receiver rs link")
    case None
    then show ?thesis using set_receiver_best [of rs link] Cons.prems by (simp add: best_of_def)
  next
    case (Some c)
    then have c: "c \<in> set_candidates rs link" "\<forall>d\<in>set_candidates rs link. no_worse c d"
      using set_receiver_best [of rs link] by (simp_all add: best_of_def)
    have "better c best \<noteq> None" by (cases "(c, best)" rule: better.cases) auto
    then obtain b where b: "better c best = Some b" by blast
    then have "b \<in> insert c C" "\<forall>d\<in>insert c C. no_worse b d"
      using better_best [OF Cons.prems, of c] by (simp_all add: best_of_def)
    then have "b \<in> C \<union> set_candidates rs link" "\<forall>d\<in>C \<union> set_candidates rs link. no_worse b d"
      using c no_worse_trans by blast+
    then show ?thesis using Some b by (simp add: best_of_def)
  qed
  show ?case using Cons.IH [OF step] by (simp add: Un_assoc)
qed simp

text \<open>The candidates are the receives in the port's wait queue, by their numbers.\<close>

definition offer :: "u32 \<Rightarrow> (nat \<Rightarrow> u32 option) \<Rightarrow> arrival list \<Rightarrow> u32 \<Rightarrow> arrival \<Rightarrow> nat option" where
  "offer task object all q a =
     (case a of
        Waiter t p \<Rightarrow> if t = task \<and> object p = Some q then Some p else None
      | Link m s \<Rightarrow> if m = q then first_of_set task object all s else None)"

lemma first_in_line_offer:
  "first_in_line task object all q as =
   (case filter (\<lambda>a. offer task object all q a \<noteq> None) as of [] \<Rightarrow> None | a # _ \<Rightarrow> offer task object all q a)"
  by (induction task object all q as rule: first_in_line.induct) (auto simp: offer_def split: option.split)

text \<open>Of a list in increasing order of numbers, the first that qualifies is the one of least number.\<close>

lemma first_is_least:
  assumes "sorted_wrt (\<lambda>a b. fst a < fst b) (ws :: (nat \<times> arrival) list)" "(k, a) \<in> set ws" "P a" "\<And>j b. (j, b) \<in> set ws \<Longrightarrow> P b \<Longrightarrow> k \<le> j"
  shows "\<exists>rest. filter P (map snd ws) = a # rest"
  using assms
proof (induction ws)
  case (Cons e ws)
  show ?case
  proof (cases "P (snd e)")
    case True
    then have "k \<le> fst e" using Cons.prems(4) [of "fst e" "snd e"] by simp
    moreover have "\<not> k < fst e \<and> (k = fst e \<longrightarrow> (k, a) = e)"
      using Cons.prems(1,2) by (cases e) (auto dest!: bspec)
    ultimately have "e = (k, a)" by simp
    then show ?thesis using True by simp
  next
    case False
    then have "(k, a) \<in> set ws" using Cons.prems(2,3) by (cases e) auto
    then show ?thesis using False Cons by auto
  qed
qed simp

lemma first_of_set_least:
  assumes ws: "numbered w ws" and wf: "om_wf (pw_receives w task)"
    and object: "\<And>p. object p = (case map_of rs p of None \<Rightarrow> None | Some r \<Rightarrow> pr_object r)"
    and rs: "\<And>p. map_option pr_sequence (map_of rs p) = map_option pr_sequence (map_of (pw_receives w task) p)"
    and best: "map_of rs p = Some r" "pr_object r = Some s"
      "\<And>p' r'. map_of rs p' = Some r' \<Longrightarrow> pr_object r' = Some s \<Longrightarrow> pr_sequence r \<le> pr_sequence r'"
  shows "first_of_set task object (map snd ws) s = Some p"
proof -
  let ?P = "\<lambda>a. case a of Waiter t p \<Rightarrow> t = task \<and> object p = Some s | Link _ _ \<Rightarrow> False"
  have number: "entry_number (pw_receives w task) x = map_option unat (map_option pr_sequence (map_of rs x))" for x
    by (simp add: rs entry_number_def option.map_comp comp_def)
  have mem: "(k, a) \<in> set ws \<longleftrightarrow> arrival_number w k a" for k a using ws by (simp add: numbered_def)
  have "\<exists>rest. filter ?P (map snd ws) = Waiter task p # rest"
  proof (rule first_is_least)
    show "sorted_wrt (\<lambda>a b. fst a < fst b) ws" using ws by (simp add: numbered_def)
    show "(unat (pr_sequence r), Waiter task p) \<in> set ws" by (simp add: mem number best)
    show "?P (Waiter task p)" by (simp add: object best)
    show "unat (pr_sequence r) \<le> j" if j: "(j, b) \<in> set ws" and P: "?P b" for j b
    proof (cases b)
      case (Waiter t x)
      then have t: "t = task" and "object x = Some s" using P by simp_all
      then obtain r' where r': "map_of rs x = Some r'" "pr_object r' = Some s" using object by (auto split: option.splits)
      then have "j = unat (pr_sequence r')" using j Waiter t by (simp add: mem number)
      then show ?thesis using best(3) [OF r'] by (simp add: word_le_nat_alt)
    next
      case (Link m s')
      then show ?thesis using P by simp
    qed
  qed
  then show ?thesis by (auto simp: first_of_set_def)
qed

lemma preferred_first:
  fixes w :: "'m port_world"
  assumes line: "line_ok n w as"
  shows "snd (preferred_receiver task ns q (pw_queues w) (pw_receives w task)) =
    first_in_line task (wait_object task ns (pw_receives w task)) as q as"
proof -
  define object where "object = wait_object task ns (pw_receives w task)"
  define rs where "rs = resolve_receives task ns (pw_receives w task)"
  define C where "C = direct_candidates rs q \<union> (\<Union>link\<in>set (links_of (pw_queues w) q). set_candidates rs link)"
  obtain ws where ws: "numbered w ws" "as = map snd ws" using line by (auto simp: line_ok_def)
  have wf: "om_wf (pw_receives w task)" "om_wf rs" using line by (simp_all add: line_ok_def rs_def)
  have obj: "object p = (case map_of rs p of None \<Rightarrow> None | Some r \<Rightarrow> pr_object r)" for p
    by (simp add: object_def wait_object_def rs_def split: option.split)
  have seqs: "map_option pr_sequence (map_of rs p) = map_option pr_sequence (map_of (pw_receives w task) p)" for p
    by (simp add: rs_def option.map_comp comp_def)
  have number: "entry_number (pw_receives w task) x = map_option unat (map_option pr_sequence (map_of rs x))" for x
    by (simp add: seqs entry_number_def option.map_comp comp_def)
  have mem: "(k, a) \<in> set ws \<longleftrightarrow> arrival_number w k a" for k a using ws by (simp add: numbered_def)
  have direct: "(pr_sequence r, pr_sequence r, p) \<in> C" if "map_of rs p = Some r" "pr_object r = Some q" for p r
    using that wf by (auto simp: C_def direct_candidates_def om_lookup_mem)
  have via_link: "(sl_sequence l, pr_sequence r, p) \<in> C"
    if "l \<in> set (links_of (pw_queues w) q)" "map_of rs p = Some r" "pr_object r = Some (sl_set l)" for l p r
    using that wf by (auto simp: C_def set_candidates_def om_lookup_mem)
  have offered: "\<exists>c\<in>C. unat (fst c) = j" if jb: "(j, b) \<in> set ws" and P: "offer task object as q b \<noteq> None" for j b
  proof (cases b)
    case (Waiter t x)
    then have "t = task" "object x = Some q" using P by (auto simp: offer_def split: if_splits)
    then obtain r where r: "map_of rs x = Some r" "pr_object r = Some q" using obj by (auto split: option.splits)
    then have "j = unat (pr_sequence r)" using jb Waiter \<open>t = task\<close> by (simp add: mem number)
    then show ?thesis using direct [OF r] by force
  next
    case (Link m s)
    then have m: "m = q" and "first_of_set task object as s \<noteq> None" using P by (auto simp: offer_def split: if_splits)
    then obtain x where "object x = Some s" by (auto simp: first_of_set_def dest!: filter_eq_ConsD split: list.splits arrival.splits)
    then obtain r where r: "map_of rs x = Some r" "pr_object r = Some s" using obj by (auto split: option.splits)
    obtain l where l: "l \<in> set (links_of (pw_queues w) q)" "sl_set l = s" "j = unat (sl_sequence l)"
      using jb Link m by (auto simp: mem link_numbers_def)
    then show ?thesis using via_link [OF l(1) r(1)] r(2) by force
  qed
  define selected where "selected = fold (\<lambda>link selected. case set_receiver rs link of None \<Rightarrow> selected | Some c \<Rightarrow> better c selected)
      (links_of (pw_queues w) q)
      (fold (\<lambda>(p, r) selected. if pr_object r = Some q then better (pr_sequence r, pr_sequence r, p) selected else selected) rs None)"
  have best: "best_of C selected" unfolding selected_def C_def by (intro links_best direct_best)
  have pref: "snd (preferred_receiver task ns q (pw_queues w) (pw_receives w task)) = map_option (\<lambda>(_, _, p). p) selected"
    unfolding preferred_receiver_def selected_def rs_def links_of_def by (simp add: Let_def)
  have sorted: "sorted_wrt (\<lambda>a b. fst a < fst b) ws" using ws by (simp add: numbered_def)
  have line: "first_in_line task object as q as = (case filter (\<lambda>a. offer task object as q a \<noteq> None) as of [] \<Rightarrow> None | a # _ \<Rightarrow> offer task object as q a)"
    by (rule first_in_line_offer)
  show ?thesis
  proof (cases selected)
    case None
    then have "C = {}" using best by (simp add: best_of_def)
    then have "offer task object as q a = None" if "a \<in> set as" for a using offered that ws(2) by fastforce
    then have "filter (\<lambda>a. offer task object as q a \<noteq> None) as = []" by simp
    then show ?thesis using line pref None unfolding object_def by simp
  next
    case (Some c)
    obtain e receiver p where c: "c = (e, receiver, p)" by (metis prod_cases3)
    have least: "no_worse c d" if "d \<in> C" for d using best Some that by (simp add: best_of_def)
    have bound: "unat e \<le> j" if jb: "(j, b) \<in> set ws" "offer task object as q b \<noteq> None" for j b
    proof -
      obtain d where d: "d \<in> C" "unat (fst d) = j" using offered [OF jb] by blast
      then show ?thesis using least [OF d(1)] unfolding c by (cases d) (auto simp: word_less_nat_alt)
    qed
    have chosen: "first_in_line task object as q as = Some p" if "(unat e, a) \<in> set ws" "offer task object as q a = Some p" for a
      using first_is_least [OF sorted that(1), of "\<lambda>a. offer task object as q a \<noteq> None"] that(2) bound line ws(2) by fastforce
    have "c \<in> C" using best Some by (simp add: best_of_def)
    then consider (direct) r where "map_of rs p = Some r" "pr_object r = Some q" "e = pr_sequence r"
      | (linked) l r where "l \<in> set (links_of (pw_queues w) q)" "map_of rs p = Some r" "pr_object r = Some (sl_set l)"
          "e = sl_sequence l" "receiver = pr_sequence r"
      using wf unfolding C_def c direct_candidates_def set_candidates_def by (auto simp: om_lookup_mem)
    then have "first_in_line task object as q as = Some p"
    proof cases
      case direct
      then show ?thesis by (intro chosen [of "Waiter task p"]) (simp_all add: mem number offer_def obj)
    next
      case linked
      have "first_of_set task object (map snd ws) (sl_set l) = Some p"
      proof (rule first_of_set_least [OF ws(1) wf(1) obj seqs linked(2,3)])
        fix p' r' assume "map_of rs p' = Some r'" "pr_object r' = Some (sl_set l)"
        then have "no_worse c (sl_sequence l, pr_sequence r', p')"
          by (intro least via_link [OF linked(1)])
        then show "pr_sequence r \<le> pr_sequence r'" using linked c by simp
      qed
      then show ?thesis using linked ws(2) by (intro chosen [of "Link q (sl_set l)"]) (auto simp: mem link_numbers_def offer_def)
    qed
    then show ?thesis using pref Some c unfolding object_def by simp
  qed
qed

section \<open>Claims\<close>

lemma topology_step: "topology_ok (pw_queues w) \<Longrightarrow> topology_ok (pw_queues (port_step w e))"
proof (induction w e rule: port_step.induct)
  case (8 w task ns p call now taken)
  obtain outcome st rs where b: "begin_receive task ns p call now (pw_queues w) (pw_receives w task) = (outcome, st, rs)" by (metis prod_cases3)
  then have "mq_sets st = mq_sets (pw_queues w)" "mq_links st = mq_links (pw_queues w)"
    by (auto elim!: begin_receive_cases simp: allocate_facts)
  then have "topology_ok st" using 8 same_links(1) by blast
  then show ?case using b by (simp add: same_links(1) [OF finish_links(1,2)])
next
  case (9 w task ns p now taken)
  then show ?case by (simp add: case_prod_beta same_links(1) [OF finish_links(1,2)])
qed (simp_all add: create_topology insert_topology extract_topology remove_all_topology erase_set_topology,
  simp_all add: topology_ok_def members_of_def links_of_def enqueue_message_def)

interpretation topology: machine port_world_init port_step "\<lambda>w. topology_ok (pw_queues w)"
proof unfold_locales
  show "topology_ok (pw_queues port_world_init)"
    by (simp add: topology_ok_def members_of_def links_of_def port_world_init_def mach_queues_init_def)
qed (rule topology_step)

text \<open>
  After any history of port sets, messages and receives, the sets and the reverse index of links mirror
  each other: a set lists a member, once, exactly when the member has a link to the set, once, and no member
  without sets keeps an empty list of links.
\<close>

theorem port_set_links_mirror_sets:
  "(m \<in> set (members_of (pw_queues (port_run es)) s) \<longleftrightarrow> s \<in> sl_set ` set (links_of (pw_queues (port_run es)) m)) \<and>
   distinct (members_of (pw_queues (port_run es)) s) \<and> distinct (map sl_set (links_of (pw_queues (port_run es)) m)) \<and>
   mq_links (pw_queues (port_run es)) m \<noteq> Some []"
  using topology.run_inv [of es] by (simp add: topology_ok_def port_run_def)

text \<open>
  C39: The receiver of a queued message is the first in line: with all receives and all links from members to
  sets in their order of arrival, it is the first receive on the port itself, or, where a link comes first
  whose set has receives, the first receive on that set. The choice by sequence numbers finds it in any
  history short enough not to wrap the counter.
\<close>

theorem preferred_receiver_is_first_in_line:
  fixes es :: "'m port_event list"
  assumes "length es + 1 < 2 ^ 64"
  shows "snd (preferred_receiver task ns q (pw_queues (port_run es)) (pw_receives (port_run es) task)) =
    first_in_line task (wait_object task ns (pw_receives (port_run es) task)) (arrivals es) q (arrivals es)"
  by (rule preferred_first [OF run_line [OF assms]])

definition sample_names :: namespace_table where
  "sample_names = [(7, \<lparr>sp_next_name = 3,
     sp_entries = [(1, make_entry 100 (type_mask Receive) 1), (2, make_entry 200 (type_mask PortSet) 1)], sp_names = Map.empty\<rparr>)]"

definition sample_call :: "u32 \<Rightarrow> receive_call" where
  "sample_call name = \<lparr>rc_address = 0, rc_size = 64, rc_name = name, rc_options = 2, rc_timeout = 0\<rparr>"

definition sample_events :: "nat port_event list" where
  "sample_events = [Create_Set 200, Insert_Member 200 100, Begin_Receive 7 sample_names 1 (sample_call 1) 0 True,
     Begin_Receive 7 sample_names 0 (sample_call 2) 0 True]"

theorem preferred_receiver_is_first_in_line_witness:
  "arrivals sample_events = [Link 100 200, Waiter 7 1, Waiter 7 0] \<and>
   snd (preferred_receiver 7 sample_names 100 (pw_queues (port_run sample_events)) (pw_receives (port_run sample_events) 7)) = Some 0"
proof -
  have arr: "arrivals sample_events = [Link 100 200, Waiter 7 1, Waiter 7 0]" by code_simp
  have obj: "wait_object 7 sample_names (pw_receives (port_run sample_events) 7) 0 = Some 200"
    "wait_object 7 sample_names (pw_receives (port_run sample_events) 7) 1 = Some 100" by code_simp+
  have "length sample_events + 1 < 2 ^ 64" by (simp add: sample_events_def)
  from preferred_receiver_is_first_in_line [OF this, of 7 sample_names 100] show ?thesis
    using arr obj by (simp add: first_of_set_def)
qed

text \<open>
  C40: A poll that the generation of the queues lets a receiver skip would have found nothing: in any history
  short enough not to wrap the counter, checking the generation first has the result of the full search.
\<close>

theorem skipped_poll_misses_nothing:
  fixes es :: "'m port_event list"
  assumes "length es + 1 < 2 ^ 64"
  shows "fst (deliver_if_ready task ns p now (pw_queues (port_run es)) (pw_receives (port_run es) task)) =
    fst (deliver_pending task ns p now (pw_queues (port_run es)) (pw_receives (port_run es) task))"
proof -
  define st rs where "st = pw_queues (port_run es)" and "rs = pw_receives (port_run es) task"
  have ok: "generations_ok st rs" using run_generations [OF assms] by (simp add: generations_kept_def st_def rs_def)
  have "fst (deliver_if_ready task ns p now st rs) = fst (deliver_pending task ns p now st rs)"
  proof (cases "map_of rs p")
    case None
    then show ?thesis by (simp add: deliver_if_ready_def deliver_pending_def)
  next
    case (Some r)
    show ?thesis
    proof (cases "pr_object r \<noteq> None \<and> pr_generation r = mq_generation st \<and> \<not> expired now r")
      case True
      then obtain object where object: "pr_object r = Some object" by auto
      then have "quiet st object" using generations_entry [OF ok Some] True by simp
      then have "fst (deliver_pending task ns p now st rs) = Blocked"
        using Some object True by (simp add: deliver_pending_def select_quiet)
      then show ?thesis using Some True by (simp add: deliver_if_ready_def)
    next
      case False
      then show ?thesis using Some by (auto simp: deliver_if_ready_def)
    qed
  qed
  then show ?thesis by (simp add: st_def rs_def)
qed

theorem skipped_poll_misses_nothing_witness:
  "fst (deliver_if_ready 7 sample_names 0 5 (pw_queues (port_run (sample_events @ [Enqueue 100 42]))) (pw_receives (port_run (sample_events @ [Enqueue 100 42])) 7)) =
   Message 100 42"
proof -
  have "fst (deliver_pending 7 sample_names 0 5 (pw_queues (port_run (sample_events @ [Enqueue 100 42]))) (pw_receives (port_run (sample_events @ [Enqueue 100 42])) 7)) =
    Message 100 42"
    by code_simp
  then show ?thesis
    using skipped_poll_misses_nothing [of "sample_events @ [Enqueue 100 42]" 7 sample_names 0 5] by (simp add: sample_events_def)
qed

end
