(* ===== verification/Spec2Isabelle.thy ===== *)
theory Spec2Isabelle
  imports Vm_Map Deadline_Queue Virtual_Clock Mach_Namespace Xnu_Scheduler_Properties File_Lock_Calls Address_Space_Properties Mach_Semaphore_Properties
    Interval_Timer_Properties Virtual_Udp_Properties Virtual_Udp_Control Host_Resources_Properties
    Shared_Region_Properties Jit_Profile_Properties Content_Identity_Properties Mach_Receive_Properties
begin

text \<open>
  iLSim runs the user land of an early iPhone OS: ARM code is recompiled, and its system calls are
  served by a compatibility kernel. This library models the data structures and handlers of that
  kernel which decide what a guest program may observe: its memory, the scheduler, the names of its
  Mach ports, semaphores, locks on files, timers and the network between guests.

  The parts and how they interact. A guest process has an address space (\<open>AddressSpace\<close>), which keeps an
  interval map of permissions (\<open>VmMap\<close>), an index of the permissions by page, and pages of physical
  memory, some of them from the cache of file pages. Its threads are run in slices by the scheduler
  (\<open>XnuScheduler\<close>). Its ports have names in the table of name spaces (\<open>MachNamespaceTable\<close>), through which
  the semaphore traps find the semaphores. Calls such as \<open>setitimer\<close> read and write guest structures
  through the address space; deadlines are kept in \<open>DeadlineQueue\<close>, and the time is that of
  \<open>VirtualClock\<close>. \<open>HostResourceController\<close> hands compilation work to threads of the host.

  Theories, in the order of their imports:

  \<^item> \<open>Ilsim_Prelude\<close>: integer types, \<open>std::map\<close> as an association list in key order (\<open>omap\<close>), saturating
    addition, results that are an error or a value, and the locales \<open>machine\<close> and \<open>refining_machine\<close>: a
    start state, a step function and an invariant, with the fact that every history keeps the
    invariant and, for the second, that it computes what an abstract machine computes. Every
    component that has a history interprets one of them.
  \<^item> \<open>Vm_Map\<close>: \<open>src/foundation/memory/vm_map.cpp\<close>. \<open>map_or\<close>, \<open>unmap\<close>, \<open>protect\<close>, \<open>accessible\<close>, \<open>overlaps\<close> and
    \<open>region_at_or_after\<close> over the ordered map of regions. The abstract specification is the function
    from addresses to permissions (\<open>perm_at\<close>); the lemmas show that each operation acts on it byte by
    byte, that the representation is canonical, and that \<open>protect\<close> does nothing when it fails.
  \<^item> \<open>File_Page_Cache\<close>: \<open>src/foundation/memory/file_page_cache.cpp\<close>. Physical pages, the cache with its two
    bounds, loading, read ahead and write back.
  \<^item> \<open>Address_Space\<close>, \<open>Address_Space_Ops\<close>: \<open>src/foundation/address_space.cpp\<close>, one definition per function or
    loop, over a heap of the page maps, permission chunks, caches and physical pages that forked
    spaces share. \<open>Address_Space_Pages\<close>, \<open>Address_Space_Writes\<close>, \<open>Address_Space_Stores\<close>,
    \<open>Address_Space_Sharing\<close>, \<open>Address_Space_Faults\<close>, \<open>Address_Space_Invariant\<close>, \<open>Address_Space_Index\<close> and
    \<open>Address_Space_Permissions\<close> have the invariant (who may write a page in place, what the lookup
    tables point at, how flags and regions agree) and its preservation; \<open>Address_Space_Worlds\<close> and
    \<open>Address_Space_Histories\<close> lift it to all interleavings of operations on all spaces;
    \<open>Address_Space_Properties\<close> states what guests rely on.
  \<^item> \<open>Guest_Memory\<close>, \<open>Address_Space_Words\<close>: the locale \<open>guest_memory\<close> is the interface of words that calls
    of the kernel use; \<open>space_words\<close> interprets it on the address spaces.
  \<^item> \<open>Deadline_Queue\<close>: \<open>include/ilemu/deadline_queue.hpp\<close>, against a map from keys to deadlines.
  \<^item> \<open>Virtual_Clock\<close>: \<open>src/foundation/virtual_clock.cpp\<close>, with wrap-around and saturation written out.
  \<^item> \<open>Interval_Timer\<close>, \<open>Interval_Timer_Properties\<close>: \<open>src/kernel/bsd/process/interval_timer.cpp\<close>.
  \<^item> \<open>Mach_Namespace\<close>: \<open>src/mach/mach_namespace.cpp\<close>. Name spaces of tasks with user references, the
    reverse index from objects to names, and the scans the index replaces.
  \<^item> \<open>Mach_Semaphore\<close>, \<open>Mach_Semaphore_Histories\<close>, \<open>Mach_Semaphore_Properties\<close>:
    \<open>src/kernel/mach/semaphore.cpp\<close> and the places that touch semaphores in \<open>traps.cpp\<close>,
    \<open>rights_message.cpp\<close>, \<open>support.cpp\<close>, \<open>bsd/process.cpp\<close> and \<open>kernel.cpp\<close>.
  \<^item> \<open>Xnu_Run_Queue\<close>, \<open>Xnu_Scheduler\<close>, \<open>Xnu_Scheduler_Safety\<close>, \<open>Xnu_Scheduler_Properties\<close>:
    \<open>src/mach/xnu_scheduler.cpp\<close>. Run queues with their bitmap, policies, priorities, ageing, the failsafe
    and the end of a slice; the second half is the invariant and what follows from it.
  \<^item> \<open>File_Lock\<close>, \<open>File_Lock_Calls\<close>: \<open>src/kernel/bsd/filesystem/locking.cpp\<close> and its callers. The registry of
    locks against the map from bytes to owners, and the calls with waiting requests.
  \<^item> \<open>Virtual_Udp\<close>, \<open>Virtual_Udp_Histories\<close>, \<open>Virtual_Udp_Properties\<close>, \<open>Virtual_Udp_Control\<close>:
    \<open>src/kernel/bsd/network/virtual_udp.cpp\<close>. Sockets, delivery, and the control messages against a parser.
  \<^item> \<open>Host_Resources\<close>, \<open>Host_Resources_Properties\<close>: \<open>src/foundation/host_resource_controller.cpp\<close>.
  \<^item> \<open>Address_Space_Regions\<close>, \<open>Address_Space_Files\<close>, \<open>Address_Space_Contents\<close>: what mapping, unmapping and
    reading do to the regions of a space page by page; that the file mappings of a space never overlap and
    lie in mapped memory, in every reachable world; and which bytes, and which pages still to come from
    files, each of these operations leaves as they were.
  \<^item> \<open>Shared_Region\<close>, \<open>Shared_Region_Properties\<close>: \<open>src/kernel/bsd/vm/shared_region.cpp\<close> on the address
    spaces: reading and merging the ranges to keep, what is released, the choice of a slide, mapping and
    roll back, for rights and contents alike.
  \<^item> \<open>Jit_Profile\<close>, \<open>Jit_Profile_Properties\<close>: \<open>src/foundation/jit_translation_profile.cpp\<close>. Profiles, their
    file format and the store over runs of the simulator.
  \<^item> \<open>Content_Identity\<close>, \<open>Content_Identity_Properties\<close>: \<open>src/foundation/content_identity.cpp\<close>. SHA-256 over
    a stream against the padded message, and the readers of files with interruptions and short reads.
  \<^item> \<open>Mach_Receive\<close>, \<open>Mach_Receive_Properties\<close>: the port sets and queues of
    \<open>include/ilemu/kernel_shared_state.hpp\<close>, receives in \<open>src/kernel/mach/message.cpp\<close> and
    \<open>src/kernel/mach/ipc.cpp\<close>, against wait queues as explicit lists of arrivals.

  Choices. Integers are words where the code wraps or compares at a width, and \<open>nat\<close> or \<open>int\<close> where a
  guard of the code keeps them in range (addresses of spaces, under the checks for overflow) or
  where the width is that of counters and nanoseconds that no run exhausts; each theory says which.
  Exceptions the code may throw are values, and the properties say where there is none. Iteration
  orders of hash tables, the contents and status of host files, and the clock are arguments of the
  operations, so the theorems hold for every one of them. Objects shared through \<open>shared_ptr\<close> live in
  explicit heaps, and \<open>unique\<close> is a count of references. Critical sections are atomic steps; histories
  are any sequences of such steps. Loops that start over, such as a read that faults a page in, are
  partial functions, with the theorem that they return in every reachable state; no fuel is used.

  Not modelled: the renderers, GPU and audio code (floating point and drivers); the recompiler
  (a library that is not in the repository); the loaders and the file system calls (parsers of and
  calls to host files); the copying of rights and memory in Mach messages and the decoding of IOKit requests, whose effects on name
  spaces, semaphores, timers and address spaces are the operations modelled here; host sockets; the
  emulation of user land frameworks, the tables of device profiles, and diagnostics. Within the parts
  that are modelled, log output, performance counters and the mutexes themselves are left out.
\<close>

end
